(* ===== verification/Prelude.thy ===== *)
theory Prelude
  imports Main "HOL-Library.Word" "HOL-Library.Monad_Syntax"
begin

unbundle bit_operations_syntax

text \<open>
  Shared vocabulary of the development: the machine integer types of
  \<open>src/os/ccore/types.h\<close>, array accesses that make an out-of-range access visible, the
  failure values of kernel code, the state-and-failure monad in which coroutine code is
  written, and the list and word lemmas several components use.
\<close>

section \<open>Machine integers\<close>

type_synonym u8 = "8 word"
type_synonym u16 = "16 word"
type_synonym u32 = "32 word"
type_synonym u64 = "64 word"

named_theorems word_bounds \<open>conversions of machine integers to natural numbers\<close>
named_theorems kernel_run \<open>equations that run a step of kernel code\<close>

section \<open>Arrays\<close>

text \<open>
  C++ does not check array indices. An access outside the array is undefined behaviour in the
  source and \<open>None\<close> in the model, so that every theorem that a function returns \<open>Some\<close> result
  also says that it stays inside its arrays.
\<close>

definition arr_get :: "'a list \<Rightarrow> nat \<Rightarrow> 'a option" where
  "arr_get xs i = (if i < length xs then Some (xs ! i) else None)"

definition arr_set :: "'a list \<Rightarrow> nat \<Rightarrow> 'a \<Rightarrow> 'a list option" where
  "arr_set xs i v = (if i < length xs then Some (xs[i := v]) else None)"

section \<open>Failures and the kernel monad\<close>

text \<open>
  Kernel code ends in one of these ways: it returns a value; it fails (\<open>co_return task_fail\<close>, or
  a null result the caller propagates); it panics (\<open>panic\<close>, \<open>kernel_assert\<close>); or it performs an
  access the language leaves undefined. \<open>*co_await t\<close> aborts the awaiting coroutine when \<open>t\<close>
  failed (\<open>coroutine_handle_fail\<close> resumes the nearest error handler), which is what \<open>kbind\<close>
  does with a failure. The state at the time of the failure is kept. \<open>Out_Of_Fuel\<close> marks a loop
  of the model that was given too few iterations; theorems about such loops show that a bound
  on the fuel suffices.
\<close>

datatype kerror = Task_Fail | Panic string | Undefined | Out_Of_Fuel

type_synonym ('s, 'a) kmonad = "'s \<Rightarrow> (kerror + 'a) \<times> 's"

definition kret :: "'a \<Rightarrow> ('s, 'a) kmonad" where
  "kret x = (\<lambda>s. (Inr x, s))"

definition kthrow :: "kerror \<Rightarrow> ('s, 'a) kmonad" where
  "kthrow e = (\<lambda>s. (Inl e, s))"

definition kbind :: "('s, 'a) kmonad \<Rightarrow> ('a \<Rightarrow> ('s, 'b) kmonad) \<Rightarrow> ('s, 'b) kmonad" where
  "kbind m f = (\<lambda>s. case m s of (Inl e, s') \<Rightarrow> (Inl e, s') | (Inr x, s') \<Rightarrow> f x s')"

definition kseq :: "('s, 'a) kmonad \<Rightarrow> ('s, 'b) kmonad \<Rightarrow> ('s, 'b) kmonad" where
  "kseq m n = kbind m (\<lambda>_. n)"

definition kget :: "('s \<Rightarrow> 'a) \<Rightarrow> ('s, 'a) kmonad" where
  "kget f = (\<lambda>s. (Inr (f s), s))"

definition kmod :: "('s \<Rightarrow> 's) \<Rightarrow> ('s, unit) kmonad" where
  "kmod f = (\<lambda>s. (Inr (), f s))"

definition kassert :: "bool \<Rightarrow> string \<Rightarrow> ('s, unit) kmonad" where
  "kassert b msg = (if b then kret () else kthrow (Panic msg))"

definition kopt :: "'a option \<Rightarrow> ('s, 'a) kmonad" where
  "kopt r = (case r of None \<Rightarrow> kthrow Undefined | Some x \<Rightarrow> kret x)"

section \<open>Lemmas\<close>

lemma arr_get_Some [simp]: "i < length xs \<Longrightarrow> arr_get xs i = Some (xs ! i)"
  by (simp add: arr_get_def)

lemma arr_set_Some [simp]: "i < length xs \<Longrightarrow> arr_set xs i v = Some (xs[i := v])"
  by (simp add: arr_set_def)

lemma arr_get_eq_Some_iff: "arr_get xs i = Some x \<longleftrightarrow> i < length xs \<and> xs ! i = x"
  by (auto simp: arr_get_def)

lemma arr_set_eq_Some_iff: "arr_set xs i v = Some ys \<longleftrightarrow> i < length xs \<and> ys = xs[i := v]"
  by (auto simp: arr_set_def)

lemma arr_get_None_iff: "arr_get xs i = None \<longleftrightarrow> length xs \<le> i"
  by (auto simp: arr_get_def)

lemma kret_run [simp, kernel_run]: "kret x s = (Inr x, s)"
  by (simp add: kret_def)

lemma kthrow_run [simp, kernel_run]: "kthrow e s = (Inl e, s)"
  by (simp add: kthrow_def)

lemma kget_run [simp, kernel_run]: "kget f s = (Inr (f s), s)"
  by (simp add: kget_def)

lemma kmod_run [simp, kernel_run]: "kmod f s = (Inr (), f s)"
  by (simp add: kmod_def)

lemma kassert_run [simp, kernel_run]:
  "kassert b msg s = (if b then (Inr (), s) else (Inl (Panic msg), s))"
  by (simp add: kassert_def)

lemma kopt_run [simp, kernel_run]:
  "kopt r s = (case r of None \<Rightarrow> (Inl Undefined, s) | Some x \<Rightarrow> (Inr x, s))"
  by (simp add: kopt_def split: option.splits)

lemma kbind_Inr [simp, kernel_run]: "m s = (Inr x, s') \<Longrightarrow> kbind m f s = f x s'"
  by (simp add: kbind_def)

lemma kbind_Inl [simp, kernel_run]: "m s = (Inl e, s') \<Longrightarrow> kbind m f s = (Inl e, s')"
  by (simp add: kbind_def)

lemma kbind_Inr_bool [simp, kernel_run]:
  "m s = (Inr True, s') \<Longrightarrow> kbind m f s = f True s'"
  "m s = (Inr False, s') \<Longrightarrow> kbind m f s = f False s'"
  by (simp_all add: kbind_def)

lemma kseq_Inr [simp, kernel_run]: "m s = (Inr x, s') \<Longrightarrow> kseq m n s = n s'"
  by (simp add: kseq_def)

lemma kseq_Inl [simp, kernel_run]: "m s = (Inl e, s') \<Longrightarrow> kseq m n s = (Inl e, s')"
  by (simp add: kseq_def)

lemma kbind_InrE:
  assumes "kbind m f s = (Inr y, s')"
  obtains x s1 where "m s = (Inr x, s1)" and "f x s1 = (Inr y, s')"
  using assms by (auto simp: kbind_def split: prod.splits sum.splits)

lemma kseq_InrE:
  assumes "kseq m n s = (Inr y, s')"
  obtains x s1 where "m s = (Inr x, s1)" and "n s1 = (Inr y, s')"
  using assms by (auto simp: kseq_def elim: kbind_InrE)

lemma word_less_Suc_unat [word_bounds]:
  fixes i n :: "'a::len word"
  assumes "i < n"
  shows "unat (i + 1) = Suc (unat i)"
proof -
  have "unat i < unat n" using assms by (simp add: word_less_nat_alt)
  then have "unat i + 1 < 2 ^ LENGTH('a)"
    using unsigned_less [of n, where ?'a = nat] by linarith
  then show ?thesis by (simp add: unat_word_ariths)
qed

lemma unat_of_nat_lt [word_bounds]:
  "n < 2 ^ LENGTH('a) \<Longrightarrow> unat (of_nat n :: 'a::len word) = n"
  by (simp add: unat_of_nat take_bit_nat_eq_self)

end
