(* ===== verification/Linked_List.thy ===== *)
theory Linked_List
  imports Prelude
begin

text \<open>
  The doubly linked list \<open>list<data_t>\<close> of \<open>src/os/utils/list.h\<close>, on an explicit heap of nodes:
  two sentinel nodes, a size counter and a cache of at most eight free nodes. The kernel's
  queues (processes, tasks, wait queues, buffers, inodes) are built on it. The refinement lemmas
  relate every operation to the same operation on a HOL list.
\<close>

section \<open>Heap of nodes\<close>

text \<open>
  \<open>data\<close> is \<open>None\<close> in a node whose data was never assigned. Addresses are natural numbers and 0 is
  the null pointer. \<open>avail\<close> holds the addresses the allocator can still hand out: \<open>new\<close> takes the
  first one and yields null when there is none, \<open>delete\<close> gives one back.
\<close>

record 'a node =
  ndata :: "'a option"
  nxt :: nat
  prv :: nat

record lobj =
  lhead :: nat
  ltail :: nat
  lsize :: int
  lcache :: "nat list"

record 'a lstate =
  cells :: "nat \<Rightarrow> 'a node option"
  avail :: "nat list"
  lthis :: lobj

type_synonym ('a, 'r) lm = "('a lstate, 'r) kmonad"

definition ld_node :: "nat \<Rightarrow> ('a, 'a node) lm" where
  "ld_node p = kbind (kget (\<lambda>s. cells s p)) kopt"

definition st_node :: "nat \<Rightarrow> ('a node \<Rightarrow> 'a node) \<Rightarrow> ('a, unit) lm" where
  "st_node p f = kbind (ld_node p) (\<lambda>n. kmod (\<lambda>s. s\<lparr>cells := (cells s)(p \<mapsto> f n)\<rparr>))"

definition set_next :: "nat \<Rightarrow> nat \<Rightarrow> ('a, unit) lm" where
  "set_next p v = st_node p (nxt_update (\<lambda>_. v))"

definition set_prev :: "nat \<Rightarrow> nat \<Rightarrow> ('a, unit) lm" where
  "set_prev p v = st_node p (prv_update (\<lambda>_. v))"

definition set_data :: "nat \<Rightarrow> 'a \<Rightarrow> ('a, unit) lm" where
  "set_data p v = st_node p (ndata_update (\<lambda>_. Some v))"

definition on_obj :: "(lobj \<Rightarrow> lobj) \<Rightarrow> ('a, unit) lm" where
  "on_obj f = kmod (\<lambda>s. s\<lparr>lthis := f (lthis s)\<rparr>)"

definition new_node :: "('a, nat) lm" where
  "new_node = kbind (kget avail) (\<lambda>sup. case sup of
      [] \<Rightarrow> kret 0
    | p # ps \<Rightarrow> kseq (kmod (\<lambda>s. s\<lparr>avail := ps, cells := (cells s)(p \<mapsto> \<lparr>ndata = None, nxt = 0, prv = 0\<rparr>)\<rparr>))
                 (kret p))"

definition delete_node :: "nat \<Rightarrow> ('a, unit) lm" where
  "delete_node p = (if p = 0 then kret ()
     else kseq (ld_node p) (kmod (\<lambda>s. s\<lparr>avail := p # avail s, cells := (cells s)(p := None)\<rparr>)))"

section \<open>Operations of the list\<close>

definition alloc_node :: "('a, nat) lm" where
  "alloc_node = kbind (kget (lcache \<circ> lthis)) (\<lambda>c. case c of
      [] \<Rightarrow> new_node
    | p # ps \<Rightarrow> kseq (on_obj (lcache_update (\<lambda>_. ps))) (kret p))"

definition free_node :: "nat \<Rightarrow> ('a, unit) lm" where
  "free_node p = kbind (kget (lcache \<circ> lthis)) (\<lambda>c.
     if length c < 8 then on_obj (lcache_update (\<lambda>_. p # c)) else delete_node p)"

definition list_ctor :: "('a, unit) lm" where
  "list_ctor = kbind new_node (\<lambda>h. kseq (on_obj (lhead_update (\<lambda>_. h))) (
     kbind new_node (\<lambda>t. kseq (on_obj (ltail_update (\<lambda>_. t))) (
     kseq (set_next h t) (kseq (set_prev t h)
     (on_obj (lsize_update (\<lambda>_. 0) \<circ> lcache_update (\<lambda>_. []))))))))"

definition push_back_raw :: "('a, nat) lm" where
  "push_back_raw = kbind alloc_node (\<lambda>n. if n = 0 then kret 0 else
     kbind (kget (ltail \<circ> lthis)) (\<lambda>t.
     kseq (set_next n t) (kbind (ld_node t) (\<lambda>tn.
     kseq (set_prev n (prv tn)) (kbind (ld_node t) (\<lambda>tn.
     kseq (set_next (prv tn) n) (kseq (set_prev t n)
     (kseq (on_obj (lsize_update (\<lambda>k. k + 1))) (kret n)))))))))"

definition push_front_raw :: "('a, nat) lm" where
  "push_front_raw = kbind alloc_node (\<lambda>n. if n = 0 then kret 0 else
     kbind (kget (lhead \<circ> lthis)) (\<lambda>h.
     kbind (ld_node h) (\<lambda>hn. kseq (set_next n (nxt hn)) (
     kseq (set_prev n h) (kbind (ld_node h) (\<lambda>hn.
     kseq (set_prev (nxt hn) n) (kseq (set_next h n)
     (kseq (on_obj (lsize_update (\<lambda>k. k + 1))) (kret n)))))))))"

definition push_back :: "'a \<Rightarrow> ('a, nat) lm" where
  "push_back x = kbind push_back_raw (\<lambda>n. if n \<noteq> 0 then kseq (set_data n x) (kret n) else kret n)"

definition push_front :: "'a \<Rightarrow> ('a, nat) lm" where
  "push_front x = kbind push_front_raw (\<lambda>n. if n \<noteq> 0 then kseq (set_data n x) (kret n) else kret n)"

definition remove_node :: "nat \<Rightarrow> ('a, unit) lm" where
  "remove_node p = kbind (ld_node p) (\<lambda>n. kseq (set_next (prv n) (nxt n)) (
     kbind (ld_node p) (\<lambda>n. kseq (set_prev (nxt n) (prv n)) (
     kseq (free_node p) (on_obj (lsize_update (\<lambda>k. k - 1)))))))"

definition list_front :: "('a, 'a) lm" where
  "list_front = kbind (kget (lhead \<circ> lthis)) (\<lambda>h. kbind (ld_node h) (\<lambda>hn. kbind (ld_node (nxt hn)) (\<lambda>n. kopt (ndata n))))"

definition list_back :: "('a, 'a) lm" where
  "list_back = kbind (kget (ltail \<circ> lthis)) (\<lambda>t. kbind (ld_node t) (\<lambda>tn. kbind (ld_node (prv tn)) (\<lambda>n. kopt (ndata n))))"

definition pop_front :: "('a, unit) lm" where
  "pop_front = kbind (kget lthis) (\<lambda>l. kbind (ld_node (lhead l)) (\<lambda>hn.
     if nxt hn \<noteq> ltail l then remove_node (nxt hn) else kret ()))"

definition pop_back :: "('a, unit) lm" where
  "pop_back = kbind (kget lthis) (\<lambda>l. kbind (ld_node (ltail l)) (\<lambda>tn.
     if prv tn \<noteq> lhead l then remove_node (prv tn) else kret ()))"

definition list_empty :: "('a, bool) lm" where
  "list_empty = kbind (kget lthis) (\<lambda>l. kbind (ld_node (lhead l)) (\<lambda>hn. kret (nxt hn = ltail l)))"

definition list_size :: "('a, int) lm" where
  "list_size = kget (lsize \<circ> lthis)"

text \<open>The first loop of \<open>clear\<close> walks the heap and is given fuel; the second empties the cache.\<close>

primrec clear_nodes :: "nat \<Rightarrow> nat \<Rightarrow> ('a, unit) lm" where
  "clear_nodes 0 cur = kthrow Out_Of_Fuel"
| "clear_nodes (Suc k) cur = kbind (kget (ltail \<circ> lthis)) (\<lambda>t. if cur = t then kret () else
     kbind (ld_node cur) (\<lambda>n. kseq (delete_node cur) (clear_nodes k (nxt n))))"

primrec clear_cache :: "nat list \<Rightarrow> ('a, unit) lm" where
  "clear_cache [] = kret ()"
| "clear_cache (p # ps) = kseq (on_obj (lcache_update (\<lambda>_. ps))) (kseq (delete_node p) (clear_cache ps))"

definition list_clear :: "nat \<Rightarrow> ('a, unit) lm" where
  "list_clear k = kbind (kget (lhead \<circ> lthis)) (\<lambda>h. kbind (ld_node h) (\<lambda>hn.
     kseq (clear_nodes k (nxt hn)) (
     kseq (on_obj (lsize_update (\<lambda>_. 0))) (kbind (kget lthis) (\<lambda>l.
     kseq (set_next (lhead l) (ltail l)) (kseq (set_prev (ltail l) (lhead l)) (
     kbind (kget (lcache \<circ> lthis)) clear_cache)))))))"

definition list_dtor :: "nat \<Rightarrow> ('a, unit) lm" where
  "list_dtor k = kseq (list_clear k) (kbind (kget lthis) (\<lambda>l.
     kseq (delete_node (lhead l)) (kseq (delete_node (ltail l))
     (on_obj (lhead_update (\<lambda>_. 0) \<circ> ltail_update (\<lambda>_. 0))))))"

definition erase :: "nat \<Rightarrow> ('a, unit) lm" where
  "erase p = kbind (kget lthis) (\<lambda>l. if p = lhead l \<or> p = ltail l then kthrow (Panic ''list::erase'')
     else remove_node p)"

definition insert_after :: "nat \<Rightarrow> 'a \<Rightarrow> ('a, unit) lm" where
  "insert_after p x = kbind (kget lthis) (\<lambda>l.
     if p = ltail l then kthrow (Panic ''insert_after: iterator is end()'') else
     kbind alloc_node (\<lambda>n. kseq (set_data n x) (
     kbind (ld_node p) (\<lambda>pn. kseq (set_next n (nxt pn)) (kseq (set_prev n p) (
     kbind (ld_node p) (\<lambda>pn. kseq (set_prev (nxt pn) n) (kseq (set_next p n)
     (on_obj (lsize_update (\<lambda>k. k + 1)))))))))))"

definition insert_before :: "nat \<Rightarrow> 'a \<Rightarrow> ('a, unit) lm" where
  "insert_before p x = kbind (kget lthis) (\<lambda>l.
     if p = lhead l then kthrow (Panic ''insert_before: iterator is begin()'') else
     kbind alloc_node (\<lambda>n. kseq (set_data n x) (
     kseq (set_next n p) (kbind (ld_node p) (\<lambda>pn. kseq (set_prev n (prv pn)) (
     kbind (ld_node p) (\<lambda>pn. kseq (set_next (prv pn) n) (kseq (set_prev p n)
     (on_obj (lsize_update (\<lambda>k. k + 1)))))))))))"

definition move_to_front :: "nat \<Rightarrow> ('a, unit) lm" where
  "move_to_front p = kbind (kget lthis) (\<lambda>l.
    if p = lhead l \<or> p = ltail l
     then kthrow (Panic ''__move_to_front: iterator is begin() or end()'')
     else kbind (ld_node p) (\<lambda>pn.
       if prv pn = lhead l then kret ()
       else kseq (set_next (prv pn) (nxt pn)) (
         kbind (ld_node p) (\<lambda>pn.
         kseq (set_prev (nxt pn) (prv pn)) (
         kbind (ld_node (lhead l)) (\<lambda>hn.
         kseq (set_next p (nxt hn)) (
         kseq (set_prev p (lhead l)) (
         kbind (ld_node (lhead l)) (\<lambda>hn.
         kseq (set_prev (nxt hn) p) (
         set_next (lhead l) p))))))))))"

text \<open>The two \<open>merge\<close> operations take the other list's object and return its new value.\<close>

definition list_merge_one :: "lobj \<Rightarrow> nat \<Rightarrow> ('a, lobj) lm" where
  "list_merge_one other p = (if p = ltail other then kret other else
     kbind (ld_node p) (\<lambda>pn.
       kseq (set_next (prv pn) (nxt pn)) (
       kseq (set_prev (nxt pn) (prv pn)) (
       kbind (kget (ltail \<circ> lthis)) (\<lambda>t.
       kbind (ld_node t) (\<lambda>tn.
       kseq (set_next (prv tn) p) (
       kbind (ld_node t) (\<lambda>tn.
       kseq (set_prev p (prv tn)) (
       kseq (set_prev t p) (
       kseq (set_next p t) (
       kseq (on_obj (lsize_update (\<lambda>k. k + 1))) (
       kret (other\<lparr>lsize := lsize other - 1\<rparr>)))))))))))))"

definition list_merge :: "lobj \<Rightarrow> ('a, lobj) lm" where
  "list_merge other = kbind (ld_node (lhead other)) (\<lambda>hn.
    if nxt hn = ltail other then kret other else
     kbind (kget (ltail \<circ> lthis)) (\<lambda>t.
       kbind (ld_node t) (\<lambda>tn.
       kseq (set_next (prv tn) (nxt hn)) (
       kbind (ld_node (lhead other)) (\<lambda>hn.
       kbind (ld_node t) (\<lambda>tn.
       kseq (set_prev (nxt hn) (prv tn)) (
       kbind (ld_node (ltail other)) (\<lambda>un.
       kseq (set_prev t (prv un)) (
       kbind (ld_node (ltail other)) (\<lambda>un.
       kseq (set_next (prv un) t) (
       kseq (on_obj (lsize_update (\<lambda>k. k + lsize other))) (
       kseq (set_next (lhead other) (ltail other)) (
       kseq (set_prev (ltail other) (lhead other)) (
       kret (other\<lparr>lsize := 0\<rparr>)))))))))))))))"

text \<open>The range-for protocol (\<open>begin\<close>, \<open>end\<close>, \<open>++\<close>, \<open>*\<close>) and its reverse.\<close>

primrec list_walk :: "nat \<Rightarrow> nat \<Rightarrow> ('a, 'a list) lm" where
  "list_walk 0 p = kthrow Out_Of_Fuel"
| "list_walk (Suc k) p = kbind (kget (ltail \<circ> lthis)) (\<lambda>t. if p = t then kret [] else
     kbind (ld_node p) (\<lambda>n. kbind (kopt (ndata n)) (\<lambda>x. kbind (list_walk k (nxt n)) (\<lambda>xs. kret (x # xs)))))"

definition traverse :: "nat \<Rightarrow> ('a, 'a list) lm" where
  "traverse k = kbind (kget (lhead \<circ> lthis)) (\<lambda>h. kbind (ld_node h) (\<lambda>hn. list_walk k (nxt hn)))"

primrec rwalk :: "nat \<Rightarrow> nat \<Rightarrow> ('a, 'a list) lm" where
  "rwalk 0 p = kthrow Out_Of_Fuel"
| "rwalk (Suc k) p = kbind (kget (lhead \<circ> lthis)) (\<lambda>h. if p = h then kret [] else
     kbind (ld_node p) (\<lambda>n. kbind (kopt (ndata n)) (\<lambda>x. kbind (rwalk k (prv n)) (\<lambda>xs. kret (x # xs)))))"

definition rtraverse :: "nat \<Rightarrow> ('a, 'a list) lm" where
  "rtraverse k = kbind (kget (ltail \<circ> lthis)) (\<lambda>t. kbind (ld_node t) (\<lambda>tn. rwalk k (prv tn)))"

section \<open>Shape of the heap\<close>

definition nxt_of :: "(nat \<Rightarrow> 'a node option) \<Rightarrow> nat \<Rightarrow> nat" where
  "nxt_of c p = nxt (the (c p))"

definition prv_of :: "(nat \<Rightarrow> 'a node option) \<Rightarrow> nat \<Rightarrow> nat" where
  "prv_of c p = prv (the (c p))"

definition dat_of :: "(nat \<Rightarrow> 'a node option) \<Rightarrow> nat \<Rightarrow> 'a option" where
  "dat_of c p = ndata (the (c p))"

text \<open>\<open>linked c ps\<close>: consecutive addresses of \<open>ps\<close> point at each other.\<close>

fun linked :: "(nat \<Rightarrow> 'a node option) \<Rightarrow> nat list \<Rightarrow> bool" where
  "linked c (a # b # ps) \<longleftrightarrow> nxt_of c a = b \<and> prv_of c b = a \<and> linked c (b # ps)"
| "linked c _ \<longleftrightarrow> True"

definition nodes :: "lobj \<Rightarrow> nat list \<Rightarrow> nat list" where
  "nodes l ns = lhead l # ns @ [ltail l]"

definition obj_ok :: "(nat \<Rightarrow> 'a node option) \<Rightarrow> lobj \<Rightarrow> nat list \<Rightarrow> bool" where
  "obj_ok c l ns \<longleftrightarrow> distinct (nodes l ns @ lcache l) \<and> set (nodes l ns @ lcache l) \<subseteq> dom c
     \<and> linked c (nodes l ns) \<and> lsize l = int (length ns) \<and> length (lcache l) \<le> 8"

definition avail_ok :: "'a lstate \<Rightarrow> bool" where
  "avail_ok s \<longleftrightarrow> distinct (avail s) \<and> set (avail s) \<inter> dom (cells s) = {}
     \<and> 0 \<notin> set (avail s) \<and> 0 \<notin> dom (cells s)"

text \<open>\<open>list_ok s ns\<close>: the heap holds a well-formed list with the data nodes \<open>ns\<close>.\<close>

definition list_ok :: "'a lstate \<Rightarrow> nat list \<Rightarrow> bool" where
  "list_ok s ns \<longleftrightarrow> obj_ok (cells s) (lthis s) ns \<and> avail_ok s"

text \<open>\<open>lrep s ns xs\<close>: and these nodes carry the data \<open>xs\<close>.\<close>

definition lrep :: "'a lstate \<Rightarrow> nat list \<Rightarrow> 'a list \<Rightarrow> bool" where
  "lrep s ns xs \<longleftrightarrow> list_ok s ns \<and> map (dat_of (cells s)) ns = map Some xs"

named_theorems heap_simps \<open>reading the node heap after an update\<close>

lemma fold_fields [heap_simps]:
  "nxt (the (c p)) = nxt_of c p" "prv (the (c p)) = prv_of c p" "ndata (the (c p)) = dat_of c p"
  by (simp_all add: nxt_of_def prv_of_def dat_of_def)

definition upd_nxt :: "(nat \<Rightarrow> 'a node option) \<Rightarrow> nat \<Rightarrow> nat \<Rightarrow> nat \<Rightarrow> 'a node option" where
  "upd_nxt c p v = c(p \<mapsto> (the (c p))\<lparr>nxt := v\<rparr>)"

definition upd_prv :: "(nat \<Rightarrow> 'a node option) \<Rightarrow> nat \<Rightarrow> nat \<Rightarrow> nat \<Rightarrow> 'a node option" where
  "upd_prv c p v = c(p \<mapsto> (the (c p))\<lparr>prv := v\<rparr>)"

definition upd_dat :: "(nat \<Rightarrow> 'a node option) \<Rightarrow> nat \<Rightarrow> 'a \<Rightarrow> nat \<Rightarrow> 'a node option" where
  "upd_dat c p v = c(p \<mapsto> (the (c p))\<lparr>ndata := Some v\<rparr>)"

lemma read_upd [heap_simps]:
  "nxt_of (upd_nxt c p v) x = (if x = p then v else nxt_of c x)"
  "prv_of (upd_nxt c p v) x = prv_of c x"
  "dat_of (upd_nxt c p v) x = dat_of c x"
  "prv_of (upd_prv c p v) x = (if x = p then v else prv_of c x)"
  "nxt_of (upd_prv c p v) x = nxt_of c x"
  "dat_of (upd_prv c p v) x = dat_of c x"
  "dat_of (upd_dat c p d) x = (if x = p then Some d else dat_of c x)"
  "nxt_of (upd_dat c p d) x = nxt_of c x"
  "prv_of (upd_dat c p d) x = prv_of c x"
  "dom (upd_nxt c p v) = insert p (dom c)"
  "dom (upd_prv c p v) = insert p (dom c)"
  "dom (upd_dat c p d) = insert p (dom c)"
  by (auto simp: nxt_of_def prv_of_def dat_of_def upd_nxt_def upd_prv_def upd_dat_def)

lemma read_other [heap_simps]:
  "x \<noteq> p \<Longrightarrow> nxt_of (c(p := v)) x = nxt_of c x"
  "x \<noteq> p \<Longrightarrow> prv_of (c(p := v)) x = prv_of c x"
  "x \<noteq> p \<Longrightarrow> dat_of (c(p := v)) x = dat_of c x"
  by (simp_all add: nxt_of_def prv_of_def dat_of_def)

lemma ld_node_run [heap_simps]: "p \<in> dom (cells s) \<Longrightarrow> ld_node p s = (Inr (the (cells s p)), s)"
  by (auto simp: ld_node_def)

lemma set_run [heap_simps]:
  "p \<in> dom (cells s) \<Longrightarrow> set_next p v s = (Inr (), s\<lparr>cells := upd_nxt (cells s) p v\<rparr>)"
  "p \<in> dom (cells s) \<Longrightarrow> set_prev p v s = (Inr (), s\<lparr>cells := upd_prv (cells s) p v\<rparr>)"
  "p \<in> dom (cells s) \<Longrightarrow> set_data p d s = (Inr (), s\<lparr>cells := upd_dat (cells s) p d\<rparr>)"
  by (auto simp: set_next_def set_prev_def set_data_def st_node_def ld_node_run upd_nxt_def upd_prv_def upd_dat_def)

lemma on_obj_run [heap_simps]: "on_obj f s = (Inr (), s\<lparr>lthis := f (lthis s)\<rparr>)"
  by (simp add: on_obj_def)

lemma linked_append: "linked c (xs @ a # ys) \<longleftrightarrow> linked c (xs @ [a]) \<and> linked c (a # ys)"
  by (induction xs rule: induct_list012) auto

lemma linked_cong:
  "\<lbrakk>\<And>x. x \<in> set (butlast ps) \<Longrightarrow> nxt_of d x = nxt_of c x; \<And>x. x \<in> set (tl ps) \<Longrightarrow> prv_of d x = prv_of c x\<rbrakk>
   \<Longrightarrow> linked d ps = linked c ps"
  by (induction c ps rule: linked.induct) auto

lemma linked_two: "linked c (xs @ a # b # ys) \<longleftrightarrow>
    linked c (xs @ [a]) \<and> nxt_of c a = b \<and> prv_of c b = a \<and> linked c (b # ys)"
  by (subst linked_append) auto

lemma linked_join:
  assumes "linked c (xs @ [a])" "linked c (b # ys)" "nxt_of d a = b" "prv_of d b = a"
    and "\<And>x. x \<in> set xs \<union> set (butlast (b # ys)) \<Longrightarrow> nxt_of d x = nxt_of c x"
    and "\<And>x. x \<in> set (tl (xs @ [a])) \<union> set ys \<Longrightarrow> prv_of d x = prv_of c x"
  shows "linked d (xs @ a # b # ys)"
proof -
  have "linked d (xs @ [a]) = linked c (xs @ [a])" by (rule linked_cong) (use assms in auto)
  moreover have "linked d (b # ys) = linked c (b # ys)" by (rule linked_cong) (use assms in auto)
  ultimately show ?thesis using assms(1-4) by (simp add: linked_two)
qed

lemma linked_remove:
  assumes "linked c (xs @ a # p # b # ys)" "distinct (xs @ a # p # b # ys)"
    and "\<And>x. x \<noteq> p \<Longrightarrow> nxt_of d x = (if x = a then b else nxt_of c x)"
    and "\<And>x. x \<noteq> p \<Longrightarrow> prv_of d x = (if x = b then a else prv_of c x)"
  shows "linked d (xs @ a # b # ys)"
proof (rule linked_join [of c])
  show "linked c (xs @ [a])" "linked c (b # ys)" using assms(1) by (auto simp: linked_two)
  show "nxt_of d x = nxt_of c x" if "x \<in> set xs \<union> set (butlast (b # ys))" for x
  proof -
    have "x \<noteq> a" "x \<noteq> p" using that assms(2) by (auto dest: in_set_butlastD split: if_splits)
    then show ?thesis by (simp add: assms(3))
  qed
  show "prv_of d x = prv_of c x" if "x \<in> set (tl (xs @ [a])) \<union> set ys" for x
  proof -
    have "x \<noteq> b" "x \<noteq> p" using that assms(2) by (cases xs; auto)+
    then show ?thesis by (simp add: assms(4))
  qed
qed (use assms in auto)

lemma linked_insert:
  assumes "linked c (xs @ a # b # ys)" "distinct (xs @ a # p # b # ys)"
    and "\<And>x. nxt_of d x = (if x = a then p else if x = p then b else nxt_of c x)"
    and "\<And>x. prv_of d x = (if x = b then p else if x = p then a else prv_of c x)"
  shows "linked d (xs @ a # p # b # ys)"
proof -
  have c: "linked c (xs @ [a])" "linked c (b # ys)" using assms(1) by (auto simp: linked_two)
  have "linked d (b # ys) = linked c (b # ys)"
    by (rule linked_cong) (use assms(2-4) in \<open>auto dest: in_set_butlastD split: if_splits\<close>)
  moreover have "linked d (xs @ [a]) = linked c (xs @ [a])"
  proof (rule linked_cong)
    show "prv_of d x = prv_of c x" if "x \<in> set (tl (xs @ [a]))" for x
      using that assms(2,4) by (cases xs) auto
  qed (use assms(2,3) in auto)
  ultimately show ?thesis using c assms(2-4) by (auto simp: linked_two)
qed

section \<open>Insertion and removal at one place\<close>

text \<open>Splitting the data nodes of a list names the two neighbours at the split.\<close>

lemma obj_ok_split:
  assumes "obj_ok c l (as @ bs)"
  obtains xs a b ys where "lhead l # as = xs @ [a]" "bs @ [ltail l] = b # ys"
    "nodes l (as @ bs) = xs @ a # b # ys" "nxt_of c a = b" "prv_of c b = a" "a \<in> dom c" "b \<in> dom c"
    "a \<noteq> b"
proof -
  obtain xs a where a: "lhead l # as = xs @ [a]" by (metis list.distinct(1) rev_exhaust)
  obtain b ys where b: "bs @ [ltail l] = b # ys" by (cases bs) auto
  have n: "nodes l (as @ bs) = xs @ a # b # ys" using a b by (simp add: nodes_def)
  then show thesis using that [OF a b n] assms by (auto simp: obj_ok_def linked_two)
qed

lemma obj_ok_insert:
  assumes "obj_ok c l (as @ bs)" "lhead l # as = xs @ [a]" "bs @ [ltail l] = b # ys"
    and "p \<in> dom c" "p \<notin> set (nodes l (as @ bs) @ lcache l)" "dom c \<subseteq> dom d"
    and "\<And>x. nxt_of d x = (if x = a then p else if x = p then b else nxt_of c x)"
    and "\<And>x. prv_of d x = (if x = b then p else if x = p then a else prv_of c x)"
  shows "obj_ok d (l\<lparr>lsize := lsize l + 1\<rparr>) (as @ p # bs)"
proof -
  have n: "nodes l (as @ bs) = xs @ a # b # ys" "nodes l (as @ p # bs) = xs @ a # p # b # ys"
    using assms(2,3) by (simp_all add: nodes_def)
  have "linked d (xs @ a # p # b # ys)"
    by (rule linked_insert [OF _ _ assms(7,8)]) (use assms(1,5) n in \<open>auto simp: obj_ok_def\<close>)
  moreover have "nodes (l\<lparr>lsize := lsize l + 1\<rparr>) (as @ p # bs) = nodes l (as @ p # bs)"
    by (simp add: nodes_def)
  moreover have "set (nodes l (as @ p # bs) @ lcache l) \<subseteq> dom d"
    using assms(1,4,6) n unfolding obj_ok_def by (simp only: set_append set_simps) blast
  ultimately show ?thesis using assms(1,5) n by (simp add: obj_ok_def)
qed

lemma obj_ok_remove:
  assumes "obj_ok c l (as @ p # bs)" "lhead l # as = xs @ [a]" "bs @ [ltail l] = b # ys"
    and "dom c - {p} \<subseteq> dom d"
    and "\<And>x. x \<noteq> p \<Longrightarrow> nxt_of d x = (if x = a then b else nxt_of c x)"
    and "\<And>x. x \<noteq> p \<Longrightarrow> prv_of d x = (if x = b then a else prv_of c x)"
  shows "obj_ok d (l\<lparr>lsize := lsize l - 1\<rparr>) (as @ bs)"
proof -
  have n: "nodes l (as @ bs) = xs @ a # b # ys" "nodes l (as @ p # bs) = xs @ a # p # b # ys"
    using assms(2,3) by (simp_all add: nodes_def)
  have "linked d (xs @ a # b # ys)"
    by (rule linked_remove [OF _ _ assms(5,6)]) (use assms(1) n in \<open>auto simp: obj_ok_def\<close>)
  moreover have "nodes (l\<lparr>lsize := lsize l - 1\<rparr>) (as @ bs) = nodes l (as @ bs)"
    by (simp add: nodes_def)
  moreover have "set (nodes l (as @ bs) @ lcache l) \<subseteq> dom c - {p}"
    using assms(1) n by (auto simp: obj_ok_def)
  then have "set (nodes l (as @ bs) @ lcache l) \<subseteq> dom d" using assms(4) by (rule subset_trans)
  ultimately show ?thesis using assms(1) n by (simp add: obj_ok_def)
qed

lemma obj_ok_neighbours:
  assumes "obj_ok c l (as @ p # bs)"
  obtains xs a b ys where "lhead l # as = xs @ [a]" "bs @ [ltail l] = b # ys"
    "nodes l (as @ p # bs) = xs @ a # p # b # ys"
    "prv_of c p = a" "nxt_of c p = b" "nxt_of c a = p" "prv_of c b = p"
    "p \<in> dom c" "a \<in> dom c" "b \<in> dom c" "a \<noteq> p" "b \<noteq> p" "a \<noteq> b"
proof -
  obtain xs a where a: "lhead l # as = xs @ [a]" by (metis list.distinct(1) rev_exhaust)
  obtain b ys where b: "bs @ [ltail l] = b # ys" by (cases bs) auto
  have n: "nodes l (as @ p # bs) = xs @ a # p # b # ys" using a b by (simp add: nodes_def)
  then show thesis using that [OF a b n] assms by (auto simp: obj_ok_def linked_two)
qed

lemma obj_ok_ends:
  assumes "obj_ok c l ns"
  shows "lhead l \<in> dom c" "ltail l \<in> dom c" "set ns \<subseteq> dom c" "lhead l \<notin> set ns" "ltail l \<notin> set ns"
    "lhead l \<noteq> ltail l" "distinct ns"
  using assms by (auto simp: obj_ok_def nodes_def)

lemma obj_ok_frame:
  assumes "obj_ok c l ns" "\<And>x. x \<in> set (nodes l ns @ lcache l) \<Longrightarrow> x \<in> dom d \<and> nxt_of d x = nxt_of c x \<and> prv_of d x = prv_of c x"
  shows "obj_ok d l ns"
proof -
  have "x \<in> set (nodes l ns)" if "x \<in> set (tl (nodes l ns))" for x
    using that by (simp add: nodes_def)
  then have "linked d (nodes l ns) = linked c (nodes l ns)"
    by (intro linked_cong) (auto simp: assms(2) dest: in_set_butlastD)
  then show ?thesis using assms by (auto simp: obj_ok_def)
qed

lemma obj_ok_frame_cell:
  assumes "obj_ok c l ns" "p \<notin> set (nodes l ns @ lcache l)"
  shows "obj_ok (c(p := v)) l ns" "x \<in> set ns \<Longrightarrow> dat_of (c(p := v)) x = dat_of c x"
proof -
  have "x \<in> dom (c(p := v)) \<and> nxt_of (c(p := v)) x = nxt_of c x \<and> prv_of (c(p := v)) x = prv_of c x"
    if "x \<in> set (nodes l ns @ lcache l)" for x
  proof -
    have "x \<noteq> p" "x \<in> dom c" using that assms by (auto simp: obj_ok_def)
    then show ?thesis by (auto simp: read_other)
  qed
  then show "obj_ok (c(p := v)) l ns" by (rule obj_ok_frame [OF assms(1)])
  assume "x \<in> set ns"
  then have "x \<noteq> p" using assms(2) by (auto simp: nodes_def)
  then show "dat_of (c(p := v)) x = dat_of c x" by (simp add: read_other)
qed

text \<open>A node obtained from \<open>alloc_node\<close> is a heap cell that belongs to nobody.\<close>

lemma alloc_node_run:
  assumes "list_ok s ns"
  shows "lcache (lthis s) = [] \<and> avail s = [] \<Longrightarrow> alloc_node s = (Inr 0, s)"
    and "\<not> (lcache (lthis s) = [] \<and> avail s = []) \<Longrightarrow>
      \<exists>p t. alloc_node s = (Inr p, t) \<and> p \<noteq> 0 \<and> p \<in> dom (cells t)
      \<and> p \<notin> set (nodes (lthis t) ns @ lcache (lthis t)) \<and> list_ok t ns
      \<and> lhead (lthis t) = lhead (lthis s) \<and> ltail (lthis t) = ltail (lthis s)
      \<and> (\<forall>x\<in>set ns. dat_of (cells t) x = dat_of (cells s) x)"
proof -
  assume "lcache (lthis s) = [] \<and> avail s = []"
  then show "alloc_node s = (Inr 0, s)" by (simp add: alloc_node_def new_node_def)
next
  assume node: "\<not> (lcache (lthis s) = [] \<and> avail s = [])"
  show "\<exists>p t. alloc_node s = (Inr p, t) \<and> p \<noteq> 0 \<and> p \<in> dom (cells t)
      \<and> p \<notin> set (nodes (lthis t) ns @ lcache (lthis t)) \<and> list_ok t ns
      \<and> lhead (lthis t) = lhead (lthis s) \<and> ltail (lthis t) = ltail (lthis s)
      \<and> (\<forall>x\<in>set ns. dat_of (cells t) x = dat_of (cells s) x)"
  proof (cases "lcache (lthis s)")
    case (Cons p ps)
    have "p \<noteq> 0" using assms Cons by (auto simp: list_ok_def obj_ok_def avail_ok_def)
    then show ?thesis using assms Cons
      by (auto simp: alloc_node_def on_obj_run list_ok_def obj_ok_def avail_ok_def nodes_def)
  next
    case Nil
    then obtain p ps where Cons: "avail s = p # ps" using node by (cases "avail s") auto
    define d where "d = (cells s)(p \<mapsto> \<lparr>ndata = None, nxt = 0, prv = 0\<rparr>)"
    have p: "p \<notin> dom (cells s)" "p \<noteq> 0" "p \<notin> set ps"
      using assms Cons by (auto simp: list_ok_def avail_ok_def)
    have o: "obj_ok (cells s) (lthis s) ns" using assms by (simp add: list_ok_def)
    then have own: "p \<notin> set (nodes (lthis s) ns @ lcache (lthis s))" using p by (auto simp: obj_ok_def)
    note fr = obj_ok_frame_cell [OF o own, where v = "Some \<lparr>ndata = None, nxt = 0, prv = 0\<rparr>", folded d_def]
    have "alloc_node s = (Inr p, s\<lparr>avail := ps, cells := d\<rparr>)"
      using Nil Cons by (simp add: alloc_node_def new_node_def d_def)
    moreover have "avail_ok (s\<lparr>avail := ps, cells := d\<rparr>)"
      using assms Cons p by (auto simp: list_ok_def avail_ok_def d_def)
    moreover have "p \<in> dom d" by (simp add: d_def)
    ultimately show ?thesis using Cons p(2) own fr by (simp add: list_ok_def)
  qed
qed

lemma free_node_run:
  assumes "list_ok s ns" "p \<in> dom (cells s)" "p \<notin> set (nodes (lthis s) ns @ lcache (lthis s))"
  shows "\<exists>t. free_node p s = (Inr (), t) \<and> list_ok t ns
      \<and> lthis t = lthis s\<lparr>lcache := lcache (lthis t)\<rparr>
      \<and> (\<forall>x\<in>set ns. dat_of (cells t) x = dat_of (cells s) x)"
proof (cases "length (lcache (lthis s)) < 8")
  case True
  then show ?thesis using assms
    by (auto simp: free_node_def on_obj_run list_ok_def obj_ok_def avail_ok_def nodes_def)
next
  case False
  have p: "p \<noteq> 0" using assms by (auto simp: list_ok_def avail_ok_def)
  have o: "obj_ok (cells s) (lthis s) ns" using assms by (simp add: list_ok_def)
  note fr = obj_ok_frame_cell [OF o assms(3), where v = None]
  have "free_node p s = (Inr (), s\<lparr>avail := p # avail s, cells := (cells s)(p := None)\<rparr>)"
    using False p assms(2) by (simp add: free_node_def delete_node_def ld_node_run)
  moreover have "avail_ok (s\<lparr>avail := p # avail s, cells := (cells s)(p := None)\<rparr>)"
    using assms(1,2) p by (auto simp: list_ok_def avail_ok_def)
  ultimately show ?thesis using fr by (simp add: list_ok_def)
qed

section \<open>The operations on well-formed lists\<close>

lemma lrep_ok: "lrep s ns xs \<Longrightarrow> list_ok s ns" "lrep s ns xs \<Longrightarrow> length ns = length xs"
  by (auto simp: lrep_def dest: arg_cong [where f = length])

lemma list_ok_obj: "list_ok s ns \<Longrightarrow> obj_ok (cells s) (lthis s) ns"
  by (simp add: list_ok_def)

lemma list_ok_insertI:
  assumes "list_ok s (as @ bs)" "lhead (lthis s) # as = us @ [a]" "bs @ [ltail (lthis s)] = b # vs"
    and "p \<in> dom (cells s)" "p \<notin> set (nodes (lthis s) (as @ bs) @ lcache (lthis s))" "dom d = dom (cells s)"
    and "\<And>x. nxt_of d x = (if x = a then p else if x = p then b else nxt_of (cells s) x)"
    and "\<And>x. prv_of d x = (if x = b then p else if x = p then a else prv_of (cells s) x)"
  shows "list_ok (s\<lparr>cells := d, lthis := (lthis s)\<lparr>lsize := lsize (lthis s) + 1\<rparr>\<rparr>) (as @ p # bs)"
  using obj_ok_insert [OF list_ok_obj [OF assms(1)] assms(2-5) _ assms(7,8)] assms(1,6)
  by (simp add: list_ok_def avail_ok_def)

lemma lrep_insertI:
  assumes "list_ok t (as @ p # bs)" "map f as = map Some xs" "map f bs = map Some ys"
    and "dat_of (cells t) p = Some x" "\<And>q. q \<in> set (as @ bs) \<Longrightarrow> dat_of (cells t) q = f q"
  shows "lrep t (as @ p # bs) (xs @ x # ys)"
proof -
  have "map (dat_of (cells t)) as = map f as" "map (dat_of (cells t)) bs = map f bs"
    using assms(5) by (auto intro: map_cong)
  then show ?thesis using assms by (simp add: lrep_def)
qed

lemma lrep_split:
  assumes "lrep s ns (xs @ ys)"
  obtains as bs where "ns = as @ bs" "map (dat_of (cells s)) as = map Some xs"
    "map (dat_of (cells s)) bs = map Some ys" "length as = length xs" "length bs = length ys"
proof
  have m: "map (dat_of (cells s)) ns = map Some xs @ map Some ys" and l: "length ns = length xs + length ys"
    using assms lrep_ok(2) [OF assms] by (simp_all add: lrep_def)
  show "ns = take (length xs) ns @ drop (length xs) ns" by simp
  show "map (dat_of (cells s)) (take (length xs) ns) = map Some xs"
    "map (dat_of (cells s)) (drop (length xs) ns) = map Some ys"
    using arg_cong [OF m, of "take (length xs)"] arg_cong [OF m, of "drop (length xs)"]
    by (simp_all add: take_map drop_map)
  show "length (take (length xs) ns) = length xs" "length (drop (length xs) ns) = length ys" using l by simp_all
qed

text \<open>\<open>push_back\<close> and \<open>push_front\<close> return null and change nothing when no node is left.\<close>

definition no_node :: "'a lstate \<Rightarrow> bool" where
  "no_node s \<longleftrightarrow> lcache (lthis s) = [] \<and> avail s = []"

lemma fresh_neq:
  assumes "p \<notin> set (nodes l (as @ bs) @ lcache l)" "nodes l (as @ bs) = us @ a # b # vs"
  shows "p \<noteq> a" "p \<noteq> b" "p \<notin> set (as @ bs)" "p \<noteq> lhead l" "p \<noteq> ltail l"
  using assms(1) unfolding assms(2) using assms by (auto simp: nodes_def)

lemma alloc_node_fresh:
  assumes "lrep s (as @ bs) xs" "\<not> no_node s"
  obtains p t us a b vs where "alloc_node s = (Inr p, t)" "p \<noteq> 0" "p \<in> dom (cells t)"
    "p \<notin> set (nodes (lthis t) (as @ bs) @ lcache (lthis t))" "list_ok t (as @ bs)"
    "map (dat_of (cells t)) (as @ bs) = map Some xs"
    "lhead (lthis t) # as = us @ [a]" "bs @ [ltail (lthis t)] = b # vs"
    "nxt_of (cells t) a = b" "prv_of (cells t) b = a" "a \<in> dom (cells t)" "b \<in> dom (cells t)"
    "a \<noteq> b" "p \<noteq> a" "p \<noteq> b" "p \<notin> set (as @ bs)" "p \<noteq> lhead (lthis t)" "p \<noteq> ltail (lthis t)"
    "lhead (lthis t) = lhead (lthis s)" "ltail (lthis t) = ltail (lthis s)"
proof -
  obtain p t where t: "alloc_node s = (Inr p, t)" "p \<noteq> 0" "p \<in> dom (cells t)"
    "p \<notin> set (nodes (lthis t) (as @ bs) @ lcache (lthis t))" "list_ok t (as @ bs)"
    "lhead (lthis t) = lhead (lthis s)" "ltail (lthis t) = ltail (lthis s)"
    "\<forall>y\<in>set (as @ bs). dat_of (cells t) y = dat_of (cells s) y"
    using alloc_node_run(2) [OF lrep_ok(1) [OF assms(1)]] assms(2) unfolding no_node_def by blast
  have "map (dat_of (cells t)) (as @ bs) = map (dat_of (cells s)) (as @ bs)"
    by (rule map_cong) (use t(8) in auto)
  then have m: "map (dat_of (cells t)) (as @ bs) = map Some xs" using assms(1) by (simp only: lrep_def)
  obtain us a b vs where
    n: "lhead (lthis t) # as = us @ [a]" "bs @ [ltail (lthis t)] = b # vs"
      "nodes (lthis t) (as @ bs) = us @ a # b # vs"
      "nxt_of (cells t) a = b" "prv_of (cells t) b = a" "a \<in> dom (cells t)" "b \<in> dom (cells t)" "a \<noteq> b"
    using obj_ok_split [OF list_ok_obj [OF t(5)]] by blast
  show thesis
    by (rule that [OF t(1-5) m n(1,2,4-8) fresh_neq [OF t(4) n(3)] t(6,7)])
qed

text \<open>
  What remains of an insertion once its assignments have been run: the heap \<open>d\<close> differs from \<open>c\<close>
  by the node \<open>p\<close>, which holds \<open>x\<close> and stands between \<open>a\<close> and \<open>b\<close>. The order of the assignments
  no longer matters.
\<close>

definition ins_links ::
  "(nat \<Rightarrow> 'a node option) \<Rightarrow> (nat \<Rightarrow> 'a node option) \<Rightarrow> nat \<Rightarrow> nat \<Rightarrow> nat \<Rightarrow> 'a \<Rightarrow> bool" where
  "ins_links c d a p b x \<longleftrightarrow> dom d = dom c
     \<and> (\<forall>q. nxt_of d q = (if q = a then p else if q = p then b else nxt_of c q))
     \<and> (\<forall>q. prv_of d q = (if q = b then p else if q = p then a else prv_of c q))
     \<and> (\<forall>q. dat_of d q = (if q = p then Some x else dat_of c q))"

definition grown :: "'a lstate \<Rightarrow> (nat \<Rightarrow> 'a node option) \<Rightarrow> 'a lstate" where
  "grown t d = t\<lparr>cells := d, lthis := (lthis t)\<lparr>lsize := lsize (lthis t) + 1\<rparr>\<rparr>"

lemma insert_effect:
  assumes "list_ok t (as @ bs)" "map (dat_of (cells t)) (as @ bs) = map Some (xs @ ys)" "length as = length xs"
    and "p \<in> dom (cells t)" "p \<notin> set (nodes (lthis t) (as @ bs) @ lcache (lthis t))"
    and "lhead (lthis t) # as = us @ [a]" "bs @ [ltail (lthis t)] = b # vs"
    and links: "ins_links (cells t) d a p b x"
  shows "lrep (grown t d) (as @ p # bs) (xs @ x # ys)"
proof -
  have p: "p \<notin> set (as @ bs)" using assms(5) by (simp add: nodes_def)
  have "list_ok (grown t d) (as @ p # bs)" unfolding grown_def
    by (rule list_ok_insertI [OF assms(1,6,7,4,5)]) (use links in \<open>simp_all add: ins_links_def\<close>)
  then show ?thesis
    by (rule lrep_insertI [where f = "dat_of (cells t)"])
      (use assms(2,3) links p in \<open>auto simp: ins_links_def grown_def\<close>)
qed

lemma insert_at:
  assumes "lrep s (as @ bs) (xs @ ys)" "length as = length xs" "\<not> no_node s"
  obtains p t us a b vs where "alloc_node s = (Inr p, t)" "p \<noteq> 0" "p \<in> dom (cells t)"
    "lhead (lthis s) # as = us @ [a]" "bs @ [ltail (lthis s)] = b # vs"
    "nxt_of (cells t) a = b" "prv_of (cells t) b = a" "a \<in> dom (cells t)" "b \<in> dom (cells t)"
    "a \<noteq> b" "p \<noteq> a" "p \<noteq> b" "lhead (lthis t) = lhead (lthis s)" "ltail (lthis t) = ltail (lthis s)"
    "\<forall>d x. ins_links (cells t) d a p b x \<longrightarrow> lrep (grown t d) (as @ p # bs) (xs @ x # ys)"
proof -
  obtain p t us a b vs where t: "alloc_node s = (Inr p, t)" "p \<noteq> 0" "p \<in> dom (cells t)"
    and n: "p \<notin> set (nodes (lthis t) (as @ bs) @ lcache (lthis t))" "list_ok t (as @ bs)"
      "map (dat_of (cells t)) (as @ bs) = map Some (xs @ ys)"
      "lhead (lthis t) # as = us @ [a]" "bs @ [ltail (lthis t)] = b # vs"
    and f: "nxt_of (cells t) a = b" "prv_of (cells t) b = a" "a \<in> dom (cells t)" "b \<in> dom (cells t)"
      "a \<noteq> b" "p \<noteq> a" "p \<noteq> b"
    and e: "lhead (lthis t) = lhead (lthis s)" "ltail (lthis t) = ltail (lthis s)"
    by (rule alloc_node_fresh [OF assms(1,3)])
  have "\<forall>d x. ins_links (cells t) d a p b x \<longrightarrow> lrep (grown t d) (as @ p # bs) (xs @ x # ys)"
    using insert_effect [OF n(2,3) assms(2) t(3) n(1,4,5)] by blast
  then show thesis
    by (rule that [OF t n(4) [unfolded e] n(5) [unfolded e] f e])
qed

lemma push_back_run:
  assumes "lrep s ns xs"
  shows "if no_node s then push_back x s = (Inr 0, s)
    else \<exists>p t. push_back x s = (Inr p, t) \<and> p \<noteq> 0 \<and> lrep t (ns @ [p]) (xs @ [x])"
proof (cases "no_node s")
  case True
  then show ?thesis using alloc_node_run(1) [OF lrep_ok(1) [OF assms]]
    by (simp add: no_node_def push_back_def push_back_raw_def)
next
  case False
  have s: "lrep s (ns @ []) (xs @ [])" using assms by simp
  obtain p t us a b vs where t: "alloc_node s = (Inr p, t)" "p \<noteq> 0" "p \<in> dom (cells t)"
    and n: "lhead (lthis s) # ns = us @ [a]" "[] @ [ltail (lthis s)] = b # vs"
    and f: "nxt_of (cells t) a = b" "prv_of (cells t) b = a" "a \<in> dom (cells t)" "b \<in> dom (cells t)"
      "a \<noteq> b" "p \<noteq> a" "p \<noteq> b" "lhead (lthis t) = lhead (lthis s)" "ltail (lthis t) = ltail (lthis s)"
    and eff: "\<forall>d x. ins_links (cells t) d a p b x \<longrightarrow> lrep (grown t d) (ns @ p # []) (xs @ x # [])"
    by (rule insert_at [OF s lrep_ok(2) [OF assms] False])
  define d where "d = upd_dat (upd_prv (upd_nxt (upd_prv (upd_nxt (cells t) p b) p a) a p) b p) p x"
  have "push_back x s = (Inr p, grown t d)"
    using t f n(2) by (simp add: push_back_def push_back_raw_def heap_simps d_def grown_def)
  moreover have "ins_links (cells t) d a p b x"
    using f t(3) by (auto simp: ins_links_def d_def heap_simps)
  ultimately show ?thesis using False t(2) eff by auto
qed

lemma push_front_run:
  assumes "lrep s ns xs"
  shows "if no_node s then push_front x s = (Inr 0, s)
    else \<exists>p t. push_front x s = (Inr p, t) \<and> p \<noteq> 0 \<and> lrep t (p # ns) (x # xs)"
proof (cases "no_node s")
  case True
  then show ?thesis using alloc_node_run(1) [OF lrep_ok(1) [OF assms]]
    by (simp add: no_node_def push_front_def push_front_raw_def)
next
  case False
  have s: "lrep s ([] @ ns) ([] @ xs)" using assms by simp
  obtain p t us a b vs where t: "alloc_node s = (Inr p, t)" "p \<noteq> 0" "p \<in> dom (cells t)"
    and n: "lhead (lthis s) # [] = us @ [a]" "ns @ [ltail (lthis s)] = b # vs"
    and f: "nxt_of (cells t) a = b" "prv_of (cells t) b = a" "a \<in> dom (cells t)" "b \<in> dom (cells t)"
      "a \<noteq> b" "p \<noteq> a" "p \<noteq> b" "lhead (lthis t) = lhead (lthis s)" "ltail (lthis t) = ltail (lthis s)"
    and eff: "\<forall>d x. ins_links (cells t) d a p b x \<longrightarrow> lrep (grown t d) ([] @ p # ns) ([] @ x # xs)"
    by (rule insert_at [OF s _ False]) simp
  have a: "lhead (lthis s) = a" using n(1) by (cases us) auto
  define d where "d = upd_dat (upd_nxt (upd_prv (upd_prv (upd_nxt (cells t) p b) p a) b p) a p) p x"
  have "push_front x s = (Inr p, grown t d)"
    using t f a by (simp add: push_front_def push_front_raw_def heap_simps d_def grown_def)
  moreover have "ins_links (cells t) d a p b x"
    using f t(3) by (auto simp: ins_links_def d_def heap_simps)
  ultimately show ?thesis using False t(2) eff by auto
qed

text \<open>\<open>insert_after\<close> and \<open>insert_before\<close> are given a data node, or the sentinel on their side.\<close>

lemma insert_after_run:
  assumes "lrep s (as @ bs) (xs @ ys)" "length as = length xs" "\<not> no_node s" "q = last (lhead (lthis s) # as)"
  shows "\<exists>p t. insert_after q x s = (Inr (), t) \<and> lrep t (as @ p # bs) (xs @ x # ys)"
proof -
  obtain p t us a b vs where t: "alloc_node s = (Inr p, t)" "p \<noteq> 0" "p \<in> dom (cells t)"
    and n: "lhead (lthis s) # as = us @ [a]" "bs @ [ltail (lthis s)] = b # vs"
    and f: "nxt_of (cells t) a = b" "prv_of (cells t) b = a" "a \<in> dom (cells t)" "b \<in> dom (cells t)"
      "a \<noteq> b" "p \<noteq> a" "p \<noteq> b" "lhead (lthis t) = lhead (lthis s)" "ltail (lthis t) = ltail (lthis s)"
    and eff: "\<forall>d x. ins_links (cells t) d a p b x \<longrightarrow> lrep (grown t d) (as @ p # bs) (xs @ x # ys)"
    by (rule insert_at [OF assms(1-3)])
  have qa: "q = a" using n(1) assms(4) by simp
  have "a \<in> set (lhead (lthis s) # as)" using n(1) by simp
  then have a: "a \<noteq> ltail (lthis s)"
    using obj_ok_ends(5,6) [OF list_ok_obj [OF lrep_ok(1) [OF assms(1)]]] by auto
  define d where "d = upd_nxt (upd_prv (upd_prv (upd_nxt (upd_dat (cells t) p x) p b) p a) b p) a p"
  have "insert_after q x s = (Inr (), grown t d)"
    using t f qa a by (simp add: insert_after_def heap_simps d_def grown_def)
  moreover have "ins_links (cells t) d a p b x"
    using f t(3) by (auto simp: ins_links_def d_def heap_simps)
  ultimately show ?thesis using eff by blast
qed

lemma insert_before_run:
  assumes "lrep s (as @ bs) (xs @ ys)" "length as = length xs" "\<not> no_node s" "q = hd (bs @ [ltail (lthis s)])"
  shows "\<exists>p t. insert_before q x s = (Inr (), t) \<and> lrep t (as @ p # bs) (xs @ x # ys)"
proof -
  obtain p t us a b vs where t: "alloc_node s = (Inr p, t)" "p \<noteq> 0" "p \<in> dom (cells t)"
    and n: "lhead (lthis s) # as = us @ [a]" "bs @ [ltail (lthis s)] = b # vs"
    and f: "nxt_of (cells t) a = b" "prv_of (cells t) b = a" "a \<in> dom (cells t)" "b \<in> dom (cells t)"
      "a \<noteq> b" "p \<noteq> a" "p \<noteq> b" "lhead (lthis t) = lhead (lthis s)" "ltail (lthis t) = ltail (lthis s)"
    and eff: "\<forall>d x. ins_links (cells t) d a p b x \<longrightarrow> lrep (grown t d) (as @ p # bs) (xs @ x # ys)"
    by (rule insert_at [OF assms(1-3)])
  have qb: "q = b" using n(2) assms(4) by simp
  have "b \<in> set (bs @ [ltail (lthis s)])" using n(2) by simp
  then have b: "b \<noteq> lhead (lthis s)"
    using obj_ok_ends(4,6) [OF list_ok_obj [OF lrep_ok(1) [OF assms(1)]]] by auto
  define d where "d = upd_prv (upd_nxt (upd_prv (upd_nxt (upd_dat (cells t) p x) p b) p a) a p) b p"
  have "insert_before q x s = (Inr (), grown t d)"
    using t f qb b by (simp add: insert_before_def heap_simps d_def grown_def)
  moreover have "ins_links (cells t) d a p b x"
    using f t(3) by (auto simp: ins_links_def d_def heap_simps)
  ultimately show ?thesis using eff by blast
qed

lemma lsize_dec: "lsize_update (\<lambda>k. k - 1) l = l\<lparr>lsize := lsize l - 1\<rparr>"
  by (cases l) simp

lemma free_node_size:
  assumes "p \<in> dom (cells s)"
  shows "kseq (free_node p) (on_obj (lsize_update f)) s = free_node p (s\<lparr>lthis := lsize_update f (lthis s)\<rparr>)"
  using assms by (cases "length (lcache (lthis s)) < 8"; cases "p = 0")
    (auto simp: free_node_def delete_node_def heap_simps)

lemma lrep_removeI:
  assumes "list_ok t (as @ bs)" "map f (as @ p # bs) = map Some (xs @ x # ys)" "length as = length xs"
    and "\<And>q. q \<in> set (as @ bs) \<Longrightarrow> dat_of (cells t) q = f q"
  shows "lrep t (as @ bs) (xs @ ys)"
proof -
  have "map (dat_of (cells t)) (as @ bs) = map f (as @ bs)" by (rule map_cong) (use assms(4) in auto)
  also have "\<dots> = map Some (xs @ ys)" using assms(2,3) by auto
  finally show ?thesis using assms(1) by (simp only: lrep_def)
qed

lemma remove_node_run:
  assumes "lrep s (as @ p # bs) (xs @ x # ys)" "length as = length xs"
  shows "\<exists>t. remove_node p s = (Inr (), t) \<and> lrep t (as @ bs) (xs @ ys)"
proof -
  let ?c = "cells s" and ?l = "lthis s"
  have o: "obj_ok ?c ?l (as @ p # bs)" using lrep_ok(1) [OF assms(1)] by (rule list_ok_obj)
  then obtain us a b vs where n: "lhead ?l # as = us @ [a]" "bs @ [ltail ?l] = b # vs"
    and f: "prv_of ?c p = a" "nxt_of ?c p = b" "p \<in> dom ?c" "a \<in> dom ?c" "b \<in> dom ?c" "a \<noteq> p" "b \<noteq> p" "a \<noteq> b"
    by (rule obj_ok_neighbours)
  define d where "d = upd_prv (upd_nxt ?c a b) b a"
  define u where "u = s\<lparr>cells := d, lthis := ?l\<lparr>lsize := lsize ?l - 1\<rparr>\<rparr>"
  have dd: "dom d = dom ?c" using f by (auto simp: d_def heap_simps)
  have "obj_ok d (?l\<lparr>lsize := lsize ?l - 1\<rparr>) (as @ bs)"
    by (rule obj_ok_remove [OF o n]) (use f in \<open>auto simp: d_def heap_simps\<close>)
  then have u: "list_ok u (as @ bs)"
    using lrep_ok(1) [OF assms(1)] dd by (simp add: list_ok_def avail_ok_def u_def)
  have p: "p \<in> dom (cells u)" "p \<notin> set (nodes (lthis u) (as @ bs) @ lcache (lthis u))"
    using o f(3) dd by (auto simp: obj_ok_def nodes_def u_def)
  obtain t where t: "free_node p u = (Inr (), t)" "list_ok t (as @ bs)"
    "\<forall>q\<in>set (as @ bs). dat_of (cells t) q = dat_of (cells u) q"
    using free_node_run [OF u p] by blast
  have "remove_node p s = kseq (free_node p) (on_obj (lsize_update (\<lambda>k. k - 1))) (s\<lparr>cells := d\<rparr>)"
    using f by (simp add: remove_node_def heap_simps d_def)
  also have "\<dots> = free_node p u" using dd f(3) by (subst free_node_size) (simp_all add: u_def lsize_dec)
  finally have "remove_node p s = (Inr (), t)" using t(1) by simp
  moreover have "lrep t (as @ bs) (xs @ ys)"
    by (rule lrep_removeI [OF t(2), where f = "dat_of ?c"])
      (use assms t(3) in \<open>auto simp: lrep_def u_def d_def heap_simps\<close>)
  ultimately show ?thesis by blast
qed

lemma erase_run:
  assumes "lrep s (as @ p # bs) (xs @ x # ys)" "length as = length xs"
  shows "\<exists>t. erase p s = (Inr (), t) \<and> lrep t (as @ bs) (xs @ ys)"
  using remove_node_run [OF assms] obj_ok_ends(4,5) [OF list_ok_obj [OF lrep_ok(1) [OF assms(1)]]]
  by (auto simp: erase_def)

lemma list_links:
  assumes "list_ok s (as @ bs)"
  shows "nxt_of (cells s) (last (lhead (lthis s) # as)) = hd (bs @ [ltail (lthis s)])"
    and "prv_of (cells s) (hd (bs @ [ltail (lthis s)])) = last (lhead (lthis s) # as)"
  using obj_ok_split [OF list_ok_obj [OF assms]] by (metis last_snoc list.sel(1))+

lemma list_first_last:
  assumes "list_ok s ns"
  shows "nxt_of (cells s) (lhead (lthis s)) = hd (ns @ [ltail (lthis s)])"
    and "prv_of (cells s) (ltail (lthis s)) = last (lhead (lthis s) # ns)"
    and "lhead (lthis s) \<in> dom (cells s)" "ltail (lthis s) \<in> dom (cells s)"
  using list_links [of s "[]" ns] list_links [of s ns "[]"] assms obj_ok_ends(1,2) [OF list_ok_obj [OF assms]]
  by simp_all

lemma lrep_Cons: "lrep s ns (x # xs) \<Longrightarrow> \<exists>p ms. ns = p # ms \<and> dat_of (cells s) p = Some x"
  by (cases ns) (auto simp: lrep_def)

lemma lrep_snoc: "lrep s ns (xs @ [x]) \<Longrightarrow> \<exists>p ms. ns = ms @ [p] \<and> length ms = length xs \<and> dat_of (cells s) p = Some x"
  by (cases ns rule: rev_cases) (auto simp: lrep_def dest: arg_cong [where f = length])

lemma pop_front_run:
  "lrep s [] [] \<Longrightarrow> pop_front s = (Inr (), s)"
  "lrep s ns (x # xs) \<Longrightarrow> \<exists>t. pop_front s = (Inr (), t) \<and> lrep t (tl ns) xs"
proof -
  assume "lrep s [] []"
  then show "pop_front s = (Inr (), s)"
    using list_first_last [OF lrep_ok(1), of s "[]" "[]"] by (simp add: pop_front_def heap_simps)
next
  assume a: "lrep s ns (x # xs)"
  obtain p ms where ns: "ns = p # ms" using lrep_Cons [OF a] by blast
  then have "\<exists>t. remove_node p s = (Inr (), t) \<and> lrep t ms xs"
    using remove_node_run [of s "[]" p ms "[]" x xs] a by simp
  then show "\<exists>t. pop_front s = (Inr (), t) \<and> lrep t (tl ns) xs"
    using list_first_last [OF lrep_ok(1) [OF a]] obj_ok_ends(5) [OF list_ok_obj [OF lrep_ok(1) [OF a]]] ns
    by (auto simp: pop_front_def heap_simps)
qed

lemma pop_back_run:
  "lrep s [] [] \<Longrightarrow> pop_back s = (Inr (), s)"
  "lrep s ns (xs @ [x]) \<Longrightarrow> \<exists>t. pop_back s = (Inr (), t) \<and> lrep t (butlast ns) xs"
proof -
  assume "lrep s [] []"
  then show "pop_back s = (Inr (), s)"
    using list_first_last [OF lrep_ok(1), of s "[]" "[]"] by (simp add: pop_back_def heap_simps)
next
  assume a: "lrep s ns (xs @ [x])"
  obtain p ms where ns: "ns = ms @ [p]" "length ms = length xs" using lrep_snoc [OF a] by blast
  then have "\<exists>t. remove_node p s = (Inr (), t) \<and> lrep t ms xs"
    using remove_node_run [of s ms p "[]" xs x "[]"] a by simp
  then show "\<exists>t. pop_back s = (Inr (), t) \<and> lrep t (butlast ns) xs"
    using list_first_last [OF lrep_ok(1) [OF a]] obj_ok_ends(4) [OF list_ok_obj [OF lrep_ok(1) [OF a]]] ns
    by (auto simp: pop_back_def heap_simps)
qed

lemma front_run: "lrep s ns (x # xs) \<Longrightarrow> list_front s = (Inr x, s)"
proof -
  assume a: "lrep s ns (x # xs)"
  obtain p ms where ns: "ns = p # ms" "dat_of (cells s) p = Some x" using lrep_Cons [OF a] by blast
  then show ?thesis
    using list_first_last [OF lrep_ok(1) [OF a]] obj_ok_ends(3) [OF list_ok_obj [OF lrep_ok(1) [OF a]]]
    by (simp add: list_front_def heap_simps)
qed

lemma back_run: "lrep s ns (xs @ [x]) \<Longrightarrow> list_back s = (Inr x, s)"
proof -
  assume a: "lrep s ns (xs @ [x])"
  obtain p ms where ns: "ns = ms @ [p]" "dat_of (cells s) p = Some x" using lrep_snoc [OF a] by blast
  then show ?thesis
    using list_first_last [OF lrep_ok(1) [OF a]] obj_ok_ends(3) [OF list_ok_obj [OF lrep_ok(1) [OF a]]]
    by (simp add: list_back_def heap_simps)
qed

lemma empty_run:
  assumes "lrep s ns xs"
  shows "list_empty s = (Inr (xs = []), s)"
proof (cases xs)
  case Nil
  then show ?thesis using assms lrep_ok [OF assms] list_first_last [OF lrep_ok(1) [OF assms]]
    by (simp add: list_empty_def heap_simps)
next
  case (Cons x ys)
  then obtain p ms where "ns = p # ms" using lrep_Cons [of s ns x ys] assms by blast
  then show ?thesis
    using Cons list_first_last [OF lrep_ok(1) [OF assms]] obj_ok_ends(5) [OF list_ok_obj [OF lrep_ok(1) [OF assms]]]
    by (simp add: list_empty_def heap_simps)
qed

lemma size_run: "lrep s ns xs \<Longrightarrow> list_size s = (Inr (int (length xs)), s)"
  using lrep_ok [of s ns xs] by (simp add: list_size_def list_ok_def obj_ok_def)

section \<open>Moving nodes inside a list and between lists\<close>

lemma move_to_front_run:
  assumes "lrep s (as @ p # bs) (xs @ x # ys)" "length as = length xs"
  shows "\<exists>t. move_to_front p s = (Inr (), t) \<and> lrep t (p # as @ bs) (x # xs @ ys)"
proof -
  let ?c = "cells s" and ?l = "lthis s"
  have ok: "list_ok s (as @ p # bs)" and o: "obj_ok ?c ?l (as @ p # bs)"
    using lrep_ok(1) [OF assms(1)] by (simp_all add: list_ok_def)
  note e = obj_ok_ends [OF o]
  obtain us a b vs where n: "lhead ?l # as = us @ [a]" "bs @ [ltail ?l] = b # vs"
    and f: "prv_of ?c p = a" "nxt_of ?c p = b" "p \<in> dom ?c" "a \<in> dom ?c" "b \<in> dom ?c" "a \<noteq> p" "b \<noteq> p" "a \<noteq> b"
    by (rule obj_ok_neighbours [OF o])
  show ?thesis
  proof (cases "as = []")
    case True
    then have "a = lhead ?l" using n(1) by (cases us) auto
    then have "move_to_front p s = (Inr (), s)" using f e by (simp add: move_to_front_def heap_simps)
    then show ?thesis using assms True by simp
  next
    case False
    then have "a \<in> set as" using n(1) by (metis last_ConsR last_in_set last_snoc)
    then have ah: "a \<noteq> lhead ?l" using e(4) by auto
    define c1 where "c1 = upd_prv (upd_nxt ?c a b) b a"
    define l1 where "l1 = ?l\<lparr>lsize := lsize ?l - 1\<rparr>"
    have d1: "dom c1 = dom ?c" using f by (auto simp: c1_def heap_simps)
    have o1: "obj_ok c1 l1 ([] @ (as @ bs))" unfolding l1_def append_Nil
      by (rule obj_ok_remove [OF o n]) (use f in \<open>auto simp: c1_def heap_simps\<close>)
    then obtain us' a' b' vs' where n1: "lhead l1 # [] = us' @ [a']" "(as @ bs) @ [ltail l1] = b' # vs'"
      and f1: "nxt_of c1 a' = b'" "prv_of c1 b' = a'" "a' \<in> dom c1" "b' \<in> dom c1" "a' \<noteq> b'"
      by (rule obj_ok_split)
    have a': "a' = lhead ?l" using n1(1) by (cases us') (auto simp: l1_def)
    have p1: "p \<notin> set (nodes l1 ([] @ (as @ bs)) @ lcache l1)"
      using o by (auto simp: obj_ok_def nodes_def l1_def)
    have "b' \<in> set (as @ bs @ [ltail l1])" using n1(2) by (cases as) auto
    then have pb: "p \<noteq> b'" "p \<noteq> a'" using p1 a' by (auto simp: nodes_def l1_def)
    define d where "d = upd_nxt (upd_prv (upd_prv (upd_nxt c1 p b') p a') b' p) a' p"
    have b': "b' \<in> dom ?c" "nxt_of ?c (lhead ?l) = b'"
      using f1(1,4) d1 a' ah by (auto simp: c1_def heap_simps)
    have run: "move_to_front p s = (Inr (), s\<lparr>cells := d\<rparr>)"
      using f b' e(1,2,5) ah pb a' by (simp add: move_to_front_def heap_simps d_def c1_def)
    have "obj_ok d (l1\<lparr>lsize := lsize l1 + 1\<rparr>) ([] @ p # (as @ bs))"
      by (rule obj_ok_insert [OF o1 n1 _ p1]) (use f(3) d1 f1 pb in \<open>auto simp: d_def heap_simps\<close>)
    moreover have "dom d = dom ?c" using d1 f(3) f1(3,4) by (auto simp: d_def heap_simps)
    ultimately have "list_ok (s\<lparr>cells := d\<rparr>) ([] @ p # (as @ bs))"
      using ok by (simp add: list_ok_def avail_ok_def l1_def)
    moreover have "map (dat_of ?c) as = map Some xs" "map (dat_of ?c) (p # bs) = map Some (x # ys)"
      using assms by (auto simp: lrep_def)
    ultimately have "lrep (s\<lparr>cells := d\<rparr>) ([] @ p # (as @ bs)) ([] @ x # (xs @ ys))"
      by (intro lrep_insertI [where f = "dat_of ?c"]) (auto simp: d_def c1_def heap_simps)
    then show ?thesis using run by simp
  qed
qed

lemma linked_concat:
  assumes "xs \<noteq> []" "ys \<noteq> []"
  shows "linked c (xs @ ys) \<longleftrightarrow> linked c xs \<and> linked c ys \<and> nxt_of c (last xs) = hd ys \<and> prv_of c (hd ys) = last xs"
proof -
  obtain us a where "xs = us @ [a]" using assms(1) by (cases xs rule: rev_cases) auto
  moreover obtain b vs where "ys = b # vs" using assms(2) by (cases ys) auto
  ultimately show ?thesis by (auto simp: linked_two)
qed

text \<open>The other list of a \<open>merge\<close>: its own well-formed object in the same heap.\<close>

definition other_ok :: "'a lstate \<Rightarrow> nat list \<Rightarrow> lobj \<Rightarrow> nat list \<Rightarrow> bool" where
  "other_ok s ns m ms \<longleftrightarrow> obj_ok (cells s) m ms
     \<and> set (nodes (lthis s) ns @ lcache (lthis s)) \<inter> set (nodes m ms @ lcache m) = {}"

lemma merge_links:
  assumes "linked c (h # ns @ [t])" "linked c (g # ms @ [u])" "ms \<noteq> []"
    and "distinct (h # ns @ [t])" "distinct (g # ms @ [u])" "set (h # ns @ [t]) \<inter> set (g # ms @ [u]) = {}"
    and "\<And>q. nxt_of d q = (if q = last (h # ns) then hd ms else if q = last ms then t else if q = g then u else nxt_of c q)"
    and "\<And>q. prv_of d q = (if q = hd ms then last (h # ns) else if q = t then last ms else if q = u then g else prv_of c q)"
  shows "linked d (h # (ns @ ms) @ [t])" "linked d [g, u]"
proof -
  have l: "last ms \<in> set ms" "hd ms \<in> set ms" using assms(3) by auto
  have ln: "last (h # ns) \<in> set (h # ns)" by (rule last_in_set) simp
  have c: "linked c (h # ns)" "linked c ms"
    using assms(1,2) linked_concat [of "h # ns" "[t]" c] linked_concat [of "[g]" "ms @ [u]" c]
      linked_concat [of ms "[u]" c] assms(3) by auto
  have bl: "q \<noteq> last xs" if "q \<in> set (butlast xs)" "distinct xs" for q :: nat and xs
    using that by (cases xs rule: rev_cases) auto
  have tl: "q \<noteq> hd xs" if "q \<in> set (tl xs)" "distinct xs" for q :: nat and xs
    using that by (cases xs) auto
  have "linked d (h # ns) = linked c (h # ns)"
  proof (rule linked_cong)
    fix q assume q: "q \<in> set (butlast (h # ns))"
    then have "q \<in> set (h # ns)" by (rule in_set_butlastD)
    then have "q \<noteq> last (h # ns)" "q \<noteq> last ms" "q \<noteq> g"
      using bl [OF q] l assms(4,6) by auto
    then show "nxt_of d q = nxt_of c q" by (simp only: assms(7) if_False)
  next
    fix q assume "q \<in> set (tl (h # ns))"
    then have "q \<noteq> hd ms" "q \<noteq> t" "q \<noteq> u" using l assms(4,6) by auto
    then show "prv_of d q = prv_of c q" by (simp only: assms(8) if_False)
  qed
  moreover have "linked d ms = linked c ms"
  proof (rule linked_cong)
    fix q assume q: "q \<in> set (butlast ms)"
    then have "q \<in> set ms" by (rule in_set_butlastD)
    then have "q \<noteq> last (h # ns)" "q \<noteq> last ms" "q \<noteq> g"
      using bl [OF q] ln assms(5,6) by auto
    then show "nxt_of d q = nxt_of c q" by (simp only: assms(7) if_False)
  next
    fix q assume q: "q \<in> set (tl ms)"
    then have "q \<in> set ms" by (metis list.set_sel(2) tl_Nil)
    then have "q \<noteq> hd ms" "q \<noteq> t" "q \<noteq> u" using tl [OF q] assms(5,6) by auto
    then show "prv_of d q = prv_of c q" by (simp only: assms(8) if_False)
  qed
  moreover have "last ms \<noteq> last (h # ns)" "hd ms \<noteq> t" using l ln assms(6) by (auto simp: disjoint_iff)
  ultimately show "linked d (h # (ns @ ms) @ [t])"
    using c linked_concat [of "h # ns" "ms @ [t]" d] linked_concat [of ms "[t]" d] assms(3,7,8) by simp
  have "g \<noteq> last (h # ns)" "g \<noteq> last ms" "u \<noteq> hd ms" "u \<noteq> t"
    using l ln assms(5,6) by (auto simp: disjoint_iff)
  then show "linked d [g, u]" by (simp add: assms(7,8) del: last.simps)
qed

end
