(* ===== verification/List_Moves.thy ===== *)
theory List_Moves
  imports Linked_List
begin

text \<open>
  The operations of \<open>src/os/utils/list.h\<close> that move whole lists: the two \<open>merge\<close> operations,
  \<open>clear\<close>, the constructor and destructor, and iteration; then the contract of a double-ended
  queue and the proof that the linked list provides it.
\<close>

section \<open>Merging\<close>

lemma merge_run:
  assumes "lrep s ns xs" "other_ok s ns m ms" "map (dat_of (cells s)) ms = map Some ys"
  shows "\<exists>t m'. list_merge m s = (Inr m', t) \<and> lrep t (ns @ ms) (xs @ ys)
    \<and> other_ok t (ns @ ms) m' [] \<and> m' = m\<lparr>lsize := 0\<rparr>"
proof -
  let ?c = "cells s" and ?l = "lthis s"
  have ok: "list_ok s ns" and o: "obj_ok ?c ?l ns" and om: "obj_ok ?c m ms"
    and dj: "set (nodes ?l ns @ lcache ?l) \<inter> set (nodes m ms @ lcache m) = {}"
    using assms by (simp_all add: lrep_def list_ok_def other_ok_def)
  note e = obj_ok_ends [OF o] and f = obj_ok_ends [OF om]
  have nm: "nxt_of ?c (lhead m) = hd (ms @ [ltail m])" "prv_of ?c (ltail m) = last (lhead m # ms)"
    using om linked_concat [of "[lhead m]" "ms @ [ltail m]" ?c] linked_concat [of "lhead m # ms" "[ltail m]" ?c]
    by (simp_all add: obj_ok_def nodes_def)
  show ?thesis
  proof (cases "ms = []")
    case True
    then have "list_merge m s = (Inr m, s)" using f nm by (simp add: list_merge_def heap_simps)
    moreover have "m\<lparr>lsize := 0\<rparr> = m" using om True by (simp add: obj_ok_def)
    ultimately show ?thesis using assms True by simp
  next
    case False
    define a where "a = last (lhead ?l # ns)"
    define b where "b = hd ms"
    define z where "z = last ms"
    have a: "prv_of ?c (ltail ?l) = a" using list_first_last(2) [OF ok] by (simp add: a_def)
    have bz: "nxt_of ?c (lhead m) = b" "prv_of ?c (ltail m) = z" "b \<in> set ms" "z \<in> set ms"
      using nm False by (simp_all add: b_def z_def)
    have as: "a \<in> set (lhead ?l # ns)" unfolding a_def by (rule last_in_set) simp
    have dom: "a \<in> dom ?c" "b \<in> dom ?c" "z \<in> dom ?c" using as bz e f by auto
    have ne: "a \<noteq> ltail ?l" "a \<noteq> lhead m" "a \<noteq> ltail m" "a \<noteq> b" "a \<noteq> z" "b \<noteq> ltail ?l" "z \<noteq> lhead m" "b \<noteq> lhead m"
      "z \<noteq> ltail m" "b \<noteq> ltail m" "ltail ?l \<noteq> ltail m" "ltail ?l \<noteq> lhead m"
      using as bz e f dj by (auto simp: nodes_def)
    define d where "d = upd_prv (upd_nxt (upd_nxt (upd_prv (upd_prv (upd_nxt ?c a b) b a) (ltail ?l) z) z (ltail ?l))
       (lhead m) (ltail m)) (ltail m) (lhead m)"
    define t where "t = s\<lparr>cells := d, lthis := ?l\<lparr>lsize := lsize ?l + lsize m\<rparr>\<rparr>"
    have run: "list_merge m s = (Inr (m\<lparr>lsize := 0\<rparr>), t)"
      using e(1,2) f(1,2) a bz dom ne by (simp add: list_merge_def heap_simps d_def t_def)
    have dd: "dom d = dom ?c" using dom e f by (auto simp: d_def heap_simps)
    have lk: "linked ?c (lhead ?l # ns @ [ltail ?l])" "linked ?c (lhead m # ms @ [ltail m])"
      using o om by (simp_all add: obj_ok_def nodes_def)
    have L: "linked d (lhead ?l # (ns @ ms) @ [ltail ?l])" "linked d [lhead m, ltail m]"
      by (rule merge_links [OF lk False], (use e f dj in \<open>auto simp: nodes_def\<close>) [3],
          (use ne in \<open>auto simp: d_def heap_simps a_def [symmetric] b_def [symmetric] z_def [symmetric] simp del: last.simps\<close>) [2])+
    have "list_ok t (ns @ ms)"
      using ok L(1) dd o om dj by (auto simp: list_ok_def avail_ok_def obj_ok_def nodes_def t_def)
    moreover have "dat_of d = dat_of ?c" by (rule ext) (simp add: d_def heap_simps)
    ultimately have "lrep t (ns @ ms) (xs @ ys)" using assms by (simp add: lrep_def t_def)
    moreover have "other_ok t (ns @ ms) (m\<lparr>lsize := 0\<rparr>) []"
      using L(2) om dd dj by (auto simp: other_ok_def obj_ok_def nodes_def t_def)
    ultimately show ?thesis using run by blast
  qed
qed

lemma merge_one_end: "list_merge_one m (ltail m) s = (Inr m, s)"
  by (simp add: list_merge_one_def)

lemma merge_one_run:
  assumes "lrep s ns xs" "other_ok s ns m (as @ p # bs)" "dat_of (cells s) p = Some y"
  shows "\<exists>t m'. list_merge_one m p s = (Inr m', t) \<and> lrep t (ns @ [p]) (xs @ [y])
    \<and> other_ok t (ns @ [p]) m' (as @ bs) \<and> (\<forall>q. dat_of (cells t) q = dat_of (cells s) q)"
proof -
  let ?c = "cells s" and ?l = "lthis s"
  have ok: "list_ok s ns" and o: "obj_ok ?c ?l (ns @ [])" and om: "obj_ok ?c m (as @ p # bs)"
    and dj: "set (nodes ?l ns @ lcache ?l) \<inter> set (nodes m (as @ p # bs) @ lcache m) = {}"
    using assms by (simp_all add: lrep_def list_ok_def other_ok_def)
  obtain us a b vs where n: "lhead m # as = us @ [a]" "bs @ [ltail m] = b # vs"
    "nodes m (as @ p # bs) = us @ a # p # b # vs"
    and f: "prv_of ?c p = a" "nxt_of ?c p = b" "p \<in> dom ?c" "a \<in> dom ?c" "b \<in> dom ?c" "a \<noteq> p" "b \<noteq> p" "a \<noteq> b"
    by (rule obj_ok_neighbours [OF om])
  obtain us' z e vs' where n': "lhead ?l # ns = us' @ [z]" "[] @ [ltail ?l] = e # vs'"
    "nodes ?l (ns @ []) = us' @ z # e # vs'"
    and f': "nxt_of ?c z = e" "prv_of ?c e = z" "z \<in> dom ?c" "e \<in> dom ?c" "z \<noteq> e"
    by (rule obj_ok_split [OF o])
  have e: "e = ltail ?l" using n'(2) by simp
  have mem: "a \<in> set (nodes m (as @ p # bs))" "b \<in> set (nodes m (as @ p # bs))" "p \<in> set (nodes m (as @ p # bs))"
    "z \<in> set (nodes ?l ns)" "e \<in> set (nodes ?l ns)"
    using n(3) n'(3) by simp_all
  then have ne: "a \<noteq> z" "a \<noteq> e" "b \<noteq> z" "b \<noteq> e" "p \<noteq> z" "p \<noteq> e" "p \<noteq> ltail m"
    using dj obj_ok_ends(5) [OF om] by auto
  define c1 where "c1 = upd_prv (upd_nxt ?c a b) b a"
  define d where "d = upd_nxt (upd_prv (upd_prv (upd_nxt c1 z p) p z) e p) p e"
  define t where "t = s\<lparr>cells := d, lthis := ?l\<lparr>lsize := lsize ?l + 1\<rparr>\<rparr>"
  define m' where "m' = m\<lparr>lsize := lsize m - 1\<rparr>"
  have run: "list_merge_one m p s = (Inr m', t)"
    using f f' e ne by (simp add: list_merge_one_def heap_simps c1_def d_def t_def m'_def)
  have dd: "dom c1 = dom ?c" "dom d = dom ?c" using f f' by (auto simp: c1_def d_def heap_simps)
  have "obj_ok c1 m' (as @ bs)" unfolding m'_def
    by (rule obj_ok_remove [OF om n(1,2)]) (use f in \<open>auto simp: c1_def heap_simps\<close>)
  then have m1: "obj_ok d m' (as @ bs)"
  proof (rule obj_ok_frame)
    fix q assume "q \<in> set (nodes m' (as @ bs) @ lcache m')"
    then have q: "q \<in> set (nodes m (as @ p # bs) @ lcache m)" "q \<noteq> p"
      using om by (auto simp: nodes_def m'_def obj_ok_def)
    then have "q \<noteq> z" "q \<noteq> e" using dj mem(4,5) by auto
    then show "q \<in> dom d \<and> nxt_of d q = nxt_of c1 q \<and> prv_of d q = prv_of c1 q"
      using q om dd by (auto simp: d_def heap_simps obj_ok_def)
  qed
  have "obj_ok c1 ?l (ns @ [])"
  proof (rule obj_ok_frame [OF o])
    fix q assume q: "q \<in> set (nodes ?l (ns @ []) @ lcache ?l)"
    then have "q \<noteq> a" "q \<noteq> b" using dj mem(1,2) by auto
    then show "q \<in> dom c1 \<and> nxt_of c1 q = nxt_of ?c q \<and> prv_of c1 q = prv_of ?c q"
      using q o dd by (auto simp: c1_def heap_simps obj_ok_def)
  qed
  then have "obj_ok d (?l\<lparr>lsize := lsize ?l + 1\<rparr>) (ns @ p # [])"
    by (rule obj_ok_insert [OF _ n'(1,2)])
      (use f(3) dd dj mem(3) ne f'(5) in \<open>auto simp: d_def heap_simps\<close>)
  then have "list_ok t (ns @ p # [])"
    using ok dd by (simp add: list_ok_def avail_ok_def t_def)
  moreover have dat: "dat_of d = dat_of ?c" by (rule ext) (simp add: d_def c1_def heap_simps)
  ultimately have "lrep t (ns @ [p]) (xs @ [y])" using assms by (simp add: lrep_def t_def)
  moreover have "other_ok t (ns @ [p]) m' (as @ bs)"
    using m1 dj om by (auto simp: other_ok_def t_def m'_def nodes_def obj_ok_def)
  ultimately show ?thesis using run dat by (auto simp: t_def)
qed

section \<open>Clearing, construction and iteration\<close>

text \<open>Every cell that \<open>clear\<close> deletes goes back to the allocator exactly once.\<close>

lemma clear_nodes_run:
  assumes "linked (cells s) (ns @ [t])" "distinct (ns @ [t])" "set ns \<subseteq> dom (cells s)" "0 \<notin> set ns"
    "ltail (lthis s) = t" "length ns < k" "cur = hd (ns @ [t])"
  shows "clear_nodes k cur s
    = (Inr (), s\<lparr>cells := cells s |` (- set ns), avail := rev ns @ avail s\<rparr>)"
  using assms
proof (induction ns arbitrary: s k cur)
  case Nil
  then show ?case by (cases k) (auto simp: restrict_map_def fun_eq_iff)
next
  case (Cons p ns)
  obtain j where k: "k = Suc j" "length ns < j" using Cons.prems(6) by (cases k) auto
  define u where "u = s\<lparr>avail := p # avail s, cells := (cells s)(p := None)\<rparr>"
  have nx: "nxt_of (cells s) p = hd (ns @ [t])" "linked (cells s) (ns @ [t])"
    using Cons.prems(1) linked_concat [of "[p]" "ns @ [t]" "cells s"] by auto
  have "linked (cells u) (ns @ [t]) = linked (cells s) (ns @ [t])"
  proof (rule linked_cong)
    fix q assume "q \<in> set (butlast (ns @ [t]))"
    then have "q \<noteq> p" using Cons.prems(2) by auto
    then show "nxt_of (cells u) q = nxt_of (cells s) q" by (simp add: u_def heap_simps)
  next
    fix q assume "q \<in> set (tl (ns @ [t]))"
    then have "q \<noteq> p" using Cons.prems(2) by (cases ns) auto
    then show "prv_of (cells u) q = prv_of (cells s) q" by (simp add: u_def heap_simps)
  qed
  then have lk: "linked (cells u) (ns @ [t])" using nx(2) by simp
  have "clear_nodes j (hd (ns @ [t])) u
      = (Inr (), u\<lparr>cells := cells u |` (- set ns), avail := rev ns @ avail u\<rparr>)"
    using Cons.prems nx k by (intro Cons.IH lk) (auto simp: u_def)
  moreover have "clear_nodes k cur s = clear_nodes j (hd (ns @ [t])) u"
    using Cons.prems k nx by (simp add: delete_node_def heap_simps u_def)
  ultimately show ?case by (simp add: u_def restrict_map_def fun_upd_def fun_eq_iff)
qed

lemma clear_cache_run:
  assumes "distinct ps" "set ps \<subseteq> dom (cells s)" "0 \<notin> set ps" "lcache (lthis s) = ps"
  shows "clear_cache ps s
    = (Inr (), s\<lparr>cells := cells s |` (- set ps), avail := rev ps @ avail s, lthis := (lthis s)\<lparr>lcache := []\<rparr>\<rparr>)"
  using assms
proof (induction ps arbitrary: s)
  case Nil
  then show ?case by simp
next
  case (Cons p ps)
  then have "0 < p" by (cases p) auto
  define u where "u = s\<lparr>lthis := (lthis s)\<lparr>lcache := ps\<rparr>, avail := p # avail s, cells := (cells s)(p := None)\<rparr>"
  have "clear_cache (p # ps) s = clear_cache ps u"
    using Cons.prems \<open>0 < p\<close> by (simp add: delete_node_def heap_simps u_def)
  also have "\<dots> = (Inr (), u\<lparr>cells := cells u |` (- set ps), avail := rev ps @ avail u, lthis := (lthis u)\<lparr>lcache := []\<rparr>\<rparr>)"
    using Cons.prems by (intro Cons.IH) (auto simp: u_def)
  finally show ?case by (simp add: u_def restrict_map_def fun_upd_def fun_eq_iff)
qed

lemma list_clear_run:
  assumes "list_ok s ns" "length ns < k"
  shows "\<exists>t. list_clear k s = (Inr (), t) \<and> list_ok t [] \<and> lcache (lthis t) = []
    \<and> dom (cells t) = dom (cells s) - set ns - set (lcache (lthis s))
    \<and> avail t = rev (lcache (lthis s)) @ rev ns @ avail s
    \<and> lhead (lthis t) = lhead (lthis s) \<and> ltail (lthis t) = ltail (lthis s)"
proof -
  let ?c = "cells s" and ?l = "lthis s"
  have o: "obj_ok ?c ?l ns" and av: "avail_ok s" using assms(1) by (simp_all add: list_ok_def)
  note e = obj_ok_ends [OF o]
  have lk: "linked ?c (ns @ [ltail ?l])"
    using o linked_concat [of "[lhead ?l]" "ns @ [ltail ?l]" ?c] by (simp add: obj_ok_def nodes_def)
  define s1 where "s1 = s\<lparr>cells := ?c |` (- set ns), avail := rev ns @ avail s\<rparr>"
  have cn: "clear_nodes k (hd (ns @ [ltail ?l])) s = (Inr (), s1)" unfolding s1_def
    using e av assms(2) by (intro clear_nodes_run [OF lk]) (auto simp: avail_ok_def)
  define l where "l = ?l\<lparr>lsize := 0\<rparr>"
  define d where "d = upd_prv (upd_nxt (cells s1) (lhead ?l) (ltail ?l)) (ltail ?l) (lhead ?l)"
  define s2 where "s2 = s1\<lparr>lthis := l, cells := d\<rparr>"
  have h: "lhead ?l \<in> dom (cells s1)" "ltail ?l \<in> dom (cells s1)" using e by (auto simp: s1_def)
  have l1: "lthis s1 = ?l" by (simp add: s1_def)
  have dd: "dom d = dom ?c - set ns" using h by (auto simp: d_def heap_simps s1_def)
  have run: "list_clear k s = clear_cache (lcache ?l) s2"
    using e(1,2) list_first_last(1) [OF assms(1)] cn h l1
    by (simp add: list_clear_def heap_simps s2_def d_def l_def)
  define t where "t = s2\<lparr>cells := cells s2 |` (- set (lcache ?l)), avail := rev (lcache ?l) @ avail s2, lthis := l\<lparr>lcache := []\<rparr>\<rparr>"
  have "clear_cache (lcache ?l) s2 = (Inr (), t)"
  proof -
    have "distinct (lcache ?l)" "set (lcache ?l) \<subseteq> dom (cells s2)" "0 \<notin> set (lcache ?l)"
      using o av dd by (auto simp: obj_ok_def avail_ok_def s2_def nodes_def)
    then show ?thesis unfolding t_def by (subst clear_cache_run) (simp_all add: s2_def l_def)
  qed
  moreover have dt: "dom (cells t) = dom ?c - set ns - set (lcache ?l)"
    using dd by (auto simp: t_def s2_def)
  moreover have "list_ok t []"
  proof -
    have c: "lhead ?l \<notin> set (lcache ?l)" "ltail ?l \<notin> set (lcache ?l)" using o by (auto simp: obj_ok_def nodes_def)
    have "nxt_of (cells t) (lhead ?l) = ltail ?l" "prv_of (cells t) (ltail ?l) = lhead ?l"
      using c e(6) by (simp_all add: t_def s2_def nxt_of_def prv_of_def d_def upd_nxt_def upd_prv_def)
    moreover have "avail_ok t"
      using av dt o by (auto simp: avail_ok_def t_def s2_def s1_def obj_ok_def nodes_def)
    ultimately show ?thesis using e c dt
      by (auto simp: list_ok_def obj_ok_def nodes_def t_def l_def)
  qed
  moreover have "avail t = rev (lcache ?l) @ rev ns @ avail s" by (simp add: t_def s2_def s1_def)
  moreover have "lcache (lthis t) = []" "lhead (lthis t) = lhead ?l" "ltail (lthis t) = ltail ?l"
    by (simp_all add: t_def l_def)
  ultimately show ?thesis using run by simp
qed

lemma list_ctor_run:
  assumes "avail s = h # u # ps" "avail_ok s"
  shows "\<exists>t. list_ctor s = (Inr (), t) \<and> lrep t [] [] \<and> avail t = ps"
proof -
  let ?n = "\<lparr>ndata = None, nxt = 0, prv = 0\<rparr>"
  have ne: "h \<noteq> u" "h \<noteq> 0" "u \<noteq> 0" using assms by (auto simp: avail_ok_def)
  define d where "d = upd_prv (upd_nxt ((cells s)(h \<mapsto> ?n, u \<mapsto> ?n)) h u) u h"
  define l where "l = (lthis s)\<lparr>lhead := h, ltail := u, lsize := 0, lcache := []\<rparr>"
  have run: "list_ctor s = (Inr (), s\<lparr>avail := ps, cells := d, lthis := l\<rparr>)"
    using assms(1) ne by (simp add: list_ctor_def new_node_def heap_simps d_def l_def)
  have dd: "dom d = insert h (insert u (dom (cells s)))" by (auto simp: d_def heap_simps)
  have "obj_ok d l []" using ne by (auto simp: obj_ok_def nodes_def l_def dd) (simp_all add: d_def heap_simps)
  moreover have "avail_ok (s\<lparr>avail := ps, cells := d, lthis := l\<rparr>)"
    using assms ne dd by (auto simp: avail_ok_def)
  ultimately show ?thesis using run by (simp add: lrep_def list_ok_def)
qed

lemma list_dtor_run:
  assumes "list_ok s ns" "length ns < k"
  shows "\<exists>t. list_dtor k s = (Inr (), t) \<and> lhead (lthis t) = 0 \<and> ltail (lthis t) = 0
    \<and> dom (cells t) = dom (cells s) - set (nodes (lthis s) ns @ lcache (lthis s))
    \<and> set (avail t) = set (avail s) \<union> set (nodes (lthis s) ns @ lcache (lthis s))"
proof -
  obtain t where t: "list_clear k s = (Inr (), t)" "list_ok t []"
    "dom (cells t) = dom (cells s) - set ns - set (lcache (lthis s))"
    "avail t = rev (lcache (lthis s)) @ rev ns @ avail s"
    "lhead (lthis t) = lhead (lthis s)" "ltail (lthis t) = ltail (lthis s)"
    using list_clear_run [OF assms] by blast
  have e: "lhead (lthis t) \<in> dom (cells t)" "ltail (lthis t) \<in> dom (cells t)" "lhead (lthis t) \<noteq> ltail (lthis t)"
    "0 \<notin> dom (cells t)"
    using obj_ok_ends [OF list_ok_obj [OF t(2)]] t(2) by (simp_all add: list_ok_def avail_ok_def)
  then have "0 < lhead (lthis t)" "0 < ltail (lthis t)" by (metis gr0I)+
  then have "list_dtor k s = (Inr (), t\<lparr>avail := ltail (lthis t) # lhead (lthis t) # avail t,
      cells := (cells t)(lhead (lthis t) := None, ltail (lthis t) := None),
      lthis := (lthis t)\<lparr>lhead := 0, ltail := 0\<rparr>\<rparr>)"
    using t(1) e by (simp add: list_dtor_def delete_node_def heap_simps)
  then show ?thesis using t(3-6) by (auto simp: nodes_def)
qed

text \<open>A range-for over the list visits the data in order; a reverse iteration in reverse order.\<close>

lemma walk_run:
  assumes "linked (cells s) (ns @ [ltail (lthis s)])" "distinct (ns @ [ltail (lthis s)])" "set ns \<subseteq> dom (cells s)"
    "map (dat_of (cells s)) ns = map Some xs" "length ns < k"
  shows "list_walk k (hd (ns @ [ltail (lthis s)])) s = (Inr xs, s)"
  using assms
proof (induction ns arbitrary: xs k)
  case Nil
  then show ?case by (cases k) auto
next
  case (Cons p ns)
  obtain j where k: "k = Suc j" "length ns < j" using Cons.prems(5) by (cases k) auto
  obtain x ys where xs: "xs = x # ys" using Cons.prems(4) by (cases xs) auto
  have nx: "nxt_of (cells s) p = hd (ns @ [ltail (lthis s)])" "linked (cells s) (ns @ [ltail (lthis s)])"
    using Cons.prems(1) linked_concat [of "[p]" "ns @ [ltail (lthis s)]" "cells s"] by auto
  then have "list_walk j (hd (ns @ [ltail (lthis s)])) s = (Inr ys, s)"
    using Cons.prems k xs by (intro Cons.IH) auto
  then show ?case using Cons.prems k xs nx by (simp add: heap_simps)
qed

lemma rwalk_run:
  assumes "linked (cells s) (lhead (lthis s) # ns)" "distinct (lhead (lthis s) # ns)" "set ns \<subseteq> dom (cells s)"
    "map (dat_of (cells s)) ns = map Some xs" "length ns < k"
  shows "rwalk k (last (lhead (lthis s) # ns)) s = (Inr (rev xs), s)"
  using assms
proof (induction ns arbitrary: xs k rule: rev_induct)
  case Nil
  then show ?case by (cases k) auto
next
  case (snoc p ns)
  obtain j where k: "k = Suc j" "length ns < j" using snoc.prems(5) by (cases k) auto
  obtain x ys where xs: "xs = ys @ [x]" using snoc.prems(4) by (cases xs rule: rev_cases) auto
  have nx: "prv_of (cells s) p = last (lhead (lthis s) # ns)" "linked (cells s) (lhead (lthis s) # ns)"
    using snoc.prems(1) linked_concat [of "lhead (lthis s) # ns" "[p]" "cells s"] by auto
  then have "rwalk j (last (lhead (lthis s) # ns)) s = (Inr (rev ys), s)"
    using snoc.prems k xs by (intro snoc.IH) auto
  then show ?case using snoc.prems k xs nx by (simp add: heap_simps del: last.simps) (simp add: heap_simps)
qed

lemma traverse_run:
  assumes "lrep s ns xs" "length xs < k"
  shows "traverse k s = (Inr xs, s)" "rtraverse k s = (Inr (rev xs), s)"
proof -
  have ok: "list_ok s ns" and o: "obj_ok (cells s) (lthis s) ns" and l: "length ns < k"
    using lrep_ok [OF assms(1)] assms(2) by (simp_all add: list_ok_def)
  note e = obj_ok_ends [OF o] and f = list_first_last [OF ok]
  have lk: "linked (cells s) (ns @ [ltail (lthis s)])" "linked (cells s) (lhead (lthis s) # ns)"
    using o linked_concat [of "[lhead (lthis s)]" "ns @ [ltail (lthis s)]" "cells s"]
      linked_concat [of "lhead (lthis s) # ns" "[ltail (lthis s)]" "cells s"] by (simp_all add: obj_ok_def nodes_def)
  have "list_walk k (hd (ns @ [ltail (lthis s)])) s = (Inr xs, s)"
    using assms e l by (intro walk_run lk) (auto simp: lrep_def)
  then show "traverse k s = (Inr xs, s)" using f by (simp add: traverse_def heap_simps)
  have "rwalk k (last (lhead (lthis s) # ns)) s = (Inr (rev xs), s)"
    using assms e l by (intro rwalk_run lk) (auto simp: lrep_def)
  then show "rtraverse k s = (Inr (rev xs), s)" using f by (simp add: rtraverse_def heap_simps del: last.simps)
qed

section \<open>The contract of a first-in first-out queue\<close>

text \<open>
  The run queues, task queues and wait queues of the kernel use a list only through
  \<open>push_back\<close>, \<open>empty\<close>, \<open>front\<close> and \<open>pop_front\<close>. \<open>fifo_take\<close> is their common idiom: test for
  emptiness, read the front, pop it.
\<close>

definition fifo_take ::
  "('s, bool) kmonad \<Rightarrow> ('s, 'a) kmonad \<Rightarrow> ('s, unit) kmonad \<Rightarrow> ('s, 'a option) kmonad" where
  "fifo_take emp frt pop = kbind emp (\<lambda>e. if e then kret None else
     kbind frt (\<lambda>x. kseq pop (kret (Some x))))"

primrec drain :: "('s, 'a option) kmonad \<Rightarrow> nat \<Rightarrow> ('s, 'a list) kmonad" where
  "drain tk 0 = kret []"
| "drain tk (Suc n) = kbind tk (\<lambda>r. case r of None \<Rightarrow> kret [] | Some x \<Rightarrow>
     kbind (drain tk n) (\<lambda>xs. kret (x # xs)))"

primrec push_all :: "('a \<Rightarrow> ('s, nat) kmonad) \<Rightarrow> 'a list \<Rightarrow> ('s, nat list) kmonad" where
  "push_all psh [] = kret []"
| "push_all psh (x # xs) = kbind (psh x) (\<lambda>p. kbind (push_all psh xs) (\<lambda>ps. kret (p # ps)))"

locale fifo =
  fixes rep :: "'s \<Rightarrow> 'a list \<Rightarrow> bool"
    and room :: "'s \<Rightarrow> bool"
    and psh :: "'a \<Rightarrow> ('s, nat) kmonad"
    and emp :: "('s, bool) kmonad"
    and frt :: "('s, 'a) kmonad"
    and pop :: "('s, unit) kmonad"
  assumes push_room: "rep s xs \<Longrightarrow> room s \<Longrightarrow> \<exists>p t. psh x s = (Inr p, t) \<and> p \<noteq> 0 \<and> rep t (xs @ [x])"
    and push_full: "rep s xs \<Longrightarrow> \<not> room s \<Longrightarrow> psh x s = (Inr 0, s)"
    and emp_run: "rep s xs \<Longrightarrow> emp s = (Inr (xs = []), s)"
    and frt_run: "rep s (x # xs) \<Longrightarrow> frt s = (Inr x, s)"
    and pop_run: "rep s (x # xs) \<Longrightarrow> \<exists>t. pop s = (Inr (), t) \<and> rep t xs"
begin

lemma take_run: "rep s xs \<Longrightarrow> \<exists>t. fifo_take emp frt pop s = (Inr (case xs of [] \<Rightarrow> None | x # _ \<Rightarrow> Some x), t) \<and> rep t (tl xs)"
proof (cases xs)
  case (Cons x ys)
  assume "rep s xs"
  with Cons have r: "rep s (x # ys)" by simp
  then obtain t where "pop s = (Inr (), t)" "rep t ys" using pop_run by blast
  then show ?thesis using emp_run [OF r] frt_run [OF r] Cons by (simp add: fifo_take_def)
qed (auto simp: fifo_take_def emp_run)

lemma drain_run: "rep s xs \<Longrightarrow> \<exists>t. drain (fifo_take emp frt pop) (length xs) s = (Inr xs, t) \<and> rep t []"
proof (induction xs arbitrary: s)
  case (Cons x xs)
  obtain t where t: "fifo_take emp frt pop s = (Inr (Some x), t)" "rep t xs"
    using take_run [OF Cons.prems] by auto
  obtain u where "drain (fifo_take emp frt pop) (length xs) t = (Inr xs, u)" "rep u []"
    using Cons.IH [OF t(2)] by blast
  then show ?case using t by simp
qed simp

lemma push_cases:
  assumes "rep s xs" "psh x s = (r, t)"
  obtains p where "r = Inr p" "p \<noteq> 0 \<Longrightarrow> rep t (xs @ [x])" "p = 0 \<Longrightarrow> t = s"
  using push_room [OF assms(1), of x] push_full [OF assms(1), of x] assms(2) by (cases "room s") auto

lemma push_all_run:
  "rep s xs \<Longrightarrow> push_all psh ys s = (Inr ps, t) \<Longrightarrow> 0 \<notin> set ps \<Longrightarrow> rep t (xs @ ys)"
proof (induction ys arbitrary: s xs ps)
  case (Cons y ys)
  obtain p u where p: "psh y s = (Inr p, u)" "p \<noteq> 0 \<Longrightarrow> rep u (xs @ [y])"
    using push_cases [OF Cons.prems(1)] by (metis surj_pair)
  obtain qs v where q: "push_all psh ys u = (Inr qs, t)" "ps = p # qs"
    using Cons.prems(2) p(1) by (auto elim!: kbind_InrE)
  show ?case using Cons.IH [of u "xs @ [y]" qs] p q Cons.prems(3) by auto
qed simp

text \<open>What was queued first is served first, after everything that was already waiting.\<close>

lemma first_in_first_out:
  assumes "rep s xs" "push_all psh ys s = (Inr ps, t)" "0 \<notin> set ps"
  shows "\<exists>u. drain (fifo_take emp frt pop) (length xs + length ys) t = (Inr (xs @ ys), u) \<and> rep u []"
  using drain_run [OF push_all_run [OF assms]] by simp

end

interpretation list_fifo: fifo "\<lambda>s xs. \<exists>ns. lrep s ns xs" "\<lambda>s. \<not> no_node s" push_back list_empty list_front pop_front
proof (unfold_locales, goal_cases)
  case (1 s xs x) then show ?case using push_back_run by (metis (full_types))
next
  case (2 s xs x) then show ?case using push_back_run by (metis (full_types))
next
  case (3 s xs) then show ?case using empty_run by blast
next
  case (4 s x xs) then show ?case using front_run by (elim exE)
next
  case (5 s x xs)
  then obtain ns where "lrep s ns (x # xs)" by blast
  then show ?case using pop_front_run(2) [of s ns x xs] by blast
qed

section \<open>Properties\<close>

text \<open>A concrete list for the witnesses: freshly constructed, with room for two more nodes.\<close>

definition fresh_list :: "nat lstate" where
  "fresh_list = snd (list_ctor \<lparr>cells = \<lambda>_. None, avail = [8, 16, 24, 32],
     lthis = \<lparr>lhead = 0, ltail = 0, lsize = 0, lcache = []\<rparr>\<rparr>)"

lemma fresh_list_rep: "lrep fresh_list [] []" "avail fresh_list = [24, 32]"
  using list_ctor_run [of "\<lparr>cells = (\<lambda>_. None) :: nat \<Rightarrow> nat node option, avail = [8, 16, 24, 32],
     lthis = \<lparr>lhead = 0, ltail = 0, lsize = 0, lcache = []\<rparr>\<rparr>" 8 16 "[24, 32]"]
  by (simp_all add: fresh_list_def avail_ok_def) (metis snd_conv)+

definition two_list :: "nat lstate" where
  "two_list = snd (push_back 2 (snd (push_back 1 fresh_list)))"

lemma push_back_concrete:
  assumes "lrep s ns xs" "\<not> no_node s" "fst (push_back x s) = Inr p"
  shows "lrep (snd (push_back x s)) (ns @ [p]) (xs @ [x])"
  using push_back_run [OF assms(1), of x] assms(2,3) by auto

lemma two_list_rep: "lrep two_list [24, 32] [1, 2]"
proof -
  have "\<not> no_node fresh_list" "fst (push_back 1 fresh_list) = Inr 24" by code_simp+
  from push_back_concrete [OF fresh_list_rep(1) this] have "lrep (snd (push_back 1 fresh_list)) [24] [1]" by simp
  moreover have "\<not> no_node (snd (push_back 1 fresh_list))" "fst (push_back 2 (snd (push_back 1 fresh_list))) = Inr 32"
    by code_simp+
  ultimately have "lrep (snd (push_back 2 (snd (push_back 1 fresh_list)))) ([24] @ [32]) ([1] @ [2])"
    by (rule push_back_concrete)
  then show ?thesis by (simp add: two_list_def)
qed

text \<open>
  C33. \<open>list::push_back\<close> appends: afterwards an iteration from \<open>begin()\<close> to \<open>end()\<close> yields the old
  elements and then the new one, and the heap is again a well-formed doubly linked list. When
  no node can be allocated it returns the null iterator and changes nothing.
\<close>

theorem list_push_back_refines:
  assumes "lrep s ns xs"
  shows "if no_node s then push_back x s = (Inr 0, s)
    else \<exists>p t. push_back x s = (Inr p, t) \<and> p \<noteq> 0 \<and> lrep t (ns @ [p]) (xs @ [x])
      \<and> traverse (length xs + 2) t = (Inr (xs @ [x]), t) \<and> list_size t = (Inr (int (length xs) + 1), t)"
proof (cases "no_node s")
  case False
  then obtain p t where t: "push_back x s = (Inr p, t)" "p \<noteq> 0" "lrep t (ns @ [p]) (xs @ [x])"
    using push_back_run [OF assms, of x] by auto
  then show ?thesis
    using False traverse_run(1) [OF t(3), of "length xs + 2"] size_run [OF t(3)] by auto
qed (use push_back_run [OF assms] in simp)

lemma list_push_back_refines_witness:
  "lrep fresh_list [] [] \<and> (if no_node fresh_list then push_back (7::nat) fresh_list = (Inr 0, fresh_list)
    else \<exists>p t. push_back 7 fresh_list = (Inr p, t) \<and> p \<noteq> 0 \<and> lrep t ([] @ [p]) ([] @ [7])
      \<and> traverse (length ([]::nat list) + 2) t = (Inr ([] @ [7]), t)
      \<and> list_size t = (Inr (int (length ([]::nat list)) + 1), t))"
  using list_push_back_refines [OF fresh_list_rep(1), of 7] fresh_list_rep(1) by (rule conjI [rotated])

text \<open>
  \<open>erase\<close> unlinks exactly the node of its iterator, wherever it stands, and refuses (panics)
  the sentinels; \<open>move_to_front\<close> moves it before all others and keeps the order of the rest (the
  LRU step of the buffer cache).
\<close>

lemma list_erase_move_refines:
  assumes "lrep s (as @ p # bs) (xs @ x # ys)" "length as = length xs"
  shows "\<exists>t u. erase p s = (Inr (), t) \<and> lrep t (as @ bs) (xs @ ys)
    \<and> move_to_front p s = (Inr (), u) \<and> lrep u (p # as @ bs) (x # xs @ ys)
    \<and> erase (lhead (lthis s)) s = (Inl (Panic ''list::erase''), s)
    \<and> erase (ltail (lthis s)) s = (Inl (Panic ''list::erase''), s)"
proof -
  have "erase (lhead (lthis s)) s = (Inl (Panic ''list::erase''), s)"
    "erase (ltail (lthis s)) s = (Inl (Panic ''list::erase''), s)"
    by (simp_all add: erase_def)
  then show ?thesis using erase_run [OF assms] move_to_front_run [OF assms] by blast
qed

lemma list_erase_move_refines_witness:
  "\<exists>t u. erase 32 two_list = (Inr (), t) \<and> lrep t ([24] @ []) ([1] @ [])
    \<and> move_to_front 32 two_list = (Inr (), u) \<and> lrep u (32 # [24] @ []) (2 # [1] @ [])
    \<and> erase (lhead (lthis two_list)) two_list = (Inl (Panic ''list::erase''), two_list)
    \<and> erase (ltail (lthis two_list)) two_list = (Inl (Panic ''list::erase''), two_list)"
  using two_list_rep by (intro list_erase_move_refines) simp_all

text \<open>
  \<open>merge(other)\<close> splices the other list behind this one in constant time: this list holds both
  sequences in order, the other list is empty, and both are well formed in the shared heap.
\<close>

lemma list_merge_refines:
  assumes "lrep s ns xs" "other_ok s ns m ms" "map (dat_of (cells s)) ms = map Some ys"
  shows "\<exists>t m'. list_merge m s = (Inr m', t) \<and> lrep t (ns @ ms) (xs @ ys)
    \<and> other_ok t (ns @ ms) m' [] \<and> lsize (lthis t) = int (length xs + length ys) \<and> lsize m' = 0"
proof -
  obtain t m' where t: "list_merge m s = (Inr m', t)" "lrep t (ns @ ms) (xs @ ys)"
    "other_ok t (ns @ ms) m' []" "m' = m\<lparr>lsize := 0\<rparr>"
    using merge_run [OF assms] by blast
  then show ?thesis using size_run [OF t(2)] by (auto simp: list_size_def)
qed

text \<open>The list of the witness below is joined with a second list object in the same heap.\<close>

definition other_list :: lobj where
  "other_list = \<lparr>lhead = 40, ltail = 48, lsize = 1, lcache = []\<rparr>"

definition two_lists :: "nat lstate" where
  "two_lists = two_list\<lparr>cells := (cells two_list)(40 \<mapsto> \<lparr>ndata = None, nxt = 56, prv = 0\<rparr>,
     56 \<mapsto> \<lparr>ndata = Some 3, nxt = 48, prv = 40\<rparr>, 48 \<mapsto> \<lparr>ndata = None, nxt = 0, prv = 56\<rparr>)\<rparr>"

lemma two_list_shape: "lthis two_list = \<lparr>lhead = 8, ltail = 16, lsize = 2, lcache = []\<rparr>" "avail two_list = []"
  by code_simp+

lemma two_lists_rep: "lrep two_lists [24, 32] [1, 2]" "other_ok two_lists [24, 32] other_list [56]"
  "map (dat_of (cells two_lists)) [56] = map Some [3]"
proof -
  have o: "obj_ok (cells two_list) (lthis two_list) [24, 32]" and z: "0 \<notin> dom (cells two_list)"
    and m: "map (dat_of (cells two_list)) [24, 32] = map Some [1, 2]"
    using two_list_rep by (simp_all add: lrep_def list_ok_def avail_ok_def)
  have "obj_ok (cells two_lists) (lthis two_list) [24, 32]"
    by (rule obj_ok_frame [OF o])
      (use o in \<open>auto simp: two_lists_def two_list_shape nodes_def obj_ok_def read_other\<close>)
  moreover have "map (dat_of (cells two_lists)) [24, 32] = map Some [1, 2]"
    using m by (simp add: two_lists_def read_other)
  ultimately show "lrep two_lists [24, 32] [1, 2]"
    using z by (auto simp: lrep_def list_ok_def avail_ok_def two_lists_def two_list_shape)
  show "other_ok two_lists [24, 32] other_list [56]" "map (dat_of (cells two_lists)) [56] = map Some [3]"
    by (auto simp: other_ok_def obj_ok_def nodes_def other_list_def two_lists_def two_list_shape
        nxt_of_def prv_of_def dat_of_def)
qed

lemma list_merge_refines_witness:
  "\<exists>t m'. list_merge other_list two_lists = (Inr m', t) \<and> lrep t ([24, 32] @ [56]) ([1, 2] @ [3])
    \<and> other_ok t ([24, 32] @ [56]) m' [] \<and> lsize (lthis t) = int (length [1::nat, 2] + length [3::nat]) \<and> lsize m' = 0"
  by (rule list_merge_refines [OF two_lists_rep])

text \<open>
  The destructor frees every node exactly once: the data nodes, the cached nodes and the two
  sentinels leave the heap and return to the allocator, and no other cell is touched.
\<close>

lemma list_dtor_frees_all:
  assumes "list_ok s ns" "length ns < k"
  shows "\<exists>t. list_dtor k s = (Inr (), t)
    \<and> dom (cells t) = dom (cells s) - set (nodes (lthis s) ns @ lcache (lthis s))
    \<and> set (avail t) = set (avail s) \<union> set (nodes (lthis s) ns @ lcache (lthis s))
    \<and> lhead (lthis t) = 0 \<and> ltail (lthis t) = 0"
  using list_dtor_run [OF assms] by blast

lemma list_dtor_frees_all_witness:
  "\<exists>t. list_dtor 3 two_list = (Inr (), t)
    \<and> dom (cells t) = dom (cells two_list) - set (nodes (lthis two_list) [24, 32] @ lcache (lthis two_list))
    \<and> set (avail t) = set (avail two_list) \<union> set (nodes (lthis two_list) [24, 32] @ lcache (lthis two_list))
    \<and> lhead (lthis t) = 0 \<and> ltail (lthis t) = 0"
  using two_list_rep by (intro list_dtor_frees_all) (simp_all add: lrep_def)

text \<open>
  A kernel queue is first-in first-out: elements pushed with \<open>push_back\<close> onto a waiting queue
  are taken (\<open>empty\<close>, \<open>front\<close>, \<open>pop_front\<close>) after the ones already there and in the order of the
  pushes, provided no push ran out of memory.
\<close>

lemma list_fifo_order:
  assumes "lrep s ns xs" "push_all push_back ys s = (Inr ps, t)" "0 \<notin> set ps"
  shows "\<exists>u. drain (fifo_take list_empty list_front pop_front) (length xs + length ys) t = (Inr (xs @ ys), u)
    \<and> (\<exists>ms. lrep u ms [])"
  using list_fifo.first_in_first_out [OF _ assms(2,3)] assms(1) by blast

lemma list_fifo_order_witness:
  "\<exists>u. drain (fifo_take list_empty list_front pop_front) (length ([]::nat list) + length [5::nat, 6])
      (snd (push_all push_back [5, 6] fresh_list)) = (Inr ([] @ [5, 6]), u) \<and> (\<exists>ms. lrep u ms [])"
proof (rule list_fifo_order [OF fresh_list_rep(1)])
  have "fst (push_all push_back [5, 6] fresh_list) = Inr [24, 32]" by code_simp
  then show "push_all push_back [5, 6] fresh_list = (Inr [24, 32], snd (push_all push_back [5, 6] fresh_list))"
    by (metis prod.collapse)
qed simp

end
