(* ===== verification/Bitmap.thy ===== *)
theory Bitmap
  imports Prelude
begin

text \<open>
  The bitmaps of \<open>src/os/utils/bitmap.h\<close>: an array of 64-bit words, searched for its first
  clear bit, with single bits set, cleared and read. They carry the block allocation of the
  file system and the allocation map of the debug heap.
\<close>

section \<open>Operations\<close>

text \<open>The first loop of \<open>bitmap_find_first_zero\<close>: the first word that is not all ones.\<close>

function find_word :: "u64 list \<Rightarrow> u32 \<Rightarrow> u32 \<Rightarrow> u32 option" where
  "find_word bitmap sz i =
     (if i < sz
      then do { w \<leftarrow> arr_get bitmap (unat i);
                if w \<noteq> NOT 0 then Some i else find_word bitmap sz (i + 1) }
      else Some i)"
  by pat_completeness auto
termination
  by (relation "measure (\<lambda>(bitmap, sz, i). unat sz - unat i)")
    (auto simp: word_less_nat_alt word_less_Suc_unat)

text \<open>The second loop: the first clear bit of that word (64 when there is none).\<close>

function find_bit :: "u64 \<Rightarrow> nat \<Rightarrow> nat" where
  "find_bit w j =
     (if j < 64 then if w AND push_bit j 1 = 0 then j else find_bit w (Suc j) else j)"
  by pat_completeness auto
termination
  by (relation "measure (\<lambda>(w, j). 64 - j)") auto

definition bitmap_find_first_zero :: "u64 list \<Rightarrow> u32 \<Rightarrow> u32 option" where
  "bitmap_find_first_zero bitmap sz = do {
     i \<leftarrow> find_word bitmap sz 0;
     if i = sz then Some (- 1)
     else do { w \<leftarrow> arr_get bitmap (unat i); Some (i * 64 + of_nat (find_bit w 0)) } }"

definition bitmap_set :: "u64 list \<Rightarrow> u32 \<Rightarrow> u64 list option" where
  "bitmap_set bitmap index = do {
     w \<leftarrow> arr_get bitmap (unat (index div 64));
     arr_set bitmap (unat (index div 64)) (w OR push_bit (unat (index mod 64)) 1) }"

definition bitmap_clear :: "u64 list \<Rightarrow> u32 \<Rightarrow> u64 list option" where
  "bitmap_clear bitmap index = do {
     w \<leftarrow> arr_get bitmap (unat (index div 64));
     arr_set bitmap (unat (index div 64)) (w AND NOT (push_bit (unat (index mod 64)) 1)) }"

definition bitmap_get :: "u64 list \<Rightarrow> u32 \<Rightarrow> bool option" where
  "bitmap_get bitmap index = do {
     w \<leftarrow> arr_get bitmap (unat (index div 64));
     Some (w AND push_bit (unat (index mod 64)) 1 \<noteq> 0) }"

section \<open>The set of bits a bitmap holds\<close>

definition bm_bit :: "u64 list \<Rightarrow> nat \<Rightarrow> bool" where
  "bm_bit bm n \<longleftrightarrow> n < 64 * length bm \<and> bit (bm ! (n div 64)) (n mod 64)"

definition bm_used :: "u64 list \<Rightarrow> nat set" where
  "bm_used bm = {n. bm_bit bm n}"

declare find_word.simps [simp del] find_bit.simps [simp del]

lemma and_push_bit_1: "w AND push_bit j 1 = 0 \<longleftrightarrow> \<not> bit w j" for w :: u64
  by (simp add: and_exp_eq_0_iff_not_bit)

lemma find_bit_step:
  "find_bit w j = (if j < 64 then if bit w j then find_bit w (Suc j) else j else j)"
  by (subst find_bit.simps) (simp only: and_push_bit_1 if_not_P if_P split: if_split, simp)

lemma find_bit_induct [case_names step]:
  assumes "\<And>w j. (j < 64 \<Longrightarrow> bit w j \<Longrightarrow> P w (Suc j)) \<Longrightarrow> P w j"
  shows "P w j"
proof (induction "64 - j" arbitrary: j rule: less_induct)
  case less
  show ?case by (rule assms, rule less) auto
qed

lemma find_bit_spec:
  assumes "k < 64" "\<not> bit w k" "j \<le> k"
  shows "find_bit w j \<le> k \<and> \<not> bit w (find_bit w j) \<and> (\<forall>m. j \<le> m \<and> m < find_bit w j \<longrightarrow> bit w m)"
  using assms
proof (induction w j rule: find_bit_induct)
  case (step w j)
  show ?case
  proof (cases "bit w j")
    case True
    then have "j \<noteq> k" using step.prems by blast
    then have j: "Suc j \<le> k" "j < 64" using step.prems by auto
    note IH = step.IH [OF j(2) True step.prems(1) step.prems(2) j(1)]
    have "find_bit w j = find_bit w (Suc j)"
      by (subst find_bit_step) (simp add: True j)
    moreover have "bit w m" if "j \<le> m" "m < find_bit w (Suc j)" for m
      using IH True that by (cases "m = j") auto
    ultimately show ?thesis using IH by simp
  next
    case False
    have "find_bit w j = j" by (subst find_bit_step) (simp add: False)
    then show ?thesis using False step.prems by auto
  qed
qed

lemma find_word_spec:
  assumes "unat sz \<le> length bm" "i \<le> sz"
  shows "\<exists>r. find_word bm sz i = Some r \<and> i \<le> r \<and> r \<le> sz
    \<and> (\<forall>k. unat i \<le> k \<and> k < unat r \<longrightarrow> bm ! k = - 1) \<and> (r < sz \<longrightarrow> bm ! unat r \<noteq> - 1)"
  using assms
proof (induction bm sz i rule: find_word.induct)
  case (1 bm sz i)
  show ?case
  proof (cases "i < sz \<and> bm ! unat i = - 1")
    case True
    then have i: "i < sz" "unat i < length bm" "unat (i + 1) = Suc (unat i)"
      using "1.prems" by (auto simp: word_less_nat_alt word_less_Suc_unat)
    then have "i + 1 \<le> sz" by (simp add: word_le_nat_alt word_less_nat_alt)
    then obtain r where r: "find_word bm sz (i + 1) = Some r" "i + 1 \<le> r" "r \<le> sz"
      "\<forall>k. unat (i + 1) \<le> k \<and> k < unat r \<longrightarrow> bm ! k = - 1" "r < sz \<longrightarrow> bm ! unat r \<noteq> - 1"
      using "1.IH" [of "bm ! unat i"] "1.prems" True i by auto
    have "find_word bm sz i = Some r"
      using True i r(1) by (subst find_word.simps) simp
    moreover have "bm ! k = - 1" if "unat i \<le> k" "k < unat r" for k
      using r(4) that True i(3) by (cases "k = unat i") auto
    moreover have "i \<le> r" using r(2) i(3) by (simp add: word_le_nat_alt)
    ultimately show ?thesis using r by blast
  next
    case False
    then have "find_word bm sz i = Some i"
      using "1.prems" by (subst find_word.simps) (auto simp: word_less_nat_alt)
    then show ?thesis using False "1.prems" by auto
  qed
qed

lemma not_ones_bit: "w \<noteq> - 1 \<Longrightarrow> \<exists>k<64. \<not> bit w k" for w :: u64
  by (rule ccontr) (auto intro: bit_word_eqI)

lemma find_first_zero_cases:
  assumes "unat sz \<le> length bm" "unat sz < 2 ^ 26"
  shows "(\<exists>n. bitmap_find_first_zero bm sz = Some (of_nat n) \<and> n < 64 * unat sz \<and> \<not> bm_bit bm n
            \<and> (\<forall>m<n. bm_bit bm m))
       \<or> (bitmap_find_first_zero bm sz = Some (- 1) \<and> (\<forall>m<64 * unat sz. bm_bit bm m))"
proof -
  obtain r where r: "find_word bm sz 0 = Some r" "r \<le> sz"
    "\<forall>k<unat r. bm ! k = - 1" "r < sz \<longrightarrow> bm ! unat r \<noteq> - 1"
    using find_word_spec [OF assms(1), of 0] by auto
  have low: "bm_bit bm m" if "m < 64 * unat r" for m
  proof -
    have "m div 64 < unat r" using that by auto
    moreover have "unat r \<le> length bm" using r(2) assms(1) by (simp add: word_le_nat_alt)
    ultimately show ?thesis using that r(3) by (simp add: bm_bit_def)
  qed
  show ?thesis
  proof (cases "r = sz")
    case True
    then show ?thesis using r low by (simp add: bitmap_find_first_zero_def)
  next
    case False
    then have lt: "r < sz" "unat r < unat sz" using r(2) by (auto simp: word_less_nat_alt [symmetric])
    obtain k where k: "k < 64" "\<not> bit (bm ! unat r) k" using not_ones_bit r(4) lt by blast
    define j where "j = find_bit (bm ! unat r) 0"
    have j: "j < 64" "\<not> bit (bm ! unat r) j" "\<forall>m<j. bit (bm ! unat r) m"
      using find_bit_spec [of k "bm ! unat r" 0] k unfolding j_def by auto
    define n where "n = 64 * unat r + j"
    have n: "n div 64 = unat r" "n mod 64 = j" using j(1) by (auto simp: n_def)
    have "of_nat n = r * 64 + of_nat j" by (simp add: n_def mult.commute)
    then have "bitmap_find_first_zero bm sz = Some (of_nat n)"
      using False r(1) lt assms(1) by (simp add: bitmap_find_first_zero_def j_def)
    moreover have "n < 64 * unat sz" using lt j(1) by (simp add: n_def)
    moreover have "\<not> bm_bit bm n" using n j(2) by (simp add: bm_bit_def)
    moreover have "bm_bit bm m" if "m < n" for m
    proof (cases "m < 64 * unat r")
      case False
      then obtain d where d: "m = 64 * unat r + d" by (meson le_Suc_ex not_less)
      then have "d < j" using that by (simp add: n_def)
      then have "m div 64 = unat r" "bit (bm ! unat r) (m mod 64)" using d j by auto
      then show ?thesis using that lt assms(1) j(1) by (simp add: bm_bit_def n_def)
    qed (rule low)
    ultimately show ?thesis by blast
  qed
qed

section \<open>Single bits\<close>

lemma index_split:
  fixes index :: u32
  shows "unat (index div 64) = unat index div 64" "unat (index mod 64) = unat index mod 64"
  by (simp_all add: unat_div unat_mod)

lemma index_word: "unat index < 64 * length bm \<Longrightarrow> unat index div 64 < length bm"
  by (simp add: less_mult_imp_div_less mult.commute)

lemma index_eq_iff: "n div 64 = m div 64 \<and> n mod 64 = m mod 64 \<longleftrightarrow> n = (m::nat)"
  by (metis div_mult_mod_eq)

lemma bm_bit_update:
  assumes "n < 64 * length bm" "\<And>k. k < 64 \<Longrightarrow> bit w k = (if k = n mod 64 then b else bit (bm ! (n div 64)) k)"
  shows "bm_bit (bm[n div 64 := w]) m = (if m = n then b else bm_bit bm m)"
proof -
  have "n div 64 < length bm" using assms(1) by auto
  then have "(bm[n div 64 := w]) ! (m div 64) = (if m div 64 = n div 64 then w else bm ! (m div 64))"
    by simp
  moreover have "bit w (m mod 64) = (if m mod 64 = n mod 64 then b else bit (bm ! (n div 64)) (m mod 64))"
    by (rule assms(2)) simp
  ultimately show ?thesis
    using assms(1) index_eq_iff [of m n] by (auto simp: bm_bit_def)
qed

lemma bitmap_set_run:
  assumes "unat index < 64 * length bm"
  shows "\<exists>bm'. bitmap_set bm index = Some bm' \<and> length bm' = length bm \<and>
    (\<forall>m. bm_bit bm' m = (m = unat index \<or> bm_bit bm m))"
proof -
  have "bit (bm ! (unat index div 64) OR push_bit (unat index mod 64) 1) k
      = (if k = unat index mod 64 then True else bit (bm ! (unat index div 64)) k)" if "k < 64" for k
    using that by (auto simp: bit_simps)
  then show ?thesis
    using assms index_word [OF assms] bm_bit_update [OF assms]
    by (simp add: bitmap_set_def index_split)
qed

lemma bitmap_clear_run:
  assumes "unat index < 64 * length bm"
  shows "\<exists>bm'. bitmap_clear bm index = Some bm' \<and> length bm' = length bm \<and>
    (\<forall>m. bm_bit bm' m = (m \<noteq> unat index \<and> bm_bit bm m))"
proof -
  have "bit (bm ! (unat index div 64) AND NOT (push_bit (unat index mod 64) 1)) k
      = (if k = unat index mod 64 then False else bit (bm ! (unat index div 64)) k)" if "k < 64" for k
    using that by (auto simp: bit_simps)
  then show ?thesis
    using assms index_word [OF assms] bm_bit_update [OF assms]
    by (simp add: bitmap_clear_def index_split)
qed

lemma bitmap_get_run:
  assumes "unat index < 64 * length bm"
  shows "bitmap_get bm index = Some (bm_bit bm (unat index))"
  using assms index_word [OF assms]
  by (simp only: bitmap_get_def index_split arr_get_Some bind.simps and_push_bit_1)
    (simp add: bm_bit_def)

section \<open>The contract of an index pool\<close>

text \<open>
  What a client that hands out indices relies on: a search that returns an unused index and
  fails only when every index is in use, and operations that mark and release one index. Both
  the bitmaps and the descriptor table of the virtio disk provide it.
\<close>

locale index_pool =
  fixes ok :: "'p \<Rightarrow> bool"
    and used :: "'p \<Rightarrow> nat set"
    and cap :: "'p \<Rightarrow> nat"
    and find :: "'p \<Rightarrow> nat option"
    and mark :: "'p \<Rightarrow> nat \<Rightarrow> 'p option"
    and release :: "'p \<Rightarrow> nat \<Rightarrow> 'p option"
  assumes used_cap: "ok p \<Longrightarrow> used p \<subseteq> {..<cap p}"
    and find_free: "ok p \<Longrightarrow> find p = Some n \<Longrightarrow> n < cap p \<and> n \<notin> used p \<and> {..<n} \<subseteq> used p"
    and find_full: "ok p \<Longrightarrow> find p = None \<Longrightarrow> used p = {..<cap p}"
    and mark_ok: "ok p \<Longrightarrow> n < cap p \<Longrightarrow> n \<notin> used p \<Longrightarrow>
      \<exists>q. mark p n = Some q \<and> ok q \<and> cap q = cap p \<and> used q = insert n (used p)"
    and release_ok: "ok p \<Longrightarrow> n \<in> used p \<Longrightarrow>
      \<exists>q. release p n = Some q \<and> ok q \<and> cap q = cap p \<and> used q = used p - {n}"
begin

lemma finite_used: "ok p \<Longrightarrow> finite (used p)"
  using used_cap by (meson finite_lessThan finite_subset)

lemma exhausted_iff: "ok p \<Longrightarrow> find p = None \<longleftrightarrow> card (used p) = cap p"
proof
  assume "ok p" "card (used p) = cap p"
  then have "used p = {..<cap p}"
    using used_cap by (metis card_lessThan card_subset_eq finite_lessThan)
  then show "find p = None"
    using find_free [OF \<open>ok p\<close>] by (cases "find p") auto
qed (simp add: find_full)

lemma take_fresh:
  assumes "ok p" "find p = Some n"
  shows "\<exists>q. mark p n = Some q \<and> ok q \<and> cap q = cap p \<and> used q = insert n (used p)
    \<and> card (used q) = Suc (card (used p))"
  using mark_ok [of p n] find_free [OF assms] finite_used [OF assms(1)] assms by auto

lemma take_release:
  assumes "ok p" "find p = Some n" "mark p n = Some q"
  shows "\<exists>r. release q n = Some r \<and> ok r \<and> cap r = cap p \<and> used r = used p"
  using mark_ok [of p n] find_free [OF assms(1,2)] release_ok [of q n] assms by auto

lemma release_find:
  assumes "ok p" "n \<in> used p" "release p n = Some q"
  shows "\<exists>k\<le>n. find q = Some k"
proof -
  have q: "ok q" "cap q = cap p" "used q = used p - {n}" using release_ok [OF assms(1,2)] assms(3) by auto
  then have "n < cap q" "n \<notin> used q" using used_cap assms by auto
  then obtain k where "find q = Some k" using find_full [OF q(1)] by (cases "find q") auto
  then show ?thesis using find_free [OF q(1)] \<open>n \<notin> used q\<close> by (meson lessThan_iff not_le subsetD)
qed

end

definition bm_find :: "u64 list \<Rightarrow> nat option" where
  "bm_find bm = (case bitmap_find_first_zero bm (of_nat (length bm)) of
      Some r \<Rightarrow> if r = - 1 then None else Some (unat r) | None \<Rightarrow> None)"

definition bm_mark :: "u64 list \<Rightarrow> nat \<Rightarrow> u64 list option" where
  "bm_mark bm n = bitmap_set bm (of_nat n)"

definition bm_release :: "u64 list \<Rightarrow> nat \<Rightarrow> u64 list option" where
  "bm_release bm n = bitmap_clear bm (of_nat n)"

definition bm_ok :: "u64 list \<Rightarrow> bool" where
  "bm_ok bm \<longleftrightarrow> length bm < 2 ^ 26"

lemma bm_index_bound:
  assumes "bm_ok bm" "n < 64 * length bm"
  shows "unat (of_nat n :: u32) = n" "(of_nat n :: u32) \<noteq> - 1"
proof -
  have n: "n < 2 ^ 32 - 1" using assms by (simp add: bm_ok_def)
  then show u: "unat (of_nat n :: u32) = n" by (intro unat_of_nat_lt) simp
  have "unat (- 1 :: u32) = 2 ^ 32 - 1"
    by (simp add: unsigned_minus_1_eq_mask mask_eq_exp_minus_1)
  then show "(of_nat n :: u32) \<noteq> - 1" using n u by (metis less_irrefl)
qed

lemma bm_find_cases:
  assumes "bm_ok bm"
  shows "(\<exists>n. bm_find bm = Some n \<and> n < 64 * length bm \<and> \<not> bm_bit bm n \<and> (\<forall>m<n. bm_bit bm m))
    \<or> (bm_find bm = None \<and> (\<forall>m<64 * length bm. bm_bit bm m))"
proof -
  have len: "unat (of_nat (length bm) :: u32) = length bm"
    using assms by (intro unat_of_nat_lt) (simp add: bm_ok_def)
  then have "unat (of_nat (length bm) :: u32) < 2 ^ 26" using assms by (simp add: bm_ok_def)
  from find_first_zero_cases [OF _ this, of bm] show ?thesis
    using bm_index_bound [OF assms] by (auto simp: bm_find_def len)
qed

interpretation bm_pool: index_pool bm_ok bm_used "\<lambda>bm. 64 * length bm" bm_find bm_mark bm_release
proof (unfold_locales, goal_cases)
  case (1 bm) then show ?case by (auto simp: bm_used_def bm_bit_def)
next
  case (2 bm n) then show ?case using bm_find_cases [of bm] by (auto simp: bm_used_def)
next
  case (3 bm) then show ?case using bm_find_cases [of bm] by (auto simp: bm_used_def bm_bit_def)
next
  case (4 bm n)
  then show ?case
    using bitmap_set_run [of "of_nat n" bm] bm_index_bound [of bm n]
    by (auto simp: bm_mark_def bm_used_def bm_ok_def)
next
  case (5 bm n)
  then have "n < 64 * length bm" by (simp add: bm_used_def bm_bit_def)
  with 5 show ?case
    using bitmap_clear_run [of "of_nat n" bm] bm_index_bound [of bm n]
    by (auto simp: bm_release_def bm_used_def bm_ok_def)
qed

section \<open>Properties\<close>

text \<open>
  \<open>bitmap_find_first_zero\<close> never reads outside the array and returns the least clear bit, or
  \<open>-1\<close> exactly when every bit is set, for every array below \<open>2\<^sup>26\<close> words (from there on the
  \<open>uint32\<close> result can no longer be told from \<open>-1\<close>).
\<close>

lemma bitmap_find_first_zero_least:
  assumes "unat sz \<le> length bm" "unat sz < 2 ^ 26"
  shows "\<exists>r. bitmap_find_first_zero bm sz = Some r \<and>
    (if \<exists>n<64 * unat sz. \<not> bm_bit bm n
     then unat r = (LEAST n. \<not> bm_bit bm n) \<and> unat r < 64 * unat sz
     else r = - 1)"
  using find_first_zero_cases [OF assms]
proof (elim disjE exE conjE)
  fix n
  assume n: "bitmap_find_first_zero bm sz = Some (of_nat n)" "n < 64 * unat sz" "\<not> bm_bit bm n"
    "\<forall>m<n. bm_bit bm m"
  then have "(LEAST n. \<not> bm_bit bm n) = n" by (intro Least_equality) (auto simp: not_less [symmetric])
  moreover have "unat (of_nat n :: u32) = n" using n(2) assms(2) by (intro unat_of_nat_lt) simp
  ultimately show ?thesis using n by auto
qed auto

lemma bitmap_find_first_zero_least_witness:
  "\<exists>r. bitmap_find_first_zero [- 1, 5] 2 = Some r \<and>
    (if \<exists>n<64 * unat (2::u32). \<not> bm_bit [- 1, 5] n
     then unat r = (LEAST n. \<not> bm_bit [- 1, 5] n) \<and> unat r < 64 * unat (2::u32)
     else r = - 1)"
  by (rule bitmap_find_first_zero_least) simp_all

text \<open>
  Taking the first clear bit of a bitmap adds exactly that index to the set of used ones,
  and clearing it again restores the set: the allocation step of the file system's block
  allocator and its inverse.
\<close>

lemma bitmap_take_release:
  assumes "bm_ok bm" "bm_find bm = Some n"
  shows "\<exists>bm' bm''. bm_mark bm n = Some bm' \<and> bm_used bm' = insert n (bm_used bm) \<and>
    card (bm_used bm') = Suc (card (bm_used bm)) \<and>
    bm_release bm' n = Some bm'' \<and> bm_used bm'' = bm_used bm"
  using bm_pool.take_fresh [OF assms] bm_pool.take_release [OF assms] by metis

lemma bitmap_take_release_witness:
  "bm_ok [7] \<and> bm_find [7] = Some 3 \<and> (\<exists>bm' bm''. bm_mark [7] 3 = Some bm' \<and>
    bm_used bm' = insert 3 (bm_used [7]) \<and> card (bm_used bm') = Suc (card (bm_used [7])) \<and>
    bm_release bm' 3 = Some bm'' \<and> bm_used bm'' = bm_used [7])"
proof -
  have a: "bm_ok [7]" by (simp add: bm_ok_def)
  have b: "bm_find [7] = Some 3" by code_simp
  from bitmap_take_release [OF a b] a b show ?thesis by blast
qed

end
