(* ===== verification/Byte_Codec.thy ===== *)
theory Byte_Codec
  imports Prelude
begin

text \<open>
  Little-endian layout of machine integers in byte buffers. The kernel overlays its on-disk and
  on-wire structures on byte buffers by pointer casts; the model reads and writes their fields
  with the operations of this theory.
\<close>

section \<open>Integers as bytes\<close>

primrec to_le :: "nat \<Rightarrow> 'a::len word \<Rightarrow> u8 list" where
  "to_le 0 w = []"
| "to_le (Suc n) w = ucast w # to_le n (drop_bit 8 w)"

fun of_le :: "u8 list \<Rightarrow> 'a::len word" where
  "of_le [] = 0"
| "of_le (b # bs) = ucast b OR push_bit 8 (of_le bs)"

text \<open>Copying \<open>xs\<close> over the bytes of \<open>bs\<close> from offset \<open>off\<close> on, and reading \<open>n\<close> bytes there.\<close>

definition bsplice :: "'a list \<Rightarrow> nat \<Rightarrow> 'a list \<Rightarrow> 'a list" where
  "bsplice bs off xs = take off bs @ xs @ drop (off + length xs) bs"

definition bslice :: "'a list \<Rightarrow> nat \<Rightarrow> nat \<Rightarrow> 'a list" where
  "bslice bs off n = take n (drop off bs)"

definition get32 :: "u8 list \<Rightarrow> nat \<Rightarrow> u32" where
  "get32 bs off = of_le (bslice bs off 4)"

definition put32 :: "u8 list \<Rightarrow> nat \<Rightarrow> u32 \<Rightarrow> u8 list" where
  "put32 bs off v = bsplice bs off (to_le 4 v)"

definition get16 :: "u8 list \<Rightarrow> nat \<Rightarrow> u16" where
  "get16 bs off = of_le (bslice bs off 2)"

text \<open>A buffer seen as an array of 64-bit words, and back.\<close>

definition words64 :: "u8 list \<Rightarrow> u64 list" where
  "words64 bs = map (\<lambda>i. of_le (bslice bs (8 * i) 8)) [0..<length bs div 8]"

definition bytes64 :: "u64 list \<Rightarrow> u8 list" where
  "bytes64 ws = concat (map (to_le 8) ws)"

section \<open>Round trips\<close>

lemma length_to_le [simp]: "length (to_le n w) = n"
  by (induction n arbitrary: w) auto

lemma nth_to_le: "i < n \<Longrightarrow> to_le n w ! i = ucast (drop_bit (8 * i) w)"
proof (induction n arbitrary: w i)
  case (Suc n)
  then show ?case by (cases i) (auto simp: drop_bit_drop_bit add.commute)
qed simp

lemma bit_to_le: "i < n \<Longrightarrow> j < 8 \<Longrightarrow> bit (to_le n w ! i) j = bit w (8 * i + j)" for w :: "'a::len word"
  by (simp add: nth_to_le bit_simps)

lemma bit_of_le:
  "bit (of_le bs :: 'a::len word) k \<longleftrightarrow> k < LENGTH('a) \<and> k < 8 * length bs \<and> bit (bs ! (k div 8)) (k mod 8)"
proof (induction bs arbitrary: k)
  case (Cons b bs)
  show ?case
  proof (cases "k < 8")
    case True
    then show ?thesis by (auto simp: bit_simps)
  next
    case False
    then have n: "(b # bs) ! (k div 8) = bs ! ((k - 8) div 8)" "(k - 8) mod 8 = k mod 8"
      by (auto simp: le_div_geq le_mod_geq nth_Cons')
    have "\<not> bit b k" using False by (auto dest: bit_imp_le_length)
    then have "bit (of_le (b # bs) :: 'a word) k \<longleftrightarrow> k < LENGTH('a) \<and> bit (of_le bs :: 'a word) (k - 8)"
      using False by (simp add: bit_or_iff bit_push_bit_iff bit_ucast_iff not_less)
    also have "\<dots> \<longleftrightarrow> k < LENGTH('a) \<and> k < 8 * length (b # bs) \<and> bit ((b # bs) ! (k div 8)) (k mod 8)"
      unfolding Cons n using False by auto
    finally show ?thesis .
  qed
qed simp

lemma of_le_to_le:
  fixes w :: "'a::len word"
  assumes "LENGTH('a) \<le> 8 * n"
  shows "of_le (to_le n w) = w"
proof (rule bit_word_eqI)
  fix k assume k: "k < LENGTH('a)"
  then have "k div 8 < n" using assms by auto
  then show "bit (of_le (to_le n w) :: 'a word) k = bit w k"
    using k assms bit_to_le [of "k div 8" n "k mod 8" w] by (simp add: bit_of_le)
qed

lemma to_le_of_le:
  assumes "length bs = n" "8 * n \<le> LENGTH('a::len)"
  shows "to_le n (of_le bs :: 'a word) = bs"
proof (rule nth_equalityI)
  fix i assume "i < length (to_le n (of_le bs :: 'a word))"
  then have i: "i < n" by simp
  show "to_le n (of_le bs :: 'a word) ! i = bs ! i"
  proof (rule bit_word_eqI)
    fix j assume j: "j < LENGTH(8)"
    then have "8 * i + j < 8 * n" using i by simp
    then show "bit (to_le n (of_le bs :: 'a word) ! i) j = bit (bs ! i) j"
      using i j assms bit_to_le [of i n j "of_le bs :: 'a word"] by (simp add: bit_of_le)
  qed
qed (use assms in simp)

lemma length_bsplice [simp]: "off + length xs \<le> length bs \<Longrightarrow> length (bsplice bs off xs) = length bs"
  by (simp add: bsplice_def)

lemma length_bslice [simp]: "length (bslice bs off n) = min n (length bs - off)"
  by (simp add: bslice_def min.commute)

lemma nth_bslice: "i < n \<Longrightarrow> off + i < length bs \<Longrightarrow> bslice bs off n ! i = bs ! (off + i)"
  by (simp add: bslice_def)

lemma nth_bsplice:
  "off + length xs \<le> length bs \<Longrightarrow> i < length bs \<Longrightarrow>
    bsplice bs off xs ! i = (if off \<le> i \<and> i < off + length xs then xs ! (i - off) else bs ! i)"
  by (auto simp: bsplice_def nth_append)

lemma bslice_bsplice_same: "off + length xs \<le> length bs \<Longrightarrow> bslice (bsplice bs off xs) off (length xs) = xs"
  by (rule nth_equalityI) (auto simp: nth_bslice nth_bsplice)

lemma bslice_bsplice_other:
  assumes "off + length xs \<le> length bs" "p + n \<le> off \<or> off + length xs \<le> p"
  shows "bslice (bsplice bs off xs) p n = bslice bs p n"
  by (rule nth_equalityI) (use assms in \<open>auto simp: nth_bslice nth_bsplice\<close>)

lemma bsplice_bslice: "off + n \<le> length bs \<Longrightarrow> bsplice bs off (bslice bs off n) = bs"
  by (rule nth_equalityI) (auto simp: nth_bslice nth_bsplice)

lemma bsplice_append: "bsplice bs off (xs @ ys) = bsplice (bsplice bs off xs) (off + length xs) ys"
  if "off + length xs + length ys \<le> length bs"
  by (rule nth_equalityI) (use that in \<open>auto simp: nth_bsplice nth_append\<close>)

lemma get32_put32: "off + 4 \<le> length bs \<Longrightarrow> get32 (put32 bs off v) off = v"
  using bslice_bsplice_same [of off "to_le 4 v" bs] by (simp add: get32_def put32_def of_le_to_le)

lemma get32_put32_other:
  "off + 4 \<le> length bs \<Longrightarrow> p + 4 \<le> off \<or> off + 4 \<le> p \<Longrightarrow> get32 (put32 bs off v) p = get32 bs p"
  by (simp add: get32_def put32_def bslice_bsplice_other)

lemma length_put32 [simp]: "off + 4 \<le> length bs \<Longrightarrow> length (put32 bs off v) = length bs"
  by (simp add: put32_def)

lemma length_words64 [simp]: "length (words64 bs) = length bs div 8"
  by (simp add: words64_def)

lemma length_bytes64 [simp]: "length (bytes64 ws) = 8 * length ws"
  by (induction ws) (auto simp: bytes64_def)

lemma bslice_bytes64: "i < length ws \<Longrightarrow> bslice (bytes64 ws) (8 * i) 8 = to_le 8 (ws ! i)"
proof (induction ws arbitrary: i)
  case (Cons w ws)
  then show ?case by (cases i) (auto simp: bytes64_def bslice_def)
qed simp

lemma words64_bytes64: "words64 (bytes64 ws) = ws"
  by (rule nth_equalityI) (simp_all add: words64_def bslice_bytes64 of_le_to_le)

lemma bit_words64:
  assumes "n < 64 * (length bs div 8)"
  shows "bit (words64 bs ! (n div 64)) (n mod 64) = bit (bs ! (n div 8)) (n mod 8)"
proof -
  define q where "q = n div 64"
  define r where "r = n mod 64"
  have n: "n = 8 * (8 * q) + r" by (simp add: q_def r_def)
  have i: "n div 64 < length bs div 8" using assms by auto
  then have "Suc q \<le> length bs div 8" by (simp add: q_def)
  then have "8 * (n div 64) + 8 \<le> length bs"
    by (simp add: less_eq_div_iff_mult_less_eq q_def)
  moreover have "n div 8 = 8 * (n div 64) + n mod 64 div 8"
    unfolding q_def [symmetric] r_def [symmetric] by (simp add: n)
  moreover have "n mod 64 mod 8 = n mod 8" by (simp add: mod_mod_cancel)
  moreover have "n mod 64 div 8 < 8" "n mod 64 < 64" by auto
  moreover have "min 8 (length bs - 8 * (n div 64)) = 8" using calculation(1) by simp
  ultimately show ?thesis using i
    by (simp add: words64_def bit_of_le nth_bslice)
qed

end
