(* ===== verification/Nfs_Layout.thy ===== *)
theory Nfs_Layout
  imports Byte_Codec
begin

text \<open>
  The on-disk format of the file system (\<open>src/os/fs/nfs/common.h\<close>): constants, the super block,
  inodes, address blocks and directory entries, with their layout in bytes.
\<close>

section \<open>Constants\<close>

abbreviation (input) NFS_MAGIC :: u32 where "NFS_MAGIC \<equiv> 0x10203040"
abbreviation (input) BLOCK_SIZE :: nat where "BLOCK_SIZE \<equiv> 1024"
abbreviation (input) INODE_TABLE_NUMBER :: u32 where "INODE_TABLE_NUMBER \<equiv> 0"
abbreviation (input) ROOT_INODE_NUMBER :: u32 where "ROOT_INODE_NUMBER \<equiv> 1"
abbreviation (input) SUPER_BLOCK_INDEX :: u32 where "SUPER_BLOCK_INDEX \<equiv> 1"
abbreviation (input) BITMAP_BLOCK_INDEX :: u32 where "BITMAP_BLOCK_INDEX \<equiv> 2"
abbreviation (input) BITMAP_BLOCK_SIZE :: u32 where "BITMAP_BLOCK_SIZE \<equiv> 8192"
abbreviation (input) MAX_NAME_LENGTH :: nat where "MAX_NAME_LENGTH \<equiv> 28"
abbreviation (input) NUM_DIRECT_DATA :: nat where "NUM_DIRECT_DATA \<equiv> 13"
abbreviation (input) NUM_ADDRS :: nat where "NUM_ADDRS \<equiv> 255"
abbreviation (input) ADDR_BLOCK_DATA_SIZE :: nat where "ADDR_BLOCK_DATA_SIZE \<equiv> 261120"
abbreviation (input) DIRECT_DATA_SIZE :: nat where "DIRECT_DATA_SIZE \<equiv> 13312"

text \<open>\<open>(uint32)-1\<close> stands for "no block".\<close>

abbreviation (input) NO_BLOCK :: u32 where "NO_BLOCK \<equiv> - 1"

text \<open>The inode types of \<open>src/os/fs/inode.h\<close>.\<close>

abbreviation (input) ITYPE_FILE :: u8 where "ITYPE_FILE \<equiv> 1"
abbreviation (input) ITYPE_DIR :: u8 where "ITYPE_DIR \<equiv> 2"
abbreviation (input) ITYPE_NEXT_FREE_INODE :: u8 where "ITYPE_NEXT_FREE_INODE \<equiv> 8"

section \<open>Structures\<close>

record dinode =
  di_size :: u32
  di_nlinks :: u16
  di_perm :: u8
  di_type :: u8
  di_next :: u32
  di_addrs :: "u32 list"

record superblock =
  sb_magic :: u32
  total_blocks :: u32
  total_generic_blocks :: u32
  used_generic_blocks :: u32
  ninodes :: u32
  generic_block_start :: u32
  next_free_bitmap :: u32
  sb_inode_table :: dinode

record dirent =
  de_inode :: u32
  de_name :: "u8 list"

section \<open>Layout in bytes\<close>

definition u32s_bytes :: "u32 list \<Rightarrow> u8 list" where
  "u32s_bytes ws = concat (map (to_le 4) ws)"

definition get32s :: "u8 list \<Rightarrow> nat \<Rightarrow> nat \<Rightarrow> u32 list" where
  "get32s bs off n = map (\<lambda>i. get32 bs (off + 4 * i)) [0..<n]"

definition dinode_bytes :: "dinode \<Rightarrow> u8 list" where
  "dinode_bytes d = to_le 4 (di_size d) @ to_le 2 (di_nlinks d) @ [di_perm d, di_type d]
     @ to_le 4 (di_next d) @ u32s_bytes (di_addrs d)"

definition dinode_of :: "u8 list \<Rightarrow> dinode" where
  "dinode_of bs = \<lparr>di_size = get32 bs 0, di_nlinks = get16 bs 4, di_perm = bs ! 6, di_type = bs ! 7,
     di_next = get32 bs 8, di_addrs = get32s bs 12 NUM_DIRECT_DATA\<rparr>"

definition superblock_bytes :: "superblock \<Rightarrow> u8 list" where
  "superblock_bytes b = u32s_bytes [sb_magic b, total_blocks b, total_generic_blocks b, used_generic_blocks b,
     ninodes b, generic_block_start b, next_free_bitmap b] @ dinode_bytes (sb_inode_table b)"

definition superblock_of :: "u8 list \<Rightarrow> superblock" where
  "superblock_of bs = \<lparr>sb_magic = get32 bs 0, total_blocks = get32 bs 4, total_generic_blocks = get32 bs 8,
     used_generic_blocks = get32 bs 12, ninodes = get32 bs 16, generic_block_start = get32 bs 20,
     next_free_bitmap = get32 bs 24, sb_inode_table = dinode_of (bslice bs 28 64)\<rparr>"

definition dirent_bytes :: "dirent \<Rightarrow> u8 list" where
  "dirent_bytes d = to_le 4 (de_inode d) @ de_name d"

definition dirent_of :: "u8 list \<Rightarrow> dirent" where
  "dirent_of bs = \<lparr>de_inode = get32 bs 0, de_name = bslice bs 4 MAX_NAME_LENGTH\<rparr>"

text \<open>Fields of an address block: the next block of the chain, then the data block numbers.\<close>

definition ab_next :: "u8 list \<Rightarrow> u32" where
  "ab_next bs = get32 bs 0"

definition ab_addr :: "u8 list \<Rightarrow> nat \<Rightarrow> u32" where
  "ab_addr bs i = get32 bs (4 + 4 * i)"

definition ab_set_next :: "u8 list \<Rightarrow> u32 \<Rightarrow> u8 list" where
  "ab_set_next bs v = put32 bs 0 v"

definition ab_set_addr :: "u8 list \<Rightarrow> nat \<Rightarrow> u32 \<Rightarrow> u8 list" where
  "ab_set_addr bs i v = put32 bs (4 + 4 * i) v"

section \<open>Round trips\<close>

lemma bslice_append1: "off + n \<le> length xs \<Longrightarrow> bslice (xs @ ys) off n = bslice xs off n"
  by (simp add: bslice_def)

lemma bslice_append2: "length xs \<le> off \<Longrightarrow> bslice (xs @ ys) off n = bslice ys (off - length xs) n"
  by (simp add: bslice_def)

lemma bslice_Cons: "0 < off \<Longrightarrow> bslice (x # xs) off n = bslice xs (off - 1) n"
  by (cases off) (simp_all add: bslice_def)

lemma bslice_all: "n = length xs \<Longrightarrow> bslice xs 0 n = xs"
  by (simp add: bslice_def)

lemma length_u32s [simp]: "length (u32s_bytes ws) = 4 * length ws"
  by (induction ws) (auto simp: u32s_bytes_def)

lemma bslice_u32s: "i < length ws \<Longrightarrow> bslice (u32s_bytes ws) (4 * i) 4 = to_le 4 (ws ! i)"
proof (induction ws arbitrary: i)
  case (Cons w ws)
  then show ?case by (cases i) (auto simp: u32s_bytes_def bslice_def)
qed simp

lemma get32_u32s: "i < length ws \<Longrightarrow> get32 (u32s_bytes ws) (4 * i) = ws ! i"
  by (simp add: get32_def bslice_u32s of_le_to_le)

lemma length_dinode_bytes: "length (dinode_bytes d) = 12 + 4 * length (di_addrs d)"
  by (simp add: dinode_bytes_def)

lemma dinode_roundtrip:
  assumes "length (di_addrs d) = NUM_DIRECT_DATA"
  shows "dinode_of (dinode_bytes d) = d"
proof -
  have "get32s (dinode_bytes d) 12 NUM_DIRECT_DATA = di_addrs d"
  proof (rule nth_equalityI)
    fix i assume "i < length (get32s (dinode_bytes d) 12 NUM_DIRECT_DATA)"
    then have i: "i < NUM_DIRECT_DATA" by (simp add: get32s_def)
    have "bslice (dinode_bytes d) (12 + 4 * i) 4 = bslice (u32s_bytes (di_addrs d)) (4 * i) 4"
      by (simp add: dinode_bytes_def bslice_append2 bslice_Cons)
    then show "get32s (dinode_bytes d) 12 NUM_DIRECT_DATA ! i = di_addrs d ! i"
      using i assms by (simp add: get32s_def get32_def bslice_u32s of_le_to_le)
  qed (simp add: get32s_def assms)
  moreover have "get32 (dinode_bytes d) 0 = di_size d" "get16 (dinode_bytes d) 4 = di_nlinks d"
    "get32 (dinode_bytes d) 8 = di_next d"
    by (simp_all add: get32_def get16_def dinode_bytes_def bslice_append1 bslice_append2 bslice_Cons bslice_all of_le_to_le)
  moreover have "dinode_bytes d ! 6 = di_perm d" "dinode_bytes d ! 7 = di_type d"
    by (simp_all add: dinode_bytes_def nth_append)
  ultimately show ?thesis by (simp add: dinode_of_def)
qed

lemma dirent_roundtrip: "length (de_name d) = MAX_NAME_LENGTH \<Longrightarrow> dirent_of (dirent_bytes d) = d"
  by (simp add: dirent_of_def dirent_bytes_def get32_def bslice_append1 bslice_append2 bslice_all of_le_to_le)

lemma length_superblock_bytes: "length (superblock_bytes b) = 40 + 4 * length (di_addrs (sb_inode_table b))"
  by (simp add: superblock_bytes_def length_dinode_bytes)

lemma superblock_field:
  assumes "i < 7"
  shows "get32 (superblock_bytes b @ rest) (4 * i) = [sb_magic b, total_blocks b, total_generic_blocks b,
    used_generic_blocks b, ninodes b, generic_block_start b, next_free_bitmap b] ! i"
proof -
  let ?ws = "[sb_magic b, total_blocks b, total_generic_blocks b, used_generic_blocks b, ninodes b,
    generic_block_start b, next_free_bitmap b]"
  have "bslice (superblock_bytes b @ rest) (4 * i) 4 = bslice (u32s_bytes ?ws) (4 * i) 4"
    using assms by (simp add: superblock_bytes_def bslice_append1)
  then show ?thesis using assms bslice_u32s [of i ?ws] by (simp add: get32_def of_le_to_le)
qed

lemma superblock_roundtrip:
  assumes "length (di_addrs (sb_inode_table b)) = NUM_DIRECT_DATA"
  shows "superblock_of (superblock_bytes b @ rest) = b"
proof -
  have "bslice (superblock_bytes b @ rest) 28 64 = dinode_bytes (sb_inode_table b)"
    using assms by (simp add: superblock_bytes_def bslice_append1 bslice_append2 bslice_all length_dinode_bytes)
  then show ?thesis
    using superblock_field [of 0 b rest] superblock_field [of 1 b rest] superblock_field [of 2 b rest]
      superblock_field [of 3 b rest] superblock_field [of 4 b rest] superblock_field [of 5 b rest]
      superblock_field [of 6 b rest] dinode_roundtrip [OF assms]
    by (simp add: superblock_of_def)
qed

lemma ab_set_simps:
  assumes "length bs = BLOCK_SIZE" "i < NUM_ADDRS"
  shows "ab_next (ab_set_next bs v) = v" "ab_addr (ab_set_next bs v) i = ab_addr bs i"
    "ab_next (ab_set_addr bs i v) = ab_next bs" "length (ab_set_next bs v) = BLOCK_SIZE"
    "length (ab_set_addr bs i v) = BLOCK_SIZE"
    "j < NUM_ADDRS \<Longrightarrow> ab_addr (ab_set_addr bs i v) j = (if j = i then v else ab_addr bs j)"
proof -
  show "ab_addr (ab_set_addr bs i v) j = (if j = i then v else ab_addr bs j)" if "j < NUM_ADDRS"
    using assms that by (cases j i rule: linorder_cases)
      (simp_all add: ab_addr_def ab_set_addr_def get32_put32 get32_put32_other)
qed (use assms in \<open>simp_all add: ab_next_def ab_addr_def ab_set_next_def ab_set_addr_def get32_put32 get32_put32_other\<close>)

end
