(* ===== verification/Nfs_Alloc.thy ===== *)
theory Nfs_Alloc
  imports Bitmap Nfs_Layout
begin

text \<open>
  The state of a mounted file system and its block allocator (\<open>src/os/fs/nfs/nfs.cc\<close>). Blocks are
  accessed through the block buffer: \<open>bufs\<close> holds the cached copies with their dirty flags,
  \<open>disk\<close> what the device holds (\<open>None\<close> where the device refuses the request). The functions run
  to completion one at a time; the mutex of a buffer is held only between its \<open>get_ref\<close> and the
  end of the scope and is not part of this state.
\<close>

section \<open>State\<close>

record nbuf =
  bdata :: "u8 list"
  bdirty :: bool

text \<open>An inode in memory (\<open>nfs_inode\<close>): buffer flags, metadata, block numbers, position cache.\<close>

record minode =
  i_valid :: bool
  i_dirty :: bool
  i_size :: u32
  i_nlinks :: u16
  i_perm :: u8
  i_type :: u8
  i_addrs :: "u32 list"
  i_next :: u32
  cache_raw_indirect_offset :: u32
  cache_offset :: u32
  cache_addr_block :: u32

record nfs =
  disk :: "u32 \<Rightarrow> u8 list option"
  bufs :: "u32 \<Rightarrow> nbuf option"
  sb :: superblock
  sb_dirty :: bool
  inodes :: "u32 \<Rightarrow> minode option"
  unmounted :: bool

type_synonym 'a nm = "(nfs, 'a) kmonad"

text \<open>\<open>kernel_block_buffer.get\<close>, then \<open>get_ref\<close>, which loads the block when the buffer is not valid.\<close>

definition buf_get :: "u32 \<Rightarrow> u8 list nm" where
  "buf_get b = kbind (kget (\<lambda>s. (bufs s b, disk s b))) (\<lambda>(c, d). case c of
      Some nb \<Rightarrow> kret (bdata nb)
    | None \<Rightarrow> (case d of
          None \<Rightarrow> kthrow Task_Fail
        | Some x \<Rightarrow> kseq (kmod (bufs_update (\<lambda>m. m(b \<mapsto> \<lparr>bdata = x, bdirty = False\<rparr>)))) (kret x)))"

text \<open>Assigning through \<open>buf_ref->data\<close>, and \<open>buf_ref->mark_dirty()\<close>.\<close>

definition buf_set :: "u32 \<Rightarrow> u8 list \<Rightarrow> unit nm" where
  "buf_set b x = kbind (kget (\<lambda>s. bufs s b)) (\<lambda>c. case c of
      None \<Rightarrow> kthrow Undefined
    | Some nb \<Rightarrow> kmod (bufs_update (\<lambda>m. m(b \<mapsto> nb\<lparr>bdata := x\<rparr>))))"

definition buf_mark_dirty :: "u32 \<Rightarrow> unit nm" where
  "buf_mark_dirty b = kbind (kget (\<lambda>s. bufs s b)) (\<lambda>c. case c of
      None \<Rightarrow> kthrow Undefined
    | Some nb \<Rightarrow> kmod (bufs_update (\<lambda>m. m(b \<mapsto> nb\<lparr>bdirty := True\<rparr>))))"

definition on_sb :: "(superblock \<Rightarrow> superblock) \<Rightarrow> unit nm" where
  "on_sb f = kmod (sb_update f)"

section \<open>Block allocation\<close>

text \<open>
  The search of \<open>alloc_block\<close> runs over the bitmap blocks \<open>bi, bi + 1, \<dots>\<close> up to
  \<open>generic_block_start\<close>: \<open>n\<close> is the number of blocks left. It returns the index it stopped at, the
  last result of \<open>bitmap_find_first_zero\<close> and the block its buffer reference points at.
\<close>

primrec alloc_scan :: "nat \<Rightarrow> u32 \<Rightarrow> (u32 \<times> u32) option \<Rightarrow> (u32 \<times> (u32 \<times> u32) option) nm" where
  "alloc_scan 0 bi cur = kret (bi, cur)"
| "alloc_scan (Suc n) bi cur = kbind (buf_get bi) (\<lambda>d.
  kbind (kopt (bitmap_find_first_zero (words64 d) 128)) (\<lambda>r.
  if r \<noteq> - 1 then kret (bi, Some (r, bi)) else alloc_scan n (bi + 1) (Some (r, bi))))"

definition alloc_block :: "u32 nm" where
  "alloc_block = kbind (kget sb) (\<lambda>b0.
    if used_generic_blocks b0 \<ge> total_generic_blocks b0 then kthrow Task_Fail
     else kseq (on_sb (\<lambda>b. if next_free_bitmap b \<ge> generic_block_start b
            then b\<lparr>next_free_bitmap := BITMAP_BLOCK_INDEX\<rparr> else b)) (
       kbind (kget sb) (\<lambda>b1.
       kbind (alloc_scan (unat (generic_block_start b1) - unat (next_free_bitmap b1)) (next_free_bitmap b1) None) (\<lambda>(bi, cur).
       kbind (kopt cur) (\<lambda>(r, bb).
       let block_index = (bi - BITMAP_BLOCK_INDEX) * BITMAP_BLOCK_SIZE + r in
       if block_index \<ge> total_blocks b1 then kthrow Task_Fail
       else kbind (buf_get bb) (\<lambda>d.
         kbind (kopt (bitmap_set (words64 d) r)) (\<lambda>ws.
         kseq (buf_set bb (bytes64 ws)) (
         kseq (buf_mark_dirty bb) (
         if block_index < generic_block_start b1
         then kthrow (Panic ''nfs: alloc_block: block_index < sb.generic_block_start'')
         else kseq (on_sb (\<lambda>b. b\<lparr>used_generic_blocks := used_generic_blocks b + 1, next_free_bitmap := bi\<rparr>)) (
           kseq (kmod (sb_dirty_update (\<lambda>_. True))) (
           kret block_index)))))))))))"

definition free_block :: "u32 \<Rightarrow> unit nm" where
  "free_block block_index = kbind (kget sb) (\<lambda>b.
    if block_index \<ge> total_blocks b then kthrow Task_Fail
     else kbind (buf_get (BITMAP_BLOCK_INDEX + block_index div BITMAP_BLOCK_SIZE)) (\<lambda>d.
       kbind (kopt (bitmap_clear (words64 d) (block_index mod BITMAP_BLOCK_SIZE))) (\<lambda>ws.
       kseq (buf_set (BITMAP_BLOCK_INDEX + block_index div BITMAP_BLOCK_SIZE) (bytes64 ws)) (
       kseq (on_sb (\<lambda>b. b\<lparr>used_generic_blocks := used_generic_blocks b - 1\<rparr>)) (
       kmod (sb_dirty_update (\<lambda>_. True)))))))"

text \<open>
  \<open>kernel_block_buffer.destroy(device)\<close>: every buffer of the device is flushed if it is valid and
  dirty, and then dropped.
\<close>

definition buf_destroy :: "nfs \<Rightarrow> nfs" where
  "buf_destroy s = s\<lparr>disk := (\<lambda>b. case bufs s b of
        Some nb \<Rightarrow> if bdirty nb then Some (bdata nb) else disk s b
      | None \<Rightarrow> disk s b),
     bufs := (\<lambda>_. None)\<rparr>"

section \<open>What the buffers and the device hold\<close>

definition view :: "nfs \<Rightarrow> u32 \<Rightarrow> u8 list option" where
  "view s b = (case bufs s b of Some nb \<Rightarrow> Some (bdata nb) | None \<Rightarrow> disk s b)"

text \<open>The bit of block number \<open>n\<close> in the bitmap blocks.\<close>

definition blk_used :: "nfs \<Rightarrow> nat \<Rightarrow> bool" where
  "blk_used s n = bm_bit (words64 (the (view s (2 + of_nat (n div 8192))))) (n mod 8192)"

text \<open>
  The part of the state block allocation relies on: the bitmap blocks can be read and have their
  full size, they cover every block number, and the blocks in front of the generic ones are
  marked used.
\<close>

definition alloc_ok :: "nfs \<Rightarrow> bool" where
  "alloc_ok s \<longleftrightarrow> 2 < generic_block_start (sb s)
     \<and> 2 \<le> next_free_bitmap (sb s)
     \<and> unat (generic_block_start (sb s)) - 2 \<le> 2 ^ 18
     \<and> unat (total_blocks (sb s)) < 8192 * (unat (generic_block_start (sb s)) - 2)
     \<and> (\<forall>b. 2 \<le> b \<and> b < generic_block_start (sb s) \<longrightarrow> (\<exists>d. view s b = Some d \<and> length d = BLOCK_SIZE))
     \<and> (\<forall>n < unat (generic_block_start (sb s)). blk_used s n)"

text \<open>\<open>same_view s t\<close>: \<open>t\<close> holds the same data as \<open>s\<close>, possibly with more blocks buffered.\<close>

definition same_view :: "nfs \<Rightarrow> nfs \<Rightarrow> bool" where
  "same_view s t \<longleftrightarrow> (\<forall>b. view t b = view s b) \<and> disk t = disk s \<and> inodes t = inodes s
     \<and> unmounted t = unmounted s"

section \<open>Running the buffer operations\<close>

definition touch :: "u32 \<Rightarrow> nfs \<Rightarrow> nfs" where
  "touch b s = (case (bufs s b, disk s b) of
      (None, Some x) \<Rightarrow> s\<lparr>bufs := (bufs s)(b \<mapsto> \<lparr>bdata = x, bdirty = False\<rparr>)\<rparr>
    | _ \<Rightarrow> s)"

definition write_buf :: "u32 \<Rightarrow> u8 list \<Rightarrow> nfs \<Rightarrow> nfs" where
  "write_buf b x s = s\<lparr>bufs := (bufs s)(b \<mapsto> (the (bufs s b))\<lparr>bdata := x\<rparr>)\<rparr>"

definition dirty_buf :: "u32 \<Rightarrow> nfs \<Rightarrow> nfs" where
  "dirty_buf b s = s\<lparr>bufs := (bufs s)(b \<mapsto> (the (bufs s b))\<lparr>bdirty := True\<rparr>)\<rparr>"

definition cached :: "nfs \<Rightarrow> u32 \<Rightarrow> bool" where
  "cached s b \<longleftrightarrow> bufs s b \<noteq> None"

named_theorems buf_simps \<open>the state after a buffer operation\<close>

lemma touch_simps [buf_simps]:
  "view (touch b s) c = view s c" "disk (touch b s) = disk s" "sb (touch b s) = sb s"
  "sb_dirty (touch b s) = sb_dirty s" "inodes (touch b s) = inodes s" "unmounted (touch b s) = unmounted s"
  by (auto simp: touch_def view_def split: option.splits)

lemma touch_buf: "view s b = Some d \<Longrightarrow> \<exists>nb. bufs (touch b s) b = Some nb \<and> bdata nb = d"
  by (auto simp: touch_def view_def split: option.splits)

lemma buf_get_run [buf_simps]: "view s b = Some d \<Longrightarrow> buf_get b s = (Inr d, touch b s)"
  by (auto simp: buf_get_def touch_def view_def kbind_def kseq_def split: option.splits)

lemma buf_get_fail: "view s b = None \<Longrightarrow> buf_get b s = (Inl Task_Fail, s)"
  by (auto simp: buf_get_def view_def kbind_def split: option.splits)

lemma buf_set_run [buf_simps]: "cached s b \<Longrightarrow> buf_set b x s = (Inr (), write_buf b x s)"
  by (auto simp: cached_def buf_set_def write_buf_def)

lemma buf_mark_dirty_run [buf_simps]: "cached s b \<Longrightarrow> buf_mark_dirty b s = (Inr (), dirty_buf b s)"
  by (auto simp: cached_def buf_mark_dirty_def dirty_buf_def)

lemma touch_cached [buf_simps]: "cached s b \<Longrightarrow> touch b s = s"
  by (auto simp: cached_def touch_def)

lemma touch_keeps [buf_simps]: "cached s b \<Longrightarrow> cached (touch c s) b"
  "view s b = Some d \<Longrightarrow> cached (touch b s) b"
  by (auto simp: cached_def touch_def view_def split: option.splits)

lemma write_buf_simps [buf_simps]:
  "cached (write_buf b x s) c \<longleftrightarrow> c = b \<or> cached s c"
  "view (write_buf b x s) c = (if c = b then Some x else view s c)"
  "disk (write_buf b x s) = disk s" "sb (write_buf b x s) = sb s" "sb_dirty (write_buf b x s) = sb_dirty s"
  "inodes (write_buf b x s) = inodes s" "unmounted (write_buf b x s) = unmounted s"
  by (auto simp: cached_def write_buf_def view_def split: option.splits)

lemma dirty_buf_simps [buf_simps]:
  "cached (dirty_buf b s) c \<longleftrightarrow> c = b \<or> cached s c"
  "cached s b \<Longrightarrow> view (dirty_buf b s) c = view s c"
  "disk (dirty_buf b s) = disk s" "sb (dirty_buf b s) = sb s" "sb_dirty (dirty_buf b s) = sb_dirty s"
  "inodes (dirty_buf b s) = inodes s" "unmounted (dirty_buf b s) = unmounted s"
  by (auto simp: cached_def dirty_buf_def view_def split: option.splits)

lemma on_sb_run [buf_simps]: "on_sb f s = (Inr (), s\<lparr>sb := f (sb s)\<rparr>)"
  by (simp add: on_sb_def)

lemma view_upd [buf_simps]:
  "view (s\<lparr>sb := x\<rparr>) = view s" "view (s\<lparr>sb_dirty := y\<rparr>) = view s" "view (s\<lparr>inodes := z\<rparr>) = view s"
  by (auto simp: fun_eq_iff view_def split: option.splits)

lemma blk_used_upd [buf_simps]:
  "blk_used (s\<lparr>sb := x\<rparr>) n = blk_used s n" "blk_used (s\<lparr>sb_dirty := y\<rparr>) n = blk_used s n"
  "blk_used (s\<lparr>inodes := z\<rparr>) n = blk_used s n"
  by (simp_all add: view_upd blk_used_def)

lemma blk_used_touch [buf_simps]: "blk_used (touch b s) n = blk_used s n"
  by (simp add: blk_used_def touch_simps)

section \<open>The search over the bitmap blocks\<close>

lemma find_zero_block:
  assumes "length d = BLOCK_SIZE"
  shows "(\<exists>r. bitmap_find_first_zero (words64 d) 128 = Some r \<and> r \<noteq> - 1 \<and> unat r < 8192
      \<and> \<not> bm_bit (words64 d) (unat r) \<and> (\<forall>m<unat r. bm_bit (words64 d) m))
    \<or> (bitmap_find_first_zero (words64 d) 128 = Some (- 1) \<and> (\<forall>m<8192. bm_bit (words64 d) m))"
  using find_first_zero_cases [of 128 "words64 d"] bm_index_bound [of "words64 d"] assms
  by (auto simp: bm_ok_def)

lemma unat_add_nat:
  fixes b :: u32
  assumes "unat b + n < 2 ^ 32"
  shows "unat (b + of_nat n) = unat b + n"
  using assms by (simp add: unat_word_ariths unat_of_nat take_bit_nat_eq_self)

text \<open>Every bit before bit \<open>x\<close> of the \<open>j\<close>-th bitmap block from \<open>bi\<close> on is set.\<close>

definition scan_full :: "nfs \<Rightarrow> u32 \<Rightarrow> nat \<Rightarrow> nat \<Rightarrow> bool" where
  "scan_full s bi j x \<longleftrightarrow> (\<forall>k m. (k < j \<and> m < 8192) \<or> (k = j \<and> m < x) \<longrightarrow> bm_bit (words64 (the (view s (bi + of_nat k)))) m)"

lemma scan_full_Suc:
  assumes "view s bi = Some d" "\<forall>m<8192. bm_bit (words64 d) m" "scan_full s (bi + 1) j x"
  shows "scan_full s bi (Suc j) x"
  unfolding scan_full_def
proof (intro allI impI)
  fix k m assume km: "k < Suc j \<and> m < 8192 \<or> k = Suc j \<and> m < x"
  show "bm_bit (words64 (the (view s (bi + of_nat k)))) m"
  proof (cases k)
    case (Suc l)
    then have "bi + of_nat k = bi + 1 + of_nat l" "(l < j \<and> m < 8192) \<or> (l = j \<and> m < x)" using km by auto
    then show ?thesis using assms(3) unfolding scan_full_def by metis
  qed (use assms km in auto)
qed

lemma alloc_scan_run:
  assumes "\<And>k. k < n \<Longrightarrow> \<exists>d. view s (bi + of_nat k) = Some d \<and> length d = BLOCK_SIZE"
  shows "\<exists>t. same_view s t \<and> sb t = sb s \<and> sb_dirty t = sb_dirty s \<and>
    ((\<exists>j r. j < n \<and> alloc_scan n bi cur s = (Inr (bi + of_nat j, Some (r, bi + of_nat j)), t)
        \<and> r \<noteq> - 1 \<and> unat r < 8192 \<and> cached t (bi + of_nat j)
        \<and> \<not> bm_bit (words64 (the (view s (bi + of_nat j)))) (unat r) \<and> scan_full s bi j (unat r))
     \<or> (\<exists>bb. alloc_scan n bi cur s = (Inr (bi + of_nat n, if n = 0 then cur else Some (- 1, bb)), t)
        \<and> scan_full s bi n 0))"
  using assms
proof (induction n arbitrary: s bi cur)
  case 0
  show ?case by (rule exI [of _ s]) (simp add: same_view_def scan_full_def)
next
  case (Suc n)
  obtain d where d: "view s bi = Some d" "length d = BLOCK_SIZE" using Suc.prems [of 0] by auto
  show ?case
  proof (cases "bitmap_find_first_zero (words64 d) 128 = Some (- 1)")
    case False
    then obtain r where r: "bitmap_find_first_zero (words64 d) 128 = Some r" "r \<noteq> - 1" "unat r < 8192"
      "\<not> bm_bit (words64 d) (unat r)" "\<forall>m<unat r. bm_bit (words64 d) m"
      using find_zero_block [OF d(2)] by auto
    then have "alloc_scan (Suc n) bi cur s = (Inr (bi + of_nat 0, Some (r, bi + of_nat 0)), touch bi s)"
      using d by (simp add: buf_simps)
    moreover have "same_view s (touch bi s)" "cached (touch bi s) bi"
      using d touch_keeps by (auto simp: same_view_def touch_simps)
    ultimately show ?thesis
      using r d by (intro exI [of _ "touch bi s"] conjI disjI1 exI [of _ 0] exI [of _ r]) (simp_all add: touch_simps scan_full_def)
  next
    case True
    then have full: "\<forall>m<8192. bm_bit (words64 d) m" using find_zero_block [OF d(2)] by auto
    have run: "alloc_scan (Suc n) bi cur s = alloc_scan n (bi + 1) (Some (- 1, bi)) (touch bi s)"
      using True d by (simp add: buf_simps)
    have sh: "bi + 1 + of_nat k = bi + of_nat (Suc k)" for k by simp
    have "\<exists>d. view (touch bi s) (bi + 1 + of_nat k) = Some d \<and> length d = BLOCK_SIZE" if "k < n" for k
      using Suc.prems [of "Suc k"] that unfolding sh by (simp add: touch_simps)
    from Suc.IH [OF this, where cur = "Some (- 1, bi)"] obtain t where
      t: "same_view (touch bi s) t" "sb t = sb (touch bi s)" "sb_dirty t = sb_dirty (touch bi s)"
      and c: "(\<exists>j r. j < n \<and> alloc_scan n (bi + 1) (Some (- 1, bi)) (touch bi s) = (Inr (bi + of_nat (Suc j), Some (r, bi + of_nat (Suc j))), t)
        \<and> r \<noteq> - 1 \<and> unat r < 8192 \<and> cached t (bi + of_nat (Suc j))
        \<and> \<not> bm_bit (words64 (the (view s (bi + of_nat (Suc j))))) (unat r) \<and> scan_full (touch bi s) (bi + 1) j (unat r))
     \<or> (\<exists>bb. alloc_scan n (bi + 1) (Some (- 1, bi)) (touch bi s) = (Inr (bi + of_nat (Suc n), if n = 0 then Some (- 1, bi) else Some (- 1, bb)), t)
        \<and> scan_full (touch bi s) (bi + 1) n 0)"
      unfolding sh touch_simps by blast
    have "same_view s t" "sb t = sb s" "sb_dirty t = sb_dirty s" using t by (auto simp: same_view_def touch_simps)
    moreover have "scan_full s bi (Suc j) x" if "scan_full (touch bi s) (bi + 1) j x" for j x
      by (rule scan_full_Suc [OF d(1) full]) (use that in \<open>simp add: scan_full_def touch_simps\<close>)
    ultimately show ?thesis using c unfolding run
      by (intro exI [of _ t]) (elim disjE exE conjE, (fastforce split: if_splits)+)
  qed
qed

text \<open>In terms of block numbers: from the first number of block \<open>h\<close> on, \<open>8192 * j + x\<close> are used.\<close>

definition used_from :: "nfs \<Rightarrow> u32 \<Rightarrow> nat \<Rightarrow> bool" where
  "used_from s h lim \<longleftrightarrow> (\<forall>n. 8192 * (unat h - 2) \<le> n \<and> n < lim \<longrightarrow> blk_used s n)"

lemma scan_full_used:
  assumes "scan_full s h j x" "2 \<le> unat h" "lim \<le> 8192 * (unat h - 2 + j) + x" "x \<le> 8192"
  shows "used_from s h lim"
  unfolding used_from_def
proof (intro allI impI)
  fix n assume n: "8192 * (unat h - 2) \<le> n \<and> n < lim"
  then obtain e where e: "n = 8192 * (unat h - 2) + e" using le_Suc_ex by blast
  then have le: "e < 8192 * j + x" using n assms(3) by simp
  have d: "n div 8192 = unat h - 2 + e div 8192" "n mod 8192 = e mod 8192" unfolding e by simp_all
  have "(2 + of_nat (n div 8192) :: u32) = h + of_nat (e div 8192)"
    unfolding d(1) using assms(2) by (simp add: of_nat_diff)
  moreover have "(e div 8192 < j \<and> e mod 8192 < 8192) \<or> (e div 8192 = j \<and> e mod 8192 < x)"
  proof (cases "e div 8192 < j")
    case False
    have "e = 8192 * (e div 8192) + e mod 8192" by simp
    moreover have "8192 * j \<le> 8192 * (e div 8192)" using False by simp
    moreover have "e div 8192 < Suc j" using le assms(4) by (simp add: less_mult_imp_div_less)
    ultimately show ?thesis using le False by linarith
  qed simp
  ultimately show "blk_used s n" using assms(1) unfolding scan_full_def blk_used_def d(2) by metis
qed

section \<open>Allocating and freeing one block\<close>

lemma set_in_block:
  assumes "length d = BLOCK_SIZE" "unat r < 8192"
  obtains ws where "bitmap_set (words64 d) r = Some ws" "length (bytes64 ws) = BLOCK_SIZE"
    "\<And>m. bm_bit (words64 (bytes64 ws)) m = (m = unat r \<or> bm_bit (words64 d) m)"
  using bitmap_set_run [of r "words64 d"] assms by (auto simp: words64_bytes64)

lemma clear_in_block:
  assumes "length d = BLOCK_SIZE" "unat r < 8192"
  obtains ws where "bitmap_clear (words64 d) r = Some ws" "length (bytes64 ws) = BLOCK_SIZE"
    "\<And>m. bm_bit (words64 (bytes64 ws)) m = (m \<noteq> unat r \<and> bm_bit (words64 d) m)"
  using bitmap_clear_run [of r "words64 d"] assms by (auto simp: words64_bytes64)

lemma block_number:
  fixes p r :: u32
  assumes "2 \<le> unat p" "unat p - 2 \<le> 2 ^ 18" "unat r < 8192"
  shows "unat ((p - 2) * 8192 + r) = 8192 * (unat p - 2) + unat r"
proof -
  define q where "q = p - 2"
  have q: "unat q = unat p - 2" unfolding q_def using assms(1) by (subst unat_sub) (simp_all add: word_le_nat_alt)
  then have "unat (q * 8192) = unat q * 8192"
    using assms(2) by (simp add: unat_word_ariths)
  then have "unat (q * 8192 + r) = 8192 * unat q + unat r" using assms q by (simp add: unat_word_ariths)
  then show ?thesis by (simp only: q_def [symmetric] q)
qed

lemma block_number_inv:
  fixes p r :: u32
  assumes "2 \<le> unat p" "unat r < 8192" "n = 8192 * (unat p - 2) + unat r"
  shows "2 + of_nat (n div 8192) = p" "n mod 8192 = unat r"
proof -
  have "n div 8192 = unat p - 2" using assms by simp
  then have "(of_nat (n div 8192) :: u32) = of_nat (unat p) - 2" using assms(1) by (simp add: of_nat_diff)
  then show "2 + of_nat (n div 8192) = p" by simp
  show "n mod 8192 = unat r" using assms by simp
qed

lemma bitmap_block_of:
  assumes "n < 8192 * (unat g - 2)" "(g::u32) > 2" "unat g - 2 \<le> 2 ^ 18"
  shows "unat (2 + of_nat (n div 8192) :: u32) = 2 + n div 8192" "(2::u32) \<le> 2 + of_nat (n div 8192)"
    "2 + of_nat (n div 8192) < g"
proof -
  have "n div 8192 < unat g - 2" using assms(1) by auto
  moreover have "unat (of_nat (n div 8192) :: u32) = n div 8192"
    using calculation assms(3) by (intro unat_of_nat_lt) simp
  ultimately show "unat (2 + of_nat (n div 8192) :: u32) = 2 + n div 8192"
    using assms(3) by (simp add: unat_word_ariths)
  then show "(2::u32) \<le> 2 + of_nat (n div 8192)" "2 + of_nat (n div 8192) < g"
    using \<open>n div 8192 < unat g - 2\<close> by (simp_all add: word_le_nat_alt word_less_nat_alt)
qed

text \<open>Changing one bitmap block changes the marks of its block numbers only.\<close>

lemma blk_used_write:
  assumes "n < 8192 * (unat g - 2)" "(g::u32) > 2" "unat g - 2 \<le> 2 ^ 18"
    and "2 \<le> unat p" "unat (r::u32) < 8192" "k = 8192 * (unat p - 2) + unat r"
    and "\<And>b. view t b = (if b = p then Some x else view s b)" "view s p = Some d"
    and "\<And>m. bm_bit (words64 x) m = (if m = unat r then v else bm_bit (words64 d) m)"
  shows "blk_used t n = (if n = k then v else blk_used s n)"
proof -
  note q = bitmap_block_of [OF assms(1-3)]
  show ?thesis
  proof (cases "2 + of_nat (n div 8192) = p")
    case True
    then have "2 + n div 8192 = unat p" using q(1) by simp
    then have "n = k \<longleftrightarrow> n mod 8192 = unat r" using assms(4-6) by (metis add_diff_cancel_left' block_number_inv(2) mult_div_mod_eq)
    then show ?thesis using True assms(7-9) by (auto simp: blk_used_def)
  next
    case False
    then have "n \<noteq> k" using block_number_inv(1) [OF assms(4-6)] by auto
    then show ?thesis using False assms(7) by (simp add: blk_used_def)
  qed
qed

text \<open>The states an allocation can lead to.\<close>

definition allocated :: "nfs \<Rightarrow> u32 \<Rightarrow> nfs \<Rightarrow> bool" where
  "allocated s b t \<longleftrightarrow> generic_block_start (sb s) \<le> b \<and> b < total_blocks (sb s) \<and> \<not> blk_used s (unat b)
     \<and> (\<forall>n < 8192 * (unat (generic_block_start (sb s)) - 2). blk_used t n = (n = unat b \<or> blk_used s n))
     \<and> (\<forall>c. \<not> (2 \<le> c \<and> c < generic_block_start (sb s)) \<longrightarrow> view t c = view s c)
     \<and> sb t = (sb s)\<lparr>used_generic_blocks := used_generic_blocks (sb s) + 1, next_free_bitmap := next_free_bitmap (sb t)\<rparr>
     \<and> sb_dirty t \<and> disk t = disk s \<and> inodes t = inodes s \<and> unmounted t = unmounted s \<and> alloc_ok t"

definition no_block_left :: "nfs \<Rightarrow> nfs \<Rightarrow> bool" where
  "no_block_left s t \<longleftrightarrow> same_view s t \<and> sb_dirty t = sb_dirty s
     \<and> sb t = (sb s)\<lparr>next_free_bitmap := next_free_bitmap (sb t)\<rparr> \<and> alloc_ok t
     \<and> (used_generic_blocks (sb s) \<ge> total_generic_blocks (sb s)
        \<or> used_from s (next_free_bitmap (sb t)) (unat (total_blocks (sb s))))"

lemma alloc_ok_D:
  assumes "alloc_ok s"
  shows "2 < generic_block_start (sb s)" "2 \<le> next_free_bitmap (sb s)"
    "unat (generic_block_start (sb s)) - 2 \<le> 2 ^ 18" "2 < unat (generic_block_start (sb s))"
    "unat (total_blocks (sb s)) < 8192 * (unat (generic_block_start (sb s)) - 2)"
    "\<And>b. 2 \<le> b \<Longrightarrow> b < generic_block_start (sb s) \<Longrightarrow> \<exists>d. view s b = Some d \<and> length d = BLOCK_SIZE"
    "\<And>n. n < unat (generic_block_start (sb s)) \<Longrightarrow> blk_used s n"
  using assms by (auto simp: alloc_ok_def word_less_nat_alt)

lemma alloc_ok_transfer:
  assumes "alloc_ok s" "generic_block_start (sb t) = generic_block_start (sb s)" "total_blocks (sb t) = total_blocks (sb s)"
    and "2 \<le> next_free_bitmap (sb t)"
    and "\<And>b. 2 \<le> b \<Longrightarrow> b < generic_block_start (sb s) \<Longrightarrow> \<exists>d. view t b = Some d \<and> length d = BLOCK_SIZE"
    and "\<And>n. n < unat (generic_block_start (sb s)) \<Longrightarrow> blk_used t n"
  shows "alloc_ok t"
  using assms by (simp add: alloc_ok_def)

lemma alloc_ok_same_view:
  "alloc_ok s \<Longrightarrow> same_view s t \<Longrightarrow> sb t = (sb s)\<lparr>next_free_bitmap := p\<rparr> \<Longrightarrow> 2 \<le> p \<Longrightarrow> alloc_ok t"
  by (rule alloc_ok_transfer [of s]) (auto simp: alloc_ok_def same_view_def blk_used_def)

definition reset_hint :: "superblock \<Rightarrow> superblock" where
  "reset_hint b = (if next_free_bitmap b \<ge> generic_block_start b
     then b\<lparr>next_free_bitmap := BITMAP_BLOCK_INDEX\<rparr> else b)"

lemma reset_hint_simps:
  "total_blocks (reset_hint b) = total_blocks b" "generic_block_start (reset_hint b) = generic_block_start b"
  "used_generic_blocks (reset_hint b) = used_generic_blocks b"
  by (simp_all add: reset_hint_def)

lemma reset_hint_only: "reset_hint b = b\<lparr>next_free_bitmap := next_free_bitmap (reset_hint b)\<rparr>"
  by (simp add: reset_hint_def)

lemma reset_hint_range:
  assumes "alloc_ok s"
  shows "2 \<le> next_free_bitmap (reset_hint (sb s))" "next_free_bitmap (reset_hint (sb s)) < generic_block_start (sb s)"
  using alloc_ok_D(1,2) [OF assms] by (auto simp: reset_hint_def)

text \<open>The search from the hint on ends at a free bit or behind the last bitmap block.\<close>

lemma alloc_search:
  assumes "alloc_ok s"
  defines "h \<equiv> next_free_bitmap (reset_hint (sb s))" and "g \<equiv> generic_block_start (sb s)"
  defines "u \<equiv> s\<lparr>sb := reset_hint (sb s)\<rparr>"
  obtains t where "same_view s t" "sb t = reset_hint (sb s)" "sb_dirty t = sb_dirty s"
    and "(\<exists>p r d. alloc_scan (unat g - unat h) h None u = (Inr (p, Some (r, p)), t) \<and> 2 \<le> p \<and> p < g
          \<and> unat r < 8192 \<and> cached t p \<and> view s p = Some d \<and> length d = BLOCK_SIZE \<and> \<not> bm_bit (words64 d) (unat r)
          \<and> used_from s h (8192 * (unat p - 2) + unat r))
      \<or> (\<exists>bb. alloc_scan (unat g - unat h) h None u = (Inr (g, Some (- 1, bb)), t) \<and> used_from s h (8192 * (unat g - 2)))"
proof -
  define n where "n = unat g - unat h"
  have h: "2 \<le> h" "h < g" using reset_hint_range [OF assms(1)] by (simp_all add: h_def g_def)
  have n: "0 < n" "unat h + n = unat g" "unat g < 2 ^ 32" using h unsigned_less [of g, where ?'a = nat]
    by (simp_all add: n_def word_less_nat_alt)
  have kth: "unat (h + of_nat k) = unat h + k" if "k \<le> n" for k using that n by (intro unat_add_nat) simp
  have rng: "2 \<le> h + of_nat k" "h + of_nat k < g" if "k < n" for k
    using kth [of k] that h n by (simp_all add: word_le_nat_alt word_less_nat_alt)
  have vu: "view u = view s" by (simp add: u_def view_upd)
  have "\<exists>d. view u (h + of_nat k) = Some d \<and> length d = BLOCK_SIZE" if "k < n" for k
    using alloc_ok_D(6) [OF assms(1)] rng [OF that] by (simp add: vu g_def)
  from alloc_scan_run [OF this, where cur = None] obtain t where t: "same_view u t" "sb t = sb u" "sb_dirty t = sb_dirty u"
    and c: "(\<exists>j r. j < n \<and> alloc_scan n h None u = (Inr (h + of_nat j, Some (r, h + of_nat j)), t)
        \<and> r \<noteq> - 1 \<and> unat r < 8192 \<and> cached t (h + of_nat j)
        \<and> \<not> bm_bit (words64 (the (view u (h + of_nat j)))) (unat r) \<and> scan_full u h j (unat r))
     \<or> (\<exists>bb. alloc_scan n h None u = (Inr (h + of_nat n, if n = 0 then None else Some (- 1, bb)), t) \<and> scan_full u h n 0)"
    by blast
  have su: "scan_full u = scan_full s" by (intro ext) (simp only: scan_full_def vu)
  have sv: "same_view s t" using t(1) by (auto simp: same_view_def u_def view_upd)
  have hn: "h + of_nat n = g" using kth [of n] n(2) by (simp only: word_unat_eq_iff)
  show thesis
  proof (rule that [OF sv])
    show "sb t = reset_hint (sb s)" "sb_dirty t = sb_dirty s" using t(2,3) by (simp_all add: u_def)
    show "(\<exists>p r d. alloc_scan (unat g - unat h) h None u = (Inr (p, Some (r, p)), t) \<and> 2 \<le> p \<and> p < g
          \<and> unat r < 8192 \<and> cached t p \<and> view s p = Some d \<and> length d = BLOCK_SIZE \<and> \<not> bm_bit (words64 d) (unat r)
          \<and> used_from s h (8192 * (unat p - 2) + unat r))
      \<or> (\<exists>bb. alloc_scan (unat g - unat h) h None u = (Inr (g, Some (- 1, bb)), t) \<and> used_from s h (8192 * (unat g - 2)))"
      using c
    proof (elim disjE exE conjE)
      fix j r
      assume j: "j < n" "alloc_scan n h None u = (Inr (h + of_nat j, Some (r, h + of_nat j)), t)"
        "unat r < 8192" "cached t (h + of_nat j)" "\<not> bm_bit (words64 (the (view u (h + of_nat j)))) (unat r)"
        "scan_full u h j (unat r)"
      obtain d where "view s (h + of_nat j) = Some d" "length d = BLOCK_SIZE"
        using alloc_ok_D(6) [OF assms(1)] rng [OF j(1)] by (auto simp: g_def)
      moreover have "used_from s h (8192 * (unat (h + of_nat j) - 2) + unat r)"
        by (rule scan_full_used [of s h j "unat r"]) (use j h kth [of j] in \<open>auto simp: su word_le_nat_alt\<close>)
      ultimately show ?thesis using j rng [OF j(1)] unfolding n_def [symmetric] vu
        by (intro disjI1 exI [of _ "h + of_nat j"] exI [of _ r]) auto
    next
      fix bb
      assume bb: "alloc_scan n h None u = (Inr (h + of_nat n, if n = 0 then None else Some (- 1, bb)), t)" "scan_full u h n 0"
      have "used_from s h (8192 * (unat g - 2))"
        by (rule scan_full_used [of s h n 0]) (use bb h n in \<open>auto simp: su word_le_nat_alt\<close>)
      then show ?thesis using bb(1) hn n(1) unfolding n_def [symmetric] by auto
    qed
  qed
qed

lemma exhausted_number:
  assumes "alloc_ok s"
  shows "(generic_block_start (sb s) - 2) * 8192 + (- 1) \<ge> total_blocks (sb s)"
proof -
  let ?g = "generic_block_start (sb s)"
  have g: "2 < unat ?g" "unat ?g - 2 \<le> 2 ^ 18" "unat (total_blocks (sb s)) < 8192 * (unat ?g - 2)"
    using alloc_ok_D [OF assms] by auto
  have "unat ((?g - 2) * 8192 + 0) = 8192 * (unat ?g - 2) + unat (0::u32)"
    by (rule block_number) (use g in auto)
  then have e: "unat ((?g - 2) * 8192) = 8192 * (unat ?g - 2)" by simp
  then have "unat ((?g - 2) * 8192 - 1) = 8192 * (unat ?g - 2) - 1"
    using g by (subst unat_sub) (auto simp: word_le_nat_alt)
  then have "total_blocks (sb s) \<le> (?g - 2) * 8192 - 1" using g(3) unfolding word_le_nat_alt by linarith
  then show ?thesis by simp
qed

lemma alloc_block_run:
  assumes "alloc_ok s"
  shows "(\<exists>t. alloc_block s = (Inl Task_Fail, t) \<and> no_block_left s t)
    \<or> (\<exists>b t. alloc_block s = (Inr b, t) \<and> allocated s b t)"
proof (cases "used_generic_blocks (sb s) \<ge> total_generic_blocks (sb s)")
  case True
  then have "alloc_block s = (Inl Task_Fail, s)" by (simp add: alloc_block_def)
  then show ?thesis using assms True by (auto simp: no_block_left_def same_view_def)
next
  case False
  let ?b = "reset_hint (sb s)" and ?g = "generic_block_start (sb s)"
  obtain t where t: "same_view s t" "sb t = ?b" "sb_dirty t = sb_dirty s"
    and c: "(\<exists>p r d. alloc_scan (unat ?g - unat (next_free_bitmap ?b)) (next_free_bitmap ?b) None (s\<lparr>sb := ?b\<rparr>) = (Inr (p, Some (r, p)), t)
          \<and> 2 \<le> p \<and> p < ?g \<and> unat r < 8192 \<and> cached t p \<and> view s p = Some d \<and> length d = BLOCK_SIZE
          \<and> \<not> bm_bit (words64 d) (unat r) \<and> used_from s (next_free_bitmap ?b) (8192 * (unat p - 2) + unat r))
      \<or> (\<exists>bb. alloc_scan (unat ?g - unat (next_free_bitmap ?b)) (next_free_bitmap ?b) None (s\<lparr>sb := ?b\<rparr>) = (Inr (?g, Some (- 1, bb)), t)
          \<and> used_from s (next_free_bitmap ?b) (8192 * (unat ?g - 2)))"
    using alloc_search [OF assms] by metis
  have left: "no_block_left s t" if "used_from s (next_free_bitmap ?b) lim" "unat (total_blocks (sb s)) \<le> lim" for lim
    unfolding no_block_left_def t(2)
    using t reset_hint_only [of "sb s"] reset_hint_range [OF assms] alloc_ok_same_view [OF assms t(1)] that by (auto simp: used_from_def)
  from c show ?thesis
  proof (elim disjE exE conjE)
    fix bb
    assume "alloc_scan (unat ?g - unat (next_free_bitmap ?b)) (next_free_bitmap ?b) None (s\<lparr>sb := ?b\<rparr>) = (Inr (?g, Some (- 1, bb)), t)"
      and full: "used_from s (next_free_bitmap ?b) (8192 * (unat ?g - 2))"
    then have "alloc_block s = (Inl Task_Fail, t)"
      using False exhausted_number [OF assms]
      by (simp add: alloc_block_def on_sb_run reset_hint_def [symmetric] reset_hint_simps)
    then show ?thesis using left [OF full] alloc_ok_D(5) [OF assms] by auto
  next
    fix p r d
    assume scan: "alloc_scan (unat ?g - unat (next_free_bitmap ?b)) (next_free_bitmap ?b) None (s\<lparr>sb := ?b\<rparr>) = (Inr (p, Some (r, p)), t)"
      and p: "2 \<le> p" "p < ?g" "unat r < 8192" "cached t p" "view s p = Some d" "length d = BLOCK_SIZE"
        "\<not> bm_bit (words64 d) (unat r)"
      and full: "used_from s (next_free_bitmap ?b) (8192 * (unat p - 2) + unat r)"
    define k where "k = (p - 2) * 8192 + r"
    have g: "unat ?g - 2 \<le> 2 ^ 18" "2 < ?g" using alloc_ok_D [OF assms] by auto
    have p': "2 \<le> unat p" "unat p < unat ?g" using p(1,2) by (simp_all add: word_le_nat_alt word_less_nat_alt)
    have k: "unat k = 8192 * (unat p - 2) + unat r" unfolding k_def
      by (rule block_number) (use p p' g in auto)
    have kk: "p * 8192 - 16384 + r = k" by (simp add: k_def)
    have vt: "view t = view s" using t(1) by (auto simp: same_view_def)
    show ?thesis
    proof (cases "k \<ge> total_blocks (sb s)")
      case True
      then have "alloc_block s = (Inl Task_Fail, t)"
        using False scan
        by (simp add: alloc_block_def on_sb_run reset_hint_def [symmetric] reset_hint_simps Let_def kk)
      then show ?thesis using left [OF full] k True by (auto simp: word_le_nat_alt)
    next
      case inside: False
      obtain ws where ws: "bitmap_set (words64 d) r = Some ws" "length (bytes64 ws) = BLOCK_SIZE"
        "\<And>m. bm_bit (words64 (bytes64 ws)) m = (m = unat r \<or> bm_bit (words64 d) m)"
        using set_in_block [OF p(6,3)] by blast
      have nu: "\<not> blk_used s (unat k)"
        using block_number_inv [OF p'(1) p(3) k] p(5,7) by (simp add: blk_used_def)
      then have "\<not> unat k < unat ?g" using alloc_ok_D(7) [OF assms] by blast
      then have kg: "?g \<le> k" "\<not> k < ?g" by (simp_all add: word_le_nat_alt word_less_nat_alt)
      define v where "v = (dirty_buf p (write_buf p (bytes64 ws) t))\<lparr>sb := ?b\<lparr>used_generic_blocks := used_generic_blocks ?b + 1,
        next_free_bitmap := p\<rparr>, sb_dirty := True\<rparr>"
      have run: "alloc_block s = (Inr k, v)"
        using False inside scan p(4,5) ws(1) t(2) kg vt
        by (simp add: alloc_block_def on_sb_run reset_hint_def [symmetric] reset_hint_simps Let_def kk buf_simps v_def)
      have vv: "view v b = (if b = p then Some (bytes64 ws) else view s b)" for b
        using p(4) vt by (simp add: v_def buf_simps)
      have bits: "blk_used v n = (n = unat k \<or> blk_used s n)" if "n < 8192 * (unat ?g - 2)" for n
        using blk_used_write [OF that g(2,1) p'(1) p(3) k vv p(5), of True] ws(3) by simp
      have "alloc_ok v"
      proof (rule alloc_ok_transfer [OF assms])
        show "blk_used v n" if "n < unat ?g" for n
          using bits [of n] alloc_ok_D(4,7) [OF assms] that by simp
        show "\<exists>d. view v b = Some d \<and> length d = BLOCK_SIZE" if "2 \<le> b" "b < ?g" for b
          using alloc_ok_D(6) [OF assms that] ws(2) by (simp add: vv)
      qed (use p(1) in \<open>simp_all add: v_def reset_hint_simps\<close>)
      moreover have "sb v = (sb s)\<lparr>used_generic_blocks := used_generic_blocks (sb s) + 1, next_free_bitmap := next_free_bitmap (sb v)\<rparr>"
        by (simp add: v_def reset_hint_def)
      moreover have "disk v = disk s" "inodes v = inodes s" "unmounted v = unmounted s" "sb_dirty v"
        using t(1) by (simp_all add: v_def buf_simps same_view_def)
      ultimately have "allocated s k v"
        unfolding allocated_def using kg inside nu bits p(1,2) by (auto simp: vv)
      then show ?thesis using run by blast
    qed
  qed
qed

lemma free_block_run:
  assumes "alloc_ok s" "generic_block_start (sb s) \<le> b" "b < total_blocks (sb s)"
  shows "\<exists>t. free_block b s = (Inr (), t)
    \<and> (\<forall>n < 8192 * (unat (generic_block_start (sb s)) - 2). blk_used t n = (n \<noteq> unat b \<and> blk_used s n))
    \<and> (\<forall>c. \<not> (2 \<le> c \<and> c < generic_block_start (sb s)) \<longrightarrow> view t c = view s c)
    \<and> sb t = (sb s)\<lparr>used_generic_blocks := used_generic_blocks (sb s) - 1\<rparr>
    \<and> sb_dirty t \<and> disk t = disk s \<and> inodes t = inodes s \<and> unmounted t = unmounted s \<and> alloc_ok t
    \<and> (\<forall>c nb. bufs s c = Some nb \<longrightarrow> (\<exists>nb'. bufs t c = Some nb' \<and> bdirty nb' = bdirty nb))"
proof -
  let ?g = "generic_block_start (sb s)"
  define p where "p = 2 + b div 8192"
  define r where "r = b mod 8192"
  have b: "unat b < 8192 * (unat ?g - 2)" using assms alloc_ok_D(5) [OF assms(1)] by (simp add: word_less_nat_alt)
  note g = alloc_ok_D(1,3) [OF assms(1)]
  have pb: "p = 2 + of_nat (unat b div 8192)"
    by (simp add: p_def word_arith_nat_div)
  note q = bitmap_block_of [OF b g, folded pb]
  have r: "unat r = unat b mod 8192" "unat r < 8192" by (simp_all add: r_def unat_mod)
  have k: "unat b = 8192 * (unat p - 2) + unat r" by (simp add: q(1) r)
  obtain d where d: "view s p = Some d" "length d = BLOCK_SIZE" using alloc_ok_D(6) [OF assms(1) q(2,3)] by blast
  obtain ws where ws: "bitmap_clear (words64 d) r = Some ws" "length (bytes64 ws) = BLOCK_SIZE"
    "\<And>m. bm_bit (words64 (bytes64 ws)) m = (m \<noteq> unat r \<and> bm_bit (words64 d) m)"
    using clear_in_block [OF d(2) r(2)] by blast
  define t where "t = (write_buf p (bytes64 ws) (touch p s))\<lparr>sb := (sb s)\<lparr>used_generic_blocks := used_generic_blocks (sb s) - 1\<rparr>, sb_dirty := True\<rparr>"
  have run: "free_block b s = (Inr (), t)"
    using assms(3) d ws(1) by (simp add: free_block_def p_def [symmetric] r_def [symmetric] buf_simps t_def)
  have vt: "view t c = (if c = p then Some (bytes64 ws) else view s c)" for c
    by (simp add: t_def buf_simps)
  have bits: "blk_used t n = (n \<noteq> unat b \<and> blk_used s n)" if "n < 8192 * (unat ?g - 2)" for n
    using blk_used_write [OF that g _ r(2) k vt d(1), of False] ws(3) q(1) by simp
  have "alloc_ok t"
  proof (rule alloc_ok_transfer [OF assms(1)])
    show "blk_used t n" if "n < unat ?g" for n
    proof -
      have "n \<noteq> unat b" using that assms(2) by (auto simp: word_le_nat_alt)
      then show ?thesis using bits [of n] alloc_ok_D(4,7) [OF assms(1)] that by simp
    qed
    show "\<exists>d. view t c = Some d \<and> length d = BLOCK_SIZE" if "2 \<le> c" "c < ?g" for c
      using alloc_ok_D(6) [OF assms(1) that] ws(2) by (simp add: vt)
  qed (use alloc_ok_D(2) [OF assms(1)] in \<open>simp_all add: t_def\<close>)
  moreover have "\<exists>nb'. bufs t c = Some nb' \<and> bdirty nb' = bdirty nb" if "bufs s c = Some nb" for c nb
    using that by (auto simp: t_def write_buf_def touch_def split: option.splits)
  moreover have "\<forall>c. \<not> (2 \<le> c \<and> c < ?g) \<longrightarrow> view t c = view s c" using q(2,3) by (auto simp: vt)
  ultimately show ?thesis using run bits by (simp add: t_def buf_simps)
qed

section \<open>Properties\<close>

text \<open>A small file system for the witnesses: one bitmap block, block 2, and block numbers below 100.\<close>

definition small_fs :: nfs where
  "small_fs = \<lparr>disk = (\<lambda>b. if b = 2 then Some (7 # replicate 1023 0) else Some (replicate 1024 0)),
     bufs = (\<lambda>_. None),
     sb = \<lparr>sb_magic = NFS_MAGIC, total_blocks = 100, total_generic_blocks = 97, used_generic_blocks = 0, ninodes = 2,
       generic_block_start = 3, next_free_bitmap = 2,
       sb_inode_table = \<lparr>di_size = 0, di_nlinks = 1, di_perm = 0, di_type = ITYPE_FILE, di_next = NO_BLOCK,
         di_addrs = replicate 13 NO_BLOCK\<rparr>\<rparr>,
     sb_dirty = False, inodes = (\<lambda>_. None), unmounted = False\<rparr>"

lemma bit_seven: "bit (7::u8) m \<longleftrightarrow> m < 3"
proof -
  have "(7::u8) = mask 3" by (simp add: mask_eq_exp_minus_1)
  then show ?thesis by (simp only: bit_mask_iff) auto
qed

lemma small_fs_alloc_ok: "alloc_ok small_fs"
proof -
  have v: "view small_fs 2 = Some (7 # replicate 1023 0)" by (simp add: view_def small_fs_def)
  have "blk_used small_fs n" if "n < 3" for n
  proof -
    have "bit (7::u8) n" using that by (simp only: bit_seven)
    then have "bm_bit (words64 (7 # replicate 1023 0)) n"
      using that bit_words64 [of n "7 # replicate 1023 0"] by (simp add: bm_bit_def)
    then show ?thesis using that v by (simp add: blk_used_def)
  qed
  moreover have "\<exists>d. view small_fs b = Some d \<and> length d = BLOCK_SIZE" for b
    by (cases "b = 2") (simp_all add: view_def small_fs_def)
  ultimately show ?thesis by (simp add: alloc_ok_def) (simp add: small_fs_def)
qed



text \<open>
  Freeing the block just allocated restores every mark of the bitmap and the count of used
  blocks, as seen through the buffers, so allocation loses no space.
\<close>

lemma nfs_alloc_free_roundtrip:
  assumes "alloc_ok s" "alloc_block s = (Inr b, t)"
  shows "\<exists>u. free_block b t = (Inr (), u) \<and> alloc_ok u
    \<and> (\<forall>n < 8192 * (unat (generic_block_start (sb s)) - 2). blk_used u n = blk_used s n)
    \<and> used_generic_blocks (sb u) = used_generic_blocks (sb s)
    \<and> (\<forall>c. \<not> (2 \<le> c \<and> c < generic_block_start (sb s)) \<longrightarrow> view u c = view s c)"
proof -
  have a: "allocated s b t" using alloc_block_run [OF assms(1)] assms(2) by auto
  then have g: "generic_block_start (sb t) = generic_block_start (sb s)" "total_blocks (sb t) = total_blocks (sb s)"
    "used_generic_blocks (sb t) = used_generic_blocks (sb s) + 1"
    unfolding allocated_def by (metis superblock.select_convs superblock.update_convs superblock.surjective)+
  obtain u where u: "free_block b t = (Inr (), u)" "alloc_ok u"
    "\<forall>n < 8192 * (unat (generic_block_start (sb s)) - 2). blk_used u n = (n \<noteq> unat b \<and> blk_used t n)"
    "\<forall>c. \<not> (2 \<le> c \<and> c < generic_block_start (sb s)) \<longrightarrow> view u c = view t c"
    "sb u = (sb t)\<lparr>used_generic_blocks := used_generic_blocks (sb t) - 1\<rparr>"
    using free_block_run [of t b] a g by (auto simp: allocated_def)
  have "blk_used u n = blk_used s n" if "n < 8192 * (unat (generic_block_start (sb s)) - 2)" for n
    using that u(3) a by (auto simp: allocated_def)
  then show ?thesis using u a g by (auto simp: allocated_def)
qed

lemma small_fs_bits: "m < 8192 \<Longrightarrow> bm_bit (words64 (7 # replicate 1023 0)) m \<longleftrightarrow> m < 3"
proof -
  assume m: "m < 8192"
  have "bm_bit (words64 (7 # replicate 1023 0)) m = bit ((7 # replicate 1023 0 :: u8 list) ! (m div 8)) (m mod 8)"
    using m bit_words64 [of m "7 # replicate 1023 0"] by (simp add: bm_bit_def)
  also have "\<dots> \<longleftrightarrow> m < 3"
  proof (cases "m < 8")
    case True
    then have "m div 8 = 0" "m mod 8 = m" by simp_all
    then show ?thesis by (simp only: nth_Cons_0 bit_seven)
  next
    case False
    then have "0 < m div 8" "m div 8 < 1024" using m by auto
    then show ?thesis using False by (simp add: nth_Cons')
  qed
  finally show ?thesis .
qed

lemma small_fs_find: "bitmap_find_first_zero (words64 (7 # replicate 1023 0)) 128 = Some 3"
proof -
  let ?d = "7 # replicate 1023 (0::u8)"
  have "length ?d = BLOCK_SIZE" by simp
  from find_zero_block [OF this] show ?thesis
  proof (elim disjE exE conjE)
    fix r
    assume r: "bitmap_find_first_zero (words64 ?d) 128 = Some r" "unat r < 8192" "\<not> bm_bit (words64 ?d) (unat r)"
      "\<forall>m<unat r. bm_bit (words64 ?d) m"
    have "\<not> unat r < 3" using r(2,3) small_fs_bits by blast
    moreover have "\<not> 3 < unat r" using r(4) small_fs_bits [of 3] by auto
    ultimately have "unat r = unat (3::u32)" by simp
    then have "r = 3" by (simp only: word_unat_eq_iff)
    then show ?thesis using r(1) by simp
  next
    assume "\<forall>m<8192. bm_bit (words64 ?d) m"
    then show ?thesis using small_fs_bits [of 3] by simp
  qed
qed

lemma small_fs_alloc: "alloc_block small_fs = (Inr 3, snd (alloc_block small_fs))"
proof -
  have v: "view (small_fs\<lparr>sb := sb small_fs\<rparr>) 2 = Some (7 # replicate 1023 0)" by (simp add: view_def small_fs_def)
  obtain ws where "bitmap_set (words64 (7 # replicate 1023 0)) 3 = Some ws"
    using set_in_block [of "7 # replicate 1023 0" 3] by auto
  then have "fst (alloc_block small_fs) = Inr 3"
    using v small_fs_find by (simp add: alloc_block_def buf_simps) (simp add: small_fs_def buf_simps)
  then show ?thesis by (metis prod.collapse)
qed

lemma nfs_alloc_free_roundtrip_witness:
  "\<exists>u. free_block 3 (snd (alloc_block small_fs)) = (Inr (), u) \<and> alloc_ok u
    \<and> (\<forall>n < 8192 * (unat (generic_block_start (sb small_fs)) - 2). blk_used u n = blk_used small_fs n)
    \<and> used_generic_blocks (sb u) = used_generic_blocks (sb small_fs)
    \<and> (\<forall>c. \<not> (2 \<le> c \<and> c < generic_block_start (sb small_fs)) \<longrightarrow> view u c = view small_fs c)"
  by (rule nfs_alloc_free_roundtrip [OF small_fs_alloc_ok small_fs_alloc])

text \<open>
  \<open>free_block\<close> clears the bit in the buffer but does not mark the buffer dirty: when the bitmap
  block is buffered and clean, the free is lost when the buffers are written back, and the block
  is still marked used on the device.
\<close>

lemma nfs_free_block_not_written_back:
  assumes "alloc_ok s" "generic_block_start (sb s) \<le> b" "b < total_blocks (sb s)"
    and "\<And>c nb. bufs s c = Some nb \<Longrightarrow> \<not> bdirty nb \<and> disk s c = Some (bdata nb)"
  shows "\<exists>t. free_block b s = (Inr (), t) \<and> \<not> blk_used t (unat b)
    \<and> blk_used (buf_destroy t) (unat b) = blk_used s (unat b)"
proof -
  obtain t where t: "free_block b s = (Inr (), t)" "disk t = disk s"
    "\<forall>n < 8192 * (unat (generic_block_start (sb s)) - 2). blk_used t n = (n \<noteq> unat b \<and> blk_used s n)"
    using free_block_run [OF assms(1-3)] by blast
  have "\<not> bdirty nb" if "bufs t c = Some nb" for c nb
    using t(1) assms(3) that assms(4)
    by (auto simp: free_block_def buf_get_def buf_set_def on_sb_def kbind_def kseq_def kopt_def kret_def kthrow_def kget_def kmod_def
        split: option.splits sum.splits prod.splits if_splits)
  then have "view (buf_destroy t) c = disk s c" for c
    using t(2) by (auto simp: view_def buf_destroy_def split: option.splits)
  moreover have "view s c = disk s c" for c using assms(4) by (auto simp: view_def split: option.splits)
  ultimately have "blk_used (buf_destroy t) (unat b) = blk_used s (unat b)" by (simp add: blk_used_def)
  moreover have "unat b < 8192 * (unat (generic_block_start (sb s)) - 2)"
    using alloc_ok_D(5) [OF assms(1)] assms(3) by (simp add: word_less_nat_alt)
  ultimately show ?thesis using t by blast
qed

lemma nfs_free_block_not_written_back_witness:
  "\<exists>t. free_block 7 small_fs = (Inr (), t) \<and> \<not> blk_used t (unat (7::u32))
    \<and> blk_used (buf_destroy t) (unat (7::u32)) = blk_used small_fs (unat (7::u32))"
  by (rule nfs_free_block_not_written_back [OF small_fs_alloc_ok]) (simp_all add: small_fs_def)

end
