(* ===== verification/Nfs_File.thy ===== *)
theory Nfs_File
  imports Nfs_Alloc
begin

text \<open>
  File contents (\<open>src/os/fs/nfs/inode.cc\<close>): reading and writing through the direct block numbers and
  the chain of address blocks, loading and flushing inodes, truncation. The functions templated
  over \<open>_write\<close> are two definitions each. Offsets and sizes are natural numbers; the \<open>uint32\<close>
  fields they are stored in truncate them.
\<close>

section \<open>Inodes in memory\<close>

definition ino_get :: "u32 \<Rightarrow> minode nm" where
  "ino_get ino = kbind (kget (\<lambda>s. inodes s ino)) kopt"

definition ino_mod :: "u32 \<Rightarrow> (minode \<Rightarrow> minode) \<Rightarrow> unit nm" where
  "ino_mod ino f = kbind (ino_get ino) (\<lambda>i. kmod (inodes_update (\<lambda>m. m(ino \<mapsto> f i))))"

definition ino_mark_dirty :: "u32 \<Rightarrow> unit nm" where
  "ino_mark_dirty ino = ino_mod ino (i_dirty_update (\<lambda>_. True))"

definition init_data :: "u32 \<Rightarrow> unit nm" where
  "init_data ino = ino_mod ino (\<lambda>i. i\<lparr>i_size := 0, i_perm := 0, i_type := 0, i_nlinks := 0,
     i_addrs := replicate NUM_DIRECT_DATA NO_BLOCK, i_next := NO_BLOCK, i_valid := True, i_dirty := True\<rparr>)"

section \<open>One block\<close>

definition rd_direct :: "u32 \<Rightarrow> nat \<Rightarrow> nat \<Rightarrow> nat \<Rightarrow> u8 list nm" where
  "rd_direct ino direct_offset data_block_offset sz = kseq (kassert (direct_offset < NUM_DIRECT_DATA) ''direct_offset out of range'') (
    kseq (kassert (data_block_offset + sz \<le> BLOCK_SIZE) ''size out of range'') (
    kbind (ino_get ino) (\<lambda>i.
    kbind (kopt (arr_get (i_addrs i) direct_offset)) (\<lambda>a.
    if a = NO_BLOCK then kret (replicate sz 0)
     else kbind (buf_get a) (\<lambda>d.
       kret (bslice d data_block_offset sz))))))"

text \<open>The \<open>memcpy\<close> into the block, and the two \<open>memset\<close>s around it when the block is new.\<close>

definition fill_block :: "u8 list \<Rightarrow> nat \<Rightarrow> u8 list \<Rightarrow> bool \<Rightarrow> u8 list" where
  "fill_block d off xs clr = (let d1 = bsplice d off xs in
     if clr then bsplice (bsplice d1 0 (replicate off 0)) (off + length xs) (replicate (BLOCK_SIZE - off - length xs) 0)
     else d1)"

definition put_block :: "u32 \<Rightarrow> nat \<Rightarrow> u8 list \<Rightarrow> bool \<Rightarrow> unit nm" where
  "put_block a off xs clr = kbind (buf_get a) (\<lambda>d.
    kseq (buf_set a (fill_block d off xs clr)) (
    buf_mark_dirty a))"

definition wr_direct :: "u32 \<Rightarrow> nat \<Rightarrow> nat \<Rightarrow> u8 list \<Rightarrow> unit nm" where
  "wr_direct ino direct_offset data_block_offset xs = kseq (kassert (direct_offset < NUM_DIRECT_DATA) ''direct_offset out of range'') (
    kseq (kassert (data_block_offset + length xs \<le> BLOCK_SIZE) ''size out of range'') (
    kbind (ino_get ino) (\<lambda>i.
    kbind (kopt (arr_get (i_addrs i) direct_offset)) (\<lambda>a.
    if a = NO_BLOCK
     then kbind alloc_block (\<lambda>b.
       kseq (ino_mod ino (\<lambda>i. i\<lparr>i_addrs := (i_addrs i)[direct_offset := b]\<rparr>)) (
       kseq (ino_mark_dirty ino) (
       put_block b data_block_offset xs True)))
     else put_block a data_block_offset xs False))))"

definition rd_block :: "u32 \<Rightarrow> nat \<Rightarrow> nat \<Rightarrow> nat \<Rightarrow> u8 list nm" where
  "rd_block addr_block_index addr_block_offset data_block_offset sz = kseq (kassert (addr_block_offset < NUM_ADDRS) ''addr_block_offset out of range'') (
    kseq (kassert (data_block_offset + sz \<le> BLOCK_SIZE) ''size out of range'') (
    kbind (buf_get addr_block_index) (\<lambda>ab.
    if ab_addr ab addr_block_offset = NO_BLOCK then kret (replicate sz 0)
     else kbind (buf_get (ab_addr ab addr_block_offset)) (\<lambda>d.
       kret (bslice d data_block_offset sz)))))"

definition wr_block :: "u32 \<Rightarrow> nat \<Rightarrow> nat \<Rightarrow> u8 list \<Rightarrow> unit nm" where
  "wr_block addr_block_index addr_block_offset data_block_offset xs = kseq (kassert (addr_block_offset < NUM_ADDRS) ''addr_block_offset out of range'') (
    kseq (kassert (data_block_offset + length xs \<le> BLOCK_SIZE) ''size out of range'') (
    kbind (buf_get addr_block_index) (\<lambda>ab.
    if ab_addr ab addr_block_offset = NO_BLOCK
     then kbind alloc_block (\<lambda>b.
       kbind (buf_get addr_block_index) (\<lambda>ab.
       kseq (buf_set addr_block_index (ab_set_addr ab addr_block_offset b)) (
       kseq (buf_mark_dirty addr_block_index) (
       put_block b data_block_offset xs True))))
     else put_block (ab_addr ab addr_block_offset) data_block_offset xs False)))"

section \<open>The chain of address blocks\<close>

text \<open>
  The two loops of \<open>get_block_index\<close>: each round takes \<open>ADDR_BLOCK_DATA_SIZE\<close> from the offset, so
  \<open>offset div ADDR_BLOCK_DATA_SIZE\<close> rounds are enough and \<open>k\<close> starts there.
\<close>

primrec gbi_walk :: "nat \<Rightarrow> u32 \<Rightarrow> nat \<Rightarrow> (u32 \<times> nat) nm" where
  "gbi_walk 0 b off = (if off < ADDR_BLOCK_DATA_SIZE then kret (b, off) else kthrow Out_Of_Fuel)"
| "gbi_walk (Suc k) b off = (if off < ADDR_BLOCK_DATA_SIZE then kret (b, off) else
     kbind (buf_get b) (\<lambda>d.
       if ab_next d = NO_BLOCK then kret (b, off) else gbi_walk k (ab_next d) (off - ADDR_BLOCK_DATA_SIZE)))"

primrec gbi_create :: "nat \<Rightarrow> u32 \<Rightarrow> nat \<Rightarrow> (u32 \<times> nat) nm" where
  "gbi_create 0 b off = (if off < ADDR_BLOCK_DATA_SIZE then kret (b, off) else kthrow Out_Of_Fuel)"
| "gbi_create (Suc k) b off = (if off < ADDR_BLOCK_DATA_SIZE then kret (b, off) else
     kbind alloc_block (\<lambda>nb.
       kbind (buf_get nb) (\<lambda>d.
       kseq (buf_set nb (replicate BLOCK_SIZE 0xff)) (
       kseq (buf_mark_dirty nb) (
       kbind (buf_get b) (\<lambda>d.
       kseq (buf_set b (ab_set_next d nb)) (
       kseq (buf_mark_dirty b) (
       gbi_create k nb (off - ADDR_BLOCK_DATA_SIZE)))))))))"

definition get_block_index :: "u32 \<Rightarrow> nat \<Rightarrow> (u32 \<times> nat \<times> nat) nm" where
  "get_block_index start_addr_block off = kbind (gbi_walk (off div ADDR_BLOCK_DATA_SIZE) start_addr_block off) (\<lambda>(b, o1).
    kbind (gbi_create (o1 div ADDR_BLOCK_DATA_SIZE) b o1) (\<lambda>(b2, o2).
    kret (b2, o2 div BLOCK_SIZE, o2 mod BLOCK_SIZE)))"

section \<open>Reading and writing byte ranges\<close>

text \<open>Every round of these loops moves at least one byte, so the size is enough fuel.\<close>

primrec rd_direct_loop :: "nat \<Rightarrow> u32 \<Rightarrow> nat \<Rightarrow> nat \<Rightarrow> (u8 list \<times> nat \<times> nat) nm" where
  "rd_direct_loop 0 ino off sz = (if off < DIRECT_DATA_SIZE \<and> sz > 0 then kthrow Out_Of_Fuel else kret ([], off, sz))"
| "rd_direct_loop (Suc k) ino off sz = (if off < DIRECT_DATA_SIZE \<and> sz > 0
     then (let m = min sz (BLOCK_SIZE - off mod BLOCK_SIZE) in
       kbind (rd_direct ino (off div BLOCK_SIZE) (off mod BLOCK_SIZE) m) (\<lambda>xs.
         kbind (rd_direct_loop k ino (off + m) (sz - m)) (\<lambda>(ys, o1, s1).
         kret (xs @ ys, o1, s1))))
     else kret ([], off, sz))"

primrec wr_direct_loop :: "nat \<Rightarrow> u32 \<Rightarrow> nat \<Rightarrow> u8 list \<Rightarrow> (nat \<times> u8 list) nm" where
  "wr_direct_loop 0 ino off xs = (if off < DIRECT_DATA_SIZE \<and> xs \<noteq> [] then kthrow Out_Of_Fuel else kret (off, xs))"
| "wr_direct_loop (Suc k) ino off xs = (if off < DIRECT_DATA_SIZE \<and> xs \<noteq> []
     then (let m = min (length xs) (BLOCK_SIZE - off mod BLOCK_SIZE) in
       kseq (wr_direct ino (off div BLOCK_SIZE) (off mod BLOCK_SIZE) (take m xs)) (
         wr_direct_loop k ino (off + m) (drop m xs)))
     else kret (off, xs))"

primrec rd_indirect_loop :: "nat \<Rightarrow> u32 \<Rightarrow> nat \<Rightarrow> nat \<Rightarrow> (u8 list \<times> u32 \<times> nat) nm" where
  "rd_indirect_loop 0 cur off sz = (if sz > 0 then kthrow Out_Of_Fuel else kret ([], cur, off))"
| "rd_indirect_loop (Suc k) cur off sz = (if sz > 0
     then kbind (get_block_index cur off) (\<lambda>(ab, ao, bo).
       let m = min sz (BLOCK_SIZE - bo) in
       kbind (rd_block ab ao bo m) (\<lambda>xs.
       kbind (rd_indirect_loop k ab (off mod ADDR_BLOCK_DATA_SIZE + m) (sz - m)) (\<lambda>(ys, c1, o1).
       kret (xs @ ys, c1, o1))))
     else kret ([], cur, off))"

primrec wr_indirect_loop :: "nat \<Rightarrow> u32 \<Rightarrow> nat \<Rightarrow> u8 list \<Rightarrow> (u32 \<times> nat) nm" where
  "wr_indirect_loop 0 cur off xs = (if xs \<noteq> [] then kthrow Out_Of_Fuel else kret (cur, off))"
| "wr_indirect_loop (Suc k) cur off xs = (if xs \<noteq> []
     then kbind (get_block_index cur off) (\<lambda>(ab, ao, bo).
       let m = min (length xs) (BLOCK_SIZE - bo) in
       kseq (wr_block ab ao bo (take m xs)) (
       wr_indirect_loop k ab (off mod ADDR_BLOCK_DATA_SIZE + m) (drop m xs)))
     else kret (cur, off))"

text \<open>Where the indirect part starts: at the remembered position when the offset continues it.\<close>

definition indirect_start :: "minode \<Rightarrow> nat \<Rightarrow> u32 \<times> nat" where
  "indirect_start i off = (if unat (cache_raw_indirect_offset i) = off
     then (cache_addr_block i, unat (cache_offset i)) else (i_next i, off))"

definition remember :: "u32 \<Rightarrow> nat \<Rightarrow> u32 \<Rightarrow> nat \<Rightarrow> unit nm" where
  "remember ino complete cur off = ino_mod ino (\<lambda>i. i\<lparr>cache_raw_indirect_offset := of_nat complete,
     cache_offset := of_nat off, cache_addr_block := cur\<rparr>)"

definition data_rd :: "u32 \<Rightarrow> nat \<Rightarrow> nat \<Rightarrow> u8 list nm" where
  "data_rd ino off sz = kbind (rd_direct_loop sz ino off sz) (\<lambda>(xs, o1, s1).
    if s1 = 0 then kret xs
     else kbind (ino_get ino) (\<lambda>i.
       if i_next i = NO_BLOCK then kret (xs @ replicate s1 0)
       else (case indirect_start i (o1 - DIRECT_DATA_SIZE) of (cur, p) \<Rightarrow>
         kbind (rd_indirect_loop s1 cur p s1) (\<lambda>(ys, c1, p1).
           kseq (remember ino (o1 - DIRECT_DATA_SIZE + s1) c1 p1) (
           kret (xs @ ys))))))"

definition data_wr :: "u32 \<Rightarrow> nat \<Rightarrow> u8 list \<Rightarrow> nat nm" where
  "data_wr ino off xs = kbind (wr_direct_loop (length xs) ino off xs) (\<lambda>(o1, r).
    if r = [] then kret (length xs)
     else kbind (ino_get ino) (\<lambda>i.
       kseq (if i_next i = NO_BLOCK
        then kbind alloc_block (\<lambda>b.
          kseq (ino_mod ino (i_next_update (\<lambda>_. b))) (
          kseq (ino_mark_dirty ino) (
          kbind (buf_get b) (\<lambda>d.
          kseq (buf_set b (replicate BLOCK_SIZE 0xff)) (
          buf_mark_dirty b)))))
        else kret ()) (
       kbind (ino_get ino) (\<lambda>i.
       case indirect_start i (o1 - DIRECT_DATA_SIZE) of (cur, p) \<Rightarrow>
         kbind (wr_indirect_loop (length r) cur p r) (\<lambda>(c1, p1).
           kseq (remember ino (o1 - DIRECT_DATA_SIZE + length r) c1 p1) (
           kret (length xs)))))))"

section \<open>Loading and flushing\<close>

definition from_dinode :: "dinode \<Rightarrow> minode \<Rightarrow> minode" where
  "from_dinode d i = i\<lparr>i_size := di_size d, i_type := di_type d, i_nlinks := di_nlinks d, i_perm := di_perm d,
     i_addrs := di_addrs d, i_next := di_next d\<rparr>"

definition to_dinode :: "minode \<Rightarrow> dinode" where
  "to_dinode i = \<lparr>di_size = i_size i, di_nlinks = i_nlinks i, di_perm = i_perm i, di_type = i_type i,
     di_next = i_next i, di_addrs = i_addrs i\<rparr>"

text \<open>\<open>load\<close> of the inode table reads the super block; of any other inode, the table.\<close>

definition load_table :: "unit nm" where
  "load_table = kbind (ino_get INODE_TABLE_NUMBER) (\<lambda>i.
    if i_valid i then kret ()
     else kbind (kget sb) (\<lambda>b.
       ino_mod INODE_TABLE_NUMBER (\<lambda>i. (from_dinode (sb_inode_table b) i)\<lparr>i_valid := True, i_dirty := False\<rparr>)))"

definition inode_load :: "u32 \<Rightarrow> unit nm" where
  "inode_load ino = (if ino = INODE_TABLE_NUMBER then load_table
     else kbind (ino_get ino) (\<lambda>i.
       if i_valid i then kret ()
       else kseq load_table (
         kbind (data_rd INODE_TABLE_NUMBER (unat ino * 64) 64) (\<lambda>bs.
         ino_mod ino (\<lambda>i. (from_dinode (dinode_of bs) i)\<lparr>i_valid := True, i_dirty := False\<rparr>)))))"

definition inode_read :: "u32 \<Rightarrow> nat \<Rightarrow> nat \<Rightarrow> u8 list nm" where
  "inode_read ino off sz = kseq (inode_load ino) (data_rd ino off sz)"

definition inode_write :: "u32 \<Rightarrow> nat \<Rightarrow> u8 list \<Rightarrow> nat nm" where
  "inode_write ino off xs = kseq (inode_load ino) (
    kbind (data_wr ino off xs) (\<lambda>w.
    kbind (ino_get ino) (\<lambda>i.
    kseq (if off + w > unat (i_size i)
      then kseq (ino_mod ino (i_size_update (\<lambda>_. of_nat (off + w)))) (
        ino_mark_dirty ino)
      else kret ()) (
    kret w))))"

definition inode_flush :: "u32 \<Rightarrow> unit nm" where
  "inode_flush ino = kbind (ino_get ino) (\<lambda>i.
    if i_valid i \<and> i_dirty i
     then kseq (if ino = INODE_TABLE_NUMBER
        then kseq (on_sb (\<lambda>b. b\<lparr>sb_inode_table := to_dinode i\<rparr>)) (
          kmod (sb_dirty_update (\<lambda>_. True)))
        else kseq load_table (
          kbind (inode_write INODE_TABLE_NUMBER (unat ino * 64) (dinode_bytes (to_dinode i))) (\<lambda>w.
          kret ()))) (
       ino_mod ino (i_dirty_update (\<lambda>_. False)))
     else kret ())"

section \<open>Truncation\<close>

primrec free_direct :: "u32 \<Rightarrow> nat list \<Rightarrow> unit nm" where
  "free_direct ino [] = kret ()"
| "free_direct ino (j # js) = kbind (ino_get ino) (\<lambda>i.
  kbind (kopt (arr_get (i_addrs i) j)) (\<lambda>a.
  kseq (if a \<noteq> NO_BLOCK
      then kseq (free_block a) (
        ino_mod ino (\<lambda>i. i\<lparr>i_addrs := (i_addrs i)[j := NO_BLOCK]\<rparr>))
      else kret ()) (
  free_direct ino js)))"

primrec free_entries :: "u32 list \<Rightarrow> unit nm" where
  "free_entries [] = kret ()"
| "free_entries (a # as) = kseq (if a \<noteq> NO_BLOCK then free_block a else kret ()) (free_entries as)"

primrec free_chain :: "nat \<Rightarrow> u32 \<Rightarrow> unit nm" where
  "free_chain 0 b = (if b = NO_BLOCK then kret () else kthrow Out_Of_Fuel)"
| "free_chain (Suc k) b = (if b = NO_BLOCK then kret () else
     kbind (buf_get b) (\<lambda>d.
       kseq (free_entries (map (ab_addr d) [0..<NUM_ADDRS])) (
       kseq (free_block b) (
       free_chain k (ab_next d)))))"

definition inode_truncate :: "nat \<Rightarrow> u32 \<Rightarrow> int \<Rightarrow> int nm" where
  "inode_truncate k ino sz = (if sz \<noteq> 0 then kret (- 1)
     else kseq (inode_load ino) (
       kbind (ino_get ino) (\<lambda>i.
       if i_size i = 0 then kret 0
       else kseq (free_direct ino [0..<NUM_DIRECT_DATA]) (
         kbind (ino_get ino) (\<lambda>i.
         kseq (free_chain k (i_next i)) (
         kseq (ino_mod ino (\<lambda>i. i\<lparr>i_next := NO_BLOCK, i_size := 0\<rparr>)) (
         kseq (ino_mark_dirty ino) (
         kret 0))))))))"

end
