(* ===== verification/Nfs_Read.thy ===== *)
theory Nfs_Read
  imports Nfs_File
begin

text \<open>
  What a file contains, and that reading returns it: the bytes of a file are defined from the
  block numbers of its inode and of its address blocks (0 where no block is allocated), and the
  read loops, with their remembered position, are proved to return exactly these bytes.
\<close>

section \<open>The contents of a file\<close>

text \<open>The \<open>k\<close>-th address block of the chain that starts at \<open>b\<close>.\<close>

primrec nth_ab :: "nfs \<Rightarrow> u32 \<Rightarrow> nat \<Rightarrow> u32" where
  "nth_ab s b 0 = b"
| "nth_ab s b (Suc k) = (if b = NO_BLOCK then NO_BLOCK else nth_ab s (ab_next (the (view s b))) k)"

definition block_byte :: "nfs \<Rightarrow> u32 \<Rightarrow> nat \<Rightarrow> u8" where
  "block_byte s a q = (if a = NO_BLOCK then 0 else the (view s a) ! q)"

text \<open>The data block number of the byte at \<open>p\<close> behind the direct ones, from address block \<open>b\<close> on.\<close>

definition ind_addr :: "nfs \<Rightarrow> u32 \<Rightarrow> nat \<Rightarrow> u32" where
  "ind_addr s b p = (let ab = nth_ab s b (p div ADDR_BLOCK_DATA_SIZE) in
     if ab = NO_BLOCK then NO_BLOCK
     else ab_addr (the (view s ab)) (p mod ADDR_BLOCK_DATA_SIZE div BLOCK_SIZE))"

definition ind_byte :: "nfs \<Rightarrow> u32 \<Rightarrow> nat \<Rightarrow> u8" where
  "ind_byte s b p = block_byte s (ind_addr s b p) (p mod BLOCK_SIZE)"

definition fbyte :: "nfs \<Rightarrow> minode \<Rightarrow> nat \<Rightarrow> u8" where
  "fbyte s i q = (if q < DIRECT_DATA_SIZE then block_byte s (i_addrs i ! (q div BLOCK_SIZE)) (q mod BLOCK_SIZE)
     else ind_byte s (i_next i) (q - DIRECT_DATA_SIZE))"

section \<open>Well-formed files\<close>

definition block_ok :: "nfs \<Rightarrow> u32 \<Rightarrow> bool" where
  "block_ok s a \<longleftrightarrow> a = NO_BLOCK \<or> (\<exists>d. view s a = Some d \<and> length d = BLOCK_SIZE)"

text \<open>All blocks a file refers to can be read and have their full size.\<close>

definition chain_ok :: "nfs \<Rightarrow> u32 \<Rightarrow> bool" where
  "chain_ok s b \<longleftrightarrow> (\<forall>k. block_ok s (nth_ab s b k) \<and> (\<forall>j<NUM_ADDRS. nth_ab s b k \<noteq> NO_BLOCK \<longrightarrow>
     block_ok s (ab_addr (the (view s (nth_ab s b k))) j)))"

definition file_ok :: "nfs \<Rightarrow> minode \<Rightarrow> bool" where
  "file_ok s i \<longleftrightarrow> length (i_addrs i) = NUM_DIRECT_DATA \<and> (\<forall>a\<in>set (i_addrs i). block_ok s a) \<and> chain_ok s (i_next i)"

text \<open>
  The remembered position is right: from there the rest of the chain is the one that the offset
  reaches from the start of the chain.
\<close>

definition cache_ok :: "nfs \<Rightarrow> minode \<Rightarrow> bool" where
  "cache_ok s i \<longleftrightarrow> (unat (cache_raw_indirect_offset i) < 2 ^ 32 - 1 \<longrightarrow>
     i_next i \<noteq> NO_BLOCK \<longrightarrow>
     (\<exists>k. cache_addr_block i = nth_ab s (i_next i) k \<and> cache_addr_block i \<noteq> NO_BLOCK
        \<and> unat (cache_raw_indirect_offset i) = k * ADDR_BLOCK_DATA_SIZE + unat (cache_offset i)))"

text \<open>\<open>reads s t\<close>: \<open>t\<close> differs from \<open>s\<close> by clean buffers only.\<close>

definition reads :: "nfs \<Rightarrow> nfs \<Rightarrow> bool" where
  "reads s t \<longleftrightarrow> same_view s t \<and> sb t = sb s \<and> sb_dirty t = sb_dirty s"

lemma reads_refl [simp, intro]: "reads s s"
  by (simp add: reads_def same_view_def)

lemma reads_trans: "reads s t \<Longrightarrow> reads t u \<Longrightarrow> reads s u"
  by (simp add: reads_def same_view_def)

lemma reads_touch [intro]: "reads s (touch b s)"
  by (simp add: reads_def same_view_def buf_simps)

lemma reads_D: "reads s t \<Longrightarrow> view t = view s" "reads s t \<Longrightarrow> inodes t = inodes s"
  by (auto simp: reads_def same_view_def)

lemma nth_ab_cong: "view t = view s \<Longrightarrow> nth_ab t b k = nth_ab s b k"
  by (induction k arbitrary: b) auto

lemma spec_cong:
  assumes "view t = view s"
  shows "block_byte t = block_byte s" "ind_addr t = ind_addr s" "ind_byte t = ind_byte s" "fbyte t = fbyte s"
    "block_ok t = block_ok s" "chain_ok t = chain_ok s" "file_ok t = file_ok s" "cache_ok t = cache_ok s"
proof -
  have n: "nth_ab t = nth_ab s" by (intro ext nth_ab_cong assms)
  show bb: "block_byte t = block_byte s" by (intro ext) (simp only: block_byte_def assms)
  show ia: "ind_addr t = ind_addr s" by (intro ext) (simp only: ind_addr_def assms n)
  show ib: "ind_byte t = ind_byte s" by (intro ext) (simp only: ind_byte_def bb ia)
  show "fbyte t = fbyte s" by (intro ext) (simp only: fbyte_def bb ib)
  show bo: "block_ok t = block_ok s" by (intro ext) (simp only: block_ok_def assms)
  show co: "chain_ok t = chain_ok s" by (intro ext) (simp only: chain_ok_def assms n bo)
  show "file_ok t = file_ok s" by (intro ext) (simp only: file_ok_def bo co)
  show "cache_ok t = cache_ok s" by (intro ext) (simp only: cache_ok_def n)
qed

lemma nth_ab_add: "nth_ab s b k \<noteq> NO_BLOCK \<Longrightarrow> nth_ab s b (k + j) = nth_ab s (nth_ab s b k) j"
  by (induction k arbitrary: b) (auto split: if_splits)

lemma nth_ab_NO: "nth_ab s NO_BLOCK k = NO_BLOCK"
  by (cases k) auto

lemma nth_ab_down: "nth_ab s b k \<noteq> NO_BLOCK \<Longrightarrow> j \<le> k \<Longrightarrow> nth_ab s b j \<noteq> NO_BLOCK"
proof
  assume a: "nth_ab s b k \<noteq> NO_BLOCK" "j \<le> k" "nth_ab s b j = NO_BLOCK"
  have "nth_ab s b k = NO_BLOCK" if "nth_ab s b j = NO_BLOCK" for b
    using that \<open>j \<le> k\<close>
  proof (induction j arbitrary: b k)
    case 0
    then show ?case by (simp add: nth_ab_NO)
  next
    case (Suc j)
    then show ?case by (cases k) (auto split: if_splits)
  qed
  then show False using a by blast
qed

lemma chain_ok_nth: "chain_ok s b \<Longrightarrow> nth_ab s b k \<noteq> NO_BLOCK \<Longrightarrow> chain_ok s (nth_ab s b k)"
  unfolding chain_ok_def by (metis nth_ab_add)

lemma chain_ok_view: "chain_ok s b \<Longrightarrow> b \<noteq> NO_BLOCK \<Longrightarrow> \<exists>d. view s b = Some d \<and> length d = BLOCK_SIZE"
  unfolding chain_ok_def block_ok_def by (metis nth_ab.simps(1))

lemma ind_byte_shift:
  assumes "nth_ab s b k \<noteq> NO_BLOCK"
  shows "ind_byte s b (k * ADDR_BLOCK_DATA_SIZE + p) = ind_byte s (nth_ab s b k) p"
proof -
  have "(k * ADDR_BLOCK_DATA_SIZE + p) mod BLOCK_SIZE = p mod BLOCK_SIZE"
  proof -
    have "k * ADDR_BLOCK_DATA_SIZE = BLOCK_SIZE * (255 * k)" by simp
    then show ?thesis by (simp only: mod_mult_self4)
  qed
  then show ?thesis using nth_ab_add [OF assms, of "p div ADDR_BLOCK_DATA_SIZE"]
    by (simp add: ind_byte_def ind_addr_def Let_def)
qed

section \<open>Reading one block\<close>

lemma block_bytes:
  assumes "block_ok s a" "bo + m \<le> BLOCK_SIZE" "a \<noteq> NO_BLOCK"
  shows "\<exists>d. view s a = Some d \<and> bslice d bo m = map (block_byte s a) [bo..<bo + m]"
proof -
  obtain d where d: "view s a = Some d" "length d = BLOCK_SIZE" using assms by (auto simp: block_ok_def)
  have "bslice d bo m = map (block_byte s a) [bo..<bo + m]"
    by (rule nth_equalityI) (use assms d in \<open>auto simp: nth_bslice block_byte_def\<close>)
  then show ?thesis using d by blast
qed

lemma hole_bytes: "replicate m 0 = map (block_byte s NO_BLOCK) [bo..<bo + m]"
  by (rule nth_equalityI) (auto simp: block_byte_def)

lemma ino_get_run [buf_simps]: "inodes s ino = Some i \<Longrightarrow> ino_get ino s = (Inr i, s)"
  by (simp add: ino_get_def)

lemma ino_mod_run [buf_simps]:
  "inodes s ino = Some i \<Longrightarrow> ino_mod ino f s = (Inr (), s\<lparr>inodes := (inodes s)(ino \<mapsto> f i)\<rparr>)"
  by (cases s) (simp add: ino_mod_def ino_get_run)

lemma rd_direct_run:
  assumes "inodes s ino = Some i" "file_ok s i" "j < NUM_DIRECT_DATA" "bo + m \<le> BLOCK_SIZE"
  shows "\<exists>t. rd_direct ino j bo m s = (Inr (map (block_byte s (i_addrs i ! j)) [bo..<bo + m]), t) \<and> reads s t"
proof -
  have l: "length (i_addrs i) = NUM_DIRECT_DATA" and ok: "block_ok s (i_addrs i ! j)"
    using assms by (auto simp: file_ok_def)
  show ?thesis
  proof (cases "i_addrs i ! j = NO_BLOCK")
    case True
    then show ?thesis using assms l hole_bytes [of m s bo] by (auto simp: rd_direct_def buf_simps)
  next
    case False
    then obtain d where "view s (i_addrs i ! j) = Some d"
      "bslice d bo m = map (block_byte s (i_addrs i ! j)) [bo..<bo + m]"
      using block_bytes [OF ok assms(4)] by blast
    then have "rd_direct ino j bo m s = (Inr (map (block_byte s (i_addrs i ! j)) [bo..<bo + m]), touch (i_addrs i ! j) s)"
      using assms l False by (simp add: rd_direct_def buf_simps)
    then show ?thesis by blast
  qed
qed

lemma rd_block_run:
  assumes "chain_ok s ab" "ab \<noteq> NO_BLOCK" "ao < NUM_ADDRS" "bo + m \<le> BLOCK_SIZE"
  shows "\<exists>t. rd_block ab ao bo m s = (Inr (map (block_byte s (ab_addr (the (view s ab)) ao)) [bo..<bo + m]), t) \<and> reads s t"
proof -
  obtain d where d: "view s ab = Some d" using chain_ok_view [OF assms(1,2)] by blast
  have ok: "block_ok s (ab_addr d ao)"
    using assms d unfolding chain_ok_def by (metis nth_ab.simps(1) option.sel)
  show ?thesis
  proof (cases "ab_addr d ao = NO_BLOCK")
    case True
    then have "rd_block ab ao bo m s = (Inr (map (block_byte s (ab_addr d ao)) [bo..<bo + m]), touch ab s)"
      using assms d hole_bytes [of m s bo] by (simp add: rd_block_def buf_simps)
    then show ?thesis using d by auto
  next
    case False
    then obtain e where "view s (ab_addr d ao) = Some e"
      "bslice e bo m = map (block_byte s (ab_addr d ao)) [bo..<bo + m]"
      using block_bytes [OF ok assms(4)] by blast
    then have "rd_block ab ao bo m s = (Inr (map (block_byte s (ab_addr d ao)) [bo..<bo + m]), touch (ab_addr d ao) (touch ab s))"
      using assms d False by (simp add: rd_block_def buf_simps)
    then show ?thesis using d reads_trans by (metis option.sel reads_touch)
  qed
qed

section \<open>Offsets inside blocks\<close>

lemma same_block:
  fixes off d m :: nat
  assumes "d < m" "off mod 1024 + m \<le> 1024"
  shows "(off + d) div 1024 = off div 1024" "(off + d) mod 1024 = off mod 1024 + d"
proof -
  have e: "off + d = (off mod 1024 + d) + 1024 * (off div 1024)" by simp
  have l: "off mod 1024 + d < 1024" using assms by simp
  show "(off + d) div 1024 = off div 1024" unfolding e using l by (subst div_mult_self2) auto
  show "(off + d) mod 1024 = off mod 1024 + d" unfolding e using l by (subst mod_mult_self2) auto
qed

lemma addr_split:
  fixes p :: nat
  shows "p div ADDR_BLOCK_DATA_SIZE = p div 1024 div 255" "p mod ADDR_BLOCK_DATA_SIZE div 1024 = p div 1024 mod 255"
    "p mod ADDR_BLOCK_DATA_SIZE mod 1024 = p mod 1024"
proof -
  have e: "p mod (1024 * 255) = 1024 * (p div 1024 mod 255) + p mod 1024" by (rule mod_mult2_eq)
  show "p div ADDR_BLOCK_DATA_SIZE = p div 1024 div 255" using div_mult2_eq [of p 1024 255] by simp
  show "p mod ADDR_BLOCK_DATA_SIZE div 1024 = p div 1024 mod 255" "p mod ADDR_BLOCK_DATA_SIZE mod 1024 = p mod 1024"
    using e by simp_all
qed

lemma map_within:
  assumes "off mod 1024 + m \<le> 1024" "\<And>q. q div 1024 = off div 1024 \<Longrightarrow> f q = g (q mod 1024)"
  shows "map g [off mod 1024..<off mod 1024 + m] = map f [off..<off + m]"
proof (rule nth_equalityI)
  fix d assume "d < length (map g [off mod 1024..<off mod 1024 + m])"
  then have "d < m" by simp
  then show "map g [off mod 1024..<off mod 1024 + m] ! d = map f [off..<off + m] ! d"
    using same_block [of d m off] assms by simp
qed simp

lemma direct_within:
  assumes "off < DIRECT_DATA_SIZE" "off mod 1024 + m \<le> 1024"
  shows "map (block_byte s (i_addrs i ! (off div 1024))) [off mod 1024..<off mod 1024 + m] = map (fbyte s i) [off..<off + m]"
proof (rule map_within [OF assms(2)])
  fix q assume q: "q div 1024 = off div 1024"
  have "off div 1024 < 13" using assms(1) by (simp add: less_mult_imp_div_less)
  then have "q div 1024 < 13" using q by simp
  then have "q < DIRECT_DATA_SIZE" by (subst (asm) div_less_iff_less_mult) simp_all
  then show "fbyte s i q = block_byte s (i_addrs i ! (off div 1024)) (q mod 1024)" by (simp add: fbyte_def q)
qed

lemma indirect_within:
  assumes "off mod 1024 + m \<le> 1024" "nth_ab s b (off div ADDR_BLOCK_DATA_SIZE) = ab" "ab \<noteq> NO_BLOCK"
  shows "map (block_byte s (ab_addr (the (view s ab)) (off mod ADDR_BLOCK_DATA_SIZE div 1024))) [off mod 1024..<off mod 1024 + m]
    = map (ind_byte s b) [off..<off + m]"
proof (rule map_within [OF assms(1)])
  fix q assume q: "q div 1024 = off div 1024"
  then have "q div ADDR_BLOCK_DATA_SIZE = off div ADDR_BLOCK_DATA_SIZE"
    "q mod ADDR_BLOCK_DATA_SIZE div 1024 = off mod ADDR_BLOCK_DATA_SIZE div 1024"
    by (simp_all only: addr_split)
  then show "ind_byte s b q = block_byte s (ab_addr (the (view s ab)) (off mod ADDR_BLOCK_DATA_SIZE div 1024)) (q mod 1024)"
    using assms(2,3) by (simp add: ind_byte_def ind_addr_def)
qed

section \<open>The loops\<close>

lemma chunk:
  fixes off sz :: nat
  assumes "0 < sz"
  defines "m \<equiv> min sz (1024 - off mod 1024)"
  shows "0 < m" "m \<le> sz" "off mod 1024 + m \<le> 1024"
proof -
  have "off mod 1024 < 1024" by simp
  then show "0 < m" "m \<le> sz" "off mod 1024 + m \<le> 1024" using assms by (auto simp: m_def)
qed

lemma chunk_direct:
  fixes off m :: nat
  assumes "off < DIRECT_DATA_SIZE" "off mod 1024 + m \<le> 1024"
  shows "off + m \<le> DIRECT_DATA_SIZE"
proof -
  have "off div 1024 < 13" using assms(1) by (simp add: less_mult_imp_div_less)
  then have "1024 * (off div 1024) \<le> 1024 * 12" by simp
  moreover have "off = 1024 * (off div 1024) + off mod 1024" by simp
  ultimately show ?thesis using assms(2) by linarith
qed

definition direct_part :: "nat \<Rightarrow> nat \<Rightarrow> nat" where
  "direct_part off sz = (if off < DIRECT_DATA_SIZE then min sz (DIRECT_DATA_SIZE - off) else 0)"

lemma rd_direct_loop_run:
  assumes "inodes s ino = Some i" "file_ok s i" "sz \<le> k"
  shows "\<exists>t. rd_direct_loop k ino off sz s = (Inr (map (fbyte s i) [off..<off + direct_part off sz],
      off + direct_part off sz, sz - direct_part off sz), t) \<and> reads s t"
  using assms
proof (induction k arbitrary: s off sz)
  case 0
  then show ?case by (auto simp: direct_part_def)
next
  case (Suc k)
  show ?case
  proof (cases "off < DIRECT_DATA_SIZE \<and> 0 < sz")
    case False
    then show ?thesis by (auto simp: direct_part_def)
  next
    case True
    define m where "m = min sz (1024 - off mod 1024)"
    note m = chunk [of sz off, folded m_def]
    have lim: "off + m \<le> DIRECT_DATA_SIZE" using chunk_direct True m by blast
    have j: "off div 1024 < NUM_DIRECT_DATA" using True by (simp add: less_mult_imp_div_less)
    obtain t where t: "rd_direct ino (off div 1024) (off mod 1024) m s = (Inr (map (fbyte s i) [off..<off + m]), t)" "reads s t"
      using rd_direct_run [OF Suc.prems(1,2) j m(3)] direct_within [of off m s i] True m(3) by auto
    have v: "view t = view s" "inodes t = inodes s" using reads_D [OF t(2)] by auto
    have "inodes t ino = Some i" "file_ok t i" "sz - m \<le> k"
      using Suc.prems v spec_cong(7) [OF v(1)] m True by auto
    from Suc.IH [OF this, of "off + m"] obtain u where
      u: "rd_direct_loop k ino (off + m) (sz - m) t = (Inr (map (fbyte t i) [off + m..<off + m + direct_part (off + m) (sz - m)],
        off + m + direct_part (off + m) (sz - m), sz - m - direct_part (off + m) (sz - m)), u)" "reads t u"
      by blast
    have d: "direct_part off sz = m + direct_part (off + m) (sz - m)"
      using True lim m by (auto simp: direct_part_def)
    have "[off..<off + direct_part off sz] = [off..<off + m] @ [off + m..<off + m + direct_part (off + m) (sz - m)]"
      unfolding d by (simp only: upt_add_eq_append [of off "off + m"] le_add1 add.assoc [symmetric])
    then have "rd_direct_loop (Suc k) ino off sz s = (Inr (map (fbyte s i) [off..<off + direct_part off sz],
        off + direct_part off sz, sz - direct_part off sz), u)"
      using True t(1) u(1) spec_cong(4) [OF v(1)] by (simp add: m_def [symmetric] d add.assoc)
    then show ?thesis using reads_trans [OF t(2) u(2)] by blast
  qed
qed

lemma gbi_walk_run:
  assumes "chain_ok s b" "nth_ab s b (off div ADDR_BLOCK_DATA_SIZE) \<noteq> NO_BLOCK" "off div ADDR_BLOCK_DATA_SIZE \<le> k"
  shows "\<exists>t. gbi_walk k b off s = (Inr (nth_ab s b (off div ADDR_BLOCK_DATA_SIZE), off mod ADDR_BLOCK_DATA_SIZE), t) \<and> reads s t"
  using assms
proof (induction k arbitrary: s b off)
  case 0
  then have "off < ADDR_BLOCK_DATA_SIZE" by (simp add: div_eq_0_iff)
  then show ?case using 0 by auto
next
  case (Suc k)
  show ?case
  proof (cases "off < ADDR_BLOCK_DATA_SIZE")
    case False
    then have off: "off div ADDR_BLOCK_DATA_SIZE = Suc ((off - ADDR_BLOCK_DATA_SIZE) div ADDR_BLOCK_DATA_SIZE)"
      "off mod ADDR_BLOCK_DATA_SIZE = (off - ADDR_BLOCK_DATA_SIZE) mod ADDR_BLOCK_DATA_SIZE"
      by (simp_all add: le_div_geq le_mod_geq)
    have b: "b \<noteq> NO_BLOCK" using Suc.prems(2) by (auto simp: nth_ab_NO)
    obtain d where d: "view s b = Some d" using chain_ok_view [OF Suc.prems(1) b] by blast
    have nx: "nth_ab s b (off div ADDR_BLOCK_DATA_SIZE) = nth_ab s (ab_next d) ((off - ADDR_BLOCK_DATA_SIZE) div ADDR_BLOCK_DATA_SIZE)"
      unfolding off(1) using b d by simp
    then have ne: "ab_next d \<noteq> NO_BLOCK" using Suc.prems(2) by (auto simp: nth_ab_NO)
    have "chain_ok s (ab_next d)" using chain_ok_nth [OF Suc.prems(1), of 1] b d ne by simp
    then have "chain_ok (touch b s) (ab_next d)" using spec_cong(6) [of "touch b s" s] by (simp add: buf_simps fun_eq_iff)
    moreover have v: "view (touch b s) = view s" by (simp add: buf_simps fun_eq_iff)
    ultimately have "\<exists>t. gbi_walk k (ab_next d) (off - ADDR_BLOCK_DATA_SIZE) (touch b s)
      = (Inr (nth_ab s b (off div ADDR_BLOCK_DATA_SIZE), off mod ADDR_BLOCK_DATA_SIZE), t) \<and> reads (touch b s) t"
      using Suc.IH [of "touch b s" "ab_next d" "off - ADDR_BLOCK_DATA_SIZE"] Suc.prems(2,3) nx off
      by (simp add: nth_ab_cong [OF v])
    then show ?thesis using False d ne by (auto simp: buf_simps intro: reads_trans reads_touch)
  qed auto
qed

lemma get_block_index_run:
  assumes "chain_ok s b" "nth_ab s b (off div ADDR_BLOCK_DATA_SIZE) \<noteq> NO_BLOCK"
  shows "\<exists>t. get_block_index b off s = (Inr (nth_ab s b (off div ADDR_BLOCK_DATA_SIZE),
      off mod ADDR_BLOCK_DATA_SIZE div BLOCK_SIZE, off mod BLOCK_SIZE), t) \<and> reads s t"
proof -
  have "off mod ADDR_BLOCK_DATA_SIZE < ADDR_BLOCK_DATA_SIZE" by simp
  moreover have "off mod ADDR_BLOCK_DATA_SIZE div ADDR_BLOCK_DATA_SIZE = 0" by simp
  ultimately show ?thesis
    using gbi_walk_run [OF assms order_refl] by (auto simp: get_block_index_def addr_split(3))
qed

text \<open>
  The indirect loop reads the bytes from \<open>off\<close> on, relative to the address block it starts at,
  and ends at a position of the same chain.
\<close>

lemma rd_indirect_loop_run:
  assumes "chain_ok s b" "b \<noteq> NO_BLOCK" "sz \<le> k"
    and "0 < sz \<longrightarrow> nth_ab s b ((off + sz - 1) div ADDR_BLOCK_DATA_SIZE) \<noteq> NO_BLOCK"
  shows "\<exists>t c p j. rd_indirect_loop k b off sz s = (Inr (map (ind_byte s b) [off..<off + sz], c, p), t) \<and> reads s t
    \<and> c = nth_ab s b j \<and> c \<noteq> NO_BLOCK \<and> off + sz = j * ADDR_BLOCK_DATA_SIZE + p
    \<and> (0 < sz \<or> off \<le> ADDR_BLOCK_DATA_SIZE \<longrightarrow> p \<le> ADDR_BLOCK_DATA_SIZE)"
  using assms
proof (induction k arbitrary: s b off sz)
  case 0
  then show ?case by (intro exI [of _ s] exI [of _ b] exI [of _ off] exI [of _ 0]) auto
next
  case (Suc k)
  show ?case
  proof (cases "0 < sz")
    case False
    then show ?thesis using Suc.prems by (intro exI [of _ s] exI [of _ b] exI [of _ off] exI [of _ 0]) auto
  next
    case True
    define m where "m = min sz (1024 - off mod 1024)"
    define ab where "ab = nth_ab s b (off div ADDR_BLOCK_DATA_SIZE)"
    define off' where "off' = off mod ADDR_BLOCK_DATA_SIZE"
    note m = chunk [OF True, of off, folded m_def]
    have "off \<le> off + sz - 1" using True by simp
    then have ab: "ab \<noteq> NO_BLOCK" unfolding ab_def
      using nth_ab_down [OF Suc.prems(4) [rule_format, OF True]] div_le_mono by blast
    have cab: "chain_ok s ab" using chain_ok_nth Suc.prems(1) ab unfolding ab_def by blast
    have e: "off = off div ADDR_BLOCK_DATA_SIZE * ADDR_BLOCK_DATA_SIZE + off'" by (simp add: off'_def)
    have lt: "off' < ADDR_BLOCK_DATA_SIZE" by (simp add: off'_def)
    have l2: "off' + m \<le> ADDR_BLOCK_DATA_SIZE"
    proof -
      have "off' div 1024 < 255" using lt by (simp add: less_mult_imp_div_less)
      then have "1024 * (off' div 1024) \<le> 1024 * 254" by simp
      moreover have "off' = 1024 * (off' div 1024) + off' mod 1024" by simp
      moreover have "off' mod 1024 = off mod 1024" by (simp add: off'_def addr_split(3))
      ultimately show ?thesis using m(3) by linarith
    qed
    have ao: "off' div 1024 < NUM_ADDRS" using lt by (simp add: less_mult_imp_div_less)
    obtain t where t: "get_block_index b off s = (Inr (ab, off' div 1024, off mod 1024), t)" "reads s t"
      using get_block_index_run [OF Suc.prems(1), of off] ab by (auto simp: ab_def off'_def)
    have v: "view t = view s" using reads_D [OF t(2)] by simp
    obtain u where u: "rd_block ab (off' div 1024) (off mod 1024) m t = (Inr (map (ind_byte s b) [off..<off + m]), u)" "reads t u"
      using rd_block_run [of t ab "off' div 1024" "off mod 1024" m] spec_cong(1,6) [OF v] cab ab ao m(3)
        indirect_within [OF m(3) ab_def [symmetric] ab] by (auto simp: off'_def v)
    have v': "view u = view s" "reads s u" using reads_D [OF u(2)] v reads_trans [OF t(2) u(2)] by auto
    have cover: "nth_ab u ab ((off' + m + (sz - m) - 1) div ADDR_BLOCK_DATA_SIZE) \<noteq> NO_BLOCK" if "0 < sz - m"
    proof -
      have "off + sz - 1 = off div ADDR_BLOCK_DATA_SIZE * ADDR_BLOCK_DATA_SIZE + (off' + sz - 1)" using e True by linarith
      then have "(off + sz - 1) div ADDR_BLOCK_DATA_SIZE = off div ADDR_BLOCK_DATA_SIZE + (off' + sz - 1) div ADDR_BLOCK_DATA_SIZE"
        by (metis add.commute div_mult_self1 zero_neq_numeral)
      then have "nth_ab s ab ((off' + sz - 1) div ADDR_BLOCK_DATA_SIZE) \<noteq> NO_BLOCK"
        using Suc.prems(4) True nth_ab_add [of s b "off div ADDR_BLOCK_DATA_SIZE"] ab by (simp add: ab_def)
      then show ?thesis using m(2) by (simp add: nth_ab_cong [OF v'(1)])
    qed
    have "chain_ok u ab" "sz - m \<le> k" using cab spec_cong(6) [OF v'(1)] Suc.prems(3) m True by auto
    from Suc.IH [OF this(1) ab this(2), of "off' + m"] cover obtain w c p j where
      w: "rd_indirect_loop k ab (off' + m) (sz - m) u = (Inr (map (ind_byte u ab) [off' + m..<off' + m + (sz - m)], c, p), w)"
        "reads u w" "c = nth_ab u ab j" "c \<noteq> NO_BLOCK" "off' + m + (sz - m) = j * ADDR_BLOCK_DATA_SIZE + p"
        "0 < sz - m \<or> off' + m \<le> ADDR_BLOCK_DATA_SIZE \<longrightarrow> p \<le> ADDR_BLOCK_DATA_SIZE"
      by blast
    have rest: "map (ind_byte u ab) [off' + m..<off' + m + (sz - m)] = map (ind_byte s b) [off + m..<off + sz]"
    proof (rule nth_equalityI)
      fix d assume "d < length (map (ind_byte u ab) [off' + m..<off' + m + (sz - m)])"
      then have d: "d < sz - m" by simp
      have q: "off + m + d = off div ADDR_BLOCK_DATA_SIZE * ADDR_BLOCK_DATA_SIZE + (off' + m + d)" using e by linarith
      have "ind_byte s b (off + m + d) = ind_byte s ab (off' + m + d)"
        unfolding q ab_def by (rule ind_byte_shift) (use ab in \<open>simp add: ab_def\<close>)
      then show "map (ind_byte u ab) [off' + m..<off' + m + (sz - m)] ! d = map (ind_byte s b) [off + m..<off + sz] ! d"
        using d m(2) spec_cong(3) [OF v'(1)] by simp
    qed (use m(2) in simp)
    have app: "[off..<off + sz] = [off..<off + m] @ [off + m..<off + sz]"
      using m(2) upt_add_eq_append [of off "off + m" "sz - m"] by simp
    have "rd_indirect_loop (Suc k) b off sz s = (Inr (map (ind_byte s b) [off..<off + sz], c, p), w)"
      using True t(1) u(1) w(1) rest by (simp add: m_def [symmetric] off'_def [symmetric] app)
    moreover have "reads s w" using reads_trans [OF v'(2) w(2)] .
    moreover have "c = nth_ab s b (off div ADDR_BLOCK_DATA_SIZE + j)"
      using w(3) nth_ab_add [of s b "off div ADDR_BLOCK_DATA_SIZE" j] ab by (simp add: ab_def nth_ab_cong [OF v'(1)])
    moreover have "off + sz = (off div ADDR_BLOCK_DATA_SIZE + j) * ADDR_BLOCK_DATA_SIZE + p"
      using e w(5) m(2) unfolding add_mult_distrib by linarith
    moreover have "p \<le> ADDR_BLOCK_DATA_SIZE" using w(6) l2 by blast
    ultimately show ?thesis using w(4) by blast
  qed
qed

section \<open>Reading a file\<close>

text \<open>The blocks of the chain reach far enough for a read of \<open>sz\<close> bytes at \<open>off\<close>.\<close>

definition covered :: "nfs \<Rightarrow> minode \<Rightarrow> nat \<Rightarrow> nat \<Rightarrow> bool" where
  "covered s i off sz \<longleftrightarrow> off + sz \<le> DIRECT_DATA_SIZE \<or> i_next i = NO_BLOCK \<or>
     nth_ab s (i_next i) ((off + sz - 1 - DIRECT_DATA_SIZE) div ADDR_BLOCK_DATA_SIZE) \<noteq> NO_BLOCK"

text \<open>A read changes no block; in the inode it moves the remembered position.\<close>

definition read_result :: "nfs \<Rightarrow> u32 \<Rightarrow> minode \<Rightarrow> nfs \<Rightarrow> minode \<Rightarrow> bool" where
  "read_result s ino i t i' \<longleftrightarrow> same_view (s\<lparr>inodes := (inodes s)(ino \<mapsto> i')\<rparr>) t \<and> sb t = sb s \<and> sb_dirty t = sb_dirty s
     \<and> i' = i\<lparr>cache_raw_indirect_offset := cache_raw_indirect_offset i', cache_offset := cache_offset i',
          cache_addr_block := cache_addr_block i'\<rparr> \<and> cache_ok t i'"

lemma indirect_start_ok:
  assumes "cache_ok s i" "i_next i \<noteq> NO_BLOCK" "indirect_start i p = (cur, q)" "p < 2 ^ 32 - 1"
  shows "\<exists>k. cur = nth_ab s (i_next i) k \<and> cur \<noteq> NO_BLOCK \<and> p = k * ADDR_BLOCK_DATA_SIZE + q"
proof (cases "unat (cache_raw_indirect_offset i) = p")
  case True
  then show ?thesis using assms by (auto simp: cache_ok_def indirect_start_def)
next
  case False
  then show ?thesis using assms by (intro exI [of _ 0]) (auto simp: indirect_start_def)
qed

lemma data_rd_run:
  assumes "inodes s ino = Some i" "file_ok s i" "cache_ok s i" "covered s i off sz" "off + sz < 2 ^ 32"
  shows "\<exists>t i'. data_rd ino off sz s = (Inr (map (fbyte s i) [off..<off + sz]), t) \<and> read_result s ino i t i'"
proof -
  define n where "n = direct_part off sz"
  obtain t where t: "rd_direct_loop sz ino off sz s = (Inr (map (fbyte s i) [off..<off + n], off + n, sz - n), t)" "reads s t"
    using rd_direct_loop_run [OF assms(1,2) order_refl] unfolding n_def by blast
  have v: "view t = view s" "inodes t = inodes s" using reads_D [OF t(2)] by auto
  have upd: "s\<lparr>inodes := (inodes s)(ino \<mapsto> i)\<rparr> = s" using assms(1) by (simp add: fun_upd_idem)
  then have same: "read_result s ino i t i" using t(2) assms(3) spec_cong(8) [OF v(1)] by (auto simp: read_result_def reads_def)
  show ?thesis
  proof (cases "sz - n = 0")
    case True
    then have "n = sz" using n_def by (auto simp: direct_part_def split: if_splits)
    then have "data_rd ino off sz s = (Inr (map (fbyte s i) [off..<off + sz]), t)" using t(1) by (simp add: data_rd_def)
    then show ?thesis using same by blast
  next
    case False
    define p where "p = off + n - DIRECT_DATA_SIZE"
    define r where "r = sz - n"
    have off: "off + n = DIRECT_DATA_SIZE + p" "n \<le> sz" "0 < r"
      using False by (auto simp: p_def r_def n_def direct_part_def split: if_splits)
    have tail: "map (fbyte s i) [off + n..<off + sz] = map (ind_byte s (i_next i)) [p..<p + r]"
      by (rule nth_equalityI) (use off in \<open>auto simp: fbyte_def r_def\<close>)
    have app: "[off..<off + sz] = [off..<off + n] @ [off + n..<off + sz]"
      using off(2) upt_add_eq_append [of off "off + n" "sz - n"] by simp
    have it: "inodes t ino = Some i" using v assms(1) by simp
    show ?thesis
    proof (cases "i_next i = NO_BLOCK")
      case True
      have "map (ind_byte s (i_next i)) [p..<p + r] = replicate r 0"
        by (rule nth_equalityI) (simp_all add: True ind_byte_def ind_addr_def nth_ab_NO block_byte_def)
      then have "data_rd ino off sz s = (Inr (map (fbyte s i) [off..<off + sz]), t)"
        using t(1) False it True tail app by (simp add: data_rd_def buf_simps r_def)
      then show ?thesis using same by blast
    next
      case chain: False
      obtain cur q where cq: "indirect_start i p = (cur, q)" by (cases "indirect_start i p")
      have plt: "p < 2 ^ 32 - 1" "p + r < 2 ^ 32 - 1" using off assms(5) by (auto simp: r_def)
      obtain k where k: "cur = nth_ab s (i_next i) k" "cur \<noteq> NO_BLOCK" "p = k * ADDR_BLOCK_DATA_SIZE + q"
        using indirect_start_ok [OF assms(3) chain cq plt(1)] by blast
      have cov: "nth_ab s (i_next i) ((p + r - 1) div ADDR_BLOCK_DATA_SIZE) \<noteq> NO_BLOCK"
        using assms(4) chain off by (auto simp: covered_def r_def p_def)
      have "p + r - 1 = (q + r - 1) + k * ADDR_BLOCK_DATA_SIZE" using k(3) off(3) by linarith
      then have "(p + r - 1) div ADDR_BLOCK_DATA_SIZE = k + (q + r - 1) div ADDR_BLOCK_DATA_SIZE" by simp
      then have cov': "nth_ab s cur ((q + r - 1) div ADDR_BLOCK_DATA_SIZE) \<noteq> NO_BLOCK"
        using cov nth_ab_add [of s "i_next i" k] k by simp
      have "chain_ok t cur" "0 < r \<longrightarrow> nth_ab t cur ((q + r - 1) div ADDR_BLOCK_DATA_SIZE) \<noteq> NO_BLOCK"
        using assms(2) chain_ok_nth k cov' spec_cong(6) [OF v(1)] by (auto simp: file_ok_def nth_ab_cong [OF v(1)])
      from rd_indirect_loop_run [OF this(1) k(2) order_refl this(2)] obtain u c x j where
        u: "rd_indirect_loop r cur q r t = (Inr (map (ind_byte t cur) [q..<q + r], c, x), u)" "reads t u"
          "c = nth_ab t cur j" "c \<noteq> NO_BLOCK" "q + r = j * ADDR_BLOCK_DATA_SIZE + x" "x \<le> ADDR_BLOCK_DATA_SIZE"
        using off(3) by blast
      have vu: "view u = view s" "inodes u = inodes s" "reads s u"
        using reads_D [OF u(2)] v reads_trans [OF t(2) u(2)] by auto
      have mid: "map (ind_byte t cur) [q..<q + r] = map (ind_byte s (i_next i)) [p..<p + r]"
      proof (rule nth_equalityI)
        fix d assume "d < length (map (ind_byte t cur) [q..<q + r])"
        then show "map (ind_byte t cur) [q..<q + r] ! d = map (ind_byte s (i_next i)) [p..<p + r] ! d"
          using ind_byte_shift [of s "i_next i" k "q + d"] k spec_cong(3) [OF v(1)] by (simp add: add.assoc)
      qed simp
      define i' where "i' = i\<lparr>cache_raw_indirect_offset := of_nat (p + r), cache_offset := of_nat x, cache_addr_block := c\<rparr>"
      define w where "w = u\<lparr>inodes := (inodes u)(ino \<mapsto> i')\<rparr>"
      have run: "data_rd ino off sz s = (Inr (map (fbyte s i) [off..<off + sz]), w)"
        using t(1) False it chain cq u(1) mid tail app vu assms(1)
        by (simp add: data_rd_def buf_simps r_def [symmetric] p_def [symmetric] remember_def ino_mod_def w_def i'_def)
      have vw: "view w = view s" using vu(1) by (simp add: w_def buf_simps)
      have "cache_ok w i'"
      proof -
        have "unat (of_nat (p + r) :: u32) = p + r" "unat (of_nat x :: u32) = x"
          using plt u(6) by (intro unat_of_nat_lt; simp)+
        moreover have "c = nth_ab w (i_next i) (k + j)"
          using u(3) k nth_ab_add [of s "i_next i" k j] by (simp add: nth_ab_cong [OF vw] nth_ab_cong [OF v(1)])
        moreover have "p + r = (k + j) * ADDR_BLOCK_DATA_SIZE + x"
          using k(3) u(5) unfolding add_mult_distrib by linarith
        ultimately show ?thesis using u(4) unfolding cache_ok_def i'_def by (intro impI exI [of _ "k + j"]) simp
      qed
      then have "read_result s ino i w i'"
        using vu vw by (auto simp: read_result_def same_view_def reads_def w_def i'_def buf_simps)
      then show ?thesis using run by blast
    qed
  qed
qed

section \<open>Properties\<close>

text \<open>A file of the small file system for the witnesses: one data block, everything else a hole.\<close>

definition demo_inode :: minode where
  "demo_inode = \<lparr>i_valid = True, i_dirty = False, i_size = 100, i_nlinks = 1, i_perm = 0, i_type = ITYPE_FILE,
     i_addrs = 4 # replicate 12 NO_BLOCK, i_next = NO_BLOCK,
     cache_raw_indirect_offset = - 1, cache_offset = - 1, cache_addr_block = - 1\<rparr>"

definition demo_fs :: nfs where
  "demo_fs = small_fs\<lparr>inodes := [5 \<mapsto> demo_inode],
     bufs := [2 \<mapsto> \<lparr>bdata = 31 # replicate 1023 0, bdirty = True\<rparr>]\<rparr>"

lemma demo_view: "\<exists>d. view demo_fs b = Some d \<and> length d = BLOCK_SIZE"
  by (cases "b = 2") (simp_all add: view_def demo_fs_def small_fs_def)

lemma demo_file_ok: "inodes demo_fs 5 = Some demo_inode" "file_ok demo_fs demo_inode" "cache_ok demo_fs demo_inode"
proof -
  show "inodes demo_fs 5 = Some demo_inode" by (simp add: demo_fs_def)
  have b: "block_ok demo_fs a" for a using demo_view by (simp add: block_ok_def)
  then show "file_ok demo_fs demo_inode" by (simp add: file_ok_def chain_ok_def demo_inode_def nth_ab_NO)
  show "cache_ok demo_fs demo_inode" by (simp add: cache_ok_def demo_inode_def)
qed

lemma inode_load_valid: "\<lbrakk>inodes s ino = Some i; i_valid i\<rbrakk> \<Longrightarrow> inode_load ino s = (Inr (), s)"
  by (cases "ino = 0") (simp_all add: inode_load_def load_table_def buf_simps)

lemma inode_read_run:
  assumes "inodes s ino = Some i" "i_valid i" "file_ok s i" "cache_ok s i" "covered s i off sz" "off + sz < 2 ^ 32"
  shows "\<exists>t i'. inode_read ino off sz s = (Inr (map (fbyte s i) [off..<off + sz]), t) \<and> read_result s ino i t i'"
  using inode_load_valid [OF assms(1,2)] data_rd_run [OF assms(1,3-6)] by (auto simp: inode_read_def)

text \<open>
  C2. \<open>nfs_inode::read\<close> returns the bytes of the file: those of the direct blocks and of the
  blocks on the address chain, and zeros where no block is allocated, also when it continues from
  the remembered position. It changes no block and keeps the remembered position right.
\<close>

theorem nfs_read_returns_contents:
  assumes "inodes s ino = Some i" "i_valid i" "file_ok s i" "cache_ok s i" "covered s i off sz" "off + sz < 2 ^ 32"
  shows "\<exists>t i'. inode_read ino off sz s = (Inr (map (fbyte s i) [off..<off + sz]), t) \<and> read_result s ino i t i'"
  using assms by (rule inode_read_run)

lemma nfs_read_returns_contents_witness:
  "\<exists>t i'. inode_read 5 1000 100 demo_fs = (Inr (map (fbyte demo_fs demo_inode) [1000..<1000 + 100]), t)
    \<and> read_result demo_fs 5 demo_inode t i'"
  by (rule nfs_read_returns_contents) (simp_all add: demo_file_ok covered_def, simp_all add: demo_inode_def)

end
