(* ===== verification/Nfs_Write.thy ===== *)
theory Nfs_Write
  imports Nfs_Read
begin

text \<open>
  Writing to a file in the region of the direct blocks, with allocation of the blocks that are
  missing: the file's bytes change exactly where the write went, no other block of the file
  system changes except the allocation bitmap, and the file stays well formed.
\<close>

section \<open>The blocks a file owns\<close>

definition ind_blocks :: "nfs \<Rightarrow> u32 \<Rightarrow> u32 set" where
  "ind_blocks s b = {nth_ab s b k | k. nth_ab s b k \<noteq> NO_BLOCK}
     \<union> {ab_addr (the (view s (nth_ab s b k))) j | k j. nth_ab s b k \<noteq> NO_BLOCK \<and> j < NUM_ADDRS
          \<and> ab_addr (the (view s (nth_ab s b k))) j \<noteq> NO_BLOCK}"

definition owned :: "nfs \<Rightarrow> u32 \<Rightarrow> bool" where
  "owned s a \<longleftrightarrow> generic_block_start (sb s) \<le> a \<and> a < total_blocks (sb s) \<and> blk_used s (unat a)"

definition wr_ok :: "nfs \<Rightarrow> minode \<Rightarrow> bool" where
  "wr_ok s i \<longleftrightarrow> alloc_ok s \<and> file_ok s i
     \<and> (\<forall>b. generic_block_start (sb s) \<le> b \<and> b < total_blocks (sb s) \<longrightarrow> (\<exists>d. view s b = Some d \<and> length d = BLOCK_SIZE))
     \<and> (\<forall>a\<in>set (i_addrs i). a \<noteq> NO_BLOCK \<longrightarrow> owned s a) \<and> (\<forall>a\<in>ind_blocks s (i_next i). owned s a)
     \<and> (\<forall>j<NUM_DIRECT_DATA. \<forall>k<NUM_DIRECT_DATA. i_addrs i ! j = i_addrs i ! k \<and> i_addrs i ! j \<noteq> NO_BLOCK \<longrightarrow> j = k)
     \<and> (\<forall>a\<in>set (i_addrs i). a \<notin> ind_blocks s (i_next i))"

lemma wr_ok_D:
  assumes "wr_ok s i"
  shows "alloc_ok s" "file_ok s i" "length (i_addrs i) = NUM_DIRECT_DATA"
    "\<And>b. generic_block_start (sb s) \<le> b \<Longrightarrow> b < total_blocks (sb s) \<Longrightarrow> \<exists>d. view s b = Some d \<and> length d = BLOCK_SIZE"
    "\<And>j. j < NUM_DIRECT_DATA \<Longrightarrow> i_addrs i ! j \<noteq> NO_BLOCK \<Longrightarrow> owned s (i_addrs i ! j)"
    "\<And>a. a \<in> ind_blocks s (i_next i) \<Longrightarrow> owned s a"
    "\<And>j k. j < NUM_DIRECT_DATA \<Longrightarrow> k < NUM_DIRECT_DATA \<Longrightarrow> i_addrs i ! j = i_addrs i ! k \<Longrightarrow> i_addrs i ! j \<noteq> NO_BLOCK \<Longrightarrow> j = k"
    "\<And>j. j < NUM_DIRECT_DATA \<Longrightarrow> i_addrs i ! j \<notin> ind_blocks s (i_next i)"
  using assms by (auto simp: wr_ok_def file_ok_def)

lemma owned_neq_NO: "alloc_ok s \<Longrightarrow> owned s a \<Longrightarrow> a \<noteq> NO_BLOCK"
  by (auto simp: owned_def)

text \<open>The chain of address blocks only depends on its own blocks.\<close>

lemma nth_ab_Suc:
  "nth_ab s b (Suc k) = (if nth_ab s b k = NO_BLOCK then NO_BLOCK else ab_next (the (view s (nth_ab s b k))))"
proof (induction k arbitrary: b)
  case (Suc k)
  show ?case
  proof (cases "b = NO_BLOCK")
    case False
    then have "nth_ab s b (Suc (Suc k)) = nth_ab s (ab_next (the (view s b))) (Suc k)"
      "nth_ab s b (Suc k) = nth_ab s (ab_next (the (view s b))) k" by simp_all
    then show ?thesis by (simp only: Suc)
  qed simp
qed simp

lemma nth_ab_frame:
  assumes "\<And>c. c \<in> ind_blocks s b \<Longrightarrow> view t c = view s c"
  shows "nth_ab t b k = nth_ab s b k"
proof (induction k)
  case (Suc k)
  have "view t (nth_ab s b k) = view s (nth_ab s b k)" if "nth_ab s b k \<noteq> NO_BLOCK"
    using that assms by (auto simp: ind_blocks_def)
  then show ?case using Suc by (simp add: nth_ab_Suc del: nth_ab.simps)
qed simp

lemma chain_frame:
  assumes "\<And>c. c \<in> ind_blocks s b \<Longrightarrow> view t c = view s c"
  shows "ind_blocks t b = ind_blocks s b" "ind_byte t b = ind_byte s b" "chain_ok s b \<Longrightarrow> chain_ok t b"
proof -
  have n: "nth_ab t b = nth_ab s b" by (intro ext nth_ab_frame assms)
  have v: "view t (nth_ab s b k) = view s (nth_ab s b k)" if "nth_ab s b k \<noteq> NO_BLOCK" for k
    using that assms by (auto simp: ind_blocks_def)
  show "ind_blocks t b = ind_blocks s b" unfolding ind_blocks_def n
    by (intro arg_cong2 [where f = "(\<union>)"] refl Collect_cong) (metis v)
  have e: "view t (ab_addr (the (view s (nth_ab s b k))) j) = view s (ab_addr (the (view s (nth_ab s b k))) j)"
    if "nth_ab s b k \<noteq> NO_BLOCK" "j < NUM_ADDRS" "ab_addr (the (view s (nth_ab s b k))) j \<noteq> NO_BLOCK" for k j
    using that assms by (auto simp: ind_blocks_def)
  show "ind_byte t b = ind_byte s b"
  proof (rule ext)
    fix p
    have "p mod ADDR_BLOCK_DATA_SIZE div BLOCK_SIZE < NUM_ADDRS" by (simp add: addr_split)
    then show "ind_byte t b p = ind_byte s b p"
      using v e by (auto simp: ind_byte_def ind_addr_def block_byte_def n Let_def)
  qed
  assume "chain_ok s b"
  then show "chain_ok t b" unfolding chain_ok_def n block_ok_def using v e by (metis (no_types, lifting))
qed

lemma wr_ok_cong:
  assumes "view u = view t" "sb u = sb t" "i_addrs i2 = i_addrs i1" "i_next i2 = i_next i1"
  shows "wr_ok u i2 = wr_ok t i1"
proof -
  have n: "nth_ab u = nth_ab t" by (intro ext nth_ab_cong assms(1))
  have b: "blk_used u = blk_used t" by (intro ext) (simp only: blk_used_def assms(1))
  have o: "owned u = owned t" by (intro ext) (simp only: owned_def assms(2) b)
  have "ind_blocks u = ind_blocks t" by (intro ext) (simp only: ind_blocks_def n assms(1))
  moreover have "alloc_ok u = alloc_ok t" by (simp only: alloc_ok_def assms(1,2) b)
  moreover have "file_ok u i2 = file_ok t i1" by (simp only: file_ok_def assms(3,4) spec_cong(5,6) [OF assms(1)])
  ultimately show ?thesis by (simp only: wr_ok_def assms o)
qed

section \<open>Writing one block\<close>

lemma fill_block_bytes:
  assumes "length d = BLOCK_SIZE" "off + length xs \<le> BLOCK_SIZE"
  shows "length (fill_block d off xs clr) = BLOCK_SIZE"
    "q < BLOCK_SIZE \<Longrightarrow> fill_block d off xs clr ! q = (if off \<le> q \<and> q < off + length xs then xs ! (q - off) else if clr then 0 else d ! q)"
  using assms by (auto simp: fill_block_def Let_def nth_bsplice)

lemma put_block_run:
  fixes off :: nat and xs :: "u8 list" and clr :: bool
  assumes "view s a = Some d"
  defines "t \<equiv> dirty_buf a (write_buf a (fill_block d off xs clr) (touch a s))"
  shows "put_block a off xs clr s = (Inr (), t)"
    "view t c = (if c = a then Some (fill_block d off xs clr) else view s c)"
    "disk t = disk s" "sb t = sb s" "sb_dirty t = sb_dirty s" "inodes t = inodes s" "unmounted t = unmounted s"
  using assms(1) by (simp_all add: put_block_def buf_simps t_def)

text \<open>
  The effect of writing \<open>xs\<close> at \<open>bo\<close> into data block \<open>a\<close>, which held the bytes of \<open>f\<close>: outside the
  bitmap only this block changes.
\<close>

definition wrote :: "nfs \<Rightarrow> u32 \<Rightarrow> (nat \<Rightarrow> u8) \<Rightarrow> nat \<Rightarrow> u8 list \<Rightarrow> nfs \<Rightarrow> bool" where
  "wrote s a f bo xs t \<longleftrightarrow>
     (\<forall>c. c \<noteq> a \<longrightarrow> \<not> (2 \<le> c \<and> c < generic_block_start (sb s)) \<longrightarrow> view t c = view s c)
     \<and> (\<exists>d. view t a = Some d \<and> length d = BLOCK_SIZE
          \<and> (\<forall>q<BLOCK_SIZE. d ! q = (if bo \<le> q \<and> q < bo + length xs then xs ! (q - bo) else f q)))
     \<and> (\<forall>n < 8192 * (unat (generic_block_start (sb s)) - 2). blk_used t n = (n = unat a \<or> blk_used s n))
     \<and> generic_block_start (sb t) = generic_block_start (sb s) \<and> total_blocks (sb t) = total_blocks (sb s)
     \<and> unmounted t = unmounted s \<and> alloc_ok t"

lemma alloc_ok_put:
  assumes "alloc_ok s" "generic_block_start (sb s) \<le> a" "\<And>c. view t c = (if c = a then x else view s c)" "sb t = sb s"
  shows "alloc_ok t" "n < 8192 * (unat (generic_block_start (sb s)) - 2) \<Longrightarrow> blk_used t n = blk_used s n"
proof -
  have u: "blk_used t n = blk_used s n" if "n < 8192 * (unat (generic_block_start (sb s)) - 2)" for n
  proof -
    have "2 + of_nat (n div 8192) < generic_block_start (sb s)"
      using bitmap_block_of(3) [OF that] alloc_ok_D [OF assms(1)] by auto
    then have "2 + of_nat (n div 8192) \<noteq> a" using assms(2) by auto
    then show ?thesis by (simp add: blk_used_def assms(3))
  qed
  then show "n < 8192 * (unat (generic_block_start (sb s)) - 2) \<Longrightarrow> blk_used t n = blk_used s n" .
  show "alloc_ok t"
  proof (rule alloc_ok_transfer [OF assms(1)])
    show "blk_used t n" if "n < unat (generic_block_start (sb s))" for n
      using u [of n] alloc_ok_D [OF assms(1)] that by simp
    show "\<exists>d. view t b = Some d \<and> length d = BLOCK_SIZE" if "2 \<le> b" "b < generic_block_start (sb s)" for b
      using alloc_ok_D(6) [OF assms(1) that] that assms(2,3) by auto
  qed (use alloc_ok_D(2) [OF assms(1)] assms(4) in simp_all)
qed

lemma wr_direct_run:
  assumes "inodes s ino = Some i" "wr_ok s i" "j < NUM_DIRECT_DATA" "bo + length xs \<le> BLOCK_SIZE"
  shows "(\<exists>t. wr_direct ino j bo xs s = (Inl Task_Fail, t) \<and> i_addrs i ! j = NO_BLOCK)
    \<or> (\<exists>t a i'. wr_direct ino j bo xs s = (Inr (), t) \<and> wrote s a (block_byte s (i_addrs i ! j)) bo xs t
        \<and> (i_addrs i ! j \<noteq> NO_BLOCK \<longrightarrow> a = i_addrs i ! j) \<and> (i_addrs i ! j = NO_BLOCK \<longrightarrow> \<not> blk_used s (unat a))
        \<and> generic_block_start (sb s) \<le> a \<and> a < total_blocks (sb s)
        \<and> inodes t = (inodes s)(ino \<mapsto> i') \<and> i' = i\<lparr>i_addrs := (i_addrs i)[j := a], i_dirty := i_dirty i'\<rparr>)"
proof (cases "i_addrs i ! j = NO_BLOCK")
  case False
  let ?a = "i_addrs i ! j"
  have ow: "owned s ?a" using wr_ok_D(5) [OF assms(2,3) False] .
  then have rng: "generic_block_start (sb s) \<le> ?a" "?a < total_blocks (sb s)" "blk_used s (unat ?a)" by (auto simp: owned_def)
  obtain d where d: "view s ?a = Some d" "length d = BLOCK_SIZE" using wr_ok_D(4) [OF assms(2) rng(1,2)] by blast
  note p = put_block_run [OF d(1), of bo xs False]
  let ?t = "dirty_buf ?a (write_buf ?a (fill_block d bo xs False) (touch ?a s))"
  have run: "wr_direct ino j bo xs s = (Inr (), ?t)"
    using assms False p(1) wr_ok_D(3) [OF assms(2)] by (simp add: wr_direct_def buf_simps)
  note al = alloc_ok_put [OF wr_ok_D(1) [OF assms(2)] rng(1) p(2) p(4)]
  have "wrote s ?a (block_byte s ?a) bo xs ?t"
    unfolding wrote_def p(2) using fill_block_bytes [OF d(2) assms(4)] d al False rng(3) p(4,7)
    by (auto simp: block_byte_def)
  moreover have "inodes ?t = (inodes s)(ino \<mapsto> i)" using p(6) assms(1) by (simp add: fun_upd_idem)
  ultimately show ?thesis using run rng False by (intro disjI2 exI [of _ ?t] exI [of _ ?a] exI [of _ i]) simp
next
  case True
  show ?thesis
  proof (cases "\<exists>t. alloc_block s = (Inl Task_Fail, t)")
    case fail: True
    then have "\<exists>t. wr_direct ino j bo xs s = (Inl Task_Fail, t) \<and> i_addrs i ! j = NO_BLOCK"
      using assms True wr_ok_D(3) [OF assms(2)] by (auto simp: wr_direct_def buf_simps)
    then show ?thesis by blast
  next
    case False
    then obtain b u where u: "alloc_block s = (Inr b, u)" "allocated s b u"
      using alloc_block_run [OF wr_ok_D(1) [OF assms(2)]] by auto
    define i' where "i' = i\<lparr>i_addrs := (i_addrs i)[j := b], i_dirty := True\<rparr>"
    define v where "v = u\<lparr>inodes := (inodes u)(ino \<mapsto> i')\<rparr>"
    have vv: "view v = view u" "sb v = sb u" by (simp_all add: v_def buf_simps)
    have g: "generic_block_start (sb u) = generic_block_start (sb s)" "total_blocks (sb u) = total_blocks (sb s)"
      using u(2) unfolding allocated_def by (metis superblock.select_convs superblock.update_convs superblock.surjective)+
    have b: "generic_block_start (sb s) \<le> b" "b < total_blocks (sb s)" "\<not> blk_used s (unat b)" "alloc_ok u" "inodes u = inodes s"
      using u(2) by (auto simp: allocated_def)
    have nb: "\<not> (2 \<le> b \<and> b < generic_block_start (sb s))" using b(1) by auto
    obtain d where d: "view v b = Some d" "length d = BLOCK_SIZE"
      using wr_ok_D(4) [OF assms(2) b(1,2)] u(2) nb vv by (auto simp: allocated_def)
    note p = put_block_run [OF d(1), of bo xs True]
    let ?t = "dirty_buf b (write_buf b (fill_block d bo xs True) (touch b v))"
    have run: "wr_direct ino j bo xs s = (Inr (), ?t)"
      using assms True p(1) u(1) b(5) wr_ok_D(3) [OF assms(2)]
      by (simp add: wr_direct_def buf_simps ino_mark_dirty_def v_def i'_def)
    have av: "alloc_ok v" using b(4) vv(1,2) by (simp add: alloc_ok_def blk_used_def)
    note al = alloc_ok_put [OF av _ p(2) p(4)]
    have "wrote s b (block_byte s NO_BLOCK) bo xs ?t"
      unfolding wrote_def p(2) using fill_block_bytes [OF d(2) assms(4)] al b(1) g u(2) vv p(4,7)
      by (auto simp: block_byte_def allocated_def blk_used_def v_def)
    moreover have "inodes ?t = (inodes s)(ino \<mapsto> i')" using p(6) b(5) by (simp add: v_def)
    ultimately show ?thesis using run b True
      by (intro disjI2 exI [of _ ?t] exI [of _ b] exI [of _ i']) (simp add: i'_def)
  qed
qed

section \<open>The bytes of the file\<close>

text \<open>A write into one direct block changes the bytes it covers and keeps the file well formed.\<close>

lemma wrote_file:
  assumes "wr_ok s i" "j < NUM_DIRECT_DATA" "bo + length xs \<le> BLOCK_SIZE"
    and w: "wrote s a (block_byte s (i_addrs i ! j)) bo xs t"
    and a: "i_addrs i ! j \<noteq> NO_BLOCK \<Longrightarrow> a = i_addrs i ! j" "i_addrs i ! j = NO_BLOCK \<Longrightarrow> \<not> blk_used s (unat a)"
      "generic_block_start (sb s) \<le> a" "a < total_blocks (sb s)"
    and i': "i_addrs i' = (i_addrs i)[j := a]" "i_next i' = i_next i"
  shows "wr_ok t i'"
    "fbyte t i' q = (if j * 1024 + bo \<le> q \<and> q < j * 1024 + bo + length xs then xs ! (q - (j * 1024 + bo)) else fbyte s i q)"
proof -
  have len: "length (i_addrs i) = NUM_DIRECT_DATA" using wr_ok_D(3) [OF assms(1)] .
  have aNO: "a \<noteq> NO_BLOCK" using a(4) by auto
  have lim: "unat c < 8192 * (unat (generic_block_start (sb s)) - 2)" if "c < total_blocks (sb s)" for c
    using alloc_ok_D(5) [OF wr_ok_D(1) [OF assms(1)]] that by (simp add: word_less_nat_alt)
  have out: "\<not> (2 \<le> c \<and> c < generic_block_start (sb s))" if "owned s c" for c
    using that by (auto simp: owned_def)
  have aind: "a \<notin> ind_blocks s (i_next i)"
    using a(1,2) wr_ok_D(6,8) [OF assms(1)] assms(2) by (cases "i_addrs i ! j = NO_BLOCK") (auto simp: owned_def)
  have vind: "view t c = view s c" if "c \<in> ind_blocks s (i_next i)" for c
    using that w aind out wr_ok_D(6) [OF assms(1)] unfolding wrote_def by metis
  note ch = chain_frame [of s "i_next i" t, OF vind]
  have oth: "i_addrs i ! k \<noteq> a" if "k < NUM_DIRECT_DATA" "k \<noteq> j" "i_addrs i ! k \<noteq> NO_BLOCK" for k
    using a(1,2) wr_ok_D(5) [OF assms(1) that(1,3)] wr_ok_D(7) [OF assms(1) that(1) assms(2)] that
    by (cases "i_addrs i ! j = NO_BLOCK") (auto simp: owned_def)
  have vd: "view t (i_addrs i ! k) = view s (i_addrs i ! k)" if "k < NUM_DIRECT_DATA" "k \<noteq> j" "i_addrs i ! k \<noteq> NO_BLOCK" for k
    using w oth [OF that] out [OF wr_ok_D(5) [OF assms(1) that(1,3)]] unfolding wrote_def by blast
  have ownT: "owned t c" if "owned s c" for c
    using that w lim [of c] by (auto simp: owned_def wrote_def)
  have ownA: "owned t a" using w a(3,4) lim [of a] by (auto simp: owned_def wrote_def)
  have readable: "\<exists>d. view t b = Some d \<and> length d = BLOCK_SIZE" if "generic_block_start (sb s) \<le> b" "b < total_blocks (sb s)" for b
  proof (cases "b = a")
    case False
    have "\<not> (2 \<le> b \<and> b < generic_block_start (sb s))" using that by auto
    then have "view t b = view s b" using w False unfolding wrote_def by blast
    then show ?thesis using wr_ok_D(4) [OF assms(1) that] by simp
  qed (use w in \<open>auto simp: wrote_def\<close>)
  have nth': "(i_addrs i)[j := a] ! k = (if k = j then a else i_addrs i ! k)" if "k < NUM_DIRECT_DATA" for k
    using that len assms(2) by (auto simp: nth_list_update)
  have own': "x = NO_BLOCK \<or> owned t x" if xin: "x \<in> set ((i_addrs i)[j := a])" for x
  proof -
    obtain k where "k < NUM_DIRECT_DATA" "x = (i_addrs i)[j := a] ! k"
      using xin len unfolding in_set_conv_nth by auto
    then show ?thesis using nth' [of k] ownA ownT wr_ok_D(5) [OF assms(1), of k] by auto
  qed
  have g: "generic_block_start (sb t) = generic_block_start (sb s)" "total_blocks (sb t) = total_blocks (sb s)" "alloc_ok t"
    using w by (auto simp: wrote_def)
  have bok: "block_ok t x" if "x = NO_BLOCK \<or> owned t x" for x
    using that readable [of x] g by (auto simp: block_ok_def owned_def)
  have "file_ok t i'"
    using len own' bok ch(3) wr_ok_D(2) [OF assms(1)] by (auto simp: file_ok_def i')
  moreover have "\<forall>k<NUM_DIRECT_DATA. \<forall>l<NUM_DIRECT_DATA. i_addrs i' ! k = i_addrs i' ! l \<and> i_addrs i' ! k \<noteq> NO_BLOCK \<longrightarrow> k = l"
  proof (intro allI impI)
    fix k l assume kl: "k < NUM_DIRECT_DATA" "l < NUM_DIRECT_DATA" "i_addrs i' ! k = i_addrs i' ! l \<and> i_addrs i' ! k \<noteq> NO_BLOCK"
    then show "k = l"
      using nth' [of k] nth' [of l] oth [of k] oth [of l] wr_ok_D(7) [OF assms(1), of k l] by (auto simp: i' split: if_splits)
  qed
  moreover have "x \<notin> ind_blocks t (i_next i')" if xin: "x \<in> set (i_addrs i')" for x
  proof -
    obtain k where "k < NUM_DIRECT_DATA" "x = (i_addrs i)[j := a] ! k"
      using xin len unfolding in_set_conv_nth i' by auto
    then show ?thesis using nth' [of k] aind wr_ok_D(8) [OF assms(1), of k] ch(1) by (auto simp: i')
  qed
  ultimately show "wr_ok t i'"
    using own' ownT wr_ok_D(6) [OF assms(1)] readable g ch(1) unfolding wr_ok_def by (auto simp: i')
  show "fbyte t i' q = (if j * 1024 + bo \<le> q \<and> q < j * 1024 + bo + length xs then xs ! (q - (j * 1024 + bo)) else fbyte s i q)"
  proof (cases "q < DIRECT_DATA_SIZE")
    case False
    have "j * 1024 + bo + length xs \<le> DIRECT_DATA_SIZE" using assms(2,3) by simp
    then show ?thesis using False ch(2) by (simp add: fbyte_def i')
  next
    case True
    then have k: "q div 1024 < NUM_DIRECT_DATA" by (simp add: less_mult_imp_div_less)
    show ?thesis
    proof (cases "q div 1024 = j")
      case qj: True
      have q: "q = j * 1024 + q mod 1024" using qj by (metis div_mult_mod_eq)
      obtain d where "view t a = Some d" "\<forall>x<BLOCK_SIZE. d ! x = (if bo \<le> x \<and> x < bo + length xs then xs ! (x - bo)
          else block_byte s (i_addrs i ! j) x)" using w by (auto simp: wrote_def)
      then have "fbyte t i' q = (if bo \<le> q mod 1024 \<and> q mod 1024 < bo + length xs then xs ! (q mod 1024 - bo)
          else block_byte s (i_addrs i ! j) (q mod 1024))"
        using True qj nth' [OF assms(2)] aNO by (simp add: fbyte_def i' block_byte_def)
      moreover have "q - (j * 1024 + bo) = q mod 1024 - bo" using q by linarith
      moreover have "j * 1024 + bo \<le> q \<and> q < j * 1024 + bo + length xs \<longleftrightarrow> bo \<le> q mod 1024 \<and> q mod 1024 < bo + length xs"
        using q by linarith
      ultimately show ?thesis using True qj by (simp add: fbyte_def)
    next
      case False
      have e: "q = 1024 * (q div 1024) + q mod 1024" "q mod 1024 < 1024" by simp_all
      have "\<not> (j * 1024 + bo \<le> q \<and> q < j * 1024 + bo + length xs)"
      proof
        assume h: "j * 1024 + bo \<le> q \<and> q < j * 1024 + bo + length xs"
        then have "j * 1024 \<le> q" "q < (j + 1) * 1024" using assms(3) by auto
        then have "q div 1024 = j" by (intro div_nat_eqI) (simp_all add: mult.commute)
        then show False using False by simp
      qed
      moreover have "fbyte t i' q = fbyte s i q"
        using True False nth' [OF k] vd [OF k False] by (auto simp: fbyte_def i' block_byte_def)
      ultimately show ?thesis by auto
    qed
  qed
qed

section \<open>Other blocks\<close>

text \<open>Blocks that are in use and are not direct blocks of the file keep their contents.\<close>

definition kept :: "nfs \<Rightarrow> minode \<Rightarrow> nfs \<Rightarrow> bool" where
  "kept s i t \<longleftrightarrow> unmounted t = unmounted s
     \<and> generic_block_start (sb t) = generic_block_start (sb s) \<and> total_blocks (sb t) = total_blocks (sb s)
     \<and> (\<forall>c. owned s c \<and> c \<notin> set (i_addrs i) \<longrightarrow> view t c = view s c \<and> owned t c)"

lemma kept_refl [simp]: "kept s i s"
  by (simp add: kept_def)

lemma wrote_kept:
  assumes "wr_ok s i" "j < NUM_DIRECT_DATA" "wrote s a f bo xs t"
    and a: "i_addrs i ! j \<noteq> NO_BLOCK \<longrightarrow> a = i_addrs i ! j" "i_addrs i ! j = NO_BLOCK \<longrightarrow> \<not> blk_used s (unat a)"
  shows "kept s i t" "\<And>c. owned s c \<Longrightarrow> c \<notin> set (i_addrs i) \<Longrightarrow> c \<noteq> a"
proof -
  show ca: "c \<noteq> a" if "owned s c" "c \<notin> set (i_addrs i)" for c
    using that a assms(2) wr_ok_D(3) [OF assms(1)] by (cases "i_addrs i ! j = NO_BLOCK") (auto simp: owned_def)
  have "view t c = view s c \<and> owned t c" if c: "owned s c" "c \<notin> set (i_addrs i)" for c
  proof -
    have "unat c < 8192 * (unat (generic_block_start (sb s)) - 2)"
      using c(1) alloc_ok_D(5) [OF wr_ok_D(1) [OF assms(1)]] by (simp add: owned_def word_less_nat_alt)
    moreover have "\<not> (2 \<le> c \<and> c < generic_block_start (sb s))" using c(1) by (auto simp: owned_def)
    ultimately show ?thesis using c(1) ca [OF c] assms(3) unfolding wrote_def owned_def by metis
  qed
  then show "kept s i t" using assms(3) by (simp add: kept_def wrote_def)
qed

lemma kept_trans:
  assumes "kept s i t" "kept t i' u" "set (i_addrs i') \<subseteq> insert a (set (i_addrs i))"
    and "\<And>c. owned s c \<Longrightarrow> c \<notin> set (i_addrs i) \<Longrightarrow> c \<noteq> a"
  shows "kept s i u"
proof -
  have "view u c = view s c \<and> owned u c" if c: "owned s c" "c \<notin> set (i_addrs i)" for c
  proof -
    have "view t c = view s c" "owned t c" using assms(1) c by (simp_all add: kept_def)
    moreover have "c \<notin> set (i_addrs i')" using assms(3) assms(4) [OF c] c(2) by auto
    ultimately show ?thesis using assms(2) by (simp add: kept_def)
  qed
  then show ?thesis using assms(1,2) by (simp add: kept_def)
qed

text \<open>A file that shares no block with \<open>i\<close> keeps its bytes.\<close>

definition apart :: "nfs \<Rightarrow> minode \<Rightarrow> minode \<Rightarrow> bool" where
  "apart s i i2 \<longleftrightarrow> length (i_addrs i2) = NUM_DIRECT_DATA
     \<and> (\<forall>a \<in> set (i_addrs i2) \<union> ind_blocks s (i_next i2). a \<noteq> NO_BLOCK \<longrightarrow> owned s a \<and> a \<notin> set (i_addrs i))"

lemma kept_apart:
  assumes "kept s i t" "apart s i i2"
  shows "fbyte t i2 = fbyte s i2"
proof (rule ext)
  fix q
  have v: "view t a = view s a" if "a \<in> set (i_addrs i2) \<union> ind_blocks s (i_next i2)" "a \<noteq> NO_BLOCK" for a
    using assms that by (auto simp: kept_def apart_def)
  have "a \<noteq> NO_BLOCK" if "a \<in> ind_blocks s (i_next i2)" for a using that by (auto simp: ind_blocks_def)
  then have "ind_byte t (i_next i2) = ind_byte s (i_next i2)" using v by (intro chain_frame(2)) blast
  moreover have "i_addrs i2 ! (q div 1024) \<in> set (i_addrs i2)" if "q < DIRECT_DATA_SIZE"
    using that assms(2) by (intro nth_mem) (simp add: apart_def less_mult_imp_div_less)
  ultimately show "fbyte t i2 q = fbyte s i2 q" using v by (auto simp: fbyte_def block_byte_def)
qed

lemma kept_chain:
  assumes "kept s i t" "\<forall>a\<in>ind_blocks s b. owned s a \<and> a \<notin> set (i_addrs i)"
  shows "nth_ab t b = nth_ab s b" "ind_blocks t b = ind_blocks s b" "chain_ok s b \<Longrightarrow> chain_ok t b"
proof -
  have v: "view t c = view s c" if "c \<in> ind_blocks s b" for c using that assms by (simp add: kept_def)
  show "nth_ab t b = nth_ab s b" by (intro ext nth_ab_frame v)
  show "ind_blocks t b = ind_blocks s b" "chain_ok s b \<Longrightarrow> chain_ok t b" using chain_frame [of s b t, OF v] by auto
qed

lemma cache_ok_cong:
  assumes "nth_ab t (i_next i) = nth_ab s (i_next i)" "i_next i' = i_next i" "cache_addr_block i' = cache_addr_block i"
    "cache_offset i' = cache_offset i" "cache_raw_indirect_offset i' = cache_raw_indirect_offset i"
  shows "cache_ok t i' = cache_ok s i"
  by (simp only: cache_ok_def assms)

lemma kept_file:
  assumes "kept s i t" "apart s i i2" "wr_ok s i2"
    "wr_ok t i'"
  shows "wr_ok t i2" "cache_ok s i2 \<Longrightarrow> cache_ok t i2"
proof -
  have ind: "\<forall>a\<in>ind_blocks s (i_next i2). owned s a \<and> a \<notin> set (i_addrs i)"
    using assms(2) wr_ok_D(6) [OF assms(3)] owned_neq_NO [OF wr_ok_D(1) [OF assms(3)]] by (fastforce simp: apart_def)
  note ch = kept_chain [OF assms(1) ind]
  show "cache_ok s i2 \<Longrightarrow> cache_ok t i2" using cache_ok_cong [OF ch(1)] by simp
  have ow: "owned t a" if "a \<in> set (i_addrs i2)" "a \<noteq> NO_BLOCK" for a
    using that assms(1,2) by (auto simp: kept_def apart_def)
  have "block_ok t a" if "a \<in> set (i_addrs i2)" for a
    using ow [OF that] wr_ok_D(4) [OF assms(4), of a] by (auto simp: block_ok_def owned_def)
  then have "file_ok t i2" using wr_ok_D(2) [OF assms(3)] ch(3) by (auto simp: file_ok_def)
  moreover have "owned t a" if "a \<in> ind_blocks s (i_next i2)" for a using that ind assms(1) by (simp add: kept_def)
  ultimately show "wr_ok t i2" using assms(3,4) ow unfolding wr_ok_def ch(2) by blast
qed

section \<open>The write loop\<close>

text \<open>The fields of an inode that a write of data leaves alone.\<close>

definition same_meta :: "minode \<Rightarrow> minode \<Rightarrow> bool" where
  "same_meta i i' \<longleftrightarrow> i' = i\<lparr>i_addrs := i_addrs i', i_dirty := i_dirty i'\<rparr>"

lemma same_meta_trans: "same_meta i i' \<Longrightarrow> same_meta i' i'' \<Longrightarrow> same_meta i i''"
  unfolding same_meta_def by (cases i; cases i'; cases i'') simp

definition upd_bytes :: "(nat \<Rightarrow> u8) \<Rightarrow> nat \<Rightarrow> u8 list \<Rightarrow> nat \<Rightarrow> u8" where
  "upd_bytes f off xs q = (if off \<le> q \<and> q < off + length xs then xs ! (q - off) else f q)"

lemma upd_bytes_split:
  assumes "m \<le> length xs"
  shows "upd_bytes (upd_bytes f off (take m xs)) (off + m) (drop m xs) = upd_bytes f off xs"
proof (rule ext)
  fix q
  show "upd_bytes (upd_bytes f off (take m xs)) (off + m) (drop m xs) q = upd_bytes f off xs q"
    using assms by (cases "off + m \<le> q") (auto simp: upd_bytes_def)
qed

text \<open>Some byte of the range lies in a hole, so that the write has to allocate.\<close>

definition needs_block :: "minode \<Rightarrow> nat \<Rightarrow> nat \<Rightarrow> bool" where
  "needs_block i off sz \<longleftrightarrow> (\<exists>q. off \<le> q \<and> q < off + sz \<and> i_addrs i ! (q div BLOCK_SIZE) = NO_BLOCK)"

lemma wr_direct_loop_run:
  assumes "inodes s ino = Some i" "wr_ok s i" "length xs \<le> k" "off + length xs \<le> DIRECT_DATA_SIZE"
  shows "(\<exists>t. wr_direct_loop k ino off xs s = (Inl Task_Fail, t) \<and> needs_block i off (length xs))
    \<or> (\<exists>t i' e. wr_direct_loop k ino off xs s = (Inr (e, []), t) \<and> inodes t = (inodes s)(ino \<mapsto> i') \<and> wr_ok t i'
        \<and> same_meta i i' \<and> fbyte t i' = upd_bytes (fbyte s i) off xs \<and> kept s i t)"
  using assms
proof (induction k arbitrary: s i off xs)
  case 0
  then have "inodes s = (inodes s)(ino \<mapsto> i)" "fbyte s i = upd_bytes (fbyte s i) off xs"
    by (auto simp: upd_bytes_def fun_eq_iff)
  then show ?case using 0 by (intro disjI2 exI [of _ s] exI [of _ i] exI [of _ off]) (auto simp: same_meta_def)
next
  case (Suc k)
  show ?case
  proof (cases "xs = []")
    case True
    then have "inodes s = (inodes s)(ino \<mapsto> i)" "fbyte s i = upd_bytes (fbyte s i) off xs"
      using Suc.prems by (auto simp: upd_bytes_def fun_eq_iff)
    then show ?thesis using True Suc.prems by (intro disjI2 exI [of _ s] exI [of _ i] exI [of _ off]) (auto simp: same_meta_def)
  next
    case False
    define m where "m = min (length xs) (1024 - off mod 1024)"
    have m: "0 < m" "m \<le> length xs" "off mod 1024 + m \<le> 1024" using chunk [of "length xs" off] False by (auto simp: m_def)
    have off: "off < DIRECT_DATA_SIZE" using Suc.prems(4) False by (cases xs) auto
    have j: "off div 1024 < NUM_DIRECT_DATA" using off by (simp add: less_mult_imp_div_less)
    have bo: "off mod 1024 + length (take m xs) \<le> BLOCK_SIZE" using m by simp
    have step: "wr_direct_loop (Suc k) ino off xs = kseq (wr_direct ino (off div 1024) (off mod 1024) (take m xs))
        (wr_direct_loop k ino (off + m) (drop m xs))"
      using off False by (simp add: m_def Let_def)
    from wr_direct_run [OF Suc.prems(1,2) j bo] show ?thesis
    proof (elim disjE exE conjE)
      fix t assume t: "wr_direct ino (off div 1024) (off mod 1024) (take m xs) s = (Inl Task_Fail, t)"
        "i_addrs i ! (off div 1024) = NO_BLOCK"
      then have "needs_block i off (length xs)" using m False unfolding needs_block_def by (intro exI [of _ off]) simp
      then show ?thesis unfolding step using t(1) by auto
    next
      fix t a i'
      assume w: "wr_direct ino (off div 1024) (off mod 1024) (take m xs) s = (Inr (), t)"
          "wrote s a (block_byte s (i_addrs i ! (off div 1024))) (off mod 1024) (take m xs) t"
        and a: "i_addrs i ! (off div 1024) \<noteq> NO_BLOCK \<longrightarrow> a = i_addrs i ! (off div 1024)"
          "i_addrs i ! (off div 1024) = NO_BLOCK \<longrightarrow> \<not> blk_used s (unat a)"
          "generic_block_start (sb s) \<le> a" "a < total_blocks (sb s)"
        and i': "inodes t = (inodes s)(ino \<mapsto> i')"
          "i' = i\<lparr>i_addrs := (i_addrs i)[off div 1024 := a], i_dirty := i_dirty i'\<rparr>"
      have ii: "i_addrs i' = (i_addrs i)[off div 1024 := a]" "i_next i' = i_next i"
        by (subst i'(2), simp)+
      note f = wrote_file [OF Suc.prems(2) j bo w(2) _ _ a(3,4) ii]
      note kp = wrote_kept [OF Suc.prems(2) j w(2) a(1,2)]
      have wt: "wr_ok t i'" using f(1) a(1,2) by blast
      have "fbyte t i' q = upd_bytes (fbyte s i) off (take m xs) q" for q
        using f(2) [of q] a(1,2) by (simp add: upd_bytes_def)
      then have ft: "fbyte t i' = upd_bytes (fbyte s i) off (take m xs)" by (rule ext)
      have sm: "same_meta i i'" unfolding same_meta_def by (subst i'(2)) (simp add: ii(1))
      have "inodes t ino = Some i'" "length (drop m xs) \<le> k" "off + m + length (drop m xs) \<le> DIRECT_DATA_SIZE"
        using i'(1) Suc.prems(3,4) m by auto
      from Suc.IH [OF this(1) wt this(2,3)] show ?thesis
      proof (elim disjE exE conjE)
        fix u assume u: "wr_direct_loop k ino (off + m) (drop m xs) t = (Inl Task_Fail, u)"
          "needs_block i' (off + m) (length (drop m xs))"
        then obtain q where q: "off + m \<le> q" "q < off + length xs" "i_addrs i' ! (q div 1024) = NO_BLOCK"
          using m(2) by (auto simp: needs_block_def)
        have "q div 1024 < NUM_DIRECT_DATA" using q(2) Suc.prems(4) by (simp add: less_mult_imp_div_less)
        moreover have "a \<noteq> NO_BLOCK" using a(4) by auto
        ultimately have "i_addrs i ! (q div 1024) = NO_BLOCK"
          using q(3) wr_ok_D(3) [OF Suc.prems(2)] by (cases "q div 1024 = off div 1024") (auto simp: ii)
        then have "needs_block i off (length xs)" using q unfolding needs_block_def by (intro exI [of _ q]) auto
        then show ?thesis unfolding step using w(1) u(1) by auto
      next
        fix u i'' e
        assume u: "wr_direct_loop k ino (off + m) (drop m xs) t = (Inr (e, []), u)" "inodes u = (inodes t)(ino \<mapsto> i'')"
          "wr_ok u i''" "same_meta i' i''" "fbyte u i'' = upd_bytes (fbyte t i') (off + m) (drop m xs)" "kept t i' u"
        have "wr_direct_loop (Suc k) ino off xs s = (Inr (e, []), u)" unfolding step using w(1) u(1) by simp
        moreover have "inodes u = (inodes s)(ino \<mapsto> i'')" using u(2) i'(1) by simp
        moreover have "fbyte u i'' = upd_bytes (fbyte s i) off xs" using u(5) ft upd_bytes_split [OF m(2)] by simp
        moreover have "kept s i u"
          by (rule kept_trans [OF kp(1) u(6) _ kp(2)]) (simp_all add: ii set_update_subset_insert)
        ultimately show ?thesis using u(3) same_meta_trans [OF sm u(4)] by blast
      qed
    qed
  qed
qed

lemma inode_write_run:
  assumes "inodes s ino = Some i" "i_valid i" "wr_ok s i" "off + length xs \<le> DIRECT_DATA_SIZE"
  shows "(\<exists>t. inode_write ino off xs s = (Inl Task_Fail, t) \<and> needs_block i off (length xs))
    \<or> (\<exists>t i'. inode_write ino off xs s = (Inr (length xs), t) \<and> inodes t ino = Some i' \<and> wr_ok t i'
        \<and> fbyte t i' = upd_bytes (fbyte s i) off xs
        \<and> unat (i_size i') = max (unat (i_size i)) (off + length xs) \<and> i_next i' = i_next i
        \<and> i_valid i' \<and> i_nlinks i' = i_nlinks i \<and> i_type i' = i_type i \<and> cache_ok t i' = cache_ok s i
        \<and> inodes t = (inodes s)(ino \<mapsto> i') \<and> kept s i t)"
proof -
  have load: "inode_load ino s = (Inr (), s)" by (rule inode_load_valid [OF assms(1,2)])
  from wr_direct_loop_run [OF assms(1,3) order_refl assms(4)] show ?thesis
  proof (elim disjE exE conjE)
    fix t assume "wr_direct_loop (length xs) ino off xs s = (Inl Task_Fail, t)" "needs_block i off (length xs)"
    then show ?thesis using load by (auto simp: inode_write_def data_wr_def)
  next
    fix t i' e
    assume t: "wr_direct_loop (length xs) ino off xs s = (Inr (e, []), t)" "inodes t = (inodes s)(ino \<mapsto> i')" "wr_ok t i'"
      "same_meta i i'" "fbyte t i' = upd_bytes (fbyte s i) off xs" "kept s i t"
    have sm: "i_size i' = i_size i" "i_next i' = i_next i" "i_valid i' = i_valid i" "i_nlinks i' = i_nlinks i"
      "i_type i' = i_type i" "cache_addr_block i' = cache_addr_block i"
    "cache_offset i' = cache_offset i" "cache_raw_indirect_offset i' = cache_raw_indirect_offset i" using t(4) unfolding same_meta_def by (cases i; cases i'; simp)+
    have w: "data_wr ino off xs s = (Inr (length xs), t)" using t(1) by (simp add: data_wr_def)
    have "\<forall>a\<in>ind_blocks s (i_next i). owned s a \<and> a \<notin> set (i_addrs i)" using assms(3) by (auto simp: wr_ok_def)
    note nt = kept_chain(1) [OF t(6) this]
    have co: "cache_ok t i' = cache_ok s i" by (rule cache_ok_cong [OF nt]) (use sm in simp_all)
    show ?thesis
    proof (cases "unat (i_size i) < off + length xs")
      case False
      then have "inode_write ino off xs s = (Inr (length xs), t)"
        using load w t(2) sm(1) by (simp add: inode_write_def buf_simps)
      then show ?thesis using t False sm assms(2) co by (intro disjI2 exI [of _ t] exI [of _ i']) auto
    next
      case True
      define i2 where "i2 = i'\<lparr>i_size := of_nat (off + length xs), i_dirty := True\<rparr>"
      define u where "u = t\<lparr>inodes := (inodes t)(ino \<mapsto> i2)\<rparr>"
      have "inode_write ino off xs s = (Inr (length xs), u)"
        using load w t(2) sm(1) True by (simp add: inode_write_def buf_simps ino_mark_dirty_def u_def i2_def)
      moreover have v: "view u = view t" "sb u = sb t" "i_addrs i2 = i_addrs i'" "i_next i2 = i_next i'"
        by (simp_all add: u_def i2_def buf_simps)
      moreover have "wr_ok u i2"
        using t(3) wr_ok_cong [OF v] by simp
      moreover have "fbyte u i2 = fbyte t i'"
        using spec_cong(1,3) [OF v(1)] by (simp add: fun_eq_iff fbyte_def v)
      moreover have "unat (of_nat (off + length xs) :: u32) = off + length xs"
        using assms(4) by (intro unat_of_nat_lt) simp
      moreover have "blk_used u = blk_used t" by (intro ext) (simp only: blk_used_def v(1))
      moreover have "cache_ok u i2 = cache_ok s i"
        by (rule cache_ok_cong) (use sm nt nth_ab_cong [OF v(1)] in \<open>simp_all add: i2_def fun_eq_iff\<close>)
      moreover have "kept s i u" using t(6) v(1,2) \<open>blk_used u = blk_used t\<close> by (simp add: kept_def u_def owned_def)
      ultimately show ?thesis using t(2,5) True sm assms(2)
        by (intro disjI2 exI [of _ u] exI [of _ i2]) (auto simp: i2_def u_def)
    qed
  qed
qed

section \<open>Properties\<close>

lemma demo_bits: "n < 5 \<Longrightarrow> blk_used demo_fs n"
proof -
  assume n: "n < 5"
  have "(31::u8) = mask 5" by (simp add: mask_eq_exp_minus_1)
  then have "bit (31::u8) n" using n by (simp only: bit_mask_iff) simp
  then have "bm_bit (words64 (31 # replicate 1023 0)) n"
    using n bit_words64 [of n "31 # replicate 1023 0"] by (simp add: bm_bit_def)
  moreover have "view demo_fs 2 = Some (31 # replicate 1023 0)" by (simp add: view_def demo_fs_def)
  ultimately show ?thesis using n by (simp add: blk_used_def)
qed

lemma demo_wr_ok: "wr_ok demo_fs demo_inode"
proof -
  have g: "generic_block_start (sb demo_fs) = 3" "total_blocks (sb demo_fs) = 100" "next_free_bitmap (sb demo_fs) = 2"
    by (simp_all add: demo_fs_def small_fs_def)
  have al: "alloc_ok demo_fs" using demo_bits demo_view by (simp add: alloc_ok_def g)
  have "ind_blocks demo_fs NO_BLOCK = {}" by (simp add: ind_blocks_def nth_ab_NO)
  moreover have "owned demo_fs 4" using demo_bits [of 4] by (simp add: owned_def g)
  moreover have "j = k" if "j < 13" "k < 13" "(4 # replicate 12 (- 1 :: u32)) ! j = (4 # replicate 12 (- 1)) ! k"
    "(4 # replicate 12 (- 1 :: u32)) ! j \<noteq> - 1" for j k
    using that by (cases j; cases k) auto
  ultimately show ?thesis
    using al demo_file_ok(2) demo_view by (auto simp: wr_ok_def demo_inode_def)
qed



end
