(* ===== verification/Mem_Utils.thy ===== *)
theory Mem_Utils
  imports Prelude "HOL-Library.List_Lexorder"
begin

text \<open>
  The memory and string routines of \<open>src/os/mm/utils.cc\<close>. The copying routines work on a memory of
  bytes, \<open>None\<close> where an address is not mapped, since their source and target may overlap. The
  string routines read one object each: a pointer is the list of the bytes from it to the end of
  the object, and a read behind the last byte is undefined (\<open>None\<close>).
\<close>

section \<open>Copying\<close>

type_synonym mem = "nat \<Rightarrow> u8 option"

definition mem_store :: "mem \<Rightarrow> nat \<Rightarrow> u8 \<Rightarrow> mem option" where
  "mem_store m a v = (case m a of None \<Rightarrow> None | Some _ \<Rightarrow> Some (m(a \<mapsto> v)))"

definition copy_byte :: "nat \<Rightarrow> nat \<Rightarrow> mem \<Rightarrow> mem option" where
  "copy_byte d s m = (case m s of None \<Rightarrow> None | Some v \<Rightarrow> mem_store m d v)"

text \<open>The loop from \<open>0\<close> up (\<open>k\<close> bytes left, at index \<open>i\<close>) and the loop from \<open>n\<close> down.\<close>

primrec copy_up :: "nat \<Rightarrow> nat \<Rightarrow> nat \<Rightarrow> nat \<Rightarrow> mem \<Rightarrow> mem option" where
  "copy_up 0 i d s m = Some m"
| "copy_up (Suc k) i d s m = (case copy_byte (d + i) (s + i) m of None \<Rightarrow> None | Some m' \<Rightarrow> copy_up k (Suc i) d s m')"

primrec copy_down :: "nat \<Rightarrow> nat \<Rightarrow> nat \<Rightarrow> mem \<Rightarrow> mem option" where
  "copy_down 0 d s m = Some m"
| "copy_down (Suc i) d s m = (case copy_byte (d + i) (s + i) m of None \<Rightarrow> None | Some m' \<Rightarrow> copy_down i d s m')"

definition memmove :: "nat \<Rightarrow> nat \<Rightarrow> nat \<Rightarrow> mem \<Rightarrow> mem option" where
  "memmove d s n m = (if d < s then copy_up n 0 d s m else copy_down n d s m)"

definition memcpy :: "nat \<Rightarrow> nat \<Rightarrow> nat \<Rightarrow> mem \<Rightarrow> mem option" where
  "memcpy d s n m = copy_up n 0 d s m"

primrec set_up :: "nat \<Rightarrow> nat \<Rightarrow> nat \<Rightarrow> u8 \<Rightarrow> mem \<Rightarrow> mem option" where
  "set_up 0 i p uc m = Some m"
| "set_up (Suc k) i p uc m = (case mem_store m (p + i) uc of None \<Rightarrow> None | Some m' \<Rightarrow> set_up k (Suc i) p uc m')"

definition memset :: "nat \<Rightarrow> int \<Rightarrow> nat \<Rightarrow> mem \<Rightarrow> mem option" where
  "memset p c n m = set_up n 0 p (word_of_int c) m"

section \<open>Searching and comparing\<close>

text \<open>\<open>Some None\<close> is the null pointer, \<open>Some (Some i)\<close> the pointer \<open>i\<close> bytes into the object.\<close>

primrec memchr_at :: "nat \<Rightarrow> nat \<Rightarrow> u8 \<Rightarrow> u8 list \<Rightarrow> nat option option" where
  "memchr_at 0 i uc p = Some None"
| "memchr_at (Suc k) i uc p = (case arr_get p i of
      None \<Rightarrow> None
    | Some b \<Rightarrow> if b = uc then Some (Some i) else memchr_at k (Suc i) uc p)"

definition memchr :: "u8 list \<Rightarrow> int \<Rightarrow> nat \<Rightarrow> nat option option" where
  "memchr p c n = memchr_at n 0 (word_of_int c) p"

fun strlen :: "u8 list \<Rightarrow> nat option" where
  "strlen [] = None"
| "strlen (b # p) = (if b = 0 then Some 0 else map_option Suc (strlen p))"

definition byte_diff :: "u8 \<Rightarrow> u8 \<Rightarrow> int" where
  "byte_diff a b = uint a - uint b"

fun memcmp :: "u8 list \<Rightarrow> u8 list \<Rightarrow> nat \<Rightarrow> int option" where
  "memcmp p q 0 = Some 0"
| "memcmp (a # p) (b # q) (Suc n) = (if a \<noteq> b then Some (byte_diff a b) else memcmp p q n)"
| "memcmp _ _ (Suc n) = None"

fun strcmp :: "u8 list \<Rightarrow> u8 list \<Rightarrow> int option" where
  "strcmp (a # p) (b # q) = (if a \<noteq> 0 \<and> a = b then strcmp p q else Some (byte_diff a b))"
| "strcmp _ _ = None"

fun strncmp :: "u8 list \<Rightarrow> u8 list \<Rightarrow> nat \<Rightarrow> int option" where
  "strncmp p q 0 = Some 0"
| "strncmp (a # p) (b # q) (Suc n) = (if a \<noteq> 0 \<and> a = b then strncmp p q n else Some (byte_diff a b))"
| "strncmp _ _ (Suc n) = None"

section \<open>Copying strings\<close>

text \<open>The second loop of \<open>strncpy\<close> pads with zeros; the functions return the new target object.\<close>

fun zero_fill :: "u8 list \<Rightarrow> nat \<Rightarrow> u8 list option" where
  "zero_fill s 0 = Some s"
| "zero_fill (x # s) (Suc n) = map_option ((#) 0) (zero_fill s n)"
| "zero_fill [] (Suc n) = None"

fun strncpy :: "u8 list \<Rightarrow> u8 list \<Rightarrow> nat \<Rightarrow> u8 list option" where
  "strncpy s t 0 = Some s"
| "strncpy (x # s) (b # t) (Suc n) = map_option ((#) b) (if b = 0 then zero_fill s n else strncpy s t n)"
| "strncpy _ _ (Suc n) = None"

fun safe_loop :: "u8 list \<Rightarrow> u8 list \<Rightarrow> nat \<Rightarrow> u8 list option" where
  "safe_loop [] t n = None"
| "safe_loop (x # s) t 0 = Some (0 # s)"
| "safe_loop (x # s) [] (Suc n) = None"
| "safe_loop (x # s) (b # t) (Suc n) = (if b = 0
     then (case s of [] \<Rightarrow> None | y # s' \<Rightarrow> Some (0 # 0 # s')) else map_option ((#) b) (safe_loop s t n))"

definition safestrcpy :: "u8 list \<Rightarrow> u8 list \<Rightarrow> int \<Rightarrow> u8 list option" where
  "safestrcpy s t n = (if n \<le> 0 then Some s else safe_loop s t (nat (n - 1)))"

definition strndup :: "u8 list \<Rightarrow> nat \<Rightarrow> u8 list option" where
  "strndup s n = (if n \<le> length s then Some (take n s @ [0]) else None)"

definition strdup :: "u8 list \<Rightarrow> u8 list option" where
  "strdup s = (case strlen s of None \<Rightarrow> None | Some n \<Rightarrow> strndup s n)"

section \<open>Lemmas on copying\<close>

definition mapped :: "mem \<Rightarrow> nat \<Rightarrow> nat \<Rightarrow> bool" where
  "mapped m a n \<longleftrightarrow> (\<forall>i<n. m (a + i) \<noteq> None)"

definition moved :: "mem \<Rightarrow> nat \<Rightarrow> nat \<Rightarrow> nat \<Rightarrow> mem" where
  "moved m d s n = (\<lambda>a. if d \<le> a \<and> a < d + n then m (s + (a - d)) else m a)"

lemma copy_byte_run:
  assumes "m s \<noteq> None" "m d \<noteq> None"
  shows "copy_byte d s m = Some (m(d := m s))"
  using assms by (auto simp: copy_byte_def mem_store_def)

lemma copy_up_run:
  assumes "mapped m s (i + k)" "mapped m d (i + k)" "d \<le> s \<or> s + i + k \<le> d"
  shows "copy_up k i d s (moved m d s i) = Some (moved m d s (i + k))"
  using assms
proof (induction k arbitrary: i)
  case (Suc k)
  have m: "m (s + i) \<noteq> None" "m (d + i) \<noteq> None"
    using Suc.prems(1,2) by (simp_all add: mapped_def)
  have "moved m d s i (s + i) = m (s + i)" "moved m d s i (d + i) = m (d + i)"
    using Suc.prems(3) by (auto simp: moved_def)
  moreover have "(moved m d s i)(d + i := m (s + i)) = moved m d s (Suc i)"
    by (auto simp: moved_def fun_eq_iff)
  ultimately have "copy_byte (d + i) (s + i) (moved m d s i) = Some (moved m d s (Suc i))"
    using m by (simp add: copy_byte_run)
  moreover have "copy_up k (Suc i) d s (moved m d s (Suc i)) = Some (moved m d s (Suc i + k))"
    using Suc.IH [of "Suc i"] Suc.prems by simp
  ultimately show ?case by simp
qed simp

definition moved_hi :: "mem \<Rightarrow> nat \<Rightarrow> nat \<Rightarrow> nat \<Rightarrow> nat \<Rightarrow> mem" where
  "moved_hi m d s i n = (\<lambda>a. if d + i \<le> a \<and> a < d + n then m (s + (a - d)) else m a)"

lemma copy_down_run:
  assumes "mapped m s n" "mapped m d n" "s \<le> d" "i \<le> n"
  shows "copy_down i d s (moved_hi m d s i n) = Some (moved m d s n)"
  using assms(4)
proof (induction i)
  case 0
  then show ?case by (simp add: moved_hi_def moved_def)
next
  case (Suc i)
  have m: "m (s + i) \<noteq> None" "m (d + i) \<noteq> None"
    using assms(1,2) Suc.prems by (simp_all add: mapped_def)
  have "moved_hi m d s (Suc i) n (s + i) = m (s + i)" "moved_hi m d s (Suc i) n (d + i) = m (d + i)"
    using assms(3) by (auto simp: moved_hi_def)
  moreover have "(moved_hi m d s (Suc i) n)(d + i := m (s + i)) = moved_hi m d s i n"
    using Suc.prems by (auto simp: moved_hi_def fun_eq_iff le_eq_less_or_eq Suc_le_eq)
  ultimately show ?case using m Suc by (simp add: copy_byte_run)
qed

section \<open>Lemmas on strings\<close>

text \<open>The string at a pointer, and that it ends inside the object.\<close>

definition cstr :: "u8 list \<Rightarrow> u8 list" where
  "cstr p = takeWhile (\<lambda>b. b \<noteq> 0) p"

definition terminated :: "u8 list \<Rightarrow> bool" where
  "terminated p \<longleftrightarrow> 0 \<in> set p"

lemma terminated_simps [simp]: "\<not> terminated []" "terminated (b # p) \<longleftrightarrow> b = 0 \<or> terminated p"
  by (auto simp: terminated_def)

lemma cstr_simps [simp]: "cstr [] = []" "cstr (b # p) = (if b = 0 then [] else b # cstr p)"
  by (simp_all add: cstr_def)

lemma strlen_run: "strlen p = (if terminated p then Some (length (cstr p)) else None)"
  by (induction p) auto

lemma byte_diff_sign [simp]:
  "byte_diff a b = 0 \<longleftrightarrow> a = b" "byte_diff a b < 0 \<longleftrightarrow> a < b" "0 < byte_diff a b \<longleftrightarrow> b < a"
  by (auto simp: byte_diff_def word_less_def word_uint_eq_iff)

definition cmp_sign :: "int \<Rightarrow> u8 list \<Rightarrow> u8 list \<Rightarrow> bool" where
  "cmp_sign r x y \<longleftrightarrow> (r = 0 \<longleftrightarrow> x = y) \<and> (r < 0 \<longleftrightarrow> x < y) \<and> (0 < r \<longleftrightarrow> y < x)"

lemma strcmp_run:
  "terminated p \<Longrightarrow> terminated q \<Longrightarrow> \<exists>r. strcmp p q = Some r \<and> cmp_sign r (cstr p) (cstr q)"
proof (induction p q rule: strcmp.induct)
  case (1 a p b q)
  have "0 < a" if "a \<noteq> 0" for a :: u8 using that by (simp add: word_gt_0)
  then show ?case using 1 by (cases "a \<noteq> 0 \<and> a = b") (auto simp: cmp_sign_def neq_Nil_conv)
qed auto

lemma strncmp_run:
  "terminated p \<Longrightarrow> terminated q \<Longrightarrow> \<exists>r. strncmp p q n = Some r \<and> cmp_sign r (take n (cstr p)) (take n (cstr q))"
proof (induction p q n rule: strncmp.induct)
  case (2 a p b q n)
  have "0 < a" if "a \<noteq> 0" for a :: u8 using that by (simp add: word_gt_0)
  then show ?case using 2 by (cases "a \<noteq> 0 \<and> a = b") (auto simp: cmp_sign_def neq_Nil_conv)
qed (auto simp: cmp_sign_def)

lemma zero_fill_run: "zero_fill s n = (if n \<le> length s then Some (replicate n 0 @ drop n s) else None)"
  by (induction s n rule: zero_fill.induct) auto

lemma strncpy_run:
  assumes "terminated t" "n \<le> length s"
  shows "strncpy s t n = Some (take n (cstr t @ replicate n 0) @ drop n s)"
  using assms
  by (induction s t n rule: strncpy.induct) (auto simp: zero_fill_run replicate_Suc [symmetric] simp del: replicate_Suc)

lemma safe_loop_run:
  assumes "terminated t" "n < length s"
  shows "\<exists>r. safe_loop s t n = Some r \<and> length r = length s \<and> cstr r = take n (cstr t) \<and> drop (Suc n) r = drop (Suc n) s"
  using assms
proof (induction s t n rule: safe_loop.induct)
  case (4 x s b t n)
  then show ?case by (cases s) auto
qed auto

lemma memmove_run:
  assumes "mapped m s n" "mapped m d n"
  shows "memmove d s n m = Some (moved m d s n)"
proof (cases "d < s")
  case True
  have "moved m d s 0 = m" by (auto simp: moved_def fun_eq_iff)
  then show ?thesis using copy_up_run [of m s 0 n d] assms True by (simp add: memmove_def)
next
  case False
  have "moved_hi m d s n n = m" by (auto simp: moved_hi_def fun_eq_iff)
  then show ?thesis using copy_down_run [of m s n d n] assms False by (simp add: memmove_def)
qed

definition filled :: "mem \<Rightarrow> nat \<Rightarrow> u8 \<Rightarrow> nat \<Rightarrow> mem" where
  "filled m p c n = (\<lambda>a. if p \<le> a \<and> a < p + n then Some c else m a)"

lemma set_up_run:
  assumes "mapped m p (i + k)"
  shows "set_up k i p c (filled m p c i) = Some (filled m p c (i + k))"
  using assms
proof (induction k arbitrary: i)
  case (Suc k)
  have "m (p + i) \<noteq> None" using Suc.prems by (simp add: mapped_def)
  then have "mem_store (filled m p c i) (p + i) c = Some (filled m p c (Suc i))"
    by (auto simp: mem_store_def filled_def fun_eq_iff split: option.splits)
  then show ?case using Suc.IH [of "Suc i"] Suc.prems by simp
qed simp

lemma memset_run:
  assumes "mapped m p n"
  shows "memset p c n m = Some (filled m p (word_of_int c) n)"
proof -
  have "filled m p (word_of_int c) 0 = m" by (auto simp: filled_def fun_eq_iff)
  then show ?thesis using set_up_run [of m p 0 n "word_of_int c"] assms by (simp add: memset_def)
qed

section \<open>Properties\<close>

text \<open>
  \<open>memmove\<close> copies correctly whatever the overlap of source and target: with both ranges
  mapped it succeeds, the target range holds the old bytes of the source range, and nothing else
  changes.
\<close>

lemma memmove_handles_overlap:
  assumes "mapped m s n" "mapped m d n"
  shows "memmove d s n m = Some (moved m d s n)"
  using assms by (rule memmove_run)

definition demo_mem :: mem where
  "demo_mem a = (if a < 8 then Some (of_nat a) else None)"

lemma memmove_handles_overlap_witness:
  "memmove 2 0 5 demo_mem = Some (moved demo_mem 2 0 5) \<and> map (moved demo_mem 2 0 5) [0..<8] = map Some [0, 1, 0, 1, 2, 3, 4, 7]"
proof -
  have "memmove 2 0 5 demo_mem = Some (moved demo_mem 2 0 5)"
    by (rule memmove_handles_overlap) (simp_all add: mapped_def demo_mem_def)
  then show ?thesis by (simp add: moved_def demo_mem_def upt_rec)
qed

text \<open>
  \<open>strcmp\<close> and \<open>strncmp\<close> on terminated strings stay inside them and return a number whose sign is
  the lexicographic order of the strings, respectively of their first \<open>n\<close> characters, zero exactly
  when these are equal.
\<close>

lemma strcmp_is_lexicographic:
  assumes "terminated p" "terminated q"
  shows "(\<exists>r. strcmp p q = Some r \<and> cmp_sign r (cstr p) (cstr q))
    \<and> (\<exists>r. strncmp p q n = Some r \<and> cmp_sign r (take n (cstr p)) (take n (cstr q)))"
  using strcmp_run [OF assms] strncmp_run [OF assms] by blast

lemma strcmp_is_lexicographic_witness:
  "(\<exists>r. strcmp [97, 98, 0] [97, 99, 0] = Some r \<and> cmp_sign r (cstr [97, 98, 0]) (cstr [97, 99, 0]))
    \<and> (\<exists>r. strncmp [97, 98, 0] [97, 99, 0] 1 = Some r \<and> cmp_sign r (take 1 (cstr [97, 98, 0])) (take 1 (cstr [97, 99, 0])))"
  by (rule strcmp_is_lexicographic) simp_all

text \<open>
  \<open>safestrcpy\<close> writes only the first \<open>n\<close> bytes of its target, which then
  holds a terminated string, the source string cut to \<open>n - 1\<close> characters; \<open>strncpy\<close> writes exactly
  the first \<open>n\<close> characters of the source, padded with zeros, and nothing behind them.
\<close>

lemma string_copies_bounded:
  assumes "terminated t" "0 < n" "n \<le> length s"
  shows "(\<exists>r. safestrcpy s t (int n) = Some r \<and> length r = length s \<and> cstr r = take (n - 1) (cstr t) \<and> drop n r = drop n s)
    \<and> strncpy s t n = Some (take n (cstr t @ replicate n 0) @ drop n s)"
  using strncpy_run [OF assms(1,3)] safe_loop_run [OF assms(1), of "n - 1" s] assms(2,3)
  by (auto simp: safestrcpy_def nat_diff_distrib)

lemma string_copies_bounded_witness:
  "(\<exists>r. safestrcpy [9, 9, 9, 9] [97, 98, 99, 0] (int 3) = Some r \<and> length r = length [9::u8, 9, 9, 9]
      \<and> cstr r = take (3 - 1) (cstr [97, 98, 99, 0]) \<and> drop 3 r = drop 3 [9, 9, 9, 9])
    \<and> strncpy [9, 9, 9, 9] [97, 98, 99, 0] 3
      = Some (take 3 (cstr [97, 98, 99, 0] @ replicate 3 0) @ drop 3 [9, 9, 9, 9])"
  by (rule string_copies_bounded) simp_all

end
