(* ===== verification/Nfs_Dir.thy ===== *)
theory Nfs_Dir
  imports Nfs_Write Mem_Utils
begin

text \<open>
  Directories and the inode table: \<open>alloc_inode\<close>, \<open>free_inode\<close>, \<open>get_inode\<close> of
  \<open>src/os/fs/nfs/nfs.cc\<close> and the directory operations of \<open>src/os/fs/nfs/inode.cc\<close>. A dentry argument
  is its name and the inode it is bound to; an operation that binds it (\<open>set_inode\<close>) returns the
  new binding. Stack variables the code leaves partly uninitialised are arguments called \<open>junk\<close>.
\<close>

section \<open>Inodes\<close>

definition new_minode :: minode where
  "new_minode = \<lparr>i_valid = False, i_dirty = False, i_size = 0, i_nlinks = 0, i_perm = 0, i_type = 0,
     i_addrs = replicate NUM_DIRECT_DATA 0, i_next = 0,
     cache_raw_indirect_offset = - 1, cache_offset = - 1, cache_addr_block = - 1\<rparr>"

definition get_inode :: "u32 \<Rightarrow> u32 option nm" where
  "get_inode n = kbind (kget unmounted) (\<lambda>u.
    if u then kret None
    else kseq (kmod (inodes_update (\<lambda>m. if m n = None then m(n \<mapsto> new_minode) else m))) (
      kret (Some n)))"

definition next_free :: "dinode \<Rightarrow> u32 \<Rightarrow> u32" where
  "next_free e n = (if di_type e = ITYPE_NEXT_FREE_INODE then di_size e else n + 1)"

definition alloc_inode :: "u32 nm" where
  "alloc_inode = kseq (inode_load INODE_TABLE_NUMBER) (
    kbind (inode_read INODE_TABLE_NUMBER 0 64) (\<lambda>b0.
    if di_type (dinode_of b0) \<noteq> ITYPE_NEXT_FREE_INODE then kthrow Task_Fail
    else kbind (inode_read INODE_TABLE_NUMBER (unat (di_size (dinode_of b0)) * 64) 64) (\<lambda>b1.
      kseq (inode_write INODE_TABLE_NUMBER 0 (dinode_bytes ((dinode_of b0)\<lparr>di_size := next_free (dinode_of b1) (di_size (dinode_of b0))\<rparr>))) (
      kbind (get_inode (di_size (dinode_of b0))) (\<lambda>p.
      kbind (kopt p) (\<lambda>n.
      kseq (init_data n) (
      kseq (on_sb (\<lambda>b. b\<lparr>ninodes := ninodes b + 1\<rparr>)) (
      kseq (kmod (sb_dirty_update (\<lambda>_. True))) (
      kret n)))))))))"

definition free_inode :: "dinode \<Rightarrow> u32 \<Rightarrow> unit nm" where
  "free_inode junk inode_index = kseq (inode_load INODE_TABLE_NUMBER) (
    kbind (inode_read INODE_TABLE_NUMBER 0 64) (\<lambda>b0.
    if di_type (dinode_of b0) \<noteq> ITYPE_NEXT_FREE_INODE then kthrow Task_Fail
    else kseq (inode_write INODE_TABLE_NUMBER 0 (dinode_bytes ((dinode_of b0)\<lparr>di_size := inode_index\<rparr>))) (
      kseq (inode_write INODE_TABLE_NUMBER (unat inode_index * 64)
        (dinode_bytes (junk\<lparr>di_size := di_size (dinode_of b0), di_type := ITYPE_NEXT_FREE_INODE\<rparr>))) (
      kseq (on_sb (\<lambda>b. b\<lparr>ninodes := ninodes b - 1\<rparr>)) (
      kmod (sb_dirty_update (\<lambda>_. True)))))))"

definition put_inode :: "u32 \<Rightarrow> unit nm" where
  "put_inode ino = inode_flush ino"

section \<open>Directory entries\<close>

record dref =
  dname :: "u8 list"
  dino :: "u32 option"

abbreviation (input) EINVAL :: int where "EINVAL \<equiv> 22"
abbreviation (input) EPERM :: int where "EPERM \<equiv> 1"

text \<open>
  The search of \<open>lookup\<close> and \<open>unlink\<close>: the offset and the contents of the first entry in use whose
  name is \<open>nm\<close>, \<open>None\<close> at the end of the directory. The offset is a \<open>uint32\<close>; \<open>size / 32 + 1\<close>
  rounds reach the end.
\<close>

primrec dir_scan :: "nat \<Rightarrow> u32 \<Rightarrow> u8 list \<Rightarrow> nat \<Rightarrow> (nat \<times> dirent) option nm" where
  "dir_scan 0 ino nm off = kthrow Out_Of_Fuel"
| "dir_scan (Suc k) ino nm off = kbind (ino_get ino) (\<lambda>i.
  if off \<ge> unat (i_size i) then kret None
    else kbind (inode_read ino off 32) (\<lambda>bs.
      if length bs \<noteq> 32 then kret None
      else if de_inode (dirent_of bs) = 0 then dir_scan k ino nm ((off + 32) mod 2 ^ 32)
      else kbind (kopt (strcmp (de_name (dirent_of bs)) (nm @ [0]))) (\<lambda>c.
        if c = 0 then kret (Some (off, dirent_of bs)) else dir_scan k ino nm ((off + 32) mod 2 ^ 32))))"

definition dir_fuel :: "minode \<Rightarrow> nat" where
  "dir_fuel i = unat (i_size i) div 32 + 2"

definition lookup :: "u32 \<Rightarrow> dref \<Rightarrow> (int \<times> dref) nm" where
  "lookup ino d = (if length (dname d) > MAX_NAME_LENGTH then kret (- EINVAL, d)
    else kseq (inode_load ino) (
      kbind (ino_get ino) (\<lambda>i.
      kbind (dir_scan (dir_fuel i) ino (dname d) 0) (\<lambda>r.
      case r of
        None \<Rightarrow> kret (- 1, d)
      | Some (off, e) \<Rightarrow> kbind (get_inode (de_inode e)) (\<lambda>p.
        kbind (kopt p) (\<lambda>n.
        kseq (inode_load n) (
        kret (0, d\<lparr>dino := Some n\<rparr>))))))))"

text \<open>The first free slot, or the end of the directory (\<open>None\<close>: a short read, \<open>-1\<close>).\<close>

primrec slot_scan :: "nat \<Rightarrow> u32 \<Rightarrow> nat \<Rightarrow> nat option nm" where
  "slot_scan 0 ino off = kthrow Out_Of_Fuel"
| "slot_scan (Suc k) ino off = kbind (ino_get ino) (\<lambda>i.
  if off \<ge> unat (i_size i) then kret (Some off)
    else kbind (inode_read ino off 32) (\<lambda>bs.
      if length bs \<noteq> 32 then kret None
      else if de_inode (dirent_of bs) = 0 then kret (Some off)
      else slot_scan k ino (off + 32)))"

text \<open>\<open>strncpy\<close> copies the name without its terminator, the next statement adds it.\<close>

definition fill_name :: "u8 list \<Rightarrow> u8 list \<Rightarrow> u8 list option" where
  "fill_name junk nm = (case strncpy junk (nm @ [0]) (length nm) of
      None \<Rightarrow> None
    | Some x \<Rightarrow> arr_set x (length nm) 0)"

definition link_inode :: "u8 list \<Rightarrow> u32 \<Rightarrow> dref \<Rightarrow> u32 \<Rightarrow> (int \<times> dref) nm" where
  "link_inode junk ino d n = kseq (inode_load n) (
    kbind (kopt (fill_name junk (dname d))) (\<lambda>nm.
    kseq (ino_mod n (\<lambda>i. i\<lparr>i_nlinks := i_nlinks i + 1\<rparr>)) (
    kseq (ino_mark_dirty n) (
    kbind (ino_get ino) (\<lambda>i.
    kbind (slot_scan (dir_fuel i) ino 0) (\<lambda>r.
    case r of
      None \<Rightarrow> kret (- 1, d\<lparr>dino := Some n\<rparr>)
    | Some off \<Rightarrow> kseq (inode_write ino off (dirent_bytes \<lparr>de_inode = n, de_name = nm\<rparr>)) (
      kret (0, d\<lparr>dino := Some n\<rparr>))))))))"

text \<open>\<open>create\<close> and \<open>mkdir\<close> differ in the type of the new inode.\<close>

definition make_node :: "u8 \<Rightarrow> u8 list \<Rightarrow> u32 \<Rightarrow> dref \<Rightarrow> (int \<times> dref) nm" where
  "make_node ty junk ino d = (if length (dname d) > MAX_NAME_LENGTH then kret (- EINVAL, d)
    else kseq (inode_load ino) (
      kbind alloc_inode (\<lambda>n.
      kseq (inode_load n) (
      kseq (ino_mod n (i_type_update (\<lambda>_. ty))) (
      kseq (ino_mark_dirty n) (
      link_inode junk ino d n))))))"

definition create :: "u8 list \<Rightarrow> u32 \<Rightarrow> dref \<Rightarrow> (int \<times> dref) nm" where
  "create = make_node ITYPE_FILE"

definition mkdir :: "u8 list \<Rightarrow> u32 \<Rightarrow> dref \<Rightarrow> (int \<times> dref) nm" where
  "mkdir = make_node ITYPE_DIR"

definition link :: "u8 list \<Rightarrow> u32 \<Rightarrow> dref \<Rightarrow> dref \<Rightarrow> (int \<times> dref) nm" where
  "link junk ino old d = (if length (dname d) > MAX_NAME_LENGTH then kret (- EINVAL, d)
    else kseq (inode_load ino) (
      kbind (kopt (dino old)) (\<lambda>n.
      link_inode junk ino d n)))"

definition symlink :: "u32 \<Rightarrow> dref \<Rightarrow> dref \<Rightarrow> int nm" where
  "symlink ino old d = kret (- EPERM)"

definition rmdir :: "u32 \<Rightarrow> dref \<Rightarrow> int nm" where
  "rmdir ino d = kret (- EPERM)"

text \<open>Dropping a link; the last one frees the blocks and the inode.\<close>

definition drop_link :: "nat \<Rightarrow> dinode \<Rightarrow> u32 \<Rightarrow> unit nm" where
  "drop_link k junk n = kseq (inode_load n) (
    kseq (ino_mod n (\<lambda>i. i\<lparr>i_nlinks := i_nlinks i - 1\<rparr>)) (
    kbind (ino_get n) (\<lambda>i.
    if i_nlinks i = 0 then kseq (inode_truncate k n 0) (
      kseq (inode_flush n) (
      kseq (free_inode junk n) (
      ino_mod n (\<lambda>i. i\<lparr>i_valid := False, i_dirty := False\<rparr>))))
    else ino_mark_dirty n)))"

definition unlink :: "nat \<Rightarrow> dinode \<Rightarrow> u32 \<Rightarrow> dref \<Rightarrow> int nm" where
  "unlink k junk ino d = (if length (dname d) > MAX_NAME_LENGTH then kret (- EINVAL)
    else kseq (inode_load ino) (
      kbind (ino_get ino) (\<lambda>i.
      kbind (dir_scan (dir_fuel i) ino (dname d) 0) (\<lambda>r.
      case r of
        None \<Rightarrow> kret (- 1)
      | Some (off, e) \<Rightarrow> kbind (kopt (dino d)) (\<lambda>n.
        kseq (drop_link k junk n) (
        kseq (inode_write ino off (dirent_bytes (e\<lparr>de_inode := 0\<rparr>))) (
        kret 0)))))))"

text \<open>The entries the generator \<open>read_dir\<close> yields, with the inodes it fetches on the way.\<close>

primrec read_dir_loop :: "nat \<Rightarrow> u32 \<Rightarrow> nat \<Rightarrow> (u32 option \<times> u8 list) list nm" where
  "read_dir_loop 0 ino off = kthrow Out_Of_Fuel"
| "read_dir_loop (Suc k) ino off = kbind (ino_get ino) (\<lambda>i.
  if off \<ge> unat (i_size i) then kret []
    else kbind (inode_read ino off 32) (\<lambda>bs.
      if length bs \<noteq> 32 then kret []
      else if de_inode (dirent_of bs) = 0 then read_dir_loop k ino ((off + 32) mod 2 ^ 32)
      else kbind (get_inode (de_inode (dirent_of bs))) (\<lambda>p.
        kbind (kopt (strlen (de_name (dirent_of bs)))) (\<lambda>n.
        kbind (read_dir_loop k ino ((off + 32) mod 2 ^ 32)) (\<lambda>es.
        kret ((p, take n (de_name (dirent_of bs))) # es))))))"

definition read_dir :: "u32 \<Rightarrow> dref \<Rightarrow> (u32 option \<times> u8 list) list nm" where
  "read_dir ino this_dentry = kseq (inode_load ino) (
    kseq (kassert (dino this_dentry = Some ino) ''parent inode mismatch'') (
    kbind (ino_get ino) (\<lambda>i.
    read_dir_loop (dir_fuel i) ino 0)))"

section \<open>The contents of a directory\<close>

text \<open>The slots of a directory; a slot with inode number 0 is free.\<close>

definition slot :: "nfs \<Rightarrow> minode \<Rightarrow> nat \<Rightarrow> dirent" where
  "slot s i k = dirent_of (map (fbyte s i) [32 * k..<32 * k + 32])"

definition nslots :: "minode \<Rightarrow> nat" where
  "nslots i = unat (i_size i) div 32"

definition in_use :: "nfs \<Rightarrow> minode \<Rightarrow> nat \<Rightarrow> bool" where
  "in_use s i k \<longleftrightarrow> de_inode (slot s i k) \<noteq> 0"

definition names :: "nfs \<Rightarrow> minode \<Rightarrow> u8 list \<Rightarrow> nat \<Rightarrow> bool" where
  "names s i nm k \<longleftrightarrow> in_use s i k \<and> cstr (de_name (slot s i k)) = nm"

text \<open>
  A directory in memory: whole slots only, blocks readable, stored names terminated, and of a size
  the \<open>uint32\<close> offsets can pass over.
\<close>

definition dir_ok :: "nfs \<Rightarrow> u32 \<Rightarrow> minode \<Rightarrow> bool" where
  "dir_ok s ino i \<longleftrightarrow> inodes s ino = Some i \<and> i_valid i \<and> file_ok s i \<and> cache_ok s i
     \<and> covered s i 0 (unat (i_size i)) \<and> 32 dvd unat (i_size i) \<and> unat (i_size i) + 32 < 2 ^ 32
     \<and> (\<forall>k < nslots i. in_use s i k \<longrightarrow> terminated (de_name (slot s i k)))"

lemma dir_ok_D:
  assumes "dir_ok s ino i"
  shows "inodes s ino = Some i" "i_valid i" "file_ok s i" "cache_ok s i" "unat (i_size i) = 32 * nslots i"
    "unat (i_size i) + 32 < 2 ^ 32" "\<And>k. k < nslots i \<Longrightarrow> in_use s i k \<Longrightarrow> terminated (de_name (slot s i k))"
  using assms by (auto simp: dir_ok_def nslots_def)

lemma covered_mono:
  assumes "covered s i 0 n" "off + sz \<le> n"
  shows "covered s i off sz"
proof (cases "off + sz \<le> DIRECT_DATA_SIZE \<or> i_next i = NO_BLOCK")
  case False
  then have "nth_ab s (i_next i) ((n - 1 - DIRECT_DATA_SIZE) div ADDR_BLOCK_DATA_SIZE) \<noteq> NO_BLOCK"
    using assms by (auto simp: covered_def)
  moreover have "(off + sz - 1 - DIRECT_DATA_SIZE) div ADDR_BLOCK_DATA_SIZE \<le> (n - 1 - DIRECT_DATA_SIZE) div ADDR_BLOCK_DATA_SIZE"
    using assms(2) by (intro div_le_mono diff_le_mono)
  ultimately show ?thesis unfolding covered_def using nth_ab_down by blast
qed (auto simp: covered_def)

text \<open>\<open>looked s ino i t i'\<close>: the state after reading from the directory.\<close>

definition looked :: "nfs \<Rightarrow> u32 \<Rightarrow> minode \<Rightarrow> nfs \<Rightarrow> minode \<Rightarrow> bool" where
  "looked s ino i t i' \<longleftrightarrow> view t = view s \<and> sb t = sb s \<and> sb_dirty t = sb_dirty s \<and> unmounted t = unmounted s
     \<and> disk t = disk s \<and> inodes t = (inodes s)(ino \<mapsto> i') \<and> cache_ok t i'
     \<and> i' = i\<lparr>cache_raw_indirect_offset := cache_raw_indirect_offset i', cache_offset := cache_offset i',
          cache_addr_block := cache_addr_block i'\<rparr>"

lemma looked_meta:
  assumes "looked s ino i t i'"
  shows "i_size i' = i_size i" "i_addrs i' = i_addrs i" "i_next i' = i_next i" "i_valid i' = i_valid i"
    "i_nlinks i' = i_nlinks i" "i_type i' = i_type i" "nslots i' = nslots i"
proof -
  have "i' = i\<lparr>cache_raw_indirect_offset := cache_raw_indirect_offset i', cache_offset := cache_offset i',
          cache_addr_block := cache_addr_block i'\<rparr>" using assms by (simp add: looked_def)
  then show "i_size i' = i_size i" "i_addrs i' = i_addrs i" "i_next i' = i_next i" "i_valid i' = i_valid i"
    "i_nlinks i' = i_nlinks i" "i_type i' = i_type i" by (cases i; cases i'; simp)+
  then show "nslots i' = nslots i" by (simp add: nslots_def)
qed

lemma looked_same:
  assumes "looked s ino i t i'"
  shows "fbyte t i' = fbyte s i" "slot t i' = slot s i" "in_use t i' = in_use s i" "names t i' = names s i"
    "dir_ok s ino i \<Longrightarrow> dir_ok t ino i'"
proof -
  note m = looked_meta [OF assms]
  have v: "view t = view s" using assms by (simp add: looked_def)
  show f: "fbyte t i' = fbyte s i"
    using spec_cong(1,3) [OF v] by (simp add: fun_eq_iff fbyte_def m)
  show sl: "slot t i' = slot s i" by (simp add: slot_def f fun_eq_iff)
  show u: "in_use t i' = in_use s i" by (simp add: in_use_def sl fun_eq_iff)
  show "names t i' = names s i" by (simp add: names_def sl u fun_eq_iff)
  have n: "nth_ab t = nth_ab s" by (intro ext nth_ab_cong v)
  show "dir_ok t ino i'" if d: "dir_ok s ino i"
  proof -
    have "file_ok t i'" using d spec_cong(5,6) [OF v] by (simp add: file_ok_def m dir_ok_def)
    moreover have "covered t i' 0 (unat (i_size i'))" using d by (simp add: covered_def m n dir_ok_def)
    ultimately show ?thesis using d assms by (simp add: dir_ok_def m sl u looked_def)
  qed
qed

lemma looked_refl: "dir_ok s ino i \<Longrightarrow> looked s ino i s i"
  by (auto simp: looked_def dir_ok_def fun_upd_idem)

lemma looked_trans: "looked s ino i t i' \<Longrightarrow> looked t ino i' u i'' \<Longrightarrow> looked s ino i u i''"
  unfolding looked_def by (cases i; cases i'; cases i'') simp

lemmas loaded = inode_load_valid

lemma read_slot:
  assumes "dir_ok s ino i" "k < nslots i"
  obtains t i' where "inode_read ino (32 * k) 32 s = (Inr (map (fbyte s i) [32 * k..<32 * k + 32]), t)" "looked s ino i t i'"
proof -
  note d = dir_ok_D [OF assms(1)]
  have le: "32 * k + 32 \<le> unat (i_size i)" using d(5) assms(2) by linarith
  have "covered s i 0 (unat (i_size i))" using assms(1) by (simp add: dir_ok_def)
  from covered_mono [OF this le] have "covered s i (32 * k) 32" .
  moreover have rng: "32 * k + 32 < 2 ^ 32" using d(6) le by linarith
  ultimately obtain t i' where t: "data_rd ino (32 * k) 32 s = (Inr (map (fbyte s i) [32 * k..<32 * k + 32]), t)" "read_result s ino i t i'"
    using data_rd_run [OF d(1,3,4)] by (metis rng)
  have "inode_read ino (32 * k) 32 s = (Inr (map (fbyte s i) [32 * k..<32 * k + 32]), t)"
    using t(1) loaded [OF d(1,2)] by (simp add: inode_read_def)
  moreover have "looked s ino i t i'" using t(2) by (auto simp: read_result_def looked_def same_view_def buf_simps)
  ultimately show ?thesis using that by blast
qed

text \<open>What the search returns from slot \<open>k\<close> on.\<close>

definition found :: "nfs \<Rightarrow> minode \<Rightarrow> u8 list \<Rightarrow> nat \<Rightarrow> (nat \<times> dirent) option \<Rightarrow> bool" where
  "found s i nm k r \<longleftrightarrow> (case r of
      None \<Rightarrow> \<forall>j. k \<le> j \<and> j < nslots i \<longrightarrow> \<not> names s i nm j
    | Some (off, e) \<Rightarrow> \<exists>j. off = 32 * j \<and> e = slot s i j \<and> k \<le> j \<and> j < nslots i \<and> names s i nm j
        \<and> (\<forall>l. k \<le> l \<and> l < j \<longrightarrow> \<not> names s i nm l))"

lemma found_skip:
  assumes "\<not> names s i nm k" "found s i nm (Suc k) r"
  shows "found s i nm k r"
proof (cases r)
  case None
  then show ?thesis using assms by (auto simp: found_def) (metis Suc_leI le_neq_implies_less)
next
  case (Some p)
  then show ?thesis using assms by (cases p) (auto simp: found_def, metis Suc_leD Suc_leI le_neq_implies_less)
qed

lemma cstr_name: "0 \<notin> set nm \<Longrightarrow> cstr (nm @ [0]) = nm" "terminated (nm @ [0])"
  by (induction nm) (auto simp: terminated_def)

lemma dir_scan_run:
  assumes "dir_ok s ino i" "k \<le> nslots i" "nslots i - k < n" "0 \<notin> set nm"
  shows "\<exists>r t i'. dir_scan n ino nm (32 * k) s = (Inr r, t) \<and> looked s ino i t i' \<and> found s i nm k r"
  using assms
proof (induction n arbitrary: s i k)
  case (Suc n)
  note d = dir_ok_D [OF Suc.prems(1)]
  have g: "ino_get ino s = (Inr i, s)" using d(1) by (simp add: ino_get_def)
  show ?case
  proof (cases "k < nslots i")
    case False
    then have "dir_scan (Suc n) ino nm (32 * k) s = (Inr None, s)" using g d(5) by simp
    moreover have "found s i nm k None" using False by (auto simp: found_def)
    ultimately show ?thesis using looked_refl [OF Suc.prems(1)] by blast
  next
    case True
    obtain t i' where t: "inode_read ino (32 * k) 32 s = (Inr (map (fbyte s i) [32 * k..<32 * k + 32]), t)" "looked s ino i t i'"
      using read_slot [OF Suc.prems(1) True] .
    note lm = looked_meta [OF t(2)] and ls = looked_same [OF t(2)]
    have sl: "dirent_of (map (fbyte s i) [32 * k..<32 * k + 32]) = slot s i k" by (simp add: slot_def)
    have nx: "(32 * k + 32) mod 2 ^ 32 = 32 * Suc k" using d(5,6) True by simp
    have less: "nslots i - Suc k < n" using Suc.prems(3) True by linarith
    obtain r u i'' where r: "dir_scan n ino nm (32 * Suc k) t = (Inr r, u)" "looked t ino i' u i''" "found t i' nm (Suc k) r"
      using Suc.IH [OF ls(5) [OF Suc.prems(1)], of "Suc k"] less Suc.prems(4) True lm(7) by (metis Suc_leI)
    have f: "found s i nm (Suc k) r" using r(3) unfolding found_def lm(7) ls(2,4) .
    have lk: "looked s ino i u i''" using looked_trans [OF t(2) r(2)] .
    show ?thesis
    proof (cases "in_use s i k")
      case unused: False
      then have "dir_scan (Suc n) ino nm (32 * k) s = (Inr r, u)"
        using g t(1) d(5) True sl nx r(1) by (simp add: in_use_def)
      then show ?thesis using lk found_skip [OF _ f] unused by (auto simp: names_def)
    next
      case used: True
      obtain c where c: "strcmp (de_name (slot s i k)) (nm @ [0]) = Some c" "cmp_sign c (cstr (de_name (slot s i k))) nm"
        using strcmp_run [OF d(7) [OF True used] cstr_name(2) [of nm]] cstr_name(1) [OF Suc.prems(4)] by auto
      have step: "dir_scan (Suc n) ino nm (32 * k) s = (if c = 0 then (Inr (Some (32 * k, slot s i k)), t) else (Inr r, u))"
        using g t(1) d(5) True sl nx r(1) c(1) used by (simp add: in_use_def)
      show ?thesis
      proof (cases "c = 0")
        case zero: True
        then have "found s i nm k (Some (32 * k, slot s i k))"
          using c(2) used True by (auto simp: found_def names_def cmp_sign_def)
        then show ?thesis using step zero t(2) by auto
      next
        case False
        then have "\<not> names s i nm k" using c(2) by (auto simp: names_def cmp_sign_def)
        then show ?thesis using step False lk found_skip [OF _ f] by auto
      qed
    qed
  qed
qed simp

end
