(* ===== verification/Nfs_Names.thy ===== *)
theory Nfs_Names
  imports Nfs_Dir
begin

text \<open>
  Looking up, adding and removing names: the directory operations refine operations on the slots of
  the directory, and a name that was linked is found again. The writing operations are treated for
  directories whose entries are in the direct blocks (416 entries).
\<close>

section \<open>Fetching an inode\<close>

text \<open>The inode is in memory, or the inode table can be read at its place.\<close>

definition in_table :: "nfs \<Rightarrow> u32 \<Rightarrow> bool" where
  "in_table s n \<longleftrightarrow> n \<noteq> 0 \<and> (\<exists>it. inodes s 0 = Some it \<and> i_valid it \<and> file_ok s it \<and> cache_ok s it
     \<and> covered s it (unat n * 64) 64 \<and> unat n * 64 + 64 < 2 ^ 32)"

definition available :: "nfs \<Rightarrow> u32 \<Rightarrow> bool" where
  "available s n \<longleftrightarrow> (\<exists>i. inodes s n = Some i \<and> i_valid i) \<or> in_table s n"

lemma fetch_run:
  assumes "available s n" "\<not> unmounted s"
  shows "\<exists>t u i. get_inode n s = (Inr (Some n), t) \<and> inode_load n t = (Inr (), u) \<and> view u = view s
    \<and> inodes u n = Some i \<and> i_valid i \<and> (\<forall>m. m \<noteq> n \<and> m \<noteq> 0 \<longrightarrow> inodes u m = inodes s m)"
proof (cases "\<exists>i. inodes s n = Some i \<and> i_valid i")
  case True
  then obtain i where i: "inodes s n = Some i" "i_valid i" by blast
  then have "get_inode n s = (Inr (Some n), s)" using assms(2) by (simp add: get_inode_def)
  then show ?thesis using loaded [OF i] i by blast
next
  case False
  then obtain it where it: "n \<noteq> 0" "inodes s 0 = Some it" "i_valid it" "file_ok s it" "cache_ok s it"
    "covered s it (unat n * 64) 64" "unat n * 64 + 64 < 2 ^ 32"
    using assms(1) by (auto simp: available_def in_table_def)
  define t where "t = s\<lparr>inodes := if inodes s n = None then (inodes s)(n \<mapsto> new_minode) else inodes s\<rparr>"
  have g: "get_inode n s = (Inr (Some n), t)" using assms(2) by (simp add: get_inode_def t_def)
  obtain j where j: "inodes t n = Some j" "\<not> i_valid j"
    using False by (cases "inodes s n") (auto simp: t_def new_minode_def)
  have v: "view t = view s" by (simp add: t_def buf_simps)
  have t0: "inodes t 0 = Some it" using it(1,2) by (simp add: t_def)
  have "covered t it (unat n * 64) 64" using it(6) nth_ab_cong [OF v] by (simp add: covered_def)
  then obtain w it' where w: "data_rd 0 (unat n * 64) 64 t = (Inr (map (fbyte t it) [unat n * 64..<unat n * 64 + 64]), w)"
      "read_result t 0 it w it'"
    using data_rd_run [OF t0, of "unat n * 64" 64] it(4,5,7) spec_cong(7,8) [OF v] by auto
  have wi: "inodes w = (inodes t)(0 \<mapsto> it')" "view w = view t"
    using w(2) by (auto simp: read_result_def same_view_def buf_simps)
  define u where "u = w\<lparr>inodes := (inodes w)(n \<mapsto> (from_dinode (dinode_of (map (fbyte t it) [unat n * 64..<unat n * 64 + 64])) j)
    \<lparr>i_valid := True, i_dirty := False\<rparr>)\<rparr>"
  have "inode_load n t = (Inr (), u)"
    using j t0 it(1,3) w(1) wi(1) by (simp add: inode_load_def load_table_def ino_get_def ino_mod_def u_def)
  moreover have "view u = view s" by (simp add: u_def buf_simps wi v)
  moreover have "\<forall>m. m \<noteq> n \<and> m \<noteq> 0 \<longrightarrow> inodes u m = inodes s m" by (auto simp: u_def wi t_def)
  ultimately show ?thesis using g by (auto simp: u_def)
qed

section \<open>Lookup\<close>

lemma available_looked:
  assumes "looked s ino i t i'" "inodes s ino = Some i" "ino \<noteq> 0" "available s n"
  shows "available t n"
proof -
  have v: "view t = view s" and it: "inodes t = (inodes s)(ino \<mapsto> i')" using assms(1) by (auto simp: looked_def)
  have c: "covered t = covered s" using nth_ab_cong [OF v] by (simp add: covered_def fun_eq_iff)
  have "in_table t n" if "in_table s n" using that assms(3) it c spec_cong(7,8) [OF v] by (simp add: in_table_def)
  then show ?thesis using assms(2,4) it looked_meta(4) [OF assms(1)] by (auto simp: available_def)
qed

lemma fuel_enough: "dir_ok s ino i \<Longrightarrow> nslots i - k < dir_fuel i"
  by (simp add: dir_fuel_def nslots_def)

lemma lookup_run:
  assumes "dir_ok s ino i" "ino \<noteq> 0" "length (dname d) \<le> MAX_NAME_LENGTH" "0 \<notin> set (dname d)" "\<not> unmounted s"
    "\<And>k. k < nslots i \<Longrightarrow> names s i (dname d) k \<Longrightarrow> available s (de_inode (slot s i k))"
  shows "\<exists>r t. lookup ino d s = (Inr r, t) \<and> view t = view s
    \<and> ((\<forall>k<nslots i. \<not> names s i (dname d) k) \<and> r = (- 1, d)
       \<or> (\<exists>k<nslots i. names s i (dname d) k \<and> (\<forall>l<k. \<not> names s i (dname d) l)
           \<and> r = (0, d\<lparr>dino := Some (de_inode (slot s i k))\<rparr>)
           \<and> (\<exists>j. inodes t (de_inode (slot s i k)) = Some j \<and> i_valid j)))"
proof -
  note d = dir_ok_D [OF assms(1)]
  obtain r t i' where r: "dir_scan (dir_fuel i) ino (dname d) 0 s = (Inr r, t)" "looked s ino i t i'" "found s i (dname d) 0 r"
    using dir_scan_run [OF assms(1) _ fuel_enough [OF assms(1)] assms(4), of 0] by auto
  have g: "ino_get ino s = (Inr i, s)" using d(1) by (simp add: ino_get_def)
  have v: "view t = view s" "unmounted t = unmounted s" using r(2) by (auto simp: looked_def)
  show ?thesis
  proof (cases r)
    case None
    then have "lookup ino d s = (Inr (- 1, d), t)" using assms(3) loaded [OF d(1,2)] g r(1) by (simp add: lookup_def)
    then show ?thesis using None r(3) v by (auto simp: found_def)
  next
    case (Some p)
    then obtain k where k: "r = Some (32 * k, slot s i k)" "k < nslots i" "names s i (dname d) k" "\<forall>l<k. \<not> names s i (dname d) l"
      using r(3) by (cases p) (auto simp: found_def)
    let ?n = "de_inode (slot s i k)"
    have "available t ?n" using available_looked [OF r(2) d(1) assms(2) assms(6) [OF k(2,3)]] .
    then obtain t1 u j where u: "get_inode ?n t = (Inr (Some ?n), t1)" "inode_load ?n t1 = (Inr (), u)" "view u = view t"
        "inodes u ?n = Some j" "i_valid j"
      using fetch_run [of t ?n] assms(5) v(2) by auto
    have "lookup ino d s = (Inr (0, d\<lparr>dino := Some ?n\<rparr>), u)"
      using assms(3) loaded [OF d(1,2)] g r(1) u(1,2) k(1) by (simp add: lookup_def)
    then show ?thesis using k(2-4) u(3-5) v by auto
  qed
qed

section \<open>Adding an entry\<close>

lemma slot_scan_run:
  assumes "dir_ok s ino i" "k \<le> nslots i" "nslots i - k < n"
  shows "\<exists>j t i'. slot_scan n ino (32 * k) s = (Inr (Some (32 * j)), t) \<and> looked s ino i t i' \<and> k \<le> j \<and> j \<le> nslots i
    \<and> (\<forall>l. k \<le> l \<and> l < j \<longrightarrow> in_use s i l) \<and> (j < nslots i \<longrightarrow> \<not> in_use s i j)"
  using assms
proof (induction n arbitrary: s i k)
  case (Suc n)
  note d = dir_ok_D [OF Suc.prems(1)]
  have g: "ino_get ino s = (Inr i, s)" using d(1) by (simp add: ino_get_def)
  show ?case
  proof (cases "k < nslots i")
    case False
    then have "slot_scan (Suc n) ino (32 * k) s = (Inr (Some (32 * k)), s)" "k = nslots i" using g d(5) Suc.prems(2) by simp_all
    then show ?thesis using looked_refl [OF Suc.prems(1)] by (intro exI [of _ k] exI [of _ s] exI [of _ i]) (simp, linarith)
  next
    case True
    obtain t i' where t: "inode_read ino (32 * k) 32 s = (Inr (map (fbyte s i) [32 * k..<32 * k + 32]), t)" "looked s ino i t i'"
      using read_slot [OF Suc.prems(1) True] .
    note lm = looked_meta [OF t(2)] and ls = looked_same [OF t(2)]
    have sl: "dirent_of (map (fbyte s i) [32 * k..<32 * k + 32]) = slot s i k" by (simp add: slot_def)
    show ?thesis
    proof (cases "in_use s i k")
      case False
      then have "slot_scan (Suc n) ino (32 * k) s = (Inr (Some (32 * k)), t)"
        using g t(1) d(5) True sl by (simp add: in_use_def)
      then show ?thesis using t(2) True False by (intro exI [of _ k] exI [of _ t] exI [of _ i']) (simp, linarith)
    next
      case used: True
      have "nslots i' - Suc k < n" "Suc k \<le> nslots i'" using Suc.prems(3) True lm(7) by linarith+
      then obtain j u i'' where j: "slot_scan n ino (32 * Suc k) t = (Inr (Some (32 * j)), u)" "looked t ino i' u i''"
          "Suc k \<le> j" "j \<le> nslots i" "\<forall>l. Suc k \<le> l \<and> l < j \<longrightarrow> in_use s i l" "j < nslots i \<longrightarrow> \<not> in_use s i j"
        using Suc.IH [OF ls(5) [OF Suc.prems(1)], of "Suc k"] unfolding lm(7) ls(3) by blast
      have "slot_scan (Suc n) ino (32 * k) s = (Inr (Some (32 * j)), u)"
        using g t(1) d(5) True sl used j(1) by (simp add: in_use_def add.commute)
      moreover have "\<forall>l. k \<le> l \<and> l < j \<longrightarrow> in_use s i l" using j(5) used by (metis le_neq_implies_less Suc_leI)
      ultimately show ?thesis using looked_trans [OF t(2) j(2)] j(3,4,6)
        by (intro exI [of _ j] exI [of _ u] exI [of _ i'']) simp
    qed
  qed
qed simp

lemma fill_name_run:
  assumes "0 \<notin> set nm" "length nm < length junk"
  shows "\<exists>x. fill_name junk nm = Some x \<and> length x = length junk \<and> cstr x = nm \<and> terminated x"
proof -
  have "strncpy junk (nm @ [0]) (length nm) = Some (nm @ drop (length nm) junk)"
    using strncpy_run [OF cstr_name(2) [of nm], of "length nm" junk] assms cstr_name(1) by simp
  moreover obtain y ys where "drop (length nm) junk = y # ys" using assms(2) by (cases "drop (length nm) junk") auto
  moreover have "cstr (nm @ 0 # zs) = nm" for zs using assms(1) by (induction nm) auto
  moreover have "terminated (nm @ 0 # zs)" for zs by (simp add: terminated_def)
  moreover have "length (drop (length nm) junk) = length junk - length nm" by simp
  ultimately show ?thesis using assms(2) by (auto simp: fill_name_def)
qed

lemma slot_upd:
  assumes "length xs = 32" "fbyte t i' = upd_bytes (fbyte s i) (32 * j) xs"
  shows "slot t i' k = (if k = j then dirent_of xs else slot s i k)"
proof (cases "k = j")
  case True
  have "map (fbyte t i') [32 * j..<32 * j + 32] = xs"
    by (rule nth_equalityI) (simp_all add: assms upd_bytes_def)
  then show ?thesis using True by (simp add: slot_def)
next
  case False
  have "fbyte t i' q = fbyte s i q" if "32 * k \<le> q" "q < 32 * k + 32" for q
    using that False assms by (cases "k < j") (auto simp: upd_bytes_def)
  then have "map (fbyte t i') [32 * k..<32 * k + 32] = map (fbyte s i) [32 * k..<32 * k + 32]" by simp
  then show ?thesis using False by (simp only: slot_def if_False)
qed

text \<open>Writing one slot of a directory, in the state after a search.\<close>

definition slot_written :: "nfs \<Rightarrow> u32 \<Rightarrow> minode \<Rightarrow> nat \<Rightarrow> dirent \<Rightarrow> nfs \<Rightarrow> minode \<Rightarrow> bool" where
  "slot_written s ino i j e t i' \<longleftrightarrow> dir_ok t ino i' \<and> wr_ok t i' \<and> nslots i' = max (nslots i) (Suc j)
     \<and> (\<forall>k. slot t i' k = (if k = j then e else slot s i k))
     \<and> unmounted t = unmounted s \<and> i_nlinks i' = i_nlinks i \<and> i_type i' = i_type i"

definition slot_block_missing :: "minode \<Rightarrow> nat \<Rightarrow> bool" where
  "slot_block_missing i j \<longleftrightarrow> i_addrs i ! (32 * j div BLOCK_SIZE) = NO_BLOCK"

lemma slot_block: "32 * j \<le> q \<Longrightarrow> q < 32 * j + 32 \<Longrightarrow> q div 1024 = 32 * j div 1024" for q :: nat
proof -
  assume q: "32 * j \<le> q" "q < 32 * j + 32"
  then have "q div 32 = j" by (intro div_nat_eqI) simp_all
  then show ?thesis using div_mult2_eq [of q 32 32] div_mult2_eq [of "32 * j" 32 32] by simp
qed

lemma write_slot_run:
  assumes "dir_ok s ino i" "wr_ok s i" "j \<le> nslots i" "32 * j + 32 \<le> DIRECT_DATA_SIZE" "unat (i_size i) \<le> DIRECT_DATA_SIZE"
    "length (de_name e) = MAX_NAME_LENGTH" "de_inode e = 0 \<or> terminated (de_name e)"
  shows "(\<exists>t. inode_write ino (32 * j) (dirent_bytes e) s = (Inl Task_Fail, t) \<and> slot_block_missing i j)
    \<or> (\<exists>w t i'. inode_write ino (32 * j) (dirent_bytes e) s = (Inr w, t) \<and> slot_written s ino i j e t i'
        \<and> inodes t = (inodes s)(ino \<mapsto> i'))"
proof -
  note d = dir_ok_D [OF assms(1)]
  have len: "length (dirent_bytes e) = 32" using assms(6) by (simp add: dirent_bytes_def)
  have rng: "32 * j + length (dirent_bytes e) \<le> DIRECT_DATA_SIZE" using assms(4) len by simp
  from inode_write_run [OF d(1,2) assms(2) rng] show ?thesis
  proof (elim disjE exE conjE)
    fix t assume t: "inode_write ino (32 * j) (dirent_bytes e) s = (Inl Task_Fail, t)" "needs_block i (32 * j) (length (dirent_bytes e))"
    then obtain q where "32 * j \<le> q" "q < 32 * j + 32" "i_addrs i ! (q div BLOCK_SIZE) = NO_BLOCK"
      using len by (auto simp: needs_block_def)
    then show ?thesis using t(1) slot_block [of j q] by (auto simp: slot_block_missing_def)
  next
    fix t i'
    assume t: "inode_write ino (32 * j) (dirent_bytes e) s = (Inr (length (dirent_bytes e)), t)" "inodes t ino = Some i'" "wr_ok t i'"
      "fbyte t i' = upd_bytes (fbyte s i) (32 * j) (dirent_bytes e)"
      "unat (i_size i') = max (unat (i_size i)) (32 * j + length (dirent_bytes e))" "i_valid i'" "i_next i' = i_next i"
      "i_nlinks i' = i_nlinks i" "i_type i' = i_type i" "cache_ok t i' = cache_ok s i"
      "inodes t = (inodes s)(ino \<mapsto> i')" "kept s i t"
    have sl: "slot t i' k = (if k = j then e else slot s i k)" for k
      using slot_upd [OF len t(4), of k] dirent_roundtrip [OF assms(6)] by simp
    have sz: "unat (i_size i') = 32 * max (nslots i) (Suc j)" using t(5) d(5) len by (simp add: max_def)
    then have ns: "nslots i' = max (nslots i) (Suc j)" by (simp add: nslots_def)
    have "unat (i_size i') \<le> DIRECT_DATA_SIZE" using t(5) rng assms(5) by simp
    then have "covered t i' 0 (unat (i_size i'))" "unat (i_size i') + 32 < 2 ^ 32" by (simp_all add: covered_def)
    moreover have "terminated (de_name (slot t i' k))" if "k < nslots i'" "in_use t i' k" for k
      using that sl [of k] d(7) [of k] assms(3,7) ns by (auto simp: in_use_def split: if_splits)
    ultimately have "dir_ok t ino i'"
      using t(2,6,10) d(4) wr_ok_D(2) [OF t(3)] sz by (simp add: dir_ok_def)
    then have "slot_written s ino i j e t i'"
      using t(3,8,9,12) sl ns by (simp add: slot_written_def kept_def)
    then show ?thesis using t(1,11) by blast
  qed
qed

lemma wr_ok_looked: "looked s ino i t i' \<Longrightarrow> wr_ok s i \<Longrightarrow> wr_ok t i'"
  using wr_ok_cong [of t s i' i] looked_meta [of s ino i t i'] by (simp add: looked_def)

text \<open>An inode other than the directory's changes: the directory does not.\<close>

lemma other_inode:
  assumes "dir_ok s ino i" "n \<noteq> ino" "t = s\<lparr>inodes := (inodes s)(n \<mapsto> m)\<rparr>"
  shows "dir_ok t ino i" "wr_ok s i \<Longrightarrow> wr_ok t i" "slot t i = slot s i" "in_use t i = in_use s i" "names t i = names s i"
proof -
  have v: "view t = view s" "sb t = sb s" by (simp_all add: assms(3) buf_simps)
  show "wr_ok s i \<Longrightarrow> wr_ok t i" using wr_ok_cong [OF v] by simp
  show sl: "slot t i = slot s i" by (simp add: slot_def fun_eq_iff spec_cong(4) [OF v(1)])
  show u: "in_use t i = in_use s i" by (simp add: in_use_def sl fun_eq_iff)
  show "names t i = names s i" by (simp add: names_def sl u fun_eq_iff)
  have "covered t = covered s" using nth_ab_cong [OF v(1)] by (simp add: covered_def fun_eq_iff)
  then show "dir_ok t ino i" using assms(1,2) spec_cong(7,8) [OF v(1)] by (simp add: dir_ok_def sl u) (simp add: assms(3))
qed

text \<open>What \<open>__link\<close> leaves behind: the entry in the first free slot, or at the end.\<close>

definition linked :: "nfs \<Rightarrow> u32 \<Rightarrow> minode \<Rightarrow> u8 list \<Rightarrow> u32 \<Rightarrow> minode \<Rightarrow> nat \<Rightarrow> nfs \<Rightarrow> minode \<Rightarrow> bool" where
  "linked s ino i nm n m j t i' \<longleftrightarrow> j \<le> nslots i \<and> (\<forall>l<j. in_use s i l) \<and> (j < nslots i \<longrightarrow> \<not> in_use s i j)
     \<and> (\<exists>x. cstr x = nm \<and> slot_written s ino i j \<lparr>de_inode = n, de_name = x\<rparr> t i')
     \<and> inodes t = (inodes s)(n \<mapsto> m\<lparr>i_nlinks := i_nlinks m + 1, i_dirty := True\<rparr>, ino \<mapsto> i')"

lemma link_inode_run:
  assumes "dir_ok s ino i" "wr_ok s i" "unat (i_size i) + 32 \<le> DIRECT_DATA_SIZE"
    "inodes s n = Some m" "i_valid m" "n \<noteq> ino" "n \<noteq> 0" "0 \<notin> set (dname d)" "length (dname d) < MAX_NAME_LENGTH"
    "length junk = MAX_NAME_LENGTH"
  shows "(\<exists>t j. link_inode junk ino d n s = (Inl Task_Fail, t) \<and> j \<le> nslots i \<and> slot_block_missing i j)
    \<or> (\<exists>t j i'. link_inode junk ino d n s = (Inr (0, d\<lparr>dino := Some n\<rparr>), t) \<and> linked s ino i (dname d) n m j t i')"
proof -
  obtain x where x: "fill_name junk (dname d) = Some x" "length x = MAX_NAME_LENGTH" "cstr x = dname d" "terminated x"
    using fill_name_run [OF assms(8), of junk] assms(9,10) by auto
  define m' where "m' = m\<lparr>i_nlinks := i_nlinks m + 1, i_dirty := True\<rparr>"
  define s1 where "s1 = s\<lparr>inodes := (inodes s)(n \<mapsto> m')\<rparr>"
  note o1 = other_inode [OF assms(1,6) s1_def]
  note d = dir_ok_D [OF assms(1)]
  obtain j t1 i1 where j: "slot_scan (dir_fuel i) ino 0 s1 = (Inr (Some (32 * j)), t1)" "looked s1 ino i t1 i1" "j \<le> nslots i"
      "\<forall>l. l < j \<longrightarrow> in_use s i l" "j < nslots i \<longrightarrow> \<not> in_use s i j"
    using slot_scan_run [OF o1(1) _ fuel_enough [OF o1(1)], of 0] unfolding o1(4) by auto
  let ?e = "\<lparr>de_inode = n, de_name = x\<rparr>"
  have pre: "link_inode junk ino d n s = kbind (inode_write ino (32 * j) (dirent_bytes ?e)) (\<lambda>w. kret (0, d\<lparr>dino := Some n\<rparr>)) t1"
    using x(1) j(1) d(1) assms(4,5,6) loaded [OF assms(4,5)]
    by (simp add: link_inode_def buf_simps ino_mark_dirty_def s1_def m'_def kseq_def kbind_def)
  note ls = looked_same [OF j(2)] and lm = looked_meta [OF j(2)]
  have sz: "32 * j + 32 \<le> DIRECT_DATA_SIZE" "unat (i_size i1) \<le> DIRECT_DATA_SIZE" "j \<le> nslots i1"
    using j(3) assms(3) d(5) lm by simp_all
  have e: "length (de_name ?e) = MAX_NAME_LENGTH" "de_inode ?e = 0 \<or> terminated (de_name ?e)" using x(2,4) by simp_all
  from write_slot_run [OF ls(5) [OF o1(1)] wr_ok_looked [OF j(2) o1(2) [OF assms(2)]] sz(3,1,2) e] show ?thesis
  proof (elim disjE exE conjE)
    fix t assume "inode_write ino (32 * j) (dirent_bytes ?e) t1 = (Inl Task_Fail, t)" "slot_block_missing i1 j"
    then show ?thesis using pre j(3) lm by (auto simp: slot_block_missing_def)
  next
    fix w t i' assume t: "inode_write ino (32 * j) (dirent_bytes ?e) t1 = (Inr w, t)" "slot_written t1 ino i1 j ?e t i'"
      "inodes t = (inodes t1)(ino \<mapsto> i')"
    have "slot_written s ino i j ?e t i'"
      using t(2) j(2) unfolding slot_written_def ls(2) o1(3) lm by (simp add: looked_def s1_def)
    moreover have "inodes t = (inodes s)(n \<mapsto> m', ino \<mapsto> i')" using t(3) j(2) by (simp add: looked_def s1_def)
    ultimately have "linked s ino i (dname d) n m j t i'"
      using j(3-5) x(3) unfolding linked_def m'_def by blast
    then show ?thesis using pre t(1) by auto
  qed
qed

section \<open>Removing an entry\<close>

definition unlinked :: "nfs \<Rightarrow> u32 \<Rightarrow> minode \<Rightarrow> u32 \<Rightarrow> minode \<Rightarrow> nat \<Rightarrow> nfs \<Rightarrow> minode \<Rightarrow> bool" where
  "unlinked s ino i n m j t i' \<longleftrightarrow>
     slot_written s ino i j ((slot s i j)\<lparr>de_inode := 0\<rparr>) t i'
     \<and> inodes t = (inodes s)(n \<mapsto> m\<lparr>i_nlinks := i_nlinks m - 1, i_dirty := True\<rparr>, ino \<mapsto> i')"

lemma length_slot_name: "length (de_name (slot s i k)) = MAX_NAME_LENGTH"
  by (simp add: slot_def dirent_of_def bslice_def)

lemma unlink_run:
  assumes "dir_ok s ino i" "wr_ok s i" "unat (i_size i) \<le> DIRECT_DATA_SIZE" "length (dname d) \<le> MAX_NAME_LENGTH" "0 \<notin> set (dname d)"
    "dino d = Some n" "inodes s n = Some m" "i_valid m" "n \<noteq> ino" "i_nlinks m \<noteq> 1"
  shows "(\<exists>t. unlink k junk ino d s = (Inr (- 1), t) \<and> view t = view s \<and> (\<forall>j<nslots i. \<not> names s i (dname d) j))
    \<or> (\<exists>t j. unlink k junk ino d s = (Inl Task_Fail, t) \<and> j < nslots i \<and> slot_block_missing i j)
    \<or> (\<exists>t j i'. unlink k junk ino d s = (Inr 0, t) \<and> j < nslots i \<and> names s i (dname d) j \<and> (\<forall>l<j. \<not> names s i (dname d) l)
        \<and> unlinked s ino i n m j t i')"
proof -
  note d = dir_ok_D [OF assms(1)]
  obtain r t i' where r: "dir_scan (dir_fuel i) ino (dname d) 0 s = (Inr r, t)" "looked s ino i t i'" "found s i (dname d) 0 r"
    using dir_scan_run [OF assms(1) _ fuel_enough [OF assms(1)] assms(5), of 0] by auto
  note ls = looked_same [OF r(2)] and lm = looked_meta [OF r(2)]
  have g: "ino_get ino s = (Inr i, s)" using d(1) by (simp add: ino_get_def)
  have tn: "inodes t n = Some m" "view t = view s" using r(2) assms(7,9) by (auto simp: looked_def)
  show ?thesis
  proof (cases r)
    case None
    then have "unlink k junk ino d s = (Inr (- 1), t)" using assms(4) loaded [OF d(1,2)] g r(1) by (simp add: unlink_def)
    then show ?thesis using None r(3) tn by (auto simp: found_def)
  next
    case (Some p)
    then obtain j where j: "r = Some (32 * j, slot s i j)" "j < nslots i" "names s i (dname d) j" "\<forall>l<j. \<not> names s i (dname d) l"
      using r(3) by (cases p) (auto simp: found_def)
    let ?e = "(slot s i j)\<lparr>de_inode := 0\<rparr>"
    define m' where "m' = m\<lparr>i_nlinks := i_nlinks m - 1, i_dirty := True\<rparr>"
    define t1 where "t1 = t\<lparr>inodes := (inodes t)(n \<mapsto> m')\<rparr>"
    note o1 = other_inode [OF ls(5) [OF assms(1)] assms(9) t1_def]
    have nl: "i_nlinks m - 1 \<noteq> 0" using assms(10) by simp
    have "drop_link k junk n t = (Inr (), t1)"
      using nl tn(1) loaded [OF tn(1) assms(8)] by (simp add: drop_link_def buf_simps ino_mark_dirty_def t1_def m'_def)
    then have pre: "unlink k junk ino d s = kbind (inode_write ino (32 * j) (dirent_bytes ?e)) (\<lambda>w. kret 0) t1"
      using assms(4,6) loaded [OF d(1,2)] g r(1) j(1) by (simp add: unlink_def kseq_def)
    have sz: "32 * j + 32 \<le> DIRECT_DATA_SIZE" "unat (i_size i') \<le> DIRECT_DATA_SIZE" "j \<le> nslots i'"
      using j(2) assms(3) d(5) lm by simp_all
    have e: "length (de_name ?e) = MAX_NAME_LENGTH" "de_inode ?e = 0 \<or> terminated (de_name ?e)" by (simp_all add: length_slot_name)
    from write_slot_run [OF o1(1) o1(2) [OF wr_ok_looked [OF r(2) assms(2)]] sz(3,1,2) e] show ?thesis
    proof (elim disjE exE conjE)
      fix u assume "inode_write ino (32 * j) (dirent_bytes ?e) t1 = (Inl Task_Fail, u)" "slot_block_missing i' j"
      then show ?thesis using pre j(2) lm by (auto simp: slot_block_missing_def)
    next
      fix w u i'' assume u: "inode_write ino (32 * j) (dirent_bytes ?e) t1 = (Inr w, u)" "slot_written t1 ino i' j ?e u i''"
        "inodes u = (inodes t1)(ino \<mapsto> i'')"
      have "slot_written s ino i j ?e u i''"
        using u(2) r(2) unfolding slot_written_def o1(3) ls(2) lm by (simp add: looked_def t1_def)
      moreover have "inodes u = (inodes s)(n \<mapsto> m', ino \<mapsto> i'')"
        using u(3) r(2) assms(9) by (auto simp: looked_def t1_def fun_eq_iff)
      ultimately have "unlinked s ino i n m j u i''" unfolding unlinked_def m'_def by simp
      then show ?thesis using pre u(1) j(2-4) by auto
    qed
  qed
qed

section \<open>The inode table\<close>

text \<open>
  The inodes in the table. Entry 0 is the head of the list of free inodes: its \<open>size\<close> field is the
  next free one, and a free entry holds the one after it.
\<close>

definition tslot :: "nfs \<Rightarrow> minode \<Rightarrow> nat \<Rightarrow> dinode" where
  "tslot s i k = dinode_of (map (fbyte s i) [64 * k..<64 * k + 64])"

definition table_ok :: "nfs \<Rightarrow> minode \<Rightarrow> bool" where
  "table_ok s it \<longleftrightarrow> inodes s 0 = Some it \<and> i_valid it \<and> wr_ok s it \<and> cache_ok s it \<and> \<not> unmounted s
     \<and> di_type (tslot s it 0) = ITYPE_NEXT_FREE_INODE"

lemma table_ok_D:
  assumes "table_ok s it"
  shows "inodes s 0 = Some it" "i_valid it" "wr_ok s it" "cache_ok s it" "\<not> unmounted s"
    "di_type (tslot s it 0) = ITYPE_NEXT_FREE_INODE" "file_ok s it"
  using assms wr_ok_D(2) by (auto simp: table_ok_def)

lemma read_tslot:
  assumes "table_ok s it" "64 * k + 64 \<le> DIRECT_DATA_SIZE"
  obtains t it' bs where "inode_read 0 (k * 64) 64 s = (Inr bs, t)" "dinode_of bs = tslot s it k" "looked s 0 it t it'"
    "table_ok t it'" "tslot t it' = tslot s it"
proof -
  note d = table_ok_D [OF assms(1)]
  have "covered s it (k * 64) 64" "k * 64 + 64 < 2 ^ 32" using assms(2) by (simp_all add: covered_def)
  from data_rd_run [OF d(1,7,4) this]
  obtain t i' where t: "data_rd 0 (k * 64) 64 s = (Inr (map (fbyte s it) [k * 64..<k * 64 + 64]), t)" "read_result s 0 it t i'"
    by blast
  have "inode_read 0 (k * 64) 64 s = (Inr (map (fbyte s it) [k * 64..<k * 64 + 64]), t)"
    using t(1) loaded [OF d(1,2)] by (simp add: inode_read_def)
  moreover have lk: "looked s 0 it t i'" using t(2) by (auto simp: read_result_def looked_def same_view_def buf_simps)
  moreover have ts: "tslot t i' = tslot s it" by (simp add: tslot_def looked_same(1) [OF lk] fun_eq_iff)
  moreover have "table_ok t i'"
    using d wr_ok_looked [OF lk] ts lk looked_meta(4) [OF lk] by (simp add: table_ok_def looked_def)
  ultimately show ?thesis using that by (simp add: tslot_def mult.commute)
qed

lemma tslot_upd:
  assumes "length xs = 64" "fbyte t i' = upd_bytes (fbyte s i) (64 * j) xs"
  shows "tslot t i' k = (if k = j then dinode_of xs else tslot s i k)"
proof (cases "k = j")
  case True
  have "map (fbyte t i') [64 * j..<64 * j + 64] = xs"
    by (rule nth_equalityI) (simp_all add: assms upd_bytes_def)
  then show ?thesis using True by (simp add: tslot_def)
next
  case False
  have "fbyte t i' q = fbyte s i q" if "64 * k \<le> q" "q < 64 * k + 64" for q
    using that False assms by (cases "k < j") (auto simp: upd_bytes_def)
  then have "map (fbyte t i') [64 * k..<64 * k + 64] = map (fbyte s i) [64 * k..<64 * k + 64]" by simp
  then show ?thesis using False by (simp only: tslot_def if_False)
qed

lemma tslot_block:
  assumes "di_type (tslot s it k) \<noteq> 0" "64 * k + 64 \<le> DIRECT_DATA_SIZE"
  shows "\<not> needs_block it (k * 64) 64"
proof
  assume "needs_block it (k * 64) 64"
  then obtain q where q: "k * 64 \<le> q" "q < k * 64 + 64" "i_addrs it ! (q div BLOCK_SIZE) = NO_BLOCK" by (auto simp: needs_block_def)
  have "x div 1024 = k div 16" if "k * 64 \<le> x" "x < k * 64 + 64" for x
  proof -
    have "x div 64 = k" using that by (intro div_nat_eqI) simp_all
    then show ?thesis using div_mult2_eq [of x 64 16] by simp
  qed
  then have "q div 1024 = (64 * k + 7) div 1024" using q(1,2) by simp
  then have "fbyte s it (64 * k + 7) = 0" using q(3) assms(2) by (simp add: fbyte_def block_byte_def)
  then show False using assms(1) by (simp add: tslot_def dinode_of_def)
qed

lemma write_tslot:
  assumes "table_ok s it" "64 * k + 64 \<le> DIRECT_DATA_SIZE" "length (di_addrs e) = NUM_DIRECT_DATA"
    "k = 0 \<Longrightarrow> di_type e = ITYPE_NEXT_FREE_INODE"
  shows "(\<exists>t. inode_write 0 (k * 64) (dinode_bytes e) s = (Inl Task_Fail, t) \<and> di_type (tslot s it k) = 0)
    \<or> (\<exists>w t it'. inode_write 0 (k * 64) (dinode_bytes e) s = (Inr w, t) \<and> table_ok t it' \<and> inodes t = (inodes s)(0 \<mapsto> it')
        \<and> tslot t it' = (tslot s it)(k := e))"
proof -
  note d = table_ok_D [OF assms(1)]
  have len: "length (dinode_bytes e) = 64" using assms(3) by (simp add: length_dinode_bytes)
  have rng: "k * 64 + length (dinode_bytes e) \<le> DIRECT_DATA_SIZE" using assms(2) len by simp
  from inode_write_run [OF d(1-3) rng] show ?thesis
  proof (elim disjE exE conjE)
    fix t assume t: "inode_write 0 (k * 64) (dinode_bytes e) s = (Inl Task_Fail, t)" "needs_block it (k * 64) (length (dinode_bytes e))"
    then have "di_type (tslot s it k) = 0" using tslot_block [OF _ assms(2)] len by auto
    then show ?thesis using t(1) by blast
  next
    fix t i'
    assume t: "inode_write 0 (k * 64) (dinode_bytes e) s = (Inr (length (dinode_bytes e)), t)" "wr_ok t i'"
      "fbyte t i' = upd_bytes (fbyte s it) (k * 64) (dinode_bytes e)" "i_valid i'" "cache_ok t i' = cache_ok s it"
      "inodes t = (inodes s)(0 \<mapsto> i')" "kept s it t"
    have "fbyte t i' = upd_bytes (fbyte s it) (64 * k) (dinode_bytes e)" using t(3) by (simp add: mult.commute)
    from tslot_upd [OF len this] have sl: "tslot t i' = (tslot s it)(k := e)"
      using dinode_roundtrip [OF assms(3)] by (simp add: fun_eq_iff)
    then have "table_ok t i'" using t d assms(4) by (cases "k = 0") (simp_all add: table_ok_def kept_def)
    then show ?thesis using t(1,6) sl by blast
  qed
qed

lemma wr_ok_sb:
  assumes v: "view t = view u" and sb: "generic_block_start (sb t) = generic_block_start (sb u)"
    "total_blocks (sb t) = total_blocks (sb u)" "next_free_bitmap (sb t) = next_free_bitmap (sb u)"
  shows "wr_ok t i = wr_ok u i"
proof -
  have b: "blk_used t = blk_used u" by (intro ext) (simp only: blk_used_def v)
  show ?thesis
    using spec_cong(5-7) [OF v] nth_ab_cong [OF v] sb unfolding wr_ok_def alloc_ok_def owned_def ind_blocks_def b v by simp
qed

lemma length_tslot: "length (di_addrs (tslot s it k)) = NUM_DIRECT_DATA"
  by (simp add: tslot_def dinode_of_def get32s_def)

lemma alloc_inode_run:
  assumes "table_ok s it" "n = di_size (tslot s it 0)" "64 * unat n + 64 \<le> DIRECT_DATA_SIZE" "n \<noteq> 0"
  shows "\<exists>t it' i. alloc_inode s = (Inr n, t) \<and> table_ok t it'
    \<and> tslot t it' = (tslot s it)(0 := (tslot s it 0)\<lparr>di_size := next_free (tslot s it (unat n)) n\<rparr>)
    \<and> inodes t n = Some i \<and> i_valid i \<and> i_dirty i \<and> i_size i = 0 \<and> i_nlinks i = 0 \<and> i_addrs i = replicate NUM_DIRECT_DATA NO_BLOCK
    \<and> i_next i = NO_BLOCK \<and> (\<forall>m. m \<noteq> 0 \<and> m \<noteq> n \<longrightarrow> inodes t m = inodes s m)"
proof -
  note d = table_ok_D [OF assms(1)]
  have z: "64 * 0 + 64 \<le> DIRECT_DATA_SIZE" by simp
  obtain t1 i1 b0 where r0: "inode_read 0 (0 * 64) 64 s = (Inr b0, t1)" "dinode_of b0 = tslot s it 0" "looked s 0 it t1 i1"
    "table_ok t1 i1" "tslot t1 i1 = tslot s it" by (rule read_tslot [OF assms(1) z])
  obtain t2 i2 b1 where r1: "inode_read 0 (unat n * 64) 64 t1 = (Inr b1, t2)" "dinode_of b1 = tslot t1 i1 (unat n)" "looked t1 0 i1 t2 i2"
    "table_ok t2 i2" "tslot t2 i2 = tslot t1 i1" using read_tslot [OF r0(4) assms(3)] by blast
  define e where "e = (tslot s it 0)\<lparr>di_size := next_free (tslot s it (unat n)) n\<rparr>"
  have e: "length (di_addrs e) = NUM_DIRECT_DATA" "di_type e = ITYPE_NEXT_FREE_INODE" using length_tslot d(6) by (simp_all add: e_def)
  obtain w t3 i3 where w: "inode_write 0 (0 * 64) (dinode_bytes e) t2 = (Inr w, t3)" "table_ok t3 i3" "inodes t3 = (inodes t2)(0 \<mapsto> i3)"
      "tslot t3 i3 = (tslot t2 i2)(0 := e)"
    using write_tslot [OF r1(4), of 0 e] e table_ok_D(6) [OF r1(4)] by auto
  define t4 where "t4 = t3\<lparr>inodes := if inodes t3 n = None then (inodes t3)(n \<mapsto> new_minode) else inodes t3\<rparr>"
  have g: "get_inode n t3 = (Inr (Some n), t4)" using table_ok_D(5) [OF w(2)] by (simp add: get_inode_def t4_def)
  obtain j where j: "inodes t4 n = Some j" by (cases "inodes t3 n") (auto simp: t4_def)
  define j' where "j' = j\<lparr>i_size := 0, i_perm := 0, i_type := 0, i_nlinks := 0,
     i_addrs := replicate NUM_DIRECT_DATA NO_BLOCK, i_next := NO_BLOCK, i_valid := True, i_dirty := True\<rparr>"
  define t where "t = t4\<lparr>inodes := (inodes t4)(n \<mapsto> j'), sb := (sb t4)\<lparr>ninodes := ninodes (sb t4) + 1\<rparr>, sb_dirty := True\<rparr>"
  have "alloc_inode s = (Inr n, t)"
    using loaded [OF d(1,2)] r0(1,2) r1(1,2) r0(5) d(6) w(1) g j
    by (cases t4) (simp add: alloc_inode_def init_data_def ino_mod_run on_sb_def t_def j'_def e_def assms(2) [symmetric])
  moreover have v: "view t = view t3" by (simp add: t_def t4_def buf_simps)
  moreover have "inodes t 0 = Some i3" using w(2,3) assms(4) by (simp add: t_def t4_def)
  moreover have "wr_ok t i3 = wr_ok t3 i3" by (rule wr_ok_sb [OF v]) (simp_all add: t_def t4_def)
  moreover have ts: "tslot t i3 = tslot t3 i3" by (simp add: tslot_def fun_eq_iff spec_cong(4) [OF v])
  moreover have "unmounted t = unmounted t3" by (simp add: t_def t4_def)
  ultimately have "table_ok t i3" using table_ok_D [OF w(2)] spec_cong(8) [OF v] by (simp add: table_ok_def)
  moreover have "\<forall>m. m \<noteq> 0 \<and> m \<noteq> n \<longrightarrow> inodes t m = inodes s m"
    using r0(3) r1(3) w(3) by (auto simp: t_def t4_def looked_def)
  ultimately show ?thesis using \<open>alloc_inode s = (Inr n, t)\<close> ts w(4) r0(5) r1(5)
    by (intro exI [of _ t] exI [of _ i3] exI [of _ j']) (auto simp: e_def t_def j'_def)
qed

lemma free_inode_run:
  assumes "table_ok s it" "n \<noteq> 0" "64 * unat n + 64 \<le> DIRECT_DATA_SIZE" "di_type (tslot s it (unat n)) \<noteq> 0"
    "length (di_addrs junk) = NUM_DIRECT_DATA"
  shows "\<exists>t it'. free_inode junk n s = (Inr (), t) \<and> table_ok t it'
    \<and> tslot t it' = (tslot s it)(0 := (tslot s it 0)\<lparr>di_size := n\<rparr>,
         unat n := junk\<lparr>di_size := di_size (tslot s it 0), di_type := ITYPE_NEXT_FREE_INODE\<rparr>)"
proof -
  note d = table_ok_D [OF assms(1)]
  have n: "unat n \<noteq> 0" using assms(2) by (simp add: unat_eq_0)
  have z: "64 * 0 + 64 \<le> DIRECT_DATA_SIZE" by simp
  obtain t1 i1 b0 where r0: "inode_read 0 (0 * 64) 64 s = (Inr b0, t1)" "dinode_of b0 = tslot s it 0" "looked s 0 it t1 i1"
    "table_ok t1 i1" "tslot t1 i1 = tslot s it" by (rule read_tslot [OF assms(1) z])
  let ?e0 = "(tslot s it 0)\<lparr>di_size := n\<rparr>"
  let ?e1 = "junk\<lparr>di_size := di_size (tslot s it 0), di_type := ITYPE_NEXT_FREE_INODE\<rparr>"
  have e: "length (di_addrs ?e0) = NUM_DIRECT_DATA" "di_type ?e0 = ITYPE_NEXT_FREE_INODE" "length (di_addrs ?e1) = NUM_DIRECT_DATA"
    using length_tslot d(6) assms(5) by simp_all
  obtain w t2 i2 where w: "inode_write 0 (0 * 64) (dinode_bytes ?e0) t1 = (Inr w, t2)" "table_ok t2 i2"
      "tslot t2 i2 = (tslot t1 i1)(0 := ?e0)"
    using write_tslot [OF r0(4), of 0 ?e0] e table_ok_D(6) [OF r0(4)] by auto
  obtain x t3 i3 where x: "inode_write 0 (unat n * 64) (dinode_bytes ?e1) t2 = (Inr x, t3)" "table_ok t3 i3"
      "tslot t3 i3 = (tslot t2 i2)(unat n := ?e1)"
    using write_tslot [OF w(2) assms(3) e(3)] assms(4) n w(3) r0(5) by auto
  define t where "t = t3\<lparr>sb := (sb t3)\<lparr>ninodes := ninodes (sb t3) - 1\<rparr>, sb_dirty := True\<rparr>"
  have "free_inode junk n s = (Inr (), t)"
    using loaded [OF d(1,2)] r0(1,2) d(6) w(1) x(1) by (cases t3) (simp add: free_inode_def on_sb_def t_def)
  moreover have v: "view t = view t3" by (simp add: t_def buf_simps)
  moreover have ts: "tslot t i3 = tslot t3 i3" by (simp add: tslot_def fun_eq_iff spec_cong(4) [OF v])
  moreover have "wr_ok t i3 = wr_ok t3 i3" by (rule wr_ok_sb [OF v]) (simp_all add: t_def)
  moreover have "inodes t = inodes t3" "unmounted t = unmounted t3" by (simp_all add: t_def)
  ultimately show ?thesis using table_ok_D [OF x(2)] spec_cong(8) [OF v] x(3) w(3) r0(5)
    by (intro exI [of _ t] exI [of _ i3]) (simp add: table_ok_def)
qed

section \<open>Properties\<close>

text \<open>
  A directory with one entry, the name \<open>a\<close> of inode 7, and an inode table, for the witnesses.
\<close>

definition demo_entry :: dirent where
  "demo_entry = \<lparr>de_inode = 7, de_name = 97 # replicate 27 0\<rparr>"

definition demo_dir :: minode where
  "demo_dir = demo_inode\<lparr>i_size := 32, i_type := ITYPE_DIR\<rparr>"

definition demo_node :: minode where
  "demo_node = demo_inode\<lparr>i_size := 0, i_nlinks := 2, i_addrs := replicate 13 NO_BLOCK\<rparr>"

definition demo_dfs :: nfs where
  "demo_dfs = small_fs\<lparr>inodes := [5 \<mapsto> demo_dir, 7 \<mapsto> demo_node],
     bufs := [2 \<mapsto> \<lparr>bdata = 31 # replicate 1023 0, bdirty = True\<rparr>,
              4 \<mapsto> \<lparr>bdata = dirent_bytes demo_entry @ replicate 992 0, bdirty = False\<rparr>]\<rparr>"

lemma demo_entry_bytes: "length (dirent_bytes demo_entry) = 32"
  by (simp add: dirent_bytes_def demo_entry_def)

lemma demo_dview: "\<exists>d. view demo_dfs b = Some d \<and> length d = BLOCK_SIZE"
  using demo_entry_bytes by (cases "b = 2"; cases "b = 4") (simp_all add: view_def demo_dfs_def small_fs_def)

lemma demo_dwr_ok: "wr_ok demo_dfs demo_dir"
proof -
  have g: "generic_block_start (sb demo_dfs) = 3" "total_blocks (sb demo_dfs) = 100" "next_free_bitmap (sb demo_dfs) = 2"
    by (simp_all add: demo_dfs_def small_fs_def)
  have "view demo_dfs 2 = view demo_fs 2" by (simp add: view_def demo_dfs_def demo_fs_def)
  then have bits: "blk_used demo_dfs n" if "n < 5" for n using demo_bits [OF that] that by (simp add: blk_used_def)
  have "block_ok demo_dfs a" for a using demo_dview by (simp add: block_ok_def)
  then have "file_ok demo_dfs demo_dir" by (simp add: file_ok_def chain_ok_def demo_dir_def demo_inode_def nth_ab_NO)
  moreover have "alloc_ok demo_dfs" using bits demo_dview by (simp add: alloc_ok_def g)
  moreover have "ind_blocks demo_dfs NO_BLOCK = {}" by (simp add: ind_blocks_def nth_ab_NO)
  moreover have "owned demo_dfs 4" using bits [of 4] by (simp add: owned_def g)
  moreover have "j = k" if "j < 13" "k < 13" "(4 # replicate 12 (- 1 :: u32)) ! j = (4 # replicate 12 (- 1)) ! k"
    "(4 # replicate 12 (- 1 :: u32)) ! j \<noteq> - 1" for j k
    using that by (cases j; cases k) auto
  ultimately show ?thesis using demo_dview by (auto simp: wr_ok_def demo_dir_def demo_inode_def)
qed

lemma demo_slot: "slot demo_dfs demo_dir 0 = demo_entry"
proof -
  have "map (fbyte demo_dfs demo_dir) [0..<32] = dirent_bytes demo_entry"
    using demo_entry_bytes by (intro nth_equalityI)
      (simp_all add: fbyte_def block_byte_def demo_dir_def demo_inode_def view_def demo_dfs_def nth_append)
  then show ?thesis using dirent_roundtrip [of demo_entry] by (simp add: slot_def) (simp add: demo_entry_def)
qed

lemma demo_dir_ok: "dir_ok demo_dfs 5 demo_dir"
proof -
  have "nslots demo_dir = 1" by (simp add: nslots_def demo_dir_def)
  moreover have "terminated (de_name (slot demo_dfs demo_dir 0))" unfolding demo_slot by (simp add: demo_entry_def terminated_def)
  moreover have "inodes demo_dfs 5 = Some demo_dir" by (simp add: demo_dfs_def)
  moreover have "i_valid demo_dir" "cache_ok demo_dfs demo_dir" "covered demo_dfs demo_dir 0 (unat (i_size demo_dir))"
    "unat (i_size demo_dir) = 32"
    by (simp_all add: demo_dir_def demo_inode_def cache_ok_def covered_def)
  ultimately show ?thesis using wr_ok_D(2) [OF demo_dwr_ok] by (simp add: dir_ok_def)
qed

text \<open>
  C16. \<open>lookup\<close> on a directory finds the first entry in use whose name is exactly the one asked for,
  loads its inode and binds the dentry to it; it returns \<open>-1\<close> exactly when there is none. The
  contents of no block change.
\<close>

theorem nfs_lookup_first_entry:
  assumes "dir_ok s ino i" "ino \<noteq> 0" "length (dname d) \<le> MAX_NAME_LENGTH" "0 \<notin> set (dname d)" "\<not> unmounted s"
    "\<And>k. k < nslots i \<Longrightarrow> names s i (dname d) k \<Longrightarrow> available s (de_inode (slot s i k))"
  shows "\<exists>r t. lookup ino d s = (Inr r, t) \<and> view t = view s
    \<and> ((\<forall>k<nslots i. \<not> names s i (dname d) k) \<and> r = (- 1, d)
       \<or> (\<exists>k<nslots i. names s i (dname d) k \<and> (\<forall>l<k. \<not> names s i (dname d) l)
           \<and> r = (0, d\<lparr>dino := Some (de_inode (slot s i k))\<rparr>)
           \<and> (\<exists>j. inodes t (de_inode (slot s i k)) = Some j \<and> i_valid j)))"
  using lookup_run [OF assms] .

lemma nfs_lookup_first_entry_witness:
  "\<exists>t. lookup 5 \<lparr>dname = [97], dino = None\<rparr> demo_dfs = (Inr (0, \<lparr>dname = [97], dino = Some 7\<rparr>), t) \<and> view t = view demo_dfs"
proof -
  have av: "available demo_dfs (de_inode (slot demo_dfs demo_dir k))"
    if "k < nslots demo_dir" "names demo_dfs demo_dir (dname \<lparr>dname = [97], dino = None\<rparr>) k" for k
  proof -
    have "k = 0" using that(1) by (simp add: nslots_def demo_dir_def)
    then show ?thesis using demo_slot
      by (simp add: available_def demo_entry_def) (simp add: demo_dfs_def demo_node_def demo_inode_def)
  qed
  have n0: "names demo_dfs demo_dir [97] 0" by (simp add: names_def in_use_def demo_slot) (simp add: demo_entry_def cstr_def)
  have one: "nslots demo_dir = 1" by (simp add: nslots_def demo_dir_def)
  have um: "\<not> unmounted demo_dfs" by (simp add: demo_dfs_def small_fs_def)
  have e: "de_inode (slot demo_dfs demo_dir 0) = 7" by (simp add: demo_slot demo_entry_def)
  from nfs_lookup_first_entry [OF demo_dir_ok _ _ _ um, of "\<lparr>dname = [97], dino = None\<rparr>", OF _ _ _ av] n0 one e
  show ?thesis by auto
qed



text \<open>
  \<open>unlink\<close> of a name with further links frees the slot of the first entry of that name, drops
  the link count and leaves the other slots alone; it returns \<open>-1\<close> when there is no such name.
\<close>

lemma nfs_unlink_removes_entry:
  assumes "dir_ok s ino i" "wr_ok s i" "unat (i_size i) \<le> DIRECT_DATA_SIZE" "length (dname d) \<le> MAX_NAME_LENGTH" "0 \<notin> set (dname d)"
    "dino d = Some n" "inodes s n = Some m" "i_valid m" "n \<noteq> ino" "i_nlinks m \<noteq> 1"
  shows "(\<exists>t. unlink k junk ino d s = (Inr (- 1), t) \<and> view t = view s \<and> (\<forall>j<nslots i. \<not> names s i (dname d) j))
    \<or> (\<exists>t j. unlink k junk ino d s = (Inl Task_Fail, t) \<and> j < nslots i \<and> slot_block_missing i j)
    \<or> (\<exists>t j i'. unlink k junk ino d s = (Inr 0, t) \<and> j < nslots i \<and> names s i (dname d) j \<and> (\<forall>l<j. \<not> names s i (dname d) l)
        \<and> dir_ok t ino i' \<and> \<not> in_use t i' j \<and> nslots i' = nslots i \<and> (\<forall>l. l \<noteq> j \<longrightarrow> slot t i' l = slot s i l)
        \<and> inodes t n = Some (m\<lparr>i_nlinks := i_nlinks m - 1, i_dirty := True\<rparr>))"
  using unlink_run [OF assms, of k junk]
proof (elim disjE exE conjE)
  fix t j i' assume run: "unlink k junk ino d s = (Inr 0, t)" "j < nslots i" "names s i (dname d) j" "\<forall>l<j. \<not> names s i (dname d) l"
    and u: "unlinked s ino i n m j t i'"
  then have "dir_ok t ino i' \<and> \<not> in_use t i' j \<and> nslots i' = nslots i \<and> (\<forall>l. l \<noteq> j \<longrightarrow> slot t i' l = slot s i l)
        \<and> inodes t n = Some (m\<lparr>i_nlinks := i_nlinks m - 1, i_dirty := True\<rparr>)"
    using assms(9) by (simp add: unlinked_def slot_written_def in_use_def)
  then show ?thesis using run by blast
qed blast+

lemma nfs_unlink_removes_entry_witness:
  "\<exists>t i'. unlink 0 (to_dinode demo_node) 5 \<lparr>dname = [97], dino = Some 7\<rparr> demo_dfs = (Inr 0, t)
    \<and> \<not> in_use t i' 0 \<and> dir_ok t 5 i'"
proof -
  have n0: "nslots demo_dir = 1" "names demo_dfs demo_dir [97] 0"
    by (simp add: nslots_def demo_dir_def) (simp add: names_def in_use_def demo_slot, simp add: demo_entry_def cstr_def)
  have "inodes demo_dfs 7 = Some demo_node" "i_valid demo_node" "i_nlinks demo_node \<noteq> 1" "unat (i_size demo_dir) \<le> DIRECT_DATA_SIZE"
    "\<not> slot_block_missing demo_dir 0"
    by (simp_all add: demo_dfs_def small_fs_def demo_node_def demo_inode_def demo_dir_def slot_block_missing_def)
  then show ?thesis
    using nfs_unlink_removes_entry [OF demo_dir_ok demo_dwr_ok, where n = 7 and m = demo_node and d = "\<lparr>dname = [97], dino = Some 7\<rparr>"
        and k = 0 and junk = "to_dinode demo_node"] n0
    by auto
qed

text \<open>
  The free inodes form a stack: an inode given back by \<open>free_inode\<close> is the one the next
  \<open>alloc_inode\<close> returns, with empty metadata, and both together leave the head of the free list and
  all other entries of the inode table as they were.
\<close>

lemma nfs_free_alloc_inode:
  assumes "table_ok s it" "n \<noteq> 0" "64 * unat n + 64 \<le> DIRECT_DATA_SIZE" "di_type (tslot s it (unat n)) \<noteq> 0"
    "length (di_addrs junk) = NUM_DIRECT_DATA"
  shows "\<exists>t u it' i. free_inode junk n s = (Inr (), t) \<and> alloc_inode t = (Inr n, u) \<and> table_ok u it'
    \<and> (\<forall>k. k \<noteq> unat n \<longrightarrow> tslot u it' k = tslot s it k)
    \<and> inodes u n = Some i \<and> i_valid i \<and> i_size i = 0 \<and> i_nlinks i = 0 \<and> i_addrs i = replicate NUM_DIRECT_DATA NO_BLOCK"
proof -
  have nz: "unat n \<noteq> 0" using assms(2) by (simp add: unat_eq_0)
  obtain t it1 where t: "free_inode junk n s = (Inr (), t)" "table_ok t it1"
    "tslot t it1 = (tslot s it)(0 := (tslot s it 0)\<lparr>di_size := n\<rparr>,
         unat n := junk\<lparr>di_size := di_size (tslot s it 0), di_type := ITYPE_NEXT_FREE_INODE\<rparr>)"
    using free_inode_run [OF assms] by blast
  have "n = di_size (tslot t it1 0)" using t(3) nz by simp
  from alloc_inode_run [OF t(2) this assms(3,2)] obtain u it' i where u: "alloc_inode t = (Inr n, u)" "table_ok u it'"
    "tslot u it' = (tslot t it1)(0 := (tslot t it1 0)\<lparr>di_size := next_free (tslot t it1 (unat n)) n\<rparr>)"
    "inodes u n = Some i" "i_valid i" "i_size i = 0" "i_nlinks i = 0" "i_addrs i = replicate NUM_DIRECT_DATA NO_BLOCK" by blast
  have "tslot u it' k = tslot s it k" if "k \<noteq> unat n" for k
    using that u(3) t(3) nz by (cases "k = 0") (simp_all add: next_free_def)
  then show ?thesis using t(1) u by blast
qed

text \<open>A table with the head of the free list and one inode in use.\<close>

definition demo_table :: minode where
  "demo_table = demo_inode\<lparr>i_size := 128\<rparr>"

definition demo_tfs :: nfs where
  "demo_tfs = small_fs\<lparr>inodes := [0 \<mapsto> demo_table],
     bufs := [2 \<mapsto> \<lparr>bdata = 31 # replicate 1023 0, bdirty = True\<rparr>,
              4 \<mapsto> \<lparr>bdata = replicate 7 0 @ [8] @ replicate 63 0 @ [1] @ replicate 952 0, bdirty = False\<rparr>]\<rparr>"

lemma demo_table_ok: "table_ok demo_tfs demo_table"
proof -
  have g: "generic_block_start (sb demo_tfs) = 3" "total_blocks (sb demo_tfs) = 100" "next_free_bitmap (sb demo_tfs) = 2"
    by (simp_all add: demo_tfs_def small_fs_def)
  have vw: "\<exists>d. view demo_tfs b = Some d \<and> length d = BLOCK_SIZE" for b
    by (cases "b = 2"; cases "b = 4") (simp_all add: view_def demo_tfs_def small_fs_def)
  have "view demo_tfs 2 = view demo_fs 2" by (simp add: view_def demo_tfs_def demo_fs_def)
  then have bits: "blk_used demo_tfs n" if "n < 5" for n using demo_bits [OF that] that by (simp add: blk_used_def)
  have "block_ok demo_tfs a" for a using vw by (simp add: block_ok_def)
  then have "file_ok demo_tfs demo_table" by (simp add: file_ok_def chain_ok_def demo_table_def demo_inode_def nth_ab_NO)
  moreover have "alloc_ok demo_tfs" using bits vw by (simp add: alloc_ok_def g)
  moreover have "ind_blocks demo_tfs NO_BLOCK = {}" by (simp add: ind_blocks_def nth_ab_NO)
  moreover have "owned demo_tfs 4" using bits [of 4] by (simp add: owned_def g)
  moreover have "j = k" if "j < 13" "k < 13" "(4 # replicate 12 (- 1 :: u32)) ! j = (4 # replicate 12 (- 1)) ! k"
    "(4 # replicate 12 (- 1 :: u32)) ! j \<noteq> - 1" for j k
    using that by (cases j; cases k) auto
  ultimately have "wr_ok demo_tfs demo_table" using vw by (auto simp: wr_ok_def demo_table_def demo_inode_def)
  moreover have "di_type (tslot demo_tfs demo_table 0) = 8"
    by (simp add: tslot_def dinode_of_def fbyte_def block_byte_def demo_table_def demo_inode_def view_def demo_tfs_def nth_append)
  ultimately show ?thesis
    by (simp add: table_ok_def) (simp add: demo_tfs_def small_fs_def demo_table_def demo_inode_def cache_ok_def)
qed

lemma nfs_free_alloc_inode_witness:
  "\<exists>t u i. free_inode (to_dinode demo_node) 1 demo_tfs = (Inr (), t) \<and> alloc_inode t = (Inr 1, u)
    \<and> inodes u 1 = Some i \<and> i_valid i \<and> i_nlinks i = 0"
proof -
  have "di_type (tslot demo_tfs demo_table 1) = 1"
    by (simp add: tslot_def dinode_of_def fbyte_def block_byte_def demo_table_def demo_inode_def view_def demo_tfs_def nth_append)
  then show ?thesis
    using nfs_free_alloc_inode [OF demo_table_ok, of 1 "to_dinode demo_node"] by (auto simp: to_dinode_def demo_node_def)
qed

end
