(* ===== verification/Nfs_Mount.thy ===== *)
theory Nfs_Mount
  imports Nfs_Names
begin

text \<open>
  Making, mounting and unmounting a file system (\<open>src/os/fs/nfs/nfs.cc\<close>). The order in which the
  inode cache flushes the inodes of the file system is an argument; the wait for inodes that are
  still referenced by other coroutines is left out, so \<open>unmount\<close> here is the case in which
  \<open>kernel_inode_cache.destroy\<close> reports no failure.
\<close>

section \<open>Unmounting and mounting\<close>

primrec flush_inodes :: "u32 list \<Rightarrow> unit nm" where
  "flush_inodes [] = kret ()"
| "flush_inodes (n # ns) = kseq (inode_flush n) (
  kseq (kmod (inodes_update (\<lambda>m. m(n := None)))) (
  flush_inodes ns))"

definition write_sb :: "unit nm" where
  "write_sb = kbind (kget sb_dirty) (\<lambda>dirty.
    if dirty then kbind (buf_get SUPER_BLOCK_INDEX) (\<lambda>d.
      kbind (kget sb) (\<lambda>b.
      kseq (buf_set SUPER_BLOCK_INDEX (bsplice d 0 (superblock_bytes b))) (
      kseq (buf_mark_dirty SUPER_BLOCK_INDEX) (
      kmod (sb_dirty_update (\<lambda>_. False))))))
    else kret ())"

definition unmount :: "u32 list \<Rightarrow> unit nm" where
  "unmount order = kbind (kget unmounted) (\<lambda>u.
    if u then kret ()
    else kseq (kmod (unmounted_update (\<lambda>_. True))) (
      kseq (flush_inodes order) (
      kseq (inode_flush INODE_TABLE_NUMBER) (
      kseq (kmod (inodes_update (\<lambda>m. m(INODE_TABLE_NUMBER := None)))) (
      kseq write_sb (
      kmod buf_destroy))))))"

definition mount :: "unit nm" where
  "mount = kbind (buf_get SUPER_BLOCK_INDEX) (\<lambda>d.
    if sb_magic (superblock_of d) \<noteq> NFS_MAGIC then kthrow Task_Fail
    else kseq (kmod (\<lambda>s. s\<lparr>sb := superblock_of d, unmounted := False, sb_dirty := False\<rparr>)) (
      kbind (get_inode ROOT_INODE_NUMBER) (\<lambda>r.
      kmod (inodes_update (\<lambda>m. m(INODE_TABLE_NUMBER \<mapsto> new_minode))))))"

section \<open>Making a file system\<close>

definition new_superblock :: "u32 \<Rightarrow> superblock" where
  "new_superblock nblocks = (let g = (nblocks - 2) * BITMAP_BLOCK_SIZE div (BITMAP_BLOCK_SIZE + 1) in
     \<lparr>sb_magic = NFS_MAGIC, total_blocks = nblocks, total_generic_blocks = g, used_generic_blocks = 0, ninodes = 2,
      generic_block_start = 2 + nblocks - g, next_free_bitmap = BITMAP_BLOCK_INDEX, sb_inode_table = to_dinode new_minode\<rparr>)"

primrec zero_blocks :: "nat \<Rightarrow> u32 \<Rightarrow> unit nm" where
  "zero_blocks 0 i = kret ()"
| "zero_blocks (Suc n) i = kbind (buf_get i) (\<lambda>d.
  kseq (buf_set i (replicate BLOCK_SIZE 0)) (
  kseq (buf_mark_dirty i) (
  zero_blocks n (i + 1))))"

primrec set_bits :: "nat \<Rightarrow> u32 \<Rightarrow> u64 list \<Rightarrow> u64 list option" where
  "set_bits 0 i ws = Some ws"
| "set_bits (Suc n) i ws = (case bitmap_set ws i of None \<Rightarrow> None | Some ws' \<Rightarrow> set_bits n (i + 1) ws')"

definition make_bitmap :: "u32 \<Rightarrow> unit nm" where
  "make_bitmap start = kseq (zero_blocks (unat start - 2) BITMAP_BLOCK_INDEX) (
    kbind (buf_get BITMAP_BLOCK_INDEX) (\<lambda>d.
    kbind (kopt (set_bits (unat start) 0 (words64 d))) (\<lambda>ws.
    kseq (buf_set BITMAP_BLOCK_INDEX (bytes64 ws)) (
    buf_mark_dirty BITMAP_BLOCK_INDEX))))"

definition make_fs :: "dinode \<Rightarrow> u32 \<Rightarrow> unit nm" where
  "make_fs junk nblocks = (if nblocks < 1024 then kthrow Task_Fail
    else kseq (kmod (\<lambda>s. s\<lparr>unmounted := False, sb := new_superblock nblocks, sb_dirty := True, inodes := (\<lambda>_. None)\<rparr>)) (
      kseq (make_bitmap (generic_block_start (new_superblock nblocks))) (
      kseq (kmod (inodes_update (\<lambda>m. m(INODE_TABLE_NUMBER \<mapsto> new_minode)))) (
      kseq (init_data INODE_TABLE_NUMBER) (
      kseq (ino_mod INODE_TABLE_NUMBER (\<lambda>i. i\<lparr>i_type := ITYPE_FILE, i_nlinks := 1, i_dirty := True\<rparr>)) (
      kseq (inode_write INODE_TABLE_NUMBER 0 (dinode_bytes (junk\<lparr>di_type := ITYPE_NEXT_FREE_INODE, di_nlinks := 1,
        di_size := ROOT_INODE_NUMBER + 1\<rparr>))) (
      kbind (get_inode ROOT_INODE_NUMBER) (\<lambda>p.
      kbind (kopt p) (\<lambda>r.
      kseq (init_data r) (
      kseq (ino_mod r (\<lambda>i. i\<lparr>i_type := ITYPE_DIR, i_nlinks := 1, i_dirty := True\<rparr>)) (
      unmount [ROOT_INODE_NUMBER])))))))))))"

section \<open>Lemmas\<close>

text \<open>Every buffer that differs from the device is marked dirty.\<close>

definition writeback_ok :: "nfs \<Rightarrow> bool" where
  "writeback_ok s \<longleftrightarrow> (\<forall>b nb. bufs s b = Some nb \<and> \<not> bdirty nb \<longrightarrow> disk s b = Some (bdata nb))"

lemma buf_destroy_view:
  assumes "writeback_ok s"
  shows "disk (buf_destroy s) = view s" "view (buf_destroy s) = view s"
proof -
  show d: "disk (buf_destroy s) = view s"
    using assms by (auto simp: buf_destroy_def view_def writeback_ok_def fun_eq_iff split: option.splits)
  have "view (buf_destroy s) = disk (buf_destroy s)" by (simp add: view_def buf_destroy_def fun_eq_iff)
  then show "view (buf_destroy s) = view s" using d by simp
qed

lemma view_eqI: "bufs t = bufs s \<Longrightarrow> disk t = disk s \<Longrightarrow> view t = view s"
  by (rule ext) (simp only: view_def)

lemma writeback_ok_ops:
  assumes "writeback_ok s"
  shows "writeback_ok (touch b s)" "writeback_ok (dirty_buf b (write_buf b x (touch b s)))"
  using assms by (auto simp: writeback_ok_def touch_def dirty_buf_def write_buf_def split: option.splits if_splits)

lemma write_sb_run:
  assumes "view s 1 = Some d" "length d = BLOCK_SIZE" "writeback_ok s" "length (di_addrs (sb_inode_table (sb s))) = NUM_DIRECT_DATA"
    "\<not> sb_dirty s \<Longrightarrow> superblock_of d = sb s"
  shows "\<exists>t. write_sb s = (Inr (), t) \<and> writeback_ok t \<and> (\<forall>b. b \<noteq> 1 \<longrightarrow> view t b = view s b)
    \<and> (\<exists>d'. view t 1 = Some d' \<and> length d' = BLOCK_SIZE \<and> superblock_of d' = sb s) \<and> sb t = sb s \<and> inodes t = inodes s
    \<and> unmounted t = unmounted s"
proof (cases "sb_dirty s")
  case False
  then have "write_sb s = (Inr (), s)" by (simp add: write_sb_def)
  then show ?thesis using assms False by blast
next
  case True
  define t where "t = dirty_buf 1 (write_buf 1 (bsplice d 0 (superblock_bytes (sb s))) (touch 1 s))"
  have "write_sb s = (Inr (), t\<lparr>sb_dirty := False\<rparr>)"
    using assms(1) True by (simp add: write_sb_def buf_simps t_def)
  moreover have "writeback_ok (t\<lparr>sb_dirty := False\<rparr>)"
    using writeback_ok_ops(2) [OF assms(3), of 1] by (simp add: t_def writeback_ok_def)
  moreover have "view (t\<lparr>sb_dirty := False\<rparr>) b = (if b = 1 then Some (bsplice d 0 (superblock_bytes (sb s))) else view s b)" for b
    using assms(1) by (simp add: t_def buf_simps)
  moreover have "bsplice d 0 (superblock_bytes (sb s)) = superblock_bytes (sb s) @ drop 92 d"
    using assms(4) by (simp add: bsplice_def length_superblock_bytes)
  ultimately show ?thesis using superblock_roundtrip [OF assms(4)] assms(2,4)
    by (intro exI [of _ "t\<lparr>sb_dirty := False\<rparr>"]) (simp add: length_superblock_bytes t_def buf_simps)
qed

definition clean_inode :: "nfs \<Rightarrow> u32 \<Rightarrow> bool" where
  "clean_inode s n \<longleftrightarrow> (\<exists>i. inodes s n = Some i \<and> \<not> (i_valid i \<and> i_dirty i))"

lemma flush_inodes_run:
  assumes "\<forall>n\<in>set ns. clean_inode s n" "distinct ns"
  shows "flush_inodes ns s = (Inr (), s\<lparr>inodes := (\<lambda>n. if n \<in> set ns then None else inodes s n)\<rparr>)"
  using assms
proof (induction ns arbitrary: s)
  case (Cons n ns)
  then obtain i where i: "inodes s n = Some i" "\<not> (i_valid i \<and> i_dirty i)" by (auto simp: clean_inode_def)
  define t where "t = s\<lparr>inodes := (inodes s)(n := None)\<rparr>"
  have "inode_flush n s = (Inr (), s)" using i by (auto simp: inode_flush_def ino_get_def)
  moreover have "inodes_update (\<lambda>m. m(n := None)) s = t" by (simp add: t_def)
  moreover have "flush_inodes ns t = (Inr (), t\<lparr>inodes := (\<lambda>n. if n \<in> set ns then None else inodes t n)\<rparr>)"
    using Cons.prems by (intro Cons.IH) (auto simp: clean_inode_def t_def)
  moreover have "t\<lparr>inodes := (\<lambda>n. if n \<in> set ns then None else inodes t n)\<rparr>
      = s\<lparr>inodes := (\<lambda>m. if m \<in> set (n # ns) then None else inodes s m)\<rparr>"
    by (simp add: t_def fun_eq_iff)
  ultimately show ?case by simp
qed simp

text \<open>The super block in memory after the inode table was flushed.\<close>

definition flushed_sb :: "nfs \<Rightarrow> minode \<Rightarrow> superblock" where
  "flushed_sb s it = (if i_dirty it then (sb s)\<lparr>sb_inode_table := to_dinode it\<rparr> else sb s)"

definition can_unmount :: "nfs \<Rightarrow> u32 list \<Rightarrow> minode \<Rightarrow> bool" where
  "can_unmount s order it \<longleftrightarrow> \<not> unmounted s \<and> writeback_ok s \<and> distinct order \<and> 0 \<notin> set order
     \<and> (\<forall>n\<in>set order. clean_inode s n) \<and> inodes s 0 = Some it \<and> i_valid it \<and> length (i_addrs it) = NUM_DIRECT_DATA
     \<and> (i_dirty it \<or> sb_inode_table (sb s) = to_dinode it) \<and> sb_magic (sb s) = NFS_MAGIC
     \<and> (\<exists>d. view s 1 = Some d \<and> length d = BLOCK_SIZE \<and> (sb_dirty s \<or> superblock_of d = sb s))"

lemma unmount_run:
  assumes "can_unmount s order it"
  shows "\<exists>t. unmount order s = (Inr (), t) \<and> unmounted t \<and> bufs t = (\<lambda>_. None) \<and> inodes t 0 = None
    \<and> (\<forall>n\<in>set order. inodes t n = None) \<and> (\<forall>b. b \<noteq> 1 \<longrightarrow> disk t b = view s b)
    \<and> (\<exists>d. disk t 1 = Some d \<and> length d = BLOCK_SIZE \<and> superblock_of d = flushed_sb s it)"
proof -
  note c = assms [unfolded can_unmount_def]
  define s1 where "s1 = s\<lparr>unmounted := True\<rparr>"
  define s2 where "s2 = s1\<lparr>inodes := (\<lambda>n. if n \<in> set order then None else inodes s1 n)\<rparr>"
  have f: "flush_inodes order s1 = (Inr (), s2)"
    unfolding s2_def using c by (intro flush_inodes_run) (auto simp: s1_def clean_inode_def)
  have i2: "inodes s2 0 = Some it" using c by (simp add: s2_def s1_def)
  define s3 where "s3 = (if i_dirty it then s2\<lparr>sb := flushed_sb s it, sb_dirty := True,
    inodes := (inodes s2)(0 \<mapsto> it\<lparr>i_dirty := False\<rparr>)\<rparr> else s2)"
  have g: "inode_flush 0 s2 = (Inr (), s3)"
    using i2 c by (cases s) (auto simp: inode_flush_def buf_simps on_sb_def s3_def flushed_sb_def s2_def s1_def)
  define s4 where "s4 = s3\<lparr>inodes := (inodes s3)(0 := None)\<rparr>"
  have s4: "inodes_update (\<lambda>m. m(0 := None)) s3 = s4" by (simp add: s4_def)
  have b4: "bufs s4 = bufs s" "disk s4 = disk s" "sb s4 = flushed_sb s it"
    by (simp_all add: s4_def s3_def s2_def s1_def flushed_sb_def)
  note e4 = view_eqI [OF b4(1,2)] b4
  have wb: "writeback_ok s4" using c e4 by (simp add: writeback_ok_def)
  obtain d where d: "view s 1 = Some d" "length d = BLOCK_SIZE" "sb_dirty s \<or> superblock_of d = sb s" using c by blast
  have "\<not> sb_dirty s4 \<Longrightarrow> superblock_of d = sb s4"
    using d(3) unfolding e4(4) by (auto simp: s4_def s3_def s2_def s1_def flushed_sb_def split: if_splits)
  moreover have "length (di_addrs (sb_inode_table (sb s4))) = NUM_DIRECT_DATA"
    using c unfolding e4(4) by (auto simp: flushed_sb_def to_dinode_def)
  moreover have "view s4 1 = Some d" using d(1) e4(1) by simp
  ultimately obtain t where t: "write_sb s4 = (Inr (), t)" "writeback_ok t" "\<forall>b. b \<noteq> 1 \<longrightarrow> view t b = view s4 b"
    "\<exists>d'. view t 1 = Some d' \<and> length d' = BLOCK_SIZE \<and> superblock_of d' = sb s4" "inodes t = inodes s4" "unmounted t = unmounted s4"
    using write_sb_run [of s4 d] d(2) wb by blast
  have "unmount order s = (Inr (), buf_destroy t)"
    using c f g t(1) s4 by (simp add: unmount_def s1_def [symmetric])
  moreover have "disk (buf_destroy t) = view t" using buf_destroy_view(1) [OF t(2)] .
  moreover have "unmounted t" "inodes t 0 = None" "\<forall>n\<in>set order. inodes t n = None"
    using t(5,6) by (auto simp: s4_def s3_def s2_def s1_def)
  ultimately show ?thesis using t(3,4) e4
    by (intro exI [of _ "buf_destroy t"]) (simp add: buf_destroy_def)
qed

section \<open>The bitmap of a new file system\<close>

lemma zero_blocks_run:
  assumes "unat i + n < 2 ^ 32" "\<And>b. i \<le> b \<Longrightarrow> unat b < unat i + n \<Longrightarrow> \<exists>d. view s b = Some d"
  shows "\<exists>t. zero_blocks n i s = (Inr (), t) \<and> sb t = sb s \<and> inodes t = inodes s \<and> unmounted t = unmounted s \<and> sb_dirty t = sb_dirty s
    \<and> (\<forall>b. view t b = (if i \<le> b \<and> unat b < unat i + n then Some (replicate BLOCK_SIZE 0) else view s b))"
  using assms
proof (induction n arbitrary: i s)
  case 0
  have "\<not> (i \<le> b \<and> unat b < unat i)" for b by (simp add: word_le_nat_alt)
  then show ?case by auto
next
  case (Suc n)
  obtain d where d: "view s i = Some d" using Suc.prems(2) [of i] by auto
  define u where "u = dirty_buf i (write_buf i (replicate BLOCK_SIZE 0) (touch i s))"
  have u: "sb u = sb s" "inodes u = inodes s" "unmounted u = unmounted s" "sb_dirty u = sb_dirty s"
      "\<And>b. view u b = (if b = i then Some (replicate BLOCK_SIZE 0) else view s b)"
    using d by (simp_all add: u_def buf_simps)
  have step: "zero_blocks (Suc n) i s = zero_blocks n (i + 1) u" using d by (simp add: buf_simps u_def)
  have i1: "unat (i + 1) = unat i + 1" using Suc.prems(1) by (simp add: unat_word_ariths)
  have le: "i + 1 \<le> b \<longleftrightarrow> i \<le> b \<and> b \<noteq> i" for b by (auto simp: word_le_nat_alt i1 word_unat_eq_iff)
  have "\<exists>d. view u b = Some d" if "i + 1 \<le> b" "unat b < unat (i + 1) + n" for b
    using that Suc.prems(2) [of b] i1 by (simp add: u le)
  with Suc.IH [of "i + 1" u] obtain t where t: "zero_blocks n (i + 1) u = (Inr (), t)" "sb t = sb u" "inodes t = inodes u"
    "unmounted t = unmounted u" "sb_dirty t = sb_dirty u"
    "\<And>b. view t b = (if i + 1 \<le> b \<and> unat b < unat (i + 1) + n then Some (replicate BLOCK_SIZE 0) else view u b)"
    using Suc.prems(1) i1 by auto
  have "view t b = (if i \<le> b \<and> unat b < unat i + Suc n then Some (replicate BLOCK_SIZE 0) else view s b)" for b
    unfolding t(6) u(5) le i1 by auto
  then show ?case using step t u by auto
qed

lemma set_bits_run:
  assumes "unat i + n \<le> 64 * length ws" "unat i + n < 2 ^ 32"
  shows "\<exists>ws'. set_bits n i ws = Some ws' \<and> length ws' = length ws
    \<and> (\<forall>m. bm_bit ws' m = (unat i \<le> m \<and> m < unat i + n \<or> bm_bit ws m))"
  using assms
proof (induction n arbitrary: i ws)
  case (Suc n)
  obtain w1 where w1: "bitmap_set ws i = Some w1" "length w1 = length ws" "\<forall>m. bm_bit w1 m = (m = unat i \<or> bm_bit ws m)"
    using bitmap_set_run [of i ws] Suc.prems(1) by auto
  have i1: "unat (i + 1) = unat i + 1" using Suc.prems(2) by (simp add: unat_word_ariths)
  have "\<exists>ws'. set_bits n (i + 1) w1 = Some ws' \<and> length ws' = length w1
    \<and> (\<forall>m. bm_bit ws' m = (unat (i + 1) \<le> m \<and> m < unat (i + 1) + n \<or> bm_bit w1 m))"
    using Suc.IH [of "i + 1" w1] Suc.prems w1(2) i1 by simp
  moreover have "(unat i + 1 \<le> m \<and> m < unat i + 1 + n \<or> m = unat i \<or> x) = (unat i \<le> m \<and> m < unat i + Suc n \<or> x)" for m x by auto
  ultimately show ?case using w1 i1 by auto
qed auto

lemma new_superblock_start:
  assumes "1024 \<le> unat nblocks" "unat nblocks < 2 ^ 19"
  defines "g \<equiv> unat (generic_block_start (new_superblock nblocks))"
  shows "4 < g" "g \<le> 68" "unat nblocks < 8192 * (g - 2)"
proof -
  define w where "w = nblocks - 2"
  define m where "m = unat nblocks - 2"
  have m: "unat w = m" "m < 2 ^ 19" "1022 \<le> m"
    using assms(1,2) unat_sub [of 2 nblocks] by (simp_all add: w_def m_def word_le_nat_alt)
  have p: "unat (w * 8192) = m * 8192" using m(1,2) by (simp add: unat_word_ariths)
  define q where "q = m * 8192 div 8193"
  have q: "unat (w * 8192 div 8193) = q" by (simp add: unat_div p q_def)
  have qb: "8193 * q \<le> 8192 * m" "8192 * m < 8193 * q + 8193"
    using times_div_less_eq_dividend [of 8193 "m * 8192"] dividend_less_times_div [of 8193 "m * 8192"] by (simp_all add: q_def)
  have N: "unat nblocks = m + 2" using assms(1) by (simp add: m_def)
  have s4: "unat (2 + nblocks) = m + 4" using N m(2) by (simp add: unat_word_ariths)
  have "w * 8192 div 8193 \<le> 2 + nblocks" unfolding word_le_nat_alt q s4 using qb by simp
  from unat_sub [OF this] have "unat (2 + nblocks - w * 8192 div 8193) = m + 4 - q" unfolding q s4 .
  moreover have "generic_block_start (new_superblock nblocks) = 2 + nblocks - w * 8192 div 8193"
    by (simp only: new_superblock_def Let_def w_def superblock.select_convs) (simp only: one_plus_numeral add.commute, simp)
  ultimately have "g = m + 4 - q" by (simp only: g_def)
  then show "4 < g" "g \<le> 68" "unat nblocks < 8192 * (g - 2)" using qb m(2,3) N by simp_all
qed

lemma make_bitmap_run:
  assumes "2 < start" "unat start \<le> 8192" "\<And>b. 2 \<le> b \<Longrightarrow> b < start \<Longrightarrow> \<exists>d. view s b = Some d"
  shows "\<exists>t. make_bitmap start s = (Inr (), t) \<and> sb t = sb s
    \<and> (\<forall>b. 2 \<le> b \<and> b < start \<longrightarrow> (\<exists>d. view t b = Some d \<and> length d = BLOCK_SIZE))
    \<and> (\<forall>b. \<not> (2 \<le> b \<and> b < start) \<longrightarrow> view t b = view s b)
    \<and> (\<forall>n < 8192 * (unat start - 2). blk_used t n = (n < unat start))"
proof -
  have st: "2 < unat start" using assms(1) by (simp add: word_less_nat_alt)
  have rng: "2 \<le> b \<and> unat b < unat (2::u32) + (unat start - 2) \<longleftrightarrow> 2 \<le> b \<and> b < start" for b
  proof -
    have "unat (2::u32) + (unat start - 2) = unat start" using st by simp
    then show ?thesis by (simp only: word_less_nat_alt)
  qed
  have small: "unat (2::u32) + (unat start - 2) < 2 ^ 32" using assms(2) st by simp
  have rd: "\<exists>d. view s b = Some d" if "2 \<le> b" "unat b < unat (2::u32) + (unat start - 2)" for b
    using that rng [of b] by (intro assms(3)) blast+
  obtain t where t: "zero_blocks (unat start - 2) 2 s = (Inr (), t)" "sb t = sb s"
      "\<And>b. view t b = (if 2 \<le> b \<and> b < start then Some (replicate BLOCK_SIZE 0) else view s b)"
    using zero_blocks_run [OF small rd] unfolding rng by auto
  let ?z = "replicate BLOCK_SIZE 0 :: u8 list"
  have v2: "view t 2 = Some ?z" using t(3) assms(1) by simp
  have z: "\<not> bm_bit (words64 ?z) n" for n
    using bit_words64 [of n ?z] by (auto simp: bm_bit_def)
  obtain ws where ws: "set_bits (unat start) 0 (words64 ?z) = Some ws" "length ws = 128" "\<forall>m. bm_bit ws m = (m < unat start)"
    using set_bits_run [of 0 "unat start" "words64 ?z"] assms(2) z by auto
  define u where "u = dirty_buf 2 (write_buf 2 (bytes64 ws) (touch 2 t))"
  have vu: "view u b = (if b = 2 then Some (bytes64 ws) else view t b)" for b using v2 by (simp add: u_def buf_simps)
  have "make_bitmap start s = (Inr (), u)" using t(1) v2 ws(1) by (simp add: make_bitmap_def buf_simps u_def)
  moreover have "sb u = sb s" using t(2) v2 by (simp add: u_def buf_simps)
  moreover have "length (bytes64 ws) = BLOCK_SIZE" using ws(2) by simp
  moreover have "blk_used u n = (n < unat start)" if n: "n < 8192 * (unat start - 2)" for n
  proof (cases "n < 8192")
    case True
    then show ?thesis using ws(3) by (simp add: blk_used_def vu words64_bytes64)
  next
    case False
    have k: "n div 8192 < unat start - 2" "0 < n div 8192" using n False by (simp_all add: less_mult_imp_div_less mult.commute div_greater_zero_iff)
    then have lt: "n div 8192 < 2 ^ 32 - 2" using assms(2) by simp
    then have un: "unat (2 + of_nat (n div 8192) :: u32) = 2 + n div 8192"
      by (simp add: unat_word_ariths unat_of_nat_lt)
    then have "2 + of_nat (n div 8192) \<noteq> (2::u32)" "(2::u32) \<le> 2 + of_nat (n div 8192)" "2 + of_nat (n div 8192) < start"
      using k by (auto simp: word_less_nat_alt word_le_nat_alt word_unat_eq_iff)
    then show ?thesis using False z assms(2) by (simp add: blk_used_def vu t(3))
  qed
  ultimately show ?thesis using t(3) vu assms(1) by (intro exI [of _ u]) auto
qed

section \<open>Properties\<close>



text \<open>
  The bitmap \<open>make_fs\<close> writes for a device of 1024 to \<open>2^19 - 1\<close> blocks is the right one: the marked
  blocks are exactly those in front of the generic blocks, the bitmap blocks cover every block of the
  device, no other block changes, and the state satisfies what block allocation relies on.
\<close>

lemma nfs_make_fs_bitmap:
  assumes "1024 \<le> unat nblocks" "unat nblocks < 2 ^ 19" "sb s = new_superblock nblocks" "\<And>b. b < nblocks \<Longrightarrow> \<exists>d. view s b = Some d"
  shows "\<exists>t. make_bitmap (generic_block_start (sb s)) s = (Inr (), t) \<and> alloc_ok t
    \<and> (\<forall>n < unat nblocks. blk_used t n = (n < unat (generic_block_start (sb s))))
    \<and> (\<forall>b. \<not> (2 \<le> b \<and> b < generic_block_start (sb s)) \<longrightarrow> view t b = view s b)"
proof -
  note g = new_superblock_start [OF assms(1,2)]
  have rd: "\<exists>d. view s b = Some d" if "b < generic_block_start (sb s)" for b
    using that g(2) assms(1,3) by (intro assms(4)) (simp add: word_less_nat_alt)
  have st: "2 < generic_block_start (sb s)" "unat (generic_block_start (sb s)) \<le> 8192"
    using g(1,2) assms(3) by (simp_all add: word_less_nat_alt)
  obtain t where t: "make_bitmap (generic_block_start (sb s)) s = (Inr (), t)" "sb t = sb s"
    "\<forall>b. 2 \<le> b \<and> b < generic_block_start (sb s) \<longrightarrow> (\<exists>d. view t b = Some d \<and> length d = BLOCK_SIZE)"
    "\<forall>b. \<not> (2 \<le> b \<and> b < generic_block_start (sb s)) \<longrightarrow> view t b = view s b"
    "\<forall>n < 8192 * (unat (generic_block_start (sb s)) - 2). blk_used t n = (n < unat (generic_block_start (sb s)))"
    using make_bitmap_run [OF st rd] by blast
  have tb: "total_blocks (sb s) = nblocks" "next_free_bitmap (sb s) = 2" by (simp_all add: assms(3) new_superblock_def Let_def)
  have "blk_used t n" if "n < unat (generic_block_start (sb s))" for n
    using t(5) that g assms(3) by simp
  then have "alloc_ok t" using t(2,3) tb st(1) g assms(3) by (simp add: alloc_ok_def)
  moreover have "\<forall>n < unat nblocks. blk_used t n = (n < unat (generic_block_start (sb s)))" using t(5) g(3) assms(3) by simp
  ultimately show ?thesis using t(1,4) by blast
qed

lemma nfs_make_fs_bitmap_witness:
  "\<exists>t. make_bitmap (generic_block_start (sb (small_fs\<lparr>sb := new_superblock 2048\<rparr>))) (small_fs\<lparr>sb := new_superblock 2048\<rparr>) = (Inr (), t)
    \<and> alloc_ok t
    \<and> (\<forall>n < unat (2048::u32). blk_used t n = (n < unat (generic_block_start (sb (small_fs\<lparr>sb := new_superblock 2048\<rparr>)))))
    \<and> (\<forall>b. \<not> (2 \<le> b \<and> b < generic_block_start (sb (small_fs\<lparr>sb := new_superblock 2048\<rparr>))) \<longrightarrow>
        view t b = view (small_fs\<lparr>sb := new_superblock 2048\<rparr>) b)"
  by (rule nfs_make_fs_bitmap) (simp_all add: view_def small_fs_def)

end
