(* ===== verification/Buffer_Manager.thy ===== *)
theory Buffer_Manager
  imports Prelude
begin

text \<open>
  The buffer cache (\<open>src/os/utils/buffer_manager.h\<close>, \<open>src/os/utils/buffer.h\<close>, \<open>src/os/device/block/buf.h\<close>).
  Nodes live in a heap and are named by pointers; \<open>b_refs\<close> counts the shared pointers to a node
  besides the one of the list. A \<open>get\<close> is up to three atomic pieces: the part under the first lock
  (\<open>get_enter\<close>), the flush of the node that is reused, which runs without the lock, and the part
  under the second lock (\<open>get_finish\<close>); the copy of the pointer that is returned belongs to the
  piece it ends. Device 0 is the null pointer.
\<close>

section \<open>State\<close>

record bnode =
  b_bdev :: nat
  b_block :: nat
  b_valid :: bool
  b_dirty :: bool
  b_data :: "u8 list"
  b_refs :: nat

record bman =
  heap :: "nat \<Rightarrow> bnode option"
  buffer_list :: "nat list"
  flush_list :: "nat list"
  locked :: bool
  fresh :: nat
  mem_left :: nat
  devs :: "nat \<Rightarrow> nat \<Rightarrow> u8 list option"

type_synonym 'a bm = "(bman, 'a) kmonad"

definition bmatch :: "nat \<Rightarrow> nat \<Rightarrow> bnode \<Rightarrow> bool" where
  "bmatch bdev block_no nd \<longleftrightarrow> b_bdev nd = bdev \<and> b_block nd = block_no"

definition node_matches :: "bman \<Rightarrow> nat \<Rightarrow> nat \<Rightarrow> nat \<Rightarrow> bool" where
  "node_matches m bdev block_no p \<longleftrightarrow> (case heap m p of None \<Rightarrow> False | Some nd \<Rightarrow> bmatch bdev block_no nd)"

definition node_unused :: "bman \<Rightarrow> nat \<Rightarrow> bool" where
  "node_unused m p \<longleftrightarrow> (case heap m p of None \<Rightarrow> False | Some nd \<Rightarrow> b_refs nd = 0)"

definition node_mod :: "nat \<Rightarrow> (bnode \<Rightarrow> bnode) \<Rightarrow> unit bm" where
  "node_mod p f = kmod (\<lambda>m. m\<lparr>heap := (heap m)(p := map_option f (heap m p))\<rparr>)"

definition node_init :: "nat \<Rightarrow> nat \<Rightarrow> nat \<Rightarrow> unit bm" where
  "node_init p bdev block_no = node_mod p (\<lambda>nd. nd\<lparr>b_bdev := bdev, b_block := block_no, b_valid := False\<rparr>)"

definition take_ref :: "nat \<Rightarrow> unit bm" where
  "take_ref p = node_mod p (\<lambda>nd. nd\<lparr>b_refs := b_refs nd + 1\<rparr>)"

definition put_ref :: "nat \<Rightarrow> unit bm" where
  "put_ref p = node_mod p (\<lambda>nd. nd\<lparr>b_refs := b_refs nd - 1\<rparr>)"

definition m_lock :: "unit bm" where
  "m_lock = kmod (\<lambda>m. m\<lparr>locked := True\<rparr>)"

definition m_unlock :: "unit bm" where
  "m_unlock = kmod (\<lambda>m. m\<lparr>locked := False\<rparr>)"

section \<open>Getting a node\<close>

datatype got = Wait_Flush | Ready nat | Must_Flush nat

definition new_node :: bnode where
  "new_node = \<lparr>b_bdev = 0, b_block = 0, b_valid = False, b_dirty = False, b_data = replicate 1024 0, b_refs = 0\<rparr>"

text \<open>The backwards search for a node nobody uses, once there are \<open>min_buffer_count\<close> nodes.\<close>

definition pick_unused :: "nat \<Rightarrow> bman \<Rightarrow> nat option" where
  "pick_unused min_buffer_count m = (if length (buffer_list m) \<ge> min_buffer_count
     then List.find (node_unused m) (rev (buffer_list m)) else None)"

definition get_hit :: "nat \<Rightarrow> got bm" where
  "get_hit p = kseq (kmod (\<lambda>m. m\<lparr>buffer_list := p # remove1 p (buffer_list m)\<rparr>)) (
    kseq m_unlock (
    kseq (take_ref p) (
    kret (Ready p))))"

definition get_new :: "nat \<Rightarrow> nat \<Rightarrow> nat \<Rightarrow> got bm" where
  "get_new max_buffer_count bdev block_no = kbind (kget (\<lambda>m. (length (buffer_list m), mem_left m, fresh m))) (\<lambda>(n, avail, p).
    if n \<ge> max_buffer_count then kseq m_unlock (
      kthrow Task_Fail)
    else if avail = 0 then kthrow Task_Fail
    else kseq (kmod (\<lambda>m. m\<lparr>heap := (heap m)(p \<mapsto> new_node), fresh := p + 1, mem_left := mem_left m - 1\<rparr>)) (
      kseq (node_init p bdev block_no) (
      kseq (kmod (\<lambda>m. m\<lparr>buffer_list := p # buffer_list m\<rparr>)) (
      kseq m_unlock (
      kseq (take_ref p) (
      kret (Ready p)))))))"

definition get_reuse :: "nat \<Rightarrow> nat \<Rightarrow> nat \<Rightarrow> got bm" where
  "get_reuse p bdev block_no = kseq (kmod (\<lambda>m. m\<lparr>buffer_list := remove1 p (buffer_list m)\<rparr>)) (
    kbind (kget (\<lambda>m. heap m p)) (\<lambda>c.
    kbind (kopt c) (\<lambda>nd.
    if \<not> b_dirty nd then kseq (node_init p bdev block_no) (
      kseq (kmod (\<lambda>m. m\<lparr>buffer_list := p # buffer_list m\<rparr>)) (
      kseq m_unlock (
      kseq (take_ref p) (
      kret (Ready p)))))
    else kseq (kmod (\<lambda>m. m\<lparr>flush_list := flush_list m @ [p]\<rparr>)) (
      kseq m_unlock (
      kret (Must_Flush p))))))"

definition find_node :: "nat \<Rightarrow> nat \<Rightarrow> bman \<Rightarrow> nat option" where
  "find_node bdev block_no m = List.find (node_matches m bdev block_no) (buffer_list m)"

definition in_flush :: "nat \<Rightarrow> nat \<Rightarrow> bman \<Rightarrow> bool" where
  "in_flush bdev block_no m \<longleftrightarrow> (\<exists>p\<in>set (flush_list m). node_matches m bdev block_no p)"

definition get_enter :: "nat \<Rightarrow> nat \<Rightarrow> nat \<Rightarrow> nat \<Rightarrow> got bm" where
  "get_enter min_buffer_count max_buffer_count bdev block_no = kseq m_lock (
    kbind (kget (\<lambda>m. (in_flush bdev block_no m, find_node bdev block_no m, pick_unused min_buffer_count m))) (\<lambda>(w, hit, un).
    if w then kseq m_unlock (
      kret Wait_Flush)
    else case hit of
      Some p \<Rightarrow> get_hit p
    | None \<Rightarrow> (case un of
        None \<Rightarrow> get_new max_buffer_count bdev block_no
      | Some p \<Rightarrow> get_reuse p bdev block_no)))"

text \<open>\<open>load\<close> and \<open>flush\<close> of a node, through \<open>block_buffer_node::__load\<close> and \<open>__flush\<close>.\<close>

definition node_load :: "nat \<Rightarrow> unit bm" where
  "node_load p = kbind (kget id) (\<lambda>m.
    kbind (kopt (heap m p)) (\<lambda>nd.
    if \<not> b_valid nd then (case devs m (b_bdev nd) (b_block nd) of
        None \<Rightarrow> kthrow Task_Fail
      | Some x \<Rightarrow> node_mod p (\<lambda>nd. nd\<lparr>b_data := x, b_valid := True, b_dirty := False\<rparr>))
    else kret ()))"

definition node_flush :: "nat \<Rightarrow> unit bm" where
  "node_flush p = kbind (kget id) (\<lambda>m.
    kbind (kopt (heap m p)) (\<lambda>nd.
    if b_valid nd \<and> b_dirty nd then (case devs m (b_bdev nd) (b_block nd) of
        None \<Rightarrow> kthrow Task_Fail
      | Some x \<Rightarrow> kseq (kmod (devs_update (\<lambda>d. d(b_bdev nd := (d (b_bdev nd))(b_block nd \<mapsto> b_data nd))))) (
        node_mod p (b_dirty_update (\<lambda>_. False))))
    else kret ()))"

definition get_finish :: "nat \<Rightarrow> nat \<Rightarrow> nat \<Rightarrow> nat bm" where
  "get_finish p bdev block_no = kseq m_lock (
    kseq (kmod (\<lambda>m. m\<lparr>flush_list := remove1 p (flush_list m)\<rparr>)) (
    kbind (kget (find_node bdev block_no)) (\<lambda>hit.
    case hit of
      None \<Rightarrow> kseq (node_init p bdev block_no) (
        kseq (kmod (\<lambda>m. m\<lparr>buffer_list := p # buffer_list m\<rparr>)) (
        kseq m_unlock (
        kseq (take_ref p) (
        kret p))))
    | Some q \<Rightarrow> kseq (node_init p 0 0) (
      kseq (kmod (\<lambda>m. m\<lparr>buffer_list := buffer_list m @ [p]\<rparr>)) (
      kseq m_unlock (
      kseq (take_ref q) (
      kret q)))))))"

text \<open>A \<open>get\<close> that is not interleaved with another one.\<close>

definition manager_get :: "nat \<Rightarrow> nat \<Rightarrow> nat \<Rightarrow> nat \<Rightarrow> nat bm" where
  "manager_get min_buffer_count max_buffer_count bdev block_no = kbind (get_enter min_buffer_count max_buffer_count bdev block_no) (\<lambda>r.
    (case r of
        Wait_Flush \<Rightarrow> kthrow Out_Of_Fuel
      | Ready p \<Rightarrow> kret p
      | Must_Flush p \<Rightarrow> kseq (node_flush p) (
        get_finish p bdev block_no)))"

text \<open>Storing into a node through a reference, followed by \<open>mark_dirty\<close>.\<close>

definition node_store :: "nat \<Rightarrow> u8 list \<Rightarrow> unit bm" where
  "node_store p x = node_mod p (\<lambda>nd. nd\<lparr>b_data := x, b_dirty := True\<rparr>)"

section \<open>Dropping the nodes of a device\<close>

primrec flush_nodes :: "nat list \<Rightarrow> unit bm" where
  "flush_nodes [] = kret ()"
| "flush_nodes (p # ps) = kseq (node_flush p) (
  kseq (node_init p 0 0) (
  flush_nodes ps))"

definition on_device :: "bman \<Rightarrow> nat \<Rightarrow> nat \<Rightarrow> bool" where
  "on_device m bdev p \<longleftrightarrow> (case heap m p of None \<Rightarrow> False | Some nd \<Rightarrow> b_bdev nd \<noteq> 0 \<and> b_bdev nd = bdev)"

definition destroy :: "nat \<Rightarrow> nat bm" where
  "destroy bdev = kbind (kget (\<lambda>m. (buffer_list m, on_device m bdev, node_unused m))) (\<lambda>(l, mine, unused).
    kseq (kmod (\<lambda>m. m\<lparr>buffer_list := filter (\<lambda>p. \<not> mine p) l\<rparr>)) (
    kseq (flush_nodes (filter (\<lambda>p. mine p \<and> unused p) l)) (
    kseq (kmod (\<lambda>m. m\<lparr>buffer_list := buffer_list m @ filter (\<lambda>p. mine p \<and> unused p) l\<rparr>)) (
    kret (length (filter (\<lambda>p. mine p \<and> \<not> unused p) l))))))"

section \<open>What the cache stores\<close>

lemma field_simps [simp]:
  "node_matches (m\<lparr>locked := l\<rparr>) = node_matches m" "node_matches (m\<lparr>flush_list := f\<rparr>) = node_matches m"
  "node_matches (m\<lparr>buffer_list := f\<rparr>) = node_matches m"
  "node_unused (m\<lparr>locked := l\<rparr>) = node_unused m" "node_unused (m\<lparr>flush_list := f\<rparr>) = node_unused m"
  "node_unused (m\<lparr>buffer_list := f\<rparr>) = node_unused m"
  by (simp_all add: node_matches_def node_unused_def fun_eq_iff)

lemma lookup_simps [simp]:
  "pick_unused n (m\<lparr>locked := l\<rparr>) = pick_unused n m" "in_flush d b (m\<lparr>locked := l\<rparr>) = in_flush d b m"
  "find_node d b (m\<lparr>locked := l\<rparr>) = find_node d b m" "find_node d b (m\<lparr>flush_list := f\<rparr>) = find_node d b m"
  by (simp_all add: pick_unused_def in_flush_def find_node_def)

lemmas run_defs = m_lock_def m_unlock_def node_init_def node_mod_def take_ref_def get_hit_def get_new_def get_reuse_def

definition all_nodes :: "bman \<Rightarrow> nat list" where
  "all_nodes m = buffer_list m @ flush_list m"

definition holds_block :: "bman \<Rightarrow> nat \<Rightarrow> nat \<Rightarrow> nat \<Rightarrow> bool" where
  "holds_block m d b p \<longleftrightarrow> (case heap m p of None \<Rightarrow> False | Some nd \<Rightarrow> bmatch d b nd \<and> b_valid nd)"

text \<open>The contents of a block: those of the valid node for it, else those of the device.\<close>

definition bview :: "bman \<Rightarrow> nat \<Rightarrow> nat \<Rightarrow> u8 list option" where
  "bview m d b = (case List.find (holds_block m d b) (all_nodes m) of
      Some p \<Rightarrow> map_option b_data (heap m p)
    | None \<Rightarrow> devs m d b)"

text \<open>
  The invariant: every listed node exists and is listed once; two listed nodes are never for the
  same block of a device; a valid node that is not dirty agrees with the device; nobody holds a
  reference to a node that is being flushed.
\<close>

definition node_ok :: "bman \<Rightarrow> bnode \<Rightarrow> bool" where
  "node_ok m nd \<longleftrightarrow> (b_valid nd \<longrightarrow> b_bdev nd \<noteq> 0 \<and> devs m (b_bdev nd) (b_block nd) \<noteq> None
     \<and> (\<not> b_dirty nd \<longrightarrow> devs m (b_bdev nd) (b_block nd) = Some (b_data nd)))"

definition binv :: "bman \<Rightarrow> bool" where
  "binv m \<longleftrightarrow> distinct (all_nodes m) \<and> (\<forall>p\<in>set (all_nodes m). \<exists>nd. heap m p = Some nd \<and> node_ok m nd)
     \<and> (\<forall>p. fresh m \<le> p \<longrightarrow> heap m p = None)
     \<and> (\<forall>p\<in>set (all_nodes m). \<forall>q\<in>set (all_nodes m). \<forall>d b. d \<noteq> 0 \<and> node_matches m d b p \<and> node_matches m d b q \<longrightarrow> p = q)
     \<and> (\<forall>p\<in>set (flush_list m). node_unused m p)"

lemma binv_D:
  assumes "binv m"
  shows "distinct (all_nodes m)" "\<And>p. p \<in> set (all_nodes m) \<Longrightarrow> \<exists>nd. heap m p = Some nd \<and> node_ok m nd"
    "\<And>p. fresh m \<le> p \<Longrightarrow> heap m p = None"
    "\<And>p q d b. p \<in> set (all_nodes m) \<Longrightarrow> q \<in> set (all_nodes m) \<Longrightarrow> d \<noteq> 0 \<Longrightarrow> node_matches m d b p \<Longrightarrow> node_matches m d b q \<Longrightarrow> p = q"
    "\<And>p. p \<in> set (flush_list m) \<Longrightarrow> node_unused m p"
  using assms unfolding binv_def by blast+

lemma holds_matches: "holds_block m d b p \<Longrightarrow> node_matches m d b p"
  by (auto simp: holds_block_def node_matches_def split: option.splits)

lemma bview_node:
  assumes "binv m" "d \<noteq> 0" "p \<in> set (all_nodes m)" "holds_block m d b p"
  shows "bview m d b = map_option b_data (heap m p)"
proof -
  obtain q where q: "List.find (holds_block m d b) (all_nodes m) = Some q"
    using assms(3,4) by (cases "List.find (holds_block m d b) (all_nodes m)") (auto simp: find_None_iff)
  then have "q \<in> set (all_nodes m)" "holds_block m d b q" by (auto simp: find_Some_iff)
  then have "q = p" using binv_D(4) [OF assms(1) _ assms(3) assms(2)] holds_matches assms(4) by blast
  then show ?thesis using q by (simp add: bview_def)
qed

lemma bview_dev: "\<forall>p\<in>set (all_nodes m). \<not> holds_block m d b p \<Longrightarrow> bview m d b = devs m d b"
  using find_None_iff [of "holds_block m d b" "all_nodes m"] by (simp add: bview_def)

lemma bview_cases [consumes 2, case_names node dev]:
  assumes "binv m" "d \<noteq> 0"
  obtains (node) p nd where "p \<in> set (all_nodes m)" "heap m p = Some nd" "bmatch d b nd" "b_valid nd" "bview m d b = Some (b_data nd)"
  | (dev) "\<forall>p\<in>set (all_nodes m). \<not> holds_block m d b p" "bview m d b = devs m d b"
proof (cases "\<exists>p\<in>set (all_nodes m). holds_block m d b p")
  case True
  then obtain p where p: "p \<in> set (all_nodes m)" "holds_block m d b p" by blast
  then obtain nd where "heap m p = Some nd" "bmatch d b nd" "b_valid nd" by (auto simp: holds_block_def split: option.splits)
  then show ?thesis using node [of p nd] bview_node [OF assms p] p(1) by simp
next
  case False
  then show ?thesis using dev bview_dev [of m d b] by blast
qed

text \<open>The fields of a state that matter for the invariant and the view, without the lock.\<close>

definition same_store :: "bman \<Rightarrow> bman \<Rightarrow> bool" where
  "same_store m m' \<longleftrightarrow> (\<forall>d b. d \<noteq> 0 \<longrightarrow> bview m' d b = bview m d b)"

lemma same_store_refl [simp]: "same_store m m"
  by (simp add: same_store_def)

lemma same_store_trans: "same_store m m' \<Longrightarrow> same_store m' m'' \<Longrightarrow> same_store m m''"
  by (simp add: same_store_def)

text \<open>Changing the lists, the lock and reference counts.\<close>

definition same_nodes :: "bman \<Rightarrow> bman \<Rightarrow> bool" where
  "same_nodes m m' \<longleftrightarrow> devs m' = devs m \<and> fresh m' = fresh m \<and> distinct (all_nodes m')
     \<and> set (all_nodes m') = set (all_nodes m)
     \<and> (\<forall>p. rel_option (\<lambda>nd nd'. nd' = nd\<lparr>b_refs := b_refs nd'\<rparr>) (heap m p) (heap m' p))
     \<and> (\<forall>p\<in>set (flush_list m'). node_unused m' p)"

lemma refs_only:
  assumes "nd' = nd\<lparr>b_refs := r\<rparr>"
  shows "bmatch d b nd' = bmatch d b nd" "node_ok m nd' = node_ok m nd" "b_valid nd' = b_valid nd"
    "b_data nd' = b_data nd" "b_dirty nd' = b_dirty nd"
  using assms by (simp_all add: bmatch_def node_ok_def)

lemma same_nodes_heap:
  assumes "same_nodes m m'"
  shows "heap m p = None \<Longrightarrow> heap m' p = None"
    "heap m p = Some nd \<Longrightarrow> \<exists>r. heap m' p = Some (nd\<lparr>b_refs := r\<rparr>)"
    "node_matches m' d b p = node_matches m d b p" "holds_block m' d b p = holds_block m d b p"
proof -
  have r: "rel_option (\<lambda>nd nd'. nd' = nd\<lparr>b_refs := b_refs nd'\<rparr>) (heap m p) (heap m' p)"
    using assms by (simp add: same_nodes_def)
  show "heap m p = None \<Longrightarrow> heap m' p = None" using r by simp
  show e: "\<exists>r. heap m' p = Some (nd\<lparr>b_refs := r\<rparr>)" if "heap m p = Some nd" for nd
    using r that by (cases "heap m' p") auto
  show "node_matches m' d b p = node_matches m d b p" "holds_block m' d b p = holds_block m d b p"
    using r e by (cases "heap m p"; force simp: node_matches_def holds_block_def bmatch_def)+
qed

lemma same_nodes_ok:
  assumes "binv m" "same_nodes m m'"
  shows "binv m'" "same_store m m'"
proof -
  note h = same_nodes_heap [OF assms(2)]
  have s: "devs m' = devs m" "fresh m' = fresh m" "distinct (all_nodes m')" "set (all_nodes m') = set (all_nodes m)"
    "\<forall>p\<in>set (flush_list m'). node_unused m' p" using assms(2) by (auto simp: same_nodes_def)
  have nk: "node_ok m' nd = node_ok m nd" for nd by (simp add: node_ok_def s)
  have "\<exists>nd. heap m' p = Some nd \<and> node_ok m' nd" if "p \<in> set (all_nodes m')" for p
    using binv_D(2) [OF assms(1), of p] that s(4) h(2) [of p] refs_only(2) nk by metis
  moreover have "heap m' p = None" if "fresh m' \<le> p" for p using binv_D(3) [OF assms(1), of p] that s(2) h(1) by simp
  moreover have "p = q" if "p \<in> set (all_nodes m')" "q \<in> set (all_nodes m')" "d \<noteq> 0" "node_matches m' d b p" "node_matches m' d b q" for p q d b
    using binv_D(4) [OF assms(1), of p q d b] that s(4) h(3) by simp
  ultimately show b: "binv m'" using s(3,5) unfolding binv_def by blast
  have "bview m' d b = bview m d b" if d: "d \<noteq> 0" for d b
    using assms(1) d
  proof (cases rule: bview_cases [where b = b])
    case (node p nd)
    then obtain r where r: "heap m' p = Some (nd\<lparr>b_refs := r\<rparr>)" using h(2) by blast
    have "holds_block m d b p" using node by (simp add: holds_block_def)
    then have "bview m' d b = map_option b_data (heap m' p)"
      using bview_node [OF b d, of p b] node(1) s(4) h(4) by simp
    then show ?thesis using node(5) r by simp
  next
    case dev
    then show ?thesis using bview_dev [of m' d b] s(1,4) h(4) by simp
  qed
  then show "same_store m m'" by (simp add: same_store_def)
qed

text \<open>Giving a node a new block; what it held before is on the device.\<close>

lemma rekey_ok:
  assumes "binv m" "devs m' = devs m" "distinct (all_nodes m')" "set (all_nodes m') = insert p (set (all_nodes m))"
    "heap m' = (heap m)(p \<mapsto> nd')" "\<not> b_valid nd'" "\<And>q. fresh m' \<le> q \<Longrightarrow> heap m' q = None"
    "\<And>nd. p \<in> set (all_nodes m) \<Longrightarrow> heap m p = Some nd \<Longrightarrow> \<not> (b_valid nd \<and> b_dirty nd)"
    "b_bdev nd' \<noteq> 0 \<Longrightarrow> \<forall>q\<in>set (all_nodes m). q \<noteq> p \<longrightarrow> \<not> node_matches m (b_bdev nd') (b_block nd') q"
    "\<forall>q\<in>set (flush_list m'). node_unused m' q"
  shows "binv m'" "same_store m m'"
proof -
  have nk: "node_ok m' nd = node_ok m nd" for nd by (simp add: node_ok_def assms(2))
  have mt: "node_matches m' d b q = (if q = p then bmatch d b nd' else node_matches m d b q)" for d b q
    by (simp add: node_matches_def assms(5))
  have hd: "holds_block m' d b q = (q \<noteq> p \<and> holds_block m d b q)" for d b q
    using assms(6) by (simp add: holds_block_def assms(5))
  have "\<exists>nd. heap m' q = Some nd \<and> node_ok m' nd" if "q \<in> set (all_nodes m')" for q
    using that assms(4-6) binv_D(2) [OF assms(1), of q] nk by (auto simp: node_ok_def)
  moreover have "q = r" if "q \<in> set (all_nodes m')" "r \<in> set (all_nodes m')" "d \<noteq> 0" "node_matches m' d b q" "node_matches m' d b r" for q r d b
    using that assms(4,9) binv_D(4) [OF assms(1), of q r d b] by (auto simp: mt bmatch_def split: if_splits)
  ultimately show b: "binv m'" using assms(3,7,10) unfolding binv_def by blast
  have "bview m' d b = bview m d b" if d: "d \<noteq> 0" for d b
    using assms(1) d
  proof (cases rule: bview_cases [where b = b])
    case (node q nd)
    then have hq: "holds_block m d b q" by (simp add: holds_block_def)
    show ?thesis
    proof (cases "q = p")
      case True
      then have "\<not> b_dirty nd" using assms(8) [of nd] node by auto
      then have dv: "devs m d b = Some (b_data nd)"
        using binv_D(2) [OF assms(1) node(1)] node(2-4) by (auto simp: node_ok_def bmatch_def)
      have "\<not> holds_block m' d b r" if "r \<in> set (all_nodes m')" for r
        using binv_D(4) [OF assms(1) _ node(1) d, of r b] holds_matches [of m d b r] holds_matches [OF hq] that True assms(4)
        by (auto simp: hd)
      then show ?thesis using bview_dev [of m' d b] dv node(5) assms(2) by simp
    next
      case False
      then have "bview m' d b = map_option b_data (heap m' q)"
        using bview_node [OF b d, of q b] node(1) assms(4) hq by (simp add: hd)
      then show ?thesis using False node(2,5) assms(5) by simp
    qed
  next
    case dev
    have "\<not> holds_block m' d b r" if "r \<in> set (all_nodes m')" for r using dev(1) that assms(4) by (auto simp: hd)
    then show ?thesis using bview_dev [of m' d b] dev(2) assms(2) by simp
  qed
  then show "same_store m m'" by (simp add: same_store_def)
qed

text \<open>Changing the contents of a node, or the device under it.\<close>

definition put_node :: "nat \<Rightarrow> bnode \<Rightarrow> bman \<Rightarrow> bman" where
  "put_node p nd m = m\<lparr>heap := (heap m)(p \<mapsto> nd)\<rparr>"

lemma put_node_simps [simp]:
  "all_nodes (put_node p nd m) = all_nodes m" "flush_list (put_node p nd m) = flush_list m" "devs (put_node p nd m) = devs m"
  "fresh (put_node p nd m) = fresh m" "heap (put_node p nd m) = (heap m)(p \<mapsto> nd)" "buffer_list (put_node p nd m) = buffer_list m"
  "locked (put_node p nd m) = locked m"
  by (simp_all add: put_node_def all_nodes_def)

lemma node_mod_run: "heap m p = Some nd \<Longrightarrow> node_mod p f m = (Inr (), put_node p (f nd) m)"
  by (simp add: node_mod_def put_node_def)

lemma content_ok:
  assumes "binv m" "p \<in> set (all_nodes m)" "heap m p = Some nd" "heap m' = (heap m)(p \<mapsto> nd')" "all_nodes m' = all_nodes m"
    "flush_list m' = flush_list m" "fresh m' = fresh m" "b_bdev nd' = b_bdev nd" "b_block nd' = b_block nd" "b_refs nd' = b_refs nd"
    "b_valid nd'" "node_ok m' nd'"
    "\<And>d b. \<not> bmatch d b nd \<Longrightarrow> devs m' d b = devs m d b"
  shows "binv m'" "\<And>d b. d \<noteq> 0 \<Longrightarrow> bview m' d b = (if bmatch d b nd then Some (b_data nd') else bview m d b)"
proof -
  have bm: "bmatch d b nd' = bmatch d b nd" for d b by (simp add: bmatch_def assms(8,9))
  have mt: "node_matches m' d b q = node_matches m d b q" for d b q
    using assms(3) by (simp add: node_matches_def assms(4) bm)
  have oth: "\<not> bmatch (b_bdev nx) (b_block nx) nd" if "q \<in> set (all_nodes m)" "q \<noteq> p" "heap m q = Some nx" "b_valid nx" "node_ok m nx" for q nx
    using binv_D(4) [OF assms(1) that(1) assms(2), of "b_bdev nx" "b_block nx"] that assms(3)
    by (auto simp: node_matches_def bmatch_def node_ok_def)
  have "\<exists>x. heap m' q = Some x \<and> node_ok m' x" if q: "q \<in> set (all_nodes m')" for q
  proof (cases "q = p")
    case False
    obtain x where x: "heap m q = Some x" "node_ok m x" using binv_D(2) [OF assms(1)] q assms(5) by auto
    have "node_ok m' x"
    proof (cases "b_valid x")
      case True
      then show ?thesis using oth [of q x] x q False assms(5,13) by (simp add: node_ok_def)
    qed (simp add: node_ok_def)
    then show ?thesis using False x(1) assms(4) by simp
  qed (use assms(4,12) in simp)
  moreover have "node_unused m' q" if "q \<in> set (flush_list m')" for q
    using binv_D(5) [OF assms(1), of q] that assms(3,4,6,10) by (auto simp: node_unused_def)
  moreover have "heap m' q = None" if "fresh m' \<le> q" for q using binv_D(3) [OF assms(1), of q] that assms(3,4,7) by auto
  moreover have "q = r" if "q \<in> set (all_nodes m')" "r \<in> set (all_nodes m')" "d \<noteq> 0" "node_matches m' d b q" "node_matches m' d b r" for q r d b
    using that binv_D(4) [OF assms(1)] assms(5) unfolding mt by metis
  ultimately show b: "binv m'" using binv_D(1) [OF assms(1)] assms(5) unfolding binv_def by metis
  fix d b assume d: "d \<noteq> (0::nat)"
  show "bview m' d b = (if bmatch d b nd then Some (b_data nd') else bview m d b)"
  proof (cases "bmatch d b nd")
    case True
    then have "holds_block m' d b p" using assms(4,11) bm by (simp add: holds_block_def)
    then show ?thesis using True bview_node [OF b d, of p b] assms(2,4,5) by simp
  next
    case False
    then have hb: "holds_block m' d b q = holds_block m d b q" for q
      using assms(3) by (simp add: holds_block_def assms(4) bm)
    have "\<not> holds_block m d b p" using False assms(3) by (simp add: holds_block_def)
    then have hp: "map_option b_data (heap m' q) = map_option b_data (heap m q)" if "holds_block m d b q" for q
      using that assms(4) by auto
    have he: "holds_block m' d b = holds_block m d b" by (rule ext) (rule hb)
    have "bview m' d b = bview m d b"
    proof (cases "List.find (holds_block m d b) (all_nodes m)")
      case None
      then show ?thesis using assms(13) [OF False] by (simp add: bview_def he assms(5))
    next
      case (Some q)
      then have "holds_block m d b q" by (auto simp: find_Some_iff)
      then show ?thesis using hp Some by (simp add: bview_def he assms(5))
    qed
    then show ?thesis using False by simp
  qed
qed

lemma load_ok:
  assumes "binv m" "p \<in> set (all_nodes m)" "node_load p m = (Inr (), m')" "heap m p = Some nd" "b_bdev nd \<noteq> 0"
  shows "\<exists>nd'. m' = put_node p nd' m \<and> binv m' \<and> same_store m m' \<and> b_valid nd' \<and> b_bdev nd' = b_bdev nd \<and> b_block nd' = b_block nd
    \<and> b_refs nd' = b_refs nd \<and> bview m (b_bdev nd) (b_block nd) = Some (b_data nd')"
proof (cases "b_valid nd")
  case True
  then have "m' = put_node p nd m" using assms(3,4) by (simp add: node_load_def put_node_def fun_upd_idem)
  moreover have "put_node p nd m = m" using assms(4) by (simp add: put_node_def fun_upd_idem)
  moreover have "holds_block m (b_bdev nd) (b_block nd) p" using True assms(4) by (simp add: holds_block_def bmatch_def)
  ultimately show ?thesis using assms True bview_node [OF assms(1,5,2)] by (intro exI [of _ nd]) auto
next
  case False
  then obtain x where x: "devs m (b_bdev nd) (b_block nd) = Some x"
    using assms(3,4) by (cases "devs m (b_bdev nd) (b_block nd)") (auto simp: node_load_def)
  define nd' where "nd' = nd\<lparr>b_data := x, b_valid := True, b_dirty := False\<rparr>"
  have m': "m' = put_node p nd' m" using assms(3,4) False x by (simp add: node_load_def node_mod_run nd'_def)
  have c: "binv m'" "\<And>d b. d \<noteq> 0 \<Longrightarrow> bview m' d b = (if bmatch d b nd then Some (b_data nd') else bview m d b)"
    using content_ok [OF assms(1,2,4), of m' nd'] x assms(5) by (simp_all add: m' node_ok_def nd'_def)
  have vm: "bview m d b = Some x" if "d \<noteq> 0" "bmatch d b nd" for d b
  proof -
    have "\<not> holds_block m d b q" if "q \<in> set (all_nodes m)" for q
    proof
      assume h: "holds_block m d b q"
      have "node_matches m d b p" using \<open>bmatch d b nd\<close> assms(4) by (simp add: node_matches_def)
      then have "q = p" using binv_D(4) [OF assms(1) that assms(2) \<open>d \<noteq> 0\<close>] holds_matches [OF h] by blast
      then show False using h False assms(4) by (simp add: holds_block_def)
    qed
    then show ?thesis using bview_dev [of m d b] that x by (simp add: bmatch_def)
  qed
  have "bview m' d b = bview m d b" if "d \<noteq> 0" for d b
    using c(2) [of d b] that vm [of d b] by (auto simp: nd'_def)
  then show ?thesis using c(1) vm [OF assms(5)] m' by (intro exI [of _ nd']) (simp add: same_store_def nd'_def bmatch_def)
qed

lemma store_ok:
  assumes "binv m" "p \<in> set (all_nodes m)" "heap m p = Some nd" "b_valid nd"
  shows "\<exists>m'. node_store p x m = (Inr (), m') \<and> m' = put_node p (nd\<lparr>b_data := x, b_dirty := True\<rparr>) m \<and> binv m'
    \<and> (\<forall>d b. d \<noteq> 0 \<longrightarrow> bview m' d b = (if bmatch d b nd then Some x else bview m d b))"
proof -
  define m' where "m' = put_node p (nd\<lparr>b_data := x, b_dirty := True\<rparr>) m"
  have "node_ok m nd" using binv_D(2) [OF assms(1,2)] assms(3) by auto
  then show ?thesis
    using content_ok [OF assms(1-3), of m' "nd\<lparr>b_data := x, b_dirty := True\<rparr>"] assms(3,4)
    by (intro exI [of _ m']) (simp add: m'_def node_store_def node_mod_run node_ok_def)
qed

lemma flush_ok:
  assumes "binv m" "p \<in> set (all_nodes m)" "heap m p = Some nd"
  shows "\<exists>m' nd'. node_flush p m = (Inr (), m') \<and> binv m' \<and> same_store m m' \<and> heap m' = (heap m)(p \<mapsto> nd')
    \<and> \<not> (b_valid nd' \<and> b_dirty nd') \<and> nd' = nd\<lparr>b_dirty := b_dirty nd'\<rparr> \<and> buffer_list m' = buffer_list m
    \<and> flush_list m' = flush_list m \<and> locked m' = locked m \<and> fresh m' = fresh m"
proof (cases "b_valid nd \<and> b_dirty nd")
  case False
  then have "node_flush p m = (Inr (), m)" using assms(3) by (auto simp: node_flush_def)
  then show ?thesis using assms(1,3) False by (intro exI [of _ m] exI [of _ nd]) (simp add: fun_upd_idem)
next
  case True
  have ok: "node_ok m nd" using binv_D(2) [OF assms(1,2)] assms(3) by auto
  then obtain y where y: "devs m (b_bdev nd) (b_block nd) = Some y" "b_bdev nd \<noteq> 0" using True by (auto simp: node_ok_def)
  define nd' where "nd' = nd\<lparr>b_dirty := False\<rparr>"
  define m1 where "m1 = m\<lparr>devs := (devs m)(b_bdev nd := (devs m (b_bdev nd))(b_block nd \<mapsto> b_data nd))\<rparr>"
  define m' where "m' = put_node p nd' m1"
  have "node_flush p m = (Inr (), m')"
    using assms(3) True y by (cases m) (simp add: node_flush_def node_mod_def put_node_def m'_def m1_def nd'_def)
  moreover have dv: "devs m' d b = devs m d b" if "\<not> bmatch d b nd" for d b
    using that by (auto simp: m'_def m1_def bmatch_def)
  moreover have c: "binv m'" "\<And>d b. d \<noteq> 0 \<Longrightarrow> bview m' d b = (if bmatch d b nd then Some (b_data nd') else bview m d b)"
    using content_ok [OF assms, of m' nd', OF _ _ _ _ _ _ _ _ _ dv] True y
    by (simp_all add: m'_def m1_def nd'_def node_ok_def put_node_def all_nodes_def)
  moreover have "bview m d b = Some (b_data nd')" if "d \<noteq> 0" "bmatch d b nd" for d b
    using bview_node [OF assms(1) that(1) assms(2), of b] that True assms(3) by (simp add: holds_block_def nd'_def)
  ultimately show ?thesis
    by (intro exI [of _ m'] exI [of _ nd']) (simp add: same_store_def nd'_def m'_def put_node_def m1_def)
qed

section \<open>The pieces of a get\<close>

text \<open>What \<open>get\<close> promises about the node it returns.\<close>

definition node_for :: "bman \<Rightarrow> nat \<Rightarrow> nat \<Rightarrow> nat \<Rightarrow> bool" where
  "node_for m d b p \<longleftrightarrow> p \<in> set (buffer_list m) \<and> node_matches m d b p \<and> \<not> node_unused m p"

lemma all_nodes_simps [simp]:
  "all_nodes (m\<lparr>locked := l\<rparr>) = all_nodes m" "all_nodes (m\<lparr>heap := h\<rparr>) = all_nodes m"
  by (simp_all add: all_nodes_def)

lemma find_SomeD: "List.find P xs = Some x \<Longrightarrow> x \<in> set xs \<and> P x"
  by (auto simp: find_Some_iff)

lemma distinct_front: "distinct (xs @ ys) \<Longrightarrow> p \<in> set xs \<Longrightarrow> distinct (p # remove1 p xs @ ys)"
  by auto

definition got_ok :: "bman \<Rightarrow> nat \<Rightarrow> nat \<Rightarrow> got \<Rightarrow> bman \<Rightarrow> bool" where
  "got_ok m d b g m' \<longleftrightarrow> binv m' \<and> same_store m m' \<and> \<not> locked m' \<and> (case g of
      Wait_Flush \<Rightarrow> (\<exists>p\<in>set (flush_list m). node_matches m d b p)
    | Ready p \<Rightarrow> node_for m' d b p \<and> flush_list m' = flush_list m \<and> (\<forall>q\<in>set (flush_list m). heap m' q = heap m q)
    | Must_Flush p \<Rightarrow> p \<notin> set (flush_list m) \<and> flush_list m' = flush_list m @ [p] \<and> heap m' = heap m
        \<and> set (all_nodes m') = set (all_nodes m))"

lemma hit_ok:
  assumes "binv m" "find_node d b m = Some p"
  shows "\<exists>m'. get_hit p (m\<lparr>locked := True\<rparr>) = (Inr (Ready p), m') \<and> got_ok m d b (Ready p) m'"
proof -
  have p: "p \<in> set (buffer_list m)" "node_matches m d b p" using find_SomeD [OF assms(2) [unfolded find_node_def]] by auto
  obtain nd where nd: "heap m p = Some nd" using p(2) by (auto simp: node_matches_def split: option.splits)
  define m' where "m' = m\<lparr>locked := False, buffer_list := p # remove1 p (buffer_list m),
    heap := (heap m)(p \<mapsto> nd\<lparr>b_refs := Suc (b_refs nd)\<rparr>)\<rparr>"
  have run: "get_hit p (m\<lparr>locked := True\<rparr>) = (Inr (Ready p), m')"
    using nd by (cases m) (simp add: run_defs m'_def)
  have dis: "distinct (buffer_list m @ flush_list m)" using binv_D(1) [OF assms(1)] by (simp add: all_nodes_def)
  have pf: "p \<notin> set (flush_list m)" using dis p(1) by auto
  have "node_unused m' q" if "q \<in> set (flush_list m)" for q
    using binv_D(5) [OF assms(1) that] that pf by (auto simp: node_unused_def m'_def)
  moreover have "rel_option (\<lambda>nd nd'. nd' = nd\<lparr>b_refs := b_refs nd'\<rparr>) (heap m q) (heap m' q)" for q
    using nd by (cases "heap m q") (auto simp: m'_def)
  ultimately have sn: "same_nodes m m'"
    using distinct_front [OF dis p(1)] p(1) dis by (auto simp: same_nodes_def m'_def all_nodes_def)
  have "node_for m' d b p" using p nd by (simp add: node_for_def m'_def node_matches_def node_unused_def bmatch_def)
  then show ?thesis using run same_nodes_ok [OF assms(1) sn] pf by (auto simp: got_ok_def m'_def)
qed

text \<open>A node that is no longer needed, or a new one, takes the new block.\<close>

lemma adopt_ok:
  assumes "binv m" "d \<noteq> 0" "heap m' = (heap m)(p \<mapsto> nd\<lparr>b_bdev := d, b_block := b, b_valid := False, b_refs := Suc r\<rparr>)"
    "distinct (all_nodes m')" "set (all_nodes m') = insert p (set (all_nodes m))" "p \<in> set (buffer_list m')"
    "set (flush_list m') \<subseteq> set (flush_list m)" "p \<notin> set (flush_list m')" "devs m' = devs m" "\<forall>q\<ge>fresh m'. heap m' q = None"
    "p \<in> set (all_nodes m) \<longrightarrow> heap m p = Some nd \<and> \<not> (b_valid nd \<and> b_dirty nd)"
    "\<forall>q \<in> set (all_nodes m). q \<noteq> p \<longrightarrow> \<not> node_matches m d b q"
  shows "binv m'" "same_store m m'" "node_for m' d b p"
proof -
  have fl: "node_unused m' q" if "q \<in> set (flush_list m')" for q
    using binv_D(5) [OF assms(1), of q] that assms(3,7,8) by (auto simp: node_unused_def)
  show "binv m'" "same_store m m'"
    using rekey_ok [OF assms(1,9,4,5,3)] assms(10-12) fl by auto
  show "node_for m' d b p" using assms(3,6) by (simp add: node_for_def node_matches_def node_unused_def bmatch_def)
qed

definition failed_ok :: "bman \<Rightarrow> nat \<Rightarrow> bman \<Rightarrow> bool" where
  "failed_ok m mx m' \<longleftrightarrow> binv m' \<and> same_store m m' \<and> flush_list m' = flush_list m \<and> heap m' = heap m
     \<and> (locked m' \<longleftrightarrow> length (buffer_list m) < mx)
     \<and> (mx \<le> length (buffer_list m) \<or> mem_left m = 0)"

lemma miss_matches:
  assumes "\<not> in_flush d b m" "find_node d b m = None" "q \<in> set (all_nodes m)"
  shows "\<not> node_matches m d b q"
  using assms by (auto simp: in_flush_def find_node_def find_None_iff all_nodes_def)

lemma same_nodes_lock: "binv m \<Longrightarrow> same_nodes m (m\<lparr>locked := l\<rparr>)"
  using binv_D(1,5) by (auto simp: same_nodes_def rel_option_iff split: option.splits)

lemma new_ok:
  assumes "binv m" "d \<noteq> 0" "\<not> in_flush d b m" "find_node d b m = None"
  shows "(\<exists>m'. get_new mx d b (m\<lparr>locked := True\<rparr>) = (Inl Task_Fail, m') \<and> failed_ok m mx m')
    \<or> (\<exists>p m'. get_new mx d b (m\<lparr>locked := True\<rparr>) = (Inr (Ready p), m') \<and> got_ok m d b (Ready p) m')"
proof (cases "mx \<le> length (buffer_list m) \<or> mem_left m = 0")
  case True
  note sn = same_nodes_ok [OF assms(1) same_nodes_lock [OF assms(1)]]
  have "get_new mx d b (m\<lparr>locked := True\<rparr>) = (Inl Task_Fail, m\<lparr>locked := length (buffer_list m) < mx\<rparr>)"
    using True by (auto simp: run_defs)
  then show ?thesis using True sn by (auto simp: failed_ok_def)
next
  case False
  let ?p = "fresh m"
  define m' where "m' = m\<lparr>heap := (heap m)(?p \<mapsto> new_node\<lparr>b_bdev := d, b_block := b, b_valid := False, b_refs := Suc 0\<rparr>),
    fresh := ?p + 1, mem_left := mem_left m - 1, buffer_list := ?p # buffer_list m, locked := False\<rparr>"
  have "get_new mx d b (m\<lparr>locked := True\<rparr>) = (Inr (Ready ?p), m')"
    using False by (cases m) (simp add: run_defs m'_def new_node_def)
  moreover have np: "?p \<notin> set (all_nodes m)" using binv_D(2) [OF assms(1), of ?p] binv_D(3) [OF assms(1), of ?p] by auto
  moreover have "distinct (all_nodes m')" "set (all_nodes m') = insert ?p (set (all_nodes m))" "?p \<notin> set (flush_list m')"
    using np binv_D(1) [OF assms(1)] by (auto simp: m'_def all_nodes_def)
  then have "binv m'" "same_store m m'" "node_for m' d b ?p"
    using adopt_ok [OF assms(1,2), where m' = m' and p = "fresh m" and nd = new_node and b = b and r = 0] np binv_D(3) [OF assms(1)] miss_matches [OF assms(3,4)]
    by (simp_all add: m'_def)
  ultimately show ?thesis by (auto simp: got_ok_def m'_def all_nodes_def)
qed

lemma reuse_ok:
  assumes "binv m" "d \<noteq> 0" "\<not> in_flush d b m" "find_node d b m = None" "p \<in> set (buffer_list m)" "node_unused m p"
  shows "\<exists>g m'. get_reuse p d b (m\<lparr>locked := True\<rparr>) = (Inr g, m') \<and> got_ok m d b g m'"
proof -
  obtain nd where nd: "heap m p = Some nd" "b_refs nd = 0" using assms(6) by (auto simp: node_unused_def split: option.splits)
  have dis: "distinct (buffer_list m @ flush_list m)" using binv_D(1) [OF assms(1)] by (simp add: all_nodes_def)
  have pf: "p \<notin> set (flush_list m)" using dis assms(5) by auto
  have lt: "p < fresh m" using binv_D(3) [OF assms(1), of p] nd by (cases "p < fresh m") auto
  show ?thesis
  proof (cases "b_dirty nd")
    case False
    define m' where "m' = m\<lparr>locked := False, buffer_list := p # remove1 p (buffer_list m),
      heap := (heap m)(p \<mapsto> nd\<lparr>b_bdev := d, b_block := b, b_valid := False, b_refs := Suc 0\<rparr>)\<rparr>"
    have "get_reuse p d b (m\<lparr>locked := True\<rparr>) = (Inr (Ready p), m')"
      using False nd by (cases m) (simp add: run_defs m'_def)
    moreover have "distinct (all_nodes m')" "set (all_nodes m') = insert p (set (all_nodes m))"
      using distinct_front [OF dis assms(5)] assms(5) dis by (auto simp: m'_def all_nodes_def)
    then have "binv m'" "same_store m m'" "node_for m' d b p"
      using adopt_ok [OF assms(1,2), where m' = m' and p = p and nd = nd and b = b and r = 0] pf nd False lt miss_matches [OF assms(3,4)] binv_D(3) [OF assms(1)]
      by (auto simp: m'_def)
    ultimately show ?thesis using pf by (intro exI [of _ "Ready p"] exI [of _ m']) (auto simp: got_ok_def m'_def)
  next
    case True
    define m' where "m' = m\<lparr>locked := False, buffer_list := remove1 p (buffer_list m), flush_list := flush_list m @ [p]\<rparr>"
    have "get_reuse p d b (m\<lparr>locked := True\<rparr>) = (Inr (Must_Flush p), m')"
      using True nd by (cases m) (simp add: run_defs m'_def)
    moreover have "same_nodes m m'"
      using dis assms(5,6) pf binv_D(5) [OF assms(1)]
      by (auto simp: same_nodes_def m'_def all_nodes_def rel_option_iff split: option.splits)
    ultimately show ?thesis using same_nodes_ok [OF assms(1)] pf assms(5) dis
      by (intro exI [of _ "Must_Flush p"] exI [of _ m']) (auto simp: got_ok_def m'_def all_nodes_def)
  qed
qed

lemma enter_ok:
  assumes "binv m" "d \<noteq> 0"
  shows "(\<exists>m'. get_enter mn mx d b m = (Inl Task_Fail, m') \<and> failed_ok m mx m')
    \<or> (\<exists>g m'. get_enter mn mx d b m = (Inr g, m') \<and> got_ok m d b g m')"
proof (cases "in_flush d b m")
  case True
  then have "get_enter mn mx d b m = (Inr Wait_Flush, m\<lparr>locked := False\<rparr>)" by (simp add: get_enter_def m_lock_def m_unlock_def)
  then show ?thesis using same_nodes_ok [OF assms(1) same_nodes_lock [OF assms(1)]] True
    by (auto simp: got_ok_def in_flush_def)
next
  case nf: False
  show ?thesis
  proof (cases "find_node d b m")
    case (Some p)
    then have "get_enter mn mx d b m = get_hit p (m\<lparr>locked := True\<rparr>)" using nf by (simp add: get_enter_def m_lock_def)
    then show ?thesis using hit_ok [OF assms(1) Some] by auto
  next
    case miss: None
    show ?thesis
    proof (cases "pick_unused mn m")
      case None
      then have "get_enter mn mx d b m = get_new mx d b (m\<lparr>locked := True\<rparr>)" using nf miss by (simp add: get_enter_def m_lock_def)
      then show ?thesis using new_ok [OF assms nf miss, of mx] by auto
    next
      case (Some p)
      then have "get_enter mn mx d b m = get_reuse p d b (m\<lparr>locked := True\<rparr>)" using nf miss by (simp add: get_enter_def m_lock_def)
      moreover have "p \<in> set (buffer_list m)" "node_unused m p"
        using Some find_SomeD [of "node_unused m" "rev (buffer_list m)" p] by (auto simp: pick_unused_def split: if_splits)
      ultimately show ?thesis using reuse_ok [OF assms nf miss] by auto
    qed
  qed
qed

lemma finish_ok:
  assumes "binv m" "d \<noteq> 0" "p \<in> set (flush_list m)" "heap m p = Some nd" "\<not> (b_valid nd \<and> b_dirty nd)"
    "\<forall>q\<in>set (flush_list m). \<not> node_matches m d b q"
  shows "\<exists>q m'. get_finish p d b m = (Inr q, m') \<and> binv m' \<and> same_store m m' \<and> node_for m' d b q \<and> \<not> locked m'
    \<and> flush_list m' = remove1 p (flush_list m) \<and> (\<forall>r\<in>set (flush_list m'). heap m' r = heap m r)"
proof -
  have dis: "distinct (buffer_list m @ flush_list m)" using binv_D(1) [OF assms(1)] by (simp add: all_nodes_def)
  have pb: "p \<notin> set (buffer_list m)" using dis assms(3) by auto
  have lt: "p < fresh m" using binv_D(3) [OF assms(1), of p] assms(4) by (cases "p < fresh m") auto
  have r0: "b_refs nd = 0" using binv_D(5) [OF assms(1,3)] assms(4) by (simp add: node_unused_def)
  show ?thesis
  proof (cases "find_node d b m")
    case None
    define m' where "m' = m\<lparr>locked := False, flush_list := remove1 p (flush_list m), buffer_list := p # buffer_list m,
      heap := (heap m)(p \<mapsto> nd\<lparr>b_bdev := d, b_block := b, b_valid := False, b_refs := Suc 0\<rparr>)\<rparr>"
    have "get_finish p d b m = (Inr p, m')"
      using None assms(4) r0 by (simp add: get_finish_def m_lock_def) (cases m, simp add: run_defs m'_def)
    moreover have "\<not> node_matches m d b q" if "q \<in> set (all_nodes m)" for q
      using None assms(6) that by (auto simp: find_node_def find_None_iff all_nodes_def)
    then have "binv m'" "same_store m m'" "node_for m' d b p"
      using adopt_ok [OF assms(1,2), where m' = m' and p = p and nd = nd and b = b and r = 0] dis assms(3-5) pb lt binv_D(3) [OF assms(1)]
      by (auto simp: m'_def all_nodes_def)
    moreover have "\<forall>r\<in>set (flush_list m'). heap m' r = heap m r" using dis by (auto simp: m'_def)
    ultimately show ?thesis by (simp add: m'_def)
  next
    case (Some q)
    have q: "q \<in> set (buffer_list m)" "node_matches m d b q" using find_SomeD [OF Some [unfolded find_node_def]] by auto
    then have qp: "q \<noteq> p" using pb by auto
    obtain nq where nq: "heap m q = Some nq" using q(2) by (auto simp: node_matches_def split: option.splits)
    define m1 where "m1 = m\<lparr>locked := False, flush_list := remove1 p (flush_list m), buffer_list := buffer_list m @ [p],
      heap := (heap m)(p \<mapsto> nd\<lparr>b_bdev := 0, b_block := 0, b_valid := False\<rparr>)\<rparr>"
    define m' where "m' = m1\<lparr>heap := (heap m1)(q \<mapsto> nq\<lparr>b_refs := b_refs nq + 1\<rparr>)\<rparr>"
    have "get_finish p d b m = (Inr q, m')"
      using Some assms(4) nq qp by (simp add: get_finish_def m_lock_def) (cases m, simp add: run_defs m'_def m1_def)
    moreover have 1: "binv m1" "same_store m m1"
    proof -
      have "\<forall>r\<in>set (flush_list m1). node_unused m1 r"
        using binv_D(5) [OF assms(1)] dis by (auto simp: m1_def node_unused_def)
      moreover have "distinct (all_nodes m1)" "set (all_nodes m1) = insert p (set (all_nodes m))"
        using dis assms(3) pb by (auto simp: m1_def all_nodes_def)
      moreover have "heap m1 r = None" if "fresh m1 \<le> r" for r using that binv_D(3) [OF assms(1), of r] assms(4) by (auto simp: m1_def)
      ultimately show "binv m1" "same_store m m1"
        using rekey_ok [OF assms(1), of m1 p "nd\<lparr>b_bdev := 0, b_block := 0, b_valid := False\<rparr>"] assms(4,5) by (auto simp: m1_def)
    qed
    moreover have "same_nodes m1 m'"
    proof -
      have "q \<notin> set (flush_list m1)" using dis q(1) by (auto simp: m1_def)
      then have "\<forall>r\<in>set (flush_list m'). node_unused m' r" using binv_D(5) [OF 1(1)] by (auto simp: m'_def node_unused_def)
      moreover have "heap m1 q = Some nq" using nq qp by (simp add: m1_def)
      ultimately show ?thesis using binv_D(1) [OF 1(1)]
        by (auto simp: same_nodes_def m'_def rel_option_iff split: option.splits)
    qed
    moreover have "node_for m' d b q"
      using q nq qp by (simp add: node_for_def m'_def m1_def node_matches_def node_unused_def bmatch_def)
    moreover have "\<forall>r\<in>set (flush_list m'). heap m' r = heap m r" using dis q(1) by (auto simp: m'_def m1_def)
    ultimately show ?thesis using same_nodes_ok [OF 1(1)] same_store_trans [OF 1(2)]
      by (intro exI [of _ q] exI [of _ m']) (auto simp: m'_def m1_def)
  qed
qed

section \<open>Interleaved use\<close>

text \<open>
  Several coroutines use the cache: each step below is one atomic piece. \<open>pending\<close> holds the gets
  that are between their two locked parts: the node, the block wanted, and whether the flush is
  done. A holder of a reference may load, store (and mark dirty) and give the reference back.
\<close>

record bsys =
  man :: bman
  pending :: "(nat \<times> nat \<times> nat \<times> bool) set"

datatype bact = Internal | Store nat nat "u8 list" | Finish nat nat

inductive bstep :: "nat \<Rightarrow> nat \<Rightarrow> bsys \<Rightarrow> bact \<Rightarrow> bsys \<Rightarrow> bool" for mn mx :: nat where
  Enter: "\<not> locked (man s) \<Longrightarrow> d \<noteq> 0 \<Longrightarrow> get_enter mn mx d b (man s) = (Inr g, m') \<Longrightarrow> g = Wait_Flush \<or> g = Ready p \<Longrightarrow>
    bstep mn mx s Internal (s\<lparr>man := m'\<rparr>)"
| Enter_Flush: "\<not> locked (man s) \<Longrightarrow> d \<noteq> 0 \<Longrightarrow> get_enter mn mx d b (man s) = (Inr (Must_Flush p), m') \<Longrightarrow>
    bstep mn mx s Internal (s\<lparr>man := m', pending := insert (p, d, b, False) (pending s)\<rparr>)"
| Enter_Fail: "\<not> locked (man s) \<Longrightarrow> d \<noteq> 0 \<Longrightarrow> get_enter mn mx d b (man s) = (Inl e, m') \<Longrightarrow>
    bstep mn mx s Internal (s\<lparr>man := m'\<rparr>)"
| Flushed: "(p, d, b, False) \<in> pending s \<Longrightarrow> node_flush p (man s) = (Inr (), m') \<Longrightarrow>
    bstep mn mx s Internal (s\<lparr>man := m', pending := insert (p, d, b, True) (pending s - {(p, d, b, False)})\<rparr>)"
| Finished: "\<not> locked (man s) \<Longrightarrow> (p, d, b, True) \<in> pending s \<Longrightarrow> get_finish p d b (man s) = (Inr q, m') \<Longrightarrow>
    bstep mn mx s (Finish d b) (s\<lparr>man := m', pending := pending s - {(p, d, b, True)}\<rparr>)"
| Load: "p \<in> set (buffer_list (man s)) \<Longrightarrow> heap (man s) p = Some nd \<Longrightarrow> b_refs nd > 0 \<Longrightarrow> b_bdev nd \<noteq> 0 \<Longrightarrow>
    node_load p (man s) = (Inr (), m') \<Longrightarrow> bstep mn mx s Internal (s\<lparr>man := m'\<rparr>)"
| Stored: "p \<in> set (buffer_list (man s)) \<Longrightarrow> heap (man s) p = Some nd \<Longrightarrow> b_refs nd > 0 \<Longrightarrow> b_valid nd \<Longrightarrow>
    node_store p x (man s) = (Inr (), m') \<Longrightarrow> bstep mn mx s (Store (b_bdev nd) (b_block nd) x) (s\<lparr>man := m'\<rparr>)"
| Put: "p \<in> set (buffer_list (man s)) \<Longrightarrow> put_ref p (man s) = (Inr (), m') \<Longrightarrow> bstep mn mx s Internal (s\<lparr>man := m'\<rparr>)"

inductive_cases bstepE: "bstep mn mx s a t"

definition pend_ok :: "bman \<Rightarrow> nat \<times> nat \<times> nat \<times> bool \<Rightarrow> bool" where
  "pend_ok m w \<longleftrightarrow> (case w of (p, d, b, f) \<Rightarrow> p \<in> set (flush_list m) \<and> d \<noteq> 0
     \<and> (f \<longrightarrow> (\<exists>nd. heap m p = Some nd \<and> \<not> (b_valid nd \<and> b_dirty nd))))"

definition sinv :: "bsys \<Rightarrow> bool" where
  "sinv s \<longleftrightarrow> binv (man s) \<and> (\<forall>w\<in>pending s. pend_ok (man s) w)
     \<and> (\<forall>v\<in>pending s. \<forall>w\<in>pending s. fst v = fst w \<longrightarrow> v = w)"

lemma sinvI:
  assumes "binv m" "\<And>w. w \<in> P \<Longrightarrow> pend_ok m w" "\<And>v w. v \<in> P \<Longrightarrow> w \<in> P \<Longrightarrow> fst v = fst w \<Longrightarrow> v = w"
  shows "sinv (s\<lparr>man := m, pending := P\<rparr>)"
proof -
  have "man (s\<lparr>man := m, pending := P\<rparr>) = m" "pending (s\<lparr>man := m, pending := P\<rparr>) = P" by simp_all
  then show ?thesis unfolding sinv_def using assms by metis
qed

lemma pend_keep:
  assumes "pend_ok m (p, d, b, f)" "p \<in> set (flush_list m')" "heap m' p = heap m p"
  shows "pend_ok m' (p, d, b, f)"
  using assms by (simp add: pend_ok_def)

text \<open>Steps that leave the flush list and its nodes alone keep the pending gets.\<close>

lemma sinv_same:
  assumes "sinv s" "binv m'" "flush_list m' = flush_list (man s)" "\<forall>p\<in>set (flush_list m'). heap m' p = heap (man s) p"
  shows "sinv (s\<lparr>man := m'\<rparr>)"
proof -
  have "pend_ok m' w" if "w \<in> pending s" for w
  proof -
    obtain p d b f where w: "w = (p, d, b, f)" by (cases w)
    have "pend_ok (man s) w" using assms(1) that by (simp add: sinv_def)
    then show ?thesis using pend_keep [of "man s" p d b f m'] assms(3,4) unfolding w by (simp add: pend_ok_def)
  qed
  then show ?thesis using assms(1,2) by (simp add: sinv_def)
qed

lemma put_ref_ok:
  assumes "binv m" "p \<in> set (buffer_list m)"
  shows "\<exists>m'. put_ref p m = (Inr (), m') \<and> binv m' \<and> same_store m m' \<and> flush_list m' = flush_list m
    \<and> (\<forall>q\<in>set (flush_list m). heap m' q = heap m q)"
proof -
  obtain nd where nd: "heap m p = Some nd" using binv_D(2) [OF assms(1), of p] assms(2) by (auto simp: all_nodes_def)
  define m' where "m' = put_node p (nd\<lparr>b_refs := b_refs nd - 1\<rparr>) m"
  have pf: "p \<notin> set (flush_list m)" using binv_D(1) [OF assms(1)] assms(2) by (auto simp: all_nodes_def)
  have "same_nodes m m'"
    using binv_D(1,5) [OF assms(1)] nd pf
    by (auto simp: same_nodes_def m'_def node_unused_def rel_option_iff split: option.splits)
  moreover have "put_ref p m = (Inr (), m')" using nd by (simp add: put_ref_def node_mod_run m'_def)
  ultimately show ?thesis using same_nodes_ok [OF assms(1)] pf by (intro exI [of _ m']) (auto simp: m'_def)
qed

definition view_after :: "bact \<Rightarrow> bman \<Rightarrow> bman \<Rightarrow> bool" where
  "view_after a m m' \<longleftrightarrow> (\<forall>d b. d \<noteq> 0 \<longrightarrow> bview m' d b = (case a of
      Store d0 b0 x \<Rightarrow> if d = d0 \<and> b = b0 then Some x else bview m d b
    | _ \<Rightarrow> bview m d b))"

lemma view_after_same [simp]: "view_after Internal m m' = same_store m m'" "view_after (Finish d b) m m' = same_store m m'"
  by (simp_all add: view_after_def same_store_def)

lemma bstep_ok:
  assumes "bstep mn mx s a t" "sinv s" "\<And>d b. a = Finish d b \<Longrightarrow> \<not> in_flush d b (man s)"
  shows "sinv t \<and> view_after a (man s) (man t)"
  using assms(1)
proof (cases rule: bstep.cases)
  case (Enter d b g m' p)
  have i: "binv (man s)" using assms(2) by (simp add: sinv_def)
  have g: "got_ok (man s) d b g m'" using enter_ok [OF i Enter(4), of mn mx b] Enter(5) by auto
  show ?thesis
  proof (cases g)
    case Wait_Flush
    have "in_flush d b (man s)" using g Wait_Flush by (simp add: got_ok_def in_flush_def)
    then have "m' = (man s)\<lparr>locked := False\<rparr>" using Enter(5) by (simp add: get_enter_def m_lock_def m_unlock_def)
    then show ?thesis using g sinv_same [OF assms(2), of m'] Enter(1,2) by (simp add: got_ok_def)
  next
    case (Ready q)
    have fl: "flush_list m' = flush_list (man s)" "binv m'" "node_for m' d b q" "same_store (man s) m'"
      using g Ready by (simp_all add: got_ok_def)
    have "heap m' r = heap (man s) r" if "r \<in> set (flush_list m')" for r
      using g Ready that fl(1) by (simp add: got_ok_def)
    then show ?thesis using sinv_same [OF assms(2) fl(2,1)] fl(4) Enter(1,2) by simp
  qed (use Enter(6) in simp)
next
  case (Enter_Flush d b p m')
  have i: "binv (man s)" using assms(2) by (simp add: sinv_def)
  have g: "got_ok (man s) d b (Must_Flush p) m'" using enter_ok [OF i Enter_Flush(4), of mn mx b] Enter_Flush(5) by auto
  have k: "pend_ok m' w" if "w \<in> pending s" for w
  proof -
    have "pend_ok (man s) w" using assms(2) that by (simp add: sinv_def)
    then show ?thesis using g pend_keep [of "man s" "fst w"] by (cases w) (auto simp: got_ok_def pend_ok_def)
  qed
  have new: "fst w \<noteq> p" if "w \<in> pending s" for w
  proof -
    have "pend_ok (man s) w" using assms(2) that by (simp add: sinv_def)
    then show ?thesis using g by (cases w) (auto simp: got_ok_def pend_ok_def)
  qed
  have "pend_ok m' (p, d, b, False)" using g Enter_Flush(4) by (simp add: got_ok_def pend_ok_def)
  moreover have "v = w" if "v \<in> insert (p, d, b, False) (pending s)" "w \<in> insert (p, d, b, False) (pending s)" "fst v = fst w" for v w
    using that new assms(2) unfolding sinv_def by fastforce
  moreover have "binv m'" using g by (simp add: got_ok_def)
  ultimately have "sinv t" unfolding Enter_Flush(2) using k by (intro sinvI) (blast+)
  then show ?thesis using g Enter_Flush(1,2) by (simp add: got_ok_def)
next
  case (Enter_Fail d b e m')
  have i: "binv (man s)" using assms(2) by (simp add: sinv_def)
  have "failed_ok (man s) mx m'" using enter_ok [OF i Enter_Fail(4), of mn mx b] Enter_Fail(5) by auto
  then show ?thesis using sinv_same [OF assms(2), of m'] Enter_Fail(1,2) by (simp add: failed_ok_def)
next
  case (Flushed p d b m')
  have i: "binv (man s)" and w: "pend_ok (man s) (p, d, b, False)" using assms(2) Flushed(3) by (auto simp: sinv_def)
  then have pl: "p \<in> set (flush_list (man s))" "p \<in> set (all_nodes (man s))" by (auto simp: pend_ok_def all_nodes_def)
  obtain nd where nd: "heap (man s) p = Some nd" using binv_D(2) [OF i pl(2)] by blast
  obtain nd' where f: "binv m'" "same_store (man s) m'" "heap m' = (heap (man s))(p \<mapsto> nd')" "\<not> (b_valid nd' \<and> b_dirty nd')"
      "flush_list m' = flush_list (man s)"
    using flush_ok [OF i pl(2) nd] Flushed(4) by auto
  have "pend_ok m' (p, d, b, True)" using w f by (auto simp: pend_ok_def)
  moreover have "pend_ok m' v" if v: "v \<in> pending s - {(p, d, b, False)}" for v
  proof -
    obtain q e c h where vv: "v = (q, e, c, h)" by (cases v)
    have "q \<noteq> p" using v vv assms(2) Flushed(3) by (fastforce simp: sinv_def)
    moreover have "pend_ok (man s) v" using v assms(2) by (simp add: sinv_def)
    ultimately show ?thesis using f unfolding vv by (simp add: pend_ok_def)
  qed
  moreover have "v = w" if "v \<in> insert (p, d, b, True) (pending s - {(p, d, b, False)})"
      "w \<in> insert (p, d, b, True) (pending s - {(p, d, b, False)})" "fst v = fst w" for v w
    using that assms(2) Flushed(3) unfolding sinv_def by fastforce
  ultimately have "sinv t" unfolding Flushed(2) by (intro sinvI f(1)) (blast+)
  then show ?thesis using f(2) Flushed(1,2) by simp
next
  case (Finished p d b q m')
  have i: "binv (man s)" and w: "pend_ok (man s) (p, d, b, True)" using assms(2) Finished(4) by (auto simp: sinv_def)
  then obtain nd where nd: "heap (man s) p = Some nd" "\<not> (b_valid nd \<and> b_dirty nd)" and pl: "p \<in> set (flush_list (man s))" "d \<noteq> 0"
    by (auto simp: pend_ok_def)
  have nf: "\<forall>r\<in>set (flush_list (man s)). \<not> node_matches (man s) d b r" using assms(3) Finished(1) by (auto simp: in_flush_def)
  have f: "binv m'" "same_store (man s) m'" "flush_list m' = remove1 p (flush_list (man s))"
      "\<forall>r\<in>set (flush_list m'). heap m' r = heap (man s) r"
    using finish_ok [OF i pl(2,1) nd nf] Finished(5) by auto
  have "pend_ok m' v" if v: "v \<in> pending s - {(p, d, b, True)}" for v
  proof -
    obtain q e c h where vv: "v = (q, e, c, h)" by (cases v)
    have qp: "q \<noteq> p" using v vv assms(2) Finished(4) by (fastforce simp: sinv_def)
    moreover have "pend_ok (man s) v" using v assms(2) by (simp add: sinv_def)
    moreover have "q \<in> set (remove1 p (flush_list (man s)))" using qp \<open>pend_ok (man s) v\<close> unfolding vv by (simp add: pend_ok_def in_set_remove1)
    ultimately show ?thesis using f(3,4) unfolding vv by (simp add: pend_ok_def)
  qed
  then have "sinv t" using f(1) assms(2) Finished(2) unfolding sinv_def by simp
  then show ?thesis using f(2) Finished(1,2) by simp
next
  case (Load p nd m')
  have i: "binv (man s)" using assms(2) by (simp add: sinv_def)
  have pl: "p \<in> set (all_nodes (man s))" "p \<notin> set (flush_list (man s))"
    using Load(3) binv_D(1) [OF i] by (auto simp: all_nodes_def)
  obtain nd' where "m' = put_node p nd' (man s)" "binv m'" "same_store (man s) m'" using load_ok [OF i pl(1) Load(7,4,6)] by blast
  then show ?thesis using sinv_same [OF assms(2), of m'] pl(2) Load(1,2) by auto
next
  case (Stored p nd x m')
  have i: "binv (man s)" using assms(2) by (simp add: sinv_def)
  have pl: "p \<in> set (all_nodes (man s))" "p \<notin> set (flush_list (man s))"
    using Stored(3) binv_D(1) [OF i] by (auto simp: all_nodes_def)
  have m': "m' = put_node p (nd\<lparr>b_data := x, b_dirty := True\<rparr>) (man s)" "binv m'"
    "\<forall>d b. d \<noteq> 0 \<longrightarrow> bview m' d b = (if bmatch d b nd then Some x else bview (man s) d b)"
    using store_ok [OF i pl(1) Stored(4,6), of x] Stored(7) by auto
  then have "view_after a (man s) m'" using Stored(1) by (auto simp: view_after_def bmatch_def)
  then show ?thesis using sinv_same [OF assms(2) m'(2)] m'(1) pl(2) Stored(2) by auto
next
  case (Put p m')
  have i: "binv (man s)" using assms(2) by (simp add: sinv_def)
  show ?thesis using put_ref_ok [OF i Put(3)] Put sinv_same [OF assms(2), of m'] by auto
qed

text \<open>
  Runs in which no get finishes for a block whose other node is being flushed at that moment.
\<close>

inductive bruns :: "nat \<Rightarrow> nat \<Rightarrow> bsys \<Rightarrow> bact list \<Rightarrow> bsys \<Rightarrow> bool" for mn mx :: nat where
  Done: "bruns mn mx s [] s"
| More: "bstep mn mx s a t \<Longrightarrow> (\<forall>d b. a = Finish d b \<longrightarrow> \<not> in_flush d b (man s)) \<Longrightarrow> bruns mn mx t as u \<Longrightarrow> bruns mn mx s (a # as) u"

text \<open>The specification: a store of blocks.\<close>

definition apply_act :: "(nat \<Rightarrow> nat \<Rightarrow> u8 list option) \<Rightarrow> bact \<Rightarrow> nat \<Rightarrow> nat \<Rightarrow> u8 list option" where
  "apply_act st a = (case a of Store d b x \<Rightarrow> st(d := (st d)(b \<mapsto> x)) | _ \<Rightarrow> st)"

lemma foldl_apply_cong:
  "\<forall>d b. d \<noteq> 0 \<longrightarrow> st d b = st' d b \<Longrightarrow> d \<noteq> 0 \<Longrightarrow> foldl apply_act st as d b = foldl apply_act st' as d b"
proof (induction as arbitrary: st st')
  case (Cons a as)
  have "\<forall>d b. d \<noteq> 0 \<longrightarrow> apply_act st a d b = apply_act st' a d b"
    using Cons.prems(1) by (auto simp: apply_act_def split: bact.splits)
  then show ?case using Cons.IH Cons.prems(2) by simp
qed simp

lemma bruns_ok:
  assumes "bruns mn mx s as t" "sinv s"
  shows "sinv t \<and> (\<forall>d b. d \<noteq> 0 \<longrightarrow> bview (man t) d b = foldl apply_act (bview (man s)) as d b)"
  using assms
proof (induction rule: bruns.induct)
  case (More s a t as u)
  have st: "sinv t" "view_after a (man s) (man t)" using bstep_ok [OF More(1,5)] More(2) by auto
  then have "\<forall>d b. d \<noteq> 0 \<longrightarrow> bview (man t) d b = apply_act (bview (man s)) a d b"
    by (auto simp: view_after_def apply_act_def split: bact.splits)
  then have "foldl apply_act (bview (man t)) as d b = foldl apply_act (apply_act (bview (man s)) a) as d b" if "d \<noteq> 0" for d b
    using foldl_apply_cong that by blast
  then show ?case using More.IH [OF st(1)] by simp
qed simp

section \<open>Properties\<close>

definition empty_cache :: "(nat \<Rightarrow> nat \<Rightarrow> u8 list option) \<Rightarrow> nat \<Rightarrow> bman" where
  "empty_cache dv n = \<lparr>heap = (\<lambda>_. None), buffer_list = [], flush_list = [], locked = False, fresh = 0, mem_left = n, devs = dv\<rparr>"

lemma empty_cache_ok: "binv (empty_cache dv n)" "bview (empty_cache dv n) = dv"
  by (simp_all add: empty_cache_def binv_def all_nodes_def bview_def fun_eq_iff)


definition one_block :: "nat \<Rightarrow> nat \<Rightarrow> u8 list option" where
  "one_block d b = Some [5]"


text \<open>
  A get that runs alone returns a node of the list for the block asked for, with a reference
  taken, and changes the contents of no block: a dirty node that is reused was written to the
  device before. It fails only when \<open>max_buffer_count\<close> nodes exist or no memory is left;
  in the second case it returns with the manager's lock held.
\<close>

lemma buffer_get_keeps_blocks:
  assumes "binv m" "flush_list m = []" "d \<noteq> 0"
  shows "(\<exists>p m'. manager_get mn mx d b m = (Inr p, m') \<and> binv m' \<and> same_store m m' \<and> node_for m' d b p \<and> flush_list m' = []
      \<and> \<not> locked m')
    \<or> (\<exists>m'. manager_get mn mx d b m = (Inl Task_Fail, m') \<and> same_store m m' \<and> heap m' = heap m
        \<and> (mx \<le> length (buffer_list m) \<or> mem_left m = 0) \<and> (locked m' \<longleftrightarrow> length (buffer_list m) < mx))"
  using enter_ok [OF assms(1,3), of mn mx b]
proof (elim disjE exE conjE)
  fix m' assume "get_enter mn mx d b m = (Inl Task_Fail, m')" "failed_ok m mx m'"
  then show ?thesis by (auto simp: manager_get_def failed_ok_def)
next
  fix g m' assume g: "get_enter mn mx d b m = (Inr g, m')" "got_ok m d b g m'"
  show ?thesis
  proof (cases g)
    case Wait_Flush
    then show ?thesis using g(2) assms(2) by (simp add: got_ok_def)
  next
    case (Ready p)
    then show ?thesis using g assms(2) by (auto simp: manager_get_def got_ok_def)
  next
    case (Must_Flush p)
    have 1: "binv m'" "same_store m m'" "flush_list m' = [p]" using g(2) Must_Flush assms(2) by (auto simp: got_ok_def)
    then have pl: "p \<in> set (all_nodes m')" by (simp add: all_nodes_def)
    obtain nd where nd: "heap m' p = Some nd" using binv_D(2) [OF 1(1) pl] by blast
    obtain m2 nd' where 2: "node_flush p m' = (Inr (), m2)" "binv m2" "same_store m' m2" "heap m2 = (heap m')(p \<mapsto> nd')"
        "\<not> (b_valid nd' \<and> b_dirty nd')" "nd' = nd\<lparr>b_dirty := b_dirty nd'\<rparr>" "flush_list m2 = [p]"
      using flush_ok [OF 1(1) pl nd] 1(3) by auto
    have "\<not> node_matches m2 d b p"
    proof -
      have "\<not> in_flush d b m" using assms(2) by (simp add: in_flush_def)
      moreover have "find_node d b m = None"
      proof (rule ccontr)
        assume "find_node d b m \<noteq> None"
        then obtain q where q: "find_node d b m = Some q" by auto
        then show False using g(1) Must_Flush assms(2) hit_ok [OF assms(1) q] by (auto simp: get_enter_def m_lock_def in_flush_def)
      qed
      moreover have "heap m p = Some nd" "set (all_nodes m') = set (all_nodes m)"
        using g Must_Flush nd by (auto simp: got_ok_def)
      ultimately have "\<not> node_matches m d b p" using miss_matches pl by auto
      then show ?thesis using \<open>heap m p = Some nd\<close> 2(4,6) by (cases nd') (auto simp: node_matches_def bmatch_def)
    qed
    then obtain q m3 where 3: "get_finish p d b m2 = (Inr q, m3)" "binv m3" "same_store m2 m3" "node_for m3 d b q" "\<not> locked m3"
        "flush_list m3 = []"
      using finish_ok [OF 2(2) assms(3), of p nd' b] 2(4,5,7) by auto
    have "manager_get mn mx d b m = (Inr q, m3)" using g(1) Must_Flush 2(1) 3(1) by (simp add: manager_get_def)
    then show ?thesis using 3 same_store_trans [OF same_store_trans [OF 1(2) 2(3)] 3(3)] by blast
  qed
qed

lemma buffer_get_keeps_blocks_witness:
  "(\<exists>p m'. manager_get 1 4 1 7 (empty_cache one_block 3) = (Inr p, m') \<and> binv m' \<and> same_store (empty_cache one_block 3) m'
      \<and> node_for m' 1 7 p \<and> flush_list m' = [] \<and> \<not> locked m')
    \<or> (\<exists>m'. manager_get 1 4 1 7 (empty_cache one_block 3) = (Inl Task_Fail, m') \<and> same_store (empty_cache one_block 3) m'
        \<and> heap m' = heap (empty_cache one_block 3)
        \<and> (4 \<le> length (buffer_list (empty_cache one_block 3)) \<or> mem_left (empty_cache one_block 3) = 0)
        \<and> (locked m' \<longleftrightarrow> length (buffer_list (empty_cache one_block 3)) < 4))"
  by (rule buffer_get_keeps_blocks) (simp_all add: empty_cache_ok, simp add: empty_cache_def)

text \<open>
  The interleaving that the hypothesis of the refinement excludes. Node 0 holds block 1, dirty. A
  wants block 2 and takes node 0 to flush it; B gets block 2 in a new node 1, stores into it and gives
  it back; C wants block 3 and takes node 1 to flush it; then A finishes, does not find block 2 in
  the list, and loads it from the device into node 0.
\<close>

definition race_start :: bman where
  "race_start = (empty_cache one_block 3)\<lparr>heap := [0 \<mapsto> \<lparr>b_bdev = 1, b_block = 1, b_valid = True, b_dirty = True, b_data = [9], b_refs = 0\<rparr>],
     buffer_list := [0], fresh := 1\<rparr>"

definition race :: "u8 list \<Rightarrow> (got \<times> got \<times> got \<times> nat \<times> u8 list option) bm" where
  "race x = kbind (get_enter 1 4 1 2) (\<lambda>ga.
    kbind (get_enter 1 4 1 2) (\<lambda>gb.
    kseq (node_load 1) (
    kseq (node_store 1 x) (
    kseq (put_ref 1) (
    kbind (get_enter 1 4 1 3) (\<lambda>gc.
    kseq (node_flush 0) (
    kbind (get_finish 0 1 2) (\<lambda>q.
    kseq (node_load q) (
    kbind (kget (\<lambda>m. map_option b_data (heap m q))) (\<lambda>dat.
    kret (ga, gb, gc, q, dat)))))))))))"

text \<open>
  In this interleaving A reads the old contents of the block from the device although the store of
  B was complete: the second locked part of a get looks for the block in the buffer list only and
  not in the flush list.
\<close>

lemma buffer_get_race_reads_stale_block:
  "binv race_start \<and> (\<exists>m'. race x race_start = (Inr (Must_Flush 0, Ready 1, Must_Flush 1, 0, Some [5]), m'))"
proof -
  have "race x race_start = (Inr (Must_Flush 0, Ready 1, Must_Flush 1, 0, Some [5]), snd (race x race_start))"
    by (simp add: race_def race_start_def empty_cache_def get_enter_def run_defs in_flush_def find_node_def pick_unused_def
        node_matches_def node_unused_def bmatch_def new_node_def node_load_def node_store_def put_ref_def node_flush_def get_finish_def
        one_block_def)
  moreover have "binv race_start"
    by (auto simp: binv_def race_start_def empty_cache_def all_nodes_def node_ok_def one_block_def node_matches_def bmatch_def)
  ultimately show ?thesis by blast
qed

end
