(* ===== verification/Object_Pool.thy ===== *)
theory Object_Pool
  imports Prelude
begin

text \<open>
  The contract between an allocator that keeps its free objects on a last-in first-out list inside
  the objects themselves and the code that holds the objects: the page allocator and the blocks of
  the heap allocator both offer it. A client acquires and releases objects and writes into the
  objects it holds, in any order.
\<close>

datatype 'w pool_op = Acquire | Release nat | Scribble nat 'w

text \<open>
  One run of a client: the list holds the objects it owns, \<open>Release i\<close> gives the \<open>i\<close>th of them back and
  \<open>Scribble i w\<close> writes into it. \<open>None\<close> means that an operation panicked or went wrong.
\<close>

fun pool_ops ::
  "('s \<Rightarrow> 'a option \<times> 's) \<Rightarrow> ('a \<Rightarrow> 's \<Rightarrow> 's option) \<Rightarrow> ('a \<Rightarrow> 'w \<Rightarrow> 's \<Rightarrow> 's) \<Rightarrow>
   'w pool_op list \<Rightarrow> 's \<times> 'a list \<Rightarrow> ('s \<times> 'a list) option" where
  "pool_ops acq rel wr [] (s, held) = Some (s, held)"
| "pool_ops acq rel wr (Acquire # ops) (s, held) = (case acq s of
      (None, s') \<Rightarrow> pool_ops acq rel wr ops (s', held)
    | (Some x, s') \<Rightarrow> pool_ops acq rel wr ops (s', x # held))"
| "pool_ops acq rel wr (Release i # ops) (s, held) =
     (if i < length held
      then (case rel (held ! i) s of
          None \<Rightarrow> None
        | Some s' \<Rightarrow> pool_ops acq rel wr ops (s', take i held @ drop (Suc i) held))
      else pool_ops acq rel wr ops (s, held))"
| "pool_ops acq rel wr (Scribble i w # ops) (s, held) =
     pool_ops acq rel wr ops (if i < length held then wr (held ! i) w s else s, held)"

locale object_pool =
  fixes inv :: "'s \<Rightarrow> 'a list \<Rightarrow> bool"
    and obj :: "'a \<Rightarrow> bool"
    and acquire :: "'s \<Rightarrow> 'a option \<times> 's"
    and release :: "'a \<Rightarrow> 's \<Rightarrow> 's option"
    and scribble :: "'a \<Rightarrow> 'w \<Rightarrow> 's \<Rightarrow> 's"
  assumes inv_distinct: "inv s free \<Longrightarrow> distinct free \<and> (\<forall>x\<in>set free. obj x)"
    and acquire_nil: "inv s [] \<Longrightarrow> acquire s = (None, s)"
    and acquire_cons: "inv s (x # free) \<Longrightarrow> \<exists>s'. acquire s = (Some x, s') \<and> inv s' free"
    and release_ok: "inv s free \<Longrightarrow> obj x \<Longrightarrow> x \<notin> set free \<Longrightarrow> \<exists>s'. release x s = Some s' \<and> inv s' (x # free)"
    and scribble_ok: "inv s free \<Longrightarrow> obj x \<Longrightarrow> x \<notin> set free \<Longrightarrow> inv (scribble x w s) free"
begin

lemma release_acquire:
  assumes "inv s free" "obj x" "x \<notin> set free" "release x s = Some s'"
  shows "\<exists>s''. acquire s' = (Some x, s'') \<and> inv s'' free"
  using release_ok [OF assms(1-3)] acquire_cons assms(4) by auto

lemma acquire_cases:
  assumes "inv s free"
  obtains "free = []" "acquire s = (None, s)"
  | x free' s' where "free = x # free'" "acquire s = (Some x, s')" "inv s' free'"
  using assms acquire_nil acquire_cons by (cases free) blast+

lemma no_object_twice:
  assumes "inv s free" "distinct (held @ free)" "\<forall>x\<in>set held. obj x"
  shows "\<exists>s' held' free'. pool_ops acquire release scribble ops (s, held) = Some (s', held')
    \<and> inv s' free' \<and> distinct (held' @ free') \<and> set held' \<union> set free' = set held \<union> set free"
  using assms
proof (induction ops arbitrary: s held free)
  case Nil
  then show ?case by auto
next
  case (Cons op ops)
  show ?case
  proof (cases op)
    case Acquire
    from Cons.prems(1) show ?thesis
    proof (cases rule: acquire_cases)
      case 1
      then show ?thesis using Acquire Cons.IH [OF Cons.prems] by simp
    next
      case (2 x free' s')
      have "distinct ((x # held) @ free')" "\<forall>y\<in>set (x # held). obj y"
        using Cons.prems inv_distinct [OF Cons.prems(1)] 2(1) by auto
      from Cons.IH [OF 2(3) this] show ?thesis using Acquire 2(1,2) by auto
    qed
  next
    case (Release i)
    show ?thesis
    proof (cases "i < length held")
      case True
      obtain l x r where held: "held = l @ x # r" "length l = i"
        using id_take_nth_drop [OF True] True by (metis length_take min.absorb4)
      have x: "obj x" "x \<notin> set free" "distinct ((l @ r) @ x # free)" "\<forall>y\<in>set (l @ r). obj y"
        using Cons.prems(2,3) held(1) by auto
      obtain s' where s': "release x s = Some s'" "inv s' (x # free)"
        using release_ok [OF Cons.prems(1) x(1,2)] by blast
      from Cons.IH [OF s'(2) x(3,4)] show ?thesis using Release s'(1) held by auto
    next
      case False
      then show ?thesis using Release Cons.IH [OF Cons.prems] by simp
    qed
  next
    case (Scribble i w)
    have "inv (if i < length held then scribble (held ! i) w s else s) free"
      using scribble_ok [OF Cons.prems(1)] Cons.prems by (auto simp: disjoint_iff)
    from Cons.IH [OF this Cons.prems(2,3)] show ?thesis using Scribble by simp
  qed
qed

end

end
