(* ===== verification/Page_Alloc.thy ===== *)
theory Page_Alloc
  imports Byte_Codec Mem_Utils Object_Pool
begin

text \<open>
  Physical memory and the page allocator (class \<open>allocator\<close> of \<open>src/os/mm/allocator.h\<close>, with the page
  macros of \<open>src/os/arch/riscv.h\<close>). Free pages form a linked list through their first eight bytes.
  The build without \<open>MEMORY_DEBUG\<close>, the default of the Makefile, is modelled. The spin lock makes each
  operation atomic.
\<close>

section \<open>Words in memory\<close>

definition load64 :: "mem \<Rightarrow> nat \<Rightarrow> u64 option" where
  "load64 m a = (if list_all (\<lambda>i. m (a + i) \<noteq> None) [0..<8]
     then Some (of_le (map (\<lambda>i. the (m (a + i))) [0..<8])) else None)"

definition store64 :: "mem \<Rightarrow> nat \<Rightarrow> u64 \<Rightarrow> mem option" where
  "store64 m a v = (if list_all (\<lambda>i. m (a + i) \<noteq> None) [0..<8]
     then Some (\<lambda>x. if a \<le> x \<and> x < a + 8 then Some (to_le 8 v ! (x - a)) else m x) else None)"

section \<open>The page macros and the allocator\<close>

definition PGSIZE :: u64 where
  "PGSIZE = 4096"

definition PGROUNDUP :: "u64 \<Rightarrow> u64" where
  "PGROUNDUP sz = (sz + PGSIZE - 1) AND NOT (PGSIZE - 1)"

definition PGROUNDDOWN :: "u64 \<Rightarrow> u64" where
  "PGROUNDDOWN a = a AND NOT (PGSIZE - 1)"

record allocator =
  free_page_list :: u64
  free_page_count :: u64
  start_addr :: u64
  end_addr :: u64

text \<open>The memory of the machine together with the object \<open>kernel_allocator\<close>.\<close>

record mm =
  ram :: mem
  kernel_allocator :: allocator

definition mem_load64 :: "u64 \<Rightarrow> ('x mm_scheme, u64) kmonad" where
  "mem_load64 a = kbind (kget ram) (\<lambda>m.
    kopt (load64 m (unat a)))"

definition mem_store64 :: "u64 \<Rightarrow> u64 \<Rightarrow> ('x mm_scheme, unit) kmonad" where
  "mem_store64 a v = kbind (kget ram) (\<lambda>m.
    kbind (kopt (store64 m (unat a) v)) (\<lambda>m'.
    kmod (\<lambda>s. s\<lparr>ram := m'\<rparr>)))"

definition mem_memset :: "u64 \<Rightarrow> int \<Rightarrow> u64 \<Rightarrow> ('x mm_scheme, unit) kmonad" where
  "mem_memset p c n = kbind (kget ram) (\<lambda>m.
    kbind (kopt (memset (unat p) c (unat n) m)) (\<lambda>m'.
    kmod (\<lambda>s. s\<lparr>ram := m'\<rparr>)))"

definition mem_memmove :: "u64 \<Rightarrow> u64 \<Rightarrow> u64 \<Rightarrow> ('x mm_scheme, unit) kmonad" where
  "mem_memmove d p n = kbind (kget ram) (\<lambda>m.
    kbind (kopt (memmove (unat d) (unat p) (unat n) m)) (\<lambda>m'.
    kmod (\<lambda>s. s\<lparr>ram := m'\<rparr>)))"

definition free_page :: "u64 \<Rightarrow> ('x mm_scheme, unit) kmonad" where
  "free_page pa = (if pa = 0 then kret () else kbind (kget kernel_allocator) (\<lambda>al.
    kseq (kassert (\<not> (pa mod PGSIZE \<noteq> 0 \<or> pa < start_addr al \<or> end_addr al \<le> pa)) ''free_page'') (
    kseq (mem_store64 pa (free_page_list al)) (
    kmod (\<lambda>s. s\<lparr>kernel_allocator := al\<lparr>free_page_list := pa, free_page_count := free_page_count al + 1\<rparr>\<rparr>)))))"

text \<open>The null pointer is \<open>0\<close>.\<close>

definition alloc_page :: "('x mm_scheme, u64) kmonad" where
  "alloc_page = kbind (kget kernel_allocator) (\<lambda>al.
    if free_page_list al = 0 then kret 0 else kbind (mem_load64 (free_page_list al)) (\<lambda>next_page.
      kseq (kmod (\<lambda>s. s\<lparr>kernel_allocator := al\<lparr>free_page_list := next_page, free_page_count := free_page_count al - 1\<rparr>\<rparr>)) (
      kret (free_page_list al))))"

definition get_free_page_count :: "'x mm_scheme \<Rightarrow> u64" where
  "get_free_page_count s = free_page_count (kernel_allocator s)"

text \<open>The constructor: the first argument of the loop bounds its iterations.\<close>

primrec init_loop :: "nat \<Rightarrow> u64 \<Rightarrow> ('x mm_scheme, unit) kmonad" where
  "init_loop 0 p = kthrow Out_Of_Fuel"
| "init_loop (Suc fuel) p = kbind (kget kernel_allocator) (\<lambda>al.
  if p < end_addr al then kseq (free_page p) (
    init_loop fuel (p + PGSIZE)) else kret ())"

definition allocator_init :: "u64 \<Rightarrow> u64 \<Rightarrow> ('x mm_scheme, unit) kmonad" where
  "allocator_init lo hi = kseq (kmod (\<lambda>s. s\<lparr>kernel_allocator := \<lparr>free_page_list = 0, free_page_count = 0,
       start_addr = PGROUNDUP lo, end_addr = PGROUNDDOWN hi\<rparr>\<rparr>)) (
    init_loop (Suc (unat (PGROUNDDOWN hi) div 4096)) (PGROUNDUP lo))"

section \<open>Reading and writing words\<close>

named_theorems mem_run \<open>memory accesses that succeed\<close>

definition frame :: "u64 \<Rightarrow> nat set" where
  "frame p = {unat p..<unat p + 4096}"

definition same_on :: "nat set \<Rightarrow> mem \<Rightarrow> mem \<Rightarrow> bool" where
  "same_on A m m' \<longleftrightarrow> (\<forall>a\<in>A. m' a = m a)"

definition stored :: "mem \<Rightarrow> nat \<Rightarrow> u64 \<Rightarrow> mem" where
  "stored m a v = (\<lambda>x. if a \<le> x \<and> x < a + 8 then Some (to_le 8 v ! (x - a)) else m x)"

lemma mapped8_iff: "list_all (\<lambda>i. m (a + i) \<noteq> None) [0..<8] \<longleftrightarrow> mapped m a 8"
  by (auto simp: list_all_iff mapped_def)

lemma store64_run [mem_run]: "mapped m a 8 \<Longrightarrow> store64 m a v = Some (stored m a v)"
  by (simp only: store64_def mapped8_iff stored_def if_True)

lemma load64_run: "mapped m a 8 \<Longrightarrow> load64 m a = Some (of_le (map (\<lambda>i. the (m (a + i))) [0..<8]))"
  by (simp only: load64_def mapped8_iff if_True)

lemma load64_same:
  assumes "\<And>i. i < 8 \<Longrightarrow> m' (a + i) = m (a + i)"
  shows "load64 m' a = load64 m a"
proof -
  have "map (\<lambda>i. the (m' (a + i))) [0..<8] = map (\<lambda>i. the (m (a + i))) [0..<8]"
    using assms by (intro map_cong) simp_all
  moreover have "mapped m' a 8 = mapped m a 8" using assms by (simp add: mapped_def)
  ultimately show ?thesis by (simp only: load64_def mapped8_iff)
qed

lemma load64_stored [mem_run]: "load64 (stored m a v) a = Some v"
proof -
  have "map (\<lambda>i. the (stored m a v (a + i))) [0..<8] = to_le 8 v"
    by (rule nth_equalityI) (simp_all add: stored_def)
  moreover have "mapped (stored m a v) a 8" by (simp add: mapped_def stored_def)
  ultimately show ?thesis by (simp add: load64_run of_le_to_le)
qed

lemma load64_stored_other: "b + 8 \<le> a \<or> a + 8 \<le> b \<Longrightarrow> load64 (stored m a v) b = load64 m b"
  by (rule load64_same) (auto simp: stored_def)

lemma load64_zeroed: "p \<le> a \<Longrightarrow> a + 8 \<le> p + n \<Longrightarrow> load64 (filled m p 0 n) a = Some 0"
proof -
  assume a: "p \<le> a" "a + 8 \<le> p + n"
  then have "mapped (filled m p 0 n) a 8" by (simp add: mapped_def filled_def)
  moreover have "map (\<lambda>i. the (filled m p 0 n (a + i))) [0..<8] = to_le 8 (0 :: u64)"
    using a by (intro nth_equalityI) (simp_all add: filled_def nth_to_le)
  ultimately show ?thesis by (simp only: load64_run) (simp add: of_le_to_le)
qed

lemma mapped_stored [simp]: "mapped m b n \<Longrightarrow> mapped (stored m a v) b n"
  by (simp add: mapped_def stored_def)

lemma mapped_filled [simp]: "mapped m b n \<Longrightarrow> mapped (filled m p c k) b n"
  by (simp add: mapped_def filled_def)

lemma mapped_sub: "mapped m a n \<Longrightarrow> i + k \<le> n \<Longrightarrow> mapped m (a + i) k"
  unfolding mapped_def by (metis add.assoc add_less_mono1 add.commute nat_add_left_cancel_less order_less_le_trans)

lemma mem_load64_run [mem_run]: "mem_load64 a s = (case load64 (ram s) (unat a) of None \<Rightarrow> (Inl Undefined, s) | Some v \<Rightarrow> (Inr v, s))"
  by (simp add: mem_load64_def split: option.splits)

lemma mem_store64_run [mem_run]:
  "mapped (ram s) (unat a) 8 \<Longrightarrow> mem_store64 a v s = (Inr (), s\<lparr>ram := stored (ram s) (unat a) v\<rparr>)"
  by (simp add: mem_store64_def mem_run)

lemma mem_memset_run [mem_run]:
  "mapped (ram s) (unat p) (unat n) \<Longrightarrow> mem_memset p c n s = (Inr (), s\<lparr>ram := filled (ram s) (unat p) (word_of_int c) (unat n)\<rparr>)"
  by (simp add: mem_memset_def memset_run)

lemma mem_memmove_run [mem_run]:
  "mapped (ram s) (unat p) (unat n) \<Longrightarrow> mapped (ram s) (unat d) (unat n) \<Longrightarrow>
   mem_memmove d p n s = (Inr (), s\<lparr>ram := moved (ram s) (unat d) (unat p) (unat n)\<rparr>)"
  by (simp add: mem_memmove_def memmove_run)

section \<open>The invariant of the page pool\<close>

definition page_in :: "u64 \<Rightarrow> u64 \<Rightarrow> u64 \<Rightarrow> bool" where
  "page_in lo hi p \<longleftrightarrow> p \<noteq> 0 \<and> 4096 dvd unat p \<and> lo \<le> p \<and> p < hi"

primrec page_chain :: "mem \<Rightarrow> u64 \<Rightarrow> u64 list \<Rightarrow> bool" where
  "page_chain m p [] \<longleftrightarrow> p = 0"
| "page_chain m p (q # qs) \<longleftrightarrow> p = q \<and> (case load64 m (unat q) of None \<Rightarrow> False | Some n \<Rightarrow> page_chain m n qs)"

definition pages_mapped :: "u64 \<Rightarrow> u64 \<Rightarrow> mem \<Rightarrow> bool" where
  "pages_mapped lo hi m \<longleftrightarrow> (\<forall>p. page_in lo hi p \<longrightarrow> mapped m (unat p) 4096)"

definition pool_inv :: "u64 \<Rightarrow> u64 \<Rightarrow> 'x mm_scheme \<Rightarrow> u64 list \<Rightarrow> bool" where
  "pool_inv lo hi s ps \<longleftrightarrow> start_addr (kernel_allocator s) = lo \<and> end_addr (kernel_allocator s) = hi
    \<and> page_chain (ram s) (free_page_list (kernel_allocator s)) ps \<and> distinct ps
    \<and> (\<forall>p\<in>set ps. page_in lo hi p) \<and> free_page_count (kernel_allocator s) = of_nat (length ps)
    \<and> pages_mapped lo hi (ram s)"

lemma mod_PGSIZE_iff: "p mod PGSIZE = 0 \<longleftrightarrow> 4096 dvd unat p"
  by (simp add: PGSIZE_def word_arith_nat_mod [of p 4096] flip: word_unat_eq_iff)
     (simp add: unat_word_ariths word_unat_eq_iff dvd_eq_mod_eq_0 unat_of_nat)

lemma frames_disjoint:
  assumes "4096 dvd unat p" "4096 dvd unat q" "p \<noteq> q"
  shows "frame p \<inter> frame q = {}"
proof -
  from assms obtain i j where "unat p = 4096 * i" "unat q = 4096 * j" by (auto elim!: dvdE)
  moreover from this have "i \<noteq> j" using assms(3) by (auto simp: word_unat_eq_iff)
  ultimately show ?thesis by (auto simp: frame_def)
qed

lemma page_chain_same:
  assumes "page_chain m p ps" "\<forall>q\<in>set ps. \<forall>a\<in>frame q. m' a = m a"
  shows "page_chain m' p ps"
  using assms
proof (induction ps arbitrary: p)
  case (Cons q ps)
  have "load64 m' (unat q) = load64 m (unat q)"
    by (rule load64_same) (use Cons.prems(2) in \<open>simp add: frame_def\<close>)
  then show ?case using Cons by (auto split: option.splits)
qed simp

lemma pool_inv_frame:
  assumes "pool_inv lo hi s ps" "kernel_allocator s' = kernel_allocator s"
    "\<forall>q\<in>set ps. \<forall>a\<in>frame q. ram s' a = ram s a" "pages_mapped lo hi (ram s')"
  shows "pool_inv lo hi s' ps"
  using assms page_chain_same unfolding pool_inv_def by metis

lemma pages_mapped_stored [simp]: "pages_mapped lo hi m \<Longrightarrow> pages_mapped lo hi (stored m a v)"
  by (simp add: pages_mapped_def)

lemma pages_mapped_filled [simp]: "pages_mapped lo hi m \<Longrightarrow> pages_mapped lo hi (filled m a c n)"
  by (simp add: pages_mapped_def)

lemma mapped_le: "mapped m a n \<Longrightarrow> k \<le> n \<Longrightarrow> mapped m a k"
  by (simp add: mapped_def)

lemma alloc_page_nil: "pool_inv lo hi s [] \<Longrightarrow> alloc_page s = (Inr 0, s)"
  by (simp add: alloc_page_def pool_inv_def)

lemma alloc_page_cons:
  assumes "pool_inv lo hi s (p # ps)"
  shows "\<exists>al. alloc_page s = (Inr p, s\<lparr>kernel_allocator := al\<rparr>) \<and> pool_inv lo hi (s\<lparr>kernel_allocator := al\<rparr>) ps"
proof -
  from assms obtain n where n: "load64 (ram s) (unat p) = Some n" "page_chain (ram s) n ps"
    by (auto simp: pool_inv_def split: option.splits)
  have "p \<noteq> 0" "free_page_list (kernel_allocator s) = p" using assms by (auto simp: pool_inv_def page_in_def)
  then show ?thesis using assms n by (auto simp: alloc_page_def mem_run pool_inv_def)
qed

lemma free_page_ok:
  assumes "pool_inv lo hi s ps" "page_in lo hi p" "p \<notin> set ps"
  shows "\<exists>s'. free_page p s = (Inr (), s') \<and> pool_inv lo hi s' (p # ps)
    \<and> (\<forall>a. a \<notin> frame p \<longrightarrow> ram s' a = ram s a) \<and> (\<forall>a. ram s a \<noteq> None \<longrightarrow> ram s' a \<noteq> None)
    \<and> mm.more s' = mm.more s"
proof -
  let ?al = "kernel_allocator s"
  let ?m = "stored (ram s) (unat p) (free_page_list ?al)"
  let ?s = "s\<lparr>ram := ?m, kernel_allocator := ?al\<lparr>free_page_list := p, free_page_count := free_page_count ?al + 1\<rparr>\<rparr>"
  have p: "p \<noteq> 0" "4096 dvd unat p" "lo \<le> p" "p < hi" using assms(2) by (auto simp: page_in_def)
  have mp: "mapped (ram s) (unat p) 8"
    using assms(1,2) mapped_le [of "ram s" "unat p" 4096 8] by (auto simp: pool_inv_def pages_mapped_def)
  have al: "start_addr ?al = lo" "end_addr ?al = hi" using assms(1) by (auto simp: pool_inv_def)
  have run: "free_page p s = (Inr (), ?s)"
    using p mp al by (simp add: free_page_def mod_PGSIZE_iff mem_run not_less not_le)
  have "\<forall>q\<in>set ps. \<forall>a\<in>frame q. ?m a = ram s a"
  proof (intro ballI)
    fix q a assume q: "q \<in> set ps" "a \<in> frame q"
    then have "frame p \<inter> frame q = {}"
      using frames_disjoint p(2) assms by (metis pool_inv_def page_in_def)
    then show "?m a = ram s a" using q(2) by (auto simp: stored_def frame_def)
  qed
  then have "page_chain ?m (free_page_list ?al) ps"
    using assms(1) page_chain_same by (auto simp: pool_inv_def)
  then have "pool_inv lo hi ?s (p # ps)"
    using assms by (auto simp: pool_inv_def mem_run)
  moreover have "\<forall>a. a \<notin> frame p \<longrightarrow> ?m a = ram s a" by (auto simp: stored_def frame_def)
  moreover have "\<forall>a. ram s a \<noteq> None \<longrightarrow> ?m a \<noteq> None" by (auto simp: stored_def)
  ultimately show ?thesis using run by (intro exI [of _ ?s]) auto
qed

section \<open>Rounding\<close>

lemma unat_and_not_mask:
  fixes a :: "'a::len word"
  shows "unat (a AND NOT (mask n)) = unat a div 2 ^ n * 2 ^ n"
proof -
  have "a AND NOT (mask n) = push_bit n (drop_bit n a)"
    by (rule bit_word_eqI) (auto simp: bit_simps)
  moreover have "unat a div 2 ^ n * 2 ^ n < 2 ^ LENGTH('a)"
    using unsigned_less [of a, where ?'a = nat] div_times_less_eq_dividend order_le_less_trans by blast
  ultimately show ?thesis
    by (simp only: unsigned_push_bit_eq unsigned_drop_bit_eq) (simp add: drop_bit_eq_div push_bit_eq_mult take_bit_nat_eq_self)
qed

lemma PGSIZE_mask: "PGSIZE - 1 = mask 12"
  by (simp add: PGSIZE_def mask_eq_exp_minus_1)

lemma unat_PGROUNDDOWN: "unat (PGROUNDDOWN a) = unat a div 4096 * 4096"
  unfolding PGROUNDDOWN_def PGSIZE_mask unat_and_not_mask by simp

lemma unat_PGROUNDUP:
  assumes "unat a + 4095 < 2 ^ 64"
  shows "unat (PGROUNDUP a) = (unat a + 4095) div 4096 * 4096"
proof -
  have "unat (a + 4095) = unat a + 4095" using assms by (subst unat_add_lem [THEN iffD1]) simp_all
  then show ?thesis
    unfolding PGROUNDUP_def PGSIZE_mask unat_and_not_mask by (simp add: PGSIZE_def add.commute)
qed

lemma PGROUNDDOWN_dvd [simp]: "4096 dvd unat (PGROUNDDOWN a)"
  by (simp add: unat_PGROUNDDOWN)

lemma PGROUNDUP_dvd [simp]: "4096 dvd unat (PGROUNDUP a)"
  unfolding PGROUNDUP_def PGSIZE_mask unat_and_not_mask by simp

lemma PGROUNDDOWN_le: "PGROUNDDOWN a \<le> a"
  by (simp add: word_le_nat_alt unat_PGROUNDDOWN)

section \<open>The constructor\<close>

definition page_range :: "u64 \<Rightarrow> nat \<Rightarrow> u64 list" where
  "page_range p n = map (\<lambda>i. p + of_nat i * PGSIZE) [0..<n]"

lemma page_range_Suc: "page_range p (Suc n) = p # page_range (p + PGSIZE) n"
  by (simp add: page_range_def upt_conv_Cons map_Suc_upt [symmetric] o_def algebra_simps del: upt_Suc)

lemma page_range_0 [simp]: "page_range p 0 = []"
  by (simp add: page_range_def)

lemma unat_add_PGSIZE: "unat p + 4096 < 2 ^ 64 \<Longrightarrow> unat (p + PGSIZE) = unat p + 4096"
  unfolding PGSIZE_def by (subst unat_add_lem [THEN iffD1]) simp_all

lemma init_loop_run:
  assumes "pool_inv lo hi s ps" "lo \<le> p" "p \<noteq> 0" "4096 dvd unat p" "unat hi = unat p + 4096 * n"
    "\<forall>q\<in>set ps. q < p" "n < fuel"
  shows "\<exists>s'. init_loop fuel p s = (Inr (), s') \<and> pool_inv lo hi s' (rev (page_range p n) @ ps)
    \<and> (\<forall>a. ram s a \<noteq> None \<longrightarrow> ram s' a \<noteq> None)"
  using assms
proof (induction n arbitrary: p s ps fuel)
  case 0
  then have "hi = p" by (simp add: word_unat_eq_iff)
  with 0 show ?case by (cases fuel) (auto simp: pool_inv_def)
next
  case (Suc n)
  obtain f where f: "fuel = Suc f" "n < f" using Suc.prems(7) by (cases fuel) auto
  have "p < hi" using Suc.prems(5) by (simp add: word_less_nat_alt)
  then have p: "page_in lo hi p" using Suc.prems by (simp add: page_in_def)
  have "p \<notin> set ps" using Suc.prems(6) by auto
  from free_page_ok [OF Suc.prems(1) p this] obtain s1 where
    s1: "free_page p s = (Inr (), s1)" "pool_inv lo hi s1 (p # ps)" "\<forall>a. ram s a \<noteq> None \<longrightarrow> ram s1 a \<noteq> None" by blast
  have "unat hi < 2 ^ 64" using unsigned_less [of hi, where ?'a = nat] by simp
  show ?case
  proof (cases "n = 0")
    case True
    have "p + PGSIZE = hi" using Suc.prems(5) True \<open>unat hi < 2 ^ 64\<close> unat_add_PGSIZE [of p] by (simp add: word_unat_eq_iff)
    then show ?thesis
      using f s1 \<open>p < hi\<close> True Suc.prems(1) by (cases f) (auto simp: pool_inv_def page_range_Suc)
  next
    case False
    have q: "unat (p + PGSIZE) = unat p + 4096"
      using Suc.prems(5) False \<open>unat hi < 2 ^ 64\<close> by (intro unat_add_PGSIZE) simp
    then have "p < p + PGSIZE" "p + PGSIZE \<noteq> 0" by (simp_all add: word_less_nat_alt) (metis add_eq_0_iff_both_eq_0 unsigned_0 zero_neq_numeral)
    moreover have "4096 dvd unat (p + PGSIZE)" using q Suc.prems(4) by simp
    moreover have "lo \<le> p + PGSIZE" "\<forall>q\<in>set (p # ps). q < p + PGSIZE" "unat hi = unat (p + PGSIZE) + 4096 * n"
      using \<open>p < p + PGSIZE\<close> Suc.prems(2,5,6) q by auto
    ultimately obtain s' where "init_loop f (p + PGSIZE) s1 = (Inr (), s')"
      "pool_inv lo hi s' (rev (page_range (p + PGSIZE) n) @ p # ps)" "\<forall>a. ram s1 a \<noteq> None \<longrightarrow> ram s' a \<noteq> None"
      using Suc.IH [OF s1(2)] f(2) by blast
    then show ?thesis using f s1(1,3) \<open>p < hi\<close> Suc.prems(1)
      by (intro exI [of _ s']) (simp add: page_range_Suc pool_inv_def)
  qed
qed

lemma allocator_init_run:
  assumes "0 < lo" "unat lo + 4095 < 2 ^ 64" "PGROUNDUP lo \<le> PGROUNDDOWN hi"
    "pages_mapped (PGROUNDUP lo) (PGROUNDDOWN hi) (ram s)"
  shows "\<exists>s'. allocator_init lo hi s = (Inr (), s') \<and> pool_inv (PGROUNDUP lo) (PGROUNDDOWN hi) s'
    (rev (page_range (PGROUNDUP lo) (unat (PGROUNDDOWN hi - PGROUNDUP lo) div 4096)))
    \<and> (\<forall>a. ram s a \<noteq> None \<longrightarrow> ram s' a \<noteq> None)"
proof -
  let ?lo = "PGROUNDUP lo" and ?hi = "PGROUNDDOWN hi"
  let ?s = "s\<lparr>kernel_allocator := \<lparr>free_page_list = 0, free_page_count = 0, start_addr = ?lo, end_addr = ?hi\<rparr>\<rparr>"
  have "pool_inv ?lo ?hi ?s []" using assms(4) by (simp add: pool_inv_def)
  moreover have "?lo \<noteq> 0"
    using assms(1) unat_PGROUNDUP [OF assms(2)] by (auto simp: word_unat_eq_iff word_less_nat_alt)
  moreover have le: "unat ?lo \<le> unat ?hi" using assms(3) by (simp add: word_le_nat_alt)
  moreover have "4096 dvd unat ?hi - unat ?lo" by (simp add: dvd_diff_nat)
  ultimately have "\<exists>s'. init_loop (Suc (unat ?hi div 4096)) ?lo ?s = (Inr (), s')
     \<and> pool_inv ?lo ?hi s' (rev (page_range ?lo ((unat ?hi - unat ?lo) div 4096)) @ [])
     \<and> (\<forall>a. ram ?s a \<noteq> None \<longrightarrow> ram s' a \<noteq> None)"
    by (intro init_loop_run) (auto simp: less_Suc_eq_le div_le_mono)
  moreover have "unat (?hi - ?lo) = unat ?hi - unat ?lo" using assms(3) by (rule unat_sub)
  ultimately show ?thesis by (auto simp: allocator_init_def)
qed

section \<open>The page allocator as an object pool\<close>

definition page_acquire :: "'x mm_scheme \<Rightarrow> u64 option \<times> 'x mm_scheme" where
  "page_acquire s = (case alloc_page s of
      (Inr p, s') \<Rightarrow> (if p = 0 then None else Some p, s')
    | (Inl _, s') \<Rightarrow> (None, s'))"

definition page_release :: "u64 \<Rightarrow> 'x mm_scheme \<Rightarrow> 'x mm_scheme option" where
  "page_release p s = (case free_page p s of (Inr _, s') \<Rightarrow> Some s' | (Inl _, _) \<Rightarrow> None)"

definition page_scribble :: "u64 \<Rightarrow> nat \<times> u8 \<Rightarrow> 'x mm_scheme \<Rightarrow> 'x mm_scheme" where
  "page_scribble p w s = (case w of (i, v) \<Rightarrow> if i < 4096 then s\<lparr>ram := (ram s)(unat p + i \<mapsto> v)\<rparr> else s)"

lemma page_scribble_ok:
  assumes "pool_inv lo hi s free" "page_in lo hi p" "p \<notin> set free"
  shows "pool_inv lo hi (page_scribble p w s) free"
proof (cases w)
  case (Pair i v)
  have "\<forall>q\<in>set free. frame p \<inter> frame q = {}"
    using assms frames_disjoint unfolding pool_inv_def page_in_def by metis
  then have "\<forall>q\<in>set free. \<forall>a\<in>frame q. ram (page_scribble p w s) a = ram s a"
    using Pair by (fastforce simp: page_scribble_def frame_def)
  moreover have "pages_mapped lo hi (ram (page_scribble p w s))"
    using assms(1) Pair by (auto simp: pool_inv_def pages_mapped_def mapped_def page_scribble_def)
  ultimately show ?thesis
    using Pair by (intro pool_inv_frame [OF assms(1)]) (auto simp: page_scribble_def)
qed

interpretation page_pool: object_pool "pool_inv lo hi" "page_in lo hi" page_acquire page_release page_scribble
  for lo hi
proof (unfold_locales, goal_cases)
  case (1 s free)
  then show ?case by (simp add: pool_inv_def)
next
  case (2 s)
  then show ?case by (simp add: page_acquire_def alloc_page_nil)
next
  case (3 s x free)
  then show ?case using alloc_page_cons [OF 3] by (auto simp: page_acquire_def pool_inv_def page_in_def)
next
  case (4 s free x)
  then show ?case using free_page_ok [OF 4] by (auto simp: page_release_def)
next
  case (5 s free x w)
  then show ?case by (rule page_scribble_ok)
qed

lemma free_count_run: "pool_inv lo hi s free \<Longrightarrow> get_free_page_count s = of_nat (length free)"
  by (simp add: pool_inv_def get_free_page_count_def)

section \<open>Properties\<close>

text \<open>
  C31. After the constructor has run over a mapped range of memory, no sequence of \<open>alloc_page\<close>,
  \<open>free_page\<close> and writes into allocated pages makes the allocator fail or hand out a page twice: the
  pages the clients hold are always distinct, aligned and inside the range, and the free page count
  is the number of pages of the range less the ones held.
\<close>

theorem pages_never_shared:
  assumes "0 < lo" "unat lo + 4095 < 2 ^ 64" "PGROUNDUP lo \<le> PGROUNDDOWN hi"
    "pages_mapped (PGROUNDUP lo) (PGROUNDDOWN hi) (ram s)"
  shows "\<exists>s0. allocator_init lo hi s = (Inr (), s0) \<and> (\<forall>ops. \<exists>s' held.
    pool_ops page_acquire page_release page_scribble ops (s0, []) = Some (s', held) \<and> distinct held
    \<and> (\<forall>p\<in>set held. page_in (PGROUNDUP lo) (PGROUNDDOWN hi) p)
    \<and> get_free_page_count s' = of_nat (unat (PGROUNDDOWN hi - PGROUNDUP lo) div 4096 - length held))"
proof -
  let ?lo = "PGROUNDUP lo" and ?hi = "PGROUNDDOWN hi"
  let ?all = "rev (page_range ?lo (unat (?hi - ?lo) div 4096))"
  obtain s0 where s0: "allocator_init lo hi s = (Inr (), s0)" "pool_inv ?lo ?hi s0 ?all"
    using allocator_init_run [OF assms] by blast
  have "\<exists>s' held. pool_ops page_acquire page_release page_scribble ops (s0, []) = Some (s', held) \<and> distinct held
    \<and> (\<forall>p\<in>set held. page_in ?lo ?hi p) \<and> get_free_page_count s' = of_nat (unat (?hi - ?lo) div 4096 - length held)" for ops
  proof -
    have d: "distinct ([] @ ?all)" "\<forall>x\<in>set []. page_in ?lo ?hi x" "\<forall>p\<in>set ?all. page_in ?lo ?hi p"
      using s0(2) by (auto simp: pool_inv_def)
    obtain s' held free where r: "pool_ops page_acquire page_release page_scribble ops (s0, []) = Some (s', held)"
      "pool_inv ?lo ?hi s' free" "distinct (held @ free)" "set held \<union> set free = set [] \<union> set ?all"
      using page_pool.no_object_twice [OF s0(2) d(1,2)] by blast
    have "length (held @ free) = length ?all"
      using r(3,4) d(1) by (metis append_Nil distinct_card set_append)
    then have "length free = unat (?hi - ?lo) div 4096 - length held" by (simp add: page_range_def)
    then show ?thesis using r d(3) free_count_run [OF r(2)] by (intro exI [of _ s'] exI [of _ held]) auto
  qed
  then show ?thesis using s0(1) by blast
qed

definition blank_mm :: "nat \<Rightarrow> mm" where
  "blank_mm n = \<lparr>ram = (\<lambda>a. if a < n then Some 0 else None), kernel_allocator =
     \<lparr>free_page_list = 0, free_page_count = 0, start_addr = 0, end_addr = 0\<rparr>\<rparr>"

lemma blank_mapped:
  assumes "4096 dvd n" "unat hi \<le> n"
  shows "pages_mapped lo hi (ram (blank_mm n))"
proof -
  have "unat p + i < n" if p: "page_in lo hi p" and i: "i < 4096" for p i
  proof -
    from p assms obtain k j where k: "unat p = 4096 * k" "n = 4096 * j" by (auto simp: page_in_def elim!: dvdE)
    moreover have "unat p < n" using p assms(2) by (auto simp: page_in_def word_less_nat_alt)
    ultimately have "k < j" by simp
    then have "4096 * k + 4096 \<le> 4096 * j" by simp
    then show ?thesis using k i by linarith
  qed
  then show ?thesis by (simp add: pages_mapped_def mapped_def blank_mm_def)
qed

lemma blank_bounds: "PGROUNDUP 1 = 4096" "PGROUNDDOWN 12288 = 12288"
  by (simp_all add: PGROUNDUP_def PGROUNDDOWN_def PGSIZE_def)

lemma pages_never_shared_witness:
  "\<exists>s0. allocator_init 1 12288 (blank_mm 12288) = (Inr (), s0) \<and> (\<forall>ops. \<exists>s' held.
    pool_ops page_acquire page_release page_scribble ops (s0, []) = Some (s', held) \<and> distinct held
    \<and> (\<forall>p\<in>set held. page_in 4096 12288 p) \<and> get_free_page_count s' = of_nat (2 - length held))"
  using pages_never_shared [of 1 12288 "blank_mm 12288"] blank_mapped [of 12288 12288 4096]
  by (simp add: blank_bounds)

end
