(* ===== verification/Page_Table.thy ===== *)
theory Page_Table
  imports Page_Alloc
begin

text \<open>
  The Sv39 page tables of \<open>src/os/mm/vmem.cc\<close> with the entry format of \<open>src/os/arch/riscv.h\<close> and the
  address space layout of \<open>src/os/mm/layout.h\<close>. Page tables live in the physical memory of
  \<open>Page_Alloc\<close>; the kernel runs identity mapped, so a kernel pointer is a physical address.
\<close>

section \<open>Page table entries\<close>

definition PTE_V :: u64 where "PTE_V = 1"
definition PTE_R :: u64 where "PTE_R = 2"
definition PTE_W :: u64 where "PTE_W = 4"
definition PTE_X :: u64 where "PTE_X = 8"
definition PTE_U :: u64 where "PTE_U = 16"

definition PTE_MT_IO :: u64 where
  "PTE_MT_IO = push_bit 61 2"

definition PA2PTE :: "u64 \<Rightarrow> u64" where
  "PA2PTE pa = push_bit 10 (drop_bit 12 pa)"

definition PTE2PA :: "u64 \<Rightarrow> u64" where
  "PTE2PA pte = push_bit 12 (drop_bit 10 pte)"

definition PTE_FLAGS :: "u64 \<Rightarrow> u64" where
  "PTE_FLAGS pte = pte AND 0x3FF"

definition PX :: "nat \<Rightarrow> u64 \<Rightarrow> u64" where
  "PX level va = drop_bit (12 + 9 * level) va AND 0x1FF"

definition MAXVA :: u64 where
  "MAXVA = push_bit (9 + 9 + 9 + 12 - 1) 1"

definition USER_STACK_BOTTOM :: u64 where "USER_STACK_BOTTOM = 0x2000000000"
definition USTACK_SIZE :: u64 where "USTACK_SIZE = 4096"
definition USER_TEXT_START :: u64 where "USER_TEXT_START = 0x1000"

section \<open>Walking\<close>

text \<open>The result is the address of the entry, \<open>0\<close> for the null pointer.\<close>

primrec walk_loop :: "nat \<Rightarrow> u64 \<Rightarrow> u64 \<Rightarrow> bool \<Rightarrow> ('x mm_scheme, u64) kmonad" where
  "walk_loop 0 pagetable va alloc = kret (pagetable + 8 * PX 0 va)"
| "walk_loop (Suc l) pagetable va alloc = (let pte = pagetable + 8 * PX (Suc l) va in
  kbind (mem_load64 pte) (\<lambda>e.
  if e AND PTE_V \<noteq> 0 then walk_loop l (PTE2PA e) va alloc
    else if \<not> alloc then kret 0
    else kbind alloc_page (\<lambda>child.
      if child = 0 then kret 0 else kseq (mem_memset child 0 PGSIZE) (
        kseq (mem_store64 pte (PA2PTE child OR PTE_V)) (
        walk_loop l child va alloc)))))"

definition walk :: "u64 \<Rightarrow> u64 \<Rightarrow> bool \<Rightarrow> ('x mm_scheme, u64) kmonad" where
  "walk pagetable va alloc = kseq (kassert (\<not> MAXVA \<le> va) ''walk'') (
    walk_loop 2 pagetable va alloc)"

definition walkaddr :: "u64 \<Rightarrow> u64 \<Rightarrow> ('x mm_scheme, u64) kmonad" where
  "walkaddr pagetable va = (if MAXVA \<le> va then kret 0 else kbind (walk pagetable va False) (\<lambda>pte.
    if pte = 0 then kret 0 else kbind (mem_load64 pte) (\<lambda>e.
      kret (if e AND PTE_V = 0 then 0 else if e AND PTE_U = 0 then 0 else PTE2PA e))))"

definition virt_addr_to_physical :: "u64 \<Rightarrow> u64 \<Rightarrow> ('x mm_scheme, u64) kmonad" where
  "virt_addr_to_physical pagetable va = kbind (walkaddr pagetable va) (\<lambda>page.
    kret (if page = 0 then 0 else page OR (va AND 0xFFF)))"

section \<open>Mapping and unmapping\<close>

text \<open>
  The loops leave when \<open>a\<close> reaches \<open>last\<close>; \<open>walk\<close> panics at \<open>MAXVA\<close>, so \<open>2\<^sup>2\<^sup>6\<close> iterations, the number of
  pages below \<open>MAXVA\<close>, and one more bound them.
\<close>

definition va_pages :: nat where
  "va_pages = 2 ^ 26"

primrec map_loop :: "nat \<Rightarrow> u64 \<Rightarrow> u64 \<Rightarrow> u64 \<Rightarrow> u64 \<Rightarrow> u64 \<Rightarrow> ('x mm_scheme, int) kmonad" where
  "map_loop 0 pagetable a last_a pa perm = kthrow Out_Of_Fuel"
| "map_loop (Suc fuel) pagetable a last_a pa perm = kbind (walk pagetable a True) (\<lambda>pte.
  if pte = 0 then kret (- 1) else kbind (mem_load64 pte) (\<lambda>e.
    kseq (kassert (e AND PTE_V = 0) ''remap'') (
    kseq (mem_store64 pte (PA2PTE pa OR perm OR PTE_V)) (
    if a = last_a then kret 0 else map_loop fuel pagetable (a + PGSIZE) last_a (pa + PGSIZE) perm))))"

definition mappages :: "u64 \<Rightarrow> u64 \<Rightarrow> u64 \<Rightarrow> u64 \<Rightarrow> u64 \<Rightarrow> ('x mm_scheme, int) kmonad" where
  "mappages pagetable va pa sz perm =
     map_loop (Suc va_pages) pagetable (PGROUNDDOWN va) (PGROUNDDOWN (va + sz - 1)) pa perm"

definition kvmmap :: "u64 \<Rightarrow> u64 \<Rightarrow> u64 \<Rightarrow> u64 \<Rightarrow> u64 \<Rightarrow> ('x mm_scheme, unit) kmonad" where
  "kvmmap kpgtbl va pa sz perm = kbind (mappages kpgtbl va pa sz perm) (\<lambda>r.
    kassert (\<not> r \<noteq> 0) ''kvmmap'')"

definition uvmmap :: "u64 \<Rightarrow> u64 \<Rightarrow> u64 \<Rightarrow> u64 \<Rightarrow> u64 \<Rightarrow> ('x mm_scheme, int) kmonad" where
  "uvmmap pagetable va pa sz perm = mappages pagetable va pa sz perm"

definition map1page :: "u64 \<Rightarrow> u64 \<Rightarrow> u64 \<Rightarrow> 32 word \<Rightarrow> ('x mm_scheme, int) kmonad" where
  "map1page pagetable va pa perm = kbind (walk pagetable (PGROUNDDOWN va) True) (\<lambda>pte.
    if pte = 0 then kret (- 1) else kbind (mem_load64 pte) (\<lambda>e.
      if e AND PTE_V \<noteq> 0 then kret (- 2) else kseq (mem_store64 pte (PA2PTE pa OR scast perm OR PTE_V)) (
        kret (uint PGSIZE))))"

primrec unmap_loop :: "nat \<Rightarrow> u64 \<Rightarrow> u64 \<Rightarrow> u64 \<Rightarrow> bool \<Rightarrow> ('x mm_scheme, unit) kmonad" where
  "unmap_loop 0 pagetable a last_a do_free = kthrow Out_Of_Fuel"
| "unmap_loop (Suc fuel) pagetable a last_a do_free = kbind (walk pagetable a False) (\<lambda>pte.
  kseq (kassert (pte \<noteq> 0) ''uvmunmap: walk'') (
  kbind (mem_load64 pte) (\<lambda>e.
  kseq (kassert (\<not> e AND PTE_V = 0) ''uvmunmap: not mapped'') (
  kseq (kassert (\<not> PTE_FLAGS e = PTE_V) ''uvmunmap: not a leaf'') (
  kseq (if do_free then free_page (PTE2PA e) else kret ()) (
  kseq (mem_store64 pte 0) (
  if a = last_a then kret () else unmap_loop fuel pagetable (a + PGSIZE) last_a do_free)))))))"

definition uvmunmap :: "u64 \<Rightarrow> u64 \<Rightarrow> u64 \<Rightarrow> bool \<Rightarrow> ('x mm_scheme, unit) kmonad" where
  "uvmunmap pagetable va sz do_free = kseq (kassert (\<not> (va mod PGSIZE \<noteq> 0 \<or> sz mod PGSIZE \<noteq> 0)) ''uvmunmap: not aligned'') (
    unmap_loop (Suc va_pages) pagetable va (PGROUNDDOWN (va + sz - 1)) do_free)"

definition kvmunmap :: "u64 \<Rightarrow> u64 \<Rightarrow> u64 \<Rightarrow> bool \<Rightarrow> ('x mm_scheme, unit) kmonad" where
  "kvmunmap kpgtbl va sz do_free = uvmunmap kpgtbl va sz do_free"

definition create_empty_user_pagetable :: "('x mm_scheme, u64) kmonad" where
  "create_empty_user_pagetable = kbind alloc_page (\<lambda>pagetable.
    kseq (if pagetable \<noteq> 0 then mem_memset pagetable 0 PGSIZE else kret ()) (
    kret pagetable))"

section \<open>User memory\<close>

definition uvmdealloc :: "u64 \<Rightarrow> u64 \<Rightarrow> u64 \<Rightarrow> ('x mm_scheme, u64) kmonad" where
  "uvmdealloc pagetable oldsz newsz = (if oldsz \<le> newsz then kret oldsz else kseq (if PGROUNDUP newsz < PGROUNDUP oldsz
     then uvmunmap pagetable (PGROUNDUP newsz)
       (scast (ucast ((PGROUNDUP oldsz - PGROUNDUP newsz) div PGSIZE) :: 32 word)) True
     else kret ()) (
    kret newsz))"

text \<open>The arguments of the call of \<open>mappages\<close> are in the order in which the source gives them.\<close>

primrec uvmalloc_loop :: "nat \<Rightarrow> u64 \<Rightarrow> u64 \<Rightarrow> u64 \<Rightarrow> u64 \<Rightarrow> ('x mm_scheme, u64) kmonad" where
  "uvmalloc_loop 0 pagetable a oldsz newsz = kthrow Out_Of_Fuel"
| "uvmalloc_loop (Suc fuel) pagetable a oldsz newsz = (if a < newsz then kbind alloc_page (\<lambda>p.
  if p = 0 then kseq (uvmdealloc pagetable a oldsz) (
    kret 0) else kseq (mem_memset p 0 PGSIZE) (
      kbind (mappages pagetable a PGSIZE p (PTE_W OR PTE_X OR PTE_R OR PTE_U)) (\<lambda>r.
      if r \<noteq> 0 then kseq (free_page p) (
        kseq (uvmdealloc pagetable a oldsz) (
        kret 0)) else uvmalloc_loop fuel pagetable (a + PGSIZE) oldsz newsz))) else kret newsz)"

definition uvmalloc :: "u64 \<Rightarrow> u64 \<Rightarrow> u64 \<Rightarrow> ('x mm_scheme, u64) kmonad" where
  "uvmalloc pagetable oldsz newsz = (if newsz < oldsz then kret oldsz
     else uvmalloc_loop (Suc (Suc va_pages)) pagetable (PGROUNDUP oldsz) (PGROUNDUP oldsz) newsz)"

text \<open>The recursion of \<open>free_pagetable_pages\<close> is bounded by its first argument, the number of levels.\<close>

primrec free_pagetable_pages :: "nat \<Rightarrow> u64 \<Rightarrow> ('x mm_scheme, unit) kmonad" where
  "free_pagetable_pages 0 pagetable = (if pagetable = 0 then kret () else kthrow Out_Of_Fuel)"
| "free_pagetable_pages (Suc depth) pagetable = (if pagetable = 0 then kret () else kseq (foldr (\<lambda>i rest. kbind (mem_load64 (pagetable + 8 * of_nat i)) (\<lambda>pte.
  kseq (if pte AND PTE_V \<noteq> 0 \<and> pte AND (PTE_R OR PTE_W OR PTE_X) = 0 then kseq (free_pagetable_pages depth (PTE2PA pte)) (
    mem_store64 (pagetable + 8 * of_nat i) 0) else kassert (\<not> pte AND PTE_V \<noteq> 0) ''free_pagetable_pages is containing a valid page'') (
  rest))) [0..<512] (kret ())) (
  free_page pagetable))"

definition uvmclear :: "u64 \<Rightarrow> u64 \<Rightarrow> ('x mm_scheme, unit) kmonad" where
  "uvmclear pagetable va = kbind (walk pagetable va False) (\<lambda>pte.
    kseq (kassert (pte \<noteq> 0) ''uvmclear'') (
    kbind (mem_load64 pte) (\<lambda>e.
    mem_store64 pte (e AND NOT PTE_U))))"

text \<open>
  \<open>uvmcopy\<close> copies the stack page and then the pages from \<open>USER_TEXT_START\<close> on. One iteration returns
  whether it went through; \<open>False\<close> is a jump to the error label of the loop.
\<close>

definition copy_page :: "u64 \<Rightarrow> u64 \<Rightarrow> u64 \<Rightarrow> ('x mm_scheme, bool) kmonad" where
  "copy_page old_pagetable new_pagetable cur_addr = kbind (walk old_pagetable cur_addr False) (\<lambda>pte.
    kseq (kassert (pte \<noteq> 0) ''uvmcopy: pte should exist'') (
    kbind (mem_load64 pte) (\<lambda>e.
    kseq (kassert (\<not> e AND PTE_V = 0) ''uvmcopy: page not present'') (
    kbind alloc_page (\<lambda>p.
    if p = 0 then kret False else kseq (mem_memmove p (PTE2PA e) PGSIZE) (
      kbind (mappages new_pagetable cur_addr PGSIZE p (PTE_FLAGS e)) (\<lambda>r.
      if r \<noteq> 0 then kseq (free_page p) (
        kret False) else kret True)))))))"

primrec copy_pages :: "nat \<Rightarrow> u64 \<Rightarrow> u64 \<Rightarrow> u64 \<Rightarrow> u64 \<Rightarrow> ('x mm_scheme, u64 option) kmonad" where
  "copy_pages 0 old_pagetable new_pagetable cur_addr stop = kthrow Out_Of_Fuel"
| "copy_pages (Suc fuel) old_pagetable new_pagetable cur_addr stop = (if cur_addr < stop then kbind (copy_page old_pagetable new_pagetable cur_addr) (\<lambda>done.
  if done then copy_pages fuel old_pagetable new_pagetable (cur_addr + PGSIZE) stop
    else kret (Some cur_addr)) else kret None)"

definition uvmcopy :: "u64 \<Rightarrow> u64 \<Rightarrow> u64 \<Rightarrow> ('x mm_scheme, int) kmonad" where
  "uvmcopy old_pagetable new_pagetable total_size = kbind (copy_pages (Suc (Suc va_pages)) old_pagetable new_pagetable (USER_STACK_BOTTOM - USTACK_SIZE) USER_STACK_BOTTOM) (\<lambda>stack_stop.
    case stack_stop of
      Some _ \<Rightarrow> kseq (uvmunmap new_pagetable (USER_STACK_BOTTOM - USTACK_SIZE) (USTACK_SIZE div PGSIZE) True) (
        kret (- 1))
    | None \<Rightarrow> kbind (copy_pages (Suc (Suc va_pages)) old_pagetable new_pagetable USER_TEXT_START
          (USER_TEXT_START + (total_size - USTACK_SIZE))) (\<lambda>bin_stop.
      case bin_stop of
          Some cur_addr \<Rightarrow> kseq (uvmunmap new_pagetable USER_TEXT_START ((cur_addr - USER_TEXT_START) div PGSIZE) False) (
            kret (- 1))
        | None \<Rightarrow> kret 0))"

section \<open>Copies between kernel and user memory\<close>

definition chunk :: "u64 \<Rightarrow> u64 \<Rightarrow> u64" where
  "chunk va len = (let n = PGSIZE - (va - PGROUNDDOWN va) in if len < n then len else n)"

lemma unat_page_offset: "unat (va - PGROUNDDOWN va) = unat va mod 4096"
proof -
  have "unat (va - PGROUNDDOWN va) = unat va - unat va div 4096 * 4096"
    using unat_sub [OF PGROUNDDOWN_le] by (simp add: unat_PGROUNDDOWN)
  then show ?thesis by (simp add: minus_div_mult_eq_mod)
qed

lemma unat_chunk: "unat (chunk va len) = min (unat len) (4096 - unat va mod 4096)"
proof -
  have "unat (PGSIZE - (va - PGROUNDDOWN va)) = 4096 - unat va mod 4096"
    by (subst unat_sub) (simp_all add: word_le_nat_alt unat_page_offset PGSIZE_def less_imp_le)
  then show ?thesis by (simp add: chunk_def Let_def word_less_nat_alt)
qed

lemma unat_minus_chunk: "unat (len - chunk va len) = unat len - unat (chunk va len)"
  by (rule unat_sub) (simp add: word_le_nat_alt unat_chunk)

lemma minus_chunk_less: "0 < len \<Longrightarrow> unat (len - chunk va len) < unat len"
  by (simp add: unat_minus_chunk unat_chunk word_less_nat_alt)

function copyout :: "u64 \<Rightarrow> u64 \<Rightarrow> u64 \<Rightarrow> u64 \<Rightarrow> ('x mm_scheme, int) kmonad" where
  "copyout pagetable dstva src len = (if 0 < len then kbind (walkaddr pagetable (PGROUNDDOWN dstva)) (\<lambda>pa0.
    if pa0 = 0 then kret (- 1) else kseq (mem_memmove (pa0 + (dstva - PGROUNDDOWN dstva)) src (chunk dstva len)) (
      copyout pagetable (PGROUNDDOWN dstva + PGSIZE) (src + chunk dstva len) (len - chunk dstva len))) else kret 0)"
  by pat_completeness auto
termination
  by (relation "measure (\<lambda>(pagetable, dstva, src, len). unat len)") (simp_all add: minus_chunk_less)

function memset_user :: "u64 \<Rightarrow> u64 \<Rightarrow> u8 \<Rightarrow> u64 \<Rightarrow> ('x mm_scheme, int) kmonad" where
  "memset_user pagetable dstva val len = (if 0 < len then kbind (walkaddr pagetable (PGROUNDDOWN dstva)) (\<lambda>pa0.
    if pa0 = 0 then kret (- 1) else kseq (mem_memset (pa0 + (dstva - PGROUNDDOWN dstva)) (uint val) (chunk dstva len)) (
      memset_user pagetable (PGROUNDDOWN dstva + PGSIZE) val (len - chunk dstva len))) else kret 0)"
  by pat_completeness auto
termination
  by (relation "measure (\<lambda>(pagetable, dstva, val, len). unat len)") (simp_all add: minus_chunk_less)

function copyin :: "u64 \<Rightarrow> u64 \<Rightarrow> u64 \<Rightarrow> u64 \<Rightarrow> ('x mm_scheme, int) kmonad" where
  "copyin pagetable dst srcva len = (if 0 < len then kbind (walkaddr pagetable (PGROUNDDOWN srcva)) (\<lambda>pa0.
    if pa0 = 0 then kret (- 1) else kseq (mem_memmove dst (pa0 + (srcva - PGROUNDDOWN srcva)) (chunk srcva len)) (
      copyin pagetable (dst + chunk srcva len) (PGROUNDDOWN srcva + PGSIZE) (len - chunk srcva len))) else kret 0)"
  by pat_completeness auto
termination
  by (relation "measure (\<lambda>(pagetable, dst, srcva, len). unat len)") (simp_all add: minus_chunk_less)

text \<open>The inner loop of \<open>copyinstr\<close> copies at most \<open>n\<close> bytes and returns whether it saw the terminator.\<close>

definition mem_load8 :: "u64 \<Rightarrow> ('x mm_scheme, u8) kmonad" where
  "mem_load8 a = kbind (kget ram) (\<lambda>m.
    kopt (m (unat a)))"

definition mem_store8 :: "u64 \<Rightarrow> u8 \<Rightarrow> ('x mm_scheme, unit) kmonad" where
  "mem_store8 a v = kbind (kget ram) (\<lambda>m.
    kbind (kopt (mem_store m (unat a) v)) (\<lambda>m'.
    kmod (\<lambda>s. s\<lparr>ram := m'\<rparr>)))"

primrec copyinstr_page :: "nat \<Rightarrow> u64 \<Rightarrow> u64 \<Rightarrow> ('x mm_scheme, bool) kmonad" where
  "copyinstr_page 0 p dst = kret False"
| "copyinstr_page (Suc n) p dst = kbind (mem_load8 p) (\<lambda>c.
  kseq (mem_store8 dst c) (
  if c = 0 then kret True else copyinstr_page n (p + 1) (dst + 1)))"

function copyinstr :: "u64 \<Rightarrow> u64 \<Rightarrow> u64 \<Rightarrow> u64 \<Rightarrow> ('x mm_scheme, int) kmonad" where
  "copyinstr pagetable dst srcva max_len = (if 0 < max_len then kbind (walkaddr pagetable (PGROUNDDOWN srcva)) (\<lambda>pa0.
    if pa0 = 0 then kret (- 1) else kbind (copyinstr_page (unat (chunk srcva max_len)) (pa0 + (srcva - PGROUNDDOWN srcva)) dst) (\<lambda>got_null.
      if got_null then kret 0
      else copyinstr pagetable (dst + chunk srcva max_len) (PGROUNDDOWN srcva + PGSIZE) (max_len - chunk srcva max_len))) else kret (- 1))"
  by pat_completeness auto
termination
  by (relation "measure (\<lambda>(pagetable, dst, srcva, max_len). unat max_len)") (simp_all add: minus_chunk_less)

declare copyout.simps [simp del] memset_user.simps [simp del] copyin.simps [simp del] copyinstr.simps [simp del]

section \<open>The kernel page table\<close>

definition KERNBASE :: u64 where "KERNBASE = 0x80200000"
definition IO_MEM_START :: u64 where "IO_MEM_START = 0x80000000 + 127 * 1024 * 1024"
definition PHYSTOP :: u64 where "PHYSTOP = 0x80000000 + 128 * 1024 * 1024"
definition VIRTIO0 :: u64 where "VIRTIO0 = 0x10001000"
definition PLIC :: u64 where "PLIC = 0x0c000000"
definition TRAMPOLINE :: u64 where "TRAMPOLINE = MAXVA - PGSIZE"

text \<open>The linker symbols \<open>e_text\<close> and \<open>trampoline\<close> are arguments.\<close>

definition kvmmake :: "u64 \<Rightarrow> u64 \<Rightarrow> ('x mm_scheme, u64) kmonad" where
  "kvmmake e_text trampoline = kbind alloc_page (\<lambda>kpgtbl.
    kseq (kassert (kpgtbl \<noteq> 0) ''kvmmake'') (
    kseq (mem_memset kpgtbl 0 PGSIZE) (
    kseq (kvmmap kpgtbl VIRTIO0 VIRTIO0 PGSIZE (PTE_R OR PTE_W)) (
    kseq (kvmmap kpgtbl PLIC PLIC 0x400000 (PTE_R OR PTE_W)) (
    kseq (kvmmap kpgtbl KERNBASE KERNBASE (e_text - KERNBASE) (PTE_R OR PTE_X)) (
    kseq (kvmmap kpgtbl e_text e_text (IO_MEM_START - e_text) (PTE_R OR PTE_W)) (
    kseq (kvmmap kpgtbl IO_MEM_START IO_MEM_START (PHYSTOP - IO_MEM_START) (PTE_R OR PTE_W OR PTE_MT_IO)) (
    kseq (kvmmap kpgtbl TRAMPOLINE trampoline PGSIZE (PTE_R OR PTE_X)) (
    kret kpgtbl)))))))))"

end
