(* ===== verification/Page_Tree.thy ===== *)
theory Page_Tree
  imports Page_Alloc
begin

text \<open>
  Trees of pages: a root page, pages its 512 words point to, and pages those point to. Both the Sv39
  page tables and the ram disk are such trees, with different encodings of a pointer in a word. The
  contract of the encoding is the locale \<open>page_tree\<close>; the invariant \<open>tree_inv\<close> says that the pages of the
  tree (named by the path of indices that leads to them) are distinct and apart from the free pages.
\<close>

type_synonym ptree = "nat list \<Rightarrow> u64 option"

lemma unat_slot:
  assumes "4096 dvd unat b" "unat i < 512"
  shows "unat (b + 8 * i) = unat (b :: u64) + 8 * unat i"
proof -
  have "unat b < 2 ^ 64" using unsigned_less [of b, where ?'a = nat] by simp
  then have "unat b + 4096 \<le> 2 ^ 64" using assms(1) by (auto elim!: dvdE)
  moreover have "unat (8 * i) = 8 * unat i" using assms(2) by (subst unat_mult_lem [THEN iffD1]) simp_all
  ultimately show ?thesis using assms(2) by (subst unat_add_lem [THEN iffD1]) simp_all
qed

lemma load64_frame:
  assumes "\<forall>x\<in>frame b. m' x = m x" "j < 512"
  shows "load64 m' (unat b + 8 * j) = load64 m (unat b + 8 * j)"
  by (rule load64_same) (use assms in \<open>auto simp: frame_def\<close>)

lemma mapped_slot: "mapped m (unat a) 4096 \<Longrightarrow> i < 512 \<Longrightarrow> mapped m (unat a + 8 * i) 8"
  by (rule mapped_sub [of m "unat a" 4096]) (assumption, linarith)

section \<open>The invariant\<close>

definition table_ok :: "(u64 \<Rightarrow> bool) \<Rightarrow> (u64 \<Rightarrow> u64) \<Rightarrow> mem \<Rightarrow> ptree \<Rightarrow> nat list \<Rightarrow> u64 \<Rightarrow> bool" where
  "table_ok valid dec m d p a \<longleftrightarrow> (\<forall>i<512. \<exists>e. load64 m (unat a + 8 * i) = Some e
     \<and> d (p @ [i]) = (if valid e then Some (dec e) else None))"

definition tree_inv :: "(u64 \<Rightarrow> bool) \<Rightarrow> (u64 \<Rightarrow> u64) \<Rightarrow> u64 \<Rightarrow> u64 \<Rightarrow> u64 \<Rightarrow> 'x mm_scheme \<Rightarrow> u64 list \<Rightarrow> ptree \<Rightarrow> bool" where
  "tree_inv valid dec lo hi root s free d \<longleftrightarrow> pool_inv lo hi s free \<and> d [] = Some root
    \<and> (\<forall>p a. d p = Some a \<longrightarrow> length p \<le> 2 \<and> page_in lo hi a \<and> a \<notin> set free)
    \<and> (\<forall>p q a. d p = Some a \<longrightarrow> d q = Some a \<longrightarrow> p = q)
    \<and> (\<forall>p a. d p = Some a \<longrightarrow> length p < 2 \<longrightarrow> table_ok valid dec (ram s) d p a)
    \<and> (\<forall>p i. d (p @ [i]) \<noteq> None \<longrightarrow> i < 512 \<and> d p \<noteq> None)"

lemma tree_invD:
  assumes "tree_inv valid dec lo hi root s free d"
  shows "pool_inv lo hi s free" "d [] = Some root"
    "d p = Some a \<Longrightarrow> length p \<le> 2" "d p = Some a \<Longrightarrow> page_in lo hi a" "d p = Some a \<Longrightarrow> a \<notin> set free"
    "d p = Some a \<Longrightarrow> 4096 dvd unat a"
    "d p = Some a \<Longrightarrow> d q = Some a \<Longrightarrow> p = q"
    "d p = Some a \<Longrightarrow> length p < 2 \<Longrightarrow> table_ok valid dec (ram s) d p a"
    "d (p @ [i]) = Some a \<Longrightarrow> i < 512 \<and> d p \<noteq> None"
    "d p = Some a \<Longrightarrow> mapped (ram s) (unat a) 4096"
  using assms unfolding tree_inv_def pool_inv_def pages_mapped_def page_in_def by (blast, blast, blast, blast, blast, blast, blast, blast, blast, blast)

lemma table_okE:
  assumes "tree_inv valid dec lo hi root s free d" "d p = Some a" "length p < 2" "i < 512"
  obtains e where "load64 (ram s) (unat a + 8 * i) = Some e" "d (p @ [i]) = (if valid e then Some (dec e) else None)"
  using tree_invD(8) [OF assms(1-3)] assms(4) by (auto simp: table_ok_def)

lemma load_slot_run:
  assumes "tree_inv valid dec lo hi root s free d" "d p = Some a" "unat i < 512"
  shows "mem_load64 (a + 8 * i) s = (case load64 (ram s) (unat a + 8 * unat i) of None \<Rightarrow> (Inl Undefined, s) | Some v \<Rightarrow> (Inr v, s))"
  using tree_invD(6) [OF assms(1,2)] assms(3) by (simp add: mem_run unat_slot)

text \<open>Writing anywhere but in the inner pages of the tree and in free pages keeps the invariant.\<close>

definition inner :: "u64 list \<Rightarrow> ptree \<Rightarrow> nat \<Rightarrow> bool" where
  "inner free d x \<longleftrightarrow> (\<exists>f\<in>set free. x \<in> frame f) \<or> (\<exists>q b. d q = Some b \<and> length q < 2 \<and> x \<in> frame b)"

lemma tree_inv_write:
  assumes inv: "tree_inv valid dec lo hi root s free d" and same: "\<forall>x. inner free d x \<longrightarrow> m x = ram s x"
    and mp: "\<forall>x. ram s x \<noteq> None \<longrightarrow> m x \<noteq> None"
  shows "tree_inv valid dec lo hi root (s\<lparr>ram := m\<rparr>) free d"
proof -
  note D = tree_invD [OF inv]
  have other: "load64 m (unat a + 8 * j) = load64 (ram s) (unat a + 8 * j)" if "d q = Some a" "length q < 2" "j < 512" for q a j
    by (rule load64_frame [OF _ that(3)]) (use same that(1,2) in \<open>auto simp: inner_def\<close>)
  have ok: "table_ok valid dec m d q a" if "d q = Some a" "length q < 2" for q a
    using D(8) [OF that] other [OF that] by (simp add: table_ok_def)
  have "pool_inv lo hi (s\<lparr>ram := m\<rparr>) free"
    using same mp D(1) by (intro pool_inv_frame [OF D(1)]) (auto simp: inner_def pool_inv_def pages_mapped_def mapped_def)
  then show ?thesis using inv ok by (simp add: tree_inv_def)
qed

section \<open>Linking a page\<close>

text \<open>Memory after a cleared page \<open>c\<close> was linked into slot \<open>i\<close> of page \<open>a\<close> by the word \<open>v\<close>.\<close>

definition link_page :: "mem \<Rightarrow> u64 \<Rightarrow> nat \<Rightarrow> u64 \<Rightarrow> u64 \<Rightarrow> mem" where
  "link_page m a i c v = stored (filled m (unat c) 0 4096) (unat a + 8 * i) v"

lemma link_page_frame:
  assumes "4096 dvd unat a" "4096 dvd unat b" "4096 dvd unat c" "b \<noteq> a" "b \<noteq> c" "i < 512"
  shows "\<forall>x\<in>frame b. link_page m a i c v x = m x"
  using frames_disjoint [OF assms(2,1,4)] frames_disjoint [OF assms(2,3,5)] assms(6)
  by (fastforce simp: link_page_def stored_def filled_def frame_def)

lemma link_page_out: "i < 512 \<Longrightarrow> x \<notin> frame a \<Longrightarrow> x \<notin> frame c \<Longrightarrow> link_page m a i c v x = m x"
  by (auto simp: link_page_def stored_def filled_def frame_def)

lemma link_page_new:
  assumes "4096 dvd unat a" "4096 dvd unat c" "a \<noteq> c" "i < 512" "j < 512"
  shows "load64 (link_page m a i c v) (unat c + 8 * j) = Some 0"
proof -
  have "frame a \<inter> frame c = {}" using frames_disjoint assms by blast
  have "load64 (link_page m a i c v) (unat c + 8 * j) = load64 (filled m (unat c) 0 4096) (unat c + 8 * j)"
    by (rule load64_frame [OF _ assms(5)])
       (use \<open>frame a \<inter> frame c = {}\<close> assms(4) in \<open>fastforce simp: link_page_def stored_def frame_def\<close>)
  also have "\<dots> = Some 0" using assms(5) by (intro load64_zeroed) simp_all
  finally show ?thesis .
qed

lemma link_page_slot:
  assumes "4096 dvd unat a" "4096 dvd unat c" "a \<noteq> c" "j < 512" "i < 512"
  shows "load64 (link_page m a i c v) (unat a + 8 * j) =
    (if j = i then Some v else load64 m (unat a + 8 * j))"
proof (cases "j = i")
  case False
  have d: "frame a \<inter> frame c = {}" using frames_disjoint assms by blast
  have "load64 (link_page m a i c v) (unat a + 8 * j) = load64 (filled m (unat c) 0 4096) (unat a + 8 * j)"
    unfolding link_page_def by (rule load64_stored_other) (use False in auto)
  also have "\<dots> = load64 m (unat a + 8 * j)"
    by (rule load64_frame [OF _ assms(4)]) (use d in \<open>fastforce simp: filled_def frame_def\<close>)
  finally show ?thesis using False by simp
qed (simp add: link_page_def mem_run)

lemma link_page_zero:
  assumes "4096 dvd unat a" "4096 dvd unat c" "a \<noteq> c" "i < 512"
  shows "\<forall>x\<in>frame c. link_page m a i c v x = Some 0"
proof -
  have "frame a \<inter> frame c = {}" using frames_disjoint assms by blast
  then show ?thesis using assms(4) by (fastforce simp: link_page_def stored_def filled_def frame_def)
qed

lemma pool_inv_link_page:
  assumes "pool_inv lo hi s free" "4096 dvd unat a" "4096 dvd unat c" "a \<notin> set free" "c \<notin> set free" "i < 512"
  shows "pool_inv lo hi (s\<lparr>ram := link_page (ram s) a i c v\<rparr>) free"
proof (rule pool_inv_frame [OF assms(1)])
  show "\<forall>q\<in>set free. \<forall>x\<in>frame q. ram (s\<lparr>ram := link_page (ram s) a i c v\<rparr>) x = ram s x"
  proof
    fix q assume "q \<in> set free"
    then have "4096 dvd unat q" "q \<noteq> a" "q \<noteq> c" using assms by (auto simp: pool_inv_def page_in_def)
    then show "\<forall>x\<in>frame q. ram (s\<lparr>ram := link_page (ram s) a i c v\<rparr>) x = ram s x"
      using link_page_frame [OF assms(2) _ assms(3) _ _ assms(6)] by simp
  qed
qed (use assms(1) in \<open>simp_all add: pool_inv_def link_page_def\<close>)

section \<open>The contract of a pointer encoding\<close>

locale page_tree =
  fixes valid :: "u64 \<Rightarrow> bool"
    and dec :: "u64 \<Rightarrow> u64"
    and enc :: "u64 \<Rightarrow> u64"
  assumes null_invalid: "\<not> valid 0"
    and enc_dec: "4096 dvd unat c \<Longrightarrow> c \<noteq> 0 \<Longrightarrow> valid (enc c) \<and> dec (enc c) = c"
begin

lemma tree_add:
  assumes inv: "tree_inv valid dec lo hi root s (c # free) d" and a: "d p = Some a" "length p < 2" and i: "i < 512" "d (p @ [i]) = None"
    and pool: "pool_inv lo hi s' free" and ram: "ram s' = link_page (ram s) a i c (enc c)"
  shows "tree_inv valid dec lo hi root s' free (d(p @ [i] \<mapsto> c))"
    and "\<forall>q b. d q = Some b \<longrightarrow> q \<noteq> p \<longrightarrow> (\<forall>x\<in>frame b. ram s' x = ram s x)"
    and "\<forall>x\<in>frame c. ram s' x = Some 0"
proof -
  note D = tree_invD [OF inv]
  have c: "page_in lo hi c" "4096 dvd unat c" "c \<notin> set free" "c \<noteq> 0" using D(1) by (auto simp: pool_inv_def page_in_def)
  have notc: "d q \<noteq> Some c" for q using D(5) [of q c] by auto
  have al: "4096 dvd unat a" by (rule D(6) [OF a(1)])
  have "a \<noteq> c" using notc a(1) by auto
  have frm: "\<forall>x\<in>frame b. ram s' x = ram s x" if "d q = Some b" "q \<noteq> p" for q b
  proof -
    have "b \<noteq> a" "b \<noteq> c" using D(7) [OF that(1)] a(1) notc [of q] that(1,2) by blast+
    then show ?thesis
      unfolding ram using link_page_frame [OF al D(6) [OF that(1)] c(2) _ _ i(1)] by blast
  qed
  have fr: "load64 (ram s') (unat b + 8 * j) = load64 (ram s) (unat b + 8 * j)"
    if "d q = Some b" "q \<noteq> p" "j < 512" for q b j
    using load64_frame [OF frm [OF that(1,2)] that(3)] .
  have leafless: "d (p @ [i] @ [j]) = None" for j
    using D(9) [of "p @ [i]" j] i(2) by (cases "d (p @ [i] @ [j])") auto
  have ok: "table_ok valid dec (ram s') (d(p @ [i] \<mapsto> c)) q b" if q: "(d(p @ [i] \<mapsto> c)) q = Some b" "length q < 2" for q b
  proof -
    consider "q = p @ [i]" | "q = p" | "q \<noteq> p @ [i]" "q \<noteq> p" by blast
    then show ?thesis
    proof cases
      case 1
      then show ?thesis using q link_page_new [OF al c(2) \<open>a \<noteq> c\<close> i(1)] leafless
        by (auto simp: table_ok_def ram null_invalid)
    next
      case 2
      then have "b = a" using q a by simp
      then show ?thesis
        using D(8) [OF a] 2 c link_page_slot [OF al c(2) \<open>a \<noteq> c\<close> _ i(1)]
        by (auto simp: table_ok_def ram enc_dec)
    next
      case 3
      then have "d q = Some b" using q by simp
      then show ?thesis using D(8) [OF _ q(2)] fr [OF _ 3(2)] 3(2) by (auto simp: table_ok_def)
    qed
  qed
  show "tree_inv valid dec lo hi root s' free (d(p @ [i] \<mapsto> c))"
    unfolding tree_inv_def
    using pool D(2,3,4,5,7) c ok notc a i D(9) leafless by (auto split: if_splits)
  show "\<forall>q b. d q = Some b \<longrightarrow> q \<noteq> p \<longrightarrow> (\<forall>x\<in>frame b. ram s' x = ram s x)" using frm by blast
  show "\<forall>x\<in>frame c. ram s' x = Some 0" unfolding ram by (rule link_page_zero [OF al c(2) \<open>a \<noteq> c\<close> i(1)])
qed

end

end
