(* ===== verification/Page_Map.thy ===== *)
theory Page_Map
  imports Page_Table Page_Tree
begin

text \<open>
  Correctness of the page table operations of \<open>Page_Table\<close>. The invariant \<open>vm_inv\<close> says that the
  pages reached from the root form a tree of at most three levels without sharing, apart from the
  free pages; \<open>entry\<close> reads the table as a map from page numbers to leaf entries, the abstract view
  that \<open>walk\<close> keeps and \<open>mappages\<close> and \<open>uvmunmap\<close> update pointwise.
\<close>

section \<open>Entries and indices as numbers\<close>

lemma page_aligned_shift:
  assumes "4096 dvd unat (c :: u64)"
  shows "push_bit 12 (drop_bit 12 c) = c"
proof -
  have "push_bit 12 (drop_bit 12 c) = c AND NOT (mask 12)"
    by (rule bit_word_eqI) (auto simp: bit_simps)
  also have "unat \<dots> = unat c" using assms unat_and_not_mask [of c 12] by simp
  finally show ?thesis by (simp add: word_unat_eq_iff)
qed

lemma PTE2PA_PA2PTE:
  assumes "4096 dvd unat pa" "drop_bit 10 perm = 0"
  shows "PTE2PA (PA2PTE pa OR perm OR PTE_V) = pa"
proof -
  have "drop_bit 10 (PA2PTE pa OR perm OR PTE_V) = drop_bit 10 (PA2PTE pa)"
    using assms(2) by (simp add: PTE_V_def)
  also have "push_bit 12 \<dots> = push_bit 12 (drop_bit 12 pa)"
    by (rule bit_word_eqI) (auto simp: bit_simps PA2PTE_def)
  finally show ?thesis using page_aligned_shift [OF assms(1)] by (simp add: PTE2PA_def)
qed

lemma PTE_V_set [simp]: "(e OR PTE_V) AND PTE_V \<noteq> 0" "(x OR e OR PTE_V) AND PTE_V \<noteq> 0"
proof -
  have "bit ((e OR PTE_V) AND PTE_V) 0" for e by (simp add: bit_simps PTE_V_def)
  then show "(e OR PTE_V) AND PTE_V \<noteq> 0" "(x OR e OR PTE_V) AND PTE_V \<noteq> 0"
    by (metis bit_0_eq bot_apply bot_bool_def or.assoc)+
qed

lemma PTE_V_nonzero [simp]: "PTE_V \<noteq> 0"
  by (simp add: PTE_V_def)

lemma unat_PX: "unat (PX l va) = unat va div 2 ^ (12 + 9 * l) mod 512"
proof -
  have "PX l va = take_bit 9 (drop_bit (12 + 9 * l) va)"
    by (simp add: PX_def take_bit_eq_mask mask_eq_exp_minus_1)
  then show ?thesis using unsigned_less [of va, where ?'a = nat]
    by (simp only: unsigned_take_bit_eq unsigned_drop_bit_eq) (simp add: take_bit_eq_mod drop_bit_eq_div)
qed

definition vpn :: "u64 \<Rightarrow> nat" where
  "vpn va = unat va div 4096"

definition vtable :: "nat \<Rightarrow> nat list" where
  "vtable n = [n div 512 div 512 mod 512, n div 512 mod 512]"

lemma PX_vpn:
  "unat (PX 0 va) = vpn va mod 512" "unat (PX 1 va) = vpn va div 512 mod 512"
  "unat (PX (Suc 0) va) = vpn va div 512 mod 512"
  "unat (PX 2 va) = vpn va div 512 div 512 mod 512" "unat (PX (Suc (Suc 0)) va) = vpn va div 512 div 512 mod 512"
  by (simp_all add: unat_PX vpn_def div_mult2_eq [symmetric] numeral_2_eq_2 [symmetric])

lemma vtable_inj:
  assumes "vtable n = vtable n'" "n mod 512 = n' mod 512" "n < 2 ^ 27" "n' < 2 ^ 27"
  shows "n = n'"
proof -
  have "n div 512 div 512 < 512" "n' div 512 div 512 < 512" using assms(3,4) by (simp_all add: div_mult2_eq [symmetric] less_mult_imp_div_less)
  then have "n div 512 div 512 = n' div 512 div 512" "n div 512 mod 512 = n' div 512 mod 512"
    using assms(1) by (simp_all add: vtable_def)
  then have "n div 512 = n' div 512" by (metis div_mult_mod_eq)
  then show ?thesis using assms(2) by (metis div_mult_mod_eq)
qed

lemma vpn_less: "va < MAXVA \<Longrightarrow> vpn va < 2 ^ 26"
  by (simp add: vpn_def MAXVA_def word_less_nat_alt less_mult_imp_div_less)

section \<open>The invariant\<close>

text \<open>The Sv39 encoding of pointers to tables, and the invariant of a page table.\<close>

abbreviation pte_valid :: "u64 \<Rightarrow> bool" where
  "pte_valid e \<equiv> e AND PTE_V \<noteq> 0"

abbreviation vm_inv :: "u64 \<Rightarrow> u64 \<Rightarrow> u64 \<Rightarrow> 'x mm_scheme \<Rightarrow> u64 list \<Rightarrow> ptree \<Rightarrow> bool" where
  "vm_inv \<equiv> tree_inv pte_valid PTE2PA"

abbreviation zero_pte :: "mem \<Rightarrow> u64 \<Rightarrow> nat \<Rightarrow> u64 \<Rightarrow> mem" where
  "zero_pte m a i c \<equiv> link_page m a i c (PA2PTE c OR PTE_V)"

lemmas vm_inv_def = tree_inv_def [of pte_valid PTE2PA]

lemmas vm_invD = tree_invD [of pte_valid PTE2PA]

definition entry :: "mem \<Rightarrow> ptree \<Rightarrow> nat \<Rightarrow> u64" where
  "entry m d n = (case d (vtable n) of None \<Rightarrow> 0
     | Some b \<Rightarrow> (case load64 m (unat b + 8 * (n mod 512)) of None \<Rightarrow> 0 | Some e \<Rightarrow> e))"

lemma PTE2PA_child: "4096 dvd unat c \<Longrightarrow> PTE2PA (PA2PTE c OR PTE_V) = c"
  using PTE2PA_PA2PTE [of c 0] by simp

interpretation sv39: page_tree pte_valid PTE2PA "\<lambda>c. PA2PTE c OR PTE_V"
  by unfold_locales (simp_all add: PTE2PA_child)

lemma vtable_length [simp]: "length (vtable n) = 2"
  by (simp add: vtable_def)

lemma vm_inv_add:
  assumes inv: "vm_inv lo hi root s (c # free) d" and a: "d p = Some a" "length p < 2" and i: "i < 512" "d (p @ [i]) = None"
    and pool: "pool_inv lo hi s' free" and ram: "ram s' = zero_pte (ram s) a i c"
  shows "vm_inv lo hi root s' free (d(p @ [i] \<mapsto> c))"
    and "entry (ram s') (d(p @ [i] \<mapsto> c)) n = entry (ram s) d n"
proof -
  note add = sv39.tree_add [OF inv a i pool ram]
  show "vm_inv lo hi root s' free (d(p @ [i] \<mapsto> c))" by (rule add(1))
  note D = vm_invD [OF inv]
  show "entry (ram s') (d(p @ [i] \<mapsto> c)) n = entry (ram s) d n"
  proof (cases "vtable n = p @ [i]")
    case True
    have c: "4096 dvd unat c" using D(1) by (auto simp: pool_inv_def page_in_def)
    have "a \<noteq> c" using D(5) [OF a(1)] by auto
    then show ?thesis using i True link_page_new [OF D(6) [OF a(1)] c _ i(1), of "n mod 512"] by (simp add: entry_def ram)
  next
    case False
    have "vtable n \<noteq> p" using a(2) by (metis nat_neq_iff vtable_length)
    then have "load64 (ram s') (unat b + 8 * (n mod 512)) = load64 (ram s) (unat b + 8 * (n mod 512))" if "d (vtable n) = Some b" for b
      using add(2) that by (intro load64_frame) simp_all
    then show ?thesis using False by (auto simp: entry_def split: option.splits)
  qed
qed

section \<open>Walking\<close>

text \<open>
  What the operations may do to the state: use up free pages for new tables, and write to the table
  pages only. A walk moreover changes no entry.
\<close>

definition extends :: "u64 \<Rightarrow> u64 \<Rightarrow> u64 \<Rightarrow> 'x mm_scheme \<Rightarrow> u64 list \<Rightarrow> ptree \<Rightarrow> 'x mm_scheme \<Rightarrow> u64 list \<Rightarrow> ptree \<Rightarrow> bool" where
  "extends lo hi root s free d s' free' d' \<longleftrightarrow> vm_inv lo hi root s' free' d' \<and> d \<subseteq>\<^sub>m d' \<and> (\<exists>used. free = used @ free' \<and> ran d' \<subseteq> ran d \<union> set used)
    \<and> (\<forall>x. (\<forall>b\<in>ran d'. x \<notin> frame b) \<longrightarrow> ram s' x = ram s x) \<and> mm.more s' = mm.more s"

definition grown :: "u64 \<Rightarrow> u64 \<Rightarrow> u64 \<Rightarrow> 'x mm_scheme \<Rightarrow> u64 list \<Rightarrow> ptree \<Rightarrow> 'x mm_scheme \<Rightarrow> u64 list \<Rightarrow> ptree \<Rightarrow> bool" where
  "grown lo hi root s free d s' free' d' \<longleftrightarrow> extends lo hi root s free d s' free' d' \<and> (\<forall>n. entry (ram s') d' n = entry (ram s) d n)"

lemma extends_refl: "vm_inv lo hi root s free d \<Longrightarrow> extends lo hi root s free d s free d"
  by (simp add: extends_def)

lemma grown_refl: "vm_inv lo hi root s free d \<Longrightarrow> grown lo hi root s free d s free d"
  by (simp add: grown_def extends_refl)

lemma ran_map_le: "d \<subseteq>\<^sub>m d' \<Longrightarrow> ran d \<subseteq> ran d'"
  by (auto simp: map_le_def ran_def dom_def) (metis option.distinct(1))

lemma extends_trans:
  assumes "extends lo hi root s free d s1 free1 d1" "extends lo hi root s1 free1 d1 s2 free2 d2"
  shows "extends lo hi root s free d s2 free2 d2"
proof -
  note g = assms [unfolded extends_def]
  have "ran d1 \<subseteq> ran d2" using g by (simp add: ran_map_le)
  then have "\<forall>x. (\<forall>b\<in>ran d2. x \<notin> frame b) \<longrightarrow> ram s2 x = ram s x" using g by (metis subsetD)
  moreover have "\<exists>used. free = used @ free2 \<and> ran d2 \<subseteq> ran d \<union> set used"
  proof -
    obtain u1 u2 where "free = u1 @ free1" "ran d1 \<subseteq> ran d \<union> set u1" "free1 = u2 @ free2" "ran d2 \<subseteq> ran d1 \<union> set u2" using g by blast
    then show ?thesis by (intro exI [of _ "u1 @ u2"]) auto
  qed
  moreover have "d \<subseteq>\<^sub>m d2" using g map_le_trans by blast
  ultimately show ?thesis using g by (simp add: extends_def)
qed

lemma grown_trans:
  "grown lo hi root s free d s1 free1 d1 \<Longrightarrow> grown lo hi root s1 free1 d1 s2 free2 d2 \<Longrightarrow> grown lo hi root s free d s2 free2 d2"
  by (auto simp: grown_def intro: extends_trans)

lemma PX_less [simp]: "unat (PX l va) < 512"
  by (simp add: unat_PX)

lemma walk_step_valid:
  assumes "vm_inv lo hi root s free d" "d p = Some a" "length p < 2" "d (p @ [unat (PX (Suc l) va)]) = Some b"
  shows "walk_loop (Suc l) a va alloc s = walk_loop l b va alloc s"
proof -
  obtain e where "load64 (ram s) (unat a + 8 * unat (PX (Suc l) va)) = Some e" "e AND PTE_V \<noteq> 0" "b = PTE2PA e"
    using table_okE [OF assms(1-3) PX_less] assms(4) by (metis option.distinct(1) option.inject)
  then show ?thesis using load_slot_run [OF assms(1,2) PX_less, of "Suc l" va] by (simp add: Let_def)
qed

lemma walk_step_stop:
  assumes "vm_inv lo hi root s free d" "d p = Some a" "length p < 2" "d (p @ [unat (PX (Suc l) va)]) = None"
    "\<not> alloc \<or> free = []"
  shows "walk_loop (Suc l) a va alloc s = (Inr 0, s)"
proof -
  obtain e where "load64 (ram s) (unat a + 8 * unat (PX (Suc l) va)) = Some e" "e AND PTE_V = 0"
    using table_okE [OF assms(1-3) PX_less] assms(4) by (metis option.distinct(1))
  moreover have "free = [] \<Longrightarrow> alloc_page s = (Inr 0, s)"
    using alloc_page_nil vm_invD(1) [OF assms(1)] by blast
  ultimately show ?thesis
    using load_slot_run [OF assms(1,2) PX_less, of "Suc l" va] assms(5) by (auto simp: Let_def)
qed

lemma walk_step_add:
  assumes inv: "vm_inv lo hi root s (c # free) d" and p: "d p = Some a" "length p < 2" "d (p @ [unat (PX (Suc l) va)]) = None"
  shows "\<exists>s' d'. walk_loop (Suc l) a va True s = walk_loop l c va True s' \<and> grown lo hi root s (c # free) d s' free d'
    \<and> d' (p @ [unat (PX (Suc l) va)]) = Some c"
proof -
  let ?i = "unat (PX (Suc l) va)"
  note D = vm_invD [OF inv]
  have al: "4096 dvd unat a" by (rule D(6) [OF p(1)])
  have c: "page_in lo hi c" "4096 dvd unat c" "c \<notin> set free" "c \<noteq> 0" using D(1) by (auto simp: pool_inv_def page_in_def)
  have na: "a \<notin> set free" "a \<noteq> c" using D(5) [OF p(1)] by auto
  obtain e where e: "load64 (ram s) (unat a + 8 * ?i) = Some e" "e AND PTE_V = 0"
    using table_okE [OF inv p(1,2) PX_less] p(3) by (metis option.distinct(1))
  obtain al' where al': "alloc_page s = (Inr c, s\<lparr>kernel_allocator := al'\<rparr>)" "pool_inv lo hi (s\<lparr>kernel_allocator := al'\<rparr>) free"
    using alloc_page_cons [OF D(1)] by blast
  define s' where "s' = s\<lparr>kernel_allocator := al', ram := zero_pte (ram s) a ?i c\<rparr>"
  have cm: "mapped (ram s) (unat c) 4096" using D(1) c(1) by (auto simp: pool_inv_def pages_mapped_def)
  have "mapped (ram s) (unat a + 8 * ?i) 8" by (rule mapped_slot [OF D(10) [OF p(1)] PX_less])
  then have run: "walk_loop (Suc l) a va True s = walk_loop l c va True s'"
    using load_slot_run [OF inv p(1) PX_less, of "Suc l" va] e al'(1) c(4) cm al
    by (simp add: Let_def mem_run PGSIZE_def unat_slot s'_def link_page_def)
  have pool: "pool_inv lo hi s' free"
    using pool_inv_link_page [OF al'(2) al c(2) na(1) c(3), of ?i] by (simp add: s'_def)
  have "ram s' = zero_pte (ram s) a ?i c" by (simp add: s'_def)
  note add = vm_inv_add [OF inv p(1,2) PX_less p(3) pool this]
  have "\<forall>x. (\<forall>b\<in>ran (d(p @ [?i] \<mapsto> c)). x \<notin> frame b) \<longrightarrow> ram s' x = ram s x"
  proof (intro allI impI)
    fix x assume x: "\<forall>b\<in>ran (d(p @ [?i] \<mapsto> c)). x \<notin> frame b"
    have "(d(p @ [?i] \<mapsto> c)) p = Some a" "(d(p @ [?i] \<mapsto> c)) (p @ [?i]) = Some c" using p(1) by simp_all
    then have "a \<in> ran (d(p @ [?i] \<mapsto> c))" "c \<in> ran (d(p @ [?i] \<mapsto> c))" by (blast intro: ranI)+
    then have "x \<notin> frame a" "x \<notin> frame c" using x by blast+
    then show "ram s' x = ram s x" by (simp add: s'_def link_page_out)
  qed
  moreover have "d \<subseteq>\<^sub>m d(p @ [?i] \<mapsto> c)" using p(3) by (auto simp: map_le_def)
  moreover have "mm.more s' = mm.more s" by (simp add: s'_def)
  moreover have "ran (d(p @ [?i] \<mapsto> c)) \<subseteq> ran d \<union> set [c]" by (auto simp: ran_def split: if_splits)
  ultimately have "grown lo hi root s (c # free) d s' free (d(p @ [?i] \<mapsto> c))"
    using add unfolding grown_def extends_def by (metis append_Cons append_Nil)
  then show ?thesis using run by (intro exI [of _ s'] exI [of _ "d(p @ [?i] \<mapsto> c)"]) simp
qed

text \<open>One level of an allocating walk, and the whole walk.\<close>

lemma walk_step_alloc:
  assumes "vm_inv lo hi root s free d" "d p = Some a" "length p < 2"
  obtains "free = []" "walk_loop (Suc l) a va True s = (Inr 0, s)"
  | s' free' d' b where "walk_loop (Suc l) a va True s = walk_loop l b va True s'"
      "grown lo hi root s free d s' free' d'" "d' (p @ [unat (PX (Suc l) va)]) = Some b" "length free \<le> Suc (length free')"
proof (cases "d (p @ [unat (PX (Suc l) va)])")
  case None
  show ?thesis
  proof (cases free)
    case Nil
    then show ?thesis using that(1) walk_step_stop [OF assms None] by blast
  next
    case (Cons c fs)
    from walk_step_add [OF assms(1) [unfolded Cons] assms(2,3) None] show ?thesis
      using that(2) Cons by auto
  qed
next
  case (Some b)
  then show ?thesis
    using that(2) walk_step_valid [OF assms Some] grown_refl [OF assms(1)] by simp
qed

lemma vtable_PX: "[unat (PX (Suc (Suc 0)) va)] @ [unat (PX (Suc 0) va)] = vtable (vpn va)"
  by (simp add: vtable_def PX_vpn)

lemma grown_mono: "grown lo hi root s free d s' free' d' \<Longrightarrow> d p = Some a \<Longrightarrow> d' p = Some a"
  by (auto simp: grown_def extends_def map_le_def dom_def)

lemma walk_alloc_run:
  assumes inv: "vm_inv lo hi root s free d" and va: "va < MAXVA"
  obtains s' free' d' where "walk root va True s = (Inr 0, s')" "grown lo hi root s free d s' free' d'" "length free < 2" "free' = []"
  | s' free' d' b where "walk root va True s = (Inr (b + 8 * PX 0 va), s')" "grown lo hi root s free d s' free' d'"
      "d' (vtable (vpn va)) = Some b" "length free \<le> length free' + 2"
proof -
  have w: "walk root va True s = walk_loop (Suc (Suc 0)) root va True s"
    using va by (simp add: walk_def numeral_2_eq_2 not_le)
  have r: "d [] = Some root" by (rule vm_invD(2) [OF inv])
  from inv r show ?thesis
  proof (rule walk_step_alloc [where l = "Suc 0" and va = va])
    assume "free = []" "walk_loop (Suc (Suc 0)) root va True s = (Inr 0, s)"
    then show ?thesis using that(1) w grown_refl [OF inv] by simp
  next
    fix s1 free1 d1 b1
    assume 1: "walk_loop (Suc (Suc 0)) root va True s = walk_loop (Suc 0) b1 va True s1"
      "grown lo hi root s free d s1 free1 d1" "d1 ([] @ [unat (PX (Suc (Suc 0)) va)]) = Some b1" "length free \<le> Suc (length free1)"
    have inv1: "vm_inv lo hi root s1 free1 d1" using 1(2) by (simp add: grown_def extends_def)
    from inv1 1(3) show ?thesis
    proof (rule walk_step_alloc [where l = 0 and va = va])
      assume "free1 = []" "walk_loop (Suc 0) b1 va True s1 = (Inr 0, s1)"
      then show ?thesis using that(1) [OF _ 1(2)] w 1(1,4) by simp
    next
      fix s2 free2 d2 b2
      assume 2: "walk_loop (Suc 0) b1 va True s1 = walk_loop 0 b2 va True s2" "grown lo hi root s1 free1 d1 s2 free2 d2"
        "d2 (([] @ [unat (PX (Suc (Suc 0)) va)]) @ [unat (PX (Suc 0) va)]) = Some b2" "length free1 \<le> Suc (length free2)"
      have "d2 (vtable (vpn va)) = Some b2" using 2(3) unfolding append_Nil vtable_PX .
      then show ?thesis using that(2) [OF _ grown_trans [OF 1(2) 2(2)]] w 1(1,4) 2(1,4) by simp
    qed simp
  qed simp
qed

lemma walk_find_run:
  assumes inv: "vm_inv lo hi root s free d" and va: "va < MAXVA"
  shows "walk root va False s = (Inr (case d (vtable (vpn va)) of None \<Rightarrow> 0 | Some b \<Rightarrow> b + 8 * PX 0 va), s)"
proof -
  have w: "walk root va False s = walk_loop (Suc (Suc 0)) root va False s"
    using va by (simp add: walk_def numeral_2_eq_2 not_le)
  note r = vm_invD(2) [OF inv]
  show ?thesis
  proof (cases "d ([] @ [unat (PX (Suc (Suc 0)) va)])")
    case None
    have "d (vtable (vpn va)) = None"
      using vm_invD(9) [OF inv, of "[unat (PX (Suc (Suc 0)) va)]" "unat (PX (Suc 0) va)"] None
      unfolding vtable_PX [symmetric] by (cases "d ([unat (PX (Suc (Suc 0)) va)] @ [unat (PX (Suc 0) va)])") auto
    then show ?thesis using w walk_step_stop [OF inv r _ None] by simp
  next
    case (Some b1)
    have 1: "walk_loop (Suc (Suc 0)) root va False s = walk_loop (Suc 0) b1 va False s"
      by (rule walk_step_valid [OF inv r _ Some]) simp
    show ?thesis
    proof (cases "d (vtable (vpn va))")
      case None
      then show ?thesis
        using w 1 walk_step_stop [OF inv Some, of 0 va False] by (simp add: vtable_PX [simplified])
    next
      case (Some b2)
      then show ?thesis
        using w 1 walk_step_valid [OF inv \<open>d ([] @ [unat (PX (Suc (Suc 0)) va)]) = Some b1\<close>, of 0 va b2 False]
        by (simp add: vtable_PX [simplified])
    qed
  qed
qed

section \<open>Writing a leaf entry\<close>

lemma stored_slot_frame:
  assumes "4096 dvd unat a" "4096 dvd unat b" "a \<noteq> b" "i < 512"
  shows "\<forall>x\<in>frame a. stored m (unat b + 8 * i) v x = m x"
  using frames_disjoint [OF assms(1-3)] assms(4) by (fastforce simp: stored_def frame_def)

lemma stored_slot_out: "i < 512 \<Longrightarrow> x \<notin> frame b \<Longrightarrow> stored m (unat b + 8 * i) v x = m x"
  by (auto simp: stored_def frame_def)

lemma leaf_store:
  fixes v :: u64
  assumes inv: "vm_inv lo hi root s free d" and b: "d (vtable n) = Some b" and n: "n < 2 ^ 27"
  defines "s' \<equiv> s\<lparr>ram := stored (ram s) (unat b + 8 * (n mod 512)) v\<rparr>"
  shows "extends lo hi root s free d s' free d"
    and "\<forall>k<2 ^ 27. entry (ram s') d k = (if k = n then v else entry (ram s) d k)"
proof -
  note D = vm_invD [OF inv]
  have i: "n mod 512 < 512" by simp
  have other: "load64 (ram s') (unat a + 8 * j) = load64 (ram s) (unat a + 8 * j)"
    if "d p = Some a" "p \<noteq> vtable n" "j < 512" for p a j
  proof (rule load64_frame [OF _ that(3)])
    have "a \<noteq> b" using D(7) [OF that(1)] b that(2) by blast
    then show "\<forall>x\<in>frame a. ram s' x = ram s x"
      using stored_slot_frame [OF D(6) [OF that(1)] D(6) [OF b] _ i] by (simp add: s'_def)
  qed
  have pool: "pool_inv lo hi s' free"
  proof (rule pool_inv_frame [OF D(1)])
    show "\<forall>q\<in>set free. \<forall>x\<in>frame q. ram s' x = ram s x"
    proof
      fix q assume "q \<in> set free"
      then have "4096 dvd unat q" "q \<noteq> b" using D(1) D(5) [OF b] by (auto simp: pool_inv_def page_in_def)
      then show "\<forall>x\<in>frame q. ram s' x = ram s x"
        using stored_slot_frame [OF _ D(6) [OF b] _ i] by (simp add: s'_def)
    qed
  qed (use D(1) in \<open>simp_all add: pool_inv_def s'_def\<close>)
  have ok: "table_ok pte_valid PTE2PA (ram s') d p a" if "d p = Some a" "length p < 2" for p a
  proof -
    have "p \<noteq> vtable n" using that(2) by (metis nat_neq_iff vtable_length)
    then show ?thesis using D(8) [OF that] other [OF that(1)] by (simp add: table_ok_def)
  qed
  have "vm_inv lo hi root s' free d" using inv pool ok by (simp add: vm_inv_def)
  moreover have "b \<in> ran d" using b by (rule ranI)
  then have "\<forall>x. (\<forall>b\<in>ran d. x \<notin> frame b) \<longrightarrow> ram s' x = ram s x"
    using stored_slot_out [OF i] by (simp add: s'_def)
  ultimately show "extends lo hi root s free d s' free d" by (simp add: extends_def s'_def)
  show "\<forall>k<2 ^ 27. entry (ram s') d k = (if k = n then v else entry (ram s) d k)"
  proof (intro allI impI)
    fix k :: nat assume k: "k < 2 ^ 27"
    consider "k = n" | "k \<noteq> n" "vtable k = vtable n" "k mod 512 \<noteq> n mod 512" | "k \<noteq> n" "vtable k \<noteq> vtable n"
      using vtable_inj [OF _ _ k n] by blast
    then show "entry (ram s') d k = (if k = n then v else entry (ram s) d k)"
    proof cases
      case 1
      then show ?thesis using b by (simp add: entry_def s'_def mem_run)
    next
      case 2
      have "load64 (ram s') (unat b + 8 * (k mod 512)) = load64 (ram s) (unat b + 8 * (k mod 512))"
        using 2(3) by (simp add: s'_def) (rule load64_stored_other, linarith)
      then show ?thesis using 2 b by (simp add: entry_def)
    next
      case 3
      then show ?thesis using other [of "vtable k" _ "k mod 512"] by (simp add: entry_def split: option.splits)
    qed
  qed
qed

lemma leaf_access:
  assumes "vm_inv lo hi root s free d" "d (vtable (vpn va)) = Some b"
  shows "mem_load64 (b + 8 * PX 0 va) s = (Inr (entry (ram s) d (vpn va)), s)"
    and "mem_store64 (b + 8 * PX 0 va) v s = (Inr (), s\<lparr>ram := stored (ram s) (unat b + 8 * (vpn va mod 512)) v\<rparr>)"
    and "b + 8 * PX 0 va \<noteq> 0"
proof -
  note D = vm_invD [OF assms(1)]
  have u: "unat (b + 8 * PX 0 va) = unat b + 8 * (vpn va mod 512)"
    using unat_slot [OF D(6) [OF assms(2)] PX_less] by (simp add: PX_vpn)
  have m: "mapped (ram s) (unat b + 8 * (vpn va mod 512)) 8"
    by (rule mapped_slot [OF D(10) [OF assms(2)]]) simp
  then obtain e where "load64 (ram s) (unat b + 8 * (vpn va mod 512)) = Some e" using load64_run by blast
  then show "mem_load64 (b + 8 * PX 0 va) s = (Inr (entry (ram s) d (vpn va)), s)"
    using assms(2) by (simp add: mem_run u entry_def)
  show "mem_store64 (b + 8 * PX 0 va) v s = (Inr (), s\<lparr>ram := stored (ram s) (unat b + 8 * (vpn va mod 512)) v\<rparr>)"
    using m by (simp add: mem_run u)
  have "unat b \<noteq> 0" using D(4) [OF assms(2)] by (auto simp: page_in_def word_unat_eq_iff)
  then show "b + 8 * PX 0 va \<noteq> 0" using u by (metis add_is_0 unsigned_0)
qed

section \<open>Mapping a range\<close>

definition leaf_pte :: "u64 \<Rightarrow> nat \<Rightarrow> u64 \<Rightarrow> u64" where
  "leaf_pte pa j perm = PA2PTE (pa + of_nat j * PGSIZE) OR perm OR PTE_V"

text \<open>\<open>j\<close> entries from page \<open>n\<close> on have been written, all others are as before.\<close>

definition entries_set :: "mem \<Rightarrow> ptree \<Rightarrow> mem \<Rightarrow> ptree \<Rightarrow> nat \<Rightarrow> nat \<Rightarrow> (nat \<Rightarrow> u64) \<Rightarrow> bool" where
  "entries_set m d m' d' n j f \<longleftrightarrow>
     (\<forall>k<2 ^ 27. entry m' d' k = (if n \<le> k \<and> k < n + j then f (k - n) else entry m d k))"

lemma entries_set_0: "entries_set m d m' d' n 0 f \<longleftrightarrow> (\<forall>k<2 ^ 27. entry m' d' k = entry m d k)"
  by (auto simp: entries_set_def)

lemma vpn_add_PGSIZE: "unat a + 4096 < 2 ^ 64 \<Longrightarrow> vpn (a + PGSIZE) = Suc (vpn a)"
  by (simp add: vpn_def unat_add_PGSIZE)

lemma map_step:
  assumes inv: "vm_inv lo hi root s free d" and a: "a < MAXVA" "entry (ram s) d (vpn a) AND PTE_V = 0"
  obtains s' d' where "map_loop (Suc fuel) root a last_a pa perm s = (Inr (- 1), s')"
      "extends lo hi root s free d s' [] d'" "length free < 2" "\<forall>k<2 ^ 27. entry (ram s') d' k = entry (ram s) d k"
  | s' free' d' where "map_loop (Suc fuel) root a last_a pa perm s =
        (if a = last_a then kret 0 else map_loop fuel root (a + PGSIZE) last_a (pa + PGSIZE) perm) s'"
      "extends lo hi root s free d s' free' d'" "length free \<le> length free' + 2"
      "\<forall>k<2 ^ 27. entry (ram s') d' k = (if k = vpn a then leaf_pte pa 0 perm else entry (ram s) d k)"
  using inv a(1)
proof (rule walk_alloc_run)
  fix s1 free1 d1
  assume "walk root a True s = (Inr 0, s1)" "grown lo hi root s free d s1 free1 d1" "length free < 2" "free1 = []"
  then show thesis by (intro that(1) [of s1 d1]) (simp_all add: grown_def)
next
  fix s1 free1 d1 b
  assume 1: "walk root a True s = (Inr (b + 8 * PX 0 a), s1)" "grown lo hi root s free d s1 free1 d1"
    "d1 (vtable (vpn a)) = Some b" "length free \<le> length free1 + 2"
  have inv1: "vm_inv lo hi root s1 free1 d1" using 1(2) by (simp add: grown_def extends_def)
  have n: "vpn a < 2 ^ 27" using vpn_less [OF a(1)] by simp
  note st = leaf_store [OF inv1 1(3) n, of "leaf_pte pa 0 perm"] and ac = leaf_access [OF inv1 1(3)]
  have "entry (ram s1) d1 (vpn a) AND PTE_V = 0" using a(2) 1(2) by (simp add: grown_def)
  then have "map_loop (Suc fuel) root a last_a pa perm s =
     (if a = last_a then kret 0 else map_loop fuel root (a + PGSIZE) last_a (pa + PGSIZE) perm)
       (s1\<lparr>ram := stored (ram s1) (unat b + 8 * (vpn a mod 512)) (leaf_pte pa 0 perm)\<rparr>)"
    using 1(1) ac by (simp add: leaf_pte_def)
  moreover have "extends lo hi root s free d s1 free1 d1" using 1(2) by (simp add: grown_def)
  from extends_trans [OF this st(1)] have
    "extends lo hi root s free d (s1\<lparr>ram := stored (ram s1) (unat b + 8 * (vpn a mod 512)) (leaf_pte pa 0 perm)\<rparr>) free1 d1" .
  ultimately show thesis using that(2) 1(2,4) st(2) by (simp add: grown_def)
qed

lemma map_loop_run:
  assumes "vm_inv lo hi root s free d" "unat last_a = unat a + 4096 * k" "last_a < MAXVA"
    "\<forall>j\<le>k. entry (ram s) d (vpn a + j) AND PTE_V = 0" "k < fuel"
  shows "\<exists>s' free' d' r j. map_loop fuel root a last_a pa perm s = (Inr r, s') \<and> extends lo hi root s free d s' free' d'
    \<and> entries_set (ram s) d (ram s') d' (vpn a) j (\<lambda>i. leaf_pte pa i perm)
    \<and> (r = 0 \<and> j = Suc k \<and> length free \<le> length free' + 2 * Suc k \<or> r = - 1 \<and> j \<le> k \<and> free' = [] \<and> length free < 2 * Suc k)"
  using assms
proof (induction k arbitrary: s free d a pa fuel)
  case 0
  then obtain f where f: "fuel = Suc f" by (cases fuel) auto
  have a: "a = last_a" "a < MAXVA" using 0 by (simp_all add: word_unat_eq_iff word_less_nat_alt)
  have "entry (ram s) d (vpn a) AND PTE_V = 0" using 0(4) by simp
  from 0(1) a(2) this show ?case
  proof (rule map_step [where fuel = f and last_a = last_a and pa = pa and perm = perm])
    fix s' d' assume "map_loop (Suc f) root a last_a pa perm s = (Inr (- 1), s')" "extends lo hi root s free d s' [] d'"
      "length free < 2" "\<forall>k<2 ^ 27. entry (ram s') d' k = entry (ram s) d k"
    then show ?thesis using f
      by (intro exI [of _ s'] exI [of _ "[]"] exI [of _ d'] exI [of _ "- 1"] exI [of _ 0]) (simp add: entries_set_0)
  next
    fix s' free' d' assume "map_loop (Suc f) root a last_a pa perm s =
        (if a = last_a then kret 0 else map_loop f root (a + PGSIZE) last_a (pa + PGSIZE) perm) s'"
      "extends lo hi root s free d s' free' d'" "length free \<le> length free' + 2"
      "\<forall>k<2 ^ 27. entry (ram s') d' k = (if k = vpn a then leaf_pte pa 0 perm else entry (ram s) d k)"
    then show ?thesis using f a(1)
      by (intro exI [of _ s'] exI [of _ free'] exI [of _ d'] exI [of _ 0] exI [of _ 1]) (auto simp: entries_set_def)
  qed
next
  case (Suc k)
  then obtain f where f: "fuel = Suc f" "k < f" by (cases fuel) auto
  have ne: "a \<noteq> last_a" using Suc.prems(2) by auto
  have a: "a < MAXVA" using Suc.prems(2,3) by (simp add: word_less_nat_alt)
  have "unat last_a < 2 ^ 64" using unsigned_less [of last_a, where ?'a = nat] by simp
  then have n64: "unat a + 4096 < 2 ^ 64" using Suc.prems(2) by simp
  note [simp] = vpn_add_PGSIZE [OF n64]
  have next_a: "unat last_a = unat (a + PGSIZE) + 4096 * k" using Suc.prems(2) unat_add_PGSIZE [OF n64] by simp
  have "entry (ram s) d (vpn a) AND PTE_V = 0" using Suc.prems(4) by (metis add_0_right le0)
  from Suc.prems(1) a this show ?case
  proof (rule map_step [where fuel = f and last_a = last_a and pa = pa and perm = perm])
    fix s' d' assume "map_loop (Suc f) root a last_a pa perm s = (Inr (- 1), s')" "extends lo hi root s free d s' [] d'"
      "length free < 2" "\<forall>k<2 ^ 27. entry (ram s') d' k = entry (ram s) d k"
    then show ?thesis using f
      by (intro exI [of _ s'] exI [of _ "[]"] exI [of _ d'] exI [of _ "- 1"] exI [of _ 0]) (simp add: entries_set_0)
  next
    fix s1 free1 d1 assume 1: "map_loop (Suc f) root a last_a pa perm s =
        (if a = last_a then kret 0 else map_loop f root (a + PGSIZE) last_a (pa + PGSIZE) perm) s1"
      "extends lo hi root s free d s1 free1 d1" "length free \<le> length free1 + 2"
      "\<forall>k<2 ^ 27. entry (ram s1) d1 k = (if k = vpn a then leaf_pte pa 0 perm else entry (ram s) d k)"
    have inv1: "vm_inv lo hi root s1 free1 d1" using 1(2) by (simp add: extends_def)
    have small: "vpn a + Suc k < 2 ^ 26"
      using vpn_less [OF Suc.prems(3)] Suc.prems(2) by (simp add: vpn_def)
    have "\<forall>j\<le>k. entry (ram s1) d1 (vpn (a + PGSIZE) + j) AND PTE_V = 0"
    proof (intro allI impI)
      fix j assume "j \<le> k"
      then have "entry (ram s) d (vpn a + Suc j) AND PTE_V = 0" using Suc.prems(4) by (metis Suc_le_mono)
      then show "entry (ram s1) d1 (vpn (a + PGSIZE) + j) AND PTE_V = 0" using 1(4) small \<open>j \<le> k\<close> by simp
    qed
    from Suc.IH [OF inv1 next_a Suc.prems(3) this f(2), of "pa + PGSIZE"] obtain s2 free2 d2 r j where
      2: "map_loop f root (a + PGSIZE) last_a (pa + PGSIZE) perm s1 = (Inr r, s2)" "extends lo hi root s1 free1 d1 s2 free2 d2"
        "entries_set (ram s1) d1 (ram s2) d2 (Suc (vpn a)) j (\<lambda>i. leaf_pte (pa + PGSIZE) i perm)"
        "r = 0 \<and> j = Suc k \<and> length free1 \<le> length free2 + 2 * Suc k \<or> r = - 1 \<and> j \<le> k \<and> free2 = [] \<and> length free1 < 2 * Suc k"
      by auto
    have lp: "leaf_pte (pa + PGSIZE) i perm = leaf_pte pa (Suc i) perm" for i by (simp add: leaf_pte_def algebra_simps)
    have "entries_set (ram s) d (ram s2) d2 (vpn a) (Suc j) (\<lambda>i. leaf_pte pa i perm)"
      using 2(3) 1(4) unfolding entries_set_def lp by (auto simp: Suc_diff_Suc)
    then show ?thesis
      using f ne 1(1,3) 2(1,4) extends_trans [OF 1(2) 2(2)]
      by (intro exI [of _ s2] exI [of _ free2] exI [of _ d2] exI [of _ r] exI [of _ "Suc j"]) auto
  qed
qed

text \<open>The number of pages that the bytes from \<open>va\<close> on touch.\<close>

definition npages :: "u64 \<Rightarrow> u64 \<Rightarrow> nat" where
  "npages va sz = (unat va + unat sz - 1) div 4096 - unat va div 4096 + 1"

lemma vpn_PGROUNDDOWN [simp]: "vpn (PGROUNDDOWN va) = vpn va"
  by (simp add: vpn_def unat_PGROUNDDOWN)

lemma unat_last:
  fixes va sz :: u64
  assumes "0 < sz" "unat va + unat sz \<le> 2 ^ 38"
  shows "unat (va + sz - 1) = unat va + unat sz - 1"
proof -
  have "unat (va + sz) = unat va + unat sz" using assms(2) by (subst unat_add_lem [THEN iffD1]) simp_all
  then show ?thesis using assms(1) by (subst unat_sub) (auto simp: word_le_nat_alt word_less_nat_alt)
qed

lemma range_bounds:
  assumes "0 < sz" "unat va + unat sz \<le> 2 ^ 38"
  shows "unat (PGROUNDDOWN (va + sz - 1)) = unat (PGROUNDDOWN va) + 4096 * (npages va sz - 1)"
    "PGROUNDDOWN (va + sz - 1) < MAXVA" "npages va sz \<le> va_pages" "vpn va + npages va sz \<le> va_pages"
proof -
  have sz: "0 < unat sz" using assms(1) by (simp add: word_less_nat_alt)
  have le: "unat va div 4096 \<le> (unat va + unat sz - 1) div 4096" using sz by (intro div_le_mono) simp
  then show "unat (PGROUNDDOWN (va + sz - 1)) = unat (PGROUNDDOWN va) + 4096 * (npages va sz - 1)"
    by (simp add: unat_PGROUNDDOWN unat_last [OF assms] npages_def diff_mult_distrib2)
  have lt: "(unat va + unat sz - 1) div 4096 < 2 ^ 26"
    using assms(2) sz by (intro less_mult_imp_div_less) simp
  then show "PGROUNDDOWN (va + sz - 1) < MAXVA"
    by (simp add: word_less_nat_alt unat_PGROUNDDOWN unat_last [OF assms] MAXVA_def)
  show "vpn va + npages va sz \<le> va_pages" using lt le by (simp add: npages_def va_pages_def vpn_def)
  then show "npages va sz \<le> va_pages" by simp
qed

lemma mappages_run:
  assumes inv: "vm_inv lo hi root s free d" and sz: "0 < sz" "unat va + unat sz \<le> 2 ^ 38"
    and un: "\<forall>j<npages va sz. entry (ram s) d (vpn va + j) AND PTE_V = 0"
  shows "\<exists>s' free' d' r j. mappages root va pa sz perm s = (Inr r, s') \<and> extends lo hi root s free d s' free' d'
    \<and> entries_set (ram s) d (ram s') d' (vpn va) j (\<lambda>i. leaf_pte pa i perm)
    \<and> (r = 0 \<and> j = npages va sz \<and> length free \<le> length free' + 2 * npages va sz
       \<or> r = - 1 \<and> j < npages va sz \<and> free' = [] \<and> length free < 2 * npages va sz)"
proof -
  note b = range_bounds [OF sz]
  have p: "Suc (npages va sz - 1) = npages va sz" by (simp add: npages_def)
  have un': "\<forall>j\<le>npages va sz - 1. entry (ram s) d (vpn (PGROUNDDOWN va) + j) AND PTE_V = 0"
    using un p by (metis le_imp_less_Suc vpn_PGROUNDDOWN)
  have "npages va sz - 1 < Suc va_pages" using b(3) by simp
  from map_loop_run [OF inv b(1,2) un' this, of pa perm] show ?thesis
    unfolding mappages_def p vpn_PGROUNDDOWN using p by (metis le_imp_less_Suc)
qed

section \<open>Unmapping a range\<close>

lemma vm_inv_free_page:
  assumes inv: "vm_inv lo hi root s free d" and p: "page_in lo hi p" "p \<notin> set free" "p \<notin> ran d"
  obtains s' where "free_page p s = (Inr (), s')" "vm_inv lo hi root s' (p # free) d"
    "\<forall>k. entry (ram s') d k = entry (ram s) d k" "mm.more s' = mm.more s" "\<forall>x. x \<notin> frame p \<longrightarrow> ram s' x = ram s x"
proof -
  note D = vm_invD [OF inv]
  obtain s' where s': "free_page p s = (Inr (), s')" "pool_inv lo hi s' (p # free)"
    "\<forall>a. a \<notin> frame p \<longrightarrow> ram s' a = ram s a" "mm.more s' = mm.more s"
    using free_page_ok [OF D(1) p(1,2)] by blast
  have other: "load64 (ram s') (unat a + 8 * j) = load64 (ram s) (unat a + 8 * j)" if "d q = Some a" "j < 512" for q a j
  proof (rule load64_frame [OF _ that(2)])
    have "frame a \<inter> frame p = {}"
      using p(1,3) that(1) by (intro frames_disjoint D(6) [OF that(1)]) (auto simp: page_in_def ran_def)
    then show "\<forall>x\<in>frame a. ram s' x = ram s x" using s'(3) by blast
  qed
  have ok: "table_ok pte_valid PTE2PA (ram s') d q a" if "d q = Some a" "length q < 2" for q a
    using D(8) [OF that] other [OF that(1)] by (simp add: table_ok_def)
  have "\<forall>q a. d q = Some a \<longrightarrow> length q \<le> 2 \<and> page_in lo hi a \<and> a \<notin> set (p # free)"
    using D(3,4,5) p(3) by (auto simp: ran_def)
  then have "vm_inv lo hi root s' (p # free) d"
    using s'(2) inv ok by (simp add: vm_inv_def)
  moreover have "\<forall>k. entry (ram s') d k = entry (ram s) d k"
    using other by (simp add: entry_def split: option.splits)
  ultimately show thesis using that s' by blast
qed

text \<open>The frames the leaf entries from page \<open>n\<close> on point to.\<close>

definition leaf_pages :: "mem \<Rightarrow> ptree \<Rightarrow> nat \<Rightarrow> nat \<Rightarrow> u64 list" where
  "leaf_pages m d n k = map (\<lambda>j. PTE2PA (entry m d (n + j))) [0..<k]"

definition leaf_ok :: "u64 \<Rightarrow> bool" where
  "leaf_ok e \<longleftrightarrow> e AND PTE_V \<noteq> 0 \<and> PTE_FLAGS e \<noteq> PTE_V"

lemma leaf_pages_Suc: "leaf_pages m d n (Suc k) = PTE2PA (entry m d n) # leaf_pages m d (Suc n) k"
  by (simp add: leaf_pages_def upt_conv_Cons map_Suc_upt [symmetric] o_def del: upt_Suc)

lemma unmap_step:
  assumes inv: "vm_inv lo hi root s free d" and a: "a < MAXVA" "leaf_ok (entry (ram s) d (vpn a))"
    and fr: "do_free \<Longrightarrow> page_in lo hi p \<and> p \<notin> set free \<and> p \<notin> ran d" and p: "p = PTE2PA (entry (ram s) d (vpn a))"
  obtains s' where "unmap_loop (Suc fuel) root a last_a do_free s =
      (if a = last_a then kret () else unmap_loop fuel root (a + PGSIZE) last_a do_free) s'"
    "vm_inv lo hi root s' ((if do_free then [p] else []) @ free) d"
    "\<forall>k<2 ^ 27. entry (ram s') d k = (if k = vpn a then 0 else entry (ram s) d k)" "mm.more s' = mm.more s"
proof -
  obtain b where b: "d (vtable (vpn a)) = Some b"
    using a(2) by (cases "d (vtable (vpn a))") (auto simp: entry_def leaf_ok_def)
  have n: "vpn a < 2 ^ 27" using vpn_less [OF a(1)] by simp
  obtain s1 where s1: "(if do_free then free_page p else kret ()) s = (Inr (), s1)"
    "vm_inv lo hi root s1 ((if do_free then [p] else []) @ free) d"
    "\<forall>k. entry (ram s1) d k = entry (ram s) d k" "mm.more s1 = mm.more s"
  proof (cases do_free)
    case True
    then have pp: "page_in lo hi p" "p \<notin> set free" "p \<notin> ran d" using fr by blast+
    obtain s1 where "free_page p s = (Inr (), s1)" "vm_inv lo hi root s1 (p # free) d"
      "\<forall>k. entry (ram s1) d k = entry (ram s) d k" "mm.more s1 = mm.more s"
      by (rule vm_inv_free_page [OF inv pp])
    then show thesis using that [of s1] True by simp
  qed (use that inv in simp)
  note st = leaf_store [OF s1(2) b n, of 0]
  let ?s = "s1\<lparr>ram := stored (ram s1) (unat b + 8 * (vpn a mod 512)) 0\<rparr>"
  have "unmap_loop (Suc fuel) root a last_a do_free s =
      (if a = last_a then kret () else unmap_loop fuel root (a + PGSIZE) last_a do_free) ?s"
    using walk_find_run [OF inv a(1)] b leaf_access(1,3) [OF inv b] leaf_access(2) [OF s1(2) b, of 0] a(2) s1(1) [unfolded p]
    by (simp add: leaf_ok_def split del: if_split)
  moreover have "\<forall>k<2 ^ 27. entry (ram ?s) d k = (if k = vpn a then 0 else entry (ram s) d k)"
    using st(2) unfolding s1(3) [rule_format] .
  moreover have "vm_inv lo hi root ?s ((if do_free then [p] else []) @ free) d" using st(1) by (simp only: extends_def)
  ultimately show thesis using that [of ?s] s1(4) by simp
qed

definition fresh_pages :: "u64 \<Rightarrow> u64 \<Rightarrow> u64 list \<Rightarrow> ptree \<Rightarrow> u64 list \<Rightarrow> bool" where
  "fresh_pages lo hi free d ps \<longleftrightarrow> distinct ps \<and> (\<forall>p\<in>set ps. page_in lo hi p \<and> p \<notin> set free \<and> p \<notin> ran d)"

lemma leaf_pages_cong:
  "(\<And>j. j < k \<Longrightarrow> entry m' d' (n + j) = entry m d (n + j)) \<Longrightarrow> leaf_pages m' d' n k = leaf_pages m d n k"
  by (simp add: leaf_pages_def)

lemma unmap_loop_run:
  assumes "vm_inv lo hi root s free d" "unat last_a = unat a + 4096 * k" "last_a < MAXVA"
    "\<forall>j\<le>k. leaf_ok (entry (ram s) d (vpn a + j))" "do_free \<longrightarrow> fresh_pages lo hi free d (leaf_pages (ram s) d (vpn a) (Suc k))" "k < fuel"
  shows "\<exists>s'. unmap_loop fuel root a last_a do_free s = (Inr (), s')
    \<and> vm_inv lo hi root s' ((if do_free then rev (leaf_pages (ram s) d (vpn a) (Suc k)) else []) @ free) d
    \<and> entries_set (ram s) d (ram s') d (vpn a) (Suc k) (\<lambda>_. 0) \<and> mm.more s' = mm.more s"
  using assms
proof (induction k arbitrary: s free a fuel)
  case 0
  then obtain f where f: "fuel = Suc f" by (cases fuel) auto
  let ?p = "PTE2PA (entry (ram s) d (vpn a))"
  have a: "a = last_a" "a < MAXVA" using 0 by (simp_all add: word_unat_eq_iff word_less_nat_alt)
  have l: "leaf_ok (entry (ram s) d (vpn a))" using 0(4) by simp
  have fr: "do_free \<Longrightarrow> page_in lo hi ?p \<and> ?p \<notin> set free \<and> ?p \<notin> ran d"
    using 0(5) by (simp add: fresh_pages_def leaf_pages_def)
  obtain s' where "unmap_loop (Suc f) root a last_a do_free s =
      (if a = last_a then kret () else unmap_loop f root (a + PGSIZE) last_a do_free) s'"
    "vm_inv lo hi root s' ((if do_free then [?p] else []) @ free) d"
    "\<forall>k<2 ^ 27. entry (ram s') d k = (if k = vpn a then 0 else entry (ram s) d k)" "mm.more s' = mm.more s"
    by (rule unmap_step [OF 0(1) a(2) l fr refl])
  then show ?case using f a(1) by (intro exI [of _ s']) (auto simp: entries_set_def leaf_pages_def)
next
  case (Suc k)
  then obtain f where f: "fuel = Suc f" "k < f" by (cases fuel) auto
  let ?p = "PTE2PA (entry (ram s) d (vpn a))"
  have ne: "a \<noteq> last_a" using Suc.prems(2) by auto
  have a: "a < MAXVA" using Suc.prems(2,3) by (simp add: word_less_nat_alt)
  have "unat last_a < 2 ^ 64" using unsigned_less [of last_a, where ?'a = nat] by simp
  then have n64: "unat a + 4096 < 2 ^ 64" using Suc.prems(2) by simp
  note vs = vpn_add_PGSIZE [OF n64]
  have next_a: "unat last_a = unat (a + PGSIZE) + 4096 * k" using Suc.prems(2) unat_add_PGSIZE [OF n64] by simp
  have small: "vpn a + Suc k < 2 ^ 26" using vpn_less [OF Suc.prems(3)] Suc.prems(2) by (simp add: vpn_def)
  have l: "leaf_ok (entry (ram s) d (vpn a))" using Suc.prems(4) by (metis add_0_right le0)
  note lps = leaf_pages_Suc [of "ram s" d "vpn a" "Suc k"]
  have fr: "do_free \<Longrightarrow> page_in lo hi ?p \<and> ?p \<notin> set free \<and> ?p \<notin> ran d"
    using Suc.prems(5) unfolding lps by (simp add: fresh_pages_def)
  obtain s1 where 1: "unmap_loop (Suc f) root a last_a do_free s =
      (if a = last_a then kret () else unmap_loop f root (a + PGSIZE) last_a do_free) s1"
    "vm_inv lo hi root s1 ((if do_free then [?p] else []) @ free) d"
    "\<forall>k<2 ^ 27. entry (ram s1) d k = (if k = vpn a then 0 else entry (ram s) d k)" "mm.more s1 = mm.more s"
    by (rule unmap_step [OF Suc.prems(1) a l fr refl])
  have same: "entry (ram s1) d (vpn (a + PGSIZE) + j) = entry (ram s) d (Suc (vpn a) + j)" if "j \<le> k" for j
    using 1(3) small that by (simp add: vs)
  have ok: "\<forall>j\<le>k. leaf_ok (entry (ram s1) d (vpn (a + PGSIZE) + j))"
    using Suc.prems(4) same by (metis Suc_le_mono add_Suc_shift)
  have lp: "leaf_pages (ram s1) d (vpn (a + PGSIZE)) (Suc k) = leaf_pages (ram s) d (Suc (vpn a)) (Suc k)"
    using same by (simp add: leaf_pages_def)
  have fr1: "do_free \<longrightarrow> fresh_pages lo hi ((if do_free then [?p] else []) @ free) d (leaf_pages (ram s1) d (vpn (a + PGSIZE)) (Suc k))"
    using Suc.prems(5) unfolding lps lp by (auto simp: fresh_pages_def)
  obtain s2 where 2: "unmap_loop f root (a + PGSIZE) last_a do_free s1 = (Inr (), s2)"
    "vm_inv lo hi root s2 ((if do_free then rev (leaf_pages (ram s) d (Suc (vpn a)) (Suc k)) else []) @ (if do_free then [?p] else []) @ free) d"
    "entries_set (ram s1) d (ram s2) d (Suc (vpn a)) (Suc k) (\<lambda>_. 0)" "mm.more s2 = mm.more s1"
    using Suc.IH [OF 1(2) next_a Suc.prems(3) ok fr1 f(2), unfolded lp, unfolded vs] by blast
  have "entries_set (ram s) d (ram s2) d (vpn a) (Suc (Suc k)) (\<lambda>_. 0)"
    using 2(3) 1(3) unfolding entries_set_def by auto
  moreover have "vm_inv lo hi root s2 ((if do_free then rev (leaf_pages (ram s) d (vpn a) (Suc (Suc k))) else []) @ free) d"
    using 2(2) unfolding lps by (cases do_free) simp_all
  ultimately show ?case using f ne 1(1,4) 2(1,4) by (intro exI [of _ s2]) (simp del: unmap_loop.simps)
qed

lemma uvmunmap_run:
  assumes inv: "vm_inv lo hi root s free d" and sz: "0 < sz" "unat va + unat sz \<le> 2 ^ 38" "4096 dvd unat va" "4096 dvd unat sz"
    and ok: "\<forall>j<npages va sz. leaf_ok (entry (ram s) d (vpn va + j))"
      "do_free \<longrightarrow> fresh_pages lo hi free d (leaf_pages (ram s) d (vpn va) (npages va sz))"
  shows "\<exists>s'. uvmunmap root va sz do_free s = (Inr (), s')
    \<and> vm_inv lo hi root s' ((if do_free then rev (leaf_pages (ram s) d (vpn va) (npages va sz)) else []) @ free) d
    \<and> entries_set (ram s) d (ram s') d (vpn va) (npages va sz) (\<lambda>_. 0) \<and> mm.more s' = mm.more s"
proof -
  note b = range_bounds [OF sz(1,2)]
  have p: "Suc (npages va sz - 1) = npages va sz" by (simp add: npages_def)
  have va: "PGROUNDDOWN va = va" using sz(3) by (simp add: word_unat_eq_iff unat_PGROUNDDOWN)
  have "\<forall>j\<le>npages va sz - 1. leaf_ok (entry (ram s) d (vpn va + j))" using ok(1) p by (metis le_imp_less_Suc)
  moreover have "npages va sz - 1 < Suc va_pages" using b(3) by simp
  ultimately show ?thesis
    using unmap_loop_run [OF inv b(1) [unfolded va] b(2), of do_free "Suc va_pages"] ok(2) sz(3,4)
    unfolding p by (simp add: uvmunmap_def mod_PGSIZE_iff)
qed

section \<open>Looking up\<close>

lemma walkaddr_run:
  assumes "vm_inv lo hi root s free d"
  shows "walkaddr root va s = (Inr (if va < MAXVA \<and> entry (ram s) d (vpn va) AND PTE_V \<noteq> 0 \<and> entry (ram s) d (vpn va) AND PTE_U \<noteq> 0
     then PTE2PA (entry (ram s) d (vpn va)) else 0), s)"
proof (cases "va < MAXVA")
  case True
  show ?thesis
  proof (cases "d (vtable (vpn va))")
    case None
    then show ?thesis using True walk_find_run [OF assms True] by (simp add: walkaddr_def entry_def)
  next
    case (Some b)
    then show ?thesis using True walk_find_run [OF assms True] leaf_access(1,3) [OF assms Some]
      by (auto simp: walkaddr_def)
  qed
qed (auto simp: walkaddr_def not_less)

lemma or_and_nonzero:
  fixes x y u :: u64
  assumes "x AND u \<noteq> 0"
  shows "(y OR x OR z) AND u \<noteq> 0"
proof
  assume "(y OR x OR z) AND u = 0"
  then have "x AND u = 0" by (intro bit_word_eqI) (auto simp: bit_eq_iff bit_simps)
  with assms show False by simp
qed

lemma page_step_dvd:
  assumes "4096 dvd unat pa"
  shows "4096 dvd unat (pa + of_nat j * PGSIZE)"
proof -
  have "unat (pa + of_nat j * PGSIZE) = (unat pa + (j mod 2 ^ 64) * 4096 mod 2 ^ 64) mod 2 ^ 64"
    by (simp add: unat_word_ariths PGSIZE_def unat_of_nat take_bit_eq_mod)
  moreover have "4096 dvd (unat pa + (j mod 2 ^ 64) * 4096 mod 2 ^ 64) mod 2 ^ 64"
    using assms by (intro dvd_mod dvd_add) simp_all
  ultimately show ?thesis by simp
qed

lemma leaf_pte_facts:
  assumes "4096 dvd unat pa" "drop_bit 10 perm = 0"
  shows "leaf_pte pa j perm AND PTE_V \<noteq> 0" "PTE2PA (leaf_pte pa j perm) = pa + of_nat j * PGSIZE"
    "perm AND PTE_U \<noteq> 0 \<Longrightarrow> leaf_pte pa j perm AND PTE_U \<noteq> 0"
  using PTE2PA_PA2PTE [OF page_step_dvd [OF assms(1)] assms(2)] or_and_nonzero by (simp_all add: leaf_pte_def)

section \<open>A new page table\<close>

lemma vm_inv_new:
  assumes pool: "pool_inv lo hi s (p # free)"
  obtains s' where "create_empty_user_pagetable s = (Inr p, s')" "vm_inv lo hi p s' free [[] \<mapsto> p]"
    "\<forall>n. entry (ram s') [[] \<mapsto> p] n = 0" "mm.more s' = mm.more s" "\<forall>a. ram s a \<noteq> None \<longrightarrow> ram s' a \<noteq> None"
proof -
  obtain al where al: "alloc_page s = (Inr p, s\<lparr>kernel_allocator := al\<rparr>)" "pool_inv lo hi (s\<lparr>kernel_allocator := al\<rparr>) free"
    using alloc_page_cons [OF pool] by blast
  have p: "p \<noteq> 0" "page_in lo hi p" "p \<notin> set free" "4096 dvd unat p" using pool by (auto simp: pool_inv_def page_in_def)
  have pm: "mapped (ram s) (unat p) 4096" using pool p(2) by (auto simp: pool_inv_def pages_mapped_def)
  define s' where "s' = s\<lparr>kernel_allocator := al, ram := filled (ram s) (unat p) 0 4096\<rparr>"
  have "pool_inv lo hi s' free"
  proof (rule pool_inv_frame [OF al(2)])
    show "\<forall>q\<in>set free. \<forall>a\<in>frame q. ram s' a = ram (s\<lparr>kernel_allocator := al\<rparr>) a"
    proof (intro ballI)
      fix q a assume q: "q \<in> set free" "a \<in> frame q"
      then have "frame p \<inter> frame q = {}"
        using pool p(3,4) by (intro frames_disjoint) (auto simp: pool_inv_def page_in_def)
      then have "a \<notin> frame p" using q(2) by blast
      then show "ram s' a = ram (s\<lparr>kernel_allocator := al\<rparr>) a" by (auto simp: s'_def filled_def frame_def)
    qed
  qed (use pool in \<open>simp_all add: s'_def pool_inv_def\<close>)
  moreover have "table_ok pte_valid PTE2PA (ram s') [[] \<mapsto> p] [] p"
    by (simp add: table_ok_def s'_def load64_zeroed)
  ultimately have "vm_inv lo hi p s' free [[] \<mapsto> p]" using p by (simp add: vm_inv_def)
  moreover have "create_empty_user_pagetable s = (Inr p, s')"
    using al(1) p(1) pm by (simp add: create_empty_user_pagetable_def s'_def mem_run PGSIZE_def)
  moreover have "\<forall>n. entry (ram s') [[] \<mapsto> p] n = 0" by (simp add: entry_def vtable_def)
  moreover have "mm.more s' = mm.more s" by (simp add: s'_def)
  moreover have "\<forall>a. ram s a \<noteq> None \<longrightarrow> ram s' a \<noteq> None" by (simp add: s'_def filled_def)
  ultimately show thesis using that by blast
qed

section \<open>Loops that end\<close>

definition ends :: "('s, 'a) kmonad \<Rightarrow> bool" where
  "ends m \<longleftrightarrow> (\<forall>s. fst (m s) \<noteq> Inl Out_Of_Fuel)"

named_theorems ends_intro \<open>computations that end\<close>

lemma ends_prim [simp, ends_intro]:
  "ends (kret x)" "ends (kget f)" "ends (kmod g)" "ends (kassert b msg)" "ends (kopt r)" "ends (kthrow (Panic msg))"
  by (simp_all add: ends_def split: option.splits)

lemma ends_kbind [ends_intro]: "ends m \<Longrightarrow> (\<And>x. ends (f x)) \<Longrightarrow> ends (kbind m f)"
  by (auto simp: ends_def kbind_def split: prod.splits sum.splits) (metis fst_conv)

lemma ends_kseq [ends_intro]: "ends m \<Longrightarrow> ends n \<Longrightarrow> ends (kseq m n)"
  by (simp add: kseq_def ends_kbind)

lemma ends_if [ends_intro]: "ends m \<Longrightarrow> ends n \<Longrightarrow> ends (if b then m else n)"
  by simp

lemma ends_mem [ends_intro]:
  "ends (mem_load64 a)" "ends (mem_store64 a v)" "ends (mem_memset p c n)" "ends (mem_memmove d p n)"
  by (simp_all add: mem_load64_def mem_store64_def mem_memset_def mem_memmove_def ends_intro)

lemma ends_pages [ends_intro]: "ends alloc_page" "ends (free_page p)"
  by (simp_all add: alloc_page_def free_page_def ends_intro)

lemma ends_walk_loop: "ends (walk_loop l a va alloc)"
  by (induction l arbitrary: a) (simp_all add: Let_def ends_intro)

lemma ends_walk [ends_intro]: "ends (walk root va alloc)"
  unfolding walk_def by (intro ends_intro ends_walk_loop)

lemma walk_out_of_range: "\<not> a < MAXVA \<Longrightarrow> walk root a alloc s = (Inl (Panic ''walk''), s)"
  by (simp add: walk_def not_less)

lemma MAXVA_step: "a < MAXVA \<Longrightarrow> unat (a + PGSIZE) = unat a + 4096"
  by (rule unat_add_PGSIZE) (simp add: MAXVA_def word_less_nat_alt)

text \<open>A loop over addresses whose body ends, and panics at \<open>MAXVA\<close>, ends with enough fuel.\<close>

lemma va_loop_ends:
  assumes step: "\<And>fuel a x. a < MAXVA \<Longrightarrow> (\<And>y. ends (loop fuel (a + PGSIZE) y)) \<Longrightarrow> ends (loop (Suc fuel) a x)"
    and out: "\<And>fuel a x. \<not> a < MAXVA \<Longrightarrow> ends (loop (Suc fuel) a x)"
    and fuel: "unat MAXVA \<le> unat a + 4096 * k" "k < fuel"
  shows "ends (loop fuel a x)"
  using fuel
proof (induction k arbitrary: a x fuel)
  case 0
  then obtain f where "fuel = Suc f" by (cases fuel) auto
  then show ?case using 0 out by (simp add: word_less_nat_alt)
next
  case (Suc k)
  then obtain f where f: "fuel = Suc f" "k < f" by (cases fuel) auto
  show ?case
  proof (cases "a < MAXVA")
    case True
    have "ends (loop f (a + PGSIZE) y)" for y
      using Suc.IH [of "a + PGSIZE" f y] Suc.prems(1) f(2) MAXVA_step [OF True] by simp
    then show ?thesis using step [OF True] f(1) by simp
  qed (use out f(1) in simp)
qed

end
