(* ===== verification/Address_Space.thy ===== *)
theory Address_Space
  imports Page_Map
begin

text \<open>
  Properties of the address spaces of \<open>src/os/mm/vmem.cc\<close>: mapping and translation, unmapping, the
  loops over virtual addresses, and the error paths that cannot return.
\<close>

section \<open>Termination\<close>

lemma ends_fail: "(\<And>s. \<exists>msg s'. m s = (Inl (Panic msg), s')) \<Longrightarrow> ends (kbind m f)"
  unfolding ends_def by (metis Inl_inject fst_conv kbind_Inl kerror.distinct(9))

lemma ends_at_walk: "\<not> a < MAXVA \<Longrightarrow> ends (kbind (walk root a alloc) f)"
  by (rule ends_fail) (auto simp: walk_out_of_range)

lemma va_fuel: "unat MAXVA \<le> unat a + 4096 * va_pages"
  by (simp add: MAXVA_def va_pages_def)

lemma ends_mappages [ends_intro]: "ends (mappages root va pa sz perm)"
  unfolding mappages_def
  apply (rule va_loop_ends [where k = va_pages and loop = "\<lambda>fuel a pa. map_loop fuel root a (PGROUNDDOWN (va + sz - 1)) pa perm"])
  subgoal unfolding map_loop.simps by (intro ends_intro) simp_all
  subgoal unfolding map_loop.simps by (rule ends_at_walk)
  subgoal by (rule va_fuel)
  subgoal by simp
  done

lemma ends_unmap_loop [ends_intro]: "ends (unmap_loop (Suc va_pages) root va last_a do_free)"
  apply (rule va_loop_ends [where k = va_pages and loop = "\<lambda>fuel a u. unmap_loop fuel root a last_a do_free"])
  subgoal unfolding unmap_loop.simps by (intro ends_intro) simp_all
  subgoal unfolding unmap_loop.simps by (rule ends_at_walk)
  subgoal by (rule va_fuel)
  subgoal by simp
  done

lemma ends_uvmunmap [ends_intro]: "ends (uvmunmap root va sz do_free)"
  unfolding uvmunmap_def by (intro ends_intro)

lemma ends_uvmdealloc [ends_intro]: "ends (uvmdealloc root oldsz newsz)"
  unfolding uvmdealloc_def by (intro ends_intro)

lemma mappages_out_of_range:
  assumes "\<not> a < MAXVA"
  shows "mappages root a pa sz perm s = (Inl (Panic ''walk''), s)"
proof -
  have "2 ^ 38 div 4096 * 4096 \<le> unat a div 4096 * 4096"
    using assms by (intro mult_le_mono1 div_le_mono) (simp add: MAXVA_def word_less_nat_alt)
  then have "\<not> PGROUNDDOWN a < MAXVA" by (simp add: MAXVA_def word_less_nat_alt unat_PGROUNDDOWN)
  then show ?thesis by (simp add: mappages_def walk_out_of_range)
qed

lemma ends_mappages_out: "\<not> a < MAXVA \<Longrightarrow> ends (kbind (mappages root a pa sz perm) f)"
  by (rule ends_fail) (auto simp: mappages_out_of_range)

lemma ends_uvmalloc_loop [ends_intro]: "ends (uvmalloc_loop (Suc (Suc va_pages)) root a oldsz newsz)"
  apply (rule va_loop_ends [where k = va_pages and loop = "\<lambda>fuel a u. uvmalloc_loop fuel root a oldsz newsz"])
  subgoal unfolding uvmalloc_loop.simps by (intro ends_intro) simp_all
  subgoal unfolding uvmalloc_loop.simps by (intro ends_intro ends_mappages_out)
  subgoal by (rule va_fuel)
  subgoal by simp
  done

lemma ends_uvmalloc [ends_intro]: "ends (uvmalloc root oldsz newsz)"
  unfolding uvmalloc_def by (intro ends_intro)

lemma ends_copy_page_out: "\<not> a < MAXVA \<Longrightarrow> ends (kbind (copy_page old new a) f)"
  by (rule ends_fail) (auto simp: copy_page_def walk_out_of_range)

lemma ends_copy_page [ends_intro]: "ends (copy_page old new a)"
  unfolding copy_page_def by (intro ends_intro)

lemma ends_copy_pages [ends_intro]: "ends (copy_pages (Suc (Suc va_pages)) old new a stop)"
  apply (rule va_loop_ends [where k = va_pages and loop = "\<lambda>fuel a u. copy_pages fuel old new a stop"])
  subgoal unfolding copy_pages.simps by (intro ends_intro) simp_all
  subgoal unfolding copy_pages.simps by (intro ends_intro ends_copy_page_out)
  subgoal by (rule va_fuel)
  subgoal by simp
  done

lemma ends_case_option [ends_intro]: "ends n \<Longrightarrow> (\<And>x. ends (f x)) \<Longrightarrow> ends (case r of None \<Rightarrow> n | Some x \<Rightarrow> f x)"
  by (cases r) simp_all

lemma ends_uvmcopy: "ends (uvmcopy old new total_size)"
  unfolding uvmcopy_def by (intro ends_intro)

lemma endsD: "ends m \<Longrightarrow> fst (m s) \<noteq> Inl Out_Of_Fuel"
  by (simp add: ends_def)

section \<open>Properties\<close>

text \<open>
  C39. The loops over virtual addresses of \<open>mappages\<close>, \<open>uvmunmap\<close>, \<open>uvmalloc\<close>, \<open>uvmdealloc\<close> and \<open>uvmcopy\<close>
  end from every state and for every argument, however the ranges wrap around: each runs through
  at most one iteration more than there are pages below \<open>MAXVA\<close>.
\<close>

theorem vmem_loops_end:
  "fst (mappages root va pa sz perm s) \<noteq> Inl Out_Of_Fuel
   \<and> fst (uvmunmap root va sz do_free s) \<noteq> Inl Out_Of_Fuel
   \<and> fst (uvmalloc root oldsz newsz s) \<noteq> Inl Out_Of_Fuel
   \<and> fst (uvmdealloc root oldsz newsz s) \<noteq> Inl Out_Of_Fuel
   \<and> fst (uvmcopy root new total_size s) \<noteq> Inl Out_Of_Fuel"
  by (intro conjI endsD ends_mappages ends_uvmunmap ends_uvmalloc ends_uvmdealloc ends_uvmcopy)

text \<open>
  C14. With enough free pages \<open>mappages\<close> returns 0 and the page table then translates every address
  of the range to the physical page at the same distance from \<open>pa\<close>, and every other address as
  before; the page table stays a tree of pages of its own.
\<close>

theorem mappages_translates:
  assumes "vm_inv lo hi root s free d" "0 < sz" "unat va + unat sz \<le> 2 ^ 38"
    "\<forall>j<npages va sz. entry (ram s) d (vpn va + j) AND PTE_V = 0"
    "4096 dvd unat pa" "drop_bit 10 perm = 0" "perm AND PTE_U \<noteq> 0" "2 * npages va sz \<le> length free"
  shows "\<exists>s' free' d'. mappages root va pa sz perm s = (Inr 0, s') \<and> vm_inv lo hi root s' free' d'
    \<and> (\<forall>a<MAXVA. fst (walkaddr root a s') =
        (if vpn va \<le> vpn a \<and> vpn a < vpn va + npages va sz then Inr (pa + of_nat (vpn a - vpn va) * PGSIZE)
         else fst (walkaddr root a s)))"
proof -
  obtain s' free' d' where s': "mappages root va pa sz perm s = (Inr 0, s')" "extends lo hi root s free d s' free' d'"
    "entries_set (ram s) d (ram s') d' (vpn va) (npages va sz) (\<lambda>i. leaf_pte pa i perm)"
    using mappages_run [OF assms(1-4), of pa perm] assms(8) by auto
  have inv': "vm_inv lo hi root s' free' d'" using s'(2) by (simp add: extends_def)
  have "fst (walkaddr root a s') = (if vpn va \<le> vpn a \<and> vpn a < vpn va + npages va sz
      then Inr (pa + of_nat (vpn a - vpn va) * PGSIZE) else fst (walkaddr root a s))" if a: "a < MAXVA" for a
  proof -
    have "vpn a < 2 ^ 27" using vpn_less [OF a] by simp
    then have "entry (ram s') d' (vpn a) =
       (if vpn va \<le> vpn a \<and> vpn a < vpn va + npages va sz then leaf_pte pa (vpn a - vpn va) perm else entry (ram s) d (vpn a))"
      using s'(3) by (simp add: entries_set_def)
    then show ?thesis
      using walkaddr_run [OF inv', of a] walkaddr_run [OF assms(1), of a] a leaf_pte_facts [OF assms(5,6)] assms(7) by simp
  qed
  then show ?thesis using s'(1) inv' by blast
qed

text \<open>
  A small machine: 20 pages of memory, the allocator over 16 of them, one empty page table.
\<close>

lemma demo_space:
  "\<exists>(s :: mm) root free. vm_inv 4096 69632 root s free [[] \<mapsto> root] \<and> (\<forall>n. entry (ram s) [[] \<mapsto> root] n = 0)
    \<and> length free = 15 \<and> (\<forall>x<81920. ram s x \<noteq> None)"
proof -
  have r: "PGROUNDUP 1 = 4096" "PGROUNDDOWN 69632 = 69632" by (simp_all add: PGROUNDUP_def PGROUNDDOWN_def PGSIZE_def)
  have "pages_mapped 4096 69632 (ram (blank_mm 81920))" by (rule blank_mapped) simp_all
  then have "\<exists>s'. allocator_init 1 69632 (blank_mm 81920) = (Inr (), s') \<and> pool_inv 4096 69632 s' (rev (page_range 4096 16))
    \<and> (\<forall>a. ram (blank_mm 81920) a \<noteq> None \<longrightarrow> ram s' a \<noteq> None)"
    using allocator_init_run [of 1 69632 "blank_mm 81920"] by (simp add: r)
  then obtain s0 :: mm where s0: "pool_inv 4096 69632 s0 (rev (page_range 4096 16))"
    "\<forall>a. ram (blank_mm 81920) a \<noteq> None \<longrightarrow> ram s0 a \<noteq> None" by blast
  obtain p free where pf: "rev (page_range 4096 16) = p # free" "length free = 15"
    by (cases "rev (page_range 4096 16)") (auto simp: page_range_def dest: arg_cong [of _ _ length])
  obtain s1 where "create_empty_user_pagetable s0 = (Inr p, s1)" "vm_inv 4096 69632 p s1 free [[] \<mapsto> p]"
    "\<forall>n. entry (ram s1) [[] \<mapsto> p] n = 0" "mm.more s1 = mm.more s0" "\<forall>a. ram s0 a \<noteq> None \<longrightarrow> ram s1 a \<noteq> None"
    by (rule vm_inv_new [OF s0(1) [unfolded pf(1)]])
  moreover have "\<forall>x<81920. ram (blank_mm 81920) x \<noteq> None" by (simp add: blank_mm_def)
  ultimately show ?thesis using s0(2) pf(2) by blast
qed

lemma demo_npages: "npages 8192 8192 = 2" "vpn 8192 = 2"
  by (simp_all add: npages_def vpn_def)

lemma demo_perm: "drop_bit 10 (18 :: u64) = 0" "18 AND PTE_U \<noteq> 0"
  by (simp_all add: PTE_U_def)

lemma mappages_translates_witness:
  "\<exists>(s :: mm) root s' free' d'. mappages root 8192 73728 8192 18 s = (Inr 0, s') \<and> vm_inv 4096 69632 root s' free' d'
    \<and> (\<forall>a<MAXVA. fst (walkaddr root a s') =
        (if 2 \<le> vpn a \<and> vpn a < 2 + 2 then Inr (73728 + of_nat (vpn a - 2) * PGSIZE) else fst (walkaddr root a s)))"
proof -
  obtain s :: mm and root free where demo: "vm_inv 4096 69632 root s free [[] \<mapsto> root]"
    "\<forall>n. entry (ram s) [[] \<mapsto> root] n = 0" "length free = 15"
    using demo_space by blast
  have "\<exists>s' free' d'. mappages root 8192 73728 8192 18 s = (Inr 0, s') \<and> vm_inv 4096 69632 root s' free' d'
    \<and> (\<forall>a<MAXVA. fst (walkaddr root a s') = (if vpn 8192 \<le> vpn a \<and> vpn a < vpn 8192 + npages 8192 8192
         then Inr (73728 + of_nat (vpn a - vpn 8192) * PGSIZE) else fst (walkaddr root a s)))"
    by (rule mappages_translates [OF demo(1)]) (use demo(2,3) in \<open>simp_all add: demo_npages demo_perm\<close>)
  then show ?thesis unfolding demo_npages by blast
qed

text \<open>
  Mapping a range and unmapping it again, without freeing the pages, gives back the translation
  of every address as it was.
\<close>

lemma map_unmap_restores:
  assumes "vm_inv lo hi root s free d" "0 < sz" "unat va + unat sz \<le> 2 ^ 38" "4096 dvd unat va" "4096 dvd unat sz"
    "\<forall>j<npages va sz. entry (ram s) d (vpn va + j) AND PTE_V = 0" "perm AND PTE_U \<noteq> 0" "2 * npages va sz \<le> length free"
  shows "\<exists>s1 s2. mappages root va pa sz perm s = (Inr 0, s1) \<and> uvmunmap root va sz False s1 = (Inr (), s2)
    \<and> (\<forall>a<MAXVA. fst (walkaddr root a s2) = fst (walkaddr root a s))"
proof -
  obtain s1 free1 d1 where s1: "mappages root va pa sz perm s = (Inr 0, s1)" "extends lo hi root s free d s1 free1 d1"
    "entries_set (ram s) d (ram s1) d1 (vpn va) (npages va sz) (\<lambda>i. leaf_pte pa i perm)"
    using mappages_run [OF assms(1-3,6), of pa perm] assms(8) by auto
  have inv1: "vm_inv lo hi root s1 free1 d1" using s1(2) by (simp add: extends_def)
  have small: "vpn va + npages va sz \<le> 2 ^ 26" using range_bounds(4) [OF assms(2,3)] by (simp add: va_pages_def)
  have leaf: "leaf_ok (leaf_pte pa i perm)" for i
  proof -
    have "(PA2PTE (pa + of_nat i * PGSIZE) OR perm OR PTE_V) AND PTE_U \<noteq> 0" by (rule or_and_nonzero [OF assms(7)])
    moreover have "PTE_FLAGS e AND PTE_U = e AND PTE_U" for e
      by (simp add: PTE_FLAGS_def PTE_U_def and.assoc)
    moreover have "PTE_V AND PTE_U = 0" by (simp add: PTE_V_def PTE_U_def)
    ultimately show ?thesis by (auto simp: leaf_ok_def leaf_pte_def) metis
  qed
  have "\<forall>j<npages va sz. leaf_ok (entry (ram s1) d1 (vpn va + j))"
    using s1(3) small leaf by (simp add: entries_set_def)
  then obtain s2 where s2: "uvmunmap root va sz False s1 = (Inr (), s2)" "vm_inv lo hi root s2 free1 d1"
    "entries_set (ram s1) d1 (ram s2) d1 (vpn va) (npages va sz) (\<lambda>_. 0)"
    using uvmunmap_run [OF inv1 assms(2-5), of False] by auto
  have "fst (walkaddr root a s2) = fst (walkaddr root a s)" if a: "a < MAXVA" for a
  proof -
    have n: "vpn a < 2 ^ 27" using vpn_less [OF a] by simp
    show ?thesis
    proof (cases "vpn va \<le> vpn a \<and> vpn a < vpn va + npages va sz")
      case True
      then have "entry (ram s) d (vpn va + (vpn a - vpn va)) AND PTE_V = 0" using assms(6) by (metis add_less_cancel_left le_add_diff_inverse)
      then show ?thesis using True n s2(3) walkaddr_run [OF s2(2), of a] walkaddr_run [OF assms(1), of a] by (simp add: entries_set_def)
    next
      case False
      then have "entry (ram s2) d1 (vpn a) = entry (ram s) d (vpn a)" using n s1(3) s2(3) by (auto simp: entries_set_def)
      then show ?thesis using walkaddr_run [OF s2(2), of a] walkaddr_run [OF assms(1), of a] by simp
    qed
  qed
  then show ?thesis using s1(1) s2(1) by blast
qed

lemma map_unmap_restores_witness:
  "\<exists>(s :: mm) root s1 s2. mappages root 8192 73728 8192 18 s = (Inr 0, s1) \<and> uvmunmap root 8192 8192 False s1 = (Inr (), s2)
    \<and> (\<forall>a<MAXVA. fst (walkaddr root a s2) = fst (walkaddr root a s))"
proof -
  obtain s :: mm and root free where demo: "vm_inv 4096 69632 root s free [[] \<mapsto> root]"
    "\<forall>n. entry (ram s) [[] \<mapsto> root] n = 0" "length free = 15"
    using demo_space by blast
  have "\<exists>s1 s2. mappages root 8192 73728 8192 18 s = (Inr 0, s1) \<and> uvmunmap root 8192 8192 False s1 = (Inr (), s2)
    \<and> (\<forall>a<MAXVA. fst (walkaddr root a s2) = fst (walkaddr root a s))"
    by (rule map_unmap_restores [OF demo(1)]) (use demo(2,3) in \<open>simp_all add: demo_npages demo_perm\<close>)
  then show ?thesis by blast
qed

lemma through_int:
  fixes x :: u64
  assumes "unat x < 2 ^ 31"
  shows "scast (ucast x :: 32 word) = x"
proof -
  have "take_bit 31 x = x" using assms by (simp add: take_bit_eq_mod word_unat_eq_iff unat_mod)
  then have "\<not> bit x k" if "31 \<le> k" for k using that by (metis bit_take_bit_iff not_le)
  then show ?thesis by (intro bit_word_eqI) (auto simp: bit_simps min_def)
qed

text \<open>
  Shrinking a process with \<open>uvmdealloc\<close> panics unless the number of pages to free is itself a
  multiple of the page size: the number of pages is handed to \<open>uvmunmap\<close> as a number of bytes.
\<close>

lemma uvmdealloc_panics:
  assumes "newsz < oldsz" "unat oldsz + 4095 < 2 ^ 43" "n = (unat (PGROUNDUP oldsz) - unat (PGROUNDUP newsz)) div 4096" "\<not> 4096 dvd n"
  shows "uvmdealloc root oldsz newsz s = (Inl (Panic ''uvmunmap: not aligned''), s)"
proof -
  let ?o = "PGROUNDUP oldsz" and ?n = "PGROUNDUP newsz"
  let ?d = "(?o - ?n) div PGSIZE"
  have "0 < n" using assms(4) by (cases n) simp_all
  then have lt: "unat ?n < unat ?o" using assms(3) by (simp add: div_greater_zero_iff)
  have "unat ?d = n"
    using lt assms(3) by (simp add: unat_div unat_sub word_le_nat_alt PGSIZE_def)
  moreover have "unat ?o < 2 ^ 43"
    using unat_PGROUNDUP [of oldsz] assms(2) div_times_less_eq_dividend [of "unat oldsz + 4095" 4096] by simp
  then have "n < 2 ^ 31" using assms(3) by (simp add: less_mult_imp_div_less)
  ultimately have "scast (ucast ?d :: 32 word) = ?d" by (intro through_int) simp
  moreover have "?d mod PGSIZE \<noteq> 0" using mod_PGSIZE_iff [of ?d] \<open>unat ?d = n\<close> assms(4) by simp
  moreover have "?n < ?o" using lt by (simp add: word_less_nat_alt)
  ultimately show ?thesis using assms(1) by (simp add: uvmdealloc_def uvmunmap_def not_le)
qed

lemma uvmdealloc_panics_witness:
  "uvmdealloc 4096 8192 4096 (blank_mm 8192) = (Inl (Panic ''uvmunmap: not aligned''), blank_mm 8192)"
  by (rule uvmdealloc_panics [where n = 1]) (simp_all add: PGROUNDUP_def PGSIZE_def)

end
