(* ===== verification/User_Copy.thy ===== *)
theory User_Copy
  imports Address_Space
begin

text \<open>
  The copies between kernel buffers and user memory of \<open>src/os/mm/vmem.cc\<close>. \<open>uphys\<close> translates a user
  address byte by byte; the copies move exactly the bytes it names, page by page.
\<close>

section \<open>Translation of single bytes\<close>

definition uphys :: "mem \<Rightarrow> ptree \<Rightarrow> nat \<Rightarrow> nat option" where
  "uphys m d A = (let e = entry m d (A div 4096) in
     if A < 2 ^ 38 \<and> e AND PTE_V \<noteq> 0 \<and> e AND PTE_U \<noteq> 0 \<and> PTE2PA e \<noteq> 0
     then Some (unat (PTE2PA e) + A mod 4096) else None)"

lemma PTE2PA_dvd [simp]: "4096 dvd unat (PTE2PA e)"
proof -
  have "PTE2PA e = PTE2PA e AND NOT (mask 12)"
    by (rule bit_word_eqI) (auto simp: PTE2PA_def bit_simps)
  then have "unat (PTE2PA e) = unat (PTE2PA e AND NOT (mask 12))" by (rule arg_cong)
  then have "unat (PTE2PA e) = unat (PTE2PA e) div 4096 * 4096" unfolding unat_and_not_mask by simp
  then show ?thesis by (metis dvd_triv_right)
qed

lemma PGROUNDDOWN_MAXVA: "PGROUNDDOWN va < MAXVA \<longleftrightarrow> va < MAXVA"
proof -
  have "unat MAXVA = 2 ^ 26 * 4096" by (simp add: MAXVA_def)
  moreover have "unat va div 4096 * 4096 < 2 ^ 26 * 4096 \<longleftrightarrow> unat va < 2 ^ 26 * 4096"
    by (simp only: mult_less_cancel2 div_less_iff_less_mult) simp
  ultimately show ?thesis by (simp only: word_less_nat_alt unat_PGROUNDDOWN)
qed

lemma page_split:
  fixes A :: nat
  assumes "i < 4096 - A mod 4096"
  shows "(A + i) div 4096 = A div 4096" "(A + i) mod 4096 = A mod 4096 + i" "A < 2 ^ 38 \<Longrightarrow> A + i < 2 ^ 38"
proof -
  obtain q r where A: "A = 4096 * q + r" "r < 4096" by (metis mult_div_mod_eq mod_less_divisor zero_less_numeral)
  then have r: "r + i < 4096" using assms by simp
  have "(4096 * q + (r + i)) div 4096 = q" "(4096 * q + (r + i)) mod 4096 = r + i" using r by simp_all
  then show "(A + i) div 4096 = A div 4096" "(A + i) mod 4096 = A mod 4096 + i" using A by (simp_all add: add.assoc)
  assume "A < 2 ^ 38"
  then have "q < 2 ^ 26" using A by simp
  then show "A + i < 2 ^ 38" using A r by simp
qed

lemma uphys_page: "uphys m d A = Some x \<Longrightarrow> i < 4096 - A mod 4096 \<Longrightarrow> uphys m d (A + i) = Some (x + i)"
  using page_split(3) [of i A] by (simp add: uphys_def Let_def page_split(1,2) split: if_splits)

lemma walkaddr_uphys:
  assumes "vm_inv lo hi root s free d"
  shows "uphys (ram s) d (unat va) = None \<Longrightarrow> walkaddr root (PGROUNDDOWN va) s = (Inr 0, s)"
    and "uphys (ram s) d (unat va) = Some x \<Longrightarrow>
      \<exists>pa0. walkaddr root (PGROUNDDOWN va) s = (Inr pa0, s) \<and> pa0 \<noteq> 0 \<and> unat (pa0 + (va - PGROUNDDOWN va)) = x"
proof -
  have A: "unat va < 2 ^ 38 \<longleftrightarrow> va < MAXVA" by (simp add: MAXVA_def word_less_nat_alt)
  have w: "walkaddr root (PGROUNDDOWN va) s = (Inr (if va < MAXVA \<and> entry (ram s) d (vpn va) AND PTE_V \<noteq> 0
     \<and> entry (ram s) d (vpn va) AND PTE_U \<noteq> 0 then PTE2PA (entry (ram s) d (vpn va)) else 0), s)"
    using walkaddr_run [OF assms, of "PGROUNDDOWN va"] by (simp add: PGROUNDDOWN_MAXVA)
  show "uphys (ram s) d (unat va) = None \<Longrightarrow> walkaddr root (PGROUNDDOWN va) s = (Inr 0, s)"
    unfolding w uphys_def Let_def A vpn_def by (auto split: if_splits)
  assume x: "uphys (ram s) d (unat va) = Some x"
  let ?pa = "PTE2PA (entry (ram s) d (vpn va))"
  have "unat (?pa + (va - PGROUNDDOWN va)) = unat ?pa + unat va mod 4096"
  proof -
    obtain k where k: "unat ?pa = 4096 * k" using PTE2PA_dvd by (blast elim: dvdE)
    have "unat ?pa < 4096 * 2 ^ 52" using unsigned_less [of ?pa, where ?'a = nat] by simp
    then have "k < 2 ^ 52" using k by simp
    then have "unat ?pa + unat va mod 4096 < 2 ^ 64" using k mod_less_divisor [of 4096 "unat va"] by simp
    then show ?thesis by (subst unat_add_lem [THEN iffD1]) (simp_all add: unat_page_offset)
  qed
  then show "\<exists>pa0. walkaddr root (PGROUNDDOWN va) s = (Inr pa0, s) \<and> pa0 \<noteq> 0 \<and> unat (pa0 + (va - PGROUNDDOWN va)) = x"
    using x unfolding w uphys_def Let_def A vpn_def by (auto split: if_splits)
qed

section \<open>Writing outside the tables\<close>

definition clear_of :: "u64 list \<Rightarrow> ptree \<Rightarrow> nat \<Rightarrow> bool" where
  "clear_of free d x \<longleftrightarrow> (\<forall>b \<in> set free \<union> ran d. x \<notin> frame b)"

lemma vm_inv_frame:
  assumes inv: "vm_inv lo hi root s free d" and same: "\<forall>x. \<not> clear_of free d x \<longrightarrow> m x = ram s x"
    and mp: "\<forall>x. ram s x \<noteq> None \<longrightarrow> m x \<noteq> None"
  shows "vm_inv lo hi root (s\<lparr>ram := m\<rparr>) free d" "entry m d n = entry (ram s) d n"
proof -
  have other: "load64 m (unat a + 8 * j) = load64 (ram s) (unat a + 8 * j)" if "d q = Some a" "j < 512" for q a j
    by (rule load64_frame [OF _ that(2)]) (use same that(1) in \<open>auto simp: clear_of_def ran_def\<close>)
  have "\<forall>x. inner free d x \<longrightarrow> m x = ram s x" using same by (auto simp: inner_def clear_of_def ran_def)
  then show "vm_inv lo hi root (s\<lparr>ram := m\<rparr>) free d" by (rule tree_inv_write [OF inv _ mp])
  show "entry m d n = entry (ram s) d n" using other by (simp add: entry_def split: option.splits)
qed

lemma uphys_cong: "(\<And>n. entry m' d n = entry m d n) \<Longrightarrow> uphys m' d A = uphys m d A"
  by (simp add: uphys_def)

section \<open>One page of a copy\<close>

lemma chunk_facts:
  assumes "0 < len"
  shows "0 < unat (chunk va len)" "unat (chunk va len) \<le> unat len" "unat (chunk va len) \<le> 4096 - unat va mod 4096"
    "unat (len - chunk va len) = unat len - unat (chunk va len)"
    "0 < unat (len - chunk va len) \<Longrightarrow> unat va < 2 ^ 38 \<Longrightarrow> unat (PGROUNDDOWN va + PGSIZE) = unat va + unat (chunk va len)"
proof -
  show "0 < unat (chunk va len)" "unat (chunk va len) \<le> unat len" "unat (chunk va len) \<le> 4096 - unat va mod 4096"
    using assms by (simp_all add: unat_chunk word_less_nat_alt)
  show "unat (len - chunk va len) = unat len - unat (chunk va len)" by (rule unat_minus_chunk)
  assume "0 < unat (len - chunk va len)" "unat va < 2 ^ 38"
  then have "unat (chunk va len) = 4096 - unat va mod 4096" unfolding unat_minus_chunk by (simp add: unat_chunk)
  moreover have "unat (PGROUNDDOWN va + PGSIZE) = unat va div 4096 * 4096 + 4096"
    using \<open>unat va < 2 ^ 38\<close> PGROUNDDOWN_le [of va]
    by (subst unat_add_PGSIZE) (simp_all add: word_le_nat_alt unat_PGROUNDDOWN)
  moreover have "unat va div 4096 * 4096 + unat va mod 4096 = unat va" "unat va mod 4096 < 4096" by simp_all
  ultimately show "unat (PGROUNDDOWN va + PGSIZE) = unat va + unat (chunk va len)" by linarith
qed

text \<open>The user bytes from \<open>A\<close> on are mapped, writable without touching a table or a free page.\<close>

definition user_range :: "mem \<Rightarrow> u64 list \<Rightarrow> ptree \<Rightarrow> nat \<Rightarrow> nat \<Rightarrow> bool" where
  "user_range m free d A n \<longleftrightarrow> (\<forall>i<n. \<exists>x. uphys m d (A + i) = Some x \<and> m x \<noteq> None \<and> clear_of free d x)"

definition user_inj :: "mem \<Rightarrow> ptree \<Rightarrow> nat \<Rightarrow> nat \<Rightarrow> bool" where
  "user_inj m d A n \<longleftrightarrow> (\<forall>i<n. \<forall>j<n. uphys m d (A + i) = uphys m d (A + j) \<longrightarrow> i = j)"

definition apart_from_user :: "mem \<Rightarrow> ptree \<Rightarrow> nat \<Rightarrow> nat \<Rightarrow> nat \<Rightarrow> bool" where
  "apart_from_user m d A n p \<longleftrightarrow> mapped m p n \<and> (\<forall>i<n. \<forall>j<n. uphys m d (A + j) \<noteq> Some (p + i))"

lemma user_range_page:
  assumes "user_range m free d A n" "0 < n" "k \<le> n" "k \<le> 4096 - A mod 4096"
  obtains x where "uphys m d A = Some x" "\<forall>i<k. uphys m d (A + i) = Some (x + i)" "mapped m x k" "\<forall>i<k. clear_of free d (x + i)"
proof -
  obtain x where x: "uphys m d A = Some x" using assms(1,2) unfolding user_range_def by (metis add_0_right)
  have u: "uphys m d (A + i) = Some (x + i)" if "i < k" for i using uphys_page [OF x] that assms(4) by simp
  have "m (x + i) \<noteq> None \<and> clear_of free d (x + i)" if "i < k" for i
    using assms(1,3) u [OF that] that unfolding user_range_def by (metis option.inject order_less_le_trans)
  then show thesis using that [OF x] u by (simp add: mapped_def)
qed

lemma moved_clear:
  assumes "\<forall>i<k. clear_of free d (x + i)"
  shows "\<forall>y. \<not> clear_of free d y \<longrightarrow> moved m x p k y = m y"
  using assms by (auto simp: moved_def) (metis add_diff_inverse_nat add_less_cancel_left not_less)

lemma moved_mapped: "mapped m p k \<Longrightarrow> m y \<noteq> None \<Longrightarrow> moved m x p k y \<noteq> None"
  unfolding moved_def mapped_def by (metis add_diff_inverse_nat add_less_cancel_left not_less)

text \<open>The effect of moving the first page of a user range on what the rest of the copy relies on.\<close>

lemma move_page:
  assumes inv: "vm_inv lo hi root s free d" and cl: "\<forall>i<k. clear_of free d (x + i)" and mp: "mapped (ram s) p k"
  shows "vm_inv lo hi root (s\<lparr>ram := moved (ram s) x p k\<rparr>) free d" "uphys (moved (ram s) x p k) d A = uphys (ram s) d A"
  using vm_inv_frame [OF inv moved_clear [OF cl], of p] moved_mapped [OF mp] uphys_cong by (blast, metis)

lemma copyout_step:
  assumes inv: "vm_inv lo hi root s free d" and len: "0 < len" and u: "user_range (ram s) free d (unat dstva) (unat len)"
    and src: "mapped (ram s) (unat src) (unat len)"
  obtains x where "\<forall>i<unat (chunk dstva len). uphys (ram s) d (unat dstva + i) = Some (x + i)"
    "vm_inv lo hi root (s\<lparr>ram := moved (ram s) x (unat src) (unat (chunk dstva len))\<rparr>) free d"
    "\<forall>A. uphys (moved (ram s) x (unat src) (unat (chunk dstva len))) d A = uphys (ram s) d A"
    "copyout root dstva src len s = copyout root (PGROUNDDOWN dstva + PGSIZE) (src + chunk dstva len) (len - chunk dstva len)
       (s\<lparr>ram := moved (ram s) x (unat src) (unat (chunk dstva len))\<rparr>)"
proof -
  let ?n = "unat (chunk dstva len)"
  note c = chunk_facts [OF len, of dstva]
  have "0 < unat len" using c(1,2) by linarith
  then obtain x where x: "uphys (ram s) d (unat dstva) = Some x" "\<forall>i<?n. uphys (ram s) d (unat dstva + i) = Some (x + i)"
    "mapped (ram s) x ?n" "\<forall>i<?n. clear_of free d (x + i)"
    using user_range_page [OF u _ c(2,3)] by blast
  have mp: "mapped (ram s) (unat src) ?n" using src c(2) by (rule mapped_le)
  obtain pa0 where pa0: "walkaddr root (PGROUNDDOWN dstva) s = (Inr pa0, s)" "pa0 \<noteq> 0" "unat (pa0 + (dstva - PGROUNDDOWN dstva)) = x"
    using walkaddr_uphys(2) [OF inv x(1)] by blast
  have "copyout root dstva src len s = copyout root (PGROUNDDOWN dstva + PGSIZE) (src + chunk dstva len) (len - chunk dstva len)
       (s\<lparr>ram := moved (ram s) x (unat src) ?n\<rparr>)"
    by (subst copyout.simps) (use len pa0 mp x(3) in \<open>simp add: mem_run\<close>)
  then show thesis using that x(2) move_page [OF inv x(4) mp] by blast
qed

section \<open>Whole copies\<close>

text \<open>\<open>m'\<close> is \<open>m\<close> with the kernel bytes from \<open>p\<close> on copied to the user range.\<close>

definition copied_out :: "mem \<Rightarrow> ptree \<Rightarrow> nat \<Rightarrow> nat \<Rightarrow> nat \<Rightarrow> mem \<Rightarrow> bool" where
  "copied_out m d A p n m' \<longleftrightarrow> (\<forall>i<n. \<forall>x. uphys m d (A + i) = Some x \<longrightarrow> m' x = m (p + i))
     \<and> (\<forall>x. (\<forall>i<n. uphys m d (A + i) \<noteq> Some x) \<longrightarrow> m' x = m x)"

lemma copied_out_split:
  assumes k: "k \<le> n" and x: "\<forall>i<k. uphys m d (A + i) = Some (x + i)" and inj: "user_inj m d A n" and ap: "apart_from_user m d A n p"
    and same: "\<And>B. uphys (moved m x p k) d B = uphys m d B"
    and rest: "copied_out (moved m x p k) d (A + k) (p + k) (n - k) m'"
  shows "copied_out m d A p n m'"
proof -
  let ?m = "moved m x p k"
  have kernel: "?m (p + i) = m (p + i)" if "i < n" for i
  proof -
    have "\<not> (x \<le> p + i \<and> p + i < x + k)"
    proof
      assume a: "x \<le> p + i \<and> p + i < x + k"
      define j where "j = p + i - x"
      have "x + j = p + i" "j < k" using a by (simp_all add: j_def, linarith)
      then show False using x ap that k unfolding apart_from_user_def by (metis order_less_le_trans)
    qed
    then show ?thesis by (auto simp: moved_def)
  qed
  have r1: "m' y = ?m (p + k + i)" if "i < n - k" "uphys m d (A + k + i) = Some y" for i y
    using rest that by (simp add: copied_out_def same)
  have r2: "m' y = ?m y" if "\<forall>i<n - k. uphys m d (A + k + i) \<noteq> Some y" for y
    using rest that by (simp add: copied_out_def same)
  have "m' y = m (p + i)" if i: "i < n" "uphys m d (A + i) = Some y" for i y
  proof (cases "i < k")
    case True
    have "uphys m d (A + k + j) \<noteq> Some y" if "j < n - k" for j
    proof
      assume "uphys m d (A + k + j) = Some y"
      then have "uphys m d (A + i) = uphys m d (A + (k + j))" using i(2) by (simp add: add.assoc)
      moreover have "k + j < n" using that by simp
      ultimately have "i = k + j" using inj i(1) unfolding user_inj_def by blast
      then show False using True by simp
    qed
    then have "m' y = ?m y" using r2 by blast
    moreover have "y = x + i" using x True i(2) by simp
    ultimately show ?thesis using True by (simp add: moved_def)
  next
    case False
    then show ?thesis using r1 [of "i - k" y] i kernel [of i] by (simp add: add.assoc)
  qed
  moreover have "m' y = m y" if none: "\<forall>i<n. uphys m d (A + i) \<noteq> Some y" for y
  proof -
    have "uphys m d (A + k + i) \<noteq> Some y" if i: "i < n - k" for i
    proof -
      have "k + i < n" using i by simp
      then show ?thesis using none by (simp add: add.assoc)
    qed
    then have "m' y = ?m y" using r2 by blast
    moreover have "\<not> (x \<le> y \<and> y < x + k)"
    proof
      assume a: "x \<le> y \<and> y < x + k"
      define j where "j = y - x"
      have "y = x + j" "j < k" using a by (simp_all add: j_def, linarith)
      then show False using x none k by (metis order_less_le_trans)
    qed
    ultimately show ?thesis by (auto simp: moved_def)
  qed
  ultimately show ?thesis unfolding copied_out_def by blast
qed

lemma user_range_rest:
  assumes u: "user_range m free d A n" and same: "\<And>B. uphys m' d B = uphys m d B" and mp: "\<And>y. m y \<noteq> None \<Longrightarrow> m' y \<noteq> None"
  shows "user_range m' free d (A + k) (n - k)"
  unfolding user_range_def same
proof (intro allI impI)
  fix i assume "i < n - k"
  then have "k + i < n" by simp
  then obtain x where "uphys m d (A + (k + i)) = Some x" "m x \<noteq> None" "clear_of free d x"
    using u unfolding user_range_def by blast
  then show "\<exists>x. uphys m d (A + k + i) = Some x \<and> m' x \<noteq> None \<and> clear_of free d x" using mp by (metis add.assoc)
qed

lemma user_inj_rest:
  assumes "user_inj m d A n" "\<And>B. uphys m' d B = uphys m d B"
  shows "user_inj m' d (A + k) (n - k)"
  using assms unfolding user_inj_def by (metis add.assoc add.commute add_left_cancel less_diff_conv)

lemma apart_rest:
  assumes ap: "apart_from_user m d A n p" and same: "\<And>B. uphys m' d B = uphys m d B" and mp: "\<And>y. m y \<noteq> None \<Longrightarrow> m' y \<noteq> None"
  shows "apart_from_user m' d (A + k) (n - k) (p + k)"
  unfolding apart_from_user_def same
proof (intro conjI allI impI)
  show "mapped m' (p + k) (n - k)"
    using ap mp unfolding apart_from_user_def mapped_def by (metis add.assoc add.commute less_diff_conv)
  fix i j assume "i < n - k" "j < n - k"
  then have "k + i < n" "k + j < n" by simp_all
  then show "uphys m d (A + k + j) \<noteq> Some (p + k + i)" using ap unfolding apart_from_user_def by (metis add.assoc)
qed

lemma copyout_run:
  assumes "vm_inv lo hi root s free d" "user_range (ram s) free d (unat dstva) (unat len)" "user_inj (ram s) d (unat dstva) (unat len)"
    "apart_from_user (ram s) d (unat dstva) (unat len) (unat src)" "unat src + unat len < 2 ^ 64"
  shows "\<exists>m'. copyout root dstva src len s = (Inr 0, s\<lparr>ram := m'\<rparr>) \<and> copied_out (ram s) d (unat dstva) (unat src) (unat len) m'
    \<and> vm_inv lo hi root (s\<lparr>ram := m'\<rparr>) free d \<and> (\<forall>B. uphys m' d B = uphys (ram s) d B) \<and> (\<forall>y. ram s y \<noteq> None \<longrightarrow> m' y \<noteq> None)"
  using assms
proof (induction "unat len" arbitrary: s dstva src len rule: less_induct)
  case less
  show ?case
  proof (cases "0 < len")
    case False
    then have "copyout root dstva src len s = (Inr 0, s\<lparr>ram := ram s\<rparr>)" by (subst copyout.simps) simp
    moreover have "unat len = 0" using False by (simp add: word_gt_0)
    ultimately show ?thesis using less.prems(1) by (intro exI [of _ "ram s"]) (simp add: copied_out_def)
  next
    case True
    let ?n = "unat (chunk dstva len)" and ?A = "unat dstva"
    note c = chunk_facts [OF True, of dstva]
    have src: "mapped (ram s) (unat src) (unat len)" using less.prems(4) by (simp add: apart_from_user_def)
    obtain x where x: "\<forall>i<?n. uphys (ram s) d (?A + i) = Some (x + i)"
      "vm_inv lo hi root (s\<lparr>ram := moved (ram s) x (unat src) ?n\<rparr>) free d"
      "\<forall>B. uphys (moved (ram s) x (unat src) ?n) d B = uphys (ram s) d B"
      "copyout root dstva src len s = copyout root (PGROUNDDOWN dstva + PGSIZE) (src + chunk dstva len) (len - chunk dstva len)
         (s\<lparr>ram := moved (ram s) x (unat src) ?n\<rparr>)"
      by (rule copyout_step [OF less.prems(1) True less.prems(2) src])
    let ?s = "s\<lparr>ram := moved (ram s) x (unat src) ?n\<rparr>" and ?l = "len - chunk dstva len"
    have mp: "\<And>y. ram s y \<noteq> None \<Longrightarrow> moved (ram s) x (unat src) ?n y \<noteq> None"
      using moved_mapped mapped_le [OF src c(2)] by blast
    have psrc: "unat (src + chunk dstva len) = unat src + ?n"
      using less.prems(5) c(2) by (subst unat_add_lem [THEN iffD1]) simp_all
    have "uphys (ram s) d ?A = Some x" using x(1) c(1) by (metis add_0_right)
    then have "?A < 2 ^ 38" by (simp add: uphys_def Let_def split: if_splits)
    have A': "unat ?l = 0 \<or> unat (PGROUNDDOWN dstva + PGSIZE) = ?A + ?n" using c(5) \<open>?A < 2 ^ 38\<close> by blast
    have ur: "user_range (ram ?s) free d (unat (PGROUNDDOWN dstva + PGSIZE)) (unat ?l)"
      using A' user_range_rest [OF less.prems(2) x(3) [rule_format] mp, of ?n] c(4) by (auto simp: user_range_def)
    have ui: "user_inj (ram ?s) d (unat (PGROUNDDOWN dstva + PGSIZE)) (unat ?l)"
      using A' user_inj_rest [OF less.prems(3) x(3) [rule_format], of ?n] c(4) by (auto simp: user_inj_def)
    have ap: "apart_from_user (ram ?s) d (unat (PGROUNDDOWN dstva + PGSIZE)) (unat ?l) (unat (src + chunk dstva len))"
      using A' apart_rest [OF less.prems(4) x(3) [rule_format] mp, of ?n] c(4) psrc by (auto simp: apart_from_user_def mapped_def)
    have lt: "unat ?l < unat len" "unat (src + chunk dstva len) + unat ?l < 2 ^ 64" using c psrc less.prems(5) by auto
    obtain m' where m': "copyout root (PGROUNDDOWN dstva + PGSIZE) (src + chunk dstva len) ?l ?s = (Inr 0, ?s\<lparr>ram := m'\<rparr>)"
      "copied_out (ram ?s) d (unat (PGROUNDDOWN dstva + PGSIZE)) (unat (src + chunk dstva len)) (unat ?l) m'"
      "vm_inv lo hi root (?s\<lparr>ram := m'\<rparr>) free d" "\<forall>B. uphys m' d B = uphys (ram ?s) d B" "\<forall>y. ram ?s y \<noteq> None \<longrightarrow> m' y \<noteq> None"
      using less.hyps [OF lt(1) x(2) ur ui ap lt(2)] by blast
    have "copied_out (moved (ram s) x (unat src) ?n) d (?A + ?n) (unat src + ?n) (unat len - ?n) m'"
      using m'(2) A' c(4) psrc by (auto simp: copied_out_def)
    then have "copied_out (ram s) d ?A (unat src) (unat len) m'"
      by (rule copied_out_split [OF c(2) x(1) less.prems(3,4) x(3) [rule_format]])
    then show ?thesis using x(3,4) m'(1,3-5) mp by (intro exI [of _ m']) simp
  qed
qed

text \<open>\<open>m'\<close> is \<open>m\<close> with the user bytes from \<open>A\<close> on copied to the kernel buffer \<open>p\<close>.\<close>

definition copied_in :: "mem \<Rightarrow> ptree \<Rightarrow> nat \<Rightarrow> nat \<Rightarrow> nat \<Rightarrow> mem \<Rightarrow> bool" where
  "copied_in m d A p n m' \<longleftrightarrow> (\<forall>i<n. \<forall>x. uphys m d (A + i) = Some x \<longrightarrow> m' (p + i) = m x)
     \<and> (\<forall>x. \<not> (p \<le> x \<and> x < p + n) \<longrightarrow> m' x = m x)"

definition buffer_clear :: "u64 list \<Rightarrow> ptree \<Rightarrow> nat \<Rightarrow> nat \<Rightarrow> bool" where
  "buffer_clear free d p n \<longleftrightarrow> (\<forall>i<n. clear_of free d (p + i))"

lemma buffer_clear_rest: "buffer_clear free d p n \<Longrightarrow> buffer_clear free d (p + k) (n - k)"
  unfolding buffer_clear_def by (metis add.assoc add.commute less_diff_conv)

lemma copied_in_split:
  assumes k: "k \<le> n" and x: "\<forall>i<k. uphys m d (A + i) = Some (x + i)" and ap: "apart_from_user m d A n p"
    and same: "\<And>B. uphys (moved m p x k) d B = uphys m d B"
    and rest: "copied_in (moved m p x k) d (A + k) (p + k) (n - k) m'"
  shows "copied_in m d A p n m'"
proof -
  let ?m = "moved m p x k"
  have user: "?m y = m y" if y: "i < n" "uphys m d (A + i) = Some y" for i y
  proof -
    have "\<not> (p \<le> y \<and> y < p + k)"
    proof
      assume a: "p \<le> y \<and> y < p + k"
      define j where "j = y - p"
      have "y = p + j" "j < k" using a by (simp_all add: j_def, linarith)
      then show False using ap y k unfolding apart_from_user_def by (metis order_less_le_trans)
    qed
    then show ?thesis by (auto simp: moved_def)
  qed
  have "m' (p + i) = m y" if i: "i < n" "uphys m d (A + i) = Some y" for i y
  proof (cases "i < k")
    case True
    have "m' (p + i) = ?m (p + i)" using rest True by (simp add: copied_in_def)
    moreover have "y = x + i" using x True i(2) by simp
    ultimately show ?thesis using True by (simp add: moved_def)
  next
    case False
    define j where "j = i - k"
    have j: "j < n - k" "A + k + j = A + i" "p + k + j = p + i" using False i(1) k by (auto simp: j_def)
    then have "m' (p + i) = ?m y" using rest i(2) unfolding copied_in_def same by metis
    then show ?thesis using user i by simp
  qed
  moreover have "m' y = m y" if "\<not> (p \<le> y \<and> y < p + n)" for y
    using rest that k by (auto simp: copied_in_def moved_def)
  ultimately show ?thesis unfolding copied_in_def by blast
qed

lemma copyin_step:
  assumes inv: "vm_inv lo hi root s free d" and len: "0 < len" and u: "user_range (ram s) free d (unat srcva) n" "unat (chunk srcva len) \<le> n"
    and dst: "mapped (ram s) (unat dst) (unat len)" "buffer_clear free d (unat dst) (unat len)"
  obtains x where "\<forall>i<unat (chunk srcva len). uphys (ram s) d (unat srcva + i) = Some (x + i)"
    "mapped (ram s) x (unat (chunk srcva len))"
    "vm_inv lo hi root (s\<lparr>ram := moved (ram s) (unat dst) x (unat (chunk srcva len))\<rparr>) free d"
    "\<forall>A. uphys (moved (ram s) (unat dst) x (unat (chunk srcva len))) d A = uphys (ram s) d A"
    "copyin root dst srcva len s = copyin root (dst + chunk srcva len) (PGROUNDDOWN srcva + PGSIZE) (len - chunk srcva len)
       (s\<lparr>ram := moved (ram s) (unat dst) x (unat (chunk srcva len))\<rparr>)"
proof -
  let ?n = "unat (chunk srcva len)"
  note c = chunk_facts [OF len, of srcva]
  have "0 < n" using c(1) u(2) by linarith
  then obtain x where x: "uphys (ram s) d (unat srcva) = Some x" "\<forall>i<?n. uphys (ram s) d (unat srcva + i) = Some (x + i)"
    "mapped (ram s) x ?n" "\<forall>i<?n. clear_of free d (x + i)"
    by (rule user_range_page [OF u(1) _ u(2) c(3)])
  have mp: "mapped (ram s) (unat dst) ?n" using dst(1) c(2) by (rule mapped_le)
  have cl: "\<forall>i<?n. clear_of free d (unat dst + i)" using dst(2) c(2) by (simp add: buffer_clear_def)
  obtain pa0 where pa0: "walkaddr root (PGROUNDDOWN srcva) s = (Inr pa0, s)" "pa0 \<noteq> 0" "unat (pa0 + (srcva - PGROUNDDOWN srcva)) = x"
    using walkaddr_uphys(2) [OF inv x(1)] by blast
  have "copyin root dst srcva len s = copyin root (dst + chunk srcva len) (PGROUNDDOWN srcva + PGSIZE) (len - chunk srcva len)
       (s\<lparr>ram := moved (ram s) (unat dst) x ?n\<rparr>)"
    by (subst copyin.simps) (use len pa0 mp x(3) in \<open>simp add: mem_run\<close>)
  then show thesis using that [OF x(2,3)] move_page [OF inv cl x(3)] by simp
qed

lemma copyin_run:
  assumes "vm_inv lo hi root s free d" "user_range (ram s) free d (unat srcva) (unat len)" "apart_from_user (ram s) d (unat srcva) (unat len) (unat dst)"
    "buffer_clear free d (unat dst) (unat len)" "unat dst + unat len < 2 ^ 64"
  shows "\<exists>m'. copyin root dst srcva len s = (Inr 0, s\<lparr>ram := m'\<rparr>) \<and> copied_in (ram s) d (unat srcva) (unat dst) (unat len) m'
    \<and> vm_inv lo hi root (s\<lparr>ram := m'\<rparr>) free d \<and> (\<forall>B. uphys m' d B = uphys (ram s) d B)"
  using assms
proof (induction "unat len" arbitrary: s srcva dst len rule: less_induct)
  case less
  show ?case
  proof (cases "0 < len")
    case False
    then have "copyin root dst srcva len s = (Inr 0, s\<lparr>ram := ram s\<rparr>)" by (subst copyin.simps) simp
    moreover have "unat len = 0" using False by (simp add: word_gt_0)
    ultimately show ?thesis using less.prems(1) by (intro exI [of _ "ram s"]) (simp add: copied_in_def)
  next
    case True
    let ?n = "unat (chunk srcva len)" and ?A = "unat srcva"
    note c = chunk_facts [OF True, of srcva]
    have dst: "mapped (ram s) (unat dst) (unat len)" using less.prems(3) by (simp add: apart_from_user_def)
    obtain x where x: "\<forall>i<?n. uphys (ram s) d (?A + i) = Some (x + i)" "mapped (ram s) x ?n"
      "vm_inv lo hi root (s\<lparr>ram := moved (ram s) (unat dst) x ?n\<rparr>) free d"
      "\<forall>B. uphys (moved (ram s) (unat dst) x ?n) d B = uphys (ram s) d B"
      "copyin root dst srcva len s = copyin root (dst + chunk srcva len) (PGROUNDDOWN srcva + PGSIZE) (len - chunk srcva len)
         (s\<lparr>ram := moved (ram s) (unat dst) x ?n\<rparr>)"
      by (rule copyin_step [OF less.prems(1) True less.prems(2) c(2) dst less.prems(4)])
    let ?s = "s\<lparr>ram := moved (ram s) (unat dst) x ?n\<rparr>" and ?l = "len - chunk srcva len"
    have mp: "\<And>y. ram s y \<noteq> None \<Longrightarrow> moved (ram s) (unat dst) x ?n y \<noteq> None" using moved_mapped [OF x(2)] by blast
    have pd: "unat (dst + chunk srcva len) = unat dst + ?n"
      using less.prems(5) c(2) by (subst unat_add_lem [THEN iffD1]) simp_all
    have "uphys (ram s) d ?A = Some x" using x(1) c(1) by (metis add_0_right)
    then have "?A < 2 ^ 38" by (simp add: uphys_def Let_def split: if_splits)
    have A': "unat ?l = 0 \<or> unat (PGROUNDDOWN srcva + PGSIZE) = ?A + ?n" using c(5) \<open>?A < 2 ^ 38\<close> by blast
    have ur: "user_range (ram ?s) free d (unat (PGROUNDDOWN srcva + PGSIZE)) (unat ?l)"
      using A' user_range_rest [OF less.prems(2) x(4) [rule_format] mp, of ?n] c(4) by (auto simp: user_range_def)
    have ap: "apart_from_user (ram ?s) d (unat (PGROUNDDOWN srcva + PGSIZE)) (unat ?l) (unat (dst + chunk srcva len))"
      using A' apart_rest [OF less.prems(3) x(4) [rule_format] mp, of ?n] c(4) pd by (auto simp: apart_from_user_def mapped_def)
    have bc: "buffer_clear free d (unat (dst + chunk srcva len)) (unat ?l)"
      using buffer_clear_rest [OF less.prems(4), of ?n] c(4) pd by simp
    have lt: "unat ?l < unat len" "unat (dst + chunk srcva len) + unat ?l < 2 ^ 64" using c pd less.prems(5) by auto
    obtain m' where m': "copyin root (dst + chunk srcva len) (PGROUNDDOWN srcva + PGSIZE) ?l ?s = (Inr 0, ?s\<lparr>ram := m'\<rparr>)"
      "copied_in (ram ?s) d (unat (PGROUNDDOWN srcva + PGSIZE)) (unat (dst + chunk srcva len)) (unat ?l) m'"
      "vm_inv lo hi root (?s\<lparr>ram := m'\<rparr>) free d" "\<forall>B. uphys m' d B = uphys (ram ?s) d B"
      using less.hyps [OF lt(1) x(3) ur ap bc lt(2)] by blast
    have "copied_in (moved (ram s) (unat dst) x ?n) d (?A + ?n) (unat dst + ?n) (unat len - ?n) m'"
      using m'(2) A' c(4) pd by (auto simp: copied_in_def)
    then have "copied_in (ram s) d ?A (unat dst) (unat len) m'"
      by (rule copied_in_split [OF c(2) x(1) less.prems(3) x(4) [rule_format]])
    then show ?thesis using x(4,5) m'(1,3,4) by (intro exI [of _ m']) simp
  qed
qed

section \<open>Properties\<close>

lemma apart_after:
  assumes "apart_from_user m d A n p" "\<forall>B. uphys m' d B = uphys m d B" "\<forall>y. m y \<noteq> None \<longrightarrow> m' y \<noteq> None"
  shows "apart_from_user m' d A n p"
  using apart_rest [OF assms(1) assms(2) [rule_format] assms(3) [rule_format], of 0] by simp

lemma user_range_after:
  assumes "user_range m free d A n" "\<forall>B. uphys m' d B = uphys m d B" "\<forall>y. m y \<noteq> None \<longrightarrow> m' y \<noteq> None"
  shows "user_range m' free d A n"
  using user_range_rest [OF assms(1) assms(2) [rule_format] assms(3) [rule_format], of 0] by simp

text \<open>
  C37. A buffer copied to user memory with \<open>copyout\<close> and back with \<open>copyin\<close> arrives unchanged, whatever
  page boundaries the range crosses, provided the pages of the range are mapped for the user to
  distinct frames that hold neither page tables nor free pages.
\<close>

theorem copyout_copyin_roundtrip:
  assumes "vm_inv lo hi root s free d" "user_range (ram s) free d (unat va) (unat len)" "user_inj (ram s) d (unat va) (unat len)"
    "apart_from_user (ram s) d (unat va) (unat len) (unat src)" "unat src + unat len < 2 ^ 64"
    "apart_from_user (ram s) d (unat va) (unat len) (unat dst)" "unat dst + unat len < 2 ^ 64" "buffer_clear free d (unat dst) (unat len)"
  shows "\<exists>s1 s2. copyout root va src len s = (Inr 0, s1) \<and> copyin root dst va len s1 = (Inr 0, s2)
    \<and> (\<forall>i<unat len. ram s2 (unat dst + i) = ram s (unat src + i))"
proof -
  obtain m1 where m1: "copyout root va src len s = (Inr 0, s\<lparr>ram := m1\<rparr>)" "copied_out (ram s) d (unat va) (unat src) (unat len) m1"
    "vm_inv lo hi root (s\<lparr>ram := m1\<rparr>) free d" "\<forall>B. uphys m1 d B = uphys (ram s) d B" "\<forall>y. ram s y \<noteq> None \<longrightarrow> m1 y \<noteq> None"
    using copyout_run [OF assms(1-5)] by blast
  let ?s = "s\<lparr>ram := m1\<rparr>"
  have ur: "user_range (ram ?s) free d (unat va) (unat len)" using user_range_after [OF assms(2) m1(4,5)] by simp
  have ap: "apart_from_user (ram ?s) d (unat va) (unat len) (unat dst)" using apart_after [OF assms(6) m1(4,5)] by simp
  obtain m2 where m2: "copyin root dst va len ?s = (Inr 0, ?s\<lparr>ram := m2\<rparr>)" "copied_in (ram ?s) d (unat va) (unat dst) (unat len) m2"
    using copyin_run [OF m1(3) ur ap assms(8,7)] by blast
  have "m2 (unat dst + i) = ram s (unat src + i)" if i: "i < unat len" for i
  proof -
    obtain x where x: "uphys (ram s) d (unat va + i) = Some x" using assms(2) i unfolding user_range_def by blast
    then have "m2 (unat dst + i) = m1 x" using m2(2) m1(4) i unfolding copied_in_def by simp
    then show ?thesis using m1(2) x i unfolding copied_out_def by simp
  qed
  then show ?thesis using m1(1) m2(1) by (intro exI [of _ ?s] exI [of _ "?s\<lparr>ram := m2\<rparr>"]) simp
qed

lemma demo_user:
  "\<exists>(s :: mm) root free d. vm_inv 4096 69632 root s free d \<and> (\<forall>x. 69632 \<le> x \<and> x < 81920 \<longrightarrow> ram s x \<noteq> None \<and> clear_of free d x)
    \<and> (\<forall>A. 8192 \<le> A \<and> A < 12288 \<longrightarrow> uphys (ram s) d A = Some (69632 + (A - 8192)))"
proof -
  obtain s :: mm and root free where demo: "vm_inv 4096 69632 root s free [[] \<mapsto> root]"
    "\<forall>n. entry (ram s) [[] \<mapsto> root] n = 0" "length free = 15" "\<forall>x<81920. ram s x \<noteq> None"
    using demo_space by blast
  have np: "npages 8192 4096 = 1" "vpn 8192 = 2" by (simp_all add: npages_def vpn_def)
  obtain s' free' d' where s': "extends 4096 69632 root s free [[] \<mapsto> root] s' free' d'"
    "entries_set (ram s) [[] \<mapsto> root] (ram s') d' 2 1 (\<lambda>i. leaf_pte 69632 i 18)"
    using mappages_run [OF demo(1), of 4096 8192 69632 18] demo(2,3) by (auto simp: np)
  have inv': "vm_inv 4096 69632 root s' free' d'" using s'(1) by (simp add: extends_def)
  have below: "x \<notin> frame b" if "page_in 4096 69632 b" "69632 \<le> x" for b x
  proof -
    have "4096 dvd unat b" using that(1) by (simp add: page_in_def)
    then obtain k where k: "unat b = 4096 * k" by (blast elim: dvdE)
    moreover have "unat b < 69632" using that(1) by (simp add: page_in_def word_less_nat_alt)
    ultimately have "k < 17" by simp
    then show ?thesis using that(2) k by (simp add: frame_def)
  qed
  have "page_in 4096 69632 b" if "b \<in> set free' \<union> ran d'" for b
    using that vm_invD(1,4) [OF inv'] by (auto simp: pool_inv_def ran_def)
  then have cl: "clear_of free' d' x" if "69632 \<le> x" for x using below that by (auto simp: clear_of_def)
  have keep: "ram s' x = ram s x" if "69632 \<le> x" for x using s'(1) cl [OF that] by (auto simp: extends_def clear_of_def)
  have "entry (ram s') d' 2 = leaf_pte 69632 0 18" using s'(2) by (simp add: entries_set_def)
  then have "uphys (ram s') d' A = Some (69632 + (A - 8192))" if "8192 \<le> A" "A < 12288" for A
  proof -
    have "A div 4096 = 2" "A mod 4096 = A - 8192" using that by (auto simp: div_nat_eqI mod_nat_eqI)
    then show ?thesis using that \<open>entry (ram s') d' 2 = leaf_pte 69632 0 18\<close> leaf_pte_facts [of 69632 18 0] demo_perm
      by (simp add: uphys_def)
  qed
  then show ?thesis using inv' cl keep demo(4) by (intro exI [of _ s'] exI [of _ root] exI [of _ free'] exI [of _ d']) auto
qed

lemma copyout_copyin_roundtrip_witness:
  "\<exists>(s :: mm) root s1 s2. copyout root 8200 73728 100 s = (Inr 0, s1) \<and> copyin root 77824 8200 100 s1 = (Inr 0, s2)
    \<and> (\<forall>i<100. ram s2 (77824 + i) = ram s (73728 + i))"
proof -
  obtain s :: mm and root free d where demo: "vm_inv 4096 69632 root s free d"
    "\<forall>x. 69632 \<le> x \<and> x < 81920 \<longrightarrow> ram s x \<noteq> None \<and> clear_of free d x"
    "\<forall>A. 8192 \<le> A \<and> A < 12288 \<longrightarrow> uphys (ram s) d A = Some (69632 + (A - 8192))"
    using demo_user by blast
  have u: "uphys (ram s) d (8200 + i) = Some (69640 + i)" if "i < 100" for i using demo(3) that by simp
  have "user_range (ram s) free d 8200 100" using demo(2) by (auto simp: user_range_def u)
  moreover have "user_inj (ram s) d 8200 100" by (auto simp: user_inj_def u)
  moreover have "apart_from_user (ram s) d 8200 100 73728" "apart_from_user (ram s) d 8200 100 77824"
    using demo(2) by (auto simp: apart_from_user_def mapped_def u)
  moreover have "buffer_clear free d 77824 100" using demo(2) by (auto simp: buffer_clear_def)
  ultimately have "\<exists>s1 s2. copyout root 8200 73728 100 s = (Inr 0, s1) \<and> copyin root 77824 8200 100 s1 = (Inr 0, s2)
    \<and> (\<forall>i<unat (100 :: u64). ram s2 (unat (77824 :: u64) + i) = ram s (unat (73728 :: u64) + i))"
    by (intro copyout_copyin_roundtrip [OF demo(1)]) simp_all
  then show ?thesis by simp blast
qed

end
