(* ===== verification/Heap_Alloc.thy ===== *)
theory Heap_Alloc
  imports Page_Table
begin

text \<open>
  The kernel heap of \<open>src/os/mm/allocator.h\<close> and \<open>src/os/mm/allocator.cc\<close>: blocks of one page cut into
  slots of equal size, one allocator per slot size, the allocator for large objects, and the
  operators \<open>new\<close> and \<open>delete\<close> on top of them. A block is a typed object at its page address (its
  bytes in \<open>ram\<close> are not used while it is live): a page that was given back holds no block, so an
  access through a stale pointer is \<open>Undefined\<close>. Of a slot the model keeps its first four bytes,
  which link the free slots. The third-party allocator that \<open>use_ptmalloc\<close> selects is a pair of arguments.
\<close>

section \<open>Blocks\<close>

record heap_block =
  b_size :: u16
  b_used :: u16
  next_free_index :: u32
  next_block :: u64
  next_free_block :: u64
  b_data :: "u32 list"

text \<open>The header is aligned to, and so padded to a multiple of, the slot size.\<close>

definition info_size :: "nat \<Rightarrow> nat" where
  "info_size sz = (24 + sz - 1) div sz * sz"

definition capacity :: "nat \<Rightarrow> nat" where
  "capacity sz = (4096 - info_size sz) div sz"

definition heap_block_init :: "nat \<Rightarrow> heap_block" where
  "heap_block_init sz = \<lparr>b_size = of_nat sz, b_used = 0, next_free_index = 0, next_block = 0, next_free_block = 0,
     b_data = map (\<lambda>i. of_nat (i + 1)) [0..<capacity sz - 1] @ [- 1]\<rparr>"

definition block_full :: "nat \<Rightarrow> heap_block \<Rightarrow> bool" where
  "block_full sz b \<longleftrightarrow> unat (b_used b) = capacity sz"

definition block_empty :: "heap_block \<Rightarrow> bool" where
  "block_empty b \<longleftrightarrow> b_used b = 0"

text \<open>The result is the index of the slot, \<open>None\<close> for the null pointer.\<close>

definition block_alloc :: "nat \<Rightarrow> heap_block \<Rightarrow> (u32 option \<times> heap_block) option" where
  "block_alloc sz b = (if block_full sz b then Some (None, b)
     else (case arr_get (b_data b) (unat (next_free_index b)) of
         None \<Rightarrow> None
       | Some nxt \<Rightarrow> Some (Some (next_free_index b), b\<lparr>b_used := b_used b + 1, next_free_index := nxt\<rparr>)))"

text \<open>\<open>off\<close> is the distance of the pointer from the first slot; a pointer into a slot is not valid.\<close>

definition block_free :: "nat \<Rightarrow> u64 \<Rightarrow> heap_block \<Rightarrow> kerror + heap_block" where
  "block_free sz off b = (let index = ucast (off div of_nat sz) :: u32 in
     if capacity sz \<le> unat index then Inl (Panic ''free'')
     else if off mod of_nat sz \<noteq> 0 then Inl Undefined
     else (case arr_set (b_data b) (unat index) (next_free_index b) of
         None \<Rightarrow> Inl Undefined
       | Some xs \<Rightarrow> Inr (b\<lparr>b_used := b_used b - 1, next_free_index := index, b_data := xs\<rparr>)))"

section \<open>The allocator of one slot size\<close>

record heap_allocator =
  head_block :: u64
  free_block :: u64
  h_allocated :: u64
  h_used :: u64

text \<open>The state: memory, the live blocks, the eight allocators by slot size, the large allocator.\<close>

record heap_mm = mm +
  blocks :: "u64 \<Rightarrow> heap_block option"
  heaps :: "nat \<Rightarrow> heap_allocator"
  kernel_pagetable :: u64
  vmem_top :: u64

definition get_block :: "u64 \<Rightarrow> ('x heap_mm_scheme, heap_block) kmonad" where
  "get_block p = kbind (kget blocks) (\<lambda>bs.
    kopt (bs p))"

definition set_block :: "u64 \<Rightarrow> heap_block \<Rightarrow> ('x heap_mm_scheme, unit) kmonad" where
  "set_block p b = kmod (\<lambda>s. s\<lparr>blocks := (blocks s)(p \<mapsto> b)\<rparr>)"

definition mod_heap :: "nat \<Rightarrow> (heap_allocator \<Rightarrow> heap_allocator) \<Rightarrow> ('x heap_mm_scheme, unit) kmonad" where
  "mod_heap sz f = kmod (\<lambda>s. s\<lparr>heaps := (heaps s)(sz := f (heaps s sz))\<rparr>)"

definition slot_addr :: "nat \<Rightarrow> u64 \<Rightarrow> u32 \<Rightarrow> u64" where
  "slot_addr sz p i = p + of_nat (info_size sz) + ucast i * of_nat sz"

definition heap_alloc :: "nat \<Rightarrow> ('x heap_mm_scheme, u64) kmonad" where
  "heap_alloc sz = kbind (kget (\<lambda>s. heaps s sz)) (\<lambda>h.
    kbind (if free_block h = 0 then kbind alloc_page (\<lambda>p.
      kseq (mod_heap sz (\<lambda>h. h\<lparr>free_block := p\<rparr>)) (
      if p = 0 then kret False else kseq (mod_heap sz (\<lambda>h. h\<lparr>h_allocated := h_allocated h + PGSIZE\<rparr>)) (
        kseq (set_block p ((heap_block_init sz)\<lparr>next_block := head_block h\<rparr>)) (
        kseq (mod_heap sz (\<lambda>h. h\<lparr>head_block := p\<rparr>)) (
        kret True))))) else kret True) (\<lambda>got.
    if \<not> got then kret 0 else kbind (kget (\<lambda>s. free_block (heaps s sz))) (\<lambda>p.
      kbind (get_block p) (\<lambda>b.
      kbind (kopt (block_alloc sz b)) (\<lambda>(r, b').
      kseq (set_block p b') (
      kseq (if block_full sz b' then mod_heap sz (\<lambda>h. h\<lparr>free_block := next_free_block b'\<rparr>) else kret ()) (
      kseq (mod_heap sz (\<lambda>h. h\<lparr>h_used := h_used h + of_nat sz\<rparr>)) (
      kret (case r of None \<Rightarrow> 0 | Some i \<Rightarrow> slot_addr sz p i)))))))))"

definition heap_free :: "nat \<Rightarrow> u64 \<Rightarrow> ('x heap_mm_scheme, unit) kmonad" where
  "heap_free sz ptr = (let p = ptr AND NOT (PGSIZE - 1) in
    kbind (get_block p) (\<lambda>b.
    kbind (case block_free sz (ptr - (p + of_nat (info_size sz))) b of Inl e \<Rightarrow> kthrow e | Inr b' \<Rightarrow> kret b') (\<lambda>b'.
    kbind (kget (\<lambda>s. heaps s sz)) (\<lambda>h.
    kseq (if block_full sz b then kseq (set_block p (b'\<lparr>next_free_block := free_block h\<rparr>)) (
      mod_heap sz (\<lambda>h. h\<lparr>free_block := p\<rparr>)) else set_block p b') (
    mod_heap sz (\<lambda>h. h\<lparr>h_used := h_used h - of_nat sz\<rparr>))))))"

text \<open>The walk over the blocks: \<open>prev\<close> is the last block kept, \<open>0\<close> at first; fuel bounds its steps.\<close>

primrec truncate_loop :: "nat \<Rightarrow> nat \<Rightarrow> u64 \<Rightarrow> u64 \<Rightarrow> ('x heap_mm_scheme, unit) kmonad" where
  "truncate_loop 0 sz block prev = (if block = 0 then kret () else kthrow Out_Of_Fuel)"
| "truncate_loop (Suc fuel) sz block prev = (if block = 0 then kret () else kbind (get_block block) (\<lambda>b.
  if block_empty b then kseq (if prev \<noteq> 0 then kbind (get_block prev) (\<lambda>pb.
    set_block prev (pb\<lparr>next_block := next_block b\<rparr>)) else mod_heap sz (\<lambda>h. h\<lparr>head_block := next_block b\<rparr>)) (
    kseq (kmod (\<lambda>s. s\<lparr>blocks := (blocks s)(block := None)\<rparr>)) (
    kseq (free_page block) (
    kseq (mod_heap sz (\<lambda>h. h\<lparr>h_allocated := h_allocated h - PGSIZE\<rparr>)) (
    truncate_loop fuel sz (next_block b) prev)))) else truncate_loop fuel sz (next_block b) block))"

definition page_fuel :: nat where
  "page_fuel = 2 ^ 52"

definition heap_truncate :: "nat \<Rightarrow> ('x heap_mm_scheme, unit) kmonad" where
  "heap_truncate sz = kbind (kget (\<lambda>s. heaps s sz)) (\<lambda>h.
    truncate_loop page_fuel sz (head_block h) 0)"

section \<open>Large objects\<close>

definition VMEM_START :: u64 where "VMEM_START = 0x100000000"
definition MMAP_START :: u64 where "MMAP_START = 0x2000000000"

text \<open>The kernel accesses large objects through its page table.\<close>

definition kernel_phys :: "u64 \<Rightarrow> ('x heap_mm_scheme, u64) kmonad" where
  "kernel_phys va = kbind (kget kernel_pagetable) (\<lambda>kpt.
    kbind (walk kpt va False) (\<lambda>pte.
    kbind (if pte = 0 then kthrow Undefined else mem_load64 pte) (\<lambda>e.
    if e AND PTE_V = 0 then kthrow Undefined else kret (PTE2PA e OR (va AND 0xFFF)))))"

primrec large_map :: "nat \<Rightarrow> u64 \<Rightarrow> u64 \<Rightarrow> ('x heap_mm_scheme, u64 option) kmonad" where
  "large_map 0 kpt vaddr = kret None"
| "large_map (Suc n) kpt vaddr = kbind alloc_page (\<lambda>page.
  if page = 0 then kret (Some vaddr) else kseq (kvmmap kpt vaddr page PGSIZE (PTE_W OR PTE_R OR PTE_X)) (
    large_map n kpt (vaddr + PGSIZE)))"

text \<open>\<open>large_map\<close> returns the address at which it ran out of pages; \<open>size\<close> is an \<open>int\<close> in the source.\<close>

definition large_alloc :: "32 word \<Rightarrow> ('x heap_mm_scheme, u64) kmonad" where
  "large_alloc sz = kbind (kget kernel_pagetable) (\<lambda>kpt.
    kbind (kget vmem_top) (\<lambda>vaddr_start.
    let page_count = ucast ((scast sz + 16 + PGSIZE - 1) div PGSIZE) :: 32 word in
    kbind (large_map (nat (sint page_count)) kpt vaddr_start) (\<lambda>stopped.
    case stopped of
      None \<Rightarrow> kseq (kmod (\<lambda>s. s\<lparr>vmem_top := vmem_top s + scast (page_count * 4096)\<rparr>)) (
        kbind (kernel_phys vaddr_start) (\<lambda>pa.
        kseq (mem_store64 pa (scast page_count)) (
        kbind (kernel_phys (vaddr_start + 8)) (\<lambda>pa'.
        kseq (mem_store64 pa' (scast sz)) (
        kret (vaddr_start + 16))))))
    | Some vaddr \<Rightarrow> kseq (if vaddr_start < vaddr then kvmunmap kpt vaddr_start (vaddr - vaddr_start) True else kret ()) (
      kret 0))))"

definition large_free :: "u64 \<Rightarrow> ('x heap_mm_scheme, unit) kmonad" where
  "large_free ptr = (let info = ptr - 16 in
    kseq (kassert (info AND (PGSIZE - 1) = 0) ''large_mem_allocator::free: info is not page-aligned'') (
    kseq (kassert (VMEM_START \<le> info) ''large_mem_allocator::free: info is not in kernel virtual map section'') (
    kbind (kget kernel_pagetable) (\<lambda>kpt.
    kbind (kernel_phys info) (\<lambda>pa.
    kbind (mem_load64 pa) (\<lambda>page_count.
    kvmunmap kpt info (page_count * PGSIZE) True))))))"

section \<open>Choosing the slot size\<close>

definition tab64 :: "nat list" where
  "tab64 = [
    63,  0, 58,  1, 59, 47, 53,  2,
    60, 39, 48, 27, 54, 33, 42,  3,
    61, 51, 37, 40, 49, 18, 28, 20,
    55, 30, 34, 11, 43, 14, 22,  4,
    62, 57, 46, 52, 38, 26, 32, 41,
    50, 36, 17, 19, 29, 10, 13, 21,
    56, 45, 25, 31, 35, 16,  9, 12,
    44, 24, 15,  8, 23,  7,  6,  5]"

definition spread :: "nat \<Rightarrow> u64 \<Rightarrow> u64" where
  "spread k v = v OR drop_bit k v"

definition log2_64 :: "u64 \<Rightarrow> nat" where
  "log2_64 value = (let v = spread 32 (spread 16 (spread 8 (spread 4 (spread 2 (spread 1 value))))) in
     tab64 ! unat (drop_bit 58 ((v - drop_bit 1 v) * 0x07EDD5E59A4E28C2)))"

definition alloc_class :: "nat \<Rightarrow> nat option" where
  "alloc_class l = (if l \<le> 2 then Some 8 else if l = 3 then Some 16 else if l = 4 then Some 32 else if l = 5 then Some 64
     else if l = 6 then Some 128 else if l = 7 then Some 256 else if l = 8 then Some 512 else if l = 9 then Some 1024 else None)"

definition alloc_by_size :: "u64 \<Rightarrow> ('x heap_mm_scheme, u64) kmonad" where
  "alloc_by_size sz =
     (if 1024 < sz then large_alloc (ucast sz)
      else if sz = 1 then heap_alloc 8
      else (case alloc_class (log2_64 (sz - 1)) of
          Some c \<Rightarrow> heap_alloc c
        | None \<Rightarrow> kthrow (Panic ''log2_64(size-1)'')))"

definition default_alloc :: "u64 \<Rightarrow> ('x heap_mm_scheme, u64) kmonad" where
  "default_alloc sz = kbind (alloc_by_size sz) (\<lambda>ptr.
    if ptr \<noteq> 0 then kret ptr else kseq (heap_truncate 8) (
      kseq (heap_truncate 16) (
      kseq (heap_truncate 32) (
      kseq (heap_truncate 64) (
      kseq (heap_truncate 128) (
      kseq (heap_truncate 256) (
      kseq (heap_truncate 512) (
      kseq (heap_truncate 1024) (
      alloc_by_size sz)))))))))"

definition operator_new :: "bool \<Rightarrow> (u64 \<Rightarrow> ('x heap_mm_scheme, u64) kmonad) \<Rightarrow> u64 \<Rightarrow> ('x heap_mm_scheme, u64) kmonad" where
  "operator_new use_ptmalloc ptmalloc_malloc sz = (if use_ptmalloc then ptmalloc_malloc sz else default_alloc sz)"

text \<open>The slot size is read back from the header of the block; only the eight sizes are accepted.\<close>

definition delete_class :: "u16 \<Rightarrow> nat option" where
  "delete_class sz = (let q = unat (sz div 8) in
     if q = 1 then Some 8 else if q = 2 then Some 16 else if q = 4 then Some 32 else if q = 8 then Some 64
     else if q = 16 then Some 128 else if q = 32 then Some 256 else if q = 64 then Some 512 else if q = 128 then Some 1024 else None)"

definition default_delete :: "u64 \<Rightarrow> ('x heap_mm_scheme, unit) kmonad" where
  "default_delete ptr = (if VMEM_START \<le> ptr then large_free ptr else kbind (get_block (ptr AND NOT (PGSIZE - 1))) (\<lambda>b.
    case delete_class (b_size b) of
      Some c \<Rightarrow> heap_free c ptr
    | None \<Rightarrow> kthrow (Panic ''delete failed'')))"

definition operator_delete :: "(u64 \<Rightarrow> ('x heap_mm_scheme, unit) kmonad) \<Rightarrow> u64 \<Rightarrow> ('x heap_mm_scheme, unit) kmonad" where
  "operator_delete ptmalloc_free ptr = (if MMAP_START \<le> ptr then ptmalloc_free ptr else default_delete ptr)"

end
