(* ===== verification/Heap_Slots.thy ===== *)
theory Heap_Slots
  imports Heap_Alloc Page_Alloc
begin

text \<open>
  Properties of the kernel heap of \<open>Heap_Alloc\<close>: the logarithm that selects the slot size, the sizes
  themselves, the free list of a block, and the stale pointer that \<open>truncate\<close> leaves behind.
\<close>

section \<open>The logarithm\<close>

text \<open>Spreading \<open>v\<close> over \<open>n\<close> positions to the right.\<close>

definition spread_over :: "nat \<Rightarrow> u64 \<Rightarrow> u64 \<Rightarrow> bool" where
  "spread_over n v w \<longleftrightarrow> (\<forall>i. bit w i \<longleftrightarrow> (\<exists>j<n. bit v (i + j)))"

lemma spread_over_1: "spread_over 1 v v"
  by (simp add: spread_over_def)

lemma spread_over_double:
  assumes "spread_over n v w"
  shows "spread_over (2 * n) v (spread n w)"
  unfolding spread_over_def
proof
  fix i
  have "bit (spread n w) i \<longleftrightarrow> (\<exists>j<n. bit v (i + j)) \<or> (\<exists>j<n. bit v (i + n + j))"
    using assms by (simp add: spread_def spread_over_def bit_simps add.commute)
  also have "\<dots> \<longleftrightarrow> (\<exists>j<2 * n. bit v (i + j))"
  proof (intro iffI; (elim disjE)?)
    assume "\<exists>j<n. bit v (i + j)"
    then obtain j where "j < n" "bit v (i + j)" by blast
    then show "\<exists>j<2 * n. bit v (i + j)" by (intro exI [of _ j]) simp
  next
    assume "\<exists>j<n. bit v (i + n + j)"
    then obtain j where "j < n" "bit v (i + (n + j))" by (auto simp: add.assoc)
    then show "\<exists>j<2 * n. bit v (i + j)" by (intro exI [of _ "n + j"]) simp
  next
    assume "\<exists>j<2 * n. bit v (i + j)"
    then obtain j where j: "j < 2 * n" "bit v (i + j)" by blast
    show "(\<exists>j<n. bit v (i + j)) \<or> (\<exists>j<n. bit v (i + n + j))"
    proof (cases "j < n")
      case False
      then have "j - n < n" "bit v (i + n + (j - n))" using j by simp_all
      then show ?thesis by blast
    qed (use j in blast)
  qed
  finally show "bit (spread n w) i \<longleftrightarrow> (\<exists>j<2 * n. bit v (i + j))" .
qed

lemma spread_all: "spread_over 64 v (spread 32 (spread 16 (spread 8 (spread 4 (spread 2 (spread 1 v))))))"
  using spread_over_double [OF spread_over_double [OF spread_over_double [OF spread_over_double [OF
    spread_over_double [OF spread_over_double [OF spread_over_1]]]]], of v] by simp

lemma high_bit:
  fixes v :: u64
  assumes "2 ^ k \<le> unat v" "unat v < 2 ^ Suc k"
  shows "bit v k" "i > k \<Longrightarrow> \<not> bit v i" "k < 64"
proof -
  have q: "unat v div 2 ^ k = 1"
    using assms by (intro div_nat_eqI) simp_all
  have b: "bit v i \<longleftrightarrow> bit (unat v) i" for i by (simp add: bit_unsigned_iff)
  have "bit (unat v) k" unfolding bit_iff_odd q by simp
  then show "bit v k" by (simp only: b)
  show "k < 64" using \<open>bit v k\<close> bit_imp_le_length by fastforce
  show "\<not> bit v i" if "i > k"
  proof -
    have "(2 :: nat) ^ Suc k \<le> 2 ^ i" using that by (intro power_increasing) simp_all
    then have "unat v div 2 ^ i = 0" using assms(2) by simp
    then have "\<not> bit (unat v) i" unfolding bit_iff_odd by simp
    then show ?thesis using b by blast
  qed
qed

lemma spread_mask:
  assumes "2 ^ k \<le> unat v" "unat v < 2 ^ Suc k"
  shows "spread 32 (spread 16 (spread 8 (spread 4 (spread 2 (spread 1 v))))) = mask (Suc k)"
proof (rule bit_word_eqI)
  fix i :: nat assume i: "i < LENGTH(64)"
  note h = high_bit [OF assms]
  have "(\<exists>j<64. bit v (i + j)) \<longleftrightarrow> i \<le> k"
  proof
    assume "\<exists>j<64. bit v (i + j)"
    then show "i \<le> k" using h(2) by (meson le_add1 not_le order_less_le_trans)
  next
    assume "i \<le> k"
    then have "k - i < 64" "bit v (i + (k - i))" using h by simp_all
    then show "\<exists>j<64. bit v (i + j)" by blast
  qed
  then show "bit (spread 32 (spread 16 (spread 8 (spread 4 (spread 2 (spread 1 v)))))) i \<longleftrightarrow> bit (mask (Suc k) :: u64) i"
    using spread_all [of v] i by (simp add: spread_over_def bit_mask_iff less_Suc_eq_le del: mask_Suc_0)
qed

lemma tab64_run: "\<forall>k\<in>set [0..<64]. tab64 ! unat (drop_bit 58 ((2 ^ k :: u64) * 0x07EDD5E59A4E28C2)) = k"
  by (simp add: upt_rec tab64_def)

lemma mask_step: "k < 64 \<Longrightarrow> mask (Suc k) - drop_bit 1 (mask (Suc k)) = (2 ^ k :: u64)"
proof -
  have "drop_bit 1 (mask (Suc k) :: u64) = mask k" if "k < 64"
    by (rule bit_word_eqI) (use that in \<open>auto simp: bit_simps\<close>)
  moreover have "mask (Suc k) = 2 ^ k + (mask k :: u64)"
    by (simp add: mask_eq_exp_minus_1)
  ultimately show "k < 64 \<Longrightarrow> mask (Suc k) - drop_bit 1 (mask (Suc k)) = (2 ^ k :: u64)" by simp
qed

lemma log2_64_run:
  assumes "2 ^ k \<le> unat v" "unat v < 2 ^ Suc k"
  shows "log2_64 v = k"
proof -
  have k: "k < 64" by (rule high_bit(3) [OF assms])
  have "log2_64 v = tab64 ! unat (drop_bit 58 ((mask (Suc k) - drop_bit 1 (mask (Suc k))) * (0x07EDD5E59A4E28C2 :: u64)))"
    unfolding log2_64_def Let_def spread_mask [OF assms] ..
  also have "\<dots> = k" unfolding mask_step [OF k] using tab64_run k by simp
  finally show ?thesis .
qed

section \<open>Slot sizes\<close>

definition slot_sizes :: "nat set" where
  "slot_sizes = {8, 16, 32, 64, 128, 256, 512, 1024}"

lemma alloc_class_run:
  assumes "2 ^ l \<le> n" "n < 2 ^ Suc l" "n < 1024"
  shows "\<exists>c. alloc_class l = Some c \<and> c \<in> slot_sizes \<and> n < c \<and> (8 < c \<longrightarrow> c \<le> 2 * n)"
proof -
  have "l < 10"
  proof (rule ccontr)
    assume "\<not> l < 10"
    then have "(2 :: nat) ^ 10 \<le> 2 ^ l" by (intro power_increasing) simp_all
    then show False using assms by simp
  qed
  then have "l = 0 \<or> l = 1 \<or> l = 2 \<or> l = 3 \<or> l = 4 \<or> l = 5 \<or> l = 6 \<or> l = 7 \<or> l = 8 \<or> l = 9" by auto
  then show ?thesis using assms(1,2) by (elim disjE) (simp_all add: alloc_class_def slot_sizes_def)
qed

lemma log2_exists: "0 < n \<Longrightarrow> \<exists>l. 2 ^ l \<le> n \<and> n < (2 :: nat) ^ Suc l"
  using ex_power_ivl1 [of 2 n] by auto

lemma alloc_by_size_run:
  assumes "0 < sz" "sz \<le> 1024"
  shows "\<exists>c\<in>slot_sizes. alloc_by_size sz = heap_alloc c \<and> unat sz \<le> c \<and> (8 < c \<longrightarrow> c < 2 * unat sz)"
proof (cases "sz = 1")
  case True
  then show ?thesis by (intro bexI [of _ 8]) (simp_all add: alloc_by_size_def slot_sizes_def)
next
  case False
  have u: "unat (sz - 1) = unat sz - 1" using assms(1) by (subst unat_sub) (simp_all add: word_le_nat_alt word_less_nat_alt)
  have b: "0 < unat sz" "unat sz \<le> 1024" "unat sz \<noteq> 1"
    using assms False by (simp_all add: word_less_nat_alt word_le_nat_alt word_unat_eq_iff)
  obtain l where l: "2 ^ l \<le> unat sz - 1" "unat sz - 1 < 2 ^ Suc l" using log2_exists [of "unat sz - 1"] b by auto
  then have "log2_64 (sz - 1) = l" using log2_64_run [of l "sz - 1"] u by simp
  moreover have "unat sz - 1 < 1024" using b by linarith
  then obtain c where "alloc_class l = Some c" "c \<in> slot_sizes" "unat sz - 1 < c" "8 < c \<longrightarrow> c \<le> 2 * (unat sz - 1)"
    using alloc_class_run [OF l] by blast
  ultimately show ?thesis using False assms b
    by (intro bexI [of _ c]) (auto simp: alloc_by_size_def not_less)
qed

lemma info_size_run: "sz \<in> slot_sizes \<Longrightarrow> info_size sz = (if sz = 8 then 24 else if sz = 16 then 32 else sz)"
  by (auto simp: slot_sizes_def info_size_def)

lemma capacity_run:
  "capacity 8 = 509" "capacity 16 = 254" "capacity 32 = 127" "capacity 64 = 63" "capacity 128 = 31"
  "capacity 256 = 15" "capacity 512 = 7" "capacity 1024 = 3"
  by (simp_all add: capacity_def info_size_def)

lemma capacity_bounds:
  assumes "sz \<in> slot_sizes"
  shows "3 \<le> capacity sz" "capacity sz < 512" "24 \<le> info_size sz" "info_size sz + capacity sz * sz \<le> 4096"
  using assms by (auto simp: slot_sizes_def capacity_run info_size_def)

text \<open>
  \<open>log2_64\<close>, which folds the value to its highest bit and looks the power of two up in a table
  through a multiplication, computes the binary logarithm rounded down of every positive value.
\<close>

lemma log2_64_is_floor_log:
  assumes "0 < v"
  shows "2 ^ log2_64 v \<le> unat v \<and> unat v < 2 ^ Suc (log2_64 v)"
proof -
  obtain k where "2 ^ k \<le> unat v" "unat v < 2 ^ Suc k"
    using log2_exists [of "unat v"] assms by (auto simp: word_less_nat_alt)
  then show ?thesis using log2_64_run by simp
qed

lemma log2_64_is_floor_log_witness: "2 ^ log2_64 1000 \<le> (1000 :: nat) \<and> (1000 :: nat) < 2 ^ Suc (log2_64 1000)"
  using log2_64_is_floor_log [of 1000] by simp

text \<open>
  C40. Every request of 1 to 1024 bytes is served by the allocator of a slot size at least as large,
  and less than twice as large above 8 bytes; the slots of a block and its header fit in the page
  and the block has room for at least three slots.
\<close>

theorem slot_fits_request:
  assumes "0 < sz" "sz \<le> 1024"
  shows "\<exists>c\<in>slot_sizes. alloc_by_size sz = heap_alloc c \<and> unat sz \<le> c \<and> (8 < c \<longrightarrow> c < 2 * unat sz)
    \<and> 3 \<le> capacity c \<and> info_size c + capacity c * c \<le> 4096 \<and> 24 \<le> info_size c"
  using alloc_by_size_run [OF assms] capacity_bounds by blast

lemma slot_fits_request_witness:
  "\<exists>c\<in>slot_sizes. alloc_by_size 100 = heap_alloc c \<and> 100 \<le> c \<and> (8 < c \<longrightarrow> c < 200)
    \<and> 3 \<le> capacity c \<and> info_size c + capacity c * c \<le> 4096 \<and> 24 \<le> info_size c"
  using slot_fits_request [of 100] by simp

section \<open>The free list of a block\<close>

primrec slot_chain :: "u32 list \<Rightarrow> u32 \<Rightarrow> u32 list \<Rightarrow> bool" where
  "slot_chain xs i [] \<longleftrightarrow> i = - 1"
| "slot_chain xs i (j # js) \<longleftrightarrow> i = j \<and> unat j < length xs \<and> slot_chain xs (xs ! unat j) js"

definition block_inv :: "nat \<Rightarrow> heap_block \<Rightarrow> u32 list \<Rightarrow> bool" where
  "block_inv sz b free \<longleftrightarrow> sz \<in> slot_sizes \<and> length (b_data b) = capacity sz \<and> slot_chain (b_data b) (next_free_index b) free
    \<and> distinct free \<and> (\<forall>i\<in>set free. unat i < capacity sz) \<and> unat (b_used b) + length free = capacity sz"

definition slot_acquire :: "nat \<Rightarrow> heap_block \<Rightarrow> u32 option \<times> heap_block" where
  "slot_acquire sz b = (case block_alloc sz b of None \<Rightarrow> (None, b) | Some r \<Rightarrow> r)"

definition slot_release :: "nat \<Rightarrow> u32 \<Rightarrow> heap_block \<Rightarrow> heap_block option" where
  "slot_release sz i b = (case block_free sz (ucast i * of_nat sz) b of Inl _ \<Rightarrow> None | Inr b' \<Rightarrow> Some b')"

definition slot_scribble :: "u32 \<Rightarrow> u32 \<Rightarrow> heap_block \<Rightarrow> heap_block" where
  "slot_scribble i v b = b\<lparr>b_data := (b_data b)[unat i := v]\<rparr>"

lemma slot_chain_update: "slot_chain xs i free \<Longrightarrow> j \<notin> set free \<Longrightarrow> slot_chain (xs[unat j := v]) i free"
  by (induction free arbitrary: i) (auto simp: nth_list_update word_unat_eq_iff)

lemma block_inv_init:
  assumes "sz \<in> slot_sizes"
  shows "block_inv sz (heap_block_init sz) (map of_nat [0..<capacity sz])"
proof -
  note cap = capacity_bounds [OF assms]
  define xs :: "u32 list" where "xs = map (\<lambda>i. of_nat (i + 1)) [0..<capacity sz - 1] @ [- 1]"
  have len: "length xs = capacity sz" using cap(1) by (simp add: xs_def)
  have nth: "xs ! i = (if Suc i < capacity sz then of_nat (Suc i) else - 1)" if "i < capacity sz" for i
    using that cap(1) by (auto simp: xs_def nth_append)
  have u: "unat (of_nat i :: u32) = i" if "i < capacity sz" for i using that cap(2) by (simp add: unat_of_nat_lt)
  have "slot_chain xs (of_nat i) (map of_nat [i..<capacity sz])" if "i < capacity sz" for i
    using that
  proof (induction "capacity sz - i" arbitrary: i)
    case (Suc k)
    show ?case
    proof (cases "Suc i < capacity sz")
      case True
      then have "slot_chain xs (of_nat (Suc i)) (map of_nat [Suc i..<capacity sz])" using Suc.hyps(2) by (intro Suc.hyps(1)) simp_all
      then show ?thesis using Suc.prems True len nth [OF Suc.prems] u [OF Suc.prems] by (simp add: upt_conv_Cons)
    next
      case False
      then have "[i..<capacity sz] = [i]" using Suc.prems by (simp add: upt_rec)
      then show ?thesis using False Suc.prems len nth [OF Suc.prems] u [OF Suc.prems] by simp
    qed
  qed simp
  from this [of 0] have "slot_chain xs 0 (map of_nat [0..<capacity sz])" using cap(1) by simp
  moreover have "inj_on (of_nat :: nat \<Rightarrow> u32) {0..<capacity sz}" using u by (intro inj_onI) (metis atLeastLessThan_iff)
  moreover have "b_data (heap_block_init sz) = xs" "next_free_index (heap_block_init sz) = 0" "b_used (heap_block_init sz) = 0"
    by (simp_all add: heap_block_init_def xs_def)
  ultimately show ?thesis using assms len u by (auto simp: block_inv_def distinct_map)
qed

lemma block_alloc_nil: "block_inv sz b [] \<Longrightarrow> block_alloc sz b = Some (None, b)"
  by (simp add: block_inv_def block_alloc_def block_full_def)

lemma block_alloc_cons:
  assumes "block_inv sz b (i # free)"
  shows "\<exists>b'. block_alloc sz b = Some (Some i, b') \<and> block_inv sz b' free"
proof -
  have "unat (b_used b) < capacity sz" "capacity sz < 512" using assms capacity_bounds(2) by (auto simp: block_inv_def)
  then have "unat (b_used b + 1) = Suc (unat (b_used b))" by (subst unat_add_lem [THEN iffD1]) simp_all
  then show ?thesis using assms by (auto simp: block_inv_def block_alloc_def block_full_def)
qed

lemma block_free_ok:
  assumes inv: "block_inv sz b free" and i: "unat i < capacity sz" "i \<notin> set free"
  shows "\<exists>b'. block_free sz (ucast i * of_nat sz) b = Inr b' \<and> block_inv sz b' (i # free)"
proof -
  have sz: "sz \<in> slot_sizes" using inv by (simp add: block_inv_def)
  then have s: "0 < sz" "sz \<le> 1024" by (auto simp: slot_sizes_def)
  have cap: "capacity sz < 512" by (rule capacity_bounds [OF sz])
  let ?off = "ucast i * of_nat sz :: u64"
  have "unat i * sz < 512 * 1025" using i(1) cap s(2) by (intro mult_strict_mono) simp_all
  then have off: "unat ?off = unat i * sz"
    using s i(1) cap by (simp add: unat_word_ariths unat_of_nat unsigned_ucast_eq take_bit_eq_mod)
  have us: "unat (of_nat sz :: u64) = sz" using s by (simp add: unat_of_nat)
  have "unat (?off div of_nat sz) = unat i" using off us s by (simp add: unat_div)
  then have ix: "ucast (?off div of_nat sz) = i"
    using unsigned_less [of i, where ?'a = nat] by (simp add: word_unat_eq_iff [of _ i] unsigned_ucast_eq take_bit_nat_eq_self)
  have "unat (?off mod of_nat sz) = 0" using off us by (simp add: unat_mod)
  then have m0: "?off mod of_nat sz = 0" by (simp add: word_unat_eq_iff)
  have "length (i # free) = card (set (i # free))" using inv i(2) by (simp add: block_inv_def distinct_card)
  also have "\<dots> \<le> card {..<capacity sz}"
    using inv i by (intro card_inj_on_le [where f = unat]) (auto simp: block_inv_def inj_on_def word_unat_eq_iff)
  finally have "length free < capacity sz" by simp
  then have pos: "0 < unat (b_used b)" using inv by (auto simp: block_inv_def)
  then have "unat (b_used b - 1) = unat (b_used b) - 1" by (subst unat_sub) (simp_all add: word_le_nat_alt)
  then show ?thesis
    using inv i ix m0 pos slot_chain_update [of "b_data b" "next_free_index b" free i "next_free_index b"]
    by (auto simp: block_free_def block_inv_def Let_def)
qed

interpretation slot_pool: object_pool "block_inv sz" "\<lambda>i. unat i < capacity sz" "slot_acquire sz" "slot_release sz" slot_scribble
  for sz
proof (unfold_locales, goal_cases)
  case (1 s free)
  then show ?case by (simp add: block_inv_def)
next
  case (2 s)
  then show ?case by (simp add: slot_acquire_def block_alloc_nil)
next
  case (3 s x free)
  then show ?case using block_alloc_cons [OF 3] by (auto simp: slot_acquire_def)
next
  case (4 s free x)
  then show ?case using block_free_ok [OF 4] by (auto simp: slot_release_def)
next
  case (5 s free x w)
  then show ?case by (simp add: block_inv_def slot_scribble_def slot_chain_update)
qed

text \<open>
  C38. In a heap block of any of the eight slot sizes no sequence of allocations, frees and writes
  into allocated slots (which overwrite the link a free slot keeps there) makes an operation fail
  or hand out a slot twice, and the counter of the block is the number of slots in use.
\<close>

theorem slots_never_shared:
  assumes "sz \<in> slot_sizes"
  shows "\<exists>b held. pool_ops (slot_acquire sz) (slot_release sz) slot_scribble ops (heap_block_init sz, []) = Some (b, held)
    \<and> distinct held \<and> (\<forall>i\<in>set held. unat i < capacity sz) \<and> unat (b_used b) = length held"
proof -
  let ?all = "map of_nat [0..<capacity sz] :: u32 list"
  have inv: "block_inv sz (heap_block_init sz) ?all" by (rule block_inv_init [OF assms])
  then have d: "distinct ([] @ ?all)" "\<forall>i\<in>set []. unat i < capacity sz" by (auto simp: block_inv_def)
  obtain b held free where r: "pool_ops (slot_acquire sz) (slot_release sz) slot_scribble ops (heap_block_init sz, []) = Some (b, held)"
    "block_inv sz b free" "distinct (held @ free)" "set held \<union> set free = set [] \<union> set ?all"
    using slot_pool.no_object_twice [OF inv d] by blast
  have "length (held @ free) = length ?all" using r(3,4) d(1) by (metis append_Nil distinct_card set_append)
  then have "unat (b_used b) = length held" using r(2) by (simp add: block_inv_def)
  moreover have "\<forall>i\<in>set ?all. unat i < capacity sz" using inv unfolding block_inv_def by blast
  then have "\<forall>i\<in>set held. unat i < capacity sz" using r(4) by (metis UnCI Un_empty_left list.set(1))
  ultimately show ?thesis using r(1,3) by auto
qed

lemma slots_never_shared_witness:
  "\<exists>b held. pool_ops (slot_acquire 1024) (slot_release 1024) slot_scribble [Acquire, Acquire, Scribble 0 7, Release 1, Acquire]
      (heap_block_init 1024, []) = Some (b, held)
    \<and> distinct held \<and> (\<forall>i\<in>set held. unat i < capacity 1024) \<and> unat (b_used b) = length held"
  by (rule slots_never_shared) (simp add: slot_sizes_def)

section \<open>Giving pages back\<close>

lemma page_of_pointer:
  assumes "4096 dvd unat p" "k < 4096"
  shows "(p + of_nat k) AND NOT (PGSIZE - 1) = (p :: u64)"
proof -
  obtain q where q: "unat p = 4096 * q" using assms(1) by (blast elim: dvdE)
  have "unat p < 4096 * 2 ^ 52" using unsigned_less [of p, where ?'a = nat] by simp
  then have "q < 2 ^ 52" using q by simp
  then have "unat (p + of_nat k) = unat p + k"
    using assms(2) q by (simp add: unat_word_ariths unat_of_nat)
  then have "unat (PGROUNDDOWN (p + of_nat k)) = unat p"
    using q assms(2) by (simp add: unat_PGROUNDDOWN)
  then show ?thesis by (simp add: PGROUNDDOWN_def word_unat_eq_iff)
qed

lemma first_slot:
  assumes "sz \<in> slot_sizes"
  shows "\<exists>b. block_alloc sz ((heap_block_init sz)\<lparr>next_block := nb\<rparr>) = Some (Some 0, b) \<and> b_used b = 1 \<and> next_block b = nb
    \<and> \<not> block_full sz b \<and> next_free_block b = 0 \<and> length (b_data b) = capacity sz"
proof -
  have c: "3 \<le> capacity sz" by (rule capacity_bounds [OF assms])
  then show ?thesis
    by (auto simp: block_alloc_def block_full_def heap_block_init_def arr_get_def nth_append)
qed

lemma heap_alloc_first:
  assumes sz: "sz \<in> slot_sizes" and pool: "pool_inv lo hi s (p # ps)" and fresh: "free_block (heaps s sz) = 0"
  obtains s1 b where "heap_alloc sz s = (Inr (p + of_nat (info_size sz)), s1)" "pool_inv lo hi s1 ps"
    "blocks s1 = (blocks s)(p \<mapsto> b)" "b_used b = 1" "next_block b = head_block (heaps s sz)" "\<not> block_full sz b"
    "length (b_data b) = capacity sz" "head_block (heaps s1 sz) = p" "free_block (heaps s1 sz) = p"
proof -
  have p: "p \<noteq> 0" using pool by (auto simp: pool_inv_def page_in_def)
  obtain al where al: "alloc_page s = (Inr p, s\<lparr>kernel_allocator := al\<rparr>)" "pool_inv lo hi (s\<lparr>kernel_allocator := al\<rparr>) ps"
    using alloc_page_cons [OF pool] by blast
  obtain b where b: "block_alloc sz ((heap_block_init sz)\<lparr>next_block := head_block (heaps s sz)\<rparr>) = Some (Some 0, b)" "b_used b = 1"
    "next_block b = head_block (heaps s sz)" "\<not> block_full sz b" "length (b_data b) = capacity sz"
    using first_slot [OF sz] by blast
  define h where "h = (heaps s sz)\<lparr>free_block := p, h_allocated := h_allocated (heaps s sz) + PGSIZE, head_block := p,
    h_used := h_used (heaps s sz) + of_nat sz\<rparr>"
  define s1 where "s1 = s\<lparr>kernel_allocator := al, blocks := (blocks s)(p \<mapsto> b), heaps := (heaps s)(sz := h)\<rparr>"
  have "heap_alloc sz s = (Inr (p + of_nat (info_size sz)), s1)"
    using p fresh al(1) b
    by (simp add: heap_alloc_def get_block_def set_block_def mod_heap_def slot_addr_def s1_def h_def)
  moreover have "pool_inv lo hi s1 ps" using al(2) by (simp add: pool_inv_def s1_def)
  ultimately show thesis using that b(2-5) by (simp add: s1_def h_def)
qed

lemma heap_free_first:
  assumes sz: "sz \<in> slot_sizes" and p: "4096 dvd unat p" and b: "blocks s p = Some b" "b_used b = 1" "\<not> block_full sz b" "length (b_data b) = capacity sz"
  obtains s1 b' where "heap_free sz (p + of_nat (info_size sz)) s = (Inr (), s1)" "blocks s1 = (blocks s)(p \<mapsto> b')" "b_used b' = 0"
    "next_block b' = next_block b" "kernel_allocator s1 = kernel_allocator s" "ram s1 = ram s"
    "head_block (heaps s1 sz) = head_block (heaps s sz)" "free_block (heaps s1 sz) = free_block (heaps s sz)"
proof -
  have c: "3 \<le> capacity sz" "info_size sz + capacity sz * sz \<le> 4096" by (rule capacity_bounds [OF sz])+
  have "8 \<le> sz" using sz by (auto simp: slot_sizes_def)
  then have "0 < capacity sz * sz" using c(1) by simp
  then have "info_size sz < 4096" using c(2) by linarith
  then have pg: "(p + of_nat (info_size sz)) AND NOT (PGSIZE - 1) = p" by (rule page_of_pointer [OF p])
  define b' where "b' = b\<lparr>b_used := 0, next_free_index := 0, b_data := (b_data b)[0 := next_free_index b]\<rparr>"
  have bf: "block_free sz 0 b = Inr b'" using b(2,4) c(1) by (simp add: block_free_def b'_def)
  define s1 where "s1 = s\<lparr>blocks := (blocks s)(p \<mapsto> b'), heaps := (heaps s)(sz := (heaps s sz)\<lparr>h_used := h_used (heaps s sz) - of_nat sz\<rparr>)\<rparr>"
  have "heap_free sz (p + of_nat (info_size sz)) s = (Inr (), s1)"
    using b(1,3) pg bf by (simp add: heap_free_def get_block_def set_block_def mod_heap_def Let_def s1_def)
  then show thesis using that [of s1 b'] by (simp add: s1_def b'_def)
qed

lemma truncate_single:
  assumes pool: "pool_inv lo hi s ps" "page_in lo hi p" "p \<notin> set ps" and b: "blocks s p = Some b" "b_used b = 0" "next_block b = 0"
    and h: "head_block (heaps s sz) = p"
  obtains s1 where "heap_truncate sz s = (Inr (), s1)" "pool_inv lo hi s1 (p # ps)" "blocks s1 p = None"
    "head_block (heaps s1 sz) = 0" "free_block (heaps s1 sz) = free_block (heaps s sz)"
proof -
  let ?s = "s\<lparr>heaps := (heaps s)(sz := (heaps s sz)\<lparr>head_block := 0\<rparr>), blocks := (blocks s)(p := None)\<rparr>"
  have "pool_inv lo hi ?s ps" using pool(1) by (simp add: pool_inv_def)
  from free_page_ok [OF this pool(2,3)] obtain s2 where s2: "free_page p ?s = (Inr (), s2)" "pool_inv lo hi s2 (p # ps)" "mm.more s2 = mm.more ?s"
    by blast
  have more: "blocks s2 = blocks ?s" "heaps s2 = heaps ?s"
    using s2(3) by (cases s2; cases s; simp)+
  define s3 where "s3 = s2\<lparr>heaps := (heaps s2)(sz := (heaps s2 sz)\<lparr>h_allocated := h_allocated (heaps s2 sz) - PGSIZE\<rparr>)\<rparr>"
  have "p \<noteq> 0" using pool(2) by (simp add: page_in_def)
  moreover have "truncate_loop (page_fuel - 1) sz 0 0 s3 = (Inr (), s3)" by (cases "page_fuel - 1") simp_all
  ultimately have "truncate_loop (Suc (page_fuel - 1)) sz p 0 s = (Inr (), s3)"
    using b s2(1) by (simp add: get_block_def block_empty_def mod_heap_def s3_def)
  moreover have "Suc (page_fuel - 1) = page_fuel" by (simp add: page_fuel_def)
  ultimately have "heap_truncate sz s = (Inr (), s3)" using h by (simp add: heap_truncate_def)
  moreover have "pool_inv lo hi s3 (p # ps)" using s2(2) by (simp add: pool_inv_def s3_def)
  ultimately show thesis using that [of s3] more by (simp add: s3_def)
qed

text \<open>
  \<open>truncate\<close> gives the page of an empty block back without unlinking the block from the list of
  blocks with free slots: after one object is allocated and freed and \<open>truncate\<close> runs, the first free
  page is still the allocator's current block, and the next allocation goes through a block that
  no longer exists.
\<close>

lemma truncate_leaves_stale_block:
  assumes "sz \<in> slot_sizes" "pool_inv lo hi s (p # ps)" "head_block (heaps s sz) = 0" "free_block (heaps s sz) = 0"
  shows "\<exists>ptr s1 s2 s3. heap_alloc sz s = (Inr ptr, s1) \<and> ptr \<noteq> 0 \<and> heap_free sz ptr s1 = (Inr (), s2) \<and> heap_truncate sz s2 = (Inr (), s3)
    \<and> pool_inv lo hi s3 (p # ps) \<and> free_block (heaps s3 sz) = p \<and> fst (heap_alloc sz s3) = Inl Undefined"
proof -
  have p: "page_in lo hi p" "p \<notin> set ps" "4096 dvd unat p" "p \<noteq> 0" using assms(2) by (auto simp: pool_inv_def page_in_def)
  obtain s1 b where 1: "heap_alloc sz s = (Inr (p + of_nat (info_size sz)), s1)" "pool_inv lo hi s1 ps"
    "blocks s1 = (blocks s)(p \<mapsto> b)" "b_used b = 1" "next_block b = head_block (heaps s sz)" "\<not> block_full sz b"
    "length (b_data b) = capacity sz" "head_block (heaps s1 sz) = p" "free_block (heaps s1 sz) = p"
    by (rule heap_alloc_first [OF assms(1,2,4)])
  obtain s2 b' where 2: "heap_free sz (p + of_nat (info_size sz)) s1 = (Inr (), s2)" "blocks s2 = (blocks s1)(p \<mapsto> b')" "b_used b' = 0"
    "next_block b' = next_block b" "kernel_allocator s2 = kernel_allocator s1" "ram s2 = ram s1"
    "head_block (heaps s2 sz) = head_block (heaps s1 sz)" "free_block (heaps s2 sz) = free_block (heaps s1 sz)"
    by (rule heap_free_first [OF assms(1) p(3), of s1 b]) (use 1 in simp_all)
  have "pool_inv lo hi s2 ps" using 1(2) 2(5,6) by (simp add: pool_inv_def)
  then obtain s3 where 3: "heap_truncate sz s2 = (Inr (), s3)" "pool_inv lo hi s3 (p # ps)" "blocks s3 p = None"
    "head_block (heaps s3 sz) = 0" "free_block (heaps s3 sz) = free_block (heaps s2 sz)"
    by (rule truncate_single [OF _ p(1,2), of s2 b' sz]) (use 1 2 assms(3) in simp_all)
  have "info_size sz < 4096" using capacity_bounds [OF assms(1)] assms(1) by (auto simp: slot_sizes_def info_size_def)
  then have "p + of_nat (info_size sz) \<noteq> 0" using page_of_pointer [OF p(3), of "info_size sz"] p(4) by auto
  moreover have "free_block (heaps s3 sz) = p" using 1(9) 2(8) 3(5) by simp
  moreover from this have "fst (heap_alloc sz s3) = Inl Undefined" using p(4) 3(3) by (simp add: heap_alloc_def get_block_def)
  ultimately show ?thesis using 1(1) 2(1) 3(1,2) by blast
qed

definition demo_heap :: heap_mm where
  "demo_heap = \<lparr>ram = filled (\<lambda>_. None) 0 0 8192,
     kernel_allocator = \<lparr>free_page_list = 4096, free_page_count = 1, start_addr = 4096, end_addr = 8192\<rparr>,
     blocks = Map.empty, heaps = (\<lambda>_. \<lparr>head_block = 0, free_block = 0, h_allocated = 0, h_used = 0\<rparr>),
     kernel_pagetable = 0, vmem_top = VMEM_START\<rparr>"

lemma demo_heap_pool: "pool_inv 4096 8192 demo_heap [4096]"
proof -
  have "filled (\<lambda>_. None) 0 0 8192 = ram (blank_mm 8192)" by (auto simp: filled_def blank_mm_def)
  then have "pages_mapped 4096 8192 (filled (\<lambda>_. None) 0 0 8192)" using blank_mapped [of 8192 8192 4096] by simp
  moreover have "load64 (filled (\<lambda>_. None) 0 0 8192) 4096 = Some 0" by (rule load64_zeroed) simp_all
  ultimately show ?thesis by (simp add: pool_inv_def demo_heap_def page_in_def)
qed

lemma truncate_leaves_stale_block_witness:
  "\<exists>ptr s1 s2 s3. heap_alloc 64 demo_heap = (Inr ptr, s1) \<and> ptr \<noteq> 0 \<and> heap_free 64 ptr s1 = (Inr (), s2) \<and> heap_truncate 64 s2 = (Inr (), s3)
    \<and> pool_inv 4096 8192 s3 [4096] \<and> free_block (heaps s3 64) = 4096 \<and> fst (heap_alloc 64 s3) = Inl Undefined"
  by (rule truncate_leaves_stale_block [OF _ demo_heap_pool]) (simp_all add: slot_sizes_def demo_heap_def)

end
