(* ===== verification/Ramdisk.thy ===== *)
theory Ramdisk
  imports Page_Tree
begin

text \<open>
  The ram disk of \<open>src/os/drivers/ramdisk/ramdisk.cc\<close> and the device registry of
  \<open>src/os/device/device.h\<close>. The disk is a tree of pages that grows as blocks are first used; a block
  number selects a page through two levels of pointers. Reads and writes copy between the page and
  a buffer in kernel memory. The theorem at the end shows that the disk is an array of bytes.
\<close>

section \<open>The device registry\<close>

type_synonym device_id_t = "u32 \<times> u32"

definition ramdisk_id :: device_id_t where
  "ramdisk_id = (1, 0)"

record registry =
  device_id :: "nat \<Rightarrow> device_id_t"
  devices :: "nat list"

definition register_device :: "nat \<Rightarrow> device_id_t \<Rightarrow> registry \<Rightarrow> registry" where
  "register_device this_dev i r = r\<lparr>device_id := (device_id r)(this_dev := i), devices := devices r @ [this_dev]\<rparr>"

text \<open>Only a device that is not in the list gets its identifier cleared.\<close>

definition deregister_device :: "nat \<Rightarrow> registry \<Rightarrow> registry" where
  "deregister_device this_dev r =
     (if this_dev \<in> set (devices r) then r\<lparr>devices := remove1 this_dev (devices r)\<rparr>
      else r\<lparr>device_id := (device_id r)(this_dev := (0, 0))\<rparr>)"

definition device_get :: "device_id_t \<Rightarrow> registry \<Rightarrow> nat option" where
  "device_get i r = find (\<lambda>dv. device_id r dv = i) (devices r)"

section \<open>The disk\<close>

record rdisk = mm +
  page_index_index :: u64
  nblocks :: u64
  reg :: registry
  self :: nat

definition BLOCK_SIZE :: u64 where "BLOCK_SIZE = 1024"
definition page_capacity :: u64 where "page_capacity = PGSIZE div 8"

definition mem_memcpy :: "u64 \<Rightarrow> u64 \<Rightarrow> u64 \<Rightarrow> ('x mm_scheme, unit) kmonad" where
  "mem_memcpy d p n = kbind (kget ram) (\<lambda>m.
    kbind (kopt (memcpy (unat d) (unat p) (unat n) m)) (\<lambda>m'.
    kmod (\<lambda>s. s\<lparr>ram := m'\<rparr>)))"

definition ramdisk_init :: "u64 \<Rightarrow> ('x rdisk_scheme, unit) kmonad" where
  "ramdisk_init n = kseq (kmod (\<lambda>s. s\<lparr>nblocks := n\<rparr>)) (
    kbind alloc_page (\<lambda>p.
    kseq (kmod (\<lambda>s. s\<lparr>page_index_index := p\<rparr>)) (
    if p = 0 then kret () else mem_memset p 0 PGSIZE)))"

primrec free_index :: "nat \<Rightarrow> u64 \<Rightarrow> ('x rdisk_scheme, unit) kmonad" where
  "free_index 0 index = kret ()"
| "free_index (Suc k) index = kseq (free_index k index) (
  kbind (mem_load64 (index + 8 * of_nat k)) (\<lambda>p.
  if p \<noteq> 0 then free_page p else kret ()))"

primrec free_indices :: "nat \<Rightarrow> u64 \<Rightarrow> ('x rdisk_scheme, unit) kmonad" where
  "free_indices 0 root = kret ()"
| "free_indices (Suc k) root = kseq (free_indices k root) (
  kbind (mem_load64 (root + 8 * of_nat k)) (\<lambda>p.
  if p \<noteq> 0 then kseq (free_index 512 p) (
    free_page p) else kret ()))"

definition ramdisk_destroy :: "('x rdisk_scheme, unit) kmonad" where
  "ramdisk_destroy = kbind (kget page_index_index) (\<lambda>root.
    kseq (free_indices 512 root) (
    free_page root))"

definition ramdisk_capacity :: "'x rdisk_scheme \<Rightarrow> u64" where
  "ramdisk_capacity s = nblocks s"

definition ramdisk_open :: "('x rdisk_scheme, int) kmonad" where
  "ramdisk_open = kbind (kget page_index_index) (\<lambda>root.
    if root = 0 then kret (- 1) else kseq (kmod (\<lambda>s. s\<lparr>reg := register_device (self s) ramdisk_id (reg s)\<rparr>)) (
      kret 0))"

definition ramdisk_close :: "('x rdisk_scheme, unit) kmonad" where
  "ramdisk_close = kmod (\<lambda>s. s\<lparr>reg := deregister_device (self s) (reg s)\<rparr>)"

text \<open>The pointer in a slot, a new cleared page if it is null.\<close>

definition slot_page :: "u64 \<Rightarrow> ('x rdisk_scheme, u64) kmonad" where
  "slot_page slot = kbind (mem_load64 slot) (\<lambda>p.
    if p \<noteq> 0 then kret p else kbind alloc_page (\<lambda>q.
      if q = 0 then kthrow Task_Fail else kseq (mem_store64 slot q) (
        kseq (mem_memset q 0 PGSIZE) (
        kret q))))"

definition ramdisk_walk :: "u64 \<Rightarrow> ('x rdisk_scheme, u64 \<times> u64) kmonad" where
  "ramdisk_walk block_no = kbind (kget nblocks) (\<lambda>n.
    if n < block_no then kthrow Task_Fail else let page_index = block_no * BLOCK_SIZE div PGSIZE in
      let page_offset = block_no * BLOCK_SIZE mod PGSIZE in
      kbind (kget page_index_index) (\<lambda>root.
      kbind (slot_page (root + 8 * (page_index div page_capacity))) (\<lambda>page_index_ptr.
      kbind (slot_page (page_index_ptr + 8 * (page_index mod page_capacity))) (\<lambda>page_ptr.
      kret (page_ptr, page_offset)))))"

definition ramdisk_read :: "u64 \<Rightarrow> u64 \<Rightarrow> u64 \<Rightarrow> ('x rdisk_scheme, int) kmonad" where
  "ramdisk_read block_no count buf = kbind (kget (\<lambda>s. device_id (reg s) (self s) = ramdisk_id)) (\<lambda>ok.
    if \<not> ok then kthrow Task_Fail else kbind (ramdisk_walk block_no) (\<lambda>(page_ptr, off).
      kseq (mem_memcpy buf (page_ptr + off) (count * BLOCK_SIZE)) (
      kret 0)))"

definition ramdisk_write :: "u64 \<Rightarrow> u64 \<Rightarrow> u64 \<Rightarrow> ('x rdisk_scheme, int) kmonad" where
  "ramdisk_write block_no count buf = kbind (kget (\<lambda>s. device_id (reg s) (self s) = ramdisk_id)) (\<lambda>ok.
    if \<not> ok then kthrow Task_Fail else kbind (ramdisk_walk block_no) (\<lambda>(page_ptr, off).
      kseq (mem_memcpy (page_ptr + off) buf (count * BLOCK_SIZE)) (
      kret 0)))"

definition ramdisk_flush :: "('x rdisk_scheme, int) kmonad" where
  "ramdisk_flush = kret 0"

section \<open>The tree of pages\<close>

interpretation raw_ptr: page_tree "\<lambda>e. e \<noteq> 0" "\<lambda>e. e" "\<lambda>c. c"
  by unfold_locales simp_all

abbreviation rd_tree :: "u64 \<Rightarrow> u64 \<Rightarrow> u64 \<Rightarrow> 'x mm_scheme \<Rightarrow> u64 list \<Rightarrow> ptree \<Rightarrow> bool" where
  "rd_tree \<equiv> tree_inv (\<lambda>e. e \<noteq> 0) (\<lambda>e. e)"

text \<open>The disk as an array of bytes: zero where no page was allocated yet.\<close>

definition rd_path :: "nat \<Rightarrow> nat list" where
  "rd_path a = [a div 4096 div 512, a div 4096 mod 512]"

definition rd_byte :: "mem \<Rightarrow> ptree \<Rightarrow> nat \<Rightarrow> u8 option" where
  "rd_byte m d a = (case d (rd_path a) of None \<Rightarrow> Some 0 | Some b \<Rightarrow> m (unat b + a mod 4096))"

definition rd_grown :: "u64 \<Rightarrow> u64 \<Rightarrow> u64 \<Rightarrow> 'x mm_scheme \<Rightarrow> u64 list \<Rightarrow> ptree \<Rightarrow> 'x mm_scheme \<Rightarrow> u64 list \<Rightarrow> ptree \<Rightarrow> bool" where
  "rd_grown lo hi root s free d s' free' d' \<longleftrightarrow> rd_tree lo hi root s' free' d' \<and> d \<subseteq>\<^sub>m d' \<and> set free' \<subseteq> set free \<and> ran d' \<subseteq> ran d \<union> set free
    \<and> (\<forall>a. rd_byte (ram s') d' a = rd_byte (ram s) d a)
    \<and> (\<forall>x. (\<forall>b\<in>ran d \<union> set free. x \<notin> frame b) \<longrightarrow> ram s' x = ram s x) \<and> mm.more s' = mm.more s"

lemma rd_grown_refl: "rd_tree lo hi root s free d \<Longrightarrow> rd_grown lo hi root s free d s free d"
  by (simp add: rd_grown_def)

lemma rd_grown_trans:
  assumes "rd_grown lo hi root s free d s1 free1 d1" "rd_grown lo hi root s1 free1 d1 s2 free2 d2"
  shows "rd_grown lo hi root s free d s2 free2 d2"
proof -
  note g = assms [unfolded rd_grown_def]
  have "ran d1 \<union> set free1 \<subseteq> ran d \<union> set free" using g by blast
  have "ram s2 x = ram s x" if x: "\<forall>b\<in>ran d \<union> set free. x \<notin> frame b" for x
  proof -
    have "\<forall>b\<in>ran d1 \<union> set free1. x \<notin> frame b" using x \<open>ran d1 \<union> set free1 \<subseteq> ran d \<union> set free\<close> by blast
    then have "ram s2 x = ram s1 x" using g by simp
    then show ?thesis using g x by simp
  qed
  moreover have "d \<subseteq>\<^sub>m d2" using g by (blast intro: map_le_trans)
  moreover have "set free2 \<subseteq> set free" "ran d2 \<subseteq> ran d \<union> set free" using g by blast+
  ultimately show ?thesis using g by (simp add: rd_grown_def)
qed

lemma rd_path_length [simp]: "length (rd_path a) = 2"
  by (simp add: rd_path_def)

lemma link_after:
  assumes "4096 dvd unat a" "4096 dvd unat c" "a \<noteq> c" "i < 512"
  shows "filled (stored m (unat a + 8 * i) v) (unat c) 0 4096 = link_page m a i c v"
  using frames_disjoint [OF assms(1-3)] assms(4) by (fastforce simp: link_page_def filled_def stored_def frame_def)

lemma slot_page_add:
  assumes inv: "rd_tree lo hi root s (c # free) d" and p: "d p = Some a" "length p < 2" "d (p @ [unat i]) = None" and i: "unat i < 512"
  shows "\<exists>s' d'. slot_page (a + 8 * i) s = (Inr c, s') \<and> rd_grown lo hi root s (c # free) d s' free d' \<and> d' (p @ [unat i]) = Some c"
proof -
  note D = tree_invD [OF inv]
  have al: "4096 dvd unat a" by (rule D(6) [OF p(1)])
  have c: "page_in lo hi c" "4096 dvd unat c" "c \<notin> set free" "c \<noteq> 0" using D(1) by (auto simp: pool_inv_def page_in_def)
  have na: "a \<notin> set free" "a \<noteq> c" using D(5) [OF p(1)] by auto
  obtain e where e: "load64 (ram s) (unat a + 8 * unat i) = Some e" "e = 0"
    using table_okE [OF inv p(1,2) i] p(3) by (metis option.distinct(1))
  obtain al' where al': "alloc_page s = (Inr c, s\<lparr>kernel_allocator := al'\<rparr>)" "pool_inv lo hi (s\<lparr>kernel_allocator := al'\<rparr>) free"
    using alloc_page_cons [OF D(1)] by blast
  define s' where "s' = s\<lparr>kernel_allocator := al', ram := link_page (ram s) a (unat i) c c\<rparr>"
  have cm: "mapped (ram s) (unat c) 4096" using D(1) c(1) by (auto simp: pool_inv_def pages_mapped_def)
  have "mapped (ram s) (unat a + 8 * unat i) 8" by (rule mapped_slot [OF D(10) [OF p(1)] i])
  then have run: "slot_page (a + 8 * i) s = (Inr c, s')"
    using load_slot_run [OF inv p(1) i] e al'(1) c(4) cm al i link_after [OF al c(2) na(2) i]
    by (simp add: slot_page_def mem_run PGSIZE_def unat_slot s'_def)
  have pool: "pool_inv lo hi s' free"
    using pool_inv_link_page [OF al'(2) al c(2) na(1) c(3) i] by (simp add: s'_def)
  let ?d = "d(p @ [unat i] \<mapsto> c)"
  have "ram s' = link_page (ram s) a (unat i) c c" by (simp add: s'_def)
  note add = raw_ptr.tree_add [OF inv p(1,2) i p(3) pool this]
  have "rd_byte (ram s') ?d k = rd_byte (ram s) d k" for k
  proof (cases "rd_path k = p @ [unat i]")
    case True
    then have "unat c + k mod 4096 \<in> frame c" by (simp add: frame_def)
    then show ?thesis using True p(3) add(3) by (simp add: rd_byte_def)
  next
    case False
    have "rd_path k \<noteq> p" using p(2) by (metis nat_neq_iff rd_path_length)
    then show ?thesis using False add(2) by (auto simp: rd_byte_def frame_def split: option.splits)
  qed
  moreover have "a \<in> ran d" using p(1) by (rule ranI)
  then have "\<forall>x. (\<forall>b\<in>ran d \<union> set (c # free). x \<notin> frame b) \<longrightarrow> ram s' x = ram s x"
    by (simp add: s'_def link_page_out [OF i])
  moreover have "d \<subseteq>\<^sub>m ?d" using p(3) by (auto simp: map_le_def)
  moreover have "ran ?d \<subseteq> ran d \<union> set (c # free)" by (auto simp: ran_def)
  ultimately have "rd_grown lo hi root s (c # free) d s' free ?d"
    using add(1) by (simp add: rd_grown_def s'_def subset_insertI)
  then show ?thesis using run by (intro exI [of _ s'] exI [of _ ?d]) simp
qed

lemma slot_page_run:
  assumes inv: "rd_tree lo hi root s free d" and p: "d p = Some a" "length p < 2" and i: "unat i < 512" and free: "free \<noteq> []"
  obtains s' free' d' b where "slot_page (a + 8 * i) s = (Inr b, s')" "rd_grown lo hi root s free d s' free' d'"
    "d' (p @ [unat i]) = Some b" "length free \<le> Suc (length free')"
proof (cases "d (p @ [unat i])")
  case None
  obtain c fs where cf: "free = c # fs" using free by (cases free) auto
  obtain s' d' where "slot_page (a + 8 * i) s = (Inr c, s')" "rd_grown lo hi root s free d s' fs d'" "d' (p @ [unat i]) = Some c"
    using slot_page_add [OF inv [unfolded cf] p None i] cf by blast
  then show thesis using that cf by simp
next
  case (Some b)
  obtain e where "load64 (ram s) (unat a + 8 * unat i) = Some e" "e = b" "e \<noteq> 0"
    using table_okE [OF inv p i] Some by (metis option.distinct(1) option.inject)
  then have "slot_page (a + 8 * i) s = (Inr b, s)" using load_slot_run [OF inv p(1) i] by (simp add: slot_page_def)
  then show thesis using that Some rd_grown_refl [OF inv] by simp
qed

section \<open>Finding a block\<close>

text \<open>A disk of at most \<open>2\<^sup>2\<^sup>0\<close> blocks of 1024 bytes, which two levels of 512 pages of 4096 bytes can hold.\<close>

definition rd_inv :: "u64 \<Rightarrow> u64 \<Rightarrow> rdisk \<Rightarrow> u64 list \<Rightarrow> ptree \<Rightarrow> bool" where
  "rd_inv lo hi s free d \<longleftrightarrow> rd_tree lo hi (page_index_index s) s free d \<and> unat (nblocks s) < 2 ^ 20
    \<and> device_id (reg s) (self s) = ramdisk_id"

lemma block_split:
  fixes n :: u64
  assumes "unat n < 2 ^ 20"
  shows "unat (n * BLOCK_SIZE div PGSIZE div page_capacity) = unat n div 4 div 512"
    "unat (n * BLOCK_SIZE div PGSIZE mod page_capacity) = unat n div 4 mod 512"
    "unat (n * BLOCK_SIZE mod PGSIZE) = unat n mod 4 * 1024"
proof -
  have "unat (n * BLOCK_SIZE) = unat n * 1024" using assms by (simp add: BLOCK_SIZE_def unat_word_ariths)
  moreover have "unat n * 1024 div 4096 = unat n div 4" "unat n * 1024 mod 4096 = unat n mod 4 * 1024"
    using div_mult2_eq [of "unat n * 1024" 1024 4] mult_mod_right [of 1024 "unat n" 4] by (simp_all add: mult.commute)
  ultimately show "unat (n * BLOCK_SIZE div PGSIZE div page_capacity) = unat n div 4 div 512"
    "unat (n * BLOCK_SIZE div PGSIZE mod page_capacity) = unat n div 4 mod 512"
    "unat (n * BLOCK_SIZE mod PGSIZE) = unat n mod 4 * 1024"
    by (simp_all add: PGSIZE_def page_capacity_def unat_div unat_mod)
qed

lemma block_path:
  assumes "j < 1024"
  shows "rd_path (n * 1024 + j) = [n div 4 div 512, n div 4 mod 512]" "(n * 1024 + j) mod 4096 = n mod 4 * 1024 + j"
proof -
  obtain q r where n: "n = 4 * q + r" "r < 4" by (metis mod_less_divisor mult_div_mod_eq zero_less_numeral)
  have dm: "(4096 * q + (r * 1024 + j)) div 4096 = q" "(4096 * q + (r * 1024 + j)) mod 4096 = r * 1024 + j"
    using n(2) assms by simp_all
  have eq: "n * 1024 + j = 4096 * q + (r * 1024 + j)" "n div 4 = q" "n mod 4 = r" using n by simp_all
  show "rd_path (n * 1024 + j) = [n div 4 div 512, n div 4 mod 512]" "(n * 1024 + j) mod 4096 = n mod 4 * 1024 + j"
    unfolding rd_path_def eq dm by (rule refl)+
qed

lemma ramdisk_walk_run:
  fixes s :: rdisk
  assumes inv: "rd_inv lo hi s free d" and n: "n \<le> nblocks s" and free: "2 \<le> length free"
  obtains s' free' d' b where "ramdisk_walk n s = (Inr (b, n * BLOCK_SIZE mod PGSIZE), s')" "rd_grown lo hi (page_index_index s) s free d s' free' d'"
    "d' [unat n div 4 div 512, unat n div 4 mod 512] = Some b" "length free \<le> length free' + 2"
proof -
  have tree: "rd_tree lo hi (page_index_index s) s free d" and sz: "unat (nblocks s) < 2 ^ 20" using inv by (simp_all add: rd_inv_def)
  have n20: "unat n < 2 ^ 20" using n sz by (simp add: word_le_nat_alt)
  let ?i = "n * BLOCK_SIZE div PGSIZE div page_capacity" and ?j = "n * BLOCK_SIZE div PGSIZE mod page_capacity"
  note b = block_split [OF n20]
  have "unat n div 4 div 512 < 512" using n20 by (simp add: div_mult2_eq [symmetric] less_mult_imp_div_less)
  then have i: "unat ?i < 512" and j: "unat ?j < 512" unfolding b by simp_all
  obtain s1 free1 d1 b1 where 1: "slot_page (page_index_index s + 8 * ?i) s = (Inr b1, s1)" "rd_grown lo hi (page_index_index s) s free d s1 free1 d1"
    "d1 ([] @ [unat ?i]) = Some b1" "length free \<le> Suc (length free1)"
    by (rule slot_page_run [OF tree tree_invD(2) [OF tree] _ i]) (use free in auto)
  have tree1: "rd_tree lo hi (page_index_index s) s1 free1 d1" using 1(2) by (simp add: rd_grown_def)
  have "free1 \<noteq> []" using 1(4) free by auto
  then obtain s2 free2 d2 b2 where 2: "slot_page (b1 + 8 * ?j) s1 = (Inr b2, s2)" "rd_grown lo hi (page_index_index s) s1 free1 d1 s2 free2 d2"
    "d2 (([] @ [unat ?i]) @ [unat ?j]) = Some b2" "length free1 \<le> Suc (length free2)"
    by (rule slot_page_run [OF tree1 1(3) _ j, rotated]) simp_all
  have "ramdisk_walk n s = (Inr (b2, n * BLOCK_SIZE mod PGSIZE), s2)"
    using 1(1) 2(1) n by (simp add: ramdisk_walk_def Let_def not_less)
  moreover have "d2 [unat n div 4 div 512, unat n div 4 mod 512] = Some b2" using 2(3) b by simp
  ultimately show thesis using that rd_grown_trans [OF 1(2) 2(2)] 1(4) 2(4) by simp
qed

lemma memcpy_run:
  assumes "mapped m p n" "mapped m q n" "p + n \<le> q \<or> q + n \<le> p"
  shows "memcpy q p n m = Some (moved m q p n)"
proof -
  have "moved m q p 0 = m" by (auto simp: moved_def fun_eq_iff)
  then show ?thesis using copy_up_run [of m p 0 n q] assms by (auto simp: memcpy_def)
qed

section \<open>Reading and writing\<close>

text \<open>A buffer of one block in mapped memory, apart from the disk and from the free pages.\<close>

definition buffer_ok :: "mem \<Rightarrow> u64 list \<Rightarrow> ptree \<Rightarrow> u64 \<Rightarrow> bool" where
  "buffer_ok m free d buf \<longleftrightarrow> mapped m (unat buf) 1024
    \<and> (\<forall>j<1024. \<forall>b\<in>ran d \<union> set free. unat buf + j \<notin> frame b)"

lemma rdisk_more:
  fixes s s' :: rdisk
  assumes "mm.more s' = mm.more s"
  shows "page_index_index s' = page_index_index s" "nblocks s' = nblocks s" "reg s' = reg s" "self s' = self s"
  using assms by (cases s; cases s'; simp)+

text \<open>The place of block \<open>n\<close> in its page, once the page is there.\<close>

lemma block_place:
  fixes s :: rdisk
  assumes inv: "rd_inv lo hi s free d" and n: "n \<le> nblocks s" and free: "2 \<le> length free" and buf: "buffer_ok (ram s) free d buf"
  obtains s' free' d' b T where "ramdisk_walk n s = (Inr (b, n * BLOCK_SIZE mod PGSIZE), s')" "rd_inv lo hi s' free' d'"
    "rd_grown lo hi (page_index_index s) s free d s' free' d'"
    "\<forall>j<1024. rd_byte (ram s) d (unat n * 1024 + j) = ram s' (T + j)" "unat (b + n * BLOCK_SIZE mod PGSIZE) = T"
    "\<forall>j<1024. T + j \<in> frame b" "d' [unat n div 4 div 512, unat n div 4 mod 512] = Some b" "T = unat b + unat n mod 4 * 1024"
    "mapped (ram s') T 1024" "mapped (ram s') (unat buf) 1024" "\<forall>j<1024. ram s' (unat buf + j) = ram s (unat buf + j)"
    "T + 1024 \<le> unat buf \<or> unat buf + 1024 \<le> T"
proof -
  obtain s' free' d' b where w: "ramdisk_walk n s = (Inr (b, n * BLOCK_SIZE mod PGSIZE), s')"
    "rd_grown lo hi (page_index_index s) s free d s' free' d'" "d' [unat n div 4 div 512, unat n div 4 mod 512] = Some b" "length free \<le> length free' + 2"
    by (rule ramdisk_walk_run [OF inv n free])
  note g = w(2) [unfolded rd_grown_def]
  have tree: "rd_tree lo hi (page_index_index s) s' free' d'" using g by blast
  note D = tree_invD [OF tree]
  have n20: "unat n < 2 ^ 20" using n inv by (simp add: rd_inv_def word_le_nat_alt)
  let ?T = "unat b + unat n mod 4 * 1024"
  have inv': "rd_inv lo hi s' free' d'" using inv g rdisk_more [of s' s] by (simp add: rd_inv_def)
  have bytes: "\<forall>j<1024. rd_byte (ram s) d (unat n * 1024 + j) = ram s' (?T + j)"
  proof (intro allI impI)
    fix j :: nat assume j: "j < 1024"
    have "rd_byte (ram s) d (unat n * 1024 + j) = rd_byte (ram s') d' (unat n * 1024 + j)" using g by simp
    also have "\<dots> = ram s' (?T + j)" unfolding rd_byte_def block_path [OF j] w(3) by (simp add: add.assoc)
    finally show "rd_byte (ram s) d (unat n * 1024 + j) = ram s' (?T + j)" .
  qed
  have addr: "unat (b + n * BLOCK_SIZE mod PGSIZE) = ?T"
  proof -
    obtain q where q: "unat b = 4096 * q" using D(6) [OF w(3)] by (blast elim: dvdE)
    have "unat b < 4096 * 2 ^ 52" using unsigned_less [of b, where ?'a = nat] by simp
    then have "q < 2 ^ 52" using q by simp
    moreover have "unat n mod 4 * 1024 < 4096" by simp
    ultimately have "unat b + unat (n * BLOCK_SIZE mod PGSIZE) < 2 ^ LENGTH(64)"
      using q block_split(3) [OF n20] by simp
    then show ?thesis using block_split(3) [OF n20] by (subst unat_add_lem [THEN iffD1]) simp_all
  qed
  have off: "unat n mod 4 * 1024 \<le> 3 * 1024" by (intro mult_le_mono1) simp
  then have inb: "\<forall>j<1024. ?T + j \<in> frame b" by (simp add: frame_def)
  have mT: "mapped (ram s') ?T 1024" by (rule mapped_sub [OF D(10) [OF w(3)]]) (use off in simp)
  have same: "\<forall>j<1024. ram s' (unat buf + j) = ram s (unat buf + j)" using g buf by (simp add: buffer_ok_def)
  then have mb: "mapped (ram s') (unat buf) 1024" using buf by (simp add: buffer_ok_def mapped_def)
  have "b \<in> ran d \<union> set free" using g w(3) by (blast intro: ranI)
  then have out: "\<forall>j<1024. unat buf + j \<notin> frame b" using buf by (simp add: buffer_ok_def)
  have apart: "?T + 1024 \<le> unat buf \<or> unat buf + 1024 \<le> ?T"
  proof (rule ccontr)
    assume a: "\<not> ?thesis"
    show False
    proof (cases "unat buf \<le> ?T")
      case True
      define j where "j = ?T - unat buf"
      have "j < 1024" "unat buf + j = ?T + 0" using True a by (auto simp: j_def)
      then show False using out inb by (metis zero_less_numeral)
    next
      case False
      define j where "j = unat buf - ?T"
      have "j < 1024" "?T + j = unat buf + 0" using False a by (auto simp: j_def)
      then show False using out inb by (metis zero_less_numeral)
    qed
  qed
  show thesis by (rule that [OF w(1) inv' w(2) bytes addr inb w(3) refl mT mb same apart])
qed

lemma mem_memcpy_run:
  assumes "mapped (ram s) (unat p) (unat n)" "mapped (ram s) (unat q) (unat n)" "unat p + unat n \<le> unat q \<or> unat q + unat n \<le> unat p"
  shows "mem_memcpy q p n s = (Inr (), s\<lparr>ram := moved (ram s) (unat q) (unat p) (unat n)\<rparr>)"
  using memcpy_run [OF assms] by (simp add: mem_memcpy_def)

lemma moved_in: "j < n \<Longrightarrow> moved m q p n (q + j) = m (p + j)"
  by (simp add: moved_def)

lemma moved_out: "\<not> (q \<le> x \<and> x < q + n) \<Longrightarrow> moved m q p n x = m x"
  by (auto simp: moved_def)

lemma moved_mapped_block: "mapped m p n \<Longrightarrow> m x \<noteq> None \<Longrightarrow> moved m q p n x \<noteq> None"
  unfolding moved_def mapped_def by (metis add_diff_inverse_nat add_less_cancel_left not_less)

lemma inner_apart:
  assumes inv: "tree_inv valid dec lo hi root s free d" and b: "d q = Some b" "length q = 2" and x: "x \<in> frame b"
  shows "\<not> inner free d x"
proof
  note D = tree_invD [OF inv]
  assume "inner free d x"
  then obtain c where c: "x \<in> frame c" "4096 dvd unat c" "c \<noteq> b"
    using D(1,5,6,7) b unfolding inner_def pool_inv_def page_in_def by (metis less_irrefl)
  then show False using frames_disjoint [OF c(2) D(6) [OF b(1)] c(3)] x by blast
qed

lemma ramdisk_write_run:
  fixes s :: rdisk
  assumes inv: "rd_inv lo hi s free d" and n: "n \<le> nblocks s" and free: "2 \<le> length free" and buf: "buffer_ok (ram s) free d buf"
  shows "\<exists>s' free' d'. ramdisk_write n 1 buf s = (Inr 0, s') \<and> rd_inv lo hi s' free' d'
    \<and> (\<forall>a. rd_byte (ram s') d' a = (if a div 1024 = unat n then ram s (unat buf + a mod 1024) else rd_byte (ram s) d a))"
proof -
  obtain s' free' d' b T where w: "ramdisk_walk n s = (Inr (b, n * BLOCK_SIZE mod PGSIZE), s')" "rd_inv lo hi s' free' d'"
    "rd_grown lo hi (page_index_index s) s free d s' free' d'"
    "\<forall>j<1024. rd_byte (ram s) d (unat n * 1024 + j) = ram s' (T + j)" "unat (b + n * BLOCK_SIZE mod PGSIZE) = T"
    "\<forall>j<1024. T + j \<in> frame b" "d' [unat n div 4 div 512, unat n div 4 mod 512] = Some b" "T = unat b + unat n mod 4 * 1024"
    "mapped (ram s') T 1024" "mapped (ram s') (unat buf) 1024" "\<forall>j<1024. ram s' (unat buf + j) = ram s (unat buf + j)"
    "T + 1024 \<le> unat buf \<or> unat buf + 1024 \<le> T"
    by (rule block_place [OF inv n free buf])
  have tree: "rd_tree lo hi (page_index_index s') s' free' d'" using w(2) by (simp add: rd_inv_def)
  note D = tree_invD [OF tree]
  let ?m = "moved (ram s') T (unat buf) 1024"
  have run: "ramdisk_write n 1 buf s = (Inr 0, s'\<lparr>ram := ?m\<rparr>)"
    using inv w(1,5,9,10,12) by (auto simp: ramdisk_write_def rd_inv_def mem_memcpy_run BLOCK_SIZE_def)
  have "\<forall>x. inner free' d' x \<longrightarrow> ?m x = ram s' x"
  proof (intro allI impI)
    fix x assume "inner free' d' x"
    then have "x \<notin> frame b" using inner_apart [OF tree w(7)] by auto
    then have "\<not> (T \<le> x \<and> x < T + 1024)" using w(6) by (metis add_diff_inverse_nat add_less_cancel_left not_less)
    then show "?m x = ram s' x" by (rule moved_out)
  qed
  moreover have "\<forall>x. ram s' x \<noteq> None \<longrightarrow> ?m x \<noteq> None" using moved_mapped_block [OF w(10)] by blast
  ultimately have "rd_inv lo hi (s'\<lparr>ram := ?m\<rparr>) free' d'" using tree_inv_write [OF tree] w(2) by (simp add: rd_inv_def)
  moreover have "rd_byte ?m d' a = (if a div 1024 = unat n then ram s (unat buf + a mod 1024) else rd_byte (ram s) d a)" for a
  proof (cases "a div 1024 = unat n")
    case True
    define j where "j = a mod 1024"
    have a: "a = unat n * 1024 + j" "j < 1024" using True div_mult_mod_eq [of a 1024] by (simp_all add: j_def)
    have "rd_byte ?m d' (unat n * 1024 + j) = ?m (T + j)" unfolding rd_byte_def block_path [OF a(2)] w(7) by (simp add: w(8) add.assoc)
    then have "rd_byte ?m d' a = ?m (T + j)" by (simp only: a(1) [symmetric])
    also have "\<dots> = ram s' (unat buf + j)" by (rule moved_in [OF a(2)])
    also have "\<dots> = ram s (unat buf + j)" using w(11) a(2) by blast
    finally show ?thesis using True by (simp add: j_def)
  next
    case False
    have "?m (unat b' + a mod 4096) = ram s' (unat b' + a mod 4096)" if b': "d' (rd_path a) = Some b'" for b'
    proof (rule moved_out, rule notI)
      assume x: "T \<le> unat b' + a mod 4096 \<and> unat b' + a mod 4096 < T + 1024"
      then have "unat b' + a mod 4096 \<in> frame b" using w(6) by (metis add_diff_inverse_nat add_less_cancel_left not_less)
      moreover have "unat b' + a mod 4096 \<in> frame b'" by (simp add: frame_def)
      ultimately have "b' = b" using frames_disjoint [OF D(6) [OF b'] D(6) [OF w(7)]] by blast
      then have "rd_path a = [unat n div 4 div 512, unat n div 4 mod 512]" using D(7) b' w(7) by blast
      then have "a div 4096 = unat n div 4" unfolding rd_path_def by (metis div_mult_mod_eq list.inject)
      moreover have "a mod 4096 div 1024 = unat n mod 4" using x \<open>b' = b\<close> w(8) by (intro div_nat_eqI) simp_all
      moreover have "a div 1024 = a div 4096 * 4 + a mod 4096 div 1024"
        using div_mult2_eq [of a 1024 4] mod_mult2_eq [of a 1024 4] by simp
      ultimately show False using False by (metis div_mult_mod_eq)
    qed
    then have "rd_byte ?m d' a = rd_byte (ram s') d' a" by (simp add: rd_byte_def split: option.splits)
    then show ?thesis using False w(3) by (simp add: rd_grown_def)
  qed
  ultimately show ?thesis using run by (intro exI [of _ "s'\<lparr>ram := ?m\<rparr>"] exI [of _ free'] exI [of _ d']) simp
qed

lemma ramdisk_read_run:
  fixes s :: rdisk
  assumes inv: "rd_inv lo hi s free d" and n: "n \<le> nblocks s" and free: "2 \<le> length free" and buf: "buffer_ok (ram s) free d buf"
  shows "\<exists>s' free' d'. ramdisk_read n 1 buf s = (Inr 0, s') \<and> rd_inv lo hi s' free' d'
    \<and> (\<forall>a. rd_byte (ram s') d' a = rd_byte (ram s) d a) \<and> (\<forall>j<1024. ram s' (unat buf + j) = rd_byte (ram s) d (unat n * 1024 + j))"
proof -
  obtain s' free' d' b T where w: "ramdisk_walk n s = (Inr (b, n * BLOCK_SIZE mod PGSIZE), s')" "rd_inv lo hi s' free' d'"
    "rd_grown lo hi (page_index_index s) s free d s' free' d'"
    "\<forall>j<1024. rd_byte (ram s) d (unat n * 1024 + j) = ram s' (T + j)" "unat (b + n * BLOCK_SIZE mod PGSIZE) = T"
    "\<forall>j<1024. T + j \<in> frame b" "d' [unat n div 4 div 512, unat n div 4 mod 512] = Some b" "T = unat b + unat n mod 4 * 1024"
    "mapped (ram s') T 1024" "mapped (ram s') (unat buf) 1024" "\<forall>j<1024. ram s' (unat buf + j) = ram s (unat buf + j)"
    "T + 1024 \<le> unat buf \<or> unat buf + 1024 \<le> T"
    by (rule block_place [OF inv n free buf])
  have tree: "rd_tree lo hi (page_index_index s') s' free' d'" using w(2) by (simp add: rd_inv_def)
  let ?m = "moved (ram s') (unat buf) T 1024"
  have run: "ramdisk_read n 1 buf s = (Inr 0, s'\<lparr>ram := ?m\<rparr>)"
    using inv w(1,5,9,10,12) by (auto simp: ramdisk_read_def rd_inv_def mem_memcpy_run BLOCK_SIZE_def)
  have "set free' \<union> ran d' \<subseteq> ran d \<union> set free" using w(3) by (auto simp: rd_grown_def)
  then have out: "unat buf + j \<notin> frame c" if "j < 1024" "c \<in> set free' \<union> ran d'" for j c
    using buf that unfolding buffer_ok_def by blast
  have keep: "?m x = ram s' x" if "c \<in> set free' \<union> ran d'" "x \<in> frame c" for x c
  proof (rule moved_out, rule notI)
    assume "unat buf \<le> x \<and> x < unat buf + 1024"
    then have "x - unat buf < 1024" "unat buf + (x - unat buf) = x" by linarith+
    then show False using out [of "x - unat buf" c] that by simp
  qed
  have "\<forall>x. inner free' d' x \<longrightarrow> ?m x = ram s' x" using keep by (auto simp: inner_def ran_def)
  moreover have "\<forall>x. ram s' x \<noteq> None \<longrightarrow> ?m x \<noteq> None" using moved_mapped_block [OF w(9)] by blast
  ultimately have "rd_inv lo hi (s'\<lparr>ram := ?m\<rparr>) free' d'" using tree_inv_write [OF tree] w(2) by (simp add: rd_inv_def)
  moreover have "rd_byte ?m d' a = rd_byte (ram s) d a" for a
  proof -
    have "?m (unat c + a mod 4096) = ram s' (unat c + a mod 4096)" if "d' (rd_path a) = Some c" for c
      using that by (intro keep [of c]) (auto simp: frame_def intro: ranI)
    then have "rd_byte ?m d' a = rd_byte (ram s') d' a" by (simp add: rd_byte_def split: option.splits)
    then show ?thesis using w(3) by (simp add: rd_grown_def)
  qed
  moreover have "\<forall>j<1024. ?m (unat buf + j) = rd_byte (ram s) d (unat n * 1024 + j)" using w(4) by (simp add: moved_in)
  ultimately show ?thesis using run by (intro exI [of _ "s'\<lparr>ram := ?m\<rparr>"] exI [of _ free'] exI [of _ d']) simp
qed

section \<open>Properties\<close>

text \<open>
  The ram disk is an array of bytes: with two free pages at hand, writing a block succeeds and
  replaces exactly the 1024 bytes of the block by the buffer, whether or not its page existed;
  reading a block succeeds, fills the buffer with the bytes of the block, and changes no byte of
  the disk.
\<close>

lemma ramdisk_is_byte_array:
  assumes "rd_inv lo hi s free d" "n \<le> nblocks s" "2 \<le> length free" "buffer_ok (ram s) free d buf"
  shows "(\<exists>s' free' d'. ramdisk_write n 1 buf s = (Inr 0, s') \<and> rd_inv lo hi s' free' d'
      \<and> (\<forall>a. rd_byte (ram s') d' a = (if a div 1024 = unat n then ram s (unat buf + a mod 1024) else rd_byte (ram s) d a)))
    \<and> (\<exists>s' free' d'. ramdisk_read n 1 buf s = (Inr 0, s') \<and> rd_inv lo hi s' free' d'
      \<and> (\<forall>a. rd_byte (ram s') d' a = rd_byte (ram s) d a) \<and> (\<forall>j<1024. ram s' (unat buf + j) = rd_byte (ram s) d (unat n * 1024 + j)))"
  using ramdisk_write_run [OF assms] ramdisk_read_run [OF assms] by blast

text \<open>A disk of 64 blocks whose root page is page 1, with pages 2, 3 and 4 free; page 5 holds the buffer.\<close>

definition demo_disk :: rdisk where
  "demo_disk = \<lparr>ram = stored (stored (stored (filled (\<lambda>_. None) 0 0 24576) 8192 12288) 12288 16384) 16384 0,
     kernel_allocator = \<lparr>free_page_list = 8192, free_page_count = 3, start_addr = 4096, end_addr = 20480\<rparr>,
     page_index_index = 4096, nblocks = 64, reg = register_device 0 ramdisk_id \<lparr>device_id = (\<lambda>_. (0, 0)), devices = []\<rparr>, self = 0\<rparr>"

lemma demo_disk_inv: "rd_inv 4096 20480 demo_disk [8192, 12288, 16384] [[] \<mapsto> 4096]"
proof -
  let ?blank = "filled (\<lambda>_. None) 0 0 24576"
  let ?m = "stored (stored (stored ?blank 8192 12288) 12288 16384) 16384 0"
  have "?blank = ram (blank_mm 24576)" by (auto simp: filled_def blank_mm_def)
  then have "pages_mapped 4096 20480 ?blank" using blank_mapped [of 24576 20480 4096] by simp
  then have pm: "pages_mapped 4096 20480 ?m" by simp
  have l: "load64 ?m 8192 = Some 12288" "load64 ?m 12288 = Some 16384" "load64 ?m 16384 = Some 0"
    by (simp_all add: load64_stored_other load64_stored)
  have "load64 ?m (4096 + 8 * i) = Some 0" if "i < 512" for i
  proof -
    have "load64 ?m (4096 + 8 * i) = load64 ?blank (4096 + 8 * i)" using that by (simp add: load64_stored_other)
    also have "\<dots> = Some 0" using that by (intro load64_zeroed) simp_all
    finally show ?thesis .
  qed
  then have "table_ok (\<lambda>e. e \<noteq> 0) (\<lambda>e. e) ?m [[] \<mapsto> 4096] [] 4096" by (simp add: table_ok_def)
  moreover have "pool_inv 4096 20480 demo_disk [8192, 12288, 16384]"
    using pm l by (simp add: pool_inv_def demo_disk_def page_in_def)
  ultimately have "rd_tree 4096 20480 4096 demo_disk [8192, 12288, 16384] [[] \<mapsto> 4096]"
    by (simp add: tree_inv_def demo_disk_def page_in_def)
  then show ?thesis by (simp add: rd_inv_def demo_disk_def register_device_def)
qed

lemma demo_disk_buffer: "buffer_ok (ram demo_disk) [8192, 12288, 16384] [[] \<mapsto> 4096] 20480"
  by (auto simp: buffer_ok_def mapped_def demo_disk_def stored_def filled_def frame_def)

lemma ramdisk_is_byte_array_witness:
  "(\<exists>s' free' d'. ramdisk_write 5 1 20480 demo_disk = (Inr 0, s') \<and> rd_inv 4096 20480 s' free' d'
      \<and> (\<forall>a. rd_byte (ram s') d' a = (if a div 1024 = unat (5 :: u64) then ram demo_disk (unat (20480 :: u64) + a mod 1024)
          else rd_byte (ram demo_disk) [[] \<mapsto> 4096] a)))
    \<and> (\<exists>s' free' d'. ramdisk_read 5 1 20480 demo_disk = (Inr 0, s') \<and> rd_inv 4096 20480 s' free' d'
      \<and> (\<forall>a. rd_byte (ram s') d' a = rd_byte (ram demo_disk) [[] \<mapsto> 4096] a)
      \<and> (\<forall>j<1024. ram s' (unat (20480 :: u64) + j) = rd_byte (ram demo_disk) [[] \<mapsto> 4096] (unat (5 :: u64) * 1024 + j)))"
  by (rule ramdisk_is_byte_array [OF demo_disk_inv _ _ demo_disk_buffer]) (simp_all add: demo_disk_def)

end
