(* ===== verification/Shared_Ptr.thy ===== *)
theory Shared_Ptr
  imports Prelude "HOL-Library.Multiset"
begin

text \<open>
  The reference-counted pointers of \<open>src/os/utils/shared_ptr.h\<close>. A pointer value is a pair of the
  address of the object and the address of its counters, \<open>0\<close> for null. Objects and counters are
  allocated at fresh addresses; using or deleting counters that were deleted, or deleting an
  object twice, is \<open>Undefined\<close>. A program is a sequence of constructions, copies, moves,
  assignments and destructions of pointer variables. The lock inside the counters makes each
  counter operation atomic.
\<close>

section \<open>Counters\<close>

record ref_count_t =
  ref_count :: u32
  weak_count :: u32

record handle =
  h_ptr :: nat
  h_ref :: nat

record sp =
  live :: "nat set"
  counters :: "nat \<Rightarrow> ref_count_t option"
  svars :: "handle option list"
  wvars :: "handle option list"
  next_addr :: nat

definition null_handle :: handle where
  "null_handle = \<lparr>h_ptr = 0, h_ref = 0\<rparr>"

definition get_counters :: "nat \<Rightarrow> (sp, ref_count_t) kmonad" where
  "get_counters r = kbind (kget counters) (\<lambda>m.
    kopt (m r))"

definition set_counters :: "nat \<Rightarrow> ref_count_t \<Rightarrow> (sp, unit) kmonad" where
  "set_counters r c = kmod (\<lambda>s. s\<lparr>counters := (counters s)(r \<mapsto> c)\<rparr>)"

definition inc_ref :: "nat \<Rightarrow> (sp, unit) kmonad" where
  "inc_ref r = kbind (get_counters r) (\<lambda>c.
    set_counters r (c\<lparr>ref_count := ref_count c + 1, weak_count := weak_count c + 1\<rparr>))"

definition dec_ref :: "nat \<Rightarrow> (sp, bool \<times> bool) kmonad" where
  "dec_ref r = kbind (get_counters r) (\<lambda>c.
    kseq (set_counters r (c\<lparr>ref_count := ref_count c - 1, weak_count := weak_count c - 1\<rparr>)) (
    kret (ref_count c - 1 \<noteq> 0, weak_count c - 1 \<noteq> 0)))"

definition get_ref :: "nat \<Rightarrow> (sp, u32) kmonad" where
  "get_ref r = kbind (get_counters r) (\<lambda>c.
    kret (ref_count c))"

definition inc_weak :: "nat \<Rightarrow> (sp, unit) kmonad" where
  "inc_weak r = kbind (get_counters r) (\<lambda>c.
    set_counters r (c\<lparr>weak_count := weak_count c + 1\<rparr>))"

definition dec_weak :: "nat \<Rightarrow> (sp, u32) kmonad" where
  "dec_weak r = kbind (get_counters r) (\<lambda>c.
    kseq (set_counters r (c\<lparr>weak_count := weak_count c - 1\<rparr>)) (
    kret (weak_count c - 1)))"

definition try_inc_ref :: "nat \<Rightarrow> (sp, bool) kmonad" where
  "try_inc_ref r = kbind (get_counters r) (\<lambda>c.
    if ref_count c = 0 then kret False else kseq (set_counters r (c\<lparr>ref_count := ref_count c + 1, weak_count := weak_count c + 1\<rparr>)) (
      kret True))"

definition try_dec_ref :: "nat \<Rightarrow> (sp, bool \<times> bool) kmonad" where
  "try_dec_ref r = kbind (get_counters r) (\<lambda>c.
    if 1 < ref_count c then kret (False, False) else kseq (set_counters r (c\<lparr>ref_count := ref_count c - 1, weak_count := weak_count c - 1\<rparr>)) (
      kret (True, weak_count c - 1 = 0)))"

section \<open>Allocation\<close>

definition new_object :: "(sp, nat) kmonad" where
  "new_object = kbind (kget next_addr) (\<lambda>p.
    kseq (kmod (\<lambda>s. s\<lparr>live := insert p (live s), next_addr := p + 1\<rparr>)) (
    kret p))"

definition delete_object :: "nat \<Rightarrow> (sp, unit) kmonad" where
  "delete_object p = kbind (kget (\<lambda>s. p \<in> live s)) (\<lambda>alive.
    if alive then kmod (\<lambda>s. s\<lparr>live := live s - {p}\<rparr>) else kthrow Undefined)"

definition new_counters :: "(sp, nat) kmonad" where
  "new_counters = kbind (kget next_addr) (\<lambda>r.
    kseq (kmod (\<lambda>s. s\<lparr>counters := (counters s)(r \<mapsto> \<lparr>ref_count = 1, weak_count = 1\<rparr>), next_addr := r + 1\<rparr>)) (
    kret r))"

definition delete_counters :: "nat \<Rightarrow> (sp, unit) kmonad" where
  "delete_counters r = kbind (get_counters r) (\<lambda>c.
    kmod (\<lambda>s. s\<lparr>counters := (counters s)(r := None)\<rparr>))"

section \<open>Weak pointers\<close>

definition weak_release :: "handle \<Rightarrow> (sp, unit) kmonad" where
  "weak_release h = (if h_ref h = 0 then kret () else kbind (dec_weak (h_ref h)) (\<lambda>weak.
    if weak = 0 then delete_counters (h_ref h) else kret ()))"

definition weak_retain :: "handle \<Rightarrow> (sp, unit) kmonad" where
  "weak_retain h = (if h_ref h = 0 then kret () else inc_weak (h_ref h))"

text \<open>\<open>__reset\<close> replaces the value \<open>h\<close> of the variable by \<open>new_h\<close>, which it returns.\<close>

definition weak_reset :: "handle \<Rightarrow> handle \<Rightarrow> (sp, handle) kmonad" where
  "weak_reset h new_h = kseq (weak_release h) (
    kseq (weak_retain new_h) (
    kret new_h))"

definition weak_expired :: "handle \<Rightarrow> (sp, bool) kmonad" where
  "weak_expired h = (if h_ref h = 0 then kret True else kbind (get_ref (h_ref h)) (\<lambda>n.
    kret (n = 0)))"

section \<open>Shared pointers\<close>

text \<open>\<open>on_destroy\<close> is the method of the pointed-to class, if it has one.\<close>

type_synonym destroy_fn = "(nat \<Rightarrow> handle \<Rightarrow> (sp, unit) kmonad) option"

definition try_detach_weak :: "handle \<Rightarrow> (sp, bool \<times> handle) kmonad" where
  "try_detach_weak h = (if h_ptr h = 0 \<or> h_ref h = 0 then kret (False, h) else kbind (try_dec_ref (h_ref h)) (\<lambda>(detach, destroy).
    if detach then kseq (if destroy then delete_counters (h_ref h) else kret ()) (
      kbind new_counters (\<lambda>r.
      kret (True, h\<lparr>h_ref := r\<rparr>))) else kret (False, h)))"

definition shared_release :: "destroy_fn \<Rightarrow> handle \<Rightarrow> (sp, unit) kmonad" where
  "shared_release od h = (if h_ptr h = 0 \<or> h_ref h = 0 then kret () else kbind (case od of None \<Rightarrow> kret h | Some on_destroy \<Rightarrow> kbind (try_detach_weak h) (\<lambda>(detached, h').
    kseq (if detached then kseq (weak_retain h') (
      kseq (on_destroy (h_ptr h') h') (
      weak_release h')) else kret ()) (
    kret h'))) (\<lambda>h'.
    kbind (dec_ref (h_ref h')) (\<lambda>(ref, weak).
    kseq (if \<not> ref then delete_object (h_ptr h') else kret ()) (
    (if \<not> weak then delete_counters (h_ref h') else kret ())))))"

definition shared_retain :: "handle \<Rightarrow> (sp, unit) kmonad" where
  "shared_retain h = (if h_ptr h = 0 \<or> h_ref h = 0 then kret () else inc_ref (h_ref h))"

definition shared_reset_to :: "destroy_fn \<Rightarrow> handle \<Rightarrow> handle \<Rightarrow> (sp, handle) kmonad" where
  "shared_reset_to od h new_h = kseq (shared_release od h) (
    kseq (shared_retain new_h) (
    kret new_h))"

definition shared_reset_weak :: "destroy_fn \<Rightarrow> handle \<Rightarrow> handle \<Rightarrow> (sp, handle) kmonad" where
  "shared_reset_weak od h new_h = kseq (shared_release od h) (
    kbind (try_inc_ref (h_ref new_h)) (\<lambda>ok.
    kret (if ok then new_h else null_handle)))"

definition shared_reset :: "destroy_fn \<Rightarrow> handle \<Rightarrow> nat \<Rightarrow> (sp, handle) kmonad" where
  "shared_reset od h new_ptr = kseq (shared_release od h) (
    if new_ptr = 0 then kret null_handle else kbind new_counters (\<lambda>r.
      kret \<lparr>h_ptr = new_ptr, h_ref = r\<rparr>))"

definition use_count :: "handle \<Rightarrow> (sp, u32) kmonad" where
  "use_count h = (if h_ref h = 0 then kret 0 else get_ref (h_ref h))"

definition make_shared :: "destroy_fn \<Rightarrow> (sp, handle) kmonad" where
  "make_shared od = kbind new_object (\<lambda>p.
    shared_reset od null_handle p)"

definition weak_lock :: "destroy_fn \<Rightarrow> handle \<Rightarrow> (sp, handle) kmonad" where
  "weak_lock od h = (if h_ref h = 0 then kret null_handle else shared_reset_weak od null_handle h)"

section \<open>Programs\<close>

text \<open>
  The variables of a program are numbered; \<open>None\<close> is a variable outside its lifetime. A
  constructor starts from the null members of the class definition.
\<close>

datatype sp_op =
    MakeShared nat | NullShared nat | CopyShared nat nat | MoveShared nat nat
  | AssignShared nat nat | MoveAssignShared nat nat | ResetShared nat | ResetNew nat
  | ConvertShared nat nat | DropShared nat
  | NullWeak nat | WeakOfShared nat nat | CopyWeak nat nat | AssignWeak nat nat | DropWeak nat
  | LockWeak nat nat

definition get_svar :: "nat \<Rightarrow> (sp, handle) kmonad" where
  "get_svar i = kbind (kget (\<lambda>s. if i < length (svars s) then svars s ! i else None)) kopt"

definition set_svar :: "nat \<Rightarrow> handle option \<Rightarrow> (sp, unit) kmonad" where
  "set_svar i h = kmod (\<lambda>s. s\<lparr>svars := (svars s)[i := h]\<rparr>)"

definition get_wvar :: "nat \<Rightarrow> (sp, handle) kmonad" where
  "get_wvar i = kbind (kget (\<lambda>s. if i < length (wvars s) then wvars s ! i else None)) kopt"

definition set_wvar :: "nat \<Rightarrow> handle option \<Rightarrow> (sp, unit) kmonad" where
  "set_wvar i h = kmod (\<lambda>s. s\<lparr>wvars := (wvars s)[i := h]\<rparr>)"

text \<open>The copy constructor, the copy assignment and the two moves of \<open>shared_ptr\<close>.\<close>

definition copy_shared :: "destroy_fn \<Rightarrow> nat \<Rightarrow> nat \<Rightarrow> (sp, unit) kmonad" where
  "copy_shared od i j = kbind (get_svar j) (\<lambda>other.
    kbind (shared_reset_to od null_handle other) (\<lambda>h.
    set_svar i (Some h)))"

definition move_shared :: "nat \<Rightarrow> nat \<Rightarrow> (sp, unit) kmonad" where
  "move_shared i j = kbind (get_svar j) (\<lambda>other.
    kseq (set_svar i (Some other)) (
    set_svar j (Some null_handle)))"

definition assign_shared :: "destroy_fn \<Rightarrow> nat \<Rightarrow> nat \<Rightarrow> (sp, unit) kmonad" where
  "assign_shared od i j = kbind (get_svar i) (\<lambda>this_h.
    kbind (get_svar j) (\<lambda>other.
    kbind (shared_reset_to od this_h other) (\<lambda>h.
    set_svar i (Some h))))"

definition move_assign_shared :: "nat \<Rightarrow> nat \<Rightarrow> (sp, unit) kmonad" where
  "move_assign_shared i j = kbind (get_svar i) (\<lambda>this_h.
    kbind (get_svar j) (\<lambda>other.
    kseq (set_svar i (Some other)) (
    set_svar j (Some this_h))))"

definition convert_shared :: "destroy_fn \<Rightarrow> nat \<Rightarrow> nat \<Rightarrow> (sp, unit) kmonad" where
  "convert_shared od i j = kbind (get_svar j) (\<lambda>other.
    kbind (shared_reset_weak od null_handle other) (\<lambda>h.
    set_svar i (Some h)))"

definition drop_shared :: "destroy_fn \<Rightarrow> nat \<Rightarrow> (sp, unit) kmonad" where
  "drop_shared od i = kbind (get_svar i) (\<lambda>this_h.
    kseq (shared_release od this_h) (
    set_svar i None))"

definition weak_of_shared :: "nat \<Rightarrow> nat \<Rightarrow> (sp, unit) kmonad" where
  "weak_of_shared i j = kbind (get_svar j) (\<lambda>other.
    kbind (weak_reset null_handle other) (\<lambda>h.
    set_wvar i (Some h)))"

definition copy_weak :: "nat \<Rightarrow> nat \<Rightarrow> (sp, unit) kmonad" where
  "copy_weak i j = kbind (get_wvar j) (\<lambda>other.
    kbind (weak_reset null_handle other) (\<lambda>h.
    set_wvar i (Some h)))"

definition assign_weak :: "nat \<Rightarrow> nat \<Rightarrow> (sp, unit) kmonad" where
  "assign_weak i j = kbind (get_wvar i) (\<lambda>this_h.
    kbind (get_wvar j) (\<lambda>other.
    kbind (weak_reset this_h other) (\<lambda>h.
    set_wvar i (Some h))))"

definition drop_weak :: "nat \<Rightarrow> (sp, unit) kmonad" where
  "drop_weak i = kbind (get_wvar i) (\<lambda>this_h.
    kseq (weak_release this_h) (
    set_wvar i None))"

fun exec_op :: "destroy_fn \<Rightarrow> sp_op \<Rightarrow> (sp, unit) kmonad" where
  "exec_op od (MakeShared i) = kbind (make_shared od) (\<lambda>h.
    set_svar i (Some h))"
| "exec_op od (NullShared i) = kbind (shared_reset od null_handle 0) (\<lambda>h.
  set_svar i (Some h))"
| "exec_op od (CopyShared i j) = copy_shared od i j"
| "exec_op od (MoveShared i j) = move_shared i j"
| "exec_op od (AssignShared i j) = assign_shared od i j"
| "exec_op od (MoveAssignShared i j) = move_assign_shared i j"
| "exec_op od (ResetShared i) = kbind (get_svar i) (\<lambda>this_h.
  kbind (shared_reset od this_h 0) (\<lambda>h.
  set_svar i (Some h)))"
| "exec_op od (ResetNew i) = kbind (get_svar i) (\<lambda>this_h.
  kbind new_object (\<lambda>p.
  kbind (shared_reset od this_h p) (\<lambda>h.
  set_svar i (Some h))))"
| "exec_op od (ConvertShared i j) = convert_shared od i j"
| "exec_op od (DropShared i) = drop_shared od i"
| "exec_op od (NullWeak i) = set_wvar i (Some null_handle)"
| "exec_op od (WeakOfShared i j) = weak_of_shared i j"
| "exec_op od (CopyWeak i j) = copy_weak i j"
| "exec_op od (AssignWeak i j) = assign_weak i j"
| "exec_op od (DropWeak i) = drop_weak i"
| "exec_op od (LockWeak i j) = kbind (get_wvar j) (\<lambda>this_h.
  kbind (weak_lock od this_h) (\<lambda>h.
  set_svar i (Some h)))"

text \<open>
  A construction needs a variable outside its lifetime, every other use a variable inside it. A
  pointer is not assigned to itself, and a null pointer is not converted.
\<close>

definition is_dead :: "handle option list \<Rightarrow> nat \<Rightarrow> bool" where
  "is_dead vs i \<longleftrightarrow> i < length vs \<and> vs ! i = None"

definition is_alive :: "handle option list \<Rightarrow> nat \<Rightarrow> bool" where
  "is_alive vs i \<longleftrightarrow> i < length vs \<and> vs ! i \<noteq> None"

fun op_ok :: "sp \<Rightarrow> sp_op \<Rightarrow> bool" where
  "op_ok s (MakeShared i) = is_dead (svars s) i"
| "op_ok s (NullShared i) = is_dead (svars s) i"
| "op_ok s (CopyShared i j) = (is_dead (svars s) i \<and> is_alive (svars s) j)"
| "op_ok s (MoveShared i j) = (is_dead (svars s) i \<and> is_alive (svars s) j)"
| "op_ok s (AssignShared i j) = (is_alive (svars s) i \<and> is_alive (svars s) j \<and> i \<noteq> j)"
| "op_ok s (MoveAssignShared i j) = (is_alive (svars s) i \<and> is_alive (svars s) j)"
| "op_ok s (ResetShared i) = is_alive (svars s) i"
| "op_ok s (ResetNew i) = is_alive (svars s) i"
| "op_ok s (ConvertShared i j) =
     (is_dead (svars s) i \<and> is_alive (svars s) j \<and> h_ref (the (svars s ! j)) \<noteq> 0)"
| "op_ok s (DropShared i) = is_alive (svars s) i"
| "op_ok s (NullWeak i) = is_dead (wvars s) i"
| "op_ok s (WeakOfShared i j) = (is_dead (wvars s) i \<and> is_alive (svars s) j)"
| "op_ok s (CopyWeak i j) = (is_dead (wvars s) i \<and> is_alive (wvars s) j)"
| "op_ok s (AssignWeak i j) = (is_alive (wvars s) i \<and> is_alive (wvars s) j \<and> i \<noteq> j)"
| "op_ok s (DropWeak i) = is_alive (wvars s) i"
| "op_ok s (LockWeak i j) = (is_dead (svars s) i \<and> is_alive (wvars s) j)"

definition sp_start :: "nat \<Rightarrow> nat \<Rightarrow> sp" where
  "sp_start n m = \<lparr>live = {}, counters = (\<lambda>_. None), svars = replicate n None,
    wvars = replicate m None, next_addr = 1\<rparr>"

inductive sp_reach :: "destroy_fn \<Rightarrow> nat \<Rightarrow> nat \<Rightarrow> sp \<Rightarrow> bool" for od n m where
  sp_reach_start: "sp_reach od n m (sp_start n m)"
| sp_reach_step: "\<lbrakk>sp_reach od n m s; op_ok s q; exec_op od q s = (r, s')\<rbrakk> \<Longrightarrow> sp_reach od n m s'"

section \<open>Invariant\<close>

text \<open>
  \<open>spinv obj s R S W\<close>: the shared pointers in existence are \<open>S\<close>, the weak ones \<open>W\<close>, and \<open>R\<close> are the
  objects no pointer owns yet. \<open>obj\<close> gives the object of each counter.
\<close>

definition refs :: "handle multiset \<Rightarrow> nat \<Rightarrow> nat" where
  "refs H r = size (filter_mset (\<lambda>h. h_ref h = r) H)"

definition counters_of :: "handle multiset \<Rightarrow> handle multiset \<Rightarrow> nat \<Rightarrow> ref_count_t option" where
  "counters_of S W r = (if r = 0 \<or> refs S r + refs W r = 0 then None
    else Some \<lparr>ref_count = of_nat (refs S r), weak_count = of_nat (refs S r + refs W r)\<rparr>)"

definition used :: "handle multiset \<Rightarrow> nat set" where
  "used H = {r. r \<noteq> 0 \<and> refs H r \<noteq> 0}"

definition handle_ok :: "(nat \<Rightarrow> nat) \<Rightarrow> nat \<Rightarrow> handle \<Rightarrow> bool" where
  "handle_ok obj n h \<longleftrightarrow> h = null_handle
    \<or> (h_ref h \<noteq> 0 \<and> h_ref h < n \<and> h_ptr h = obj (h_ref h) \<and> h_ptr h \<noteq> 0 \<and> h_ptr h < n)"

definition spinv :: "(nat \<Rightarrow> nat) \<Rightarrow> sp \<Rightarrow> nat set \<Rightarrow> handle multiset \<Rightarrow> handle multiset \<Rightarrow> bool" where
  "spinv obj s R S W \<longleftrightarrow>
    counters s = counters_of S W \<and> live s = obj ` used S \<union> R \<and> obj ` used S \<inter> R = {}
    \<and> inj_on obj (used S)
    \<and> (\<forall>h \<in># S + W. handle_ok obj (next_addr s) h) \<and> R \<subseteq> {p. 0 < p \<and> p < next_addr s}
    \<and> size S + size W < 2 ^ 32 \<and> 0 < next_addr s"

definition present :: "handle option list \<Rightarrow> handle multiset" where
  "present vs = image_mset the (filter_mset (\<lambda>v. v \<noteq> None) (mset vs))"

subsection \<open>Counting\<close>

lemma refs_simps [simp]:
  "refs {#} r = 0"
  "refs (add_mset h H) r = (if h_ref h = r then Suc (refs H r) else refs H r)"
  by (simp_all add: refs_def)

lemma refs_le_size: "refs H r \<le> size H"
  by (simp add: refs_def size_filter_mset_lesseq)

lemma refs_pos: "h \<in># H \<Longrightarrow> refs H (h_ref h) \<noteq> 0"
  by (metis Suc_neq_Zero insert_DiffM refs_simps(2))

lemma null_handle_sel [simp]: "h_ref null_handle = 0" "h_ptr null_handle = 0"
  by (simp_all add: null_handle_def)

lemma counters_of_null [simp]:
  "h_ref h = 0 \<Longrightarrow> counters_of (add_mset h S) W = counters_of S W"
  "h_ref h = 0 \<Longrightarrow> counters_of S (add_mset h W) = counters_of S W"
  by (auto simp: counters_of_def fun_eq_iff)

lemma counters_of_upd:
  "h_ref h \<noteq> 0 \<Longrightarrow> counters_of (add_mset h S) W
    = (counters_of S W)(h_ref h \<mapsto> \<lparr>ref_count = of_nat (Suc (refs S (h_ref h))),
        weak_count = of_nat (Suc (refs S (h_ref h) + refs W (h_ref h)))\<rparr>)"
  "h_ref h \<noteq> 0 \<Longrightarrow> counters_of S (add_mset h W)
    = (counters_of S W)(h_ref h \<mapsto> \<lparr>ref_count = of_nat (refs S (h_ref h)),
        weak_count = of_nat (Suc (refs S (h_ref h) + refs W (h_ref h)))\<rparr>)"
  by (auto simp: counters_of_def fun_eq_iff)

lemma used_add [simp]:
  "used (add_mset h H) = (if h_ref h = 0 then used H else insert (h_ref h) (used H))"
  by (auto simp: used_def)

lemma used_iff: "r \<in> used H \<longleftrightarrow> r \<noteq> 0 \<and> refs H r \<noteq> 0"
  by (simp add: used_def)

lemma of_nat_refs_0_iff:
  assumes "n < 2 ^ 32"
  shows "(of_nat n :: u32) = 0 \<longleftrightarrow> n = 0"
proof
  assume "(of_nat n :: u32) = 0"
  then have "unat (of_nat n :: u32) = 0" by (simp only: unat_0)
  moreover have "unat (of_nat n :: u32) = n" using assms by (intro unat_of_nat_lt) simp
  ultimately show "n = 0" by simp
qed simp

subsection \<open>Counter operations\<close>

lemma get_counters_run: "counters s r = Some c \<Longrightarrow> get_counters r s = (Inr c, s)"
  by (simp add: get_counters_def)

lemma set_counters_run: "set_counters r c s = (Inr (), s\<lparr>counters := (counters s)(r \<mapsto> c)\<rparr>)"
  by (simp add: set_counters_def)

lemma delete_counters_run:
  "counters s r = Some c \<Longrightarrow> delete_counters r s = (Inr (), s\<lparr>counters := (counters s)(r := None)\<rparr>)"
  by (simp add: delete_counters_def get_counters_run)

lemma delete_object_run:
  "p \<in> live s \<Longrightarrow> delete_object p s = (Inr (), s\<lparr>live := live s - {p}\<rparr>)"
  by (simp add: delete_object_def)

lemmas counter_ops = get_counters_run set_counters_run delete_counters_run delete_object_run
  inc_ref_def dec_ref_def get_ref_def inc_weak_def dec_weak_def try_inc_ref_def try_dec_ref_def

subsection \<open>Acquiring and releasing\<close>

text \<open>The counters of a pointer in existence, and what the invariant says of it.\<close>

lemma spinv_shared:
  assumes "spinv obj s R (add_mset h S) W" and "h_ref h = r" and "r \<noteq> 0"
  shows "counters s r = Some \<lparr>ref_count = of_nat (Suc (refs S r)),
      weak_count = of_nat (Suc (refs S r + refs W r))\<rparr>"
    and "h_ptr h = obj r" and "obj r \<noteq> 0" and "obj r \<in> live s"
    and "refs S r + refs W r < 2 ^ 32"
  using assms refs_le_size [of S r] refs_le_size [of W r]
  by (auto simp: spinv_def counters_of_upd handle_ok_def)

lemma release_none_run:
  assumes inv: "spinv obj s R (add_mset h S) W"
  shows "shared_release None h s
    = (Inr (), s\<lparr>live := obj ` used S \<union> R, counters := counters_of S W\<rparr>)"
proof (cases "h_ref h = 0")
  case True
  then have "live s = obj ` used S \<union> R" "counters s = counters_of S W"
    using inv by (simp_all add: spinv_def)
  then show ?thesis using True by (simp add: shared_release_def)
next
  case False
  define r where "r = h_ref h"
  have r: "h_ref h = r" "r \<noteq> 0" using False by (simp_all add: r_def)
  note h = spinv_shared [OF inv r]
  have upd: "counters s = (counters_of S W)(r \<mapsto> \<lparr>ref_count = of_nat (Suc (refs S r)),
      weak_count = of_nat (Suc (refs S r + refs W r))\<rparr>)"
    and live: "live s = insert (obj r) (obj ` used S) \<union> R"
    and inj: "inj_on obj (insert r (used S))" and fresh: "obj r \<notin> R"
    using inv r by (auto simp: spinv_def counters_of_upd)
  have zero: "(of_nat (refs S r) :: u32) = 0 \<longleftrightarrow> refs S r = 0"
    "(of_nat (refs S r + refs W r) :: u32) = 0 \<longleftrightarrow> refs S r + refs W r = 0"
    using h(5) by (intro of_nat_refs_0_iff; simp)+
  have keep: "counters_of S W r = (if refs S r + refs W r = 0 then None else
      Some \<lparr>ref_count = of_nat (refs S r), weak_count = of_nat (refs S r + refs W r)\<rparr>)"
    using r by (simp add: counters_of_def)
  have last: "insert (obj r) (obj ` used S) \<union> R - {obj r} = obj ` used S \<union> R" if "refs S r = 0"
  proof -
    have "r \<notin> used S" using that by (simp add: used_iff)
    then have "obj r \<notin> obj ` used S" using inj by (auto dest: inj_onD)
    then show ?thesis using fresh by blast
  qed
  have more: "insert (obj r) (obj ` used S) = obj ` used S" if "refs S r \<noteq> 0"
    using that r by (simp add: used_iff insert_absorb)
  define s1 where "s1 = s\<lparr>counters := (counters s)(r \<mapsto>
    \<lparr>ref_count = of_nat (refs S r), weak_count = of_nat (refs S r + refs W r)\<rparr>)\<rparr>"
  have dec: "dec_ref r s = (Inr (refs S r \<noteq> 0, refs S r + refs W r \<noteq> 0), s1)"
    unfolding zero [symmetric] s1_def by (simp add: dec_ref_def counter_ops h(1))
  have s1: "live s1 = live s" "counters s1 r \<noteq> None" "obj r \<in> live s1"
    using h(4) by (simp_all add: s1_def)
  have del: "(if refs S r = 0 then delete_object (obj r) else kret ()) s1
      = (Inr (), s1\<lparr>live := obj ` used S \<union> R\<rparr>)"
    using s1(1,3) last more live by (cases "refs S r = 0") (simp_all add: delete_object_run)
  have cnt: "(if refs S r = 0 \<and> refs W r = 0 then delete_counters r else kret ()) (s1\<lparr>live := L\<rparr>)
      = (Inr (), s1\<lparr>live := L, counters := counters_of S W\<rparr>)" for L
    using s1(2) keep upd r
    by (auto simp: delete_counters_run s1_def counters_of_def fun_eq_iff)
  have "s1\<lparr>live := L, counters := C\<rparr> = s\<lparr>live := L, counters := C\<rparr>" for L C by (simp add: s1_def)
  then show ?thesis
    using h(2,3) r by (simp add: shared_release_def dec del cnt split del: if_split cong: if_cong)
qed

text \<open>
  A class whose \<open>on_destroy\<close> leaves the pointers alone is destroyed as one without it: the last
  pointer moves to counters of its own first, which are deleted with it.
\<close>

definition quiet :: "destroy_fn \<Rightarrow> bool" where
  "quiet od \<longleftrightarrow> (case od of None \<Rightarrow> True | Some f \<Rightarrow> \<forall>p h s. f p h s = (Inr (), s))"

lemma handle_ok_ref: "\<lbrakk>handle_ok obj n h; 0 < n\<rbrakk> \<Longrightarrow> h_ref h < n"
  by (auto simp: handle_ok_def)

lemma counters_of_fresh:
  assumes "spinv obj s R S W" and "next_addr s \<le> r"
  shows "counters_of S W r = None" and "refs S r = 0" and "refs W r = 0" and "r \<noteq> 0"
proof -
  have ok: "\<forall>h \<in># S + W. h_ref h < next_addr s" and n: "0 < next_addr s"
    using assms(1) by (auto simp: spinv_def intro: handle_ok_ref [of obj])
  then have "h_ref h \<noteq> r" if "h \<in># S + W" for h using assms(2) that by fastforce
  then show "refs S r = 0" "refs W r = 0" by (auto simp: refs_def filter_mset_eq_conv)
  then show "counters_of S W r = None" by (simp add: counters_of_def)
  show "r \<noteq> 0" using n assms(2) by simp
qed

lemma new_counters_run:
  "new_counters s = (Inr (next_addr s), s\<lparr>next_addr := next_addr s + 1,
    counters := (counters s)(next_addr s \<mapsto> \<lparr>ref_count = 1, weak_count = 1\<rparr>)\<rparr>)"
  by (simp add: new_counters_def)

lemma detach_shared:
  assumes inv: "spinv obj s R (add_mset h S) W" and r: "h_ref h = r" and "refs S r \<noteq> 0"
  shows "try_detach_weak h s = (Inr (False, h), s)"
proof (cases "r = 0")
  case False
  note h = spinv_shared [OF inv r False]
  have "Suc (refs S r) < 2 ^ 32" using inv refs_le_size [of S r] by (simp add: spinv_def)
  then have "unat (of_nat (Suc (refs S r)) :: u32) = Suc (refs S r)"
    by (intro unat_of_nat_lt) simp
  then have "(1 :: u32) < of_nat (Suc (refs S r))"
    using assms(3) by (simp add: word_less_nat_alt del: of_nat_Suc)
  then show ?thesis
    using h r by (simp add: try_detach_weak_def try_dec_ref_def get_counters_run del: of_nat_Suc of_nat_add)
qed (use r in \<open>simp add: try_detach_weak_def\<close>)

lemma detach_sole:
  assumes inv: "spinv obj s R (add_mset h S) W" and r: "h_ref h = r" "r \<noteq> 0" and sole: "refs S r = 0"
  shows "try_detach_weak h s = (Inr (True, h\<lparr>h_ref := next_addr s\<rparr>), s\<lparr>next_addr := next_addr s + 1,
    counters := (counters_of S W)(next_addr s \<mapsto> \<lparr>ref_count = 1, weak_count = 1\<rparr>)\<rparr>)"
proof -
  note h = spinv_shared [OF inv r]
  have zero: "(of_nat (refs W r) :: u32) = 0 \<longleftrightarrow> refs W r = 0"
    using h(5) by (intro of_nat_refs_0_iff) simp
  have upd: "counters s = (counters_of S W)(r \<mapsto> \<lparr>ref_count = 1, weak_count = of_nat (Suc (refs W r))\<rparr>)"
    using inv r sole by (auto simp: spinv_def counters_of_upd)
  have keep: "counters_of S W r = (if refs W r = 0 then None else
      Some \<lparr>ref_count = 0, weak_count = of_nat (refs W r)\<rparr>)"
    using r sole by (simp add: counters_of_def)
  show ?thesis
    using h(2,3) r zero keep
    by (cases "refs W r = 0")
      (simp_all add: try_detach_weak_def counter_ops upd new_counters_run fun_upd_idem)
qed

lemma release_run:
  assumes inv: "spinv obj s R (add_mset h S) W" and q: "quiet od"
  obtains n where "next_addr s \<le> n" and "shared_release od h s
    = (Inr (), s\<lparr>live := obj ` used S \<union> R, counters := counters_of S W, next_addr := n\<rparr>)"
proof (cases od)
  case None
  then have "shared_release od h s = (Inr (), s\<lparr>live := obj ` used S \<union> R, counters := counters_of S W,
      next_addr := next_addr s\<rparr>)"
    using release_none_run [OF inv] by simp
  then show thesis using that by blast
next
  case (Some f)
  then have f: "\<forall>p h s. f p h s = (Inr (), s)" using q by (simp add: quiet_def)
  define r where "r = h_ref h"
  consider "r = 0" | "refs S r \<noteq> 0" | "r \<noteq> 0" "refs S r = 0" by blast
  then show thesis
  proof cases
    case 1
    then have "shared_release od h s = shared_release None h s"
      by (simp add: shared_release_def r_def)
    then show thesis using that [of "next_addr s"] release_none_run [OF inv] by simp
  next
    case 2
    then have "shared_release od h s = shared_release None h s"
      using detach_shared [OF inv] by (simp add: shared_release_def r_def Some)
    then show thesis using that [of "next_addr s"] release_none_run [OF inv] by simp
  next
    case 3
    note h = spinv_shared [OF inv r_def [symmetric] 3(1)]
    have new: "next_addr s \<noteq> 0" "counters_of S W (next_addr s) = None"
      using counters_of_fresh [OF inv order_refl] r_def
      by (auto simp: counters_of_def split: if_splits)
    have live: "live s - {obj r} = obj ` used S \<union> R"
    proof -
      have "r \<notin> used S" using 3 by (simp add: used_iff)
      then have "obj r \<notin> obj ` used S \<union> R" and "live s = insert (obj r) (obj ` used S \<union> R)"
        using inv 3(1) by (auto simp: spinv_def r_def [symmetric] dest: inj_onD)
      then show ?thesis by blast
    qed
    have "shared_release od h s = (Inr (), s\<lparr>live := obj ` used S \<union> R,
        counters := counters_of S W, next_addr := next_addr s + 1\<rparr>)"
      using h(2-4) 3(1) new detach_sole [OF inv r_def [symmetric] 3] f live
      by (simp add: shared_release_def Some weak_retain_def weak_release_def counter_ops r_def [symmetric]
          fun_upd_idem)
    then show thesis using that [of "next_addr s + 1"] by simp
  qed
qed

subsection \<open>Rules\<close>

text \<open>
  \<open>runs P m Q\<close>: from a state in \<open>P\<close>, \<open>m\<close> returns without failure in a state in \<open>Q\<close>. \<open>own\<close> is the
  invariant together with the values of the variables.
\<close>

definition runs :: "('s \<Rightarrow> bool) \<Rightarrow> ('s, 'a) kmonad \<Rightarrow> ('a \<Rightarrow> 's \<Rightarrow> bool) \<Rightarrow> bool" where
  "runs P m Q \<longleftrightarrow> (\<forall>s. P s \<longrightarrow> (\<exists>x s'. m s = (Inr x, s') \<and> Q x s'))"

definition own :: "handle option list \<Rightarrow> handle option list \<Rightarrow> nat set \<Rightarrow> handle multiset
    \<Rightarrow> handle multiset \<Rightarrow> sp \<Rightarrow> bool" where
  "own vs ws R S W s \<longleftrightarrow> svars s = vs \<and> wvars s = ws \<and> (\<exists>obj. spinv obj s R S W)"

lemma runs_bind: "\<lbrakk>runs P m Q; \<And>x. runs (Q x) (f x) T\<rbrakk> \<Longrightarrow> runs P (kbind m f) T"
  by (fastforce simp: runs_def)

lemma runs_seq: "\<lbrakk>runs P m (\<lambda>_. Q); runs Q n T\<rbrakk> \<Longrightarrow> runs P (kseq m n) T"
  by (fastforce simp: runs_def)

lemma runs_ret: "runs (P x) (kret x) P"
  by (simp add: runs_def)

lemma runs_pre: "\<lbrakk>runs P m Q; \<And>s. P' s \<Longrightarrow> P s\<rbrakk> \<Longrightarrow> runs P' m Q"
  by (auto simp: runs_def)

lemma runs_if: "\<lbrakk>b \<Longrightarrow> runs P m Q; \<not> b \<Longrightarrow> runs P n Q\<rbrakk> \<Longrightarrow> runs P (if b then m else n) Q"
  by simp

lemma runs_imp: "(b \<Longrightarrow> runs P m Q) \<Longrightarrow> runs (\<lambda>s. b \<and> P s) m Q"
  by (auto simp: runs_def)

lemma spinv_vars [simp]:
  "spinv obj (s\<lparr>svars := vs\<rparr>) R S W = spinv obj s R S W"
  "spinv obj (s\<lparr>wvars := ws\<rparr>) R S W = spinv obj s R S W"
  by (simp_all add: spinv_def)

lemma own_null:
  "\<lbrakk>own vs ws R S W s; size S + size W + 1 < 2 ^ 32\<rbrakk> \<Longrightarrow> own vs ws R (add_mset null_handle S) W s"
  "\<lbrakk>own vs ws R S W s; size S + size W + 1 < 2 ^ 32\<rbrakk> \<Longrightarrow> own vs ws R S (add_mset null_handle W) s"
  by (auto simp: own_def spinv_def handle_ok_def)

lemma handle_ok_mono: "\<lbrakk>handle_ok obj n h; n \<le> n'\<rbrakk> \<Longrightarrow> handle_ok obj n' h"
  by (auto simp: handle_ok_def)

lemma release_own:
  assumes "quiet od"
  shows "runs (own vs ws R (add_mset h S) W) (shared_release od h) (\<lambda>_. own vs ws R S W)"
  unfolding runs_def
proof (intro allI impI)
  fix s assume "own vs ws R (add_mset h S) W s"
  then obtain obj where inv: "spinv obj s R (add_mset h S) W" and vars: "svars s = vs" "wvars s = ws"
    by (auto simp: own_def)
  from inv assms obtain n where n: "next_addr s \<le> n" and run: "shared_release od h s
      = (Inr (), s\<lparr>live := obj ` used S \<union> R, counters := counters_of S W, next_addr := n\<rparr>)"
    by (rule release_run)
  have "spinv obj (s\<lparr>live := obj ` used S \<union> R, counters := counters_of S W, next_addr := n\<rparr>) R S W"
    using inv n by (auto simp: spinv_def intro: handle_ok_mono inj_on_subset split: if_splits)
  then show "\<exists>x s'. shared_release od h s = (Inr x, s') \<and> own vs ws R S W s'"
    using run vars by (auto simp: own_def)
qed

text \<open>A pointer to the object of another one is a pointer of the invariant.\<close>

lemma spinv_add_shared:
  assumes inv: "spinv obj s R S W" and h: "h \<in># S + W" and r: "h_ref h = r" "r \<noteq> 0" "refs S r \<noteq> 0"
    and sz: "size S + size W + 1 < 2 ^ 32"
  shows "spinv obj (s\<lparr>counters := counters_of (add_mset h S) W\<rparr>) R (add_mset h S) W"
proof -
  have "used (add_mset h S) = used S" using r by (simp add: used_iff insert_absorb)
  then show ?thesis using assms by (auto simp: spinv_def)
qed

lemma spinv_counters:
  assumes inv: "spinv obj s R S W" and h: "h \<in># S + W" and r: "h_ref h = r" "r \<noteq> 0"
  shows "counters s r = Some \<lparr>ref_count = of_nat (refs S r), weak_count = of_nat (refs S r + refs W r)\<rparr>"
    and "h_ptr h \<noteq> 0"
proof -
  have "refs S r + refs W r \<noteq> 0" using h r refs_pos [of h S] refs_pos [of h W] by auto
  then show "counters s r = Some \<lparr>ref_count = of_nat (refs S r), weak_count = of_nat (refs S r + refs W r)\<rparr>"
    using inv r by (simp add: spinv_def counters_of_def)
  have "handle_ok obj (next_addr s) h" using inv h by (auto simp: spinv_def)
  then show "h_ptr h \<noteq> 0" using r by (auto simp: handle_ok_def)
qed

lemma try_inc_own:
  assumes h: "h \<in># S + W" and r: "h_ref h \<noteq> 0" and sz: "size S + size W + 1 < 2 ^ 32"
  shows "runs (own vs ws R S W) (try_inc_ref (h_ref h))
    (\<lambda>ok. own vs ws R (if ok then add_mset h S else S) W)"
  unfolding runs_def
proof (intro allI impI)
  fix s assume "own vs ws R S W s"
  then obtain obj where inv: "spinv obj s R S W" and vars: "svars s = vs" "wvars s = ws"
    by (auto simp: own_def)
  note c = spinv_counters(1) [OF inv h refl r]
  have "refs S (h_ref h) < 2 ^ 32" using sz refs_le_size [of S "h_ref h"] by simp
  then have zero: "(of_nat (refs S (h_ref h)) :: u32) = 0 \<longleftrightarrow> refs S (h_ref h) = 0"
    by (rule of_nat_refs_0_iff)
  show "\<exists>x s'. try_inc_ref (h_ref h) s = (Inr x, s')
      \<and> own vs ws R (if x then add_mset h S else S) W s'"
  proof (cases "refs S (h_ref h) = 0")
    case True
    then show ?thesis using c vars inv by (auto simp: try_inc_ref_def counter_ops own_def)
  next
    case False
    have "counters s = counters_of S W" using inv by (simp add: spinv_def)
    then have "try_inc_ref (h_ref h) s = (Inr True, s\<lparr>counters := counters_of (add_mset h S) W\<rparr>)"
      using c zero False r by (simp add: try_inc_ref_def counter_ops counters_of_upd add.commute add.left_commute)
    then show ?thesis
      using spinv_add_shared [OF inv h refl r False sz] vars by (auto simp: own_def)
  qed
qed

lemma retain_own:
  assumes h: "h = null_handle \<or> h \<in># S" and sz: "size S + size W + 1 < 2 ^ 32"
  shows "runs (own vs ws R S W) (shared_retain h) (\<lambda>_. own vs ws R (add_mset h S) W)"
  unfolding runs_def
proof (intro allI impI)
  fix s assume o: "own vs ws R S W s"
  then obtain obj where inv: "spinv obj s R S W" and vars: "svars s = vs" "wvars s = ws"
    by (auto simp: own_def)
  show "\<exists>x s'. shared_retain h s = (Inr x, s') \<and> own vs ws R (add_mset h S) W s'"
  proof (cases "h_ref h = 0")
    case True
    then have "h = null_handle" using h inv by (auto simp: spinv_def handle_ok_def)
    then show ?thesis using own_null(1) [OF o sz] by (simp add: shared_retain_def)
  next
    case False
    then have h: "h \<in># S" using h by auto
    note c = spinv_counters [OF inv _ refl False, of]
    have hW: "h \<in># S + W" using h by simp
    have "counters s = counters_of S W" using inv by (simp add: spinv_def)
    then have "shared_retain h s = (Inr (), s\<lparr>counters := counters_of (add_mset h S) W\<rparr>)"
      using c [OF hW] False
      by (simp add: shared_retain_def inc_ref_def counter_ops counters_of_upd add.commute add.left_commute)
    then show ?thesis
      using spinv_add_shared [OF inv hW refl False refs_pos [OF h] sz] vars by (auto simp: own_def)
  qed
qed

lemma weak_retain_own:
  assumes h: "h = null_handle \<or> h \<in># S + W" and sz: "size S + size W + 1 < 2 ^ 32"
  shows "runs (own vs ws R S W) (weak_retain h) (\<lambda>_. own vs ws R S (add_mset h W))"
  unfolding runs_def
proof (intro allI impI)
  fix s assume o: "own vs ws R S W s"
  then obtain obj where inv: "spinv obj s R S W" and vars: "svars s = vs" "wvars s = ws"
    by (auto simp: own_def)
  show "\<exists>x s'. weak_retain h s = (Inr x, s') \<and> own vs ws R S (add_mset h W) s'"
  proof (cases "h_ref h = 0")
    case True
    then have "h = null_handle" using h inv by (auto simp: spinv_def handle_ok_def)
    then show ?thesis using own_null(2) [OF o sz] by (simp add: weak_retain_def)
  next
    case False
    then have h: "h \<in># S + W" using h by auto
    have "counters s = counters_of S W" using inv by (simp add: spinv_def)
    then have "weak_retain h s = (Inr (), s\<lparr>counters := counters_of S (add_mset h W)\<rparr>)"
      using spinv_counters [OF inv h refl False] False
      by (simp add: weak_retain_def inc_weak_def counter_ops counters_of_upd add.commute add.left_commute)
    moreover have "spinv obj (s\<lparr>counters := counters_of S (add_mset h W)\<rparr>) R S (add_mset h W)"
      using inv h sz by (auto simp: spinv_def)
    ultimately show ?thesis using vars by (auto simp: own_def)
  qed
qed

lemma weak_release_own:
  "runs (own vs ws R S (add_mset h W)) (weak_release h) (\<lambda>_. own vs ws R S W)"
  unfolding runs_def
proof (intro allI impI)
  fix s assume o: "own vs ws R S (add_mset h W) s"
  then obtain obj where inv: "spinv obj s R S (add_mset h W)" and vars: "svars s = vs" "wvars s = ws"
    by (auto simp: own_def)
  define r where "r = h_ref h"
  have post: "spinv obj (s\<lparr>counters := counters_of S W\<rparr>) R S W"
    using inv by (auto simp: spinv_def)
  have cnt: "counters s = counters_of S (add_mset h W)" using inv by (simp add: spinv_def)
  have "weak_release h s = (Inr (), s\<lparr>counters := counters_of S W\<rparr>)"
  proof (cases "r = 0")
    case True
    then show ?thesis using cnt by (simp add: weak_release_def r_def)
  next
    case False
    have "refs S r + refs W r < 2 ^ 32"
      using inv refs_le_size [of S r] refs_le_size [of W r] by (simp add: spinv_def)
    then have zero: "(of_nat (refs S r + refs W r) :: u32) = 0 \<longleftrightarrow> refs S r + refs W r = 0"
      by (rule of_nat_refs_0_iff)
    have keep: "counters_of S W r = (if refs S r + refs W r = 0 then None else
        Some \<lparr>ref_count = of_nat (refs S r), weak_count = of_nat (refs S r + refs W r)\<rparr>)"
      using False by (simp add: counters_of_def)
    show ?thesis
      using False zero keep
      by (cases "refs S r + refs W r = 0")
        (auto simp: weak_release_def counter_ops cnt counters_of_upd r_def [symmetric] fun_upd_idem)
  qed
  then show "\<exists>x s'. weak_release h s = (Inr x, s') \<and> own vs ws R S W s'"
    using post vars by (auto simp: own_def)
qed

lemma spinv_used:
  assumes inv: "spinv obj s R S W" and r: "r \<in> used S"
  shows "obj r < next_addr s" and "r < next_addr s"
proof -
  obtain h where h: "h \<in># S" "h_ref h = r" "r \<noteq> 0"
    using r by (auto simp: used_iff refs_def filter_mset_eq_conv)
  then have "handle_ok obj (next_addr s) h" using inv by (auto simp: spinv_def)
  then show "obj r < next_addr s" "r < next_addr s" using h by (auto simp: handle_ok_def)
qed

lemma new_object_own:
  "runs (own vs ws R S W) new_object (\<lambda>p s. p \<noteq> 0 \<and> p \<notin> R \<and> own vs ws (insert p R) S W s)"
  unfolding runs_def
proof (intro allI impI)
  fix s assume "own vs ws R S W s"
  then obtain obj where inv: "spinv obj s R S W" and vars: "svars s = vs" "wvars s = ws"
    by (auto simp: own_def)
  define p where "p = next_addr s"
  have fresh: "p \<notin> R" "p \<noteq> 0" using inv by (auto simp: spinv_def p_def)
  have "p \<notin> obj ` used S" using spinv_used(1) [OF inv] by (fastforce simp: p_def)
  then have "spinv obj (s\<lparr>live := insert p (live s), next_addr := p + 1\<rparr>) (insert p R) S W"
    using inv fresh by (auto simp: spinv_def p_def intro: handle_ok_mono)
  then show "\<exists>x s'. new_object s = (Inr x, s') \<and> x \<noteq> 0 \<and> x \<notin> R \<and> own vs ws (insert x R) S W s'"
    using fresh vars by (auto simp: new_object_def own_def p_def)
qed

text \<open>New counters for an object nobody owns make a pointer that owns it.\<close>

lemma new_counters_own:
  assumes p: "p \<noteq> 0" "p \<notin> R" and sz: "size S + size W + 1 < 2 ^ 32"
  shows "runs (own vs ws (insert p R) S W) new_counters
    (\<lambda>r. own vs ws R (add_mset \<lparr>h_ptr = p, h_ref = r\<rparr> S) W)"
  unfolding runs_def
proof (intro allI impI)
  fix s assume "own vs ws (insert p R) S W s"
  then obtain obj where inv: "spinv obj s (insert p R) S W" and vars: "svars s = vs" "wvars s = ws"
    by (auto simp: own_def)
  define r where "r = next_addr s"
  note fresh = counters_of_fresh [OF inv order_refl, folded r_def]
  define obj' where "obj' = obj(r := p)"
  let ?h = "\<lparr>h_ptr = p, h_ref = r\<rparr>"
  have r: "r \<notin> used S" using fresh by (simp add: used_iff)
  then have same: "obj' ` used S = obj ` used S" by (auto simp: obj'_def)
  have pn: "p < r" "p \<notin> obj ` used S" using inv by (auto simp: spinv_def r_def)
  have old: "handle_ok obj' (r + 1) h" if "h \<in># S + W" for h
  proof -
    have "handle_ok obj r h" using inv that by (auto simp: spinv_def r_def)
    then show ?thesis by (auto simp: handle_ok_def obj'_def)
  qed
  have inj: "inj_on obj' (insert r (used S))"
    using inv r pn by (auto simp: spinv_def obj'_def inj_on_def)
  have "counters_of (add_mset ?h S) W = (counters s)(r \<mapsto> \<lparr>ref_count = 1, weak_count = 1\<rparr>)"
    using inv fresh by (simp add: counters_of_upd spinv_def)
  then have "spinv obj' (s\<lparr>next_addr := r + 1,
      counters := (counters s)(r \<mapsto> \<lparr>ref_count = 1, weak_count = 1\<rparr>)\<rparr>) R (add_mset ?h S) W"
    using inv fresh(4) p pn sz old inj same
    by (auto simp: spinv_def r_def [symmetric] handle_ok_def [of _ _ ?h]) (auto simp: obj'_def)
  then show "\<exists>x s'. new_counters s = (Inr x, s')
      \<and> own vs ws R (add_mset \<lparr>h_ptr = p, h_ref = x\<rparr> S) W s'"
    using vars by (auto simp: new_counters_run own_def r_def)
qed

subsection \<open>Variables\<close>

lemma present_update:
  assumes "i < length vs"
  shows "present (vs[i := Some h]) = add_mset h (present (vs[i := None]))"
  using assms by (auto simp: present_def mset_update split: option.splits)

lemma present_alive:
  assumes "is_alive vs i"
  obtains h where "vs ! i = Some h" and "i < length vs"
    and "present vs = add_mset h (present (vs[i := None]))"
proof -
  obtain h where h: "vs ! i = Some h" "i < length vs" using assms by (auto simp: is_alive_def)
  then have "vs = vs[i := Some h]" by (metis list_update_id)
  then show thesis using that [OF h] present_update [OF h(2), of h] by simp
qed

lemma present_dead: "is_dead vs i \<Longrightarrow> present (vs[i := Some h]) = add_mset h (present vs)"
  by (metis is_dead_def list_update_id present_update)

lemma present_other:
  assumes "is_alive vs j" and "i \<noteq> j"
  shows "the (vs ! j) \<in># present (vs[i := None])"
proof -
  have "vs[i := None] ! j \<in> set (vs[i := None])"
    using assms by (intro nth_mem) (simp add: is_alive_def)
  moreover have "vs[i := None] ! j \<noteq> None" using assms by (simp add: is_alive_def)
  ultimately show ?thesis using assms by (force simp: present_def)
qed

lemma size_present: "size (present vs) \<le> length vs"
  by (metis present_def size_image_mset size_filter_mset_lesseq size_mset)

lemma size_present_dead: "i < length vs \<Longrightarrow> size (present (vs[i := None])) < length vs"
  using size_present [of "vs[i := Some h]" for h] present_update by fastforce

lemma get_var_own:
  "is_alive vs i \<Longrightarrow> runs (own vs ws R S W) (get_svar i) (\<lambda>h s. h = the (vs ! i) \<and> own vs ws R S W s)"
  "is_alive ws i \<Longrightarrow> runs (own vs ws R S W) (get_wvar i) (\<lambda>h s. h = the (ws ! i) \<and> own vs ws R S W s)"
  by (auto simp: runs_def own_def get_svar_def get_wvar_def is_alive_def)

lemma set_var_own:
  "runs (own vs ws R S W) (set_svar i h) (\<lambda>_. own (vs[i := h]) ws R S W)"
  "runs (own vs ws R S W) (set_wvar i h) (\<lambda>_. own vs (ws[i := h]) R S W)"
  by (auto simp: runs_def own_def set_svar_def set_wvar_def)

subsection \<open>Operations on a variable\<close>

lemma reset_to_own:
  assumes "quiet od" and "g = null_handle \<or> g \<in># S" and "size S + size W + 1 < 2 ^ 32"
  shows "runs (own vs ws R (add_mset h S) W) (shared_reset_to od h g)
    (\<lambda>k. own vs ws R (add_mset k S) W)"
  unfolding shared_reset_to_def
  by (intro runs_seq [OF release_own [OF assms(1)]] runs_seq [OF retain_own] runs_ret assms(2,3))

lemma reset_null_own:
  assumes "quiet od" and "size S + size W + 1 < 2 ^ 32"
  shows "runs (own vs ws R (add_mset h S) W) (shared_reset od h 0)
    (\<lambda>k. own vs ws R (add_mset k S) W)"
  unfolding shared_reset_def
  by (rule runs_seq [OF release_own [OF assms(1)]])
    (use assms(2) own_null(1) in \<open>auto simp: runs_def\<close>)

lemma reset_new_own:
  assumes "quiet od" and "p \<noteq> 0" and "p \<notin> R" and "size S + size W + 1 < 2 ^ 32"
  shows "runs (own vs ws (insert p R) (add_mset h S) W) (shared_reset od h p)
    (\<lambda>k. own vs ws R (add_mset k S) W)"
  unfolding shared_reset_def
  using assms(2)
  by (auto intro!: runs_seq [OF release_own [OF assms(1)]] runs_bind [OF new_counters_own] runs_ret assms)

lemma reset_weak_own:
  assumes "quiet od" and "g \<in># S + W" and "h_ref g \<noteq> 0" and "size S + size W + 1 < 2 ^ 32"
  shows "runs (own vs ws R (add_mset h S) W) (shared_reset_weak od h g)
    (\<lambda>k. own vs ws R (add_mset k S) W)"
  unfolding shared_reset_weak_def
proof (rule runs_seq [OF release_own [OF assms(1)]], rule runs_bind [OF try_inc_own [OF assms(2-4)]])
  fix ok
  show "runs (own vs ws R (if ok then add_mset g S else S) W) (kret (if ok then g else null_handle))
      (\<lambda>k. own vs ws R (add_mset k S) W)"
    using own_null(1) [of vs ws R S W] assms(4) by (cases ok) (auto simp: runs_def)
qed

lemma weak_reset_own:
  assumes "g = null_handle \<or> g \<in># S + W" and "size S + size W + 1 < 2 ^ 32"
  shows "runs (own vs ws R S (add_mset h W)) (weak_reset h g) (\<lambda>k. own vs ws R S (add_mset k W))"
  unfolding weak_reset_def
  by (intro runs_seq [OF weak_release_own] runs_seq [OF weak_retain_own] runs_ret assms)

text \<open>
  The state between operations: the pointers in existence are the variables inside their
  lifetime.
\<close>

definition idle :: "handle option list \<Rightarrow> handle option list \<Rightarrow> sp \<Rightarrow> bool" where
  "idle vs ws = own vs ws {} (present vs) (present ws)"

definition steps_ok :: "nat \<Rightarrow> nat \<Rightarrow> handle option list \<Rightarrow> handle option list \<Rightarrow> (sp, unit) kmonad \<Rightarrow> bool" where
  "steps_ok n m vs ws c \<longleftrightarrow>
    runs (idle vs ws) c (\<lambda>_ s. idle (svars s) (wvars s) s \<and> length (svars s) = n \<and> length (wvars s) = m)"

lemma store_shared:
  assumes "i < length vs" and "S = present (vs[i := None])" and "W = present ws"
    and "n = length vs" and "m = length ws"
  shows "runs (own vs ws {} (add_mset k S) W) (set_svar i (Some k))
    (\<lambda>_ s. idle (svars s) (wvars s) s \<and> length (svars s) = n \<and> length (wvars s) = m)"
  using assms set_var_own(1) [of vs ws "{}" "add_mset k S" W i "Some k"]
  by (fastforce simp: runs_def idle_def present_update own_def)

lemma store_weak:
  assumes "i < length ws" and "S = present vs" and "W = present (ws[i := None])"
    and "n = length vs" and "m = length ws"
  shows "runs (own vs ws {} S (add_mset k W)) (set_wvar i (Some k))
    (\<lambda>_ s. idle (svars s) (wvars s) s \<and> length (svars s) = n \<and> length (wvars s) = m)"
  using assms set_var_own(2) [of vs ws "{}" S "add_mset k W" i "Some k"]
  by (fastforce simp: runs_def idle_def present_update own_def)

text \<open>Replacing the value of a shared (or weak) variable, inside or outside its lifetime.\<close>

lemma replace_shared:
  assumes i: "i < length vs" and nm: "n = length vs" "m = length ws" "n + m < 2 ^ 32"
    and h: "h = (case vs ! i of None \<Rightarrow> null_handle | Some h \<Rightarrow> h)"
    and c: "\<And>S. \<lbrakk>S = present (vs[i := None]); size S + size (present ws) + 1 < 2 ^ 32\<rbrakk> \<Longrightarrow>
      runs (own vs ws {} (add_mset h S) (present ws)) c (\<lambda>k. own vs ws {} (add_mset k S) (present ws))"
  shows "steps_ok n m vs ws (kbind c (\<lambda>k. set_svar i (Some k)))"
proof -
  define S where "S = present (vs[i := None])"
  have sz: "size S + size (present ws) + 1 < 2 ^ 32"
    using size_present_dead [OF i] size_present [of ws] nm by (simp add: S_def)
  have pre: "own vs ws {} (add_mset h S) (present ws) s" if "idle vs ws s" for s
  proof (cases "vs ! i")
    case None
    then have "present vs = S" by (metis S_def list_update_id)
    then show ?thesis using own_null(1) [OF that [unfolded idle_def]] sz None h by simp
  next
    case (Some x)
    then have "present vs = add_mset h S"
      using i h present_alive [of vs i thesis for thesis] by (force simp: is_alive_def S_def)
    then show ?thesis using that by (simp add: idle_def)
  qed
  show ?thesis
    unfolding steps_ok_def
    by (rule runs_pre [OF runs_bind [OF c [OF S_def sz] store_shared [OF i S_def refl nm(1,2)]] pre])
qed

lemma replace_weak:
  assumes i: "i < length ws" and nm: "n = length vs" "m = length ws" "n + m < 2 ^ 32"
    and h: "h = (case ws ! i of None \<Rightarrow> null_handle | Some h \<Rightarrow> h)"
    and c: "\<And>W. \<lbrakk>W = present (ws[i := None]); size (present vs) + size W + 1 < 2 ^ 32\<rbrakk> \<Longrightarrow>
      runs (own vs ws {} (present vs) (add_mset h W)) c (\<lambda>k. own vs ws {} (present vs) (add_mset k W))"
  shows "steps_ok n m vs ws (kbind c (\<lambda>k. set_wvar i (Some k)))"
proof -
  define W where "W = present (ws[i := None])"
  have sz: "size (present vs) + size W + 1 < 2 ^ 32"
    using size_present_dead [OF i] size_present [of vs] nm by (simp add: W_def)
  have pre: "own vs ws {} (present vs) (add_mset h W) s" if "idle vs ws s" for s
  proof (cases "ws ! i")
    case None
    then have "present ws = W" by (metis W_def list_update_id)
    then show ?thesis using own_null(2) [OF that [unfolded idle_def]] sz None h by simp
  next
    case (Some x)
    then have "present ws = add_mset h W"
      using i h present_alive [of ws i thesis for thesis] by (force simp: is_alive_def W_def)
    then show ?thesis using that by (simp add: idle_def)
  qed
  show ?thesis
    unfolding steps_ok_def
    by (rule runs_pre [OF runs_bind [OF c [OF W_def sz] store_weak [OF i refl W_def nm(1,2)]] pre])
qed

lemma steps_get:
  "\<lbrakk>is_alive vs j; steps_ok n m vs ws (f (the (vs ! j)))\<rbrakk> \<Longrightarrow> steps_ok n m vs ws (kbind (get_svar j) f)"
  "\<lbrakk>is_alive ws j; steps_ok n m vs ws (f (the (ws ! j)))\<rbrakk> \<Longrightarrow> steps_ok n m vs ws (kbind (get_wvar j) f)"
  unfolding steps_ok_def idle_def
  by (rule runs_bind [OF get_var_own(1)] runs_bind [OF get_var_own(2)]; simp add: runs_def; fail)+

lemma alive_case: "is_alive vs i \<Longrightarrow> the (vs ! i) = (case vs ! i of None \<Rightarrow> null_handle | Some h \<Rightarrow> h)"
  and dead_case: "is_dead vs i \<Longrightarrow> null_handle = (case vs ! i of None \<Rightarrow> null_handle | Some h \<Rightarrow> h)"
  and var_bound: "is_alive vs i \<Longrightarrow> i < length vs" "is_dead vs i \<Longrightarrow> i < length vs"
  by (auto simp: is_alive_def is_dead_def)

lemma present_mem: "is_alive vs i \<Longrightarrow> the (vs ! i) \<in># present vs"
  by (metis add_mset_remove_trivial_eq option.sel present_alive union_single_eq_member)

lemma dead_not_alive: "\<lbrakk>is_dead vs i; is_alive vs j\<rbrakk> \<Longrightarrow> i \<noteq> j"
  by (auto simp: is_alive_def is_dead_def)

text \<open>Dropping and moving.\<close>

lemma drop_own:
  assumes "is_alive vs i" and "quiet od" and nm: "n = length vs" "m = length ws"
  shows "steps_ok n m vs ws (kseq (shared_release od (the (vs ! i))) (set_svar i None))"
proof -
  obtain h where h: "vs ! i = Some h" "i < length vs" "present vs = add_mset h (present (vs[i := None]))"
    using assms(1) by (rule present_alive)
  have "runs (own vs ws {} (present (vs[i := None])) (present ws)) (set_svar i None)
      (\<lambda>_ s. idle (svars s) (wvars s) s \<and> length (svars s) = n \<and> length (wvars s) = m)"
    using set_var_own(1) [of vs ws "{}" "present (vs[i := None])" "present ws" i None] nm
    by (fastforce simp: runs_def idle_def own_def)
  from runs_seq [OF release_own [OF assms(2)] this] show ?thesis
    unfolding steps_ok_def idle_def [of vs ws] h(1) option.sel h(3) .
qed

lemma drop_weak_own:
  assumes "is_alive ws i" and nm: "n = length vs" "m = length ws"
  shows "steps_ok n m vs ws (kseq (weak_release (the (ws ! i))) (set_wvar i None))"
proof -
  obtain h where h: "ws ! i = Some h" "i < length ws" "present ws = add_mset h (present (ws[i := None]))"
    using assms(1) by (rule present_alive)
  have "runs (own vs ws {} (present vs) (present (ws[i := None]))) (set_wvar i None)
      (\<lambda>_ s. idle (svars s) (wvars s) s \<and> length (svars s) = n \<and> length (wvars s) = m)"
    using set_var_own(2) [of vs ws "{}" "present vs" "present (ws[i := None])" i None] nm
    by (fastforce simp: runs_def idle_def own_def)
  from runs_seq [OF weak_release_own this] show ?thesis
    unfolding steps_ok_def idle_def [of vs ws] h(1) option.sel h(3) .
qed

lemma swap_own:
  assumes i: "is_alive vs i" and j: "is_alive vs j" and nm: "n = length vs" "m = length ws"
  shows "steps_ok n m vs ws (kseq (set_svar i (Some (the (vs ! j)))) (set_svar j (Some (the (vs ! i)))))"
proof -
  have ij: "i < length vs" "j < length vs" "Some (the (vs ! i)) = vs ! i" "Some (the (vs ! j)) = vs ! j"
    using i j by (auto simp: is_alive_def)
  have "mset (vs[i := vs ! j, j := vs ! i]) = mset vs" using ij by (simp add: mset_swap)
  then have "present (vs[i := vs ! j, j := vs ! i]) = present vs" by (simp add: present_def)
  then show ?thesis
    unfolding steps_ok_def runs_def
    using nm by (simp add: set_svar_def ij idle_def own_def)
qed

lemma move_own:
  assumes i: "is_dead vs i" and j: "is_alive vs j" and nm: "n = length vs" "m = length ws" "n + m < 2 ^ 32"
  shows "steps_ok n m vs ws (kseq (set_svar i (Some (the (vs ! j)))) (set_svar j (Some null_handle)))"
proof -
  have ij: "i < length vs" "j < length vs" "i \<noteq> j" "Some (the (vs ! j)) = vs ! j" "vs ! i = None"
    using i j by (auto simp: is_alive_def is_dead_def)
  let ?vs = "vs[i := vs ! j, j := Some null_handle]"
  have "mset ?vs = mset (vs[i := vs ! j, j := vs ! i]) - {#None#} + {#Some null_handle#}"
    using ij by (simp add: mset_update)
  moreover have "mset (vs[i := vs ! j, j := vs ! i]) = mset vs" by (rule mset_swap [OF ij(2,1)])
  ultimately have "mset ?vs = mset vs - {#None#} + {#Some null_handle#}" by metis
  then have eq: "present ?vs = add_mset null_handle (present vs)" by (simp add: present_def)
  have "size (present vs) + size (present ws) + 1 < 2 ^ 32"
    using size_present_dead [OF ij(1)] size_present [of ws] nm ij
    by (metis Suc_eq_plus1 add_less_le_mono less_trans_Suc list_update_id order_le_less_trans
        add_Suc Suc_leI add_mono)
  then show ?thesis
    unfolding steps_ok_def runs_def
    using nm ij(4) own_null(1) eq by (auto simp: set_svar_def idle_def own_def)
qed

lemma kbind_assoc: "kbind (kbind c f) g = kbind c (\<lambda>x. kbind (f x) g)"
  by (auto simp: kbind_def fun_eq_iff split: prod.splits sum.splits)

text \<open>Every operation, on variables with the lifetimes it needs.\<close>

definition sp_frame :: "destroy_fn \<Rightarrow> nat \<Rightarrow> nat \<Rightarrow> handle option list \<Rightarrow> handle option list \<Rightarrow> bool" where
  "sp_frame od n m vs ws \<longleftrightarrow> quiet od \<and> n = length vs \<and> m = length ws \<and> n + m < 2 ^ 32"

lemma build_shared:
  assumes "sp_frame od n m vs ws" and "is_dead vs i"
    and "\<And>S. \<lbrakk>S = present (vs[i := None]); size S + size (present ws) + 1 < 2 ^ 32; quiet od\<rbrakk> \<Longrightarrow>
      runs (own vs ws {} (add_mset null_handle S) (present ws)) c
        (\<lambda>k. own vs ws {} (add_mset k S) (present ws))"
  shows "steps_ok n m vs ws (kbind c (\<lambda>k. set_svar i (Some k)))"
  by (rule replace_shared [OF var_bound(2) _ _ _ dead_case]) (use assms in \<open>auto simp: sp_frame_def\<close>)

lemma change_shared:
  assumes "sp_frame od n m vs ws" and "is_alive vs i"
    and "\<And>S. \<lbrakk>S = present (vs[i := None]); size S + size (present ws) + 1 < 2 ^ 32; quiet od\<rbrakk> \<Longrightarrow>
      runs (own vs ws {} (add_mset (the (vs ! i)) S) (present ws)) c
        (\<lambda>k. own vs ws {} (add_mset k S) (present ws))"
  shows "steps_ok n m vs ws (kbind c (\<lambda>k. set_svar i (Some k)))"
  by (rule replace_shared [OF var_bound(1) _ _ _ alive_case]) (use assms in \<open>auto simp: sp_frame_def\<close>)

lemma build_weak:
  assumes "sp_frame od n m vs ws" and "is_dead ws i"
    and "\<And>W. \<lbrakk>W = present (ws[i := None]); size (present vs) + size W + 1 < 2 ^ 32\<rbrakk> \<Longrightarrow>
      runs (own vs ws {} (present vs) (add_mset null_handle W)) c
        (\<lambda>k. own vs ws {} (present vs) (add_mset k W))"
  shows "steps_ok n m vs ws (kbind c (\<lambda>k. set_wvar i (Some k)))"
  by (rule replace_weak [OF var_bound(2) _ _ _ dead_case]) (use assms in \<open>auto simp: sp_frame_def\<close>)

lemma change_weak:
  assumes "sp_frame od n m vs ws" and "is_alive ws i"
    and "\<And>W. \<lbrakk>W = present (ws[i := None]); size (present vs) + size W + 1 < 2 ^ 32\<rbrakk> \<Longrightarrow>
      runs (own vs ws {} (present vs) (add_mset (the (ws ! i)) W)) c
        (\<lambda>k. own vs ws {} (present vs) (add_mset k W))"
  shows "steps_ok n m vs ws (kbind c (\<lambda>k. set_wvar i (Some k)))"
  by (rule replace_weak [OF var_bound(1) _ _ _ alive_case]) (use assms in \<open>auto simp: sp_frame_def\<close>)

lemma make_ok: "\<lbrakk>sp_frame od n m vs ws; is_dead vs i\<rbrakk> \<Longrightarrow> steps_ok n m vs ws (exec_op od (MakeShared i))"
  unfolding exec_op.simps make_shared_def
  by (erule (1) build_shared, rule runs_bind [OF new_object_own], intro runs_imp, rule reset_new_own)

lemma null_shared_ok:
  "\<lbrakk>sp_frame od n m vs ws; is_dead vs i\<rbrakk> \<Longrightarrow> steps_ok n m vs ws (exec_op od (NullShared i))"
  unfolding exec_op.simps by (erule (1) build_shared, rule reset_null_own)

lemma reset_ok:
  "\<lbrakk>sp_frame od n m vs ws; is_alive vs i\<rbrakk> \<Longrightarrow> steps_ok n m vs ws (exec_op od (ResetShared i))"
  unfolding exec_op.simps by (rule steps_get, assumption, erule (1) change_shared, rule reset_null_own)

lemma reset_fresh_ok:
  "\<lbrakk>sp_frame od n m vs ws; is_alive vs i\<rbrakk> \<Longrightarrow> steps_ok n m vs ws (exec_op od (ResetNew i))"
  unfolding exec_op.simps kbind_assoc [symmetric, of new_object]
  by (rule steps_get, assumption, erule (1) change_shared, rule runs_bind [OF new_object_own],
      intro runs_imp, rule reset_new_own)

lemma copy_ok:
  "\<lbrakk>sp_frame od n m vs ws; is_dead vs i; is_alive vs j\<rbrakk> \<Longrightarrow> steps_ok n m vs ws (exec_op od (CopyShared i j))"
  unfolding exec_op.simps copy_shared_def
  by (rule steps_get, assumption, erule (1) build_shared, rule reset_to_own)
    (auto dest: dead_not_alive intro: present_other)

lemma assign_ok:
  "\<lbrakk>sp_frame od n m vs ws; is_alive vs i; is_alive vs j; i \<noteq> j\<rbrakk> \<Longrightarrow> steps_ok n m vs ws (exec_op od (AssignShared i j))"
  unfolding exec_op.simps assign_shared_def
  by (rule steps_get, assumption, rule steps_get, assumption, erule (1) change_shared, rule reset_to_own)
    (auto intro: present_other)

lemma convert_ok:
  "\<lbrakk>sp_frame od n m vs ws; is_dead vs i; is_alive vs j; h_ref (the (vs ! j)) \<noteq> 0\<rbrakk>
    \<Longrightarrow> steps_ok n m vs ws (exec_op od (ConvertShared i j))"
  unfolding exec_op.simps convert_shared_def
  by (rule steps_get, assumption, erule (1) build_shared, rule reset_weak_own)
    (auto dest: dead_not_alive intro: present_other)

lemma lock_ok:
  "\<lbrakk>sp_frame od n m vs ws; is_dead vs i; is_alive ws j\<rbrakk> \<Longrightarrow> steps_ok n m vs ws (exec_op od (LockWeak i j))"
  unfolding exec_op.simps weak_lock_def
  by (rule steps_get, assumption, erule (1) build_shared, rule runs_if, rule runs_ret, rule reset_weak_own)
    (auto intro: present_mem)

lemma weak_of_ok:
  "\<lbrakk>sp_frame od n m vs ws; is_dead ws i; is_alive vs j\<rbrakk> \<Longrightarrow> steps_ok n m vs ws (exec_op od (WeakOfShared i j))"
  unfolding exec_op.simps weak_of_shared_def
  by (rule steps_get, assumption, erule (1) build_weak, rule weak_reset_own) (auto intro: present_mem)

lemma copy_weak_ok:
  "\<lbrakk>sp_frame od n m vs ws; is_dead ws i; is_alive ws j\<rbrakk> \<Longrightarrow> steps_ok n m vs ws (exec_op od (CopyWeak i j))"
  unfolding exec_op.simps copy_weak_def
  by (rule steps_get, assumption, erule (1) build_weak, rule weak_reset_own)
    (auto dest: dead_not_alive intro: present_other)

lemma assign_weak_ok:
  "\<lbrakk>sp_frame od n m vs ws; is_alive ws i; is_alive ws j; i \<noteq> j\<rbrakk> \<Longrightarrow> steps_ok n m vs ws (exec_op od (AssignWeak i j))"
  unfolding exec_op.simps assign_weak_def
  by (rule steps_get, assumption, rule steps_get, assumption, erule (1) change_weak, rule weak_reset_own)
    (auto intro: present_other)

lemma null_weak_ok:
  "\<lbrakk>sp_frame od n m vs ws; is_dead ws i\<rbrakk> \<Longrightarrow> steps_ok n m vs ws (exec_op od (NullWeak i))"
proof -
  assume f: "sp_frame od n m vs ws" and i: "is_dead ws i"
  have "steps_ok n m vs ws (kbind (kret null_handle) (\<lambda>k. set_wvar i (Some k)))"
    using f i by (rule build_weak) (rule runs_ret)
  then show ?thesis by (simp add: kbind_def kret_def)
qed

lemma drop_ok:
  "\<lbrakk>sp_frame od n m vs ws; is_alive vs i\<rbrakk> \<Longrightarrow> steps_ok n m vs ws (exec_op od (DropShared i))"
  unfolding exec_op.simps drop_shared_def
  by (rule steps_get, assumption, erule drop_own) (simp_all add: sp_frame_def)

lemma drop_weak_ok:
  "\<lbrakk>sp_frame od n m vs ws; is_alive ws i\<rbrakk> \<Longrightarrow> steps_ok n m vs ws (exec_op od (DropWeak i))"
  unfolding exec_op.simps drop_weak_def
  by (rule steps_get, assumption, erule drop_weak_own) (simp_all add: sp_frame_def)

lemma move_ok:
  "\<lbrakk>sp_frame od n m vs ws; is_dead vs i; is_alive vs j\<rbrakk> \<Longrightarrow> steps_ok n m vs ws (exec_op od (MoveShared i j))"
  unfolding exec_op.simps move_shared_def
  by (rule steps_get, assumption, erule (1) move_own) (simp_all add: sp_frame_def)

lemma move_assign_ok:
  "\<lbrakk>sp_frame od n m vs ws; is_alive vs i; is_alive vs j\<rbrakk> \<Longrightarrow> steps_ok n m vs ws (exec_op od (MoveAssignShared i j))"
  unfolding exec_op.simps move_assign_shared_def
  by (rule steps_get, assumption, rule steps_get, assumption, erule (1) swap_own) (simp_all add: sp_frame_def)

lemma exec_op_ok:
  assumes "sp_frame od n m (svars s) (wvars s)" and "op_ok s q"
  shows "steps_ok n m (svars s) (wvars s) (exec_op od q)"
  using assms
  by (cases q) (auto intro: make_ok null_shared_ok copy_ok assign_ok reset_ok reset_fresh_ok convert_ok lock_ok
      weak_of_ok copy_weak_ok assign_weak_ok null_weak_ok drop_ok drop_weak_ok move_ok move_assign_ok simp del: exec_op.simps)

section \<open>Properties\<close>

lemma present_start [simp]: "present (replicate n None) = {#}"
  by (induction n) (simp_all add: present_def)

lemma sp_reach_idle:
  assumes "sp_reach od n m s" and "quiet od" and "n + m < 2 ^ 32"
  shows "idle (svars s) (wvars s) s \<and> length (svars s) = n \<and> length (wvars s) = m"
  using assms
proof (induction rule: sp_reach.induct)
  case sp_reach_start
  have "spinv id (sp_start n m) {} {#} {#}"
    by (auto simp: spinv_def sp_start_def counters_of_def used_def)
  then show ?case by (auto simp: idle_def own_def sp_start_def)
next
  case (sp_reach_step s q r s')
  then have "sp_frame od n m (svars s) (wvars s)" by (simp add: sp_frame_def)
  from exec_op_ok [OF this sp_reach_step.hyps(2)] sp_reach_step show ?case
    by (fastforce simp: steps_ok_def runs_def)
qed

lemma present_member: "h \<in># present vs \<longleftrightarrow> (\<exists>i < length vs. vs ! i = Some h)"
  by (force simp: present_def in_set_conv_nth)

lemma idle_live:
  assumes "idle vs ws s"
  shows "live s = {p. \<exists>i < length vs. \<exists>h. vs ! i = Some h \<and> h_ptr h = p \<and> p \<noteq> 0}"
proof -
  obtain obj where inv: "spinv obj s {} (present vs) (present ws)" using assms by (auto simp: idle_def own_def)
  have ok: "h = null_handle \<or> h_ref h \<noteq> 0 \<and> h_ptr h = obj (h_ref h) \<and> h_ptr h \<noteq> 0" if "h \<in># present vs" for h
    using inv that by (auto simp: spinv_def handle_ok_def)
  have "p \<in> obj ` used (present vs) \<longleftrightarrow> (\<exists>h. h \<in># present vs \<and> h_ptr h = p \<and> p \<noteq> 0)" for p
  proof
    assume "p \<in> obj ` used (present vs)"
    then obtain h where "h \<in># present vs" "p = obj (h_ref h)" "h_ref h \<noteq> 0"
      by (auto simp: used_iff refs_def filter_mset_eq_conv)
    then show "\<exists>h. h \<in># present vs \<and> h_ptr h = p \<and> p \<noteq> 0" using ok [of h] by auto
  next
    assume "\<exists>h. h \<in># present vs \<and> h_ptr h = p \<and> p \<noteq> 0"
    then obtain h where h: "h \<in># present vs" "h_ptr h = p" "p \<noteq> 0" by blast
    then have "p = obj (h_ref h)" "h_ref h \<noteq> 0" using ok [of h] by auto
    then show "p \<in> obj ` used (present vs)" using refs_pos [OF h(1)] by (auto simp: used_iff)
  qed
  then have "obj ` used (present vs) = {p. \<exists>i < length vs. \<exists>h. vs ! i = Some h \<and> h_ptr h = p \<and> p \<noteq> 0}"
    unfolding present_member by blast
  then show ?thesis using inv by (simp add: spinv_def)
qed

lemma idle_no_leak:
  assumes "idle vs ws s" and "present vs = {#}" and "present ws = {#}"
  shows "counters s = (\<lambda>_. None)"
  using assms by (auto simp: idle_def own_def spinv_def counters_of_def)

lemma present_empty: "(\<forall>i < length vs. vs ! i = None) \<Longrightarrow> present vs = {#}"
  by (metis option.distinct(1) multiset_nonemptyE present_member)

lemma idle_expired:
  assumes "idle vs ws s" and "h \<in># present ws" and "length vs + length ws < 2 ^ 32"
  shows "weak_expired h s
    = (Inr (\<not> (\<exists>i < length vs. \<exists>g. vs ! i = Some g \<and> h_ref g = h_ref h \<and> h_ref h \<noteq> 0)), s)"
proof (cases "h_ref h = 0")
  case False
  obtain obj where inv: "spinv obj s {} (present vs) (present ws)" using assms by (auto simp: idle_def own_def)
  have "refs (present vs) (h_ref h) < 2 ^ 32"
    using refs_le_size [of "present vs" "h_ref h"] size_present [of vs] assms(3) by linarith
  then have "(of_nat (refs (present vs) (h_ref h)) :: u32) = 0 \<longleftrightarrow> refs (present vs) (h_ref h) = 0"
    by (rule of_nat_refs_0_iff)
  moreover have "refs (present vs) (h_ref h) = 0 \<longleftrightarrow> \<not> (\<exists>g. g \<in># present vs \<and> h_ref g = h_ref h)"
    by (auto simp: refs_def filter_mset_eq_conv)
  ultimately show ?thesis
    using False spinv_counters(1) [OF inv _ refl False] assms(2)
    by (auto simp: weak_expired_def get_ref_def get_counters_run present_member)
qed (simp add: weak_expired_def)


definition two_owners :: sp where
  "two_owners = snd (exec_op None (CopyShared 1 0) (snd (exec_op None (MakeShared 0) (sp_start 2 1))))"

lemma two_owners_state:
  "two_owners = \<lparr>live = {1}, counters = [2 \<mapsto> \<lparr>ref_count = 2, weak_count = 2\<rparr>],
    svars = [Some \<lparr>h_ptr = 1, h_ref = 2\<rparr>, Some \<lparr>h_ptr = 1, h_ref = 2\<rparr>], wvars = [None], next_addr = 3\<rparr>"
  by (simp add: two_owners_def sp_start_def make_shared_def new_object_def shared_reset_def shared_release_def
      new_counters_def set_svar_def copy_shared_def get_svar_def shared_reset_to_def shared_retain_def inc_ref_def
      get_counters_def set_counters_def numeral_2_eq_2)

lemma two_owners_reach: "sp_reach None 2 1 two_owners"
proof -
  define s1 where "s1 = snd (exec_op None (MakeShared 0) (sp_start 2 1))"
  have "op_ok (sp_start 2 1) (MakeShared 0)" by (simp add: sp_start_def is_dead_def)
  then have 1: "sp_reach None 2 1 s1"
    by (rule sp_reach_step [OF sp_reach_start]) (simp add: s1_def prod_eq_iff del: exec_op.simps)
  have "op_ok s1 (CopyShared 1 0)"
    by (simp add: s1_def sp_start_def make_shared_def new_object_def shared_reset_def shared_release_def
      new_counters_def set_svar_def is_dead_def is_alive_def numeral_2_eq_2)
  then show ?thesis
    by (rule sp_reach_step [OF 1]) (simp add: two_owners_def s1_def prod_eq_iff del: exec_op.simps)
qed


text \<open>
  Assigning a shared pointer to itself while it is the only owner deletes the object and its counters,
  and then increments the deleted counters.
\<close>

lemma shared_ptr_self_assignment:
  assumes "i < length (svars s)" and "svars s ! i = Some h" and "h_ptr h \<in> live s"
    and "h_ptr h \<noteq> 0" and "h_ref h \<noteq> 0" and "counters s (h_ref h) = Some \<lparr>ref_count = 1, weak_count = 1\<rparr>"
  shows "fst (exec_op None (AssignShared i i) s) = Inl Undefined
    \<and> h_ptr h \<notin> live (snd (exec_op None (AssignShared i i) s))"
  using assms
  by (simp add: assign_shared_def get_svar_def shared_reset_to_def shared_release_def shared_retain_def
      counter_ops get_counters_def)

lemma shared_ptr_self_assignment_witness:
  "fst (exec_op None (AssignShared 0 0)
      \<lparr>live = {1}, counters = [2 \<mapsto> \<lparr>ref_count = 1, weak_count = 1\<rparr>],
       svars = [Some \<lparr>h_ptr = 1, h_ref = 2\<rparr>], wvars = [], next_addr = 3\<rparr>) = Inl Undefined"
  using shared_ptr_self_assignment [of 0 "\<lparr>live = {1}, counters = [2 \<mapsto> \<lparr>ref_count = 1, weak_count = 1\<rparr>],
       svars = [Some \<lparr>h_ptr = 1, h_ref = 2\<rparr>], wvars = [], next_addr = 3\<rparr>" "\<lparr>h_ptr = 1, h_ref = 2\<rparr>"]
  by (simp del: exec_op.simps)

end
