(* ===== verification/Dentry_Cache.thy ===== *)
theory Dentry_Cache
  imports Mem_Utils
begin

text \<open>
  The dentry cache of \<open>src/os/fs/dentry.cc\<close> and the strings of \<open>src/os/utils/quick_string.h\<close>. Dentries
  live at addresses, \<open>0\<close> is null; a bucket is the list of the addresses in it, front first. The
  operations on a bucket and on a dentry run under its lock and are atomic. \<open>inode::lookup\<close>, a
  virtual function of the file system, is a parameter. The pointer to a character is the list of the
  bytes from there to the end of its object.
\<close>

section \<open>Strings\<close>

record quick_string =
  qs_data :: "u8 list option"
  qs_size :: u32
  qs_hash :: u32

record quick_string_ref =
  r_data :: "u8 list"
  r_size :: u32
  r_hash :: u32

fun hash_loop :: "u32 \<Rightarrow> u8 list \<Rightarrow> nat \<Rightarrow> u32 option" where
  "hash_loop h p 0 = Some h"
| "hash_loop h (b # p) (Suc n) = hash_loop (h * 131 + ucast b) p n"
| "hash_loop h [] (Suc n) = None"

definition qs_hash_of :: "u8 list \<Rightarrow> u32 \<Rightarrow> u32 option" where
  "qs_hash_of p n = map_option (drop_bit 1) (hash_loop 0 p (unat n))"

definition qs_empty :: quick_string where
  "qs_empty = \<lparr>qs_data = None, qs_size = 0, qs_hash = - 1\<rparr>"

definition qs_init :: "u8 list \<Rightarrow> u32 \<Rightarrow> quick_string option" where
  "qs_init p n = do {
    d \<leftarrow> strndup p (unat n);
    h \<leftarrow> qs_hash_of d n;
    Some \<lparr>qs_data = Some d, qs_size = n, qs_hash = h\<rparr> }"

definition qs_of_cstr :: "u8 list \<Rightarrow> quick_string option" where
  "qs_of_cstr p = do { n \<leftarrow> strlen p; qs_init p (of_nat n) }"

text \<open>The two moves return the new value of the target and of the source.\<close>

definition qs_move :: "quick_string \<Rightarrow> quick_string \<times> quick_string" where
  "qs_move other = (other, qs_empty)"

definition qs_move_assign :: "quick_string \<Rightarrow> quick_string \<Rightarrow> quick_string \<times> quick_string" where
  "qs_move_assign q other = (other, other\<lparr>qs_data := qs_data q\<rparr>)"

definition ref_of :: "u8 list \<Rightarrow> u32 \<Rightarrow> quick_string_ref option" where
  "ref_of p n = map_option (\<lambda>h. \<lparr>r_data = p, r_size = n, r_hash = h\<rparr>) (qs_hash_of p n)"

definition ref_of_cstr :: "u8 list \<Rightarrow> quick_string_ref option" where
  "ref_of_cstr p = do { n \<leftarrow> strlen p; ref_of p (of_nat n) }"

definition to_string :: "quick_string_ref \<Rightarrow> quick_string option" where
  "to_string r = map_option (\<lambda>d. \<lparr>qs_data = Some d, qs_size = r_size r, qs_hash = r_hash r\<rparr>)
    (strndup (r_data r) (unat (r_size r)))"

section \<open>The cache\<close>

record dentry =
  d_inode :: nat
  d_name :: quick_string
  d_parent :: nat

record dcache =
  dentries :: "nat \<Rightarrow> dentry option"
  hash_table :: "nat \<Rightarrow> nat list"
  c_size :: u32
  c_next :: nat
  this_dentry :: "nat \<Rightarrow> nat"

type_synonym 'a dc = "(dcache, 'a) kmonad"
type_synonym ilookup = "nat \<Rightarrow> nat \<Rightarrow> int dc"

definition HASH_TABLE_SIZE :: nat where
  "HASH_TABLE_SIZE = 1024"

definition MIN_CACHE_SIZE :: u32 where
  "MIN_CACHE_SIZE = 1024"

definition new_dentry :: dentry where
  "new_dentry = \<lparr>d_inode = 0, d_name = qs_empty, d_parent = 0\<rparr>"

definition get_dentry :: "nat \<Rightarrow> dentry dc" where
  "get_dentry d = kbind (kget (\<lambda>c. if d = 0 then None else dentries c d)) kopt"

definition mod_dentry :: "nat \<Rightarrow> (dentry \<Rightarrow> dentry) \<Rightarrow> unit dc" where
  "mod_dentry d f = kbind (get_dentry d) (\<lambda>x.
    kmod (\<lambda>c. c\<lparr>dentries := (dentries c)(d \<mapsto> f x)\<rparr>))"

definition set_inode :: "nat \<Rightarrow> nat \<Rightarrow> unit dc" where
  "set_inode d i = mod_dentry d (d_inode_update (\<lambda>_. i))"

definition set_dentry :: "nat \<Rightarrow> nat \<Rightarrow> unit dc" where
  "set_dentry i d = kmod (\<lambda>c. c\<lparr>this_dentry := (this_dentry c)(i := d)\<rparr>)"

definition bucket_of :: "quick_string_ref \<Rightarrow> nat" where
  "bucket_of r = unat (r_hash r) mod HASH_TABLE_SIZE"

definition dc_add :: "quick_string_ref \<Rightarrow> nat dc" where
  "dc_add r = kbind (kget c_next) (\<lambda>d.
    kseq (kmod (\<lambda>c. c\<lparr>dentries := (dentries c)(d \<mapsto> new_dentry), c_next := d + 1\<rparr>)) (
    kseq (kmod (\<lambda>c. c\<lparr>hash_table := (hash_table c)(bucket_of r := d # hash_table c (bucket_of r))\<rparr>)) (
    kbind (kopt (to_string r)) (\<lambda>q.
    kseq (mod_dentry d (\<lambda>x. x\<lparr>d_name := fst (qs_move_assign (d_name x) q)\<rparr>)) (
    kseq (kmod (\<lambda>c. c\<lparr>c_size := c_size c + 1\<rparr>)) (
    kret d))))))"

definition dc_reuse :: "quick_string_ref \<Rightarrow> nat dc" where
  "dc_reuse r = kret 0"

definition get_free_dentry :: "quick_string_ref \<Rightarrow> nat \<Rightarrow> nat dc" where
  "get_free_dentry r parent = kbind (kget c_size) (\<lambda>n.
    kbind (if n \<ge> MIN_CACHE_SIZE then dc_reuse r else kret 0) (\<lambda>d0.
    kbind (if d0 = 0 then dc_add r else kret d0) (\<lambda>d.
    kseq (mod_dentry d (d_parent_update (\<lambda>_. parent))) (
    kret d))))"

text \<open>The loop of \<open>lookup\<close> over the entries of the bucket.\<close>

primrec find_dentry :: "nat \<Rightarrow> quick_string_ref \<Rightarrow> nat list \<Rightarrow> nat dc" where
  "find_dentry parent r [] = kret 0"
| "find_dentry parent r (d # ds) = kbind (get_dentry d) (\<lambda>x.
  kbind (kopt (qs_data (d_name x))) (\<lambda>nm.
  kbind (kopt (strncmp nm (r_data r) (unat (r_size r)))) (\<lambda>cmp.
  if cmp = 0 \<and> d_parent x = parent then kret d else find_dentry parent r ds)))"

definition dc_lookup :: "nat \<Rightarrow> quick_string_ref \<Rightarrow> nat dc" where
  "dc_lookup parent r = kbind (kget (\<lambda>c. hash_table c (bucket_of r))) (\<lambda>ds.
    kbind (find_dentry parent r ds) (\<lambda>d.
    if d = 0 then kret 0
    else kseq (kmod (\<lambda>c. c\<lparr>hash_table := (hash_table c)(bucket_of r := d # remove1 d ds)\<rparr>)) (
      kret d)))"

definition dc_get :: "ilookup \<Rightarrow> nat \<Rightarrow> quick_string_ref \<Rightarrow> nat dc" where
  "dc_get il parent r = kbind (dc_lookup parent r) (\<lambda>d.
    if d \<noteq> 0 then kret d
    else kbind (get_free_dentry r parent) (\<lambda>n.
      kbind (get_dentry parent) (\<lambda>p.
      kbind (if d_inode p = 0 then kthrow Undefined else il (d_inode p) n) (\<lambda>ret.
      if ret = - 1 then kseq (mod_dentry n (d_parent_update (\<lambda>_. 0))) (
        kret 0)
      else kret n))))"

definition dc_get_cstr :: "ilookup \<Rightarrow> nat \<Rightarrow> u8 list \<Rightarrow> nat dc" where
  "dc_get_cstr il parent name = kbind (kopt (ref_of_cstr name)) (\<lambda>r.
    dc_get il parent r)"

text \<open>What \<open>create\<close> and \<open>get_or_create\<close> do with a new dentry.\<close>

definition fill_dentry :: "quick_string_ref \<Rightarrow> nat \<Rightarrow> nat \<Rightarrow> nat dc" where
  "fill_dentry r parent i = kbind (get_free_dentry r parent) (\<lambda>d.
    kseq (mod_dentry d (d_parent_update (\<lambda>_. parent))) (
    kseq (if i \<noteq> 0 then kseq (set_dentry i d) (
      set_inode d i) else kret ()) (
    kret d)))"

definition dc_get_or_create :: "nat \<Rightarrow> u8 list \<Rightarrow> nat \<Rightarrow> nat dc" where
  "dc_get_or_create parent name i = kbind (kopt (ref_of_cstr name)) (\<lambda>r.
    kbind (dc_lookup parent r) (\<lambda>d.
    if d \<noteq> 0 then kret d else fill_dentry r parent i))"

definition dc_create :: "nat \<Rightarrow> u8 list \<Rightarrow> nat \<Rightarrow> nat dc" where
  "dc_create parent name i = kbind (kopt (ref_of_cstr name)) (\<lambda>r.
    fill_dentry r parent i)"

definition dc_create_view :: "nat \<Rightarrow> u8 list \<Rightarrow> nat \<Rightarrow> nat dc" where
  "dc_create_view parent name i = kbind (kopt (ref_of name (of_nat (length name)))) (\<lambda>r.
    fill_dentry r parent i)"

section \<open>Paths\<close>

text \<open>\<open>..\<close> of a dentry without parent is the dentry itself.\<close>

definition up :: "nat \<Rightarrow> nat dc" where
  "up current = kbind (get_dentry current) (\<lambda>x.
    kret (if d_parent x = 0 then current else d_parent x))"

text \<open>
  The inner loop of \<open>get_at\<close> on a character pointer: the bytes before the next separator or
  terminator, and the pointer there.
\<close>

fun next_sep :: "u8 list \<Rightarrow> (u8 list \<times> u8 list) option" where
  "next_sep [] = None"
| "next_sep (b # p) = (if b = 47 \<or> b = 0 then Some ([], b # p)
    else map_option (\<lambda>(c, q). (b # c, q)) (next_sep p))"

lemma next_sep_length: "next_sep p = Some (c, q) \<Longrightarrow> length p = length c + length q \<and> q \<noteq> []"
  by (induction p arbitrary: c) (auto split: if_splits)

definition skip_sep :: "u8 list \<Rightarrow> u8 list" where
  "skip_sep p = (if p \<noteq> [] \<and> hd p = 47 then tl p else p)"

function get_at_loop :: "ilookup \<Rightarrow> nat \<Rightarrow> u8 list \<Rightarrow> nat dc" where
  "get_at_loop il current path = (case path of
      [] \<Rightarrow> kthrow Undefined
    | b # rest \<Rightarrow> if b = 0 then kret current
      else (case next_sep path of
          None \<Rightarrow> kthrow Undefined
        | Some (c, q) \<Rightarrow>
            if c = [] then get_at_loop il current rest
            else if c = [46] then get_at_loop il current q
            else if c = [46, 46] then kbind (up current) (\<lambda>n. get_at_loop il n q)
            else kbind (kopt (ref_of path (of_nat (length c)))) (\<lambda>r.
              kbind (dc_get il current r) (\<lambda>n. get_at_loop il n (skip_sep q)))))"
  by pat_completeness auto
termination
  by (relation "measure (\<lambda>(il, current, path). length path)")
    (auto dest!: next_sep_length simp: skip_sep_def simp del: next_sep.simps)

declare get_at_loop.simps [simp del]

definition get_at :: "ilookup \<Rightarrow> nat \<Rightarrow> u8 list \<Rightarrow> nat dc" where
  "get_at il current path = (case path of
      [] \<Rightarrow> kthrow Undefined
    | b # rest \<Rightarrow> if b = 47 then kbind (dc_get_cstr il 0 [0]) (\<lambda>root. get_at_loop il root rest)
      else get_at_loop il current path)"

text \<open>The same on a string view.\<close>

function get_at_view_loop :: "ilookup \<Rightarrow> nat \<Rightarrow> u8 list \<Rightarrow> nat dc" where
  "get_at_view_loop il current path = (if path = [] then kret current
    else let c = takeWhile (\<lambda>b. b \<noteq> 47) path; rest = drop (length c + 1) path in
      if c = [] then get_at_view_loop il current rest
      else if c = [46] then get_at_view_loop il current rest
      else if c = [46, 46] then kbind (up current) (\<lambda>n. get_at_view_loop il n rest)
      else kbind (kopt (ref_of path (of_nat (length c)))) (\<lambda>r.
        kbind (dc_get il current r) (\<lambda>n. get_at_view_loop il n rest)))"
  by pat_completeness auto
termination
  by (relation "measure (\<lambda>(il, current, path). length path)") (auto simp: Let_def)

declare get_at_view_loop.simps [simp del]

definition get_at_view :: "ilookup \<Rightarrow> nat \<Rightarrow> u8 list \<Rightarrow> nat dc" where
  "get_at_view il current path = (case path of
      b # rest \<Rightarrow> if b = 47 then kbind (dc_get_cstr il 0 [0]) (\<lambda>root. get_at_view_loop il root rest)
        else get_at_view_loop il current path
    | [] \<Rightarrow> get_at_view_loop il current path)"

section \<open>Destruction\<close>

primrec clear_buckets :: "nat list \<Rightarrow> unit dc" where
  "clear_buckets [] = kret ()"
| "clear_buckets (i # is) = kseq (kmod (\<lambda>c. c\<lparr>hash_table := (hash_table c)(i := [])\<rparr>)) (
  clear_buckets is)"

definition dc_destroy :: "unit dc" where
  "dc_destroy = kseq (clear_buckets [0..<HASH_TABLE_SIZE]) (
    kmod (\<lambda>c. c\<lparr>c_size := 0\<rparr>))"

section \<open>Names\<close>

text \<open>A reference is used only through its first \<open>r_size\<close> bytes.\<close>

lemma hash_loop_take: "hash_loop h p n = hash_loop h (take n p) n"
  by (induction h p n rule: hash_loop.induct) simp_all

lemma hash_loop_Some: "n \<le> length p \<Longrightarrow> \<exists>h'. hash_loop h p n = Some h'"
  by (induction h p n rule: hash_loop.induct) auto

lemma strncmp_take: "strncmp p q n = strncmp p (take n q) n"
  by (induction p q n rule: strncmp.induct) auto

definition same_ref :: "quick_string_ref \<Rightarrow> quick_string_ref \<Rightarrow> bool" where
  "same_ref r r' \<longleftrightarrow> r_size r' = r_size r \<and> r_hash r' = r_hash r
    \<and> take (unat (r_size r)) (r_data r') = take (unat (r_size r)) (r_data r)
    \<and> unat (r_size r) \<le> length (r_data r) \<and> unat (r_size r) \<le> length (r_data r')"

lemma find_dentry_same: "same_ref r r' \<Longrightarrow> find_dentry parent r' ds = find_dentry parent r ds"
  by (induction ds) (simp_all add: same_ref_def strncmp_take [of _ "r_data r"] strncmp_take [of _ "r_data r'"]
      cong: if_cong)

lemma to_string_same: "same_ref r r' \<Longrightarrow> to_string r' = to_string r"
  by (simp add: same_ref_def to_string_def strndup_def)

lemma dc_get_same:
  assumes "same_ref r r'"
  shows "dc_get il parent r' = dc_get il parent r"
proof -
  have "bucket_of r' = bucket_of r" using assms by (simp add: same_ref_def bucket_of_def)
  then show ?thesis
    using find_dentry_same [OF assms] to_string_same [OF assms]
    by (simp add: dc_get_def dc_lookup_def get_free_dentry_def dc_add_def dc_reuse_def cong: if_cong)
qed

lemma ref_of_prefix:
  assumes "length c < 2 ^ 32"
  obtains r where "ref_of (c @ q) (of_nat (length c)) = Some r"
    and "\<forall>q'. \<exists>r'. ref_of (c @ q') (of_nat (length c)) = Some r' \<and> same_ref r r'"
proof -
  have n: "unat (of_nat (length c) :: u32) = length c" using assms by (intro unat_of_nat_lt) simp
  obtain h where h: "hash_loop 0 c (length c) = Some h" using hash_loop_Some by blast
  have ref: "ref_of (c @ q) (of_nat (length c))
      = Some \<lparr>r_data = c @ q, r_size = of_nat (length c), r_hash = drop_bit 1 h\<rparr>" for q
    using h hash_loop_take [of 0 "c @ q" "length c"] by (simp add: ref_of_def qs_hash_of_def n)
  show thesis by (rule that [OF ref]) (simp add: ref same_ref_def n)
qed

section \<open>Path resolution\<close>

text \<open>The reference: the components of the path, one after the other.\<close>

function components :: "u8 list \<Rightarrow> u8 list list" where
  "components [] = []"
| "components (b # p) = (if b = 47 then components p
    else (b # takeWhile (\<lambda>b. b \<noteq> 47) p) # components (dropWhile (\<lambda>b. b \<noteq> 47) p))"
  by pat_completeness auto
termination
  by (relation "measure length") (auto simp: le_imp_less_Suc length_dropWhile_le)

definition walk_component :: "ilookup \<Rightarrow> nat \<Rightarrow> u8 list \<Rightarrow> nat dc" where
  "walk_component il current c = (if c = [46] then kret current
    else if c = [46, 46] then up current
    else kbind (kopt (ref_of c (of_nat (length c)))) (\<lambda>r.
      dc_get il current r))"

primrec walk_components :: "ilookup \<Rightarrow> nat \<Rightarrow> u8 list list \<Rightarrow> nat dc" where
  "walk_components il current [] = kret current"
| "walk_components il current (c # cs) = kbind (walk_component il current c) (\<lambda>n.
  walk_components il n cs)"

definition resolve :: "ilookup \<Rightarrow> nat \<Rightarrow> u8 list \<Rightarrow> nat dc" where
  "resolve il current path = (if path \<noteq> [] \<and> hd path = 47
    then kbind (dc_get_cstr il 0 [0]) (\<lambda>root.
      walk_components il root (components path))
    else walk_components il current (components path))"

lemma components_split:
  assumes "c = takeWhile (\<lambda>b. b \<noteq> 47) p" and "c \<noteq> []"
  shows "components p = c # components (drop (length c + 1) p)"
proof (cases p)
  case (Cons b q)
  then have b: "b \<noteq> 47" and c: "c = b # takeWhile (\<lambda>b. b \<noteq> 47) q" using assms by (auto split: if_splits)
  have "components (dropWhile (\<lambda>b. b \<noteq> 47) q) = components (tl (dropWhile (\<lambda>b. b \<noteq> 47) q))"
  proof (cases "dropWhile (\<lambda>b. b \<noteq> 47) q")
    case (Cons x xs)
    then have "x = 47" by (metis (mono_tags) hd_dropWhile list.discI list.sel(1))
    then show ?thesis using Cons by simp
  next
    case Nil
    then show ?thesis by (simp only: list.sel)
  qed
  then show ?thesis
    using b c Cons by (simp add: dropWhile_eq_drop tl_drop drop_Suc)
qed (use assms in simp)

lemma walk_component_ref:
  assumes "length c < 2 ^ 32" and "c \<noteq> [46]" and "c \<noteq> [46, 46]"
  shows "kbind (kopt (ref_of (c @ q) (of_nat (length c)))) (dc_get il current) = walk_component il current c"
proof -
  obtain r where "ref_of (c @ q) (of_nat (length c)) = Some r"
    and *: "\<forall>q'. \<exists>r'. ref_of (c @ q') (of_nat (length c)) = Some r' \<and> same_ref r r'"
    using ref_of_prefix [OF assms(1), of q] by metis
  moreover obtain r' where "ref_of c (of_nat (length c)) = Some r'" "same_ref r r'"
    using * [rule_format, of "[]"] by auto
  ultimately show ?thesis
    using assms(2,3) dc_get_same by (simp add: walk_component_def kopt_def kbind_def kret_def)
qed

lemma walk_components_bind:
  "kbind m (\<lambda>r. kbind (f r) (\<lambda>n. walk_components il n cs)) = kbind (kbind m f) (\<lambda>n. walk_components il n cs)"
  by (auto simp: kbind_def fun_eq_iff split: prod.splits sum.splits)

lemma walk_component_dots [simp]:
  "walk_component il current [46] = kret current" "walk_component il current [46, 46] = up current"
  by (simp_all add: walk_component_def)

lemma kbind_kret [simp]: "kbind (kret x) f = f x"
  by (simp add: kbind_def kret_def)

lemma view_loop_resolves:
  "length path < 2 ^ 32 \<Longrightarrow> get_at_view_loop il current path = walk_components il current (components path)"
proof (induction path arbitrary: current rule: length_induct)
  case (1 path)
  define c where "c = takeWhile (\<lambda>b. b \<noteq> 47) path"
  define rest where "rest = drop (length c + 1) path"
  have c: "length c < 2 ^ 32" "path = c @ drop (length c) path"
    using "1.prems" length_takeWhile_le [of "\<lambda>b. b \<noteq> 47" path]
    by (simp_all add: c_def takeWhile_eq_take [symmetric])
      (metis append_take_drop_id takeWhile_eq_take)
  have IH: "get_at_view_loop il n rest = walk_components il n (components rest)" if "path \<noteq> []" for n
    using "1.IH" [rule_format, of rest n] "1.prems" that by (simp add: rest_def)
  note step = get_at_view_loop.simps [of il current path, folded c_def, unfolded Let_def, folded rest_def]
  consider "path = []" | "path \<noteq> []" "c = []" | "c \<noteq> []" by blast
  then show ?case
  proof cases
    case 2
    then have "components path = components rest"
      by (cases path) (auto simp: c_def rest_def split: if_splits)
    then show ?thesis using 2 step IH by simp
  next
    case 3
    then have ne: "path \<noteq> []" by (auto simp: c_def)
    have comps: "components path = c # components rest"
      using components_split [OF c_def 3] by (simp add: rest_def)
    have "kbind (kopt (ref_of path (of_nat (length c)))) (dc_get il current) = walk_component il current c"
      if "c \<noteq> [46]" "c \<noteq> [46, 46]"
      using walk_component_ref [OF c(1) that, of "drop (length c) path"] c(2) by simp
    then show ?thesis
      using 3 ne step comps IH [OF ne] by (simp add: walk_components_bind)
  next
    case 1
    then show ?thesis by (simp add: get_at_view_loop.simps [of il current "[]"])
  qed
qed

lemma set_mono_tl: "set (tl xs) \<subseteq> set xs"
  by (cases xs) auto

lemma next_sep_run:
  assumes "0 \<notin> set p"
  shows "next_sep (p @ 0 # junk)
    = Some (takeWhile (\<lambda>b. b \<noteq> 47) p, dropWhile (\<lambda>b. b \<noteq> 47) p @ 0 # junk)"
  using assms by (induction p) auto

lemma char_loop_is_view_loop:
  assumes "0 \<notin> set path" and "length path < 2 ^ 32"
  shows "get_at_loop il current (path @ 0 # junk) = walk_components il current (components path)"
  using assms
proof (induction path arbitrary: current rule: length_induct)
  case (1 path)
  define c where "c = takeWhile (\<lambda>b. b \<noteq> 47) path"
  define tail where "tail = dropWhile (\<lambda>b. b \<noteq> 47) path"
  have path: "path = c @ tail" by (simp add: c_def tail_def)
  have tail: "tail = [] \<or> hd tail = 47"
    unfolding tail_def using hd_dropWhile [of "\<lambda>b. b \<noteq> 47" path] by blast
  have IH: "get_at_loop il n (q @ 0 # junk) = walk_components il n (components q)"
    if "length q < length path" "set q \<subseteq> set path" for q n
    using "1.IH" [rule_format, of q n] "1.prems" that by auto
  show ?case
  proof (cases path)
    case Nil
    then show ?thesis by (simp add: get_at_loop.simps [of _ _ "0 # junk"])
  next
    case (Cons b rest)
    have nz: "b \<noteq> 0" using "1.prems" Cons by auto
    note step = get_at_loop.simps [of il current "path @ 0 # junk"]
    have sep: "next_sep (path @ 0 # junk) = Some (c, tail @ 0 # junk)"
      using next_sep_run [OF "1.prems"(1)] by (simp add: c_def tail_def)
    show ?thesis
    proof (cases "c = []")
      case True
      then have "b = 47" using Cons by (auto simp: c_def split: if_splits)
      moreover have "get_at_loop il current (path @ 0 # junk) = get_at_loop il current (rest @ 0 # junk)"
        using step sep True Cons nz by simp
      ultimately show ?thesis using IH [of rest] Cons by auto
    next
      case False
      have len: "length c < 2 ^ 32" using "1.prems"(2) path by (metis le_add1 length_append order_le_less_trans)
      have comps: "components path = c # components (tl tail)"
        using components_split [OF c_def False] path tail by (auto simp: drop_Suc)
      have same: "components tail = components (tl tail)" using tail by (cases tail) auto
      have sub: "length tail < length path" "set tail \<subseteq> set path" "set (tl tail) \<subseteq> set path"
        using path False by (auto dest: set_mp [OF set_mono_tl])
      have after: "get_at_loop il n (tail @ 0 # junk) = walk_components il n (components (tl tail))" for n
        using IH [OF sub(1,2)] same by simp
      have skipped: "get_at_loop il n (skip_sep (tail @ 0 # junk)) = walk_components il n (components (tl tail))" for n
        using tail IH [of "tl tail"] sub after by (cases tail) (auto simp: skip_sep_def)
      have "kbind (kopt (ref_of (path @ 0 # junk) (of_nat (length c)))) (dc_get il current)
          = walk_component il current c" if "c \<noteq> [46]" "c \<noteq> [46, 46]"
        using walk_component_ref [OF len that, of "tail @ 0 # junk"] path by simp
      then show ?thesis
        using step sep False Cons nz comps after skipped by (simp add: walk_components_bind)
    qed
  qed
qed

lemma get_at_resolves:
  assumes "0 \<notin> set path" and "length path < 2 ^ 32"
  shows "get_at il current (path @ 0 # junk) = resolve il current path"
proof (cases path)
  case (Cons b rest)
  then show ?thesis
    using assms char_loop_is_view_loop [of rest il _ junk] char_loop_is_view_loop [of path il current junk]
    by (simp add: get_at_def resolve_def)
qed (use char_loop_is_view_loop [of "[]" il current junk] in \<open>simp add: get_at_def resolve_def\<close>)

lemma get_at_view_resolves:
  assumes "length path < 2 ^ 32"
  shows "get_at_view il current path = resolve il current path"
  using assms view_loop_resolves
  by (cases path) (simp_all add: get_at_view_def resolve_def)

section \<open>Lookup\<close>

text \<open>
  A cache is well formed when the entries of the buckets are dentries with a name, in the bucket of
  its hash.
\<close>

definition named :: "quick_string \<Rightarrow> u8 list \<Rightarrow> bool" where
  "named q nm \<longleftrightarrow> qs_data q = Some (nm @ [0]) \<and> 0 \<notin> set nm \<and> length nm < 2 ^ 32
    \<and> qs_size q = of_nat (length nm) \<and> qs_hash_of nm (of_nat (length nm)) = Some (qs_hash q)"

definition dname_of :: "dcache \<Rightarrow> nat \<Rightarrow> u8 list" where
  "dname_of c d = (case dentries c d of None \<Rightarrow> [] | Some x \<Rightarrow> butlast (the (qs_data (d_name x))))"

definition dparent_of :: "dcache \<Rightarrow> nat \<Rightarrow> nat" where
  "dparent_of c d = (case dentries c d of None \<Rightarrow> 0 | Some x \<Rightarrow> d_parent x)"

definition dc_wf :: "dcache \<Rightarrow> bool" where
  "dc_wf c \<longleftrightarrow> 0 < c_next c \<and> (\<forall>b. distinct (hash_table c b)
    \<and> (\<forall>d \<in> set (hash_table c b). 0 < d \<and> d < c_next c
      \<and> (\<exists>x. dentries c d = Some x \<and> named (d_name x) (dname_of c d)
          \<and> unat (qs_hash (d_name x)) mod HASH_TABLE_SIZE = b)))"

text \<open>The entry \<open>lookup\<close> returns: the first with the parent whose name starts with the one sought.\<close>

definition first_match :: "dcache \<Rightarrow> nat \<Rightarrow> u8 list \<Rightarrow> nat list \<Rightarrow> nat" where
  "first_match c parent nm ds =
    (case List.find (\<lambda>d. take (length nm) (dname_of c d) = nm \<and> dparent_of c d = parent) ds of
      None \<Rightarrow> 0 | Some d \<Rightarrow> d)"

definition ref_to :: "quick_string_ref \<Rightarrow> u8 list \<Rightarrow> bool" where
  "ref_to r nm \<longleftrightarrow> 0 \<notin> set nm \<and> length nm < 2 ^ 32 \<and> r_size r = of_nat (length nm)
    \<and> take (length nm) (r_data r) = nm \<and> qs_hash_of nm (of_nat (length nm)) = Some (r_hash r)"

lemma strncmp_prefix:
  "\<lbrakk>0 \<notin> set nm; 0 \<notin> set w; take (length w) q = w\<rbrakk> \<Longrightarrow>
    \<exists>v. strncmp (nm @ [0]) q (length w) = Some v \<and> (v = 0 \<longleftrightarrow> take (length w) nm = w)"
proof (induction w arbitrary: nm q)
  case (Cons a w)
  then obtain q' where q: "q = a # q'" "take (length w) q' = w" by (cases q) auto
  show ?case
  proof (cases nm)
    case (Cons b nm')
    then show ?thesis using Cons.IH [of nm' q'] Cons.prems q by auto
  qed (use Cons.prems q in auto)
qed simp

lemma find_dentry_run:
  assumes r: "ref_to r nm" and ds: "\<forall>d \<in> set ds. 0 < d \<and> (\<exists>x. dentries c d = Some x \<and> named (d_name x) (dname_of c d))"
  shows "find_dentry parent r ds c = (Inr (first_match c parent nm ds), c)"
  using ds
proof (induction ds)
  case (Cons d ds)
  then obtain x where x: "dentries c d = Some x" "0 < d" "qs_data (d_name x) = Some (dname_of c d @ [0])"
    "0 \<notin> set (dname_of c d)" by (auto simp: named_def)
  have n: "unat (r_size r) = length nm" using r by (auto simp: ref_to_def intro!: unat_of_nat_lt)
  obtain v where v: "strncmp (dname_of c d @ [0]) (r_data r) (length nm) = Some v"
    "v = 0 \<longleftrightarrow> take (length nm) (dname_of c d) = nm"
    using strncmp_prefix [OF x(4), of nm "r_data r"] r by (auto simp: ref_to_def)
  have "dparent_of c d = d_parent x" using x by (simp add: dparent_of_def)
  then show ?case
    using Cons x v n by (auto simp: get_dentry_def first_match_def)
qed (simp add: first_match_def)

lemma wf_bucket:
  "dc_wf c \<Longrightarrow> \<forall>d \<in> set (hash_table c b). 0 < d \<and> (\<exists>x. dentries c d = Some x \<and> named (d_name x) (dname_of c d))"
  by (auto simp: dc_wf_def)

lemma find_mem: "List.find P xs = Some x \<Longrightarrow> x \<in> set xs"
  by (auto simp: find_Some_iff)

lemma first_match_mem: "first_match c parent nm ds \<noteq> 0 \<Longrightarrow> first_match c parent nm ds \<in> set ds"
  unfolding first_match_def by (auto dest: find_mem split: option.splits)

lemma dc_wf_front:
  assumes "dc_wf c" and "d \<in> set (hash_table c b)"
  shows "dc_wf (c\<lparr>hash_table := (hash_table c)(b := d # remove1 d (hash_table c b))\<rparr>)"
  using assms by (auto simp: dc_wf_def dname_of_def)

lemma dc_lookup_run:
  assumes wf: "dc_wf c" and r: "ref_to r nm"
  obtains c' where "dc_lookup parent r c = (Inr (first_match c parent nm (hash_table c (bucket_of r))), c')"
    and "dc_wf c'" and "dentries c' = dentries c" and "c_next c' = c_next c"
    and "\<forall>b. set (hash_table c' b) = set (hash_table c b)"
proof -
  let ?ds = "hash_table c (bucket_of r)"
  define d where "d = first_match c parent nm ?ds"
  have find: "find_dentry parent r ?ds c = (Inr d, c)"
    using find_dentry_run [OF r wf_bucket [OF wf]] by (simp add: d_def)
  show thesis
  proof (cases "d = 0")
    case True
    then have "dc_lookup parent r c = (Inr d, c)" using find by (simp add: dc_lookup_def)
    then show thesis using that [of c] wf by (simp add: d_def)
  next
    case False
    then have mem: "d \<in> set ?ds" using first_match_mem by (simp add: d_def)
    define c' where "c' = c\<lparr>hash_table := (hash_table c)(bucket_of r := d # remove1 d ?ds)\<rparr>"
    have "dc_lookup parent r c = (Inr d, c')" using find False by (simp add: dc_lookup_def c'_def)
    moreover have "set (hash_table c' b) = set (hash_table c b)" for b
      using mem wf by (auto simp: c'_def dc_wf_def)
    ultimately show thesis
      using that [of c'] dc_wf_front [OF wf mem] by (simp add: d_def c'_def)
  qed
qed

definition stored :: "quick_string_ref \<Rightarrow> u8 list \<Rightarrow> quick_string" where
  "stored r nm = \<lparr>qs_data = Some (nm @ [0]), qs_size = r_size r, qs_hash = r_hash r\<rparr>"

lemma to_string_run:
  assumes "ref_to r nm"
  shows "to_string r = Some (stored r nm)" and "named (stored r nm) nm"
proof -
  have n: "unat (r_size r) = length nm" using assms by (auto simp: ref_to_def intro!: unat_of_nat_lt)
  have "length nm \<le> length (r_data r)" using assms by (metis length_take min.bounded_iff order_refl ref_to_def)
  then show "to_string r = Some (stored r nm)" using assms n by (simp add: to_string_def strndup_def ref_to_def stored_def)
  show "named (stored r nm) nm" using assms by (simp add: named_def ref_to_def stored_def)
qed

lemma ref_of_cstr_run:
  assumes "0 \<notin> set nm" and "length nm < 2 ^ 32"
  obtains r where "ref_of_cstr (nm @ 0 # junk) = Some r" and "ref_to r nm"
proof -
  have n: "unat (of_nat (length nm) :: u32) = length nm" using assms(2) by (intro unat_of_nat_lt) simp
  have len: "strlen (nm @ 0 # junk) = Some (length nm)" using assms(1) by (induction nm) auto
  obtain h where h: "hash_loop 0 nm (length nm) = Some h" using hash_loop_Some by blast
  then have "hash_loop 0 (nm @ 0 # junk) (length nm) = Some h"
    using hash_loop_take [of 0 "nm @ 0 # junk" "length nm"] by simp
  then have "ref_of_cstr (nm @ 0 # junk)
      = Some \<lparr>r_data = nm @ 0 # junk, r_size = of_nat (length nm), r_hash = drop_bit 1 h\<rparr>"
    using n len by (simp add: ref_of_cstr_def ref_of_def qs_hash_of_def)
  then show thesis by (rule that) (use h n assms in \<open>simp add: ref_to_def qs_hash_of_def\<close>)
qed

lemma fill_dentry_run:
  assumes r: "ref_to r nm" and c: "0 < c_next c"
  obtains c' where "fill_dentry r parent i c = (Inr (c_next c), c')"
    and "dentries c' = (dentries c)(c_next c \<mapsto> \<lparr>d_inode = i, d_name = stored r nm, d_parent = parent\<rparr>)"
    and "hash_table c' = (hash_table c)(bucket_of r := c_next c # hash_table c (bucket_of r))"
    and "c_next c' = c_next c + 1" and "i \<noteq> 0 \<longrightarrow> this_dentry c' i = c_next c"
  using c to_string_run [OF r]
  by (cases "i = 0"; cases "MIN_CACHE_SIZE \<le> c_size c")
    (simp_all add: fill_dentry_def get_free_dentry_def dc_add_def dc_reuse_def mod_dentry_def get_dentry_def
      set_dentry_def set_inode_def new_dentry_def qs_move_assign_def)

lemma fill_dentry_wf:
  assumes wf: "dc_wf c" and r: "ref_to r nm" and n: "c_next c' = c_next c + 1"
    and d: "dentries c' = (dentries c)(c_next c \<mapsto> \<lparr>d_inode = i, d_name = stored r nm, d_parent = parent\<rparr>)"
    and h: "hash_table c' = (hash_table c)(bucket_of r := c_next c # hash_table c (bucket_of r))"
  shows "dc_wf c'" and "dname_of c' (c_next c) = nm" and "dparent_of c' (c_next c) = parent"
    and "\<forall>e < c_next c. dname_of c' e = dname_of c e \<and> dparent_of c' e = dparent_of c e"
proof -
  show nm: "dname_of c' (c_next c) = nm" and "dparent_of c' (c_next c) = parent"
    using d by (simp_all add: dname_of_def dparent_of_def stored_def)
  show old: "\<forall>e < c_next c. dname_of c' e = dname_of c e \<and> dparent_of c' e = dparent_of c e"
    using d by (simp add: dname_of_def dparent_of_def)
  have new: "named (stored r nm) nm" "unat (qs_hash (stored r nm)) mod HASH_TABLE_SIZE = bucket_of r"
    using to_string_run(2) [OF r] by (simp_all add: stored_def bucket_of_def)
  have prev: "0 < e \<and> e < c_next c \<and> (\<exists>x. dentries c' e = Some x \<and> named (d_name x) (dname_of c' e)
      \<and> unat (qs_hash (d_name x)) mod HASH_TABLE_SIZE = b)" if "e \<in> set (hash_table c b)" for e b
  proof -
    have e: "0 < e" "e < c_next c" using wf that by (auto simp: dc_wf_def)
    then show ?thesis using wf that old d by (fastforce simp: dc_wf_def)
  qed
  have "distinct (hash_table c' b)" for b
    using wf prev by (fastforce simp: h dc_wf_def)
  moreover have "0 < e \<and> e < c_next c' \<and> (\<exists>x. dentries c' e = Some x \<and> named (d_name x) (dname_of c' e)
      \<and> unat (qs_hash (d_name x)) mod HASH_TABLE_SIZE = b)" if "e \<in> set (hash_table c' b)" for e b
  proof (cases "e = c_next c")
    case True
    then have "b = bucket_of r" using that prev [of e b] h by (auto split: if_splits)
    then show ?thesis using True wf n d new nm by (simp add: dc_wf_def)
  next
    case False
    then have "e \<in> set (hash_table c b)" using that h by (auto split: if_splits)
    then show ?thesis using prev [of e b] n by auto
  qed
  ultimately show "dc_wf c'" using n by (simp add: dc_wf_def)
qed

lemma first_match_cong:
  assumes "\<forall>d \<in> set ds. dname_of c' d = dname_of c d \<and> dparent_of c' d = dparent_of c d"
  shows "first_match c' parent nm ds = first_match c parent nm ds"
  using assms by (induction ds) (simp_all add: first_match_def)

text \<open>
  A dentry that was created is found again: the lookup of its name under its parent returns it,
  and lookups under other parents return what they returned before. A lookup returns the first entry
  of the bucket with the parent sought and a name that starts with the one sought.
\<close>

lemma dentry_create_then_lookup:
  assumes wf: "dc_wf c" and nm: "0 \<notin> set nm" "length nm < 2 ^ 32"
  shows "\<exists>r c' d. ref_of_cstr (nm @ 0 # junk) = Some r \<and> dc_create parent (nm @ 0 # junk) i c = (Inr d, c')
    \<and> d \<noteq> 0 \<and> dc_wf c' \<and> fst (dc_lookup parent r c') = Inr d
    \<and> (\<forall>q w r'. q \<noteq> parent \<and> ref_to r' w \<longrightarrow> fst (dc_lookup q r' c') = fst (dc_lookup q r' c)
        \<and> fst (dc_lookup q r' c) = Inr (first_match c q w (hash_table c (bucket_of r'))))"
proof -
  obtain r where ref: "ref_of_cstr (nm @ 0 # junk) = Some r" and r: "ref_to r nm"
    using nm by (rule ref_of_cstr_run)
  have n: "0 < c_next c" using wf by (simp add: dc_wf_def)
  obtain c' where c': "fill_dentry r parent i c = (Inr (c_next c), c')"
    and d: "dentries c' = (dentries c)(c_next c \<mapsto> \<lparr>d_inode = i, d_name = stored r nm, d_parent = parent\<rparr>)"
    and h: "hash_table c' = (hash_table c)(bucket_of r := c_next c # hash_table c (bucket_of r))"
    and nx: "c_next c' = c_next c + 1"
    using fill_dentry_run [OF r n, of parent i] by metis
  note wf' = fill_dentry_wf [OF wf r nx d h]
  have found: "fst (dc_lookup q r' c1) = Inr (first_match c1 q w (hash_table c1 (bucket_of r')))"
    if "dc_wf c1" "ref_to r' w" for q r' w c1
    using dc_lookup_run [OF that, of q] by (metis fst_conv)
  have "fst (dc_lookup parent r c') = Inr (c_next c)"
    using found [OF wf'(1) r, of parent] wf'(2,3) h by (simp add: first_match_def)
  moreover have "first_match c' q w (hash_table c' b) = first_match c q w (hash_table c b)"
    if "q \<noteq> parent" for q w b
  proof -
    have "first_match c' q w (hash_table c b) = first_match c q w (hash_table c b)"
      using wf wf'(4) by (intro first_match_cong) (auto simp: dc_wf_def)
    then show ?thesis using that wf'(3) by (cases "b = bucket_of r") (simp_all add: h first_match_def)
  qed
  ultimately show ?thesis
    using ref c' n wf'(1) found [OF wf] found [OF wf'(1)] by (fastforce simp: dc_create_def)
qed

definition empty_dcache :: dcache where
  "empty_dcache = \<lparr>dentries = (\<lambda>_. None), hash_table = (\<lambda>_. []), c_size = 0, c_next = 1, this_dentry = (\<lambda>_. 0)\<rparr>"

lemma empty_dcache_wf: "dc_wf empty_dcache"
  by (simp add: dc_wf_def empty_dcache_def)

lemma dentry_create_then_lookup_witness:
  "\<exists>r c' d. ref_of_cstr [97, 0] = Some r \<and> dc_create 7 [97, 0] 3 empty_dcache = (Inr d, c')
    \<and> d \<noteq> 0 \<and> fst (dc_lookup 7 r c') = Inr d"
  using dentry_create_then_lookup [OF empty_dcache_wf, of "[97]" "[]" 7 3] by auto

text \<open>
  Both overloads of \<open>get_at\<close>, on a zero-terminated string and on a string view, return for every
  path and in every state of the cache, failures included, what resolving the components of the path
  one after the other returns, starting at the root for an absolute path and with empty
  components skipped.
\<close>

lemma get_at_overloads_agree:
  assumes "0 \<notin> set path" and "length path < 2 ^ 32"
  shows "get_at il current (path @ 0 # junk) = resolve il current path
    \<and> get_at_view il current path = resolve il current path"
  using get_at_resolves [OF assms] get_at_view_resolves [OF assms(2)] by simp

lemma get_at_overloads_agree_witness:
  "get_at (\<lambda>_ _. kret 0) 1 [47, 97, 47, 46, 46, 0] = get_at_view (\<lambda>_ _. kret 0) 1 [47, 97, 47, 46, 46]"
  using get_at_overloads_agree [of "[47, 97, 47, 46, 46]" "\<lambda>_ _. kret 0" 1 "[]"] by simp

text \<open>
  The comparison of names takes a name for one it is a prefix of when both fall into the same bucket:
  after the creation of \<open>a2a\<close>, the lookup of \<open>a\<close> returns it.
\<close>

lemma demo_hashes:
  "qs_hash_of (97 # 50 # 97 # p) 3 = Some 835632" "qs_hash_of (97 # p) 1 = Some 48"
proof -
  have "unat (3 :: u32) = Suc (Suc (Suc 0))" by simp
  then show "qs_hash_of (97 # 50 # 97 # p) 3 = Some 835632"
    unfolding qs_hash_of_def by (simp only: hash_loop.simps option.map) simp
qed (simp add: qs_hash_of_def)

lemma demo_refs:
  "ref_of_cstr [97, 0] = Some \<lparr>r_data = [97, 0], r_size = 1, r_hash = 48\<rparr>"
  "ref_of_cstr [97, 50, 97, 0] = Some \<lparr>r_data = [97, 50, 97, 0], r_size = 3, r_hash = 835632\<rparr>"
  by (simp_all add: ref_of_cstr_def ref_of_def demo_hashes)

lemma lookup_finds_longer_name:
  "\<exists>c'. dc_create 7 [97, 50, 97, 0] 3 empty_dcache = (Inr 1, c')
    \<and> fst (dc_lookup 7 \<lparr>r_data = [97, 0], r_size = 1, r_hash = 48\<rparr> c') = Inr 1"
proof -
  let ?r = "\<lparr>r_data = [97, 50, 97, 0], r_size = 3, r_hash = 835632\<rparr> :: quick_string_ref"
  let ?a = "\<lparr>r_data = [97, 0], r_size = 1, r_hash = 48\<rparr> :: quick_string_ref"
  have r: "ref_to ?r [97, 50, 97]" and a: "ref_to ?a [97]"
    by (simp_all add: ref_to_def demo_hashes)
  have n: "0 < c_next empty_dcache" by (simp add: empty_dcache_def)
  obtain c' where c': "fill_dentry ?r 7 3 empty_dcache = (Inr (c_next empty_dcache), c')"
    and d: "dentries c' = (dentries empty_dcache)(c_next empty_dcache \<mapsto>
      \<lparr>d_inode = 3, d_name = stored ?r [97, 50, 97], d_parent = 7\<rparr>)"
    and h: "hash_table c' = (hash_table empty_dcache)(bucket_of ?r := c_next empty_dcache # hash_table empty_dcache (bucket_of ?r))"
    and nx: "c_next c' = c_next empty_dcache + 1"
    using fill_dentry_run [OF r n, of 7 3] by metis
  note wf = fill_dentry_wf [OF empty_dcache_wf r nx d h]
  have one: "c_next empty_dcache = 1" by (simp add: empty_dcache_def)
  have "bucket_of ?a = bucket_of ?r" by (simp add: bucket_of_def HASH_TABLE_SIZE_def)
  then have "first_match c' 7 [97] (hash_table c' (bucket_of ?a)) = 1"
    using wf(2,3) by (simp add: h one first_match_def)
  then have "fst (dc_lookup 7 ?a c') = Inr 1" using dc_lookup_run [OF wf(1) a, of 7] by (metis fst_conv)
  then show ?thesis using c' one by (simp add: dc_create_def demo_refs)
qed

end
