(* ===== verification/Step_Frame.thy ===== *)
theory Step_Frame
  imports Prelude
begin

text \<open>
  What a piece of kernel code does to the state whatever its result is, a failure included: a
  preorder between the states before and after, closed under sequencing. A client fixes the
  preorder (a part of the state is unchanged, a set only grows) and proves it of the operations at
  the bottom; the rules carry it through the code built from them.
\<close>

definition always :: "('s \<Rightarrow> 's \<Rightarrow> bool) \<Rightarrow> ('s, 'a) kmonad \<Rightarrow> bool" where
  "always Q m \<longleftrightarrow> (\<forall>s r s'. m s = (r, s') \<longrightarrow> Q s s')"

lemma alwaysI: "(\<And>s r s'. m s = (r, s') \<Longrightarrow> Q s s') \<Longrightarrow> always Q m"
  by (simp add: always_def)

lemma alwaysD: "\<lbrakk>always Q m; m s = (r, s')\<rbrakk> \<Longrightarrow> Q s s'"
  by (simp add: always_def)

lemma always_mono: "\<lbrakk>always P m; \<And>s s'. P s s' \<Longrightarrow> Q s s'\<rbrakk> \<Longrightarrow> always Q m"
  by (auto simp: always_def)

lemma always_kmod: "(\<And>s. Q s (f s)) \<Longrightarrow> always Q (kmod f)"
  by (simp add: always_def)

locale step_frame =
  fixes Q :: "'s \<Rightarrow> 's \<Rightarrow> bool"
  assumes same: "Q s s"
    and comp: "\<lbrakk>Q s t; Q t u\<rbrakk> \<Longrightarrow> Q s u"
begin

lemma always_kret: "always Q (kret x)"
  and always_kthrow: "always Q (kthrow e)"
  and always_kget: "always Q (kget f)"
  and always_kassert: "always Q (kassert b msg)"
  and always_kopt: "always Q (kopt v)"
  by (auto simp: always_def same split: option.splits if_splits)

lemma always_pair: "always Q (Pair r)"
  by (auto simp: always_def same)

lemma always_kbind: "\<lbrakk>always Q m; \<And>x. always Q (f x)\<rbrakk> \<Longrightarrow> always Q (kbind m f)"
  by (force simp: always_def kbind_def split: prod.splits sum.splits intro: comp)

lemma always_kseq: "\<lbrakk>always Q m; always Q n\<rbrakk> \<Longrightarrow> always Q (kseq m n)"
  unfolding kseq_def by (rule always_kbind)

lemma always_if: "\<lbrakk>b \<Longrightarrow> always Q m; \<not> b \<Longrightarrow> always Q n\<rbrakk> \<Longrightarrow> always Q (if b then m else n)"
  by simp

lemma always_option:
  "\<lbrakk>v = None \<Longrightarrow> always Q m; \<And>x. v = Some x \<Longrightarrow> always Q (f x)\<rbrakk>
    \<Longrightarrow> always Q (case v of None \<Rightarrow> m | Some x \<Rightarrow> f x)"
  by (cases v) auto

lemma always_list:
  "\<lbrakk>v = [] \<Longrightarrow> always Q m; \<And>x xs. v = x # xs \<Longrightarrow> always Q (f x xs)\<rbrakk>
    \<Longrightarrow> always Q (case v of [] \<Rightarrow> m | x # xs \<Rightarrow> f x xs)"
  by (cases v) auto

lemma always_foldr:
  "\<lbrakk>\<And>x rest. always Q rest \<Longrightarrow> always Q (f x rest); always Q m\<rbrakk> \<Longrightarrow> always Q (foldr f xs m)"
  by (induction xs) auto

text \<open>The rules a proof about a whole operation applies until only its primitive steps are left.\<close>

lemmas always_rules = always_kret always_pair always_kthrow always_kget always_kassert always_kopt
  always_kbind always_kseq always_if always_option always_list

end

end
