(* ===== verification/Process.thy ===== *)
theory Process
  imports Page_Table Step_Frame
begin

text \<open>
  Processes (\<open>src/os/proc/process.h\<close>, \<open>src/os/proc/process.cc\<close>): the states of a process, the memory of
  a user process and the stack of a kernel process, sleeping and waking up, killing and exiting.
  Process objects live at addresses, \<open>0\<close> is null, beside the physical memory of the machine. What
  happens on the processor while a process runs is a parameter of \<open>run\<close>. Code under a process lock
  is atomic. Process objects are not destroyed here: the pointers that own them are those of the
  theory of shared pointers.
\<close>

section \<open>Process objects\<close>

datatype pstate = INIT | ALLOCATED | SLEEPING | WAKEN_UP | RUNNABLE | RUNNING | KILLED | ZOMBIE | EXITED

datatype pkind = User_Process | Kernel_Process

definition FD_MAX :: nat where "FD_MAX = 16"
definition PROC_NAME_MAX :: nat where "PROC_NAME_MAX = 16"
definition ENOMEM :: int where "ENOMEM = 12"

definition MAP_DEFAULT :: u64 where "MAP_DEFAULT = 0"
definition MAP_SHARED :: u64 where "MAP_SHARED = 1"
definition MAP_ANONYMOUS :: u64 where "MAP_ANONYMOUS = 2"
definition MAP_USER :: u64 where "MAP_USER = 4"

definition TRAPFRAME :: u64 where "TRAPFRAME = TRAMPOLINE - PGSIZE"
definition USER_STACK_TOP :: u64 where "USER_STACK_TOP = USER_STACK_BOTTOM - USTACK_SIZE"

record mmap_info =
  mi_start :: u64
  mi_size :: u64
  mi_flags :: u64
  mi_pte_flags :: u64

record kcontext =
  ctx_ra :: u64
  ctx_sp :: u64
  ctx_a0 :: u64

record proc =
  p_kind :: pkind
  p_stride :: u64
  p_priority :: u64
  p_cpu_time :: u64
  p_last_start_time :: u64
  p_binding_core :: int
  p_current_promise :: nat
  p_state :: pstate
  p_pid :: int
  p_exit_code :: int
  p_stack_bottom_va :: u64
  p_parent :: nat
  p_children :: "nat list"
  p_wait_children_queue :: "nat list"
  p_name :: "u8 list"
  p_trapframe_pa :: u64
  p_pagetable :: u64
  p_mmap_infos :: "mmap_info list"
  p_min_va :: u64
  p_max_va :: u64
  p_files :: "nat list"
  p_cwd :: nat
  p_context :: kcontext

text \<open>
  What waits for a wake-up: a process or a suspended coroutine. The object \<open>cpu\<close> of the core, and
  the state of the kernel: memory, processes, the core, the queues of processes and of tasks.
\<close>

datatype sleepable = Sleeping_Process nat | Sleeping_Task nat

definition SAMPLE_SLOT_COUNT :: nat where "SAMPLE_SLOT_COUNT = 8"

record cpu =
  current_process :: nat
  core_id :: int
  sleepers :: "(u64 \<times> sleepable) list"
  sample_duration :: "u64 list"
  busy_time :: "u64 list"
  next_slot :: nat
  cpu_stride :: u64

record kern = mm +
  procs :: "nat \<Rightarrow> proc option"
  this_cpu :: cpu
  process_queue :: "nat list"
  next_pid :: int
  task_queue :: "nat list"

definition new_cpu :: "int \<Rightarrow> cpu" where
  "new_cpu i = \<lparr>current_process = 0, core_id = i, sleepers = [], sample_duration = replicate SAMPLE_SLOT_COUNT 0,
    busy_time = replicate SAMPLE_SLOT_COUNT 0, next_slot = 0, cpu_stride = 0\<rparr>"

type_synonym 'a km = "(kern, 'a) kmonad"

definition new_proc :: "pkind \<Rightarrow> int \<Rightarrow> proc" where
  "new_proc k pid = \<lparr>p_kind = k, p_stride = 0, p_priority = 16, p_cpu_time = 0, p_last_start_time = 0,
    p_binding_core = - 1, p_current_promise = 0, p_state = INIT, p_pid = pid, p_exit_code = - 1,
    p_stack_bottom_va = 0, p_parent = 0, p_children = [], p_wait_children_queue = [],
    p_name = replicate PROC_NAME_MAX 0, p_trapframe_pa = 0, p_pagetable = 0, p_mmap_infos = [],
    p_min_va = 0, p_max_va = 0, p_files = replicate FD_MAX 0, p_cwd = 0,
    p_context = \<lparr>ctx_ra = 0, ctx_sp = 0, ctx_a0 = 0\<rparr>\<rparr>"

definition get_proc :: "nat \<Rightarrow> proc km" where
  "get_proc p = kbind (kget (\<lambda>s. if p = 0 then None else procs s p)) kopt"

definition mod_proc :: "nat \<Rightarrow> (proc \<Rightarrow> proc) \<Rightarrow> unit km" where
  "mod_proc p f = kbind (get_proc p) (\<lambda>x.
    kmod (\<lambda>s. s\<lparr>procs := (procs s)(p \<mapsto> f x)\<rparr>))"

definition set_state :: "nat \<Rightarrow> pstate \<Rightarrow> unit km" where
  "set_state p st = mod_proc p (p_state_update (\<lambda>_. st))"

section \<open>Names, files and the current promise\<close>

definition set_name :: "nat \<Rightarrow> u8 list \<Rightarrow> unit km" where
  "set_name p name = kbind (get_proc p) (\<lambda>x.
    kbind (kopt (strncpy (p_name x) name PROC_NAME_MAX)) (\<lambda>n.
    mod_proc p (p_name_update (\<lambda>_. n))))"

definition set_promise :: "nat \<Rightarrow> nat \<Rightarrow> nat km" where
  "set_promise p pr = kbind (get_proc p) (\<lambda>x.
    kseq (mod_proc p (p_current_promise_update (\<lambda>_. pr))) (
    kret (p_current_promise x)))"

primrec first_free :: "nat list \<Rightarrow> nat \<Rightarrow> nat option" where
  "first_free [] i = None"
| "first_free (f # fs) i = (if f = 0 then Some i else first_free fs (Suc i))"

definition alloc_fd :: "nat \<Rightarrow> nat \<Rightarrow> int km" where
  "alloc_fd p f = kbind (get_proc p) (\<lambda>x.
    case first_free (p_files x) 0 of
      None \<Rightarrow> kret (- 1)
    | Some i \<Rightarrow> kseq (mod_proc p (p_files_update (\<lambda>fs. fs[i := f]))) (
      kret (int i)))"

definition get_file :: "nat \<Rightarrow> int \<Rightarrow> nat km" where
  "get_file p fd = (if fd < 0 \<or> fd \<ge> int FD_MAX then kret 0 else kbind (get_proc p) (\<lambda>x.
    kopt (arr_get (p_files x) (nat fd))))"

definition close_files :: "nat \<Rightarrow> unit km" where
  "close_files p = mod_proc p (p_files_update (map (\<lambda>_. 0)))"

section \<open>Sleeping and waking up\<close>

definition proc_sleep :: "nat \<Rightarrow> unit km" where
  "proc_sleep p = kbind (get_proc p) (\<lambda>x.
    if p_state x \<noteq> RUNNING then kret () else set_state p SLEEPING)"

definition proc_wake_up :: "nat \<Rightarrow> unit km" where
  "proc_wake_up p = kbind (get_proc p) (\<lambda>x.
    if p_state x = SLEEPING then kbind (kget (cpu_stride \<circ> this_cpu)) (\<lambda>c.
      mod_proc p (\<lambda>x. x\<lparr>p_stride := c, p_state := WAKEN_UP\<rparr>))
    else kret ())"

definition wake_up_one :: "nat \<Rightarrow> unit km" where
  "wake_up_one p = kbind (get_proc p) (\<lambda>x.
    case p_wait_children_queue x of
      [] \<Rightarrow> kret ()
    | q # qs \<Rightarrow> kseq (proc_wake_up q) (
      mod_proc p (p_wait_children_queue_update (\<lambda>_. qs))))"

section \<open>Memory of a user process\<close>

definition mmap_pa :: "nat \<Rightarrow> u64 \<Rightarrow> u64 \<Rightarrow> u64 \<Rightarrow> u64 \<Rightarrow> u64 \<Rightarrow> int km" where
  "mmap_pa p va pa sz flags pte_flags = kbind (get_proc p) (\<lambda>x.
    kbind (uvmmap (p_pagetable x) va pa sz pte_flags) (\<lambda>r.
    if r < 0 then kret (- 1)
    else kseq (mod_proc p (p_mmap_infos_update (\<lambda>l. l @ [\<lparr>mi_start = va, mi_size = sz, mi_flags = flags, mi_pte_flags = pte_flags\<rparr>]))) (
      kret 0)))"

text \<open>
  The loop of the other overload: \<open>None\<close> when every page was mapped, otherwise the address it
  failed at.
\<close>

primrec mmap_loop :: "nat \<Rightarrow> u64 \<Rightarrow> u64 \<Rightarrow> u64 \<Rightarrow> u64 \<Rightarrow> u64 option km" where
  "mmap_loop 0 pagetable current_va va_end pte_flags = kthrow Out_Of_Fuel"
| "mmap_loop (Suc fuel) pagetable current_va va_end pte_flags =
    (if current_va < va_end then kbind alloc_page (\<lambda>pa.
      if pa = 0 then kret (Some current_va)
      else kbind (uvmmap pagetable current_va pa PGSIZE pte_flags) (\<lambda>r.
        if r < 0 then kret (Some current_va)
        else mmap_loop fuel pagetable (current_va + PGSIZE) va_end pte_flags))
    else kret None)"

definition mmap_alloc :: "nat \<Rightarrow> u64 \<Rightarrow> u64 \<Rightarrow> u64 \<Rightarrow> u64 \<Rightarrow> int km" where
  "mmap_alloc p va sz flags pte_flags = kbind (get_proc p) (\<lambda>x.
    kbind (mmap_loop (Suc va_pages) (p_pagetable x) va (va + sz) pte_flags) (\<lambda>r.
    case r of
      None \<Rightarrow> kseq (mod_proc p (p_mmap_infos_update (\<lambda>l. l @ [\<lparr>mi_start = va, mi_size = sz,
          mi_flags = flags AND NOT MAP_SHARED, mi_pte_flags = pte_flags\<rparr>]))) (
        kret 0)
    | Some current_va \<Rightarrow> kseq (if current_va \<noteq> va then uvmunmap (p_pagetable x) va (current_va - va) True else kret ()) (
      kret (- 1))))"

text \<open>The levels of a page table bound the recursion of \<open>free_pagetable_pages\<close>.\<close>

primrec unmap_infos :: "u64 \<Rightarrow> mmap_info list \<Rightarrow> unit km" where
  "unmap_infos pagetable [] = kret ()"
| "unmap_infos pagetable (i # is) = kseq (uvmunmap pagetable (mi_start i) (mi_size i) (mi_flags i AND MAP_SHARED = 0)) (
  unmap_infos pagetable is)"

definition free_pagetable :: "nat \<Rightarrow> unit km" where
  "free_pagetable p = kbind (get_proc p) (\<lambda>x.
    kseq (unmap_infos (p_pagetable x) (p_mmap_infos x)) (
    kseq (mod_proc p (p_mmap_infos_update (\<lambda>_. []))) (
    kseq (if p_pagetable x \<noteq> 0 then free_pagetable_pages 3 (p_pagetable x) else kret ()) (
    mod_proc p (p_pagetable_update (\<lambda>_. 0))))))"

text \<open>The address of the trampoline code is an argument. The stack pointer is at offset 48 of the trap frame.\<close>

definition init_maps :: "u64 \<Rightarrow> nat \<Rightarrow> u64 \<Rightarrow> u64 \<Rightarrow> bool km" where
  "init_maps trampoline p trapframe_pa stack_pa = kbind (mmap_pa p TRAMPOLINE trampoline PGSIZE MAP_SHARED (PTE_R OR PTE_X)) (\<lambda>r.
    if r < 0 then kret False
    else kbind (mmap_pa p TRAPFRAME trapframe_pa PGSIZE MAP_DEFAULT (PTE_R OR PTE_W)) (\<lambda>r.
      if r < 0 then kret False
      else kbind (mmap_pa p USER_STACK_TOP stack_pa USTACK_SIZE MAP_USER (PTE_U OR PTE_R OR PTE_W)) (\<lambda>r.
        kret (\<not> r < 0))))"

definition init_pagetable :: "u64 \<Rightarrow> nat \<Rightarrow> int km" where
  "init_pagetable trampoline p = kbind create_empty_user_pagetable (\<lambda>pagetable.
    kseq (mod_proc p (p_pagetable_update (\<lambda>_. pagetable))) (
    kbind alloc_page (\<lambda>trapframe_pa.
    kseq (mod_proc p (p_trapframe_pa_update (\<lambda>_. trapframe_pa))) (
    kbind alloc_page (\<lambda>stack_pa.
    if pagetable = 0 \<or> trapframe_pa = 0 \<or> stack_pa = 0 then kseq (free_pagetable_pages 3 pagetable) (
      kseq (free_page trapframe_pa) (
      kseq (free_page stack_pa) (
      kseq (mod_proc p (\<lambda>x. x\<lparr>p_pagetable := 0, p_trapframe_pa := 0\<rparr>)) (
      kret (- ENOMEM)))))
    else kseq (mem_memset trapframe_pa 0 PGSIZE) (
      kseq (mem_memset stack_pa 0 PGSIZE) (
      kbind (init_maps trampoline p trapframe_pa stack_pa) (\<lambda>ok.
      if ok then kseq (mod_proc p (p_stack_bottom_va_update (\<lambda>_. USER_STACK_BOTTOM))) (
        kseq (mem_store64 (trapframe_pa + 48) USER_STACK_BOTTOM) (
        kret 0))
      else kseq (free_pagetable p) (
        kret (- ENOMEM))))))))))"

section \<open>Constructors\<close>

definition user_process_init :: "u64 \<Rightarrow> nat \<Rightarrow> int \<Rightarrow> unit km" where
  "user_process_init trampoline p pid = kseq (kmod (\<lambda>s. s\<lparr>procs := (procs s)(p \<mapsto> new_proc User_Process pid)\<rparr>)) (
    kbind (init_pagetable trampoline p) (\<lambda>err.
    if err \<noteq> 0 then kret () else set_state p ALLOCATED))"

text \<open>\<open>caller\<close> is the address of \<open>__kernel_function_caller\<close>, \<open>func\<close> the function to run.\<close>

definition kernel_process_init :: "u64 \<Rightarrow> nat \<Rightarrow> int \<Rightarrow> u64 \<Rightarrow> u64 \<Rightarrow> u64 \<Rightarrow> unit km" where
  "kernel_process_init caller p pid func arg arg_size = kseq (kmod (\<lambda>s. s\<lparr>procs := (procs s)(p \<mapsto> new_proc Kernel_Process pid)\<rparr>)) (
    kbind alloc_page (\<lambda>stack_pa.
    if stack_pa = 0 then kret ()
    else kseq (mod_proc p (p_stack_bottom_va_update (\<lambda>_. stack_pa + PGSIZE))) (
      let top = (if arg \<noteq> 0 then stack_pa + PGSIZE - arg_size else stack_pa + PGSIZE) in
      kseq (if arg \<noteq> 0 then mem_memmove top arg arg_size else kret ()) (
      mod_proc p (\<lambda>x. x\<lparr>p_context := \<lparr>ctx_ra = caller, ctx_sp = top, ctx_a0 = func\<rparr>, p_state := WAKEN_UP\<rparr>)))))"

section \<open>Killing and exiting\<close>

definition set_exit_code :: "nat \<Rightarrow> int \<Rightarrow> unit km" where
  "set_exit_code p code = kseq (mod_proc p (p_exit_code_update (\<lambda>_. code))) (
    kbind (get_proc p) (\<lambda>x.
    if p_parent x \<noteq> 0 then kseq (set_state p ZOMBIE) (
      wake_up_one (p_parent x))
    else set_state p EXITED))"

text \<open>
  \<open>__kill\<close>, given how \<open>__do_kill\<close> acts on a process; the loop of \<open>__clean_children\<close>; and
  \<open>__clean_resources\<close> of both classes.
\<close>

definition kill_with :: "(nat \<Rightarrow> unit km) \<Rightarrow> nat \<Rightarrow> unit km" where
  "kill_with do_kill p = kbind (get_proc p) (\<lambda>x.
    if p_state x \<noteq> RUNNING then do_kill p else set_state p KILLED)"

primrec kill_children :: "(nat \<Rightarrow> unit km) \<Rightarrow> nat \<Rightarrow> nat list \<Rightarrow> unit km" where
  "kill_children do_kill p [] = kret ()"
| "kill_children do_kill p (c # cs) = kseq (mod_proc c (p_parent_update (\<lambda>_. 0))) (
  kseq (kill_with do_kill c) (
  kseq (mod_proc p (p_children_update (remove1 c))) (
  kill_children do_kill p cs)))"

definition clean_resources :: "(nat \<Rightarrow> unit km) \<Rightarrow> nat \<Rightarrow> unit km" where
  "clean_resources do_kill p = kbind (get_proc p) (\<lambda>x.
    case p_kind x of
      User_Process \<Rightarrow> kseq (close_files p) (
        kseq (mod_proc p (p_cwd_update (\<lambda>_. 0))) (
        kseq (kill_children do_kill p (p_children x)) (
        free_pagetable p)))
    | Kernel_Process \<Rightarrow> kseq (free_page (p_stack_bottom_va x - PGSIZE)) (
      mod_proc p (p_stack_bottom_va_update (\<lambda>_. 0))))"

text \<open>The fuel bounds the depth of the tree of children.\<close>

primrec do_kill :: "nat \<Rightarrow> nat \<Rightarrow> unit km" where
  "do_kill 0 p = kthrow Out_Of_Fuel"
| "do_kill (Suc k) p = kseq (clean_resources (do_kill k) p) (
  set_exit_code p (- 1))"

definition proc_kill :: "nat \<Rightarrow> nat \<Rightarrow> unit km" where
  "proc_kill k p = kill_with (do_kill k) p"

text \<open>\<open>exit\<close> up to the switch to the scheduler, which does not come back.\<close>

definition proc_exit :: "nat \<Rightarrow> nat \<Rightarrow> int \<Rightarrow> unit km" where
  "proc_exit k p code = kseq (clean_resources (do_kill k) p) (
    set_exit_code p code)"

text \<open>\<open>check_killed\<close> returns whether the process goes on.\<close>

definition check_killed :: "nat \<Rightarrow> nat \<Rightarrow> bool km" where
  "check_killed k p = kbind (get_proc p) (\<lambda>x.
    if p_state x = KILLED then kseq (do_kill k p) (
      kret False)
    else kret True)"

text \<open>The end of the function of a kernel process.\<close>

definition kernel_function_done :: "nat \<Rightarrow> unit km" where
  "kernel_function_done p = set_exit_code p 0"

text \<open>The saved program counter and the first argument are at offsets 24 and 112 of the trap frame.\<close>

definition syscall_ret :: "nat \<Rightarrow> u64 \<Rightarrow> unit km" where
  "syscall_ret p ret = kbind (get_proc p) (\<lambda>x.
    kseq (mem_store64 (p_trapframe_pa x + 112) ret) (
    kbind (mem_load64 (p_trapframe_pa x + 24)) (\<lambda>epc.
    mem_store64 (p_trapframe_pa x + 24) (epc + 4))))"

section \<open>Running\<close>

text \<open>
  \<open>run\<close> before and after the switch to the process; \<open>exec\<close> is what happens between them, until the
  processor is back in the scheduler.
\<close>

definition user_run_begin :: "nat \<Rightarrow> bool km" where
  "user_run_begin p = kbind (get_proc p) (\<lambda>x.
    if p_state x = EXITED \<or> p_state x = ZOMBIE then kret False
    else kseq (kassert (p_state x = RUNNABLE) ''process is not runnable'') (
      kseq (set_state p RUNNING) (
      kret True)))"

definition user_run_end :: "nat \<Rightarrow> nat \<Rightarrow> bool km" where
  "user_run_end k p = kbind (get_proc p) (\<lambda>y.
    case p_state y of
      KILLED \<Rightarrow> kseq (do_kill k p) (
        kret False)
    | RUNNING \<Rightarrow> kseq (set_state p RUNNABLE) (
      kret True)
    | EXITED \<Rightarrow> kret False
    | ZOMBIE \<Rightarrow> kret False
    | SLEEPING \<Rightarrow> kret True
    | RUNNABLE \<Rightarrow> kret True
    | WAKEN_UP \<Rightarrow> kret True
    | _ \<Rightarrow> kthrow (Panic ''process state is invalid''))"

definition user_run :: "nat \<Rightarrow> (nat \<Rightarrow> unit km) \<Rightarrow> nat \<Rightarrow> bool km" where
  "user_run k exec p = kbind (user_run_begin p) (\<lambda>go.
    if go then kseq (exec p) (
      user_run_end k p) else kret False)"

definition kernel_run_begin :: "nat \<Rightarrow> bool km" where
  "kernel_run_begin p = kbind (get_proc p) (\<lambda>x.
    if p_state x = EXITED then kret False
    else kseq (kassert (p_state x = RUNNABLE) ''kernel process is not runnable'') (
      kseq (set_state p RUNNING) (
      kret True)))"

definition kernel_run_end :: "nat \<Rightarrow> bool km" where
  "kernel_run_end p = kbind (get_proc p) (\<lambda>y.
    case p_state y of
      RUNNING \<Rightarrow> kseq (set_state p RUNNABLE) (
        kret True)
    | EXITED \<Rightarrow> kseq (clean_resources (\<lambda>_. kret ()) p) (
      kret False)
    | SLEEPING \<Rightarrow> kret True
    | RUNNABLE \<Rightarrow> kret True
    | WAKEN_UP \<Rightarrow> kret True
    | _ \<Rightarrow> kthrow (Panic ''process state is invalid''))"

definition kernel_run :: "(nat \<Rightarrow> unit km) \<Rightarrow> nat \<Rightarrow> bool km" where
  "kernel_run exec p = kbind (kernel_run_begin p) (\<lambda>go.
    if go then kseq (exec p) (
      kernel_run_end p) else kret False)"

definition proc_run :: "nat \<Rightarrow> (nat \<Rightarrow> unit km) \<Rightarrow> nat \<Rightarrow> bool km" where
  "proc_run k exec p = kbind (get_proc p) (\<lambda>x.
    case p_kind x of
      User_Process \<Rightarrow> user_run k exec p
    | Kernel_Process \<Rightarrow> kernel_run exec p)"

section \<open>Frames\<close>

text \<open>The memory operations leave the rest of the state alone.\<close>

definition same_rest :: "'x mm_scheme \<Rightarrow> 'x mm_scheme \<Rightarrow> bool" where
  "same_rest s s' \<longleftrightarrow> mm.more s' = mm.more s"

interpretation rest: step_frame same_rest
  by unfold_locales (simp_all add: same_rest_def)

lemma rest_mem:
  "always same_rest (mem_load64 a)" "always same_rest (mem_store64 a v)"
  "always same_rest (mem_memset a b n)" "always same_rest (mem_memmove d p n)"
  unfolding mem_load64_def mem_store64_def mem_memset_def mem_memmove_def
  by (intro rest.always_rules always_kmod; simp add: same_rest_def; fail)+

lemma rest_pages: "always same_rest alloc_page" "always same_rest (free_page pa)"
  unfolding alloc_page_def free_page_def
  by (intro rest.always_rules rest_mem always_kmod; simp add: same_rest_def; fail)+

lemma rest_walk_loop: "always same_rest (walk_loop n pagetable va alloc)"
  by (induction n arbitrary: pagetable) (auto simp: Let_def intro!: rest.always_rules rest_mem rest_pages)

lemma rest_walk: "always same_rest (walk pagetable va alloc)"
  unfolding walk_def by (intro rest.always_rules rest_walk_loop)

lemma rest_map_loop: "always same_rest (map_loop n pagetable a last_a pa perm)"
  by (induction n arbitrary: a pa) (auto intro!: rest.always_rules rest_mem rest_walk)

lemma rest_map: "always same_rest (uvmmap pagetable va pa sz perm)"
  unfolding uvmmap_def mappages_def by (rule rest_map_loop)

lemma rest_unmap_loop: "always same_rest (unmap_loop n pagetable a last_a do_free)"
  by (induction n arbitrary: a) (auto intro!: rest.always_rules rest_mem rest_walk rest_pages)

lemma rest_unmap: "always same_rest (uvmunmap pagetable va sz do_free)"
  unfolding uvmunmap_def by (intro rest.always_rules rest_unmap_loop)

lemma rest_free_pagetable_pages: "always same_rest (free_pagetable_pages n pagetable)"
  by (induction n arbitrary: pagetable)
    (auto intro!: rest.always_rules rest.always_foldr rest_mem rest_pages)

lemma rest_create: "always same_rest create_empty_user_pagetable"
  unfolding create_empty_user_pagetable_def by (intro rest.always_rules rest_pages rest_mem)

lemmas rest_ops = rest_mem rest_pages rest_map rest_unmap rest_free_pagetable_pages rest_create

section \<open>The dead stay dead\<close>

definition dead :: "kern \<Rightarrow> nat \<Rightarrow> bool" where
  "dead s p \<longleftrightarrow> (\<exists>x. procs s p = Some x \<and> (p_state x = ZOMBIE \<or> p_state x = EXITED))"

definition still_dead :: "kern \<Rightarrow> kern \<Rightarrow> bool" where
  "still_dead s s' \<longleftrightarrow> (\<forall>p. dead s p \<longrightarrow> dead s' p)"

interpretation deads: step_frame still_dead
  by unfold_locales (simp_all add: still_dead_def)

lemma kern_rest: "mm.more s' = mm.more s \<Longrightarrow> procs s' = procs (s :: kern)"
  by (cases s; cases s') simp

lemma still_dead_mem:
  assumes "always same_rest m"
  shows "always still_dead m"
  using assms by (rule always_mono) (auto simp: same_rest_def still_dead_def dead_def dest: kern_rest)

lemmas still_dead_memory = rest_ops [THEN still_dead_mem]

lemma get_proc_run: "get_proc p s = (if p \<noteq> 0 \<and> procs s p \<noteq> None then (Inr (the (procs s p)), s) else (Inl Undefined, s))"
  by (auto simp: get_proc_def)

lemma dead_get [intro!]: "always still_dead (get_proc p)"
  unfolding get_proc_def by (intro deads.always_rules)

lemma mod_proc_run: "mod_proc p f s = (if p \<noteq> 0 \<and> procs s p \<noteq> None
    then (Inr (), s\<lparr>procs := (procs s)(p \<mapsto> f (the (procs s p)))\<rparr>) else (Inl Undefined, s))"
  by (auto simp: mod_proc_def get_proc_run)

text \<open>A change of a process that leaves its state alone or ends it.\<close>

lemma dead_mod:
  assumes "\<And>x. p_state x = ZOMBIE \<or> p_state x = EXITED \<Longrightarrow> p_state (f x) = ZOMBIE \<or> p_state (f x) = EXITED"
  shows "always still_dead (mod_proc p f)"
proof (rule alwaysI)
  fix s r s' assume run: "mod_proc p f s = (r, s')"
  have "dead s' q" if "dead s q" for q
    using that run assms [of "the (procs s p)"]
    by (cases "q = p") (auto simp: dead_def mod_proc_run split: if_splits)
  then show "still_dead s s'" by (simp add: still_dead_def)
qed

lemma dead_set: "st = ZOMBIE \<or> st = EXITED \<Longrightarrow> always still_dead (set_state p st)"
  unfolding set_state_def by (intro dead_mod) auto

text \<open>A change guarded by the state that was read.\<close>

definition from_proc :: "nat \<Rightarrow> proc \<Rightarrow> 'a km \<Rightarrow> bool" where
  "from_proc p x m \<longleftrightarrow> (\<forall>s r s'. procs s p = Some x \<longrightarrow> m s = (r, s') \<longrightarrow> still_dead s s')"

lemma dead_read: "(\<And>x. from_proc p x (f x)) \<Longrightarrow> always still_dead (kbind (get_proc p) f)"
  by (auto simp: always_def from_proc_def kbind_def get_proc_run deads.same split: if_splits)

lemma from_any: "always still_dead m \<Longrightarrow> from_proc p x m"
  by (simp add: always_def from_proc_def)

lemma from_if: "\<lbrakk>b \<Longrightarrow> from_proc p x m; \<not> b \<Longrightarrow> from_proc p x n\<rbrakk> \<Longrightarrow> from_proc p x (if b then m else n)"
  by simp

lemma from_assert: "(b \<Longrightarrow> from_proc p x n) \<Longrightarrow> from_proc p x (kseq (kassert b msg) n)"
  by (auto simp: from_proc_def kseq_def kbind_def deads.same split: if_splits)

lemma from_mod:
  assumes "p_state x \<noteq> ZOMBIE" and "p_state x \<noteq> EXITED"
  shows "from_proc p x (mod_proc p f)"
  using assms by (auto simp: from_proc_def mod_proc_run still_dead_def dead_def split: if_splits)

lemma from_set: "\<lbrakk>p_state x \<noteq> ZOMBIE; p_state x \<noteq> EXITED\<rbrakk> \<Longrightarrow> from_proc p x (set_state p st)"
  unfolding set_state_def by (rule from_mod)

lemma from_seq:
  assumes "from_proc p x m" and "always still_dead n"
  shows "from_proc p x (kseq m n)"
proof -
  have "still_dead s s'" if s: "procs s p = Some x" and run: "kseq m n s = (r, s')" for s r s'
  proof (cases "m s")
    case (Pair a t)
    then have t: "still_dead s t" using assms(1) s by (simp add: from_proc_def)
    show ?thesis
    proof (cases a)
      case (Inr v)
      then have "n t = (r, s')" using run Pair by simp
      then show ?thesis using t alwaysD [OF assms(2)] deads.comp by blast
    qed (use run Pair t in simp)
  qed
  then show ?thesis by (simp add: from_proc_def)
qed

lemma dead_sleep: "always still_dead (proc_sleep p)"
  unfolding proc_sleep_def
  by (intro dead_read from_if) (auto intro: from_set from_any deads.always_kret)

lemma from_kget: "(\<And>c. from_proc p x (f c)) \<Longrightarrow> from_proc p x (kbind (kget g) f)"
  by (simp add: from_proc_def)

lemma dead_wake: "always still_dead (proc_wake_up p)"
  unfolding proc_wake_up_def
  by (intro dead_read from_if from_kget) (auto intro: from_mod from_any deads.always_kret)

lemma dead_wake_one: "always still_dead (wake_up_one p)"
  unfolding wake_up_one_def by (intro deads.always_rules dead_get dead_wake dead_mod) simp_all

lemma dead_exit_code: "always still_dead (set_exit_code p code)"
  unfolding set_exit_code_def by (intro deads.always_rules dead_get dead_wake_one dead_mod dead_set) simp_all

lemma dead_free_pagetable: "always still_dead (free_pagetable p)"
proof -
  have "always still_dead (unmap_infos pagetable is)" for pagetable "is"
    by (induction "is") (auto intro!: deads.always_rules still_dead_memory)
  then show ?thesis
    unfolding free_pagetable_def by (intro deads.always_rules dead_get dead_mod still_dead_memory) simp_all
qed

lemma dead_kill_with:
  assumes "\<And>q. always still_dead (dk q)"
  shows "always still_dead (kill_with dk p)"
  unfolding kill_with_def by (intro dead_read from_if) (auto intro: from_set from_any assms)

lemma dead_kind:
  "\<lbrakk>always still_dead m; always still_dead n\<rbrakk>
    \<Longrightarrow> always still_dead (case k of User_Process \<Rightarrow> m | Kernel_Process \<Rightarrow> n)"
  by (cases k) simp_all

lemma dead_clean:
  assumes "\<And>q. always still_dead (dk q)"
  shows "always still_dead (clean_resources dk p)"
proof -
  have children: "always still_dead (kill_children dk p cs)" for cs
    by (induction cs) (auto intro!: deads.always_rules dead_mod dead_kill_with assms)
  show ?thesis
    unfolding clean_resources_def close_files_def
    by (intro deads.always_rules dead_get dead_kind children dead_mod dead_free_pagetable still_dead_memory) simp_all
qed

lemma dead_do_kill: "always still_dead (do_kill k p)"
  by (induction k arbitrary: p) (auto intro!: deads.always_rules dead_clean dead_exit_code)

lemma dead_run_begin: "always still_dead (user_run_begin p)" "always still_dead (kernel_run_begin p)"
  unfolding user_run_begin_def kernel_run_begin_def
  by (intro dead_read from_if from_assert; auto intro!: from_set from_seq deads.always_rules intro: from_any)+

lemma dead_run_end: "always still_dead (user_run_end k p)" "always still_dead (kernel_run_end p)"
  unfolding user_run_end_def kernel_run_end_def
  by (intro dead_read; auto intro!: from_set from_seq deads.always_rules dead_do_kill dead_clean intro: from_any
      split: pstate.splits)+

text \<open>
  The operations on processes that the rest of the kernel calls, in any order. A process that runs is
  between its \<open>run_begin\<close> and its \<open>run_end\<close>; \<open>k\<close> bounds the depth of the tree of children.
\<close>

inductive proc_op :: "kern \<Rightarrow> kern \<Rightarrow> bool" where
  op_sleep: "proc_sleep p s = (r, s') \<Longrightarrow> proc_op s s'"
| op_wake: "proc_wake_up p s = (r, s') \<Longrightarrow> proc_op s s'"
| op_wake_one: "wake_up_one p s = (r, s') \<Longrightarrow> proc_op s s'"
| op_kill: "proc_kill k p s = (r, s') \<Longrightarrow> proc_op s s'"
| op_exit: "proc_exit k p code s = (r, s') \<Longrightarrow> proc_op s s'"
| op_check_killed: "check_killed k p s = (r, s') \<Longrightarrow> proc_op s s'"
| op_done: "kernel_function_done p s = (r, s') \<Longrightarrow> proc_op s s'"
| op_syscall_ret: "syscall_ret p v s = (r, s') \<Longrightarrow> proc_op s s'"
| op_alloc_fd: "alloc_fd p f s = (r, s') \<Longrightarrow> proc_op s s'"
| op_mmap: "mmap_alloc p va sz flags pte s = (r, s') \<Longrightarrow> proc_op s s'"
| op_user_begin: "user_run_begin p s = (r, s') \<Longrightarrow> proc_op s s'"
| op_user_end: "user_run_end k p s = (r, s') \<Longrightarrow> proc_op s s'"
| op_kernel_begin: "kernel_run_begin p s = (r, s') \<Longrightarrow> proc_op s s'"
| op_kernel_end: "kernel_run_end p s = (r, s') \<Longrightarrow> proc_op s s'"

lemma dead_kill: "always still_dead (proc_kill k p)" "always still_dead (proc_exit k p code)"
  "always still_dead (check_killed k p)" "always still_dead (kernel_function_done p)"
  unfolding proc_kill_def proc_exit_def check_killed_def kernel_function_done_def
  by (auto intro!: dead_kill_with dead_do_kill deads.always_rules dead_clean dead_exit_code)

lemma dead_files: "always still_dead (alloc_fd p f)" "always still_dead (syscall_ret p v)"
  unfolding alloc_fd_def syscall_ret_def
  by (intro deads.always_rules dead_get dead_mod still_dead_memory; simp; fail)+

lemma dead_mmap_loop: "always still_dead (mmap_loop n pagetable a va_end pte)"
  by (induction n arbitrary: a) (auto intro!: deads.always_rules still_dead_memory)

lemma dead_mmap: "always still_dead (mmap_alloc p va sz flags pte)"
  unfolding mmap_alloc_def
  by (intro deads.always_rules dead_get dead_mod dead_mmap_loop still_dead_memory) simp_all

lemma proc_op_dead: "proc_op s s' \<Longrightarrow> still_dead s s'"
  by (induction rule: proc_op.induct)
    (blast intro: alwaysD dead_sleep dead_wake dead_wake_one dead_kill dead_files dead_mmap dead_run_begin dead_run_end)+

lemma proc_ops_dead: "proc_op\<^sup>*\<^sup>* s s' \<Longrightarrow> still_dead s s'"
  by (induction rule: rtranclp_induct) (auto intro: deads.same deads.comp proc_op_dead)


definition one_proc :: "pstate \<Rightarrow> kern" where
  "one_proc st = \<lparr>ram = (\<lambda>_. None),
    kernel_allocator = \<lparr>free_page_list = 0, free_page_count = 0, start_addr = 0, end_addr = 0\<rparr>,
    procs = [1 \<mapsto> (new_proc Kernel_Process 7)\<lparr>p_state := st\<rparr>],
    this_cpu = new_cpu 0, process_queue = [], next_pid = 5, task_queue = []\<rparr>"


text \<open>
  A kernel process that is killed while it runs stops the kernel: \<open>kill\<close> leaves it in state \<open>KILLED\<close>,
  to be finished by \<open>run\<close>, but \<open>kernel_process::run\<close> does not know the state and panics.
\<close>

lemma killed_kernel_process_panics:
  assumes "p \<noteq> 0" and "procs s p = Some x" and "p_kind x = Kernel_Process" and "p_state x = RUNNABLE"
  shows "proc_run k (\<lambda>q. proc_kill k q) p s = (Inl (Panic ''process state is invalid''),
    s\<lparr>procs := (procs s)(p \<mapsto> x\<lparr>p_state := KILLED\<rparr>)\<rparr>)"
  using assms
  by (simp add: proc_run_def kernel_run_def kernel_run_begin_def kernel_run_end_def get_proc_run set_state_def
      mod_proc_run proc_kill_def kill_with_def)

lemma killed_kernel_process_panics_witness:
  "fst (proc_run 1 (\<lambda>q. proc_kill 1 q) 1 (one_proc RUNNABLE)) = Inl (Panic ''process state is invalid'')"
  using killed_kernel_process_panics [of 1 "one_proc RUNNABLE" "(new_proc Kernel_Process 7)\<lparr>p_state := RUNNABLE\<rparr>" 1]
  by (simp add: one_proc_def new_proc_def)

end
