(* ===== verification/Process_Queue.thy ===== *)
theory Process_Queue
  imports Process "HOL-Library.Multiset"
begin

text \<open>
  The queue of processes and the scheduler (\<open>src/os/proc/scheduler.cc\<close>, \<open>src/os/proc/scheduler.h\<close>), and the
  sleepers of a core (\<open>src/os/arch/cpu.cc\<close>). The values of the clocks are arguments. Saving and
  restoring the interrupt registers around a run is not represented.
\<close>

section \<open>Sleepers of a core\<close>

definition on_cpu :: "(cpu \<Rightarrow> cpu) \<Rightarrow> unit km" where
  "on_cpu f = kmod (this_cpu_update f)"

primrec insert_sleeper :: "u64 \<Rightarrow> sleepable \<Rightarrow> (u64 \<times> sleepable) list \<Rightarrow> (u64 \<times> sleepable) list" where
  "insert_sleeper t w [] = [(t, w)]"
| "insert_sleeper t w (x # xs) = (if t < fst x then (t, w) # x # xs else x # insert_sleeper t w xs)"

definition push_sleeper :: "u64 \<Rightarrow> sleepable \<Rightarrow> unit km" where
  "push_sleeper t w = on_cpu (sleepers_update (insert_sleeper t w))"

text \<open>\<open>cpu::sleep\<close> of a sleepable and of the current process, up to the switch to the scheduler.\<close>

definition cpu_sleep :: "u64 \<Rightarrow> u64 \<Rightarrow> sleepable \<Rightarrow> unit km" where
  "cpu_sleep now ticks w = kbind (kget this_cpu) (\<lambda>c.
    kseq (kassert (current_process c \<noteq> 0) ''current_process should not be null'') (
    push_sleeper (now + ticks) w))"

definition cpu_sleep_current :: "u64 \<Rightarrow> u64 \<Rightarrow> unit km" where
  "cpu_sleep_current now ticks = kbind (kget this_cpu) (\<lambda>c.
    kseq (kassert (current_process c \<noteq> 0) ''current_process should not be null'') (
    kseq (push_sleeper (now + ticks) (Sleeping_Process (current_process c))) (
    proc_sleep (current_process c))))"

definition wake :: "sleepable \<Rightarrow> unit km" where
  "wake w = (case w of
      Sleeping_Process p \<Rightarrow> proc_wake_up p
    | Sleeping_Task t \<Rightarrow> kmod (task_queue_update (\<lambda>q. q @ [t])))"

primrec wake_loop :: "u64 \<Rightarrow> (u64 \<times> sleepable) list \<Rightarrow> unit km" where
  "wake_loop now [] = kret ()"
| "wake_loop now (x # xs) = (if fst x > now then kret () else kseq (wake (snd x)) (
  kseq (on_cpu (sleepers_update tl)) (
  wake_loop now xs)))"

definition cpu_wake_up :: "u64 \<Rightarrow> unit km" where
  "cpu_wake_up now = kbind (kget (sleepers \<circ> this_cpu)) (\<lambda>l.
    wake_loop now l)"

definition cpu_sample :: "u64 \<Rightarrow> u64 \<Rightarrow> unit km" where
  "cpu_sample all busy = on_cpu (\<lambda>c. c\<lparr>sample_duration := (sample_duration c)[next_slot c := all],
    busy_time := (busy_time c)[next_slot c := busy], next_slot := (next_slot c + 1) mod SAMPLE_SLOT_COUNT\<rparr>)"

definition cpu_set_promise :: "nat \<Rightarrow> nat km" where
  "cpu_set_promise pr = kbind (kget this_cpu) (\<lambda>c.
    if current_process c \<noteq> 0 then set_promise (current_process c) pr else kret 0)"

section \<open>The queue\<close>

definition BIG_STRIDE :: u64 where
  "BIG_STRIDE = 0x7FFFFFFF"

definition stride_cmp :: "u64 \<Rightarrow> u64 \<Rightarrow> int" where
  "stride_cmp a b = (if a = b then 0
    else if a < b then (if b - a > BIG_STRIDE div 2 then 1 else - 1)
    else (if a - b > BIG_STRIDE div 2 then - 1 else 1))"

text \<open>The search for the first process that can run here, which marks those it passes runnable.\<close>

primrec find_ready :: "int \<Rightarrow> nat list \<Rightarrow> nat km" where
  "find_ready core [] = kret 0"
| "find_ready core (p # ps) = kbind (get_proc p) (\<lambda>x.
  kseq (if p_state x = WAKEN_UP then set_state p RUNNABLE else kret ()) (
  kbind (get_proc p) (\<lambda>y.
  if p_state y \<noteq> RUNNABLE then find_ready core ps
    else if p_binding_core y \<noteq> - 1 \<and> p_binding_core y \<noteq> core then find_ready core ps
    else if p_state y = SLEEPING then find_ready core ps
    else kret p)))"

definition queue_pop :: "int \<Rightarrow> nat km" where
  "queue_pop core = kbind (kget process_queue) (\<lambda>q.
    if q = [] then kret 0
    else kbind (find_ready core q) (\<lambda>p.
      if p = 0 then kret 0
      else kseq (kmod (process_queue_update (remove1 p))) (
        kret p)))"

definition queue_push :: "nat \<Rightarrow> unit km" where
  "queue_push p = kmod (process_queue_update (\<lambda>q. q @ [p]))"

definition alloc_pid :: "int km" where
  "alloc_pid = kbind (kget next_pid) (\<lambda>n.
    kseq (kmod (next_pid_update (\<lambda>_. n + 1))) (
    kret n))"

section \<open>The scheduler\<close>

text \<open>
  One iteration of \<open>process_scheduler::run\<close>. \<open>last_choice\<close> is the idle process; the readings of the
  clocks are \<open>now\<close> (for the sleepers), \<open>ms0\<close> and \<open>ms1\<close> (milliseconds before and after the run) and
  \<open>cy0\<close>, \<open>cy1\<close>, \<open>cy2\<close> (cycles). The loop keeps the busy cycles, all cycles and the last time stamp.
  The result is \<open>None\<close> when the loop ends.
\<close>

record sched_vars =
  sv_busy :: u64
  sv_all :: u64
  sv_stamp :: u64

record clocks =
  now :: u64
  ms0 :: u64
  ms1 :: u64
  cy0 :: u64
  cy1 :: u64
  cy2 :: u64

definition SAMPLE_CYCLES :: u64 where
  "SAMPLE_CYCLES = 1000 * (3000000000 div 1000)"

definition sched_start :: "nat \<Rightarrow> u64 \<Rightarrow> unit km" where
  "sched_start p ms = kbind (get_proc p) (\<lambda>x.
    kseq (if p_priority x = 0 then kthrow Undefined else kret ()) (
    kseq (mod_proc p (\<lambda>x. x\<lparr>p_last_start_time := ms, p_stride := p_stride x + BIG_STRIDE div p_priority x\<rparr>)) (
    kbind (get_proc p) (\<lambda>y.
    on_cpu (cpu_stride_update (\<lambda>_. p_stride y))))))"

definition sched_once :: "nat \<Rightarrow> (nat \<Rightarrow> unit km) \<Rightarrow> nat \<Rightarrow> clocks \<Rightarrow> sched_vars \<Rightarrow> sched_vars option km" where
  "sched_once k exec last_choice ck v = kseq (cpu_wake_up (now ck)) (
    kbind (kget (core_id \<circ> this_cpu)) (\<lambda>core.
    kbind (queue_pop core) (\<lambda>q.
    let p = (if q = 0 then last_choice else q) in
    if p = 0 then kret None
    else kseq (sched_start p (ms0 ck)) (
      kseq (on_cpu (current_process_update (\<lambda>_. p))) (
      kbind (proc_run k exec p) (\<lambda>reschedule.
      kseq (on_cpu (current_process_update (\<lambda>_. 0))) (
      kseq (mod_proc p (\<lambda>x. x\<lparr>p_cpu_time := p_cpu_time x + (ms1 ck - p_last_start_time x)\<rparr>)) (
      kseq (if reschedule \<and> p \<noteq> last_choice then queue_push p else kret ()) (
      let busy = (if p \<noteq> last_choice then sv_busy v + (cy1 ck - cy0 ck) else sv_busy v) in
      let all = sv_all v + (cy2 ck - sv_stamp v) in
      if all > SAMPLE_CYCLES then kseq (cpu_sample all busy) (
        kret (Some \<lparr>sv_busy = 0, sv_all = 0, sv_stamp = cy2 ck\<rparr>))
      else kret (Some \<lparr>sv_busy = busy, sv_all = all, sv_stamp = cy2 ck\<rparr>))))))))))"

section \<open>What \<open>pop\<close> returns\<close>

definition eligible :: "int \<Rightarrow> (nat \<Rightarrow> proc option) \<Rightarrow> nat \<Rightarrow> bool" where
  "eligible core P p \<longleftrightarrow> (case P p of None \<Rightarrow> False | Some x \<Rightarrow>
    (p_state x = RUNNABLE \<or> p_state x = WAKEN_UP) \<and> (p_binding_core x = - 1 \<or> p_binding_core x = core))"

definition mark :: "proc \<Rightarrow> proc" where
  "mark x = (if p_state x = WAKEN_UP then x\<lparr>p_state := RUNNABLE\<rparr> else x)"

definition mark_all :: "nat list \<Rightarrow> (nat \<Rightarrow> proc option) \<Rightarrow> nat \<Rightarrow> proc option" where
  "mark_all ps P = (\<lambda>p. if p \<in> set ps then map_option mark (P p) else P p)"

definition queue_ok :: "kern \<Rightarrow> bool" where
  "queue_ok s \<longleftrightarrow> distinct (process_queue s) \<and> (\<forall>p \<in> set (process_queue s). p \<noteq> 0 \<and> procs s p \<noteq> None)"

text \<open>The processes the search passes, and the one it stops at.\<close>

definition passed :: "int \<Rightarrow> (nat \<Rightarrow> proc option) \<Rightarrow> nat list \<Rightarrow> nat list" where
  "passed core P ps = takeWhile (\<lambda>p. \<not> eligible core P p) ps"

definition chosen :: "int \<Rightarrow> (nat \<Rightarrow> proc option) \<Rightarrow> nat list \<Rightarrow> nat list" where
  "chosen core P ps = take 1 (dropWhile (\<lambda>p. \<not> eligible core P p) ps)"

lemma eligible_mark_all [simp]: "eligible core (mark_all ps P) p = eligible core P p"
  by (auto simp: eligible_def mark_all_def mark_def split: option.splits)

lemma eligible_marked:
  assumes "eligible core P p"
  obtains x where "P p = Some x" and "p_state (mark x) = RUNNABLE"
  using assms that by (auto simp: eligible_def mark_def split: option.splits)

lemma passed_mark_all [simp]: "passed core (mark_all ps P) = passed core P" "chosen core (mark_all ps P) = chosen core P"
  by (simp_all add: passed_def chosen_def fun_eq_iff)

lemma mark_one:
  assumes "p \<noteq> 0" and "procs s p = Some x"
  shows "(if p_state x = WAKEN_UP then set_state p RUNNABLE else kret ()) s
    = (Inr (), s\<lparr>procs := mark_all [p] (procs s)\<rparr>)"
proof -
  have "mark_all [p] (procs s) = (procs s)(p \<mapsto> mark x)" using assms by (auto simp: mark_all_def)
  then show ?thesis using assms by (auto simp: set_state_def mod_proc_run mark_def fun_upd_idem)
qed

lemma mark_all_Cons: "mark_all ps (mark_all [p] P) = mark_all (p # ps) P"
  by (auto simp: mark_all_def mark_def fun_eq_iff option.map_comp comp_def intro!: map_option_cong)

lemma find_ready_run:
  assumes "\<forall>p \<in> set ps. p \<noteq> 0 \<and> procs s p \<noteq> None"
  shows "find_ready core ps s = (Inr (case chosen core (procs s) ps of [] \<Rightarrow> 0 | p # _ \<Rightarrow> p),
    s\<lparr>procs := mark_all (passed core (procs s) ps @ chosen core (procs s) ps) (procs s)\<rparr>)"
  using assms
proof (induction ps arbitrary: s)
  case Nil
  then show ?case by (simp add: chosen_def passed_def mark_all_def)
next
  case (Cons p ps)
  then obtain x where x: "p \<noteq> 0" "procs s p = Some x" by auto
  define t where "t = s\<lparr>procs := mark_all [p] (procs s)\<rparr>"
  have t: "procs t p = Some (mark x)" using x by (simp add: t_def mark_all_def)
  have run: "find_ready core (p # ps) s = (if eligible core (procs s) p then (Inr p, t) else find_ready core ps t)"
    using x t mark_one [OF x]
    by (auto simp: get_proc_run t_def [symmetric] eligible_def mark_def)
  show ?case
  proof (cases "eligible core (procs s) p")
    case True
    then show ?thesis using run by (simp add: chosen_def passed_def t_def)
  next
    case False
    have "\<forall>q \<in> set ps. q \<noteq> 0 \<and> procs t q \<noteq> None" using Cons.prems by (auto simp: t_def mark_all_def)
    from Cons.IH [OF this] have IH: "find_ready core ps t = (Inr (case chosen core (procs s) ps of [] \<Rightarrow> 0 | p # _ \<Rightarrow> p),
        s\<lparr>procs := mark_all (p # passed core (procs s) ps @ chosen core (procs s) ps) (procs s)\<rparr>)"
      by (simp add: t_def mark_all_Cons)
    have "passed core (procs s) (p # ps) = p # passed core (procs s) ps"
      "chosen core (procs s) (p # ps) = chosen core (procs s) ps"
      using False by (simp_all add: passed_def chosen_def)
    then show ?thesis using run False IH by simp
  qed
qed

lemma chosen_cases:
  obtains "chosen core P ps = []" and "\<forall>p \<in> set ps. \<not> eligible core P p"
  | p qs where "chosen core P ps = [p]" and "ps = passed core P ps @ p # qs" and "eligible core P p"
proof (cases "dropWhile (\<lambda>p. \<not> eligible core P p) ps")
  case Nil
  then show thesis using that(1) by (auto simp: chosen_def dropWhile_eq_Nil_conv)
next
  case (Cons p qs)
  then have "eligible core P p" by (metis (mono_tags) hd_dropWhile list.discI list.sel(1))
  moreover have "ps = passed core P ps @ p # qs" by (metis Cons passed_def takeWhile_dropWhile_id)
  ultimately show thesis using that(2) [of p qs] Cons by (simp add: chosen_def)
qed

lemma queue_pop_run:
  assumes "queue_ok s" and c_def: "c = chosen core (procs s) (process_queue s)"
  shows "queue_pop core s = (Inr (case c of [] \<Rightarrow> 0 | p # _ \<Rightarrow> p),
    s\<lparr>procs := mark_all (passed core (procs s) (process_queue s) @ c) (procs s),
      process_queue := (case c of [] \<Rightarrow> process_queue s | p # _ \<Rightarrow> remove1 p (process_queue s))\<rparr>)"
proof (cases "process_queue s")
  case Nil
  then show ?thesis by (simp add: queue_pop_def c_def chosen_def passed_def mark_all_def)
next
  case (Cons a as)
  have all: "\<forall>p \<in> set (process_queue s). p \<noteq> 0 \<and> procs s p \<noteq> None" using assms(1) by (simp add: queue_ok_def)
  note find = find_ready_run [OF all, of core]
  show ?thesis
  proof (rule chosen_cases [of core "procs s" "process_queue s"], goal_cases)
    case 1
    then show ?case using find Cons by (simp add: queue_pop_def c_def del: find_ready.simps)
  next
    case (2 p qs)
    then have "p \<in> set (process_queue s)" by (metis in_set_conv_decomp)
    then have "p \<noteq> 0" using all by blast
    then show ?case using 2 find Cons by (simp add: queue_pop_def c_def del: find_ready.simps)
  qed
qed

section \<open>Every ready process gets its turn\<close>

definition pos :: "nat \<Rightarrow> nat list \<Rightarrow> nat" where
  "pos p ps = length (takeWhile (\<lambda>q. q \<noteq> p) ps)"

definition waiting :: "int \<Rightarrow> nat \<Rightarrow> kern \<Rightarrow> bool" where
  "waiting core p s \<longleftrightarrow> queue_ok s \<and> p \<in> set (process_queue s) \<and> eligible core (procs s) p"

lemma pos_remove:
  assumes "distinct (xs @ q # ys)" and "p \<in> set (q # ys)" and "p \<noteq> q"
  shows "pos p (remove1 q (xs @ q # ys)) < pos p (xs @ q # ys)"
proof -
  have "takeWhile (\<lambda>r. r \<noteq> p) (xs @ zs) = xs @ takeWhile (\<lambda>r. r \<noteq> p) zs" for zs
    using assms by (induction xs) auto
  then show ?thesis using assms by (auto simp: pos_def remove1_append)
qed

lemma pop_progress:
  assumes w: "waiting core p s" and pop: "queue_pop core s = (r, s')"
  shows "r = Inr p \<or> waiting core p s' \<and> pos p (process_queue s') < pos p (process_queue s)"
proof -
  let ?q = "process_queue s"
  have ok: "queue_ok s" "p \<in> set ?q" "eligible core (procs s) p" using w by (simp_all add: waiting_def)
  obtain q qs where c: "chosen core (procs s) ?q = [q]" and q: "?q = passed core (procs s) ?q @ q # qs"
    using ok(2,3) by (rule_tac chosen_cases [of core "procs s" ?q]) auto
  have run: "r = Inr q" "s' = s\<lparr>procs := mark_all (passed core (procs s) ?q @ [q]) (procs s), process_queue := remove1 q ?q\<rparr>"
    using queue_pop_run [OF ok(1) refl, of core] pop c by simp_all
  have behind: "p \<in> set (q # qs)"
  proof -
    have "p \<notin> set (passed core (procs s) ?q)" using ok(3) by (auto simp: passed_def dest: set_takeWhileD)
    then show ?thesis using ok(2) q by (metis Un_iff set_append)
  qed
  show ?thesis
  proof (cases "p = q")
    case False
    have dist: "distinct (passed core (procs s) ?q @ q # qs)" using ok(1) q by (simp add: queue_ok_def)
    have "queue_ok s'" using ok(1) run(2) by (auto simp: queue_ok_def mark_all_def dest: notin_set_remove1)
    moreover have "p \<in> set (process_queue s')" using False ok(2) run(2) by simp
    moreover have "pos p (process_queue s') < pos p ?q"
      using pos_remove [OF dist behind False] q run(2) by simp
    ultimately show ?thesis using ok(3) run(2) by (simp add: waiting_def)
  qed (use run in simp)
qed

text \<open>
  The states of the queue when the scheduler of a core pops again and again; \<open>env n\<close> is all that happens after
  the pop number \<open>n\<close>: the process popped runs and may be pushed again, other cores pop and push,
  processes sleep and wake up.
\<close>

primrec pop_states :: "int \<Rightarrow> (nat \<Rightarrow> kern \<Rightarrow> kern) \<Rightarrow> kern \<Rightarrow> nat \<Rightarrow> kern" where
  "pop_states core env s 0 = s"
| "pop_states core env s (Suc n) = env n (snd (queue_pop core (pop_states core env s n)))"

definition behaves :: "int \<Rightarrow> nat \<Rightarrow> (nat \<Rightarrow> kern \<Rightarrow> kern) \<Rightarrow> bool" where
  "behaves core p env \<longleftrightarrow> (\<forall>n t. waiting core p t \<longrightarrow>
    waiting core p (env n t) \<and> pos p (process_queue (env n t)) \<le> pos p (process_queue t))"

lemma still_waiting:
  assumes "waiting core p s" and "behaves core p env"
    and "\<forall>m < n. fst (queue_pop core (pop_states core env s m)) \<noteq> Inr p"
  shows "waiting core p (pop_states core env s n)
    \<and> pos p (process_queue (pop_states core env s n)) + n \<le> pos p (process_queue s)"
  using assms(3)
proof (induction n)
  case (Suc n)
  let ?s = "pop_states core env s n"
  have IH: "waiting core p ?s" "pos p (process_queue ?s) + n \<le> pos p (process_queue s)" using Suc by auto
  obtain r s' where pop: "queue_pop core ?s = (r, s')" by (cases "queue_pop core ?s")
  then have "waiting core p s'" "pos p (process_queue s') < pos p (process_queue ?s)"
    using pop_progress [OF IH(1) pop] Suc.prems by auto
  moreover from this(1) have "waiting core p (env n s')" "pos p (process_queue (env n s')) \<le> pos p (process_queue s')"
    using assms(2) by (simp_all add: behaves_def)
  ultimately show ?case using IH(2) pop by simp
qed (simp add: assms(1))

text \<open>
  C25. A process that is ready and may run on a core is popped by that core: if the core keeps popping, it pops the
  process after at most as many pops as there are processes ahead of it in the queue, whatever the
  processes that run and the other cores do, as long as they leave it ready and do not put others
  in front of it.
\<close>

theorem ready_process_gets_its_turn:
  assumes "waiting core p s" and "behaves core p env"
  shows "\<exists>n \<le> pos p (process_queue s). fst (queue_pop core (pop_states core env s n)) = Inr p"
proof (rule ccontr)
  assume "\<not> ?thesis"
  then have "\<forall>m < Suc (pos p (process_queue s)). fst (queue_pop core (pop_states core env s m)) \<noteq> Inr p"
    by (simp add: less_Suc_eq_le)
  from still_waiting [OF assms this] show False by simp
qed

text \<open>
  \<open>pop\<close> returns the first process of the queue that is runnable or was woken up and may run on the core, or null
  when there is none. It takes it out of the queue, keeps the order of the others, and makes the woken
  processes it passes runnable.
\<close>

lemma queue_pop_first_ready:
  assumes "queue_ok s"
  shows "let q = process_queue s; c = List.find (eligible core (procs s)) q in
    \<exists>s'. queue_pop core s = (Inr (case c of None \<Rightarrow> 0 | Some p \<Rightarrow> p), s')
      \<and> process_queue s' = (case c of None \<Rightarrow> q | Some p \<Rightarrow> remove1 p q)
      \<and> (\<forall>p. procs s' p = procs s p \<or> procs s' p = map_option mark (procs s p))
      \<and> (\<forall>p. c = Some p \<longrightarrow> (\<exists>x. procs s' p = Some x \<and> p_state x = RUNNABLE))"
proof -
  have find: "List.find P xs = (case dropWhile (\<lambda>x. \<not> P x) xs of [] \<Rightarrow> None | x # _ \<Rightarrow> Some x)" for P :: "nat \<Rightarrow> bool" and xs
    by (induction xs) auto
  show ?thesis
  proof (rule chosen_cases [of core "procs s" "process_queue s"], goal_cases)
    case 1
    then have "List.find (eligible core (procs s)) (process_queue s) = None" by (simp add: find_None_iff)
    then show ?case using queue_pop_run [OF assms refl, of core] 1 by (auto simp: Let_def mark_all_def)
  next
    case (2 p qs)
    then have "List.find (eligible core (procs s)) (process_queue s) = Some p"
      unfolding find chosen_def
      by (cases "dropWhile (\<lambda>p. \<not> eligible core (procs s) p) (process_queue s)") simp_all
    moreover obtain x where "procs s p = Some x" "p_state (mark x) = RUNNABLE"
      using 2(3) by (rule eligible_marked)
    ultimately show ?case using queue_pop_run [OF assms refl, of core] 2 by (auto simp: Let_def mark_all_def)
  qed
qed

definition two_waiting :: kern where
  "two_waiting = (one_proc RUNNABLE)\<lparr>procs := [1 \<mapsto> (new_proc Kernel_Process 7)\<lparr>p_state := RUNNABLE\<rparr>,
    2 \<mapsto> (new_proc Kernel_Process 8)\<lparr>p_state := WAKEN_UP\<rparr>], process_queue := [1, 2]\<rparr>"

definition push_again :: "nat \<Rightarrow> kern \<Rightarrow> kern" where
  "push_again n t = (if 1 \<in> set (process_queue t) \<or> procs t 1 = None then t else snd (queue_push 1 t))"

theorem ready_process_gets_its_turn_witness:
  "waiting 0 2 two_waiting \<and> behaves 0 2 push_again
    \<and> (\<exists>n \<le> 1. fst (queue_pop 0 (pop_states 0 push_again two_waiting n)) = Inr 2)"
proof -
  have w: "waiting 0 2 two_waiting"
    by (simp add: waiting_def two_waiting_def queue_ok_def eligible_def new_proc_def)
  moreover have b: "behaves 0 2 push_again"
    by (auto simp: behaves_def push_again_def queue_push_def waiting_def queue_ok_def pos_def)
  moreover have "pos 2 (process_queue two_waiting) = 1" by (simp add: pos_def two_waiting_def)
  ultimately show ?thesis using ready_process_gets_its_turn [OF w b] by simp
qed

section \<open>Sleepers are woken in time\<close>

lemma insert_sleeper_mset: "mset (insert_sleeper t w xs) = add_mset (t, w) (mset xs)"
  by (induction xs) auto

lemma insert_sleeper_set: "set (insert_sleeper t w xs) = insert (t, w) (set xs)"
  by (induction xs) auto

lemma insert_sleeper_sorted: "sorted (map fst xs) \<Longrightarrow> sorted (map fst (insert_sleeper t w xs))"
  by (induction xs) (auto simp: insert_sleeper_set not_less less_imp_le intro: order_trans)

lemma insert_sleeper_stable:
  "sorted (map fst xs) \<Longrightarrow> filter (\<lambda>x. k = fst x) (insert_sleeper t w xs)
    = filter (\<lambda>x. k = fst x) (xs @ [(t, w)])"
proof (induction xs)
  case (Cons a xs)
  show ?case
  proof (cases "t < fst a")
    case True
    then have "filter (\<lambda>x. t = fst x) (a # xs) = []" using Cons.prems by (fastforce simp: filter_empty_conv)
    then show ?thesis using True by (cases "k = t") (simp_all split: if_splits)
  qed (use Cons in auto)
qed simp

lemma insert_sleeper_sort: "insert_sleeper t w (sort_key fst xs) = sort_key fst (xs @ [(t, w)])"
proof (rule sym, rule properties_for_sort_key)
  show "mset (insert_sleeper t w (sort_key fst xs)) = mset (xs @ [(t, w)])" by (simp add: insert_sleeper_mset)
  show "sorted (map fst (insert_sleeper t w (sort_key fst xs)))" by (simp add: insert_sleeper_sorted)
  have "filter (\<lambda>x. k = fst x) (sort_key fst xs) = filter (\<lambda>x. k = fst x) xs" for k
    using sort_key_stable [of fst k xs] by (simp add: eq_commute)
  then show "filter (\<lambda>x. fst k = fst x) (insert_sleeper t w (sort_key fst xs)) = filter (\<lambda>x. fst k = fst x) (xs @ [(t, w)])" for k
    by (simp add: insert_sleeper_stable)
qed

primrec sleep_all :: "(u64 \<times> sleepable) list \<Rightarrow> unit km" where
  "sleep_all [] = kret ()"
| "sleep_all (x # xs) = kseq (push_sleeper (fst x) (snd x)) (sleep_all xs)"

lemma sleep_all_run:
  assumes "sleepers (this_cpu s) = sort_key fst ys"
  shows "sleep_all xs s = (Inr (), s\<lparr>this_cpu := (this_cpu s)\<lparr>sleepers := sort_key fst (ys @ xs)\<rparr>\<rparr>)"
  using assms
proof (induction xs arbitrary: s ys)
  case (Cons x xs)
  then show ?case
    using insert_sleeper_sort [of "fst x" "snd x" ys]
    by (simp add: push_sleeper_def on_cpu_def)
qed simp

text \<open>What waking up does to a process, and the tasks among the sleepers.\<close>

definition rouse :: "u64 \<Rightarrow> proc \<Rightarrow> proc" where
  "rouse c x = (if p_state x = SLEEPING then x\<lparr>p_stride := c, p_state := WAKEN_UP\<rparr> else x)"

definition sleeping_tasks :: "(u64 \<times> sleepable) list \<Rightarrow> nat list" where
  "sleeping_tasks l = concat (map (\<lambda>x. case snd x of Sleeping_Process _ \<Rightarrow> [] | Sleeping_Task t \<Rightarrow> [t]) l)"

definition sleeping_procs :: "(u64 \<times> sleepable) list \<Rightarrow> nat set" where
  "sleeping_procs l = {p. Sleeping_Process p \<in> snd ` set l}"

lemma sleeping_simps [simp]:
  "sleeping_procs [] = {}"
  "sleeping_procs ((t, Sleeping_Process p) # l) = insert p (sleeping_procs l)"
  "sleeping_procs ((t, Sleeping_Task q) # l) = sleeping_procs l"
  "sleeping_tasks [] = []"
  "sleeping_tasks ((t, Sleeping_Process p) # l) = sleeping_tasks l"
  "sleeping_tasks ((t, Sleeping_Task q) # l) = q # sleeping_tasks l"
  by (auto simp: sleeping_procs_def sleeping_tasks_def)

lemma rouse_rouse [simp]: "rouse c (rouse c x) = rouse c x"
  by (simp add: rouse_def)

lemma proc_wake_up_run:
  assumes "p \<noteq> 0" and "procs s p = Some x"
  shows "proc_wake_up p s = (Inr (), s\<lparr>procs := (procs s)(p \<mapsto> rouse (cpu_stride (this_cpu s)) x)\<rparr>)"
  using assms by (auto simp: proc_wake_up_def get_proc_run mod_proc_run rouse_def fun_upd_idem)

definition rouse_all :: "u64 \<Rightarrow> nat set \<Rightarrow> (nat \<Rightarrow> proc option) \<Rightarrow> nat \<Rightarrow> proc option" where
  "rouse_all c P m = (\<lambda>p. if p \<in> P then map_option (rouse c) (m p) else m p)"

lemma rouse_all_insert:
  "m p = Some x \<Longrightarrow> rouse_all c P (m(p \<mapsto> rouse c x)) = rouse_all c (insert p P) m"
  by (auto simp: rouse_all_def fun_eq_iff)

lemma wake_task: "wake (Sleeping_Task t) s = (Inr (), s\<lparr>task_queue := task_queue s @ [t]\<rparr>)"
  by (cases s) (simp add: wake_def)

lemma pop_sleeper:
  assumes "sleepers (this_cpu s) = x # l"
  shows "on_cpu (sleepers_update tl) s = (Inr (), s\<lparr>this_cpu := (this_cpu s)\<lparr>sleepers := l\<rparr>\<rparr>)"
  using assms by (cases s, cases "this_cpu s") (simp add: on_cpu_def)

lemma wake_loop_run:
  assumes "sleepers (this_cpu s) = l" and "\<forall>p \<in> sleeping_procs l. p \<noteq> 0 \<and> procs s p \<noteq> None"
  shows "wake_loop n l s = (Inr (), s\<lparr>
    procs := rouse_all (cpu_stride (this_cpu s)) (sleeping_procs (takeWhile (\<lambda>x. fst x \<le> n) l)) (procs s),
    this_cpu := (this_cpu s)\<lparr>sleepers := dropWhile (\<lambda>x. fst x \<le> n) l\<rparr>,
    task_queue := task_queue s @ sleeping_tasks (takeWhile (\<lambda>x. fst x \<le> n) l)\<rparr>)"
  using assms
proof (induction l arbitrary: s)
  case Nil
  then show ?case by (simp add: rouse_all_def)
next
  case (Cons a l)
  obtain t w where a: "a = (t, w)" by (cases a)
  show ?case
  proof (cases "t > n")
    case True
    then show ?thesis using Cons.prems(1) a by (simp add: rouse_all_def)
  next
    case False
    show ?thesis
    proof (cases w)
      case (Sleeping_Process p)
      then obtain x where x: "p \<noteq> 0" "procs s p = Some x" using Cons.prems(2) a by auto
      define s1 where "s1 = s\<lparr>procs := (procs s)(p \<mapsto> rouse (cpu_stride (this_cpu s)) x),
        this_cpu := (this_cpu s)\<lparr>sleepers := l\<rparr>\<rparr>"
      have "wake_loop n (a # l) s = wake_loop n l s1"
        using False x Cons.prems(1) a Sleeping_Process
        by (simp add: wake_def proc_wake_up_run pop_sleeper s1_def)
      also have "\<forall>q \<in> sleeping_procs l. q \<noteq> 0 \<and> procs s1 q \<noteq> None" "sleepers (this_cpu s1) = l"
        using Cons.prems(2) a Sleeping_Process by (simp_all add: s1_def)
      note Cons.IH [OF this(2,1)]
      finally show ?thesis
        using a False Sleeping_Process rouse_all_insert [of "procs s" p x "cpu_stride (this_cpu s)"] x(2)
        by (simp add: s1_def fun_upd_def)
    next
      case (Sleeping_Task q)
      then show ?thesis
        using Cons.IH [of "s\<lparr>task_queue := task_queue s @ [q], this_cpu := (this_cpu s)\<lparr>sleepers := l\<rparr>\<rparr>"]
          Cons.prems a False
        by (simp add: wake_task pop_sleeper)
    qed
  qed
qed

lemma sorted_while:
  fixes n :: "'a :: linorder" and l :: "('a \<times> 'c) list"
  assumes "sorted (map fst l)"
  shows "takeWhile (\<lambda>x. fst x \<le> n) l = filter (\<lambda>x. fst x \<le> n) l"
    and "dropWhile (\<lambda>x. fst x \<le> n) l = filter (\<lambda>x. n < fst x) l"
proof -
  have later: "filter (\<lambda>x. fst x \<le> n) (a # l) = [] \<and> filter (\<lambda>x. n < fst x) (a # l) = a # l"
    if "sorted (map fst (a # l))" "n < fst a" for a :: "'a \<times> 'c" and l
    using that by (force simp: filter_empty_conv filter_id_conv not_le)
  have "takeWhile (\<lambda>x. fst x \<le> n) l = filter (\<lambda>x. fst x \<le> n) l \<and> dropWhile (\<lambda>x. fst x \<le> n) l = filter (\<lambda>x. n < fst x) l"
    using assms
  proof (induction l)
    case (Cons a l)
    then show ?case using later [of a l] by (cases "fst a \<le> n") (simp_all add: not_le)
  qed simp
  then show "takeWhile (\<lambda>x. fst x \<le> n) l = filter (\<lambda>x. fst x \<le> n) l"
    and "dropWhile (\<lambda>x. fst x \<le> n) l = filter (\<lambda>x. n < fst x) l" by simp_all
qed

text \<open>
  C27. Processes and tasks that go to sleep on a core, in any order and with any times, are kept sorted by time, equal
  times in the order of arrival. When the core wakes its sleepers it wakes exactly those whose time has come:
  each process among them that is asleep becomes \<open>WAKEN_UP\<close> with the stride of the core, the tasks are
  queued in the order of their times, and the sleepers that remain are exactly the later ones. No other process
  changes.
\<close>

theorem sleepers_woken_in_order:
  assumes "sleepers (this_cpu s) = []" and "\<forall>p \<in> sleeping_procs xs. p \<noteq> 0 \<and> procs s p \<noteq> None"
  shows "\<exists>s'. kseq (sleep_all xs) (cpu_wake_up n) s = (Inr (), s')
    \<and> sleepers (this_cpu s') = filter (\<lambda>x. n < fst x) (sort_key fst xs)
    \<and> task_queue s' = task_queue s @ sleeping_tasks (filter (\<lambda>x. fst x \<le> n) (sort_key fst xs))
    \<and> (\<forall>p. procs s' p = (if \<exists>t \<le> n. (t, Sleeping_Process p) \<in> set xs
        then map_option (rouse (cpu_stride (this_cpu s))) (procs s p) else procs s p))
    \<and> process_queue s' = process_queue s \<and> mm.truncate s' = mm.truncate s"
proof -
  define l where "l = sort_key fst xs"
  have l: "sorted (map fst l)" by (simp add: l_def)
  have procs: "sleeping_procs l = sleeping_procs xs" by (simp add: sleeping_procs_def l_def)
  have mem: "p \<in> sleeping_procs (filter (\<lambda>x. fst x \<le> n) l) \<longleftrightarrow> (\<exists>t \<le> n. (t, Sleeping_Process p) \<in> set xs)" for p
    by (force simp: sleeping_procs_def l_def)
  have run: "kseq (sleep_all xs) (cpu_wake_up n) s = wake_loop n l (s\<lparr>this_cpu := (this_cpu s)\<lparr>sleepers := l\<rparr>\<rparr>)"
    using sleep_all_run [of s "[]" xs] assms(1) by (simp add: cpu_wake_up_def l_def)
  show ?thesis
    unfolding run using assms(2) procs
    by (simp add: wake_loop_run sorted_while [OF l] mem rouse_all_def l_def [symmetric] mm.defs)
qed

theorem sleepers_woken_in_order_witness:
  "\<exists>s'. kseq (sleep_all [(9, Sleeping_Process 1), (5, Sleeping_Task 3), (7, Sleeping_Process 1), (5, Sleeping_Task 4)])
      (cpu_wake_up 7) (one_proc SLEEPING) = (Inr (), s')
    \<and> sleepers (this_cpu s') = [(9, Sleeping_Process 1)] \<and> task_queue s' = [3, 4]
    \<and> map_option p_state (procs s' 1) = Some WAKEN_UP"
  using sleepers_woken_in_order [of "one_proc SLEEPING"
      "[(9, Sleeping_Process 1), (5, Sleeping_Task 3), (7, Sleeping_Process 1), (5, Sleeping_Task 4)]" 7]
  by (auto simp: one_proc_def new_cpu_def new_proc_def rouse_def)

end
