(* ===== verification/Spin_Lock.thy ===== *)
theory Spin_Lock
  imports Prelude
begin

text \<open>
  Spinlocks (\<open>src/os/atomic/spinlock.h\<close>, \<open>src/os/atomic/spinlock.cc\<close>) shared by the cores of the machine, with
  the interrupt flag of each core (\<open>local_irq_save\<close> and \<open>local_irq_restore\<close> of \<open>src/os/arch/cpu.h\<close>). Each
  access to shared memory is a step of its own, and the steps of the cores interleave freely. The
  memory is sequentially consistent, which the fences of the code stand for.
\<close>

section \<open>Locks, cores and steps\<close>

record spinlock =
  sl_locked :: bool
  sl_old_status :: bool
  sl_core_id :: "16 word"

definition new_spinlock :: spinlock where
  "new_spinlock = \<lparr>sl_locked = False, sl_old_status = False, sl_core_id = - 1\<rparr>"

text \<open>
  Where a core is: outside \<open>lock\<close> and \<open>unlock\<close>, or before one of their steps, with the lock and the interrupt
  status saved. A panic stops the core.
\<close>

datatype lock_pc =
    Out
  | Lock_Check nat bool
  | Lock_Spin nat bool
  | Lock_Core nat bool
  | Lock_Old nat bool
  | Unlock_Check nat
  | Unlock_Old nat
  | Unlock_Release nat bool
  | Unlock_Irq bool
  | Panicked string

text \<open>
  \<open>held\<close> is the locks a core has acquired and not begun to release, the latest first. It is not part of the
  program: no step reads it.
\<close>

record lock_state =
  locks :: "nat \<Rightarrow> spinlock"
  pc :: "nat \<Rightarrow> lock_pc"
  irq_on :: "nat \<Rightarrow> bool"
  held :: "nat \<Rightarrow> nat list"

definition NCPU :: nat where
  "NCPU = 4"

definition holding :: "nat \<Rightarrow> spinlock \<Rightarrow> bool" where
  "holding c k \<longleftrightarrow> sl_locked k \<and> sl_core_id k = of_nat c"

definition set_lock :: "nat \<Rightarrow> spinlock \<Rightarrow> lock_state \<Rightarrow> lock_state" where
  "set_lock l k s = s\<lparr>locks := (locks s)(l := k)\<rparr>"

definition goto :: "nat \<Rightarrow> lock_pc \<Rightarrow> lock_state \<Rightarrow> lock_state" where
  "goto c p s = s\<lparr>pc := (pc s)(c := p)\<rparr>"

definition set_irq :: "nat \<Rightarrow> bool \<Rightarrow> lock_state \<Rightarrow> lock_state" where
  "set_irq c b s = s\<lparr>irq_on := (irq_on s)(c := b)\<rparr>"

definition set_held :: "nat \<Rightarrow> nat list \<Rightarrow> lock_state \<Rightarrow> lock_state" where
  "set_held c h s = s\<lparr>held := (held s)(c := h)\<rparr>"

lemmas state_defs = set_lock_def goto_def set_irq_def set_held_def

definition local_irq_restore :: "nat \<Rightarrow> bool \<Rightarrow> lock_state \<Rightarrow> lock_state" where
  "local_irq_restore c old s = (if old then set_irq c True s else s)"

text \<open>The calls, up to the first access to the lock, and the next step of a core inside one.\<close>

definition lock_call :: "nat \<Rightarrow> nat \<Rightarrow> lock_state \<Rightarrow> lock_state" where
  "lock_call c l s = goto c (Lock_Check l (irq_on s c)) (set_irq c False s)"

definition unlock_call :: "nat \<Rightarrow> nat \<Rightarrow> lock_state \<Rightarrow> lock_state" where
  "unlock_call c l s = goto c (Unlock_Check l) s"

definition lock_step :: "nat \<Rightarrow> lock_state \<Rightarrow> lock_state" where
  "lock_step c s = (case pc s c of
      Out \<Rightarrow> s
    | Lock_Check l old \<Rightarrow>
        if holding c (locks s l) then goto c (Panicked ''This cpu is acquiring a acquired lock'') s
        else goto c (Lock_Spin l old) s
    | Lock_Spin l old \<Rightarrow>
        let was = sl_locked (locks s l); t = set_lock l ((locks s l)\<lparr>sl_locked := True\<rparr>) s
        in if was then t else goto c (Lock_Core l old) t
    | Lock_Core l old \<Rightarrow> goto c (Lock_Old l old) (set_lock l ((locks s l)\<lparr>sl_core_id := of_nat c\<rparr>) s)
    | Lock_Old l old \<Rightarrow>
        set_held c (l # held s c) (goto c Out (set_lock l ((locks s l)\<lparr>sl_old_status := old\<rparr>) s))
    | Unlock_Check l \<Rightarrow>
        if \<not> holding c (locks s l) then goto c (Panicked ''Try to release a lock when not holding it'') s
        else set_held c (remove1 l (held s c)) (goto c (Unlock_Old l) (set_lock l ((locks s l)\<lparr>sl_core_id := - 1\<rparr>) s))
    | Unlock_Old l \<Rightarrow>
        goto c (Unlock_Release l (sl_old_status (locks s l))) (set_lock l ((locks s l)\<lparr>sl_old_status := False\<rparr>) s)
    | Unlock_Release l old \<Rightarrow> goto c (Unlock_Irq old) (set_lock l ((locks s l)\<lparr>sl_locked := False\<rparr>) s)
    | Unlock_Irq old \<Rightarrow> local_irq_restore c old (goto c Out s)
    | Panicked m \<Rightarrow> s)"

text \<open>
  What the cores do: call \<open>lock\<close> or \<open>unlock\<close> on a lock, take a step, or, when they hold no lock, switch their
  interrupts on or off. With \<open>lifo\<close> a core releases its locks in the order opposite to that of
  the acquisitions, as lock guards do.
\<close>

datatype lock_event = Call_Lock nat nat | Call_Unlock nat nat | Step nat | Switch_Irq nat bool

fun allowed :: "bool \<Rightarrow> lock_event \<Rightarrow> lock_state \<Rightarrow> bool" where
  "allowed lifo (Call_Lock c l) s \<longleftrightarrow> c < NCPU \<and> pc s c = Out"
| "allowed lifo (Call_Unlock c l) s \<longleftrightarrow> c < NCPU \<and> pc s c = Out \<and> (lifo \<longrightarrow> held s c \<noteq> [] \<and> hd (held s c) = l)"
| "allowed lifo (Step c) s \<longleftrightarrow> c < NCPU"
| "allowed lifo (Switch_Irq c b) s \<longleftrightarrow> c < NCPU \<and> pc s c = Out \<and> held s c = []"

fun lock_next :: "lock_event \<Rightarrow> lock_state \<Rightarrow> lock_state" where
  "lock_next (Call_Lock c l) s = lock_call c l s"
| "lock_next (Call_Unlock c l) s = unlock_call c l s"
| "lock_next (Step c) s = lock_step c s"
| "lock_next (Switch_Irq c b) s = set_irq c b s"

definition lock_init :: lock_state where
  "lock_init = \<lparr>locks = (\<lambda>_. new_spinlock), pc = (\<lambda>_. Out), irq_on = (\<lambda>_. True), held = (\<lambda>_. [])\<rparr>"

inductive reach :: "bool \<Rightarrow> lock_state \<Rightarrow> bool" for lifo where
  init: "reach lifo lock_init"
| event: "reach lifo s \<Longrightarrow> allowed lifo e s \<Longrightarrow> reach lifo (lock_next e s)"

section \<open>Mutual exclusion\<close>

text \<open>The lock a core owns in the middle of a call: from the test-and-set that got it to the store that frees it.\<close>

fun inside :: "lock_pc \<Rightarrow> nat option" where
  "inside (Lock_Core l _) = Some l"
| "inside (Lock_Old l _) = Some l"
| "inside (Unlock_Old l) = Some l"
| "inside (Unlock_Release l _) = Some l"
| "inside _ = None"

fun named :: "lock_pc \<Rightarrow> nat option" where
  "named (Lock_Old l _) = Some l"
| "named _ = None"

lemma named_inside: "named p = Some l \<Longrightarrow> inside p = Some l"
  by (cases p) simp_all

definition owns :: "lock_state \<Rightarrow> nat \<Rightarrow> nat \<Rightarrow> bool" where
  "owns s c l \<longleftrightarrow> l \<in> set (held s c) \<or> inside (pc s c) = Some l"

definition spin_inv :: "lock_state \<Rightarrow> bool" where
  "spin_inv s \<longleftrightarrow>
    (\<forall>c. c \<ge> NCPU \<longrightarrow> pc s c = Out \<and> held s c = [])
    \<and> (\<forall>c l. owns s c l \<longrightarrow> sl_locked (locks s l))
    \<and> (\<forall>c d l. owns s c l \<and> owns s d l \<longrightarrow> c = d)
    \<and> (\<forall>c. distinct (held s c))
    \<and> (\<forall>c l. inside (pc s c) = Some l \<longrightarrow> l \<notin> set (held s c))
    \<and> (\<forall>c l. c < NCPU \<longrightarrow> (sl_core_id (locks s l) = of_nat c \<longleftrightarrow> l \<in> set (held s c) \<or> named (pc s c) = Some l))"

lemma core_inj: "c < NCPU \<Longrightarrow> d < NCPU \<Longrightarrow> (of_nat c :: 16 word) = of_nat d \<longleftrightarrow> c = d"
  by (auto simp: NCPU_def word_of_nat_eq_iff take_bit_eq_mod)

lemma core_not_none: "c < NCPU \<Longrightarrow> (of_nat c :: 16 word) \<noteq> - 1" "c < NCPU \<Longrightarrow> (- 1 :: 16 word) \<noteq> of_nat c"
proof -
  have *: "(of_nat c :: 16 word) \<noteq> - 1" if "c < NCPU"
  proof
    assume "(of_nat c :: 16 word) = - 1"
    then have "unat (of_nat c :: 16 word) = unat (- 1 :: 16 word)" by simp
    then show False using that by (simp add: NCPU_def unat_of_nat unsigned_minus_1_eq_mask mask_eq_exp_minus_1)
  qed
  show "c < NCPU \<Longrightarrow> (of_nat c :: 16 word) \<noteq> - 1" "c < NCPU \<Longrightarrow> (- 1 :: 16 word) \<noteq> of_nat c"
    using * by metis+
qed

lemma spin_inv_init: "spin_inv lock_init"
  by (auto simp: spin_inv_def lock_init_def new_spinlock_def owns_def core_not_none)

text \<open>A step of core \<open>c\<close> inside a call on lock \<open>l\<close> touches only that core and that lock.\<close>

lemma spin_invI:
  assumes inv: "spin_inv s" and c: "c < NCPU"
    and pc: "pc t = (pc s)(c := p)" and held: "held t = (held s)(c := h)" and locks: "locks t = (locks s)(l := k)"
    and others: "\<And>m. m \<noteq> l \<Longrightarrow> (m \<in> set h \<longleftrightarrow> m \<in> set (held s c)) \<and> (inside p = Some m \<longleftrightarrow> inside (pc s c) = Some m)
        \<and> (named p = Some m \<longleftrightarrow> named (pc s c) = Some m)"
    and dist: "distinct h" "inside p = Some l \<Longrightarrow> l \<notin> set h"
    and locked: "sl_locked (locks s l) \<and> \<not> owns s c l \<Longrightarrow> sl_locked k"
      "l \<in> set h \<or> inside p = Some l \<Longrightarrow> sl_locked k \<and> (owns s c l \<or> \<not> sl_locked (locks s l))"
    and core: "\<And>d. d < NCPU \<Longrightarrow> sl_core_id k = of_nat d \<longleftrightarrow>
        (if d = c then l \<in> set h \<or> named p = Some l else sl_core_id (locks s l) = of_nat d)"
  shows "spin_inv t"
proof -
  have own: "owns t d m \<longleftrightarrow> (if d = c \<and> m = l then l \<in> set h \<or> inside p = Some l else owns s d m)" for d m
    using others [of m] by (auto simp: owns_def pc held)
  have locked': "sl_locked (locks t m)" if "owns t d m" for d m
  proof (cases "m = l")
    case True
    show ?thesis
    proof (cases "d = c")
      case False
      then have "owns s d l" using that True by (simp add: own)
      then have "sl_locked (locks s l)" "\<not> owns s c l" using inv False unfolding spin_inv_def by metis+
      then show ?thesis using locked(1) True by (simp add: locks)
    qed (use that True own locked(2) in \<open>simp add: locks\<close>)
  qed (use that own inv in \<open>simp add: locks spin_inv_def\<close>)
  have uniq: "d = e" if "owns t d m" "owns t e m" for d e m
  proof -
    have new: "owns s c l \<or> (\<forall>x. \<not> owns s x l)" if "l \<in> set h \<or> inside p = Some l"
      using locked(2) [OF that] inv unfolding spin_inv_def by metis
    show ?thesis
    proof (cases "m = l")
      case True
      show ?thesis
        using that new inv unfolding True own spin_inv_def by (metis (no_types, lifting))
    next
      case False
      then show ?thesis using that inv unfolding own spin_inv_def by (metis (no_types, lifting))
    qed
  qed
  show ?thesis
    unfolding spin_inv_def
  proof (intro conjI allI impI)
    fix d assume "NCPU \<le> d"
    then show "pc t d = Out" "held t d = []" using inv c by (auto simp: pc held spin_inv_def)
  next
    fix d m assume "owns t d m"
    then show "sl_locked (locks t m)" by (rule locked')
  next
    fix d e m assume "owns t d m \<and> owns t e m"
    then show "d = e" using uniq by blast
  next
    fix d show "distinct (held t d)" using inv dist(1) by (simp add: held spin_inv_def)
  next
    fix d m assume "inside (pc t d) = Some m"
    then show "m \<notin> set (held t d)"
      using inv dist(2) others [of m] by (cases "d = c"; cases "m = l") (auto simp: pc held spin_inv_def)
  next
    fix d m assume "d < NCPU"
    then show "(sl_core_id (locks t m) = of_nat d) = (m \<in> set (held t d) \<or> named (pc t d) = Some m)"
      using inv core [of d] others [of m] by (cases "m = l"; cases "d = c") (auto simp: locks pc held spin_inv_def)
  qed
qed

lemma spin_invD:
  assumes "spin_inv s"
  shows "owns s c l \<Longrightarrow> sl_locked (locks s l)" and "owns s c l \<Longrightarrow> owns s d l \<Longrightarrow> c = d" and "distinct (held s c)"
    and "inside (pc s c) = Some l \<Longrightarrow> l \<notin> set (held s c)"
    and "c < NCPU \<Longrightarrow> sl_core_id (locks s l) = of_nat c \<longleftrightarrow> l \<in> set (held s c) \<or> named (pc s c) = Some l"
  using assms unfolding spin_inv_def by blast+

lemmas pc_simps = owns_def state_defs core_inj core_not_none

lemma spin_inv_irq [simp]: "spin_inv (set_irq c b s) = spin_inv s"
  by (simp add: spin_inv_def owns_def state_defs)

text \<open>A step that only moves a core between places where it owns nothing new.\<close>

lemma spin_inv_goto:
  assumes "spin_inv s" and "c < NCPU" and "inside (pc s c) = None" and "inside p = None"
  shows "spin_inv (goto c p (set_irq c b s))" and "spin_inv (goto c p s)"
proof -
  have "named (pc s c) = None" "named p = None" using assms(3,4) by (cases "pc s c"; cases p; simp)+
  note facts = assms this spin_invD [OF assms(1)]
  show "spin_inv (goto c p (set_irq c b s))"
    by (rule spin_invI [OF assms(1,2), where l = 0 and k = "locks s 0" and h = "held s c"]) (use facts in \<open>auto simp: state_defs owns_def\<close>)
  show "spin_inv (goto c p s)"
    by (rule spin_invI [OF assms(1,2), where l = 0 and k = "locks s 0" and h = "held s c"]) (use facts in \<open>auto simp: state_defs owns_def\<close>)
qed

lemma spin_inv_step:
  assumes inv: "spin_inv s" and c: "c < NCPU"
  shows "spin_inv (lock_step c s)"
proof -
  note D = spin_invD [OF inv]
  show ?thesis
  proof (cases "pc s c")
    case (Lock_Spin l old)
    show ?thesis
    proof (cases "sl_locked (locks s l)")
      case True
      then have "locks s l\<lparr>sl_locked := True\<rparr> = locks s l" by (cases "locks s l") simp
      then have "set_lock l ((locks s l)\<lparr>sl_locked := True\<rparr>) s = s" unfolding set_lock_def by (metis fun_upd_triv lock_state.surjective lock_state.update_convs(1))
      then show ?thesis using inv True Lock_Spin by (simp add: lock_step_def)
    next
      case False
      then have "l \<notin> set (held s c)" using D(1) by (auto simp: owns_def)
      then show ?thesis
        using D(3) D(5) False Lock_Spin
        by (intro spin_invI [OF inv c, where l = l and h = "held s c" and p = "Lock_Core l old"
            and k = "(locks s l)\<lparr>sl_locked := True\<rparr>"]) (auto simp: lock_step_def pc_simps)
    qed
  next
    case (Lock_Core l old)
    have own: "sl_locked (locks s l)" "l \<notin> set (held s c)" using D(1,4) [of c l] Lock_Core by (auto simp: owns_def)
    have others: "sl_core_id (locks s l) \<noteq> of_nat d" if "d < NCPU" "d \<noteq> c" for d
      using D(5) [OF that(1), of l] D(2) [of c l d] that(2) Lock_Core
      by (auto simp: owns_def dest: named_inside)
    show ?thesis
      using own others D(3) Lock_Core c
      by (intro spin_invI [OF inv c, where l = l and h = "held s c" and p = "Lock_Old l old"
          and k = "(locks s l)\<lparr>sl_core_id := of_nat c\<rparr>"]) (auto simp: lock_step_def pc_simps)
  next
    case (Lock_Old l old)
    have own: "sl_locked (locks s l)" "l \<notin> set (held s c)" using D(1,4) [of c l] Lock_Old by (auto simp: owns_def)
    show ?thesis
      using own D(3) D(5) Lock_Old
      by (intro spin_invI [OF inv c, where l = l and h = "l # held s c" and p = Out
          and k = "(locks s l)\<lparr>sl_old_status := old\<rparr>"]) (auto simp: lock_step_def pc_simps)
  next
    case (Unlock_Check l)
    show ?thesis
    proof (cases "holding c (locks s l)")
      case True
      then have own: "l \<in> set (held s c)" "sl_locked (locks s l)"
        using D(5) [OF c, of l] Unlock_Check by (auto simp: holding_def)
      have others: "sl_core_id (locks s l) \<noteq> of_nat d" if "d < NCPU" "d \<noteq> c" for d
        using True c that by (simp add: holding_def core_inj)
      show ?thesis
        using True own others D(3) Unlock_Check
        by (intro spin_invI [OF inv c, where l = l and h = "remove1 l (held s c)" and p = "Unlock_Old l"
            and k = "(locks s l)\<lparr>sl_core_id := - 1\<rparr>"])
          (auto simp: lock_step_def pc_simps)
    qed (use Unlock_Check spin_inv_goto(2) [OF inv c] in \<open>simp add: lock_step_def\<close>)
  next
    case (Unlock_Old l)
    have own: "sl_locked (locks s l)" "l \<notin> set (held s c)" using D(1,4) [of c l] Unlock_Old by (auto simp: owns_def)
    show ?thesis
      using own D(3) D(5) Unlock_Old
      by (intro spin_invI [OF inv c, where l = l and h = "held s c" and p = "Unlock_Release l (sl_old_status (locks s l))"
          and k = "(locks s l)\<lparr>sl_old_status := False\<rparr>"]) (auto simp: lock_step_def pc_simps)
  next
    case (Unlock_Release l old)
    have own: "sl_locked (locks s l)" "l \<notin> set (held s c)" using D(1,4) [of c l] Unlock_Release by (auto simp: owns_def)
    show ?thesis
      using own D(3) D(5) Unlock_Release
      by (intro spin_invI [OF inv c, where l = l and h = "held s c" and p = "Unlock_Irq old"
          and k = "(locks s l)\<lparr>sl_locked := False\<rparr>"]) (auto simp: lock_step_def pc_simps)
  next
    case (Lock_Check l old)
    then show ?thesis using spin_inv_goto(2) [OF inv c] by (simp add: lock_step_def)
  next
    case (Unlock_Irq old)
    then show ?thesis using spin_inv_goto(2) [OF inv c] by (simp add: lock_step_def local_irq_restore_def)
  qed (use inv in \<open>simp_all add: lock_step_def\<close>)
qed

lemma spin_inv_next:
  assumes "spin_inv s" and "allowed lifo e s"
  shows "spin_inv (lock_next e s)"
  using assms spin_inv_step [of s] spin_inv_goto [of s]
  by (cases e) (auto simp: lock_call_def unlock_call_def)

lemma reach_spin_inv: "reach lifo s \<Longrightarrow> spin_inv s"
  by (induction rule: reach.induct) (auto intro: spin_inv_init spin_inv_next)

text \<open>
  C24. Two cores never hold the same spinlock at once, whatever the interleaving of their steps: a core holds a
  lock from the return of \<open>lock\<close> to the call of \<open>unlock\<close>. The lock is marked locked and names the
  core all that time, so the holder can release it without a panic.
\<close>

theorem spinlock_mutual_exclusion:
  assumes "reach lifo s" and "c < NCPU" and "l \<in> set (held s c)"
  shows "sl_locked (locks s l) \<and> sl_core_id (locks s l) = of_nat c \<and> holding c (locks s l)
    \<and> (\<forall>d. l \<in> set (held s d) \<longrightarrow> d = c)
    \<and> (\<forall>d old. pc s d \<noteq> Lock_Core l old \<and> pc s d \<noteq> Lock_Old l old)"
proof -
  note D = spin_invD [OF reach_spin_inv [OF assms(1)]]
  have own: "owns s c l" using assms(3) by (simp add: owns_def)
  have "inside (pc s d) \<noteq> Some l" for d
  proof
    assume "inside (pc s d) = Some l"
    then show False using D(2) [OF own, of d] D(4) [of d l] assms(3) by (simp add: owns_def)
  qed
  then have "pc s d \<noteq> Lock_Core l old \<and> pc s d \<noteq> Lock_Old l old" for d old by (metis inside.simps(1,2))
  moreover have "d = c" if "l \<in> set (held s d)" for d using D(2) [OF own, of d] that by (simp add: owns_def)
  moreover have "sl_locked (locks s l)" "sl_core_id (locks s l) = of_nat c"
    using D(1) [OF own] D(5) [OF assms(2), of l] assms(3) by simp_all
  ultimately show ?thesis unfolding holding_def by blast
qed

section \<open>Interrupts\<close>

fun saved :: "lock_pc \<Rightarrow> bool" where
  "saved (Lock_Check _ old) = old"
| "saved (Lock_Spin _ old) = old"
| "saved (Lock_Core _ old) = old"
| "saved (Lock_Old _ old) = old"
| "saved (Unlock_Release _ old) = old"
| "saved (Unlock_Irq old) = old"
| "saved _ = False"

definition irq_ok :: "lock_state \<Rightarrow> nat \<Rightarrow> bool" where
  "irq_ok s c \<longleftrightarrow> (held s c \<noteq> [] \<or> pc s c \<noteq> Out \<longrightarrow> \<not> irq_on s c)
    \<and> (\<forall>l \<in> set (butlast (held s c)). \<not> sl_old_status (locks s l))
    \<and> (held s c \<noteq> [] \<longrightarrow> \<not> saved (pc s c))
    \<and> (\<forall>l. pc s c = Unlock_Old l \<and> held s c \<noteq> [] \<longrightarrow> \<not> sl_old_status (locks s l))
    \<and> (\<forall>l. pc s c = Unlock_Check l \<longrightarrow> held s c \<noteq> [] \<and> hd (held s c) = l)"

lemma irq_ok_other:
  assumes "irq_ok s d" and "pc t d = pc s d" and "held t d = held s d" and "irq_on t d = irq_on s d"
    and "\<And>l. owns s d l \<Longrightarrow> sl_old_status (locks t l) = sl_old_status (locks s l)"
  shows "irq_ok t d"
  using assms by (auto simp: irq_ok_def owns_def dest: in_set_butlastD)

lemma irq_ok_step_other:
  assumes inv: "spin_inv s" and ok: "irq_ok s d" and ne: "d \<noteq> c"
  shows "irq_ok (lock_step c s) d"
proof (rule irq_ok_other [OF ok])
  show "pc (lock_step c s) d = pc s d" "held (lock_step c s) d = held s d" "irq_on (lock_step c s) d = irq_on s d"
    using ne by (cases "pc s c"; simp add: lock_step_def state_defs local_irq_restore_def Let_def)+
  fix l assume "owns s d l"
  then have "inside (pc s c) \<noteq> Some l" using spin_invD(2) [OF inv, of d l c] ne by (auto simp: owns_def)
  then show "sl_old_status (locks (lock_step c s) l) = sl_old_status (locks s l)"
    by (cases "pc s c") (auto simp: lock_step_def state_defs local_irq_restore_def Let_def)
qed

lemma irq_ok_step_same:
  assumes inv: "spin_inv s" and ok: "irq_ok s c"
  shows "irq_ok (lock_step c s) c"
proof (cases "pc s c")
  case (Lock_Old l old)
  then have "l \<notin> set (held s c)" using spin_invD(4) [OF inv, of c l] by simp
  then have "l \<notin> set (butlast (held s c))" by (auto dest: in_set_butlastD)
  then show ?thesis using ok Lock_Old by (auto simp: irq_ok_def lock_step_def state_defs)
next
  case (Unlock_Check l)
  then obtain h where h: "held s c = l # h" using ok by (cases "held s c") (auto simp: irq_ok_def)
  show ?thesis using ok Unlock_Check h by (cases h) (auto simp: irq_ok_def lock_step_def state_defs)
next
  case (Unlock_Old l)
  then have "l \<notin> set (held s c)" using spin_invD(4) [OF inv, of c l] by simp
  then have "l \<notin> set (butlast (held s c))" by (auto dest: in_set_butlastD)
  then show ?thesis using ok Unlock_Old by (auto simp: irq_ok_def lock_step_def state_defs)
qed (use ok in \<open>auto simp: irq_ok_def lock_step_def state_defs local_irq_restore_def Let_def\<close>)

lemma irq_ok_next:
  assumes "spin_inv s" and "irq_ok s d" and "allowed True e s"
  shows "irq_ok (lock_next e s) d"
proof (cases e)
  case (Step c)
  then show ?thesis using irq_ok_step_same irq_ok_step_other assms by (cases "d = c") auto
qed (use assms in \<open>auto simp: irq_ok_def lock_call_def unlock_call_def state_defs\<close>)

lemma reach_irq_ok: "reach True s \<Longrightarrow> irq_ok s d"
proof (induction rule: reach.induct)
  case init
  then show ?case by (simp add: irq_ok_def lock_init_def)
next
  case (event s e)
  then show ?case using irq_ok_next reach_spin_inv by blast
qed

text \<open>
  When every core releases its spinlocks in the order opposite to that of the acquisitions, the interrupts of a
  core are off as long as it holds a lock or is inside \<open>lock\<close> or \<open>unlock\<close>, so no interrupt handler can run
  on the core and wait for a lock the core already holds.
\<close>

lemma spinlock_holder_not_interrupted:
  assumes "reach True s" and "held s c \<noteq> [] \<or> pc s c \<noteq> Out"
  shows "\<not> irq_on s c"
  using reach_irq_ok [OF assms(1), of c] assms(2) by (simp add: irq_ok_def)

section \<open>Runs\<close>

primrec lock_run :: "bool \<Rightarrow> lock_event list \<Rightarrow> lock_state \<Rightarrow> lock_state option" where
  "lock_run lifo [] s = Some s"
| "lock_run lifo (e # es) s = (if allowed lifo e s then lock_run lifo es (lock_next e s) else None)"

lemma lock_run_reach: "reach lifo s \<Longrightarrow> lock_run lifo es s = Some t \<Longrightarrow> reach lifo t"
  by (induction es arbitrary: s) (auto intro: reach.event split: if_splits)

text \<open>Core 0 takes locks 5 and 6, core 1 spins on lock 5.\<close>

definition two_cores :: "lock_event list" where
  "two_cores = [Call_Lock 0 5, Call_Lock 1 5, Step 0, Step 1, Step 0, Step 1, Step 0, Step 0,
    Call_Lock 0 6, Step 0, Step 0, Step 1, Step 0, Step 0]"

lemma two_cores_run: "\<exists>s. lock_run True two_cores lock_init = Some s \<and> held s 0 = [6, 5] \<and> pc s 1 = Lock_Spin 5 True"
  by (simp add: two_cores_def lock_init_def NCPU_def lock_call_def lock_step_def state_defs new_spinlock_def holding_def)

theorem spinlock_mutual_exclusion_witness:
  "\<exists>s. reach True s \<and> 5 \<in> set (held s 0) \<and> pc s 1 = Lock_Spin 5 True \<and> holding 0 (locks s 5) \<and> 5 \<notin> set (held s 1)"
proof -
  obtain s where s: "reach True s" "held s 0 = [6, 5]" "pc s 1 = Lock_Spin 5 True"
    using two_cores_run lock_run_reach [OF reach.init] by blast
  then show ?thesis
    using spinlock_mutual_exclusion [OF s(1), of 0 5] by (auto simp: NCPU_def)
qed

lemma spinlock_holder_not_interrupted_witness:
  "\<exists>s. reach True s \<and> held s 0 \<noteq> [] \<and> pc s 1 \<noteq> Out \<and> \<not> irq_on s 0 \<and> \<not> irq_on s 1"
proof -
  obtain s where s: "reach True s" "held s 0 = [6, 5]" "pc s 1 = Lock_Spin 5 True"
    using two_cores_run lock_run_reach [OF reach.init] by blast
  then show ?thesis
    using spinlock_holder_not_interrupted [OF s(1), of 0] spinlock_holder_not_interrupted [OF s(1), of 1] by auto
qed

end
