(* ===== verification/Coro_Mutex.thy ===== *)
theory Coro_Mutex
  imports Prelude
begin

text \<open>
  The mutex for coroutines (\<open>src/os/atomic/mutex.h\<close>, \<open>src/os/atomic/mutex.cc\<close>) with its wait queue
  (\<open>src/os/utils/wait_queue.h\<close>, \<open>src/os/coroutine.cc\<close> for the wake-up of a task). Tasks are numbers. The
  guard lock is a spinlock: taking it waits until it is free and then excludes the others, which is what
  the theory of spinlocks proves. Between the steps of a task any other task may run.
\<close>

section \<open>The wait queue\<close>

text \<open>A task has nothing to do when it goes to sleep; waking it up puts it at the end of the task queue.\<close>

definition wq_sleep :: "nat \<Rightarrow> nat list \<Rightarrow> nat list" where
  "wq_sleep t q = q @ [t]"

primrec wq_wake_up_one :: "nat list \<Rightarrow> nat list \<Rightarrow> nat list \<times> nat list" where
  "wq_wake_up_one [] ready = ([], ready)"
| "wq_wake_up_one (t # q) ready = (q, ready @ [t])"

definition wq_wake_up_all :: "nat list \<Rightarrow> nat list \<Rightarrow> nat list \<times> nat list" where
  "wq_wake_up_all q ready = ([], fold (\<lambda>t r. r @ [t]) q ready)"

section \<open>The mutex\<close>

text \<open>
  Where a task is. In \<open>lock\<close>: before the guard, before the test of the loop, suspended with the guard still held,
  spinning (a task that may not yield) with the guard still held, suspended, woken up and queued, after setting
  \<open>_locked\<close>. Then the critical section. In \<open>unlock\<close>: before the guard, before clearing \<open>_locked\<close>, before
  waking a sleeper, before releasing the guard.
\<close>

datatype task_pc = M_Out | M_Guard | M_Test | M_Sleep | M_Spin | M_Suspended | M_Queued | M_Take | M_Critical
  | M_Unlock_Guard | M_Unlock_Test | M_Wake | M_Unlock_Done

record mutex_state =
  locked :: bool
  guard :: "nat option"
  wait_queue :: "nat list"
  ready :: "nat list"
  tpc :: "nat \<Rightarrow> task_pc"

definition at_pc :: "nat \<Rightarrow> task_pc \<Rightarrow> mutex_state \<Rightarrow> mutex_state" where
  "at_pc t p s = s\<lparr>tpc := (tpc s)(t := p)\<rparr>"

definition take_guard :: "nat \<Rightarrow> task_pc \<Rightarrow> mutex_state \<Rightarrow> mutex_state" where
  "take_guard t p s = (if guard s = None then at_pc t p (s\<lparr>guard := Some t\<rparr>) else s)"

definition drop_guard :: "nat \<Rightarrow> task_pc \<Rightarrow> mutex_state \<Rightarrow> mutex_state" where
  "drop_guard t p s = at_pc t p (s\<lparr>guard := None\<rparr>)"

text \<open>The next step of a task inside \<open>lock\<close>, \<open>wait_queue_done::await_suspend\<close> and \<open>await_resume\<close>, or \<open>unlock\<close>.\<close>

definition wait_step :: "(nat \<Rightarrow> bool) \<Rightarrow> nat \<Rightarrow> mutex_state \<Rightarrow> mutex_state" where
  "wait_step no_yield t s = (if no_yield t then at_pc t M_Spin s
    else at_pc t M_Sleep (s\<lparr>wait_queue := wq_sleep t (wait_queue s)\<rparr>))"

definition wake_step :: "nat \<Rightarrow> mutex_state \<Rightarrow> mutex_state" where
  "wake_step t s = (let (q, r) = wq_wake_up_one (wait_queue s) (ready s);
      s1 = (case wait_queue s of [] \<Rightarrow> s | w # _ \<Rightarrow> at_pc w M_Queued s)
    in at_pc t M_Unlock_Done (s1\<lparr>wait_queue := q, ready := r\<rparr>))"

definition mutex_step :: "(nat \<Rightarrow> bool) \<Rightarrow> nat \<Rightarrow> mutex_state \<Rightarrow> mutex_state" where
  "mutex_step no_yield t s = (case tpc s t of
      M_Guard \<Rightarrow> take_guard t M_Test s
    | M_Test \<Rightarrow> if locked s then wait_step no_yield t s else at_pc t M_Take (s\<lparr>locked := True\<rparr>)
    | M_Sleep \<Rightarrow> drop_guard t M_Suspended s
    | M_Spin \<Rightarrow> drop_guard t M_Guard s
    | M_Take \<Rightarrow> drop_guard t M_Critical s
    | M_Unlock_Guard \<Rightarrow> take_guard t M_Unlock_Test s
    | M_Unlock_Test \<Rightarrow> at_pc t M_Wake (s\<lparr>locked := False\<rparr>)
    | M_Wake \<Rightarrow> wake_step t s
    | M_Unlock_Done \<Rightarrow> drop_guard t M_Out s
    | _ \<Rightarrow> s)"

text \<open>
  What happens: a task calls \<open>lock\<close>, the holder calls \<open>unlock\<close>, a task takes a step, or a scheduler resumes the
  first task of its queue, which takes the guard again in \<open>await_resume\<close>.
\<close>

datatype mutex_event = Call_Lock nat | Call_Unlock nat | Mutex_Step nat | Resume

fun mutex_next :: "(nat \<Rightarrow> bool) \<Rightarrow> mutex_event \<Rightarrow> mutex_state \<Rightarrow> mutex_state option" where
  "mutex_next ny (Call_Lock t) s = (if tpc s t = M_Out then Some (at_pc t M_Guard s) else None)"
| "mutex_next ny (Call_Unlock t) s = (if tpc s t = M_Critical then Some (at_pc t M_Unlock_Guard s) else None)"
| "mutex_next ny (Mutex_Step t) s = Some (mutex_step ny t s)"
| "mutex_next ny Resume s = (case ready s of [] \<Rightarrow> None | t # r \<Rightarrow> Some (at_pc t M_Guard (s\<lparr>ready := r\<rparr>)))"

primrec mutex_run :: "(nat \<Rightarrow> bool) \<Rightarrow> mutex_event list \<Rightarrow> mutex_state \<Rightarrow> mutex_state option" where
  "mutex_run ny [] s = Some s"
| "mutex_run ny (e # es) s = (case mutex_next ny e s of None \<Rightarrow> None | Some s' \<Rightarrow> mutex_run ny es s')"

definition mutex_init :: mutex_state where
  "mutex_init = \<lparr>locked = False, guard = None, wait_queue = [], ready = [], tpc = (\<lambda>_. M_Out)\<rparr>"

inductive mutex_reach :: "(nat \<Rightarrow> bool) \<Rightarrow> mutex_state \<Rightarrow> bool" for ny where
  init: "mutex_reach ny mutex_init"
| event: "mutex_reach ny s \<Longrightarrow> mutex_next ny e s = Some s' \<Longrightarrow> mutex_reach ny s'"

section \<open>Invariant\<close>

fun has_guard :: "task_pc \<Rightarrow> bool" where
  "has_guard M_Test = True"
| "has_guard M_Sleep = True"
| "has_guard M_Spin = True"
| "has_guard M_Take = True"
| "has_guard M_Unlock_Test = True"
| "has_guard M_Wake = True"
| "has_guard M_Unlock_Done = True"
| "has_guard _ = False"

fun has_lock :: "task_pc \<Rightarrow> bool" where
  "has_lock M_Take = True"
| "has_lock M_Critical = True"
| "has_lock M_Unlock_Guard = True"
| "has_lock M_Unlock_Test = True"
| "has_lock _ = False"

fun in_queue :: "task_pc \<Rightarrow> bool" where
  "in_queue M_Sleep = True"
| "in_queue M_Suspended = True"
| "in_queue _ = False"

fun on_the_way :: "task_pc \<Rightarrow> bool" where
  "on_the_way M_Guard = True"
| "on_the_way M_Test = True"
| "on_the_way M_Queued = True"
| "on_the_way M_Wake = True"
| "on_the_way _ = False"

definition guard_inv :: "mutex_state \<Rightarrow> bool" where
  "guard_inv s \<longleftrightarrow> (\<forall>t. has_guard (tpc s t) \<longleftrightarrow> guard s = Some t)"

definition lock_inv :: "mutex_state \<Rightarrow> bool" where
  "lock_inv s \<longleftrightarrow> (locked s \<longleftrightarrow> (\<exists>t. has_lock (tpc s t))) \<and> (\<forall>t u. has_lock (tpc s t) \<and> has_lock (tpc s u) \<longrightarrow> t = u)
    \<and> (\<forall>t. tpc s t = M_Sleep \<or> tpc s t = M_Spin \<longrightarrow> locked s)"

definition queue_inv :: "mutex_state \<Rightarrow> bool" where
  "queue_inv s \<longleftrightarrow> distinct (wait_queue s) \<and> distinct (ready s)
    \<and> (\<forall>t. t \<in> set (wait_queue s) \<longleftrightarrow> in_queue (tpc s t)) \<and> (\<forall>t. t \<in> set (ready s) \<longleftrightarrow> tpc s t = M_Queued)"

definition wake_inv :: "mutex_state \<Rightarrow> bool" where
  "wake_inv s \<longleftrightarrow> (wait_queue s \<noteq> [] \<and> \<not> locked s \<longrightarrow> (\<exists>t. on_the_way (tpc s t)))"

lemmas step_defs = at_pc_def take_guard_def drop_guard_def wait_step_def wake_step_def wq_sleep_def

text \<open>How each invariant survives the move of one task to another place.\<close>

lemma guard_inv_move:
  assumes "guard_inv s" and "tpc s' = (tpc s)(t := p)"
    and "guard s' = guard s \<and> has_guard p = has_guard (tpc s t) \<or> guard s = None \<and> guard s' = Some t \<and> has_guard p
      \<or> guard s = Some t \<and> guard s' = None \<and> \<not> has_guard p"
  shows "guard_inv s'"
  using assms unfolding guard_inv_def by (metis fun_upd_apply option.distinct(1) option.inject)

lemma lock_inv_move:
  assumes "lock_inv s" and "tpc s' = (tpc s)(t := p)" and "p = M_Sleep \<or> p = M_Spin \<longrightarrow> locked s'"
    and "locked s' = locked s \<and> has_lock p = has_lock (tpc s t) \<or> \<not> locked s \<and> locked s' \<and> has_lock p
      \<or> has_lock (tpc s t) \<and> \<not> locked s' \<and> \<not> has_lock p \<and> (\<forall>u. u \<noteq> t \<longrightarrow> tpc s u \<noteq> M_Sleep \<and> tpc s u \<noteq> M_Spin)"
  shows "lock_inv s'"
proof -
  have other: "tpc s' u = (if u = t then p else tpc s u)" for u by (simp add: assms(2))
  note inv = assms(1) [unfolded lock_inv_def]
  have one: "has_lock (tpc s u) \<Longrightarrow> has_lock (tpc s v) \<Longrightarrow> u = v" for u v using inv by blast
  from assms(4) show ?thesis
  proof (elim disjE conjE)
    assume "locked s' = locked s" "has_lock p = has_lock (tpc s t)"
    then have "has_lock (tpc s' u) = has_lock (tpc s u)" "locked s' = locked s" for u by (simp_all add: other)
    moreover have "tpc s' u = M_Sleep \<or> tpc s' u = M_Spin \<longrightarrow> locked s'" for u
      using inv assms(3) calculation(2) other by metis
    ultimately show ?thesis using inv unfolding lock_inv_def by simp
  next
    assume "\<not> locked s" "locked s'" "has_lock p"
    then have "has_lock (tpc s' u) \<longleftrightarrow> u = t" for u using inv by (simp add: other)
    then show ?thesis using \<open>locked s'\<close> unfolding lock_inv_def by simp
  next
    assume l: "has_lock (tpc s t)" "\<not> locked s'" "\<not> has_lock p" and u: "\<forall>u. u \<noteq> t \<longrightarrow> tpc s u \<noteq> M_Sleep \<and> tpc s u \<noteq> M_Spin"
    have "\<not> has_lock (tpc s' u)" for u using one [of t u] l by (auto simp: other)
    moreover have "tpc s' v \<noteq> M_Sleep" "tpc s' v \<noteq> M_Spin" for v using u assms(3) l(2) by (auto simp: other)
    ultimately show ?thesis using l(2) unfolding lock_inv_def by blast
  qed
qed

lemma wake_inv_move:
  assumes "wake_inv s" and "tpc s' = (tpc s)(t := p)"
    and "locked s' \<or> on_the_way p \<or> wait_queue s' = [] \<or> \<not> locked s \<and> (wait_queue s' \<noteq> [] \<longrightarrow> wait_queue s \<noteq> []) \<and> \<not> on_the_way (tpc s t)"
  shows "wake_inv s'"
  using assms unfolding wake_inv_def by (metis fun_upd_apply)

lemma wake_step_two:
  "wake_step t s = (case wait_queue s of [] \<Rightarrow> at_pc t M_Unlock_Done s
    | w # q \<Rightarrow> at_pc t M_Unlock_Done (at_pc w M_Queued s\<lparr>wait_queue := q, ready := ready s @ [w]\<rparr>))"
  by (cases s) (simp add: wake_step_def at_pc_def split: list.split)

definition mutex_inv :: "mutex_state \<Rightarrow> bool" where
  "mutex_inv s \<longleftrightarrow> guard_inv s \<and> lock_inv s \<and> queue_inv s \<and> wake_inv s"

lemma mutex_inv_init: "mutex_inv mutex_init"
  by (simp add: mutex_inv_def mutex_init_def guard_inv_def lock_inv_def queue_inv_def wake_inv_def)

lemma at_pc_simps [simp]:
  "tpc (at_pc t p s) = (tpc s)(t := p)" "locked (at_pc t p s) = locked s" "guard (at_pc t p s) = guard s"
  "wait_queue (at_pc t p s) = wait_queue s" "ready (at_pc t p s) = ready s"
  by (simp_all add: at_pc_def)

text \<open>The moves that do not touch the queues, and may not leave the places where a task is in one.\<close>

lemma queue_inv_move:
  assumes "queue_inv s" and "tpc s' = (tpc s)(t := p)" and "wait_queue s' = wait_queue s" and "ready s' = ready s"
    and "in_queue p = in_queue (tpc s t)" and "p = M_Queued \<longleftrightarrow> tpc s t = M_Queued"
  shows "queue_inv s'"
  using assms by (auto simp: queue_inv_def)

lemma mutex_inv_move:
  assumes "mutex_inv s" and "tpc s' = (tpc s)(t := p)" and "wait_queue s' = wait_queue s" and "ready s' = ready s"
    and "guard s' = guard s \<and> has_guard p = has_guard (tpc s t) \<or> guard s = None \<and> guard s' = Some t \<and> has_guard p
      \<or> guard s = Some t \<and> guard s' = None \<and> \<not> has_guard p"
    and "p = M_Sleep \<or> p = M_Spin \<longrightarrow> locked s'"
    and "locked s' = locked s \<and> has_lock p = has_lock (tpc s t) \<or> \<not> locked s \<and> locked s' \<and> has_lock p
      \<or> has_lock (tpc s t) \<and> \<not> locked s' \<and> \<not> has_lock p \<and> (\<forall>u. u \<noteq> t \<longrightarrow> tpc s u \<noteq> M_Sleep \<and> tpc s u \<noteq> M_Spin)"
    and "in_queue p = in_queue (tpc s t)" and "p = M_Queued \<longleftrightarrow> tpc s t = M_Queued"
    and "locked s' \<or> on_the_way p \<or> wait_queue s = [] \<or> \<not> locked s \<and> \<not> on_the_way (tpc s t)"
  shows "mutex_inv s'"
proof -
  have inv: "guard_inv s" "lock_inv s" "queue_inv s" "wake_inv s" using assms(1) by (simp_all add: mutex_inv_def)
  have "guard_inv s'" by (rule guard_inv_move [OF inv(1) assms(2,5)])
  moreover have "lock_inv s'" by (rule lock_inv_move [OF inv(2) assms(2,6,7)])
  moreover have "queue_inv s'" by (rule queue_inv_move [OF inv(3) assms(2,3,4,8,9)])
  moreover have "wake_inv s'" by (rule wake_inv_move [OF inv(4) assms(2)]) (use assms(3,10) in auto)
  ultimately show ?thesis by (simp add: mutex_inv_def)
qed

lemma mutex_invD:
  assumes "mutex_inv s"
  shows "has_guard (tpc s t) \<longleftrightarrow> guard s = Some t" and "t \<in> set (wait_queue s) \<longleftrightarrow> in_queue (tpc s t)"
    and "t \<in> set (ready s) \<longleftrightarrow> tpc s t = M_Queued"
    and "has_lock (tpc s t) \<Longrightarrow> has_lock (tpc s u) \<Longrightarrow> t = u" and "locked s \<longleftrightarrow> (\<exists>t. has_lock (tpc s t))"
    and "tpc s t = M_Sleep \<Longrightarrow> locked s" and "tpc s t = M_Spin \<Longrightarrow> locked s"
    and "distinct (wait_queue s)" and "distinct (ready s)"
    and "wait_queue s \<noteq> [] \<Longrightarrow> \<not> locked s \<Longrightarrow> \<exists>t. on_the_way (tpc s t)"
  using assms unfolding mutex_inv_def guard_inv_def queue_inv_def lock_inv_def wake_inv_def by blast+

lemma mutex_inv_wait:
  assumes inv: "mutex_inv s" and "tpc s t = M_Test" and "locked s"
  shows "mutex_inv (at_pc t M_Sleep (s\<lparr>wait_queue := wq_sleep t (wait_queue s)\<rparr>))"
proof -
  note D = mutex_invD [OF inv]
  let ?s = "at_pc t M_Sleep (s\<lparr>wait_queue := wq_sleep t (wait_queue s)\<rparr>)"
  have "guard_inv ?s" by (rule guard_inv_move [of s _ t M_Sleep]) (use inv assms in \<open>simp_all add: mutex_inv_def\<close>)
  moreover have "lock_inv ?s" by (rule lock_inv_move [of s _ t M_Sleep]) (use inv assms in \<open>simp_all add: mutex_inv_def\<close>)
  moreover have "queue_inv ?s"
    using D(2) [of t] D(3) [of t] inv assms(2) by (auto simp: queue_inv_def mutex_inv_def wq_sleep_def)
  moreover have "wake_inv ?s" using assms(3) by (simp add: wake_inv_def)
  ultimately show ?thesis by (simp add: mutex_inv_def)
qed

lemma mutex_inv_wake_one:
  assumes inv: "mutex_inv s" and t: "tpc s t = M_Wake" and q: "wait_queue s = w # q"
  shows "mutex_inv (at_pc w M_Queued (s\<lparr>wait_queue := q, ready := ready s @ [w]\<rparr>))" and "w \<noteq> t"
proof -
  note D = mutex_invD [OF inv]
  let ?s = "at_pc w M_Queued (s\<lparr>wait_queue := q, ready := ready s @ [w]\<rparr>)"
  have "in_queue (tpc s w)" using D(2) [of w] q by simp
  moreover have "\<not> has_guard (tpc s w)" using D(1) [of t] D(1) [of w] t calculation by (cases "tpc s w") auto
  ultimately have w: "tpc s w = M_Suspended" by (cases "tpc s w") simp_all
  show "w \<noteq> t" using w t by auto
  have "guard_inv ?s" by (rule guard_inv_move [of s _ w M_Queued]) (use inv w in \<open>simp_all add: mutex_inv_def\<close>)
  moreover have "lock_inv ?s" by (rule lock_inv_move [of s _ w M_Queued]) (use inv w in \<open>simp_all add: mutex_inv_def\<close>)
  moreover have "queue_inv ?s"
    using D(2) D(3) D(8,9) w q by (auto simp: queue_inv_def)
  moreover have "wake_inv ?s" by (rule wake_inv_move [of s _ w M_Queued]) (use inv in \<open>simp_all add: mutex_inv_def\<close>)
  ultimately show "mutex_inv ?s" by (simp add: mutex_inv_def)
qed

lemma mutex_inv_resume:
  assumes inv: "mutex_inv s" and r: "ready s = t # r"
  shows "mutex_inv (at_pc t M_Guard (s\<lparr>ready := r\<rparr>))"
proof -
  note D = mutex_invD [OF inv]
  let ?s = "at_pc t M_Guard (s\<lparr>ready := r\<rparr>)"
  have t: "tpc s t = M_Queued" using D(3) [of t] r by simp
  have "guard_inv ?s" by (rule guard_inv_move [of s _ t M_Guard]) (use inv t in \<open>simp_all add: mutex_inv_def\<close>)
  moreover have "lock_inv ?s" by (rule lock_inv_move [of s _ t M_Guard]) (use inv t in \<open>simp_all add: mutex_inv_def\<close>)
  moreover have "queue_inv ?s" using D(2) D(3) D(8,9) t r by (auto simp: queue_inv_def)
  moreover have "wake_inv ?s" by (rule wake_inv_move [of s _ t M_Guard]) (use inv in \<open>simp_all add: mutex_inv_def\<close>)
  ultimately show ?thesis by (simp add: mutex_inv_def)
qed

lemma mutex_inv_guard_step:
  assumes "mutex_inv s" and "guard s = None \<longrightarrow> has_guard p \<and> p \<noteq> M_Sleep \<and> p \<noteq> M_Spin"
    and "\<not> has_guard (tpc s t)" and "has_lock p = has_lock (tpc s t)" and "in_queue p = in_queue (tpc s t)"
    and "p \<noteq> M_Queued" and "tpc s t \<noteq> M_Queued" and "has_lock p \<or> on_the_way p"
  shows "mutex_inv (take_guard t p s)"
proof (cases "guard s = None")
  case True
  have "locked s" if "has_lock p" using mutex_invD(5) [OF assms(1)] assms(4) that by blast
  then show ?thesis
    using assms True by (intro mutex_inv_move [OF assms(1), where t = t and p = p]) (auto simp: take_guard_def)
qed (use assms(1) in \<open>auto simp: take_guard_def\<close>)

lemma mutex_inv_step:
  assumes inv: "mutex_inv s"
  shows "mutex_inv (mutex_step ny t s)"
proof -
  note D = mutex_invD [OF inv]
  note move = mutex_inv_move [OF inv, where t = t]
  show ?thesis
  proof (cases "tpc s t")
    case M_Guard
    then show ?thesis using mutex_inv_guard_step [OF inv, of M_Test t] by (simp add: mutex_step_def)
  next
    case M_Test
    show ?thesis
    proof (cases "locked s")
      case True
      then show ?thesis
        using M_Test mutex_inv_wait [OF inv M_Test True] move [of "at_pc t M_Spin s" M_Spin]
        by (simp add: mutex_step_def wait_step_def)
    qed (use M_Test move [of "at_pc t M_Take (s\<lparr>locked := True\<rparr>)" M_Take] in \<open>simp add: mutex_step_def\<close>)
  next
    case M_Sleep
    then show ?thesis
      using D(1) [of t] D(6) [of t] move [of "drop_guard t M_Suspended s" M_Suspended] by (simp add: mutex_step_def drop_guard_def)
  next
    case M_Spin
    then show ?thesis
      using D(1) [of t] D(7) [of t] move [of "drop_guard t M_Guard s" M_Guard] by (simp add: mutex_step_def drop_guard_def)
  next
    case M_Take
    moreover have "locked s" unfolding D(5) using M_Take by (intro exI [of _ t]) simp
    ultimately show ?thesis
      using D(1) [of t] move [of "drop_guard t M_Critical s" M_Critical] by (simp add: mutex_step_def drop_guard_def)
  next
    case M_Unlock_Guard
    then show ?thesis using mutex_inv_guard_step [OF inv, of M_Unlock_Test t] by (simp add: mutex_step_def)
  next
    case M_Unlock_Test
    have "tpc s u \<noteq> M_Sleep \<and> tpc s u \<noteq> M_Spin" if "u \<noteq> t" for u
      using D(1) [of t] D(1) [of u] M_Unlock_Test that by auto
    then show ?thesis
      using M_Unlock_Test move [of "at_pc t M_Wake (s\<lparr>locked := False\<rparr>)" M_Wake] by (simp add: mutex_step_def)
  next
    case M_Wake
    show ?thesis
    proof (cases "wait_queue s")
      case Nil
      then show ?thesis
        using M_Wake move [of "at_pc t M_Unlock_Done s" M_Unlock_Done] by (simp add: mutex_step_def wake_step_two)
    next
      case (Cons w q)
      note one = mutex_inv_wake_one [OF inv M_Wake Cons]
      let ?s = "at_pc w M_Queued (s\<lparr>wait_queue := q, ready := ready s @ [w]\<rparr>)"
      have "mutex_inv (at_pc t M_Unlock_Done ?s)"
      proof -
        have "guard_inv (at_pc t M_Unlock_Done ?s)" "lock_inv (at_pc t M_Unlock_Done ?s)"
          using one M_Wake guard_inv_move [of ?s "at_pc t M_Unlock_Done ?s" t M_Unlock_Done]
            lock_inv_move [of ?s "at_pc t M_Unlock_Done ?s" t M_Unlock_Done] by (auto simp: mutex_inv_def)
        moreover have "queue_inv (at_pc t M_Unlock_Done ?s)"
          by (rule queue_inv_move [of ?s _ t M_Unlock_Done]) (use one M_Wake in \<open>auto simp: mutex_inv_def\<close>)
        moreover have "wake_inv (at_pc t M_Unlock_Done ?s)"
          using one(2) by (auto simp: wake_inv_def intro: exI [of _ w])
        ultimately show ?thesis by (simp add: mutex_inv_def)
      qed
      then show ?thesis using M_Wake Cons by (simp add: mutex_step_def wake_step_two at_pc_def)
    qed
  next
    case M_Unlock_Done
    then show ?thesis
      using D(1) [of t] move [of "drop_guard t M_Out s" M_Out]
      by (auto simp: mutex_step_def drop_guard_def)
  qed (use inv in \<open>simp_all add: mutex_step_def\<close>)
qed

lemma mutex_inv_next:
  assumes inv: "mutex_inv s" and "mutex_next ny e s = Some s'"
  shows "mutex_inv s'"
proof (cases e)
  case (Call_Lock t)
  then show ?thesis
    using assms(2) by (intro mutex_inv_move [OF inv, where t = t and p = M_Guard]) (auto split: if_splits)
next
  case (Call_Unlock t)
  moreover have "locked s" if "tpc s t = M_Critical"
    unfolding mutex_invD(5) [OF inv] using that by (intro exI [of _ t]) simp
  ultimately show ?thesis
    using assms(2) by (intro mutex_inv_move [OF inv, where t = t and p = M_Unlock_Guard]) (auto split: if_splits)
qed (use assms mutex_inv_step mutex_inv_resume in \<open>auto split: list.splits\<close>)

lemma reach_mutex_inv: "mutex_reach ny s \<Longrightarrow> mutex_inv s"
  by (induction rule: mutex_reach.induct) (auto intro: mutex_inv_init mutex_inv_next)

lemma mutex_run_reach: "mutex_reach ny s \<Longrightarrow> mutex_run ny es s = Some t \<Longrightarrow> mutex_reach ny t"
  by (induction es arbitrary: s) (auto intro: mutex_reach.event split: option.splits)

lemma mutex_run_append:
  "mutex_run ny (es @ fs) s = (case mutex_run ny es s of None \<Rightarrow> None | Some t \<Rightarrow> mutex_run ny fs t)"
  by (induction es arbitrary: s) (auto split: option.split)

text \<open>
  C11. The mutex excludes: whatever tasks call \<open>lock\<close> and \<open>unlock\<close> and however their steps interleave, at most one
  task is in its critical section, \<open>_locked\<close> is set while it is there, and a task that waits is in
  the wait queue or in the task queue exactly once, never in both.
\<close>

theorem coro_mutex_excludes:
  assumes "mutex_reach ny s"
  shows "(\<forall>t u. tpc s t = M_Critical \<and> tpc s u = M_Critical \<longrightarrow> t = u)
    \<and> (\<forall>t. tpc s t = M_Critical \<longrightarrow> locked s)
    \<and> distinct (wait_queue s @ ready s)
    \<and> (\<forall>t. tpc s t = M_Suspended \<longrightarrow> t \<in> set (wait_queue s))
    \<and> (\<forall>t. tpc s t = M_Queued \<longrightarrow> t \<in> set (ready s))"
proof -
  note D = mutex_invD [OF reach_mutex_inv [OF assms]]
  have "t = u" if "tpc s t = M_Critical" "tpc s u = M_Critical" for t u using D(4) [of t u] that by simp
  moreover have "locked s" if "tpc s t = M_Critical" for t using D(5) that has_lock.simps(2) by metis
  moreover have "distinct (wait_queue s @ ready s)" using D(2,3,8,9) by auto
  ultimately show ?thesis using D(2,3) by simp
qed

section \<open>No lost wake-up\<close>

definition waits :: "task_pc \<Rightarrow> bool" where
  "waits p \<longleftrightarrow> p \<in> {M_Guard, M_Test, M_Sleep, M_Spin, M_Suspended, M_Queued}"

text \<open>Runs in which no task makes a new call: the tasks inside a call go on, and schedulers resume tasks.\<close>

definition silent :: "mutex_event list \<Rightarrow> bool" where
  "silent es \<longleftrightarrow> (\<forall>e \<in> set es. case e of Mutex_Step _ \<Rightarrow> True | Resume \<Rightarrow> True | _ \<Rightarrow> False)"

definition gets_in :: "(nat \<Rightarrow> bool) \<Rightarrow> mutex_state \<Rightarrow> bool" where
  "gets_in ny s \<longleftrightarrow> (\<exists>es s' t. silent es \<and> mutex_run ny es s = Some s' \<and> tpc s' t = M_Critical)"

lemma gets_in_step:
  assumes "mutex_run ny es s = Some s'" and "silent es" and "gets_in ny s'"
  shows "gets_in ny s"
proof -
  obtain fs u t where "silent fs" "mutex_run ny fs s' = Some u" "tpc u t = M_Critical"
    using assms(3) by (auto simp: gets_in_def)
  then have "silent (es @ fs)" "mutex_run ny (es @ fs) s = Some u" "tpc u t = M_Critical"
    using assms(1,2) by (auto simp: silent_def mutex_run_append)
  then show ?thesis unfolding gets_in_def by blast
qed

lemma gets_in_test:
  assumes "tpc s t = M_Test" and "\<not> locked s"
  shows "gets_in ny s"
  unfolding gets_in_def using assms
  by (intro exI [of _ "[Mutex_Step t, Mutex_Step t]"] exI conjI [OF _ conjI [OF _ exI [of _ t]]])
    (auto simp: silent_def mutex_step_def drop_guard_def)

lemma gets_in_guard:
  assumes "tpc s t = M_Guard" and "\<not> locked s" and "guard s = None"
  shows "gets_in ny s"
proof -
  have "gets_in ny (mutex_step ny t s)"
    by (rule gets_in_test [of _ t]) (use assms in \<open>auto simp: mutex_step_def take_guard_def\<close>)
  then show ?thesis by (intro gets_in_step [of ny "[Mutex_Step t]" s]) (simp_all add: silent_def)
qed

lemma gets_in_free:
  assumes inv: "mutex_inv s" and free: "\<not> locked s" "guard s = None" and t: "waits (tpc s t)"
  shows "gets_in ny s"
proof -
  note D = mutex_invD [OF inv]
  have no_guard: "\<not> has_guard (tpc s u)" for u using D(1) [of u] free(2) by simp
  obtain u where u: "tpc s u = M_Guard \<or> tpc s u = M_Queued"
  proof (cases "tpc s t = M_Suspended")
    case True
    then have "t \<in> set (wait_queue s)" using D(2) [of t] by simp
    then have "wait_queue s \<noteq> []" by auto
    then obtain u where "on_the_way (tpc s u)" using D(10) free(1) by blast
    then have "tpc s u = M_Guard \<or> tpc s u = M_Queued" using no_guard [of u] by (cases "tpc s u") simp_all
    then show thesis by (rule that)
  next
    case False
    then have "tpc s t = M_Guard \<or> tpc s t = M_Queued" using t no_guard [of t] by (auto simp: waits_def)
    then show thesis by (rule that)
  qed
  show ?thesis
  proof (cases "tpc s u = M_Guard")
    case True
    then show ?thesis by (rule gets_in_guard [OF _ free])
  next
    case False
    then have "u \<in> set (ready s)" using u D(3) by simp
    then obtain v r where r: "ready s = v # r" by (cases "ready s") auto
    then have "mutex_run ny [Resume] s = Some (at_pc v M_Guard (s\<lparr>ready := r\<rparr>))" by simp
    moreover have "gets_in ny (at_pc v M_Guard (s\<lparr>ready := r\<rparr>))"
      by (rule gets_in_guard [of _ v]) (use free in simp_all)
    ultimately show ?thesis by (intro gets_in_step [of ny "[Resume]" s]) (simp_all add: silent_def)
  qed
qed

lemma waits_wake_step: "waits (tpc s t) \<Longrightarrow> tpc s g = M_Wake \<Longrightarrow> waits (tpc (wake_step g s) t)"
  by (auto simp: wake_step_two waits_def split: list.split)

lemma gets_in_done:
  assumes inv: "mutex_inv s" and "tpc s g = M_Unlock_Done" and free: "\<not> locked s" and t: "waits (tpc s t)"
  shows "gets_in ny s"
proof -
  have "gets_in ny (mutex_step ny g s)"
    by (rule gets_in_free [OF mutex_inv_step [OF inv], of ny g t])
      (use assms in \<open>auto simp: mutex_step_def drop_guard_def waits_def\<close>)
  then show ?thesis by (intro gets_in_step [of ny "[Mutex_Step g]" s]) (simp_all add: silent_def)
qed

text \<open>
  C23. No wake-up is lost and the mutex cannot deadlock: in every reachable state in which the mutex is free, in
  particular right after a holder has cleared \<open>_locked\<close>, if a task waits for it in any way then the tasks that
  are inside a call and the schedulers alone can bring a waiting task into its critical section, without
  any new call of \<open>lock\<close> or \<open>unlock\<close>.
\<close>

theorem coro_mutex_no_lost_wakeup:
  assumes "mutex_reach ny s" and "\<not> locked s" and "waits (tpc s t)"
  shows "gets_in ny s"
proof (cases "guard s")
  case None
  then show ?thesis by (rule gets_in_free [OF reach_mutex_inv [OF assms(1)] assms(2) _ assms(3)])
next
  case (Some g)
  note inv = reach_mutex_inv [OF assms(1)]
  note D = mutex_invD [OF inv]
  have g: "has_guard (tpc s g)" "\<not> has_lock (tpc s g)" "tpc s g \<noteq> M_Sleep" "tpc s g \<noteq> M_Spin"
    using D(1) [of g] D(5-7) assms(2) Some by auto
  then consider "tpc s g = M_Test" | "tpc s g = M_Wake" | "tpc s g = M_Unlock_Done" by (cases "tpc s g") simp_all
  then show ?thesis
  proof cases
    case 1
    then show ?thesis using assms(2) by (rule gets_in_test)
  next
    case 2
    have "gets_in ny (mutex_step ny g s)"
      by (rule gets_in_done [OF mutex_inv_step [OF inv], of ny g g t])
        (use 2 assms(2) waits_wake_step [OF assms(3) 2] in \<open>auto simp: mutex_step_def wake_step_two split: list.splits\<close>)
    then show ?thesis by (intro gets_in_step [of ny "[Mutex_Step g]" s]) (simp_all add: silent_def)
  next
    case 3
    then show ?thesis using gets_in_done [OF inv _ assms(2,3)] by blast
  qed
qed

text \<open>Tasks 1 and 2 compete: task 1 gets the mutex, task 2 goes to sleep, task 1 has cleared \<open>_locked\<close>.\<close>

definition contention :: "mutex_event list" where
  "contention = [Call_Lock 1, Mutex_Step 1, Call_Lock 2, Mutex_Step 2, Mutex_Step 1, Mutex_Step 1, Mutex_Step 2, Mutex_Step 2,
    Mutex_Step 2]"

definition clearing :: "mutex_event list" where
  "clearing = contention @ [Call_Unlock 1, Mutex_Step 1, Mutex_Step 1]"

lemma contention_run:
  "\<exists>s. mutex_run (\<lambda>_. False) contention mutex_init = Some s \<and> tpc s 1 = M_Critical \<and> tpc s 2 = M_Suspended"
  by (simp add: contention_def mutex_init_def mutex_step_def step_defs)

lemma clearing_run:
  "\<exists>s. mutex_run (\<lambda>_. False) clearing mutex_init = Some s \<and> \<not> locked s \<and> tpc s 1 = M_Wake \<and> tpc s 2 = M_Suspended"
  by (simp add: clearing_def contention_def mutex_init_def mutex_step_def step_defs)

theorem coro_mutex_excludes_witness:
  "\<exists>s. mutex_reach (\<lambda>_. False) s \<and> tpc s 1 = M_Critical \<and> tpc s 2 = M_Suspended \<and> locked s \<and> 2 \<in> set (wait_queue s)"
proof -
  obtain s where s: "mutex_run (\<lambda>_. False) contention mutex_init = Some s" "tpc s 1 = M_Critical" "tpc s 2 = M_Suspended"
    using contention_run by blast
  have r: "mutex_reach (\<lambda>_. False) s" by (rule mutex_run_reach [OF mutex_reach.init s(1)])
  then show ?thesis using coro_mutex_excludes [OF r] s(2,3) by blast
qed

theorem coro_mutex_no_lost_wakeup_witness:
  "\<exists>s. mutex_reach (\<lambda>_. False) s \<and> tpc s 1 = M_Wake \<and> tpc s 2 = M_Suspended \<and> gets_in (\<lambda>_. False) s"
proof -
  obtain s where s: "mutex_run (\<lambda>_. False) clearing mutex_init = Some s" "\<not> locked s" "tpc s 1 = M_Wake" "tpc s 2 = M_Suspended"
    using clearing_run by blast
  have r: "mutex_reach (\<lambda>_. False) s" by (rule mutex_run_reach [OF mutex_reach.init s(1)])
  have "waits (tpc s 2)" using s(4) by (simp add: waits_def)
  from coro_mutex_no_lost_wakeup [OF r s(2) this] show ?thesis using r s by blast
qed

end
