(* ===== verification/Coroutine.thy ===== *)
theory Coroutine
  imports Prelude
begin

text \<open>
  Coroutines and the task scheduler (\<open>src/os/coroutine.h\<close>, \<open>src/os/coroutine.cc\<close>, \<open>src/os/task_scheduler.h\<close>): promises,
  awaiting a task, the transfer of control at suspension points, failures and their handlers, the
  destruction of frames, the task queue. The code the compiler generates for a coroutine is
  represented by the suspended rest of its body and the task objects that live in its frame.
\<close>

section \<open>Coroutine bodies and frames\<close>

text \<open>
  A body is ordinary code on the state \<open>'g\<close> shared by the coroutines, between points where the coroutine protocol
  acts: \<open>co_return\<close> of a value or of \<open>task_fail\<close>, \<open>co_yield\<close>, the call of another coroutine, which makes a
  task object (\<open>0\<close> when its frame could not be allocated), the adoption of a promise by a task object,
  the settings of a promise, \<open>co_await\<close> of a task, the end of the life of a task object, \<open>co_await\<close> of
  \<open>this_scheduler\<close> and of a sleep. Values are numbers; \<open>task_ok\<close> is \<open>0\<close>.
\<close>

datatype 'g body =
    Return_Value nat
  | Return_Fail
  | Yield_Value nat "'g body"
  | Act "'g \<Rightarrow> 'g" "'g \<Rightarrow> 'g body"
  | Call_Task "'g body" "nat \<Rightarrow> 'g body"
  | Own_Task nat "'g body"
  | Set_Error_Handler nat "'g body"
  | Set_No_Yield nat "'g body"
  | Await nat "nat option \<Rightarrow> 'g body"
  | End_Task nat "'g body"
  | Await_Scheduler "'g body"
  | Await_Sleep nat "'g body"

datatype co_status = Co_Init | Co_Running | Co_Suspend | Co_Done | Co_Fail

text \<open>Where a frame is suspended: before some code, in a \<open>task_awaiter\<close> with the \<open>last_promise\<close> it saved, at the end.\<close>

datatype 'g frame = At "'g body" | In_Await nat nat "nat option \<Rightarrow> 'g body" | Final

text \<open>The promise, with its result storage, the rest of the frame and the promises its task objects own.\<close>

record 'g promise =
  co_status :: co_status
  caller :: nat
  self_scheduler :: nat
  has_error_handler :: bool
  no_yield :: bool
  co_result :: "nat option"
  co_frame :: "'g frame"
  co_tasks :: "nat list"

definition new_promise :: "'g body \<Rightarrow> 'g promise" where
  "new_promise b = \<lparr>co_status = Co_Init, caller = 0, self_scheduler = 0, has_error_handler = False, no_yield = False,
    co_result = None, co_frame = At b, co_tasks = []\<rparr>"

text \<open>
  Promises live at addresses, \<open>0\<close> is null. \<open>frames_left\<close> is how many frames the heap can still hold, \<open>sched_queue\<close> the
  queue of each scheduler (\<open>0\<close> is \<open>kernel_task_queue\<close>), \<open>current_promise\<close> that of the running process,
  \<open>sleep_calls\<close> the sleeps asked for.
\<close>

record 'g world =
  promises :: "nat \<Rightarrow> 'g promise option"
  next_frame :: nat
  frames_left :: nat
  sched_queue :: "nat \<Rightarrow> nat"
  task_queues :: "nat \<Rightarrow> nat list"
  current_promise :: nat
  sleep_calls :: "(nat \<times> nat) list"
  shared :: 'g

type_synonym ('g, 'a) com = "('g world, 'a) kmonad"

definition get_promise :: "nat \<Rightarrow> ('g, 'g promise) com" where
  "get_promise p = kbind (kget (\<lambda>s. if p = 0 then None else promises s p)) kopt"

definition mod_promise :: "nat \<Rightarrow> ('g promise \<Rightarrow> 'g promise) \<Rightarrow> ('g, unit) com" where
  "mod_promise p f = kbind (get_promise p) (\<lambda>x.
    kmod (\<lambda>s. s\<lparr>promises := (promises s)(p \<mapsto> f x)\<rparr>))"

definition set_status :: "nat \<Rightarrow> co_status \<Rightarrow> ('g, unit) com" where
  "set_status p st = mod_promise p (co_status_update (\<lambda>_. st))"

definition swap_promise :: "nat \<Rightarrow> ('g, nat) com" where
  "swap_promise p = kbind (kget current_promise) (\<lambda>old.
    kseq (kmod (current_promise_update (\<lambda>_. p))) (
    kret old))"

section \<open>Task objects\<close>

record task_obj =
  t_promise :: nat
  t_alloc_fail :: bool
  t_owner :: bool

definition task_of :: "nat \<Rightarrow> bool \<Rightarrow> task_obj" where
  "task_of p owner = \<lparr>t_promise = p, t_alloc_fail = False, t_owner = owner\<rparr>"

definition task_empty :: task_obj where
  "task_empty = \<lparr>t_promise = 0, t_alloc_fail = False, t_owner = False\<rparr>"

definition task_of_fail :: task_obj where
  "task_of_fail = \<lparr>t_promise = 0, t_alloc_fail = True, t_owner = False\<rparr>"

text \<open>Move construction and assignment: the new object and what is left of the old one.\<close>

definition task_move :: "task_obj \<Rightarrow> task_obj \<times> task_obj" where
  "task_move t = (t, t\<lparr>t_promise := 0, t_owner := False\<rparr>)"

definition task_move_assign :: "task_obj \<Rightarrow> task_obj \<Rightarrow> task_obj \<times> task_obj" where
  "task_move_assign this_t t = (this_t\<lparr>t_promise := t_promise t, t_alloc_fail := t_alloc_fail t, t_owner := t_owner t\<rparr>,
    t\<lparr>t_promise := 0, t_owner := False\<rparr>)"

definition task_get_ref :: "task_obj \<Rightarrow> task_obj" where
  "task_get_ref t = task_of (t_promise t) False"

section \<open>Frames\<close>

text \<open>Allocation of the frame of a coroutine: \<open>0\<close> stands for the task with \<open>alloc_fail\<close> set.\<close>

definition new_frame :: "'g body \<Rightarrow> ('g, nat) com" where
  "new_frame b = kbind (kget (\<lambda>s. s)) (\<lambda>s.
    if frames_left s = 0 then kret 0
    else kseq (kmod (\<lambda>s. s\<lparr>promises := (promises s)(next_frame s \<mapsto> new_promise b), next_frame := next_frame s + 1,
        frames_left := frames_left s - 1\<rparr>)) (
      kret (next_frame s)))"

text \<open>
  \<open>destroy\<close> of a coroutine handle: the task objects of the frame end, which destroys the frames they own, then the
  promise is destroyed. The fuel bounds the depth of ownership.
\<close>

primrec destroy_all :: "(nat \<Rightarrow> ('g, unit) com) \<Rightarrow> nat list \<Rightarrow> ('g, unit) com" where
  "destroy_all d [] = kret ()"
| "destroy_all d (p # ps) = kseq (d p) (
  destroy_all d ps)"

primrec destroy_coroutine :: "nat \<Rightarrow> nat \<Rightarrow> ('g, unit) com" where
  "destroy_coroutine 0 p = kthrow Out_Of_Fuel"
| "destroy_coroutine (Suc n) p = kbind (get_promise p) (\<lambda>x.
  kseq (destroy_all (destroy_coroutine n) (co_tasks x)) (
  kseq (kassert (co_status x \<noteq> Co_Init) ''for debug'') (
  kmod (\<lambda>s. s\<lparr>promises := (promises s)(p := None), frames_left := frames_left s + 1\<rparr>))))"

definition destroy_frame :: "nat \<Rightarrow> ('g, unit) com" where
  "destroy_frame p = kbind (kget next_frame) (\<lambda>n.
    destroy_coroutine n p)"

section \<open>Failures\<close>

primrec fail_loop :: "nat \<Rightarrow> nat \<Rightarrow> ('g, nat) com" where
  "fail_loop 0 cur = kthrow Out_Of_Fuel"
| "fail_loop (Suc n) cur = kbind (get_promise cur) (\<lambda>x.
  if caller x = 0 then kthrow (Panic ''no error handler found'')
    else if has_error_handler x then kseq (set_status cur Co_Fail) (
      kret (caller x))
    else fail_loop n (caller x))"

text \<open>The number of frames ever made bounds the length of a chain of callers.\<close>

definition coroutine_handle_fail :: "nat \<Rightarrow> ('g, nat) com" where
  "coroutine_handle_fail cur = kbind (kget next_frame) (\<lambda>n.
    fail_loop n cur)"

section \<open>Suspension points\<close>

text \<open>Each of them gives the handle of the coroutine to resume next, \<open>0\<close> to go back to the scheduler.\<close>

definition yield_await_suspend :: "nat \<Rightarrow> ('g, nat) com" where
  "yield_await_suspend t = kbind (get_promise t) (\<lambda>x.
    if co_status x = Co_Fail then coroutine_handle_fail t
    else if caller x \<noteq> 0 then kret (caller x)
    else kseq (if co_status x \<noteq> Co_Suspend then destroy_frame t else kret ()) (
      kret 0))"

definition task_await_suspend :: "nat \<Rightarrow> nat \<Rightarrow> (nat option \<Rightarrow> 'g body) \<Rightarrow> ('g, nat) com" where
  "task_await_suspend p h k = kbind (get_promise h) (\<lambda>hx.
    if p = 0 then kseq (set_status h Co_Fail) (
      coroutine_handle_fail h)
    else kbind (swap_promise p) (\<lambda>lastp.
      kseq (mod_promise h (co_frame_update (\<lambda>_. In_Await p lastp k))) (
      kseq (mod_promise p (\<lambda>x. x\<lparr>self_scheduler := (if self_scheduler x = 0 then self_scheduler hx else self_scheduler x),
        no_yield := (no_yield x \<or> no_yield hx), caller := h, co_status := Co_Running\<rparr>)) (
      kret p))))"

definition task_await_resume :: "nat \<Rightarrow> nat \<Rightarrow> ('g, nat option) com" where
  "task_await_resume p lastp = kbind (get_promise p) (\<lambda>x.
    if co_status x = Co_Fail then kret None
    else kseq (swap_promise lastp) (
      kseq (mod_promise p (co_result_update (\<lambda>_. None))) (
      kret (co_result x))))"

definition task_queue_push :: "nat \<Rightarrow> nat \<Rightarrow> ('g, unit) com" where
  "task_queue_push q p = kmod (\<lambda>s. s\<lparr>task_queues := (task_queues s)(q := task_queues s q @ [p])\<rparr>)"

text \<open>\<open>task_scheduler::__schedule\<close>; the scheduler \<open>sc\<close> is not null.\<close>

definition schedule_ref :: "nat \<Rightarrow> nat \<Rightarrow> ('g, unit) com" where
  "schedule_ref sc p = kseq (mod_promise p (self_scheduler_update (\<lambda>_. sc))) (
    kbind (kget (\<lambda>s. sched_queue s sc)) (\<lambda>q.
    task_queue_push q p))"

text \<open>The executor of a task: it takes the ownership of the promise and handles its failure.\<close>

definition task_executor :: "nat \<Rightarrow> 'g body" where
  "task_executor p = Set_Error_Handler p (Own_Task p (Await p (\<lambda>_. Return_Value 0)))"

definition schedule :: "nat \<Rightarrow> nat \<Rightarrow> ('g, unit) com" where
  "schedule sc h = (if h = 0 then kret ()
    else kbind (get_promise h) (\<lambda>x.
      kbind (if caller x = 0 then new_frame (task_executor h) else kret h) (\<lambda>e.
      schedule_ref sc e)))"

definition this_scheduler_await_suspend :: "nat \<Rightarrow> ('g, nat) com" where
  "this_scheduler_await_suspend h = kbind (get_promise h) (\<lambda>x.
    kbind (kget (\<lambda>s. s)) (\<lambda>s.
    if no_yield x then kret h
    else if self_scheduler x = 0 \<or> task_queues s (sched_queue s (self_scheduler x)) = [] then kret h
    else kseq (schedule (self_scheduler x) h) (
      kret 0)))"

definition task_wake_up :: "nat \<Rightarrow> ('g, unit) com" where
  "task_wake_up p = kbind (get_promise p) (\<lambda>x.
    if self_scheduler x \<noteq> 0 then schedule_ref (self_scheduler x) p else task_queue_push 0 p)"

section \<open>Running\<close>

text \<open>
  The code of coroutine \<open>h\<close> up to its next suspension point. At \<open>co_return\<close> the result is stored, the task objects of the
  frame end, then the coroutine is suspended for the last time.
\<close>

definition co_return :: "nat \<Rightarrow> nat option \<Rightarrow> ('g, nat) com" where
  "co_return h r = kseq (mod_promise h (\<lambda>x. x\<lparr>co_result := r, co_status := (if r = None then Co_Fail else Co_Done)\<rparr>)) (
    kbind (get_promise h) (\<lambda>x.
    kseq (destroy_all destroy_frame (co_tasks x)) (
    kseq (mod_promise h (\<lambda>x. x\<lparr>co_tasks := [], co_frame := Final\<rparr>)) (
    yield_await_suspend h))))"

primrec exec :: "'g body \<Rightarrow> nat \<Rightarrow> ('g, nat) com" where
  "exec (Return_Value v) h = co_return h (Some v)"
| "exec Return_Fail h = co_return h None"
| "exec (Yield_Value v b) h = kseq (mod_promise h (\<lambda>x. x\<lparr>co_result := Some v, co_status := Co_Suspend, co_frame := At b\<rparr>)) (
  yield_await_suspend h)"
| "exec (Act f k) h = kseq (kmod (shared_update f)) (
  kbind (kget shared) (\<lambda>g.
  exec (k g) h))"
| "exec (Call_Task b k) h = kbind (new_frame b) (\<lambda>p.
  kseq (if p = 0 then kret () else mod_promise h (co_tasks_update (\<lambda>ts. p # ts))) (
  exec (k p) h))"
| "exec (Own_Task p b) h = kseq (mod_promise h (co_tasks_update (\<lambda>ts. p # ts))) (
  exec b h)"
| "exec (Set_Error_Handler p b) h = kseq (mod_promise p (has_error_handler_update (\<lambda>_. True))) (
  exec b h)"
| "exec (Set_No_Yield p b) h = kseq (mod_promise p (no_yield_update (\<lambda>_. True))) (
  exec b h)"
| "exec (Await p k) h = task_await_suspend p h k"
| "exec (End_Task p b) h = kbind (get_promise h) (\<lambda>x.
  kseq (if p \<in> set (co_tasks x) then destroy_frame p else kret ()) (
  kseq (mod_promise h (co_tasks_update (remove1 p))) (
  exec b h)))"
| "exec (Await_Scheduler b) h = kseq (mod_promise h (co_frame_update (\<lambda>_. At b))) (
  this_scheduler_await_suspend h)"
| "exec (Await_Sleep n b) h = kseq (mod_promise h (co_frame_update (\<lambda>_. At b))) (
  kseq (kmod (sleep_calls_update (\<lambda>l. l @ [(n, h)]))) (
  kret 0))"

text \<open>Resuming a handle; a coroutine suspended at its end may not be resumed.\<close>

definition resume :: "nat \<Rightarrow> ('g, nat) com" where
  "resume h = kbind (get_promise h) (\<lambda>x.
    case co_frame x of
      At b \<Rightarrow> exec b h
    | In_Await p lastp k \<Rightarrow> kbind (task_await_resume p lastp) (\<lambda>v.
      exec (k v) h)
    | Final \<Rightarrow> kthrow Undefined)"

text \<open>Control goes from handle to handle until one of them goes back to the scheduler.\<close>

primrec transfer :: "nat \<Rightarrow> nat \<Rightarrow> ('g, unit) com" where
  "transfer 0 h = (if h = 0 then kret () else kthrow Out_Of_Fuel)"
| "transfer (Suc n) h = (if h = 0 then kret () else kbind (resume h) (\<lambda>h'.
  transfer n h'))"

definition task_resume :: "nat \<Rightarrow> nat \<Rightarrow> ('g, unit) com" where
  "task_resume n p = kseq (set_status p Co_Running) (
    transfer n p)"

definition try_pop :: "nat \<Rightarrow> ('g, nat) com" where
  "try_pop q = kbind (kget (\<lambda>s. task_queues s q)) (\<lambda>l.
    case l of [] \<Rightarrow> kret 0
    | p # ps \<Rightarrow> kseq (kmod (\<lambda>s. s\<lparr>task_queues := (task_queues s)(q := ps)\<rparr>)) (
      kret p))"

text \<open>\<open>task_scheduler::start\<close> with \<open>return_on_idle\<close>, the fuel counted in tasks popped.\<close>

primrec task_scheduler_start :: "nat \<Rightarrow> nat \<Rightarrow> nat \<Rightarrow> ('g, unit) com" where
  "task_scheduler_start 0 n q = kthrow Out_Of_Fuel"
| "task_scheduler_start (Suc m) n q = kbind (try_pop q) (\<lambda>t.
  if t = 0 then kret () else kseq (task_resume n t) (
    task_scheduler_start m n q))"

end
