(* ===== verification/Coroutine_Run.thy ===== *)
theory Coroutine_Run
  imports Coroutine
begin

text \<open>
  What coroutine code computes. Programs in direct style are translated to coroutines, and running the coroutine,
  with its suspensions, transfers of control and failures, gives the meaning of the program and leaves
  no frame behind.
\<close>

section \<open>Structured programs\<close>

text \<open>
  Coroutine code as it is normally written: a program returns a value or fails, acts on the shared state, awaits the
  call of another program, with or without handling its failure, or lets other tasks run. \<open>compile\<close> is the
  coroutine it stands for.
\<close>

datatype 'g prog =
    Ret nat
  | Abort
  | Do "'g \<Rightarrow> 'g" "'g \<Rightarrow> 'g prog"
  | Call "'g prog" bool "nat option \<Rightarrow> 'g prog"
  | Switch "'g prog"

primrec compile :: "'g prog \<Rightarrow> 'g body" where
  "compile (Ret v) = Return_Value v"
| "compile Abort = Return_Fail"
| "compile (Do f k) = Act f (\<lambda>g. compile (k g))"
| "compile (Call b handled k) = Call_Task (compile b) (\<lambda>p.
    if handled \<and> p \<noteq> 0 then Set_Error_Handler p (Await p (\<lambda>v. End_Task p (compile (k v))))
    else Await p (\<lambda>v. End_Task p (compile (k v))))"
| "compile (Switch b) = Await_Scheduler (compile b)"

text \<open>
  The meaning of a program in direct style, with \<open>m\<close> frames left: the value or the failure, and the shared state. A
  failure ends every program up to the call that handles it.
\<close>

primrec denote :: "'g prog \<Rightarrow> nat \<Rightarrow> 'g \<Rightarrow> nat option \<times> 'g" where
  "denote (Ret v) m g = (Some v, g)"
| "denote Abort m g = (None, g)"
| "denote (Do f k) m g = denote (k (f g)) m (f g)"
| "denote (Call b handled k) m g = (if m = 0 then (None, g)
    else case denote b (m - 1) g of
      (Some v, g') \<Rightarrow> denote (k (Some v)) m g'
    | (None, g') \<Rightarrow> if handled then denote (k None) m g' else (None, g'))"
| "denote (Switch b) m g = denote b m g"

primrec switch_free :: "'g prog \<Rightarrow> bool" where
  "switch_free (Ret v) = True"
| "switch_free Abort = True"
| "switch_free (Do f k) = (\<forall>g. switch_free (k g))"
| "switch_free (Call b handled k) = (switch_free b \<and> (\<forall>v. switch_free (k v)))"
| "switch_free (Switch b) = False"

section \<open>Running the operations\<close>

lemma get_promise_run: "get_promise p s = (if p \<noteq> 0 \<and> promises s p \<noteq> None then (Inr (the (promises s p)), s) else (Inl Undefined, s))"
  by (auto simp: get_promise_def)

lemma mod_promise_run: "mod_promise p f s = (if p \<noteq> 0 \<and> promises s p \<noteq> None
    then (Inr (), s\<lparr>promises := (promises s)(p \<mapsto> f (the (promises s p)))\<rparr>) else (Inl Undefined, s))"
  by (auto simp: mod_promise_def get_promise_run)

lemmas promise_run = get_promise_run mod_promise_run

inductive goes :: "nat \<Rightarrow> 'g world \<Rightarrow> nat \<Rightarrow> 'g world \<Rightarrow> bool" where
  stay: "goes h s h s"
| go: "h \<noteq> 0 \<Longrightarrow> resume h s = (Inr h1, s1) \<Longrightarrow> goes h1 s1 h' s' \<Longrightarrow> goes h s h' s'"

lemma goes_trans: "goes h s h1 s1 \<Longrightarrow> goes h1 s1 h2 s2 \<Longrightarrow> goes h s h2 s2"
  by (induction rule: goes.induct) (auto intro: goes.go)

lemma goes_transfer:
  assumes "goes h s h' s'"
  shows "h' = 0 \<Longrightarrow> \<exists>k. \<forall>n \<ge> k. transfer n h s = (Inr (), s')"
  using assms
proof (induction rule: goes.induct)
  case (stay h s)
  then have "transfer n h s = (Inr (), s)" for n by (cases n) simp_all
  then show ?case by blast
next
  case (go h s h1 s1 h' s')
  then obtain k where k: "\<forall>n \<ge> k. transfer n h1 s1 = (Inr (), s')" by blast
  have "transfer n h s = (Inr (), s')" if n: "n \<ge> Suc k" for n
  proof -
    obtain m where "n = Suc m" "m \<ge> k" using n by (cases n) auto
    then show ?thesis using k go.hyps(1,2) by simp
  qed
  then show ?case by blast
qed

section \<open>Frames owned along a chain\<close>

primrec chain :: "(nat \<Rightarrow> 'g promise option) \<Rightarrow> nat \<Rightarrow> nat list \<Rightarrow> bool" where
  "chain P h [] \<longleftrightarrow> (\<exists>x. P h = Some x \<and> co_status x \<noteq> Co_Init \<and> co_tasks x = [])"
| "chain P h (c # cs) \<longleftrightarrow> (\<exists>x. P h = Some x \<and> co_status x \<noteq> Co_Init \<and> co_tasks x = [c]) \<and> chain P c cs"

lemma chain_cong: "(\<And>p. p \<in> set (h # cs) \<Longrightarrow> P p = Q p) \<Longrightarrow> chain P h cs = chain Q h cs"
  by (induction cs arbitrary: h) auto

definition without :: "nat set \<Rightarrow> (nat \<Rightarrow> 'a option) \<Rightarrow> nat \<Rightarrow> 'a option" where
  "without A P = (\<lambda>p. if p \<in> A then None else P p)"

lemma destroy_chain:
  assumes "chain (promises s) h cs" and "distinct (h # cs)" and "0 \<notin> set (h # cs)" and "length cs < n"
  shows "destroy_coroutine n h s = (Inr (), s\<lparr>promises := without (set (h # cs)) (promises s), frames_left := frames_left s + length (h # cs)\<rparr>)"
  using assms
proof (induction cs arbitrary: h n)
  case Nil
  then obtain m x where "n = Suc m" "promises s h = Some x" "co_status x \<noteq> Co_Init" "co_tasks x = []" by (cases n) auto
  moreover have "(promises s)(h := None) = without {h} (promises s)" by (auto simp: without_def)
  ultimately show ?case using Nil.prems by (simp add: get_promise_run)
next
  case (Cons c cs)
  then obtain m x where x: "n = Suc m" "promises s h = Some x" "co_status x \<noteq> Co_Init" "co_tasks x = [c]" by (cases n) auto
  have "destroy_coroutine m c s = (Inr (), s\<lparr>promises := without (set (c # cs)) (promises s), frames_left := frames_left s + length (c # cs)\<rparr>)"
    using Cons.prems x(1) by (intro Cons.IH) auto
  moreover have "(without (set (c # cs)) (promises s))(h := None) = without (set (h # c # cs)) (promises s)"
    by (auto simp: without_def)
  ultimately show ?case using Cons.prems x by (simp add: get_promise_run)
qed

section \<open>The nearest error handler\<close>

primrec find_handler :: "nat \<Rightarrow> (nat \<Rightarrow> 'g promise option) \<Rightarrow> nat \<Rightarrow> nat option" where
  "find_handler 0 P h = None"
| "find_handler (Suc d) P h = (if h = 0 then None else case P h of
      None \<Rightarrow> None
    | Some x \<Rightarrow> if caller x = 0 then None else if has_error_handler x then Some h else find_handler d P (caller x))"

definition same_links :: "(nat \<Rightarrow> 'g promise option) \<Rightarrow> (nat \<Rightarrow> 'g promise option) \<Rightarrow> bool" where
  "same_links P Q \<longleftrightarrow> (\<forall>p x. P p = Some x \<longrightarrow> (\<exists>y. Q p = Some y \<and> caller y = caller x \<and> has_error_handler y = has_error_handler x))"

lemma find_handler_links: "same_links P Q \<Longrightarrow> find_handler d P h = Some q \<Longrightarrow> find_handler d Q h = Some q"
proof (induction d arbitrary: h)
  case (Suc d)
  then obtain x where x: "h \<noteq> 0" "P h = Some x" "caller x \<noteq> 0"
    by (auto split: if_splits option.splits)
  then obtain y where "Q h = Some y" "caller y = caller x" "has_error_handler y = has_error_handler x"
    using Suc.prems(1) by (auto simp: same_links_def)
  then show ?case using Suc x by (auto split: if_splits)
qed simp

lemma find_handlerD:
  assumes "find_handler d P h = Some q"
  obtains y where "q \<noteq> 0" and "P q = Some y" and "caller y \<noteq> 0" and "has_error_handler y"
  using assms by (induction d arbitrary: h) (auto split: if_splits option.splits)

lemma fail_loop_run:
  assumes "find_handler d (promises s) h = Some q" and "d \<le> n" and "promises s q = Some y"
  shows "fail_loop n h s = (Inr (caller y), s\<lparr>promises := (promises s)(q \<mapsto> y\<lparr>co_status := Co_Fail\<rparr>)\<rparr>)"
  using assms
proof (induction d arbitrary: h n)
  case (Suc d)
  then obtain m x where n: "n = Suc m" "d \<le> m" and x: "h \<noteq> 0" "promises s h = Some x" "caller x \<noteq> 0"
    by (cases n) (auto split: if_splits option.splits)
  show ?case
  proof (cases "has_error_handler x")
    case True
    then have "q = h" using Suc.prems(1) x by simp
    then show ?thesis using True x Suc.prems(3) n by (simp add: promise_run set_status_def fun_upd_def)
  next
    case False
    then show ?thesis using Suc x n by (simp add: promise_run)
  qed
qed simp

section \<open>What an execution leaves\<close>

definition same_rest :: "'g world \<Rightarrow> 'g world \<Rightarrow> bool" where
  "same_rest s s' \<longleftrightarrow> sched_queue s' = sched_queue s \<and> task_queues s' = task_queues s \<and> sleep_calls s' = sleep_calls s
    \<and> next_frame s \<le> next_frame s'"

text \<open>
  The coroutine \<open>h\<close> ended with a value: its promise holds it, everything else is as before. It failed: its frame owns the
  frames \<open>cs\<close> made in between, and the promise \<open>q\<close> with the nearest handler is marked.
\<close>

definition ok_post :: "nat \<Rightarrow> 'g promise \<Rightarrow> nat \<Rightarrow> 'g \<Rightarrow> 'g world \<Rightarrow> 'g world \<Rightarrow> bool" where
  "ok_post h x v g s s' \<longleftrightarrow> same_rest s s' \<and> frames_left s' = frames_left s \<and> shared s' = g
    \<and> promises s' = (promises s)(h \<mapsto> x\<lparr>co_status := Co_Done, co_result := Some v, co_frame := Final\<rparr>)"

definition fail_post :: "nat \<Rightarrow> nat \<Rightarrow> nat list \<Rightarrow> 'g \<Rightarrow> 'g world \<Rightarrow> 'g world \<Rightarrow> bool" where
  "fail_post h q cs g s s' \<longleftrightarrow> same_rest s s' \<and> frames_left s' + length cs = frames_left s \<and> shared s' = g
    \<and> distinct cs \<and> set cs \<subseteq> {next_frame s..<next_frame s'} \<and> chain (promises s') h cs
    \<and> (\<forall>p. p \<noteq> h \<and> p \<notin> set cs \<and> p \<noteq> q \<longrightarrow> promises s' p = promises s p)
    \<and> (\<exists>y. promises s' q = Some y \<and> co_status y = Co_Fail
      \<and> (q \<noteq> h \<longrightarrow> (\<exists>z. promises s q = Some z \<and> y = z\<lparr>co_status := Co_Fail\<rparr>)))"

definition reaches :: "'g body \<Rightarrow> nat \<Rightarrow> 'g world \<Rightarrow> nat \<Rightarrow> 'g world \<Rightarrow> bool" where
  "reaches b h s h' s' \<longleftrightarrow> (\<exists>h1 s1. exec b h s = (Inr h1, s1) \<and> goes h1 s1 h' s')"

definition runs :: "'g prog \<Rightarrow> nat \<Rightarrow> 'g promise \<Rightarrow> nat \<Rightarrow> 'g world \<Rightarrow> bool" where
  "runs b h x q s \<longleftrightarrow> (case denote b (frames_left s) (shared s) of
      (Some v, g) \<Rightarrow> \<exists>s'. reaches (compile b) h s (caller x) s' \<and> ok_post h x v g s s'
    | (None, g) \<Rightarrow> \<exists>s' cs y. reaches (compile b) h s (caller y) s' \<and> promises s q = Some y \<and> fail_post h q cs g s s')"

definition ready_to_run :: "nat \<Rightarrow> 'g promise \<Rightarrow> nat \<Rightarrow> nat \<Rightarrow> 'g world \<Rightarrow> bool" where
  "ready_to_run h x q d s \<longleftrightarrow> h \<noteq> 0 \<and> promises s h = Some x \<and> co_status x = Co_Running \<and> co_tasks x = []
    \<and> h < next_frame s \<and> (\<forall>p \<ge> next_frame s. promises s p = None)
    \<and> find_handler d (promises s) h = Some q \<and> d \<le> next_frame s"

definition quiet :: "'g prog \<Rightarrow> 'g world \<Rightarrow> bool" where
  "quiet b s \<longleftrightarrow> switch_free b \<or> (\<forall>q. task_queues s q = [])"

text \<open>The step from a state in which only the frame of \<open>h\<close>, the shared state and the counters differ.\<close>

definition moved :: "nat \<Rightarrow> 'g promise \<Rightarrow> 'g frame \<Rightarrow> 'g world \<Rightarrow> 'g world \<Rightarrow> bool" where
  "moved h x f s s1 \<longleftrightarrow> same_rest s s1 \<and> frames_left s1 = frames_left s
    \<and> promises s1 = (promises s)(h \<mapsto> x\<lparr>co_frame := f\<rparr>)"

lemma moved_ready:
  assumes "ready_to_run h x q d s" and "moved h x f s s1"
  shows "ready_to_run h (x\<lparr>co_frame := f\<rparr>) q d s1"
proof -
  have "same_links (promises s) (promises s1)" using assms by (auto simp: moved_def same_links_def ready_to_run_def)
  then have "find_handler d (promises s1) h = Some q" using assms(1) find_handler_links by (auto simp: ready_to_run_def)
  then show ?thesis using assms by (auto simp: moved_def ready_to_run_def same_rest_def)
qed

lemma moved_fail:
  assumes rdy: "ready_to_run h x q d s" and mv: "moved h x f s s1" and post: "fail_post h q cs g s1 s'"
  shows "fail_post h q cs g s s'"
proof -
  have "same_rest s s'" using mv post by (auto simp: moved_def fail_post_def same_rest_def)
  moreover have "set cs \<subseteq> {next_frame s..<next_frame s'}" using mv post by (fastforce simp: moved_def fail_post_def same_rest_def)
  moreover have "\<forall>p. p \<noteq> h \<and> p \<notin> set cs \<and> p \<noteq> q \<longrightarrow> promises s' p = promises s p"
    using mv post by (simp add: moved_def fail_post_def)
  moreover have "q \<noteq> h \<Longrightarrow> promises s1 q = promises s q" using mv by (simp add: moved_def)
  ultimately show ?thesis using mv post by (auto simp: moved_def fail_post_def)
qed

lemma moved_runs:
  assumes rdy: "ready_to_run h x q d s" and mv: "moved h x f s s1"
    and same: "\<And>h' s'. reaches (compile b') h s1 h' s' \<Longrightarrow> reaches (compile b) h s h' s'"
    and den: "denote b (frames_left s) (shared s) = denote b' (frames_left s1) (shared s1)"
    and run: "runs b' h (x\<lparr>co_frame := f\<rparr>) q s1"
  shows "runs b h x q s"
proof (cases "denote b (frames_left s) (shared s)")
  case (Pair r g)
  show ?thesis
  proof (cases r)
    case (Some v)
    then obtain s' where s': "reaches (compile b') h s1 (caller x) s'" "ok_post h (x\<lparr>co_frame := f\<rparr>) v g s1 s'"
      using run Pair den by (auto simp: runs_def)
    have "ok_post h x v g s s'" using s'(2) mv by (auto simp: ok_post_def moved_def same_rest_def)
    then show ?thesis using same [OF s'(1)] Pair Some by (auto simp: runs_def)
  next
    case None
    then obtain s' cs y where s': "reaches (compile b') h s1 (caller y) s'" "promises s1 q = Some y" "fail_post h q cs g s1 s'"
      using run Pair den by (auto simp: runs_def)
    obtain z where "promises s q = Some z" "caller z = caller y"
      using s'(2) mv rdy by (cases "q = h") (auto simp: moved_def ready_to_run_def)
    then show ?thesis using same [OF s'(1)] moved_fail [OF rdy mv s'(3)] Pair None by (auto simp: runs_def; metis)
  qed
qed

lemma quiet_parts:
  "quiet (Do f k) s \<Longrightarrow> quiet (k g) s"
  "quiet (Call b handled c) s \<Longrightarrow> quiet b s"
  "quiet (Call b handled c) s \<Longrightarrow> quiet (c v) s"
  "quiet (Switch b) s \<Longrightarrow> quiet b s \<and> task_queues s q = []"
  by (auto simp: quiet_def)

lemma quiet_rest: "same_rest s s' \<Longrightarrow> quiet b s' = quiet b s"
  by (simp add: quiet_def same_rest_def)

section \<open>Each construct\<close>

lemma runs_return:
  assumes "ready_to_run h x q d s"
  shows "runs (Ret v) h x q s"
proof -
  define y where "y = x\<lparr>co_result := Some v, co_status := Co_Done, co_tasks := [], co_frame := Final\<rparr>"
  have "caller x \<noteq> 0" using assms by (cases d) (auto simp: ready_to_run_def split: if_splits)
  then have "exec (compile (Ret v)) h s = (Inr (caller x), s\<lparr>promises := (promises s)(h \<mapsto> y)\<rparr>)"
    using assms by (simp add: ready_to_run_def co_return_def promise_run yield_await_suspend_def y_def)
  then have "reaches (compile (Ret v)) h s (caller x) (s\<lparr>promises := (promises s)(h \<mapsto> y)\<rparr>)"
    by (auto simp: reaches_def intro: goes.stay)
  moreover have "y = x\<lparr>co_status := Co_Done, co_result := Some v, co_frame := Final\<rparr>"
    using assms by (cases x) (simp add: ready_to_run_def y_def)
  ultimately show ?thesis by (auto simp: runs_def ok_post_def same_rest_def)
qed

lemma find_handler_same: "find_handler d P h = Some q \<Longrightarrow> P h = Some x \<Longrightarrow> caller y = caller x \<Longrightarrow>
    has_error_handler y = has_error_handler x \<Longrightarrow> find_handler d (P(h \<mapsto> y)) h = Some q"
  by (rule find_handler_links [of P]) (auto simp: same_links_def)

lemma runs_fail_here:
  assumes rdy: "ready_to_run h x q d s" and y: "caller y = caller x" "has_error_handler y = has_error_handler x" "co_tasks y = []" "co_status y = Co_Fail"
    and reach: "\<And>h' s'. coroutine_handle_fail h (s\<lparr>promises := (promises s)(h \<mapsto> y)\<rparr>) = (Inr h', s') \<Longrightarrow> reaches (compile b) h s h' s'"
    and den: "denote b (frames_left s) (shared s) = (None, shared s)"
  shows "runs b h x q s"
proof -
  let ?s = "s\<lparr>promises := (promises s)(h \<mapsto> y)\<rparr>"
  have h: "h \<noteq> 0" "promises s h = Some x" "d \<le> next_frame s" using rdy by (simp_all add: ready_to_run_def)
  have find: "find_handler d (promises ?s) h = Some q" using rdy y by (simp add: ready_to_run_def find_handler_same)
  then obtain z where z: "promises ?s q = Some z" by (rule find_handlerD)
  have run: "coroutine_handle_fail h ?s = (Inr (caller z), ?s\<lparr>promises := (promises ?s)(q \<mapsto> z\<lparr>co_status := Co_Fail\<rparr>)\<rparr>)"
    using fail_loop_run [OF find, of "next_frame s" z] h(3) z by (simp add: coroutine_handle_fail_def)
  obtain w where w: "promises s q = Some w" "caller w = caller z" "q \<noteq> h \<Longrightarrow> w = z" "q = h \<Longrightarrow> z = y"
    using z h y by (cases "q = h") auto
  have "fail_post h q [] (shared s) s (?s\<lparr>promises := (promises ?s)(q \<mapsto> z\<lparr>co_status := Co_Fail\<rparr>)\<rparr>)"
    using w y by (cases "q = h") (auto simp: fail_post_def same_rest_def)
  then show ?thesis using reach [OF run] den w by (auto simp: runs_def)
qed

lemma runs_abort:
  assumes "ready_to_run h x q d s"
  shows "runs Abort h x q s"
proof (rule runs_fail_here [OF assms, where y = "x\<lparr>co_result := None, co_status := Co_Fail, co_tasks := [], co_frame := Final\<rparr>"])
  fix h' s' assume "coroutine_handle_fail h (s\<lparr>promises := (promises s)(h \<mapsto> x\<lparr>co_result := None, co_status := Co_Fail, co_tasks := [], co_frame := Final\<rparr>)\<rparr>) = (Inr h', s')"
  then show "reaches (compile Abort) h s h' s'"
    using assms by (auto simp: reaches_def ready_to_run_def co_return_def promise_run yield_await_suspend_def intro: goes.stay)
qed simp_all

lemma runs_do:
  assumes rdy: "ready_to_run h x q d s" and run: "\<And>g y s1. ready_to_run h y q d s1 \<Longrightarrow> same_rest s s1 \<Longrightarrow> runs (k g) h y q s1"
  shows "runs (Do f k) h x q s"
proof -
  let ?s = "s\<lparr>shared := f (shared s)\<rparr>"
  have upd: "shared_update f s = ?s" by (cases s) simp
  have mv: "moved h x (co_frame x) s ?s"
    using rdy by (auto simp: moved_def same_rest_def ready_to_run_def)
  show ?thesis
  proof (rule moved_runs [OF rdy mv, where b' = "k (f (shared s))"])
    show "runs (k (f (shared s))) h (x\<lparr>co_frame := co_frame x\<rparr>) q ?s"
      using mv by (intro run moved_ready [OF rdy mv]) (simp add: moved_def)
  qed (simp_all add: reaches_def upd)
qed

lemma runs_switch:
  assumes rdy: "ready_to_run h x q d s" and run: "\<And>y s1. ready_to_run h y q d s1 \<Longrightarrow> same_rest s s1 \<Longrightarrow> runs b h y q s1"
    and free: "\<And>r. task_queues s r = []"
  shows "runs (Switch b) h x q s"
proof -
  let ?s = "s\<lparr>promises := (promises s)(h \<mapsto> x\<lparr>co_frame := At (compile b)\<rparr>)\<rparr>"
  have h: "h \<noteq> 0" "promises s h = Some x" using rdy by (simp_all add: ready_to_run_def)
  have mv: "moved h x (At (compile b)) s ?s" by (simp add: moved_def same_rest_def)
  have first: "exec (compile (Switch b)) h s = (Inr h, ?s)"
    using h free by (simp add: promise_run this_scheduler_await_suspend_def)
  have "resume h ?s = exec (compile b) h ?s" using h by (simp add: resume_def promise_run)
  then have "reaches (compile (Switch b)) h s h' s'" if "reaches (compile b) h ?s h' s'" for h' s'
    using that first h(1) by (auto simp: reaches_def intro: goes.go)
  moreover have "runs b h (x\<lparr>co_frame := At (compile b)\<rparr>) q ?s"
    using mv by (intro run moved_ready [OF rdy mv]) (simp add: moved_def)
  ultimately show ?thesis by (intro moved_runs [OF rdy mv, where b' = b]) simp_all
qed

lemma runs_call_no_frame:
  assumes rdy: "ready_to_run h x q d s" and "frames_left s = 0"
  shows "runs (Call b handled k) h x q s"
proof (rule runs_fail_here [OF rdy, where y = "x\<lparr>co_status := Co_Fail\<rparr>"])
  fix h' s' assume "coroutine_handle_fail h (s\<lparr>promises := (promises s)(h \<mapsto> x\<lparr>co_status := Co_Fail\<rparr>)\<rparr>) = (Inr h', s')"
  then show "reaches (compile (Call b handled k)) h s h' s'"
    using assms by (auto simp: reaches_def ready_to_run_def new_frame_def promise_run task_await_suspend_def set_status_def intro: goes.stay)
qed (use assms in \<open>simp_all add: ready_to_run_def\<close>)

text \<open>The callee, and the state in which it starts to run.\<close>

definition callee :: "'g prog \<Rightarrow> bool \<Rightarrow> nat \<Rightarrow> 'g promise \<Rightarrow> 'g promise" where
  "callee b handled h x = (new_promise (compile b))\<lparr>self_scheduler := self_scheduler x, has_error_handler := handled,
    no_yield := no_yield x, caller := h, co_status := Co_Running\<rparr>"

definition awaiting :: "(nat option \<Rightarrow> 'g prog) \<Rightarrow> nat \<Rightarrow> nat \<Rightarrow> 'g frame" where
  "awaiting k p lastp = In_Await p lastp (\<lambda>v. End_Task p (compile (k v)))"

definition called :: "'g prog \<Rightarrow> bool \<Rightarrow> (nat option \<Rightarrow> 'g prog) \<Rightarrow> nat \<Rightarrow> 'g promise \<Rightarrow> 'g world \<Rightarrow> 'g world" where
  "called b handled k h x s = s\<lparr>promises := (promises s)(next_frame s \<mapsto> callee b handled h x,
      h \<mapsto> x\<lparr>co_tasks := [next_frame s], co_frame := awaiting k (next_frame s) (current_promise s)\<rparr>),
    next_frame := Suc (next_frame s), frames_left := frames_left s - 1, current_promise := next_frame s\<rparr>"

lemma call_starts:
  assumes "ready_to_run h x q d s" and "frames_left s \<noteq> 0"
  shows "exec (compile (Call b handled k)) h s = (Inr (next_frame s), called b handled k h x s)"
proof -
  have h: "h \<noteq> 0" "h < next_frame s" "promises s h = Some x" "co_tasks x = []" using assms(1) by (simp_all add: ready_to_run_def)
  then have "next_frame s \<noteq> 0" "next_frame s \<noteq> h" "h \<noteq> next_frame s" by auto
  note ne = this
  have upd: "co_tasks_update ((#) p) x = x\<lparr>co_tasks := [p]\<rparr>" for p using h(4) by (cases x) simp
  show ?thesis
    using ne h assms(2)
    by (simp add: upd new_frame_def promise_run task_await_suspend_def swap_promise_def called_def callee_def awaiting_def
        new_promise_def fun_upd_twist)
qed

lemma call_ready:
  assumes rdy: "ready_to_run h x q d s" and "frames_left s \<noteq> 0"
  shows "ready_to_run (next_frame s) (callee b handled h x) (if handled then next_frame s else q) (Suc d) (called b handled k h x s)"
proof -
  let ?s = "called b handled k h x s"
  have h: "h \<noteq> 0" "h < next_frame s" "promises s h = Some x" using rdy by (simp_all add: ready_to_run_def)
  have "same_links (promises s) (promises ?s)"
    using rdy by (auto simp: same_links_def called_def ready_to_run_def)
  then have "find_handler d (promises ?s) h = Some q" using rdy find_handler_links by (auto simp: ready_to_run_def)
  then show ?thesis using rdy h by (auto simp: ready_to_run_def called_def callee_def new_promise_def)
qed

text \<open>The caller goes on: it takes the result, and the end of the task object destroys the frames the callee left.\<close>

lemma call_returns:
  assumes rdy: "ready_to_run h x q d s" and rest: "same_rest (called b handled k h x s) s1"
    and ch: "chain (promises s1) p cs" "distinct cs" "set cs \<subseteq> {Suc p..<next_frame s1}"
    and p: "p = next_frame s" "promises s1 p = Some z"
    and hx: "promises s1 h = Some (x\<lparr>co_tasks := [p], co_frame := awaiting k p lp\<rparr>)"
    and others: "\<And>r. r \<noteq> h \<Longrightarrow> r \<noteq> p \<Longrightarrow> r \<notin> set cs \<Longrightarrow> promises s1 r = promises s r"
    and left: "frames_left s1 + length cs + 1 = frames_left s"
    and v: "v = (if co_status z = Co_Fail then None else co_result z)"
  obtains s2 where "resume h s1 = exec (compile (k v)) h s2" and "moved h x (awaiting k p lp) s s2" and "shared s2 = shared s1"
proof -
  have h: "h \<noteq> 0" "h < p" "co_tasks x = []" and p0: "p \<noteq> 0" using rdy p by (auto simp: ready_to_run_def)
  define z' where "z' = (if co_status z = Co_Fail then z else z\<lparr>co_result := None\<rparr>)"
  define s1' where "s1' = (if co_status z = Co_Fail then s1 else s1\<lparr>current_promise := lp, promises := (promises s1)(p \<mapsto> z')\<rparr>)"
  have res: "task_await_resume p lp s1 = (Inr v, s1')"
    using p p0 v by (simp add: task_await_resume_def promise_run swap_promise_def s1'_def z'_def)
  have same: "promises s1' = (promises s1)(p \<mapsto> z')" "frames_left s1' = frames_left s1" "next_frame s1' = next_frame s1"
    "shared s1' = shared s1" "same_rest s1 s1'"
    using p by (auto simp: s1'_def z'_def same_rest_def fun_upd_idem)
  have "chain (promises s1') p cs"
  proof (cases cs)
    case Nil
    then show ?thesis using ch(1) p by (auto simp: same(1) z'_def)
  next
    case (Cons c cs')
    have "chain (promises s1') c cs' = chain (promises s1) c cs'"
      by (rule chain_cong) (use ch(3) Cons in \<open>auto simp: same(1)\<close>)
    then show ?thesis using ch(1) p Cons by (auto simp: same(1) z'_def)
  qed
  moreover have "length cs < next_frame s1'"
  proof -
    have "length cs \<le> card {Suc p..<next_frame s1}" using ch(2,3) by (metis card_mono distinct_card finite_atLeastLessThan)
    moreover have "Suc p \<le> next_frame s1" using rest p by (simp add: same_rest_def called_def)
    ultimately show ?thesis unfolding same(3) by simp
  qed
  moreover have "distinct (p # cs)" "0 \<notin> set (p # cs)" using ch(2,3) p0 by auto
  ultimately have "destroy_coroutine (next_frame s1') p s1'
      = (Inr (), s1'\<lparr>promises := without (set (p # cs)) (promises s1'), frames_left := frames_left s1' + length (p # cs)\<rparr>)"
    by (intro destroy_chain) simp_all
  then have destroy_coroutine: "destroy_frame p s1'
      = (Inr (), s1'\<lparr>promises := without (set (p # cs)) (promises s1'), frames_left := frames_left s1' + length (p # cs)\<rparr>)"
    by (simp add: destroy_frame_def)
  define s2 where "s2 = s1'\<lparr>frames_left := frames_left s1' + length (p # cs),
    promises := (without (set (p # cs)) (promises s1'))(h \<mapsto> x\<lparr>co_frame := awaiting k p lp\<rparr>)\<rparr>"
  have hin: "h \<notin> set (p # cs)" using h ch(3) by auto
  have hx': "promises s1' h = Some (x\<lparr>co_tasks := [p], co_frame := awaiting k p lp\<rparr>)" using hx h by (simp add: same(1))
  have upd: "co_tasks_update (remove1 p \<circ> (\<lambda>_. [p])) (x\<lparr>co_frame := f\<rparr>) = x\<lparr>co_frame := f\<rparr>" for f
    using h(3) by (cases x) simp
  have "resume h s1 = exec (compile (k v)) h s2"
    using hx hx' h(1) res destroy_coroutine hin
    by (simp add: resume_def awaiting_def promise_run s2_def without_def upd)
  moreover have "moved h x (awaiting k p lp) s s2"
  proof -
    have fresh: "promises s r = None" if "r \<in> set (p # cs)" for r
      using that rdy p ch(3) by (auto simp: ready_to_run_def)
    have "promises s2 = (promises s)(h \<mapsto> x\<lparr>co_frame := awaiting k p lp\<rparr>)"
      using others fresh by (auto simp: s2_def without_def same(1) fun_eq_iff)
    then show ?thesis using rest same left by (auto simp: moved_def s2_def same_rest_def called_def)
  qed
  moreover have "shared s2 = shared s1" by (simp add: s2_def same(4))
  ultimately show thesis by (rule that)
qed

lemma reaches_callee:
  assumes rdy: "ready_to_run h x q d s" and "frames_left s \<noteq> 0"
    and "reaches (compile b) (next_frame s) (called b handled k h x s) h' s'"
  shows "reaches (compile (Call b handled k)) h s h' s'"
proof -
  let ?p = "next_frame s" and ?s = "called b handled k h x s"
  have p: "?p \<noteq> 0" "h \<noteq> ?p" using rdy by (auto simp: ready_to_run_def)
  then have "resume ?p ?s = exec (compile b) ?p ?s"
    by (simp add: resume_def promise_run called_def callee_def new_promise_def)
  then have "goes ?p ?s h' s'" using assms(3) p(1) by (auto simp: reaches_def intro: goes.go)
  then show ?thesis using call_starts [OF assms(1,2)] by (auto simp: reaches_def)
qed

lemma runs_after_call:
  assumes rdy: "ready_to_run h x q d s" and "frames_left s \<noteq> 0"
    and run: "\<And>y s1. ready_to_run h y q d s1 \<Longrightarrow> same_rest s s1 \<Longrightarrow> runs (k v) h y q s1"
    and reach: "reaches (compile b) (next_frame s) (called b handled k h x s) h s1"
    and bk: "resume h s1 = exec (compile (k v)) h s2" and mv: "moved h x f s s2" and "shared s2 = g"
    and den: "denote (Call b handled k) (frames_left s) (shared s) = denote (k v) (frames_left s) g"
  shows "runs (Call b handled k) h x q s"
proof (rule moved_runs [OF rdy mv, where b' = "k v"])
  fix h' s' assume r: "reaches (compile (k v)) h s2 h' s'"
  have "h \<noteq> 0" using rdy by (simp add: ready_to_run_def)
  then have "goes h s1 h' s'" using r bk by (auto simp: reaches_def intro: goes.go)
  then show "reaches (compile (Call b handled k)) h s h' s'"
    using reaches_callee [OF rdy assms(2) reach] by (auto simp: reaches_def intro: goes_trans)
next
  show "runs (k v) h (x\<lparr>co_frame := f\<rparr>) q s2"
    using mv by (intro run moved_ready [OF rdy mv]) (simp add: moved_def)
qed (use den mv assms(7) in \<open>simp add: moved_def\<close>)

lemma callee_simps [simp]: "caller (callee b handled h x) = h" "co_tasks (callee b handled h x) = []"
  by (simp_all add: callee_def new_promise_def)

lemma runs_call:
  assumes rdy: "ready_to_run h x q d s" and left: "frames_left s \<noteq> 0"
    and callee: "runs b (next_frame s) (callee b handled h x) (if handled then next_frame s else q) (called b handled k h x s)"
    and run: "\<And>v y s1. ready_to_run h y q d s1 \<Longrightarrow> same_rest s s1 \<Longrightarrow> runs (k v) h y q s1"
  shows "runs (Call b handled k) h x q s"
proof -
  let ?p = "next_frame s" and ?s = "called b handled k h x s"
  have h: "h \<noteq> 0" "h < ?p" "promises s h = Some x" "h \<noteq> ?p" using rdy by (auto simp: ready_to_run_def)
  have fresh: "promises s ?p = None" using rdy by (simp add: ready_to_run_def)
  have st: "frames_left ?s = frames_left s - 1" "shared ?s = shared s" "next_frame ?s = Suc ?p"
    "promises ?s h = Some (x\<lparr>co_tasks := [?p], co_frame := awaiting k ?p (current_promise s)\<rparr>)"
    "\<And>r. r \<noteq> h \<Longrightarrow> r \<noteq> ?p \<Longrightarrow> promises ?s r = promises s r"
    "promises ?s ?p = Some (callee b handled h x)"
    using h by (simp_all add: called_def)
  obtain r g where den: "denote b (frames_left s - 1) (shared s) = (r, g)" by (cases "denote b (frames_left s - 1) (shared s)")
  show ?thesis
  proof (cases r)
    case (Some v)
    then obtain s1 where s1: "reaches (compile b) ?p ?s h s1" "ok_post ?p (callee b handled h x) v g ?s s1"
      using callee den st by (auto simp: runs_def)
    let ?z = "(callee b handled h x)\<lparr>co_status := Co_Done, co_result := Some v, co_frame := Final\<rparr>"
    have P1: "promises s1 = (promises ?s)(?p \<mapsto> ?z)" "same_rest ?s s1" "frames_left s1 = frames_left ?s" "shared s1 = g"
      using s1(2) by (simp_all add: ok_post_def)
    obtain s2 where "resume h s1 = exec (compile (k (Some v))) h s2" "moved h x (awaiting k ?p (current_promise s)) s s2" "shared s2 = shared s1"
      by (rule call_returns [OF rdy P1(2), where p = ?p and cs = "[]" and z = ?z and v = "Some v" and lp = "current_promise s"])
        (use h st P1 left in simp_all)
    then show ?thesis
      using P1(4) den Some left by (intro runs_after_call [OF rdy left run s1(1)]) simp_all
  next
    case None
    let ?q = "if handled then ?p else q"
    obtain s1 cs y where s1: "reaches (compile b) ?p ?s (caller y) s1" "promises ?s ?q = Some y" "fail_post ?p ?q cs g ?s s1"
      using callee den None st by (auto simp: runs_def)
    note post = s1(3) [unfolded fail_post_def st]
    have hcs: "h \<notin> set cs" "?p \<notin> set cs" using post h by auto
    show ?thesis
    proof (cases handled)
      case True
      obtain z where z: "promises s1 ?p = Some z" "co_status z = Co_Fail" using post True by auto
      have P1: "promises s1 r = promises ?s r" if "r \<noteq> ?p" "r \<notin> set cs" for r using post True that by simp
      obtain s2 where "resume h s1 = exec (compile (k None)) h s2" "moved h x (awaiting k ?p (current_promise s)) s s2" "shared s2 = shared s1"
        by (rule call_returns [OF rdy, where p = ?p and cs = cs and z = z and v = None and lp = "current_promise s" and ?s1.0 = s1])
          (use h st P1 post left z hcs in \<open>auto\<close>)
      moreover have "reaches (compile b) ?p ?s h s1" using s1(1,2) True st(6) by simp
      ultimately show ?thesis
        using den None True left post by (intro runs_after_call [OF rdy left run, where v = None]) auto
    next
      case False
      obtain w where w: "promises s q = Some w" using rdy by (auto simp: ready_to_run_def elim: find_handlerD)
      then have qp: "q \<noteq> ?p" using fresh by auto
      have q: "promises s1 q = Some (y\<lparr>co_status := Co_Fail\<rparr>)" "promises ?s q = Some y" "caller y = caller w"
        using post s1(2) False qp w st h by (cases "q = h"; auto)+
      have hs: "\<exists>y. promises s1 h = Some y \<and> co_status y \<noteq> Co_Init \<and> co_tasks y = [?p]"
      proof (cases "q = h")
        case True
        then show ?thesis using q(1,2) st(4) by auto
      next
        case qh: False
        then have "promises s1 h = promises ?s h" using post False h(4) hcs by auto
        then show ?thesis using st(4) rdy by (simp add: ready_to_run_def)
      qed
      have "fail_post h q (?p # cs) g s s1"
        unfolding fail_post_def
      proof (intro conjI)
        show "same_rest s s1" "set (?p # cs) \<subseteq> {?p..<next_frame s1}" using post by (auto simp: same_rest_def called_def)
        show "chain (promises s1) h (?p # cs)" using hs post by simp
        show "\<forall>r. r \<noteq> h \<and> r \<notin> set (?p # cs) \<and> r \<noteq> q \<longrightarrow> promises s1 r = promises s r"
          using post st(5) False by auto
        show "\<exists>y. promises s1 q = Some y \<and> co_status y = Co_Fail
            \<and> (q \<noteq> h \<longrightarrow> (\<exists>z. promises s q = Some z \<and> y = z\<lparr>co_status := Co_Fail\<rparr>))"
          using q st(5) qp by auto
      qed (use post left hcs in auto)
      moreover have "denote (Call b handled k) (frames_left s) (shared s) = (None, g)" using den None False left by simp
      ultimately show ?thesis
        using reaches_callee [OF rdy left s1(1)] w q(3) by (auto simp: runs_def simp del: denote.simps compile.simps)
    qed
  qed
qed

lemma runs_prog:
  assumes "ready_to_run h x q d s" and "quiet b s"
  shows "runs b h x q s"
  using assms
proof (induction b arbitrary: h x q d s)
  case (Ret v)
  then show ?case by (intro runs_return)
next
  case Abort
  then show ?case by (intro runs_abort)
next
  case (Do f k)
  show ?case
  proof (rule runs_do [OF Do.prems(1)])
    fix g y s1 assume y: "ready_to_run h y q d s1" and "same_rest s s1"
    then have "quiet (k g) s1" using quiet_parts(1) [OF Do.prems(2)] quiet_rest by blast
    with y show "runs (k g) h y q s1" by (rule Do.IH [OF rangeI])
  qed
next
  case (Call b handled k)
  have later: "runs (k v) h y q s1" if "ready_to_run h y q d s1" "same_rest s s1" for v y s1
    using Call.IH(2) [OF rangeI that(1)] quiet_parts(3) [OF Call.prems(2)] quiet_rest [OF that(2)] by blast
  show ?case
  proof (cases "frames_left s = 0")
    case True
    then show ?thesis by (rule runs_call_no_frame [OF Call.prems(1)])
  next
    case False
    have rest: "same_rest s (called b handled k h x s)" by (simp add: same_rest_def called_def)
    have "quiet b (called b handled k h x s)" using quiet_parts(2) [OF Call.prems(2)] quiet_rest [OF rest] by blast
    from Call.IH(1) [OF call_ready [OF Call.prems(1) False] this] show ?thesis
      by (rule runs_call [OF Call.prems(1) False _ later])
  qed
next
  case (Switch b)
  show ?case
  proof (rule runs_switch [OF Switch.prems(1)])
    fix y s1 assume y: "ready_to_run h y q d s1" and "same_rest s s1"
    then have "quiet b s1" using quiet_parts(4) [OF Switch.prems(2)] quiet_rest by blast
    with y show "runs b h y q s1" by (rule Switch.IH)
  next
    show "task_queues s r = []" for r using quiet_parts(4) [OF Switch.prems(2)] by blast
  qed
qed

end
