(* ===== verification/Task_Schedule.thy ===== *)
theory Task_Schedule
  imports Coroutine_Run
begin

text \<open>
  Tasks given to the task scheduler (\<open>task_scheduler::schedule\<close> and \<open>start\<close> of \<open>src/os/task_scheduler.h\<close> and
  \<open>src/os/coroutine.cc\<close>): each is wrapped in an executor, and they run one after the other.
\<close>

section \<open>The executor\<close>

definition executor_promise :: "nat \<Rightarrow> nat \<Rightarrow> 'g promise" where
  "executor_promise sc p = (new_promise (task_executor p))\<lparr>self_scheduler := sc\<rparr>"

definition executed :: "'g prog \<Rightarrow> nat \<Rightarrow> nat \<Rightarrow> 'g promise" where
  "executed b sc e = (callee b True e (executor_promise sc 0))"

text \<open>The state in which the task \<open>p\<close> starts to run.\<close>

definition executing :: "'g prog \<Rightarrow> nat \<Rightarrow> nat \<Rightarrow> nat \<Rightarrow> 'g world \<Rightarrow> 'g world" where
  "executing b sc e p s = s\<lparr>promises := (promises s)(p \<mapsto> executed b sc e,
      e \<mapsto> (executor_promise sc p)\<lparr>co_status := Co_Running, co_tasks := [p],
        co_frame := In_Await p (current_promise s) (\<lambda>_. Return_Value 0)\<rparr>),
    current_promise := p\<rparr>"

definition startable :: "'g prog \<Rightarrow> nat \<Rightarrow> nat \<Rightarrow> nat \<Rightarrow> 'g world \<Rightarrow> bool" where
  "startable b sc e p s \<longleftrightarrow> e \<noteq> 0 \<and> p \<noteq> 0 \<and> e \<noteq> p \<and> e < next_frame s \<and> p < next_frame s
    \<and> promises s e = Some (executor_promise sc p) \<and> promises s p = Some (new_promise (compile b))
    \<and> (\<forall>r \<ge> next_frame s. promises s r = None)"

lemma executor_starts:
  assumes "startable b sc e p s"
  shows "\<exists>s0. set_status e Co_Running s = (Inr (), s0) \<and> resume e s0 = (Inr p, executing b sc e p s)"
proof -
  show ?thesis
    using assms
    by (simp add: startable_def set_status_def promise_run resume_def task_executor_def task_await_suspend_def swap_promise_def
        executing_def executed_def callee_def executor_promise_def new_promise_def fun_upd_twist)
qed

lemma executing_ready:
  assumes "startable b sc e p s"
  shows "ready_to_run p (executed b sc e) p 1 (executing b sc e p s)"
  using assms by (auto simp: startable_def ready_to_run_def executing_def executed_def callee_def new_promise_def)

lemma destroy_frame_chain:
  assumes "chain (promises s) p cs" and "distinct (p # cs)" and "0 \<notin> set (p # cs)" and "\<forall>r \<in> set (p # cs). r < next_frame s"
  shows "destroy_frame p s = (Inr (), s\<lparr>promises := without (set (p # cs)) (promises s), frames_left := frames_left s + length (p # cs)\<rparr>)"
proof -
  have "length (p # cs) = card (set (p # cs))" using assms(2) by (metis distinct_card)
  also have "\<dots> \<le> card {0..<next_frame s}" by (rule card_mono) (use assms(4) in auto)
  finally show ?thesis using destroy_chain [OF assms(1-3)] by (simp add: destroy_frame_def)
qed

text \<open>The executor takes over again: it destroys the task with what it owns, ends and destroys itself.\<close>

lemma executor_ends:
  assumes e: "e \<noteq> 0" "e < next_frame s" "promises s e = Some x" "caller x = 0" "co_tasks x = [p]"
      "co_frame x = In_Await p lp (\<lambda>_. Return_Value 0)"
    and ch: "chain (promises s) p cs" "distinct (p # cs)" "0 \<notin> set (p # cs)" "\<forall>r \<in> set (p # cs). r < next_frame s"
    and out: "e \<notin> set (p # cs)"
  shows "\<exists>s'. resume e s = (Inr 0, s') \<and> promises s' = without (insert e (set (p # cs))) (promises s)
    \<and> frames_left s' = frames_left s + length cs + 2 \<and> same_rest s s' \<and> shared s' = shared s"
proof -
  let ?A = "set (p # cs)"
  have p0: "p \<noteq> 0" "p \<noteq> e" using ch(3) out by auto
  obtain z where z: "promises s p = Some z" using ch(1) by (cases cs) auto
  define z' where "z' = (if co_status z = Co_Fail then z else z\<lparr>co_result := None\<rparr>)"
  define s1 where "s1 = (if co_status z = Co_Fail then s else s\<lparr>current_promise := lp, promises := (promises s)(p \<mapsto> z')\<rparr>)"
  have P1: "promises s1 = (promises s)(p \<mapsto> z')" using z by (auto simp: s1_def z'_def fun_upd_idem)
  have same1: "frames_left s1 = frames_left s" "next_frame s1 = next_frame s" "same_rest s s1" "shared s1 = shared s"
    by (simp_all add: s1_def same_rest_def)
  have res: "task_await_resume p lp s = (Inr (if co_status z = Co_Fail then None else co_result z), s1)"
    using z p0 by (simp add: task_await_resume_def promise_run swap_promise_def s1_def z'_def)
  define x1 where "x1 = x\<lparr>co_result := Some 0, co_status := Co_Done\<rparr>"
  define s2 where "s2 = s1\<lparr>promises := (promises s1)(e \<mapsto> x1)\<rparr>"
  have "chain (promises s2) p cs"
  proof (cases cs)
    case Nil
    then show ?thesis using ch(1) z p0 by (auto simp: s2_def P1 z'_def)
  next
    case (Cons c cs')
    have "chain (promises s2) c cs' = chain (promises s) c cs'"
      by (rule chain_cong) (use ch(2) out Cons in \<open>auto simp: s2_def P1\<close>)
    then show ?thesis using ch(1) z p0 Cons by (auto simp: s2_def P1 z'_def)
  qed
  moreover have "\<forall>r \<in> ?A. r < next_frame s2" using ch(4) by (simp add: s2_def same1)
  ultimately have d1: "destroy_frame p s2 = (Inr (), s2\<lparr>promises := without ?A (promises s2), frames_left := frames_left s2 + length (p # cs)\<rparr>)"
    by (intro destroy_frame_chain ch(2,3))
  define x2 where "x2 = x1\<lparr>co_tasks := [], co_frame := Final\<rparr>"
  define s3 where "s3 = s2\<lparr>frames_left := frames_left s2 + length (p # cs), promises := (without ?A (promises s2))(e \<mapsto> x2)\<rparr>"
  have d2: "destroy_frame e s3 = (Inr (), s3\<lparr>promises := without {e} (promises s3), frames_left := frames_left s3 + 1\<rparr>)"
    using destroy_frame_chain [of s3 e "[]"] e(1,2) by (simp add: s3_def s2_def x2_def x1_def same1)
  have "resume e s = (Inr 0, s3\<lparr>promises := without {e} (promises s3), frames_left := frames_left s3 + 1\<rparr>)"
  proof -
    have "promises s1 e = Some x" using e(3) p0 by (simp add: P1)
    then have "co_return e (Some 0) s1 = yield_await_suspend e s3"
      using e(1,5) d1 out
      by (simp add: co_return_def promise_run s2_def [symmetric] x1_def [symmetric])
        (simp add: s2_def x1_def s3_def x2_def without_def promise_run)
    moreover have "yield_await_suspend e s3 = (Inr 0, s3\<lparr>promises := without {e} (promises s3), frames_left := frames_left s3 + 1\<rparr>)"
    proof -
      have "promises s3 e = Some x2" "caller x2 = 0" "co_status x2 = Co_Done" using e(4) by (simp_all add: s3_def x2_def x1_def)
      then show ?thesis using e(1) d2 by (simp add: yield_await_suspend_def promise_run)
    qed
    ultimately show ?thesis using e res by (simp add: resume_def promise_run)
  qed
  moreover have "without {e} (promises s3) = without (insert e ?A) (promises s)"
    by (auto simp: without_def s3_def s2_def P1 fun_eq_iff)
  ultimately show ?thesis using same1 by (auto simp: s3_def s2_def same_rest_def)
qed

lemma executor_runs:
  assumes st: "startable b sc e p s" and "quiet b s"
  shows "\<exists>s0 s'. set_status e Co_Running s = (Inr (), s0) \<and> goes e s0 0 s'
    \<and> promises s' = without {e, p} (promises s) \<and> frames_left s' = frames_left s + 2 \<and> same_rest s s'
    \<and> shared s' = snd (denote b (frames_left s) (shared s))"
proof -
  let ?s = "executing b sc e p s"
  have ep: "e \<noteq> 0" "p \<noteq> 0" "e \<noteq> p" "e < next_frame s" "p < next_frame s" using st by (simp_all add: startable_def)
  have same: "frames_left ?s = frames_left s" "shared ?s = shared s" "next_frame ?s = next_frame s" "same_rest s ?s"
    by (simp_all add: executing_def same_rest_def)
  let ?x = "(executor_promise sc p)\<lparr>co_status := Co_Running, co_tasks := [p], co_frame := In_Await p (current_promise s) (\<lambda>_. Return_Value 0)\<rparr>"
  have Ps: "promises ?s e = Some ?x" "promises ?s p = Some (executed b sc e)"
    "\<And>r. r \<noteq> e \<Longrightarrow> r \<noteq> p \<Longrightarrow> promises ?s r = promises s r"
    using ep by (simp_all add: executing_def)
  have "runs b p (executed b sc e) p ?s"
    using assms(2) quiet_rest [OF same(4)] by (intro runs_prog [OF executing_ready [OF st]]) simp
  then obtain s1 cs where s1: "reaches (compile b) p ?s e s1" "same_rest ?s s1" "chain (promises s1) p cs" "distinct cs"
      "set cs \<subseteq> {next_frame s..<next_frame s1}" "frames_left s1 + length cs = frames_left s"
      "shared s1 = snd (denote b (frames_left s) (shared s))"
      "\<And>r. r \<noteq> p \<Longrightarrow> r \<notin> set cs \<Longrightarrow> promises s1 r = promises ?s r"
  proof (cases "denote b (frames_left s) (shared s)")
    case (Pair r g)
    show ?thesis
    proof (cases r)
      case (Some v)
      then obtain s1 where "reaches (compile b) p ?s e s1" "ok_post p (executed b sc e) v g ?s s1"
        using \<open>runs b p (executed b sc e) p ?s\<close> Pair by (auto simp: runs_def same executed_def)
      then show ?thesis using that [of s1 "[]"] Pair by (auto simp: ok_post_def same executed_def)
    next
      case None
      then obtain s1 cs where "reaches (compile b) p ?s e s1" "fail_post p p cs g ?s s1"
        using \<open>runs b p (executed b sc e) p ?s\<close> Pair Ps(2) by (auto simp: runs_def same executed_def)
      then show ?thesis using that [of s1 cs] Pair by (auto simp: fail_post_def same)
    qed
  qed
  have le: "next_frame s \<le> next_frame s1" using s1(2) same by (simp add: same_rest_def)
  have out: "e \<notin> set (p # cs)" "distinct (p # cs)" "0 \<notin> set (p # cs)" "\<forall>r \<in> set (p # cs). r < next_frame s1"
    using s1(4,5) ep le by auto
  have "promises s1 e = Some ?x" using s1(8) [of e] out ep Ps(1) by simp
  then obtain s' where s': "resume e s1 = (Inr 0, s')" "promises s' = without (insert e (set (p # cs))) (promises s1)"
      "frames_left s' = frames_left s1 + length cs + 2" "same_rest s1 s'" "shared s' = shared s1"
    using executor_ends [of e s1 ?x p "current_promise s" cs] ep le out s1(3)
    by (auto simp: executor_promise_def new_promise_def)
  obtain s0 where s0: "set_status e Co_Running s = (Inr (), s0)" "resume e s0 = (Inr p, ?s)" using executor_starts [OF st] by blast
  have "resume p ?s = exec (compile b) p ?s"
    using ep Ps(2) by (simp add: resume_def promise_run executed_def callee_def new_promise_def)
  then have "goes p ?s e s1" using s1(1) ep(2) by (auto simp: reaches_def intro: goes.go)
  moreover have "goes e s1 0 s'" using s'(1) ep(1) by (auto intro: goes.go goes.stay)
  ultimately have "goes e s0 0 s'" using s0(2) ep(1) by (blast intro: goes.go goes_trans)
  moreover have "promises s' = without {e, p} (promises s)"
  proof -
    have "promises s r = None" if "r \<in> set cs" for r using that s1(5) st by (auto simp: startable_def)
    then show ?thesis using s'(2) s1(8) Ps(3) by (auto simp: without_def fun_eq_iff)
  qed
  moreover have "same_rest s s'" using same(4) s1(2) s'(4) by (auto simp: same_rest_def)
  ultimately show ?thesis using s0(1) s'(3,5) s1(6,7) by auto
qed

section \<open>Tasks run in the order they are scheduled\<close>

text \<open>A coroutine is called and the task it returns is given to the scheduler \<open>sc\<close>.\<close>

definition spawn :: "nat \<Rightarrow> 'g prog \<Rightarrow> ('g, unit) com" where
  "spawn sc b = kbind (new_frame (compile b)) (schedule sc)"

primrec spawn_all :: "nat \<Rightarrow> 'g prog list \<Rightarrow> ('g, unit) com" where
  "spawn_all sc [] = kret ()"
| "spawn_all sc (b # bs) = kseq (spawn sc b) (spawn_all sc bs)"

text \<open>The promises and the queue after that, and the meaning of the tasks one after the other.\<close>

primrec load :: "nat \<Rightarrow> nat \<Rightarrow> 'g prog list \<Rightarrow> (nat \<Rightarrow> 'g promise option) \<Rightarrow> nat \<Rightarrow> 'g promise option" where
  "load sc n [] P = P"
| "load sc n (b # bs) P = load sc (n + 2) bs (P(n \<mapsto> new_promise (compile b), Suc n \<mapsto> executor_promise sc n))"

primrec executors :: "nat \<Rightarrow> 'g prog list \<Rightarrow> nat list" where
  "executors n [] = []"
| "executors n (b # bs) = Suc n # executors (n + 2) bs"

primrec run_all :: "nat \<Rightarrow> 'g prog list \<Rightarrow> 'g \<Rightarrow> 'g" where
  "run_all m [] g = g"
| "run_all m (b # bs) g = run_all (m + 2) bs (snd (denote b m g))"

lemma spawn_run:
  assumes "next_frame s \<noteq> 0" and "2 \<le> frames_left s"
  shows "spawn sc b s = (Inr (), s\<lparr>promises := load sc (next_frame s) [b] (promises s), next_frame := next_frame s + 2,
    frames_left := frames_left s - 2,
    task_queues := (task_queues s)(sched_queue s sc := task_queues s (sched_queue s sc) @ [Suc (next_frame s)])\<rparr>)"
  using assms
  by (simp add: spawn_def new_frame_def schedule_def promise_run schedule_ref_def task_queue_push_def executor_promise_def
      new_promise_def)

lemma load_append: "load sc n (as @ bs) P = load sc (n + 2 * length as) bs (load sc n as P)"
  by (induction as arbitrary: n P) simp_all

lemma spawn_all_run:
  assumes "next_frame s \<noteq> 0" and "2 * length bs \<le> frames_left s"
  shows "spawn_all sc bs s = (Inr (), s\<lparr>promises := load sc (next_frame s) bs (promises s), next_frame := next_frame s + 2 * length bs,
    frames_left := frames_left s - 2 * length bs,
    task_queues := (task_queues s)(sched_queue s sc := task_queues s (sched_queue s sc) @ executors (next_frame s) bs)\<rparr>)"
  using assms
proof (induction bs arbitrary: s)
  case (Cons b bs)
  let ?n = "next_frame s" and ?q = "sched_queue s sc"
  define t where "t = s\<lparr>promises := load sc ?n [b] (promises s), next_frame := ?n + 2, frames_left := frames_left s - 2,
    task_queues := (task_queues s)(?q := task_queues s ?q @ [Suc ?n])\<rparr>"
  have t: "next_frame t = ?n + 2" "promises t = load sc ?n [b] (promises s)" "frames_left t = frames_left s - 2"
    "sched_queue t = sched_queue s" "task_queues t = (task_queues s)(?q := task_queues s ?q @ [Suc ?n])"
    by (simp_all add: t_def)
  have "spawn_all sc (b # bs) s = spawn_all sc bs t" using spawn_run [of s sc b] Cons.prems by (simp add: t_def)
  also have "\<dots> = (Inr (), t\<lparr>promises := load sc (?n + 2) bs (load sc ?n [b] (promises s)), next_frame := ?n + 2 + 2 * length bs,
      frames_left := frames_left s - 2 - 2 * length bs,
      task_queues := (task_queues s)(?q := task_queues s ?q @ executors ?n (b # bs))\<rparr>)"
    using Cons.IH [of t] Cons.prems unfolding t by (simp add: fun_upd_def cong: if_cong)
  finally show ?case by (simp add: t_def fun_upd_def)
qed simp

lemma load_other: "r < n \<or> n + 2 * length bs \<le> r \<Longrightarrow> load sc n bs P r = P r"
  by (induction bs arbitrary: n P) auto

lemma load_inside:
  "n \<le> r \<Longrightarrow> r < n + 2 * length bs \<Longrightarrow> load sc n bs P r = load sc n bs Q r"
proof (induction bs arbitrary: n P Q)
  case (Cons b bs)
  show ?case
  proof (cases "r < n + 2")
    case True
    then have "r = n \<or> r = Suc n" using Cons.prems(1) by auto
    then show ?thesis by (auto simp: load_other)
  next
    case False
    then show ?thesis using Cons.prems(2) by (simp, intro Cons.IH) simp_all
  qed
qed simp

lemma load_rest: "r \<noteq> n \<Longrightarrow> r \<noteq> Suc n \<Longrightarrow> load sc n (b # bs) P r = load sc (n + 2) bs P r"
  using load_inside [of "n + 2" r bs sc _ P] load_other [of r "n + 2" bs sc P]
    load_other [of r "n + 2" bs sc "P(n \<mapsto> new_promise (compile b), Suc n \<mapsto> executor_promise sc n)"]
  by (cases "r < n + 2 \<or> n + 2 + 2 * length bs \<le> r") simp_all

lemma scheduler_runs:
  assumes "\<And>r. n \<le> r \<Longrightarrow> P r = None" and "n \<noteq> 0" and "n + 2 * length bs \<le> next_frame s"
    and "promises s = load sc n bs P" and "task_queues s q = executors n bs" and "\<And>r. r \<noteq> q \<Longrightarrow> task_queues s r = []"
    and "\<forall>b \<in> set (butlast bs). switch_free b"
  shows "\<exists>k s'. (\<forall>fuel \<ge> k. task_scheduler_start (Suc (length bs)) fuel q s = (Inr (), s'))
    \<and> promises s' = P \<and> frames_left s' = frames_left s + 2 * length bs \<and> (\<forall>r. task_queues s' r = [])
    \<and> shared s' = run_all (frames_left s) bs (shared s)"
  using assms
proof (induction bs arbitrary: n s)
  case Nil
  then have "task_scheduler_start (Suc 0) fuel q s = (Inr (), s)" for fuel by (simp add: try_pop_def)
  moreover have "task_queues s r = []" for r using Nil.prems(5,6) by (cases "r = q") simp_all
  ultimately show ?case using Nil.prems(4) by (intro exI [of _ 0] exI [of _ s]) simp
next
  case (Cons b bs)
  let ?e = "Suc n" and ?s = "s\<lparr>task_queues := (task_queues s)(q := executors (n + 2) bs)\<rparr>"
  have pop: "try_pop q s = (Inr ?e, ?s)" using Cons.prems(5) by (simp add: try_pop_def)
  have at: "promises s n = Some (new_promise (compile b))" "promises s ?e = Some (executor_promise sc n)"
    using Cons.prems(4) by (simp_all add: load_other)
  have "promises s r = None" if "next_frame s \<le> r" for r
    using Cons.prems(1) [of r] Cons.prems(3,4) that by (simp add: load_other)
  then have "startable b sc ?e n ?s" using at Cons.prems(2,3) by (simp add: startable_def)
  moreover have "quiet b ?s"
  proof (cases bs)
    case Nil
    then show ?thesis using Cons.prems(6) by (simp add: quiet_def)
  qed (use Cons.prems(7) in \<open>simp add: quiet_def\<close>)
  ultimately obtain s0 s1 where s1: "set_status ?e Co_Running ?s = (Inr (), s0)" "goes ?e s0 0 s1"
      "promises s1 = without {?e, n} (promises ?s)" "frames_left s1 = frames_left s + 2" "same_rest ?s s1"
      "shared s1 = snd (denote b (frames_left s) (shared s))"
    using executor_runs [of b sc ?e n ?s] by auto
  have "promises s1 = load sc (n + 2) bs P"
  proof -
    have new: "load sc (n + 2) bs P r = None" if "r \<in> {?e, n}" for r
      using that Cons.prems(1) [of r] by (auto simp: load_other)
    have old: "load sc n (b # bs) P r = load sc (n + 2) bs P r" if "r \<notin> {?e, n}" for r
      using that by (intro load_rest) auto
    show ?thesis
      unfolding s1(3) without_def fun_eq_iff using new old Cons.prems(4) by (simp del: load.simps)
  qed
  moreover have "task_queues s1 = (task_queues s)(q := executors (n + 2) bs)" "n + 2 + 2 * length bs \<le> next_frame s1"
    using s1(5) Cons.prems(3) by (simp_all add: same_rest_def)
  moreover have "\<forall>b \<in> set (butlast bs). switch_free b" using Cons.prems(7) by (cases bs) auto
  ultimately obtain k s' where k: "\<forall>fuel \<ge> k. task_scheduler_start (Suc (length bs)) fuel q s1 = (Inr (), s')"
      "promises s' = P" "frames_left s' = frames_left s1 + 2 * length bs" "\<forall>r. task_queues s' r = []"
      "shared s' = run_all (frames_left s1) bs (shared s1)"
    using Cons.IH [of "n + 2" s1] Cons.prems(1,6) by auto
  obtain j where j: "\<forall>fuel \<ge> j. transfer fuel ?e s0 = (Inr (), s1)" using goes_transfer [OF s1(2)] by auto
  have "task_scheduler_start (Suc (length (b # bs))) fuel q s = (Inr (), s')" if "fuel \<ge> max j k" for fuel
    using that pop s1(1) j k(1) by (simp add: task_resume_def)
  then show ?case using k s1(4,6) by (intro exI [of _ "max j k"] exI [of _ s']) auto
qed

text \<open>
  C5. Coroutines compute what their code says in direct style. Tasks given to an idle scheduler run to completion, one after the
  other in the order they were scheduled: the shared state ends as if each program had been run as an ordinary
  procedure, where awaiting a call gives its value, and a failure, or the lack of memory for a frame, ends every program up to the nearest
  call that handles failures, at the latest the executor. The scheduler comes back without a panic and without touching a
  frame that is gone, and every frame made on the way has been destroyed exactly once: the promises and the free memory
  are those of the beginning. Only the last task may give way to others (there is none left).
\<close>

theorem scheduled_tasks_run:
  assumes "next_frame s \<noteq> 0" and "\<And>r. next_frame s \<le> r \<Longrightarrow> promises s r = None" and "\<And>q. task_queues s q = []"
    and "2 * length bs \<le> frames_left s" and "\<forall>b \<in> set (butlast bs). switch_free b"
  shows "\<exists>k s'. (\<forall>fuel \<ge> k. kseq (spawn_all sc bs) (task_scheduler_start (Suc (length bs)) fuel (sched_queue s sc)) s = (Inr (), s'))
    \<and> shared s' = run_all (frames_left s - 2 * length bs) bs (shared s)
    \<and> promises s' = promises s \<and> frames_left s' = frames_left s \<and> (\<forall>q. task_queues s' q = [])"
proof -
  let ?q = "sched_queue s sc"
  define t where "t = s\<lparr>promises := load sc (next_frame s) bs (promises s), next_frame := next_frame s + 2 * length bs,
    frames_left := frames_left s - 2 * length bs, task_queues := (task_queues s)(?q := task_queues s ?q @ executors (next_frame s) bs)\<rparr>"
  have "spawn_all sc bs s = (Inr (), t)" using spawn_all_run [OF assms(1,4)] by (simp add: t_def)
  then have "kseq (spawn_all sc bs) (task_scheduler_start (Suc (length bs)) fuel ?q) s = task_scheduler_start (Suc (length bs)) fuel ?q t" for fuel
    by (simp del: task_scheduler_start.simps)
  moreover have "\<exists>k s'. (\<forall>fuel \<ge> k. task_scheduler_start (Suc (length bs)) fuel ?q t = (Inr (), s'))
      \<and> promises s' = promises s \<and> frames_left s' = frames_left t + 2 * length bs \<and> (\<forall>r. task_queues s' r = [])
      \<and> shared s' = run_all (frames_left t) bs (shared t)"
    by (rule scheduler_runs [where sc = sc and n = "next_frame s"]) (use assms in \<open>simp_all add: t_def\<close>)
  ultimately show ?thesis using assms(4) by (simp add: t_def del: task_scheduler_start.simps) (metis le_add_diff_inverse2)
qed

text \<open>Two tasks on a counter: the first handles the failure of a call nested in a call, the second fails halfway.\<close>

definition nested :: "nat prog" where
  "nested = Do (\<lambda>g. g + 1) (\<lambda>_. Call Abort False (\<lambda>_. Do (\<lambda>g. g + 100) (\<lambda>_. Ret 0)))"

definition handling :: "nat prog" where
  "handling = Call nested True (\<lambda>v. Do (\<lambda>g. if v = None then 10 * g else 0) (\<lambda>_. Ret 0))"

definition failing :: "nat prog" where
  "failing = Call (Ret 7) False (\<lambda>v. Switch (Do (\<lambda>g. g + the v) (\<lambda>_. Abort)))"

definition idle_world :: "nat world" where
  "idle_world = \<lparr>promises = (\<lambda>_. None), next_frame = 1, frames_left = 9, sched_queue = (\<lambda>_. 0), task_queues = (\<lambda>_. []),
    current_promise = 0, sleep_calls = [], shared = 5\<rparr>"

theorem scheduled_tasks_run_witness:
  "\<exists>k s'. (\<forall>fuel \<ge> k. kseq (spawn_all 1 [handling, failing]) (task_scheduler_start 3 fuel 0) idle_world = (Inr (), s'))
    \<and> shared s' = 67 \<and> promises s' = (\<lambda>_. None) \<and> frames_left s' = 9"
proof -
  have "\<exists>k s'. (\<forall>fuel \<ge> k. kseq (spawn_all 1 [handling, failing])
        (task_scheduler_start (Suc (length [handling, failing])) fuel (sched_queue idle_world 1)) idle_world = (Inr (), s'))
      \<and> shared s' = run_all (frames_left idle_world - 2 * length [handling, failing]) [handling, failing] (shared idle_world)
      \<and> promises s' = promises idle_world \<and> frames_left s' = frames_left idle_world \<and> (\<forall>q. task_queues s' q = [])"
    by (rule scheduled_tasks_run) (simp_all add: idle_world_def handling_def nested_def)
  moreover have "run_all 5 [handling, failing] 5 = 67" by (simp add: handling_def nested_def failing_def)
  moreover have "Suc (length [handling, failing]) = 3" "sched_queue idle_world 1 = 0" "frames_left idle_world = 9"
      "shared idle_world = 5" "promises idle_world = (\<lambda>_. None)"
    by (simp_all add: idle_world_def)
  ultimately show ?thesis by (simp add: numeral_3_eq_3 del: task_scheduler_start.simps spawn_all.simps) blast
qed

end
