(* ===== verification/Virtio_Disk.thy ===== *)
theory Virtio_Disk
  imports Prelude "HOL-Library.Multiset"
begin

text \<open>
  The virtio disk driver (\<open>src/os/drivers/virtio/virtio_disk.cc\<close>, \<open>virtio_disk.h\<close>, \<open>virtio.h\<close>): the table of
  descriptors, the rings shared with the device, requests, completion interrupts. The code between
  taking the lock of the driver and giving it up, or suspending on a wait queue, is one event; the
  events of the tasks, of the interrupt handler and of the device interleave. Pointers stored in descriptors
  are symbolic. The device is outside the program: its events do what the virtio specification says.
\<close>

section \<open>Shared structures\<close>

definition NUM :: nat where "NUM = 8"
definition VRING_DESC_F_NEXT :: u16 where "VRING_DESC_F_NEXT = 1"
definition VRING_DESC_F_WRITE :: u16 where "VRING_DESC_F_WRITE = 2"
definition VIRTIO_BLK_T_IN :: nat where "VIRTIO_BLK_T_IN = 0"
definition VIRTIO_BLK_T_OUT :: nat where "VIRTIO_BLK_T_OUT = 1"
definition VIRTIO_BLK_T_FLUSH :: nat where "VIRTIO_BLK_T_FLUSH = 4"
definition DISK_BLOCK_SIZE :: nat where "DISK_BLOCK_SIZE = 1024"

datatype vaddr = Null_Addr | Op_Addr nat | Buffer_Addr nat | Status_Addr nat

record virtq_desc =
  vq_addr :: vaddr
  vq_len :: nat
  vq_flags :: u16
  vq_next :: nat

definition empty_desc :: virtq_desc where
  "empty_desc = \<lparr>vq_addr = Null_Addr, vq_len = 0, vq_flags = 0, vq_next = 0\<rparr>"

record virtio_blk_req =
  req_type :: nat
  req_sector :: u64

text \<open>A command as a task gives it, and where the task is.\<close>

record disk_request =
  dr_command :: nat
  dr_block :: u64
  dr_buffer :: nat

datatype vtask =
    V_Idle
  | V_Asleep disk_request
  | V_Retry disk_request
  | V_Wait "nat list" disk_request
  | V_Woken "nat list" disk_request
  | V_Failed "nat list" disk_request

text \<open>
  The fields of the driver, of the rings and of \<open>info\<close>; the tasks; the state of the device: how far it has read the ring
  of available chains, the chains it works on, the operations it performed. \<open>issued\<close> and \<open>finished\<close> record the
  commands; no code reads them. \<open>driver_stuck\<close> is set when a task returned without giving the lock back.
\<close>

type_synonym disk_op = "nat \<times> u64 \<times> nat"

definition sector_of :: "u64 \<Rightarrow> u64" where
  "sector_of block_no = block_no * of_nat (DISK_BLOCK_SIZE div 512)"

definition op_of :: "disk_request \<Rightarrow> disk_op" where
  "op_of c = (dr_command c, sector_of (dr_block c), dr_buffer c)"

record vdisk =
  vd_desc :: "virtq_desc list"
  vd_free :: "bool list"
  vd_ops :: "virtio_blk_req list"
  avail_ring :: "nat list"
  avail_idx :: u16
  used_ring :: "nat list"
  used_dev_idx :: u16
  used_idx :: u16
  info_done :: "bool list"
  info_status :: "u8 list"
  info_wait :: "nat option list"
  request_queue :: "nat list"
  needs_reset :: bool
  driver_stuck :: bool
  disk_capacity :: u64
  vtasks :: "nat \<Rightarrow> vtask"
  dev_seen :: u16
  dev_work :: "nat list"
  performed :: "disk_op list"
  issued :: "disk_op list"
  finished :: "disk_op list"

type_synonym 'a vm = "(vdisk, 'a) kmonad"

definition set_vtask :: "nat \<Rightarrow> vtask \<Rightarrow> unit vm" where
  "set_vtask t v = kmod (\<lambda>s. s\<lparr>vtasks := (vtasks s)(t := v)\<rparr>)"

definition set_desc :: "nat \<Rightarrow> virtq_desc \<Rightarrow> unit vm" where
  "set_desc i d = kbind (kget vd_desc) (\<lambda>l.
    kbind (kopt (arr_set l i d)) (\<lambda>l'.
    kmod (vd_desc_update (\<lambda>_. l'))))"

section \<open>Descriptors\<close>

text \<open>The task woken up is queued again by its scheduler; it then takes the lock and goes on.\<close>

definition request_wake_up_one :: "unit vm" where
  "request_wake_up_one = kbind (kget request_queue) (\<lambda>q.
    case q of [] \<Rightarrow> kret ()
    | t # ts \<Rightarrow> kbind (kget (\<lambda>s. vtasks s t)) (\<lambda>v.
      kseq (case v of V_Asleep c \<Rightarrow> set_vtask t (V_Retry c) | _ \<Rightarrow> kthrow Undefined) (
      kmod (request_queue_update (\<lambda>_. ts)))))"

primrec first_set :: "bool list \<Rightarrow> nat \<Rightarrow> nat option" where
  "first_set [] i = None"
| "first_set (b # bs) i = (if b then Some i else first_set bs (Suc i))"

definition alloc_desc :: "nat option vm" where
  "alloc_desc = kbind (kget vd_free) (\<lambda>l.
    case first_set l 0 of None \<Rightarrow> kret None
    | Some i \<Rightarrow> kseq (kmod (vd_free_update (\<lambda>l. l[i := False]))) (
      kret (Some i)))"

definition free_desc :: "nat \<Rightarrow> unit vm" where
  "free_desc i = kseq (kassert (i < NUM) ''free_desc 1'') (
    kbind (kget vd_free) (\<lambda>l.
    kbind (kopt (arr_get l i)) (\<lambda>b.
    kseq (kassert (\<not> b) ''free_desc 2'') (
    kseq (set_desc i empty_desc) (
    kseq (kmod (vd_free_update (\<lambda>l. l[i := True]))) (
    request_wake_up_one))))))"

text \<open>A chain has at most \<open>NUM\<close> descriptors, or \<open>free_desc\<close> panics on the second visit of one.\<close>

primrec free_chain :: "nat \<Rightarrow> nat \<Rightarrow> unit vm" where
  "free_chain 0 i = kthrow Out_Of_Fuel"
| "free_chain (Suc n) i = kbind (kget vd_desc) (\<lambda>l.
  kbind (kopt (arr_get l i)) (\<lambda>d.
  kseq (free_desc i) (
  if vq_flags d AND VRING_DESC_F_NEXT \<noteq> 0 then free_chain n (vq_next d) else kret ())))"

primrec free_descs :: "nat list \<Rightarrow> unit vm" where
  "free_descs [] = kret ()"
| "free_descs (i # is) = kseq (free_desc i) (
  free_descs is)"

primrec alloc_descs_loop :: "nat \<Rightarrow> nat list \<Rightarrow> nat list option vm" where
  "alloc_descs_loop 0 idx = kret (Some idx)"
| "alloc_descs_loop (Suc n) idx = kbind alloc_desc (\<lambda>r.
  case r of None \<Rightarrow> kseq (free_descs idx) (
    kret None)
    | Some i \<Rightarrow> alloc_descs_loop n (idx @ [i]))"

definition alloc_descs :: "nat list option vm" where
  "alloc_descs = alloc_descs_loop 3 []"

section \<open>Commands\<close>

definition data_flags :: "nat \<Rightarrow> u16" where
  "data_flags command = (if command = VIRTIO_BLK_T_OUT \<or> command = VIRTIO_BLK_T_FLUSH then 0 else VRING_DESC_F_WRITE) OR VRING_DESC_F_NEXT"

text \<open>Filling in the three descriptors and handing the chain to the device.\<close>

definition format_chain :: "nat \<Rightarrow> nat \<Rightarrow> nat \<Rightarrow> disk_request \<Rightarrow> unit vm" where
  "format_chain i0 i1 i2 c = kbind (kget vd_ops) (\<lambda>ops.
    kbind (kopt (arr_set ops i0 \<lparr>req_type = dr_command c, req_sector = sector_of (dr_block c)\<rparr>)) (\<lambda>ops'.
    kseq (kmod (vd_ops_update (\<lambda>_. ops'))) (
    kseq (set_desc i0 \<lparr>vq_addr = Op_Addr i0, vq_len = 16, vq_flags = VRING_DESC_F_NEXT, vq_next = i1\<rparr>) (
    kseq (set_desc i1 \<lparr>vq_addr = Buffer_Addr (dr_buffer c), vq_len = DISK_BLOCK_SIZE, vq_flags = data_flags (dr_command c), vq_next = i2\<rparr>) (
    kbind (kget info_status) (\<lambda>st.
    kbind (kopt (arr_set st i0 0xfb)) (\<lambda>st'.
    kseq (kmod (info_status_update (\<lambda>_. st'))) (
    kbind (kget info_done) (\<lambda>dn.
    kbind (kopt (arr_set dn i0 False)) (\<lambda>dn'.
    kseq (kmod (info_done_update (\<lambda>_. dn'))) (
    set_desc i2 \<lparr>vq_addr = Status_Addr i0, vq_len = 1, vq_flags = VRING_DESC_F_WRITE, vq_next = 0\<rparr>)))))))))))"

definition make_available :: "nat \<Rightarrow> unit vm" where
  "make_available i0 = kmod (\<lambda>s. s\<lparr>avail_ring := (avail_ring s)[unat (avail_idx s) mod NUM := i0], avail_idx := avail_idx s + 1\<rparr>)"

text \<open>One turn of the loop that waits for the completion, up to the end of the command or a suspension.\<close>

definition wait_done_loop :: "nat \<Rightarrow> nat list \<Rightarrow> disk_request \<Rightarrow> unit vm" where
  "wait_done_loop t idx c = kbind (kget info_done) (\<lambda>dn.
    kbind (kopt (arr_get dn (idx ! 0))) (\<lambda>b.
    if b then kseq (free_chain NUM (idx ! 0)) (
      kseq (kmod (finished_update (\<lambda>l. l @ [op_of c]))) (
      set_vtask t V_Idle))
    else kbind (kget needs_reset) (\<lambda>r.
      if r then kseq (kmod (driver_stuck_update (\<lambda>_. True))) (
        set_vtask t (V_Failed idx c))
      else kseq (kmod (info_wait_update (\<lambda>l. l[idx ! 0 := Some t]))) (
        set_vtask t (V_Wait idx c)))))"

definition disk_attempt :: "nat \<Rightarrow> disk_request \<Rightarrow> unit vm" where
  "disk_attempt t c = kbind alloc_descs (\<lambda>r.
    case r of
      None \<Rightarrow> kseq (kmod (request_queue_update (\<lambda>q. q @ [t]))) (
        set_vtask t (V_Asleep c))
    | Some idx \<Rightarrow> kseq (format_chain (idx ! 0) (idx ! 1) (idx ! 2) c) (
      kseq (make_available (idx ! 0)) (
      kseq (kmod (issued_update (\<lambda>l. l @ [op_of c]))) (
      wait_done_loop t idx c))))"

text \<open>\<open>disk_command\<close> up to its first suspension.\<close>

definition disk_command :: "nat \<Rightarrow> u64 \<Rightarrow> disk_request \<Rightarrow> unit vm" where
  "disk_command t n c = kseq (kassert (n = 1) ''virtio_disk::disk_command: count must be 1'') (
    kbind (kget disk_capacity) (\<lambda>cap.
    if dr_block c + n > cap then kthrow Task_Fail else disk_attempt t c))"

definition virtio_read :: "nat \<Rightarrow> u64 \<Rightarrow> u64 \<Rightarrow> nat \<Rightarrow> unit vm" where
  "virtio_read t block_no n buf = disk_command t n \<lparr>dr_command = VIRTIO_BLK_T_IN, dr_block = block_no, dr_buffer = buf\<rparr>"

definition virtio_write :: "nat \<Rightarrow> u64 \<Rightarrow> u64 \<Rightarrow> nat \<Rightarrow> unit vm" where
  "virtio_write t block_no n buf = disk_command t n \<lparr>dr_command = VIRTIO_BLK_T_OUT, dr_block = block_no, dr_buffer = buf\<rparr>"

definition virtio_flush :: "nat \<Rightarrow> unit vm" where
  "virtio_flush t = disk_command t 0 \<lparr>dr_command = VIRTIO_BLK_T_FLUSH, dr_block = 0, dr_buffer = 0\<rparr>"

section \<open>Completion\<close>

text \<open>The loop over the used ring; the handler spins for ever on a chain whose status is not zero.\<close>

definition info_wake_up :: "nat \<Rightarrow> unit vm" where
  "info_wake_up i = kbind (kget info_wait) (\<lambda>w.
    kbind (kopt (arr_get w i)) (\<lambda>x.
    case x of None \<Rightarrow> kret ()
    | Some t \<Rightarrow> kbind (kget (\<lambda>s. vtasks s t)) (\<lambda>v.
      kseq (case v of V_Wait idx c \<Rightarrow> set_vtask t (V_Woken idx c) | _ \<Rightarrow> kthrow Undefined) (
      kmod (info_wait_update (\<lambda>l. l[i := None]))))))"

definition intr_one :: "unit vm" where
  "intr_one = kbind (kget (\<lambda>s. s)) (\<lambda>s.
    kbind (kopt (arr_get (used_ring s) (unat (used_idx s) mod NUM))) (\<lambda>i.
    kbind (kopt (arr_get (info_status s) i)) (\<lambda>st.
    kseq (if st \<noteq> 0 then kthrow Out_Of_Fuel else kret ()) (
    kseq (kmod (used_idx_update (\<lambda>n. n + 1))) (
    kseq (kmod (info_done_update (\<lambda>l. l[i := True]))) (
    info_wake_up i))))))"

primrec intr_loop :: "nat \<Rightarrow> unit vm" where
  "intr_loop 0 = kret ()"
| "intr_loop (Suc n) = kseq intr_one (
  intr_loop n)"

definition virtio_disk_intr :: "unit vm" where
  "virtio_disk_intr = kbind (kget (\<lambda>s. s)) (\<lambda>s.
    intr_loop (unat (used_dev_idx s - used_idx s)))"

section \<open>The device\<close>

text \<open>
  The device reads the ring of available chains in order, finishes the chains it has read in any order, and for each of them
  performs the operation its descriptors describe, stores the status and adds it to the used ring. What it does with a
  chain that is not a header, a buffer and a status byte is not specified.
\<close>

definition device_fetch :: "unit vm" where
  "device_fetch = kbind (kget (\<lambda>s. s)) (\<lambda>s.
    kbind (kopt (arr_get (avail_ring s) (unat (dev_seen s) mod NUM))) (\<lambda>h.
    kmod (\<lambda>s. s\<lparr>dev_seen := dev_seen s + 1, dev_work := dev_work s @ [h]\<rparr>)))"

definition read_chain :: "vdisk \<Rightarrow> nat \<Rightarrow> (disk_op \<times> nat) option" where
  "read_chain s h = do {
    d0 \<leftarrow> arr_get (vd_desc s) h;
    d1 \<leftarrow> arr_get (vd_desc s) (vq_next d0);
    d2 \<leftarrow> arr_get (vd_desc s) (vq_next d1);
    if vq_flags d0 AND VRING_DESC_F_NEXT = 0 \<or> vq_flags d1 AND VRING_DESC_F_NEXT = 0 \<or> vq_flags d2 AND VRING_DESC_F_NEXT \<noteq> 0 then None
    else case (vq_addr d0, vq_addr d1, vq_addr d2) of
      (Op_Addr i, Buffer_Addr b, Status_Addr j) \<Rightarrow> do {
        r \<leftarrow> arr_get (vd_ops s) i;
        Some ((req_type r, req_sector r, b), j) }
    | _ \<Rightarrow> None }"

definition device_complete :: "nat \<Rightarrow> unit vm" where
  "device_complete h = kbind (kget (\<lambda>s. s)) (\<lambda>s.
    kbind (kopt (read_chain s h)) (\<lambda>r.
    kmod (\<lambda>s. s\<lparr>performed := performed s @ [fst r], info_status := (info_status s)[snd r := 0], dev_work := remove1 h (dev_work s),
      used_ring := (used_ring s)[unat (used_dev_idx s) mod NUM := h], used_dev_idx := used_dev_idx s + 1\<rparr>)))"

section \<open>Events\<close>

datatype vevent =
    Submit nat disk_request
  | Retry nat
  | Continue nat
  | Fetch
  | Complete nat
  | Interrupt
  | Device_Reset

fun vallowed :: "vevent \<Rightarrow> vdisk \<Rightarrow> bool" where
  "vallowed (Submit t c) s \<longleftrightarrow> \<not> driver_stuck s \<and> vtasks s t = V_Idle \<and> \<not> dr_block c + 1 > disk_capacity s"
| "vallowed (Retry t) s \<longleftrightarrow> \<not> driver_stuck s \<and> (case vtasks s t of V_Retry c \<Rightarrow> True | _ \<Rightarrow> False)"
| "vallowed (Continue t) s \<longleftrightarrow> \<not> driver_stuck s \<and> (case vtasks s t of V_Woken idx c \<Rightarrow> True | _ \<Rightarrow> False)"
| "vallowed Fetch s \<longleftrightarrow> dev_seen s \<noteq> avail_idx s"
| "vallowed (Complete h) s \<longleftrightarrow> h \<in> set (dev_work s)"
| "vallowed Interrupt s \<longleftrightarrow> \<not> driver_stuck s"
| "vallowed Device_Reset s \<longleftrightarrow> True"

fun vnext :: "vevent \<Rightarrow> unit vm" where
  "vnext (Submit t c) = disk_command t 1 c"
| "vnext (Retry t) = kbind (kget (\<lambda>s. vtasks s t)) (\<lambda>v.
  case v of V_Retry c \<Rightarrow> disk_attempt t c | _ \<Rightarrow> kret ())"
| "vnext (Continue t) = kbind (kget (\<lambda>s. vtasks s t)) (\<lambda>v.
  case v of V_Woken idx c \<Rightarrow> wait_done_loop t idx c | _ \<Rightarrow> kret ())"
| "vnext Fetch = device_fetch"
| "vnext (Complete h) = device_complete h"
| "vnext Interrupt = virtio_disk_intr"
| "vnext Device_Reset = kmod (needs_reset_update (\<lambda>_. True))"

text \<open>The state after \<open>open\<close>: every descriptor is free and the rings are empty. The device tells its size in sectors.\<close>

definition virtio_capacity :: "u64 \<Rightarrow> u64" where
  "virtio_capacity sectors = sectors * 512 div of_nat DISK_BLOCK_SIZE"

definition vdisk_opened :: "u64 \<Rightarrow> vdisk" where
  "vdisk_opened sectors = \<lparr>vd_desc = replicate NUM empty_desc, vd_free = replicate NUM True,
    vd_ops = replicate NUM \<lparr>req_type = 0, req_sector = 0\<rparr>, avail_ring = replicate NUM 0, avail_idx = 0,
    used_ring = replicate NUM 0, used_dev_idx = 0, used_idx = 0, info_done = replicate NUM False,
    info_status = replicate NUM 0, info_wait = replicate NUM None, request_queue = [], needs_reset = False,
    driver_stuck = False, disk_capacity = virtio_capacity sectors, vtasks = (\<lambda>_. V_Idle), dev_seen = 0, dev_work = [], performed = [],
    issued = [], finished = []\<rparr>"

inductive vreach :: "u64 \<Rightarrow> vdisk \<Rightarrow> bool" for cap where
  opened: "vreach cap (vdisk_opened cap)"
| event: "vreach cap s \<Longrightarrow> vallowed e s \<Longrightarrow> vnext e s = (Inr (), s') \<Longrightarrow> vreach cap s'"

end
