(* ===== verification/Virtio_Safe.thy ===== *)
theory Virtio_Safe
  imports Virtio_Disk
begin

text \<open>
  The disk driver and the device keep to the protocol: descriptors are never shared between commands, the rings are
  never overrun, and every command is performed by the device exactly once, before it is reported as
  finished.
\<close>

section \<open>Rings\<close>

text \<open>The entries of a ring between two indices, which run over all 16-bit values.\<close>

definition window :: "nat list \<Rightarrow> u16 \<Rightarrow> u16 \<Rightarrow> nat list" where
  "window r a b = map (\<lambda>k. r ! ((unat a + k) mod NUM)) [0..<unat (b - a)]"

lemma unat_add_mod_NUM: "unat (a + of_nat k :: u16) mod NUM = (unat a + k) mod NUM"
proof -
  have "unat (a + of_nat k) = (unat a + k) mod 65536"
    by (simp add: unat_word_ariths unat_of_nat mod_simps)
  then show ?thesis by (simp add: NUM_def mod_mod_cancel)
qed

lemma unat_diff_Suc: "unat (b - a :: u16) < 8 \<Longrightarrow> unat (b + 1 - a) = Suc (unat (b - a))"
proof -
  assume "unat (b - a) < 8"
  then have "unat (b - a) + 1 < 2 ^ 16" by simp
  then have "unat ((b - a) + 1) = unat (b - a) + 1" by (simp add: unat_word_ariths)
  then show ?thesis by (simp add: algebra_simps)
qed

lemma unat_index: "unat b mod NUM = (unat (a :: u16) + unat (b - a)) mod NUM"
  using unat_add_mod_NUM [of a "unat (b - a)"] by simp

lemma mod_shift_ne:
  assumes "k < n" and "n < 8"
  shows "(x + k) mod 8 \<noteq> (x + n) mod (8 :: nat)"
proof
  assume "(x + k) mod 8 = (x + n) mod 8"
  then have "(x + n) mod 8 = (x + k) mod 8" by simp
  then have "8 dvd (x + n) - (x + k)" using assms(1) mod_eq_dvd_iff_nat [of "x + k" "x + n" 8] by simp
  then show False using assms by (auto dest: dvd_imp_le)
qed

lemma window_push:
  assumes "length r = NUM" and "unat (b - a) < NUM"
  shows "window (r[unat b mod NUM := h]) a (b + 1) = window r a b @ [h]"
proof -
  let ?n = "unat (b - a)"
  have n: "?n < 8" using assms(2) by (simp add: NUM_def)
  have "r[(unat a + ?n) mod NUM := h] ! ((unat a + k) mod NUM) = r ! ((unat a + k) mod NUM)" if "k < ?n" for k
    using mod_shift_ne [OF that n, of "unat a"] by (intro nth_list_update_neq) (simp add: NUM_def)
  moreover have "(unat a + ?n) mod NUM < length r" using assms(1) by (simp add: NUM_def)
  ultimately show ?thesis
    using unat_index [of b a] unat_diff_Suc [OF n] by (simp add: window_def)
qed

lemma window_pop:
  assumes "a \<noteq> b"
  shows "window r a b = r ! (unat a mod NUM) # window r (a + 1) b"
proof -
  have "unat (b - a) \<noteq> 0" using assms by (simp add: unat_eq_0)
  moreover have "unat (b - (a + 1)) = unat (b - a) - 1"
    using calculation by (metis diff_diff_eq unat_minus_one unat_eq_0 add.commute)
  ultimately obtain n where n: "unat (b - a) = Suc n" "unat (b - (a + 1)) = n" by (cases "unat (b - a)") auto
  have "r ! ((unat a + Suc k) mod NUM) = r ! ((unat (a + 1) + k) mod NUM)" for k
    using unat_add_mod_NUM [of a "Suc k"] unat_add_mod_NUM [of "a + 1" k] by (simp add: algebra_simps)
  then show ?thesis by (simp add: window_def n upt_conv_Cons map_Suc_upt [symmetric] del: upt_Suc)
qed

lemma window_empty [simp]: "window r a a = []"
  by (simp add: window_def)

lemma window_length: "length (window r a b) = unat (b - a)"
  by (simp add: window_def)

section \<open>Invariants\<close>

text \<open>The chain of a task whose command is under way, and the map of all of them.\<close>

fun chain_of :: "vtask \<Rightarrow> (nat list \<times> disk_request) option" where
  "chain_of (V_Wait idx c) = Some (idx, c)"
| "chain_of (V_Woken idx c) = Some (idx, c)"
| "chain_of (V_Failed idx c) = Some (idx, c)"
| "chain_of _ = None"

type_synonym flights = "nat \<Rightarrow> (nat list \<times> disk_request) option"

definition flights :: "vdisk \<Rightarrow> flights" where
  "flights s = (\<lambda>t. chain_of (vtasks s t))"

definition heads :: "flights \<Rightarrow> nat set" where
  "heads f = {h. \<exists>t idx c. f t = Some (idx, c) \<and> h = idx ! 0}"

definition lengths_ok :: "vdisk \<Rightarrow> bool" where
  "lengths_ok s \<longleftrightarrow> length (vd_desc s) = NUM \<and> length (vd_free s) = NUM \<and> length (vd_ops s) = NUM
    \<and> length (avail_ring s) = NUM \<and> length (used_ring s) = NUM \<and> length (info_done s) = NUM
    \<and> length (info_status s) = NUM \<and> length (info_wait s) = NUM"

definition formatted :: "vdisk \<Rightarrow> nat list \<Rightarrow> disk_request \<Rightarrow> bool" where
  "formatted s idx c \<longleftrightarrow>
    vd_desc s ! (idx ! 0) = \<lparr>vq_addr = Op_Addr (idx ! 0), vq_len = 16, vq_flags = VRING_DESC_F_NEXT, vq_next = idx ! 1\<rparr>
    \<and> vd_desc s ! (idx ! 1) = \<lparr>vq_addr = Buffer_Addr (dr_buffer c), vq_len = DISK_BLOCK_SIZE, vq_flags = data_flags (dr_command c), vq_next = idx ! 2\<rparr>
    \<and> vd_desc s ! (idx ! 2) = \<lparr>vq_addr = Status_Addr (idx ! 0), vq_len = 1, vq_flags = VRING_DESC_F_WRITE, vq_next = 0\<rparr>
    \<and> vd_ops s ! (idx ! 0) = \<lparr>req_type = dr_command c, req_sector = sector_of (dr_block c)\<rparr>"

text \<open>Descriptors: a chain has three of them, in use and formatted; chains are disjoint; a descriptor in use is in a chain.\<close>

definition desc_inv :: "flights \<Rightarrow> vdisk \<Rightarrow> bool" where
  "desc_inv f s \<longleftrightarrow>
    (\<forall>t idx c. f t = Some (idx, c) \<longrightarrow> length idx = 3 \<and> distinct idx \<and> (\<forall>i \<in> set idx. i < NUM \<and> \<not> vd_free s ! i) \<and> formatted s idx c)
    \<and> (\<forall>t u idx c idx' c'. f t = Some (idx, c) \<and> f u = Some (idx', c') \<and> set idx \<inter> set idx' \<noteq> {} \<longrightarrow> t = u)
    \<and> (\<forall>i < NUM. \<not> vd_free s ! i \<longrightarrow> (\<exists>t idx c. f t = Some (idx, c) \<and> i \<in> set idx))"

definition to_fetch :: "vdisk \<Rightarrow> nat list" where
  "to_fetch s = window (avail_ring s) (dev_seen s) (avail_idx s)"

definition to_handle :: "vdisk \<Rightarrow> nat list" where
  "to_handle s = window (used_ring s) (used_idx s) (used_dev_idx s)"

definition done_heads :: "flights \<Rightarrow> vdisk \<Rightarrow> nat set" where
  "done_heads f s = {h \<in> heads f. info_done s ! h}"

text \<open>
  Rings: the chains that are not done are exactly those the device has not fetched, works on, or has finished without the
  driver having seen it, and each is there once. The operations issued, performed and finished differ by those.
\<close>

definition ring_inv :: "flights \<Rightarrow> vdisk \<Rightarrow> bool" where
  "ring_inv f s \<longleftrightarrow> distinct (to_fetch s @ dev_work s @ to_handle s)
    \<and> set (to_fetch s @ dev_work s @ to_handle s) = heads f - done_heads f s
    \<and> (\<forall>h \<in> set (to_handle s). info_status s ! h = 0)"

definition ops_inv :: "flights \<Rightarrow> vdisk \<Rightarrow> bool" where
  "ops_inv f s \<longleftrightarrow> (\<exists>hop. (\<forall>t idx c. f t = Some (idx, c) \<longrightarrow> hop (idx ! 0) = op_of c)
    \<and> mset (issued s) = mset (performed s) + image_mset hop (mset (to_fetch s @ dev_work s))
    \<and> mset (performed s) = mset (finished s) + image_mset hop (mset (to_handle s)) + image_mset hop (mset_set (done_heads f s)))"

definition wait_inv :: "vdisk \<Rightarrow> bool" where
  "wait_inv s \<longleftrightarrow> (\<forall>i < NUM. \<forall>t. info_wait s ! i = Some t \<longleftrightarrow> (\<exists>idx c. vtasks s t = V_Wait idx c \<and> idx ! 0 = i))
    \<and> distinct (request_queue s) \<and> (\<forall>t. t \<in> set (request_queue s) \<longleftrightarrow> (\<exists>c. vtasks s t = V_Asleep c))"

definition vinv :: "vdisk \<Rightarrow> bool" where
  "vinv s \<longleftrightarrow> lengths_ok s \<and> desc_inv (flights s) s \<and> ring_inv (flights s) s \<and> ops_inv (flights s) s \<and> wait_inv s"

text \<open>
  No task is forgotten. While tasks sleep on the request queue, one has been woken and will try again, or a command is under
  way; a command whose task still waits is not done; a task gives up only by leaving the driver locked.
\<close>

definition vlive :: "vdisk \<Rightarrow> bool" where
  "vlive s \<longleftrightarrow> (request_queue s = [] \<or> (\<exists>t c. vtasks s t = V_Retry c) \<or> heads (flights s) \<noteq> {})
    \<and> (\<forall>t idx c. vtasks s t = V_Wait idx c \<longrightarrow> \<not> info_done s ! (idx ! 0))
    \<and> (\<forall>t idx c. vtasks s t = V_Failed idx c \<longrightarrow> driver_stuck s)"

lemma vliveD:
  assumes "vlive s"
  shows "request_queue s = [] \<or> (\<exists>t c. vtasks s t = V_Retry c) \<or> heads (flights s) \<noteq> {}"
    and "vtasks s t = V_Wait idx c \<Longrightarrow> \<not> info_done s ! (idx ! 0)" and "vtasks s t = V_Failed idx c \<Longrightarrow> driver_stuck s"
  using assms unfolding vlive_def by blast+

lemma vliveI:
  assumes "request_queue s = [] \<or> (\<exists>t c. vtasks s t = V_Retry c) \<or> heads (flights s) \<noteq> {}"
    and "\<And>t idx c. vtasks s t = V_Wait idx c \<Longrightarrow> \<not> info_done s ! (idx ! 0)" and "\<And>t idx c. vtasks s t = V_Failed idx c \<Longrightarrow> driver_stuck s"
  shows "vlive s"
  using assms unfolding vlive_def by blast

section \<open>Waking and freeing\<close>

text \<open>Some sleepers of the request queue were woken, and nothing else changed.\<close>

definition woke :: "vdisk \<Rightarrow> vdisk \<Rightarrow> bool" where
  "woke s s' \<longleftrightarrow> s' = s\<lparr>vtasks := vtasks s', request_queue := request_queue s'\<rparr> \<and> wait_inv s'
    \<and> (\<forall>t. vtasks s' t = vtasks s t \<or> (\<exists>c. vtasks s t = V_Asleep c \<and> vtasks s' t = V_Retry c))"

definition roused :: "vdisk \<Rightarrow> bool" where
  "roused s \<longleftrightarrow> request_queue s = [] \<or> (\<exists>t c. vtasks s t = V_Retry c)"

lemma wait_invI:
  assumes "\<And>i t. i < NUM \<Longrightarrow> info_wait s ! i = Some t \<longleftrightarrow> (\<exists>idx c. vtasks s t = V_Wait idx c \<and> idx ! 0 = i)"
    and "distinct (request_queue s)" and "\<And>t. t \<in> set (request_queue s) \<longleftrightarrow> (\<exists>c. vtasks s t = V_Asleep c)"
  shows "wait_inv s"
  using assms by (simp add: wait_inv_def)

lemma wait_invD:
  assumes "wait_inv s"
  shows "i < NUM \<Longrightarrow> info_wait s ! i = Some t \<longleftrightarrow> (\<exists>idx c. vtasks s t = V_Wait idx c \<and> idx ! 0 = i)"
    and "distinct (request_queue s)" and "t \<in> set (request_queue s) \<longleftrightarrow> (\<exists>c. vtasks s t = V_Asleep c)"
  using assms unfolding wait_inv_def by blast+

lemma wake_one_run:
  assumes "wait_inv s"
  shows "\<exists>s'. request_wake_up_one s = (Inr (), s') \<and> woke s s' \<and> roused s'"
proof (cases "request_queue s")
  case Nil
  then show ?thesis using assms by (intro exI [of _ s]) (simp add: request_wake_up_one_def woke_def roused_def)
next
  case (Cons t ts)
  then have "t \<in> set (request_queue s)" by simp
  then obtain c where c: "vtasks s t = V_Asleep c" using assms unfolding wait_inv_def by blast
  define s' where "s' = s\<lparr>vtasks := (vtasks s)(t := V_Retry c), request_queue := ts\<rparr>"
  have s': "vtasks s' = (vtasks s)(t := V_Retry c)" "request_queue s' = ts" "info_wait s' = info_wait s"
    by (simp_all add: s'_def)
  have "request_wake_up_one s = (Inr (), s')" using Cons c by (simp add: request_wake_up_one_def set_vtask_def s'_def)
  moreover have "wait_inv s'"
  proof (rule wait_invI)
    fix i u assume "i < NUM"
    then have "info_wait s ! i = Some u \<longleftrightarrow> (\<exists>idx c. vtasks s u = V_Wait idx c \<and> idx ! 0 = i)" by (rule wait_invD(1) [OF assms])
    then show "info_wait s' ! i = Some u \<longleftrightarrow> (\<exists>idx c. vtasks s' u = V_Wait idx c \<and> idx ! 0 = i)"
      using c by (cases "u = t") (simp_all add: s')
  next
    fix u
    have "u \<in> set (request_queue s) \<longleftrightarrow> (\<exists>c. vtasks s u = V_Asleep c)" by (rule wait_invD(3) [OF assms])
    then show "u \<in> set (request_queue s') \<longleftrightarrow> (\<exists>c. vtasks s' u = V_Asleep c)"
      using wait_invD(2) [OF assms] Cons by (cases "u = t") (simp_all add: s')
  qed (use wait_invD(2) [OF assms] Cons in \<open>simp add: s'\<close>)
  moreover have "s' = s\<lparr>vtasks := vtasks s', request_queue := request_queue s'\<rparr>" by (simp add: s'_def)
  moreover have "roused s'" unfolding roused_def s' by (metis fun_upd_same)
  ultimately show ?thesis using c by (intro exI [of _ s']) (simp add: woke_def s')
qed

lemma woke_trans:
  assumes "woke s s1" and "woke (s1\<lparr>vd_desc := d, vd_free := f\<rparr>) s2"
  shows "woke (s\<lparr>vd_desc := d, vd_free := f\<rparr>) s2"
proof -
  have "s2 = (s1\<lparr>vd_desc := d, vd_free := f\<rparr>)\<lparr>vtasks := vtasks s2, request_queue := request_queue s2\<rparr>"
    using assms(2) by (simp add: woke_def)
  also have "s1 = s\<lparr>vtasks := vtasks s1, request_queue := request_queue s1\<rparr>" using assms(1) by (simp add: woke_def)
  finally have "s2 = s\<lparr>vd_desc := d, vd_free := f, vtasks := vtasks s2, request_queue := request_queue s2\<rparr>" by simp
  moreover have "vtasks s2 t = vtasks s t \<or> (\<exists>c. vtasks s t = V_Asleep c \<and> vtasks s2 t = V_Retry c)" for t
  proof -
    have "vtasks s1 t = vtasks s t \<or> (\<exists>c. vtasks s t = V_Asleep c \<and> vtasks s1 t = V_Retry c)"
      using assms(1) by (simp add: woke_def)
    moreover have "vtasks s2 t = vtasks s1 t \<or> (\<exists>c. vtasks s1 t = V_Asleep c \<and> vtasks s2 t = V_Retry c)"
      using assms(2) by (simp add: woke_def)
    ultimately show ?thesis by auto
  qed
  ultimately show ?thesis using assms(2) by (auto simp: woke_def)
qed

lemma woke_fields:
  assumes "woke s s'"
  shows "vd_desc s' = vd_desc s" "vd_free s' = vd_free s" "vd_ops s' = vd_ops s" "avail_ring s' = avail_ring s" "avail_idx s' = avail_idx s"
    "used_ring s' = used_ring s" "used_dev_idx s' = used_dev_idx s" "used_idx s' = used_idx s" "info_done s' = info_done s"
    "info_status s' = info_status s" "info_wait s' = info_wait s" "needs_reset s' = needs_reset s" "driver_stuck s' = driver_stuck s"
    "dev_seen s' = dev_seen s" "dev_work s' = dev_work s" "performed s' = performed s" "issued s' = issued s" "finished s' = finished s"
    "flights s' = flights s" "wait_inv s'"
proof -
  obtain v q where s': "s' = s\<lparr>vtasks := v, request_queue := q\<rparr>" using assms unfolding woke_def by blast
  show "vd_desc s' = vd_desc s" "vd_free s' = vd_free s" "vd_ops s' = vd_ops s" "avail_ring s' = avail_ring s" "avail_idx s' = avail_idx s"
    "used_ring s' = used_ring s" "used_dev_idx s' = used_dev_idx s" "used_idx s' = used_idx s" "info_done s' = info_done s"
    "info_status s' = info_status s" "info_wait s' = info_wait s" "needs_reset s' = needs_reset s" "driver_stuck s' = driver_stuck s"
    "dev_seen s' = dev_seen s" "dev_work s' = dev_work s" "performed s' = performed s" "issued s' = issued s" "finished s' = finished s"
    by (simp_all add: s')
  have "chain_of (vtasks s' t) = chain_of (vtasks s t)" for t
    using assms unfolding woke_def by (metis chain_of.simps(5,6))
  then show "flights s' = flights s" by (simp add: flights_def fun_eq_iff)
  show "wait_inv s'" using assms by (simp add: woke_def)
qed

definition with_descs :: "virtq_desc list \<Rightarrow> bool list \<Rightarrow> vdisk \<Rightarrow> vdisk" where
  "with_descs d f s = s\<lparr>vd_desc := d, vd_free := f\<rparr>"

lemma with_descs_simps [simp]:
  "vd_desc (with_descs d f s) = d" "vd_free (with_descs d f s) = f" "with_descs d f (with_descs d' f' s) = with_descs d f s"
  "wait_inv (with_descs d f s) = wait_inv s" "flights (with_descs d f s) = flights s"
  by (simp_all add: with_descs_def wait_inv_def flights_def)

lemma woke_with:
  assumes "woke s s1" and "woke (with_descs d f s1) s2"
  shows "woke (with_descs d f s) s2"
  using woke_trans [OF assms(1)] assms(2) by (simp add: with_descs_def)

lemma free_desc_run:
  assumes "length (vd_desc s) = NUM" and "length (vd_free s) = NUM" and "i < NUM" and "\<not> vd_free s ! i" and "wait_inv s"
  shows "\<exists>s'. free_desc i s = (Inr (), s') \<and> woke (with_descs ((vd_desc s)[i := empty_desc]) ((vd_free s)[i := True]) s) s' \<and> roused s'"
proof -
  let ?d = "(vd_desc s)[i := empty_desc]" and ?f = "(vd_free s)[i := True]"
  obtain s' where s': "request_wake_up_one (with_descs ?d ?f s) = (Inr (), s')" "woke (with_descs ?d ?f s) s'" "roused s'"
    using wake_one_run [of "with_descs ?d ?f s"] assms(5) by auto
  have upd: "vd_free_update (\<lambda>l. l[i := True]) (vd_desc_update (\<lambda>_. ?d) s) = with_descs ?d ?f s"
    by (simp add: with_descs_def)
  have "free_desc i s = request_wake_up_one (with_descs ?d ?f s)"
    using assms by (simp add: free_desc_def set_desc_def upd)
  then show ?thesis using s' by auto
qed

lemma flag_bits [simp]:
  "VRING_DESC_F_NEXT \<noteq> 0" "VRING_DESC_F_WRITE AND VRING_DESC_F_NEXT = 0" "data_flags c AND VRING_DESC_F_NEXT \<noteq> 0"
  by (simp_all add: VRING_DESC_F_NEXT_def VRING_DESC_F_WRITE_def data_flags_def)

lemma free_chain_step:
  assumes "length (vd_desc s) = NUM" and "length (vd_free s) = NUM" and "i < NUM" and "\<not> vd_free s ! i" and "wait_inv s"
  shows "\<exists>s'. free_chain (Suc n) i s
      = (if vq_flags (vd_desc s ! i) AND VRING_DESC_F_NEXT \<noteq> 0 then free_chain n (vq_next (vd_desc s ! i)) s' else (Inr (), s'))
    \<and> woke (with_descs ((vd_desc s)[i := empty_desc]) ((vd_free s)[i := True]) s) s' \<and> roused s'"
proof -
  obtain s' where s': "free_desc i s = (Inr (), s')"
      "woke (with_descs ((vd_desc s)[i := empty_desc]) ((vd_free s)[i := True]) s) s'" "roused s'"
    using free_desc_run [OF assms] by blast
  have "free_chain (Suc n) i s
      = (if vq_flags (vd_desc s ! i) AND VRING_DESC_F_NEXT \<noteq> 0 then free_chain n (vq_next (vd_desc s ! i)) s' else (Inr (), s'))"
    using s'(1) assms(1,3) by simp
  then show ?thesis using s'(2,3) by blast
qed

lemma free_chain_run:
  assumes "length (vd_desc s) = NUM" and "length (vd_free s) = NUM" and "wait_inv s"
    and idx: "length idx = 3" "distinct idx" "\<forall>i \<in> set idx. i < NUM \<and> \<not> vd_free s ! i" and "formatted s idx c"
  shows "\<exists>s'. free_chain NUM (idx ! 0) s = (Inr (), s') \<and> roused s'
    \<and> woke (with_descs ((vd_desc s)[idx ! 0 := empty_desc, idx ! 1 := empty_desc, idx ! 2 := empty_desc])
        ((vd_free s)[idx ! 0 := True, idx ! 1 := True, idx ! 2 := True]) s) s'"
proof -
  obtain i0 i1 i2 where i: "idx = [i0, i1, i2]" using idx(1) by (auto simp: numeral_3_eq_3 length_Suc_conv)
  have ne: "i0 \<noteq> i1" "i0 \<noteq> i2" "i1 \<noteq> i2" "i0 < NUM" "i1 < NUM" "i2 < NUM" "\<not> vd_free s ! i0" "\<not> vd_free s ! i1" "\<not> vd_free s ! i2"
    using idx i by auto
  have NUM: "NUM = Suc (Suc (Suc 5))" by (simp add: NUM_def)
  have fm: "vq_flags (vd_desc s ! i0) AND VRING_DESC_F_NEXT \<noteq> 0" "vq_next (vd_desc s ! i0) = i1"
    "vq_flags (vd_desc s ! i1) AND VRING_DESC_F_NEXT \<noteq> 0" "vq_next (vd_desc s ! i1) = i2"
    "vq_flags (vd_desc s ! i2) AND VRING_DESC_F_NEXT = 0"
    using assms(7) by (simp_all add: formatted_def i)
  obtain s1 where s1: "free_chain NUM i0 s = free_chain 7 i1 s1"
      "woke (with_descs ((vd_desc s)[i0 := empty_desc]) ((vd_free s)[i0 := True]) s) s1"
    using free_chain_step [OF assms(1,2) ne(4,7) assms(3), of 7] fm(1,2) by (auto simp: NUM_def)
  have f1: "vd_desc s1 = (vd_desc s)[i0 := empty_desc]" "vd_free s1 = (vd_free s)[i0 := True]" "wait_inv s1"
    using woke_fields [OF s1(2)] by simp_all
  obtain s2 where s2: "free_chain 7 i1 s1 = free_chain 6 i2 s2"
      "woke (with_descs ((vd_desc s1)[i1 := empty_desc]) ((vd_free s1)[i1 := True]) s1) s2"
    using free_chain_step [of s1 i1 6] f1 ne fm(3,4) assms(1,2) by auto
  have w2: "woke (with_descs ((vd_desc s)[i0 := empty_desc, i1 := empty_desc]) ((vd_free s)[i0 := True, i1 := True]) s) s2"
    using woke_with [OF s1(2)] s2(2) f1 by simp
  have f2: "vd_desc s2 = (vd_desc s)[i0 := empty_desc, i1 := empty_desc]" "vd_free s2 = (vd_free s)[i0 := True, i1 := True]" "wait_inv s2"
    using woke_fields [OF w2] by simp_all
  obtain s3 where s3: "free_chain 6 i2 s2 = (Inr (), s3)" "roused s3"
      "woke (with_descs ((vd_desc s2)[i2 := empty_desc]) ((vd_free s2)[i2 := True]) s2) s3"
    using free_chain_step [of s2 i2 5] f2 ne fm(5) assms(1,2) by auto
  have "woke (with_descs ((vd_desc s)[i0 := empty_desc, i1 := empty_desc, i2 := empty_desc])
      ((vd_free s)[i0 := True, i1 := True, i2 := True]) s) s3"
    using woke_with [OF w2] s3(3) f2 by simp
  then show ?thesis using s1(1) s2(1) s3(1,2) by (auto simp: i numeral_2_eq_2)
qed

section \<open>Allocating\<close>

definition upds :: "'a \<Rightarrow> nat list \<Rightarrow> 'a list \<Rightarrow> 'a list" where
  "upds v js l = fold (\<lambda>i l. l[i := v]) js l"

lemma upds_simps [simp]: "upds v [] l = l" "upds v (i # js) l = upds v js (l[i := v])" "length (upds v js l) = length l"
  by (simp_all add: upds_def) (induction js arbitrary: l; simp)

lemma upds_snoc: "upds v (js @ [i]) l = (upds v js l)[i := v]"
  by (simp add: upds_def)

lemma upds_nth: "i < length l \<Longrightarrow> upds v js l ! i = (if i \<in> set js then v else l ! i)"
  by (induction js arbitrary: l) (auto simp: nth_list_update)

lemma upds_back:
  assumes "\<forall>i \<in> set js. i < length l \<and> l ! i = v"
  shows "upds v js (upds w js l) = l"
  using assms by (intro nth_equalityI) (auto simp: upds_nth)

lemma free_descs_run:
  assumes "length (vd_desc s) = NUM" and "length (vd_free s) = NUM" and "wait_inv s"
    and "distinct js" and "\<forall>i \<in> set js. i < NUM \<and> \<not> vd_free s ! i"
  shows "\<exists>s'. free_descs js s = (Inr (), s') \<and> woke (with_descs (upds empty_desc js (vd_desc s)) (upds True js (vd_free s)) s) s'"
  using assms
proof (induction js arbitrary: s)
  case Nil
  have "with_descs (vd_desc s) (vd_free s) s = s" by (simp add: with_descs_def)
  then show ?case using Nil.prems(3) by (intro exI [of _ s]) (simp add: woke_def)
next
  case (Cons i js)
  obtain s1 where s1: "free_desc i s = (Inr (), s1)"
      "woke (with_descs ((vd_desc s)[i := empty_desc]) ((vd_free s)[i := True]) s) s1"
    using free_desc_run [of s i] Cons.prems by auto
  have f1: "vd_desc s1 = (vd_desc s)[i := empty_desc]" "vd_free s1 = (vd_free s)[i := True]" "wait_inv s1"
    using woke_fields [OF s1(2)] by simp_all
  obtain s2 where s2: "free_descs js s1 = (Inr (), s2)"
      "woke (with_descs (upds empty_desc js (vd_desc s1)) (upds True js (vd_free s1)) s1) s2"
  proof -
    have "\<forall>j \<in> set js. j < NUM \<and> \<not> vd_free s1 ! j" using Cons.prems f1 by (auto simp: nth_list_update)
    then show ?thesis using Cons.IH [of s1] Cons.prems f1 that by auto
  qed
  then show ?case using s1(1) woke_with [OF s1(2)] f1 by auto
qed

lemma first_set_Some: "first_set l n = Some i \<Longrightarrow> n \<le> i \<and> i < n + length l \<and> l ! (i - n)"
proof (induction l arbitrary: n)
  case (Cons b l)
  show ?case
  proof (cases b)
    case False
    then have "Suc n \<le> i \<and> i < Suc n + length l \<and> l ! (i - Suc n)" using Cons.IH [of "Suc n"] Cons.prems by simp
    moreover from this have "i - n = Suc (i - Suc n)" by linarith
    ultimately show ?thesis by auto
  qed (use Cons.prems in simp)
qed simp

lemma first_set_None: "first_set l n = None \<Longrightarrow> i < length l \<Longrightarrow> \<not> l ! i"
  by (induction l arbitrary: n i) (auto simp: nth_Cons split: if_splits nat.splits)

lemma alloc_loop_run:
  assumes "vd_free s = upds False idx F" and "length F = NUM" and "length (vd_desc s) = NUM" and "wait_inv s"
    and "distinct idx" and "\<forall>i \<in> set idx. i < NUM \<and> F ! i"
  shows "(\<exists>new. alloc_descs_loop n idx s = (Inr (Some (idx @ new)), with_descs (vd_desc s) (upds False (idx @ new) F) s)
      \<and> length new = n \<and> distinct (idx @ new) \<and> (\<forall>i \<in> set (idx @ new). i < NUM \<and> F ! i))
    \<or> (\<exists>s' d got. alloc_descs_loop n idx s = (Inr None, s') \<and> woke (with_descs d F s) s' \<and> length d = NUM
      \<and> (\<forall>i < NUM. \<not> F ! i \<longrightarrow> d ! i = vd_desc s ! i) \<and> {i. i < NUM \<and> F ! i} \<subseteq> set got \<and> length got < length idx + n)"
  using assms
proof (induction n arbitrary: idx s)
  case 0
  have "with_descs (vd_desc s) (upds False idx F) s = s" using 0(1) by (simp add: with_descs_def)
  then show ?case using 0 by (intro disjI1 exI [of _ "[]"]) simp
next
  case (Suc n)
  have len: "length (vd_free s) = NUM" using Suc.prems(1,2) by simp
  show ?case
  proof (cases "first_set (vd_free s) 0")
    case None
    have all: "{i. i < NUM \<and> F ! i} \<subseteq> set idx"
    proof
      fix i assume "i \<in> {i. i < NUM \<and> F ! i}"
      then show "i \<in> set idx" using first_set_None [OF None, of i] Suc.prems(1,2) by (auto simp: upds_nth split: if_splits)
    qed
    have "\<forall>i \<in> set idx. i < NUM \<and> \<not> vd_free s ! i" using Suc.prems(1,2,6) by (simp add: upds_nth)
    then obtain s' where s': "free_descs idx s = (Inr (), s')"
        "woke (with_descs (upds empty_desc idx (vd_desc s)) (upds True idx (vd_free s)) s) s'"
      using free_descs_run [OF Suc.prems(3) len Suc.prems(4,5)] by blast
    have "upds True idx (vd_free s) = F" using Suc.prems(1,2,6) by (simp add: upds_back)
    moreover have "alloc_descs_loop (Suc n) idx s = (Inr None, s')" using None s'(1) by (simp add: alloc_desc_def)
    moreover have "\<forall>i < NUM. \<not> F ! i \<longrightarrow> upds empty_desc idx (vd_desc s) ! i = vd_desc s ! i"
      using Suc.prems(3,6) by (auto simp: upds_nth)
    ultimately show ?thesis using s'(2) all Suc.prems(3)
      by (intro disjI2 exI [of _ s'] exI [of _ "upds empty_desc idx (vd_desc s)"] exI [of _ idx]) simp
  next
    case (Some i)
    define s1 where "s1 = with_descs (vd_desc s) ((vd_free s)[i := False]) s"
    have i: "i < NUM" "vd_free s ! i" using first_set_Some [OF Some] len by auto
    then have new: "i \<notin> set idx" "F ! i" using Suc.prems(1,2) by (auto simp: upds_nth split: if_splits)
    have "vd_free_update (\<lambda>l. l[i := False]) s = s1" by (simp add: s1_def with_descs_def)
    then have "alloc_descs_loop (Suc n) idx s = alloc_descs_loop n (idx @ [i]) s1" using Some by (simp add: alloc_desc_def)
    moreover have "vd_free s1 = upds False (idx @ [i]) F" "vd_desc s1 = vd_desc s" "wait_inv s1"
      using Suc.prems by (simp_all add: s1_def upds_snoc)
    moreover have "with_descs d f s1 = with_descs d f s" for d f by (simp add: s1_def)
    moreover have "distinct (idx @ [i])" "\<forall>j \<in> set (idx @ [i]). j < NUM \<and> F ! j" using Suc.prems(5,6) new i(1) by auto
    ultimately consider (ok) new where "alloc_descs_loop (Suc n) idx s
          = (Inr (Some (idx @ [i] @ new)), with_descs (vd_desc s) (upds False (idx @ [i] @ new) F) s)"
        "length new = n" "distinct (idx @ [i] @ new)" "\<forall>i \<in> set (idx @ [i] @ new). i < NUM \<and> F ! i"
      | (no) s' d got where "alloc_descs_loop (Suc n) idx s = (Inr None, s')" "woke (with_descs d F s) s'" "length d = NUM"
        "\<forall>i < NUM. \<not> F ! i \<longrightarrow> d ! i = vd_desc s ! i" "{i. i < NUM \<and> F ! i} \<subseteq> set got" "length got < length idx + Suc n"
      using Suc.IH [of s1 "idx @ [i]"] Suc.prems(2,3) by auto
    then show ?thesis
    proof cases
      case ok
      then show ?thesis by (intro disjI1 exI [of _ "i # new"]) simp
    next
      case no
      then show ?thesis by (intro disjI2 exI [of _ s'] exI [of _ d] exI [of _ got]) simp
    qed
  qed
qed

section \<open>How the invariant survives\<close>

lemma desc_invD:
  assumes "desc_inv f s"
  shows "f t = Some (idx, c) \<Longrightarrow> length idx = 3" and "f t = Some (idx, c) \<Longrightarrow> distinct idx"
    and "f t = Some (idx, c) \<Longrightarrow> i \<in> set idx \<Longrightarrow> i < NUM \<and> \<not> vd_free s ! i" and "f t = Some (idx, c) \<Longrightarrow> formatted s idx c"
    and "f t = Some (idx, c) \<Longrightarrow> f u = Some (idx', c') \<Longrightarrow> i \<in> set idx \<Longrightarrow> i \<in> set idx' \<Longrightarrow> t = u"
    and "i < NUM \<Longrightarrow> \<not> vd_free s ! i \<Longrightarrow> \<exists>t idx c. f t = Some (idx, c) \<and> i \<in> set idx"
  using assms unfolding desc_inv_def by (blast, blast, blast, blast, blast, blast)

lemma chain_mem:
  assumes "desc_inv f s" and "f t = Some (idx, c)"
  shows "idx ! 0 \<in> set idx" "idx ! 1 \<in> set idx" "idx ! 2 \<in> set idx" "idx ! 0 \<noteq> idx ! 1" "idx ! 0 \<noteq> idx ! 2" "idx ! 1 \<noteq> idx ! 2"
proof -
  have l: "length idx = 3" "distinct idx" using desc_invD(1,2) [OF assms] by simp_all
  show "idx ! 0 \<in> set idx" "idx ! 1 \<in> set idx" "idx ! 2 \<in> set idx" using l(1) by simp_all
  show "idx ! 0 \<noteq> idx ! 1" "idx ! 0 \<noteq> idx ! 2" "idx ! 1 \<noteq> idx ! 2" using l by (simp_all add: nth_eq_iff_index_eq)
qed

lemma heads_bound: "desc_inv f s \<Longrightarrow> h \<in> heads f \<Longrightarrow> h < NUM \<and> \<not> vd_free s ! h"
  using chain_mem(1) desc_invD(3) unfolding heads_def by blast

lemma finite_heads: "desc_inv f s \<Longrightarrow> finite (heads f)" "desc_inv f s \<Longrightarrow> finite (done_heads f s')"
proof -
  assume inv: "desc_inv f s"
  then have "heads f \<subseteq> {..<NUM}" using heads_bound by blast
  then show "finite (heads f)" by (rule finite_subset) simp
  then show "finite (done_heads f s')" by (simp add: done_heads_def)
qed

text \<open>The fields that the rings and the operations depend on.\<close>

definition same_rings :: "vdisk \<Rightarrow> vdisk \<Rightarrow> bool" where
  "same_rings s s' \<longleftrightarrow> avail_ring s' = avail_ring s \<and> avail_idx s' = avail_idx s \<and> used_ring s' = used_ring s
    \<and> used_dev_idx s' = used_dev_idx s \<and> used_idx s' = used_idx s \<and> dev_seen s' = dev_seen s \<and> dev_work s' = dev_work s
    \<and> info_done s' = info_done s \<and> info_status s' = info_status s \<and> performed s' = performed s \<and> issued s' = issued s"

lemma same_rings_lists:
  assumes "same_rings s s'"
  shows "to_fetch s' = to_fetch s" "to_handle s' = to_handle s" "dev_work s' = dev_work s" "done_heads f s' = done_heads f s"
    "performed s' = performed s" "issued s' = issued s" "info_status s' = info_status s" "info_done s' = info_done s"
  using assms by (simp_all add: same_rings_def to_fetch_def to_handle_def done_heads_def)

lemma formatted_cong:
  assumes "desc_inv f s" and "f t = Some (idx, c)"
    and "\<And>i. i \<in> set idx \<Longrightarrow> vd_desc s' ! i = vd_desc s ! i" and "vd_ops s' ! (idx ! 0) = vd_ops s ! (idx ! 0)"
  shows "formatted s' idx c"
  using desc_invD(4) [OF assms(1,2)] assms(3) chain_mem(1-3) [OF assms(1,2)] assms(4) by (simp add: formatted_def)

lemma vinv_frame:
  assumes inv: "vinv s" and "lengths_ok s'" and rings: "same_rings s s'" and "finished s' = finished s" and "vd_ops s' = vd_ops s"
    and "vd_free s' = vd_free s" and desc: "\<And>i. i < NUM \<Longrightarrow> \<not> vd_free s ! i \<Longrightarrow> vd_desc s' ! i = vd_desc s ! i"
    and fl: "flights s' = flights s" and "wait_inv s'"
  shows "vinv s'"
proof -
  let ?f = "flights s"
  have d: "desc_inv ?f s" "ring_inv ?f s" "ops_inv ?f s" using inv by (simp_all add: vinv_def)
  have "formatted s' idx c" if "?f t = Some (idx, c)" for t idx c
    by (rule formatted_cong [OF d(1) that]) (use desc desc_invD(3) [OF d(1) that] assms(5) in auto)
  then have "desc_inv ?f s'" using d(1) unfolding desc_inv_def assms(6) by blast
  moreover have "ring_inv ?f s'" using d(2) same_rings_lists [OF rings] by (simp add: ring_inv_def)
  moreover have "ops_inv ?f s'" using d(3) same_rings_lists [OF rings] assms(4) by (simp add: ops_inv_def)
  ultimately show ?thesis using assms(2,9) by (simp add: vinv_def fl)
qed

lemma headsI: "f t = Some (idx, c) \<Longrightarrow> idx ! 0 \<in> heads f"
  unfolding heads_def by blast

lemma headsE: "h \<in> heads f \<Longrightarrow> (\<And>t idx c. f t = Some (idx, c) \<Longrightarrow> h = idx ! 0 \<Longrightarrow> thesis) \<Longrightarrow> thesis"
  unfolding heads_def by blast

lemma heads_upd:
  assumes "f t = None"
  shows "heads (f(t \<mapsto> (idx, c))) = insert (idx ! 0) (heads f)"
  using assms unfolding heads_def by (auto split: if_splits; metis option.distinct(1))

lemma ring_room:
  assumes "desc_inv f s" and "distinct l" and "set l \<subseteq> heads f" and "h < NUM" and "h \<notin> set l"
  shows "length l < NUM"
proof -
  have "set l \<subseteq> {..<NUM} - {h}" using assms heads_bound by fastforce
  then have "card (set l) \<le> card ({..<NUM} - {h})" by (rule card_mono [rotated]) simp
  then show ?thesis using assms(2,4) by (simp add: distinct_card NUM_def)
qed

lemma vinv_start:
  assumes inv: "vinv s" and t: "flights s t = None"
    and idx: "length idx = 3" "distinct idx" "\<forall>i \<in> set idx. i < NUM \<and> vd_free s ! i"
    and "lengths_ok s'" and "formatted s' idx c"
    and desc: "\<And>i. i < NUM \<Longrightarrow> i \<notin> set idx \<Longrightarrow> vd_desc s' ! i = vd_desc s ! i \<and> vd_free s' ! i = vd_free s ! i"
    and free: "\<And>i. i \<in> set idx \<Longrightarrow> \<not> vd_free s' ! i"
    and ops: "\<And>i. i < NUM \<Longrightarrow> i \<noteq> idx ! 0 \<Longrightarrow> vd_ops s' ! i = vd_ops s ! i \<and> info_done s' ! i = info_done s ! i \<and> info_status s' ! i = info_status s ! i"
    and "\<not> info_done s' ! (idx ! 0)"
    and rings: "avail_ring s' = (avail_ring s)[unat (avail_idx s) mod NUM := idx ! 0]" "avail_idx s' = avail_idx s + 1"
      "used_ring s' = used_ring s" "used_dev_idx s' = used_dev_idx s" "used_idx s' = used_idx s" "dev_seen s' = dev_seen s" "dev_work s' = dev_work s"
      "performed s' = performed s" "finished s' = finished s" "issued s' = issued s @ [op_of c]"
    and fl: "flights s' = (flights s)(t \<mapsto> (idx, c))" and "wait_inv s'"
  shows "vinv s'"
proof -
  let ?f = "flights s" and ?f' = "(flights s)(t \<mapsto> (idx, c))" and ?h = "idx ! 0"
  have d: "desc_inv ?f s" "ring_inv ?f s" "ops_inv ?f s" "lengths_ok s" using inv by (simp_all add: vinv_def)
  have h: "?h \<in> set idx" "?h < NUM" "vd_free s ! ?h" using idx by auto
  have old: "i \<notin> set idx" if "?f u = Some (jdx, e)" "i \<in> set jdx" for u jdx e i
    using desc_invD(3) [OF d(1) that] idx(3) by auto
  have hh: "?h \<notin> heads ?f" using heads_bound [OF d(1)] h(3) by blast
  have fm: "formatted s' jdx e" if "?f u = Some (jdx, e)" for u jdx e
  proof (rule formatted_cong [OF d(1) that])
    fix i assume "i \<in> set jdx"
    then show "vd_desc s' ! i = vd_desc s ! i" using desc old [OF that] desc_invD(3) [OF d(1) that] by blast
  next
    have "jdx ! 0 \<in> set jdx" by (rule chain_mem(1) [OF d(1) that])
    then show "vd_ops s' ! (jdx ! 0) = vd_ops s ! (jdx ! 0)"
      using ops [of "jdx ! 0"] old [OF that] desc_invD(3) [OF d(1) that] h(1) by metis
  qed
  have "desc_inv ?f' s'"
    unfolding desc_inv_def
  proof (intro conjI allI impI)
    fix u jdx e assume u: "?f' u = Some (jdx, e)"
    show "length jdx = 3" "distinct jdx" "formatted s' jdx e"
      using u idx assms(7) fm desc_invD(1,2) [OF d(1)] by (auto split: if_splits)
    show "\<forall>i \<in> set jdx. i < NUM \<and> \<not> vd_free s' ! i"
    proof (cases "u = t")
      case False
      then show ?thesis using u desc old desc_invD(3) [OF d(1)] by (metis fun_upd_other)
    qed (use u idx free in auto)
  next
    fix u v jdx e jdx' e' assume "?f' u = Some (jdx, e) \<and> ?f' v = Some (jdx', e') \<and> set jdx \<inter> set jdx' \<noteq> {}"
    then show "u = v" using old desc_invD(5) [OF d(1)] by (auto split: if_splits)
  next
    fix i assume i: "i < NUM" "\<not> vd_free s' ! i"
    show "\<exists>u jdx e. ?f' u = Some (jdx, e) \<and> i \<in> set jdx"
    proof (cases "i \<in> set idx")
      case False
      then obtain u jdx e where "?f u = Some (jdx, e)" "i \<in> set jdx" using desc_invD(6) [OF d(1)] i desc by metis
      then show ?thesis using t by (intro exI [of _ u]) auto
    qed (auto intro: exI [of _ t])
  qed
  have room: "length (to_fetch s) < NUM"
    by (rule ring_room [OF d(1) _ _ h(2)]) (use d(2) hh in \<open>auto simp: ring_inv_def\<close>)
  have lists: "to_fetch s' = to_fetch s @ [?h]" "to_handle s' = to_handle s"
    using room d(4) by (simp_all add: to_fetch_def to_handle_def rings window_push window_length lengths_ok_def)
  have dh: "done_heads ?f' s' = done_heads ?f s"
    using assms(11) ops hh heads_bound [OF d(1)] by (auto simp: done_heads_def heads_upd [of ?f, OF t])
  have "ring_inv ?f' s'"
  proof -
    have "?h \<notin> done_heads ?f s" using hh by (simp add: done_heads_def)
    moreover have "info_status s' ! i = 0" if "i \<in> set (to_handle s)" for i
    proof -
      have "i \<in> heads ?f" "info_status s ! i = 0" using that d(2) by (auto simp: ring_inv_def)
      then show ?thesis using ops [of i] heads_bound [OF d(1), of i] hh by metis
    qed
    ultimately show ?thesis
      using d(2) hh unfolding ring_inv_def lists rings(7) dh heads_upd [of ?f, OF t] by auto
  qed
  moreover have "ops_inv ?f' s'"
  proof -
    obtain hop where hop: "\<forall>t idx c. ?f t = Some (idx, c) \<longrightarrow> hop (idx ! 0) = op_of c"
        "mset (issued s) = mset (performed s) + image_mset hop (mset (to_fetch s @ dev_work s))"
        "mset (performed s) = mset (finished s) + image_mset hop (mset (to_handle s)) + image_mset hop (mset_set (done_heads ?f s))"
      using d(3) unfolding ops_inv_def by blast
    let ?hop = "hop(?h := op_of c)"
    have same: "image_mset ?hop M = image_mset hop M" if "set_mset M \<subseteq> heads ?f" for M
      using that hh by (intro image_mset_cong) auto
    have sub: "set (to_fetch s @ dev_work s) \<subseteq> heads ?f" "set (to_handle s) \<subseteq> heads ?f" "done_heads ?f s \<subseteq> heads ?f"
      using d(2) by (auto simp: ring_inv_def done_heads_def)
    have "jdx ! 0 \<noteq> ?h" if "?f u = Some (jdx, e)" for u jdx e using hh headsI [of ?f, OF that] by metis
    then have "\<forall>u jdx e. ?f' u = Some (jdx, e) \<longrightarrow> ?hop (jdx ! 0) = op_of e" using hop(1) by auto
    moreover have "mset (issued s') = mset (performed s') + image_mset ?hop (mset (to_fetch s' @ dev_work s'))"
      using hop(2) same [of "mset (to_fetch s @ dev_work s)"] sub(1) by (simp add: lists rings)
    moreover have "mset (performed s') = mset (finished s') + image_mset ?hop (mset (to_handle s')) + image_mset ?hop (mset_set (done_heads ?f' s'))"
      using hop(3) same [of "mset (to_handle s)"] same [of "mset_set (done_heads ?f s)"] sub finite_heads(2) [OF d(1)]
      by (simp add: lists rings dh)
    ultimately show ?thesis unfolding ops_inv_def by blast
  qed
  ultimately show ?thesis using assms(6) \<open>desc_inv ?f' s'\<close> \<open>wait_inv s'\<close> by (simp add: vinv_def fl)
qed

lemma heads_del:
  assumes "desc_inv f s" and "f t = Some (idx, c)"
  shows "heads (f(t := None)) = heads f - {idx ! 0}"
proof -
  have "jdx ! 0 \<noteq> idx ! 0" if "f u = Some (jdx, e)" "u \<noteq> t" for u jdx e
  proof
    assume "jdx ! 0 = idx ! 0"
    then show False using desc_invD(5) [OF assms(1) that(1) assms(2)] chain_mem(1) [OF assms] chain_mem(1) [OF assms(1) that(1)] that(2) by metis
  qed
  note ne = this
  show ?thesis
  proof (intro equalityI subsetI)
    fix h assume "h \<in> heads (f(t := None))"
    then obtain u jdx e where "(f(t := None)) u = Some (jdx, e)" "h = jdx ! 0" by (rule headsE)
    then show "h \<in> heads f - {idx ! 0}" using ne headsI [of f u jdx e] by (auto split: if_splits)
  next
    fix h assume h: "h \<in> heads f - {idx ! 0}"
    then obtain u jdx e where u: "f u = Some (jdx, e)" "h = jdx ! 0" by (blast elim: headsE)
    then have "u \<noteq> t" using h assms(2) by auto
    then show "h \<in> heads (f(t := None))" using u headsI [of "f(t := None)" u jdx e] by simp
  qed
qed

lemma vinv_finish:
  assumes inv: "vinv s" and t: "flights s t = Some (idx, c)" and dn: "info_done s ! (idx ! 0)"
    and "lengths_ok s'" and rings: "same_rings s s'" and "finished s' = finished s @ [op_of c]" and "vd_ops s' = vd_ops s"
    and desc: "\<And>i. i < NUM \<Longrightarrow> i \<notin> set idx \<Longrightarrow> vd_desc s' ! i = vd_desc s ! i \<and> vd_free s' ! i = vd_free s ! i"
    and free: "\<And>i. i \<in> set idx \<Longrightarrow> vd_free s' ! i"
    and fl: "flights s' = (flights s)(t := None)" and "wait_inv s'"
  shows "vinv s'"
proof -
  let ?f = "flights s" and ?f' = "(flights s)(t := None)" and ?h = "idx ! 0"
  have d: "desc_inv ?f s" "ring_inv ?f s" "ops_inv ?f s" using inv by (simp_all add: vinv_def)
  have other: "i \<notin> set idx" if "?f u = Some (jdx, e)" "u \<noteq> t" "i \<in> set jdx" for u jdx e i
    using desc_invD(5) [OF d(1) that(1) t that(3)] that(2) by blast
  have "formatted s' jdx e" if "?f u = Some (jdx, e)" "u \<noteq> t" for u jdx e
    by (rule formatted_cong [OF d(1) that(1)]) (use desc other [OF that] desc_invD(3) [OF d(1) that(1)] assms(7) in auto)
  moreover have "i < NUM \<and> \<not> vd_free s' ! i" if "?f u = Some (jdx, e)" "u \<noteq> t" "i \<in> set jdx" for u jdx e i
    using desc other [OF that] desc_invD(3) [OF d(1) that(1,3)] by auto
  moreover have "\<exists>u jdx e. ?f' u = Some (jdx, e) \<and> i \<in> set jdx" if i: "i < NUM" "\<not> vd_free s' ! i" for i
  proof -
    have "i \<notin> set idx" using free i(2) by blast
    then obtain u jdx e where "?f u = Some (jdx, e)" "i \<in> set jdx" using desc_invD(6) [OF d(1) i(1)] desc [OF i(1)] i(2) by metis
    then show ?thesis using t \<open>i \<notin> set idx\<close> by (intro exI [of _ u] exI [of _ jdx] exI [of _ e]) auto
  qed
  ultimately have "desc_inv ?f' s'"
    using desc_invD(1,2,5) [OF d(1)] unfolding desc_inv_def by (auto split: if_splits)
  moreover have hd: "heads ?f' = heads ?f - {?h}" by (rule heads_del [OF d(1) t])
  have hin: "?h \<in> done_heads ?f s" using t dn by (auto simp: done_heads_def heads_def)
  have dh: "done_heads ?f' s' = done_heads ?f s - {?h}"
    unfolding done_heads_def hd using same_rings_lists(8) [OF rings] by auto
  have "ring_inv ?f' s'"
    using d(2) hin unfolding ring_inv_def hd dh same_rings_lists(1-3,7) [OF rings] by auto
  moreover have "ops_inv ?f' s'"
  proof -
    obtain hop where hop: "\<forall>t idx c. ?f t = Some (idx, c) \<longrightarrow> hop (idx ! 0) = op_of c"
        "mset (issued s) = mset (performed s) + image_mset hop (mset (to_fetch s @ dev_work s))"
        "mset (performed s) = mset (finished s) + image_mset hop (mset (to_handle s)) + image_mset hop (mset_set (done_heads ?f s))"
      using d(3) unfolding ops_inv_def by blast
    have "mset_set (done_heads ?f s) = add_mset ?h (mset_set (done_heads ?f s - {?h}))"
      using hin finite_heads(2) [OF d(1)] by (simp add: mset_set.remove)
    moreover have "hop ?h = op_of c" using hop(1) t by blast
    ultimately have "mset (performed s') = mset (finished s') + image_mset hop (mset (to_handle s')) + image_mset hop (mset_set (done_heads ?f' s'))"
      using hop(3) by (simp add: dh same_rings_lists(1-3,5,6) [OF rings] assms(6))
    moreover have "\<forall>u jdx e. ?f' u = Some (jdx, e) \<longrightarrow> hop (jdx ! 0) = op_of e" using hop(1) by (auto split: if_splits)
    ultimately show ?thesis using hop(2) unfolding ops_inv_def by (metis same_rings_lists(1,3,5,6) [OF rings])
  qed
  ultimately show ?thesis using assms(4) \<open>wait_inv s'\<close> by (simp add: vinv_def fl)
qed

text \<open>The steps of the device and of the interrupt handler move a chain from one stage to the next.\<close>

lemma vinv_fetch:
  assumes inv: "vinv s" and ne: "dev_seen s \<noteq> avail_idx s"
  shows "\<exists>s'. device_fetch s = (Inr (), s') \<and> vinv s' \<and> (vlive s' \<longleftrightarrow> vlive s)"
proof -
  let ?f = "flights s"
  have d: "desc_inv ?f s" "ring_inv ?f s" "ops_inv ?f s" "lengths_ok s" "wait_inv s" using inv by (simp_all add: vinv_def)
  define h where "h = avail_ring s ! (unat (dev_seen s) mod NUM)"
  define s' where "s' = s\<lparr>dev_seen := dev_seen s + 1, dev_work := dev_work s @ [h]\<rparr>"
  have run: "device_fetch s = (Inr (), s')"
    using d(4) by (simp add: device_fetch_def lengths_ok_def NUM_def s'_def h_def)
  have tf: "to_fetch s = h # to_fetch s'" using window_pop [OF ne] by (simp add: to_fetch_def s'_def h_def)
  have same: "flights s' = ?f" "to_handle s' = to_handle s" "done_heads ?f s' = done_heads ?f s" "dev_work s' = dev_work s @ [h]"
    "lengths_ok s' = lengths_ok s" "wait_inv s' = wait_inv s" "desc_inv ?f s' = desc_inv ?f s" "info_status s' = info_status s"
    "issued s' = issued s" "performed s' = performed s" "finished s' = finished s" "vlive s' = vlive s"
    by (simp_all add: s'_def vlive_def flights_def to_handle_def done_heads_def lengths_ok_def wait_inv_def desc_inv_def formatted_def)
  have "ring_inv ?f s'" using d(2) unfolding ring_inv_def tf same by auto
  moreover have "ops_inv ?f s'" using d(3) unfolding ops_inv_def tf same by (simp add: add.commute add.left_commute)
  ultimately show ?thesis using run d same by (intro exI [of _ s']) (simp add: vinv_def)
qed

lemma read_chain_formatted:
  assumes "lengths_ok s" and "desc_inv f s" and "f t = Some (idx, c)"
  shows "read_chain s (idx ! 0) = Some (op_of c, idx ! 0)"
proof -
  have "idx ! 0 < NUM" "idx ! 1 < NUM" "idx ! 2 < NUM"
    using desc_invD(3) [OF assms(2,3)] chain_mem(1-3) [OF assms(2,3)] by blast+
  then show ?thesis
    using desc_invD(4) [OF assms(2,3)] assms(1)
    by (simp add: formatted_def read_chain_def lengths_ok_def op_of_def)
qed

lemma vinv_complete:
  assumes inv: "vinv s" and h: "h \<in> set (dev_work s)"
  shows "\<exists>s'. device_complete h s = (Inr (), s') \<and> vinv s' \<and> (vlive s' \<longleftrightarrow> vlive s)"
proof -
  let ?f = "flights s"
  have d: "desc_inv ?f s" "ring_inv ?f s" "ops_inv ?f s" "lengths_ok s" "wait_inv s" using inv by (simp_all add: vinv_def)
  have "h \<in> heads ?f" using d(2) h by (auto simp: ring_inv_def)
  then obtain t idx c where t: "?f t = Some (idx, c)" "h = idx ! 0" by (rule headsE)
  have hb: "h < NUM" using heads_bound [OF d(1)] \<open>h \<in> heads ?f\<close> by blast
  define s' where "s' = s\<lparr>performed := performed s @ [op_of c], info_status := (info_status s)[h := 0], dev_work := remove1 h (dev_work s),
      used_ring := (used_ring s)[unat (used_dev_idx s) mod NUM := h], used_dev_idx := used_dev_idx s + 1\<rparr>"
  have run: "device_complete h s = (Inr (), s')"
    using read_chain_formatted [OF d(4,1) t(1)] by (simp add: device_complete_def t(2) s'_def)
  have dist: "distinct (to_fetch s @ dev_work s @ to_handle s)" using d(2) by (simp add: ring_inv_def)
  have room: "length (to_handle s) < NUM"
    by (rule ring_room [OF d(1) _ _ hb]) (use d(2) h in \<open>auto simp: ring_inv_def\<close>)
  have th: "to_handle s' = to_handle s @ [h]"
    using room d(4) by (simp add: to_handle_def s'_def window_push window_length lengths_ok_def)
  have same: "flights s' = ?f" "to_fetch s' = to_fetch s" "done_heads ?f s' = done_heads ?f s" "dev_work s' = remove1 h (dev_work s)"
    "lengths_ok s' = lengths_ok s" "wait_inv s' = wait_inv s" "desc_inv ?f s' = desc_inv ?f s" "info_status s' = (info_status s)[h := 0]"
    "issued s' = issued s" "performed s' = performed s @ [op_of c]" "finished s' = finished s" "vlive s' = vlive s"
    by (simp_all add: s'_def vlive_def flights_def to_fetch_def done_heads_def lengths_ok_def wait_inv_def desc_inv_def formatted_def)
  have "set (remove1 h (dev_work s)) = set (dev_work s) - {h}" using dist by simp
  moreover have "(info_status s)[h := 0] ! i = 0" if "i \<in> insert h (set (to_handle s))" for i
    using that d(2,4) hb by (auto simp: ring_inv_def lengths_ok_def nth_list_update)
  ultimately have "ring_inv ?f s'" using d(2) h unfolding ring_inv_def th same by auto
  moreover have "ops_inv ?f s'"
  proof -
    obtain hop where hop: "\<forall>t idx c. ?f t = Some (idx, c) \<longrightarrow> hop (idx ! 0) = op_of c"
        "mset (issued s) = mset (performed s) + image_mset hop (mset (to_fetch s @ dev_work s))"
        "mset (performed s) = mset (finished s) + image_mset hop (mset (to_handle s)) + image_mset hop (mset_set (done_heads ?f s))"
      using d(3) unfolding ops_inv_def by blast
    have "hop h = op_of c" using hop(1) t by blast
    moreover obtain R where "mset (dev_work s) = add_mset h R" using h by (metis insert_DiffM set_mset_mset)
    ultimately have "mset (issued s') = mset (performed s') + image_mset hop (mset (to_fetch s' @ dev_work s'))"
      "mset (performed s') = mset (finished s') + image_mset hop (mset (to_handle s')) + image_mset hop (mset_set (done_heads ?f s'))"
      using hop(2,3) by (simp_all add: same th)
    then show ?thesis using hop(1) unfolding ops_inv_def by blast
  qed
  ultimately show ?thesis using run d same by (intro exI [of _ s']) (simp add: vinv_def)
qed

text \<open>One entry of the used ring: the task that waits for the chain is woken.\<close>

lemma info_wake_up_run:
  assumes wi: "wait_inv s" and i: "i < NUM" "length (info_wait s) = NUM"
  shows "\<exists>s'. info_wake_up i s = (Inr (), s') \<and> s' = s\<lparr>vtasks := vtasks s', info_wait := info_wait s'\<rparr> \<and> flights s' = flights s
    \<and> wait_inv s' \<and> length (info_wait s') = NUM \<and> info_wait s' ! i = None
    \<and> (\<forall>t. vtasks s' t = vtasks s t \<or> (\<exists>idx c. vtasks s t = V_Wait idx c \<and> vtasks s' t = V_Woken idx c))"
proof (cases "info_wait s ! i")
  case None
  then show ?thesis using assms by (intro exI [of _ s]) (simp add: info_wake_up_def)
next
  case (Some t)
  then obtain idx c where t: "vtasks s t = V_Wait idx c" "idx ! 0 = i" using wait_invD(1) [OF wi i(1)] by blast
  define s' where "s' = s\<lparr>vtasks := (vtasks s)(t := V_Woken idx c), info_wait := (info_wait s)[i := None]\<rparr>"
  have s': "vtasks s' = (vtasks s)(t := V_Woken idx c)" "info_wait s' = (info_wait s)[i := None]" "request_queue s' = request_queue s"
    by (simp_all add: s'_def)
  have "info_wake_up i s = (Inr (), s')" using Some t i by (simp add: info_wake_up_def set_vtask_def s'_def)
  moreover have "s' = s\<lparr>vtasks := vtasks s', info_wait := info_wait s'\<rparr>" by (simp add: s'_def)
  moreover have "flights s' = flights s" using t by (auto simp: flights_def s' fun_eq_iff)
  moreover have "wait_inv s'"
  proof (rule wait_invI)
    fix j u assume j: "j < NUM"
    have old: "info_wait s ! j = Some u \<longleftrightarrow> (\<exists>idx c. vtasks s u = V_Wait idx c \<and> idx ! 0 = j)" by (rule wait_invD(1) [OF wi j])
    show "info_wait s' ! j = Some u \<longleftrightarrow> (\<exists>idx c. vtasks s' u = V_Wait idx c \<and> idx ! 0 = j)"
    proof (cases "u = t")
      case True
      then have "info_wait s ! j = Some u \<longrightarrow> j = i" using old t by auto
      then show ?thesis using True i j Some by (auto simp: s' nth_list_update)
    next
      case False
      then show ?thesis using old i j Some by (auto simp: s' nth_list_update)
    qed
  next
    fix u show "u \<in> set (request_queue s') \<longleftrightarrow> (\<exists>c. vtasks s' u = V_Asleep c)"
      using wait_invD(3) [OF wi, of u] t by (cases "u = t") (simp_all add: s')
  qed (use wait_invD(2) [OF wi] in \<open>simp add: s'\<close>)
  ultimately show ?thesis using i t(1) by (intro exI [of _ s']) (auto simp: s')
qed

lemma vinv_intr_one:
  assumes inv: "vinv s" and ne: "used_idx s \<noteq> used_dev_idx s"
  shows "\<exists>s'. intr_one s = (Inr (), s') \<and> vinv s' \<and> used_idx s' = used_idx s + 1 \<and> used_dev_idx s' = used_dev_idx s
    \<and> (vlive s \<longrightarrow> vlive s')"
proof -
  let ?f = "flights s"
  have d: "desc_inv ?f s" "ring_inv ?f s" "ops_inv ?f s" "lengths_ok s" "wait_inv s" using inv by (simp_all add: vinv_def)
  define h where "h = used_ring s ! (unat (used_idx s) mod NUM)"
  define s1 where "s1 = s\<lparr>used_idx := used_idx s + 1, info_done := (info_done s)[h := True]\<rparr>"
  have th: "to_handle s = h # to_handle s1" using window_pop [OF ne] by (simp add: to_handle_def s1_def h_def)
  have hh: "h \<in> heads ?f" "info_status s ! h = 0" "h \<notin> done_heads ?f s" using d(2) by (auto simp: ring_inv_def th)
  have hb: "h < NUM" using heads_bound [OF d(1) hh(1)] by simp
  have s1: "wait_inv s1" "length (info_wait s1) = NUM" "flights s1 = ?f" "vtasks s1 = vtasks s" "request_queue s1 = request_queue s"
    using d(4,5) by (simp_all add: s1_def wait_inv_def lengths_ok_def flights_def)
  obtain s' where s': "info_wake_up h s1 = (Inr (), s')" "s' = s1\<lparr>vtasks := vtasks s', info_wait := info_wait s'\<rparr>" "flights s' = flights s1"
      "wait_inv s'" "length (info_wait s') = NUM" "info_wait s' ! h = None"
      "\<forall>t. vtasks s' t = vtasks s1 t \<or> (\<exists>idx c. vtasks s1 t = V_Wait idx c \<and> vtasks s' t = V_Woken idx c)"
    using info_wake_up_run [OF s1(1) hb s1(2)] by blast
  obtain v w where eq: "s' = s1\<lparr>vtasks := v, info_wait := w\<rparr>" using s'(2) by blast
  have upd: "info_done_update (\<lambda>l. l[h := True]) (used_idx_update (\<lambda>n. n + 1) s) = s1" by (simp add: s1_def)
  have "arr_get (used_ring s) (unat (used_idx s) mod NUM) = Some h" using d(4) by (simp add: h_def lengths_ok_def NUM_def)
  moreover have "arr_get (info_status s) h = Some 0" using d(4) hb hh(2) by (simp add: lengths_ok_def)
  ultimately have run: "intr_one s = (Inr (), s')" using s'(1) by (simp add: intr_one_def upd)
  have same: "to_fetch s' = to_fetch s" "dev_work s' = dev_work s" "to_handle s' = to_handle s1" "info_status s' = info_status s"
    "info_done s' = (info_done s)[h := True]" "desc_inv ?f s' = desc_inv ?f s" "performed s' = performed s" "issued s' = issued s"
    "finished s' = finished s" "used_idx s' = used_idx s + 1" "used_dev_idx s' = used_dev_idx s" "request_queue s' = request_queue s"
    unfolding eq by (simp_all add: s1_def to_fetch_def to_handle_def desc_inv_def formatted_def)
  have len: "lengths_ok s'" using d(4) s'(5) unfolding eq by (simp add: lengths_ok_def s1_def)
  have dh: "done_heads ?f s' = insert h (done_heads ?f s)"
    using hh(1) heads_bound [OF d(1)] d(4) by (auto simp: done_heads_def same lengths_ok_def nth_list_update)
  have "ring_inv ?f s'" using d(2) hh unfolding ring_inv_def same dh th by auto
  moreover have "ops_inv ?f s'"
  proof -
    have "mset_set (done_heads ?f s') = add_mset h (mset_set (done_heads ?f s))"
      using hh(3) finite_heads(2) [OF d(1)] by (simp add: dh)
    then show ?thesis using d(3) unfolding ops_inv_def same th by simp
  qed
  ultimately have "vinv s'" using d(1) len s'(3,4) s1(3) same(6) by (simp add: vinv_def)
  moreover have retry: "vtasks s' t = V_Retry c" if "vtasks s t = V_Retry c" for t c using that s1(4) spec [OF s'(7), of t] by auto
  have kept: "vtasks s t = v" if "vtasks s' t = v" "\<forall>idx c. v \<noteq> V_Woken idx c" for t v using that s'(7) s1(4) by metis
  have "vlive s'" if "vlive s"
  proof (rule vliveI)
    show "request_queue s' = [] \<or> (\<exists>t c. vtasks s' t = V_Retry c) \<or> heads (flights s') \<noteq> {}"
      using vliveD(1) [OF that] retry unfolding same(12) s'(3) s1(3) by blast
  next
    fix t idx c assume t: "vtasks s' t = V_Wait idx c"
    then have "vtasks s t = V_Wait idx c" using kept by simp
    moreover have "idx ! 0 \<noteq> h" using wait_invD(1) [OF s'(4) hb, of t] s'(6) t by auto
    ultimately show "\<not> info_done s' ! (idx ! 0)" using vliveD(2) [OF that] by (simp add: same)
  next
    fix t idx c assume "vtasks s' t = V_Failed idx c"
    then have "vtasks s t = V_Failed idx c" using kept by simp
    then show "driver_stuck s'" using vliveD(3) [OF that] unfolding eq by (simp add: s1_def)
  qed
  ultimately show ?thesis using run same by (intro exI [of _ s']) simp
qed

lemma vinv_intr_loop:
  assumes "vinv s" and "vlive s" and "n = unat (used_dev_idx s - used_idx s)"
  shows "\<exists>s'. intr_loop n s = (Inr (), s') \<and> vinv s' \<and> vlive s'"
  using assms
proof (induction n arbitrary: s)
  case (Suc n)
  then have ne: "used_idx s \<noteq> used_dev_idx s" by auto
  then obtain s1 where s1: "intr_one s = (Inr (), s1)" "vinv s1" "used_idx s1 = used_idx s + 1" "used_dev_idx s1 = used_dev_idx s" "vlive s1"
    using vinv_intr_one [OF Suc.prems(1)] Suc.prems(2) by blast
  have "used_dev_idx s1 - used_idx s1 = (used_dev_idx s - used_idx s) - 1" by (simp add: s1 diff_diff_eq)
  moreover have "used_dev_idx s - used_idx s \<noteq> 0" using ne by simp
  ultimately have "n = unat (used_dev_idx s1 - used_idx s1)"
    using Suc.prems(3) unat_minus_one [of "used_dev_idx s - used_idx s"] by simp
  then obtain s2 where "intr_loop n s1 = (Inr (), s2)" "vinv s2" "vlive s2" using Suc.IH [OF s1(2,5)] by blast
  then show ?case using s1(1) by auto
qed auto

section \<open>Commands\<close>

text \<open>The state after the chain \<open>i0\<close>, \<open>i1\<close>, \<open>i2\<close> was filled in and handed to the device.\<close>

definition handed :: "nat \<Rightarrow> nat \<Rightarrow> nat \<Rightarrow> disk_request \<Rightarrow> vdisk \<Rightarrow> vdisk" where
  "handed i0 i1 i2 c s = s\<lparr>vd_ops := (vd_ops s)[i0 := \<lparr>req_type = dr_command c, req_sector = sector_of (dr_block c)\<rparr>],
    vd_desc := (vd_desc s)[i0 := \<lparr>vq_addr = Op_Addr i0, vq_len = 16, vq_flags = VRING_DESC_F_NEXT, vq_next = i1\<rparr>,
      i1 := \<lparr>vq_addr = Buffer_Addr (dr_buffer c), vq_len = DISK_BLOCK_SIZE, vq_flags = data_flags (dr_command c), vq_next = i2\<rparr>,
      i2 := \<lparr>vq_addr = Status_Addr i0, vq_len = 1, vq_flags = VRING_DESC_F_WRITE, vq_next = 0\<rparr>],
    info_status := (info_status s)[i0 := 0xfb], info_done := (info_done s)[i0 := False],
    avail_ring := (avail_ring s)[unat (avail_idx s) mod NUM := i0], avail_idx := avail_idx s + 1, issued := issued s @ [op_of c]\<rparr>"

lemma hand_over:
  assumes "lengths_ok s" and "i0 < NUM" and "i1 < NUM" and "i2 < NUM"
  shows "kseq (format_chain i0 i1 i2 c) (kseq (make_available i0) (kseq (kmod (issued_update (\<lambda>l. l @ [op_of c]))) m)) s
    = m (handed i0 i1 i2 c s)"
  using assms
  by (cases s) (simp add: lengths_ok_def format_chain_def set_desc_def make_available_def handed_def)

text \<open>How the queues follow a task that goes to sleep, waits, or does neither.\<close>

lemma wait_inv_other:
  assumes wi: "wait_inv s" and old: "\<forall>c. vtasks s t \<noteq> V_Asleep c" "\<forall>idx c. vtasks s t \<noteq> V_Wait idx c"
    and new: "\<forall>c. v \<noteq> V_Asleep c" "\<forall>idx c. v \<noteq> V_Wait idx c"
    and s': "vtasks s' = (vtasks s)(t := v)" "request_queue s' = request_queue s" "info_wait s' = info_wait s"
  shows "wait_inv s'"
proof (rule wait_invI)
  fix i u assume "i < NUM"
  then show "info_wait s' ! i = Some u \<longleftrightarrow> (\<exists>idx c. vtasks s' u = V_Wait idx c \<and> idx ! 0 = i)"
    using wait_invD(1) [OF wi, of i u] old new by (cases "u = t") (simp_all add: s')
next
  fix u show "u \<in> set (request_queue s') \<longleftrightarrow> (\<exists>c. vtasks s' u = V_Asleep c)"
    using wait_invD(3) [OF wi, of u] old new by (cases "u = t") (simp_all add: s')
qed (use wait_invD(2) [OF wi] in \<open>simp add: s'\<close>)

lemma wait_inv_sleep:
  assumes wi: "wait_inv s" and old: "\<forall>c. vtasks s t \<noteq> V_Asleep c" "\<forall>idx c. vtasks s t \<noteq> V_Wait idx c"
    and s': "vtasks s' = (vtasks s)(t := V_Asleep c)" "request_queue s' = request_queue s @ [t]" "info_wait s' = info_wait s"
  shows "wait_inv s'"
proof (rule wait_invI)
  fix i u assume "i < NUM"
  then show "info_wait s' ! i = Some u \<longleftrightarrow> (\<exists>idx c. vtasks s' u = V_Wait idx c \<and> idx ! 0 = i)"
    using wait_invD(1) [OF wi, of i u] old by (cases "u = t") (simp_all add: s')
next
  fix u show "u \<in> set (request_queue s') \<longleftrightarrow> (\<exists>c. vtasks s' u = V_Asleep c)"
    using wait_invD(3) [OF wi, of u] old by (cases "u = t") (simp_all add: s')
next
  show "distinct (request_queue s')" using wait_invD(2) [OF wi] wait_invD(3) [OF wi, of t] old(1) by (simp add: s')
qed

lemma wait_inv_wait:
  assumes wi: "wait_inv s" and old: "\<forall>c. vtasks s t \<noteq> V_Asleep c" "\<forall>idx c. vtasks s t \<noteq> V_Wait idx c"
    and len: "length (info_wait s) = NUM" and alone: "\<And>u jdx e. vtasks s u = V_Wait jdx e \<Longrightarrow> jdx ! 0 \<noteq> idx ! 0"
    and s': "vtasks s' = (vtasks s)(t := V_Wait idx c)" "request_queue s' = request_queue s" "info_wait s' = (info_wait s)[idx ! 0 := Some t]"
  shows "wait_inv s'"
proof (rule wait_invI)
  fix i u assume i: "i < NUM"
  have "info_wait s ! i = Some u \<longleftrightarrow> (\<exists>idx c. vtasks s u = V_Wait idx c \<and> idx ! 0 = i)" by (rule wait_invD(1) [OF wi i])
  then show "info_wait s' ! i = Some u \<longleftrightarrow> (\<exists>idx c. vtasks s' u = V_Wait idx c \<and> idx ! 0 = i)"
    using old alone i len by (cases "u = t"; cases "i = idx ! 0") (auto simp: s')
next
  fix u show "u \<in> set (request_queue s') \<longleftrightarrow> (\<exists>c. vtasks s' u = V_Asleep c)"
    using wait_invD(3) [OF wi, of u] old by (cases "u = t") (simp_all add: s')
qed (use wait_invD(2) [OF wi] in \<open>simp add: s'\<close>)

text \<open>The wait for a completion that has not come yet, whatever the task did before.\<close>

lemma vlive_frame:
  assumes lv: "vlive s" and s': "vtasks s' = (vtasks s)(t := v)" "info_done s' = info_done s" "request_queue s' = request_queue s"
    and fl: "flights s' = flights s" and t: "\<forall>c. vtasks s t \<noteq> V_Retry c"
    and new: "\<And>idx c. v = V_Wait idx c \<Longrightarrow> \<not> info_done s ! (idx ! 0)" "\<And>idx c. v = V_Failed idx c \<Longrightarrow> driver_stuck s'"
    and "driver_stuck s \<longrightarrow> driver_stuck s'"
  shows "vlive s'"
proof (rule vliveI)
  have "\<exists>u c. vtasks s' u = V_Retry c" if "vtasks s u = V_Retry c" for u c
    using that t by (intro exI [of _ u] exI [of _ c]) (auto simp: s')
  then show "request_queue s' = [] \<or> (\<exists>t c. vtasks s' t = V_Retry c) \<or> heads (flights s') \<noteq> {}"
    using vliveD(1) [OF lv] unfolding fl s'(3) by blast
next
  fix u idx c assume "vtasks s' u = V_Wait idx c"
  then show "\<not> info_done s' ! (idx ! 0)" using vliveD(2) [OF lv, of u] new(1) by (cases "u = t") (simp_all add: s')
next
  fix u idx c assume "vtasks s' u = V_Failed idx c"
  then show "driver_stuck s'" using vliveD(3) [OF lv, of u] new(2) assms(9) by (cases "u = t") (simp_all add: s')
qed

lemma wait_again:
  assumes inv: "vinv s" and lv: "vlive s" and t: "vtasks s t = V_Woken idx c" and nd: "\<not> info_done s ! (idx ! 0)"
  shows "\<exists>s'. wait_done_loop t idx c (s\<lparr>vtasks := (vtasks s)(t := v)\<rparr>) = (Inr (), s') \<and> vinv s' \<and> vlive s'"
proof -
  have d: "desc_inv (flights s) s" "lengths_ok s" "wait_inv s" using inv by (simp_all add: vinv_def)
  have ft: "flights s t = Some (idx, c)" using t by (simp add: flights_def)
  have h: "idx ! 0 < NUM" using desc_invD(3) [OF d(1) ft] chain_mem(1) [OF d(1) ft] by blast
  have get: "arr_get (info_done s) (idx ! 0) = Some False" using h nd d(2) by (simp add: lengths_ok_def)
  show ?thesis
  proof (cases "needs_reset s")
    case True
    define s' where "s' = s\<lparr>driver_stuck := True, vtasks := (vtasks s)(t := V_Failed idx c)\<rparr>"
    have "wait_done_loop t idx c (s\<lparr>vtasks := (vtasks s)(t := v)\<rparr>) = (Inr (), s')"
      using get True by (simp add: wait_done_loop_def set_vtask_def s'_def)
    moreover have fl: "flights s' = flights s" using t by (auto simp: flights_def s'_def fun_eq_iff)
    moreover have "vinv s'"
      by (rule vinv_frame [OF inv]) (use d fl wait_inv_other [OF d(3), of t "V_Failed idx c" s'] t in \<open>simp_all add: s'_def lengths_ok_def same_rings_def\<close>)
    moreover have "vlive s'" by (rule vlive_frame [OF lv, of s' t "V_Failed idx c"]) (use fl t in \<open>simp_all add: s'_def\<close>)
    ultimately show ?thesis by blast
  next
    case False
    define s' where "s' = s\<lparr>info_wait := (info_wait s)[idx ! 0 := Some t], vtasks := (vtasks s)(t := V_Wait idx c)\<rparr>"
    have "wait_done_loop t idx c (s\<lparr>vtasks := (vtasks s)(t := v)\<rparr>) = (Inr (), s')"
      using get False by (simp add: wait_done_loop_def set_vtask_def s'_def)
    moreover have fl: "flights s' = flights s" using t by (auto simp: flights_def s'_def fun_eq_iff)
    moreover have "jdx ! 0 \<noteq> idx ! 0" if "vtasks s u = V_Wait jdx e" for u jdx e
    proof
      assume "jdx ! 0 = idx ! 0"
      moreover have fu: "flights s u = Some (jdx, e)" using that by (simp add: flights_def)
      ultimately have "u = t" using desc_invD(5) [OF d(1) fu ft] chain_mem(1) [OF d(1) fu] chain_mem(1) [OF d(1) ft] by metis
      then show False using that t by simp
    qed
    then have "wait_inv s'" using wait_inv_wait [OF d(3), of t idx s' c] t d(2) by (simp add: s'_def lengths_ok_def)
    then have "vinv s'" by (intro vinv_frame [OF inv]) (use d fl in \<open>simp_all add: s'_def lengths_ok_def same_rings_def\<close>)
    moreover have "vlive s'" by (rule vlive_frame [OF lv, of s' t "V_Wait idx c"]) (use fl t nd in \<open>simp_all add: s'_def\<close>)
    ultimately show ?thesis by blast
  qed
qed

end
