(* ===== verification/Virtio_Run.thy ===== *)
theory Virtio_Run
  imports Virtio_Safe
begin

text \<open>
  Whole runs of the disk driver: every event keeps the protocol of Virtio_Safe, so no run panics or touches a descriptor
  out of turn, every command is performed exactly once before it is reported as finished, and some event can always go on.
\<close>

section \<open>Commands\<close>

lemma nth_three: "i \<noteq> idx ! 0 \<Longrightarrow> i \<noteq> idx ! 1 \<Longrightarrow> i \<noteq> idx ! 2 \<Longrightarrow> l[idx ! 0 := a, idx ! 1 := b, idx ! 2 := c] ! i = l ! i"
  by simp

lemma set_three: "length idx = 3 \<Longrightarrow> set idx = {idx ! 0, idx ! 1, idx ! 2}"
  by (auto simp: numeral_3_eq_3 length_Suc_conv numeral_2_eq_2)

lemma roused_live:
  assumes "roused s" and s': "vtasks s' = (vtasks s)(t := V_Idle)" "request_queue s' = request_queue s" and "\<forall>c. vtasks s t \<noteq> V_Retry c"
  shows "request_queue s' = [] \<or> (\<exists>t c. vtasks s' t = V_Retry c) \<or> heads (flights s') \<noteq> {}"
proof (cases "request_queue s = []")
  case False
  then obtain u c where u: "vtasks s u = V_Retry c" using assms(1) unfolding roused_def by blast
  then have "vtasks s' u = V_Retry c" using assms(4) by (auto simp: s')
  then show ?thesis by blast
qed (simp add: s')

lemma vlive_woke:
  assumes lv: "vlive s" and w: "woke (with_descs d f s) s1"
    and s': "vtasks s' = (vtasks s1)(t := v)" "info_done s' = info_done s1" "driver_stuck s' = driver_stuck s1"
    and v: "\<forall>idx c. v \<noteq> V_Wait idx c" "\<forall>idx c. v \<noteq> V_Failed idx c"
    and some: "request_queue s' = [] \<or> (\<exists>t c. vtasks s' t = V_Retry c) \<or> heads (flights s') \<noteq> {}"
  shows "vlive s'"
proof -
  have vt: "vtasks s1 u = vtasks s u \<or> (\<exists>c. vtasks s u = V_Asleep c \<and> vtasks s1 u = V_Retry c)" for u
    using w by (simp add: woke_def with_descs_def)
  have same: "info_done s' = info_done s" "driver_stuck s' = driver_stuck s"
    using woke_fields(9,13) [OF w] by (simp_all add: s' with_descs_def)
  show ?thesis
  proof (rule vliveI [OF some])
    fix u idx c assume "vtasks s' u = V_Wait idx c"
    then have "vtasks s u = V_Wait idx c" using vt [of u] v(1) by (auto simp: s' split: if_splits)
    then show "\<not> info_done s' ! (idx ! 0)" unfolding same by (rule vliveD(2) [OF lv])
  next
    fix u idx c assume "vtasks s' u = V_Failed idx c"
    then have "vtasks s u = V_Failed idx c" using vt [of u] v(2) by (auto simp: s' split: if_splits)
    then show "driver_stuck s'" unfolding same by (rule vliveD(3) [OF lv])
  qed
qed

lemma finish_run:
  assumes inv: "vinv s" and lv: "vlive s" and t: "vtasks s t = V_Woken idx c" and dn: "info_done s ! (idx ! 0)"
  shows "\<exists>s'. wait_done_loop t idx c s = (Inr (), s') \<and> vinv s' \<and> vlive s'"
proof -
  have d: "desc_inv (flights s) s" "lengths_ok s" "wait_inv s" using inv by (simp_all add: vinv_def)
  have ft: "flights s t = Some (idx, c)" using t by (simp add: flights_def)
  note three = set_three [OF desc_invD(1) [OF d(1) ft]]
  have bounds: "\<forall>i \<in> set idx. i < NUM \<and> \<not> vd_free s ! i" using desc_invD(3) [OF d(1) ft] by blast
  have len: "length (vd_desc s) = NUM" "length (vd_free s) = NUM" "length (info_done s) = NUM" using d(2) by (simp_all add: lengths_ok_def)
  let ?d = "(vd_desc s)[idx ! 0 := empty_desc, idx ! 1 := empty_desc, idx ! 2 := empty_desc]"
  let ?f = "(vd_free s)[idx ! 0 := True, idx ! 1 := True, idx ! 2 := True]"
  obtain s1 where s1: "free_chain NUM (idx ! 0) s = (Inr (), s1)" "roused s1" "woke (with_descs ?d ?f s) s1"
    using free_chain_run [OF len(1,2) d(3) desc_invD(1) [OF d(1) ft] desc_invD(2) [OF d(1) ft] bounds desc_invD(4) [OF d(1) ft]] by blast
  define s' where "s' = s1\<lparr>finished := finished s1 @ [op_of c], vtasks := (vtasks s1)(t := V_Idle)\<rparr>"
  have s': "vtasks s' = (vtasks s1)(t := V_Idle)" "request_queue s' = request_queue s1" "info_wait s' = info_wait s1" "info_done s' = info_done s1"
    "driver_stuck s' = driver_stuck s1" by (simp_all add: s'_def)
  have vt: "vtasks s1 u = vtasks s u \<or> (\<exists>c. vtasks s u = V_Asleep c \<and> vtasks s1 u = V_Retry c)" for u
    using s1(3) by (simp add: woke_def with_descs_def)
  have t1: "vtasks s1 t = V_Woken idx c" using vt [of t] t by auto
  have run: "wait_done_loop t idx c s = (Inr (), s')"
    using dn len(3) bounds three s1(1) by (simp add: wait_done_loop_def set_vtask_def s'_def)
  have fields: "lengths_ok s'" "same_rings s s'" "finished s' = finished s @ [op_of c]" "vd_ops s' = vd_ops s" "vd_desc s' = ?d" "vd_free s' = ?f"
    using woke_fields [OF s1(3)] d(2) by (simp_all add: s'_def lengths_ok_def same_rings_def with_descs_def)
  have fl: "flights s' = (flights s)(t := None)"
    using woke_fields(19) [OF s1(3), simplified] by (auto simp: s' flights_def fun_eq_iff)
  have wi: "wait_inv s'" by (rule wait_inv_other [OF woke_fields(20) [OF s1(3)], of t V_Idle]) (use t1 in \<open>simp_all add: s'\<close>)
  have "vd_desc s' ! i = vd_desc s ! i \<and> vd_free s' ! i = vd_free s ! i" if "i \<notin> set idx" for i
    using that unfolding three fields by simp
  moreover have "vd_free s' ! i" if "i \<in> set idx" for i
    using that bounds len(2) unfolding three fields by (auto simp: nth_list_update)
  ultimately have "vinv s'" by (intro vinv_finish [OF inv ft dn fields(1-4) _ _ fl wi]) blast+
  moreover have "vlive s'"
    by (rule vlive_woke [OF lv s1(3) s'(1,4,5)]) (simp_all add: roused_live [OF s1(2) s'(1,2)] t1)
  ultimately show ?thesis using run by blast
qed

lemma sleep_run:
  assumes inv: "vinv s" and lv: "vlive s" and t: "vtasks s t = V_Idle \<or> vtasks s t = V_Retry c"
    and w: "woke (with_descs d (vd_free s) s) s1" and d': "length d = NUM" "\<forall>i < NUM. \<not> vd_free s ! i \<longrightarrow> d ! i = vd_desc s ! i"
    and got: "{i. i < NUM \<and> vd_free s ! i} \<subseteq> set got" "length got < 3"
    and s': "s' = s1\<lparr>request_queue := request_queue s1 @ [t], vtasks := (vtasks s1)(t := V_Asleep c)\<rparr>"
  shows "vinv s' \<and> vlive s'"
proof -
  have d: "desc_inv (flights s) s" "lengths_ok s" "wait_inv s" using inv by (simp_all add: vinv_def)
  have f': "vtasks s' = (vtasks s1)(t := V_Asleep c)" "request_queue s' = request_queue s1 @ [t]" "info_wait s' = info_wait s1"
    by (simp_all add: s')
  have vt: "vtasks s1 u = vtasks s u \<or> (\<exists>c. vtasks s u = V_Asleep c \<and> vtasks s1 u = V_Retry c)" for u
    using w by (simp add: woke_def with_descs_def)
  have t1: "vtasks s1 t = vtasks s t" using vt [of t] t by auto
  have fl1: "flights s1 = flights s" using woke_fields(19) [OF w] by simp
  have "chain_of (vtasks s1 t) = None" using t1 t by auto
  then have "flights s' = flights s1" by (auto simp: flights_def f' fun_eq_iff)
  then have fl: "flights s' = flights s" using fl1 by simp
  have wi: "wait_inv s'" by (rule wait_inv_sleep [OF woke_fields(20) [OF w] _ _ f']) (use t1 t in auto)
  have "vinv s'"
    by (rule vinv_frame [OF inv _ _ _ _ _ _ fl wi])
      (use woke_fields [OF w] d(2) d' in \<open>simp_all add: s' with_descs_def lengths_ok_def same_rings_def\<close>)
  moreover have "heads (flights s) \<noteq> {}"
  proof -
    have "card (set got) < 3" using got(2) card_length [of got] by linarith
    then have "card {i. i < NUM \<and> vd_free s ! i} < 3" using card_mono [OF _ got(1)] by simp
    moreover have "card {i. i < NUM \<and> vd_free s ! i} = 8" if "\<forall>i < NUM. vd_free s ! i"
    proof -
      have "{i. i < NUM \<and> vd_free s ! i} = {..<8}" using that by (auto simp: NUM_def)
      then show ?thesis by simp
    qed
    ultimately obtain i where "i < NUM" "\<not> vd_free s ! i" by fastforce
    then show ?thesis using desc_invD(6) [OF d(1)] headsI [of "flights s"] by blast
  qed
  then have "vlive s'"
    by (intro vlive_woke [OF lv w f'(1)]) (simp_all add: fl, simp_all add: s')
  ultimately show ?thesis by blast
qed

lemma handed_fields:
  "vtasks (handed i0 i1 i2 c s) = vtasks s" "info_wait (handed i0 i1 i2 c s) = info_wait s" "request_queue (handed i0 i1 i2 c s) = request_queue s"
  "driver_stuck (handed i0 i1 i2 c s) = driver_stuck s" "info_done (handed i0 i1 i2 c s) = (info_done s)[i0 := False]"
  "vd_free (handed i0 i1 i2 c s) = vd_free s" "needs_reset (handed i0 i1 i2 c s) = needs_reset s"
  by (simp_all add: handed_def)

lemma start_run:
  assumes inv: "vinv s" and lv: "vlive s" and t: "vtasks s t = V_Idle \<or> vtasks s t = V_Retry c"
    and idx: "length idx = 3" "distinct idx" "\<forall>i \<in> set idx. i < NUM \<and> vd_free s ! i"
    and s1: "s1 = handed (idx ! 0) (idx ! 1) (idx ! 2) c (with_descs (vd_desc s) (upds False idx (vd_free s)) s)"
    and s2: "s2 = s1\<lparr>vtasks := (vtasks s1)(t := V_Woken idx c)\<rparr>"
  shows "vinv s2 \<and> vlive s2 \<and> \<not> info_done s2 ! (idx ! 0)"
proof -
  have d: "desc_inv (flights s) s" "lengths_ok s" "wait_inv s" using inv by (simp_all add: vinv_def)
  have ft: "flights s t = None" using t by (auto simp: flights_def)
  note three = set_three [OF idx(1)]
  have b: "idx ! 0 < NUM" "idx ! 1 < NUM" "idx ! 2 < NUM" using idx(3) three by auto
  have ne: "idx ! 0 \<noteq> idx ! 1" "idx ! 0 \<noteq> idx ! 2" "idx ! 1 \<noteq> idx ! 2" using idx(1,2) by (simp_all add: nth_eq_iff_index_eq)
  have f2: "vtasks s2 = (vtasks s)(t := V_Woken idx c)" "request_queue s2 = request_queue s" "info_wait s2 = info_wait s"
    "info_done s2 = (info_done s)[idx ! 0 := False]" "driver_stuck s2 = driver_stuck s" "vd_free s2 = upds False idx (vd_free s)"
    by (simp_all add: s2 s1 handed_fields, simp_all add: with_descs_def)
  have len: "lengths_ok s2" using d(2) by (simp add: s2 s1 handed_def with_descs_def lengths_ok_def)
  have fm: "formatted s2 idx c" using d(2) b ne by (simp add: s2 s1 handed_def with_descs_def formatted_def lengths_ok_def)
  have rings: "avail_ring s2 = (avail_ring s)[unat (avail_idx s) mod NUM := idx ! 0]" "avail_idx s2 = avail_idx s + 1"
      "used_ring s2 = used_ring s" "used_dev_idx s2 = used_dev_idx s" "used_idx s2 = used_idx s" "dev_seen s2 = dev_seen s" "dev_work s2 = dev_work s"
      "performed s2 = performed s" "finished s2 = finished s" "issued s2 = issued s @ [op_of c]"
    by (simp_all add: s2 s1 handed_def with_descs_def)
  have fl: "flights s2 = (flights s)(t \<mapsto> (idx, c))" by (auto simp: flights_def f2 fun_eq_iff)
  have wi: "wait_inv s2" by (rule wait_inv_other [OF d(3) _ _ _ _ f2(1-3)]) (use t in auto)
  have other: "vd_desc s2 ! i = vd_desc s ! i \<and> vd_free s2 ! i = vd_free s ! i" if "i < NUM" "i \<notin> set idx" for i
    using that d(2) unfolding f2(6) by (simp add: upds_nth lengths_ok_def) (simp add: three s2 s1 handed_def with_descs_def)
  have mine: "\<not> vd_free s2 ! i" if "i \<in> set idx" for i
    using that idx(3) d(2) by (simp add: f2 upds_nth lengths_ok_def)
  have ops: "vd_ops s2 ! i = vd_ops s ! i \<and> info_done s2 ! i = info_done s ! i \<and> info_status s2 ! i = info_status s ! i"
    if "i \<noteq> idx ! 0" for i using that by (simp add: s2 s1 handed_def with_descs_def)
  have nd: "\<not> info_done s2 ! (idx ! 0)" using b d(2) by (simp add: f2 lengths_ok_def)
  have "vinv s2"
    using inv ft idx len fm other mine ops nd rings fl wi by (rule vinv_start)
  moreover have "vlive s2"
  proof (rule vliveI)
    have "idx ! 0 \<in> heads (flights s2)" by (rule headsI [of _ t _ c]) (simp add: fl)
    then show "request_queue s2 = [] \<or> (\<exists>t c. vtasks s2 t = V_Retry c) \<or> heads (flights s2) \<noteq> {}" by blast
  next
    fix u jdx e assume "vtasks s2 u = V_Wait jdx e"
    then have "vtasks s u = V_Wait jdx e" by (auto simp: f2 split: if_splits)
    then have "\<not> info_done s ! (jdx ! 0)" by (rule vliveD(2) [OF lv])
    then show "\<not> info_done s2 ! (jdx ! 0)" using nd by (cases "jdx ! 0 = idx ! 0") (simp_all add: ops)
  next
    fix u jdx e assume "vtasks s2 u = V_Failed jdx e"
    then have "vtasks s u = V_Failed jdx e" by (auto simp: f2 split: if_splits)
    then show "driver_stuck s2" unfolding f2 by (rule vliveD(3) [OF lv])
  qed
  ultimately show ?thesis using nd by blast
qed

lemma attempt_run:
  assumes inv: "vinv s" and lv: "vlive s" and t: "vtasks s t = V_Idle \<or> vtasks s t = V_Retry c"
  shows "\<exists>s'. disk_attempt t c s = (Inr (), s') \<and> vinv s' \<and> vlive s'"
proof -
  have d: "lengths_ok s" "wait_inv s" using inv by (simp_all add: vinv_def)
  have len: "length (vd_free s) = NUM" "length (vd_desc s) = NUM" using d(1) by (simp_all add: lengths_ok_def)
  consider (ok) idx where "alloc_descs s = (Inr (Some idx), with_descs (vd_desc s) (upds False idx (vd_free s)) s)"
      "length idx = 3" "distinct idx" "\<forall>i \<in> set idx. i < NUM \<and> vd_free s ! i"
    | (no) s1 dd got where "alloc_descs s = (Inr None, s1)" "woke (with_descs dd (vd_free s) s) s1" "length dd = NUM"
      "\<forall>i < NUM. \<not> vd_free s ! i \<longrightarrow> dd ! i = vd_desc s ! i" "{i. i < NUM \<and> vd_free s ! i} \<subseteq> set got" "length got < 3"
    using alloc_loop_run [of s "[]" "vd_free s" 3] len d(2) unfolding alloc_descs_def by auto
  then show ?thesis
  proof cases
    case ok
    let ?s1 = "handed (idx ! 0) (idx ! 1) (idx ! 2) c (with_descs (vd_desc s) (upds False idx (vd_free s)) s)"
    define s2 where "s2 = ?s1\<lparr>vtasks := (vtasks ?s1)(t := V_Woken idx c)\<rparr>"
    have s2: "vinv s2" "vlive s2" "\<not> info_done s2 ! (idx ! 0)"
      using start_run [OF inv lv t ok(2-4) refl s2_def] by auto
    have lok: "lengths_ok (with_descs (vd_desc s) (upds False idx (vd_free s)) s)"
      using d(1) by (simp add: lengths_ok_def with_descs_def)
    have bounds: "idx ! 0 < NUM" "idx ! 1 < NUM" "idx ! 2 < NUM" using ok(2,4) by auto
    have "disk_attempt t c s = wait_done_loop t idx c ?s1"
      using ok(1) hand_over [OF lok bounds, of c "wait_done_loop t idx c"] by (simp add: disk_attempt_def)
    also have "?s1 = s2\<lparr>vtasks := (vtasks s2)(t := vtasks s t)\<rparr>"
      by (simp add: s2_def handed_fields) (simp add: handed_def with_descs_def)
    finally show ?thesis using wait_again [OF s2(1,2) _ s2(3), of t c "vtasks s t"] by (simp add: s2_def)
  next
    case no
    define s' where "s' = s1\<lparr>request_queue := request_queue s1 @ [t], vtasks := (vtasks s1)(t := V_Asleep c)\<rparr>"
    have "disk_attempt t c s = (Inr (), s')" using no(1) by (simp add: disk_attempt_def set_vtask_def s'_def)
    then show ?thesis using sleep_run [OF inv lv t no(2-6) s'_def] by blast
  qed
qed

text \<open>A flush asks for no block, which \<open>disk_command\<close> does not accept.\<close>

lemma virtio_flush_panics: "virtio_flush t s = (Inl (Panic ''virtio_disk::disk_command: count must be 1''), s)"
  by (simp add: virtio_flush_def disk_command_def)

section \<open>Runs\<close>

lemma vinv_opened: "vinv (vdisk_opened cap)" "vlive (vdisk_opened cap)"
proof -
  have fl: "flights (vdisk_opened cap) = (\<lambda>_. None)" by (simp add: flights_def vdisk_opened_def)
  have h: "heads (\<lambda>_. None) = {}" by (simp add: heads_def)
  show "vinv (vdisk_opened cap)"
    by (simp add: vinv_def fl h lengths_ok_def desc_inv_def ring_inv_def ops_inv_def wait_inv_def to_fetch_def to_handle_def done_heads_def)
      (simp add: vdisk_opened_def)
  show "vlive (vdisk_opened cap)" by (simp add: vlive_def vdisk_opened_def)
qed

lemma vnext_run:
  assumes inv: "vinv s" "vlive s" and ok: "vallowed e s"
  shows "\<exists>s'. vnext e s = (Inr (), s') \<and> vinv s' \<and> vlive s'"
proof (cases e)
  case (Submit t c)
  then show ?thesis using attempt_run [OF inv, of t c] ok by (auto simp: disk_command_def)
next
  case (Retry t)
  then show ?thesis using attempt_run [OF inv, of t] ok by (auto split: vtask.splits)
next
  case (Continue t)
  then obtain idx c where t: "vtasks s t = V_Woken idx c" using ok by (auto split: vtask.splits)
  have same: "s\<lparr>vtasks := (vtasks s)(t := vtasks s t)\<rparr> = s" by simp
  show ?thesis
    using finish_run [OF inv t] wait_again [OF inv t, of "vtasks s t"] Continue t unfolding same by auto
next
  case Fetch
  then show ?thesis using vinv_fetch [OF inv(1)] inv(2) ok by simp
next
  case (Complete h)
  then show ?thesis using vinv_complete [OF inv(1), of h] inv(2) ok by simp
next
  case Interrupt
  then show ?thesis using vinv_intr_loop [OF inv refl] by (simp add: virtio_disk_intr_def)
next
  case Device_Reset
  define s' where "s' = s\<lparr>needs_reset := True\<rparr>"
  have "vinv s'" "vlive s'"
    using inv by (simp_all add: s'_def vinv_def vlive_def flights_def lengths_ok_def desc_inv_def formatted_def ring_inv_def ops_inv_def
      wait_inv_def to_fetch_def to_handle_def done_heads_def)
  then show ?thesis using Device_Reset by (simp add: s'_def)
qed

lemma vreach_inv: "vreach cap s \<Longrightarrow> vinv s \<and> vlive s"
proof (induction rule: vreach.induct)
  case (event s e s')
  then show ?case using vnext_run [of s e] by auto
qed (simp add: vinv_opened)

text \<open>A run given by its events.\<close>

primrec vrun :: "vevent list \<Rightarrow> vdisk \<Rightarrow> vdisk option" where
  "vrun [] s = Some s"
| "vrun (e # es) s = (if vallowed e s then case vnext e s of (Inr _, s') \<Rightarrow> vrun es s' | (Inl _, _) \<Rightarrow> None else None)"

lemma vrun_reach: "vreach cap s \<Longrightarrow> vrun es s = Some s' \<Longrightarrow> vreach cap s'"
proof (induction es arbitrary: s)
  case (Cons e es)
  then obtain u s1 where "vallowed e s" "vnext e s = (Inr u, s1)" "vrun es s1 = Some s'"
    by (auto split: if_splits prod.splits sum.splits)
  then show ?case using Cons.IH [of s1] vreach.event [OF Cons.prems(1), of e s1] by simp
qed simp

text \<open>Three tasks: the third finds no descriptors and sleeps until the second command is finished.\<close>

definition three_tasks :: "vevent list" where
  "three_tasks = [Submit 0 \<lparr>dr_command = VIRTIO_BLK_T_OUT, dr_block = 3, dr_buffer = 100\<rparr>,
    Submit 1 \<lparr>dr_command = VIRTIO_BLK_T_IN, dr_block = 4, dr_buffer = 101\<rparr>,
    Submit 2 \<lparr>dr_command = VIRTIO_BLK_T_IN, dr_block = 5, dr_buffer = 102\<rparr>,
    Fetch, Fetch, Complete 3, Interrupt, Continue 1]"

lemma three_tasks_run:
  obtains s where "vrun three_tasks (vdisk_opened 16) = Some s" and "vreach 16 s" and "vallowed (Retry 2) s" and "\<not> driver_stuck s"
    and "vtasks s 0 \<noteq> V_Idle" and "finished s = [(0, 8, 101)]" and "issued s = [(1, 6, 100), (0, 8, 101)]"
proof -
  have "map_option (\<lambda>s. (vallowed (Retry 2) s, driver_stuck s, vtasks s 0, finished s, issued s)) (vrun three_tasks (vdisk_opened 16))
    = Some (True, False, V_Wait [0, 1, 2] \<lparr>dr_command = 1, dr_block = 3, dr_buffer = 100\<rparr>, [(0, 8, 101)], [(1, 6, 100), (0, 8, 101)])"
    by code_simp
  then obtain s where "vrun three_tasks (vdisk_opened 16) = Some s" "vallowed (Retry 2) s" "\<not> driver_stuck s" "vtasks s 0 \<noteq> V_Idle"
      "finished s = [(0, 8, 101)]" "issued s = [(1, 6, 100), (0, 8, 101)]" by auto
  then show thesis using that vrun_reach [OF vreach.opened] by blast
qed



text \<open>
  C6. No command is lost, repeated or altered. The operations reported as finished are among those the device performed, each as
  often, with the type, sector and buffer that the task asked for; the device performs only operations that were issued; and when no
  command is under way, the operations issued, performed and finished are the same.
\<close>

theorem virtio_commands_performed_once:
  assumes "vreach cap s"
  shows "mset (finished s) \<subseteq># mset (performed s) \<and> mset (performed s) \<subseteq># mset (issued s)
    \<and> ((\<forall>t. chain_of (vtasks s t) = None) \<longrightarrow> mset (finished s) = mset (performed s) \<and> mset (performed s) = mset (issued s))"
proof -
  let ?f = "flights s"
  have d: "ring_inv ?f s" "ops_inv ?f s" using vreach_inv [OF assms] by (simp_all add: vinv_def)
  obtain hop where hop: "mset (issued s) = mset (performed s) + image_mset hop (mset (to_fetch s @ dev_work s))"
      "mset (performed s) = mset (finished s) + image_mset hop (mset (to_handle s)) + image_mset hop (mset_set (done_heads ?f s))"
    using d(2) unfolding ops_inv_def by blast
  have "mset (finished s) = mset (performed s) \<and> mset (performed s) = mset (issued s)" if "\<forall>t. chain_of (vtasks s t) = None"
  proof -
    have "heads ?f = {}" using that by (simp add: heads_def flights_def)
    then have "to_fetch s = []" "dev_work s = []" "to_handle s = []" "done_heads ?f s = {}" using d(1) by (auto simp: ring_inv_def done_heads_def)
    then show ?thesis using hop by simp
  qed
  moreover have "mset (finished s) \<subseteq># mset (performed s)" unfolding hop(2) by (simp add: subset_mset.add_increasing2)
  moreover have "mset (performed s) \<subseteq># mset (issued s)" using hop(1) by (metis mset_subset_eq_add_left)
  ultimately show ?thesis by blast
qed

theorem virtio_commands_performed_once_witness:
  "\<exists>s. vrun three_tasks (vdisk_opened 16) = Some s \<and> finished s = [(0, 8, 101)] \<and> {#(0, 8, 101)#} \<subseteq># mset (performed s)
    \<and> mset (performed s) \<subseteq># {#(1, 6, 100), (0, 8, 101)#}"
proof -
  obtain s where s: "vrun three_tasks (vdisk_opened 16) = Some s" "vreach 16 s" "finished s = [(0, 8, 101)]" "issued s = [(1, 6, 100), (0, 8, 101)]"
    by (rule three_tasks_run)
  then show ?thesis using virtio_commands_performed_once [OF s(2)] by (intro exI [of _ s]) (simp add: s)
qed

text \<open>
  C19. The driver never comes to a standstill: while some task has not got its answer and no task left the driver locked, a task
  that was woken can go on, or the device has a chain to fetch or to complete, or a completion waits for the interrupt handler.
\<close>

theorem virtio_never_deadlocks:
  assumes "vreach cap s" and "\<not> driver_stuck s" and "vtasks s t \<noteq> V_Idle"
  shows "(\<exists>u. vallowed (Retry u) s) \<or> (\<exists>u. vallowed (Continue u) s) \<or> vallowed Fetch s \<or> (\<exists>h. vallowed (Complete h) s)
    \<or> (vallowed Interrupt s \<and> used_idx s \<noteq> used_dev_idx s)"
proof (rule ccontr)
  assume stop: "\<not> ?thesis"
  have inv: "desc_inv (flights s) s" "ring_inv (flights s) s" "wait_inv s" and lv: "vlive s"
    using vreach_inv [OF assms(1)] by (simp_all add: vinv_def)
  have no: "vtasks s u \<noteq> V_Retry c" "vtasks s u \<noteq> V_Woken idx c" "vtasks s u \<noteq> V_Failed idx c" for u idx c
    using stop assms(2) vliveD(3) [OF lv, of u idx c] by (auto split: vtask.splits)
  have "to_fetch s = []" "dev_work s = []" "to_handle s = []"
    using stop assms(2) by (auto simp: to_fetch_def to_handle_def)
  then have dn: "heads (flights s) = done_heads (flights s) s" using inv(2) by (auto simp: ring_inv_def done_heads_def)
  have empty: "heads (flights s) = {}"
  proof (rule ccontr)
    assume "heads (flights s) \<noteq> {}"
    then obtain h where "h \<in> heads (flights s)" by blast
    then obtain u idx c where u: "flights s u = Some (idx, c)" "h = idx ! 0" by (rule headsE)
    then have "vtasks s u = V_Wait idx c" using no by (cases "vtasks s u") (auto simp: flights_def)
    then have "\<not> info_done s ! h" using vliveD(2) [OF lv, of u] u(2) by blast
    moreover have "h \<in> done_heads (flights s) s" using \<open>h \<in> heads (flights s)\<close> unfolding dn .
    ultimately show False by (simp add: done_heads_def)
  qed
  then have "request_queue s = []" using vliveD(1) [OF lv] no by blast
  then have "vtasks s t \<noteq> V_Asleep c" for c using wait_invD(3) [OF inv(3), of t] by auto
  moreover have "flights s t = None" using empty headsI [of "flights s" t] by (cases "flights s t") auto
  ultimately show False using assms(3) no by (cases "vtasks s t") (auto simp: flights_def)
qed

theorem virtio_never_deadlocks_witness:
  "\<exists>s. vrun three_tasks (vdisk_opened 16) = Some s \<and> ((\<exists>u. vallowed (Retry u) s) \<or> (\<exists>u. vallowed (Continue u) s) \<or> vallowed Fetch s
    \<or> (\<exists>h. vallowed (Complete h) s) \<or> (vallowed Interrupt s \<and> used_idx s \<noteq> used_dev_idx s))"
proof -
  obtain s where s: "vrun three_tasks (vdisk_opened 16) = Some s" "vreach 16 s" "\<not> driver_stuck s" "vtasks s 0 \<noteq> V_Idle"
    by (rule three_tasks_run)
  show ?thesis using virtio_never_deadlocks [OF s(2-4)] s(1) by blast
qed

end
