(* ===== verification/Virtio_Open.thy ===== *)
theory Virtio_Open
  imports Virtio_Run Ramdisk
begin

text \<open>
  Finding and opening the disk: \<open>open\<close> and \<open>close\<close> of \<open>src/os/drivers/virtio/virtio_disk.cc\<close> and the retries of
  \<open>init_globals\<close> in \<open>src/os/init.cc\<close>. The registers of the device are a record; writes to registers that are read-only have
  no effect, and whether the device reports a failure is decided by the device.
\<close>

definition virtio_disk_id :: device_id_t where
  "virtio_disk_id = (2, 0)"

definition VIRTIO_CONFIG_S_ACKNOWLEDGE :: u32 where "VIRTIO_CONFIG_S_ACKNOWLEDGE = 1"
definition VIRTIO_CONFIG_S_DRIVER :: u32 where "VIRTIO_CONFIG_S_DRIVER = 2"
definition VIRTIO_CONFIG_S_DRIVER_OK :: u32 where "VIRTIO_CONFIG_S_DRIVER_OK = 4"
definition VIRTIO_CONFIG_S_FEATURES_OK :: u32 where "VIRTIO_CONFIG_S_FEATURES_OK = 8"

record virtio_regs =
  magic_value :: u32
  vr_version :: u32
  vr_device_id :: u32
  vendor_id :: u32
  device_features :: u32
  guest_page_size :: u32
  queue_sel :: u32
  queue_num_max :: u32
  queue_num :: u32
  queue_pfn :: u32
  vr_status :: u32
  config_capacity :: u64

text \<open>The driver object: whether \<open>regs\<close> is set, its pages, its place in the list of devices, its queues.\<close>

record vdriver =
  drv_opened :: bool
  drv_self :: nat
  drv_pages :: u64
  drv_registry :: registry
  drv_regs :: virtio_regs
  drv_disk :: vdisk

definition write_status :: "u32 \<Rightarrow> (vdriver, unit) kmonad" where
  "write_status v = kmod (\<lambda>s. s\<lparr>drv_regs := (drv_regs s)\<lparr>vr_status := v\<rparr>\<rparr>)"

definition virtio_close :: "(vdriver, unit) kmonad" where
  "virtio_close = kmod (\<lambda>s. s\<lparr>drv_opened := False, drv_registry := deregister_device (drv_self s) (drv_registry s)\<rparr>)"

definition open_err :: "(vdriver, int) kmonad" where
  "open_err = kseq (kmod (\<lambda>s. s\<lparr>drv_registry := deregister_device (drv_self s) (drv_registry s)\<rparr>)) (
    kseq (kmod (drv_opened_update (\<lambda>_. False))) (
    kret (- 1)))"

text \<open>The rings lie in the pages that \<open>open\<close> clears; \<open>used_idx\<close> and the other fields of the object keep their values.\<close>

definition clear_rings :: "vdisk \<Rightarrow> vdisk" where
  "clear_rings v = v\<lparr>vd_desc := replicate NUM empty_desc, avail_ring := replicate NUM 0, avail_idx := 0,
    used_ring := replicate NUM 0, used_dev_idx := 0\<rparr>"

definition known_disk :: "virtio_regs \<Rightarrow> bool" where
  "known_disk r \<longleftrightarrow> \<not> (magic_value r \<noteq> 0x74726976 \<or> vr_version r \<noteq> 1 \<or> vr_device_id r \<noteq> 2 \<or> vendor_id r \<noteq> 0x554d4551)"

definition virtio_open :: "u64 \<Rightarrow> bool \<Rightarrow> (vdriver, int) kmonad" where
  "virtio_open base_address failed = kseq (kassert (base_address \<noteq> 0) ''virtio_disk::open: base_address is null'') (
    kbind (kget drv_opened) (\<lambda>opened.
    kseq (kassert (\<not> opened) ''virtio_disk::open: already opened'') (
    kseq (kmod (drv_opened_update (\<lambda>_. True))) (
    kseq (kmod (\<lambda>s. s\<lparr>drv_registry := register_device (drv_self s) virtio_disk_id (drv_registry s)\<rparr>)) (
    kbind (kget drv_regs) (\<lambda>regs.
    if \<not> known_disk regs then open_err else let status = VIRTIO_CONFIG_S_ACKNOWLEDGE in
      kseq (write_status status) (
      let status = status OR VIRTIO_CONFIG_S_DRIVER in
      kseq (write_status status) (
      let status = status OR VIRTIO_CONFIG_S_FEATURES_OK in
      kseq (write_status status) (
      let status = status OR VIRTIO_CONFIG_S_DRIVER_OK in
      kseq (write_status status) (
      kseq (kmod (\<lambda>s. s\<lparr>drv_regs := (drv_regs s)\<lparr>guest_page_size := 4096, queue_sel := 0\<rparr>\<rparr>)) (
      if queue_num_max regs = 0 then open_err
      else if unat (queue_num_max regs) < NUM then open_err
      else kbind (kget drv_pages) (\<lambda>pages.
        kseq (kassert (pages mod PGSIZE = 0) ''virtio_disk::open: disk_pages is not page aligned'') (
        kseq (kmod (\<lambda>s. s\<lparr>drv_regs := (drv_regs s)\<lparr>queue_num := of_nat NUM\<rparr>\<rparr>)) (
        kseq (kmod (\<lambda>s. s\<lparr>drv_disk := clear_rings (drv_disk s)\<rparr>)) (
        kseq (kmod (\<lambda>s. s\<lparr>drv_regs := (drv_regs s)\<lparr>queue_pfn := ucast (drop_bit 12 pages)\<rparr>\<rparr>)) (
        if failed then open_err else kseq (kmod (\<lambda>s. s\<lparr>drv_disk := (drv_disk s)\<lparr>vd_free := replicate NUM True, disk_capacity := virtio_capacity (config_capacity regs)\<rparr>\<rparr>)) (
          kret 0)))))))))))))))))"

text \<open>\<open>init_globals\<close> tries three times; the outcomes of the attempts are given by the device.\<close>

primrec open_retry :: "bool list \<Rightarrow> u64 \<Rightarrow> (vdriver, unit) kmonad" where
  "open_retry [] base = kthrow (Panic ''virtio disk open failed'')"
| "open_retry (failed # rest) base = kbind (virtio_open base failed) (\<lambda>ret.
  if ret = 0 then kret () else open_retry rest base)"

section \<open>What opening does\<close>

text \<open>The object before its first use: a variable of static storage, all zero.\<close>

definition zero_disk :: vdisk where
  "zero_disk = (vdisk_opened 0)\<lparr>vd_desc := [], vd_free := replicate NUM False, avail_ring := [], used_ring := []\<rparr>"

definition enough_queue :: "virtio_regs \<Rightarrow> bool" where
  "enough_queue r \<longleftrightarrow> known_disk r \<and> NUM \<le> unat (queue_num_max r)"

definition opened_regs :: "u64 \<Rightarrow> virtio_regs \<Rightarrow> virtio_regs" where
  "opened_regs pages r = r\<lparr>vr_status := 15, guest_page_size := 4096, queue_sel := 0, queue_num := 8, queue_pfn := ucast (drop_bit 12 pages)\<rparr>"

lemmas open_unfold = virtio_open_def enough_queue_def open_err_def write_status_def NUM_def Let_def opened_regs_def
  VIRTIO_CONFIG_S_ACKNOWLEDGE_def VIRTIO_CONFIG_S_DRIVER_def VIRTIO_CONFIG_S_DRIVER_OK_def VIRTIO_CONFIG_S_FEATURES_OK_def

lemma virtio_open_ok:
  assumes "base \<noteq> 0" and "\<not> drv_opened s" and "drv_pages s mod PGSIZE = 0" and "enough_queue (drv_regs s)"
  shows "virtio_open base False s = (Inr 0, s\<lparr>drv_opened := True,
    drv_registry := register_device (drv_self s) virtio_disk_id (drv_registry s), drv_regs := opened_regs (drv_pages s) (drv_regs s),
    drv_disk := (clear_rings (drv_disk s))\<lparr>vd_free := replicate NUM True, disk_capacity := virtio_capacity (config_capacity (drv_regs s))\<rparr>\<rparr>)"
  using assms by (cases s; cases "drv_regs s") (auto simp: open_unfold)

lemma virtio_open_fail:
  assumes "base \<noteq> 0" and "\<not> drv_opened s" and "drv_pages s mod PGSIZE = 0" and "failed \<or> \<not> enough_queue (drv_regs s)"
  shows "\<exists>r v. virtio_open base failed s
      = (Inr (- 1), s\<lparr>drv_registry := deregister_device (drv_self s) (register_device (drv_self s) virtio_disk_id (drv_registry s)), drv_regs := r, drv_disk := v\<rparr>)
    \<and> enough_queue r = enough_queue (drv_regs s) \<and> config_capacity r = config_capacity (drv_regs s)
    \<and> (v = drv_disk s \<or> v = clear_rings (drv_disk s))"
proof -
  obtain o1 n pg g r v where s: "s = \<lparr>drv_opened = o1, drv_self = n, drv_pages = pg, drv_registry = g, drv_regs = r, drv_disk = v\<rparr>"
    by (cases s) simp
  consider "\<not> known_disk r" | "known_disk r" "queue_num_max r = 0" | "known_disk r" "queue_num_max r \<noteq> 0" "unat (queue_num_max r) < 8"
    | "known_disk r" "8 \<le> unat (queue_num_max r)" "failed"
    using assms(4) by (fastforce simp: s enough_queue_def NUM_def not_le)
  then show ?thesis
  proof cases
    case 1
    then show ?thesis using assms(1-3) by (simp add: s open_unfold)
  next
    case 2
    then show ?thesis using assms(1-3) by (simp add: s open_unfold known_disk_def)
  next
    case 3
    then show ?thesis using assms(1-3) by (simp add: s open_unfold known_disk_def)
  next
    case 4
    then have "queue_num_max r \<noteq> 0" "\<not> unat (queue_num_max r) < 8" by auto
    then show ?thesis using 4 assms(1-3) by (simp add: s open_unfold known_disk_def)
  qed
qed

lemma clear_rings_idem [simp]: "clear_rings (clear_rings v) = clear_rings v"
  by (simp add: clear_rings_def)

lemma zero_disk_opened: "(clear_rings zero_disk)\<lparr>vd_free := replicate NUM True, disk_capacity := virtio_capacity c\<rparr> = vdisk_opened c"
  by (simp add: clear_rings_def zero_disk_def vdisk_opened_def)

lemma deregister_registered [simp]:
  "n \<notin> set (devices g) \<Longrightarrow> devices (deregister_device n (register_device n i g)) = devices g"
  by (simp add: register_device_def deregister_device_def remove1_append)

text \<open>
  Opening the disk at start-up: as long as the device is a disk with enough queue entries and one of the attempts does not report
  a failure, the disk ends up open, in the state from which the driver runs, registered once and with the device told that the
  driver is ready; if no attempt succeeds the kernel panics and the list of devices is as before. No attempt fails the assertions
  that the disk is closed, since a failed one closes it again.
\<close>

lemma virtio_open_retried:
  assumes "base \<noteq> 0" and "\<not> drv_opened s" and "drv_pages s mod PGSIZE = 0" and "clear_rings (drv_disk s) = clear_rings zero_disk"
    and "drv_self s \<notin> set (devices (drv_registry s))"
  shows "\<exists>s'. open_retry outcomes base s
      = (if enough_queue (drv_regs s) \<and> False \<in> set outcomes then Inr () else Inl (Panic ''virtio disk open failed''), s')
    \<and> (if enough_queue (drv_regs s) \<and> False \<in> set outcomes
       then drv_opened s' \<and> drv_disk s' = vdisk_opened (config_capacity (drv_regs s)) \<and> devices (drv_registry s') = devices (drv_registry s) @ [drv_self s]
         \<and> device_id (drv_registry s') (drv_self s) = virtio_disk_id \<and> vr_status (drv_regs s') = 15
       else \<not> drv_opened s' \<and> devices (drv_registry s') = devices (drv_registry s))"
  using assms
proof (induction outcomes arbitrary: s)
  case (Cons failed rest)
  show ?case
  proof (cases "\<not> failed \<and> enough_queue (drv_regs s)")
    case True
    then show ?thesis
      using virtio_open_ok [OF Cons.prems(1-3)] Cons.prems(4)
      by (simp add: zero_disk_opened register_device_def opened_regs_def)
  next
    case False
    then obtain r v s1 where s1: "virtio_open base failed s = (Inr (- 1), s1)"
        "s1 = s\<lparr>drv_registry := deregister_device (drv_self s) (register_device (drv_self s) virtio_disk_id (drv_registry s)), drv_regs := r, drv_disk := v\<rparr>"
        "enough_queue r = enough_queue (drv_regs s)" "config_capacity r = config_capacity (drv_regs s)" "v = drv_disk s \<or> v = clear_rings (drv_disk s)"
      using virtio_open_fail [OF Cons.prems(1-3), of failed] by blast
    have f: "\<not> drv_opened s1" "drv_pages s1 = drv_pages s" "drv_self s1 = drv_self s" "drv_regs s1 = r"
      "clear_rings (drv_disk s1) = clear_rings zero_disk" "devices (drv_registry s1) = devices (drv_registry s)"
      using Cons.prems s1(5) by (auto simp: s1(2))
    show ?thesis using Cons.IH [of s1] Cons.prems f s1(1,3,4) False by (auto cong: if_cong)
  qed
qed simp

definition qemu_regs :: virtio_regs where
  "qemu_regs = \<lparr>magic_value = 0x74726976, vr_version = 1, vr_device_id = 2, vendor_id = 0x554d4551, device_features = 0, guest_page_size = 0,
    queue_sel = 0, queue_num_max = 1024, queue_num = 0, queue_pfn = 0, vr_status = 0, config_capacity = 131072\<rparr>"

definition closed_driver :: vdriver where
  "closed_driver = \<lparr>drv_opened = False, drv_self = 0, drv_pages = 0x87e00000, drv_registry = \<lparr>device_id = (\<lambda>_. (0, 0)), devices = []\<rparr>,
    drv_regs = qemu_regs, drv_disk = zero_disk\<rparr>"

lemma virtio_open_retried_witness:
  "\<exists>s'. open_retry [True, False, True] 0x10001000 closed_driver = (Inr (), s') \<and> drv_opened s' \<and> drv_disk s' = vdisk_opened 131072
    \<and> devices (drv_registry s') = [0]"
  using virtio_open_retried [of "0x10001000" closed_driver "[True, False, True]"]
  by (auto simp: closed_driver_def qemu_regs_def enough_queue_def known_disk_def NUM_def PGSIZE_def)

end
