(* ===== verification/User_Space.thy ===== *)
theory User_Space
  imports User_Copy Process
begin

text \<open>
  The memory of a user process as a whole: its page table together with the pages it maps. \<open>space_inv\<close> says that the pages
  it maps are pages of its own, so writes through the table change exactly the bytes they name; \<open>mmap_alloc\<close> of
  \<open>src/os/proc/process.cc\<close> and \<open>memset_user\<close> of \<open>src/os/mm/vmem.cc\<close> are shown to work on it.
\<close>

section \<open>Pages of a process\<close>

definition upage :: "mem \<Rightarrow> ptree \<Rightarrow> nat \<Rightarrow> u64 option" where
  "upage m d n = (let e = entry m d n in
     if n < 2 ^ 26 \<and> e AND PTE_V \<noteq> 0 \<and> e AND PTE_U \<noteq> 0 \<and> PTE2PA e \<noteq> 0 then Some (PTE2PA e) else None)"

lemma uphys_upage: "uphys m d A = map_option (\<lambda>p. unat p + A mod 4096) (upage m d (A div 4096))"
proof -
  have "A < 2 ^ 38 \<longleftrightarrow> A div 4096 < 2 ^ 26" by (simp add: div_less_iff_less_mult)
  then show ?thesis by (simp add: uphys_def upage_def Let_def)
qed

text \<open>What a user address holds.\<close>

definition ubyte :: "mem \<Rightarrow> ptree \<Rightarrow> nat \<Rightarrow> u8 option" where
  "ubyte m d A = (case uphys m d A of None \<Rightarrow> None | Some x \<Rightarrow> m x)"

text \<open>
  The pages a process maps come from the pool, are neither free nor tables, and each is mapped once. \<open>R\<close> are pages that belong
  to the process but are not mapped for it to use, such as its trap frame.
\<close>

definition space_inv :: "u64 \<Rightarrow> u64 \<Rightarrow> u64 \<Rightarrow> 'x mm_scheme \<Rightarrow> u64 list \<Rightarrow> ptree \<Rightarrow> u64 set \<Rightarrow> bool" where
  "space_inv lo hi root s free d R \<longleftrightarrow> vm_inv lo hi root s free d
    \<and> (\<forall>n p. upage (ram s) d n = Some p \<longrightarrow> page_in lo hi p \<and> p \<notin> set free \<and> p \<notin> ran d \<and> p \<notin> R)
    \<and> (\<forall>n n' p. upage (ram s) d n = Some p \<longrightarrow> upage (ram s) d n' = Some p \<longrightarrow> n = n')
    \<and> (\<forall>p \<in> R. page_in lo hi p \<and> p \<notin> set free \<and> p \<notin> ran d)"

lemma space_invD:
  assumes "space_inv lo hi root s free d R"
  shows "vm_inv lo hi root s free d" "pool_inv lo hi s free"
    and "upage (ram s) d n = Some p \<Longrightarrow> page_in lo hi p" "upage (ram s) d n = Some p \<Longrightarrow> p \<notin> set free"
    and "upage (ram s) d n = Some p \<Longrightarrow> p \<notin> ran d" "upage (ram s) d n = Some p \<Longrightarrow> p \<notin> R"
    and "upage (ram s) d n = Some p \<Longrightarrow> upage (ram s) d n' = Some p \<Longrightarrow> n = n'"
    and "q \<in> R \<Longrightarrow> page_in lo hi q" "q \<in> R \<Longrightarrow> q \<notin> set free" "q \<in> R \<Longrightarrow> q \<notin> ran d"
proof -
  show inv: "vm_inv lo hi root s free d" using assms by (simp add: space_inv_def)
  then show "pool_inv lo hi s free" by (rule vm_invD(1))
  show "upage (ram s) d n = Some p \<Longrightarrow> page_in lo hi p" "upage (ram s) d n = Some p \<Longrightarrow> p \<notin> set free"
    "upage (ram s) d n = Some p \<Longrightarrow> p \<notin> ran d" "upage (ram s) d n = Some p \<Longrightarrow> p \<notin> R"
    "upage (ram s) d n = Some p \<Longrightarrow> upage (ram s) d n' = Some p \<Longrightarrow> n = n'"
    "q \<in> R \<Longrightarrow> page_in lo hi q" "q \<in> R \<Longrightarrow> q \<notin> set free" "q \<in> R \<Longrightarrow> q \<notin> ran d"
    using assms unfolding space_inv_def by (blast, blast, blast, blast, blast, blast, blast, blast)
qed

lemma page_in_dvd: "page_in lo hi p \<Longrightarrow> 4096 dvd unat p"
  by (simp add: page_in_def)

lemma in_frame: "r < 4096 \<Longrightarrow> unat p + r \<in> frame p"
  by (simp add: frame_def)

lemma uphysE:
  assumes "uphys m d A = Some x"
  obtains p where "upage m d (A div 4096) = Some p" "x = unat p + A mod 4096" "x \<in> frame p"
  using assms in_frame [of "A mod 4096"] by (auto simp: uphys_upage)

lemma frame_inj:
  assumes "x \<in> frame p" "x \<in> frame q" "4096 dvd unat p" "4096 dvd unat q"
  shows "p = q"
  using frames_disjoint [OF assms(3,4)] assms(1,2) by blast

lemma space_inj:
  assumes inv: "space_inv lo hi root s free d R" and x: "uphys (ram s) d A = Some x" "uphys (ram s) d B = Some x"
  shows "A = B"
proof -
  obtain p where p: "upage (ram s) d (A div 4096) = Some p" "x = unat p + A mod 4096" "x \<in> frame p" by (rule uphysE [OF x(1)])
  obtain q where q: "upage (ram s) d (B div 4096) = Some q" "x = unat q + B mod 4096" "x \<in> frame q" by (rule uphysE [OF x(2)])
  have "p = q"
    by (rule frame_inj [OF p(3) q(3)]) (use space_invD(3) [OF inv] p(1) q(1) page_in_dvd in blast)+
  then have "A div 4096 = B div 4096" "A mod 4096 = B mod 4096" using space_invD(7) [OF inv p(1)] q p by auto
  then show ?thesis by (metis div_mult_mod_eq)
qed

lemma space_clear:
  assumes inv: "space_inv lo hi root s free d R" and x: "uphys (ram s) d A = Some x"
  shows "clear_of free d x" "ram s x \<noteq> None"
proof -
  obtain p where p: "upage (ram s) d (A div 4096) = Some p" "x = unat p + A mod 4096" "x \<in> frame p" by (rule uphysE [OF x])
  have pin: "page_in lo hi p" by (rule space_invD(3) [OF inv p(1)])
  have al: "4096 dvd unat b" if "b \<in> set free \<union> ran d" for b
    using that space_invD(2) [OF inv] vm_invD(6) [OF space_invD(1) [OF inv]] by (auto simp: pool_inv_def page_in_def ran_def)
  have "x \<notin> frame b" if b: "b \<in> set free \<union> ran d" for b
  proof
    assume "x \<in> frame b"
    then have "p = b" using frame_inj [OF p(3)] page_in_dvd [OF pin] al [OF b] by blast
    then show False using b space_invD(4,5) [OF inv p(1)] by blast
  qed
  then show "clear_of free d x" by (simp add: clear_of_def)
  have "mapped (ram s) (unat p) 4096" using space_invD(2) [OF inv] pin by (auto simp: pool_inv_def pages_mapped_def)
  then show "ram s x \<noteq> None" unfolding p(2) mapped_def by simp
qed

lemma space_range:
  assumes "space_inv lo hi root s free d R" and "\<forall>i<n. uphys (ram s) d (A + i) \<noteq> None"
  shows "user_range (ram s) free d A n" "user_inj (ram s) d A n"
proof -
  show "user_range (ram s) free d A n" using assms space_clear [OF assms(1)] unfolding user_range_def by blast
  have "i = j" if "i < n" "j < n" "uphys (ram s) d (A + i) = uphys (ram s) d (A + j)" for i j
    using that assms(2) space_inj [OF assms(1), of "A + i" _ "A + j"] by fastforce
  then show "user_inj (ram s) d A n" unfolding user_inj_def by blast
qed

text \<open>Memory that belongs to no page of the pool, or to a page of \<open>R\<close>, is left alone.\<close>

definition untouched :: "u64 \<Rightarrow> u64 \<Rightarrow> u64 set \<Rightarrow> mem \<Rightarrow> mem \<Rightarrow> bool" where
  "untouched lo hi R m m' \<longleftrightarrow> (\<forall>x. (\<forall>p. page_in lo hi p \<and> p \<notin> R \<longrightarrow> x \<notin> frame p) \<longrightarrow> m' x = m x)"

lemma untouched_refl [simp]: "untouched lo hi R m m"
  by (simp add: untouched_def)

lemma untouched_trans: "untouched lo hi R m m1 \<Longrightarrow> untouched lo hi R m1 m2 \<Longrightarrow> untouched lo hi R m m2"
  by (simp add: untouched_def)

text \<open>Writes through the table.\<close>

lemma space_write:
  assumes inv: "space_inv lo hi root s free d R" and same: "\<forall>x. (\<forall>A. uphys (ram s) d A \<noteq> Some x) \<longrightarrow> m x = ram s x"
    and mp: "\<forall>x. ram s x \<noteq> None \<longrightarrow> m x \<noteq> None"
  shows "space_inv lo hi root (s\<lparr>ram := m\<rparr>) free d R" "uphys m d A = uphys (ram s) d A" "untouched lo hi R (ram s) m"
    "entry m d n = entry (ram s) d n"
proof -
  have "\<forall>x. \<not> clear_of free d x \<longrightarrow> m x = ram s x" using same space_clear(1) [OF inv] by blast
  note fr = vm_inv_frame [OF space_invD(1) [OF inv] this mp]
  show "entry m d n = entry (ram s) d n" by (rule fr(2))
  have "upage m d n = upage (ram s) d n" for n by (simp add: upage_def fr(2))
  then show "space_inv lo hi root (s\<lparr>ram := m\<rparr>) free d R" "uphys m d A = uphys (ram s) d A"
    using inv fr(1) by (simp_all add: space_inv_def uphys_upage)
  show "untouched lo hi R (ram s) m"
    unfolding untouched_def
  proof (intro allI impI)
    fix x assume x: "\<forall>p. page_in lo hi p \<and> p \<notin> R \<longrightarrow> x \<notin> frame p"
    have "uphys (ram s) d A \<noteq> Some x" for A
    proof
      assume "uphys (ram s) d A = Some x"
      then obtain p where "upage (ram s) d (A div 4096) = Some p" "x \<in> frame p" by (rule uphysE)
      then show False using x space_invD(3,6) [OF inv] by blast
    qed
    then show "m x = ram s x" using same by blast
  qed
qed

text \<open>The bytes of a user range are replaced by those of \<open>f\<close>, all other user bytes stay.\<close>

definition user_set :: "mem \<Rightarrow> mem \<Rightarrow> ptree \<Rightarrow> nat \<Rightarrow> nat \<Rightarrow> (nat \<Rightarrow> u8 option) \<Rightarrow> bool" where
  "user_set m m' d A n f \<longleftrightarrow> (\<forall>B. ubyte m' d B = (if A \<le> B \<and> B < A + n then f (B - A) else ubyte m d B))"

lemma space_set:
  assumes inv: "space_inv lo hi root s free d R" and all: "\<forall>i<n. uphys (ram s) d (A + i) \<noteq> None"
    and new: "\<forall>i<n. \<forall>x. uphys (ram s) d (A + i) = Some x \<longrightarrow> m x = f i"
    and same: "\<forall>x. (\<forall>i<n. uphys (ram s) d (A + i) \<noteq> Some x) \<longrightarrow> m x = ram s x" and mp: "\<forall>x. ram s x \<noteq> None \<longrightarrow> m x \<noteq> None"
  shows "space_inv lo hi root (s\<lparr>ram := m\<rparr>) free d R" "user_set (ram s) m d A n f" "untouched lo hi R (ram s) m"
    "entry m d j = entry (ram s) d j"
proof -
  have "\<forall>x. (\<forall>A. uphys (ram s) d A \<noteq> Some x) \<longrightarrow> m x = ram s x" using same by blast
  note w = space_write [OF inv this mp]
  show "space_inv lo hi root (s\<lparr>ram := m\<rparr>) free d R" "untouched lo hi R (ram s) m" "entry m d j = entry (ram s) d j" by (rule w)+
  have "ubyte m d B = (if A \<le> B \<and> B < A + n then f (B - A) else ubyte (ram s) d B)" for B
  proof (cases "A \<le> B \<and> B < A + n")
    case True
    then obtain i where i: "i < n" "B = A + i" by (metis le_iff_add nat_add_left_cancel_less)
    then show ?thesis using all new True by (auto simp: ubyte_def w(2) split: option.splits)
  next
    case False
    have "m x = ram s x" if "uphys (ram s) d B = Some x" for x
    proof -
      have "\<forall>i<n. uphys (ram s) d (A + i) \<noteq> Some x" using False space_inj [OF inv that] by force
      then show ?thesis using same by blast
    qed
    then show ?thesis using False by (auto simp: ubyte_def w(2) split: option.splits)
  qed
  then show "user_set (ram s) m d A n f" by (simp add: user_set_def)
qed

lemma space_copyout:
  assumes inv: "space_inv lo hi root s free d R" and all: "\<forall>i<unat len. uphys (ram s) d (unat dstva + i) \<noteq> None"
    and src: "mapped (ram s) (unat src) (unat len)" "\<forall>i<unat len. \<forall>p. page_in lo hi p \<and> p \<notin> R \<longrightarrow> unat src + i \<notin> frame p" "unat src + unat len < 2 ^ 64"
  shows "\<exists>m'. copyout root dstva src len s = (Inr 0, s\<lparr>ram := m'\<rparr>) \<and> space_inv lo hi root (s\<lparr>ram := m'\<rparr>) free d R
    \<and> user_set (ram s) m' d (unat dstva) (unat len) (\<lambda>i. ram s (unat src + i)) \<and> untouched lo hi R (ram s) m' \<and> (\<forall>n. entry m' d n = entry (ram s) d n)"
proof -
  have "uphys (ram s) d (unat dstva + j) \<noteq> Some (unat src + i)" if i: "i < unat len" for i j
  proof
    assume "uphys (ram s) d (unat dstva + j) = Some (unat src + i)"
    then obtain p where "upage (ram s) d ((unat dstva + j) div 4096) = Some p" "unat src + i \<in> frame p" by (rule uphysE)
    then show False using src(2) i space_invD(3,6) [OF inv] by blast
  qed
  then have "apart_from_user (ram s) d (unat dstva) (unat len) (unat src)" using src(1) by (simp add: apart_from_user_def)
  then obtain m' where m': "copyout root dstva src len s = (Inr 0, s\<lparr>ram := m'\<rparr>)" "copied_out (ram s) d (unat dstva) (unat src) (unat len) m'"
      "\<forall>y. ram s y \<noteq> None \<longrightarrow> m' y \<noteq> None"
    using copyout_run [OF space_invD(1) [OF inv] space_range [OF inv all] _ src(3)] by blast
  show ?thesis
    using m'(1) space_set [OF inv all _ _ m'(3), of "\<lambda>i. ram s (unat src + i)"] m'(2) unfolding copied_out_def by blast
qed

section \<open>Filling user memory\<close>

definition filled_user :: "mem \<Rightarrow> ptree \<Rightarrow> nat \<Rightarrow> nat \<Rightarrow> u8 \<Rightarrow> mem \<Rightarrow> bool" where
  "filled_user m d A n v m' \<longleftrightarrow> (\<forall>i<n. \<forall>x. uphys m d (A + i) = Some x \<longrightarrow> m' x = Some v)
     \<and> (\<forall>x. (\<forall>i<n. uphys m d (A + i) \<noteq> Some x) \<longrightarrow> m' x = m x)"

lemma filled_clear:
  assumes "\<forall>i<k. clear_of free d (x + i)"
  shows "\<forall>y. \<not> clear_of free d y \<longrightarrow> filled m x v k y = m y"
  using assms by (auto simp: filled_def) (metis add_diff_inverse_nat add_less_cancel_left not_less)

lemma memset_user_step:
  assumes inv: "vm_inv lo hi root s free d" and len: "0 < len" and u: "user_range (ram s) free d (unat dstva) (unat len)"
  obtains x where "\<forall>i<unat (chunk dstva len). uphys (ram s) d (unat dstva + i) = Some (x + i)"
    "vm_inv lo hi root (s\<lparr>ram := filled (ram s) x v (unat (chunk dstva len))\<rparr>) free d"
    "\<forall>A. uphys (filled (ram s) x v (unat (chunk dstva len))) d A = uphys (ram s) d A"
    "memset_user root dstva v len s = memset_user root (PGROUNDDOWN dstva + PGSIZE) v (len - chunk dstva len)
       (s\<lparr>ram := filled (ram s) x v (unat (chunk dstva len))\<rparr>)"
proof -
  let ?n = "unat (chunk dstva len)"
  note c = chunk_facts [OF len, of dstva]
  have "0 < unat len" using c(1,2) by linarith
  then obtain x where x: "uphys (ram s) d (unat dstva) = Some x" "\<forall>i<?n. uphys (ram s) d (unat dstva + i) = Some (x + i)"
    "mapped (ram s) x ?n" "\<forall>i<?n. clear_of free d (x + i)"
    using user_range_page [OF u _ c(2,3)] by blast
  obtain pa0 where pa0: "walkaddr root (PGROUNDDOWN dstva) s = (Inr pa0, s)" "pa0 \<noteq> 0" "unat (pa0 + (dstva - PGROUNDDOWN dstva)) = x"
    using walkaddr_uphys(2) [OF inv x(1)] by blast
  have "memset_user root dstva v len s = memset_user root (PGROUNDDOWN dstva + PGSIZE) v (len - chunk dstva len)
       (s\<lparr>ram := filled (ram s) x v ?n\<rparr>)"
    by (subst memset_user.simps) (use len pa0 x(3) in \<open>simp add: mem_run\<close>)
  moreover note fr = vm_inv_frame [OF inv filled_clear [OF x(4)], of v]
  have "\<forall>y. ram s y \<noteq> None \<longrightarrow> filled (ram s) x v ?n y \<noteq> None" by (simp add: filled_def)
  then have "vm_inv lo hi root (s\<lparr>ram := filled (ram s) x v ?n\<rparr>) free d" "uphys (filled (ram s) x v ?n) d A = uphys (ram s) d A" for A
    using fr uphys_cong by (blast, metis)
  ultimately show thesis using that x(2) by blast
qed

lemma filled_user_split:
  assumes k: "k \<le> n" and x: "\<forall>i<k. uphys m d (A + i) = Some (x + i)"
    and same: "\<And>B. uphys (filled m x v k) d B = uphys m d B" and rest: "filled_user (filled m x v k) d (A + k) (n - k) v m'"
  shows "filled_user m d A n v m'"
proof -
  let ?m = "filled m x v k"
  have r1: "m' y = Some v" if "i < n - k" "uphys m d (A + k + i) = Some y" for i y using rest that by (simp add: filled_user_def same)
  have r2: "m' y = ?m y" if "\<forall>i<n - k. uphys m d (A + k + i) \<noteq> Some y" for y using rest that by (simp add: filled_user_def same)
  have in_x: "\<exists>j<k. y = x + j" if "x \<le> y" "y < x + k" for y using that by (intro exI [of _ "y - x"]) auto
  have "m' y = Some v" if i: "i < n" "uphys m d (A + i) = Some y" for i y
  proof (cases "\<exists>j<n - k. uphys m d (A + k + j) = Some y")
    case True
    then show ?thesis using r1 by blast
  next
    case False
    then have "\<not> k \<le> i" using i by (metis add.assoc le_add_diff_inverse diff_less_mono)
    then have "y = x + i" "i < k" using x i(2) by simp_all
    then show ?thesis using r2 [of y] False by (simp add: filled_def)
  qed
  moreover have "m' y = m y" if none: "\<forall>i<n. uphys m d (A + i) \<noteq> Some y" for y
  proof -
    have "uphys m d (A + k + i) \<noteq> Some y" if i: "i < n - k" for i
      using none that by (metis add.assoc add.commute less_diff_conv)
    then have "m' y = ?m y" using r2 by blast
    moreover have "\<not> (x \<le> y \<and> y < x + k)" using in_x [of y] x none k by (metis order_less_le_trans)
    ultimately show ?thesis by (auto simp: filled_def)
  qed
  ultimately show ?thesis unfolding filled_user_def by blast
qed

lemma memset_user_run:
  assumes "vm_inv lo hi root s free d" "user_range (ram s) free d (unat dstva) (unat len)"
  shows "\<exists>m'. memset_user root dstva v len s = (Inr 0, s\<lparr>ram := m'\<rparr>) \<and> filled_user (ram s) d (unat dstva) (unat len) v m'
    \<and> (\<forall>y. ram s y \<noteq> None \<longrightarrow> m' y \<noteq> None)"
  using assms
proof (induction "unat len" arbitrary: s dstva len rule: less_induct)
  case less
  show ?case
  proof (cases "0 < len")
    case False
    then have "memset_user root dstva v len s = (Inr 0, s\<lparr>ram := ram s\<rparr>)" by (subst memset_user.simps) simp
    moreover have "unat len = 0" using False by (simp add: word_gt_0)
    ultimately show ?thesis by (intro exI [of _ "ram s"]) (simp add: filled_user_def)
  next
    case True
    let ?n = "unat (chunk dstva len)" and ?A = "unat dstva"
    note c = chunk_facts [OF True, of dstva]
    obtain x where x: "\<forall>i<?n. uphys (ram s) d (?A + i) = Some (x + i)"
      "vm_inv lo hi root (s\<lparr>ram := filled (ram s) x v ?n\<rparr>) free d"
      "\<forall>B. uphys (filled (ram s) x v ?n) d B = uphys (ram s) d B"
      "memset_user root dstva v len s = memset_user root (PGROUNDDOWN dstva + PGSIZE) v (len - chunk dstva len)
         (s\<lparr>ram := filled (ram s) x v ?n\<rparr>)"
      by (rule memset_user_step [OF less.prems(1) True less.prems(2)])
    let ?s = "s\<lparr>ram := filled (ram s) x v ?n\<rparr>" and ?l = "len - chunk dstva len"
    have mp: "\<And>y. ram s y \<noteq> None \<Longrightarrow> filled (ram s) x v ?n y \<noteq> None" by (simp add: filled_def)
    have "uphys (ram s) d ?A = Some x" using x(1) c(1) by (metis add_0_right)
    then have "?A < 2 ^ 38" by (simp add: uphys_def Let_def split: if_splits)
    then have A': "unat ?l = 0 \<or> unat (PGROUNDDOWN dstva + PGSIZE) = ?A + ?n" using c(5) by blast
    have ur: "user_range (ram ?s) free d (unat (PGROUNDDOWN dstva + PGSIZE)) (unat ?l)"
      using A' user_range_rest [OF less.prems(2) x(3) [rule_format] mp, of ?n] c(4) by (auto simp: user_range_def)
    have "unat ?l < unat len" using c by simp
    then obtain m' where m': "memset_user root (PGROUNDDOWN dstva + PGSIZE) v ?l ?s = (Inr 0, ?s\<lparr>ram := m'\<rparr>)"
      "filled_user (ram ?s) d (unat (PGROUNDDOWN dstva + PGSIZE)) (unat ?l) v m'" "\<forall>y. ram ?s y \<noteq> None \<longrightarrow> m' y \<noteq> None"
      using less.hyps [OF _ x(2) ur] by blast
    have "filled_user (filled (ram s) x v ?n) d (?A + ?n) (unat len - ?n) v m'"
      using m'(2) A' c(4) by (auto simp: filled_user_def)
    then have "filled_user (ram s) d ?A (unat len) v m'" by (rule filled_user_split [OF c(2) x(1) x(3) [rule_format]])
    then show ?thesis using x(4) m'(1,3) mp by (intro exI [of _ m']) simp
  qed
qed

lemma space_memset:
  assumes inv: "space_inv lo hi root s free d R" and all: "\<forall>i<unat len. uphys (ram s) d (unat dstva + i) \<noteq> None"
  shows "\<exists>m'. memset_user root dstva v len s = (Inr 0, s\<lparr>ram := m'\<rparr>) \<and> space_inv lo hi root (s\<lparr>ram := m'\<rparr>) free d R
    \<and> user_set (ram s) m' d (unat dstva) (unat len) (\<lambda>_. Some v) \<and> untouched lo hi R (ram s) m' \<and> (\<forall>n. entry m' d n = entry (ram s) d n)"
proof -
  obtain m' where m': "memset_user root dstva v len s = (Inr 0, s\<lparr>ram := m'\<rparr>)" "filled_user (ram s) d (unat dstva) (unat len) v m'"
      "\<forall>y. ram s y \<noteq> None \<longrightarrow> m' y \<noteq> None"
    using memset_user_run [OF space_invD(1) [OF inv] space_range(1) [OF inv all]] by blast
  show ?thesis
    using m'(1) space_set [OF inv all _ _ m'(3), of "\<lambda>_. Some v"] m'(2) unfolding filled_user_def by blast
qed

section \<open>Mapping new pages\<close>

text \<open>What mapping pages \<open>n\<close> to \<open>n + k - 1\<close> does: these become pages of the process, all other pages and their contents stay.\<close>

definition space_grown :: "u64 \<Rightarrow> u64 \<Rightarrow> u64 set \<Rightarrow> mem \<Rightarrow> ptree \<Rightarrow> mem \<Rightarrow> ptree \<Rightarrow> nat \<Rightarrow> nat \<Rightarrow> bool" where
  "space_grown lo hi R m d m' d' n k \<longleftrightarrow> untouched lo hi R m m'
    \<and> (\<forall>j. n \<le> j \<and> j < n + k \<longrightarrow> upage m' d' j \<noteq> None)
    \<and> (\<forall>j. \<not> (n \<le> j \<and> j < n + k) \<longrightarrow> upage m' d' j = upage m d j \<and> (j < 2 ^ 27 \<longrightarrow> entry m' d' j = entry m d j))
    \<and> (\<forall>j p x. upage m d j = Some p \<and> x \<in> frame p \<longrightarrow> m' x = m x)"

lemma space_grown_refl: "space_grown lo hi R m d m d n 0"
  by (auto simp: space_grown_def)

lemma upage_entry: "entry m' d' n = entry m d n \<Longrightarrow> upage m' d' n = upage m d n"
  by (simp add: upage_def)

lemma vm_inv_take:
  assumes inv: "vm_inv lo hi root s (q # free) d" and pool: "pool_inv lo hi (s\<lparr>kernel_allocator := al\<rparr>) free"
  shows "vm_inv lo hi root (s\<lparr>kernel_allocator := al\<rparr>) free d"
  using inv pool unfolding vm_inv_def by auto

lemma npages_page: "4096 dvd unat va \<Longrightarrow> npages va PGSIZE = 1"
  by (auto simp: npages_def PGSIZE_def elim!: dvdE)

lemma space_map_page:
  assumes inv: "space_inv lo hi root s (q # free) d R" and room: "2 \<le> length free" and va: "4096 dvd unat va" "va < MAXVA"
    and un: "entry (ram s) d (vpn va) AND PTE_V = 0" and pte: "drop_bit 10 pte = 0" "pte AND PTE_U \<noteq> 0"
  shows "\<exists>al s' free' d'. alloc_page s = (Inr q, s\<lparr>kernel_allocator := al\<rparr>)
    \<and> uvmmap root va q PGSIZE pte (s\<lparr>kernel_allocator := al\<rparr>) = (Inr 0, s')
    \<and> space_inv lo hi root s' free' d' R \<and> space_grown lo hi R (ram s) d (ram s') d' (vpn va) 1
    \<and> mm.more s' = mm.more s \<and> length free \<le> length free' + 2"
proof -
  note D = space_invD [OF inv]
  obtain al where al: "alloc_page s = (Inr q, s\<lparr>kernel_allocator := al\<rparr>)" "pool_inv lo hi (s\<lparr>kernel_allocator := al\<rparr>) free"
    using alloc_page_cons [OF D(2)] by blast
  let ?s = "s\<lparr>kernel_allocator := al\<rparr>"
  have q: "page_in lo hi q" "q \<notin> set free" "q \<noteq> 0" "4096 dvd unat q" using D(2) by (auto simp: pool_inv_def page_in_def)
  have qd: "q \<notin> ran d" using vm_invD(5) [OF D(1)] by (auto simp: ran_def)
  have qR: "q \<notin> R" using D(9) by auto
  have inv1: "vm_inv lo hi root ?s free d" by (rule vm_inv_take [OF D(1) al(2)])
  have n: "npages va PGSIZE = 1" by (rule npages_page [OF va(1)])
  have "unat va + 4096 \<le> 2 ^ 38"
  proof -
    obtain k where "unat va = 4096 * k" using va(1) by (blast elim: dvdE)
    then show ?thesis using va(2) by (simp add: word_less_nat_alt MAXVA_def)
  qed
  then have rng: "0 < PGSIZE" "unat va + unat PGSIZE \<le> 2 ^ 38" by (simp_all add: PGSIZE_def)
  obtain s' free' d' where m: "mappages root va q PGSIZE pte ?s = (Inr 0, s')" "extends lo hi root ?s free d s' free' d'"
      "entries_set (ram s) d (ram s') d' (vpn va) 1 (\<lambda>i. leaf_pte q i pte)" "length free \<le> length free' + 2"
    using mappages_run [OF inv1 rng, of q pte] un room n by auto
  have e': "entry (ram s') d' k = (if k = vpn va then leaf_pte q 0 pte else entry (ram s) d k)" if "k < 2 ^ 27" for k
    using m(3) that unfolding entries_set_def by (cases "k = vpn va") auto
  have v26: "vpn va < 2 ^ 26" by (rule vpn_less [OF va(2)])
  have "PTE2PA (leaf_pte q 0 pte) = q" using leaf_pte_facts(2) [OF q(4) pte(1), of 0] by simp
  then have mine: "upage (ram s') d' (vpn va) = Some q"
    using e' [of "vpn va"] v26 leaf_pte_facts [OF q(4) pte(1), of 0] pte(2) q(3) by (simp add: upage_def)
  have other: "upage (ram s') d' j = upage (ram s) d j" if "j \<noteq> vpn va" for j
  proof (cases "j < 2 ^ 26")
    case True
    then have "j < 2 ^ 27" by simp
    then have "entry (ram s') d' j = entry (ram s) d j" using e' that by simp
    then show ?thesis by (rule upage_entry)
  qed (simp add: upage_def)
  have inv': "vm_inv lo hi root s' free' d'" and more: "mm.more s' = mm.more s"
    and wr: "\<And>x. \<forall>b \<in> ran d'. x \<notin> frame b \<Longrightarrow> ram s' x = ram s x"
    using m(2) by (simp_all add: extends_def)
  obtain u where u: "free = u @ free'" "ran d' \<subseteq> ran d \<union> set u" using m(2) unfolding extends_def by blast
  have fresh: "p \<notin> set free' \<and> p \<notin> ran d'" if "p \<notin> set free" "p \<notin> ran d" for p using that u by auto
  have keep: "ram s' x = ram s x" if "p \<notin> set free" "p \<notin> ran d" "4096 dvd unat p" "x \<in> frame p" for p x
  proof (rule wr, intro ballI notI)
    fix b assume b: "b \<in> ran d'" "x \<in> frame b"
    then have "4096 dvd unat b" using vm_invD(6) [OF inv'] by (auto simp: ran_def)
    then have "b = p" by (rule frame_inj [OF b(2) that(4) _ that(3)])
    then show False using b(1) fresh [OF that(1,2)] by blast
  qed
  have "space_inv lo hi root s' free' d' R"
    unfolding space_inv_def
  proof (intro conjI allI impI ballI)
    show "vm_inv lo hi root s' free' d'" by (rule inv')
  next
    fix n p assume p: "upage (ram s') d' n = Some p"
    show "page_in lo hi p" "p \<notin> set free'" "p \<notin> ran d'" "p \<notin> R"
      using p mine other q(1,2) qd qR fresh D(3-6) by (cases "n = vpn va"; force)+
  next
    fix n n' p assume p: "upage (ram s') d' n = Some p" "upage (ram s') d' n' = Some p"
    have "upage (ram s) d j \<noteq> Some q" for j using D(4) [of j q] by auto
    then show "n = n'" using p mine other D(7) by (cases "n = vpn va"; cases "n' = vpn va") auto
  next
    fix p assume "p \<in> R"
    then show "page_in lo hi p" "p \<notin> set free'" "p \<notin> ran d'" using D(8-10) [of p] fresh [of p] by auto
  qed
  moreover have one: "vpn va \<le> j \<and> j < vpn va + 1 \<longleftrightarrow> j = vpn va" for j by auto
  have "space_grown lo hi R (ram s) d (ram s') d' (vpn va) 1"
    unfolding space_grown_def one
  proof (intro conjI allI impI)
    show "untouched lo hi R (ram s) (ram s')"
      unfolding untouched_def
    proof (intro allI impI wr ballI)
      fix x b assume "\<forall>p. page_in lo hi p \<and> p \<notin> R \<longrightarrow> x \<notin> frame p" and b: "b \<in> ran d'"
      moreover have "page_in lo hi b" using b vm_invD(4) [OF inv'] by (auto simp: ran_def)
      moreover have "b \<notin> R" using b u(2) D(9,10) u(1) by auto
      ultimately show "x \<notin> frame b" by blast
    qed
    fix j p x assume "upage (ram s) d j = Some p \<and> x \<in> frame p"
    then show "ram s' x = ram s x" using keep [of p x] D(3-5) [of j p] page_in_dvd by auto
  qed (use mine other e' in auto)
  ultimately show ?thesis using al(1) m(1,4) more by (intro exI [of _ al] exI [of _ s'] exI [of _ free'] exI [of _ d']) (simp add: uvmmap_def)
qed

lemma space_grown_step:
  assumes g: "space_grown lo hi R m d m1 d1 n 1" "space_grown lo hi R m1 d1 m2 d2 (Suc n) k" and new: "upage m d n = None"
  shows "space_grown lo hi R m d m2 d2 n (Suc k)"
proof -
  have r: "n \<le> j \<and> j < n + Suc k \<longleftrightarrow> j = n \<or> Suc n \<le> j \<and> j < Suc n + k" for j by auto
  have one: "n \<le> j \<and> j < n + 1 \<longleftrightarrow> j = n" for j by auto
  note G = g [unfolded space_grown_def one]
  have n1: "upage m1 d1 n \<noteq> None" and o1: "\<And>j. j \<noteq> n \<Longrightarrow> upage m1 d1 j = upage m d j \<and> (j < 2 ^ 27 \<longrightarrow> entry m1 d1 j = entry m d j)"
    and k1: "\<And>j p x. upage m d j = Some p \<Longrightarrow> x \<in> frame p \<Longrightarrow> m1 x = m x" using G(1) by blast+
  have n2: "\<And>j. Suc n \<le> j \<and> j < Suc n + k \<Longrightarrow> upage m2 d2 j \<noteq> None"
    and o2: "\<And>j. \<not> (Suc n \<le> j \<and> j < Suc n + k) \<Longrightarrow> upage m2 d2 j = upage m1 d1 j \<and> (j < 2 ^ 27 \<longrightarrow> entry m2 d2 j = entry m1 d1 j)"
    and k2: "\<And>j p x. upage m1 d1 j = Some p \<Longrightarrow> x \<in> frame p \<Longrightarrow> m2 x = m1 x" using G(2) by blast+
  have "m2 x = m x" if "upage m d j = Some p" "x \<in> frame p" for j p x
  proof -
    have "j \<noteq> n" using new that(1) by auto
    then have "upage m1 d1 j = Some p" using o1 that(1) by simp
    then show ?thesis using k1 [OF that] k2 that(2) by simp
  qed
  moreover have "upage m2 d2 n \<noteq> None" using o2 [of n] n1 by simp
  moreover have "untouched lo hi R m m2" by (rule untouched_trans [OF conjunct1 [OF G(1)] conjunct1 [OF G(2)]])
  moreover have "upage m2 d2 j = upage m d j \<and> (j < 2 ^ 27 \<longrightarrow> entry m2 d2 j = entry m d j)"
    if "\<not> (j = n \<or> Suc n \<le> j \<and> j < Suc n + k)" for j using o1 [of j] o2 [of j] that by simp
  ultimately show ?thesis unfolding space_grown_def r using n2 by blast
qed

lemma mmap_loop_run:
  assumes "space_inv lo hi root s free d R" and "4096 dvd unat va" and "unat va_end = unat va + 4096 * k" and "unat va_end \<le> 2 ^ 38"
    and "\<forall>j<k. entry (ram s) d (vpn va + j) AND PTE_V = 0" and "drop_bit 10 pte = 0" and "pte AND PTE_U \<noteq> 0"
    and "3 * k \<le> length free" and "k < fuel"
  shows "\<exists>s' free' d'. mmap_loop fuel root va va_end pte s = (Inr None, s') \<and> space_inv lo hi root s' free' d' R
    \<and> space_grown lo hi R (ram s) d (ram s') d' (vpn va) k \<and> mm.more s' = mm.more s \<and> length free \<le> length free' + 3 * k"
  using assms
proof (induction k arbitrary: s free d va fuel)
  case 0
  then obtain f where "fuel = Suc f" by (cases fuel) auto
  moreover have "\<not> va < va_end" using "0.prems"(3) by (simp add: word_less_nat_alt)
  ultimately show ?case using "0.prems"(1) space_grown_refl [of lo hi R "ram s" d "vpn va"] by (intro exI [of _ s]) auto
next
  case (Suc k)
  obtain f where f: "fuel = Suc f" "k < f" using Suc.prems(9) by (cases fuel) auto
  obtain q fs where free: "free = q # fs" "2 + 3 * k \<le> length fs" using Suc.prems(8) by (cases free) auto
  have va: "va < va_end" "va < MAXVA" using Suc.prems(3,4) by (simp_all add: word_less_nat_alt MAXVA_def)
  have un: "entry (ram s) d (vpn va) AND PTE_V = 0" using Suc.prems(5) by (metis add_0_right zero_less_Suc)
  obtain al s1 fs1 d1 where 1: "alloc_page s = (Inr q, s\<lparr>kernel_allocator := al\<rparr>)" "uvmmap root va q PGSIZE pte (s\<lparr>kernel_allocator := al\<rparr>) = (Inr 0, s1)"
      "space_inv lo hi root s1 fs1 d1 R" "space_grown lo hi R (ram s) d (ram s1) d1 (vpn va) 1" "mm.more s1 = mm.more s" "length fs \<le> length fs1 + 2"
    using space_map_page [OF Suc.prems(1) [unfolded free(1)] _ Suc.prems(2) va(2) un Suc.prems(6,7)] free(2) by auto
  have q0: "q \<noteq> 0" using space_invD(2) [OF Suc.prems(1)] by (auto simp: free(1) pool_inv_def page_in_def)
  have step: "unat (va + PGSIZE) = unat va + 4096" by (rule MAXVA_step [OF va(2)])
  then have v1: "vpn (va + PGSIZE) = Suc (vpn va)" by (simp add: vpn_def)
  have small: "vpn va + Suc k \<le> 2 ^ 26" using Suc.prems(2-4) by (auto simp: vpn_def elim!: dvdE)
  have un1: "\<forall>j<k. entry (ram s1) d1 (vpn (va + PGSIZE) + j) AND PTE_V = 0"
  proof (intro allI impI)
    fix j assume j: "j < k"
    have "entry (ram s1) d1 (Suc (vpn va) + j) = entry (ram s) d (Suc (vpn va) + j)"
      using 1(4) small j unfolding space_grown_def by simp
    then show "entry (ram s1) d1 (vpn (va + PGSIZE) + j) AND PTE_V = 0" using Suc.prems(5) j v1 by (metis Suc_less_eq add_Suc_shift)
  qed
  obtain s' free' d' where 2: "mmap_loop f root (va + PGSIZE) va_end pte s1 = (Inr None, s')" "space_inv lo hi root s' free' d' R"
      "space_grown lo hi R (ram s1) d1 (ram s') d' (vpn (va + PGSIZE)) k" "mm.more s' = mm.more s1" "length fs1 \<le> length free' + 3 * k"
    using Suc.IH [OF 1(3) _ _ Suc.prems(4) un1 Suc.prems(6,7) _ f(2)] Suc.prems(2,3) step 1(6) free(2) by auto
  have "mmap_loop fuel root va va_end pte s = (Inr None, s')" using f(1) va(1) 1(1,2) q0 2(1) by simp
  moreover have "upage (ram s) d (vpn va) = None" using un by (simp add: upage_def)
  then have "space_grown lo hi R (ram s) d (ram s') d' (vpn va) (Suc k)"
    using space_grown_step [OF 1(4)] 2(3) v1 by simp
  ultimately show ?case using 2(2,4,5) 1(5,6) free by (intro exI [of _ s'] exI [of _ free'] exI [of _ d']) simp
qed

end
