(* ===== verification/Elf_Load.thy ===== *)
theory Elf_Load
  imports User_Space
begin

text \<open>
  The ELF loader (\<open>src/os/proc/elf.cc\<close>): the header checks, the program headers, and the memory of the process that a loadable
  segment becomes. The image lies in kernel memory; its fields are decoded from the bytes there.
\<close>

section \<open>Headers\<close>

record elf64_header =
  ei_magic :: u32
  ei_class :: u8
  ei_data :: u8
  ei_version :: u8
  ei_osabi :: u8
  ei_abiversion :: u8
  e_type :: u16
  e_machine :: u16
  e_version :: u32
  e_entry :: u64
  e_phoff :: u64
  e_shoff :: u64
  e_flags :: u32
  e_ehsize :: u16
  e_phentsize :: u16
  e_phnum :: u16
  e_shentsize :: u16
  e_shnum :: u16
  e_shstrndx :: u16

record elf64_program_header =
  p_type :: u32
  p_flags :: u32
  p_offset :: u64
  p_vaddr :: u64
  p_paddr :: u64
  p_filesz :: u64
  p_memsz :: u64
  p_align :: u64

definition ELF_MAGIC :: u32 where "ELF_MAGIC = 0x464c457f"
definition BIT64 :: u8 where "BIT64 = 2"
definition LITTLE :: u8 where "LITTLE = 1"
definition EI_CURRENT :: u8 where "EI_CURRENT = 1"
definition SYSTEM_V :: u8 where "SYSTEM_V = 0"
definition ABI_CURRENT :: u8 where "ABI_CURRENT = 0"
definition ET_EXEC :: u16 where "ET_EXEC = 2"
definition RISCV :: u16 where "RISCV = 0xf3"
definition E_CURRENT :: u32 where "E_CURRENT = 1"
definition PT_LOAD :: u32 where "PT_LOAD = 1"
definition PF_X :: u32 where "PF_X = 1"
definition PF_W :: u32 where "PF_W = 2"
definition PF_R :: u32 where "PF_R = 4"

definition sizeof_elf64_header :: u64 where "sizeof_elf64_header = 64"
definition sizeof_elf64_program_header :: u64 where "sizeof_elf64_program_header = 56"
definition sizeof_elf64_section_header :: u64 where "sizeof_elf64_section_header = 64"

definition fld :: "u8 list \<Rightarrow> nat \<Rightarrow> nat \<Rightarrow> 'a::len word" where
  "fld bs off n = of_le (bslice bs off n)"

definition header_of :: "u8 list \<Rightarrow> elf64_header" where
  "header_of bs = \<lparr>ei_magic = fld bs 0 4, ei_class = fld bs 4 1, ei_data = fld bs 5 1, ei_version = fld bs 6 1, ei_osabi = fld bs 7 1,
    ei_abiversion = fld bs 8 1, e_type = fld bs 16 2, e_machine = fld bs 18 2, e_version = fld bs 20 4, e_entry = fld bs 24 8,
    e_phoff = fld bs 32 8, e_shoff = fld bs 40 8, e_flags = fld bs 48 4, e_ehsize = fld bs 52 2, e_phentsize = fld bs 54 2,
    e_phnum = fld bs 56 2, e_shentsize = fld bs 58 2, e_shnum = fld bs 60 2, e_shstrndx = fld bs 62 2\<rparr>"

definition program_header_of :: "u8 list \<Rightarrow> elf64_program_header" where
  "program_header_of bs = \<lparr>p_type = fld bs 0 4, p_flags = fld bs 4 4, p_offset = fld bs 8 8, p_vaddr = fld bs 16 8, p_paddr = fld bs 24 8,
    p_filesz = fld bs 32 8, p_memsz = fld bs 40 8, p_align = fld bs 48 8\<rparr>"

definition load_bytes :: "mem \<Rightarrow> nat \<Rightarrow> nat \<Rightarrow> u8 list option" where
  "load_bytes m a n = (if list_all (\<lambda>i. m (a + i) \<noteq> None) [0..<n] then Some (map (\<lambda>i. the (m (a + i))) [0..<n]) else None)"

definition mem_load_bytes :: "u64 \<Rightarrow> u64 \<Rightarrow> ('x mm_scheme, u8 list) kmonad" where
  "mem_load_bytes a n = kbind (kget ram) (\<lambda>m.
    kopt (load_bytes m (unat a) (unat n)))"

text \<open>The checks on the header, in the order of the code.\<close>

definition header_ok :: "elf64_header \<Rightarrow> bool" where
  "header_ok h \<longleftrightarrow> ei_magic h = ELF_MAGIC \<and> ei_class h = BIT64 \<and> ei_data h = LITTLE \<and> ei_version h = EI_CURRENT \<and> ei_osabi h = SYSTEM_V
    \<and> ei_abiversion h = ABI_CURRENT \<and> e_type h = ET_EXEC \<and> e_machine h = RISCV \<and> e_version h = E_CURRENT
    \<and> ucast (e_phentsize h) = sizeof_elf64_program_header \<and> ucast (e_shentsize h) = sizeof_elf64_section_header"

section \<open>Loading\<close>

definition pte_flags_of :: "elf64_program_header \<Rightarrow> u64" where
  "pte_flags_of ph = (if p_flags ph AND PF_R \<noteq> 0 then PTE_R else 0) OR (if p_flags ph AND PF_W \<noteq> 0 then PTE_W else 0)
    OR (if p_flags ph AND PF_X \<noteq> 0 then PTE_X else 0) OR PTE_U"

text \<open>Copying the file part of a segment and clearing the rest of its pages.\<close>

definition fill_segment :: "u64 \<Rightarrow> u64 \<Rightarrow> elf64_program_header \<Rightarrow> ('x mm_scheme, int) kmonad" where
  "fill_segment pagetable start ph = (
    let start_addr = p_vaddr ph;
      start_addr_aligned = PGROUNDDOWN start_addr;
      end_addr_aligned = PGROUNDUP (p_vaddr ph + p_memsz ph);
      end_addr_file = p_vaddr ph + p_filesz ph in kbind (copyout pagetable start_addr (start + p_offset ph) (p_filesz ph)) (\<lambda>r.
        if r < 0 then kret (- 1) else kbind (if start_addr > start_addr_aligned then memset_user pagetable start_addr_aligned 0 (start_addr - start_addr_aligned) else kret 0) (\<lambda>r.
          if r < 0 then kret (- 1) else kbind (if end_addr_file < end_addr_aligned then memset_user pagetable end_addr_file 0 (end_addr_aligned - end_addr_file) else kret 0) (\<lambda>r.
            if r < 0 then kret (- 1) else kret 0))))"

text \<open>The body of the loop for a segment to be loaded; the result is negative when the loader gives up.\<close>

definition load_segment :: "nat \<Rightarrow> u64 \<Rightarrow> u64 \<Rightarrow> elf64_program_header \<Rightarrow> int km" where
  "load_segment p start sz ph = (if p_offset ph + p_filesz ph > sz then kret (- 1) else
    let start_addr_aligned = PGROUNDDOWN (p_vaddr ph);
      end_addr_aligned = PGROUNDUP (p_vaddr ph + p_memsz ph);
      mem_size = end_addr_aligned - start_addr_aligned in
    if end_addr_aligned \<ge> USER_STACK_TOP then kret (- 1) else
    if start_addr_aligned < USER_TEXT_START then kret (- 1) else kbind (get_proc p) (\<lambda>x.
      kseq (if start_addr_aligned < p_min_va x then mod_proc p (p_min_va_update (\<lambda>_. start_addr_aligned)) else kret ()) (
      kseq (if end_addr_aligned > p_max_va x then mod_proc p (p_max_va_update (\<lambda>_. end_addr_aligned)) else kret ()) (
      kbind (mmap_alloc p start_addr_aligned mem_size MAP_USER (pte_flags_of ph)) (\<lambda>r.
      if r < 0 then kret (- 1) else fill_segment (p_pagetable x) start ph)))))"

primrec load_segments :: "nat \<Rightarrow> u64 \<Rightarrow> u64 \<Rightarrow> u64 \<Rightarrow> nat list \<Rightarrow> int km" where
  "load_segments p start sz phoff [] = kret 0"
| "load_segments p start sz phoff (i # is) = kbind (mem_load_bytes (start + phoff + of_nat i * sizeof_elf64_program_header) sizeof_elf64_program_header) (\<lambda>bs.
  kbind (if p_type (program_header_of bs) = PT_LOAD then load_segment p start sz (program_header_of bs) else kret 0) (\<lambda>r.
  if r < 0 then kret (- 1) else load_segments p start sz phoff is))"

text \<open>The saved program counter is at offset 24 of the trap frame.\<close>

definition load_elf :: "nat \<Rightarrow> u64 \<Rightarrow> u64 \<Rightarrow> int km" where
  "load_elf p start sz = (if sz < sizeof_elf64_header then kret (- 1) else kbind (mem_load_bytes start sizeof_elf64_header) (\<lambda>bs.
    let h = header_of bs in
    if \<not> header_ok h then kret (- 1)
    else if e_phoff h = 0 \<or> e_phnum h = 0 then kret (- 1)
    else if e_phoff h + ucast (e_phnum h) * sizeof_elf64_program_header > sz then kret (- 1)
    else kbind (load_segments p start sz (e_phoff h) [0..<unat (e_phnum h)]) (\<lambda>r.
      if r < 0 then kret (- 1) else kbind (get_proc p) (\<lambda>x.
        kseq (mem_store64 (p_trapframe_pa x + 24) (e_entry h)) (
        kret 0)))))"

section \<open>Mapping memory for a process\<close>

lemma space_inv_procs [simp]: "space_inv lo hi root (s\<lparr>procs := v\<rparr>) free d R = space_inv lo hi root s free d R"
  for s :: kern
  by (simp add: space_inv_def vm_inv_def pool_inv_def)

lemma mmap_alloc_run:
  assumes inv: "space_inv lo hi root s free d R" and p: "p \<noteq> 0" "procs s p = Some x" "p_pagetable x = root"
    and va: "4096 dvd unat va" "unat sz = 4096 * k" "unat va + unat sz \<le> 2 ^ 38"
    and un: "\<forall>j<k. entry (ram s) d (vpn va + j) AND PTE_V = 0" and pte: "drop_bit 10 pte = 0" "pte AND PTE_U \<noteq> 0" and room: "3 * k \<le> length free"
  shows "\<exists>s' free' d'. mmap_alloc p va sz flags pte s = (Inr 0, s') \<and> space_inv lo hi root s' free' d' R
    \<and> space_grown lo hi R (ram s) d (ram s') d' (vpn va) k \<and> length free \<le> length free' + 3 * k
    \<and> procs s' = (procs s)(p \<mapsto> p_mmap_infos_update (\<lambda>l. l @ [\<lparr>mi_start = va, mi_size = sz, mi_flags = flags AND NOT MAP_SHARED, mi_pte_flags = pte\<rparr>]) x)"
proof -
  have e: "unat (va + sz) = unat va + 4096 * k" using va by (subst unat_add_lem [THEN iffD1]) simp_all
  have "k < Suc va_pages" using va(2,3) by (simp add: va_pages_def)
  then obtain s1 free1 d1 where 1: "mmap_loop (Suc va_pages) root va (va + sz) pte s = (Inr None, s1)" "space_inv lo hi root s1 free1 d1 R"
      "space_grown lo hi R (ram s) d (ram s1) d1 (vpn va) k" "mm.more s1 = mm.more s" "length free \<le> length free1 + 3 * k"
    using mmap_loop_run [OF inv va(1) e _ un pte room] e va(2,3) by fastforce
  have "procs s1 = procs s" by (rule kern_rest [OF 1(4)])
  then show ?thesis
    using 1 p by (intro exI [of _ "s1\<lparr>procs := (procs s1)(p \<mapsto> p_mmap_infos_update (\<lambda>l. l @
        [\<lparr>mi_start = va, mi_size = sz, mi_flags = flags AND NOT MAP_SHARED, mi_pte_flags = pte\<rparr>]) x)\<rparr>"] exI [of _ free1] exI [of _ d1])
      (simp add: mmap_alloc_def get_proc_run mod_proc_run del: mmap_loop.simps)
qed

lemma grown_uphys:
  assumes "space_grown lo hi R m d m' d' n k"
  shows "n \<le> B div 4096 \<and> B div 4096 < n + k \<Longrightarrow> uphys m' d' B \<noteq> None"
    and "\<not> (n \<le> B div 4096 \<and> B div 4096 < n + k) \<Longrightarrow> uphys m' d' B = uphys m d B \<and> ubyte m' d' B = ubyte m d B"
proof -
  note G = assms [unfolded space_grown_def]
  show "n \<le> B div 4096 \<and> B div 4096 < n + k \<Longrightarrow> uphys m' d' B \<noteq> None" using G by (simp add: uphys_upage)
  assume b: "\<not> (n \<le> B div 4096 \<and> B div 4096 < n + k)"
  then have u: "uphys m' d' B = uphys m d B" using G by (simp add: uphys_upage)
  moreover have "m' x = m x" if "uphys m d B = Some x" for x
    using that by (rule uphysE) (use G in blast)
  ultimately show "uphys m' d' B = uphys m d B \<and> ubyte m' d' B = ubyte m d B" by (simp add: ubyte_def split: option.splits)
qed

section \<open>One segment\<close>

definition seg_first :: "elf64_program_header \<Rightarrow> nat" where
  "seg_first ph = unat (p_vaddr ph) div 4096"

definition seg_count :: "elf64_program_header \<Rightarrow> nat" where
  "seg_count ph = (unat (p_vaddr ph) + unat (p_memsz ph) + 4095) div 4096 - seg_first ph"

definition in_segment :: "elf64_program_header \<Rightarrow> nat \<Rightarrow> bool" where
  "in_segment ph B \<longleftrightarrow> seg_first ph \<le> B div 4096 \<and> B div 4096 < seg_first ph + seg_count ph"

text \<open>The segment lies between the start of user text and the stack, its file part inside its memory part and inside the image.\<close>

definition segment_placed :: "elf64_program_header \<Rightarrow> bool" where
  "segment_placed ph \<longleftrightarrow> 4096 \<le> unat (p_vaddr ph) \<and> unat (p_vaddr ph) + unat (p_memsz ph) \<le> 2 ^ 37 - 8192 \<and> p_filesz ph \<le> p_memsz ph"

definition segment_fits :: "u64 \<Rightarrow> elf64_program_header \<Rightarrow> bool" where
  "segment_fits sz ph \<longleftrightarrow> segment_placed ph \<and> unat (p_offset ph) + unat (p_filesz ph) \<le> unat sz"

text \<open>What the memory of the process holds at \<open>B\<close>: the byte of the file, or zero.\<close>

definition segment_byte :: "mem \<Rightarrow> u64 \<Rightarrow> elf64_program_header \<Rightarrow> nat \<Rightarrow> u8 option" where
  "segment_byte m start ph B = (if unat (p_vaddr ph) \<le> B \<and> B < unat (p_vaddr ph) + unat (p_filesz ph)
     then m (unat (start + p_offset ph) + (B - unat (p_vaddr ph))) else Some 0)"

text \<open>Kernel memory from \<open>a\<close> on that no page of a process can be.\<close>

definition image_apart :: "u64 \<Rightarrow> u64 \<Rightarrow> u64 set \<Rightarrow> mem \<Rightarrow> nat \<Rightarrow> nat \<Rightarrow> bool" where
  "image_apart lo hi R m a n \<longleftrightarrow> mapped m a n \<and> a + n < 2 ^ 64 \<and> (\<forall>i<n. \<forall>p. page_in lo hi p \<and> p \<notin> R \<longrightarrow> a + i \<notin> frame p)"

lemma pte_flags_of_ok: "drop_bit 10 (pte_flags_of ph) = 0" "pte_flags_of ph AND PTE_U \<noteq> 0"
  by (simp_all add: pte_flags_of_def PTE_R_def PTE_W_def PTE_X_def PTE_U_def)

lemma segment_numbers:
  assumes "segment_placed ph"
  shows "unat (PGROUNDDOWN (p_vaddr ph)) = 4096 * seg_first ph" "unat (PGROUNDUP (p_vaddr ph + p_memsz ph)) = 4096 * (seg_first ph + seg_count ph)"
    "unat (p_vaddr ph + p_filesz ph) = unat (p_vaddr ph) + unat (p_filesz ph)"
    "unat (PGROUNDUP (p_vaddr ph + p_memsz ph) - PGROUNDDOWN (p_vaddr ph)) = 4096 * seg_count ph"
    "4096 * (seg_first ph + seg_count ph) \<le> 2 ^ 37 - 8192" "1 \<le> seg_first ph"
    "unat (p_vaddr ph) + unat (p_filesz ph) \<le> 4096 * (seg_first ph + seg_count ph)" "4096 * seg_first ph \<le> unat (p_vaddr ph)"
proof -
  let ?A = "unat (p_vaddr ph)" and ?M = "unat (p_memsz ph)" and ?F = "unat (p_filesz ph)"
  have f: "4096 \<le> ?A" "?A + ?M \<le> 2 ^ 37 - 8192" "?F \<le> ?M"
    using assms by (simp_all add: segment_placed_def word_le_nat_alt)
  have le: "seg_first ph \<le> (?A + ?M + 4095) div 4096" unfolding seg_first_def by (rule div_le_mono) simp
  then have sum: "seg_first ph + seg_count ph = (?A + ?M + 4095) div 4096" by (simp add: seg_count_def)
  show down: "unat (PGROUNDDOWN (p_vaddr ph)) = 4096 * seg_first ph" by (simp add: unat_PGROUNDDOWN seg_first_def)
  have "unat (p_vaddr ph + p_memsz ph) = ?A + ?M" using f by (subst unat_add_lem [THEN iffD1]) simp_all
  then show up: "unat (PGROUNDUP (p_vaddr ph + p_memsz ph)) = 4096 * (seg_first ph + seg_count ph)"
    unfolding sum by (subst unat_PGROUNDUP) (use f in simp_all)
  show "unat (p_vaddr ph + p_filesz ph) = ?A + ?F" using f by (subst unat_add_lem [THEN iffD1]) simp_all
  show "unat (PGROUNDUP (p_vaddr ph + p_memsz ph) - PGROUNDDOWN (p_vaddr ph)) = 4096 * seg_count ph"
    by (subst unat_sub) (simp_all add: word_le_nat_alt up down)
  show "4096 * (seg_first ph + seg_count ph) \<le> 2 ^ 37 - 8192"
  proof -
    have "(?A + ?M + 4095) div 4096 \<le> (2 ^ 37 - 8192 + 4095) div 4096" using f(2) by (intro div_le_mono) simp
    then show ?thesis by (simp add: sum)
  qed
  show "1 \<le> seg_first ph" using div_le_mono [OF f(1), of 4096] by (simp add: seg_first_def)
  show "?A + ?F \<le> 4096 * (seg_first ph + seg_count ph)" using f(3) unfolding sum by linarith
  show "4096 * seg_first ph \<le> ?A" by (simp add: seg_first_def)
qed

text \<open>Where the bytes of a segment come from.\<close>

lemma segment_source:
  assumes "segment_fits sz ph" and im: "image_apart lo hi R m (unat start) (unat sz)"
  shows "unat (start + p_offset ph) = unat start + unat (p_offset ph)" "\<not> p_offset ph + p_filesz ph > sz"
    "image_apart lo hi R m (unat (start + p_offset ph)) (unat (p_filesz ph))"
proof -
  have off: "unat (p_offset ph) + unat (p_filesz ph) \<le> unat sz" using assms(1) by (simp add: segment_fits_def)
  have "unat (p_offset ph + p_filesz ph) = unat (p_offset ph) + unat (p_filesz ph)"
    using off unsigned_less [of sz, where ?'a = nat] by (subst unat_add_lem [THEN iffD1]) simp_all
  then show "\<not> p_offset ph + p_filesz ph > sz" using off by (simp add: word_less_nat_alt)
  have I: "mapped m (unat start) (unat sz)" "unat start + unat sz < 2 ^ 64"
    "\<And>i p. i < unat sz \<Longrightarrow> page_in lo hi p \<Longrightarrow> p \<notin> R \<Longrightarrow> unat start + i \<notin> frame p" using im by (simp_all add: image_apart_def)
  show src: "unat (start + p_offset ph) = unat start + unat (p_offset ph)" using off I(2) by (subst unat_add_lem [THEN iffD1]) simp_all
  have "mapped m (unat start + unat (p_offset ph)) (unat (p_filesz ph))" by (rule mapped_sub [OF I(1) off])
  moreover have "unat start + unat (p_offset ph) + i \<notin> frame p" if "i < unat (p_filesz ph)" "page_in lo hi p" "p \<notin> R" for i p
    using I(3) [of "unat (p_offset ph) + i" p] that off by (simp add: add.assoc)
  ultimately show "image_apart lo hi R m (unat (start + p_offset ph)) (unat (p_filesz ph))"
    using I(2) off unfolding image_apart_def src by auto
qed

lemma fill_segment_run:
  fixes s :: "'x mm_scheme"
  assumes inv: "space_inv lo hi root s free d R" and fits: "segment_placed ph"
    and im: "image_apart lo hi R (ram s) (unat (start + p_offset ph)) (unat (p_filesz ph))"
    and all: "\<And>B. in_segment ph B \<Longrightarrow> uphys (ram s) d B \<noteq> None"
  shows "\<exists>m'. fill_segment root start ph s = (Inr 0, s\<lparr>ram := m'\<rparr>) \<and> space_inv lo hi root (s\<lparr>ram := m'\<rparr>) free d R
    \<and> untouched lo hi R (ram s) m' \<and> (\<forall>n. entry m' d n = entry (ram s) d n)
    \<and> (\<forall>B. ubyte m' d B = (if in_segment ph B then segment_byte (ram s) start ph B else ubyte (ram s) d B))"
proof -
  note N = segment_numbers [OF fits]
  let ?A = "unat (p_vaddr ph)" and ?F = "unat (p_filesz ph)" and ?lo = "4096 * seg_first ph" and ?hi = "4096 * (seg_first ph + seg_count ph)"
  have seg: "in_segment ph B \<longleftrightarrow> ?lo \<le> B \<and> B < ?hi" for B
    unfolding in_segment_def by (simp only: less_eq_div_iff_mult_less_eq div_less_iff_less_mult zero_less_numeral mult.commute)
  have a1: "\<forall>i<?F. uphys (ram s) d (?A + i) \<noteq> None" using all seg N(7,8) by simp
  have a2: "mapped (ram s) (unat (start + p_offset ph)) ?F" "unat (start + p_offset ph) + ?F < 2 ^ 64"
    "\<forall>i<?F. \<forall>p. page_in lo hi p \<and> p \<notin> R \<longrightarrow> unat (start + p_offset ph) + i \<notin> frame p" using im by (simp_all add: image_apart_def)
  obtain m1 where m1: "copyout root (p_vaddr ph) (start + p_offset ph) (p_filesz ph) s = (Inr 0, s\<lparr>ram := m1\<rparr>)"
      "space_inv lo hi root (s\<lparr>ram := m1\<rparr>) free d R" "user_set (ram s) m1 d ?A ?F (\<lambda>i. ram s (unat (start + p_offset ph) + i))"
      "untouched lo hi R (ram s) m1" "\<forall>n. entry m1 d n = entry (ram s) d n"
    using space_copyout [OF inv a1 a2(1,3,2)] by blast
  have gap: "unat (p_vaddr ph - PGROUNDDOWN (p_vaddr ph)) = ?A - ?lo"
    by (subst unat_sub [OF PGROUNDDOWN_le]) (simp add: N(1))
  define z1 where "z1 = (if p_vaddr ph > PGROUNDDOWN (p_vaddr ph) then memset_user root (PGROUNDDOWN (p_vaddr ph)) 0 (p_vaddr ph - PGROUNDDOWN (p_vaddr ph)) else kret 0 :: ('x mm_scheme, int) kmonad)"
  obtain m2 where m2: "z1 (s\<lparr>ram := m1\<rparr>) = (Inr 0, s\<lparr>ram := m2\<rparr>)" "space_inv lo hi root (s\<lparr>ram := m2\<rparr>) free d R"
      "user_set m1 m2 d ?lo (?A - ?lo) (\<lambda>_. Some 0)" "untouched lo hi R m1 m2" "\<forall>n. entry m2 d n = entry m1 d n"
  proof (cases "p_vaddr ph > PGROUNDDOWN (p_vaddr ph)")
    case True
    have "\<forall>i<unat (p_vaddr ph - PGROUNDDOWN (p_vaddr ph)). uphys (ram (s\<lparr>ram := m1\<rparr>)) d (unat (PGROUNDDOWN (p_vaddr ph)) + i) \<noteq> None"
      using all seg uphys_cong [of m1 d "ram s", OF m1(5) [rule_format]] N(1,7) gap by simp
    from space_memset [OF m1(2) this, of 0] show ?thesis using that True N(1) gap by (auto simp: z1_def)
  next
    case False
    then have "?A - ?lo = 0" using N(1) by (simp add: word_less_nat_alt)
    then have "user_set m1 m1 d ?lo (?A - ?lo) (\<lambda>_. Some 0)" by (auto simp: user_set_def)
    then show ?thesis using that [of m1] m1(2) False by (simp add: z1_def)
  qed
  have rest: "unat (PGROUNDUP (p_vaddr ph + p_memsz ph) - (p_vaddr ph + p_filesz ph)) = ?hi - (?A + ?F)"
    by (subst unat_sub) (use N(2,3,7) in \<open>simp_all add: word_le_nat_alt\<close>)
  define z2 where "z2 = (if p_vaddr ph + p_filesz ph < PGROUNDUP (p_vaddr ph + p_memsz ph)
     then memset_user root (p_vaddr ph + p_filesz ph) 0 (PGROUNDUP (p_vaddr ph + p_memsz ph) - (p_vaddr ph + p_filesz ph)) else kret 0 :: ('x mm_scheme, int) kmonad)"
  obtain m3 where m3: "z2 (s\<lparr>ram := m2\<rparr>) = (Inr 0, s\<lparr>ram := m3\<rparr>)" "space_inv lo hi root (s\<lparr>ram := m3\<rparr>) free d R"
      "user_set m2 m3 d (?A + ?F) (?hi - (?A + ?F)) (\<lambda>_. Some 0)" "untouched lo hi R m2 m3" "\<forall>n. entry m3 d n = entry m2 d n"
  proof (cases "p_vaddr ph + p_filesz ph < PGROUNDUP (p_vaddr ph + p_memsz ph)")
    case True
    have "\<forall>i<unat (PGROUNDUP (p_vaddr ph + p_memsz ph) - (p_vaddr ph + p_filesz ph)). uphys (ram (s\<lparr>ram := m2\<rparr>)) d (unat (p_vaddr ph + p_filesz ph) + i) \<noteq> None"
      using all seg uphys_cong [of m2 d "ram s"] m1(5) m2(5) N(3,8) rest by simp
    from space_memset [OF m2(2) this, of 0] show ?thesis using that True N(3) rest by (auto simp: z2_def)
  next
    case False
    then have "?hi - (?A + ?F) = 0" using N(2,3) by (simp add: word_less_nat_alt)
    then have "user_set m2 m2 d (?A + ?F) (?hi - (?A + ?F)) (\<lambda>_. Some 0)" by (auto simp: user_set_def)
    then show ?thesis using that [of m2] m2(2) False by (simp add: z2_def)
  qed
  have "fill_segment root start ph s = (Inr 0, s\<lparr>ram := m3\<rparr>)"
    using m1(1) m2(1) m3(1) by (simp add: fill_segment_def Let_def z1_def z2_def)
  moreover have "ubyte m3 d B = (if in_segment ph B then segment_byte (ram s) start ph B else ubyte (ram s) d B)" for B
  proof -
    have b: "ubyte m1 d B = (if ?A \<le> B \<and> B < ?A + ?F then ram s (unat (start + p_offset ph) + (B - ?A)) else ubyte (ram s) d B)"
      "ubyte m2 d B = (if ?lo \<le> B \<and> B < ?A then Some 0 else ubyte m1 d B)"
      "ubyte m3 d B = (if ?A + ?F \<le> B \<and> B < ?hi then Some 0 else ubyte m2 d B)"
      using spec [OF m1(3) [unfolded user_set_def], of B] spec [OF m2(3) [unfolded user_set_def], of B]
        spec [OF m3(3) [unfolded user_set_def], of B] N(7,8) by simp_all
    consider "B < ?lo" | "?lo \<le> B" "B < ?A" | "?A \<le> B" "B < ?A + ?F" | "?A + ?F \<le> B" "B < ?hi" | "?hi \<le> B" by linarith
    then show ?thesis unfolding seg segment_byte_def using b N(7,8) by cases simp_all
  qed
  moreover have "untouched lo hi R (ram s) m3" by (rule untouched_trans [OF m1(4) untouched_trans [OF m2(4) m3(4)]])
  ultimately show ?thesis using m3(2,5) m2(5) m1(5) by (intro exI [of _ m3]) simp
qed

text \<open>What loading some segments does to the state.\<close>

definition loaded :: "u64 \<Rightarrow> u64 \<Rightarrow> u64 set \<Rightarrow> u64 \<Rightarrow> elf64_program_header list \<Rightarrow> mem \<Rightarrow> ptree \<Rightarrow> mem \<Rightarrow> ptree \<Rightarrow> bool" where
  "loaded lo hi R start phs m d m' d' \<longleftrightarrow> untouched lo hi R m m'
    \<and> (\<forall>B. \<forall>ph \<in> set phs. in_segment ph B \<longrightarrow> ubyte m' d' B = segment_byte m start ph B)
    \<and> (\<forall>B. (\<forall>ph \<in> set phs. \<not> in_segment ph B) \<longrightarrow> ubyte m' d' B = ubyte m d B)
    \<and> (\<forall>n<2 ^ 27. (\<forall>ph \<in> set phs. \<not> in_segment ph (4096 * n)) \<longrightarrow> entry m' d' n = entry m d n)"

definition same_process :: "proc \<Rightarrow> proc \<Rightarrow> bool" where
  "same_process x y \<longleftrightarrow> p_pagetable y = p_pagetable x \<and> p_trapframe_pa y = p_trapframe_pa x \<and> p_state y = p_state x
    \<and> p_stack_bottom_va y = p_stack_bottom_va x \<and> p_files y = p_files x"

lemma set_bounds_run:
  assumes "p \<noteq> 0" and "procs s p = Some x"
  shows "\<exists>y. kseq (if a then mod_proc p (p_min_va_update (\<lambda>_. v)) else kret ()) (kseq (if b then mod_proc p (p_max_va_update (\<lambda>_. w)) else kret ()) m) s
      = m (s\<lparr>procs := (procs s)(p \<mapsto> y)\<rparr>) \<and> same_process x y"
proof -
  define y where "y = (if b then p_max_va_update (\<lambda>_. w) else id) ((if a then p_min_va_update (\<lambda>_. v) else id) x)"
  have "(procs s)(p \<mapsto> x) = procs s" using assms(2) by auto
  then have same: "s\<lparr>procs := (procs s)(p \<mapsto> x)\<rparr> = s" by simp
  have "kseq (if a then mod_proc p (p_min_va_update (\<lambda>_. v)) else kret ()) (kseq (if b then mod_proc p (p_max_va_update (\<lambda>_. w)) else kret ()) m) s
      = m (s\<lparr>procs := (procs s)(p \<mapsto> y)\<rparr>)"
    using assms same by (cases a; cases b) (simp_all add: mod_proc_run y_def)
  moreover have "same_process x y" by (simp add: same_process_def y_def)
  ultimately show ?thesis by blast
qed

lemma load_segment_run:
  assumes inv: "space_inv lo hi root s free d R" and p: "p \<noteq> 0" "procs s p = Some x" "p_pagetable x = root"
    and fits: "segment_placed ph" and c1: "\<not> p_offset ph + p_filesz ph > sz"
    and im: "image_apart lo hi R (ram s) (unat (start + p_offset ph)) (unat (p_filesz ph))"
    and un: "\<forall>j < seg_count ph. entry (ram s) d (seg_first ph + j) AND PTE_V = 0" and room: "3 * seg_count ph \<le> length free"
  shows "\<exists>s' free' d' y. load_segment p start sz ph s = (Inr 0, s') \<and> space_inv lo hi root s' free' d' R \<and> loaded lo hi R start [ph] (ram s) d (ram s') d'
    \<and> length free \<le> length free' + 3 * seg_count ph \<and> procs s' = (procs s)(p \<mapsto> y) \<and> same_process x y"
proof -
  note N = segment_numbers [OF fits]
  let ?lo = "PGROUNDDOWN (p_vaddr ph)" and ?hi = "PGROUNDUP (p_vaddr ph + p_memsz ph)"
  have c2: "\<not> ?hi \<ge> USER_STACK_TOP" using N(2,5) by (simp add: word_le_nat_alt USER_STACK_TOP_def USER_STACK_BOTTOM_def USTACK_SIZE_def)
  have c3: "\<not> ?lo < USER_TEXT_START" using N(1,6) by (simp add: word_less_nat_alt USER_TEXT_START_def)
  let ?m = "kbind (mmap_alloc p ?lo (?hi - ?lo) MAP_USER (pte_flags_of ph)) (\<lambda>r. if r < 0 then kret (- 1) else fill_segment (p_pagetable x) start ph)"
  obtain y where y: "same_process x y"
      "load_segment p start sz ph s = ?m (s\<lparr>procs := (procs s)(p \<mapsto> y)\<rparr>)"
    using set_bounds_run [OF p(1,2), of "?lo < p_min_va x" ?lo "?hi > p_max_va x" ?hi ?m] c1 c2 c3 p(1,2)
    by (auto simp: load_segment_def Let_def get_proc_run)
  let ?s = "s\<lparr>procs := (procs s)(p \<mapsto> y)\<rparr>"
  have yp: "procs ?s p = Some y" "p_pagetable y = root" using y(1) p(3) by (simp_all add: same_process_def)
  have dv: "4096 dvd unat ?lo" and v: "vpn ?lo = seg_first ph" using N(1) by (simp_all add: vpn_def)
  have fit: "unat ?lo + unat (?hi - ?lo) \<le> 2 ^ 38" using N(1,4,5) by simp
  obtain s1 free1 d1 z where s1: "mmap_alloc p ?lo (?hi - ?lo) MAP_USER (pte_flags_of ph) ?s = (Inr 0, s1)" "space_inv lo hi root s1 free1 d1 R"
      "space_grown lo hi R (ram s) d (ram s1) d1 (seg_first ph) (seg_count ph)" "length free \<le> length free1 + 3 * seg_count ph"
      "procs s1 = (procs s)(p \<mapsto> p_mmap_infos_update z y)"
    using mmap_alloc_run [of lo hi root ?s free d R p y ?lo "?hi - ?lo" "seg_count ph" "pte_flags_of ph" MAP_USER] inv p(1) yp dv N(4) fit un v pte_flags_of_ok [of ph] room
    by auto
  have U: "untouched lo hi R (ram s) (ram s1)" using s1(3) by (simp add: space_grown_def)
  have keep: "ram s1 (unat (start + p_offset ph) + i) = ram s (unat (start + p_offset ph) + i)" if "i < unat (p_filesz ph)" for i
    using U im that unfolding untouched_def image_apart_def by blast
  have im1: "image_apart lo hi R (ram s1) (unat (start + p_offset ph)) (unat (p_filesz ph))" using im keep unfolding image_apart_def mapped_def by simp
  have all: "uphys (ram s1) d1 B \<noteq> None" if "in_segment ph B" for B
    using grown_uphys(1) [OF s1(3)] that by (simp add: in_segment_def)
  obtain m' where m': "fill_segment root start ph s1 = (Inr 0, s1\<lparr>ram := m'\<rparr>)" "space_inv lo hi root (s1\<lparr>ram := m'\<rparr>) free1 d1 R"
      "untouched lo hi R (ram s1) m'" "\<forall>n. entry m' d1 n = entry (ram s1) d1 n"
      "\<forall>B. ubyte m' d1 B = (if in_segment ph B then segment_byte (ram s1) start ph B else ubyte (ram s1) d1 B)"
    using fill_segment_run [OF s1(2) fits im1 all] by blast
  have seg: "segment_byte (ram s1) start ph B = segment_byte (ram s) start ph B" for B
    using keep [of "B - unat (p_vaddr ph)"] by (auto simp: segment_byte_def)
  have "loaded lo hi R start [ph] (ram s) d m' d1"
    unfolding loaded_def
  proof (intro conjI allI impI ballI)
    show "untouched lo hi R (ram s) m'" by (rule untouched_trans [OF U m'(3)])
  next
    fix B q assume "q \<in> set [ph]" "in_segment q B"
    then show "ubyte m' d1 B = segment_byte (ram s) start q B" using m'(5) seg by simp
  next
    fix B assume "\<forall>q \<in> set [ph]. \<not> in_segment q B"
    then have "\<not> in_segment ph B" by simp
    then show "ubyte m' d1 B = ubyte (ram s) d B" using m'(5) grown_uphys(2) [OF s1(3), of B] unfolding in_segment_def by metis
  next
    fix n :: nat assume "n < 2 ^ 27" "\<forall>q \<in> set [ph]. \<not> in_segment q (4096 * n)"
    then show "entry m' d1 n = entry (ram s) d n" using m'(4) s1(3) by (simp add: in_segment_def space_grown_def)
  qed
  moreover have "same_process x (p_mmap_infos_update z y)" using y(1) by (simp add: same_process_def)
  moreover have "load_segment p start sz ph s = (Inr 0, s1\<lparr>ram := m'\<rparr>)" using y(2) s1(1) m'(1) p(3) by simp
  ultimately show ?thesis using m'(2) s1(4,5) by (intro exI [of _ "s1\<lparr>ram := m'\<rparr>"] exI [of _ free1] exI [of _ d1] exI [of _ "p_mmap_infos_update z y"]) simp
qed

section \<open>All segments\<close>

definition seg_apart :: "elf64_program_header \<Rightarrow> elf64_program_header \<Rightarrow> bool" where
  "seg_apart x y \<longleftrightarrow> seg_first x + seg_count x \<le> seg_first y \<or> seg_first y + seg_count y \<le> seg_first x"

definition seg_unmapped :: "mem \<Rightarrow> ptree \<Rightarrow> elf64_program_header \<Rightarrow> bool" where
  "seg_unmapped m d ph \<longleftrightarrow> (\<forall>j < seg_count ph. entry m d (seg_first ph + j) AND PTE_V = 0)"

lemma seg_apartD: "seg_apart x y \<Longrightarrow> in_segment x B \<Longrightarrow> \<not> in_segment y B"
  by (auto simp: seg_apart_def in_segment_def)

definition image_bytes :: "mem \<Rightarrow> nat \<Rightarrow> nat \<Rightarrow> u8 list" where
  "image_bytes m a n = map (\<lambda>i. the (m (a + i))) [0..<n]"

lemma load_bytes_run: "mapped m a n \<Longrightarrow> load_bytes m a n = Some (image_bytes m a n)"
  by (auto simp: load_bytes_def image_bytes_def mapped_def list_all_iff)

definition ph_at :: "mem \<Rightarrow> u64 \<Rightarrow> u64 \<Rightarrow> nat \<Rightarrow> elf64_program_header" where
  "ph_at m start phoff i = program_header_of (image_bytes m (unat start + unat phoff + 56 * i) 56)"

text \<open>The image does not change while segments are loaded.\<close>

definition image_same :: "u64 \<Rightarrow> u64 \<Rightarrow> mem \<Rightarrow> mem \<Rightarrow> bool" where
  "image_same start sz m m' \<longleftrightarrow> (\<forall>i<unat sz. m' (unat start + i) = m (unat start + i))"

lemma image_sameI: "untouched lo hi R m m' \<Longrightarrow> image_apart lo hi R m (unat start) (unat sz) \<Longrightarrow> image_same start sz m m'"
  unfolding untouched_def image_apart_def image_same_def by blast

lemma image_same_facts:
  assumes "image_same start sz m m'"
  shows "image_apart lo hi R m (unat start) (unat sz) \<Longrightarrow> image_apart lo hi R m' (unat start) (unat sz)"
    and "unat phoff + 56 * i + 56 \<le> unat sz \<Longrightarrow> ph_at m' start phoff i = ph_at m start phoff i"
    and "segment_fits sz ph \<Longrightarrow> image_apart lo hi R m (unat start) (unat sz) \<Longrightarrow> segment_byte m' start ph B = segment_byte m start ph B"
proof -
  have at: "m' (unat start + i) = m (unat start + i)" if "i < unat sz" for i using assms that by (simp add: image_same_def)
  show "image_apart lo hi R m (unat start) (unat sz) \<Longrightarrow> image_apart lo hi R m' (unat start) (unat sz)" using at by (simp add: image_apart_def mapped_def)
  show "ph_at m' start phoff i = ph_at m start phoff i" if "unat phoff + 56 * i + 56 \<le> unat sz"
  proof -
    have "m' (unat start + unat phoff + 56 * i + j) = m (unat start + unat phoff + 56 * i + j)" if j: "j < 56" for j
      using at [of "unat phoff + 56 * i + j"] j \<open>unat phoff + 56 * i + 56 \<le> unat sz\<close> by (simp add: add.assoc)
    then have "image_bytes m' (unat start + unat phoff + 56 * i) 56 = image_bytes m (unat start + unat phoff + 56 * i) 56"
      unfolding image_bytes_def by (intro map_cong) simp_all
    then show ?thesis by (simp only: ph_at_def)
  qed
  show "segment_byte m' start ph B = segment_byte m start ph B" if "segment_fits sz ph" "image_apart lo hi R m (unat start) (unat sz)"
    using at [of "unat (p_offset ph) + (B - unat (p_vaddr ph))"] segment_source(1) [OF that] that(1)
    by (auto simp: segment_byte_def segment_fits_def add.assoc)
qed

lemma loaded_nil: "loaded lo hi R start [] m d m d"
  by (simp add: loaded_def)

lemma loaded_cons:
  assumes a: "loaded lo hi R start [ph] m d m1 d1" and b: "loaded lo hi R start phs m1 d1 m2 d2"
    and apart: "\<forall>q \<in> set phs. seg_apart ph q" and same: "\<And>q B. q \<in> set phs \<Longrightarrow> segment_byte m1 start q B = segment_byte m start q B"
  shows "loaded lo hi R start (ph # phs) m d m2 d2"
proof -
  note A = a [unfolded loaded_def] and B = b [unfolded loaded_def]
  have "untouched lo hi R m m2" by (rule untouched_trans [OF conjunct1 [OF A] conjunct1 [OF B]])
  moreover have "ubyte m2 d2 X = segment_byte m start q X" if q: "q \<in> set (ph # phs)" "in_segment q X" for q X
  proof (cases "q \<in> set phs")
    case True
    then show ?thesis using B q(2) same by simp
  next
    case False
    then have eq: "q = ph" using q(1) by simp
    then have "\<forall>r \<in> set phs. \<not> in_segment r X" using apart seg_apartD q(2) by blast
    then show ?thesis using A B q(2) eq by simp
  qed
  moreover have "ubyte m2 d2 X = ubyte m d X" if "\<forall>q \<in> set (ph # phs). \<not> in_segment q X" for X using that A B by simp
  moreover have "entry m2 d2 n = entry m d n" if "n < 2 ^ 27" "\<forall>q \<in> set (ph # phs). \<not> in_segment q (4096 * n)" for n using that A B by simp
  ultimately show ?thesis unfolding loaded_def by blast
qed

lemma seg_unmapped_keep:
  assumes a: "loaded lo hi R start [ph] m d m1 d1" and "seg_apart ph q" and "segment_fits sz q" and un: "seg_unmapped m d q"
  shows "seg_unmapped m1 d1 q"
  unfolding seg_unmapped_def
proof (intro allI impI)
  fix j assume j: "j < seg_count q"
  have "in_segment q (4096 * (seg_first q + j))" using j by (simp add: in_segment_def)
  then have "\<not> in_segment ph (4096 * (seg_first q + j))" using seg_apartD assms(2) by blast
  moreover have "seg_first q + j < 2 ^ 27" using segment_numbers(5) [of q] assms(3) j by (simp add: segment_fits_def)
  ultimately have "entry m1 d1 (seg_first q + j) = entry m d (seg_first q + j)" using a unfolding loaded_def by simp
  then show "entry m1 d1 (seg_first q + j) AND PTE_V = 0" using un j by (simp add: seg_unmapped_def)
qed

fun segs_apart :: "elf64_program_header list \<Rightarrow> bool" where
  "segs_apart [] \<longleftrightarrow> True"
| "segs_apart (x # xs) \<longleftrightarrow> (\<forall>y \<in> set xs. seg_apart x y) \<and> segs_apart xs"

definition to_load :: "mem \<Rightarrow> u64 \<Rightarrow> u64 \<Rightarrow> nat list \<Rightarrow> elf64_program_header list" where
  "to_load m start phoff is = filter (\<lambda>ph. p_type ph = PT_LOAD) (map (ph_at m start phoff) is)"

lemma header_read:
  fixes sz :: u64
  assumes im: "image_apart lo hi R (ram s) (unat start) (unat sz)" and b: "unat phoff + 56 * i + 56 \<le> unat sz"
  shows "mem_load_bytes (start + phoff + of_nat i * sizeof_elf64_program_header) sizeof_elf64_program_header s
    = (Inr (image_bytes (ram s) (unat start + unat phoff + 56 * i) 56), s)"
proof -
  have mp: "mapped (ram s) (unat start) (unat sz)" and lt: "unat start + unat sz < 2 ^ 64" using im by (simp_all add: image_apart_def)
  have i: "unat (of_nat i * 56 :: u64) = 56 * i"
    using b unsigned_less [of sz, where ?'a = nat] by (simp add: unat_word_ariths unat_of_nat mod_simps)
  have "unat (start + phoff) = unat start + unat phoff" using b lt by (subst unat_add_lem [THEN iffD1]) simp_all
  then have a: "unat (start + phoff + of_nat i * 56) = unat start + unat phoff + 56 * i" using b lt i by (subst unat_add_lem [THEN iffD1]) simp_all
  have "mapped (ram s) (unat start + (unat phoff + 56 * i)) 56" by (rule mapped_sub [OF mp]) (use b in simp)
  then have "load_bytes (ram s) (unat (start + phoff + of_nat i * 56)) 56 = Some (image_bytes (ram s) (unat start + unat phoff + 56 * i) 56)"
    unfolding a by (simp only: load_bytes_run add.assoc)
  then show ?thesis by (simp add: mem_load_bytes_def sizeof_elf64_program_header_def)
qed

lemma load_segments_run:
  assumes "space_inv lo hi root s free d R" and "p \<noteq> 0" and "procs s p = Some x" and "p_pagetable x = root"
    and "image_apart lo hi R (ram s) (unat start) (unat sz)" and "\<forall>i \<in> set is. unat phoff + 56 * i + 56 \<le> unat sz"
    and "\<forall>ph \<in> set (to_load (ram s) start phoff is). segment_fits sz ph \<and> seg_unmapped (ram s) d ph"
    and "segs_apart (to_load (ram s) start phoff is)" and "3 * sum_list (map seg_count (to_load (ram s) start phoff is)) \<le> length free"
  shows "\<exists>s' free' d' y. load_segments p start sz phoff is s = (Inr 0, s') \<and> space_inv lo hi root s' free' d' R
    \<and> loaded lo hi R start (to_load (ram s) start phoff is) (ram s) d (ram s') d' \<and> procs s' = (procs s)(p \<mapsto> y) \<and> same_process x y"
  using assms
proof (induction "is" arbitrary: s free d x)
  case Nil
  have "(procs s)(p \<mapsto> x) = procs s" using Nil.prems(3) by auto
  moreover have "same_process x x" by (simp add: same_process_def)
  ultimately show ?case
    using Nil.prems(1) loaded_nil [of lo hi R start "ram s" d] by (intro exI [of _ s] exI [of _ free] exI [of _ d] exI [of _ x]) (simp add: to_load_def)
next
  case (Cons i "is")
  let ?ph = "ph_at (ram s) start phoff i"
  have "unat phoff + 56 * i + 56 \<le> unat sz" using Cons.prems(6) by simp
  note rd = header_read [OF Cons.prems(5) this]
  show ?case
  proof (cases "p_type ?ph = PT_LOAD")
    case False
    then have skip: "to_load (ram s) start phoff (i # is) = to_load (ram s) start phoff is" by (simp add: to_load_def)
    have "load_segments p start sz phoff (i # is) s = load_segments p start sz phoff is s" using rd False by (simp add: ph_at_def)
    then show ?thesis using Cons.IH [OF Cons.prems(1-5)] Cons.prems(6-9) unfolding skip by simp
  next
    case True
    let ?rest = "to_load (ram s) start phoff is"
    have tl: "to_load (ram s) start phoff (i # is) = ?ph # ?rest" using True by (simp add: to_load_def)
    have ph: "segment_fits sz ?ph" "\<forall>j < seg_count ?ph. entry (ram s) d (seg_first ?ph + j) AND PTE_V = 0" "3 * seg_count ?ph \<le> length free"
      using Cons.prems(7,9) by (simp_all add: tl seg_unmapped_def)
    obtain s1 free1 d1 y where 1: "load_segment p start sz ?ph s = (Inr 0, s1)" "space_inv lo hi root s1 free1 d1 R"
        "loaded lo hi R start [?ph] (ram s) d (ram s1) d1" "length free \<le> length free1 + 3 * seg_count ?ph" "procs s1 = (procs s)(p \<mapsto> y)" "same_process x y"
      using load_segment_run [OF Cons.prems(1-4) _ segment_source(2,3) [OF ph(1) Cons.prems(5)] ph(2,3)] ph(1) by (auto simp: segment_fits_def)
    have same: "image_same start sz (ram s) (ram s1)"
      by (rule image_sameI [OF _ Cons.prems(5)]) (use 1(3) in \<open>simp add: loaded_def\<close>)
    have rest: "to_load (ram s1) start phoff is = ?rest"
      using image_same_facts(2) [OF same] Cons.prems(6) by (simp add: to_load_def cong: map_cong)
    have im1: "image_apart lo hi R (ram s1) (unat start) (unat sz)" by (rule image_same_facts(1) [OF same Cons.prems(5)])
    have y1: "procs s1 p = Some y" "p_pagetable y = root" using 1(5,6) Cons.prems(4) by (simp_all add: same_process_def)
    have ap: "\<forall>q \<in> set ?rest. seg_apart ?ph q" "segs_apart ?rest" using Cons.prems(8) by (simp_all add: tl)
    have ok: "\<forall>q \<in> set ?rest. segment_fits sz q \<and> seg_unmapped (ram s1) d1 q"
      using Cons.prems(7) ap(1) seg_unmapped_keep [OF 1(3)] unfolding tl by auto
    have room: "3 * sum_list (map seg_count ?rest) \<le> length free1" using Cons.prems(9) 1(4) by (simp add: tl)
    have idx: "\<forall>i \<in> set is. unat phoff + 56 * i + 56 \<le> unat sz" using Cons.prems(6) by simp
    obtain s' free' d' z where 2: "load_segments p start sz phoff is s1 = (Inr 0, s')" "space_inv lo hi root s' free' d' R"
        "loaded lo hi R start ?rest (ram s1) d1 (ram s') d'" "procs s' = (procs s1)(p \<mapsto> z)" "same_process y z"
      using Cons.IH [OF 1(2) Cons.prems(2) y1 im1 idx] ok ap(2) room unfolding rest by blast
    have "load_segments p start sz phoff (i # is) s = (Inr 0, s')" using rd True 1(1) 2(1) by (simp add: ph_at_def)
    moreover have "loaded lo hi R start (?ph # ?rest) (ram s) d (ram s') d'"
      by (rule loaded_cons [OF 1(3) 2(3) ap(1)]) (use image_same_facts(3) [OF same _ Cons.prems(5)] ok in blast)
    moreover have "procs s' = (procs s)(p \<mapsto> z)" "same_process x z" using 1(5,6) 2(4,5) by (simp_all add: same_process_def)
    ultimately show ?thesis using 2(2) unfolding tl by blast
  qed
qed

section \<open>The whole file\<close>

lemma space_store:
  assumes inv: "space_inv lo hi root s free d R" and t: "t \<in> R" and m: "\<forall>x. x \<notin> frame t \<longrightarrow> m x = ram s x" and mp: "\<forall>x. ram s x \<noteq> None \<longrightarrow> m x \<noteq> None"
  shows "space_inv lo hi root (s\<lparr>ram := m\<rparr>) free d R" "ubyte m d B = ubyte (ram s) d B"
proof -
  note D = space_invD [OF inv]
  have al: "4096 dvd unat t" by (rule page_in_dvd [OF D(8) [OF t]])
  have "clear_of free d x" if "x \<in> frame t" for x
  proof -
    have "4096 dvd unat b" if "b \<in> set free \<union> ran d" for b
      using that D(2) vm_invD(6) [OF D(1)] by (auto simp: pool_inv_def page_in_def ran_def)
    then show ?thesis using frame_inj [OF that _ al] D(9,10) [OF t] unfolding clear_of_def by blast
  qed
  then have "\<forall>x. \<not> clear_of free d x \<longrightarrow> m x = ram s x" using m by blast
  note fr = vm_inv_frame [OF D(1) this mp]
  have up: "upage m d n = upage (ram s) d n" for n by (rule upage_entry [OF fr(2)])
  then show "space_inv lo hi root (s\<lparr>ram := m\<rparr>) free d R" using inv fr(1) by (simp add: space_inv_def)
  have "m x = ram s x" if x: "uphys (ram s) d B = Some x" for x
  proof -
    obtain q where q: "upage (ram s) d (B div 4096) = Some q" "x \<in> frame q" by (rule uphysE [OF x])
    have "x \<notin> frame t" using frame_inj [OF q(2) _ page_in_dvd [OF D(3) [OF q(1)]] al] D(6) [OF q(1)] t by blast
    then show ?thesis using m by blast
  qed
  then show "ubyte m d B = ubyte (ram s) d B" by (auto simp: ubyte_def uphys_upage up split: option.splits)
qed

definition elf_header :: "mem \<Rightarrow> u64 \<Rightarrow> elf64_header" where
  "elf_header m start = header_of (image_bytes m (unat start) 64)"

lemma elf_header_read: "mapped (ram s) (unat start) 64 \<Longrightarrow> mem_load_bytes start sizeof_elf64_header s = (Inr (image_bytes (ram s) (unat start) 64), s)"
  by (simp add: mem_load_bytes_def sizeof_elf64_header_def load_bytes_run)

lemma store_epc:
  assumes inv: "space_inv lo hi root s free d R" and t: "t \<in> R"
  shows "mem_store64 (t + 24) v s = (Inr (), s\<lparr>ram := stored (ram s) (unat t + 24) v\<rparr>)"
    and "space_inv lo hi root (s\<lparr>ram := stored (ram s) (unat t + 24) v\<rparr>) free d R"
    and "ubyte (stored (ram s) (unat t + 24) v) d B = ubyte (ram s) d B"
proof -
  have pt: "page_in lo hi t" by (rule space_invD(8) [OF inv t])
  have "mapped (ram s) (unat t) 4096" using pt space_invD(2) [OF inv] by (auto simp: pool_inv_def pages_mapped_def)
  then have mp: "mapped (ram s) (unat t + 24) 8" by (rule mapped_sub) simp
  have "unat (t + 24) = unat t + 24"
  proof -
    obtain k where k: "unat t = 4096 * k" using page_in_dvd [OF pt] by (blast elim: dvdE)
    have "4096 * k < 4096 * 2 ^ 52" using unsigned_less [of t, where ?'a = nat] k by simp
    then have "k < 2 ^ 52" by simp
    then show ?thesis using k by (subst unat_add_lem [THEN iffD1]) simp_all
  qed
  then show "mem_store64 (t + 24) v s = (Inr (), s\<lparr>ram := stored (ram s) (unat t + 24) v\<rparr>)" using mp by (simp add: mem_run)
  have "\<forall>x. x \<notin> frame t \<longrightarrow> stored (ram s) (unat t + 24) v x = ram s x" by (auto simp: stored_def frame_def)
  moreover have "\<forall>x. ram s x \<noteq> None \<longrightarrow> stored (ram s) (unat t + 24) v x \<noteq> None" by (simp add: stored_def)
  ultimately show "space_inv lo hi root (s\<lparr>ram := stored (ram s) (unat t + 24) v\<rparr>) free d R"
    "ubyte (stored (ram s) (unat t + 24) v) d B = ubyte (ram s) d B" by (rule space_store [OF inv t])+
qed

lemma unat_ucast_16: "unat (ucast n :: u64) = unat n" for n :: u16
  using unsigned_less [of n, where ?'a = nat] by (simp add: unsigned_ucast_eq take_bit_eq_mod)

lemma load_elf_accepts:
  assumes "mapped (ram s) (unat start) (unat sz)" and h: "64 \<le> unat sz" "header_ok (elf_header (ram s) start)" "e_phoff (elf_header (ram s) start) \<noteq> 0"
      "e_phnum (elf_header (ram s) start) \<noteq> 0" "unat (e_phoff (elf_header (ram s) start)) + 56 * unat (e_phnum (elf_header (ram s) start)) \<le> unat sz"
  shows "load_elf p start sz s = kbind (load_segments p start sz (e_phoff (elf_header (ram s) start)) [0..<unat (e_phnum (elf_header (ram s) start))])
      (\<lambda>r. if r < 0 then kret (- 1) else kbind (get_proc p) (\<lambda>x. kseq (mem_store64 (p_trapframe_pa x + 24) (e_entry (elf_header (ram s) start))) (kret 0))) s"
proof -
  have mp: "mapped (ram s) (unat start) 64" by (rule mapped_le [OF assms(1) h(1)])
  have n: "unat (ucast (e_phnum (elf_header (ram s) start)) * 56 :: u64) = 56 * unat (e_phnum (elf_header (ram s) start))"
  proof -
    let ?n = "e_phnum (elf_header (ram s) start)"
    have "unat (ucast ?n :: u64) = unat ?n" by (rule unat_ucast_16)
    moreover have "unat ?n < 2 ^ 16" using unsigned_less [of ?n, where ?'a = nat] by simp
    ultimately show ?thesis by (simp add: unat_word_ariths)
  qed
  have "unat (e_phoff (elf_header (ram s) start) + ucast (e_phnum (elf_header (ram s) start)) * 56)
      = unat (e_phoff (elf_header (ram s) start)) + 56 * unat (e_phnum (elf_header (ram s) start))"
    using h(5) n unsigned_less [of sz, where ?'a = nat] by (subst unat_add_lem [THEN iffD1]) simp_all
  then have c: "\<not> e_phoff (elf_header (ram s) start) + ucast (e_phnum (elf_header (ram s) start)) * sizeof_elf64_program_header > sz"
    using h(5) by (simp add: word_less_nat_alt sizeof_elf64_program_header_def)
  have "\<not> sz < sizeof_elf64_header" using h(1) by (simp add: word_less_nat_alt sizeof_elf64_header_def)
  moreover have "header_of (image_bytes (ram s) (unat start) 64) = elf_header (ram s) start" by (simp add: elf_header_def)
  ultimately show ?thesis using elf_header_read [OF mp] h(2-4) c by (simp add: load_elf_def Let_def cong: if_cong)
qed

lemma load_elf_run:
  assumes "space_inv lo hi root s free d R" and "p \<noteq> 0" and "procs s p = Some x" and "p_pagetable x = root" and "p_trapframe_pa x \<in> R"
    and "image_apart lo hi R (ram s) (unat start) (unat sz)" and "h = elf_header (ram s) start" and "segs = to_load (ram s) start (e_phoff h) [0..<unat (e_phnum h)]"
    and "64 \<le> unat sz" and "header_ok h" and "e_phoff h \<noteq> 0" and "e_phnum h \<noteq> 0" and "unat (e_phoff h) + 56 * unat (e_phnum h) \<le> unat sz"
    and "\<forall>ph \<in> set segs. segment_fits sz ph \<and> seg_unmapped (ram s) d ph" and "segs_apart segs" and "3 * sum_list (map seg_count segs) \<le> length free"
  shows "\<exists>s' free' d'. load_elf p start sz s = (Inr 0, s') \<and> space_inv lo hi root s' free' d' R
    \<and> (\<forall>ph \<in> set segs. \<forall>B. in_segment ph B \<longrightarrow> ubyte (ram s') d' B = segment_byte (ram s) start ph B)
    \<and> (\<forall>B. (\<forall>ph \<in> set segs. \<not> in_segment ph B) \<longrightarrow> ubyte (ram s') d' B = ubyte (ram s) d B)
    \<and> load64 (ram s') (unat (p_trapframe_pa x) + 24) = Some (e_entry h) \<and> untouched lo hi (R - {p_trapframe_pa x}) (ram s) (ram s')
    \<and> (\<exists>y. procs s' = (procs s)(p \<mapsto> y) \<and> same_process x y)"
proof -
  let ?t = "p_trapframe_pa x"
  have mp: "mapped (ram s) (unat start) (unat sz)" using assms(6) by (simp add: image_apart_def)
  have idx: "\<forall>i \<in> set [0..<unat (e_phnum h)]. unat (e_phoff h) + 56 * i + 56 \<le> unat sz" using assms(13) by auto
  obtain s1 free' d' y where 1: "load_segments p start sz (e_phoff h) [0..<unat (e_phnum h)] s = (Inr 0, s1)" "space_inv lo hi root s1 free' d' R"
      "loaded lo hi R start segs (ram s) d (ram s1) d'" "procs s1 = (procs s)(p \<mapsto> y)" "same_process x y"
    using load_segments_run [OF assms(1-4,6) idx] assms(14-16) unfolding assms(8) by blast
  note st = store_epc [OF 1(2) assms(5), of "e_entry h"]
  have "load_elf p start sz s = (Inr 0, s1\<lparr>ram := stored (ram s1) (unat ?t + 24) (e_entry h)\<rparr>)"
    using load_elf_accepts [OF mp assms(9-13) [unfolded assms(7)], of p] 1(1,4,5) assms(2,7) st(1)
    by (simp add: get_proc_run same_process_def)
  moreover have "load64 (stored (ram s1) (unat ?t + 24) (e_entry h)) (unat ?t + 24) = Some (e_entry h)" by (rule load64_stored)
  moreover have "untouched lo hi (R - {?t}) (ram s) (stored (ram s1) (unat ?t + 24) (e_entry h))"
    unfolding untouched_def
  proof (intro allI impI)
    fix y assume y: "\<forall>q. page_in lo hi q \<and> q \<notin> R - {?t} \<longrightarrow> y \<notin> frame q"
    then have "y \<notin> frame ?t" using space_invD(8) [OF 1(2) assms(5)] by blast
    then show "stored (ram s1) (unat ?t + 24) (e_entry h) y = ram s y"
      using 1(3) y by (auto simp: loaded_def untouched_def stored_def frame_def)
  qed
  ultimately show ?thesis
    using st(2,3) 1(3-5) unfolding loaded_def
    by (intro exI [of _ "s1\<lparr>ram := stored (ram s1) (unat ?t + 24) (e_entry h)\<rparr>"] exI [of _ free'] exI [of _ d']) (simp, blast)
qed

text \<open>
  C9. Loading a program: for an ELF file that passes the checks and whose segments fit between the start of user text and the
  stack, do not share pages and are not mapped yet, the loader returns 0 when enough pages are free. Then the memory of the process holds in every
  page of a segment the bytes of the file at their addresses and zeros elsewhere, all other memory of the process is as before, the memory is still
  made of pages of its own, and the process will start at the entry point.
\<close>

theorem elf_loaded_into_memory:
  assumes "space_inv lo hi root s free d R" and "p \<noteq> 0" and "procs s p = Some x" and "p_pagetable x = root" and "p_trapframe_pa x \<in> R"
    and "image_apart lo hi R (ram s) (unat start) (unat sz)" and "h = elf_header (ram s) start" and "segs = to_load (ram s) start (e_phoff h) [0..<unat (e_phnum h)]"
    and "64 \<le> unat sz" and "header_ok h" and "e_phoff h \<noteq> 0" and "e_phnum h \<noteq> 0" and "unat (e_phoff h) + 56 * unat (e_phnum h) \<le> unat sz"
    and "\<forall>ph \<in> set segs. segment_fits sz ph \<and> seg_unmapped (ram s) d ph" and "segs_apart segs" and "3 * sum_list (map seg_count segs) \<le> length free"
  shows "\<exists>s' free' d'. load_elf p start sz s = (Inr 0, s') \<and> space_inv lo hi root s' free' d' R
    \<and> (\<forall>ph \<in> set segs. \<forall>B. in_segment ph B \<longrightarrow> ubyte (ram s') d' B = segment_byte (ram s) start ph B)
    \<and> (\<forall>B. (\<forall>ph \<in> set segs. \<not> in_segment ph B) \<longrightarrow> ubyte (ram s') d' B = ubyte (ram s) d B)
    \<and> load64 (ram s') (unat (p_trapframe_pa x) + 24) = Some (e_entry h)"
  using load_elf_run [OF assms] by blast

text \<open>
  The check of a segment against the size of the file can be passed by wrapping around: with an offset and a file size whose
  64-bit sum is small, the loader copies memory of the kernel outside the image, here the bytes before it, into the memory of the
  process, where the program can read them.
\<close>

lemma elf_offset_wraps_out_of_image:
  assumes "space_inv lo hi root s free d R" and "p \<noteq> 0" and "procs s p = Some x" and "p_pagetable x = root"
    and "segment_placed ph" and "p_offset ph + p_filesz ph \<le> sz" and "unat start < unat (start + p_offset ph) + unat (p_filesz ph)" and "start + p_offset ph < start"
    and "image_apart lo hi R (ram s) (unat (start + p_offset ph)) (unat (p_filesz ph))"
    and "seg_unmapped (ram s) d ph" and "3 * seg_count ph \<le> length free"
  shows "\<exists>s' d'. load_segment p start sz ph s = (Inr 0, s')
    \<and> (\<forall>i < unat (start - (start + p_offset ph)). ubyte (ram s') d' (unat (p_vaddr ph) + i) = ram s (unat (start + p_offset ph) + i))
    \<and> unat (start + p_offset ph) + unat (start - (start + p_offset ph)) = unat start"
proof -
  obtain s' free' d' where L: "load_segment p start sz ph s = (Inr 0, s')" "loaded lo hi R start [ph] (ram s) d (ram s') d'"
    using load_segment_run [OF assms(1-5) _ assms(9) _ assms(11), of sz] assms(6,10) by (auto simp: seg_unmapped_def not_less)
  let ?k = "unat (start - (start + p_offset ph))"
  have k: "unat (start + p_offset ph) + ?k = unat start"
    using assms(8) by (subst unat_sub) (simp_all add: word_le_nat_alt word_less_nat_alt)
  have "ubyte (ram s') d' (unat (p_vaddr ph) + i) = ram s (unat (start + p_offset ph) + i)" if i: "i < ?k" for i
  proof -
    let ?B = "unat (p_vaddr ph) + i"
    have F: "i < unat (p_filesz ph)" using i k assms(7) by linarith
    note N = segment_numbers [OF assms(5)]
    have "in_segment ph ?B"
      using N(7,8) F unfolding in_segment_def by (simp only: less_eq_div_iff_mult_less_eq div_less_iff_less_mult zero_less_numeral mult.commute) linarith
    then have "ubyte (ram s') d' ?B = segment_byte (ram s) start ph ?B" using L(2) by (simp add: loaded_def)
    then show ?thesis using F by (simp add: segment_byte_def)
  qed
  then show ?thesis using L(1) k by blast
qed

text \<open>A program of one segment, five bytes of code at address 8200, in kernel memory above the pool of pages.\<close>

definition demo_elf :: "u8 list" where
  "demo_elf = [0x7f, 0x45, 0x4c, 0x46, 2, 1, 1, 0, 0] @ replicate 7 0 @ [2, 0, 0xf3, 0, 1, 0, 0, 0] @ to_le 8 (8200 :: u64) @ to_le 8 (64 :: u64)
    @ replicate 12 0 @ [64, 0, 56, 0, 1, 0, 64, 0, 0, 0, 0, 0]
    @ [1, 0, 0, 0, 5, 0, 0, 0] @ to_le 8 (120 :: u64) @ to_le 8 (8200 :: u64) @ replicate 8 0 @ to_le 8 (5 :: u64) @ to_le 8 (100 :: u64) @ to_le 8 (4096 :: u64)
    @ [11, 12, 13, 14, 15]"

definition put_image :: "mem \<Rightarrow> nat \<Rightarrow> u8 list \<Rightarrow> mem" where
  "put_image m a bs = (\<lambda>x. if a \<le> x \<and> x < a + length bs then Some (bs ! (x - a)) else m x)"

lemma image_put: "off + n \<le> length bs \<Longrightarrow> image_bytes (put_image m a bs) (a + off) n = bslice bs off n"
  by (intro nth_equalityI) (auto simp: image_bytes_def put_image_def bslice_def)

lemma demo_length: "length demo_elf = 125"
  by (simp add: demo_elf_def)

lemma demo_header:
  "header_of (bslice demo_elf 0 64) = \<lparr>ei_magic = ELF_MAGIC, ei_class = 2, ei_data = 1, ei_version = 1, ei_osabi = 0, ei_abiversion = 0, e_type = 2,
    e_machine = 0xf3, e_version = 1, e_entry = 8200, e_phoff = 64, e_shoff = 0, e_flags = 0, e_ehsize = 64, e_phentsize = 56, e_phnum = 1,
    e_shentsize = 64, e_shnum = 0, e_shstrndx = 0\<rparr>"
  by code_simp

lemma demo_program_header:
  "program_header_of (bslice demo_elf 64 56) = \<lparr>p_type = 1, p_flags = 5, p_offset = 120, p_vaddr = 8200, p_paddr = 0, p_filesz = 5, p_memsz = 100, p_align = 4096\<rparr>"
  by code_simp

lemma space_inv_cong:
  assumes "space_inv lo hi root s free d R" and "ram t = ram s" and "kernel_allocator t = kernel_allocator s"
  shows "space_inv lo hi root t free d R"
  using assms by (simp add: space_inv_def vm_inv_def pool_inv_def)

lemma above_pool:
  assumes "page_in 4096 69632 b" and "69632 \<le> x"
  shows "x \<notin> frame b"
proof -
  obtain k where k: "unat b = 4096 * k" using page_in_dvd [OF assms(1)] by (blast elim: dvdE)
  moreover have "unat b < 69632" using assms(1) by (simp add: page_in_def word_less_nat_alt)
  ultimately have "k < 17" by simp
  then show ?thesis using assms(2) k by (simp add: frame_def)
qed

lemma demo_process:
  obtains s :: kern and root free x where "space_inv 4096 69632 root s free [[] \<mapsto> root] {p_trapframe_pa x}" "\<forall>n. entry (ram s) [[] \<mapsto> root] n = 0"
    "length free = 14" "procs s 1 = Some x" "p_pagetable x = root" "\<forall>a<81920. ram s a \<noteq> None" "\<forall>a<125. ram s (73728 + a) = Some (demo_elf ! a)"
proof -
  obtain s0 :: mm and root free0 where s0: "vm_inv 4096 69632 root s0 free0 [[] \<mapsto> root]"
    "\<forall>n. entry (ram s0) [[] \<mapsto> root] n = 0" "length free0 = 15" "\<forall>x<81920. ram s0 x \<noteq> None"
    using demo_space by blast
  obtain t free where free0: "free0 = t # free" "length free = 14" using s0(3) by (cases free0) auto
  obtain al where al: "pool_inv 4096 69632 (s0\<lparr>kernel_allocator := al\<rparr>) free"
    using alloc_page_cons vm_invD(1) [OF s0(1)] unfolding free0(1) by blast
  let ?s1 = "s0\<lparr>kernel_allocator := al\<rparr>" and ?d = "[[] \<mapsto> root]"
  have inv1: "vm_inv 4096 69632 root ?s1 free ?d" using vm_inv_take [OF _ al] s0(1) unfolding free0(1) by blast
  have t: "page_in 4096 69632 t" "t \<notin> set free" "t \<noteq> root"
    using vm_invD(1) [OF s0(1)] vm_invD(5) [OF s0(1), of "[]" root] by (auto simp: free0(1) pool_inv_def)
  define m where "m = put_image (ram s0) 73728 demo_elf"
  have cl: "clear_of free ?d x" if "69632 \<le> x" for x
    using above_pool [OF _ that] vm_invD(1,4) [OF inv1] by (auto simp: clear_of_def pool_inv_def)
  have mp: "\<forall>x. ram ?s1 x \<noteq> None \<longrightarrow> m x \<noteq> None" by (simp add: m_def put_image_def)
  have same: "\<forall>x. \<not> clear_of free ?d x \<longrightarrow> m x = ram ?s1 x" using cl by (force simp: m_def put_image_def)
  note fr = vm_inv_frame [OF inv1 same mp]
  have "upage m ?d n = None" for n using s0(2) fr(2) [of n] by (simp add: upage_def)
  then have sp: "space_inv 4096 69632 root (?s1\<lparr>ram := m\<rparr>) free ?d {t}"
    using fr(1) t by (simp add: space_inv_def)
  define x where "x = (new_proc User_Process 1)\<lparr>p_pagetable := root, p_trapframe_pa := t\<rparr>"
  define s :: kern where "s = \<lparr>ram = m, kernel_allocator = al, procs = [1 \<mapsto> x], this_cpu = new_cpu 0, process_queue = [], next_pid = 2, task_queue = []\<rparr>"
  have "space_inv 4096 69632 root s free ?d {p_trapframe_pa x}"
    by (rule space_inv_cong [of 4096 69632 root "?s1\<lparr>ram := m\<rparr>"]) (use sp in \<open>simp_all add: s_def x_def\<close>)
  moreover have "\<forall>n. entry (ram s) ?d n = 0" using fr(2) s0(2) by (simp add: s_def)
  moreover have "\<forall>a<125. ram s (73728 + a) = Some (demo_elf ! a)" by (simp add: s_def m_def put_image_def demo_length)
  moreover have "\<forall>a<81920. ram s a \<noteq> None" using s0(4) mp by (simp add: s_def)
  ultimately show thesis using that [of root s free x] free0(2) by (simp add: s_def x_def)
qed

lemma bslice_image:
  assumes "\<forall>i<length bs. m (a + i) = Some (bs ! i)" and "off + n \<le> length bs"
  shows "image_bytes m (a + off) n = bslice bs off n"
  using assms by (intro nth_equalityI) (auto simp: image_bytes_def bslice_def add.assoc)

theorem elf_loaded_into_memory_witness:
  "\<exists>(s :: kern) s' d' t. load_elf 1 73728 125 s = (Inr 0, s') \<and> ubyte (ram s') d' 8202 = Some 13 \<and> ubyte (ram s') d' 8300 = Some 0
    \<and> ubyte (ram s') d' 8192 = Some 0 \<and> load64 (ram s') (t + 24) = Some 8200"
proof -
  obtain s :: kern and root free x where D: "space_inv 4096 69632 root s free [[] \<mapsto> root] {p_trapframe_pa x}" "\<forall>n. entry (ram s) [[] \<mapsto> root] n = 0"
    "length free = 14" "procs s 1 = Some x" "p_pagetable x = root" "\<forall>a<81920. ram s a \<noteq> None" "\<forall>a<125. ram s (73728 + a) = Some (demo_elf ! a)"
    by (rule demo_process)
  let ?d = "[[] \<mapsto> root]"
  have im: "image_apart 4096 69632 {p_trapframe_pa x} (ram s) (unat (73728 :: u64)) (unat (125 :: u64))"
    using D(6) above_pool by (auto simp: image_apart_def mapped_def)
  have hd: "elf_header (ram s) 73728 = header_of (bslice demo_elf 0 64)"
    using bslice_image [of demo_elf "ram s" 73728 0 64] D(7) by (simp add: elf_header_def demo_length)
  define ph where "ph = program_header_of (bslice demo_elf 64 56)"
  have phs: "to_load (ram s) 73728 64 [0..<1] = [ph]"
    using bslice_image [of demo_elf "ram s" 73728 64 56] D(7) demo_program_header
    by (simp add: to_load_def ph_at_def demo_length ph_def PT_LOAD_def)
  have seg: "seg_first ph = 2" "seg_count ph = 1" by (simp_all add: seg_first_def seg_count_def ph_def demo_program_header)
  have ok: "segment_fits 125 ph" "seg_unmapped (ram s) ?d ph"
    using D(2) by (simp_all add: segment_fits_def segment_placed_def seg_unmapped_def ph_def demo_program_header)
  obtain s' free' d' where L: "load_elf 1 73728 125 s = (Inr 0, s')"
      "\<forall>q \<in> set [ph]. \<forall>B. in_segment q B \<longrightarrow> ubyte (ram s') d' B = segment_byte (ram s) 73728 q B"
      "load64 (ram s') (unat (p_trapframe_pa x) + 24) = Some 8200"
    using elf_loaded_into_memory [OF D(1) _ D(4,5) _ im refl refl] ok seg D(3) phs
    by (auto simp: hd demo_header header_ok_def BIT64_def LITTLE_def EI_CURRENT_def SYSTEM_V_def ABI_CURRENT_def ET_EXEC_def RISCV_def E_CURRENT_def
      sizeof_elf64_program_header_def sizeof_elf64_section_header_def)
  have "ubyte (ram s') d' B = segment_byte (ram s) 73728 ph B" if "B div 4096 = 2" for B using L(2) seg that by (simp add: in_segment_def)
  moreover have "ram s 73850 = Some (demo_elf ! 122)" using spec [OF D(7), of 122] by simp
  moreover have "demo_elf ! 122 = 13" by code_simp
  ultimately have "ubyte (ram s') d' 8202 = Some 13" "ubyte (ram s') d' 8300 = Some 0" "ubyte (ram s') d' 8192 = Some 0"
    by (simp_all add: segment_byte_def ph_def demo_program_header)
  then show ?thesis using L(1,3) by blast
qed

lemma elf_offset_wraps_out_of_image_witness:
  "\<exists>(s :: kern) s' d'. load_segment 1 73848 125 \<lparr>p_type = 1, p_flags = 4, p_offset = - 100, p_vaddr = 8192, p_paddr = 0, p_filesz = 104, p_memsz = 104, p_align = 0\<rparr> s = (Inr 0, s')
    \<and> (\<forall>i<100. ubyte (ram s') d' (8192 + i) = ram s (73748 + i))"
proof -
  obtain s :: kern and root free x where D: "space_inv 4096 69632 root s free [[] \<mapsto> root] {p_trapframe_pa x}" "\<forall>n. entry (ram s) [[] \<mapsto> root] n = 0"
    "length free = 14" "procs s 1 = Some x" "p_pagetable x = root" "\<forall>a<81920. ram s a \<noteq> None" "\<forall>a<125. ram s (73728 + a) = Some (demo_elf ! a)"
    by (rule demo_process)
  define ph where "ph = \<lparr>p_type = 1, p_flags = 4, p_offset = - 100, p_vaddr = 8192, p_paddr = 0, p_filesz = 104, p_memsz = 104, p_align = 0\<rparr>"
  have im: "image_apart 4096 69632 {p_trapframe_pa x} (ram s) (unat (73848 + p_offset ph)) (unat (p_filesz ph))"
    using D(6) above_pool by (auto simp: image_apart_def mapped_def ph_def)
  have "\<exists>s' d'. load_segment 1 73848 125 ph s = (Inr 0, s')
    \<and> (\<forall>i < unat (73848 - (73848 + p_offset ph)). ubyte (ram s') d' (unat (p_vaddr ph) + i) = ram s (unat (73848 + p_offset ph) + i))
    \<and> unat (73848 + p_offset ph) + unat (73848 - (73848 + p_offset ph)) = unat (73848 :: u64)"
    by (rule elf_offset_wraps_out_of_image [OF D(1) _ D(4,5) _ _ _ _ im])
      (use D(2,3) in \<open>simp_all add: segment_placed_def seg_unmapped_def seg_count_def seg_first_def ph_def\<close>)
  then show ?thesis unfolding ph_def by simp blast
qed

end
