(* ===== verification/Hart.thy ===== *)
theory Hart
  imports Step_Frame
begin

text \<open>
  The control registers of a hart (\<open>src/os/arch/riscv.h\<close>), the timer (\<open>src/os/arch/timer.h\<close>), the interrupt
  controller and the interrupt flag of a core (\<open>src/os/arch/cpu.h\<close>). A control register is a 64-bit
  field of the state; the bits that the hardware ignores on a write are kept. What the firmware does
  with a timer request and what the controller answers are part of the state: the time the next
  timer interrupt was asked for, the answers still to come from the claim register, and the requests completed.
\<close>

section \<open>Registers\<close>

record hart =
  csr_sstatus :: u64
  csr_sie :: u64
  csr_stvec :: u64
  csr_sepc :: u64
  csr_scause :: u64
  csr_stval :: u64
  csr_satp :: u64
  csr_time :: u64
  reg_tp :: u64
  timer_at :: u64
  plic_regs :: "u64 \<Rightarrow> u32"
  plic_claims :: "u32 list"
  plic_completed :: "u32 list"

definition SSTATUS_SPP :: u64 where "SSTATUS_SPP = 2 ^ 8"
definition SSTATUS_SPIE :: u64 where "SSTATUS_SPIE = 2 ^ 5"
definition SSTATUS_SIE :: u64 where "SSTATUS_SIE = 2 ^ 1"
definition SIE_SEIE :: u64 where "SIE_SEIE = 2 ^ 9"
definition SIE_STIE :: u64 where "SIE_STIE = 2 ^ 5"
definition SIE_SSIE :: u64 where "SIE_SSIE = 2 ^ 1"
definition SATP_SV39 :: u64 where "SATP_SV39 = 8 * 2 ^ 60"

definition MAKE_SATP :: "u64 \<Rightarrow> u64" where
  "MAKE_SATP pagetable = SATP_SV39 OR drop_bit 12 pagetable"

definition r_sstatus :: "('x hart_scheme, u64) kmonad" where
  "r_sstatus = kget csr_sstatus"

definition w_sstatus :: "u64 \<Rightarrow> ('x hart_scheme, unit) kmonad" where
  "w_sstatus x = kmod (csr_sstatus_update (\<lambda>_. x))"

definition r_sie :: "('x hart_scheme, u64) kmonad" where
  "r_sie = kget csr_sie"

definition w_sie :: "u64 \<Rightarrow> ('x hart_scheme, unit) kmonad" where
  "w_sie x = kmod (csr_sie_update (\<lambda>_. x))"

definition w_sepc :: "u64 \<Rightarrow> ('x hart_scheme, unit) kmonad" where
  "w_sepc x = kmod (csr_sepc_update (\<lambda>_. x))"

definition r_sepc :: "('x hart_scheme, u64) kmonad" where
  "r_sepc = kget csr_sepc"

definition w_stvec :: "u64 \<Rightarrow> ('x hart_scheme, unit) kmonad" where
  "w_stvec x = kmod (csr_stvec_update (\<lambda>_. x))"

definition w_satp :: "u64 \<Rightarrow> ('x hart_scheme, unit) kmonad" where
  "w_satp x = kmod (csr_satp_update (\<lambda>_. x))"

definition r_satp :: "('x hart_scheme, u64) kmonad" where
  "r_satp = kget csr_satp"

definition r_scause :: "('x hart_scheme, u64) kmonad" where
  "r_scause = kget csr_scause"

definition r_stval :: "('x hart_scheme, u64) kmonad" where
  "r_stval = kget csr_stval"

definition r_time :: "('x hart_scheme, u64) kmonad" where
  "r_time = kget csr_time"

definition r_tp :: "('x hart_scheme, u64) kmonad" where
  "r_tp = kget reg_tp"

text \<open>The instructions that read a register and clear or set bits of it in one step.\<close>

definition rc_sstatus :: "u64 \<Rightarrow> ('x hart_scheme, u64) kmonad" where
  "rc_sstatus v = kbind (kget csr_sstatus) (\<lambda>old.
    kseq (kmod (csr_sstatus_update (\<lambda>x. x AND NOT v))) (
    kret old))"

definition s_sstatus :: "u64 \<Rightarrow> ('x hart_scheme, unit) kmonad" where
  "s_sstatus v = kmod (csr_sstatus_update (\<lambda>x. x OR v))"

definition c_sstatus :: "u64 \<Rightarrow> ('x hart_scheme, unit) kmonad" where
  "c_sstatus v = kmod (csr_sstatus_update (\<lambda>x. x AND NOT v))"

lemmas csr_defs = r_sstatus_def w_sstatus_def r_sie_def w_sie_def w_sepc_def r_sepc_def w_stvec_def w_satp_def r_satp_def r_scause_def
  r_stval_def r_time_def r_tp_def rc_sstatus_def s_sstatus_def c_sstatus_def

section \<open>The timer\<close>

definition TIME_SLICE_PER_SEC :: u64 where "TIME_SLICE_PER_SEC = 100"
definition MSEC_PER_SEC :: u64 where "MSEC_PER_SEC = 1000"
definition USEC_PER_SEC :: u64 where "USEC_PER_SEC = 1000000"
definition TICK_FREQ :: u64 where "TICK_FREQ = 12500000"
definition CYCLE_FREQ :: u64 where "CYCLE_FREQ = 3000000000"

definition TICK_TO_MS :: "u64 \<Rightarrow> u64" where "TICK_TO_MS tick = tick div (TICK_FREQ div MSEC_PER_SEC)"
definition TICK_TO_US :: "u64 \<Rightarrow> u64" where "TICK_TO_US tick = tick div (TICK_FREQ div USEC_PER_SEC)"
definition MS_TO_TICK :: "u64 \<Rightarrow> u64" where "MS_TO_TICK ms = ms * (TICK_FREQ div MSEC_PER_SEC)"
definition SECOND_TO_TICK :: "u64 \<Rightarrow> u64" where "SECOND_TO_TICK sec = sec * TICK_FREQ"
definition CYCLE_TO_MS :: "u64 \<Rightarrow> u64" where "CYCLE_TO_MS cycle = cycle div (CYCLE_FREQ div MSEC_PER_SEC)"
definition CYCLE_TO_US :: "u64 \<Rightarrow> u64" where "CYCLE_TO_US cycle = cycle div (CYCLE_FREQ div USEC_PER_SEC)"
definition MS_TO_CYCLE :: "u64 \<Rightarrow> u64" where "MS_TO_CYCLE ms = ms * (CYCLE_FREQ div MSEC_PER_SEC)"
definition SECOND_TO_CYCLE :: "u64 \<Rightarrow> u64" where "SECOND_TO_CYCLE sec = sec * CYCLE_FREQ"

definition set_timer :: "u64 \<Rightarrow> ('x hart_scheme, unit) kmonad" where
  "set_timer stime = kmod (timer_at_update (\<lambda>_. stime))"

definition set_next_timer :: "('x hart_scheme, unit) kmonad" where
  "set_next_timer = (let timebase = TICK_FREQ div TIME_SLICE_PER_SEC in kbind r_time (\<lambda>t.
    set_timer (t + timebase)))"

definition start_timer_interrupt :: "('x hart_scheme, unit) kmonad" where
  "start_timer_interrupt = kbind r_sie (\<lambda>x.
    kseq (w_sie (x OR SIE_STIE)) (
    set_next_timer))"

definition stop_timer_interrupt :: "('x hart_scheme, unit) kmonad" where
  "stop_timer_interrupt = kbind r_sie (\<lambda>x.
    w_sie (x AND NOT SIE_STIE))"

definition get_time_ms :: "('x hart_scheme, u64) kmonad" where
  "get_time_ms = kbind r_time (\<lambda>t.
    kret (t div (TICK_FREQ div MSEC_PER_SEC)))"

definition get_time_us :: "('x hart_scheme, u64) kmonad" where
  "get_time_us = kbind r_time (\<lambda>t.
    kret (t * USEC_PER_SEC div TICK_FREQ))"

section \<open>The interrupt controller\<close>

definition PLIC :: u64 where "PLIC = 0x0c000000"
definition VIRTIO0_IRQ :: u32 where "VIRTIO0_IRQ = 1"
definition PLIC_SENABLE :: "u64 \<Rightarrow> u64" where "PLIC_SENABLE h = PLIC + 0x2080 + h * 0x100"
definition PLIC_SPRIORITY :: "u64 \<Rightarrow> u64" where "PLIC_SPRIORITY h = PLIC + 0x201000 + h * 0x2000"
definition PLIC_SCLAIM :: "u64 \<Rightarrow> u64" where "PLIC_SCLAIM h = PLIC + 0x201004 + h * 0x2000"

definition plic_write :: "u64 \<Rightarrow> u32 \<Rightarrow> ('x hart_scheme, unit) kmonad" where
  "plic_write a v = kmod (plic_regs_update (\<lambda>r. r(a := v)))"

definition plic_init :: "('x hart_scheme, unit) kmonad" where
  "plic_init = plic_write (PLIC + ucast VIRTIO0_IRQ * 4) 1"

definition plic_init_hart :: "u64 \<Rightarrow> ('x hart_scheme, unit) kmonad" where
  "plic_init_hart core_id = kseq (plic_write (PLIC_SENABLE core_id) (push_bit (unat VIRTIO0_IRQ) 1)) (
    plic_write (PLIC_SPRIORITY core_id) 0)"

text \<open>A read of the claim register of the hart yields the next request, or 0; a write completes a request.\<close>

definition plic_claim :: "('x hart_scheme, u32) kmonad" where
  "plic_claim = kbind (kget plic_claims) (\<lambda>q.
    case q of [] \<Rightarrow> kret 0 | irq # rest \<Rightarrow> kseq (kmod (plic_claims_update (\<lambda>_. rest))) (
      kret irq))"

definition plic_complete :: "u32 \<Rightarrow> ('x hart_scheme, unit) kmonad" where
  "plic_complete irq = kmod (plic_completed_update (\<lambda>l. l @ [irq]))"

section \<open>The interrupt flag of a core\<close>

definition local_irq_on :: "('x hart_scheme, bool) kmonad" where
  "local_irq_on = kbind r_sstatus (\<lambda>x.
    kret (x AND SSTATUS_SIE \<noteq> 0))"

definition local_irq_enable :: "('x hart_scheme, unit) kmonad" where
  "local_irq_enable = s_sstatus SSTATUS_SIE"

definition local_irq_disable :: "('x hart_scheme, unit) kmonad" where
  "local_irq_disable = c_sstatus SSTATUS_SIE"

text \<open>The old value of the register goes through an \<open>int\<close>.\<close>

definition local_irq_save :: "('x hart_scheme, bool) kmonad" where
  "local_irq_save = kbind (rc_sstatus SSTATUS_SIE) (\<lambda>v.
    let old = (ucast v :: 32 word) in
    kret ((scast old :: u64) AND SSTATUS_SIE \<noteq> 0))"

definition irq_restore :: "bool \<Rightarrow> ('x hart_scheme, unit) kmonad" where
  "irq_restore old = (if old then s_sstatus SSTATUS_SIE else kret ())"

definition unsafe_timer_irq_on :: "('x hart_scheme, bool) kmonad" where
  "unsafe_timer_irq_on = kbind local_irq_on (\<lambda>b.
    kbind r_sie (\<lambda>x.
    kret (b \<and> x AND SIE_STIE \<noteq> 0)))"

text \<open>The result of \<open>local_irq_save\<close>, a boolean, is stored in an \<open>int\<close>.\<close>

definition timer_irq_on :: "('x hart_scheme, bool) kmonad" where
  "timer_irq_on = kbind local_irq_save (\<lambda>b.
    let old = (if b then 1 else 0 :: u64) in
    kbind r_sie (\<lambda>x.
    let ret = (old AND SSTATUS_SIE \<noteq> 0) \<and> (x AND SIE_STIE \<noteq> 0) in
    kseq (irq_restore (old \<noteq> 0)) (
    kret ret)))"

text \<open>A reference to the object of the current core: whether it is set, and the flag it gives back.\<close>

record cpu_ref =
  ref_set :: bool
  ref_old :: bool

definition my_cpu :: "('x hart_scheme, cpu_ref) kmonad" where
  "my_cpu = kbind local_irq_save (\<lambda>old.
    kret \<lparr>ref_set = True, ref_old = old\<rparr>)"

definition null_ref :: cpu_ref where
  "null_ref = \<lparr>ref_set = False, ref_old = False\<rparr>"

definition cpu_ref_destroy :: "cpu_ref \<Rightarrow> ('x hart_scheme, unit) kmonad" where
  "cpu_ref_destroy r = (if ref_set r then irq_restore (ref_old r) else kret ())"

text \<open>Moving gives the new reference and what is left of the old one.\<close>

definition cpu_ref_move :: "cpu_ref \<Rightarrow> cpu_ref \<times> cpu_ref" where
  "cpu_ref_move rhs = (rhs, null_ref)"

definition cpu_ref_assign :: "cpu_ref \<Rightarrow> cpu_ref \<Rightarrow> ('x hart_scheme, cpu_ref \<times> cpu_ref) kmonad" where
  "cpu_ref_assign l rhs = kseq (if ref_set l then irq_restore (ref_old l) else kret ()) (
    kret (rhs, null_ref))"

section \<open>Lemmas on the flag\<close>

lemmas flag_defs = SSTATUS_SPP_def SSTATUS_SPIE_def SSTATUS_SIE_def SIE_SEIE_def SIE_STIE_def SIE_SSIE_def

lemma and_flag: "x AND 2 = 0 \<longleftrightarrow> \<not> bit x 1" for x :: u64
  using and_exp_eq_0_iff_not_bit [of x 1] by simp

lemma bit_2 [simp]: "bit (2 :: u64) n \<longleftrightarrow> n = 1"
  using bit_exp_iff [where ?'a = "64 word", of 1 n] by auto

lemma flag_through_int: "(scast (ucast x :: 32 word) :: u64) AND SSTATUS_SIE \<noteq> 0 \<longleftrightarrow> bit x 1"
  by (simp add: SSTATUS_SIE_def and_flag bit_simps)

lemma flag_set_again: "bit x 1 \<Longrightarrow> (x AND NOT 2) OR 2 = x" for x :: u64
  by (auto intro!: bit_word_eqI simp: bit_simps)

lemma flag_already_clear: "\<not> bit x 1 \<Longrightarrow> x AND NOT 2 = x" for x :: u64
  by (auto intro!: bit_word_eqI simp: bit_simps)

lemma local_irq_on_run: "local_irq_on s = (Inr (bit (csr_sstatus s) 1), s)"
  by (simp add: local_irq_on_def csr_defs flag_defs and_flag)

lemma local_irq_save_run:
  "local_irq_save s = (Inr (bit (csr_sstatus s) 1), s\<lparr>csr_sstatus := csr_sstatus s AND NOT 2\<rparr>)"
  using flag_through_int [of "csr_sstatus s"] by (simp add: local_irq_save_def csr_defs Let_def) (simp add: SSTATUS_SIE_def)

text \<open>Giving the flag back after code that left the register alone undoes \<open>local_irq_save\<close>.\<close>

lemma irq_restore_saved:
  assumes "csr_sstatus s = x AND NOT 2"
  shows "irq_restore (bit x 1) s = (Inr (), s\<lparr>csr_sstatus := x\<rparr>)"
proof (cases "bit x 1")
  case True
  have "csr_sstatus s OR 2 = x" unfolding assms by (rule flag_set_again [OF True])
  then show ?thesis using True by (simp add: irq_restore_def csr_defs SSTATUS_SIE_def)
next
  case False
  have "csr_sstatus s = x" unfolding assms by (rule flag_already_clear [OF False])
  then have "s\<lparr>csr_sstatus := x\<rparr> = s" by simp
  then show ?thesis using False by (simp add: irq_restore_def)
qed

text \<open>
  The code between taking a reference to the core and dropping it runs with interrupts off, and they are as before
  afterwards, provided the code itself leaves the register as it found it; so references nest.
\<close>

definition with_cpu :: "('x hart_scheme, 'a) kmonad \<Rightarrow> ('x hart_scheme, 'a) kmonad" where
  "with_cpu m = kbind my_cpu (\<lambda>r.
    kbind m (\<lambda>v.
    kseq (cpu_ref_destroy r) (
    kret v)))"

lemma with_cpu_run:
  assumes "m (s\<lparr>csr_sstatus := csr_sstatus s AND NOT 2\<rparr>) = (Inr v, t)" and "csr_sstatus t = csr_sstatus s AND NOT 2"
  shows "with_cpu m s = (Inr v, t\<lparr>csr_sstatus := csr_sstatus s\<rparr>)"
  using assms irq_restore_saved [OF assms(2)] by (simp add: with_cpu_def my_cpu_def local_irq_save_run cpu_ref_destroy_def)

lemma move_then_destroy:
  "kseq (cpu_ref_destroy (fst (cpu_ref_move r))) (cpu_ref_destroy (snd (cpu_ref_move r))) s = cpu_ref_destroy r s"
  by (simp add: cpu_ref_move_def cpu_ref_destroy_def null_ref_def irq_restore_def csr_defs)

section \<open>Checks that never see the timer interrupt\<close>

text \<open>
  \<open>cpu::timer_irq_on\<close> answers no in every state of the core, also when interrupts and the timer interrupt are
  enabled: the saved flag is a boolean stored as 0 or 1 and is then tested against bit 1. It leaves the state as it was.
\<close>

lemma timer_irq_on_blind: "timer_irq_on s = (Inr False, s)"
proof -
  let ?t = "s\<lparr>csr_sstatus := csr_sstatus s AND NOT 2\<rparr>"
  have "irq_restore (bit (csr_sstatus s) 1) ?t = (Inr (), s)" using irq_restore_saved [of ?t "csr_sstatus s"] by simp
  moreover have "(if b then 1 else 0 :: u64) AND SSTATUS_SIE = 0" for b by (simp add: SSTATUS_SIE_def)
  moreover have "(if b then 1 else 0 :: u64) \<noteq> 0 \<longleftrightarrow> b" for b by simp
  ultimately show ?thesis
    by (simp add: timer_irq_on_def local_irq_save_run Let_def csr_defs del: if_split)
qed

section \<open>Times\<close>

lemma div_word_nat: "unat (x div y) = unat x div unat y" for x y :: u64
  by (simp add: unat_div)

lemma tick_ms_inverse:
  assumes "unat ms * 12500 < 2 ^ 64"
  shows "TICK_TO_MS (MS_TO_TICK ms) = ms"
proof -
  have "unat (ms * 12500) = unat ms * 12500" using assms by (subst unat_mult_lem [THEN iffD1]) simp_all
  then have "unat (ms * 12500 div 12500) = unat ms" by (simp add: div_word_nat)
  then show ?thesis by (simp add: TICK_TO_MS_def MS_TO_TICK_def TICK_FREQ_def MSEC_PER_SEC_def word_unat_eq_iff)
qed

text \<open>The time in microseconds is right until the product wraps, after 17 days, and then starts again at 0.\<close>

lemma get_time_us_run:
  assumes "unat (csr_time s) * 1000000 < 2 ^ 64"
  shows "\<exists>t. get_time_us s = (Inr t, s) \<and> unat t = unat (csr_time s) * 1000000 div 12500000"
proof -
  have "unat (csr_time s * 1000000) = unat (csr_time s) * 1000000" using assms by (subst unat_mult_lem [THEN iffD1]) simp_all
  then show ?thesis
    by (simp add: get_time_us_def csr_defs USEC_PER_SEC_def TICK_FREQ_def div_word_nat)
qed

lemma get_time_us_wraps: "get_time_us (s\<lparr>csr_time := 18446744073710\<rparr>) = (Inr 0, s\<lparr>csr_time := 18446744073710\<rparr>)"
  by (simp add: get_time_us_def csr_defs USEC_PER_SEC_def TICK_FREQ_def)

end
