(* ===== verification/Trap.thy ===== *)
theory Trap
  imports Hart Process Virtio_Run
begin

text \<open>
  Traps (\<open>src/os/trap/trap.cc\<close>, the assembly of \<open>src/os/trap/trampoline.S\<close>) and system calls (\<open>src/os/syscall\<close>). The state is
  that of a hart with the kernel and the disk driver. Code that switches to the scheduler with no
  context to come back to does not return; its result says so, and its callers stop there. What
  runs while a kernel process is switched out is a parameter. The addresses of functions and of assembly labels are
  those of the linker.
\<close>

section \<open>The machine\<close>

record machine = hart +
  kern_of :: kern
  disk_of :: "vdisk option"
  temp_kstack :: u64

type_synonym 'a tm = "(machine, 'a) kmonad"

definition on_kern :: "'a km \<Rightarrow> 'a tm" where
  "on_kern f = (\<lambda>m. case f (kern_of m) of (r, k) \<Rightarrow> (r, m\<lparr>kern_of := k\<rparr>))"

text \<open>The disk that \<open>device::get\<close> finds; calling a method of a device that is not registered is undefined.\<close>

definition on_disk :: "'a vm \<Rightarrow> 'a tm" where
  "on_disk f = (\<lambda>m. case disk_of m of None \<Rightarrow> (Inl Undefined, m)
     | Some d \<Rightarrow> (case f d of (r, d') \<Rightarrow> (r, m\<lparr>disk_of := Some d'\<rparr>)))"

record symbols =
  sym_kernel_vec :: u64
  sym_trampoline :: u64
  sym_user_vec :: u64
  sym_user_ret :: u64
  sym_user_trap :: u64

text \<open>Whether the code that called goes on, or the core is back in the scheduler for good.\<close>

datatype flow = Goes_On | Switched

section \<open>Trap frames\<close>

definition tf_kernel_satp :: u64 where "tf_kernel_satp = 0"
definition tf_kernel_sp :: u64 where "tf_kernel_sp = 8"
definition tf_kernel_trap :: u64 where "tf_kernel_trap = 16"
definition tf_epc :: u64 where "tf_epc = 24"
definition tf_kernel_hartid :: u64 where "tf_kernel_hartid = 32"
definition tf_a0 :: u64 where "tf_a0 = 112"
definition tf_a7 :: u64 where "tf_a7 = 168"

text \<open>Register \<open>x\<^sub>i\<close> of the user, for \<open>i\<close> from 1 to 31, in the order of the structure.\<close>

definition tf_reg :: "nat \<Rightarrow> u64" where
  "tf_reg i = 32 + 8 * of_nat i"

definition InstructionMisaligned :: u64 where "InstructionMisaligned = 0"
definition InstructionAccessFault :: u64 where "InstructionAccessFault = 1"
definition IllegalInstruction :: u64 where "IllegalInstruction = 2"
definition LoadAccessFault :: u64 where "LoadAccessFault = 5"
definition StoreAccessFault :: u64 where "StoreAccessFault = 7"
definition UserEnvCall :: u64 where "UserEnvCall = 8"
definition InstructionPageFault :: u64 where "InstructionPageFault = 12"
definition LoadPageFault :: u64 where "LoadPageFault = 13"
definition StorePageFault :: u64 where "StorePageFault = 15"
definition SupervisorTimer :: u64 where "SupervisorTimer = 5"
definition SupervisorExternal :: u64 where "SupervisorExternal = 9"

lemmas cause_defs = InstructionMisaligned_def InstructionAccessFault_def IllegalInstruction_def LoadAccessFault_def StoreAccessFault_def
  UserEnvCall_def InstructionPageFault_def LoadPageFault_def StorePageFault_def SupervisorTimer_def SupervisorExternal_def

definition get_user_process :: "nat tm" where
  "get_user_process = kget (current_process \<circ> this_cpu \<circ> kern_of)"

definition tf_of :: "nat \<Rightarrow> u64 tm" where
  "tf_of p = kbind (on_kern (get_proc p)) (\<lambda>x.
    kret (p_trapframe_pa x))"

definition tf_load :: "u64 \<Rightarrow> u64 \<Rightarrow> u64 tm" where
  "tf_load tf off = on_kern (mem_load64 (tf + off))"

definition tf_store :: "u64 \<Rightarrow> u64 \<Rightarrow> u64 \<Rightarrow> unit tm" where
  "tf_store tf off v = on_kern (mem_store64 (tf + off) v)"

text \<open>Loading several registers of the trap frame.\<close>

primrec load_regs :: "u64 \<Rightarrow> nat list \<Rightarrow> (nat \<Rightarrow> u64) \<Rightarrow> (nat \<Rightarrow> u64) tm" where
  "load_regs tf [] regs = kret regs"
| "load_regs tf (i # is) regs = kbind (tf_load tf (tf_reg i)) (\<lambda>v.
  load_regs tf is (regs(i := v)))"

section \<open>System calls\<close>

definition SYS_fstat :: u64 where "SYS_fstat = 80"
definition SYS_exit :: u64 where "SYS_exit = 93"

text \<open>The numbers of the system calls and the names the kernel prints for them.\<close>

definition syscall_ids :: "(int \<times> string) list" where
  "syscall_ids = [(17, ''SYS_getcwd''), (23, ''SYS_dup''), (33, ''SYS_mknod''), (34, ''SYS_mkdir''), (37, ''SYS_link''), (38, ''SYS_unlink''),
    (49, ''SYS_chdir''), (56, ''SYS_open''), (57, ''SYS_close''), (59, ''SYS_pipe''), (63, ''SYS_read''), (64, ''SYS_write''),
    (80, ''SYS_fstat''), (93, ''SYS_exit''), (95, ''SYS_waitpid''), (124, ''SYS_sched_yield''), (129, ''SYS_kill''), (140, ''SYS_setpriority''),
    (141, ''SYS_getpriority''), (153, ''SYS_time_ms''), (169, ''SYS_gettimeofday''), (170, ''SYS_settimeofday''), (172, ''SYS_getpid''), (173, ''SYS_getppid''),
    (179, ''SYS_sysinfo''), (214, ''SYS_brk''), (215, ''SYS_munmap''), (220, ''SYS_fork''), (222, ''SYS_mmap''), (281, ''SYS_execv'')]"

definition syscall_names :: "int \<Rightarrow> string" where
  "syscall_names n = (case map_of syscall_ids n of Some nm \<Rightarrow> nm | None \<Rightarrow> ''?'')"

lemma syscall_ids_distinct: "distinct (map fst syscall_ids)" "distinct (map snd syscall_ids)"
  by (simp_all add: syscall_ids_def)

lemma syscall_names_of: "(n, nm) \<in> set syscall_ids \<Longrightarrow> syscall_names n = nm"
  using syscall_ids_distinct(1) by (simp add: syscall_names_def map_of_is_SomeI)

text \<open>A value of type \<open>int\<close> from the low half of a register, and back.\<close>

definition int_arg :: "u64 \<Rightarrow> int" where
  "int_arg a = sint (ucast a :: 32 word)"

text \<open>The status is not asked for: \<open>ret\<close> is the constant -1, and the copy to user memory that follows is never reached.\<close>

definition sys_fstat :: "int \<Rightarrow> u64 \<Rightarrow> int tm" where
  "sys_fstat fd statbuf_va = kbind get_user_process (\<lambda>p.
    if fd < 0 \<or> fd \<ge> int FD_MAX then kret (- 1) else kbind (on_kern (get_file p fd)) (\<lambda>f.
      if f = 0 then kret (- 1) else
      let ret = (- 1 :: int) in
      kret ret))"

text \<open>\<open>exit\<close> does not come back: it ends with \<open>switch_back(nullptr)\<close>.\<close>

definition switch_back :: "unit tm" where
  "switch_back = kbind local_irq_on (\<lambda>on.
    kbind r_sie (\<lambda>x.
    kassert (\<not> on \<or> x AND SIE_STIE = 0) ''timer interrupt should be off''))"

definition exit_current :: "nat \<Rightarrow> nat \<Rightarrow> int \<Rightarrow> flow tm" where
  "exit_current k p code = kseq (on_kern (proc_exit k p code)) (
    kseq switch_back (
    kret Switched))"

definition sys_exit :: "nat \<Rightarrow> int \<Rightarrow> flow tm" where
  "sys_exit k code = kbind get_user_process (\<lambda>p.
    exit_current k p code)"

definition arg_regs :: "nat list" where
  "arg_regs = [10..<17]"

definition syscall :: "nat \<Rightarrow> flow tm" where
  "syscall k = kbind get_user_process (\<lambda>p.
    kbind (tf_of p) (\<lambda>tf.
    kbind (tf_load tf tf_a7) (\<lambda>syscall_id.
    kbind (load_regs tf arg_regs (\<lambda>_. 0)) (\<lambda>args.
    if syscall_id = SYS_fstat then kbind (sys_fstat (int_arg (args 10)) (args 11)) (\<lambda>ret.
      kseq (tf_store tf tf_a0 (word_of_int ret)) (
      kret Goes_On))
    else if syscall_id = SYS_exit then sys_exit k (int_arg (args 10))
    else kseq (tf_store tf tf_a0 (- 1)) (
      kret Goes_On)))))"

section \<open>Interrupts\<close>

definition interrupt_handler :: "unit tm" where
  "interrupt_handler = kbind plic_claim (\<lambda>irq.
    kseq (if irq = VIRTIO0_IRQ then on_disk virtio_disk_intr else kret ()) (
    if irq \<noteq> 0 then plic_complete irq else kret ()))"

definition set_kernel_trap :: "symbols \<Rightarrow> unit tm" where
  "set_kernel_trap sy = w_stvec (sym_kernel_vec sy AND NOT 3)"

definition enable_kernel_trap :: "symbols \<Rightarrow> unit tm" where
  "enable_kernel_trap sy = kseq (set_kernel_trap sy) (
    local_irq_enable)"

definition trap_init_hart :: "symbols \<Rightarrow> unit tm" where
  "trap_init_hart sy = kseq (enable_kernel_trap sy) (
    kbind r_sie (\<lambda>x.
    w_sie ((x OR SIE_SEIE OR SIE_SSIE) AND NOT SIE_STIE)))"

text \<open>\<open>elsewhere\<close> is what the core does until the scheduler switches back to the interrupted kernel process.\<close>

definition kernel_interrupt_handler :: "unit tm \<Rightarrow> u64 \<Rightarrow> unit tm" where
  "kernel_interrupt_handler elsewhere cause = (
    let c = cause AND 0xff in
    if c = SupervisorTimer then kbind get_user_process (\<lambda>p.
      kbind (on_kern (get_proc p)) (\<lambda>x.
      kseq switch_back elsewhere))
    else if c = SupervisorExternal then interrupt_handler
    else kthrow (Panic ''kernel interrupt''))"

text \<open>After the message for the cause and the back trace.\<close>

definition kernel_exception_handler :: "unit tm" where
  "kernel_exception_handler = kthrow (Panic ''kernel exception'')"

definition kernel_trap :: "symbols \<Rightarrow> unit tm \<Rightarrow> unit tm" where
  "kernel_trap sy elsewhere = kbind r_sepc (\<lambda>epc.
    kbind r_sstatus (\<lambda>status.
    kbind r_scause (\<lambda>cause.
    kbind local_irq_on (\<lambda>on.
    kseq (kassert (\<not> on) ''Interrupt can not be turned on in trap handler'') (
    kseq (kassert (status AND SSTATUS_SPP \<noteq> 0) ''kerneltrap: not from supervisor mode'') (
    kseq (if cause AND push_bit 63 1 \<noteq> 0 then kernel_interrupt_handler elsewhere cause else kernel_exception_handler) (
    kseq (w_sepc epc) (
    kseq (w_sstatus status) (
    set_kernel_trap sy)))))))))"

section \<open>Traps of user programs\<close>

definition user_interrupt_handler :: "u64 \<Rightarrow> flow tm" where
  "user_interrupt_handler cause = (
    let c = cause AND 0xff in
    if c = SupervisorTimer then kseq switch_back (
      kret Switched)
    else if c = SupervisorExternal then kseq interrupt_handler (
      kret Goes_On)
    else kthrow (Panic ''Unknown interrupt''))"

text \<open>The exit code for an exception other than a system call.\<close>

definition exit_code_of :: "u64 \<Rightarrow> int" where
  "exit_code_of c = (if c = StoreAccessFault then - 8 else if c = StorePageFault then - 7 else if c = InstructionAccessFault then - 6
    else if c = InstructionPageFault then - 5 else if c = LoadAccessFault then - 4 else if c = LoadPageFault then - 3
    else if c = IllegalInstruction then - 2 else - 1)"

definition user_exception_handler :: "nat \<Rightarrow> u64 \<Rightarrow> flow tm" where
  "user_exception_handler k cause = kbind get_user_process (\<lambda>p.
    kbind (tf_of p) (\<lambda>tf.
    let c = cause AND 0xff in
    if c = UserEnvCall then kbind (on_kern (check_killed k p)) (\<lambda>go.
      if go then kbind (tf_load tf tf_epc) (\<lambda>epc.
        kseq (tf_store tf tf_epc (epc + 4)) (
        syscall k))
      else kseq switch_back (
        kret Switched))
    else exit_current k p (exit_code_of c)))"

definition user_trap_ret :: "symbols \<Rightarrow> unit tm" where
  "user_trap_ret sy = kseq local_irq_disable (
    kseq (w_stvec ((TRAMPOLINE + (sym_user_vec sy - sym_trampoline sy)) AND NOT 3)) (
    kbind get_user_process (\<lambda>p.
    kbind (tf_of p) (\<lambda>tf.
    kbind r_satp (\<lambda>satp.
    kseq (tf_store tf tf_kernel_satp satp) (
    kbind (kget temp_kstack) (\<lambda>kstack.
    kseq (tf_store tf tf_kernel_sp kstack) (
    kseq (tf_store tf tf_kernel_trap (sym_user_trap sy)) (
    kbind r_tp (\<lambda>tp.
    kseq (tf_store tf tf_kernel_hartid tp) (
    kbind (tf_load tf tf_epc) (\<lambda>epc.
    kseq (w_sepc epc) (
    kbind r_sstatus (\<lambda>x.
    kseq (w_sstatus ((x AND NOT SSTATUS_SPP) OR SSTATUS_SPIE)) (
    kbind r_sie (\<lambda>e.
    kseq (w_sie (e OR SIE_STIE OR SIE_SSIE OR SIE_SEIE)) (
    set_next_timer)))))))))))))))))"

text \<open>Returns to the user, through \<open>user_trap_ret\<close>, or ends in the scheduler.\<close>

definition user_trap :: "symbols \<Rightarrow> nat \<Rightarrow> flow tm" where
  "user_trap sy k = kbind r_sstatus (\<lambda>status.
    kbind r_scause (\<lambda>cause.
    kbind local_irq_on (\<lambda>on.
    kseq (kassert (\<not> on) ''user trap: interrupt should be off'') (
    kseq (kassert (status AND SSTATUS_SPP = 0) ''usertrap: not from user mode'') (
    kbind r_sie (\<lambda>x.
    kseq (w_sie (x AND NOT SIE_STIE)) (
    kseq (enable_kernel_trap sy) (
    kbind (if cause AND push_bit 63 1 \<noteq> 0 then user_interrupt_handler cause else user_exception_handler k cause) (\<lambda>r.
    case r of Switched \<Rightarrow> kret Switched
    | Goes_On \<Rightarrow> kseq (user_trap_ret sy) (
      kret Goes_On))))))))))"

section \<open>Entering and leaving the kernel\<close>

text \<open>
  The assembly at both ends. The trap frame, which user programs see at \<open>TRAPFRAME\<close>, is the page that
  \<open>__init_pagetable\<close> mapped there. \<open>user_vec\<close> stores the registers of the user and the program counter and
  loads the kernel's stack pointer, core number, handler and page table; \<open>user_ret\<close> switches to the page table given and
  loads the registers of the user.
\<close>

primrec store_regs :: "u64 \<Rightarrow> (nat \<Rightarrow> u64) \<Rightarrow> nat list \<Rightarrow> unit tm" where
  "store_regs tf regs [] = kret ()"
| "store_regs tf regs (i # is) = kseq (tf_store tf (tf_reg i) (regs i)) (
  store_regs tf regs is)"

definition reg_order :: "nat list" where
  "reg_order = [1..<10] @ [11..<32] @ [10]"

definition user_vec :: "u64 \<Rightarrow> (nat \<Rightarrow> u64) \<Rightarrow> unit tm" where
  "user_vec tf regs = kseq (store_regs tf regs reg_order) (
    kbind r_sepc (\<lambda>epc.
    kseq (tf_store tf tf_epc epc) (
    kbind (tf_load tf tf_kernel_hartid) (\<lambda>tp.
    kseq (kmod (reg_tp_update (\<lambda>_. tp))) (
    kbind (tf_load tf tf_kernel_satp) (\<lambda>satp.
    w_satp satp))))))"

definition user_ret :: "u64 \<Rightarrow> u64 \<Rightarrow> (nat \<Rightarrow> u64) tm" where
  "user_ret tf satp = kseq (w_satp satp) (
    load_regs tf reg_order (\<lambda>_. 0))"

text \<open>
  One trap of the running user process from the first instruction of the kernel to the last: the registers it goes on
  with, or \<open>None\<close> when the core went back to the scheduler.
\<close>

definition user_round :: "symbols \<Rightarrow> nat \<Rightarrow> (nat \<Rightarrow> u64) \<Rightarrow> (nat \<Rightarrow> u64) option tm" where
  "user_round sy k regs = kbind get_user_process (\<lambda>p.
    kbind (tf_of p) (\<lambda>tf.
    kseq (user_vec tf regs) (
    kbind (user_trap sy k) (\<lambda>r.
    case r of Switched \<Rightarrow> kret None
    | Goes_On \<Rightarrow> kbind (on_kern (get_proc p)) (\<lambda>x.
      kbind (user_ret tf (MAKE_SATP (p_pagetable x))) (\<lambda>regs'.
      kret (Some regs')))))))"

section \<open>Running the parts\<close>

lemma on_kern_run: "f (kern_of m) = (r, k) \<Longrightarrow> on_kern f m = (r, m\<lparr>kern_of := k\<rparr>)"
  by (simp add: on_kern_def)

lemma machine_kern_same [simp]: "kern_of m = k \<Longrightarrow> m\<lparr>kern_of := k\<rparr> = m"
  by simp

text \<open>The current process and its trap frame.\<close>

definition user_at :: "machine \<Rightarrow> nat \<Rightarrow> proc \<Rightarrow> u64 \<Rightarrow> bool" where
  "user_at m p x tf \<longleftrightarrow> current_process (this_cpu (kern_of m)) = p \<and> p \<noteq> 0 \<and> procs (kern_of m) p = Some x \<and> p_trapframe_pa x = tf
    \<and> mapped (ram (kern_of m)) (unat tf) 4096 \<and> unat tf + 4096 \<le> 2 ^ 64"

definition with_ram :: "machine \<Rightarrow> mem \<Rightarrow> machine" where
  "with_ram m r = m\<lparr>kern_of := (kern_of m)\<lparr>ram := r\<rparr>\<rparr>"

lemma with_ram_simps [simp]:
  "with_ram (with_ram m r) r' = with_ram m r'" "ram (kern_of (with_ram m r)) = r" "with_ram m (ram (kern_of m)) = m"
  "csr_sepc (with_ram m r) = csr_sepc m" "csr_satp (with_ram m r) = csr_satp m" "reg_tp (with_ram m r) = reg_tp m"
  "procs (kern_of (with_ram m r)) = procs (kern_of m)" "this_cpu (kern_of (with_ram m r)) = this_cpu (kern_of m)"
  by (simp_all add: with_ram_def)

lemma tf_add:
  fixes tf off :: u64
  assumes "unat tf + 4096 \<le> 2 ^ 64" and "unat off < 4096"
  shows "unat (tf + off) = unat tf + unat off"
  using assms by (subst unat_add_lem [THEN iffD1]) simp_all

lemma tf_reg_nat: "i < 32 \<Longrightarrow> unat (tf_reg i) = 32 + 8 * i"
  by (simp add: tf_reg_def unat_word_ariths unat_of_nat)

lemma tf_load_run:
  assumes "unat tf + 4096 \<le> 2 ^ 64" and "unat off < 4096" and "load64 (ram (kern_of m)) (unat tf + unat off) = Some v"
  shows "tf_load tf off m = (Inr v, m)"
  using assms by (simp add: tf_load_def on_kern_def mem_load64_run tf_add)

lemma tf_store_run:
  assumes "unat tf + 4096 \<le> 2 ^ 64" and "unat off + 8 \<le> 4096" and "mapped (ram (kern_of m)) (unat tf) 4096"
  shows "tf_store tf off v m = (Inr (), with_ram m (stored (ram (kern_of m)) (unat tf + unat off) v))"
proof -
  have "mapped (ram (kern_of m)) (unat tf + unat off) 8" using assms(2,3) by (rule mapped_sub [rotated])
  moreover have "unat (tf + off) = unat tf + unat off" using assms(1,2) by (intro tf_add) simp_all
  ultimately show ?thesis by (simp add: tf_store_def on_kern_def mem_store64_run with_ram_def)
qed

text \<open>Storing and loading registers.\<close>

definition reg_bytes :: "nat \<Rightarrow> nat \<Rightarrow> nat set" where
  "reg_bytes a i = {a + 32 + 8 * i..<a + 40 + 8 * i}"

lemma store_regs_run:
  assumes "unat tf + 4096 \<le> 2 ^ 64" and "mapped (ram (kern_of m)) (unat tf) 4096" and "distinct is" and "\<forall>i\<in>set is. i < 32"
  shows "\<exists>r. store_regs tf regs is m = (Inr (), with_ram m r) \<and> mapped r (unat tf) 4096
    \<and> (\<forall>i\<in>set is. load64 r (unat tf + (32 + 8 * i)) = Some (regs i))
    \<and> (\<forall>b. (\<forall>i\<in>set is. b \<notin> reg_bytes (unat tf) i) \<longrightarrow> r b = ram (kern_of m) b)"
  using assms(2-4)
proof (induction "is" arbitrary: m)
  case Nil
  then show ?case by (intro exI [of _ "ram (kern_of m)"]) simp
next
  case (Cons i "is")
  have i: "i < 32" "unat (tf_reg i) = 32 + 8 * i" "i \<notin> set is" using Cons.prems(2,3) by (simp_all add: tf_reg_nat)
  let ?r = "stored (ram (kern_of m)) (unat tf + (32 + 8 * i)) (regs i)"
  have st: "tf_store tf (tf_reg i) (regs i) m = (Inr (), with_ram m ?r)"
    using tf_store_run [OF assms(1) _ Cons.prems(1), of "tf_reg i"] i by simp
  obtain r where r: "store_regs tf regs is (with_ram m ?r) = (Inr (), with_ram m r)" "mapped r (unat tf) 4096"
      "\<forall>j\<in>set is. load64 r (unat tf + (32 + 8 * j)) = Some (regs j)"
      "\<forall>b. (\<forall>j\<in>set is. b \<notin> reg_bytes (unat tf) j) \<longrightarrow> r b = ?r b"
    using Cons.IH [of "with_ram m ?r"] Cons.prems by auto
  have keep: "b \<notin> reg_bytes (unat tf) j" if "b \<in> reg_bytes (unat tf) i" "j \<in> set is" for b j
  proof -
    have "j \<noteq> i" using that i(3) by auto
    then show ?thesis using that(1) by (auto simp: reg_bytes_def)
  qed
  have "load64 r (unat tf + (32 + 8 * i)) = load64 ?r (unat tf + (32 + 8 * i))"
    by (rule load64_same) (use r(4) keep in \<open>simp add: reg_bytes_def\<close>)
  then have "load64 r (unat tf + (32 + 8 * i)) = Some (regs i)" by (simp add: load64_stored)
  moreover have "r b = ram (kern_of m) b" if "\<forall>j\<in>set (i # is). b \<notin> reg_bytes (unat tf) j" for b
    using that r(4) by (auto simp: stored_def reg_bytes_def)
  ultimately show ?case using st r(1,2,3) by (intro exI [of _ r]) simp
qed

lemma load_regs_run:
  assumes "unat tf + 4096 \<le> 2 ^ 64" and "\<forall>i\<in>set is. i < 32 \<and> load64 (ram (kern_of m)) (unat tf + (32 + 8 * i)) = Some (v i)"
  shows "load_regs tf is regs m = (Inr (\<lambda>i. if i \<in> set is then v i else regs i), m)"
  using assms(2)
proof (induction "is" arbitrary: regs)
  case (Cons i "is")
  have "tf_load tf (tf_reg i) m = (Inr (v i), m)"
    using tf_load_run [OF assms(1), of "tf_reg i" m "v i"] Cons.prems by (simp add: tf_reg_nat)
  moreover have "load_regs tf is (regs(i := v i)) m = (Inr (\<lambda>j. if j \<in> set (i # is) then v j else regs j), m)"
    by (rule trans [OF Cons.IH]) (use Cons.prems in auto)
  ultimately show ?case by simp
qed simp

text \<open>The way back to the user: the words of the kernel in the trap frame are the only memory it writes.\<close>

definition kernel_words :: "nat \<Rightarrow> nat set" where
  "kernel_words a = {a..<a + 24} \<union> {a + 32..<a + 40}"

definition returned :: "symbols \<Rightarrow> machine \<Rightarrow> u64 \<Rightarrow> mem \<Rightarrow> machine" where
  "returned sy m epc r = m\<lparr>csr_sstatus := ((csr_sstatus m AND NOT 2) AND NOT SSTATUS_SPP) OR SSTATUS_SPIE,
    csr_stvec := (TRAMPOLINE + (sym_user_vec sy - sym_trampoline sy)) AND NOT 3, csr_sepc := epc,
    csr_sie := csr_sie m OR SIE_STIE OR SIE_SSIE OR SIE_SEIE, timer_at := csr_time m + 125000,
    kern_of := (kern_of m)\<lparr>ram := r\<rparr>\<rparr>"

lemma tf_of_run: "user_at m p x tf \<Longrightarrow> tf_of p m = (Inr tf, m)"
  by (simp add: tf_of_def on_kern_def get_proc_run user_at_def)

lemma get_user_process_run: "user_at m p x tf \<Longrightarrow> get_user_process m = (Inr p, m)"
  by (simp add: get_user_process_def user_at_def)

lemma user_at_hart [simp]:
  "user_at (m\<lparr>csr_sstatus := a\<rparr>) p x tf = user_at m p x tf" "user_at (m\<lparr>csr_stvec := a\<rparr>) p x tf = user_at m p x tf"
  "user_at (m\<lparr>csr_sie := a\<rparr>) p x tf = user_at m p x tf" "user_at (m\<lparr>csr_satp := a\<rparr>) p x tf = user_at m p x tf"
  "user_at (m\<lparr>reg_tp := a\<rparr>) p x tf = user_at m p x tf" "user_at (m\<lparr>disk_of := d\<rparr>) p x tf = user_at m p x tf"
  "user_at (m\<lparr>plic_claims := q\<rparr>) p x tf = user_at m p x tf" "user_at (m\<lparr>plic_completed := q\<rparr>) p x tf = user_at m p x tf"
  by (simp_all add: user_at_def)

lemma user_at_ram: "\<lbrakk>user_at m p x tf; mapped r (unat tf) 4096\<rbrakk> \<Longrightarrow> user_at (with_ram m r) p x tf"
  by (simp add: user_at_def)

lemma with_ram_hart [simp]: "with_ram (m\<lparr>csr_sstatus := a\<rparr>) r = (with_ram m r)\<lparr>csr_sstatus := a\<rparr>"
  "with_ram (m\<lparr>csr_stvec := a\<rparr>) r = (with_ram m r)\<lparr>csr_stvec := a\<rparr>"
  by (simp_all add: with_ram_def)

lemma user_trap_ret_run:
  assumes u: "user_at m p x tf" and e: "load64 (ram (kern_of m)) (unat tf + 24) = Some epc"
  shows "\<exists>r. user_trap_ret sy m = (Inr (), returned sy m epc r) \<and> mapped r (unat tf) 4096
    \<and> load64 r (unat tf) = Some (csr_satp m) \<and> load64 r (unat tf + 8) = Some (temp_kstack m)
    \<and> load64 r (unat tf + 16) = Some (sym_user_trap sy) \<and> load64 r (unat tf + 32) = Some (reg_tp m)
    \<and> (\<forall>b. b \<notin> kernel_words (unat tf) \<longrightarrow> r b = ram (kern_of m) b)"
proof -
  define m1 where "m1 = m\<lparr>csr_sstatus := csr_sstatus m AND NOT SSTATUS_SIE, csr_stvec := (TRAMPOLINE + (sym_user_vec sy - sym_trampoline sy)) AND NOT 3\<rparr>"
  let ?a = "unat tf"
  let ?r1 = "stored (ram (kern_of m)) ?a (csr_satp m)"
  let ?r2 = "stored ?r1 (?a + 8) (temp_kstack m)"
  let ?r3 = "stored ?r2 (?a + 16) (sym_user_trap sy)"
  let ?r = "stored ?r3 (?a + 32) (reg_tp m)"
  have k1: "kern_of m1 = kern_of m" "csr_satp m1 = csr_satp m" "temp_kstack m1 = temp_kstack m" "reg_tp m1 = reg_tp m" by (simp_all add: m1_def)
  have u1: "user_at m1 p x tf" using u by (simp add: m1_def)
  have t: "?a + 4096 \<le> 2 ^ 64" "mapped (ram (kern_of m)) ?a 4096" using u by (simp_all add: user_at_def)
  have st: "tf_store tf off v (with_ram m1 q) = (Inr (), with_ram m1 (stored q (?a + unat off) v))" if "unat off + 8 \<le> 4096" "mapped q ?a 4096" for off v q
    using tf_store_run [OF t(1) that(1), of "with_ram m1 q" v] that(2) by simp
  have ld: "tf_load tf tf_epc (with_ram m1 ?r) = (Inr epc, with_ram m1 ?r)"
    using tf_load_run [OF t(1), of tf_epc "with_ram m1 ?r" epc] e by (simp add: tf_epc_def load64_stored_other)
  have g: "with_ram m1 (ram (kern_of m)) = m1" by (simp flip: k1(1))
  have s1: "tf_store tf tf_kernel_satp (csr_satp m) m1 = (Inr (), with_ram m1 ?r1)"
    using st [of tf_kernel_satp "ram (kern_of m)"] t(2) g by (simp add: tf_kernel_satp_def)
  have s2: "tf_store tf tf_kernel_sp (temp_kstack m) (with_ram m1 ?r1) = (Inr (), with_ram m1 ?r2)"
    using st [of tf_kernel_sp ?r1] t(2) by (simp add: tf_kernel_sp_def)
  have s3: "tf_store tf tf_kernel_trap (sym_user_trap sy) (with_ram m1 ?r2) = (Inr (), with_ram m1 ?r3)"
    using st [of tf_kernel_trap ?r2] t(2) by (simp add: tf_kernel_trap_def)
  have s4: "tf_store tf tf_kernel_hartid (reg_tp m) (with_ram m1 ?r3) = (Inr (), with_ram m1 ?r)"
    using st [of tf_kernel_hartid ?r3] t(2) by (simp add: tf_kernel_hartid_def)
  have off: "local_irq_disable m = (Inr (), m\<lparr>csr_sstatus := csr_sstatus m AND NOT SSTATUS_SIE\<rparr>)"
    by (cases m) (simp add: local_irq_disable_def csr_defs)
  have vec: "w_stvec ((TRAMPOLINE + (sym_user_vec sy - sym_trampoline sy)) AND NOT 3) (m\<lparr>csr_sstatus := csr_sstatus m AND NOT SSTATUS_SIE\<rparr>) = (Inr (), m1)"
    by (simp add: csr_defs m1_def)
  have w: "temp_kstack (with_ram m1 q) = temp_kstack m" for q by (simp add: with_ram_def k1)
  have "user_trap_ret sy m = (Inr (), returned sy m epc ?r)"
    unfolding user_trap_ret_def
    by (simp only: kseq_Inr [where m = local_irq_disable, OF off] kseq_Inr [where m = "w_stvec _", OF vec])
      (simp add: csr_defs get_user_process_run [OF u1] tf_of_run [OF u1] k1 s1 s2 s3 s4 w ld,
       simp add: set_next_timer_def set_timer_def csr_defs Let_def TICK_FREQ_def TIME_SLICE_PER_SEC_def returned_def with_ram_def m1_def SSTATUS_SIE_def)
  moreover have "?r b = ram (kern_of m) b" if "b \<notin> kernel_words ?a" for b
    using that by (auto simp: stored_def kernel_words_def)
  ultimately show ?thesis using t(2) by (intro exI [of _ ?r]) (simp add: load64_stored load64_stored_other)
qed

text \<open>The way in.\<close>

lemma set_reg_order: "set reg_order = {1..<32}"
  unfolding reg_order_def set_append set_upt by auto

lemma distinct_reg_order: "distinct reg_order"
  by (simp add: reg_order_def)

definition user_words :: "nat \<Rightarrow> nat set" where
  "user_words a = {a + 24..<a + 32} \<union> {a + 40..<a + 288}"

lemma user_vec_run:
  assumes u: "user_at m p x tf" and h: "load64 (ram (kern_of m)) (unat tf + 32) = Some hid" and st: "load64 (ram (kern_of m)) (unat tf) = Some st"
  shows "\<exists>r. user_vec tf regs m = (Inr (), (with_ram m r)\<lparr>reg_tp := hid, csr_satp := st\<rparr>) \<and> mapped r (unat tf) 4096
    \<and> (\<forall>i\<in>{1..<32}. load64 r (unat tf + (32 + 8 * i)) = Some (regs i)) \<and> load64 r (unat tf + 24) = Some (csr_sepc m)
    \<and> (\<forall>b. b \<notin> user_words (unat tf) \<longrightarrow> r b = ram (kern_of m) b)"
proof -
  let ?is = reg_order and ?a = "unat tf"
  have t: "?a + 4096 \<le> 2 ^ 64" "mapped (ram (kern_of m)) ?a 4096" using u by (simp_all add: user_at_def)
  obtain q where q: "store_regs tf regs ?is m = (Inr (), with_ram m q)" "mapped q ?a 4096"
      "\<forall>i\<in>set ?is. load64 q (?a + (32 + 8 * i)) = Some (regs i)"
      "\<forall>b. (\<forall>i\<in>set ?is. b \<notin> reg_bytes ?a i) \<longrightarrow> q b = ram (kern_of m) b"
    using store_regs_run [OF t distinct_reg_order, of regs] by (auto simp: set_reg_order)
  let ?r = "stored q (?a + 24) (csr_sepc m)"
  have out: "q b = ram (kern_of m) b" if "b < ?a + 40 \<or> ?a + 288 \<le> b" for b
    using that q(4) unfolding set_reg_order by (auto simp: reg_bytes_def)
  have epc: "tf_store tf tf_epc (csr_sepc m) (with_ram m q) = (Inr (), with_ram m ?r)"
    using tf_store_run [OF t(1), of tf_epc "with_ram m q"] q(2) by (simp add: tf_epc_def)
  have "load64 ?r (?a + 32) = load64 (ram (kern_of m)) (?a + 32)" by (rule load64_same) (simp add: stored_def out)
  then have hid: "tf_load tf tf_kernel_hartid (with_ram m ?r) = (Inr hid, with_ram m ?r)"
    using tf_load_run [OF t(1), of tf_kernel_hartid "with_ram m ?r" hid] h by (simp add: tf_kernel_hartid_def)
  have "load64 ?r ?a = load64 (ram (kern_of m)) ?a" by (rule load64_same) (simp add: stored_def out)
  then have satp: "tf_load tf tf_kernel_satp ((with_ram m ?r)\<lparr>reg_tp := hid\<rparr>) = (Inr st, (with_ram m ?r)\<lparr>reg_tp := hid\<rparr>)"
    using tf_load_run [OF t(1), of tf_kernel_satp "(with_ram m ?r)\<lparr>reg_tp := hid\<rparr>" st] st by (simp add: tf_kernel_satp_def)
  have "user_vec tf regs m = (Inr (), (with_ram m ?r)\<lparr>reg_tp := hid, csr_satp := st\<rparr>)"
    unfolding user_vec_def by (simp add: q(1) csr_defs epc hid satp)
  moreover have "\<forall>i\<in>{1..<32}. load64 ?r (?a + (32 + 8 * i)) = Some (regs i)"
    using q(3) unfolding set_reg_order by (simp add: load64_stored_other)
  moreover have "\<forall>b. b \<notin> user_words ?a \<longrightarrow> ?r b = ram (kern_of m) b"
    using out by (auto simp: user_words_def stored_def)
  ultimately show ?thesis using q(2) by (intro exI [of _ ?r]) (simp add: load64_stored)
qed

text \<open>The handler of a device interrupt needs the disk in a state that its driver reaches.\<close>

definition disk_ready :: "machine \<Rightarrow> bool" where
  "disk_ready m \<longleftrightarrow> (\<exists>d. disk_of m = Some d \<and> vinv d \<and> vlive d \<and> \<not> driver_stuck d)"

lemma interrupt_handler_run:
  assumes "disk_ready m"
  shows "\<exists>d'. interrupt_handler m = (Inr (), m\<lparr>plic_claims := tl (plic_claims m),
      plic_completed := plic_completed m @ filter (\<lambda>q. q \<noteq> 0) (take 1 (plic_claims m)), disk_of := Some d'\<rparr>) \<and> vinv d' \<and> vlive d'"
proof (cases "plic_claims m")
  case Nil
  obtain d where "disk_of m = Some d" "vinv d" "vlive d" using assms by (auto simp: disk_ready_def)
  then show ?thesis using Nil by (intro exI [of _ d]) (simp add: interrupt_handler_def plic_claim_def VIRTIO0_IRQ_def)
next
  case (Cons irq rest)
  obtain d where d: "disk_of m = Some d" "vinv d" "vlive d" "\<not> driver_stuck d" using assms by (auto simp: disk_ready_def)
  obtain d' where d': "virtio_disk_intr d = (Inr (), d')" "vinv d'" "vlive d'"
    using vnext_run [OF d(2,3), of Interrupt] d(4) by auto
  show ?thesis
  proof (cases "irq = VIRTIO0_IRQ")
    case True
    then show ?thesis using Cons d' d(1)
      by (intro exI [of _ d']) (cases m; simp add: interrupt_handler_def plic_claim_def plic_complete_def on_disk_def VIRTIO0_IRQ_def)
  next
    case False
    then show ?thesis using Cons d
      by (intro exI [of _ d]) (cases m; simp add: interrupt_handler_def plic_claim_def plic_complete_def)
  qed
qed

section \<open>Traps from user mode\<close>

definition from_user :: "machine \<Rightarrow> bool" where
  "from_user m \<longleftrightarrow> \<not> bit (csr_sstatus m) 1 \<and> \<not> bit (csr_sstatus m) 8"

definition entered :: "symbols \<Rightarrow> machine \<Rightarrow> machine" where
  "entered sy m = m\<lparr>csr_sie := csr_sie m AND NOT SIE_STIE, csr_stvec := sym_kernel_vec sy AND NOT 3, csr_sstatus := csr_sstatus m OR SSTATUS_SIE\<rparr>"

definition user_handler :: "nat \<Rightarrow> u64 \<Rightarrow> flow tm" where
  "user_handler k cause = (if cause AND push_bit 63 1 \<noteq> 0 then user_interrupt_handler cause else user_exception_handler k cause)"

lemma entered_simps [simp]:
  "kern_of (entered sy m) = kern_of m" "disk_of (entered sy m) = disk_of m" "plic_claims (entered sy m) = plic_claims m"
  "plic_completed (entered sy m) = plic_completed m" "reg_tp (entered sy m) = reg_tp m" "csr_satp (entered sy m) = csr_satp m"
  "csr_time (entered sy m) = csr_time m" "temp_kstack (entered sy m) = temp_kstack m" "csr_sepc (entered sy m) = csr_sepc m"
  "user_at (entered sy m) p x tf = user_at m p x tf" "disk_ready (entered sy m) = disk_ready m" "csr_scause (entered sy m) = csr_scause m"
  by (simp_all add: entered_def disk_ready_def)

lemma user_trap_enter:
  assumes "from_user m"
  shows "user_trap sy k m = kbind (user_handler k (csr_scause m)) (\<lambda>r. case r of Switched \<Rightarrow> kret Switched
    | Goes_On \<Rightarrow> kseq (user_trap_ret sy) (kret Goes_On)) (entered sy m)"
proof -
  have f: "csr_sstatus m AND SSTATUS_SPP = 0" "local_irq_on m = (Inr False, m)"
    using assms and_exp_eq_0_iff_not_bit [of "csr_sstatus m" 8] local_irq_on_run [of m] by (simp_all add: from_user_def flag_defs)
  have "enable_kernel_trap sy (m\<lparr>csr_sie := csr_sie m AND NOT SIE_STIE\<rparr>) = (Inr (), entered sy m)"
    by (cases m) (simp add: enable_kernel_trap_def set_kernel_trap_def local_irq_enable_def csr_defs entered_def)
  then show ?thesis using f by (simp add: user_trap_def csr_defs user_handler_def)
qed

lemma switch_back_run: "csr_sie m AND SIE_STIE = 0 \<Longrightarrow> switch_back m = (Inr (), m)"
  by (simp add: switch_back_def local_irq_on_run csr_defs)

lemma entered_no_timer: "csr_sie (entered sy m) AND SIE_STIE = 0"
  by (simp add: entered_def SIE_STIE_def) (auto intro!: bit_word_eqI simp: bit_simps)

text \<open>The state in which the hardware goes on with the user program.\<close>

definition to_user :: "symbols \<Rightarrow> u64 \<Rightarrow> machine \<Rightarrow> bool" where
  "to_user sy pagetable m \<longleftrightarrow> \<not> bit (csr_sstatus m) 1 \<and> \<not> bit (csr_sstatus m) 8 \<and> bit (csr_sstatus m) 5
    \<and> csr_stvec m = (TRAMPOLINE + (sym_user_vec sy - sym_trampoline sy)) AND NOT 3
    \<and> bit (csr_sie m) 1 \<and> bit (csr_sie m) 5 \<and> bit (csr_sie m) 9 \<and> csr_satp m = MAKE_SATP pagetable"

lemma exp_bits [simp]: "bit (2 ^ n :: u64) i \<longleftrightarrow> i = n \<and> n < 64"
  by (auto simp: bit_exp_iff)

lemma to_user_returned: "to_user sy pt ((returned sy m epc r)\<lparr>csr_satp := MAKE_SATP pt\<rparr>)"
  by (simp add: to_user_def returned_def flag_defs bit_simps)

text \<open>A machine whose kernel memory differs from another's only inside the trap frame.\<close>

definition only_frame :: "u64 \<Rightarrow> machine \<Rightarrow> machine \<Rightarrow> bool" where
  "only_frame tf m m' \<longleftrightarrow> kern_of m' = (kern_of m)\<lparr>ram := ram (kern_of m')\<rparr> \<and> (\<forall>b. b \<notin> frame tf \<longrightarrow> ram (kern_of m') b = ram (kern_of m) b)"

lemma only_frame_trans: "\<lbrakk>only_frame tf m m'; only_frame tf m' m''\<rbrakk> \<Longrightarrow> only_frame tf m m''"
  unfolding only_frame_def by (metis (no_types, lifting) mm.update_convs(1) mm.surjective kern.surjective)

text \<open>
  Everything a trap does around its handler: if the handler lets the program go on, the program finds the registers and the
  program counter that the handler left in the trap frame.
\<close>

lemma user_round_frame:
  assumes u: "user_at m p x tf" and fu: "from_user m"
    and h: "load64 (ram (kern_of m)) (unat tf + 32) = Some hid" and st: "load64 (ram (kern_of m)) (unat tf) = Some st"
    and hd: "\<And>r. \<lbrakk>user_at (with_ram m r) p x tf; \<forall>i\<in>{1..<32}. load64 r (unat tf + (32 + 8 * i)) = Some (regs i); load64 r (unat tf + 24) = Some (csr_sepc m)\<rbrakk>
      \<Longrightarrow> \<exists>m2 x2. user_handler k (csr_scause m) (entered sy ((with_ram m r)\<lparr>reg_tp := hid, csr_satp := st\<rparr>)) = (Inr Goes_On, m2)
        \<and> user_at m2 p x2 tf \<and> p_pagetable x2 = p_pagetable x \<and> only_frame tf (with_ram m r) m2 \<and> load64 (ram (kern_of m2)) (unat tf + 24) = Some epc'
        \<and> (\<forall>i\<in>{1..<32}. load64 (ram (kern_of m2)) (unat tf + (32 + 8 * i)) = Some (regs' i)) \<and> Q (plic_completed m2)"
  shows "\<exists>m' regs''. user_round sy k regs m = (Inr (Some regs''), m') \<and> (\<forall>i\<in>{1..<32}. regs'' i = regs' i) \<and> csr_sepc m' = epc'
    \<and> to_user sy (p_pagetable x) m' \<and> only_frame tf m m' \<and> Q (plic_completed m')"
proof -
  let ?a = "unat tf"
  obtain r where r: "user_vec tf regs m = (Inr (), (with_ram m r)\<lparr>reg_tp := hid, csr_satp := st\<rparr>)" "mapped r ?a 4096"
      "\<forall>i\<in>{1..<32}. load64 r (?a + (32 + 8 * i)) = Some (regs i)" "load64 r (?a + 24) = Some (csr_sepc m)"
      "\<forall>b. b \<notin> user_words ?a \<longrightarrow> r b = ram (kern_of m) b"
    using user_vec_run [OF u h st] by blast
  let ?m1 = "(with_ram m r)\<lparr>reg_tp := hid, csr_satp := st\<rparr>"
  obtain m2 x2 where m2: "user_handler k (csr_scause m) (entered sy ?m1) = (Inr Goes_On, m2)" "user_at m2 p x2 tf" "p_pagetable x2 = p_pagetable x"
      "only_frame tf (with_ram m r) m2" "load64 (ram (kern_of m2)) (?a + 24) = Some epc'"
      "\<forall>i\<in>{1..<32}. load64 (ram (kern_of m2)) (?a + (32 + 8 * i)) = Some (regs' i)" "Q (plic_completed m2)"
    using hd [OF user_at_ram [OF u r(2)] r(3,4)] by blast
  obtain q where q: "user_trap_ret sy m2 = (Inr (), returned sy m2 epc' q)" "mapped q ?a 4096"
      "\<forall>b. b \<notin> kernel_words ?a \<longrightarrow> q b = ram (kern_of m2) b"
    using user_trap_ret_run [OF m2(2,5)] by blast
  let ?m3 = "returned sy m2 epc' q"
  have k3: "kern_of ?m3 = (kern_of m2)\<lparr>ram := q\<rparr>" "csr_sepc ?m3 = epc'" "plic_completed ?m3 = plic_completed m2"
    by (simp_all add: returned_def)
  have "from_user ?m1" using fu by (simp add: from_user_def with_ram_def)
  then have trap: "user_trap sy k ?m1 = (Inr Goes_On, ?m3)"
    using m2(1) q(1) by (simp add: user_trap_enter with_ram_def)
  have regs3: "\<forall>i\<in>set reg_order. i < 32 \<and> load64 (ram (kern_of (?m3\<lparr>csr_satp := MAKE_SATP (p_pagetable x)\<rparr>))) (?a + (32 + 8 * i)) = Some (regs' i)"
  proof
    fix i assume "i \<in> set reg_order"
    then have i: "1 \<le> i" "i < 32" by (simp_all add: set_reg_order)
    then have "load64 q (?a + (32 + 8 * i)) = load64 (ram (kern_of m2)) (?a + (32 + 8 * i))"
      by (intro load64_same) (use q(3) in \<open>simp add: kernel_words_def\<close>)
    then show "i < 32 \<and> load64 (ram (kern_of (?m3\<lparr>csr_satp := MAKE_SATP (p_pagetable x)\<rparr>))) (?a + (32 + 8 * i)) = Some (regs' i)"
      using m2(6) i by (simp add: k3)
  qed
  have t: "?a + 4096 \<le> 2 ^ 64" "procs (kern_of m2) p = Some x2" "p \<noteq> 0" using m2(2) by (simp_all add: user_at_def)
  note ret = load_regs_run [OF t(1) regs3, of "\<lambda>_. 0"]
  have get: "on_kern (get_proc p) ?m3 = (Inr x2, ?m3)" using t by (simp add: on_kern_def get_proc_run k3)
  have "user_round sy k regs m = (Inr (Some (\<lambda>i. if i \<in> set reg_order then regs' i else 0)), ?m3\<lparr>csr_satp := MAKE_SATP (p_pagetable x)\<rparr>)"
    unfolding user_round_def
    by (simp add: get_user_process_run [OF u] tf_of_run [OF u] r(1) trap get user_ret_def csr_defs m2(3) ret del: if_split)
  moreover have "only_frame tf m ?m3"
  proof (rule only_frame_trans)
    show "only_frame tf m (with_ram m r)" using r(5) by (auto simp: only_frame_def with_ram_def frame_def user_words_def)
    show "only_frame tf (with_ram m r) ?m3"
      by (rule only_frame_trans [OF m2(4)]) (use q(3) in \<open>auto simp: only_frame_def k3 frame_def kernel_words_def\<close>)
  qed
  ultimately show ?thesis
    using m2(7) to_user_returned [of sy "p_pagetable x" m2 epc' q] k3
    by (intro exI [of _ "?m3\<lparr>csr_satp := MAKE_SATP (p_pagetable x)\<rparr>"] exI [of _ "\<lambda>i. if i \<in> set reg_order then regs' i else 0"])
      (simp add: set_reg_order only_frame_def)
qed

section \<open>Device interrupts\<close>

lemma interrupt_handler_kern:
  assumes "disk_ready m"
  obtains m2 where "interrupt_handler m = (Inr (), m2)" "kern_of m2 = kern_of m"
    "plic_completed m2 = plic_completed m @ filter (\<lambda>q. q \<noteq> 0) (take 1 (plic_claims m))"
  using interrupt_handler_run [OF assms] by (elim exE conjE) (erule that, simp_all)

lemma user_at_kern: "kern_of m' = kern_of m \<Longrightarrow> user_at m' p x tf = user_at m p x tf"
  by (simp add: user_at_def)

lemma user_at_entered: "user_at m p x tf \<Longrightarrow> user_at (entered sy (m\<lparr>reg_tp := a, csr_satp := b\<rparr>)) p x tf"
  by simp

text \<open>
  C10. A device interrupt does not show in the user program: when it is over, the program goes on with every register and the
  program counter it had, in user mode with interrupts on, on its own page table and with the trap vector of user mode; the
  kernel's memory is as before outside the trap frame, and the request claimed from the interrupt controller is completed.
\<close>

theorem device_interrupt_transparent_to_user:
  assumes "user_at m p x tf" and "from_user m" and "load64 (ram (kern_of m)) (unat tf + 32) = Some hid" and "load64 (ram (kern_of m)) (unat tf) = Some st"
    and "csr_scause m AND push_bit 63 1 \<noteq> 0" and "csr_scause m AND 0xff = SupervisorExternal" and "disk_ready m"
  shows "\<exists>m' regs'. user_round sy k regs m = (Inr (Some regs'), m') \<and> (\<forall>i\<in>{1..<32}. regs' i = regs i) \<and> csr_sepc m' = csr_sepc m
    \<and> to_user sy (p_pagetable x) m' \<and> only_frame tf m m' \<and> plic_completed m' = plic_completed m @ filter (\<lambda>q. q \<noteq> 0) (take 1 (plic_claims m))"
proof -
  have "\<exists>m2 x2. user_handler k (csr_scause m) (entered sy ((with_ram m r)\<lparr>reg_tp := hid, csr_satp := st\<rparr>)) = (Inr Goes_On, m2)
        \<and> user_at m2 p x2 tf \<and> p_pagetable x2 = p_pagetable x \<and> only_frame tf (with_ram m r) m2 \<and> load64 (ram (kern_of m2)) (unat tf + 24) = Some (csr_sepc m)
        \<and> (\<forall>i\<in>{1..<32}. load64 (ram (kern_of m2)) (unat tf + (32 + 8 * i)) = Some (regs i))
        \<and> plic_completed m2 = plic_completed m @ filter (\<lambda>q. q \<noteq> 0) (take 1 (plic_claims m))"
    if r: "user_at (with_ram m r) p x tf" "\<forall>i\<in>{1..<32}. load64 r (unat tf + (32 + 8 * i)) = Some (regs i)" "load64 r (unat tf + 24) = Some (csr_sepc m)" for r
  proof -
    let ?m1 = "entered sy ((with_ram m r)\<lparr>reg_tp := hid, csr_satp := st\<rparr>)"
    have "disk_ready ?m1" using assms(7) by (simp add: disk_ready_def with_ram_def)
    then obtain m2 where m2: "interrupt_handler ?m1 = (Inr (), m2)" "kern_of m2 = kern_of ?m1"
        "plic_completed m2 = plic_completed ?m1 @ filter (\<lambda>q. q \<noteq> 0) (take 1 (plic_claims ?m1))" by (rule interrupt_handler_kern)
    have "user_handler k (csr_scause m) ?m1 = (Inr Goes_On, m2)"
      using assms(5,6) m2(1) by (simp add: user_handler_def user_interrupt_handler_def cause_defs)
    moreover have k: "kern_of m2 = kern_of (with_ram m r)" by (simp add: m2(2))
    moreover have "user_at m2 p x tf" using r(1) user_at_kern [OF k] by simp
    moreover have "plic_completed m2 = plic_completed m @ filter (\<lambda>q. q \<noteq> 0) (take 1 (plic_claims m))" using m2(3) by (simp add: with_ram_def)
    ultimately show ?thesis using r(2,3) by (intro exI [of _ m2] exI [of _ x]) (simp add: only_frame_def)
  qed
  from user_round_frame [where Q = "\<lambda>l. l = plic_completed m @ filter (\<lambda>q. q \<noteq> 0) (take 1 (plic_claims m))", OF assms(1-4) this]
  show ?thesis by assumption
qed

section \<open>System calls that return\<close>

lemma sys_fstat_run:
  assumes "user_at m p x tf" and "length (p_files x) = FD_MAX"
  shows "sys_fstat fd va m = (Inr (- 1), m)"
proof (cases "fd < 0 \<or> fd \<ge> int FD_MAX")
  case False
  then have "nat fd < length (p_files x)" using assms(2) by linarith
  then have "on_kern (get_file p fd) m = (Inr (p_files x ! nat fd), m)"
    using assms(1) False by (simp add: on_kern_def get_file_def get_proc_run user_at_def)
  then show ?thesis using False get_user_process_run [OF assms(1)] by (simp add: sys_fstat_def)
qed (simp add: sys_fstat_def get_user_process_run [OF assms(1)])

lemma syscall_run:
  assumes u: "user_at m p x tf" and regs: "\<forall>i\<in>{1..<32}. load64 (ram (kern_of m)) (unat tf + (32 + 8 * i)) = Some (regs i)"
    and files: "length (p_files x) = FD_MAX" and call: "regs 17 \<noteq> SYS_exit"
  shows "syscall k m = (Inr Goes_On, with_ram m (stored (ram (kern_of m)) (unat tf + 112) (- 1)))"
proof -
  have t: "unat tf + 4096 \<le> 2 ^ 64" "mapped (ram (kern_of m)) (unat tf) 4096" using u by (simp_all add: user_at_def)
  have a7: "tf_load tf tf_a7 m = (Inr (regs 17), m)"
    using tf_load_run [OF t(1), of tf_a7 m "regs 17"] bspec [OF regs, of 17] by (simp add: tf_a7_def)
  have "set arg_regs = {10..<17}" unfolding arg_regs_def by (rule set_upt)
  then have args: "load_regs tf arg_regs (\<lambda>_. 0) m = (Inr (\<lambda>i. if i \<in> set arg_regs then regs i else 0), m)"
    using regs by (intro load_regs_run [OF t(1)]) simp
  have ret: "tf_store tf tf_a0 (- 1) m = (Inr (), with_ram m (stored (ram (kern_of m)) (unat tf + 112) (- 1)))"
    using tf_store_run [OF t(1) _ t(2), of tf_a0] by (simp add: tf_a0_def)
  show ?thesis
    unfolding syscall_def using call
    by (simp add: get_user_process_run [OF u] tf_of_run [OF u] a7 args ret sys_fstat_run [OF u files])
qed

lemma ecall_run:
  assumes u: "user_at m p x tf" and regs: "\<forall>i\<in>{1..<32}. load64 (ram (kern_of m)) (unat tf + (32 + 8 * i)) = Some (regs i)"
    and epc: "load64 (ram (kern_of m)) (unat tf + 24) = Some pc"
    and files: "length (p_files x) = FD_MAX" and call: "regs 17 \<noteq> SYS_exit" and alive: "p_state x \<noteq> KILLED" and cause: "cause AND 0xff = UserEnvCall"
  shows "user_exception_handler k cause m = (Inr Goes_On, with_ram m (stored (stored (ram (kern_of m)) (unat tf + 24) (pc + 4)) (unat tf + 112) (- 1)))"
proof -
  let ?r = "stored (ram (kern_of m)) (unat tf + 24) (pc + 4)"
  have t: "unat tf + 4096 \<le> 2 ^ 64" "mapped (ram (kern_of m)) (unat tf) 4096" using u by (simp_all add: user_at_def)
  have go: "on_kern (check_killed k p) m = (Inr True, m)"
    using u alive by (simp add: on_kern_def check_killed_def get_proc_run user_at_def)
  have ld: "tf_load tf tf_epc m = (Inr pc, m)" using tf_load_run [OF t(1), of tf_epc m pc] epc by (simp add: tf_epc_def)
  have st: "tf_store tf tf_epc (pc + 4) m = (Inr (), with_ram m ?r)"
    using tf_store_run [OF t(1) _ t(2), of tf_epc] by (simp add: tf_epc_def)
  have u2: "user_at (with_ram m ?r) p x tf" by (rule user_at_ram [OF u]) (simp add: t)
  have "\<forall>i\<in>{1..<32}. load64 (ram (kern_of (with_ram m ?r))) (unat tf + (32 + 8 * i)) = Some (regs i)"
    using regs by (simp add: load64_stored_other)
  from syscall_run [OF u2 this files call, of k] go ld st show ?thesis
    unfolding user_exception_handler_def using cause by (simp add: get_user_process_run [OF u] tf_of_run [OF u])
qed

text \<open>
  C20. A system call other than \<open>exit\<close> returns -1 to the program (\<open>fstat\<close> is the only other call and always fails): the
  program goes on after the \<open>ecall\<close> instruction with -1 in \<open>a0\<close> and every other register as before, and the kernel has
  changed nothing but the trap frame.
\<close>

theorem system_call_returns_to_user:
  assumes "user_at m p x tf" and "from_user m" and "load64 (ram (kern_of m)) (unat tf + 32) = Some hid" and "load64 (ram (kern_of m)) (unat tf) = Some st"
    and "csr_scause m AND push_bit 63 1 = 0" and "csr_scause m AND 0xff = UserEnvCall"
    and "regs 17 \<noteq> SYS_exit" and "length (p_files x) = FD_MAX" and "p_state x \<noteq> KILLED"
  shows "\<exists>m' regs'. user_round sy k regs m = (Inr (Some regs'), m') \<and> (\<forall>i\<in>{1..<32}. regs' i = (regs(10 := - 1)) i) \<and> csr_sepc m' = csr_sepc m + 4
    \<and> to_user sy (p_pagetable x) m' \<and> only_frame tf m m' \<and> plic_completed m' = plic_completed m"
proof -
  let ?a = "unat tf"
  have "\<exists>m2 x2. user_handler k (csr_scause m) (entered sy ((with_ram m r)\<lparr>reg_tp := hid, csr_satp := st\<rparr>)) = (Inr Goes_On, m2)
        \<and> user_at m2 p x2 tf \<and> p_pagetable x2 = p_pagetable x \<and> only_frame tf (with_ram m r) m2 \<and> load64 (ram (kern_of m2)) (?a + 24) = Some (csr_sepc m + 4)
        \<and> (\<forall>i\<in>{1..<32}. load64 (ram (kern_of m2)) (?a + (32 + 8 * i)) = Some ((regs(10 := - 1)) i)) \<and> plic_completed m2 = plic_completed m"
    if r: "user_at (with_ram m r) p x tf" "\<forall>i\<in>{1..<32}. load64 r (?a + (32 + 8 * i)) = Some (regs i)" "load64 r (?a + 24) = Some (csr_sepc m)" for r
  proof -
    define m1 where "m1 = entered sy ((with_ram m r)\<lparr>reg_tp := hid, csr_satp := st\<rparr>)"
    have k1: "kern_of m1 = kern_of (with_ram m r)" "ram (kern_of m1) = r" "plic_completed m1 = plic_completed m" by (simp_all add: m1_def) (simp add: with_ram_def)
    have u1: "user_at m1 p x tf" using r(1) user_at_kern [OF k1(1)] by simp
    let ?q = "stored (stored r (?a + 24) (csr_sepc m + 4)) (?a + 112) (- 1)"
    have run: "user_exception_handler k (csr_scause m) m1 = (Inr Goes_On, with_ram m1 ?q)"
      using ecall_run [OF u1, of regs "csr_sepc m"] r(2,3) assms(6-9) by (simp add: k1)
    have m2: "kern_of (with_ram m1 ?q) = (kern_of m)\<lparr>ram := ?q\<rparr>" "plic_completed (with_ram m1 ?q) = plic_completed m"
      using k1 by (simp_all add: with_ram_def)
    have "mapped r ?a 4096" using r(1) by (simp add: user_at_def)
    then have "user_at (with_ram m1 ?q) p x tf" by (intro user_at_ram [OF u1]) simp
    moreover have "only_frame tf (with_ram m r) (with_ram m1 ?q)"
      unfolding only_frame_def by (simp add: m2) (simp add: with_ram_def stored_def frame_def)
    moreover have "load64 ?q (?a + (32 + 8 * i)) = Some ((regs(10 := - 1)) i)" if "i \<in> {1..<32}" for i
    proof (cases "i = 10")
      case False
      then have "?a + (32 + 8 * i) + 8 \<le> ?a + 112 \<or> ?a + 112 + 8 \<le> ?a + (32 + 8 * i)" by linarith
      then show ?thesis using r(2) that False by (simp add: load64_stored_other)
    qed (simp add: load64_stored)
    ultimately show ?thesis
      using run assms(5) by (intro exI [of _ "with_ram m1 ?q"] exI [of _ x])
        (simp add: m2 user_handler_def load64_stored load64_stored_other flip: m1_def)
  qed
  from user_round_frame [where Q = "\<lambda>l. l = plic_completed m", OF assms(1-4) this]
  show ?thesis by assumption
qed

section \<open>Programs that fault\<close>

definition ended_with :: "kern \<Rightarrow> nat \<Rightarrow> int \<Rightarrow> bool" where
  "ended_with s p code \<longleftrightarrow> (\<exists>y. procs s p = Some y \<and> p_exit_code y = code \<and> (p_state y = ZOMBIE \<or> p_state y = EXITED))"

definition still_ended :: "kern \<Rightarrow> kern \<Rightarrow> bool" where
  "still_ended s s' \<longleftrightarrow> (\<forall>p code. ended_with s p code \<longrightarrow> ended_with s' p code)"

interpretation ended: step_frame still_ended
  by unfold_locales (simp_all add: still_ended_def)

lemma ended_get: "always still_ended (get_proc p)"
  unfolding get_proc_def by (intro ended.always_rules)

lemma ended_mod:
  assumes "\<And>x. p_state x = ZOMBIE \<or> p_state x = EXITED \<Longrightarrow> p_exit_code (f x) = p_exit_code x \<and> p_state (f x) = p_state x"
  shows "always still_ended (mod_proc p f)"
proof (rule alwaysI)
  fix s r s' assume run: "mod_proc p f s = (r, s')"
  have "ended_with s' q code" if "ended_with s q code" for q code
    using that run assms [of "the (procs s p)"]
    by (cases "q = p") (auto simp: ended_with_def mod_proc_run split: if_splits)
  then show "still_ended s s'" by (simp add: still_ended_def)
qed

lemma ended_wake: "always still_ended (proc_wake_up p)"
proof (rule alwaysI)
  fix s r s' assume "proc_wake_up p s = (r, s')"
  then show "still_ended s s'"
    by (auto simp: proc_wake_up_def kbind_def get_proc_run mod_proc_run still_ended_def ended_with_def split: if_splits)
qed

lemma ended_wake_one: "always still_ended (wake_up_one p)"
  unfolding wake_up_one_def by (intro ended.always_rules ended_get ended_wake ended_mod) simp_all

lemma proc_exit_ends:
  assumes "proc_exit k p code s = (Inr (), s')"
  shows "ended_with s' p code"
proof -
  obtain s1 where "set_exit_code p code s1 = (Inr (), s')" using assms unfolding proc_exit_def by (elim kseq_InrE) auto
  then obtain y where y: "p \<noteq> 0" "procs s1 p = Some y"
    and run: "(if p_parent y \<noteq> 0 then kseq (set_state p ZOMBIE) (wake_up_one (p_parent y)) else set_state p EXITED)
      (s1\<lparr>procs := (procs s1)(p \<mapsto> y\<lparr>p_exit_code := code\<rparr>)\<rparr>) = (Inr (), s')"
    unfolding set_exit_code_def by (elim kseq_InrE kbind_InrE) (auto simp: mod_proc_run get_proc_run split: if_splits)
  show ?thesis
  proof (cases "p_parent y = 0")
    case True
    then show ?thesis using run y by (auto simp: set_state_def mod_proc_run ended_with_def)
  next
    case False
    let ?s2 = "s1\<lparr>procs := (procs s1)(p \<mapsto> y\<lparr>p_exit_code := code, p_state := ZOMBIE\<rparr>)\<rparr>"
    have "wake_up_one (p_parent y) ?s2 = (Inr (), s')" using run False y by (simp add: set_state_def mod_proc_run)
    then have "still_ended ?s2 s'" by (rule alwaysD [OF ended_wake_one])
    moreover have "ended_with ?s2 p code" by (simp add: ended_with_def)
    ultimately show ?thesis by (simp add: still_ended_def)
  qed
qed

lemma exit_current_run:
  assumes "proc_exit k p code (kern_of m) = (Inr (), s')" and "csr_sie m AND SIE_STIE = 0"
  shows "exit_current k p code m = (Inr Switched, m\<lparr>kern_of := s'\<rparr>)"
  using assms switch_back_run [of "m\<lparr>kern_of := s'\<rparr>"] by (simp add: exit_current_def on_kern_run)

lemma ended_run_end: "\<lbrakk>ended_with s p code; p \<noteq> 0\<rbrakk> \<Longrightarrow> user_run_end k p s = (Inr False, s)"
  by (auto simp: ended_with_def user_run_end_def get_proc_run)


section \<open>Traps from the kernel\<close>

text \<open>
  C28. An interrupt of kernel code restores the processor: whatever the core did while a timer interrupt had switched the process
  out, and whatever a device interrupt did, the handler returns with the program counter and the status register the interrupted code had, and with
  the trap vector of the kernel.
\<close>

theorem kernel_trap_transparent:
  assumes "\<not> bit (csr_sstatus m) 1" and "bit (csr_sstatus m) 8" and "csr_scause m AND push_bit 63 1 \<noteq> 0"
    and "csr_scause m AND 0xff = SupervisorTimer \<and> current_process (this_cpu (kern_of m)) \<noteq> 0
        \<and> procs (kern_of m) (current_process (this_cpu (kern_of m))) \<noteq> None \<and> elsewhere m = (Inr (), m1)
      \<or> csr_scause m AND 0xff = SupervisorExternal \<and> interrupt_handler m = (Inr (), m1)"
  shows "\<exists>m'. kernel_trap sy elsewhere m = (Inr (), m') \<and> csr_sepc m' = csr_sepc m \<and> csr_sstatus m' = csr_sstatus m
    \<and> csr_stvec m' = sym_kernel_vec sy AND NOT 3 \<and> kern_of m' = kern_of m1 \<and> disk_of m' = disk_of m1"
proof -
  have spp: "csr_sstatus m AND SSTATUS_SPP \<noteq> 0" and off: "local_irq_on m = (Inr False, m)"
    using assms(1,2) and_exp_eq_0_iff_not_bit [of "csr_sstatus m" 8] local_irq_on_run [of m] by (simp_all add: flag_defs)
  have "switch_back m = (Inr (), m)" using off by (simp add: switch_back_def csr_defs)
  then have "kernel_interrupt_handler elsewhere (csr_scause m) m = (Inr (), m1)"
    using assms(4) by (elim disjE)
      (simp_all add: kernel_interrupt_handler_def cause_defs get_user_process_def on_kern_def get_proc_run)
  then have "kernel_trap sy elsewhere m = (Inr (), m1\<lparr>csr_sepc := csr_sepc m, csr_sstatus := csr_sstatus m, csr_stvec := sym_kernel_vec sy AND NOT 3\<rparr>)"
    unfolding kernel_trap_def using off spp assms(3) by (simp add: csr_defs set_kernel_trap_def)
  then show ?thesis by simp
qed

text \<open>
  Software interrupts are enabled when a core starts, but neither handler knows them: one that arrives stops the kernel.
\<close>

lemma software_interrupt_panics:
  assumes "\<not> bit (csr_sstatus m) 1" and "bit (csr_sstatus m) 8" and "csr_scause m = push_bit 63 1 OR 1"
  shows "fst (kernel_trap sy elsewhere m) = Inl (Panic ''kernel interrupt'')"
proof -
  have "csr_sstatus m AND SSTATUS_SPP \<noteq> 0" "local_irq_on m = (Inr False, m)"
    using assms(1,2) and_exp_eq_0_iff_not_bit [of "csr_sstatus m" 8] local_irq_on_run [of m] by (simp_all add: flag_defs)
  then show ?thesis
    unfolding kernel_trap_def by (simp add: csr_defs assms(3) kernel_interrupt_handler_def cause_defs)
qed

lemma software_interrupts_enabled:
  "\<exists>m'. trap_init_hart sy m = (Inr (), m') \<and> bit (csr_sie m') 1 \<and> bit (csr_sie m') 9 \<and> \<not> bit (csr_sie m') 5"
  by (simp add: trap_init_hart_def enable_kernel_trap_def set_kernel_trap_def local_irq_enable_def csr_defs flag_defs bit_simps)

section \<open>A machine with one user process\<close>

definition demo_user :: proc where
  "demo_user = (new_proc User_Process 7)\<lparr>p_state := RUNNING, p_pagetable := 4096, p_trapframe_pa := 8192\<rparr>"

definition demo_kern :: kern where
  "demo_kern = \<lparr>ram = (\<lambda>_. Some 0), kernel_allocator = \<lparr>free_page_list = 0, free_page_count = 0, start_addr = 4096, end_addr = 65536\<rparr>,
    procs = [2 \<mapsto> demo_user], this_cpu = (new_cpu 0)\<lparr>current_process := 2\<rparr>, process_queue = [], next_pid = 8, task_queue = []\<rparr>"

definition demo_machine :: "u64 \<Rightarrow> u64 \<Rightarrow> machine" where
  "demo_machine status cause = \<lparr>csr_sstatus = status, csr_sie = 0x222, csr_stvec = 0, csr_sepc = 0x1000, csr_scause = cause, csr_stval = 0, csr_satp = 0,
    csr_time = 0, reg_tp = 0, timer_at = 0, plic_regs = (\<lambda>_. 0), plic_claims = [1], plic_completed = [],
    kern_of = demo_kern, disk_of = Some (vdisk_opened 16), temp_kstack = 0x80000000\<rparr>"

lemma load64_zeros: "load64 (\<lambda>_. Some 0) a = Some 0"
proof -
  have "map (\<lambda>i. 0 :: u8) [0..<8] = to_le 8 (0 :: u64)" by (intro nth_equalityI) (simp_all add: nth_to_le)
  then show ?thesis by (simp add: load64_def list_all_iff of_le_to_le)
qed

lemma demo_user_at: "user_at (demo_machine status cause) 2 demo_user 8192"
  by (simp add: user_at_def demo_machine_def demo_kern_def demo_user_def mapped_def new_proc_def)

lemma demo_words: "load64 (ram (kern_of (demo_machine status cause))) a = Some 0"
  by (simp add: demo_machine_def demo_kern_def load64_zeros)

lemma demo_disk_ready: "disk_ready (demo_machine status cause)"
  using vinv_opened [of 16] by (simp add: disk_ready_def demo_machine_def) (simp add: vdisk_opened_def)

lemma empty_entries:
  assumes "\<forall>i\<in>set is. i < 512 \<and> load64 (ram s) (unat pt + 8 * i) = Some 0" and "unat pt + 4096 \<le> 2 ^ 64"
  shows "foldr (\<lambda>i rest. kbind (mem_load64 (pt + 8 * of_nat i)) (\<lambda>pte.
    kseq (if pte AND PTE_V \<noteq> 0 \<and> pte AND (PTE_R OR PTE_W OR PTE_X) = 0 then f i pte
      else kassert (\<not> pte AND PTE_V \<noteq> 0) msg) rest)) is (kret ()) s = (Inr (), s)"
  using assms(1)
proof (induction "is")
  case (Cons i "is")
  have "unat (of_nat i :: u64) = i" using Cons.prems by (simp add: unat_of_nat)
  then have "unat (8 * of_nat i :: u64) = 8 * i" using Cons.prems by (simp add: unat_word_ariths)
  then have "unat (pt + 8 * of_nat i) = unat pt + 8 * i" using tf_add [OF assms(2), of "8 * of_nat i"] Cons.prems by simp
  then have "mem_load64 (pt + 8 * of_nat i) s = (Inr 0, s)" using Cons.prems by (simp add: mem_load64_run)
  then show ?case using Cons by simp
qed simp

lemma free_empty_table:
  assumes "\<forall>i<512. load64 (ram s) (unat pt + 8 * i) = Some 0" and "unat pt + 4096 \<le> 2 ^ 64" and "pt \<noteq> 0"
  shows "free_pagetable_pages (Suc n) pt s = free_page pt s"
  using empty_entries [of "[0..<512]" s pt, OF _ assms(2)] assms(1,3) by simp

lemma demo_exit: "\<exists>s'. proc_exit 1 2 code demo_kern = (Inr (), s')"
proof -
  define s1 where "s1 = demo_kern\<lparr>procs := [2 \<mapsto> (p_files_update (map (\<lambda>_. 0)) demo_user)\<lparr>p_cwd := 0, p_mmap_infos := []\<rparr>]\<rparr>"
  have s1: "procs s1 = [2 \<mapsto> (p_files_update (map (\<lambda>_. 0)) demo_user)\<lparr>p_cwd := 0, p_mmap_infos := []\<rparr>]" "ram s1 = (\<lambda>_. Some 0)"
    "kernel_allocator s1 = \<lparr>free_page_list = 0, free_page_count = 0, start_addr = 4096, end_addr = 65536\<rparr>"
    by (simp_all add: s1_def demo_kern_def)
  have e: "free_pagetable_pages 3 4096 s1 = free_page 4096 s1"
    unfolding numeral_3_eq_3 by (rule free_empty_table) (simp_all add: s1 load64_zeros)
  obtain s2 where s2: "free_page 4096 s1 = (Inr (), s2)" "mm.more s2 = mm.more s1"
    using rest_pages(2) [of 4096] mem_store64_run [of s1 4096 0]
    by (simp add: free_page_def s1 PGSIZE_def mapped_def always_def same_rest_def)
  have p2: "procs s2 = procs s1" by (rule kern_rest [OF s2(2)])
  have x: "p_kind demo_user = User_Process" "p_children demo_user = []" "p_mmap_infos demo_user = []" "p_pagetable demo_user = 4096" "p_parent demo_user = 0"
    by (simp_all add: demo_user_def new_proc_def)
  have f: "free_pagetable 2 (demo_kern\<lparr>procs := [2 \<mapsto> (p_files_update (map (\<lambda>_. 0)) demo_user)\<lparr>p_cwd := 0\<rparr>]\<rparr>)
      = (Inr (), s2\<lparr>procs := (procs s2)(2 \<mapsto> (p_files_update (map (\<lambda>_. 0)) demo_user)\<lparr>p_cwd := 0, p_mmap_infos := [], p_pagetable := 0\<rparr>)\<rparr>)"
    by (simp add: free_pagetable_def get_proc_run mod_proc_run x flip: s1_def) (simp add: e s2(1) mod_proc_run p2 s1)
  have "procs demo_kern = [2 \<mapsto> demo_user]" by (simp add: demo_kern_def)
  then have "clean_resources (do_kill 1) 2 demo_kern = (Inr (), s2\<lparr>procs := (procs s2)(2 \<mapsto>
      (p_files_update (map (\<lambda>_. 0)) demo_user)\<lparr>p_cwd := 0, p_mmap_infos := [], p_pagetable := 0\<rparr>)\<rparr>)"
    by (simp add: clean_resources_def get_proc_run mod_proc_run close_files_def x f)
  then show ?thesis by (simp add: proc_exit_def set_exit_code_def get_proc_run mod_proc_run set_state_def x)
qed

definition demo_symbols :: symbols where
  "demo_symbols = \<lparr>sym_kernel_vec = 0x80200000, sym_trampoline = 0x80201000, sym_user_vec = 0x80201000, sym_user_ret = 0x80201090, sym_user_trap = 0x80202000\<rparr>"

theorem device_interrupt_transparent_to_user_witness:
  "\<exists>m' regs'. user_round demo_symbols 1 (\<lambda>i. of_nat i) (demo_machine 0 0x8000000000000009) = (Inr (Some regs'), m')
    \<and> regs' 10 = 10 \<and> csr_sepc m' = 0x1000 \<and> plic_completed m' = [1]"
proof -
  let ?m = "demo_machine 0 0x8000000000000009"
  have c: "from_user ?m" "csr_scause ?m AND push_bit 63 1 \<noteq> 0" "csr_scause ?m AND 0xff = SupervisorExternal"
    "csr_sepc ?m = 0x1000" "plic_completed ?m = []" "plic_claims ?m = [1]"
    by (simp_all add: from_user_def demo_machine_def SupervisorExternal_def)
  from device_interrupt_transparent_to_user [OF demo_user_at c(1) demo_words demo_words c(2,3) demo_disk_ready, of demo_symbols 1 "\<lambda>i. of_nat i"]
  show ?thesis unfolding c(4-6) by fastforce
qed

theorem system_call_returns_to_user_witness:
  "\<exists>m' regs'. user_round demo_symbols 1 (\<lambda>i. of_nat i) (demo_machine 0 8) = (Inr (Some regs'), m') \<and> regs' 10 = - 1 \<and> regs' 31 = 31 \<and> csr_sepc m' = 0x1004"
proof -
  let ?m = "demo_machine 0 8"
  have c: "from_user ?m" "csr_scause ?m AND push_bit 63 1 = 0" "csr_scause ?m AND 0xff = UserEnvCall" "(of_nat 17 :: u64) \<noteq> SYS_exit"
    "length (p_files demo_user) = FD_MAX" "p_state demo_user \<noteq> KILLED" "csr_sepc ?m + 4 = 0x1004"
    by (simp_all add: from_user_def demo_machine_def UserEnvCall_def SYS_exit_def demo_user_def new_proc_def)
  from system_call_returns_to_user [OF demo_user_at c(1) demo_words demo_words c(2,3) _ c(5,6), of "\<lambda>i. of_nat i" demo_symbols 1] c(4)
  show ?thesis unfolding c(7) by fastforce
qed


theorem kernel_trap_transparent_witness:
  "\<exists>m'. kernel_trap demo_symbols (w_sepc 0) (demo_machine 0x100 0x8000000000000005) = (Inr (), m') \<and> csr_sepc m' = 0x1000 \<and> csr_sstatus m' = 0x100"
proof -
  let ?m = "demo_machine 0x100 0x8000000000000005"
  have c: "\<not> bit (csr_sstatus ?m) 1" "bit (csr_sstatus ?m) 8" "csr_scause ?m AND push_bit 63 1 \<noteq> 0" "csr_scause ?m AND 0xff = SupervisorTimer"
    "csr_sepc ?m = 0x1000" "csr_sstatus ?m = 0x100" "w_sepc 0 ?m = (Inr (), ?m\<lparr>csr_sepc := 0\<rparr>)"
    "current_process (this_cpu (kern_of ?m)) \<noteq> 0" "procs (kern_of ?m) (current_process (this_cpu (kern_of ?m))) \<noteq> None"
    by (simp_all add: demo_machine_def SupervisorTimer_def csr_defs demo_kern_def bit_numeral_rec)
  from kernel_trap_transparent [OF c(1-3), of "w_sepc 0" "?m\<lparr>csr_sepc := 0\<rparr>" demo_symbols] c(4-9)
  show ?thesis by auto
qed

end
