(* ===== verification/Open_File.thy ===== *)
theory Open_File
  imports Nfs_Write
begin

text \<open>
  Open files (\<open>src/os/fs/file.h\<close>): the position in a file, reading, writing and seeking, and the lock around them. A file
  holds an inode and calls its virtual methods, which are an argument here; they are instantiated by those of the inodes
  of nfs. Waiting for a mutex that nobody will release is \<open>Out_Of_Fuel\<close>.
\<close>

section \<open>Files\<close>

datatype whence_t = SET | CUR | END

text \<open>The methods of an inode that a file calls, over the state \<open>'s\<close> of the file system.\<close>

record 's inode_ops =
  io_load :: "('s, unit) kmonad"
  io_read :: "nat \<Rightarrow> nat \<Rightarrow> ('s, u8 list) kmonad"
  io_write :: "nat \<Rightarrow> u8 list \<Rightarrow> ('s, nat) kmonad"
  io_size :: "('s, u32) kmonad"

text \<open>A file object with the mutex of its inode.\<close>

record 's ofile =
  world :: 's
  in_use :: bool
  f_inode :: bool
  f_offset :: u64
  f_in_rw :: bool
  f_opened :: bool

definition on_world :: "('s, 'a) kmonad \<Rightarrow> ('s ofile, 'a) kmonad" where
  "on_world m = (\<lambda>f. case m (world f) of (r, w) \<Rightarrow> (r, f\<lparr>world := w\<rparr>))"

text \<open>What every operation of the base class returns, \<open>-EPERM\<close>.\<close>

definition file_default :: "('s ofile, int) kmonad" where
  "file_default = kret (- 1)"

text \<open>\<open>get\<close> and \<open>put\<close> of an inode.\<close>

definition inode_get :: "'s inode_ops \<Rightarrow> ('s ofile, unit) kmonad" where
  "inode_get I = kbind (kget in_use) (\<lambda>b.
    if b then kthrow Out_Of_Fuel else kseq (kmod (in_use_update (\<lambda>_. True))) (
      on_world (io_load I)))"

definition inode_put :: "('s ofile, unit) kmonad" where
  "inode_put = kmod (in_use_update (\<lambda>_. False))"

text \<open>The lock that every operation takes unless the caller has taken the public one.\<close>

definition rw_lock :: "'s inode_ops \<Rightarrow> ('s ofile, unit) kmonad" where
  "rw_lock I = kbind (kget f_in_rw) (\<lambda>b.
    if b then kret () else kbind (kget f_inode) (\<lambda>p.
      if p then inode_get I else kthrow Undefined))"

definition rw_unlock :: "('s ofile, unit) kmonad" where
  "rw_unlock = kbind (kget f_in_rw) (\<lambda>b.
    if b then kret () else kbind (kget f_inode) (\<lambda>p.
      if p then inode_put else kthrow Undefined))"

text \<open>The public lock; \<open>lock\<close> runs off the end of a coroutine that has no value to return, which is undefined.\<close>

definition lock_off :: "('s ofile, unit) kmonad" where
  "lock_off = kmod (f_in_rw_update (\<lambda>_. True))"

definition lock_on :: "('s ofile, unit) kmonad" where
  "lock_on = kmod (f_in_rw_update (\<lambda>_. False))"

definition file_lock :: "'s inode_ops \<Rightarrow> ('s ofile, unit) kmonad" where
  "file_lock I = kseq (rw_lock I) (
    kseq (kmod (f_in_rw_update (\<lambda>_. True))) (
    kthrow Undefined))"

definition file_unlock :: "('s ofile, unit) kmonad" where
  "file_unlock = kseq (kmod (f_in_rw_update (\<lambda>_. False))) (
    rw_unlock)"

section \<open>Operations\<close>

definition new_file :: "'s \<Rightarrow> 's ofile" where
  "new_file w = \<lparr>world = w, in_use = False, f_inode = True, f_offset = 0, f_in_rw = False, f_opened = False\<rparr>"

definition file_destroy :: "('s ofile, unit) kmonad" where
  "file_destroy = kbind (kget f_opened) (\<lambda>b.
    if b then kthrow (Panic ''simple_file is not closed'') else kret ())"

definition file_open :: "('s ofile, int) kmonad" where
  "file_open = kseq (kmod (\<lambda>f. f\<lparr>f_offset := 0, f_opened := True\<rparr>)) (
    kret 0)"

definition file_close :: "('s ofile, int) kmonad" where
  "file_close = kseq (kmod (\<lambda>f. f\<lparr>f_inode := False, f_opened := False\<rparr>)) (
    kret 0)"

text \<open>The bytes are those that the method stores into the buffer; its result is their number.\<close>

definition file_read :: "'s inode_ops \<Rightarrow> nat \<Rightarrow> ('s ofile, u8 list) kmonad" where
  "file_read I sz = kseq (rw_lock I) (
    kbind (kget f_inode) (\<lambda>p.
    if \<not> p then kthrow Undefined else kbind (kget f_offset) (\<lambda>off.
      kbind (on_world (io_read I (unat off) sz)) (\<lambda>bs.
      kseq rw_unlock (
      kseq (if length bs > 0 then kmod (f_offset_update (\<lambda>x. x + of_nat (length bs))) else kret ()) (
      kret bs))))))"

definition file_write :: "'s inode_ops \<Rightarrow> u8 list \<Rightarrow> ('s ofile, nat) kmonad" where
  "file_write I xs = kseq (rw_lock I) (
    kbind (kget f_inode) (\<lambda>p.
    if \<not> p then kthrow Undefined else kbind (kget f_offset) (\<lambda>off.
      kbind (on_world (io_write I (unat off) xs)) (\<lambda>n.
      kseq rw_unlock (
      kseq (if n > 0 then kmod (f_offset_update (\<lambda>x. x + of_nat n)) else kret ()) (
      kret n))))))"

definition file_llseek :: "'s inode_ops \<Rightarrow> int \<Rightarrow> whence_t \<Rightarrow> ('s ofile, u64) kmonad" where
  "file_llseek I off whence = kseq (case whence of
      SET \<Rightarrow> kmod (f_offset_update (\<lambda>_. word_of_int off))
    | CUR \<Rightarrow> kmod (f_offset_update (\<lambda>x. x + word_of_int off))
    | END \<Rightarrow> kbind (kget f_inode) (\<lambda>p.
      if \<not> p then kthrow Undefined else kbind (on_world (io_size I)) (\<lambda>sz.
        kmod (f_offset_update (\<lambda>_. word_of_int (uint sz + off)))))) (
    kget f_offset)"

definition file_tell :: "('s ofile, u64) kmonad" where
  "file_tell = kget f_offset"

section \<open>What a file promises\<close>

text \<open>A file is an array of bytes with a size and a position.\<close>

record afile =
  a_bytes :: "nat \<Rightarrow> u8"
  a_size :: nat
  a_off :: nat

datatype file_op = Op_Read nat | Op_Write "u8 list" | Op_Seek int whence_t | Op_Tell

datatype file_result = Got "u8 list" | Wrote nat | Position nat

fun seek_to :: "afile \<Rightarrow> int \<Rightarrow> whence_t \<Rightarrow> int" where
  "seek_to a off SET = off"
| "seek_to a off CUR = int (a_off a) + off"
| "seek_to a off END = int (a_size a) + off"

fun a_step :: "file_op \<Rightarrow> afile \<Rightarrow> file_result \<times> afile" where
  "a_step (Op_Read n) a = (Got (map (a_bytes a) [a_off a..<a_off a + n]), a\<lparr>a_off := a_off a + n\<rparr>)"
| "a_step (Op_Write xs) a = (Wrote (length xs), a\<lparr>a_bytes := upd_bytes (a_bytes a) (a_off a) xs, a_size := max (a_size a) (a_off a + length xs),
    a_off := a_off a + length xs\<rparr>)"
| "a_step (Op_Seek off whence) a = (Position (nat (seek_to a off whence)), a\<lparr>a_off := nat (seek_to a off whence)\<rparr>)"
| "a_step Op_Tell a = (Position (a_off a), a)"

fun a_fits :: "nat \<Rightarrow> file_op \<Rightarrow> afile \<Rightarrow> bool" where
  "a_fits limit (Op_Read n) a \<longleftrightarrow> a_off a + n \<le> limit"
| "a_fits limit (Op_Write xs) a \<longleftrightarrow> a_off a + length xs \<le> limit"
| "a_fits limit (Op_Seek off whence) a \<longleftrightarrow> 0 \<le> seek_to a off whence \<and> seek_to a off whence \<le> int limit"
| "a_fits limit Op_Tell a \<longleftrightarrow> True"

primrec a_run :: "file_op list \<Rightarrow> afile \<Rightarrow> file_result list \<times> afile" where
  "a_run [] a = ([], a)"
| "a_run (op # ops) a = (let (r, a1) = a_step op a; (rs, a2) = a_run ops a1 in (r # rs, a2))"

primrec a_fits_all :: "nat \<Rightarrow> file_op list \<Rightarrow> afile \<Rightarrow> bool" where
  "a_fits_all limit [] a \<longleftrightarrow> True"
| "a_fits_all limit (op # ops) a \<longleftrightarrow> a_fits limit op a \<and> a_fits_all limit ops (snd (a_step op a))"

text \<open>The same operations on a file object.\<close>

fun file_step :: "'s inode_ops \<Rightarrow> file_op \<Rightarrow> ('s ofile, file_result) kmonad" where
  "file_step I (Op_Read n) = kbind (file_read I n) (\<lambda>bs. kret (Got bs))"
| "file_step I (Op_Write xs) = kbind (file_write I xs) (\<lambda>n. kret (Wrote n))"
| "file_step I (Op_Seek off whence) = kbind (file_llseek I off whence) (\<lambda>x. kret (Position (unat x)))"
| "file_step I Op_Tell = kbind file_tell (\<lambda>x. kret (Position (unat x)))"

primrec file_run :: "'s inode_ops \<Rightarrow> file_op list \<Rightarrow> ('s ofile, file_result list) kmonad" where
  "file_run I [] = kret []"
| "file_run I (op # ops) = kbind (file_step I op) (\<lambda>r. kbind (file_run I ops) (\<lambda>rs. kret (r # rs)))"

section \<open>Files over inodes that store bytes\<close>

text \<open>
  What a file needs of its inode: below \<open>limit\<close> the inode is an array of bytes that reads return and writes change; a
  write may fail for lack of space.
\<close>

locale byte_inode =
  fixes I :: "'s inode_ops" and rep :: "'s \<Rightarrow> (nat \<Rightarrow> u8) \<Rightarrow> nat \<Rightarrow> bool" and limit :: nat
  assumes limit_small: "limit < 2 ^ 32"
    and load_ok: "rep w b n \<Longrightarrow> io_load I w = (Inr (), w)"
    and read_ok: "\<lbrakk>rep w b n; off + sz \<le> limit\<rbrakk> \<Longrightarrow> \<exists>w'. io_read I off sz w = (Inr (map b [off..<off + sz]), w') \<and> rep w' b n"
    and write_ok: "\<lbrakk>rep w b n; off + length xs \<le> limit\<rbrakk> \<Longrightarrow> (\<exists>w'. io_write I off xs w = (Inl Task_Fail, w') \<and> xs \<noteq> [])
      \<or> (\<exists>w'. io_write I off xs w = (Inr (length xs), w') \<and> rep w' (upd_bytes b off xs) (max n (off + length xs)))"
    and size_ok: "rep w b n \<Longrightarrow> \<exists>sz. io_size I w = (Inr sz, w) \<and> unat sz = n"
begin

definition is_file :: "'s ofile \<Rightarrow> afile \<Rightarrow> bool" where
  "is_file f a \<longleftrightarrow> rep (world f) (a_bytes a) (a_size a) \<and> f_inode f \<and> \<not> in_use f \<and> \<not> f_in_rw f \<and> unat (f_offset f) = a_off a \<and> a_off a \<le> limit"

lemma on_world_run: "m (world f) = (r, w) \<Longrightarrow> on_world m f = (r, f\<lparr>world := w\<rparr>)"
  by (simp add: on_world_def)

lemma locked: "is_file f a \<Longrightarrow> rw_lock I f = (Inr (), f\<lparr>in_use := True\<rparr>)"
  using load_ok [of "world f" "a_bytes a" "a_size a"] by (cases f) (simp add: rw_lock_def inode_get_def is_file_def on_world_def)

lemma unlocked: "\<lbrakk>f_inode f; \<not> f_in_rw f\<rbrakk> \<Longrightarrow> rw_unlock f = (Inr (), f\<lparr>in_use := False\<rparr>)"
  by (simp add: rw_unlock_def inode_put_def)

lemma advanced:
  "(if n > 0 then kmod (f_offset_update (\<lambda>x. x + of_nat n)) else kret ()) f = (Inr (), f\<lparr>f_offset := f_offset f + of_nat n\<rparr>)"
  by (cases f) simp

lemma moved_offset:
  assumes "unat (x :: u64) = a" and "a + n \<le> limit"
  shows "unat (x + of_nat n) = a + n"
proof -
  have "unat (of_nat n :: u64) = n" using assms(2) limit_small by (intro unat_of_nat_lt) simp
  then show ?thesis using assms limit_small by (subst unat_add_lem [THEN iffD1]) simp_all
qed

lemma read_refines:
  assumes "is_file f a" and "a_off a + n \<le> limit"
  shows "\<exists>f'. file_read I n f = (Inr (map (a_bytes a) [a_off a..<a_off a + n]), f') \<and> is_file f' (a\<lparr>a_off := a_off a + n\<rparr>)"
proof -
  have w: "rep (world f) (a_bytes a) (a_size a)" "unat (f_offset f) = a_off a" "f_inode f" "\<not> f_in_rw f" "\<not> in_use f" using assms(1) by (simp_all add: is_file_def)
  obtain w' where w': "io_read I (a_off a) n (world f) = (Inr (map (a_bytes a) [a_off a..<a_off a + n]), w')" "rep w' (a_bytes a) (a_size a)"
    using read_ok [OF w(1) assms(2)] by blast
  let ?f = "f\<lparr>in_use := False, world := w', f_offset := f_offset f + of_nat n\<rparr>"
  have "file_read I n f = (Inr (map (a_bytes a) [a_off a..<a_off a + n]), ?f)"
    using w w'(1) advanced [of n]
    by (simp add: file_read_def locked [OF assms(1)] on_world_def unlocked del: if_split)
  moreover have "is_file ?f (a\<lparr>a_off := a_off a + n\<rparr>)"
    using w w'(2) assms(2) moved_offset [OF w(2) assms(2)] by (simp add: is_file_def)
  ultimately show ?thesis by blast
qed

lemma write_refines:
  assumes "is_file f a" and "a_off a + length xs \<le> limit"
  shows "(\<exists>f'. file_write I xs f = (Inl Task_Fail, f') \<and> xs \<noteq> [] \<and> in_use f')
    \<or> (\<exists>f'. file_write I xs f = (Inr (length xs), f') \<and> is_file f' (snd (a_step (Op_Write xs) a)))"
proof -
  have w: "rep (world f) (a_bytes a) (a_size a)" "unat (f_offset f) = a_off a" "f_inode f" "\<not> f_in_rw f" "\<not> in_use f" using assms(1) by (simp_all add: is_file_def)
  from write_ok [OF w(1) assms(2)] show ?thesis
  proof (elim disjE exE conjE)
    fix w' assume "io_write I (a_off a) xs (world f) = (Inl Task_Fail, w')" "xs \<noteq> []"
    then show ?thesis using w by (simp add: file_write_def locked [OF assms(1)] on_world_def)
  next
    fix w' assume w': "io_write I (a_off a) xs (world f) = (Inr (length xs), w')"
      "rep w' (upd_bytes (a_bytes a) (a_off a) xs) (max (a_size a) (a_off a + length xs))"
    let ?f = "f\<lparr>in_use := False, world := w', f_offset := f_offset f + of_nat (length xs)\<rparr>"
    have "file_write I xs f = (Inr (length xs), ?f)"
      using w w'(1) advanced [of "length xs"]
      by (simp add: file_write_def locked [OF assms(1)] on_world_def unlocked del: if_split)
    moreover have "is_file ?f (snd (a_step (Op_Write xs) a))"
      using w w'(2) assms(2) moved_offset [OF w(2) assms(2)] by (simp add: is_file_def)
    ultimately show ?thesis by blast
  qed
qed

lemma word_of_int_nat: "\<lbrakk>0 \<le> k; k \<le> int limit\<rbrakk> \<Longrightarrow> unat (word_of_int k :: u64) = nat k"
  using limit_small by (simp add: unat_eq_nat_uint uint_word_of_int_eq take_bit_int_eq_self)

lemma seek_refines:
  assumes "is_file f a" and "0 \<le> seek_to a off whence" and "seek_to a off whence \<le> int limit"
  shows "\<exists>f'. file_llseek I off whence f = (Inr (f_offset f'), f') \<and> unat (f_offset f') = nat (seek_to a off whence)
    \<and> is_file f' (a\<lparr>a_off := nat (seek_to a off whence)\<rparr>)"
proof -
  have w: "rep (world f) (a_bytes a) (a_size a)" "unat (f_offset f) = a_off a" "f_inode f" "\<not> f_in_rw f" "\<not> in_use f" using assms(1) by (simp_all add: is_file_def)
  obtain sz where sz: "io_size I (world f) = (Inr sz, world f)" "unat sz = a_size a" using size_ok [OF w(1)] by blast
  have u: "uint (f_offset f) = int (a_off a)" "uint sz = int (a_size a)" using w(2) sz(2) by (simp_all add: uint_nat)
  have fin: "word_of_int (uint sz + off) = (word_of_int (int (a_size a) + off) :: u64)" by (simp only: u(2))
  have cur: "f_offset f + word_of_int off = word_of_int (int (a_off a) + off)" by (metis u(1) word_of_int_uint wi_hom_add)
  let ?f = "f\<lparr>f_offset := word_of_int (seek_to a off whence)\<rparr>"
  have "file_llseek I off whence f = (Inr (f_offset ?f), ?f)"
    by (cases whence; cases f) (use w(3) sz(1) cur fin in \<open>simp_all add: file_llseek_def on_world_def del: of_int_add\<close>)
  moreover have "unat (f_offset ?f) = nat (seek_to a off whence)" using word_of_int_nat [OF assms(2,3)] by simp
  ultimately show ?thesis using w assms(2,3) by (intro exI [of _ ?f]) (simp add: is_file_def)
qed

lemma step_refines:
  assumes "is_file f a" and "a_fits limit op a"
  shows "(\<exists>f' xs. file_step I op f = (Inl Task_Fail, f') \<and> op = Op_Write xs \<and> xs \<noteq> [])
    \<or> (\<exists>f'. file_step I op f = (Inr (fst (a_step op a)), f') \<and> is_file f' (snd (a_step op a)))"
proof (cases op)
  case (Op_Read n)
  then show ?thesis using read_refines [OF assms(1), of n] assms(2) by auto
next
  case (Op_Write xs)
  then show ?thesis using write_refines [OF assms(1), of xs] assms(2) by auto
next
  case (Op_Seek off whence)
  then show ?thesis using seek_refines [OF assms(1), of off whence] assms(2) by auto
next
  case Op_Tell
  then show ?thesis using assms(1) by (simp add: file_tell_def is_file_def)
qed

lemma run_refines:
  assumes "is_file f a" and "a_fits_all limit ops a"
  shows "(\<exists>f' xs. file_run I ops f = (Inl Task_Fail, f') \<and> Op_Write xs \<in> set ops \<and> xs \<noteq> [])
    \<or> (\<exists>f'. file_run I ops f = (Inr (fst (a_run ops a)), f') \<and> is_file f' (snd (a_run ops a)))"
  using assms
proof (induction ops arbitrary: f a)
  case (Cons op ops)
  have "a_fits limit op a" using Cons.prems(2) by simp
  from step_refines [OF Cons.prems(1) this] show ?case
  proof (elim disjE exE conjE)
    fix f' assume "file_step I op f = (Inr (fst (a_step op a)), f')" "is_file f' (snd (a_step op a))"
    then show ?thesis using Cons.IH [of f' "snd (a_step op a)"] Cons.prems(2) by (auto split: prod.splits)
  qed auto
qed simp

end

section \<open>Files of nfs\<close>

definition nfs_get_metadata :: "u32 \<Rightarrow> u32 nm" where
  "nfs_get_metadata ino = kbind (ino_get ino) (\<lambda>i.
    kret (i_size i))"

definition nfs_inode_ops :: "u32 \<Rightarrow> nfs inode_ops" where
  "nfs_inode_ops ino = \<lparr>io_load = inode_load ino, io_read = inode_read ino, io_write = inode_write ino, io_size = nfs_get_metadata ino\<rparr>"

definition nfs_holds :: "u32 \<Rightarrow> nfs \<Rightarrow> (nat \<Rightarrow> u8) \<Rightarrow> nat \<Rightarrow> bool" where
  "nfs_holds ino s b n \<longleftrightarrow> (\<exists>i. inodes s ino = Some i \<and> i_valid i \<and> wr_ok s i \<and> cache_ok s i \<and> fbyte s i = b \<and> unat (i_size i) = n)"

lemma nfs_holds_read:
  assumes "nfs_holds ino s b n" and "off + sz \<le> DIRECT_DATA_SIZE"
  shows "\<exists>t. inode_read ino off sz s = (Inr (map b [off..<off + sz]), t) \<and> nfs_holds ino t b n"
proof -
  obtain i where i: "inodes s ino = Some i" "i_valid i" "wr_ok s i" "cache_ok s i" "fbyte s i = b" "unat (i_size i) = n"
    using assms(1) by (auto simp: nfs_holds_def)
  have "covered s i off sz" "off + sz < 2 ^ 32" using assms(2) by (simp_all add: covered_def)
  with inode_read_run [OF i(1,2) _ i(4)] wr_ok_D(2) [OF i(3)] obtain t i' where
    t: "inode_read ino off sz s = (Inr (map (fbyte s i) [off..<off + sz]), t)" "read_result s ino i t i'" by blast
  note res = t(2) [unfolded read_result_def same_view_def]
  have e: "i' = i\<lparr>cache_raw_indirect_offset := cache_raw_indirect_offset i', cache_offset := cache_offset i', cache_addr_block := cache_addr_block i'\<rparr>"
    using res by blast
  have "i_addrs i' = i_addrs i \<and> i_next i' = i_next i \<and> i_size i' = i_size i \<and> i_valid i' = i_valid i"
    using arg_cong [OF e, of i_addrs] arg_cong [OF e, of i_next] arg_cong [OF e, of i_size] arg_cong [OF e, of i_valid] by simp
  moreover have "view t = view s" using res by (intro ext) (simp add: buf_simps)
  moreover have "sb t = sb s" "inodes t = (inodes s)(ino \<mapsto> i')" "cache_ok t i'" using res by (blast, simp, blast)
  ultimately have r: "view t = view s" "sb t = sb s" "inodes t ino = Some i'" "i_addrs i' = i_addrs i" "i_next i' = i_next i" "i_size i' = i_size i"
      "i_valid i' = i_valid i" "cache_ok t i'"
    by simp_all
  have "wr_ok t i'" using wr_ok_cong [OF r(1,2,4,5)] i(3) by simp
  moreover have "fbyte t i' = fbyte s i" using spec_cong(1,3) [OF r(1)] by (simp add: fun_eq_iff fbyte_def r)
  ultimately show ?thesis using t(1) i r by (auto simp: nfs_holds_def)
qed

lemma nfs_holds_write:
  assumes "nfs_holds ino s b n" and "off + length xs \<le> DIRECT_DATA_SIZE"
  shows "(\<exists>t. inode_write ino off xs s = (Inl Task_Fail, t) \<and> xs \<noteq> [])
    \<or> (\<exists>t. inode_write ino off xs s = (Inr (length xs), t) \<and> nfs_holds ino t (upd_bytes b off xs) (max n (off + length xs)))"
proof -
  obtain i where i: "inodes s ino = Some i" "i_valid i" "wr_ok s i" "cache_ok s i" "fbyte s i = b" "unat (i_size i) = n"
    using assms(1) by (auto simp: nfs_holds_def)
  from inode_write_run [OF i(1-3) assms(2)] show ?thesis
  proof (elim disjE exE conjE)
    fix t assume "inode_write ino off xs s = (Inl Task_Fail, t)" "needs_block i off (length xs)"
    then show ?thesis by (auto simp: needs_block_def)
  next
    fix t i' assume "inode_write ino off xs s = (Inr (length xs), t)" "inodes t ino = Some i'" "wr_ok t i'" "fbyte t i' = upd_bytes (fbyte s i) off xs"
      "unat (i_size i') = max (unat (i_size i)) (off + length xs)" "i_valid i'" "cache_ok t i' = cache_ok s i"
    then show ?thesis using i by (auto simp: nfs_holds_def)
  qed
qed

interpretation nfs_file: byte_inode "nfs_inode_ops ino" "nfs_holds ino" DIRECT_DATA_SIZE for ino
proof
  fix w :: nfs and b n
  assume h: "nfs_holds ino w b n"
  then obtain i where i: "inodes w ino = Some i" "i_valid i" "unat (i_size i) = n" by (auto simp: nfs_holds_def)
  show "io_load (nfs_inode_ops ino) w = (Inr (), w)" using inode_load_valid [OF i(1,2)] by (simp add: nfs_inode_ops_def)
  show "\<exists>sz. io_size (nfs_inode_ops ino) w = (Inr sz, w) \<and> unat sz = n" using i by (simp add: nfs_inode_ops_def nfs_get_metadata_def ino_get_def)
qed (use nfs_holds_read nfs_holds_write in \<open>simp_all add: nfs_inode_ops_def\<close>)

text \<open>The file object is unlocked, and with its inode it holds the bytes, the size and the position of \<open>a\<close>.\<close>

definition file_holds :: "u32 \<Rightarrow> nfs ofile \<Rightarrow> afile \<Rightarrow> bool" where
  "file_holds ino f a \<longleftrightarrow> nfs_holds ino (world f) (a_bytes a) (a_size a) \<and> f_inode f \<and> \<not> in_use f \<and> \<not> f_in_rw f
    \<and> unat (f_offset f) = a_off a \<and> a_off a \<le> DIRECT_DATA_SIZE"

lemma file_holds_is_file: "file_holds ino f a = nfs_file.is_file ino f a"
  by (simp add: file_holds_def nfs_file.is_file_def)

text \<open>
  C3. An open file of nfs is an array of bytes with a size and a position: any sequence of reads, writes, seeks and \<open>tell\<close>s on
  a file whose positions stay in the direct blocks returns what the same sequence returns on the array, and leaves the file holding
  what the array then is; only a write can fail, for lack of space.
\<close>

theorem open_file_refines:
  assumes "file_holds ino f a" and "a_fits_all DIRECT_DATA_SIZE ops a"
  shows "(\<exists>f' xs. file_run (nfs_inode_ops ino) ops f = (Inl Task_Fail, f') \<and> Op_Write xs \<in> set ops \<and> xs \<noteq> [])
    \<or> (\<exists>f'. file_run (nfs_inode_ops ino) ops f = (Inr (fst (a_run ops a)), f') \<and> file_holds ino f' (snd (a_run ops a)))"
  using assms nfs_file.run_refines unfolding file_holds_is_file by blast

definition demo_open :: "nfs ofile" where
  "demo_open = (new_file demo_fs)\<lparr>f_opened := True\<rparr>"

definition demo_afile :: afile where
  "demo_afile = \<lparr>a_bytes = fbyte demo_fs demo_inode, a_size = 100, a_off = 0\<rparr>"

lemma demo_holds: "file_holds 5 demo_open demo_afile"
  using demo_file_ok demo_wr_ok by (auto simp: file_holds_def demo_open_def new_file_def demo_afile_def nfs_holds_def) (simp_all add: demo_inode_def)

text \<open>A program that writes three bytes behind the end of the file, goes back over two of them and reads: it gets them.\<close>

theorem open_file_refines_witness:
  "(\<exists>f'. file_run (nfs_inode_ops 5) [Op_Seek 0 END, Op_Write [7, 8, 9], Op_Seek (- 2) CUR, Op_Read 2, Op_Tell] demo_open = (Inl Task_Fail, f'))
    \<or> (\<exists>f'. file_run (nfs_inode_ops 5) [Op_Seek 0 END, Op_Write [7, 8, 9], Op_Seek (- 2) CUR, Op_Read 2, Op_Tell] demo_open
      = (Inr [Position 100, Wrote 3, Position 101, Got [8, 9], Position 103], f'))"
proof -
  let ?ops = "[Op_Seek 0 END, Op_Write [7, 8, 9], Op_Seek (- 2) CUR, Op_Read 2, Op_Tell]"
  have f: "a_fits_all DIRECT_DATA_SIZE ?ops demo_afile" by (simp add: demo_afile_def)
  have r: "fst (a_run ?ops demo_afile) = [Position 100, Wrote 3, Position 101, Got [8, 9], Position 103]"
    by (simp add: demo_afile_def upd_bytes_def upt_rec)
  show ?thesis using open_file_refines [OF demo_holds f] unfolding r by blast
qed

section \<open>A failed write\<close>

text \<open>
  C30. A write that fails leaves the inode locked: the failure skips the release of the mutex, so that every later read or
  write of the file waits for ever.
\<close>

theorem failed_write_blocks_file:
  assumes "file_write I xs f = (Inl Task_Fail, f')" and "f_inode f" and "\<not> f_in_rw f" and "\<not> in_use f" and "io_load I (world f) = (Inr (), world f)"
  shows "fst (file_read I n f') = Inl Out_Of_Fuel \<and> fst (file_write I ys f') = Inl Out_Of_Fuel"
proof -
  obtain r w where w: "io_write I (unat (f_offset f)) xs (world f) = (r, w)" by (cases "io_write I (unat (f_offset f)) xs (world f)")
  have lock: "rw_lock I f = (Inr (), f\<lparr>in_use := True\<rparr>)"
    using assms(2-5) by (cases f) (simp add: rw_lock_def inode_get_def on_world_def)
  have "f' = f\<lparr>in_use := True, world := w\<rparr>"
  proof (cases r)
    case (Inl e)
    then show ?thesis using assms(1,2) w lock by (simp add: file_write_def on_world_def)
  next
    case (Inr m)
    then show ?thesis using assms(1-3) w lock
      by (simp add: file_write_def on_world_def rw_unlock_def inode_put_def split: if_splits)
  qed
  then have f': "f_inode f'" "\<not> f_in_rw f'" "in_use f'" using assms(2,3) by simp_all
  then have "rw_lock I f' = (Inl Out_Of_Fuel, f')" by (simp add: rw_lock_def inode_get_def)
  then show ?thesis by (simp add: file_read_def file_write_def)
qed

text \<open>A disk that answers no request.\<close>

definition broken_open :: "nfs ofile" where
  "broken_open = (new_file (demo_fs\<lparr>disk := Map.empty, bufs := Map.empty\<rparr>))\<lparr>f_opened := True\<rparr>"

lemma broken_write: "fst (file_write (nfs_inode_ops 5) [1] broken_open) = Inl Task_Fail"
  by code_simp

theorem failed_write_blocks_file_witness:
  "\<exists>f'. file_write (nfs_inode_ops 5) [1] broken_open = (Inl Task_Fail, f') \<and> fst (file_read (nfs_inode_ops 5) 4 f') = Inl Out_Of_Fuel"
proof -
  obtain f' where f': "file_write (nfs_inode_ops 5) [1] broken_open = (Inl Task_Fail, f')" using broken_write by (metis prod.collapse)
  have "io_load (nfs_inode_ops 5) (world broken_open) = (Inr (), world broken_open)"
    using inode_load_valid [of "world broken_open" 5 demo_inode]
    by (simp add: nfs_inode_ops_def broken_open_def new_file_def demo_fs_def) (simp add: demo_inode_def)
  moreover have "f_inode broken_open" "\<not> f_in_rw broken_open" "\<not> in_use broken_open" by (simp_all add: broken_open_def new_file_def)
  ultimately have "fst (file_read (nfs_inode_ops 5) 4 f') = Inl Out_Of_Fuel" using failed_write_blocks_file [OF f'] by blast
  then show ?thesis using f' by blast
qed

end
