(* ===== verification/Format.thy ===== *)
theory Format
  imports Mem_Utils Open_File Hart
begin

text \<open>
  Formatted output: \<open>src/os/utils/printf.cc\<close> for the console, \<open>src/os/utils/fprint.cc\<close> and \<open>src/os/utils/fprintf.h\<close> for files, the console
  file of \<open>src/os/drivers/console.h\<close>, and the loggers of \<open>src/os/utils/log.h\<close>. A string is the list of the bytes from a pointer to the end of its
  object. An argument of \<open>printf\<close> is a 64-bit slot, of which \<open>%d\<close> and \<open>%x\<close> take the low half, or a pointer to a string.
\<close>

section \<open>The console\<close>

record con = hart +
  con_out :: "u8 list"
  con_in :: "int list"

type_synonym 'a cm = "(con, 'a) kmonad"

definition ascii :: "string \<Rightarrow> u8 list" where
  "ascii = map of_char"

definition sbi_console_putchar :: "u8 \<Rightarrow> unit cm" where
  "sbi_console_putchar c = kmod (con_out_update (\<lambda>t. t @ [c]))"

text \<open>The firmware answers -1 when no character is there.\<close>

definition sbi_console_getchar :: "int cm" where
  "sbi_console_getchar = kbind (kget con_in) (\<lambda>q.
    case q of [] \<Rightarrow> kret (- 1) | c # cs \<Rightarrow> kseq (kmod (con_in_update (\<lambda>_. cs))) (
      kret c))"

primrec putchars :: "u8 list \<Rightarrow> unit cm" where
  "putchars [] = kret ()"
| "putchars (c # cs) = kseq (sbi_console_putchar c) (
  putchars cs)"

section \<open>Numbers\<close>

definition digits :: "u8 list" where
  "digits = ascii ''0123456789abcdef''"

text \<open>The loop that stores the digits of a number, lowest first, from index \<open>i\<close> on; \<open>None\<close> outside the buffer.\<close>

function fill_digits :: "u8 list \<Rightarrow> nat \<Rightarrow> 'a::len word \<Rightarrow> 'a word \<Rightarrow> (u8 list \<times> nat) option" where
  "fill_digits buf i x base = (if base = 0 then None else
    case arr_get digits (unat (x mod base)) of None \<Rightarrow> None | Some c \<Rightarrow>
    case arr_set buf i c of None \<Rightarrow> None | Some buf' \<Rightarrow>
      if x div base \<noteq> 0 then fill_digits buf' (Suc i) (x div base) base else Some (buf', Suc i))"
  by pat_completeness auto

termination
  by (relation "measure (\<lambda>(buf, i, x, base). length buf - i)") (auto simp: arr_set_eq_Some_iff)

primrec put_back :: "u8 list \<Rightarrow> nat \<Rightarrow> unit cm" where
  "put_back buf 0 = kret ()"
| "put_back buf (Suc i) = kbind (kopt (arr_get buf i)) (\<lambda>c.
  kseq (sbi_console_putchar c) (
  put_back buf i))"

text \<open>Negating the least number of a signed type is undefined.\<close>

definition magnitude :: "'a::len word \<Rightarrow> bool \<Rightarrow> 'a word option" where
  "magnitude xx neg = (if neg then if sint xx = - (2 ^ (LENGTH('a) - 1)) then None else Some (- xx) else Some xx)"

definition print_number :: "nat \<Rightarrow> 'a::len word \<Rightarrow> 'a word \<Rightarrow> bool \<Rightarrow> unit cm" where
  "print_number room xx base sign = (
    let neg = sign \<and> sint xx < 0 in kbind (kopt (magnitude xx neg)) (\<lambda>x.
      kbind (kopt (fill_digits (replicate room 0) 0 x base)) (\<lambda>(buf, i).
      if neg then kbind (kopt (arr_set buf i (of_char (CHR ''-'')))) (\<lambda>buf'.
        put_back buf' (Suc i))
      else put_back buf i)))"

definition printint :: "32 word \<Rightarrow> 32 word \<Rightarrow> bool \<Rightarrow> unit cm" where
  "printint = print_number 16"

definition printint64 :: "64 word \<Rightarrow> 64 word \<Rightarrow> bool \<Rightarrow> unit cm" where
  "printint64 = print_number 32"

text \<open>The digits of a pointer, highest first; the argument is the number of digits left.\<close>

primrec hex_loop :: "nat \<Rightarrow> u64 \<Rightarrow> u8 list option" where
  "hex_loop 0 x = Some []"
| "hex_loop (Suc n) x = (case arr_get digits (unat (drop_bit 60 x)) of None \<Rightarrow> None
    | Some c \<Rightarrow> map_option ((#) c) (hex_loop n (push_bit 4 x)))"

definition printptr :: "u64 \<Rightarrow> unit cm" where
  "printptr x = kseq (sbi_console_putchar (of_char (CHR ''0''))) (
    kseq (sbi_console_putchar (of_char (CHR ''x''))) (
    kbind (kopt (hex_loop 16 x)) (\<lambda>cs.
    putchars cs)))"

section \<open>printf\<close>

datatype varg = Slot u64 | Str "u8 list option"

definition null_text :: "u8 list" where
  "null_text = ascii ''(null)'' @ [0]"

definition put_string :: "u8 list option \<Rightarrow> unit cm" where
  "put_string p = (let s = (case p of None \<Rightarrow> null_text | Some s \<Rightarrow> s) in
    if terminated s then putchars (cstr s) else kseq (putchars s) (
      kthrow Undefined))"

text \<open>The next argument; there is no check that there is one, or of its type.\<close>

definition va_slot :: "varg list \<Rightarrow> (u64 \<times> varg list) cm" where
  "va_slot ap = (case ap of Slot v # rest \<Rightarrow> kret (v, rest) | _ \<Rightarrow> kthrow Undefined)"

definition va_str :: "varg list \<Rightarrow> (u8 list option \<times> varg list) cm" where
  "va_str ap = (case ap of Str p # rest \<Rightarrow> kret (p, rest) | _ \<Rightarrow> kthrow Undefined)"

definition convert :: "u8 \<Rightarrow> varg list \<Rightarrow> varg list cm" where
  "convert c ap = (
    if c = of_char (CHR ''d'') then kbind (va_slot ap) (\<lambda>(v, rest).
      kseq (printint (ucast v) 10 True) (
      kret rest))
    else if c = of_char (CHR ''l'') then kbind (va_slot ap) (\<lambda>(v, rest).
      kseq (printint64 v 10 True) (
      kret rest))
    else if c = of_char (CHR ''x'') then kbind (va_slot ap) (\<lambda>(v, rest).
      kseq (printint (ucast v) 16 True) (
      kret rest))
    else if c = of_char (CHR ''p'') then kbind (va_slot ap) (\<lambda>(v, rest).
      kseq (printptr v) (
      kret rest))
    else if c = of_char (CHR ''s'') then kbind (va_str ap) (\<lambda>(p, rest).
      kseq (put_string p) (
      kret rest))
    else if c = of_char (CHR ''%'') then kseq (sbi_console_putchar c) (
      kret ap)
    else kseq (sbi_console_putchar (of_char (CHR ''%''))) (
      kseq (sbi_console_putchar c) (
      kret ap)))"

fun vprintf :: "u8 list \<Rightarrow> varg list \<Rightarrow> unit cm" where
  "vprintf [] ap = kthrow Undefined"
| "vprintf (c # cs) ap = (if c = 0 then kret ()
    else if c \<noteq> of_char (CHR ''%'') then kseq (sbi_console_putchar c) (
      vprintf cs ap)
    else case cs of [] \<Rightarrow> kthrow Undefined
      | d # ds \<Rightarrow> if d = 0 then kret () else kbind (convert d ap) (\<lambda>ap'.
        vprintf ds ap'))"

text \<open>\<open>printf\<close> for C code refuses a null format.\<close>

definition c_printf :: "u8 list option \<Rightarrow> varg list \<Rightarrow> int cm" where
  "c_printf fmt ap = (case fmt of None \<Rightarrow> kthrow (Panic ''null fmt'') | Some f \<Rightarrow> kseq (vprintf f ap) (
    kret 0))"

section \<open>Numerals\<close>

text \<open>The digits of a number, lowest first, and the text of an integer.\<close>

function low_digits :: "nat \<Rightarrow> nat \<Rightarrow> nat list" where
  "low_digits b n = (if b < 2 then [n] else n mod b # (if n div b \<noteq> 0 then low_digits b (n div b) else []))"
  by pat_completeness auto

termination
proof (relation "measure snd")
  fix b n :: nat assume "\<not> b < 2" "n div b \<noteq> 0"
  moreover from this have "0 < n" by (cases n) auto
  ultimately show "((b, n div b), b, n) \<in> measure snd" by simp
qed simp

declare low_digits.simps [simp del] fill_digits.simps [simp del]

definition digit_char :: "nat \<Rightarrow> u8" where
  "digit_char d = digits ! d"

definition int_text :: "nat \<Rightarrow> int \<Rightarrow> u8 list" where
  "int_text b k = (if k < 0 then [of_char (CHR ''-'')] else []) @ map digit_char (rev (low_digits b (nat \<bar>k\<bar>)))"

text \<open>Reading a numeral back.\<close>

definition digit_value :: "u8 \<Rightarrow> nat option" where
  "digit_value c = (if c \<in> set digits then Some (length (takeWhile (\<lambda>x. x \<noteq> c) digits)) else None)"

fun parse_nat :: "nat \<Rightarrow> nat \<Rightarrow> u8 list \<Rightarrow> nat option" where
  "parse_nat b acc [] = Some acc"
| "parse_nat b acc (c # cs) = (case digit_value c of None \<Rightarrow> None
    | Some d \<Rightarrow> if d < b then parse_nat b (acc * b + d) cs else None)"

fun parse_int :: "nat \<Rightarrow> u8 list \<Rightarrow> int option" where
  "parse_int b [] = None"
| "parse_int b (c # cs) = (if c = of_char (CHR ''-'') then if cs = [] then None else map_option (\<lambda>n. - int n) (parse_nat b 0 cs)
    else map_option int (parse_nat b 0 (c # cs)))"

lemma digits_eq: "digits = [48, 49, 50, 51, 52, 53, 54, 55, 56, 57, 97, 98, 99, 100, 101, 102]"
  by (simp add: digits_def ascii_def)

lemma length_digits: "length digits = 16"
  by (simp add: digits_eq)

lemma digit_value_char: "d < 16 \<Longrightarrow> digit_value (digit_char d) = Some d"
proof -
  assume "d < 16"
  then have "d \<in> set [0..<16]" by simp
  moreover have "\<forall>d\<in>set [0..<16]. digit_value (digit_char d) = Some d" by code_simp
  ultimately show ?thesis by blast
qed

text \<open>Reading back what was written.\<close>

lemma low_digits_step:
  "2 \<le> b \<Longrightarrow> low_digits b n = n mod b # (if n div b \<noteq> 0 then low_digits b (n div b) else [])"
  by (subst low_digits.simps) simp

lemma low_digits_bound: "2 \<le> b \<Longrightarrow> \<forall>d\<in>set (low_digits b n). d < b"
proof (induction b n rule: low_digits.induct)
  case (1 b n)
  have b: "\<not> b < 2" using 1(2) by linarith
  have lt: "n mod b < b" using 1(2) by simp
  have "\<forall>d\<in>set (if n div b \<noteq> 0 then low_digits b (n div b) else []). d < b"
  proof (cases "n div b = 0")
    case False
    then show ?thesis unfolding if_P [OF False] by (rule 1(1) [OF b _ 1(2)])
  qed simp
  then show ?case unfolding low_digits_step [OF 1(2), of n] set_simps using lt by blast
qed

lemma low_digits_not_empty: "low_digits b n \<noteq> []"
  by (subst low_digits.simps) simp

lemma parse_nat_append: "parse_nat b acc (cs @ ds) = (case parse_nat b acc cs of None \<Rightarrow> None | Some n \<Rightarrow> parse_nat b n ds)"
  by (induction b acc cs rule: parse_nat.induct) (auto split: option.splits)

lemma parse_low_digits:
  assumes "2 \<le> b" and "b \<le> 16"
  shows "parse_nat b 0 (map digit_char (rev (low_digits b n))) = Some n"
  using assms
proof (induction b n rule: low_digits.induct)
  case (1 b n)
  have v: "digit_value (digit_char (n mod b)) = Some (n mod b)"
    using 1(2,3) mod_less_divisor [of b n] by (intro digit_value_char) linarith
  have lt: "n mod b < b" using 1(2) by simp
  have st: "low_digits b n = n mod b # (if n div b \<noteq> 0 then low_digits b (n div b) else [])" by (rule low_digits_step [OF 1(2)])
  show ?case
  proof (cases "n div b = 0")
    case True
    then have "n < b" using 1(2) by (simp add: div_eq_0_iff)
    then show ?thesis unfolding st using v by simp
  next
    case False
    moreover have "\<not> b < 2" using 1(2) by linarith
    ultimately have "parse_nat b 0 (map digit_char (rev (low_digits b (n div b)))) = Some (n div b)" using 1(1) 1(2,3) by blast
    then show ?thesis unfolding st if_P [OF False] by (simp add: parse_nat_append v lt)
  qed
qed

lemma digit_char_not_minus: "d < 16 \<Longrightarrow> digit_char d \<noteq> of_char (CHR ''-'')"
proof -
  assume "d < 16"
  then have "d \<in> set [0..<16]" by simp
  moreover have "\<forall>d\<in>set [0..<16]. digit_char d \<noteq> of_char (CHR ''-'')" by code_simp
  ultimately show ?thesis by blast
qed

lemma parse_int_text:
  assumes "2 \<le> b" and "b \<le> 16"
  shows "parse_int b (int_text b k) = Some k"
proof -
  define ds where "ds = rev (low_digits b (nat \<bar>k\<bar>))"
  have ne: "ds \<noteq> []" by (simp add: ds_def low_digits_not_empty)
  have p: "parse_nat b 0 (map digit_char ds) = Some (nat \<bar>k\<bar>)" unfolding ds_def by (rule parse_low_digits [OF assms])
  have "hd ds < 16" using low_digits_bound [OF assms(1), of "nat \<bar>k\<bar>"] hd_in_set [OF ne] assms(2) by (force simp: ds_def)
  then have m: "digit_char (hd ds) \<noteq> of_char (CHR ''-'')" by (rule digit_char_not_minus)
  obtain c cs where c: "map digit_char ds = c # cs" "c \<noteq> of_char (CHR ''-'')" using ne m by (cases ds) auto
  have t: "int_text b k = (if k < 0 then [of_char (CHR ''-'')] else []) @ c # cs" unfolding int_text_def ds_def [symmetric] c(1) by simp
  show ?thesis unfolding t using p c(2) unfolding c(1) by simp
qed

section \<open>Printing numbers\<close>

lemma low_digits_length:
  assumes "2 \<le> b" and "n < b ^ Suc k"
  shows "length (low_digits b n) \<le> Suc k"
  using assms(2)
proof (induction k arbitrary: n)
  case 0
  then show ?case using assms(1) by (subst low_digits_step [OF assms(1)]) simp
next
  case (Suc k)
  have "n div b < b ^ Suc k" using Suc.prems assms(1) by (simp add: div_less_iff_less_mult mult.commute)
  then have "length (low_digits b (n div b)) \<le> Suc k" by (rule Suc.IH)
  then show ?case by (subst low_digits_step [OF assms(1)]) simp
qed

lemma fill_digits_run:
  fixes x base :: "'a::len word"
  assumes "2 \<le> unat base" and "unat base \<le> 16"
  shows "fill_digits buf i x base = (let ds = low_digits (unat base) (unat x) in
    if i + length ds \<le> length buf then Some (take i buf @ map digit_char ds @ drop (i + length ds) buf, i + length ds) else None)"
  using assms
proof (induction buf i x base rule: fill_digits.induct)
  case (1 buf i x base)
  let ?b = "unat base" and ?n = "unat x"
  have b0: "base \<noteq> 0" using 1(2) by auto
  have dm: "unat (x mod base) = ?n mod ?b" "unat (x div base) = ?n div ?b" by (simp_all add: unat_mod unat_div)
  have "?n mod ?b < 16" using 1(2,3) mod_less_divisor [of ?b ?n] by linarith
  then have c: "arr_get digits (unat (x mod base)) = Some (digit_char (?n mod ?b))" by (simp add: dm length_digits digit_char_def)
  have nz: "x div base \<noteq> 0 \<longleftrightarrow> ?n div ?b \<noteq> 0" by (simp add: word_unat_eq_iff dm)
  note st = low_digits_step [OF 1(2), of ?n]
  show ?case
  proof (cases "i < length buf")
    case False
    then show ?thesis by (subst fill_digits.simps) (simp add: b0 c arr_set_def st Let_def)
  next
    case True
    let ?buf = "buf[i := digit_char (?n mod ?b)]"
    have set: "arr_set buf i (digit_char (?n mod ?b)) = Some ?buf" using True by simp
    show ?thesis
    proof (cases "?n div ?b = 0")
      case zero: True
      then have "fill_digits buf i x base = Some (?buf, Suc i)" by (subst fill_digits.simps) (simp add: b0 c set nz)
      moreover have "?buf = take i buf @ [digit_char (?n mod ?b)] @ drop (Suc i) buf" using True by (simp add: upd_conv_take_nth_drop)
      ultimately show ?thesis using True zero by (simp add: st Let_def)
    next
      case nonzero: False
      have "fill_digits buf i x base = fill_digits ?buf (Suc i) (x div base) base"
        using nonzero by (subst fill_digits.simps) (simp add: b0 c set nz)
      moreover note 1(1) [OF b0 c set _ 1(2,3)]
      moreover have "take (Suc i) ?buf = take i buf @ [digit_char (?n mod ?b)]" using True by (simp add: take_Suc_conv_app_nth)
      ultimately show ?thesis using True nonzero nz by (simp add: st Let_def dm)
    qed
  qed
qed

lemma putchar_run: "sbi_console_putchar c s = (Inr (), s\<lparr>con_out := con_out s @ [c]\<rparr>)"
  by (cases s) (simp add: sbi_console_putchar_def)

lemma putchars_run: "putchars cs s = (Inr (), s\<lparr>con_out := con_out s @ cs\<rparr>)"
  by (induction cs arbitrary: s) (simp_all add: sbi_console_putchar_def)

lemma put_back_run: "i \<le> length buf \<Longrightarrow> put_back buf i s = (Inr (), s\<lparr>con_out := con_out s @ rev (take i buf)\<rparr>)"
proof (induction i arbitrary: s)
  case (Suc i)
  then show ?case by (cases s) (simp add: sbi_console_putchar_def take_Suc_conv_app_nth)
qed simp

text \<open>The number a routine prints for a machine word, and that its absolute value is what the digits are taken from.\<close>

definition shown :: "'a::len word \<Rightarrow> bool \<Rightarrow> int" where
  "shown xx sign = (if sign then sint xx else uint xx)"

definition printable :: "'a::len word \<Rightarrow> bool \<Rightarrow> bool" where
  "printable xx sign \<longleftrightarrow> \<not> (sign \<and> sint xx = - (2 ^ (LENGTH('a) - 1)))"

lemma magnitude_run:
  fixes xx :: "'a::len word"
  assumes "printable xx sign"
  obtains x where "magnitude xx (sign \<and> sint xx < 0) = Some x" "unat x = nat \<bar>shown xx sign\<bar>"
proof -
  have w: "uint (word_of_int k :: 'a word) = k" if "0 \<le> k" "k < 2 ^ LENGTH('a)" for k
    using that by (simp add: uint_word_of_int_eq take_bit_int_eq_self)
  have b: "sint xx < 2 ^ (LENGTH('a) - 1)" "- (2 ^ (LENGTH('a) - 1)) \<le> sint xx" by (rule sint_lt) (rule sint_ge)
  have p: "(2 :: int) ^ (LENGTH('a) - 1) < 2 ^ LENGTH('a)" by (rule power_strict_increasing) simp_all
  consider (neg) "sign" "sint xx < 0" | (pos) "sign" "0 \<le> sint xx" | (unsigned) "\<not> sign" by linarith
  then show thesis
  proof cases
    case neg
    then have "sint xx \<noteq> - (2 ^ (LENGTH('a) - 1))" using assms by (simp add: printable_def)
    then have m: "magnitude xx (sign \<and> sint xx < 0) = Some (- xx)" using neg by (simp add: magnitude_def)
    have "- xx = word_of_int (- sint xx)" by simp
    then have "uint (- xx) = - sint xx" using w [of "- sint xx"] neg b(2) p by simp
    then show ?thesis using that [OF m] neg by (simp add: shown_def unat_eq_nat_uint)
  next
    case pos
    have "uint xx = sint xx" using w [of "sint xx"] pos b(1) p by simp
    then show ?thesis using that [of xx] pos by (simp add: magnitude_def shown_def unat_eq_nat_uint)
  next
    case unsigned
    then show ?thesis using that [of xx] by (simp add: magnitude_def shown_def)
  qed
qed

text \<open>Room for the digits and the sign.\<close>

definition room_for :: "nat \<Rightarrow> nat \<Rightarrow> nat \<Rightarrow> bool" where
  "room_for len b room \<longleftrightarrow> 2 \<le> room \<and> 2 ^ len \<le> b ^ (room - 1)"

lemma room_length:
  fixes x :: "'a::len word"
  assumes "room_for LENGTH('a) b room" and "2 \<le> b"
  shows "length (low_digits b (unat x)) < room"
proof -
  have "unat x < b ^ (room - 1)" using assms(1) unsigned_less [of x, where ?'a = nat] unfolding room_for_def by (meson less_le_trans)
  moreover obtain k where k: "room = Suc (Suc k)" using assms(1) by (metis room_for_def Suc_1 add_2_eq_Suc le_Suc_ex)
  ultimately show ?thesis using low_digits_length [OF assms(2), of "unat x" k] by simp
qed

lemma print_number_run:
  fixes xx base :: "'a::len word"
  assumes "2 \<le> unat base" and "unat base \<le> 16" and "room_for LENGTH('a) (unat base) room" and "printable xx sign"
  shows "print_number room xx base sign s = (Inr (), s\<lparr>con_out := con_out s @ int_text (unat base) (shown xx sign)\<rparr>)"
proof -
  obtain x where x: "magnitude xx (sign \<and> sint xx < 0) = Some x" "unat x = nat \<bar>shown xx sign\<bar>" by (rule magnitude_run [OF assms(4)])
  define ds where "ds = low_digits (unat base) (unat x)"
  have len: "length ds < room" unfolding ds_def by (rule room_length [OF assms(3,1)])
  have f: "fill_digits (replicate room 0) 0 x base = Some (map digit_char ds @ replicate (room - length ds) 0, length ds)"
    using fill_digits_run [OF assms(1,2), of "replicate room 0" 0 x] len by (simp add: ds_def Let_def)
  have neg: "(sign \<and> sint xx < 0) = (shown xx sign < 0)" by (simp add: shown_def)
  have tx: "int_text (unat base) (shown xx sign) = (if shown xx sign < 0 then [of_char (CHR ''-'')] else []) @ map digit_char (rev ds)"
    by (simp add: int_text_def ds_def x(2))
  show ?thesis
  proof (cases "shown xx sign < 0")
    case True
    let ?buf = "(map digit_char ds @ replicate (room - length ds) 0)[length ds := of_char (CHR ''-'')]"
    have t: "take (Suc (length ds)) ?buf = map digit_char ds @ [of_char (CHR ''-'')]"
      using len by (simp add: take_Suc_conv_app_nth nth_append)
    have "put_back ?buf (Suc (length ds)) s = (Inr (), s\<lparr>con_out := con_out s @ rev (take (Suc (length ds)) ?buf)\<rparr>)"
      by (rule put_back_run) (use len in simp)
    then have "put_back ?buf (Suc (length ds)) s = (Inr (), s\<lparr>con_out := con_out s @ of_char (CHR ''-'') # map digit_char (rev ds)\<rparr>)"
      unfolding t by (simp add: rev_map)
    then show ?thesis using True x(1) len unfolding print_number_def neg tx by (simp add: f del: put_back.simps)
  next
    case False
    then show ?thesis using x(1) put_back_run [of "length ds" "map digit_char ds @ replicate (room - length ds) 0" s]
      unfolding print_number_def neg tx by (simp add: f rev_map)
  qed
qed

lemma room_32: "room_for 32 10 16" "room_for 32 16 16" and room_64: "room_for 64 10 32" "room_for 64 16 32"
  by (simp_all add: room_for_def)

lemma printint_run: "\<lbrakk>base = 10 \<or> base = 16; printable xx sign\<rbrakk> \<Longrightarrow>
    printint xx base sign s = (Inr (), s\<lparr>con_out := con_out s @ int_text (unat base) (shown xx sign)\<rparr>)"
  unfolding printint_def using room_32 by (intro print_number_run) auto

lemma printint64_run: "\<lbrakk>base = 10 \<or> base = 16; printable xx sign\<rbrakk> \<Longrightarrow>
    printint64 xx base sign s = (Inr (), s\<lparr>con_out := con_out s @ int_text (unat base) (shown xx sign)\<rparr>)"
  unfolding printint64_def using room_64 by (intro print_number_run) auto

text \<open>
  What is printed for a number reads back as the number: for every signed 64-bit number but the least, \<open>printint64\<close> stays
  inside its buffer and appends to the output the numeral of the number in the base, from which the number is read back.
\<close>

lemma printed_number_reads_back:
  assumes "base = 10 \<or> base = 16" and "sint xx \<noteq> - (2 ^ 63)"
  shows "\<exists>t. printint64 xx base True s = (Inr (), s\<lparr>con_out := con_out s @ t\<rparr>) \<and> parse_int (unat base) t = Some (sint xx)"
proof -
  have "printable xx True" using assms(2) by (simp add: printable_def)
  moreover have "2 \<le> unat base" "unat base \<le> 16" using assms(1) by auto
  ultimately show ?thesis
    by (intro exI [of _ "int_text (unat base) (sint xx)"]) (simp add: printint64_run [OF assms(1)] parse_int_text shown_def)
qed

definition demo_con :: con where
  "demo_con = \<lparr>csr_sstatus = 0, csr_sie = 0, csr_stvec = 0, csr_sepc = 0, csr_scause = 0, csr_stval = 0, csr_satp = 0, csr_time = 50000, reg_tp = 2, timer_at = 0,
    plic_regs = (\<lambda>_. 0), plic_claims = [], plic_completed = [], con_out = [], con_in = []\<rparr>"

lemma printed_number_reads_back_witness:
  "\<exists>t. printint64 (- 305) 10 True demo_con = (Inr (), demo_con\<lparr>con_out := t\<rparr>) \<and> parse_int 10 t = Some (- 305)"
  using printed_number_reads_back [of 10 "- 305" demo_con] by (simp add: demo_con_def)

section \<open>What printf prints\<close>

text \<open>A pointer is its sixteen hexadecimal digits.\<close>

definition ptr_text :: "u64 \<Rightarrow> u8 list" where
  "ptr_text x = ascii ''0x'' @ map (\<lambda>k. digit_char (unat x div 16 ^ (15 - k) mod 16)) [0..<16]"

lemma top_digit:
  fixes x :: u64
  assumes "k < 16"
  shows "unat (drop_bit 60 (push_bit (4 * k) x)) = unat x div 16 ^ (15 - k) mod 16"
proof -
  have "(16 :: nat) ^ (15 - k) = 2 ^ (4 * (15 - k))" by (simp add: power_mult)
  moreover have "4 * (15 - k) + 4 * k = 60" using assms by simp
  ultimately have e: "(2 :: nat) ^ 64 = 2 ^ 60 * 16" "16 ^ (15 - k) * 2 ^ (4 * k) = (2 :: nat) ^ 60"
    by (simp, metis power_add)
  have "push_bit (4 * k) x = of_nat (unat x * 2 ^ (4 * k))" by (simp add: push_bit_eq_mult)
  then have "unat (push_bit (4 * k) x) = unat x * 2 ^ (4 * k) mod 2 ^ 64" by (simp only: unat_of_nat take_bit_eq_mod) simp
  then have "unat (drop_bit 60 (push_bit (4 * k) x)) = (unat x * 2 ^ (4 * k)) mod 2 ^ 64 div 2 ^ 60"
    by (simp only: drop_bit_eq_div unat_div) simp
  also have "\<dots> = (unat x * 2 ^ (4 * k)) div 2 ^ 60 mod 16" unfolding e(1) by (rule mod_mult2_eq [THEN arg_cong [where f = "\<lambda>z. z div 2 ^ 60"], THEN trans]) simp
  also have "(unat x * 2 ^ (4 * k)) div 2 ^ 60 = unat x div 16 ^ (15 - k)"
    unfolding e(2) [symmetric] by simp
  finally show ?thesis .
qed

lemma hex_loop_run: "hex_loop n x = Some (map (\<lambda>k. digit_char (unat (drop_bit 60 (push_bit (4 * k) x)))) [0..<n])"
proof (induction n arbitrary: x)
  case (Suc n)
  have "unat (drop_bit 60 x) = unat x div 2 ^ 60" by (simp only: drop_bit_eq_div unat_div) simp
  then have "unat (drop_bit 60 x) < 16" using unsigned_less [of x, where ?'a = nat] by (simp add: div_less_iff_less_mult)
  then have "arr_get digits (unat (drop_bit 60 x)) = Some (digit_char (unat (drop_bit 60 x)))" by (simp add: length_digits digit_char_def)
  moreover have "[0..<Suc n] = 0 # map Suc [0..<n]" by (simp add: upt_conv_Cons map_Suc_upt del: upt_Suc)
  moreover have "push_bit (4 * k) (push_bit 4 x) = push_bit (4 * Suc k) x" for k by (simp add: add.commute)
  ultimately show ?case using Suc [of "push_bit 4 x"] by (simp add: comp_def del: upt_Suc)
qed simp

lemma printptr_run: "printptr x s = (Inr (), s\<lparr>con_out := con_out s @ ptr_text x\<rparr>)"
proof -
  have "map (\<lambda>k. digit_char (unat (drop_bit 60 (push_bit (4 * k) x)))) [0..<16] = map (\<lambda>k. digit_char (unat x div 16 ^ (15 - k) mod 16)) [0..<16]"
    by (rule map_cong) (simp_all add: top_digit del: upt_Suc)
  then show ?thesis
    unfolding printptr_def hex_loop_run by (simp add: sbi_console_putchar_def putchars_run ptr_text_def ascii_def del: upt_Suc upt_rec_numeral)
qed

text \<open>
  The text that a conversion stands for, with the arguments that are left; \<open>None\<close> when there is no argument for it, or one of
  the wrong kind, or the least number of its type.
\<close>

definition str_text :: "u8 list option \<Rightarrow> u8 list option" where
  "str_text p = (case p of None \<Rightarrow> Some (ascii ''(null)'') | Some q \<Rightarrow> if terminated q then Some (cstr q) else None)"

definition piece :: "u8 \<Rightarrow> varg list \<Rightarrow> (u8 list \<times> varg list) option" where
  "piece c ap = (
    if c = of_char (CHR ''d'') \<or> c = of_char (CHR ''x'') then case ap of Slot v # rest \<Rightarrow>
      if printable (ucast v :: 32 word) True then Some (int_text (if c = of_char (CHR ''d'') then 10 else 16) (sint (ucast v :: 32 word)), rest) else None | _ \<Rightarrow> None
    else if c = of_char (CHR ''l'') then case ap of Slot v # rest \<Rightarrow> if printable v True then Some (int_text 10 (sint v), rest) else None | _ \<Rightarrow> None
    else if c = of_char (CHR ''p'') then case ap of Slot v # rest \<Rightarrow> Some (ptr_text v, rest) | _ \<Rightarrow> None
    else if c = of_char (CHR ''s'') then case ap of Str q # rest \<Rightarrow> map_option (\<lambda>t. (t, rest)) (str_text q) | _ \<Rightarrow> None
    else if c = of_char (CHR ''%'') then Some ([c], ap)
    else Some ([of_char (CHR ''%''), c], ap))"

fun formatted :: "u8 list \<Rightarrow> varg list \<Rightarrow> u8 list option" where
  "formatted [] ap = Some []"
| "formatted (c # cs) ap = (if c \<noteq> of_char (CHR ''%'') then map_option ((#) c) (formatted cs ap)
    else case cs of [] \<Rightarrow> Some []
      | d # ds \<Rightarrow> case piece d ap of None \<Rightarrow> None | Some (t, ap') \<Rightarrow> map_option ((@) t) (formatted ds ap'))"

lemma put_string_run: "str_text p = Some t \<Longrightarrow> put_string p s = (Inr (), s\<lparr>con_out := con_out s @ t\<rparr>)"
  by (auto simp: str_text_def put_string_def null_text_def putchars_run ascii_def sbi_console_putchar_def split: option.splits if_splits)

lemma va_slot_run: "va_slot (Slot v # rest) s = (Inr (v, rest), s)" and va_str_run: "va_str (Str q # rest) s = (Inr (q, rest), s)"
  by (simp_all add: va_slot_def va_str_def)

lemma convert_run:
  assumes "piece c ap = Some (t, ap')"
  shows "convert c ap s = (Inr ap', s\<lparr>con_out := con_out s @ t\<rparr>)"
proof -
  consider (num) "c = 100 \<or> c = 120" | (long) "c = 108" | (ptr) "c = 112" | (str) "c = 115" | (other) "c \<noteq> 100" "c \<noteq> 120" "c \<noteq> 108" "c \<noteq> 112" "c \<noteq> 115" by blast
  then show ?thesis
  proof cases
    case num
    then obtain v where v: "ap = Slot v # ap'" "printable (ucast v :: 32 word) True" "t = int_text (if c = 100 then 10 else 16) (sint (ucast v :: 32 word))"
      using assms by (auto simp: piece_def split: list.splits varg.splits if_splits)
    have b: "(10 :: 32 word) = 10 \<or> (10 :: 32 word) = 16" "(16 :: 32 word) = 10 \<or> (16 :: 32 word) = 16" by simp_all
    show ?thesis
    proof (cases "c = 100")
      case True
      then show ?thesis unfolding v(1,3) by (simp add: convert_def va_slot_run printint_run [OF b(1) v(2)] shown_def)
    next
      case False
      then have "c = 120" using num by blast
      then show ?thesis unfolding v(1,3) by (simp add: convert_def va_slot_run printint_run [OF b(2) v(2)] shown_def)
    qed
  next
    case long
    then obtain v where v: "ap = Slot v # ap'" "printable v True" "t = int_text 10 (sint v)"
      using assms by (auto simp: piece_def split: list.splits varg.splits if_splits)
    have b: "(10 :: 64 word) = 10 \<or> (10 :: 64 word) = 16" by simp
    show ?thesis using long unfolding v(1,3) by (simp add: convert_def va_slot_run printint64_run [OF b v(2)] shown_def)
  next
    case ptr
    then obtain v where "ap = Slot v # ap'" "t = ptr_text v" using assms by (auto simp: piece_def split: list.splits varg.splits)
    then show ?thesis using ptr by (simp add: convert_def va_slot_run printptr_run)
  next
    case str
    then obtain q where q: "ap = Str q # ap'" "str_text q = Some t" using assms by (auto simp: piece_def split: list.splits varg.splits)
    then show ?thesis using str put_string_run [OF q(2)] by (simp add: convert_def va_str_run)
  next
    case other
    then show ?thesis using assms by (auto simp: piece_def convert_def putchar_run split: if_splits)
  qed
qed

lemma vprintf_run:
  "\<lbrakk>terminated fmt; formatted (cstr fmt) ap = Some t\<rbrakk> \<Longrightarrow> vprintf fmt ap s = (Inr (), s\<lparr>con_out := con_out s @ t\<rparr>)"
proof (induction fmt ap arbitrary: s t rule: vprintf.induct)
  case (2 c cs ap)
  show ?case
  proof (cases "c = 0")
    case False
    show ?thesis
    proof (cases "c = of_char (CHR ''%'')")
      case True
      show ?thesis
      proof (cases cs)
        case (Cons d ds)
        then show ?thesis using 2 False True convert_run
          by (cases "d = 0") (auto split: option.splits)
      qed (use 2 False in simp)
    next
      case plain: False
      then obtain t' where t': "formatted (cstr cs) ap = Some t'" "t = c # t'" using 2 False by auto
      have "vprintf cs ap (s\<lparr>con_out := con_out s @ [c]\<rparr>) = (Inr (), s\<lparr>con_out := con_out s @ [c] @ t'\<rparr>)"
        using 2(1) [OF False plain _ t'(1)] 2(3) False by simp
      then show ?thesis using False plain t'(2) by (simp add: putchar_run)
    qed
  qed (use 2 in simp)
qed simp

end
