(* ===== verification/File_Output.thy ===== *)
theory File_Output
  imports Format Spin_Lock
begin

text \<open>
  Formatted output to files (\<open>src/os/utils/fprint.cc\<close>, \<open>src/os/utils/fprintf.cc\<close>, \<open>src/os/utils/fprintf.h\<close>), the console as a file
  (\<open>src/os/drivers/console.h\<close>) and the loggers (\<open>src/os/utils/log.h\<close>, \<open>src/os/utils/log.cc\<close>). The virtual method \<open>write\<close> of the file is an argument.
\<close>

section \<open>Printing values to a file\<close>

type_synonym 's writer = "u8 list \<Rightarrow> ('s, int) kmonad"

text \<open>The digits are stored from the end of the buffer; \<open>i\<close> is the index of the last one stored.\<close>

function fill_back :: "u8 list \<Rightarrow> nat \<Rightarrow> 'a::len word \<Rightarrow> 'a word \<Rightarrow> (u8 list \<times> nat) option" where
  "fill_back buf i x base = (if base = 0 \<or> i = 0 then None else
    case arr_get digits (unat (x mod base)) of None \<Rightarrow> None | Some c \<Rightarrow>
    case arr_set buf (i - 1) c of None \<Rightarrow> None | Some buf' \<Rightarrow>
      if x div base \<noteq> 0 then fill_back buf' (i - 1) (x div base) base else Some (buf', i - 1))"
  by pat_completeness auto

termination
  by (relation "measure (\<lambda>(buf, i, x, base). i)") auto

declare fill_back.simps [simp del]

definition fprint_int64 :: "'s writer \<Rightarrow> 64 word \<Rightarrow> 64 word \<Rightarrow> bool \<Rightarrow> ('s, unit) kmonad" where
  "fprint_int64 fwrite xx base sign = (
    let neg = sign \<and> sint xx < 0 in kbind (kopt (magnitude xx neg)) (\<lambda>x.
      kbind (kopt (fill_back (replicate 32 0) 32 x base)) (\<lambda>(buf, i).
      if neg then kbind (if i = 0 then kthrow Undefined else kopt (arr_set buf (i - 1) (of_char (CHR ''-'')))) (\<lambda>buf'.
        kseq (fwrite (drop (i - 1) buf')) (
        kret ()))
      else kseq (fwrite (drop i buf)) (
        kret ()))))"

text \<open>The overloads, by the type of the argument.\<close>

datatype farg = F_Int u64 | F_Ptr u64 | F_Str "u8 list option"

definition fprint_int :: "'s writer \<Rightarrow> u64 \<Rightarrow> u8 \<Rightarrow> ('s, unit) kmonad" where
  "fprint_int fwrite xx format = (if format = of_char (CHR ''d'') then fprint_int64 fwrite xx 10 True
    else if format = of_char (CHR ''x'') then fprint_int64 fwrite xx 16 False
    else kthrow Task_Fail)"

definition fprint_ptr :: "'s writer \<Rightarrow> u64 \<Rightarrow> u8 \<Rightarrow> ('s, unit) kmonad" where
  "fprint_ptr fwrite x format = (if format \<noteq> of_char (CHR ''p'') then kthrow Task_Fail else kbind (kopt (hex_loop 16 x)) (\<lambda>cs.
    let buf = ascii ''0x'' @ cs @ replicate 14 0 in
    kseq (fwrite (take 18 buf)) (
    kret ())))"

definition fprint_str :: "'s writer \<Rightarrow> u8 list option \<Rightarrow> u8 \<Rightarrow> ('s, unit) kmonad" where
  "fprint_str fwrite str format = (if format \<noteq> of_char (CHR ''s'') then kthrow Task_Fail else
    let s = (case str of None \<Rightarrow> null_text | Some s \<Rightarrow> s) in kbind (kopt (strlen s)) (\<lambda>n.
      kseq (fwrite (take n s)) (
      kret ())))"

definition fprint :: "'s writer \<Rightarrow> farg \<Rightarrow> u8 \<Rightarrow> ('s, unit) kmonad" where
  "fprint fwrite x format = (case x of F_Int v \<Rightarrow> fprint_int fwrite v format | F_Ptr v \<Rightarrow> fprint_ptr fwrite v format
     | F_Str p \<Rightarrow> fprint_str fwrite p format)"

section \<open>fprintf\<close>

text \<open>Without arguments left: \<open>fmt\<close> is what was not written yet, \<open>i\<close> the index the scan is at.\<close>

function fprintf_rest :: "'s writer \<Rightarrow> u8 list \<Rightarrow> nat \<Rightarrow> ('s, unit) kmonad" where
  "fprintf_rest fwrite fmt i = (case arr_get fmt i of None \<Rightarrow> kthrow Undefined | Some c \<Rightarrow>
    if c = 0 then kseq (fwrite (take (i + 1) fmt)) (
      kret ())
    else if c \<noteq> of_char (CHR ''%'') then fprintf_rest fwrite fmt (i + 1)
    else case arr_get fmt (i + 1) of None \<Rightarrow> kthrow Undefined | Some d \<Rightarrow>
      if d = of_char (CHR ''%'') then kseq (fwrite (take (i + 1) fmt)) (
        fprintf_rest fwrite (drop (i + 2) fmt) 0)
      else fprintf_rest fwrite fmt (i + 2))"
  by pat_completeness auto

termination
  by (relation "measure (\<lambda>(w, fmt, i). length fmt - i)") (auto simp: arr_get_eq_Some_iff)

declare fprintf_rest.simps [simp del]

text \<open>The index of the first percent sign, or of the end of the string.\<close>

fun spec_index :: "u8 list \<Rightarrow> nat option" where
  "spec_index [] = None"
| "spec_index (c # cs) = (if c = 0 \<or> c = of_char (CHR ''%'') then Some 0 else map_option Suc (spec_index cs))"

definition is_spec :: "u8 \<Rightarrow> bool" where
  "is_spec c \<longleftrightarrow> c \<in> set (ascii ''dlxps'')"

primrec fprintf_args :: "'s writer \<Rightarrow> farg list \<Rightarrow> u8 list \<Rightarrow> ('s, unit) kmonad" where
  "fprintf_args fwrite [] fmt = fprintf_rest fwrite fmt 0"
| "fprintf_args fwrite (x # xs) fmt = kbind (kopt (spec_index fmt)) (\<lambda>i.
  if fmt ! i = 0 then kseq (fwrite (take (i + 1) fmt)) (
    kret ())
  else kbind (kopt (arr_get fmt (i + 1))) (\<lambda>c.
    kseq (if i > 0 then kseq (fwrite (take i fmt)) (
      kret ()) else kret ()) (
    kseq (if is_spec c then fprint fwrite x c
      else if c = of_char (CHR ''%'') then kseq (fwrite (ascii ''%'')) (
        kret ())
      else kseq (fwrite (take 2 (drop i fmt))) (
        kret ())) (
    fprintf_args fwrite xs (drop (i + 2) fmt)))))"

text \<open>
  \<open>fprintf\<close> on a file object. The task that would take the lock is made but not awaited, so it never runs; \<open>unlock\<close> does.
\<close>

definition fprintf :: "'s ofile writer \<Rightarrow> u8 list \<Rightarrow> farg list \<Rightarrow> ('s ofile, unit) kmonad" where
  "fprintf fwrite fmt args = kseq (fprintf_args fwrite args fmt) (
    file_unlock)"

definition fprintf_nolock :: "'s ofile writer \<Rightarrow> u8 list \<Rightarrow> farg list \<Rightarrow> ('s ofile, unit) kmonad" where
  "fprintf_nolock fwrite fmt args = kseq lock_off (
    kseq (fprintf_args fwrite args fmt) (
    lock_on))"

section \<open>The console as a file\<close>

text \<open>Its inode is an object of the base class, of which the file uses the mutex only: \<open>load\<close> succeeds, since \<open>__load\<close> returns an error number and does not fail.\<close>

definition console_inode_ops :: "con inode_ops" where
  "console_inode_ops = \<lparr>io_load = kret (), io_read = (\<lambda>_ _. kthrow Undefined), io_write = (\<lambda>_ _. kthrow Undefined), io_size = kthrow Undefined\<rparr>"

definition console_write :: "con ofile writer" where
  "console_write bs = kseq (rw_lock console_inode_ops) (
    kseq (on_world (putchars bs)) (
    kseq rw_unlock (
    kret (int (length bs)))))"

primrec getchars :: "nat \<Rightarrow> u8 list cm" where
  "getchars 0 = kret []"
| "getchars (Suc n) = kbind sbi_console_getchar (\<lambda>c.
  kbind (getchars n) (\<lambda>cs.
  kret (word_of_int c # cs)))"

definition console_read :: "nat \<Rightarrow> (con ofile, u8 list) kmonad" where
  "console_read sz = kseq (rw_lock console_inode_ops) (
    kbind (on_world (getchars sz)) (\<lambda>bs.
    kseq rw_unlock (
    kret bs)))"

section \<open>Loggers\<close>

text \<open>The operations of the console logger and of the ring of traces are what runs while its spinlock is held.\<close>

datatype log_level = TRACE | DEBUG | INFO | WARN | ERROR

fun log_level_str :: "log_level \<Rightarrow> u8 list" where
  "log_level_str TRACE = ascii ''TRACE''"
| "log_level_str DEBUG = ascii ''DEBUG''"
| "log_level_str INFO = ascii '' INFO''"
| "log_level_str WARN = ascii '' WARN''"
| "log_level_str ERROR = ascii ''ERROR''"

text \<open>Colours are the codes of the terminal.\<close>

fun log_level_color :: "log_level \<Rightarrow> u64" where
  "log_level_color TRACE = 37"
| "log_level_color DEBUG = 92"
| "log_level_color INFO = 94"
| "log_level_color WARN = 93"
| "log_level_color ERROR = 91"

definition debug_core_color :: "u64 list" where
  "debug_core_color = [37, 90, 36, 35, 37, 90, 36, 35, 37, 90, 36, 35, 37, 90, 36, 35]"

definition cstring :: "u8 list \<Rightarrow> u8 list" where
  "cstring t = t @ [0]"

definition log_prefix :: "u8 list" where
  "log_prefix = cstring (27 # ascii ''[%dm[%d] [%s] [C] [%d] '')"

definition log_suffix :: "u8 list" where
  "log_suffix = cstring (27 # ascii ''[0m'')"

definition log_vprintf :: "log_level \<Rightarrow> u64 \<Rightarrow> u8 list \<Rightarrow> varg list \<Rightarrow> int cm" where
  "log_vprintf level color fmt args = kbind get_time_us (\<lambda>us.
    kbind r_tp (\<lambda>core.
    kseq (vprintf log_prefix [Slot color, Slot us, Str (Some (cstring (log_level_str level))), Slot core]) (
    kseq (vprintf fmt args) (
    kseq (vprintf log_suffix []) (
    kret 0)))))"

definition log_printf :: "log_level \<Rightarrow> u8 list \<Rightarrow> varg list \<Rightarrow> int cm" where
  "log_printf level = log_vprintf level (log_level_color level)"

definition raw_printf :: "u8 list \<Rightarrow> varg list \<Rightarrow> int cm" where
  "raw_printf fmt args = kseq (vprintf fmt args) (
    kret 0)"

text \<open>\<open>getc\<close> asks the firmware until there is a character; the argument bounds the questions.\<close>

primrec log_getc :: "nat \<Rightarrow> u8 cm" where
  "log_getc 0 = kthrow Out_Of_Fuel"
| "log_getc (Suc n) = kbind sbi_console_getchar (\<lambda>r.
  if r \<noteq> - 1 then kret (word_of_int r) else log_getc n)"

definition file_log_prefix :: "u8 list" where
  "file_log_prefix = cstring (27 # ascii ''[%dm[%d] [%s] [F] '')"

definition file_log :: "bool \<Rightarrow> 's inode_ops \<Rightarrow> 's ofile writer \<Rightarrow> u64 \<Rightarrow> log_level \<Rightarrow> u64 \<Rightarrow> u8 list \<Rightarrow> farg list \<Rightarrow> ('s ofile, unit) kmonad" where
  "file_log with_lock I fwrite us level color fmt args = kseq (if with_lock then file_lock I else lock_off) (
    kseq (fprintf_args fwrite [F_Int color, F_Int us, F_Str (Some (cstring (log_level_str level)))] file_log_prefix) (
    kseq (fprintf_args fwrite args fmt) (
    kseq (fprintf_args fwrite [] log_suffix) (
    if with_lock then file_unlock else lock_on))))"

text \<open>The ring of trace identifiers of each core.\<close>

definition MAX_TRACE_CNT :: nat where "MAX_TRACE_CNT = 64"

record tracer =
  trace_pool :: "u64 list list"
  trace_last :: "nat list"

definition new_tracer :: tracer where
  "new_tracer = \<lparr>trace_pool = replicate NCPU (replicate MAX_TRACE_CNT (- 1)), trace_last = replicate NCPU 0\<rparr>"

definition push_trace :: "nat \<Rightarrow> u64 \<Rightarrow> (tracer, unit) kmonad" where
  "push_trace c i = kbind (kget trace_last) (\<lambda>l.
    kbind (kopt (arr_get l c)) (\<lambda>n.
    kbind (kget trace_pool) (\<lambda>p.
    kbind (kopt (arr_get p c)) (\<lambda>row.
    kbind (kopt (arr_set row (Suc n mod MAX_TRACE_CNT) i)) (\<lambda>row'.
    kmod (\<lambda>s. s\<lparr>trace_pool := p[c := row'], trace_last := l[c := Suc n mod MAX_TRACE_CNT]\<rparr>))))))"

definition get_last_trace :: "nat \<Rightarrow> (tracer, u64) kmonad" where
  "get_last_trace c = kbind (kget trace_last) (\<lambda>l.
    kbind (kopt (arr_get l c)) (\<lambda>n.
    kbind (kget trace_pool) (\<lambda>p.
    kbind (kopt (arr_get p c)) (\<lambda>row.
    kopt (arr_get row n)))))"

primrec print_entries :: "'s writer \<Rightarrow> nat \<Rightarrow> u64 list \<Rightarrow> nat \<Rightarrow> ('s, unit) kmonad" where
  "print_entries fwrite 0 row i = kret ()"
| "print_entries fwrite (Suc n) row i = kbind (kopt (arr_get row i)) (\<lambda>v.
  kseq (fprintf_args fwrite [F_Int v] (cstring (ascii ''%p ''))) (
  print_entries fwrite n row (if i = 0 then MAX_TRACE_CNT - 1 else i - 1)))"

text \<open>\<open>print_trace\<close> behind the lock of the file.\<close>

definition print_trace :: "'s writer \<Rightarrow> u64 list \<Rightarrow> nat \<Rightarrow> ('s, unit) kmonad" where
  "print_trace fwrite row i = kseq (fprintf_args fwrite [] (cstring (ascii ''traceback: ''))) (
    kseq (print_entries fwrite MAX_TRACE_CNT row i) (
    fprintf_args fwrite [] (cstring [10])))"

section \<open>Numbers in files are the numbers on the console\<close>

lemma fill_back_step:
  "fill_back buf i x base = (if base = 0 \<or> i = 0 then None else
    case arr_get digits (unat (x mod base)) of None \<Rightarrow> None | Some c \<Rightarrow>
    case arr_set buf (i - 1) c of None \<Rightarrow> None | Some buf' \<Rightarrow>
      if x div base \<noteq> 0 then fill_back buf' (i - 1) (x div base) base else Some (buf', i - 1))"
  by (rule fill_back.simps)

lemma fill_back_run:
  fixes x base :: "'a::len word"
  assumes "2 \<le> unat base" and "unat base \<le> 16"
    and "length (low_digits (unat base) (unat x)) \<le> i" and "i \<le> length buf"
  shows "fill_back buf i x base = (let ds = low_digits (unat base) (unat x) in
    Some (take (i - length ds) buf @ map digit_char (rev ds) @ drop i buf, i - length ds))"
  using assms
proof (induction buf i x base rule: fill_back.induct)
  case (1 buf i x base)
  let ?b = "unat base" and ?n = "unat x"
  let ?buf = "buf[i - 1 := digit_char (?n mod ?b)]"
  note st = low_digits_step [OF 1(2), of ?n]
  have i0: "0 < i" using 1(4) low_digits_not_empty [of ?b ?n] by (cases i) auto
  have b0: "\<not> (base = 0 \<or> i = 0)" using 1(2) i0 by auto
  have dm: "unat (x mod base) = ?n mod ?b" "unat (x div base) = ?n div ?b" by (simp_all add: unat_mod unat_div)
  have "?n mod ?b < 16" using 1(2,3) mod_less_divisor [of ?b ?n] by linarith
  then have c: "arr_get digits (unat (x mod base)) = Some (digit_char (?n mod ?b))" by (simp add: dm length_digits digit_char_def)
  have set: "arr_set buf (i - 1) (digit_char (?n mod ?b)) = Some ?buf" using i0 1(5) by simp
  have nz: "x div base \<noteq> 0 \<longleftrightarrow> ?n div ?b \<noteq> 0" by (simp add: word_unat_eq_iff dm)
  have d: "drop (i - 1) ?buf = digit_char (?n mod ?b) # drop i buf"
    using i0 1(5) Cons_nth_drop_Suc [of "i - 1" ?buf] by simp
  show ?case
  proof (cases "?n div ?b = 0")
    case True
    then have "fill_back buf i x base = Some (?buf, i - 1)" by (subst fill_back_step) (simp add: b0 c set nz del: One_nat_def)
    moreover have "?buf = take (i - 1) buf @ digit_char (?n mod ?b) # drop i buf"
      using append_take_drop_id [of "i - 1" ?buf] unfolding d by simp
    ultimately show ?thesis using True by (simp add: st Let_def)
  next
    case False
    let ?ds = "low_digits ?b (?n div ?b)"
    have ds: "low_digits ?b ?n = ?n mod ?b # ?ds" using False st by simp
    have le: "length (low_digits ?b (unat (x div base))) \<le> i - 1" "i - 1 \<le> length ?buf" using 1(4,5) ds dm by simp_all
    have "fill_back buf i x base = fill_back ?buf (i - 1) (x div base) base"
      using False by (subst fill_back_step) (simp add: b0 c set nz del: One_nat_def)
    also have "\<dots> = Some (take (i - 1 - length ?ds) ?buf @ map digit_char (rev ?ds) @ drop (i - 1) ?buf, i - 1 - length ?ds)"
      using 1(1) [OF b0 c set _ 1(2,3) le] False nz dm by (simp add: Let_def)
    also have "take (i - 1 - length ?ds) ?buf = take (i - 1 - length ?ds) buf" by simp
    finally show ?thesis unfolding ds d by (simp add: Let_def)
  qed
qed

lemma fprint_int64_run:
  assumes "base = 10 \<or> base = 16" and "printable xx sign"
  shows "fprint_int64 fwrite xx base sign s = kseq (fwrite (int_text (unat base) (shown xx sign))) (kret ()) s"
proof -
  have b: "2 \<le> unat base" "unat base \<le> 16" using assms(1) by auto
  obtain x where x: "magnitude xx (sign \<and> sint xx < 0) = Some x" "unat x = nat \<bar>shown xx sign\<bar>" by (rule magnitude_run [OF assms(2)])
  define ds where "ds = low_digits (unat base) (unat x)"
  have "room_for LENGTH(64) (unat base) 32" using assms(1) room_64 by auto
  from room_length [OF this b(1), of x] have len: "length ds < 32" unfolding ds_def .
  let ?buf = "replicate (32 - length ds) 0 @ map digit_char (rev ds)"
  have f: "fill_back (replicate 32 0) 32 x base = Some (?buf, 32 - length ds)"
    using fill_back_run [OF b, of x 32 "replicate 32 0"] len by (simp add: ds_def Let_def)
  have neg: "(sign \<and> sint xx < 0) = (shown xx sign < 0)" by (simp add: shown_def)
  have tx: "int_text (unat base) (shown xx sign) = (if shown xx sign < 0 then [of_char (CHR ''-'')] else []) @ map digit_char (rev ds)"
    by (simp add: int_text_def ds_def x(2))
  show ?thesis
  proof (cases "shown xx sign < 0")
    case True
    let ?j = "31 - length ds"
    have j: "32 - length ds = Suc ?j" using len by simp
    have r: "replicate (32 - length ds) 0 = replicate ?j 0 @ [0 :: u8]" unfolding j by (simp add: replicate_append_same)
    have d: "drop ?j (?buf[?j := 45]) = 45 # map digit_char (rev ds)" unfolding r by (simp add: list_update_append)
    have set: "arr_set ?buf ?j 45 = Some (?buf[?j := 45])" using len by simp
    show ?thesis using True x(1) len set d unfolding fprint_int64_def neg tx by (simp add: f)
  next
    case False
    then show ?thesis using x(1) len unfolding fprint_int64_def neg tx by (simp add: f)
  qed
qed

lemma not_printable: "\<not> printable xx sign \<Longrightarrow> magnitude xx (sign \<and> sint xx < 0) = None"
  by (simp add: printable_def magnitude_def)

text \<open>
  C36. The two routines that print a 64-bit number agree: \<open>__fprint_int64\<close>, which fills its buffer from the end and writes it in
  one piece, puts on the console what \<open>printint64\<close> does, which fills its buffer from the front and sends it backwards. This
  holds for every number, the least included, on which both are undefined.
\<close>

theorem fprint_int64_is_printint64:
  assumes "base = 10 \<or> base = 16"
  shows "fprint_int64 (\<lambda>bs. kseq (putchars bs) (kret (int (length bs)))) xx base sign s = printint64 xx base sign s"
proof (cases "printable xx sign")
  case True
  show ?thesis unfolding fprint_int64_run [OF assms True] printint64_run [OF assms True] by (simp add: putchars_run)
next
  case False
  show ?thesis unfolding fprint_int64_def printint64_def print_number_def Let_def not_printable [OF False] by simp
qed

theorem fprint_int64_is_printint64_witness:
  "fprint_int64 (\<lambda>bs. kseq (putchars bs) (kret (int (length bs)))) (- 305) 10 True demo_con = printint64 (- 305) 10 True demo_con"
  by (rule fprint_int64_is_printint64) simp

section \<open>What fprintf writes\<close>

text \<open>
  The bytes that a format stands for: unlike those of \<open>printf\<close>, they end with the byte that ends the format, every
  conversion takes an argument while there is one, and a conversion that the type of its argument does not offer has no text.
\<close>

definition fpiece :: "u8 \<Rightarrow> farg \<Rightarrow> u8 list option" where
  "fpiece c x = (if is_spec c then (case x of
      F_Int v \<Rightarrow> if c = of_char (CHR ''d'') then if printable v True then Some (int_text 10 (sint v)) else None
        else if c = of_char (CHR ''x'') then Some (int_text 16 (uint v)) else None
    | F_Ptr v \<Rightarrow> if c = of_char (CHR ''p'') then Some (ptr_text v) else None
    | F_Str q \<Rightarrow> if c = of_char (CHR ''s'') then str_text q else None)
    else if c = of_char (CHR ''%'') then Some [c] else Some [of_char (CHR ''%''), c])"

fun rest_text :: "u8 list \<Rightarrow> u8 list option" where
  "rest_text [] = Some [0]"
| "rest_text (c # cs) = (if c \<noteq> of_char (CHR ''%'') then map_option ((#) c) (rest_text cs)
    else case cs of [] \<Rightarrow> None
      | d # ds \<Rightarrow> map_option ((@) (if d = of_char (CHR ''%'') then [c] else [c, d])) (rest_text ds))"

fun fformatted :: "u8 list \<Rightarrow> farg list \<Rightarrow> u8 list option" where
  "fformatted cs [] = rest_text cs"
| "fformatted [] (x # xs) = Some [0]"
| "fformatted (c # cs) (x # xs) = (if c \<noteq> of_char (CHR ''%'') then map_option ((#) c) (fformatted cs (x # xs))
    else case cs of [] \<Rightarrow> None
      | d # ds \<Rightarrow> case fpiece d x of None \<Rightarrow> None | Some t \<Rightarrow> map_option ((@) t) (fformatted ds xs))"

lemma spec_index_run:
  assumes "terminated fmt"
  obtains p c cs where "fmt = p @ c # cs" "spec_index fmt = Some (length p)" "c = 0 \<or> c = of_char (CHR ''%'')"
    "\<forall>d\<in>set p. d \<noteq> 0 \<and> d \<noteq> of_char (CHR ''%'')"
proof -
  have "\<exists>p c cs. fmt = p @ c # cs \<and> spec_index fmt = Some (length p) \<and> (c = 0 \<or> c = of_char (CHR ''%'')) \<and>
      (\<forall>d\<in>set p. d \<noteq> 0 \<and> d \<noteq> of_char (CHR ''%''))"
    using assms
  proof (induction fmt)
    case (Cons a fmt)
    show ?case
    proof (cases "a = 0 \<or> a = of_char (CHR ''%'')")
      case True
      then show ?thesis by (intro exI [of _ "[]"]) simp
    next
      case False
      then obtain p c cs where "fmt = p @ c # cs" "spec_index fmt = Some (length p)" "c = 0 \<or> c = of_char (CHR ''%'')"
        "\<forall>d\<in>set p. d \<noteq> 0 \<and> d \<noteq> of_char (CHR ''%'')" using Cons by auto
      then show ?thesis using False by (intro exI [of _ "a # p"] exI [of _ c] exI [of _ cs]) simp
    qed
  qed simp
  then show thesis using that by blast
qed

lemma cstr_append: "0 \<notin> set p \<Longrightarrow> cstr (p @ q) = p @ cstr q"
  by (induction p) auto

lemma fformatted_plain:
  "of_char (CHR ''%'') \<notin> set p \<Longrightarrow> fformatted (p @ cs) (x # xs) = map_option ((@) p) (fformatted cs (x # xs))"
  by (induction p) (cases "fformatted cs (x # xs)"; simp)+

lemma kbind_Some: "kbind (kopt (Some x)) f = f x"
  by (rule ext) simp

text \<open>A sink accepts every piece of text and keeps it behind what it has.\<close>

locale text_sink =
  fixes fwrite :: "'s writer" and written :: "'s \<Rightarrow> u8 list" and ready :: "'s \<Rightarrow> bool"
  assumes write_appends: "ready s \<Longrightarrow> \<exists>n s'. fwrite bs s = (Inr n, s') \<and> ready s' \<and> written s' = written s @ bs"
begin

lemma write_run:
  assumes "ready s"
  obtains n s' where "fwrite bs s = (Inr n, s')" "ready s'" "written s' = written s @ bs"
  using write_appends [OF assms, of bs] by blast

lemma fprint_run:
  assumes "ready s" and "fpiece c x = Some t" and "is_spec c"
  shows "\<exists>s'. fprint fwrite x c s = (Inr (), s') \<and> ready s' \<and> written s' = written s @ t"
proof -
  obtain n s' where w: "fwrite t s = (Inr n, s')" "ready s'" "written s' = written s @ t" by (rule write_run [OF assms(1)])
  have "fprint fwrite x c s = kseq (fwrite t) (kret ()) s"
  proof (cases x)
    case (F_Int v)
    have b: "(10 :: 64 word) = 10 \<or> (10 :: 64 word) = 16" "(16 :: 64 word) = 10 \<or> (16 :: 64 word) = 16" by simp_all
    have p: "printable v False" by (simp add: printable_def)
    consider (dec) "c = of_char (CHR ''d'')" "printable v True" "t = int_text 10 (sint v)" | (hex) "c = of_char (CHR ''x'')" "t = int_text 16 (uint v)"
      using assms(2,3) F_Int by (auto simp: fpiece_def split: if_splits)
    then show ?thesis
    proof cases
      case dec
      then show ?thesis using fprint_int64_run [OF b(1) dec(2)] by (simp add: F_Int fprint_def fprint_int_def shown_def)
    next
      case hex
      then show ?thesis using fprint_int64_run [OF b(2) p] by (simp add: F_Int fprint_def fprint_int_def shown_def)
    qed
  next
    case (F_Ptr v)
    have "ascii ''0x'' @ map (\<lambda>k. digit_char (unat (drop_bit 60 (push_bit (4 * k) v)))) [0..<16] = ptr_text v"
      by (simp add: ptr_text_def top_digit del: upt_Suc upt_rec_numeral)
    moreover have "length (ptr_text v) = 18" by (simp add: ptr_text_def ascii_def del: upt_Suc upt_rec_numeral)
    ultimately have "take 18 (ascii ''0x'' @ map (\<lambda>k. digit_char (unat (drop_bit 60 (push_bit (4 * k) v)))) [0..<16] @ replicate 14 0) = ptr_text v"
      unfolding append_assoc [symmetric] by simp
    moreover have "t = ptr_text v" "\<not> c \<noteq> of_char (CHR ''p'')" using assms(2,3) F_Ptr by (auto simp: fpiece_def split: if_splits)
    ultimately show ?thesis unfolding F_Ptr fprint_def farg.case fprint_ptr_def hex_loop_run kbind_Some Let_def by (simp only: if_False)
  next
    case (F_Str q)
    have t: "str_text q = Some t" "c = of_char (CHR ''s'')" using assms(2,3) F_Str by (auto simp: fpiece_def split: if_splits)
    have n: "take (length (cstr r)) r = cstr r" for r by (induction r) auto
    show ?thesis using t unfolding F_Str
      by (cases q) (auto simp: fprint_def fprint_str_def str_text_def strlen_run n null_text_def ascii_def split: if_splits)
  qed
  then show ?thesis using w by simp
qed

lemma fprintf_rest_run:
  assumes "ready s" and "terminated (drop i fmt)" and "rest_text (cstr (drop i fmt)) = Some t"
  shows "\<exists>s'. fprintf_rest fwrite fmt i s = (Inr (), s') \<and> ready s' \<and> written s' = written s @ take i fmt @ t"
  using assms
proof (induction "length fmt - i" arbitrary: fmt i s t rule: less_induct)
  case less
  have i: "i < length fmt" using less(3) by (cases "i < length fmt") auto
  define c where "c = fmt ! i"
  have d: "drop i fmt = c # drop (Suc i) fmt" using Cons_nth_drop_Suc [OF i] by (simp add: c_def)
  have tk: "take (Suc i) fmt = take i fmt @ [c]" using i by (simp add: c_def take_Suc_conv_app_nth)
  have g: "arr_get fmt i = Some c" using i by (simp add: c_def)
  consider (nul) "c = 0" | (plain) "c \<noteq> 0" "c \<noteq> of_char (CHR ''%'')" | (spec) "c = of_char (CHR ''%'')" by blast
  then show ?case
  proof cases
    case nul
    obtain n s' where w: "fwrite (take (Suc i) fmt) s = (Inr n, s')" "ready s'" "written s' = written s @ take (Suc i) fmt" by (rule write_run [OF less(2)])
    have "t = [0]" using less(4) nul d by simp
    then show ?thesis using w nul tk by (subst fprintf_rest.simps) (simp add: g)
  next
    case plain
    obtain t' where t': "rest_text (cstr (drop (Suc i) fmt)) = Some t'" "t = c # t'" using less(4) plain d by auto
    have "fprintf_rest fwrite fmt i = fprintf_rest fwrite fmt (Suc i)" using plain by (subst fprintf_rest.simps) (simp add: g)
    then show ?thesis using less(1) [of fmt "Suc i" s t'] less(2,3) t' plain d tk i by simp
  next
    case spec
    then obtain e es where e: "drop (Suc i) fmt = e # es" "e \<noteq> 0" using less(3,4) d by (cases "drop (Suc i) fmt") (auto split: if_splits)
    then have es: "es = drop (i + 2) fmt" by (metis add_2_eq_Suc' drop_Suc drop_drop list.sel(3) tl_drop)
    have i1: "Suc i < length fmt" using e(1) by (cases "Suc i < length fmt") auto
    have ge: "arr_get fmt (Suc i) = Some e" using e(1) i1 by (simp add: nth_via_drop)
    obtain t' where t': "rest_text (cstr es) = Some t'" "t = (if e = of_char (CHR ''%'') then [c] else [c, e]) @ t'"
      using less(4) d e spec by (auto split: if_splits)
    have tm: "terminated es" using less(3) d e spec by simp
    show ?thesis
    proof (cases "e = of_char (CHR ''%'')")
      case True
      obtain n s' where w: "fwrite (take (Suc i) fmt) s = (Inr n, s')" "ready s'" "written s' = written s @ take (Suc i) fmt" by (rule write_run [OF less(2)])
      have "fprintf_rest fwrite fmt i s = fprintf_rest fwrite es 0 s'" using True w(1) spec unfolding es by (subst fprintf_rest.simps) (simp add: g ge)
      moreover have "length es - 0 < length fmt - i" using i1 by (simp add: es)
      ultimately show ?thesis using less(1) [of es 0 s' t'] w(2,3) t' tm True tk by simp
    next
      case False
      have "fprintf_rest fwrite fmt i = fprintf_rest fwrite fmt (i + 2)" using False e(2) spec by (subst fprintf_rest.simps) (simp add: g ge)
      moreover have "take (i + 2) fmt = take i fmt @ [c, e]" using tk i1 ge by (simp add: take_Suc_conv_app_nth)
      moreover have "length fmt - (i + 2) < length fmt - i" using i1 by simp
      ultimately show ?thesis using less(1) [of fmt "i + 2" s t'] less(2) t' tm False unfolding es by simp
    qed
  qed
qed

lemma fprintf_args_run:
  assumes "ready s" and "terminated fmt" and "fformatted (cstr fmt) xs = Some t"
  shows "\<exists>s'. fprintf_args fwrite xs fmt s = (Inr (), s') \<and> ready s' \<and> written s' = written s @ t"
  using assms
proof (induction xs arbitrary: fmt s t)
  case Nil
  then show ?case using fprintf_rest_run [of s 0 fmt t] by simp
next
  case (Cons x xs)
  obtain p c cs where f: "fmt = p @ c # cs" "spec_index fmt = Some (length p)" "c = 0 \<or> c = of_char (CHR ''%'')"
    "\<forall>d\<in>set p. d \<noteq> 0 \<and> d \<noteq> of_char (CHR ''%'')" by (rule spec_index_run [OF Cons.prems(2)])
  have p: "0 \<notin> set p" "of_char (CHR ''%'') \<notin> set p" using f(4) by blast+
  have at: "fmt ! length p = c" "take (length p) fmt = p" by (simp_all add: f(1))
  obtain t' where t': "fformatted (cstr (c # cs)) (x # xs) = Some t'" "t = p @ t'"
    using Cons.prems(3) unfolding f(1) cstr_append [OF p(1)] fformatted_plain [OF p(2)] by auto
  show ?case
  proof (cases "c = 0")
    case True
    obtain n s' where w: "fwrite (take (Suc (length p)) fmt) s = (Inr n, s')" "ready s'" "written s' = written s @ take (Suc (length p)) fmt"
      by (rule write_run [OF Cons.prems(1)])
    have "t = take (Suc (length p)) fmt" using t' True by (simp add: f(1))
    then show ?thesis using w f(2) at(1) True by simp
  next
    case False
    then have c: "c = of_char (CHR ''%'')" using f(3) by blast
    then obtain d ds where d: "cs = d # ds" "d \<noteq> 0" using t'(1) by (cases cs) (auto split: if_splits)
    obtain u t'' where u: "fpiece d x = Some u" "fformatted (cstr ds) xs = Some t''" "t' = u @ t''"
      using t'(1) c d by (auto split: option.splits)
    have g: "arr_get fmt (length p + 1) = Some d" "drop (length p + 2) fmt = ds" "take 2 (drop (length p) fmt) = [c, d]"
      by (simp_all add: f(1) d(1) nth_append)
    have "terminated ds" using Cons.prems(2) p(1) c d by (auto simp: f(1) terminated_def)
    have "\<exists>s1. (if length p > 0 then kseq (fwrite p) (kret ()) else kret ()) s = (Inr (), s1) \<and> ready s1 \<and> written s1 = written s @ p"
      using write_appends [OF Cons.prems(1), of p] Cons.prems(1) by auto
    then obtain s1 where s1: "(if length p > 0 then kseq (fwrite p) (kret ()) else kret ()) s = (Inr (), s1)" "ready s1" "written s1 = written s @ p" by blast
    let ?l = "if length p > 0 then kseq (fwrite p) (kret ()) else kret ()"
    let ?m = "if is_spec d then fprint fwrite x d else if d = of_char (CHR ''%'') then kseq (fwrite (ascii ''%'')) (kret ())
      else kseq (fwrite [c, d]) (kret ())"
    have "\<exists>s2. ?m s1 = (Inr (), s2) \<and> ready s2 \<and> written s2 = written s1 @ u"
    proof (cases "is_spec d")
      case True
      then show ?thesis using fprint_run [OF s1(2) u(1) True] by simp
    next
      case False
      then show ?thesis using u(1) write_appends [OF s1(2), of u] c by (auto simp: fpiece_def ascii_def split: if_splits)
    qed
    then obtain s2 where s2: "?m s1 = (Inr (), s2)" "ready s2" "written s2 = written s1 @ u" by blast
    have "fprintf_args fwrite (x # xs) fmt s = kseq ?l (kseq ?m (fprintf_args fwrite xs ds)) s"
      unfolding fprintf_args.simps f(2) kbind_Some at g if_not_P [OF False] ..
    then have "fprintf_args fwrite (x # xs) fmt s = fprintf_args fwrite xs ds s2" unfolding kseq_Inr [where m = ?l, OF s1(1)] kseq_Inr [where m = ?m, OF s2(1)] .
    then show ?thesis using Cons.IH [OF s2(2) \<open>terminated ds\<close> u(2)] s2(3) s1(3) t'(2) u(3) by simp
  qed
qed

text \<open>The dump of the trace asks for an integer to be printed as a pointer, which fails at the first entry.\<close>

lemma print_trace_run:
  assumes "ready s" and "i < length row"
  shows "\<exists>s'. print_trace fwrite row i s = (Inl Task_Fail, s') \<and> written s' = written s @ ascii ''traceback: '' @ [0]"
proof -
  have "fformatted (cstr (cstring (ascii ''traceback: ''))) [] = Some (ascii ''traceback: '' @ [0])" by code_simp
  moreover have "terminated (cstring (ascii ''traceback: ''))" by code_simp
  ultimately obtain s' where s': "fprintf_args fwrite [] (cstring (ascii ''traceback: '')) s = (Inr (), s')"
      "written s' = written s @ ascii ''traceback: '' @ [0]"
    using fprintf_args_run [OF assms(1)] by blast
  have "fprintf_args fwrite [F_Int v] (cstring (ascii ''%p '')) s' = (Inl Task_Fail, s')" for v
    by (simp add: cstring_def ascii_def is_spec_def fprint_def fprint_int_def)
  then have e: "print_entries fwrite (Suc n) row i s' = (Inl Task_Fail, s')" for n using assms(2) by simp
  have m: "MAX_TRACE_CNT = Suc 63" by (simp add: MAX_TRACE_CNT_def)
  have "print_entries fwrite MAX_TRACE_CNT row i s' = (Inl Task_Fail, s')" unfolding m by (rule e)
  then show ?thesis using s' by (simp add: print_trace_def)
qed

end

section \<open>The console is a sink\<close>

definition console_ready :: "con ofile \<Rightarrow> bool" where
  "console_ready f \<longleftrightarrow> f_inode f \<and> (f_in_rw f \<or> \<not> in_use f)"

lemma console_write_run:
  "console_ready f \<Longrightarrow> console_write bs f = (Inr (int (length bs)), f\<lparr>world := world f\<lparr>con_out := con_out (world f) @ bs\<rparr>\<rparr>)"
  by (cases f; cases "f_in_rw f") (auto simp: console_write_def console_ready_def rw_lock_def rw_unlock_def inode_get_def inode_put_def console_inode_ops_def on_world_def putchars_run)

interpretation console_sink: text_sink console_write "\<lambda>f. con_out (world f)" console_ready
  by unfold_locales (simp add: console_write_run, simp add: console_ready_def)

text \<open>
  C35. \<open>fprintf\<close> on the console writes the text that the format and the arguments stand for, followed by the zero byte that ends the
  format, and leaves the file unlocked: percent signs, numbers of 64 bits in both bases, pointers and strings, with every
  piece written through the virtual method.
\<close>

theorem fprintf_writes_text:
  assumes "console_ready f" and "terminated fmt" and "fformatted (cstr fmt) xs = Some t"
  shows "\<exists>f'. fprintf console_write fmt xs f = (Inr (), f') \<and> con_out (world f') = con_out (world f) @ t \<and> \<not> f_in_rw f' \<and> \<not> in_use f'"
proof -
  obtain f' where f': "fprintf_args console_write xs fmt f = (Inr (), f')" "console_ready f'" "con_out (world f') = con_out (world f) @ t"
    using console_sink.fprintf_args_run [OF assms] by blast
  have "file_unlock f' = (Inr (), f'\<lparr>f_in_rw := False, in_use := False\<rparr>)"
    using f'(2) by (cases f') (simp add: file_unlock_def rw_unlock_def inode_put_def console_ready_def)
  then show ?thesis using f' by (simp add: fprintf_def)
qed

theorem fprintf_writes_text_witness:
  "\<exists>f'. fprintf console_write (cstring (ascii ''n=%d %s%x'')) [F_Int (- 7), F_Str None, F_Int 254] (new_file demo_con) = (Inr (), f') \<and>
    con_out (world f') = ascii ''n=-7 (null)fe'' @ [0]"
proof -
  have "fformatted (cstr (cstring (ascii ''n=%d %s%x''))) [F_Int (- 7), F_Str None, F_Int 254] = Some (ascii ''n=-7 (null)fe'' @ [0])"
    by code_simp
  moreover have "terminated (cstring (ascii ''n=%d %s%x''))" by code_simp
  moreover have "console_ready (new_file demo_con)" by (simp add: console_ready_def new_file_def)
  ultimately show ?thesis
    using fprintf_writes_text [of "new_file demo_con" "cstring (ascii ''n=%d %s%x'')" "[F_Int (- 7), F_Str None, F_Int 254]"]
    by (fastforce simp: new_file_def demo_con_def)
qed

text \<open>
  \<open>print_trace\<close> of the file logger never succeeds: the format asks for a pointer and the argument is an integer, so after the
  heading the first entry makes the task fail.
\<close>

lemma print_trace_fails:
  assumes "console_ready f" and "i < length row"
  shows "\<exists>f'. print_trace console_write row i f = (Inl Task_Fail, f') \<and> con_out (world f') = con_out (world f) @ ascii ''traceback: '' @ [0]"
  by (rule console_sink.print_trace_run [OF assms])

lemma print_trace_fails_witness:
  "\<exists>f'. print_trace console_write (replicate 64 5) 3 (new_file demo_con) = (Inl Task_Fail, f') \<and> con_out (world f') = ascii ''traceback: '' @ [0]"
  using print_trace_fails [of "new_file demo_con" 3 "replicate 64 5"] by (simp add: console_ready_def new_file_def demo_con_def)

section \<open>Log lines and traces\<close>

text \<open>
  A line of the console logger. The time is a 64-bit number of microseconds printed as an \<open>int\<close>: its low half, signed.
\<close>

lemma log_line_run:
  assumes "get_time_us s = (Inr us, s)" and "r_tp s = (Inr core, s)"
    and "formatted (cstr log_prefix) [Slot color, Slot us, Str (Some (cstring (log_level_str level))), Slot core] = Some p"
    and "terminated fmt" and "formatted (cstr fmt) args = Some t"
  shows "log_vprintf level color fmt args s = (Inr 0, s\<lparr>con_out := con_out s @ p @ t @ 27 # ascii ''[0m''\<rparr>)"
proof -
  have "terminated log_prefix" "terminated log_suffix" by code_simp+
  moreover have "formatted (cstr log_suffix) [] = Some (27 # ascii ''[0m'')" by code_simp
  ultimately show ?thesis
    using assms(1,2) vprintf_run [OF _ assms(3)] vprintf_run [OF assms(4,5)] by (simp add: log_vprintf_def vprintf_run)
qed

text \<open>The trace of a core: its last entry is the one pushed last, and the other cores' are as they were.\<close>

definition tracer_wf :: "tracer \<Rightarrow> bool" where
  "tracer_wf s \<longleftrightarrow> length (trace_pool s) = NCPU \<and> length (trace_last s) = NCPU \<and> (\<forall>row\<in>set (trace_pool s). length row = MAX_TRACE_CNT) \<and>
    (\<forall>n\<in>set (trace_last s). n < MAX_TRACE_CNT)"

lemma new_tracer_wf: "tracer_wf new_tracer"
  by (simp add: tracer_wf_def new_tracer_def MAX_TRACE_CNT_def)

lemma push_trace_last:
  assumes "tracer_wf s" and "c < NCPU"
  obtains s' where "push_trace c v s = (Inr (), s')" "tracer_wf s'" "get_last_trace c s' = (Inr v, s')"
    "\<And>d. d < NCPU \<Longrightarrow> d \<noteq> c \<Longrightarrow> fst (get_last_trace d s') = fst (get_last_trace d s)"
proof -
  define n where "n = Suc (trace_last s ! c) mod MAX_TRACE_CNT"
  define s' where "s' = s\<lparr>trace_pool := (trace_pool s)[c := (trace_pool s ! c)[n := v]], trace_last := (trace_last s)[c := n]\<rparr>"
  have n: "n < MAX_TRACE_CNT" by (simp add: n_def MAX_TRACE_CNT_def)
  have len: "length (trace_pool s) = NCPU" "length (trace_last s) = NCPU" "length (trace_pool s ! c) = MAX_TRACE_CNT"
    using assms by (simp_all add: tracer_wf_def)
  have "push_trace c v s = (Inr (), s')" using assms(2) len n by (simp add: push_trace_def s'_def n_def)
  moreover have "tracer_wf s'" using assms len n by (auto simp: tracer_wf_def s'_def dest!: set_update_subset_insert [THEN subsetD])
  moreover have "get_last_trace c s' = (Inr v, s')" using assms(2) len n by (simp add: get_last_trace_def s'_def)
  moreover have "fst (get_last_trace d s') = fst (get_last_trace d s)" if "d < NCPU" "d \<noteq> c" for d
    using that len assms(1) by (simp add: get_last_trace_def s'_def tracer_wf_def)
  ultimately show thesis by (rule that)
qed

end
