(* ===== verification/Buffer_Guard.thy ===== *)
theory Buffer_Guard
  imports Prelude
begin

text \<open>
  Guards of buffers: class \<open>reference_guard\<close> and the mutex and flags of \<open>referenceable_buffer\<close> (\<open>src/os/utils/buffer.h\<close>). Guards are objects
  in a store; a guard points to a buffer and says whether it holds it. Loading a buffer is virtual and an argument here: whether
  it succeeds. Waiting for the mutex of a buffer that is in use is \<open>Out_Of_Fuel\<close>, since only the caller could release it.
\<close>

section \<open>Buffers and guards\<close>

record rbuf =
  in_use_mutex :: bool
  rb_valid :: bool
  rb_dirty :: bool

record guard =
  g_ptr :: "nat option"
  g_hold :: bool

record gstore =
  rbufs :: "nat \<Rightarrow> rbuf"
  guards :: "nat \<rightharpoonup> guard"

type_synonym 'a gm = "(gstore, 'a) kmonad"

definition rbuf_mod :: "nat \<Rightarrow> (rbuf \<Rightarrow> rbuf) \<Rightarrow> unit gm" where
  "rbuf_mod b f = kmod (rbufs_update (\<lambda>m. m(b := f (m b))))"

definition new_rbuf :: rbuf where
  "new_rbuf = \<lparr>in_use_mutex = False, rb_valid = False, rb_dirty = False\<rparr>"

definition rb_load :: "(nat \<Rightarrow> bool) \<Rightarrow> nat \<Rightarrow> unit gm" where
  "rb_load loads b = kbind (kget rbufs) (\<lambda>m.
    if \<not> rb_valid (m b) then if loads b then rbuf_mod b (\<lambda>x. x\<lparr>rb_valid := True, rb_dirty := False\<rparr>) else kthrow Task_Fail
    else kret ())"

definition rb_get :: "(nat \<Rightarrow> bool) \<Rightarrow> nat \<Rightarrow> unit gm" where
  "rb_get loads b = kbind (kget rbufs) (\<lambda>m.
    if in_use_mutex (m b) then kthrow Out_Of_Fuel else kseq (rbuf_mod b (in_use_mutex_update (\<lambda>_. True))) (
      rb_load loads b))"

definition rb_put :: "nat \<Rightarrow> unit gm" where
  "rb_put b = rbuf_mod b (in_use_mutex_update (\<lambda>_. False))"

definition rb_mark_clean :: "nat \<Rightarrow> unit gm" where
  "rb_mark_clean b = rbuf_mod b (rb_dirty_update (\<lambda>_. False))"

definition rb_mark_invalid :: "nat \<Rightarrow> unit gm" where
  "rb_mark_invalid b = rbuf_mod b (rb_valid_update (\<lambda>_. False))"

definition rb_mark_valid :: "nat \<Rightarrow> unit gm" where
  "rb_mark_valid b = rbuf_mod b (rb_valid_update (\<lambda>_. True))"

definition flush_needed :: "rbuf \<Rightarrow> bool" where
  "flush_needed x \<longleftrightarrow> rb_valid x \<and> rb_dirty x"

text \<open>A guard that is not there is a dangling reference.\<close>

definition guard_at :: "nat \<Rightarrow> guard gm" where
  "guard_at g = kbind (kget guards) (\<lambda>m. kopt (m g))"

definition guard_set :: "nat \<Rightarrow> guard \<Rightarrow> unit gm" where
  "guard_set g x = kmod (guards_update (\<lambda>m. m(g \<mapsto> x)))"

text \<open>The constructors make the object \<open>g\<close>.\<close>

definition guard_empty :: "nat \<Rightarrow> unit gm" where
  "guard_empty g = guard_set g \<lparr>g_ptr = None, g_hold = False\<rparr>"

definition guard_of :: "nat \<Rightarrow> nat \<Rightarrow> unit gm" where
  "guard_of g b = guard_set g \<lparr>g_ptr = Some b, g_hold = True\<rparr>"

definition get_ref :: "(nat \<Rightarrow> bool) \<Rightarrow> nat \<Rightarrow> nat \<Rightarrow> unit gm" where
  "get_ref loads g b = kseq (rb_get loads b) (
    guard_of g b)"

definition guard_move :: "nat \<Rightarrow> nat \<Rightarrow> unit gm" where
  "guard_move g h = kbind (guard_at h) (\<lambda>x.
    kseq (guard_set g x) (
    guard_set h (x\<lparr>g_hold := False\<rparr>)))"

definition guard_assign :: "nat \<Rightarrow> nat \<Rightarrow> unit gm" where
  "guard_assign g h = kbind (guard_at g) (\<lambda>x.
    kbind (guard_at h) (\<lambda>y.
    kseq (guard_set g y) (
    guard_set h x)))"

definition guard_get :: "(nat \<Rightarrow> bool) \<Rightarrow> nat \<Rightarrow> nat option gm" where
  "guard_get loads g = kbind (guard_at g) (\<lambda>x.
    if \<not> g_hold x then kbind (kopt (g_ptr x)) (\<lambda>b.
      kseq (rb_get loads b) (
      kseq (guard_set g (x\<lparr>g_hold := True\<rparr>)) (
      kret (g_ptr x))))
    else kret (g_ptr x))"

definition guard_put :: "nat \<Rightarrow> unit gm" where
  "guard_put g = kbind (guard_at g) (\<lambda>x.
    if \<not> g_hold x then kthrow (Panic ''reference_guard::put() called twice'') else kseq (guard_set g (x\<lparr>g_hold := False\<rparr>)) (
      kbind (kopt (g_ptr x)) (\<lambda>b. rb_put b)))"

definition guard_destroy :: "nat \<Rightarrow> unit gm" where
  "guard_destroy g = kbind (guard_at g) (\<lambda>x.
    kseq (if g_hold x then kbind (kopt (g_ptr x)) (\<lambda>b. rb_put b) else kret ()) (
    kmod (guards_update (\<lambda>m. m(g := None)))))"

section \<open>Programs over guards\<close>

text \<open>What a program can do with guards; a constructor needs an object that does not exist.\<close>

datatype guard_op = G_Empty nat | G_Ref nat nat | G_Move nat nat | G_Assign nat nat | G_Get nat | G_Put nat | G_Destroy nat

definition fresh :: "nat \<Rightarrow> unit gm \<Rightarrow> unit gm" where
  "fresh g m = kbind (kget guards) (\<lambda>gs. if gs g = None then m else kthrow Undefined)"

fun guard_step :: "(nat \<Rightarrow> bool) \<Rightarrow> guard_op \<Rightarrow> unit gm" where
  "guard_step loads (G_Empty g) = fresh g (guard_empty g)"
| "guard_step loads (G_Ref g b) = fresh g (get_ref loads g b)"
| "guard_step loads (G_Move g h) = fresh g (guard_move g h)"
| "guard_step loads (G_Assign g h) = guard_assign g h"
| "guard_step loads (G_Get g) = kseq (guard_get loads g) (kret ())"
| "guard_step loads (G_Put g) = guard_put g"
| "guard_step loads (G_Destroy g) = guard_destroy g"

primrec guard_run :: "(nat \<Rightarrow> bool) \<Rightarrow> guard_op list \<Rightarrow> unit gm" where
  "guard_run loads [] = kret ()"
| "guard_run loads (x # xs) = kseq (guard_step loads x) (
  guard_run loads xs)"

section \<open>Ownership\<close>

definition holds :: "gstore \<Rightarrow> nat \<Rightarrow> nat \<Rightarrow> bool" where
  "holds s g b \<longleftrightarrow> (\<exists>x. guards s g = Some x \<and> g_hold x \<and> g_ptr x = Some b)"

text \<open>A buffer is in use exactly when one guard holds it, no two guards hold the same buffer, and a guard that holds has a buffer.\<close>

definition owned :: "gstore \<Rightarrow> bool" where
  "owned s \<longleftrightarrow> (\<forall>b. in_use_mutex (rbufs s b) \<longleftrightarrow> (\<exists>g. holds s g b)) \<and>
    (\<forall>g h b. holds s g b \<longrightarrow> holds s h b \<longrightarrow> g = h) \<and>
    (\<forall>g x. guards s g = Some x \<longrightarrow> g_hold x \<longrightarrow> g_ptr x \<noteq> None)"

lemma rbuf_mod_run: "rbuf_mod b f s = (Inr (), s\<lparr>rbufs := (rbufs s)(b := f (rbufs s b))\<rparr>)"
  by (cases s) (simp add: rbuf_mod_def)

lemma guard_set_run: "guard_set g x s = (Inr (), s\<lparr>guards := (guards s)(g \<mapsto> x)\<rparr>)"
  by (cases s) (simp add: guard_set_def)

lemma guard_at_Inr: "guard_at g s = (Inr x, s') \<longleftrightarrow> guards s g = Some x \<and> s' = s"
  by (auto simp: guard_at_def split: option.splits)

text \<open>Taking a buffer succeeds only if it is free, and changes no guard.\<close>

lemma rb_get_Inr:
  assumes "rb_get loads b s = (Inr (), s')"
  shows "\<not> in_use_mutex (rbufs s b)" "guards s' = guards s" "in_use_mutex (rbufs s' b')= (in_use_mutex (rbufs s b') \<or> b' = b)"
  using assms by (auto simp: rb_get_def rb_load_def rbuf_mod_run split: if_splits)

lemma holds_upd: "holds (s\<lparr>guards := (guards s)(g \<mapsto> x)\<rparr>) h b \<longleftrightarrow> (if h = g then g_hold x \<and> g_ptr x = Some b else holds s h b)"
  by (simp add: holds_def)

lemma owned_take:
  assumes "owned s" and "rb_get loads b s = (Inr (), s1)" and "guards s g = None \<or> (\<exists>x. guards s g = Some x \<and> \<not> g_hold x)"
  shows "owned (s1\<lparr>guards := (guards s1)(g \<mapsto> \<lparr>g_ptr = Some b, g_hold = True\<rparr>)\<rparr>)"
proof -
  note r = rb_get_Inr [OF assms(2)]
  have h: "holds s1 = holds s" by (simp add: fun_eq_iff holds_def r(2))
  have n: "\<not> holds s g b'" for b' using assms(3) by (auto simp: holds_def)
  have no: "\<not> holds s g' b" for g' using assms(1) r(1) by (auto simp: owned_def)
  have 1: "in_use_mutex (rbufs s b') \<longleftrightarrow> (\<exists>g. holds s g b')" for b' using assms(1) by (simp add: owned_def)
  have 2: "holds s g' b' \<Longrightarrow> holds s h' b' \<Longrightarrow> g' = h'" for g' h' b' using assms(1) by (auto simp: owned_def)
  have 3: "guards s g' = Some x \<Longrightarrow> g_hold x \<Longrightarrow> g_ptr x \<noteq> None" for g' x using assms(1) by (auto simp: owned_def)
  let ?s = "s1\<lparr>guards := (guards s1)(g \<mapsto> \<lparr>g_ptr = Some b, g_hold = True\<rparr>)\<rparr>"
  have hs: "holds ?s g' b' \<longleftrightarrow> g' = g \<and> b' = b \<or> holds s g' b'" for g' b' using n by (auto simp: holds_upd h)
  have "in_use_mutex (rbufs ?s b') \<longleftrightarrow> (\<exists>g. holds ?s g b')" for b' unfolding hs using 1 r(3) by auto
  moreover have "holds ?s g' b' \<Longrightarrow> holds ?s h' b' \<Longrightarrow> g' = h'" for g' h' b' unfolding hs using 2 no by blast
  moreover have "guards ?s g' = Some x \<Longrightarrow> g_hold x \<Longrightarrow> g_ptr x \<noteq> None" for g' x using 3 r(2) by (auto split: if_splits)
  ultimately show ?thesis unfolding owned_def by blast
qed

lemma owned_release:
  assumes "owned s" and "guards s g = Some x" and "g_hold x" and "g_ptr x = Some b" and "y = None \<or> (\<exists>z. y = Some z \<and> \<not> g_hold z)"
  shows "owned (s\<lparr>guards := (guards s)(g := y), rbufs := (rbufs s)(b := (rbufs s b)\<lparr>in_use_mutex := False\<rparr>)\<rparr>)" (is "owned ?s")
proof -
  have h: "holds ?s h c \<longleftrightarrow> h \<noteq> g \<and> holds s h c" for h c using assms(5) by (auto simp: holds_def)
  have hb: "holds s g b" using assms(2-4) by (simp add: holds_def)
  have hg: "holds s g c \<Longrightarrow> c = b" for c using assms(2,4) by (auto simp: holds_def)
  have 1: "in_use_mutex (rbufs s b') \<longleftrightarrow> (\<exists>g. holds s g b')" for b' using assms(1) by (simp add: owned_def)
  have 2: "holds s g' b' \<Longrightarrow> holds s h' b' \<Longrightarrow> g' = h'" for g' h' b' using assms(1) by (auto simp: owned_def)
  have 3: "guards s g' = Some x \<Longrightarrow> g_hold x \<Longrightarrow> g_ptr x \<noteq> None" for g' x using assms(1) by (auto simp: owned_def)
  have "in_use_mutex (rbufs ?s c) \<longleftrightarrow> (\<exists>h. holds ?s h c)" for c
  proof (cases "c = b")
    case True
    then show ?thesis unfolding h using 2 hb by auto
  next
    case False
    then show ?thesis unfolding h using 1 [of c] hg by (auto, metis)
  qed
  moreover have "guards ?s g' = Some z \<Longrightarrow> g_hold z \<Longrightarrow> g_ptr z \<noteq> None" for g' z using 3 assms(5) by (auto split: if_splits)
  ultimately show ?thesis unfolding owned_def h using 2 by blast
qed

text \<open>Guards may be renamed: who holds what is permuted.\<close>

lemma owned_permute:
  assumes "owned s" and "bij p" and "rbufs s' = rbufs s" and "\<And>g b. holds s' g b \<longleftrightarrow> holds s (p g) b"
    and "\<And>g x. guards s' g = Some x \<Longrightarrow> g_hold x \<Longrightarrow> g_ptr x \<noteq> None"
  shows "owned s'"
proof -
  have "(\<exists>g. holds s (p g) b) \<longleftrightarrow> (\<exists>g. holds s g b)" for b using assms(2) by (metis bij_pointE)
  moreover have "p g = p h \<Longrightarrow> g = h" for g h using assms(2) by (simp add: bij_def inj_eq)
  ultimately show ?thesis using assms(1,3,4,5) unfolding owned_def by metis
qed

lemma bij_swapped: "bij (\<lambda>k. if k = g then h else if k = h then g else k)"
  by (rule involuntory_imp_bij) auto

lemma owned_ptr: "owned s \<Longrightarrow> guards s g = Some x \<Longrightarrow> g_hold x \<Longrightarrow> g_ptr x \<noteq> None"
  by (auto simp: owned_def)

lemma guard_get_owned:
  assumes "owned s" and "guard_get loads g s = (Inr v, s')"
  shows "owned s'"
proof -
  obtain y where y: "guards s g = Some y" using assms(2) by (auto simp: guard_get_def guard_at_Inr elim!: kbind_InrE)
  show ?thesis
  proof (cases "g_hold y")
    case True
    then have "s' = s" using y assms(2) by (simp add: guard_get_def guard_at_def)
    then show ?thesis using assms(1) by simp
  next
    case False
    then obtain b s1 where b: "g_ptr y = Some b" "rb_get loads b s = (Inr (), s1)" "s' = s1\<lparr>guards := (guards s1)(g \<mapsto> y\<lparr>g_hold := True\<rparr>)\<rparr>"
      using y assms(2) by (cases "g_ptr y") (auto simp: guard_get_def guard_at_def guard_set_run elim!: kseq_InrE)
    moreover have "y\<lparr>g_hold := True\<rparr> = \<lparr>g_ptr = Some b, g_hold = True\<rparr>" using b(1) by (cases y) simp
    ultimately show ?thesis using owned_take [OF assms(1) b(2), of g] y False by simp
  qed
qed

lemma guard_destroy_owned:
  assumes "owned s" and "guard_destroy g s = (Inr (), s')"
  shows "owned s'"
proof -
  obtain y where y: "guards s g = Some y" using assms(2) by (auto simp: guard_destroy_def guard_at_Inr elim!: kbind_InrE)
  show ?thesis
  proof (cases "g_hold y")
    case True
    then obtain b where b: "g_ptr y = Some b" using owned_ptr [OF assms(1) y] by auto
    then have "s' = s\<lparr>guards := (guards s)(g := None), rbufs := (rbufs s)(b := (rbufs s b)\<lparr>in_use_mutex := False\<rparr>)\<rparr>"
      using assms(2) y True by (cases s) (auto simp: guard_destroy_def guard_at_def rb_put_def rbuf_mod_run)
    then show ?thesis using owned_release [OF assms(1) y True b, of None] by simp
  next
    case False
    then have "s' = s\<lparr>guards := (guards s)(g := None)\<rparr>" using assms(2) y by (cases s) (auto simp: guard_destroy_def guard_at_def)
    then show ?thesis by (intro owned_permute [OF assms(1) bij_id]) (use y False owned_ptr [OF assms(1)] in \<open>auto simp: holds_def split: if_splits\<close>)
  qed
qed

lemma guard_step_owned:
  assumes "owned s" and "guard_step loads x s = (Inr (), s')"
  shows "owned s'"
proof -
  note 3 = owned_ptr [OF assms(1)]
  show ?thesis
  proof (cases x)
    case (G_Empty g)
    then have g: "guards s g = None" "s' = s\<lparr>guards := (guards s)(g \<mapsto> \<lparr>g_ptr = None, g_hold = False\<rparr>)\<rparr>"
      using assms(2) by (auto simp: fresh_def guard_empty_def guard_set_run split: if_splits)
    show ?thesis by (rule owned_permute [OF assms(1) bij_id]) (use g 3 in \<open>auto simp: holds_def split: if_splits\<close>)
  next
    case (G_Ref g b)
    then obtain s1 where "guards s g = None" "rb_get loads b s = (Inr (), s1)" "s' = s1\<lparr>guards := (guards s1)(g \<mapsto> \<lparr>g_ptr = Some b, g_hold = True\<rparr>)\<rparr>"
      using assms(2) by (auto simp: fresh_def get_ref_def guard_of_def guard_set_run split: if_splits elim!: kseq_InrE)
    then show ?thesis using owned_take [OF assms(1)] by simp
  next
    case (G_Move g h)
    then obtain y where y: "guards s g = None" "guards s h = Some y" "s' = s\<lparr>guards := (guards s)(g \<mapsto> y, h \<mapsto> y\<lparr>g_hold := False\<rparr>)\<rparr>"
      using assms(2) by (auto simp: fresh_def guard_move_def guard_at_Inr guard_set_run split: if_splits elim!: kbind_InrE)
    then have "g \<noteq> h" by auto
    then show ?thesis by (intro owned_permute [OF assms(1) bij_swapped [of g h]]) (use y 3 in \<open>auto simp: holds_def split: if_splits\<close>)
  next
    case (G_Assign g h)
    then obtain y z where y: "guards s g = Some y" "guards s h = Some z" "s' = s\<lparr>guards := (guards s)(g \<mapsto> z, h \<mapsto> y)\<rparr>"
      using assms(2) by (auto simp: guard_assign_def guard_at_Inr guard_set_run elim!: kbind_InrE)
    show ?thesis by (intro owned_permute [OF assms(1) bij_swapped [of g h]]) (use y 3 in \<open>auto simp: holds_def split: if_splits\<close>)
  next
    case (G_Get g)
    then show ?thesis using assms guard_get_owned by (auto elim!: kseq_InrE)
  next
    case (G_Put g)
    then obtain y b where "guards s g = Some y" "g_hold y" "g_ptr y = Some b"
        "s' = s\<lparr>guards := (guards s)(g \<mapsto> y\<lparr>g_hold := False\<rparr>), rbufs := (rbufs s)(b := (rbufs s b)\<lparr>in_use_mutex := False\<rparr>)\<rparr>"
      using assms(2) by (auto simp: guard_put_def guard_at_Inr guard_set_run rb_put_def rbuf_mod_run split: option.splits if_splits elim!: kbind_InrE)
    then show ?thesis using owned_release [OF assms(1), of g y b "Some (y\<lparr>g_hold := False\<rparr>)"] by simp
  next
    case (G_Destroy g)
    then show ?thesis using assms guard_destroy_owned by simp
  qed
qed

definition no_guards :: gstore where
  "no_guards = \<lparr>rbufs = \<lambda>_. new_rbuf, guards = Map.empty\<rparr>"

lemma guard_run_owned: "owned s \<Longrightarrow> guard_run loads xs s = (Inr (), s') \<Longrightarrow> owned s'"
  by (induction xs arbitrary: s) (auto elim!: kseq_InrE dest: guard_step_owned)

text \<open>
  C18. Guards neither leak nor double-release a buffer: after any program of constructions, moves, assignments, \<open>get\<close>, \<open>put\<close> and
  destructions of guards that ran to its end, a buffer is in use exactly when there is a guard that holds it, and then there is only one. In
  particular, when the last guard is gone every buffer is free.
\<close>

theorem guards_own_buffers:
  assumes "guard_run loads xs no_guards = (Inr (), s)"
  shows "in_use_mutex (rbufs s b) \<longleftrightarrow> (\<exists>!g. holds s g b)"
proof -
  have "owned no_guards" by (simp add: owned_def no_guards_def new_rbuf_def holds_def)
  then have "owned s" using assms by (rule guard_run_owned)
  then show ?thesis unfolding owned_def by blast
qed

theorem guards_own_buffers_witness:
  "\<exists>s. guard_run (\<lambda>_. True) [G_Ref 2 7, G_Move 3 2, G_Destroy 2, G_Put 3, G_Get 3] no_guards = (Inr (), s) \<and>
    in_use_mutex (rbufs s 7) \<and> (\<exists>!g. holds s g 7)"
proof -
  obtain s where s: "guard_run (\<lambda>_. True) [G_Ref 2 7, G_Move 3 2, G_Destroy 2, G_Put 3, G_Get 3] no_guards = (Inr (), s)" "in_use_mutex (rbufs s 7)"
    by (simp add: no_guards_def new_rbuf_def fresh_def get_ref_def rb_get_def rb_load_def rbuf_mod_def guard_of_def guard_set_def guard_move_def
      guard_at_def guard_destroy_def guard_put_def rb_put_def guard_get_def)
  then show ?thesis using guards_own_buffers [OF s(1), of 7] by blast
qed

end
