(* ===== verification/First_Program.thy ===== *)
theory First_Program
  imports Elf_Load
begin

text \<open>
  Starting the first user program (\<open>user_process::test_load_elf\<close> of \<open>src/os/proc/process.cc\<close>): the image is loaded, the standard files are
  the console, and the stack gets the name of the program, a pointer to it and the number of arguments. The local variables that
  are copied to the user's stack lie on the stack of the kernel, at addresses that are arguments here.
\<close>

section \<open>The operation\<close>

definition put_bytes :: "mem \<Rightarrow> nat \<Rightarrow> u8 list \<Rightarrow> mem" where
  "put_bytes m a bs = (\<lambda>x. if a \<le> x \<and> x < a + length bs then Some (bs ! (x - a)) else m x)"

definition put_local :: "u64 \<Rightarrow> u8 list \<Rightarrow> unit km" where
  "put_local a bs = kbind (kget ram) (\<lambda>m.
    if list_all (\<lambda>i. m (unat a + i) \<noteq> None) [0..<length bs] then kmod (ram_update (\<lambda>m. put_bytes m (unat a) bs)) else kthrow Undefined)"

text \<open>Setting a local variable and copying it to the user's stack.\<close>

definition push_user :: "u64 \<Rightarrow> u64 \<Rightarrow> u64 \<Rightarrow> u8 list \<Rightarrow> int km" where
  "push_user pagetable sp a bs = kseq (put_local a bs) (
    copyout pagetable sp a (of_nat (length bs)))"

definition program_name :: "u8 list" where
  "program_name = map of_char ''hello_world'' @ [0]"

definition tf_sp_offset :: u64 where "tf_sp_offset = 48"

text \<open>The three local variables, at \<open>l\<close>, \<open>l + 16\<close> and \<open>l + 24\<close>, one below the other on the stack.\<close>

definition push_args :: "u64 \<Rightarrow> u64 \<Rightarrow> u64 \<Rightarrow> int km" where
  "push_args root l sp = kbind (push_user root sp l program_name) (\<lambda>ret.
    if ret < 0 then kret ret else kbind (push_user root (sp - 8) (l + 16) (to_le 8 sp)) (\<lambda>ret.
      if ret < 0 then kret ret else push_user root (sp - 8 - 8) (l + 24) (to_le 8 (1 :: u64))))"

text \<open>A file is its number. The function that resumes the process is always \<open>user_trap_ret\<close>.\<close>

definition test_load_elf :: "nat \<Rightarrow> u64 \<Rightarrow> nat \<Rightarrow> u64 \<Rightarrow> u64 \<Rightarrow> int km" where
  "test_load_elf sbi_console l p start sz = kbind (load_elf p start sz) (\<lambda>ret.
    if ret < 0 then kret ret else kseq (mod_proc p (p_files_update (\<lambda>f. f[0 := sbi_console, 1 := sbi_console, 2 := sbi_console]))) (
      kbind (get_proc p) (\<lambda>x.
      let sp = p_stack_bottom_va x - of_nat (length program_name) in kbind (push_args (p_pagetable x) l sp) (\<lambda>ret.
        if ret < 0 then kret ret else kseq (mem_store64 (p_trapframe_pa x + tf_sp_offset) (sp - 8 - 8)) (
          kseq (set_state p WAKEN_UP) (
          kret 0))))))"

section \<open>Writing to the stack of the program\<close>

text \<open>Writes outside the pages of the process change nothing that belongs to it.\<close>

lemma space_outside:
  assumes inv: "space_inv lo hi root s free d R" and mp: "\<forall>x. ram s x \<noteq> None \<longrightarrow> m x \<noteq> None"
    and out: "\<forall>x. m x \<noteq> ram s x \<longrightarrow> (\<forall>p. page_in lo hi p \<and> p \<notin> R \<longrightarrow> x \<notin> frame p)"
  shows "space_inv lo hi root (s\<lparr>ram := m\<rparr>) free d R" "ubyte m d B = ubyte (ram s) d B" "uphys m d B = uphys (ram s) d B"
proof -
  note D = space_invD [OF inv]
  have "page_in lo hi b \<and> b \<notin> R" if "b \<in> set free \<union> ran d" for b
    using that D(2,9,10) vm_invD(4) [OF D(1)] by (auto simp: pool_inv_def ran_def)
  then have "\<forall>x. \<not> clear_of free d x \<longrightarrow> m x = ram s x" using out unfolding clear_of_def by blast
  note fr = vm_inv_frame [OF D(1) this mp]
  have up: "upage m d n = upage (ram s) d n" for n by (rule upage_entry [OF fr(2)])
  then show "space_inv lo hi root (s\<lparr>ram := m\<rparr>) free d R" using inv fr(1) by (simp add: space_inv_def)
  show u: "uphys m d B = uphys (ram s) d B" by (simp add: uphys_upage up)
  have "m x = ram s x" if x: "uphys (ram s) d B = Some x" for x
  proof -
    obtain q where q: "upage (ram s) d (B div 4096) = Some q" "x \<in> frame q" by (rule uphysE [OF x])
    then show ?thesis using out D(3,6) [OF q(1)] by blast
  qed
  then show "ubyte m d B = ubyte (ram s) d B" by (auto simp: ubyte_def u split: option.splits)
qed

lemma put_local_run:
  assumes "mapped (ram s) (unat a) (length bs)"
  shows "put_local a bs s = (Inr (), s\<lparr>ram := put_bytes (ram s) (unat a) bs\<rparr>)"
proof -
  have "list_all (\<lambda>i. ram s (unat a + i) \<noteq> None) [0..<length bs]" using assms by (auto simp: list_all_iff mapped_def)
  then show ?thesis by (cases s) (simp add: put_local_def)
qed

lemma push_user_core:
  assumes inv: "space_inv lo hi root s free d R" and loc: "image_apart lo hi R (ram s) (unat a) (length bs)" and n: "length bs < 2 ^ 12"
    and all: "\<forall>i<length bs. uphys (ram s) d (unat sp + i) \<noteq> None"
  shows "\<exists>m'. push_user root sp a bs s = (Inr 0, s\<lparr>ram := m'\<rparr>) \<and> space_inv lo hi root (s\<lparr>ram := m'\<rparr>) free d R
    \<and> (\<forall>B. ubyte m' d B = (if unat sp \<le> B \<and> B < unat sp + length bs then Some (bs ! (B - unat sp)) else ubyte (ram s) d B))
    \<and> (\<forall>B. uphys m' d B = uphys (ram s) d B)
    \<and> (\<forall>x. (\<forall>p. page_in lo hi p \<and> p \<notin> R \<longrightarrow> x \<notin> frame p) \<and> \<not> (unat a \<le> x \<and> x < unat a + length bs) \<longrightarrow> m' x = ram s x)
    \<and> (\<forall>x. (\<forall>p. page_in lo hi p \<and> p \<notin> R \<longrightarrow> x \<notin> frame p) \<and> ram s x \<noteq> None \<longrightarrow> m' x \<noteq> None)"
proof -
  let ?len = "of_nat (length bs) :: u64"
  have len: "unat ?len = length bs" using n by (simp add: unat_of_nat take_bit_nat_eq_self)
  define m where "m = put_bytes (ram s) (unat a) bs"
  have mp: "\<forall>x. ram s x \<noteq> None \<longrightarrow> m x \<noteq> None" by (simp add: m_def put_bytes_def)
  have ap: "\<forall>i<length bs. \<forall>p. page_in lo hi p \<and> p \<notin> R \<longrightarrow> unat a + i \<notin> frame p" "mapped (ram s) (unat a) (length bs)" "unat a + length bs < 2 ^ 64"
    using loc by (simp_all add: image_apart_def)
  have "\<forall>x. m x \<noteq> ram s x \<longrightarrow> (\<forall>p. page_in lo hi p \<and> p \<notin> R \<longrightarrow> x \<notin> frame p)"
  proof (intro allI impI)
    fix x p assume "m x \<noteq> ram s x" and p: "page_in lo hi p \<and> p \<notin> R"
    then have "x - unat a < length bs" "x = unat a + (x - unat a)" by (auto simp: m_def put_bytes_def split: if_splits)
    then show "x \<notin> frame p" using ap(1) p by metis
  qed
  note o = space_outside [OF inv mp this]
  have src: "mapped (ram (s\<lparr>ram := m\<rparr>)) (unat a) (unat ?len)" using ap(2) mp by (simp add: mapped_def len)
  obtain m' where c: "copyout root sp a ?len (s\<lparr>ram := m\<rparr>) = (Inr 0, s\<lparr>ram := m\<rparr>\<lparr>ram := m'\<rparr>)" "space_inv lo hi root (s\<lparr>ram := m\<rparr>\<lparr>ram := m'\<rparr>) free d R"
      "user_set m m' d (unat sp) (length bs) (\<lambda>i. m (unat a + i))" "untouched lo hi R m m'" "\<forall>n. entry m' d n = entry m d n"
    using space_copyout [OF o(1) _ src, of sp] all ap(1,3) o(3) unfolding len by auto
  have mv: "m (unat a + i) = Some (bs ! i)" if "i < length bs" for i using that by (simp add: m_def put_bytes_def)
  have "push_user root sp a bs s = (Inr 0, s\<lparr>ram := m'\<rparr>)" using c(1) put_local_run [OF ap(2)] by (simp add: push_user_def m_def)
  moreover have "ubyte m' d B = (if unat sp \<le> B \<and> B < unat sp + length bs then Some (bs ! (B - unat sp)) else ubyte (ram s) d B)" for B
    using c(3) mv [of "B - unat sp"] o(2) by (auto simp: user_set_def)
  moreover have "uphys m' d B = uphys (ram s) d B" for B using o(3) c(5) by (simp add: uphys_def)
  ultimately show ?thesis
    using c(2,4) mp by (intro exI [of _ m']) (auto simp: untouched_def m_def put_bytes_def)
qed

section \<open>The stack of the program\<close>

text \<open>What is on the stack: the number of arguments, the pointer to the name, and the name.\<close>

definition first_stack :: "u8 list" where
  "first_stack = to_le 8 (1 :: u64) @ to_le 8 (USER_STACK_BOTTOM - 12) @ program_name"

lemma length_program_name: "length program_name = 12"
  by (simp add: program_name_def)

lemma stack_numbers:
  "unat (USER_STACK_BOTTOM - 12) = 2 ^ 37 - 12" "unat (USER_STACK_BOTTOM - 12 - 8) = 2 ^ 37 - 20" "unat (USER_STACK_BOTTOM - 12 - 8 - 8) = 2 ^ 37 - 28"
  "unat (USER_STACK_BOTTOM - 20) = 2 ^ 37 - 20" "unat (USER_STACK_BOTTOM - 28) = 2 ^ 37 - 28"
  by (simp_all add: USER_STACK_BOTTOM_def)

lemma image_apart_part:
  assumes "image_apart lo hi R m a n" and "i + k \<le> n"
  shows "image_apart lo hi R m (a + i) k"
proof -
  have "a + i + j \<notin> frame p" if "j < k" "page_in lo hi p" "p \<notin> R" for j p
    using assms that spec [of "\<lambda>j. j < n \<longrightarrow> (\<forall>p. page_in lo hi p \<and> p \<notin> R \<longrightarrow> a + j \<notin> frame p)" "i + j"]
    by (simp add: image_apart_def add.assoc)
  moreover have "m (a + i + j) \<noteq> None" if "j < k" for j
    using assms that spec [of "\<lambda>j. j < n \<longrightarrow> m (a + j) \<noteq> None" "i + j"] by (simp add: image_apart_def mapped_def add.assoc)
  ultimately show ?thesis using assms by (simp add: image_apart_def mapped_def)
qed

lemma image_apart_same:
  assumes "image_apart lo hi R m a n" and "\<And>i. i < n \<Longrightarrow> m' (a + i) = m (a + i)"
  shows "image_apart lo hi R m' a n"
  using assms by (simp add: image_apart_def mapped_def)

lemma image_apart_keep:
  assumes "image_apart lo hi R m a n" and "\<forall>x. (\<forall>p. page_in lo hi p \<and> p \<notin> R \<longrightarrow> x \<notin> frame p) \<and> m x \<noteq> None \<longrightarrow> m' x \<noteq> None"
  shows "image_apart lo hi R m' a n"
  using assms unfolding image_apart_def mapped_def by blast

lemma push_user_run:
  assumes inv: "space_inv lo hi root s free d R" and loc: "image_apart lo hi R (ram s) (unat l) n" and a: "unat a = unat l + k" "k + length bs \<le> n" "n < 2 ^ 12"
    and all: "\<forall>i<length bs. uphys (ram s) d (unat sp + i) \<noteq> None" and t: "t \<in> R" "\<forall>i<n. unat l + i \<notin> frame t"
  obtains m' where "push_user root sp a bs s = (Inr 0, s\<lparr>ram := m'\<rparr>)" "space_inv lo hi root (s\<lparr>ram := m'\<rparr>) free d R"
    "\<forall>B. ubyte m' d B = (if unat sp \<le> B \<and> B < unat sp + length bs then Some (bs ! (B - unat sp)) else ubyte (ram s) d B)"
    "\<forall>B. uphys m' d B = uphys (ram s) d B" "image_apart lo hi R m' (unat l) n" "\<forall>x\<in>frame t. m' x = ram s x"
proof -
  have loc': "image_apart lo hi R (ram s) (unat a) (length bs)" unfolding a(1) by (rule image_apart_part [OF loc a(2)])
  have short: "length bs < 2 ^ 12" using a(2,3) by linarith
  obtain m' where m': "push_user root sp a bs s = (Inr 0, s\<lparr>ram := m'\<rparr>)" "space_inv lo hi root (s\<lparr>ram := m'\<rparr>) free d R"
    "\<forall>B. ubyte m' d B = (if unat sp \<le> B \<and> B < unat sp + length bs then Some (bs ! (B - unat sp)) else ubyte (ram s) d B)"
    "\<forall>B. uphys m' d B = uphys (ram s) d B"
    "\<forall>x. (\<forall>p. page_in lo hi p \<and> p \<notin> R \<longrightarrow> x \<notin> frame p) \<and> \<not> (unat a \<le> x \<and> x < unat a + length bs) \<longrightarrow> m' x = ram s x"
    "\<forall>x. (\<forall>p. page_in lo hi p \<and> p \<notin> R \<longrightarrow> x \<notin> frame p) \<and> ram s x \<noteq> None \<longrightarrow> m' x \<noteq> None"
    using push_user_core [OF inv loc' short all] by blast
  have "m' x = ram s x" if x: "x \<in> frame t" for x
  proof -
    have "\<forall>p. page_in lo hi p \<and> p \<notin> R \<longrightarrow> x \<notin> frame p"
      using frame_inj [OF x] page_in_dvd space_invD(8) [OF inv t(1)] t(1) by metis
    moreover have "\<not> (unat a \<le> x \<and> x < unat a + length bs)"
    proof
      assume "unat a \<le> x \<and> x < unat a + length bs"
      then have "x - unat l < n" "unat l + (x - unat l) = x" using a(1,2) by linarith+
      then show False using t(2) x by metis
    qed
    ultimately show ?thesis using m'(5) by blast
  qed
  then show thesis using that m'(1-4) image_apart_keep [OF loc m'(6)] by blast
qed

lemma push_args_run:
  assumes inv: "space_inv lo hi root s free d R" and loc: "image_apart lo hi R (ram s) (unat l) 32"
    and stack: "\<And>B. 2 ^ 37 - 28 \<le> B \<Longrightarrow> B < 2 ^ 37 \<Longrightarrow> uphys (ram s) d B \<noteq> None" and t: "t \<in> R" "\<forall>i<32. unat l + i \<notin> frame t"
  obtains m' where "push_args root l (USER_STACK_BOTTOM - 12) s = (Inr 0, s\<lparr>ram := m'\<rparr>)" "space_inv lo hi root (s\<lparr>ram := m'\<rparr>) free d R"
    "\<forall>B. ubyte m' d B = (if 2 ^ 37 - 28 \<le> B \<and> B < 2 ^ 37 then Some (first_stack ! (B - (2 ^ 37 - 28))) else ubyte (ram s) d B)"
    "\<forall>x \<in> frame t. m' x = ram s x"
proof -
  let ?sp = "USER_STACK_BOTTOM - 12"
  have l: "unat l = unat l + 0" "unat (l + 16) = unat l + 16" "unat (l + 24) = unat l + 24" using loc by (auto simp: image_apart_def unat_word_ariths)
  have n: "0 + length program_name \<le> 32" "16 + length (to_le 8 ?sp) \<le> 32" "24 + length (to_le 8 (1 :: u64)) \<le> 32" "32 < (2 :: nat) ^ 12"
    by (simp_all add: length_program_name)
  have u1: "\<forall>i<length program_name. uphys (ram s) d (unat ?sp + i) \<noteq> None"
    and u2: "\<forall>i<length (to_le 8 ?sp). uphys (ram s) d (unat (?sp - 8) + i) \<noteq> None"
    and u3: "\<forall>i<length (to_le 8 (1 :: u64)). uphys (ram s) d (unat (?sp - 8 - 8) + i) \<noteq> None"
    using stack by (simp_all add: stack_numbers length_program_name)
  obtain m1 where 1: "push_user root ?sp l program_name s = (Inr 0, s\<lparr>ram := m1\<rparr>)" "space_inv lo hi root (s\<lparr>ram := m1\<rparr>) free d R"
      "\<forall>B. ubyte m1 d B = (if unat ?sp \<le> B \<and> B < unat ?sp + length program_name then Some (program_name ! (B - unat ?sp)) else ubyte (ram s) d B)"
      "\<forall>B. uphys m1 d B = uphys (ram s) d B" "image_apart lo hi R m1 (unat l) 32" "\<forall>x\<in>frame t. m1 x = ram s x"
    by (rule push_user_run [OF inv loc l(1) n(1,4) u1 t])
  have loc1: "image_apart lo hi R (ram (s\<lparr>ram := m1\<rparr>)) (unat l) 32" using 1(5) by simp
  obtain m2 where 2: "push_user root (?sp - 8) (l + 16) (to_le 8 ?sp) (s\<lparr>ram := m1\<rparr>) = (Inr 0, s\<lparr>ram := m1\<rparr>\<lparr>ram := m2\<rparr>)"
      "space_inv lo hi root (s\<lparr>ram := m1\<rparr>\<lparr>ram := m2\<rparr>) free d R"
      "\<forall>B. ubyte m2 d B = (if unat (?sp - 8) \<le> B \<and> B < unat (?sp - 8) + length (to_le 8 ?sp) then Some (to_le 8 ?sp ! (B - unat (?sp - 8))) else ubyte (ram (s\<lparr>ram := m1\<rparr>)) d B)"
      "\<forall>B. uphys m2 d B = uphys (ram (s\<lparr>ram := m1\<rparr>)) d B" "image_apart lo hi R m2 (unat l) 32" "\<forall>x\<in>frame t. m2 x = ram (s\<lparr>ram := m1\<rparr>) x"
    by (rule push_user_run [OF 1(2) loc1 l(2) n(2,4) _ t, of "?sp - 8"]) (use u2 1(4) in simp_all)
  have loc2: "image_apart lo hi R (ram (s\<lparr>ram := m2\<rparr>)) (unat l) 32" using 2(5) by simp
  have inv2: "space_inv lo hi root (s\<lparr>ram := m2\<rparr>) free d R" using 2(2) by simp
  obtain m3 where 3: "push_user root (?sp - 8 - 8) (l + 24) (to_le 8 (1 :: u64)) (s\<lparr>ram := m2\<rparr>) = (Inr 0, s\<lparr>ram := m2\<rparr>\<lparr>ram := m3\<rparr>)"
      "space_inv lo hi root (s\<lparr>ram := m2\<rparr>\<lparr>ram := m3\<rparr>) free d R"
      "\<forall>B. ubyte m3 d B = (if unat (?sp - 8 - 8) \<le> B \<and> B < unat (?sp - 8 - 8) + length (to_le 8 (1 :: u64)) then Some (to_le 8 (1 :: u64) ! (B - unat (?sp - 8 - 8))) else ubyte (ram (s\<lparr>ram := m2\<rparr>)) d B)"
      "\<forall>B. uphys m3 d B = uphys (ram (s\<lparr>ram := m2\<rparr>)) d B" "image_apart lo hi R m3 (unat l) 32" "\<forall>x\<in>frame t. m3 x = ram (s\<lparr>ram := m2\<rparr>) x"
    by (rule push_user_run [OF inv2 loc2 l(3) n(3,4) _ t, of "?sp - 8 - 8"]) (use u3 1(4) 2(4) in simp_all)
  have "push_args root l ?sp s = (Inr 0, s\<lparr>ram := m3\<rparr>)" using 1(1) 2(1) 3(1) by (simp add: push_args_def)
  moreover have "space_inv lo hi root (s\<lparr>ram := m3\<rparr>) free d R" using 3(2) by simp
  moreover have "\<forall>B. ubyte m3 d B = (if 2 ^ 37 - 28 \<le> B \<and> B < 2 ^ 37 then Some (first_stack ! (B - (2 ^ 37 - 28))) else ubyte (ram s) d B)"
    using 3(3) 2(3) 1(3) by (auto simp: stack_numbers length_program_name first_stack_def nth_append)
  moreover have "\<forall>x\<in>frame t. m3 x = ram s x" using 3(6) 2(6) 1(6) by simp
  ultimately show thesis by (rule that)
qed

section \<open>The program is ready to run\<close>

text \<open>An image that the loader accepts, given the free pages and the memory map of the process.\<close>

definition loadable :: "mem \<Rightarrow> ptree \<Rightarrow> nat \<Rightarrow> u64 \<Rightarrow> u64 \<Rightarrow> bool" where
  "loadable m d n start sz \<longleftrightarrow> (let h = elf_header m start; segs = to_load m start (e_phoff h) [0..<unat (e_phnum h)] in
    64 \<le> unat sz \<and> header_ok h \<and> e_phoff h \<noteq> 0 \<and> e_phnum h \<noteq> 0 \<and> unat (e_phoff h) + 56 * unat (e_phnum h) \<le> unat sz
    \<and> (\<forall>ph \<in> set segs. segment_fits sz ph \<and> seg_unmapped m d ph) \<and> segs_apart segs \<and> 3 * sum_list (map seg_count segs) \<le> n)"

lemma uphys_ubyte: "space_inv lo hi root s free d R \<Longrightarrow> uphys (ram s) d B \<noteq> None \<longleftrightarrow> ubyte (ram s) d B \<noteq> None"
  using space_clear(2) [of lo hi root s free d R B] by (auto simp: ubyte_def split: option.splits)

lemma stack_above_segments:
  assumes "segment_fits sz ph" and "2 ^ 37 - 28 \<le> B"
  shows "\<not> in_segment ph B"
proof -
  have "4096 * (seg_first ph + seg_count ph) \<le> 2 ^ 37 - 8192" using assms(1) segment_numbers(5) [of ph] by (simp add: segment_fits_def)
  then have "seg_first ph + seg_count ph \<le> 2 ^ 25 - 2" by simp
  moreover have "2 ^ 25 - 1 \<le> B div 4096" using div_le_mono [OF assms(2), of 4096] by simp
  ultimately show ?thesis by (simp add: in_segment_def)
qed

lemma store_sp:
  assumes inv: "space_inv lo hi root s free d R" and t: "t \<in> R"
  shows "mem_store64 (t + tf_sp_offset) v s = (Inr (), s\<lparr>ram := stored (ram s) (unat t + 48) v\<rparr>)"
    and "space_inv lo hi root (s\<lparr>ram := stored (ram s) (unat t + 48) v\<rparr>) free d R"
    and "ubyte (stored (ram s) (unat t + 48) v) d B = ubyte (ram s) d B"
proof -
  have pt: "page_in lo hi t" by (rule space_invD(8) [OF inv t])
  have "mapped (ram s) (unat t) 4096" using pt space_invD(2) [OF inv] by (auto simp: pool_inv_def pages_mapped_def)
  then have mp: "mapped (ram s) (unat t + 48) 8" by (rule mapped_sub) simp
  obtain k where k: "unat t = 4096 * k" using page_in_dvd [OF pt] by (blast elim: dvdE)
  have "4096 * k < 4096 * 2 ^ 52" using unsigned_less [of t, where ?'a = nat] k by simp
  then have "unat (t + tf_sp_offset) = unat t + 48" using k unfolding tf_sp_offset_def by (subst unat_add_lem [THEN iffD1]) simp_all
  then show "mem_store64 (t + tf_sp_offset) v s = (Inr (), s\<lparr>ram := stored (ram s) (unat t + 48) v\<rparr>)" using mp by (simp add: mem_run)
  have "\<forall>x. x \<notin> frame t \<longrightarrow> stored (ram s) (unat t + 48) v x = ram s x" by (auto simp: stored_def frame_def)
  moreover have "\<forall>x. ram s x \<noteq> None \<longrightarrow> stored (ram s) (unat t + 48) v x \<noteq> None" by (simp add: stored_def)
  ultimately show "space_inv lo hi root (s\<lparr>ram := stored (ram s) (unat t + 48) v\<rparr>) free d R"
    "ubyte (stored (ram s) (unat t + 48) v) d B = ubyte (ram s) d B" by (rule space_store [OF inv t])+
qed

lemma load64_cong: "(\<And>x. a \<le> x \<Longrightarrow> x < a + 8 \<Longrightarrow> m' x = m x) \<Longrightarrow> load64 m' a = load64 m a"
proof -
  assume e: "\<And>x. a \<le> x \<Longrightarrow> x < a + 8 \<Longrightarrow> m' x = m x"
  have 1: "map (\<lambda>i. the (m' (a + i))) [0..<8] = map (\<lambda>i. the (m (a + i))) [0..<8]" by (rule map_cong) (auto simp: e)
  have 2: "list_all (\<lambda>i. m' (a + i) \<noteq> None) [0..<8] = list_all (\<lambda>i. m (a + i) \<noteq> None) [0..<8]" by (auto simp: list_all_iff e)
  show ?thesis unfolding load64_def 1 2 ..
qed

text \<open>What follows the loading of the image.\<close>

lemma start_loaded:
  assumes inv: "space_inv lo hi root s1 free d R" and p: "p \<noteq> 0" "procs s1 p = Some y" "p_pagetable y = root" "p_trapframe_pa y = t" "t \<in> R"
      "p_stack_bottom_va y = USER_STACK_BOTTOM" "3 \<le> length (p_files y)"
    and stack: "\<And>B. 2 ^ 37 - 28 \<le> B \<Longrightarrow> B < 2 ^ 37 \<Longrightarrow> uphys (ram s1) d B \<noteq> None"
    and loc: "image_apart lo hi R (ram s1) (unat l) 32" "\<forall>i<32. unat l + i \<notin> frame t" and load: "load_elf p start sz s = (Inr 0, s1)"
  obtains s4 z where "test_load_elf console l p start sz s = (Inr 0, s4)" "space_inv lo hi root s4 free d R"
    "\<forall>B. ubyte (ram s4) d B = (if 2 ^ 37 - 28 \<le> B \<and> B < 2 ^ 37 then Some (first_stack ! (B - (2 ^ 37 - 28))) else ubyte (ram s1) d B)"
    "load64 (ram s4) (unat t + 48) = Some (USER_STACK_BOTTOM - 28)" "load64 (ram s4) (unat t + 24) = load64 (ram s1) (unat t + 24)"
    "procs s4 p = Some z" "p_state z = WAKEN_UP" "\<forall>i<3. p_files z ! i = console"
proof -
  define y2 where "y2 = p_files_update (\<lambda>f. f[0 := console, 1 := console, 2 := console]) y"
  have len: "0 < length (p_files y)" "1 < length (p_files y)" "2 < length (p_files y)" using p(7) by linarith+
  have y2: "p_pagetable y2 = root" "p_trapframe_pa y2 = t" "p_stack_bottom_va y2 = USER_STACK_BOTTOM" "\<forall>i<3. p_files y2 ! i = console"
    using p len by (auto simp: y2_def nth_list_update less_Suc_eq numeral_3_eq_3)
  define s2 where "s2 = s1\<lparr>procs := (procs s1)(p \<mapsto> y2)\<rparr>"
  have files: "mod_proc p (p_files_update (\<lambda>f. f[0 := console, 1 := console, 2 := console])) s1 = (Inr (), s2)"
    using p(1,2) by (simp add: mod_proc_run s2_def y2_def)
  have get: "get_proc p s2 = (Inr y2, s2)" using p(1) by (simp add: get_proc_run s2_def)
  have inv2: "space_inv lo hi root s2 free d R" using inv by (simp add: s2_def)
  have r2: "ram s2 = ram s1" by (simp add: s2_def)
  obtain m3 where 3: "push_args root l (USER_STACK_BOTTOM - 12) s2 = (Inr 0, s2\<lparr>ram := m3\<rparr>)" "space_inv lo hi root (s2\<lparr>ram := m3\<rparr>) free d R"
    "\<forall>B. ubyte m3 d B = (if 2 ^ 37 - 28 \<le> B \<and> B < 2 ^ 37 then Some (first_stack ! (B - (2 ^ 37 - 28))) else ubyte (ram s2) d B)"
    "\<forall>x \<in> frame t. m3 x = ram s2 x"
    by (rule push_args_run [OF inv2 _ _ p(5) loc(2)]) (use loc(1) stack r2 in simp_all)
  note st = store_sp [OF 3(2) p(5), of "USER_STACK_BOTTOM - 28"]
  define m4 where "m4 = stored m3 (unat t + 48) (USER_STACK_BOTTOM - 28)"
  define s4 where "s4 = s2\<lparr>ram := m4, procs := (procs s2)(p \<mapsto> p_state_update (\<lambda>_. WAKEN_UP) y2)\<rparr>"
  have sp: "USER_STACK_BOTTOM - of_nat (length program_name) = USER_STACK_BOTTOM - 12" "USER_STACK_BOTTOM - 12 - 8 - 8 = USER_STACK_BOTTOM - 28"
    by (simp_all add: length_program_name)
  have woken: "set_state p WAKEN_UP (s2\<lparr>ram := m4\<rparr>) = (Inr (), s4)" using p(1) by (simp add: set_state_def mod_proc_run s4_def s2_def)
  have "test_load_elf console l p start sz s = (Inr 0, s4)"
    using load files get 3(1) st(1) woken unfolding test_load_elf_def Let_def m4_def by (simp add: y2 sp)
  moreover have "space_inv lo hi root s4 free d R" using st(2) by (simp add: s4_def m4_def)
  moreover have "\<forall>B. ubyte (ram s4) d B = (if 2 ^ 37 - 28 \<le> B \<and> B < 2 ^ 37 then Some (first_stack ! (B - (2 ^ 37 - 28))) else ubyte (ram s1) d B)"
    using st(3) 3(3) by (simp add: s4_def m4_def r2)
  moreover have "load64 (ram s4) (unat t + 48) = Some (USER_STACK_BOTTOM - 28)" by (simp add: s4_def m4_def load64_stored)
  moreover have "load64 (ram s4) (unat t + 24) = load64 (ram s1) (unat t + 24)"
  proof -
    have "load64 m3 (unat t + 24) = load64 (ram s1) (unat t + 24)" using 3(4) by (intro load64_cong) (simp add: r2 frame_def)
    then show ?thesis by (simp add: s4_def m4_def load64_stored_other)
  qed
  moreover have "procs s4 p = Some (p_state_update (\<lambda>_. WAKEN_UP) y2)" "p_state (p_state_update (\<lambda>_. WAKEN_UP) y2) = WAKEN_UP"
    "\<forall>i<3. p_files (p_state_update (\<lambda>_. WAKEN_UP) y2) ! i = console" using y2(4) by (simp_all add: s4_def)
  ultimately show thesis by (rule that)
qed

text \<open>
  C8. Starting a program: when the image can be loaded, the stack page of the process is mapped and the local variables lie in memory of the
  kernel, \<open>test_load_elf\<close> returns 0. Then every segment is in memory, the top of the stack holds the number of
  arguments 1, the address of the name, and the name; the saved stack pointer points to the number of arguments and the saved program counter to
  the entry of the image; the standard files are the console, and the process may be scheduled.
\<close>

theorem program_ready_to_run:
  assumes "space_inv lo hi root s free d R" and "p \<noteq> 0" and "procs s p = Some x" and "p_pagetable x = root" and "p_trapframe_pa x \<in> R"
    and "image_apart lo hi R (ram s) (unat start) (unat sz)" and "loadable (ram s) d (length free) start sz"
    and "p_stack_bottom_va x = USER_STACK_BOTTOM" and "\<forall>i<28. uphys (ram s) d (2 ^ 37 - 28 + i) \<noteq> None"
    and "image_apart lo hi R (ram s) (unat l) 32" and "\<forall>i<32. unat l + i \<notin> frame (p_trapframe_pa x)" and "3 \<le> length (p_files x)"
  shows "\<exists>s' free' d' y. test_load_elf console l p start sz s = (Inr 0, s') \<and> space_inv lo hi root s' free' d' R
    \<and> (\<forall>ph \<in> set (to_load (ram s) start (e_phoff (elf_header (ram s) start)) [0..<unat (e_phnum (elf_header (ram s) start))]).
        \<forall>B. in_segment ph B \<longrightarrow> ubyte (ram s') d' B = segment_byte (ram s) start ph B)
    \<and> (\<forall>i<28. ubyte (ram s') d' (2 ^ 37 - 28 + i) = Some (first_stack ! i))
    \<and> load64 (ram s') (unat (p_trapframe_pa x) + 48) = Some (USER_STACK_BOTTOM - 28)
    \<and> load64 (ram s') (unat (p_trapframe_pa x) + 24) = Some (e_entry (elf_header (ram s) start))
    \<and> procs s' p = Some y \<and> p_state y = WAKEN_UP \<and> (\<forall>i<3. p_files y ! i = console)"
proof -
  let ?t = "p_trapframe_pa x" and ?h = "elf_header (ram s) start"
  let ?segs = "to_load (ram s) start (e_phoff ?h) [0..<unat (e_phnum ?h)]"
  have L: "64 \<le> unat sz" "header_ok ?h" "e_phoff ?h \<noteq> 0" "e_phnum ?h \<noteq> 0" "unat (e_phoff ?h) + 56 * unat (e_phnum ?h) \<le> unat sz"
    "\<forall>ph \<in> set ?segs. segment_fits sz ph \<and> seg_unmapped (ram s) d ph" "segs_apart ?segs" "3 * sum_list (map seg_count ?segs) \<le> length free"
    using assms(7) by (simp_all add: loadable_def Let_def)
  obtain s1 free1 d1 y where 1: "load_elf p start sz s = (Inr 0, s1)" "space_inv lo hi root s1 free1 d1 R"
      "\<forall>ph \<in> set ?segs. \<forall>B. in_segment ph B \<longrightarrow> ubyte (ram s1) d1 B = segment_byte (ram s) start ph B"
      "\<forall>B. (\<forall>ph \<in> set ?segs. \<not> in_segment ph B) \<longrightarrow> ubyte (ram s1) d1 B = ubyte (ram s) d B"
      "load64 (ram s1) (unat ?t + 24) = Some (e_entry ?h)" "untouched lo hi (R - {?t}) (ram s) (ram s1)" "procs s1 = (procs s)(p \<mapsto> y)" "same_process x y"
    using load_elf_run [OF assms(1-6) refl refl L] by blast
  have above: "\<forall>ph \<in> set ?segs. \<not> in_segment ph B" if "2 ^ 37 - 28 \<le> B" for B using stack_above_segments [OF _ that] L(6) by blast
  have stack: "uphys (ram s1) d1 B \<noteq> None" if B: "2 ^ 37 - 28 \<le> B" "B < 2 ^ 37" for B
  proof -
    have "B - (2 ^ 37 - 28) < 28" "2 ^ 37 - 28 + (B - (2 ^ 37 - 28)) = B" using B by simp_all
    then have "uphys (ram s) d B \<noteq> None" using assms(9) by metis
    then show ?thesis using 1(4) above [OF B(1)] uphys_ubyte [OF assms(1)] uphys_ubyte [OF 1(2)] by metis
  qed
  have loc: "image_apart lo hi R (ram s1) (unat l) 32"
  proof (rule image_apart_same [OF assms(10)])
    fix i :: nat assume i: "i < 32"
    have "unat l + i \<notin> frame q" if "page_in lo hi q" "q \<notin> R - {?t}" for q
      using assms(10,11) i that unfolding image_apart_def by (cases "q = ?t") blast+
    then show "ram s1 (unat l + i) = ram s (unat l + i)" using 1(6) unfolding untouched_def by blast
  qed
  have y: "procs s1 p = Some y" "p_pagetable y = root" "p_trapframe_pa y = ?t" "p_stack_bottom_va y = USER_STACK_BOTTOM" "3 \<le> length (p_files y)"
    using 1(7,8) assms(4,8,12) by (simp_all add: same_process_def)
  obtain s4 z where 4: "test_load_elf console l p start sz s = (Inr 0, s4)" "space_inv lo hi root s4 free1 d1 R"
    "\<forall>B. ubyte (ram s4) d1 B = (if 2 ^ 37 - 28 \<le> B \<and> B < 2 ^ 37 then Some (first_stack ! (B - (2 ^ 37 - 28))) else ubyte (ram s1) d1 B)"
    "load64 (ram s4) (unat ?t + 48) = Some (USER_STACK_BOTTOM - 28)" "load64 (ram s4) (unat ?t + 24) = load64 (ram s1) (unat ?t + 24)"
    "procs s4 p = Some z" "p_state z = WAKEN_UP" "\<forall>i<3. p_files z ! i = console"
    by (rule start_loaded [where console = console, OF 1(2) assms(2) y(1-3) assms(5) y(4,5) stack loc assms(11) 1(1)])
  have "\<forall>ph \<in> set ?segs. \<forall>B. in_segment ph B \<longrightarrow> ubyte (ram s4) d1 B = segment_byte (ram s) start ph B"
    using 4(3) 1(3) above by (metis (no_types, lifting))
  moreover have "\<forall>i<28. ubyte (ram s4) d1 (2 ^ 37 - 28 + i) = Some (first_stack ! i)" using 4(3) by simp
  ultimately show ?thesis using 4 1(5) by metis
qed

text \<open>A process with a stack: the small machine of the loader's example, after mapping the page of the stack.\<close>

lemma demo_program:
  obtains s :: kern and root free d x where "space_inv 4096 69632 root s free d {p_trapframe_pa x}" "procs s 1 = Some x" "p_pagetable x = root"
    "p_stack_bottom_va x = USER_STACK_BOTTOM" "length (p_files x) = 16" "11 \<le> length free" "upage (ram s) d (2 ^ 25 - 1) \<noteq> None" "entry (ram s) d 2 = 0"
    "\<forall>a<125. ram s (73728 + a) = Some (demo_elf ! a)" "\<forall>a. 69632 \<le> a \<and> a < 81920 \<longrightarrow> ram s a \<noteq> None"
proof -
  obtain s0 :: kern and root free0 x0 where D: "space_inv 4096 69632 root s0 free0 [[] \<mapsto> root] {p_trapframe_pa x0}" "\<forall>n. entry (ram s0) [[] \<mapsto> root] n = 0"
    "length free0 = 14" "procs s0 1 = Some x0" "p_pagetable x0 = root" "\<forall>a<81920. ram s0 a \<noteq> None" "\<forall>a<125. ram s0 (73728 + a) = Some (demo_elf ! a)"
    by (rule demo_process)
  have va: "4096 dvd unat USER_STACK_TOP" "unat (4096 :: u64) = 4096 * 1" "unat USER_STACK_TOP + unat (4096 :: u64) \<le> 2 ^ 38" "vpn USER_STACK_TOP = 2 ^ 25 - 1"
    by (simp_all add: USER_STACK_TOP_def USER_STACK_BOTTOM_def USTACK_SIZE_def PGSIZE_def vpn_def)
  have pte: "drop_bit 10 (PTE_U OR PTE_R OR PTE_W) = 0" "(PTE_U OR PTE_R OR PTE_W) AND PTE_U \<noteq> 0" by (simp_all add: PTE_U_def PTE_R_def PTE_W_def)
  obtain s1 :: kern and free d where 1: "space_inv 4096 69632 root s1 free d {p_trapframe_pa x0}"
      "space_grown 4096 69632 {p_trapframe_pa x0} (ram s0) [[] \<mapsto> root] (ram s1) d (vpn USER_STACK_TOP) 1" "length free0 \<le> length free + 3 * 1"
    using mmap_alloc_run [OF D(1) _ D(4,5) va(1-3) _ pte, of MAP_USER] D(2,3) by auto
  define x where "x = x0\<lparr>p_stack_bottom_va := USER_STACK_BOTTOM, p_files := replicate 16 0\<rparr>"
  define s where "s = s1\<lparr>procs := [1 \<mapsto> x]\<rparr>"
  have same: "ram s1 a = ram s0 a" if "69632 \<le> a" for a
    using 1(2) above_pool [OF _ that] unfolding space_grown_def untouched_def by blast
  have "space_inv 4096 69632 root s free d {p_trapframe_pa x}" using 1(1) by (simp add: s_def x_def)
  moreover have "upage (ram s) d (2 ^ 25 - 1) \<noteq> None" "entry (ram s) d 2 = 0" using 1(2) D(2) unfolding space_grown_def va(4) by (auto simp: s_def)
  moreover have "\<forall>a<125. ram s (73728 + a) = Some (demo_elf ! a)" "\<forall>a. 69632 \<le> a \<and> a < 81920 \<longrightarrow> ram s a \<noteq> None"
    using same D(6,7) by (simp_all add: s_def)
  ultimately show thesis using that [of root s free d x] 1(3) D(3,5) by (simp add: s_def x_def)
qed

theorem program_ready_to_run_witness:
  "\<exists>(s :: kern) s' d' y. test_load_elf 9 80000 1 73728 125 s = (Inr 0, s') \<and> ubyte (ram s') d' 8202 = Some 13 \<and> ubyte (ram s') d' (2 ^ 37 - 28) = Some 1
    \<and> ubyte (ram s') d' (2 ^ 37 - 12) = Some 104 \<and> procs s' 1 = Some y \<and> p_state y = WAKEN_UP"
proof -
  obtain s :: kern and root free d x where D: "space_inv 4096 69632 root s free d {p_trapframe_pa x}" "procs s 1 = Some x" "p_pagetable x = root"
    "p_stack_bottom_va x = USER_STACK_BOTTOM" "length (p_files x) = 16" "11 \<le> length free" "upage (ram s) d (2 ^ 25 - 1) \<noteq> None" "entry (ram s) d 2 = 0"
    "\<forall>a<125. ram s (73728 + a) = Some (demo_elf ! a)" "\<forall>a. 69632 \<le> a \<and> a < 81920 \<longrightarrow> ram s a \<noteq> None"
    by (rule demo_program)
  have im: "image_apart 4096 69632 {p_trapframe_pa x} (ram s) (unat (73728 :: u64)) (unat (125 :: u64))"
    "image_apart 4096 69632 {p_trapframe_pa x} (ram s) (unat (80000 :: u64)) 32"
    using D(10) above_pool by (auto simp: image_apart_def mapped_def)
  have hd: "elf_header (ram s) 73728 = header_of (bslice demo_elf 0 64)"
    using bslice_image [of demo_elf "ram s" 73728 0 64] D(9) by (simp add: elf_header_def demo_length)
  define ph where "ph = program_header_of (bslice demo_elf 64 56)"
  have phs: "to_load (ram s) 73728 64 [0..<1] = [ph]"
    using bslice_image [of demo_elf "ram s" 73728 64 56] D(9) demo_program_header
    by (simp add: to_load_def ph_at_def demo_length ph_def PT_LOAD_def)
  have seg: "seg_first ph = 2" "seg_count ph = 1" by (simp_all add: seg_first_def seg_count_def ph_def demo_program_header)
  have "segment_fits 125 ph" "seg_unmapped (ram s) d ph"
    using D(8) seg by (simp_all add: segment_fits_def segment_placed_def seg_unmapped_def ph_def demo_program_header)
  then have ld: "loadable (ram s) d (length free) 73728 125"
    using seg D(6) phs by (simp add: loadable_def hd demo_header header_ok_def BIT64_def LITTLE_def EI_CURRENT_def SYSTEM_V_def ABI_CURRENT_def ET_EXEC_def
      RISCV_def E_CURRENT_def sizeof_elf64_program_header_def sizeof_elf64_section_header_def)
  have "(2 ^ 37 - 28 + i) div 4096 = 2 ^ 25 - 1" if "i < 28" for i :: nat using that by (intro div_nat_eqI) simp_all
  then have st: "\<forall>i<28. uphys (ram s) d (2 ^ 37 - 28 + i) \<noteq> None" using D(7) by (simp add: uphys_upage)
  have "page_in 4096 69632 (p_trapframe_pa x)" by (rule space_invD(8) [OF D(1)]) simp
  then have fr: "\<forall>i<32. unat (80000 :: u64) + i \<notin> frame (p_trapframe_pa x)" using above_pool by simp
  obtain s' d' y where L: "test_load_elf 9 80000 1 73728 125 s = (Inr 0, s')" "\<forall>q \<in> set [ph]. \<forall>B. in_segment q B \<longrightarrow> ubyte (ram s') d' B = segment_byte (ram s) 73728 q B"
      "\<forall>i<28. ubyte (ram s') d' (2 ^ 37 - 28 + i) = Some (first_stack ! i)" "procs s' 1 = Some y" "p_state y = WAKEN_UP"
    using program_ready_to_run [OF D(1) _ D(2,3) _ im(1) ld D(4) st im(2) fr, of 9] D(5) phs by (auto simp: hd demo_header)
  have "ubyte (ram s') d' 8202 = segment_byte (ram s) 73728 ph 8202" using L(2) seg by (simp add: in_segment_def)
  moreover have "ram s 73850 = Some (demo_elf ! 122)" using spec [OF D(9), of 122] by simp
  moreover have "demo_elf ! 122 = 13" "first_stack ! 0 = 1" "first_stack ! 16 = 104" by code_simp+
  ultimately show ?thesis using L(1,4,5) spec [OF L(3), of 0] spec [OF L(3), of 16]
    by (intro exI [of _ s] exI [of _ s'] exI [of _ d'] exI [of _ y]) (simp add: segment_byte_def ph_def demo_program_header)
qed

end
