(* ===== verification/Context_Switch.thy ===== *)
theory Context_Switch
  imports Hart
begin

text \<open>
  Switching between contexts (\<open>src/os/arch/cpu.cc\<close> and the routine \<open>swtch\<close> of \<open>src/os/trap/switch.S\<close>): the registers that a function has
  to keep are stored in one context and loaded from another. Contexts are found by their address. Control goes where the register \<open>ra\<close>
  points; \<open>arrive\<close> says where that has to be.
\<close>

section \<open>Contexts\<close>

text \<open>\<open>c_s\<close> are the registers \<open>s0\<close> to \<open>s11\<close>.\<close>

record saved_regs =
  c_ra :: u64
  c_sp :: u64
  c_s :: "u64 list"
  c_a0 :: u64

record core = hart +
  xregs :: "nat \<Rightarrow> u64"
  ctxs :: "u64 \<Rightarrow> saved_regs"

type_synonym 'a xm = "(core, 'a) kmonad"

text \<open>The numbers of \<open>s0\<close> to \<open>s11\<close>; \<open>ra\<close> is 1, \<open>sp\<close> 2, \<open>a0\<close> 10 and \<open>a1\<close> 11.\<close>

definition s_regs :: "nat list" where
  "s_regs = [8, 9, 18, 19, 20, 21, 22, 23, 24, 25, 26, 27]"

definition save_regs :: "(nat \<Rightarrow> u64) \<Rightarrow> saved_regs \<Rightarrow> saved_regs" where
  "save_regs r c = c\<lparr>c_ra := r 1, c_sp := r 2, c_s := map r s_regs\<rparr>"

definition load_regs :: "saved_regs \<Rightarrow> (nat \<Rightarrow> u64) \<Rightarrow> (nat \<Rightarrow> u64)" where
  "load_regs c r = (fold (\<lambda>(i, v) r. r(i := v)) (zip s_regs (c_s c)) (r(1 := c_ra c, 2 := c_sp c)))(10 := c_a0 c, 11 := c_sp c)"

definition swtch :: "u64 \<Rightarrow> u64 \<Rightarrow> unit xm" where
  "swtch old new = kseq (if old \<noteq> 0 then kbind (kget xregs) (\<lambda>r.
      kmod (ctxs_update (\<lambda>m. m(old := save_regs r (m old))))) else kret ()) (
    kbind (kget ctxs) (\<lambda>m.
    kmod (xregs_update (load_regs (m new)))))"

text \<open>A call leaves the address to return to in \<open>ra\<close>.\<close>

definition call_from :: "u64 \<Rightarrow> unit xm" where
  "call_from ret = kmod (xregs_update (\<lambda>r. r(1 := ret)))"

definition arrive :: "u64 \<Rightarrow> unit xm" where
  "arrive a = kbind (kget xregs) (\<lambda>r.
    if r 1 = a then kret () else kthrow Undefined)"

section \<open>Operations of a core\<close>

definition timer_off :: "unit xm" where
  "timer_off = kbind local_irq_on (\<lambda>on.
    kbind r_sie (\<lambda>x.
    kassert (\<not> on \<or> on \<and> x AND SIE_STIE = 0) ''timer interrupt should be off''))"

text \<open>\<open>saved\<close> is the address of the context that the core saves the scheduler in.\<close>

definition core_switch_back :: "u64 \<Rightarrow> u64 \<Rightarrow> unit xm" where
  "core_switch_back saved cur = kseq timer_off (
    swtch cur saved)"

definition core_yield :: "u64 \<Rightarrow> u64 \<Rightarrow> unit xm" where
  "core_yield saved ctx = kbind local_irq_on (\<lambda>on.
    kseq (kassert (\<not> on) ''local_irq should be disabled when yield'') (
    core_switch_back saved ctx))"

definition save_context_and_switch_to :: "u64 \<Rightarrow> u64 \<Rightarrow> unit xm" where
  "save_context_and_switch_to saved dest = kseq timer_off (
    swtch saved dest)"

definition function_caller :: "u64 \<Rightarrow> unit xm \<Rightarrow> unit xm" where
  "function_caller saved func = kbind local_irq_on (\<lambda>on.
    kseq (kassert (\<not> on) ''local_irq should be disabled'') (
    kseq func (
    core_switch_back saved 0)))"

text \<open>
  \<open>temp\<close> is where the local context lies, \<open>caller\<close> the address of \<open>__function_caller\<close>, \<open>fp\<close> that of the function object, \<open>ret\<close> the address
  behind the call of \<open>swtch\<close>.
\<close>

definition save_context_and_run :: "u64 \<Rightarrow> u64 \<Rightarrow> u64 \<Rightarrow> u64 \<Rightarrow> u64 \<Rightarrow> u64 \<Rightarrow> unit xm \<Rightarrow> unit xm" where
  "save_context_and_run saved temp temp_kstack caller fp ret func = kseq timer_off (
    kseq (kmod (ctxs_update (\<lambda>m. m(temp := \<lparr>c_ra = caller, c_sp = temp_kstack, c_s = replicate 12 0, c_a0 = fp\<rparr>)))) (
    kseq (call_from ret) (
    kseq (swtch saved temp) (
    kseq (arrive caller) (
    kseq (function_caller saved func) (
    kseq (arrive ret) (
    kmod (ctxs_update (\<lambda>m. m(saved := (m saved)\<lparr>c_ra := 0, c_sp := 0\<rparr>))))))))))"

section \<open>Registers survive a switch\<close>

definition kept_regs :: "nat list" where
  "kept_regs = 2 # s_regs"

lemma fold_upd_other: "i \<notin> set xs \<Longrightarrow> fold (\<lambda>(i, v) r. r(i := v)) (zip xs vs) q i = q i"
  by (induction xs arbitrary: vs q) (auto simp: zip_Cons1 split: list.splits)

lemma fold_upd_at:
  "\<lbrakk>distinct xs; length vs = length xs; j < length xs\<rbrakk> \<Longrightarrow> fold (\<lambda>(i, v) r. r(i := v)) (zip xs vs) q (xs ! j) = vs ! j"
proof (induction xs arbitrary: vs q j)
  case (Cons x xs)
  then obtain v ws where "vs = v # ws" by (cases vs) auto
  then show ?case using Cons by (cases j) (simp_all add: fold_upd_other del: fun_upd_apply, simp)
qed simp

lemma s_regs_facts: "distinct s_regs" "length s_regs = 12" "\<forall>i\<in>set s_regs. i \<noteq> 10 \<and> i \<noteq> 11"
  by (simp_all add: s_regs_def)

lemma load_regs_at:
  "load_regs c r 1 = c_ra c" "load_regs c r 2 = c_sp c" "load_regs c r 10 = c_a0 c"
  "length (c_s c) = 12 \<Longrightarrow> j < 12 \<Longrightarrow> load_regs c r (s_regs ! j) = c_s c ! j"
proof -
  show "load_regs c r 1 = c_ra c" "load_regs c r 2 = c_sp c" "load_regs c r 10 = c_a0 c"
    unfolding load_regs_def by (simp_all add: fold_upd_other s_regs_def [THEN arg_cong [where f = set]])
  assume l: "length (c_s c) = 12" "j < 12"
  then have "s_regs ! j \<noteq> 10" "s_regs ! j \<noteq> 11" using s_regs_facts by simp_all
  then show "load_regs c r (s_regs ! j) = c_s c ! j"
    using l s_regs_facts fold_upd_at [of s_regs "c_s c" j] by (simp add: load_regs_def)
qed

lemma load_regs_ra: "load_regs c r (Suc 0) = c_ra c"
  using load_regs_at(1) by simp

lemma load_saved:
  assumes "i \<in> set (1 # kept_regs)"
  shows "load_regs (save_regs r c) q i = r i"
proof -
  have l: "length (c_s (save_regs r c)) = 12" by (simp add: save_regs_def s_regs_def)
  have "load_regs (save_regs r c) q (s_regs ! j) = r (s_regs ! j)" if "j < 12" for j
    using load_regs_at(4) [OF l that] that by (simp add: save_regs_def s_regs_facts)
  then have "i \<in> set s_regs \<Longrightarrow> ?thesis" using s_regs_facts(2) by (metis in_set_conv_nth)
  moreover have "load_regs (save_regs r c) q 1 = r 1" "load_regs (save_regs r c) q 2 = r 2" by (simp_all add: load_regs_at load_regs_ra save_regs_def)
  ultimately show ?thesis using assms by (auto simp: kept_regs_def)
qed

text \<open>Interrupts are off.\<close>

definition quiet :: "core \<Rightarrow> bool" where
  "quiet s \<longleftrightarrow> csr_sstatus s AND SSTATUS_SIE = 0"

lemma timer_off_run: "quiet s \<Longrightarrow> timer_off s = (Inr (), s)"
  by (simp add: timer_off_def local_irq_on_def r_sstatus_def r_sie_def quiet_def)

lemma irq_off_run: "quiet s \<Longrightarrow> local_irq_on s = (Inr False, s)"
  by (simp add: local_irq_on_def r_sstatus_def quiet_def)

lemma swtch_run:
  "swtch old new s = (let m = (if old \<noteq> 0 then (ctxs s)(old := save_regs (xregs s) (ctxs s old)) else ctxs s) in
    (Inr (), s\<lparr>ctxs := m, xregs := load_regs (m new) (xregs s)\<rparr>))"
  by (cases s) (simp add: swtch_def Let_def)

section \<open>Coming back\<close>

text \<open>
  C29. A process that yields continues as it left: the registers that a function has to keep, the stack pointer and the address to return to
  are, when the scheduler switches to the process again, those it had when it yielded, whatever the scheduler did in between, as
  long as that leaves the context of the process alone and keeps interrupts off.
\<close>

theorem yield_resumes_process:
  assumes "quiet s" and "ctx \<noteq> 0" and "ctx \<noteq> saved"
    and "\<And>t. quiet t \<Longrightarrow> \<exists>t'. sched t = (Inr (), t') \<and> quiet t' \<and> ctxs t' ctx = ctxs t ctx"
  shows "\<exists>s'. kseq (core_yield saved ctx) (kseq sched (save_context_and_switch_to saved ctx)) s = (Inr (), s') \<and>
    (\<forall>i\<in>set (1 # kept_regs). xregs s' i = xregs s i)"
proof -
  let ?c = "save_regs (xregs s) (ctxs s ctx)"
  define s1 where "s1 = s\<lparr>ctxs := (ctxs s)(ctx := ?c), xregs := load_regs (ctxs s saved) (xregs s)\<rparr>"
  have y: "core_yield saved ctx s = (Inr (), s1)"
    using assms(1-3) by (simp add: core_yield_def core_switch_back_def irq_off_run timer_off_run swtch_run s1_def)
  have "quiet s1" using assms(1) by (simp add: quiet_def s1_def)
  from assms(4) [OF this] obtain s2 where s2: "sched s1 = (Inr (), s2)" "quiet s2" "ctxs s2 ctx = ?c" by (auto simp: s1_def)
  define s3 where "s3 = s2\<lparr>ctxs := (if saved \<noteq> 0 then (ctxs s2)(saved := save_regs (xregs s2) (ctxs s2 saved)) else ctxs s2), xregs := load_regs ?c (xregs s2)\<rparr>"
  have "save_context_and_switch_to saved ctx s2 = (Inr (), s3)"
    using s2(2,3) assms(3) by (simp add: save_context_and_switch_to_def timer_off_run swtch_run Let_def s3_def)
  moreover have "\<forall>i\<in>set (1 # kept_regs). xregs s3 i = xregs s i" using load_saved by (simp add: s3_def)
  ultimately show ?thesis using y s2(1) by simp
qed

text \<open>
  Running a function on the temporary stack: \<open>save_context_and_run\<close> starts the function on that stack and comes back behind its call, with
  the stack pointer and the registers that a function has to keep as they were, provided the function leaves the saved context
  of the core alone and interrupts off.
\<close>

lemma run_on_other_stack_returns:
  assumes "quiet s" and "saved \<noteq> 0" and "temp \<noteq> saved"
    and "\<And>t. \<lbrakk>quiet t; xregs t 2 = temp_kstack; xregs t 10 = fp\<rbrakk> \<Longrightarrow> \<exists>t'. func t = (Inr (), t') \<and> quiet t' \<and> ctxs t' saved = ctxs t saved"
  shows "\<exists>s'. save_context_and_run saved temp temp_kstack caller fp ret func s = (Inr (), s') \<and> (\<forall>i\<in>set kept_regs. xregs s' i = xregs s i)"
proof -
  let ?r = "(xregs s)(1 := ret)" and ?t = "\<lparr>c_ra = caller, c_sp = temp_kstack, c_s = replicate 12 0, c_a0 = fp\<rparr>"
  let ?c = "save_regs ?r (ctxs s saved)"
  define s1 where "s1 = s\<lparr>ctxs := (ctxs s)(temp := ?t), xregs := ?r\<rparr>"
  define s2 where "s2 = s1\<lparr>ctxs := (ctxs s1)(saved := ?c), xregs := load_regs ?t ?r\<rparr>"
  have start: "call_from ret (ctxs_update (\<lambda>m. m(temp := ?t)) s) = (Inr (), s1)" by (cases s) (simp add: call_from_def s1_def)
  have sw: "swtch saved temp s1 = (Inr (), s2)" using assms(2,3) by (simp add: swtch_run Let_def s1_def s2_def)
  have at: "arrive caller s2 = (Inr (), s2)" by (simp add: arrive_def s2_def load_regs_ra)
  have "quiet s2" "xregs s2 2 = temp_kstack" "xregs s2 10 = fp" using assms(1) by (simp_all add: quiet_def s1_def s2_def load_regs_at)
  from assms(4) [OF this] obtain s3 where s3: "func s2 = (Inr (), s3)" "quiet s3" "ctxs s3 saved = ctxs s2 saved" by blast
  have c: "ctxs s2 saved = ?c" by (simp add: s2_def)
  define s4 where "s4 = s3\<lparr>xregs := load_regs ?c (xregs s3)\<rparr>"
  have fc: "function_caller saved func s2 = (Inr (), s4)" using \<open>quiet s2\<close> s3 [unfolded c]
    by (cases s3) (simp add: function_caller_def irq_off_run core_switch_back_def timer_off_run swtch_run s4_def)
  have ra: "arrive ret s4 = (Inr (), s4)" using load_saved [of 1 ?r] by (simp add: arrive_def s4_def)
  have "\<forall>i\<in>set kept_regs. xregs s4 i = xregs s i"
  proof
    fix i assume i: "i \<in> set kept_regs"
    then have "i \<noteq> 1" by (auto simp: kept_regs_def s_regs_def)
    then show "xregs s4 i = xregs s i" using load_saved [of i ?r] i by (simp add: s4_def)
  qed
  then show ?thesis
    using assms(1) start sw at fc ra unfolding save_context_and_run_def by (simp add: timer_off_run)
qed

definition demo_core :: core where
  "demo_core = \<lparr>csr_sstatus = 0, csr_sie = 0, csr_stvec = 0, csr_sepc = 0, csr_scause = 0, csr_stval = 0, csr_satp = 0, csr_time = 0, reg_tp = 0, timer_at = 0,
    plic_regs = (\<lambda>_. 0), plic_claims = [], plic_completed = [], xregs = of_nat, ctxs = (\<lambda>_. \<lparr>c_ra = 0, c_sp = 0, c_s = replicate 12 0, c_a0 = 0\<rparr>)\<rparr>"

theorem yield_resumes_process_witness:
  "\<exists>s'. kseq (core_yield 4096 8192) (kseq (kmod (xregs_update (\<lambda>_ _. 7))) (save_context_and_switch_to 4096 8192)) demo_core = (Inr (), s') \<and>
    (\<forall>i\<in>set (1 # kept_regs). xregs s' i = of_nat i)"
  using yield_resumes_process [of demo_core 8192 4096 "kmod (xregs_update (\<lambda>_ _. 7))"] by (simp add: demo_core_def quiet_def)

lemma run_on_other_stack_returns_witness:
  "\<exists>s'. save_context_and_run 4096 8192 65536 100 200 300 (kmod (xregs_update (\<lambda>_ _. 7))) demo_core = (Inr (), s') \<and> (\<forall>i\<in>set kept_regs. xregs s' i = of_nat i)"
  using run_on_other_stack_returns [of demo_core 4096 8192 65536 200 "kmod (xregs_update (\<lambda>_ _. 7))" 100 300] by (simp add: demo_core_def quiet_def)

end
