(* ===== verification/Runtime.thy ===== *)
theory Runtime
  imports Prelude
begin

text \<open>
  The run-time support of C++ (\<open>src/os/cxx/icxxabi.cc\<close>): the table of destructors of static objects, and the calls of the arrays of
  constructors and destructors that the linker collects. A function pointer is an address; \<open>call f x\<close> is what the
  function at \<open>f\<close> does, with argument \<open>x\<close>, to the rest of the program.
\<close>

section \<open>The table of destructors\<close>

definition ATEXIT_FUNC_MAX :: nat where "ATEXIT_FUNC_MAX = 128"

record atexit_func_entry_t =
  destructor_func :: u64
  obj_ptr :: u64
  dso_handle :: u64

record 'w runtime =
  atexit_funcs :: "atexit_func_entry_t list"
  atexit_func_count :: nat
  program :: 'w

type_synonym 'w caller = "u64 \<Rightarrow> u64 \<Rightarrow> 'w \<Rightarrow> 'w"

text \<open>The table at the start: the segment of data that is cleared.\<close>

definition new_runtime :: "'w \<Rightarrow> 'w runtime" where
  "new_runtime w = \<lparr>atexit_funcs = replicate ATEXIT_FUNC_MAX \<lparr>destructor_func = 0, obj_ptr = 0, dso_handle = 0\<rparr>,
    atexit_func_count = 0, program = w\<rparr>"

definition cxa_atexit :: "u64 \<Rightarrow> u64 \<Rightarrow> u64 \<Rightarrow> ('w runtime, int) kmonad" where
  "cxa_atexit f objptr dso = kbind (kget atexit_func_count) (\<lambda>n.
    if n \<ge> ATEXIT_FUNC_MAX then kret (- 1) else kbind (kget atexit_funcs) (\<lambda>t.
      kbind (kopt (arr_set t n \<lparr>destructor_func = f, obj_ptr = objptr, dso_handle = dso\<rparr>)) (\<lambda>t'.
      kseq (kmod (\<lambda>s. s\<lparr>atexit_funcs := t', atexit_func_count := n + 1\<rparr>)) (
      kret 0))))"

text \<open>Destroying everything, from entry \<open>i - 1\<close> down.\<close>

primrec finalize_all :: "'w caller \<Rightarrow> nat \<Rightarrow> ('w runtime, unit) kmonad" where
  "finalize_all call 0 = kret ()"
| "finalize_all call (Suc i) = kbind (kget atexit_funcs) (\<lambda>t.
  kbind (kopt (arr_get t i)) (\<lambda>e.
  kseq (if destructor_func e \<noteq> 0 then kmod (program_update (call (destructor_func e) (obj_ptr e))) else kret ()) (
  finalize_all call i)))"

text \<open>Destroying what one function destroys; the argument is the number of entries that are left, the next one being below it.\<close>

primrec finalize_one :: "'w caller \<Rightarrow> u64 \<Rightarrow> nat \<Rightarrow> ('w runtime, unit) kmonad" where
  "finalize_one call f 0 = kret ()"
| "finalize_one call f (Suc i) = kbind (kget atexit_funcs) (\<lambda>t.
  kbind (kopt (arr_get t i)) (\<lambda>e.
  kseq (if destructor_func e = f then kseq (kmod (program_update (call f (obj_ptr e)))) (
    kmod (atexit_funcs_update (\<lambda>t. t[i := e\<lparr>destructor_func := 0\<rparr>]))) else kret ()) (
  finalize_one call f i)))"

definition cxa_finalize :: "'w caller \<Rightarrow> u64 \<Rightarrow> ('w runtime, unit) kmonad" where
  "cxa_finalize call f = kbind (kget atexit_func_count) (\<lambda>n.
    if f = 0 then finalize_all call n else finalize_one call f (n + 1))"

section \<open>Start and end of the program\<close>

primrec run_all :: "('s, unit) kmonad list \<Rightarrow> ('s, unit) kmonad" where
  "run_all [] = kret ()"
| "run_all (f # fs) = kseq f (
  run_all fs)"

definition init_cxx :: "('w runtime, unit) kmonad list \<Rightarrow> ('w runtime, unit) kmonad list \<Rightarrow> ('w runtime, unit) kmonad" where
  "init_cxx preinit_array init_array = kseq (run_all preinit_array) (
    run_all init_array)"

definition fini_cxx :: "'w caller \<Rightarrow> ('w runtime, unit) kmonad list \<Rightarrow> ('w runtime, unit) kmonad" where
  "fini_cxx call fini_array = kseq (run_all fini_array) (
    cxa_finalize call 0)"

text \<open>A static object: the code the compiler puts into the array of constructors runs the constructor and registers the destructor.\<close>

record static_object =
  so_ctor :: u64
  so_dtor :: u64
  so_addr :: u64

definition construct :: "'w caller \<Rightarrow> static_object \<Rightarrow> ('w runtime, unit) kmonad" where
  "construct call d = kseq (kmod (program_update (call (so_ctor d) (so_addr d)))) (
    kseq (cxa_atexit (so_dtor d) (so_addr d) 0) (
    kret ()))"

section \<open>Objects are destroyed in the reverse order\<close>

definition entry_of :: "static_object \<Rightarrow> atexit_func_entry_t" where
  "entry_of d = \<lparr>destructor_func = so_dtor d, obj_ptr = so_addr d, dso_handle = 0\<rparr>"

definition registered :: "'w runtime \<Rightarrow> static_object list \<Rightarrow> bool" where
  "registered s ds \<longleftrightarrow> length (atexit_funcs s) = ATEXIT_FUNC_MAX \<and> atexit_func_count s = length ds \<and>
    length ds \<le> ATEXIT_FUNC_MAX \<and> take (length ds) (atexit_funcs s) = map entry_of ds"

lemma construct_run:
  assumes "registered s ds" and "length ds < ATEXIT_FUNC_MAX"
  shows "\<exists>s'. construct call d s = (Inr (), s') \<and> registered s' (ds @ [d]) \<and> program s' = call (so_ctor d) (so_addr d) (program s)"
proof -
  have n: "length ds < length (atexit_funcs s)" "atexit_func_count s = length ds" using assms by (simp_all add: registered_def)
  have "take (Suc (length ds)) ((atexit_funcs s)[length ds := entry_of d]) = map entry_of ds @ [entry_of d]"
    using assms n by (simp add: registered_def take_Suc_conv_app_nth)
  then show ?thesis using assms n
    by (cases s) (simp add: construct_def cxa_atexit_def registered_def entry_of_def)
qed

lemma construct_all:
  assumes "registered s ds" and "length ds + length es \<le> ATEXIT_FUNC_MAX"
  shows "\<exists>s'. run_all (map (construct call) es) s = (Inr (), s') \<and> registered s' (ds @ es) \<and>
    program s' = fold (\<lambda>d. call (so_ctor d) (so_addr d)) es (program s)"
  using assms
proof (induction es arbitrary: s ds)
  case (Cons d es)
  obtain s1 where s1: "construct call d s = (Inr (), s1)" "registered s1 (ds @ [d])" "program s1 = call (so_ctor d) (so_addr d) (program s)"
    using construct_run [OF Cons.prems(1), of call d] Cons.prems(2) by auto
  then show ?case using Cons.IH [OF s1(2)] Cons.prems(2) by simp
qed simp

lemma finalize_all_run:
  assumes "take (length ds) (atexit_funcs s) = map entry_of ds" and "\<forall>d\<in>set ds. so_dtor d \<noteq> 0" and "length ds \<le> length (atexit_funcs s)"
  shows "finalize_all call (length ds) s = (Inr (), s\<lparr>program := fold (\<lambda>d. call (so_dtor d) (so_addr d)) (rev ds) (program s)\<rparr>)"
  using assms
proof (induction ds arbitrary: s rule: rev_induct)
  case (snoc d ds)
  have n: "length ds < length (atexit_funcs s)" using snoc.prems(3) by simp
  then have t: "take (length ds) (atexit_funcs s) = map entry_of ds" "atexit_funcs s ! length ds = entry_of d"
    using snoc.prems(1) by (auto simp: take_Suc_conv_app_nth)
  let ?s = "s\<lparr>program := call (so_dtor d) (so_addr d) (program s)\<rparr>"
  have "finalize_all call (length ds) ?s = (Inr (), ?s\<lparr>program := fold (\<lambda>d. call (so_dtor d) (so_addr d)) (rev ds) (program ?s)\<rparr>)"
    using snoc.prems t by (intro snoc.IH) auto
  then show ?case using n t(2) snoc.prems(2) by (cases s) (simp add: entry_of_def)
qed simp

text \<open>
  C34. Static objects are destroyed in the reverse order of their construction: when the constructors in the array of the linker
  have run and registered at most 128 destructors, shutting down runs each destructor once, the last object first.
\<close>

theorem statics_destroyed_in_reverse:
  assumes "length ds \<le> ATEXIT_FUNC_MAX" and "\<forall>d\<in>set ds. so_dtor d \<noteq> 0"
  shows "\<exists>s. kseq (init_cxx [] (map (construct call) ds)) (fini_cxx call []) (new_runtime w) = (Inr (), s) \<and>
    program s = fold (\<lambda>d. call (so_dtor d) (so_addr d)) (rev ds) (fold (\<lambda>d. call (so_ctor d) (so_addr d)) ds w)"
proof -
  have "registered (new_runtime w) []" by (simp add: registered_def new_runtime_def)
  then obtain s1 where s1: "run_all (map (construct call) ds) (new_runtime w) = (Inr (), s1)" "registered s1 ds"
      "program s1 = fold (\<lambda>d. call (so_ctor d) (so_addr d)) ds w"
    using construct_all [of "new_runtime w" "[]" ds call] assms(1) by (auto simp: new_runtime_def)
  have "finalize_all call (length ds) s1 = (Inr (), s1\<lparr>program := fold (\<lambda>d. call (so_dtor d) (so_addr d)) (rev ds) (program s1)\<rparr>)"
    using s1(2) assms(2) by (intro finalize_all_run) (auto simp: registered_def)
  then show ?thesis using s1 by (simp add: init_cxx_def fini_cxx_def cxa_finalize_def registered_def)
qed

theorem statics_destroyed_in_reverse_witness:
  "\<exists>s. kseq (init_cxx [] (map (construct (\<lambda>f x l. l @ [(f, x)])) [\<lparr>so_ctor = 2, so_dtor = 3, so_addr = 4\<rparr>, \<lparr>so_ctor = 5, so_dtor = 6, so_addr = 7\<rparr>]))
      (fini_cxx (\<lambda>f x l. l @ [(f, x)]) []) (new_runtime []) = (Inr (), s) \<and>
    program s = [(2, 4), (5, 7), (6, 7), (3, 4)]"
  using statics_destroyed_in_reverse [of "[\<lparr>so_ctor = 2, so_dtor = 3, so_addr = 4\<rparr>, \<lparr>so_ctor = 5, so_dtor = 6, so_addr = 7\<rparr>]" "\<lambda>f x l. l @ [(f, x)]" "[]"]
  by (simp add: ATEXIT_FUNC_MAX_def)

text \<open>When the table is full, a registration is refused; destroying by function then looks behind the end of the table.\<close>

lemma cxa_atexit_full: "atexit_func_count s = ATEXIT_FUNC_MAX \<Longrightarrow> cxa_atexit f x d s = (Inr (- 1), s)"
  by (simp add: cxa_atexit_def)

lemma cxa_finalize_full:
  assumes "atexit_func_count s = ATEXIT_FUNC_MAX" and "length (atexit_funcs s) = ATEXIT_FUNC_MAX" and "f \<noteq> 0"
  shows "cxa_finalize call f s = (Inl Undefined, s)"
  using assms by (simp add: cxa_finalize_def arr_get_def)

end
