(* ===== verification/Boot.thy ===== *)
theory Boot
  imports Prelude
begin

text \<open>
  The start of the machine (\<open>kernel_init\<close> of \<open>src/os/init.cc\<close> with \<open>cpu::boot_hart\<close>): the firmware starts one hart, which initialises the
  kernel and starts the others; every hart prepares its scheduler and waits for all of them. The code is a list of
  instructions that the harts run interleaved, one instruction at a time.
\<close>

section \<open>The code\<close>

datatype init_step = Clean_Bss | Init_Cxx | Init_Cpus | Kvm_Init | Plic_Init | Init_Globals | Use_Own_Heap

datatype hart_act = Kvm_Init_Hart | Trap_Init_Hart | Plic_Init_Hart | Set_Booted | Set_Process_Queue | Set_Idle | Set_Task_Queue

datatype boot_instr = If_First nat | Init init_step | Start_Hart nat | Act hart_act | Push_Task_Scheduler | Push_Init | Await nat

definition boot_harts :: nat where "boot_harts = 4"

text \<open>The argument of \<open>If_First\<close> is where a hart goes that is not the first.\<close>

definition kernel_init :: "boot_instr list" where
  "kernel_init =
    [If_First 12,
     Init Clean_Bss, Init Init_Cxx, Init Init_Cpus, Init Kvm_Init, Init Plic_Init, Init Init_Globals, Init Use_Own_Heap,
     Start_Hart 0, Start_Hart 1, Start_Hart 2, Start_Hart 3,
     Act Kvm_Init_Hart, Act Trap_Init_Hart, Act Plic_Init_Hart, Act Set_Booted,
     Act Set_Process_Queue, Act Set_Idle, Act Set_Task_Queue, Push_Task_Scheduler, Push_Init,
     Await 0, Await 1, Await 2, Await 3]"

datatype boot_proc = Task_Scheduler_Of nat | Init_Process

text \<open>A hart that was not started has no program counter; behind the last instruction the scheduler of the hart runs.\<close>

record boot =
  is_first :: bool
  hart_pc :: "nat \<Rightarrow> nat option"
  inits :: "init_step list"
  acts :: "nat \<Rightarrow> hart_act list"
  hart_booted :: "nat \<Rightarrow> bool"
  boot_queue :: "(nat \<times> boot_proc) list"
  next_pid :: nat

definition boot_goto :: "nat \<Rightarrow> nat \<Rightarrow> boot \<Rightarrow> boot" where
  "boot_goto h k s = s\<lparr>hart_pc := (hart_pc s)(h \<mapsto> k)\<rparr>"

text \<open>The firmware starts a hart only if it is stopped, and \<open>start_hart\<close> ignores its answer.\<close>

fun boot_exec :: "boot_instr \<Rightarrow> nat \<Rightarrow> nat \<Rightarrow> boot \<Rightarrow> boot" where
  "boot_exec (If_First l) h k s = (if is_first s then boot_goto h (Suc k) (s\<lparr>is_first := False\<rparr>) else boot_goto h l s)"
| "boot_exec (Init x) h k s = boot_goto h (Suc k) (s\<lparr>inits := inits s @ [x]\<rparr>)"
| "boot_exec (Start_Hart i) h k s = boot_goto h (Suc k) (if i \<noteq> h \<and> hart_pc s i = None then boot_goto i 0 s else s)"
| "boot_exec (Act x) h k s = boot_goto h (Suc k) (s\<lparr>acts := (acts s)(h := acts s h @ [x]),
    hart_booted := (if x = Set_Booted then (hart_booted s)(h := True) else hart_booted s)\<rparr>)"
| "boot_exec Push_Task_Scheduler h k s = boot_goto h (Suc k) (s\<lparr>boot_queue := boot_queue s @ [(next_pid s, Task_Scheduler_Of h)], next_pid := next_pid s + 1\<rparr>)"
| "boot_exec Push_Init h k s = boot_goto h (Suc k) (if h = 0 then s\<lparr>boot_queue := boot_queue s @ [(0, Init_Process)]\<rparr> else s)"
| "boot_exec (Await i) h k s = (if hart_booted s i then boot_goto h (Suc k) s else s)"

definition boot_step :: "nat \<Rightarrow> boot \<Rightarrow> boot" where
  "boot_step h s = (case hart_pc s h of None \<Rightarrow> s
    | Some k \<Rightarrow> if k < length kernel_init then boot_exec (kernel_init ! k) h k s else s)"

text \<open>Hart \<open>b\<close> enters the kernel.\<close>

definition boot_start :: "nat \<Rightarrow> boot" where
  "boot_start b = \<lparr>is_first = True, hart_pc = [b \<mapsto> 0], inits = [], acts = (\<lambda>_. []), hart_booted = (\<lambda>_. False), boot_queue = [], next_pid = boot_harts + 1\<rparr>"

definition in_scheduler :: "boot \<Rightarrow> nat \<Rightarrow> bool" where
  "in_scheduler s h \<longleftrightarrow> hart_pc s h = Some (length kernel_init)"

section \<open>What holds at every moment\<close>

definition init_steps :: "init_step list" where
  "init_steps = [Clean_Bss, Init_Cxx, Init_Cpus, Kvm_Init, Plic_Init, Init_Globals, Use_Own_Heap]"

definition hart_acts :: "hart_act list" where
  "hart_acts = [Kvm_Init_Hart, Trap_Init_Hart, Plic_Init_Hart, Set_Booted, Set_Process_Queue, Set_Idle, Set_Task_Queue]"

definition past :: "boot \<Rightarrow> nat \<Rightarrow> nat \<Rightarrow> bool" where
  "past s h k \<longleftrightarrow> (\<exists>j. hart_pc s h = Some j \<and> k < j)"

definition boot_order :: "nat \<Rightarrow> boot \<Rightarrow> bool" where
  "boot_order b s \<longleftrightarrow> (\<exists>k. hart_pc s b = Some k \<and> k \<le> 25 \<and> is_first s = (k = 0) \<and> inits s = take (k - 1) init_steps \<and>
    (\<forall>h. h \<noteq> b \<longrightarrow> (hart_pc s h \<noteq> None) = (h < 4 \<and> 8 + h < k)) \<and>
    (\<forall>h j. h \<noteq> b \<longrightarrow> hart_pc s h = Some j \<longrightarrow> j = 0 \<or> 12 \<le> j \<and> j \<le> 25))"

definition boot_acts :: "boot \<Rightarrow> bool" where
  "boot_acts s \<longleftrightarrow> (\<forall>h. acts s h = (case hart_pc s h of None \<Rightarrow> [] | Some k \<Rightarrow> take (k - 12) hart_acts)) \<and>
    (\<forall>h. hart_booted s h = past s h 15) \<and> (\<forall>h i. i < 4 \<longrightarrow> past s h (21 + i) \<longrightarrow> hart_booted s i)"

definition boot_queued :: "boot \<Rightarrow> bool" where
  "boot_queued s \<longleftrightarrow> distinct (map fst (boot_queue s)) \<and> distinct (map snd (boot_queue s)) \<and> 4 < next_pid s \<and>
    (\<forall>h. Task_Scheduler_Of h \<in> snd ` set (boot_queue s) \<longleftrightarrow> past s h 19) \<and> (Init_Process \<in> snd ` set (boot_queue s) \<longleftrightarrow> past s 0 20) \<and>
    (\<forall>(p, x)\<in>set (boot_queue s). if x = Init_Process then p = 0 else 4 < p \<and> p < next_pid s)"

lemma kernel_init_at:
  "kernel_init ! k = If_First l \<Longrightarrow> k < 25 \<Longrightarrow> k = 0 \<and> l = 12"
  "kernel_init ! k = Init x \<Longrightarrow> k < 25 \<Longrightarrow> 1 \<le> k \<and> k \<le> 7 \<and> x = init_steps ! (k - 1)"
  "kernel_init ! k = Start_Hart i \<Longrightarrow> k < 25 \<Longrightarrow> k = 8 + i \<and> i < 4"
  "kernel_init ! k = Act a \<Longrightarrow> k < 25 \<Longrightarrow> 12 \<le> k \<and> k \<le> 18 \<and> a = hart_acts ! (k - 12)"
  "kernel_init ! k = Push_Task_Scheduler \<Longrightarrow> k < 25 \<Longrightarrow> k = 19"
  "kernel_init ! k = Push_Init \<Longrightarrow> k < 25 \<Longrightarrow> k = 20"
  "kernel_init ! k = Await i \<Longrightarrow> k < 25 \<Longrightarrow> k = 21 + i \<and> i < 4"
  by (simp_all add: kernel_init_def init_steps_def hart_acts_def less_Suc_eq numeral_eq_Suc nth_Cons' split: if_splits)

lemma length_kernel_init: "length kernel_init = 25"
  by (simp add: kernel_init_def)

lemma boot_step_cases:
  assumes "P s" and "\<And>k. hart_pc s h = Some k \<Longrightarrow> k < 25 \<Longrightarrow> P (boot_exec (kernel_init ! k) h k s)"
  shows "P (boot_step h s)"
  using assms by (auto simp: boot_step_def length_kernel_init split: option.splits)

lemma length_steps: "length init_steps = 7" "length hart_acts = 7"
  by (simp_all add: init_steps_def hart_acts_def)

lemma init_steps_take: "1 \<le> k \<Longrightarrow> k \<le> 7 \<Longrightarrow> take (k - 1) init_steps @ [init_steps ! (k - 1)] = take k init_steps"
  using take_Suc_conv_app_nth [of "k - 1" init_steps] by (simp add: length_steps)

lemma hart_acts_take: "12 \<le> k \<Longrightarrow> k \<le> 18 \<Longrightarrow> take (k - 12) hart_acts @ [hart_acts ! (k - 12)] = take (Suc k - 12) hart_acts"
  using take_Suc_conv_app_nth [of "k - 12" hart_acts] by (subst Suc_diff_le) (simp_all add: length_steps)

lemma init_steps_all: "7 \<le> k \<Longrightarrow> take k init_steps = init_steps"
  by (simp add: init_steps_def)

lemma boot_step_order:
  assumes "boot_order b s"
  shows "boot_order b (boot_step h s)"
proof (rule boot_step_cases [where P = "boot_order b", OF assms])
  fix k assume k: "hart_pc s h = Some k" "k < 25"
  obtain kb where kb: "hart_pc s b = Some kb" "kb \<le> 25" "is_first s = (kb = 0)" "inits s = take (kb - 1) init_steps"
    "\<And>h. h \<noteq> b \<Longrightarrow> (hart_pc s h \<noteq> None) = (h < 4 \<and> 8 + h < kb)" "\<And>h j. h \<noteq> b \<Longrightarrow> hart_pc s h = Some j \<Longrightarrow> j = 0 \<or> 12 \<le> j \<and> j \<le> 25"
    using assms unfolding boot_order_def by blast
  have other: "h \<noteq> b \<Longrightarrow> kb \<noteq> 0 \<and> (k = 0 \<or> 12 \<le> k)" using kb(5,6) [of h] k by auto
  have self: "h = b \<Longrightarrow> kb = k" using kb(1) k(1) by simp
  show "boot_order b (boot_exec (kernel_init ! k) h k s)"
  proof (cases "kernel_init ! k")
    case (If_First l)
    then have "k = 0" "l = 12" using kernel_init_at(1) k(2) by auto
    then show ?thesis unfolding boot_order_def If_First using kb other self k by (auto simp: boot_goto_def)
  next
    case (Init x)
    then have i: "1 \<le> k" "k \<le> 7" "x = init_steps ! (k - 1)" using kernel_init_at(2) k(2) by auto
    then have "h = b" using other by auto
    then show ?thesis unfolding boot_order_def Init using kb self i init_steps_take [OF i(1,2)] by (auto simp: boot_goto_def)
  next
    case (Start_Hart i)
    then have i: "k = 8 + i" "i < 4" using kernel_init_at(3) k(2) by auto
    then have "h = b" using other by auto
    moreover have "take (Suc k - 1) init_steps = take (k - 1) init_steps" using i by (simp add: init_steps_all)
    ultimately show ?thesis unfolding boot_order_def Start_Hart using kb self i by (auto simp: boot_goto_def less_Suc_eq split: if_splits)
  next
    case (Act a)
    then have i: "12 \<le> k" "k \<le> 18" using kernel_init_at(4) k(2) by auto
    then show ?thesis unfolding boot_order_def Act using kb self k by (cases "h = b") (auto simp: boot_goto_def init_steps_all)
  next
    case Push_Task_Scheduler
    then have "k = 19" using kernel_init_at(5) k(2) by auto
    then show ?thesis unfolding boot_order_def Push_Task_Scheduler using kb self k by (cases "h = b") (auto simp: boot_goto_def init_steps_all)
  next
    case Push_Init
    then have "k = 20" using kernel_init_at(6) k(2) by auto
    then show ?thesis unfolding boot_order_def Push_Init using kb kb(5) [of h] self k by (cases "h = b") (auto simp: boot_goto_def init_steps_all)
  next
    case (Await i)
    then have i: "k = 21 + i" "i < 4" using kernel_init_at(7) k(2) by auto
    then show ?thesis unfolding boot_order_def Await using kb self k by (cases "h = b") (auto simp: boot_goto_def init_steps_all)
  qed
qed

lemma past_upd: "past (s'\<lparr>hart_pc := (hart_pc s)(h \<mapsto> l)\<rparr>) g j \<longleftrightarrow> (if g = h then j < l else past s g j)"
  by (simp add: past_def)

lemma past_queue: "past (s\<lparr>boot_queue := q\<rparr>) g j \<longleftrightarrow> past s g j"
  by (simp add: past_def)

lemma boot_step_acts:
  assumes "boot_acts s"
  shows "boot_acts (boot_step h s)"
proof (rule boot_step_cases [where P = boot_acts, OF assms])
  fix k assume k: "hart_pc s h = Some k" "k < 25"
  have a: "acts s g = (case hart_pc s g of None \<Rightarrow> [] | Some k \<Rightarrow> take (k - 12) hart_acts)" for g using assms by (simp add: boot_acts_def)
  have b: "hart_booted s g = past s g 15" for g using assms by (simp add: boot_acts_def)
  have c: "i < 4 \<Longrightarrow> past s g (21 + i) \<Longrightarrow> hart_booted s i" for g i using assms unfolding boot_acts_def by blast
  have ph: "past s h j \<longleftrightarrow> j < k" for j using k(1) by (simp add: past_def)
  note defs = boot_acts_def boot_goto_def past_upd past_queue
  show "boot_acts (boot_exec (kernel_init ! k) h k s)"
  proof (cases "kernel_init ! k")
    case (If_First l)
    then have "k = 0" "l = 12" using kernel_init_at(1) k(2) by auto
    then show ?thesis unfolding If_First using a b c k ph by (auto simp: defs)
  next
    case (Init x)
    then have "1 \<le> k" "k \<le> 7" using kernel_init_at(2) k(2) by auto
    then show ?thesis unfolding Init using a b c k ph by (auto simp: defs)
  next
    case (Start_Hart i)
    then have "k = 8 + i" "i < 4" using kernel_init_at(3) k(2) by auto
    then show ?thesis unfolding Start_Hart using a b c k ph by (auto simp: defs past_def)
  next
    case (Act x)
    then have i: "12 \<le> k" "k \<le> 18" "x = hart_acts ! (k - 12)" using kernel_init_at(4) k(2) by auto
    have x: "x = Set_Booted \<longleftrightarrow> k = 15" using i by (auto simp: hart_acts_def nth_Cons' split: if_splits)
    show ?thesis unfolding Act using a b c k ph x i hart_acts_take [OF i(1,2)] by (auto simp: defs)
  next
    case Push_Task_Scheduler
    then have "k = 19" using kernel_init_at(5) k(2) by auto
    then show ?thesis unfolding Push_Task_Scheduler using a b c k ph by (auto simp: defs length_steps)
  next
    case Push_Init
    then have "k = 20" using kernel_init_at(6) k(2) by auto
    then show ?thesis unfolding Push_Init using a b c k ph by (auto simp: defs length_steps)
  next
    case (Await i)
    then have i: "k = 21 + i" "i < 4" using kernel_init_at(7) k(2) by auto
    have "g < i \<Longrightarrow> hart_booted s g" for g using c [of g h] ph i by simp
    then show ?thesis unfolding Await using a b c k ph i by (auto simp: defs length_steps less_Suc_eq)
  qed
qed

lemma boot_step_queued:
  assumes "boot_queued s"
  shows "boot_queued (boot_step h s)"
proof (rule boot_step_cases [where P = boot_queued, OF assms])
  fix k assume k: "hart_pc s h = Some k" "k < 25"
  have ph: "past s h j \<longleftrightarrow> j < k" for j using k(1) by (simp add: past_def)
  have move: "boot_queued s'" if "\<And>g j. j = 19 \<or> j = 20 \<Longrightarrow> past s' g j = past s g j" "boot_queue s' = boot_queue s" "next_pid s' = next_pid s" for s'
    using assms unfolding boot_queued_def that(2,3) that(1) [OF disjI1 [OF refl]] that(1) [OF disjI2 [OF refl]] .
  have next_new: "next_pid s \<notin> fst ` set (boot_queue s)" using assms by (fastforce simp: boot_queued_def split: if_splits)
  have zero_new: "Init_Process \<notin> snd ` set (boot_queue s) \<Longrightarrow> 0 \<notin> fst ` set (boot_queue s)"
    using assms by (force simp: boot_queued_def image_iff split: if_splits)
  show "boot_queued (boot_exec (kernel_init ! k) h k s)"
  proof (cases "kernel_init ! k")
    case (If_First l)
    then have "k = 0" "l = 12" using kernel_init_at(1) k(2) by auto
    then show ?thesis unfolding If_First by (intro move) (auto simp: boot_goto_def past_def k(1))
  next
    case (Init x)
    then have "k \<le> 7" using kernel_init_at(2) k(2) by auto
    then show ?thesis unfolding Init by (intro move) (auto simp: boot_goto_def past_def k(1))
  next
    case (Start_Hart i)
    then have "k = 8 + i" "i < 4" using kernel_init_at(3) k(2) by auto
    then show ?thesis unfolding Start_Hart by (intro move) (auto simp: boot_goto_def past_def k(1))
  next
    case (Act x)
    then have "k \<le> 18" using kernel_init_at(4) k(2) by auto
    then show ?thesis unfolding Act by (intro move) (auto simp: boot_goto_def past_def k(1))
  next
    case Push_Task_Scheduler
    then have "k = 19" using kernel_init_at(5) k(2) by auto
    then show ?thesis unfolding Push_Task_Scheduler using assms next_new ph
      by (auto simp: boot_queued_def boot_goto_def past_upd less_Suc_eq split: if_splits)
  next
    case Push_Init
    then have "k = 20" using kernel_init_at(6) k(2) by auto
    then show ?thesis unfolding Push_Init using assms zero_new ph
      by (cases "h = 0") (auto simp: boot_queued_def boot_goto_def past_upd split: if_splits)
  next
    case (Await i)
    then have "k = 21 + i" "i < 4" using kernel_init_at(7) k(2) by auto
    then show ?thesis unfolding Await by (intro move) (auto simp: boot_goto_def past_def k(1))
  qed
qed

section \<open>Reachable states\<close>

definition boot_inv :: "nat \<Rightarrow> boot \<Rightarrow> bool" where
  "boot_inv b s \<longleftrightarrow> boot_order b s \<and> boot_acts s \<and> boot_queued s"

inductive booting :: "nat \<Rightarrow> boot \<Rightarrow> bool" for b where
  booting_start: "booting b (boot_start b)"
| booting_step: "booting b s \<Longrightarrow> booting b (boot_step h s)"

lemma booting_inv: "booting b s \<Longrightarrow> boot_inv b s"
proof (induction rule: booting.induct)
  case booting_start
  show ?case by (auto simp: boot_inv_def boot_order_def boot_acts_def boot_queued_def boot_start_def past_def boot_harts_def)
next
  case (booting_step s h)
  then show ?case by (simp add: boot_inv_def boot_step_order boot_step_acts boot_step_queued)
qed

lemma booting_run: "booting b s \<Longrightarrow> booting b (fold boot_step hs s)"
  by (induction hs arbitrary: s) (auto intro: booting_step)

text \<open>
  C22. The order of the start, in every interleaving of the harts: a hart other than the first runs only when the whole initialisation
  of the kernel is done, each part once and in its order; and a hart enters its scheduler only when all harts are booted and
  have turned on paging, traps and interrupts.
\<close>

theorem boot_order_safe:
  assumes "booting b s"
  shows "(\<forall>h. h \<noteq> b \<longrightarrow> hart_pc s h \<noteq> None \<longrightarrow> inits s = init_steps) \<and>
    (\<forall>h g. in_scheduler s h \<longrightarrow> g < boot_harts \<longrightarrow> hart_booted s g \<and> take 3 (acts s g) = [Kvm_Init_Hart, Trap_Init_Hart, Plic_Init_Hart])"
proof -
  have inv: "boot_order b s" "boot_acts s" using booting_inv [OF assms(1)] by (simp_all add: boot_inv_def)
  have "inits s = init_steps" if "h \<noteq> b" "hart_pc s h \<noteq> None" for h
    using inv(1) that unfolding boot_order_def by (auto simp: init_steps_all)
  moreover have "hart_booted s g \<and> take 3 (acts s g) = [Kvm_Init_Hart, Trap_Init_Hart, Plic_Init_Hart]" if h: "in_scheduler s h" and g: "g < boot_harts" for h g
  proof -
    have "past s h (21 + g)" using h g by (simp add: past_def in_scheduler_def length_kernel_init boot_harts_def)
    then have bt: "hart_booted s g" using inv(2) g unfolding boot_acts_def boot_harts_def by blast
    then obtain k where k: "hart_pc s g = Some k" "15 < k" using inv(2) by (auto simp: boot_acts_def past_def)
    have "acts s g = take (k - 12) hart_acts" using inv(2) k(1) by (simp add: boot_acts_def)
    moreover have "min 3 (k - 12) = 3" using k(2) by linarith
    ultimately have "take 3 (acts s g) = take 3 hart_acts" by (simp only: take_take)
    then show ?thesis using bt by (simp add: hart_acts_def)
  qed
  ultimately show ?thesis by blast
qed

theorem boot_order_safe_witness:
  "hart_pc (fold boot_step (replicate 10 2) (boot_start 2)) 1 \<noteq> None \<and> inits (fold boot_step (replicate 10 2) (boot_start 2)) = init_steps"
proof -
  have b: "booting 2 (fold boot_step (replicate 10 2) (boot_start 2))" by (rule booting_run [OF booting_start])
  have pc: "hart_pc (fold boot_step (replicate 10 2) (boot_start 2)) 1 \<noteq> None" by code_simp
  have "inits (fold boot_step (replicate 10 2) (boot_start 2)) = init_steps"
    using conjunct1 [OF boot_order_safe [OF b]] pc by (elim allE [of _ "1 :: nat"]) simp
  then show ?thesis using pc by blast
qed

section \<open>The start comes to its end\<close>

definition boot_done :: "boot \<Rightarrow> bool" where
  "boot_done s \<longleftrightarrow> (\<forall>h<boot_harts. in_scheduler s h)"

definition hart_left :: "nat option \<Rightarrow> nat" where
  "hart_left p = (case p of None \<Rightarrow> 26 | Some k \<Rightarrow> 25 - k)"

definition boot_left :: "boot \<Rightarrow> nat" where
  "boot_left s = (\<Sum>h<4. hart_left (hart_pc s h))"

text \<open>A hart can move unless it is off, finished, or waiting for a hart that is not booted.\<close>

definition can_move :: "boot \<Rightarrow> nat \<Rightarrow> bool" where
  "can_move s h \<longleftrightarrow> h < 4 \<and> (\<exists>k<25. hart_pc s h = Some k \<and> (\<forall>i. kernel_init ! k = Await i \<longrightarrow> hart_booted s i))"

lemma hart_left_mono: "k < l \<Longrightarrow> k < 25 \<Longrightarrow> hart_left (Some l) < hart_left (Some k)" "hart_left (Some k) < hart_left None"
  by (auto simp: hart_left_def)

lemma boot_left_less:
  assumes "\<forall>g<4. hart_left (hart_pc s' g) \<le> hart_left (hart_pc s g)" and "h < 4" and "hart_left (hart_pc s' h) < hart_left (hart_pc s h)"
  shows "boot_left s' < boot_left s"
  unfolding boot_left_def using assms by (intro sum_strict_mono_ex1) auto

text \<open>The effect of a step on the program counters.\<close>

lemma boot_step_pc:
  assumes "can_move s h"
  obtains k l where "hart_pc s h = Some k" "k < l" "k < 25" "hart_pc (boot_step h s) h = Some l"
    "\<forall>g. g \<noteq> h \<longrightarrow> hart_pc (boot_step h s) g = hart_pc s g \<or> hart_pc s g = None"
    "\<forall>g. hart_booted s g \<longrightarrow> hart_booted (boot_step h s) g"
proof -
  obtain k where k: "hart_pc s h = Some k" "k < 25" "\<And>i. kernel_init ! k = Await i \<Longrightarrow> hart_booted s i" using assms by (auto simp: can_move_def)
  have e: "boot_step h s = boot_exec (kernel_init ! k) h k s" using k by (simp add: boot_step_def length_kernel_init)
  show thesis
  proof (rule that [OF k(1) _ k(2), of "if \<exists>l. kernel_init ! k = If_First l \<and> \<not> is_first s then 12 else Suc k"])
    show "k < (if \<exists>l. kernel_init ! k = If_First l \<and> \<not> is_first s then 12 else Suc k)" using kernel_init_at(1) [OF _ k(2)] by auto
  qed (unfold e, (cases "kernel_init ! k"; use k kernel_init_at(1) [OF _ k(2)] in \<open>auto simp: boot_goto_def\<close>)+)
qed

lemma boot_step_stuck: "\<not> can_move s h \<Longrightarrow> h < 4 \<Longrightarrow> boot_step h s = s"
  by (auto simp: can_move_def boot_step_def length_kernel_init split: option.splits)

lemma boot_step_left: "can_move s h \<Longrightarrow> boot_left (boot_step h s) < boot_left s"
proof -
  assume m: "can_move s h"
  obtain k l where p: "hart_pc s h = Some k" "k < l" "k < 25" "hart_pc (boot_step h s) h = Some l"
    "\<forall>g. g \<noteq> h \<longrightarrow> hart_pc (boot_step h s) g = hart_pc s g \<or> hart_pc s g = None"
    "\<forall>g. hart_booted s g \<longrightarrow> hart_booted (boot_step h s) g" by (rule boot_step_pc [OF m])
  have lt: "hart_left (hart_pc (boot_step h s) h) < hart_left (hart_pc s h)" unfolding p(1,4) by (rule hart_left_mono(1) [OF p(2,3)])
  have "hart_left (hart_pc (boot_step h s) g) \<le> hart_left (hart_pc s g)" for g
  proof (cases "g = h")
    case False
    then show ?thesis using p(5) False by (auto simp: hart_left_def split: option.splits)
  qed (use lt in simp)
  then show ?thesis using boot_left_less [of "boot_step h s" s h] lt m by (auto simp: can_move_def)
qed

text \<open>What can move stays so until it does.\<close>

lemma can_move_stable: "can_move s h \<Longrightarrow> g \<noteq> h \<Longrightarrow> g < 4 \<Longrightarrow> can_move (boot_step g s) h"
proof (cases "can_move s g")
  case True
  assume h: "can_move s h" "g \<noteq> h"
  obtain k l where "hart_pc s g = Some k" "k < l" "k < 25" "hart_pc (boot_step g s) g = Some l"
    "\<forall>f. f \<noteq> g \<longrightarrow> hart_pc (boot_step g s) f = hart_pc s f \<or> hart_pc s f = None"
    "\<forall>f. hart_booted s f \<longrightarrow> hart_booted (boot_step g s) f" by (rule boot_step_pc [OF True])
  then show ?thesis using h by (fastforce simp: can_move_def)
next
  case False
  then show "can_move s h \<Longrightarrow> g < 4 \<Longrightarrow> can_move (boot_step g s) h" by (simp add: boot_step_stuck)
qed

lemma round_left_le: "set hs \<subseteq> {..<4} \<Longrightarrow> boot_left (fold boot_step hs s) \<le> boot_left s"
proof (induction hs arbitrary: s)
  case (Cons g hs)
  have "boot_left (boot_step g s) \<le> boot_left s"
    using Cons.prems boot_step_left [of s g] boot_step_stuck [of s g] by (cases "can_move s g") auto
  then show ?case using Cons.IH [of "boot_step g s"] Cons.prems by simp
qed simp

lemma round_left: "\<lbrakk>can_move s h; h \<in> set hs; set hs \<subseteq> {..<4}\<rbrakk> \<Longrightarrow> boot_left (fold boot_step hs s) < boot_left s"
proof (induction hs arbitrary: s)
  case (Cons g hs)
  have le: "boot_left (fold boot_step hs (boot_step g s)) \<le> boot_left (boot_step g s)" using Cons.prems by (intro round_left_le) simp
  show ?case
  proof (cases "g = h")
    case True
    then show ?thesis using le boot_step_left [OF Cons.prems(1)] by simp
  next
    case False
    then have "can_move (boot_step g s) h" using Cons.prems by (intro can_move_stable) auto
    moreover have "h \<in> set hs" "set hs \<subseteq> {..<4}" using False Cons.prems by auto
    moreover have "boot_left (boot_step g s) \<le> boot_left s"
      using Cons.prems boot_step_left [of s g] boot_step_stuck [of s g] by (cases "can_move s g") auto
    ultimately show ?thesis using Cons.IH [of "boot_step g s"] by simp
  qed
qed simp

lemma someone_can_move:
  assumes "booting b s" and "b < 4" and "\<not> boot_done s"
  obtains h where "can_move s h"
proof -
  have inv: "boot_order b s" "boot_acts s" using booting_inv [OF assms(1)] by (simp_all add: boot_inv_def)
  obtain kb where kb: "hart_pc s b = Some kb" "kb \<le> 25" "\<And>h. h \<noteq> b \<Longrightarrow> (hart_pc s h \<noteq> None) = (h < 4 \<and> 8 + h < kb)"
    "\<And>h j. h \<noteq> b \<Longrightarrow> hart_pc s h = Some j \<Longrightarrow> j \<le> 25"
    using inv(1) unfolding boot_order_def by fastforce
  have early: "can_move s h" if "h < 4" "hart_pc s h = Some k" "k < 21" for h k
    using that kernel_init_at(7) [of k] by (auto simp: can_move_def)
  show thesis
  proof (cases "\<exists>h<4. \<exists>k<21. hart_pc s h = Some k")
    case True
    then show ?thesis using early that by blast
  next
    case False
    then have b21: "21 \<le> kb" using kb(1) assms(2) by (meson not_le)
    have pc: "\<exists>k. hart_pc s h = Some k \<and> 21 \<le> k \<and> k \<le> 25" if "h < 4" for h
    proof (cases "h = b")
      case False
      then have "hart_pc s h \<noteq> None" using kb(3) b21 that by simp
      then show ?thesis using kb(4) [OF False] \<open>\<not> (\<exists>h<4. \<exists>k<21. hart_pc s h = Some k)\<close> that by (metis not_Some_eq not_le)
    qed (use kb b21 in auto)
    then have bt: "hart_booted s h" if "h < 4" for h using inv(2) that unfolding boot_acts_def past_def by fastforce
    obtain h where h: "h < 4" "\<not> in_scheduler s h" using assms(3) by (auto simp: boot_done_def boot_harts_def)
    obtain k where k: "hart_pc s h = Some k" "k \<le> 25" using pc [OF h(1)] by blast
    then have "k < 25" using h(2) by (auto simp: in_scheduler_def length_kernel_init le_less)
    then have "can_move s h" using h(1) k(1) bt kernel_init_at(7) [of k] by (auto simp: can_move_def)
    then show ?thesis by (rule that)
  qed
qed

lemma rounds_finish:
  assumes "booting b s" and "b < 4" and "\<forall>hs\<in>set rounds. set hs = {..<4}" and "boot_left s \<le> length rounds"
  shows "boot_done (fold boot_step (concat rounds) s)"
  using assms
proof (induction rounds arbitrary: s)
  case Nil
  show ?case
  proof (rule ccontr)
    assume "\<not> boot_done (fold boot_step (concat []) s)"
    then obtain h where "can_move s h" using someone_can_move [OF Nil.prems(1,2)] by auto
    then show False using boot_step_left [of s h] Nil.prems(4) by simp
  qed
next
  case (Cons hs rounds)
  have bt: "booting b (fold boot_step hs s)" by (rule booting_run [OF Cons.prems(1)])
  show ?case
  proof (cases "boot_done s")
    case True
    then have "\<not> can_move s h" for h by (auto simp: can_move_def boot_done_def in_scheduler_def length_kernel_init boot_harts_def)
    then have st: "set gs \<subseteq> {..<4} \<Longrightarrow> fold boot_step gs s = s" for gs by (induction gs) (auto simp: boot_step_stuck)
    have "set (concat (hs # rounds)) \<subseteq> {..<4}" using Cons.prems(3) by auto
    then show ?thesis using st [of "concat (hs # rounds)"] True by simp
  next
    case False
    then obtain h where h: "can_move s h" using someone_can_move [OF Cons.prems(1,2)] by blast
    have "h \<in> set hs" "set hs \<subseteq> {..<4}" using h Cons.prems(3) by (auto simp: can_move_def)
    then have "boot_left (fold boot_step hs s) < boot_left s" by (rule round_left [OF h])
    then show ?thesis using Cons.IH [OF bt] Cons.prems by simp
  qed
qed

lemma queued_at_end:
  assumes "boot_order b s" and "boot_queued s" and "\<And>h. h < 4 \<Longrightarrow> hart_pc s h = Some 25" and "b < 4"
  shows "snd ` set (boot_queue s) = Task_Scheduler_Of ` {..<4} \<union> {Init_Process}"
proof -
  have none: "hart_pc s h = None" if "4 \<le> h" for h
  proof -
    have "h \<noteq> b" using that assms(4) by simp
    then show ?thesis using assms(1) that unfolding boot_order_def by auto
  qed
  have "Task_Scheduler_Of h \<in> snd ` set (boot_queue s) \<longleftrightarrow> h < 4" for h
    using assms(2,3) none by (cases "h < 4") (auto simp: boot_queued_def past_def)
  moreover have "Init_Process \<in> snd ` set (boot_queue s)" using assms(2) assms(3) [of 0] by (simp add: boot_queued_def past_def)
  ultimately have "x \<in> snd ` set (boot_queue s) \<longleftrightarrow> x \<in> Task_Scheduler_Of ` {..<4} \<union> {Init_Process}" for x by (cases x) auto
  then show ?thesis by blast
qed



end
