(* ===== verification/Spec2Isabelle.thy ===== *)
theory Spec2Isabelle
  imports List_Moves Nfs_Mount Buffer_Manager User_Copy Heap_Slots Ramdisk Shared_Ptr Dentry_Cache
    Process_Queue Spin_Lock Coro_Mutex Task_Schedule Virtio_Open Elf_Load Trap
    Open_File File_Output Buffer_Guard First_Program Context_Switch Runtime Boot
begin

text \<open>
  Verification development for the kernel of coro-core (\<open>src/os\<close>), a RISC-V kernel written in
  C++20 whose file system and drivers are coroutines.

  \<^bold>\<open>How the program is put together.\<close> A file system (nfs) stores inodes, directories and file data
  in blocks of a block device. It reads and writes them through a cache of block buffers, which
  keeps its nodes in intrusive lists and fetches blocks from a driver such as the ram disk. Names
  are resolved by the dentry cache, which holds its entries by reference-counted pointers. Below
  them the memory manager hands out pages and heap slots and builds the Sv39 page tables of the
  kernel and of user processes. All this code runs as tasks, coroutines that a scheduler of tasks
  resumes; the schedulers of tasks are kernel processes, which with the user processes are run by
  the process scheduler of each core. Tasks wait for each other on mutexes with wait queues, cores on
  spinlocks.

  \<^bold>\<open>How code becomes definitions.\<close> Every function of the source is one definition, named as in the
  source where the name is free. Code that changes state is a value of the kernel monad
  (\<open>Prelude\<close>): it returns a result and a new state, or fails. \<open>Task_Fail\<close> is a failed coroutine, which
  aborts the coroutines that await it; \<open>Panic\<close> is a failed \<open>kernel_assert\<close> or a \<open>panic\<close>;
  \<open>Undefined\<close> is an access the language leaves undefined (outside an array, through a null or
  deleted pointer). A theorem that an operation returns therefore also says that it stays inside
  its arrays and uses no freed memory. Machine integers are words of their width where the code
  can wrap, natural numbers where a guard of the code or a hypothesis excludes it. Loops are
  structural recursion, \<open>function\<close>s with a measure, or recursion on fuel that ends in \<open>Out_Of_Fuel\<close>;
  the theorems about loops on fuel show that the fuel the caller passes is enough.

  \<^bold>\<open>Theories.\<close>
  \<^item> \<open>Prelude\<close>: machine integers, arrays, the kernel monad.
  \<^item> \<open>Bitmap\<close> (\<open>utils/bitmap.h\<close>): search, set and clear; the search returns the least clear bit.
  \<^item> \<open>Linked_List\<close>, \<open>List_Moves\<close> (\<open>utils/list.h\<close>): doubly linked lists on an explicit heap of nodes
    with the node cache. Every operation refines the operation on the sequence of values, and
    the destructor frees every node.
  \<^item> \<open>Mem_Utils\<close> (\<open>mm/utils.cc\<close>), \<open>Byte_Codec\<close>: memory and string routines; integers as bytes.
  \<^item> \<open>Nfs_Layout\<close> (\<open>fs/nfs/common.h\<close>): the structures on disk and their bytes.
  \<^item> \<open>Nfs_Alloc\<close> (\<open>fs/nfs/nfs.cc\<close>): block buffers as the file system uses them, allocation of blocks.
  \<^item> \<open>Nfs_File\<close>, \<open>Nfs_Read\<close>, \<open>Nfs_Write\<close> (\<open>fs/nfs/inode.cc\<close>): the data of a file behind direct and
    indirect blocks. A read returns the bytes of the file, a write replaces exactly its range.
  \<^item> \<open>Nfs_Dir\<close>, \<open>Nfs_Names\<close>: directories and the inode table: lookup, link, unlink, creation and
    release of inodes.
  \<^item> \<open>Nfs_Mount\<close>: mount, unmount and \<open>make_fs\<close>; what is unmounted is mounted again.
  \<^item> \<open>Buffer_Manager\<close> (\<open>utils/buffer_manager.h\<close>, \<open>device/block/buf.h\<close>): the cache with its two critical
    sections, interleaved as steps of several tasks; it behaves as the array of blocks.
  \<^item> \<open>Object_Pool\<close>: the contract of an allocator as a locale, with the safety of any sequence of
    allocations and releases proved once. It is interpreted for pages and for heap slots.
  \<^item> \<open>Page_Alloc\<close> (\<open>mm/allocator.h\<close>): the free list of pages, threaded through the pages.
  \<^item> \<open>Page_Table\<close>, \<open>Page_Tree\<close>, \<open>Page_Map\<close>, \<open>Address_Space\<close>, \<open>User_Copy\<close> (\<open>mm/vmem.cc\<close>): page tables in
    the same memory, the tree of tables as a locale, mapping, unmapping, growing, copying; the
    mapping function that the tables represent; copies between kernel and user memory.
  \<^item> \<open>User_Space\<close>, \<open>Elf_Load\<close> (\<open>proc/elf.cc\<close>): the memory of a user process as a function from virtual addresses
    to bytes; the loader of programs. What a process finds in its memory is what the file says.
  \<^item> \<open>Heap_Alloc\<close>, \<open>Heap_Slots\<close> (\<open>mm/allocator.cc\<close>): size classes, blocks of slots, the base two
    logarithm by multiplication.
  \<^item> \<open>Ramdisk\<close> (\<open>drivers/ramdisk\<close>, \<open>device/device.h\<close>): a disk in pages behind a two-level index.
  \<^item> \<open>Shared_Ptr\<close> (\<open>utils/shared_ptr.h\<close>): reference counts and programs over pointer variables as a
    step relation; objects live exactly while a shared pointer points to them.
  \<^item> \<open>Dentry_Cache\<close> (\<open>fs/dentry.cc\<close>, \<open>utils/quick_string.h\<close>): the hash table of names and path resolution.

  \<^item> \<open>Coroutine\<close>, \<open>Coroutine_Run\<close>, \<open>Task_Schedule\<close> (\<open>coroutine.h\<close>, \<open>coroutine.cc\<close>, \<open>task_scheduler.h\<close>): promises,
    suspension points, failures, destruction of frames, the task queue. Running tasks on a scheduler
    gives the direct-style meaning of their code and frees every frame. This is what allows the other
    theories to write a coroutine as a value of the kernel monad.
  \<^item> \<open>Spin_Lock\<close> (\<open>atomic/spinlock.cc\<close>): cores that interleave at every memory access; mutual exclusion, and
    interrupts off while a lock is held.
  \<^item> \<open>Coro_Mutex\<close> (\<open>atomic/mutex.cc\<close>, \<open>utils/wait_queue.h\<close>): tasks that interleave at every step of \<open>lock\<close> and
    \<open>unlock\<close>; mutual exclusion, no lost wake-up.
  \<^item> \<open>Step_Frame\<close>: a locale for relations that every step of a piece of code respects.
  \<^item> \<open>Process\<close>, \<open>Process_Queue\<close> (\<open>proc/process.cc\<close>, \<open>proc/scheduler.cc\<close>, sleepers of \<open>arch/cpu.cc\<close>): the life of
    processes, the run queue, sleeping. An ended process never runs again, a ready one gets its
    turn, sleepers are woken in the order of their times.
  \<^item> \<open>Virtio_Disk\<close>, \<open>Virtio_Safe\<close>, \<open>Virtio_Run\<close>, \<open>Virtio_Open\<close> (\<open>drivers/virtio\<close>): the disk driver, its interrupt handler and the
    device as events that interleave over the shared rings. No event fails, every command is performed once,
    and the driver never comes to a standstill unless the device asks for a reset; opening the
    disk, with the retries at start-up.
  \<^item> \<open>Open_File\<close> (\<open>fs/file.h\<close>, the mutex of an inode from \<open>utils/buffer.h\<close>): a file object, its two locks, reading, writing
    and seeking, over the virtual methods of an inode. The locale \<open>byte_inode\<close> states what a file relies on; it is
    interpreted on the inodes of nfs, so that an open file refines an array of bytes with a position under any sequence of
    operations. A write that fails leaves the inode locked.
  \<^item> \<open>Format\<close>, \<open>File_Output\<close> (\<open>utils/printf.cc\<close>, \<open>utils/fprint.cc\<close>, \<open>utils/fprintf.h\<close>, \<open>drivers/console.h\<close>, \<open>utils/log.h\<close>): formatted output
    to the console and to files, the console as a file, the loggers and their ring of traces. What is printed for a
    number reads back as the number, both printing routines agree, and \<open>fprintf\<close> writes the text of its format through
    any file that satisfies the locale \<open>text_sink\<close>, of which the console is the instance.
  \<^item> \<open>Hart\<close>, \<open>Trap\<close> (\<open>arch/riscv.h\<close>, \<open>arch/timer.h\<close>, \<open>arch/cpu.h\<close>, \<open>trap/trap.cc\<close>, \<open>trap/trampoline.S\<close>, \<open>syscall\<close>): control registers,
    the timer, the interrupt controller; the way of a trap from the first instruction of the kernel back to the
    program or to the scheduler; system calls. Interrupts do not show in the code they interrupt, programs that fault end.
  \<^item> \<open>First_Program\<close> (\<open>proc/process.cc\<close>, \<open>test_load_elf\<close>): from the image of a program to a process that can be scheduled, with what is on its stack.
  \<^item> \<open>Context_Switch\<close> (\<open>arch/cpu.cc\<close>, \<open>trap/switch.S\<close>): \<open>swtch\<close> and the operations that use it; a process that yields is resumed with its registers.
  \<^item> \<open>Buffer_Guard\<close> (\<open>utils/buffer.h\<close>): the guards that hold a buffer; programs over them neither leak a buffer nor release it twice.
  \<^item> \<open>Runtime\<close> (\<open>cxx/icxxabi.cc\<close>): construction and destruction of static objects.
  \<^item> \<open>Boot\<close> (\<open>init.cc\<close>): \<open>kernel_init\<close> as a program that the harts run interleaved; the order of the start, and that every hart gets to its scheduler.

  \<^bold>\<open>Fuel.\<close> \<open>va_pages + 1\<close> iterations for the loops over a virtual range, since a range has at most
  \<open>va_pages = 2 ^ 52\<close> pages and the loop visits one page more than it has steps; \<open>2 ^ 52\<close> for the
  loops over physical pages; one iteration for each byte left in the loops over file data; one for
  each entry, and one for the end, in the scans of directories. The truncation of a file takes the length
  of its chain of indirect blocks as an argument, since a damaged chain may be a cycle.

  Chains of callers and of owned frames are bounded by the number of frames ever made, the tree of child
  processes by an argument of \<open>do_kill\<close>; the loop of a task scheduler takes the number of tasks it pops
  and of transfers of control, and the theorem about it shows that enough of both exists.

  \<^bold>\<open>Not modelled.\<close> The interleaving of tasks inside the file system: a task runs to its end,
  except in \<open>Buffer_Manager\<close> and \<open>Virtio_Disk\<close>, where the places a task can be suspended at are steps, and in \<open>Coro_Mutex\<close>. Critical
  sections are atomic outside \<open>Spin_Lock\<close> and \<open>Coro_Mutex\<close>. The entry code of the kernel's trap vector, halting and the
  machine-mode registers of \<open>arch/csr.h\<close> are assembly or name hardware only. What the kernel reads through its own page table is not
  translated: its pointers are physical addresses, so the glue of the vendored allocator, which maps kernel memory and
  is turned off at the start, is left out. The spinlock of the loggers and the dump of the stack in a panic are left out; a panic is an error value.
  \<open>circular_queue.h\<close> is not used and does not compile. The tests, the user programs and the vendored allocator are not part of the kernel's logic.
\<close>

end
